(* ===== verification/Prelude.thy ===== *)
theory Prelude
  imports Main "HOL-Library.Word"
begin

text \<open>
  Shared vocabulary of the development: the machine-integer types of the Rust sources, the
  integer operations of the Rust standard library that the sources use (checked, saturating
  and rounding-up arithmetic), and the generic facts on words, masks, options and lists on
  which the component proofs rest.

  \<^item> \<open>u8\<close>, \<open>u16\<close>, \<open>u32\<close>, \<open>u64\<close> and \<open>u128\<close> are words of the stated width: addition and subtraction on them wrap, which
    is what \<^verbatim>\<open>wrapping_add\<close> does and what a release build does for plain operators.
  \<^item> \<^verbatim>\<open>usize\<close> values that are only ever indices and lengths are \<^typ>\<open>nat\<close>.
  \<^item> \<^verbatim>\<open>Result<T, E>\<close> is the sum type with the error on the left.
\<close>

unbundle bit_operations_syntax

type_synonym u8 = "8 word"
type_synonym u16 = "16 word"
type_synonym u32 = "32 word"
type_synonym u64 = "64 word"
type_synonym u128 = "128 word"

named_theorems flag_simps \<open>reading a single flag bit through its mask constant\<close>
named_theorems wf_intros \<open>operations keep the well-formedness of their component\<close>

section \<open>Integer operations of the Rust standard library\<close>

definition checked_add :: "'a::len word \<Rightarrow> 'a word \<Rightarrow> 'a word option" where
  "checked_add a b = (if unat a + unat b < 2 ^ LENGTH('a) then Some (a + b) else None)"

definition saturating_add :: "'a::len word \<Rightarrow> 'a word \<Rightarrow> 'a word" where
  "saturating_add a b = (if unat a + unat b < 2 ^ LENGTH('a) then a + b else - 1)"

definition saturating_mul :: "'a::len word \<Rightarrow> 'a word \<Rightarrow> 'a word" where
  "saturating_mul a b = (if unat a * unat b < 2 ^ LENGTH('a) then a * b else - 1)"

text \<open>\<^verbatim>\<open>u64::div_ceil\<close>: the quotient, plus one when the remainder is positive.\<close>

definition div_ceil :: "'a::len word \<Rightarrow> 'a word \<Rightarrow> 'a word" where
  "div_ceil a b = (let d = a div b; r = a mod b in if r > 0 then d + 1 else d)"

text \<open>\<^verbatim>\<open>Option::or_else\<close> on values: the first option when it is present.\<close>

definition or_else :: "'a option \<Rightarrow> 'a option \<Rightarrow> 'a option" where
  "or_else a b = (case a of Some x \<Rightarrow> Some x | None \<Rightarrow> b)"

section \<open>Outcomes, slices and little-endian bytes\<close>

text \<open>
  How a call can fail to return a value: with the error value of its \<^verbatim>\<open>Result\<close>, with a panic
  (an index or slice out of range, an \<^verbatim>\<open>expect\<close>), or by running past the fuel that bounds
  the model of a loop. The last is what a loop that never ends would do, so a theorem that gives
  the value of a call also says that the loop ends.
\<close>

datatype 'e failure = Fail 'e | Panic | Diverge

text \<open>\<^verbatim>\<open>if let Err(err) = r { panic!(..) }\<close>: the infallible wrappers of the sources.\<close>

fun or_panic :: "'e failure + 'a \<Rightarrow> 'e failure + 'a" where
  "or_panic (Inr x) = Inr x"
| "or_panic (Inl Diverge) = Inl Diverge"
| "or_panic (Inl _) = Inl Panic"

text \<open>The \<^verbatim>\<open>?\<close> operator and \<^verbatim>\<open>Ok\<close>-mapping.\<close>

fun bind_ok :: "'e + 'a \<Rightarrow> ('a \<Rightarrow> 'e + 'b) \<Rightarrow> 'e + 'b" where
  "bind_ok (Inl e) f = Inl e"
| "bind_ok (Inr x) f = f x"

text \<open>The slice \<^verbatim>\<open>xs[a..a + n]\<close>, and copying \<open>ys\<close> over \<^verbatim>\<open>xs[a..a + ys.len()]\<close>; out of range is a panic.\<close>

definition slice_at :: "'a list \<Rightarrow> nat \<Rightarrow> nat \<Rightarrow> 'a list option" where
  "slice_at xs a n = (if a + n \<le> length xs then Some (take n (drop a xs)) else None)"

definition copy_at :: "'a list \<Rightarrow> nat \<Rightarrow> 'a list \<Rightarrow> 'a list option" where
  "copy_at xs a ys =
     (if a + length ys \<le> length xs then Some (take a xs @ ys @ drop (a + length ys) xs) else None)"

fun from_le_bytes :: "u8 list \<Rightarrow> 'a::len word" where
  "from_le_bytes [] = 0"
| "from_le_bytes (b # bs) = ucast b OR push_bit 8 (from_le_bytes bs)"

text \<open>\<^verbatim>\<open>to_le_bytes\<close> of a value that is \<open>n\<close> bytes wide.\<close>

definition to_le_bytes :: "nat \<Rightarrow> 'a::len word \<Rightarrow> u8 list" where
  "to_le_bytes n v = map (\<lambda>i. ucast (drop_bit (8 * i) v)) [0..<n]"

section \<open>Options and lists\<close>

lemma or_else_simps [simp]:
  "or_else None b = b"
  "or_else (Some x) b = Some x"
  by (simp_all add: or_else_def)

lemma or_else_eq_None [simp]: "or_else a b = None \<longleftrightarrow> a = None \<and> b = None"
  by (cases a) simp_all

lemma or_else_eq_Some: "or_else a b = Some x \<longleftrightarrow> a = Some x \<or> a = None \<and> b = Some x"
  by (cases a) simp_all

lemma find_upt_None: "find P [0..<n] = None \<longleftrightarrow> (\<forall>i<n. \<not> P i)"
  by (auto simp: find_None_iff)

lemma find_upt_SomeD: "find P [0..<n] = Some i \<Longrightarrow> i < n \<and> P i \<and> (\<forall>j<i. \<not> P j)"
  by (auto simp: find_Some_iff)

text \<open>A nested loop over two index ranges is one loop over the pairs.\<close>

lemma fold_fold_product:
  "fold (\<lambda>a. fold (f a) bs) as s = fold (\<lambda>(a, b). f a b) (List.product as bs) s"
proof (induction as arbitrary: s)
  case Nil
  then show ?case by simp
next
  case (Cons a as)
  have "fold (\<lambda>(a, b). f a b) (map (Pair a) cs) t = fold (f a) cs t" for cs t
    by (induction cs arbitrary: t) simp_all
  with Cons show ?case by simp
qed

text \<open>An invariant of the body is an invariant of the loop.\<close>

lemma fold_invariant_on:
  "P s \<Longrightarrow> (\<And>x t. x \<in> set xs \<Longrightarrow> P t \<Longrightarrow> P (f x t)) \<Longrightarrow> P (fold f xs s)"
  by (induction xs arbitrary: s) auto

section \<open>Words, flags and masks\<close>

lemma flag_clear_iff [flag_simps]: "x AND push_bit n 1 = 0 \<longleftrightarrow> \<not> bit x n"
  for x :: "'a::len word"
  by (simp add: bit_iff_and_push_bit_not_eq_0)

lemma bit_flag: "bit (push_bit n 1 :: 'a::len word) m \<longleftrightarrow> m = n \<and> n < LENGTH('a)"
  by (auto simp: bit_simps)

lemma unat_and_mask: "unat (x AND mask k) = unat x mod 2 ^ k"
  for x :: "'a::len word"
  by (metis take_bit_eq_mask take_bit_eq_mod unsigned_take_bit_eq)

lemma split_at_mask: "(x AND NOT (mask k)) + (x AND mask k) = x"
  for x :: "'a::len word"
proof -
  have "(x AND NOT (mask k)) AND (x AND mask k) = 0"
    by (rule bit_word_eqI) (simp add: bit_simps)
  then have "(x AND NOT (mask k)) + (x AND mask k) = (x AND NOT (mask k)) OR (x AND mask k)"
    by (rule disjunctive_add_eq_or)
  also have "\<dots> = x"
    by (rule bit_word_eqI) (auto simp add: bit_simps)
  finally show ?thesis .
qed

lemma minus_and_not_mask: "x - (x AND NOT (mask k)) = x AND mask k"
  for x :: "'a::len word"
  by (metis add_diff_cancel_left' split_at_mask)

lemma unat_and_not_mask: "unat (x AND NOT (mask k)) = unat x - unat x mod 2 ^ k"
  for x :: "'a::len word"
proof -
  have "x AND NOT (mask k) = x - (x AND mask k)"
    by (metis add_diff_cancel_right' split_at_mask)
  moreover have "x AND mask k \<le> x"
    by (simp add: word_and_le2)
  ultimately show ?thesis
    by (simp add: unat_and_mask unat_sub)
qed

lemma and_not_mask_le: "x AND NOT (mask k) \<le> x"
  for x :: "'a::len word"
  by (simp add: word_and_le2)

text \<open>
  Two addresses have the same aligned base exactly when the one lies in the aligned block
  that starts at the base of the other.
\<close>

lemma and_not_mask_idem [simp]: "(x AND NOT (mask k)) AND NOT (mask k) = x AND NOT (mask k)"
  for x :: "'a::len word"
  by (simp add: and.assoc)

lemma and_not_mask_block:
  "x AND NOT (mask k) = b \<Longrightarrow> unat b \<le> unat x \<and> unat x < unat b + 2 ^ k"
  for x :: "'a::len word"
proof -
  assume b: "x AND NOT (mask k) = b"
  have "unat x mod 2 ^ k < 2 ^ k" by simp
  moreover have "unat b = unat x - unat x mod 2 ^ k"
    using b unat_and_not_mask [of x k] by simp
  ultimately show ?thesis
    using mod_less_eq_dividend [of "unat x" "2 ^ k"] by linarith
qed

lemma unat_inc: "unat x < 2 ^ LENGTH('a) - 1 \<Longrightarrow> unat (x + 1) = unat x + 1"
  for x :: "'a::len word"
  by (simp add: unat_word_ariths)

lemma unat_dec: "0 < unat x \<Longrightarrow> unat (x - 1) = unat x - 1"
  for x :: "'a::len word"
  by (simp add: unat_minus_one unat_gt_0)

lemma unat_less: "unat x < 2 ^ LENGTH('a)" for x :: "'a::len word"
  by (rule unsigned_less)

lemma unat_drop_bit: "unat (drop_bit k x) = unat x div 2 ^ k"
  for x :: "'a::len word"
  by (simp add: unsigned_drop_bit_eq drop_bit_eq_div [of k "unat x"] take_bit_nat_eq_self)

lemma div_ceil_unat:
  assumes "0 < b"
  shows "unat (div_ceil a b) = (unat a + unat b - 1) div unat b"
proof -
  obtain n where n: "unat b = Suc n" using assms by (metis gr0_implies_Suc unat_gt_0 word_neq_0_conv)
  define q r where "q = unat a div unat b" and "r = unat a mod unat b"
  have qr: "unat a = q * Suc n + r" "r \<le> n"
    unfolding q_def r_def n using mod_less_divisor [of "Suc n" "unat a"]
    by (simp_all only: div_mult_mod_eq less_Suc_eq_le zero_less_Suc)
  have up: "(q * Suc n + r + n) div Suc n = (if 0 < r then q + 1 else q)"
  proof (cases "0 < r")
    case True
    then obtain m where "r = Suc m" by (cases r) auto
    then have "q * Suc n + r + n = m + (q + 1) * Suc n" by (simp add: algebra_simps)
    moreover have "m < Suc n" using qr(2) \<open>r = Suc m\<close> by simp
    ultimately show ?thesis using True
      by (metis Suc_neq_Zero add_0 div_less div_mult_self1 add.commute)
  next
    case False
    then have "q * Suc n + r + n = n + q * Suc n" by simp
    then show ?thesis using False
      by (metis Suc_neq_Zero add_0 div_less div_mult_self1 add.commute lessI)
  qed
  have lim: "0 < r \<Longrightarrow> q + 1 \<le> unat a"
    using qr by (cases "q = 0") (auto simp: algebra_simps)
  have d: "unat (a div b) = q" "unat (a mod b) = r"
    by (simp_all add: q_def r_def unat_div_distrib unat_mod_distrib)
  have "a mod b > 0 \<longleftrightarrow> 0 < r" by (metis d(2) unat_gt_0 word_neq_0_conv neq0_conv)
  moreover have "0 < r \<Longrightarrow> unat (a div b + 1) = q + 1"
    using lim d(1) unat_less [of a] by (subst unat_inc) (linarith, simp)
  ultimately show ?thesis
    using up d(1) by (simp add: div_ceil_def n qr(1) Let_def add.assoc)
qed

section \<open>Slices and bytes\<close>

lemma length_to_le_bytes [simp]: "length (to_le_bytes n v) = n"
  by (simp add: to_le_bytes_def)

lemma bit_from_le_bytes:
  "bit (from_le_bytes bs :: 'a::len word) i \<longleftrightarrow>
     i < LENGTH('a) \<and> i < 8 * length bs \<and> bit (bs ! (i div 8)) (i mod 8)"
proof (induction bs arbitrary: i)
  case Nil
  then show ?case by simp
next
  case (Cons b bs)
  show ?case
  proof (cases "i < 8")
    case True
    then show ?thesis by (auto simp: bit_simps)
  next
    case False
    then obtain j where j: "i = j + 8" by (metis le_add_diff_inverse2 not_less)
    have d: "(j + 8) div 8 = Suc (j div 8)" by simp
    have "\<not> bit b (j + 8)" by (auto simp: bit_simps dest: bit_imp_le_length)
    then show ?thesis
      using Cons.IH [of j] j d by (auto simp: bit_simps simp del: div_add_self2 dest: bit_imp_le_length)
  qed
qed

lemma from_to_le_bytes:
  assumes "LENGTH('a) = 8 * n"
  shows "from_le_bytes (to_le_bytes n v) = (v :: 'a::len word)"
proof (rule bit_word_eqI)
  fix i assume "i < LENGTH('a)"
  then show "bit (from_le_bytes (to_le_bytes n v) :: 'a word) i = bit v i"
    using assms by (auto simp: bit_from_le_bytes to_le_bytes_def bit_simps)
qed

lemma to_from_le_bytes:
  assumes "LENGTH('a) = 8 * length bs"
  shows "to_le_bytes (length bs) (from_le_bytes bs :: 'a::len word) = bs"
proof (rule nth_equalityI)
  fix i assume i: "i < length (to_le_bytes (length bs) (from_le_bytes bs :: 'a word))"
  show "to_le_bytes (length bs) (from_le_bytes bs :: 'a word) ! i = bs ! i"
  proof (rule bit_word_eqI)
    fix j assume "j < LENGTH(8)"
    then show "bit (to_le_bytes (length bs) (from_le_bytes bs :: 'a word) ! i) j = bit (bs ! i) j"
      using i assms by (auto simp: to_le_bytes_def bit_simps bit_from_le_bytes)
  qed
qed simp

lemma from_le_bytes_zeros [simp]: "from_le_bytes (replicate n 0) = 0"
  by (induction n) simp_all

lemma slice_at_Some: "a + n \<le> length xs \<Longrightarrow> slice_at xs a n = Some (map (\<lambda>i. xs ! (a + i)) [0..<n])"
  by (auto simp: slice_at_def intro!: nth_equalityI)

lemma copy_at_Some:
  "a + length ys \<le> length xs \<Longrightarrow>
     \<exists>zs. copy_at xs a ys = Some zs \<and> length zs = length xs \<and>
       (\<forall>i<length xs. zs ! i = (if a \<le> i \<and> i < a + length ys then ys ! (i - a) else xs ! i))"
  by (auto simp: copy_at_def nth_append)

lemma filter_update_None:
  assumes "i < length cs" "cs ! i = None"
  shows "length (filter (\<lambda>c. c \<noteq> None) (cs[i := Some b])) = Suc (length (filter (\<lambda>c. c \<noteq> None) cs))"
  using assms by (subst (2) id_take_nth_drop [of i cs]) (auto simp: upd_conv_take_nth_drop)

lemma filter_update_Some:
  assumes "i < length cs" "cs ! i \<noteq> None"
  shows "length (filter (\<lambda>c. c \<noteq> None) (cs[i := Some b])) = length (filter (\<lambda>c. c \<noteq> None) cs)"
  using assms by (subst (2) id_take_nth_drop [of i cs]) (auto simp: upd_conv_take_nth_drop)

end
