(* ===== verification/PhysicalMemory.thy ===== *)
theory PhysicalMemory
  imports Prelude
begin

text \<open>
  Sparse guest RAM, \<^verbatim>\<open>crates/aero-mem/src/physical_memory.rs\<close>. The RAM is a table of chunks of
  a power-of-two size; a chunk is allocated, filled with zeroes, by the first write to it and an
  absent chunk reads as zeroes. \<^verbatim>\<open>Vec<OnceLock<Chunk>>\<close> is a list of optional byte lists.

  The operations come first, in the order of the source. The contract follows: \<open>pm_byte\<close> is the
  flat byte at an address, \<open>pm_wf\<close> the invariant of the chunk table. Reads return exactly the flat
  bytes, writes change exactly the bytes of their range, both fail exactly when the range
  leaves the RAM, and no access panics or loops. The locale \<open>byte_store\<close> is the interface that
  clients see, and it is interpreted on these operations.

  The model is sequential: the read/write lock of a chunk is never contended and so never
  poisoned. \<^verbatim>\<open>usize\<close> is \<^typ>\<open>nat\<close>; the width of the platform only enters in \<open>with_options\<close>,
  as the parameter \<open>usize_max\<close>.
\<close>

section \<open>The chunk table\<close>

datatype PhysicalMemoryError =
    InvalidChunkSize nat
  | TooLarge u64 nat
  | OutOfBounds u64 nat u64

type_synonym 'a pm_result = "PhysicalMemoryError failure + 'a"

record PhysicalMemory =
  pm_len :: u64
  chunk_size :: nat
  chunk_shift :: nat
  chunk_mask :: u64
  chunks :: "u8 list option list"
  allocated_chunks :: nat

definition default_chunk_size :: nat where
  "default_chunk_size = 2 * 1024 * 1024"

definition Chunk_new :: "nat \<Rightarrow> u8 list" where
  "Chunk_new sz = replicate sz 0"

text \<open>\<^verbatim>\<open>usize::is_power_of_two\<close> and \<^verbatim>\<open>usize::trailing_zeros\<close>.\<close>

fun is_power_of_two :: "nat \<Rightarrow> bool" where
  "is_power_of_two n = (if n = 0 then False else if even n then is_power_of_two (n div 2) else n = 1)"

fun trailing_zeros :: "nat \<Rightarrow> nat" where
  "trailing_zeros n = (if n = 0 then 0 else if even n then Suc (trailing_zeros (n div 2)) else 0)"

declare is_power_of_two.simps [simp del] trailing_zeros.simps [simp del]

definition with_options :: "nat \<Rightarrow> u64 \<Rightarrow> nat \<Rightarrow> PhysicalMemory pm_result" where
  "with_options usize_max sz csz =
     (if csz < 4096 \<or> \<not> is_power_of_two csz then Inl (Fail (InvalidChunkSize csz))
      else
        let shift = trailing_zeros csz;
            msk = of_nat csz - 1;
            count = div_ceil sz (of_nat csz)
        in if unat count > usize_max then Inl (Fail (TooLarge sz csz))
           else Inr \<lparr> pm_len = sz, chunk_size = csz, chunk_shift = shift, chunk_mask = msk,
                      chunks = replicate (unat count) None, allocated_chunks = 0 \<rparr>)"

definition PhysicalMemory_new :: "nat \<Rightarrow> u64 \<Rightarrow> PhysicalMemory pm_result" where
  "PhysicalMemory_new usize_max sz = with_options usize_max sz default_chunk_size"

definition pm_is_empty :: "PhysicalMemory \<Rightarrow> bool" where
  "pm_is_empty pm = (pm_len pm = 0)"

definition check_bounds :: "PhysicalMemory \<Rightarrow> u64 \<Rightarrow> nat \<Rightarrow> unit pm_result" where
  "check_bounds pm addr n =
     (case checked_add addr (of_nat n) of
        None \<Rightarrow> Inl (Fail (OutOfBounds addr n (pm_len pm)))
      | Some e \<Rightarrow> if e > pm_len pm then Inl (Fail (OutOfBounds addr n (pm_len pm))) else Inr ())"

definition chunk_index :: "PhysicalMemory \<Rightarrow> u64 \<Rightarrow> nat" where
  "chunk_index pm addr = unat (drop_bit (chunk_shift pm) addr)"

definition chunk_offset :: "PhysicalMemory \<Rightarrow> u64 \<Rightarrow> nat" where
  "chunk_offset pm addr = unat (addr AND chunk_mask pm)"

definition get_chunk :: "PhysicalMemory \<Rightarrow> nat \<Rightarrow> u8 list option" where
  "get_chunk pm i = (if i < length (chunks pm) then chunks pm ! i else None)"

text \<open>The chunk of an index, allocated when it is absent; \<open>None\<close> is the index panic.\<close>

definition get_or_alloc_chunk :: "PhysicalMemory \<Rightarrow> nat \<Rightarrow> (PhysicalMemory \<times> u8 list) option" where
  "get_or_alloc_chunk pm i =
     (if i < length (chunks pm) then
        (case chunks pm ! i of
           Some c \<Rightarrow> Some (pm, c)
         | None \<Rightarrow>
             let c = Chunk_new (chunk_size pm)
             in Some (pm\<lparr>chunks := (chunks pm)[i := Some c],
                         allocated_chunks := allocated_chunks pm + 1\<rparr>, c))
      else None)"

text \<open>The write through the lock guard of a chunk.\<close>

definition put_chunk :: "PhysicalMemory \<Rightarrow> nat \<Rightarrow> u8 list \<Rightarrow> PhysicalMemory" where
  "put_chunk pm i c = pm\<lparr>chunks := (chunks pm)[i := Some c]\<rparr>"

section \<open>Byte ranges\<close>

text \<open>
  The part of a read or a write that lies in one chunk: \<open>n\<close> bytes from offset \<open>off\<close> of the chunk
  with index \<open>i\<close>.
\<close>

definition chunk_read :: "PhysicalMemory \<Rightarrow> nat \<Rightarrow> nat \<Rightarrow> nat \<Rightarrow> u8 list pm_result" where
  "chunk_read pm i off n =
     (case get_chunk pm i of
        Some c \<Rightarrow> (case slice_at c off n of Some bs \<Rightarrow> Inr bs | None \<Rightarrow> Inl Panic)
      | None \<Rightarrow> Inr (replicate n 0))"

definition chunk_write :: "PhysicalMemory \<Rightarrow> nat \<Rightarrow> nat \<Rightarrow> u8 list \<Rightarrow> PhysicalMemory pm_result" where
  "chunk_write pm i off src =
     (case get_or_alloc_chunk pm i of
        None \<Rightarrow> Inl Panic
      | Some (pm', c) \<Rightarrow>
          (case copy_at c off src of Some c' \<Rightarrow> Inr (put_chunk pm' i c') | None \<Rightarrow> Inl Panic))"

fun read_loop :: "nat \<Rightarrow> PhysicalMemory \<Rightarrow> u64 \<Rightarrow> nat \<Rightarrow> u8 list \<Rightarrow> u8 list pm_result" where
  "read_loop fuel pm cur_addr dst_offset dst =
     (if dst_offset < length dst then
        (case fuel of
           0 \<Rightarrow> Inl Diverge
         | Suc fuel' \<Rightarrow>
             let chunk_idx = chunk_index pm cur_addr;
                 chunk_off = chunk_offset pm cur_addr;
                 available = chunk_size pm - chunk_off;
                 remaining = length dst - dst_offset;
                 to_copy = min available remaining
             in bind_ok (chunk_read pm chunk_idx chunk_off to_copy) (\<lambda>bs.
                  case copy_at dst dst_offset bs of
                    None \<Rightarrow> Inl Panic
                  | Some dst' \<Rightarrow>
                      read_loop fuel' pm (cur_addr + of_nat to_copy) (dst_offset + to_copy) dst'))
      else Inr dst)"

definition try_read_bytes :: "PhysicalMemory \<Rightarrow> u64 \<Rightarrow> u8 list \<Rightarrow> u8 list pm_result" where
  "try_read_bytes pm addr dst =
     bind_ok (check_bounds pm addr (length dst)) (\<lambda>_.
       if dst = [] then Inr dst else read_loop (length dst) pm addr 0 dst)"

fun write_loop :: "nat \<Rightarrow> PhysicalMemory \<Rightarrow> u64 \<Rightarrow> nat \<Rightarrow> u8 list \<Rightarrow> PhysicalMemory pm_result" where
  "write_loop fuel pm cur_addr src_offset src =
     (if src_offset < length src then
        (case fuel of
           0 \<Rightarrow> Inl Diverge
         | Suc fuel' \<Rightarrow>
             let chunk_idx = chunk_index pm cur_addr;
                 chunk_off = chunk_offset pm cur_addr;
                 available = chunk_size pm - chunk_off;
                 remaining = length src - src_offset;
                 to_copy = min available remaining
             in case slice_at src src_offset to_copy of
                  None \<Rightarrow> Inl Panic
                | Some bs \<Rightarrow>
                    bind_ok (chunk_write pm chunk_idx chunk_off bs) (\<lambda>pm'.
                      write_loop fuel' pm' (cur_addr + of_nat to_copy) (src_offset + to_copy) src))
      else Inr pm)"

declare read_loop.simps [simp del] write_loop.simps [simp del]

definition try_write_bytes :: "PhysicalMemory \<Rightarrow> u64 \<Rightarrow> u8 list \<Rightarrow> PhysicalMemory pm_result" where
  "try_write_bytes pm addr src =
     bind_ok (check_bounds pm addr (length src)) (\<lambda>_.
       if src = [] then Inr pm else write_loop (length src) pm addr 0 src)"

definition read_bytes :: "PhysicalMemory \<Rightarrow> u64 \<Rightarrow> u8 list \<Rightarrow> u8 list pm_result" where
  "read_bytes pm addr dst = or_panic (try_read_bytes pm addr dst)"

definition write_bytes :: "PhysicalMemory \<Rightarrow> u64 \<Rightarrow> u8 list \<Rightarrow> PhysicalMemory pm_result" where
  "write_bytes pm addr src = or_panic (try_write_bytes pm addr src)"

section \<open>Integers\<close>

text \<open>
  The accessors for 2, 4, 8 and 16 bytes have one shape: an access that stays in one chunk
  goes to the chunk directly, any other goes through the byte loop.
\<close>

definition try_read_le :: "nat \<Rightarrow> PhysicalMemory \<Rightarrow> u64 \<Rightarrow> 'a::len word pm_result" where
  "try_read_le n pm addr =
     bind_ok (check_bounds pm addr n) (\<lambda>_.
       let chunk_idx = chunk_index pm addr; chunk_off = chunk_offset pm addr
       in if chunk_off + n \<le> chunk_size pm then
            (case get_chunk pm chunk_idx of
               Some c \<Rightarrow> (case slice_at c chunk_off n of
                            Some bs \<Rightarrow> Inr (from_le_bytes bs)
                          | None \<Rightarrow> Inl Panic)
             | None \<Rightarrow> Inr 0)
          else
            bind_ok (try_read_bytes pm addr (replicate n 0)) (\<lambda>buf. Inr (from_le_bytes buf)))"

definition try_write_le :: "nat \<Rightarrow> PhysicalMemory \<Rightarrow> u64 \<Rightarrow> 'a::len word \<Rightarrow> PhysicalMemory pm_result" where
  "try_write_le n pm addr v =
     bind_ok (check_bounds pm addr n) (\<lambda>_.
       let chunk_idx = chunk_index pm addr; chunk_off = chunk_offset pm addr
       in if chunk_off + n \<le> chunk_size pm then
            chunk_write pm chunk_idx chunk_off (to_le_bytes n v)
          else try_write_bytes pm addr (to_le_bytes n v))"

text \<open>The byte accessors have no second path: one byte is always in one chunk.\<close>

definition try_read_u8 :: "PhysicalMemory \<Rightarrow> u64 \<Rightarrow> u8 pm_result" where
  "try_read_u8 pm addr =
     bind_ok (check_bounds pm addr 1) (\<lambda>_.
       case get_chunk pm (chunk_index pm addr) of
         Some c \<Rightarrow> (if chunk_offset pm addr < length c then Inr (c ! chunk_offset pm addr) else Inl Panic)
       | None \<Rightarrow> Inr 0)"

definition try_write_u8 :: "PhysicalMemory \<Rightarrow> u64 \<Rightarrow> u8 \<Rightarrow> PhysicalMemory pm_result" where
  "try_write_u8 pm addr v =
     bind_ok (check_bounds pm addr 1) (\<lambda>_.
       case get_or_alloc_chunk pm (chunk_index pm addr) of
         None \<Rightarrow> Inl Panic
       | Some (pm', c) \<Rightarrow>
           if chunk_offset pm addr < length c
           then Inr (put_chunk pm' (chunk_index pm addr) (c[chunk_offset pm addr := v]))
           else Inl Panic)"

definition try_read_u16 :: "PhysicalMemory \<Rightarrow> u64 \<Rightarrow> u16 pm_result" where
  "try_read_u16 = try_read_le 2"
definition try_read_u32 :: "PhysicalMemory \<Rightarrow> u64 \<Rightarrow> u32 pm_result" where
  "try_read_u32 = try_read_le 4"
definition try_read_u64 :: "PhysicalMemory \<Rightarrow> u64 \<Rightarrow> u64 pm_result" where
  "try_read_u64 = try_read_le 8"
definition try_read_u128 :: "PhysicalMemory \<Rightarrow> u64 \<Rightarrow> u128 pm_result" where
  "try_read_u128 = try_read_le 16"

definition try_write_u16 :: "PhysicalMemory \<Rightarrow> u64 \<Rightarrow> u16 \<Rightarrow> PhysicalMemory pm_result" where
  "try_write_u16 = try_write_le 2"
definition try_write_u32 :: "PhysicalMemory \<Rightarrow> u64 \<Rightarrow> u32 \<Rightarrow> PhysicalMemory pm_result" where
  "try_write_u32 = try_write_le 4"
definition try_write_u64 :: "PhysicalMemory \<Rightarrow> u64 \<Rightarrow> u64 \<Rightarrow> PhysicalMemory pm_result" where
  "try_write_u64 = try_write_le 8"
definition try_write_u128 :: "PhysicalMemory \<Rightarrow> u64 \<Rightarrow> u128 \<Rightarrow> PhysicalMemory pm_result" where
  "try_write_u128 = try_write_le 16"

text \<open>The infallible wrappers \<^verbatim>\<open>read_u8\<close> to \<^verbatim>\<open>write_u128\<close>.\<close>

definition read_u8 :: "PhysicalMemory \<Rightarrow> u64 \<Rightarrow> u8 pm_result" where
  "read_u8 pm addr = or_panic (try_read_u8 pm addr)"
definition read_u16 :: "PhysicalMemory \<Rightarrow> u64 \<Rightarrow> u16 pm_result" where
  "read_u16 pm addr = or_panic (try_read_u16 pm addr)"
definition read_u32 :: "PhysicalMemory \<Rightarrow> u64 \<Rightarrow> u32 pm_result" where
  "read_u32 pm addr = or_panic (try_read_u32 pm addr)"
definition read_u64 :: "PhysicalMemory \<Rightarrow> u64 \<Rightarrow> u64 pm_result" where
  "read_u64 pm addr = or_panic (try_read_u64 pm addr)"
definition read_u128 :: "PhysicalMemory \<Rightarrow> u64 \<Rightarrow> u128 pm_result" where
  "read_u128 pm addr = or_panic (try_read_u128 pm addr)"

definition write_u8 :: "PhysicalMemory \<Rightarrow> u64 \<Rightarrow> u8 \<Rightarrow> PhysicalMemory pm_result" where
  "write_u8 pm addr v = or_panic (try_write_u8 pm addr v)"
definition write_u16 :: "PhysicalMemory \<Rightarrow> u64 \<Rightarrow> u16 \<Rightarrow> PhysicalMemory pm_result" where
  "write_u16 pm addr v = or_panic (try_write_u16 pm addr v)"
definition write_u32 :: "PhysicalMemory \<Rightarrow> u64 \<Rightarrow> u32 \<Rightarrow> PhysicalMemory pm_result" where
  "write_u32 pm addr v = or_panic (try_write_u32 pm addr v)"
definition write_u64 :: "PhysicalMemory \<Rightarrow> u64 \<Rightarrow> u64 \<Rightarrow> PhysicalMemory pm_result" where
  "write_u64 pm addr v = or_panic (try_write_u64 pm addr v)"
definition write_u128 :: "PhysicalMemory \<Rightarrow> u64 \<Rightarrow> u128 \<Rightarrow> PhysicalMemory pm_result" where
  "write_u128 pm addr v = or_panic (try_write_u128 pm addr v)"

section \<open>Chunk sizes\<close>

lemma is_power_of_two_iff: "is_power_of_two n \<longleftrightarrow> (\<exists>k. n = 2 ^ k)"
proof (induction n rule: is_power_of_two.induct)
  case (1 n)
  show ?case
  proof (cases "n \<noteq> 0 \<and> even n")
    case True
    then obtain m where m: "n = 2 * m" "m \<noteq> 0" by auto
    have "(\<exists>k. 2 * m = 2 ^ k) \<longleftrightarrow> (\<exists>k. m = 2 ^ k)"
    proof
      assume "\<exists>k. 2 * m = 2 ^ k"
      then obtain k where k: "2 * m = 2 ^ k" by blast
      then have "k \<noteq> 0" by (intro notI) simp
      with k show "\<exists>k. m = 2 ^ k" by (cases k) auto
    next
      assume "\<exists>k. m = 2 ^ k"
      then obtain k where "m = 2 ^ k" by blast
      then have "2 * m = 2 ^ Suc k" by simp
      then show "\<exists>k. 2 * m = 2 ^ k" by blast
    qed
    with 1 True m show ?thesis by (simp add: is_power_of_two.simps [of "2 * m"])
  next
    case False
    then have "is_power_of_two n \<longleftrightarrow> n = 1" by (auto simp: is_power_of_two.simps [of n])
    moreover have "(\<exists>k. n = 2 ^ k) \<longleftrightarrow> n = 1"
      proof
      assume "\<exists>k. n = 2 ^ k"
      then obtain k where "n = 2 ^ k" by blast
      with False show "n = 1" by (cases k) simp_all
    next
      assume "n = 1"
      then have "n = 2 ^ 0" by simp
      then show "\<exists>k. n = 2 ^ k" by blast
    qed
    ultimately show ?thesis by simp
  qed
qed

lemma trailing_zeros_pow [simp]: "trailing_zeros (2 ^ k) = k"
  by (induction k) (simp_all add: trailing_zeros.simps)

lemma of_nat_pow_minus_1: "of_nat (2 ^ k) - 1 = (mask k :: 'a::len word)"
  by (simp add: mask_eq_exp_minus_1)

section \<open>The flat view and the invariant\<close>

definition pm_byte :: "PhysicalMemory \<Rightarrow> nat \<Rightarrow> u8" where
  "pm_byte pm a =
     (case get_chunk pm (a div chunk_size pm) of Some c \<Rightarrow> c ! (a mod chunk_size pm) | None \<Rightarrow> 0)"

definition pm_bytes :: "PhysicalMemory \<Rightarrow> nat \<Rightarrow> nat \<Rightarrow> u8 list" where
  "pm_bytes pm a n = map (\<lambda>i. pm_byte pm (a + i)) [0..<n]"

definition pm_wf :: "PhysicalMemory \<Rightarrow> bool" where
  "pm_wf pm \<longleftrightarrow>
     12 \<le> chunk_shift pm \<and> chunk_shift pm < 64 \<and>
     chunk_size pm = 2 ^ chunk_shift pm \<and> chunk_mask pm = mask (chunk_shift pm) \<and>
     length (chunks pm) = (unat (pm_len pm) + chunk_size pm - 1) div chunk_size pm \<and>
     (\<forall>c \<in> set (chunks pm). \<forall>bs. c = Some bs \<longrightarrow> length bs = chunk_size pm) \<and>
     allocated_chunks pm = length (filter (\<lambda>c. c \<noteq> None) (chunks pm))"

lemma length_pm_bytes [simp]: "length (pm_bytes pm a n) = n"
  by (simp add: pm_bytes_def)

lemma pm_bytes_add: "pm_bytes pm a (m + n) = pm_bytes pm a m @ pm_bytes pm (a + m) n"
  by (auto simp: pm_bytes_def nth_append intro!: nth_equalityI)

lemma pm_size_pos: "pm_wf pm \<Longrightarrow> 0 < chunk_size pm"
  by (simp add: pm_wf_def)

lemma index_offset:
  "pm_wf pm \<Longrightarrow> chunk_index pm addr = unat addr div chunk_size pm"
  "pm_wf pm \<Longrightarrow> chunk_offset pm addr = unat addr mod chunk_size pm"
  by (simp_all add: pm_wf_def chunk_index_def chunk_offset_def unat_and_mask unat_drop_bit)

lemma chunk_in_table:
  assumes "pm_wf pm" "a < unat (pm_len pm)"
  shows "a div chunk_size pm < length (chunks pm)"
proof -
  have p: "0 < chunk_size pm" using assms pm_size_pos by blast
  then have "a div chunk_size pm + 1 = (a + chunk_size pm) div chunk_size pm"
    by (simp only: div_add_self2 neq0_conv)
  also have "\<dots> \<le> (unat (pm_len pm) + chunk_size pm - 1) div chunk_size pm"
    using assms(2) by (intro div_le_mono) simp
  finally show ?thesis using assms(1) by (simp add: pm_wf_def)
qed

lemma check_bounds_iff:
  assumes "n < 2 ^ 64"
  shows "check_bounds pm addr n =
    (if unat addr + n \<le> unat (pm_len pm) then Inr () else Inl (Fail (OutOfBounds addr n (pm_len pm))))"
proof -
  have n: "unat (of_nat n :: u64) = n" using assms by (simp add: unat_of_nat)
  show ?thesis
  proof (cases "unat addr + n < 2 ^ 64")
    case True
    then have "unat (addr + of_nat n) = unat addr + n"
      using n by (simp add: unat_word_ariths)
    then show ?thesis using True n
      by (auto simp: check_bounds_def checked_add_def word_less_nat_alt)
  next
    case False
    then show ?thesis using n unat_less [of "pm_len pm"]
      by (auto simp: check_bounds_def checked_add_def)
  qed
qed

lemma get_chunk_length: "pm_wf pm \<Longrightarrow> get_chunk pm i = Some c \<Longrightarrow> length c = chunk_size pm"
  by (auto simp: get_chunk_def pm_wf_def split: if_splits) (metis nth_mem)

lemma same_chunk:
  assumes "i < chunk_size pm - a mod chunk_size pm"
  shows "(a + i) div chunk_size pm = a div chunk_size pm"
    "(a + i) mod chunk_size pm = a mod chunk_size pm + i"
proof -
  let ?c = "chunk_size pm"
  have p: "0 < ?c" and l: "a mod ?c + i < ?c" using assms by simp_all
  have e: "a + i = (a mod ?c + i) + (a div ?c) * ?c" by simp
  show "(a + i) div ?c = a div ?c"
    by (subst e, subst div_mult_self1) (use p l in simp_all)
  show "(a + i) mod ?c = a mod ?c + i"
    by (subst e, subst mod_mult_self1) (use l in simp)
qed

lemma chunk_read_bytes:
  assumes "pm_wf pm" "n \<le> chunk_size pm - unat addr mod chunk_size pm"
  shows "chunk_read pm (chunk_index pm addr) (chunk_offset pm addr) n = Inr (pm_bytes pm (unat addr) n)"
proof (cases "get_chunk pm (unat addr div chunk_size pm)")
  case None
  then show ?thesis using assms
    by (auto simp: chunk_read_def index_offset pm_bytes_def pm_byte_def same_chunk intro!: nth_equalityI)
next
  case (Some c)
  then have "length c = chunk_size pm" using assms get_chunk_length by blast
  moreover have "unat addr mod chunk_size pm < chunk_size pm"
    using pm_size_pos [OF assms(1)] by simp
  ultimately show ?thesis using assms Some
    by (auto simp: chunk_read_def index_offset pm_bytes_def pm_byte_def same_chunk slice_at_Some)
qed

text \<open>The loop of a read ends within its fuel and returns the flat bytes.\<close>

lemma read_loop_bytes:
  assumes "pm_wf pm" "unat addr + length dst \<le> unat (pm_len pm)"
  shows "off \<le> length dst \<Longrightarrow> length dst - off \<le> fuel \<Longrightarrow>
    read_loop fuel pm (addr + of_nat off) off dst =
      Inr (take off dst @ pm_bytes pm (unat addr + off) (length dst - off))"
  using assms(2)
proof (induction fuel arbitrary: off dst)
  case 0
  then show ?case by (simp add: read_loop.simps pm_bytes_def)
next
  case (Suc fuel)
  let ?a = "addr + of_nat off"
  define n where "n = min (chunk_size pm - unat ?a mod chunk_size pm) (length dst - off)"
  show ?case
  proof (cases "off < length dst")
    case False
    then show ?thesis using Suc.prems by (simp add: read_loop.simps pm_bytes_def)
  next
    case True
    have a: "unat ?a = unat addr + off"
      using True Suc.prems unat_less [of "pm_len pm"] by (simp add: unat_word_ariths unat_of_nat)
    have n: "0 < n" "off + n \<le> length dst" "n \<le> chunk_size pm - unat ?a mod chunk_size pm"
      using True pm_size_pos [OF assms(1)] mod_less_divisor [of "chunk_size pm" "unat ?a"]
      by (auto simp: n_def)
    let ?bs = "pm_bytes pm (unat addr + off) n"
    let ?dst = "take off dst @ ?bs @ drop (off + n) dst"
    have "read_loop (Suc fuel) pm ?a off dst = read_loop fuel pm (addr + of_nat (off + n)) (off + n) ?dst"
      using True n chunk_read_bytes [OF assms(1) n(3)] n_def a
      by (subst read_loop.simps) (simp add: Let_def index_offset [OF assms(1)] copy_at_def add.assoc)
    also have "\<dots> = Inr (take (off + n) ?dst @ pm_bytes pm (unat addr + (off + n)) (length ?dst - (off + n)))"
      using n Suc.prems by (intro Suc.IH) auto
    also have "\<dots> = Inr (take off dst @ pm_bytes pm (unat addr + off) (n + (length dst - off - n)))"
      unfolding pm_bytes_add using n by (simp add: add.assoc)
    finally show ?thesis using n by simp
  qed
qed

lemma try_read_bytes_eq:
  assumes "pm_wf pm" "length dst < 2 ^ 64"
  shows "try_read_bytes pm addr dst =
    (if unat addr + length dst \<le> unat (pm_len pm) then Inr (pm_bytes pm (unat addr) (length dst))
     else Inl (Fail (OutOfBounds addr (length dst) (pm_len pm))))"
  using read_loop_bytes [OF assms(1), of addr dst 0 "length dst"] assms(2)
  by (auto simp: try_read_bytes_def check_bounds_iff pm_bytes_def)

section \<open>Writes\<close>

text \<open>What a successful write of \<open>bs\<close> at flat address \<open>a\<close> does.\<close>

definition pm_updated :: "PhysicalMemory \<Rightarrow> nat \<Rightarrow> u8 list \<Rightarrow> PhysicalMemory \<Rightarrow> bool" where
  "pm_updated pm a bs pm' \<longleftrightarrow>
     pm_wf pm' \<and> pm_len pm' = pm_len pm \<and> chunk_size pm' = chunk_size pm \<and>
     length (chunks pm') = length (chunks pm) \<and>
     (\<forall>x < unat (pm_len pm). pm_byte pm' x =
        (if x \<in> {a..<a + length bs} then bs ! (x - a) else pm_byte pm x)) \<and>
     (\<forall>i < length (chunks pm). chunks pm' ! i \<noteq> None \<longleftrightarrow>
        chunks pm ! i \<noteq> None \<or> i \<in> (\<lambda>x. x div chunk_size pm) ` {a..<a + length bs})"

lemma pm_updated_Nil: "pm_wf pm \<Longrightarrow> pm_updated pm a [] pm"
  by (simp add: pm_updated_def)

lemma pm_updated_append:
  assumes one: "pm_updated pm a bs pm'" and two: "pm_updated pm' (a + length bs) cs pm''"
  shows "pm_updated pm a (bs @ cs) pm''"
proof -
  let ?r = "{a..<a + length bs}" and ?s = "{a + length bs..<a + length bs + length cs}"
  have r: "{a..<a + length (bs @ cs)} = ?r \<union> ?s" by auto
  have "pm_byte pm'' x = (if x \<in> ?r \<union> ?s then (bs @ cs) ! (x - a) else pm_byte pm x)"
    if "x < unat (pm_len pm)" for x
    using one two that unfolding pm_updated_def by (simp add: nth_append) linarith
  moreover have "chunks pm'' ! i \<noteq> None \<longleftrightarrow>
      chunks pm ! i \<noteq> None \<or> i \<in> (\<lambda>x. x div chunk_size pm) ` (?r \<union> ?s)"
    if "i < length (chunks pm)" for i
    using one two that unfolding pm_updated_def image_Un by simp
  ultimately show ?thesis
    using one two unfolding pm_updated_def r by simp
qed

lemma alloc_chunk:
  assumes "pm_wf pm" "i < length (chunks pm)"
  obtains pm' c where "get_or_alloc_chunk pm i = Some (pm', c)" "length c = chunk_size pm"
    "\<And>c'. length c' = chunk_size pm \<Longrightarrow>
       pm_wf (put_chunk pm' i c') \<and> chunks (put_chunk pm' i c') = (chunks pm)[i := Some c']"
    "\<And>c'. pm_len (put_chunk pm' i c') = pm_len pm \<and> chunk_size (put_chunk pm' i c') = chunk_size pm"
    "\<And>o'. c ! o' = (case chunks pm ! i of Some b \<Rightarrow> b ! o' | None \<Rightarrow> Chunk_new (chunk_size pm) ! o')"
proof (cases "chunks pm ! i")
  case None
  show ?thesis
  proof (rule that)
    show "get_or_alloc_chunk pm i =
      Some (pm\<lparr>chunks := (chunks pm)[i := Some (Chunk_new (chunk_size pm))],
               allocated_chunks := allocated_chunks pm + 1\<rparr>, Chunk_new (chunk_size pm))"
      using None assms by (simp add: get_or_alloc_chunk_def Let_def)
  qed (use None assms filter_update_None [of i "chunks pm"] in
      \<open>auto simp: Chunk_new_def put_chunk_def pm_wf_def dest: set_update_subset_insert [THEN subsetD]\<close>)
next
  case (Some b)
  show ?thesis
  proof (rule that)
    show "get_or_alloc_chunk pm i = Some (pm, b)"
      using Some assms by (simp add: get_or_alloc_chunk_def)
    show "length b = chunk_size pm"
      using Some assms get_chunk_length [of pm i b] by (simp add: get_chunk_def)
  qed (use Some assms filter_update_Some [of i "chunks pm"] in
      \<open>auto simp: put_chunk_def pm_wf_def dest: set_update_subset_insert [THEN subsetD]\<close>)
qed

lemma chunk_range:
  assumes "n \<le> chunk_size pm - a mod chunk_size pm"
  shows "x div chunk_size pm = a div chunk_size pm \<and>
      a mod chunk_size pm \<le> x mod chunk_size pm \<and> x mod chunk_size pm < a mod chunk_size pm + n
    \<longleftrightarrow> x \<in> {a..<a + n}" (is "?L \<longleftrightarrow> ?R")
proof
  let ?c = "chunk_size pm"
  assume ?L
  then have "x = a div ?c * ?c + x mod ?c" "a = a div ?c * ?c + a mod ?c"
    by (metis div_mult_mod_eq)+
  with \<open>?L\<close> show ?R
    by (metis add_le_cancel_left add_less_cancel_left atLeastLessThan_iff add.assoc)
next
  assume ?R
  then obtain k where "x = a + k" "k < n"
    by (metis atLeastLessThan_iff le_add_diff_inverse nat_add_left_cancel_less)
  then show ?L using same_chunk [of k pm a] assms by auto
qed

lemma chunk_write_updates:
  assumes wf: "pm_wf pm" and bs: "bs \<noteq> []"
    and fit: "length bs \<le> chunk_size pm - unat addr mod chunk_size pm"
    and inr: "unat addr + length bs \<le> unat (pm_len pm)"
  obtains pm' where
    "chunk_write pm (chunk_index pm addr) (chunk_offset pm addr) bs = Inr pm'"
    "pm_updated pm (unat addr) bs pm'"
proof -
  let ?c = "chunk_size pm" and ?a = "unat addr"
  let ?i = "?a div ?c"
  have i: "?i < length (chunks pm)" using chunk_in_table [OF wf] bs inr by (cases bs) auto
  have p: "0 < ?c" using wf pm_size_pos by blast
  obtain pm1 c where alloc: "get_or_alloc_chunk pm ?i = Some (pm1, c)" and lc: "length c = ?c"
    and put: "\<And>c'. length c' = ?c \<Longrightarrow>
       pm_wf (put_chunk pm1 ?i c') \<and> chunks (put_chunk pm1 ?i c') = (chunks pm)[?i := Some c']"
      "\<And>c'. pm_len (put_chunk pm1 ?i c') = pm_len pm \<and> chunk_size (put_chunk pm1 ?i c') = ?c"
    and cell: "\<And>o'. c ! o' = (case chunks pm ! ?i of Some b \<Rightarrow> b ! o' | None \<Rightarrow> Chunk_new ?c ! o')"
    using alloc_chunk [OF wf i] by metis
  have off: "?a mod ?c + length bs \<le> length c"
    using fit lc mod_less_divisor [OF p, of ?a] by linarith
  obtain c' where c': "copy_at c (?a mod ?c) bs = Some c'" "length c' = ?c"
    and new: "\<And>j. j < ?c \<Longrightarrow> c' ! j = (if ?a mod ?c \<le> j \<and> j < ?a mod ?c + length bs
                                     then bs ! (j - ?a mod ?c) else c ! j)"
    using copy_at_Some [OF off] lc by metis
  let ?pm = "put_chunk pm1 ?i c'"
  note range = chunk_range [OF fit]
  have "pm_byte ?pm x = (if x \<in> {?a..<?a + length bs} then bs ! (x - ?a) else pm_byte pm x)"
    if "x < unat (pm_len pm)" for x
  proof (cases "x div ?c = ?i")
    case True
    have "pm_byte ?pm x = c' ! (x mod ?c)"
      using True i put c'(2) by (simp add: pm_byte_def get_chunk_def)
    moreover have "pm_byte pm x = c ! (x mod ?c)"
      using True i p by (simp add: pm_byte_def get_chunk_def cell Chunk_new_def split: option.split)
    moreover have "x - ?a = x mod ?c - ?a mod ?c"
      using True by (metis add_diff_cancel_left div_mult_mod_eq)
    ultimately show ?thesis using True new [of "x mod ?c"] range [of x] p by auto
  next
    case False
    then have "pm_byte ?pm x = pm_byte pm x"
      using put c'(2) by (simp add: pm_byte_def get_chunk_def split: option.split)
    then show ?thesis using False range [of x] by auto
  qed
  moreover have "(\<lambda>x. x div ?c) ` {?a..<?a + length bs} = {?i}"
    using range bs by (force simp: image_iff)
  ultimately have "pm_updated pm ?a bs ?pm"
    using put c'(2) i by (simp add: pm_updated_def nth_list_update)
  moreover have "chunk_write pm (chunk_index pm addr) (chunk_offset pm addr) bs = Inr ?pm"
    using alloc c' by (simp add: chunk_write_def index_offset [OF wf])
  ultimately show ?thesis using that by blast
qed

text \<open>The loop of a write ends within its fuel and makes exactly the update.\<close>

lemma write_loop_updates:
  assumes "off \<le> length src" "length src - off \<le> fuel"
    and "pm_wf pm" "unat addr + length src \<le> unat (pm_len pm)"
  shows "\<exists>pm'. write_loop fuel pm (addr + of_nat off) off src = Inr pm' \<and>
    pm_updated pm (unat addr + off) (drop off src) pm'"
  using assms
proof (induction fuel arbitrary: off pm)
  case 0
  then show ?case by (simp add: write_loop.simps pm_updated_Nil)
next
  case (Suc fuel)
  let ?a = "addr + of_nat off"
  define n where "n = min (chunk_size pm - unat ?a mod chunk_size pm) (length src - off)"
  show ?case
  proof (cases "off < length src")
    case False
    then show ?thesis using Suc.prems by (simp add: write_loop.simps pm_updated_Nil)
  next
    case True
    note wf = \<open>pm_wf pm\<close>
    have a: "unat ?a = unat addr + off"
      using True Suc.prems unat_less [of "pm_len pm"] by (simp add: unat_word_ariths unat_of_nat)
    have n: "0 < n" "off + n \<le> length src" "n \<le> chunk_size pm - unat ?a mod chunk_size pm"
      using True pm_size_pos [OF wf] mod_less_divisor [of "chunk_size pm" "unat ?a"]
      by (auto simp: n_def)
    let ?bs = "take n (drop off src)"
    have bs: "slice_at src off n = Some ?bs" "length ?bs = n" "?bs \<noteq> []"
      using n True by (auto simp: slice_at_def)
    obtain pm1 where w: "chunk_write pm (chunk_index pm ?a) (chunk_offset pm ?a) ?bs = Inr pm1"
      and one: "pm_updated pm (unat addr + off) ?bs pm1"
      using chunk_write_updates [OF wf bs(3), of ?a] n bs(2) a Suc.prems by auto
    have "write_loop (Suc fuel) pm ?a off src = write_loop fuel pm1 (addr + of_nat (off + n)) (off + n) src"
      using True n bs w n_def
      by (subst write_loop.simps) (simp add: Let_def index_offset [OF wf] add.assoc)
    moreover have "\<exists>pm'. write_loop fuel pm1 (addr + of_nat (off + n)) (off + n) src = Inr pm' \<and>
        pm_updated pm1 (unat addr + (off + n)) (drop (off + n) src) pm'"
      using n Suc.prems one by (intro Suc.IH) (auto simp: pm_updated_def)
    moreover have "drop off src = ?bs @ drop (off + n) src"
      by (simp add: add.commute flip: drop_drop)
    ultimately show ?thesis
      using pm_updated_append [OF one] bs(2) by (metis add.assoc)
  qed
qed

lemma try_write_bytes_updates:
  assumes "pm_wf pm" "unat addr + length src \<le> unat (pm_len pm)"
  obtains pm' where "try_write_bytes pm addr src = Inr pm'" "pm_updated pm (unat addr) src pm'"
proof -
  have "length src < 2 ^ 64" using assms(2) unat_less [of "pm_len pm"] by simp
  then show ?thesis
    using write_loop_updates [of 0 src "length src" pm addr] assms that
    by (cases "src = []") (auto simp: try_write_bytes_def check_bounds_iff pm_updated_Nil)
qed

lemma try_write_bytes_error:
  "length src < 2 ^ 64 \<Longrightarrow> \<not> unat addr + length src \<le> unat (pm_len pm) \<Longrightarrow>
     try_write_bytes pm addr src = Inl (Fail (OutOfBounds addr (length src) (pm_len pm)))"
  by (simp add: try_write_bytes_def check_bounds_iff)

section \<open>Integers are their little-endian bytes\<close>

lemma try_read_le_eq:
  assumes "pm_wf pm" "n < 2 ^ 64"
  shows "try_read_le n pm addr =
    (if unat addr + n \<le> unat (pm_len pm) then Inr (from_le_bytes (pm_bytes pm (unat addr) n))
     else Inl (Fail (OutOfBounds addr n (pm_len pm))))"
proof (cases "chunk_offset pm addr + n \<le> chunk_size pm")
  case True
  then have "chunk_read pm (chunk_index pm addr) (chunk_offset pm addr) n = Inr (pm_bytes pm (unat addr) n)"
    using assms by (intro chunk_read_bytes) (auto simp: index_offset)
  then show ?thesis using True assms
    by (auto simp: try_read_le_def check_bounds_iff chunk_read_def split: option.splits)
       (metis from_le_bytes_zeros)
next
  case False
  then show ?thesis using assms
    by (simp add: try_read_le_def check_bounds_iff try_read_bytes_eq)
qed

lemma try_write_le_eq:
  assumes "pm_wf pm" "unat addr + n \<le> unat (pm_len pm)" "0 < n"
  obtains pm' where "try_write_le n pm addr v = Inr pm'" "pm_updated pm (unat addr) (to_le_bytes n v) pm'"
proof -
  have n: "n < 2 ^ 64" using assms(2) unat_less [of "pm_len pm"] by simp
  have ne: "to_le_bytes n v \<noteq> []" using assms(3) by (simp add: to_le_bytes_def)
  show ?thesis
  proof (cases "chunk_offset pm addr + n \<le> chunk_size pm")
    case True
    then have "length (to_le_bytes n v) \<le> chunk_size pm - unat addr mod chunk_size pm"
      using assms(1) by (simp add: index_offset)
    then obtain pm' where
      "chunk_write pm (chunk_index pm addr) (chunk_offset pm addr) (to_le_bytes n v) = Inr pm'"
      "pm_updated pm (unat addr) (to_le_bytes n v) pm'"
      using chunk_write_updates [OF assms(1) ne, of addr] assms by auto
    then show ?thesis using True assms n that by (simp add: try_write_le_def check_bounds_iff)
  next
    case False
    then show ?thesis
      using try_write_bytes_updates [OF assms(1), of addr "to_le_bytes n v"] assms n that
      by (auto simp: try_write_le_def check_bounds_iff)
  qed
qed

lemma try_read_u8_le: "pm_wf pm \<Longrightarrow> try_read_u8 pm addr = try_read_le 1 pm addr"
  using mod_less_divisor [OF pm_size_pos, of pm "unat addr"] get_chunk_length [of pm]
  by (auto simp: try_read_u8_def try_read_le_def check_bounds_iff index_offset slice_at_def
      take_Suc drop_Suc hd_drop_conv_nth Suc_le_eq split: option.split)

lemma get_or_alloc_chunk_length:
  "pm_wf pm \<Longrightarrow> get_or_alloc_chunk pm i = Some (pm', c) \<Longrightarrow> length c = chunk_size pm"
  using get_chunk_length [of pm i c]
  by (auto simp: get_or_alloc_chunk_def get_chunk_def Chunk_new_def Let_def
      split: if_splits option.splits)

lemma try_write_u8_le:
  assumes "pm_wf pm"
  shows "try_write_u8 pm addr v = try_write_le 1 pm addr v"
proof -
  have "chunk_offset pm addr < chunk_size pm"
    using assms pm_size_pos by (simp add: index_offset)
  moreover have "to_le_bytes 1 v = [v]"
    by (simp add: to_le_bytes_def)
  moreover have "o' < length c \<Longrightarrow> copy_at c o' [v] = Some (c[o' := v])" for o' c
    by (simp add: copy_at_def upd_conv_take_nth_drop)
  ultimately show ?thesis
    using get_or_alloc_chunk_length [OF assms]
    by (auto simp: try_write_u8_def try_write_le_def check_bounds_iff chunk_write_def
        split: option.split)
qed

lemma pm_bytes_zero: "(\<forall>a. pm_byte pm a = 0) \<Longrightarrow> pm_bytes pm a n = replicate n 0"
  by (auto simp: pm_bytes_def intro!: nth_equalityI)

section \<open>Construction\<close>

lemma with_options_ok:
  assumes "usize_max < 2 ^ 64" "csz \<le> usize_max"
  shows "with_options usize_max sz csz =
    (if \<not> (4096 \<le> csz \<and> (\<exists>k. csz = 2 ^ k)) then Inl (Fail (InvalidChunkSize csz))
     else if usize_max < (unat sz + csz - 1) div csz then Inl (Fail (TooLarge sz csz))
     else Inr \<lparr> pm_len = sz, chunk_size = csz, chunk_shift = trailing_zeros csz,
                chunk_mask = of_nat csz - 1, chunks = replicate ((unat sz + csz - 1) div csz) None,
                allocated_chunks = 0 \<rparr>)"
proof (cases "4096 \<le> csz \<and> (\<exists>k. csz = 2 ^ k)")
  case True
  have "unat (of_nat csz :: u64) = csz" using assms by (simp add: unat_of_nat)
  moreover have "(0 :: u64) < of_nat csz" using True calculation by (simp add: word_less_nat_alt)
  ultimately show ?thesis using True
    by (auto simp: with_options_def is_power_of_two_iff div_ceil_unat Let_def)
next
  case False
  then show ?thesis by (auto simp: with_options_def is_power_of_two_iff)
qed

lemma with_options_wf:
  assumes "usize_max < 2 ^ 64" "csz \<le> usize_max" "with_options usize_max sz csz = Inr pm"
  shows "pm_wf pm \<and> pm_len pm = sz \<and> chunk_size pm = csz \<and> allocated_chunks pm = 0 \<and> (\<forall>a. pm_byte pm a = 0)"
proof -
  obtain k where k: "csz = 2 ^ k" "4096 \<le> csz"
    using assms by (auto simp: with_options_ok split: if_splits)
  have "(2::nat) ^ 12 \<le> 2 ^ k" "(2::nat) ^ k < 2 ^ 64" using k assms by simp_all
  then have "12 \<le> k" "k < 64" 
    using power_le_imp_le_exp [of "2::nat" 12 k] power_less_imp_less_exp [of "2::nat" k 64] by simp_all
  then show ?thesis
    using assms k of_nat_pow_minus_1 [of k, where 'a = 64]
    by (auto simp: with_options_ok pm_wf_def pm_byte_def get_chunk_def split: if_splits)
qed

section \<open>The interface of a byte store\<close>

text \<open>
  What the clients of RAM rely on: reads return the bytes of the flat view, writes replace
  the bytes of their range and keep the store well-formed.
\<close>

locale byte_store =
  fixes ok :: "'s \<Rightarrow> bool"
    and extent :: "'s \<Rightarrow> nat"
    and byte :: "'s \<Rightarrow> nat \<Rightarrow> u8"
    and load :: "'s \<Rightarrow> u64 \<Rightarrow> u8 list \<Rightarrow> 'e failure + u8 list"
    and store :: "'s \<Rightarrow> u64 \<Rightarrow> u8 list \<Rightarrow> 'e failure + 's"
  assumes read_flat: "ok s \<Longrightarrow> unat a + length d \<le> extent s \<Longrightarrow>
      load s a d = Inr (map (\<lambda>i. byte s (unat a + i)) [0..<length d])"
    and write_flat: "ok s \<Longrightarrow> unat a + length bs \<le> extent s \<Longrightarrow> store s a bs = Inr t \<Longrightarrow>
      ok t \<and> extent t = extent s \<and>
      (\<forall>x < extent s. byte t x = (if x \<in> {unat a..<unat a + length bs} then bs ! (x - unat a) else byte s x))"
    and write_total: "ok s \<Longrightarrow> unat a + length bs \<le> extent s \<Longrightarrow> \<exists>t. store s a bs = Inr t"
begin

text \<open>A read of the written range, whole or in part, sees what was written.\<close>

lemma read_part:
  assumes "ok s" "unat a + length bs \<le> extent s" "store s a bs = Inr t"
    "unat b = unat a + k" "k + length d \<le> length bs"
  shows "load t b d = Inr (take (length d) (drop k bs))"
proof -
  have "load t b d = Inr (map (\<lambda>i. byte t (unat b + i)) [0..<length d])"
    using write_flat [OF assms(1-3)] assms by (intro read_flat) auto
  also have "map (\<lambda>i. byte t (unat b + i)) [0..<length d] = take (length d) (drop k bs)"
    using write_flat [OF assms(1-3)] assms by (intro nth_equalityI) (auto simp: add.assoc)
  finally show ?thesis .
qed

lemma read_back:
  assumes "ok s" "unat a + length bs \<le> extent s" "store s a bs = Inr t" "length d = length bs"
  shows "load t a d = Inr bs"
  using read_part [OF assms(1-3), of a 0 d] assms(4) by simp

text \<open>A read that does not meet the written range is unchanged.\<close>

lemma read_apart:
  assumes "ok s" "unat a + length bs \<le> extent s" "store s a bs = Inr t"
    "unat b + length d \<le> extent s" "unat b + length d \<le> unat a \<or> unat a + length bs \<le> unat b"
  shows "load t b d = load s b d"
proof -
  note t = write_flat [OF assms(1-3)]
  have "byte t (unat b + i) = byte s (unat b + i)" if "i < length d" for i
    using t assms(4,5) that by auto
  moreover have "load t b d = Inr (map (\<lambda>i. byte t (unat b + i)) [0..<length d])"
    using t assms(4) by (intro read_flat) simp_all
  moreover have "load s b d = Inr (map (\<lambda>i. byte s (unat b + i)) [0..<length d])"
    using assms(1,4) by (rule read_flat)
  ultimately show ?thesis by simp
qed

end

interpretation ram: byte_store pm_wf "\<lambda>pm. unat (pm_len pm)" pm_byte try_read_bytes try_write_bytes
proof
  show "try_read_bytes s a d = Inr (map (\<lambda>i. pm_byte s (unat a + i)) [0..<length d])"
    if "pm_wf s" "unat a + length d \<le> unat (pm_len s)" for s a d
    using that unat_less [of "pm_len s"] by (simp add: try_read_bytes_eq pm_bytes_def)
  show "\<exists>t. try_write_bytes s a bs = Inr t"
    if "pm_wf s" "unat a + length bs \<le> unat (pm_len s)" for s a bs
    using that by (metis try_write_bytes_updates)
  show "pm_wf t \<and> unat (pm_len t) = unat (pm_len s) \<and> (\<forall>x<unat (pm_len s). pm_byte t x =
      (if x \<in> {unat a..<unat a + length bs} then bs ! (x - unat a) else pm_byte s x))"
    if "pm_wf s" "unat a + length bs \<le> unat (pm_len s)" "try_write_bytes s a bs = Inr t" for s a bs t
  proof -
    have "pm_updated s (unat a) bs t"
      using try_write_bytes_updates [OF that(1,2)] that(3) by (metis sum.inject(2))
    then show ?thesis by (simp add: pm_updated_def)
  qed
qed

text \<open>The integer accessors are the byte accessors followed by the conversion.\<close>

lemma try_read_le_bytes:
  "pm_wf pm \<Longrightarrow> n < 2 ^ 64 \<Longrightarrow>
     try_read_le n pm a = bind_ok (try_read_bytes pm a (replicate n 0)) (\<lambda>bs. Inr (from_le_bytes bs))"
  by (simp add: try_read_le_eq try_read_bytes_eq)

text \<open>Equal flat views make integer reads equal, whatever the chunk tables are.\<close>

lemma written_le:
  assumes "pm_wf pm" "unat a + n \<le> unat (pm_len pm)" "0 < n" "try_write_le n pm a v = Inr pm'"
  shows "pm_updated pm (unat a) (to_le_bytes n v) pm'"
  using try_write_le_eq [OF assms(1-3), of v] assms(4) by auto

lemma updated_bytes_part:
  assumes "pm_updated pm a bs pm'" "a + length bs \<le> unat (pm_len pm)" "k + n \<le> length bs"
  shows "pm_bytes pm' (a + k) n = take n (drop k bs)"
  using assms by (intro nth_equalityI) (auto simp: pm_updated_def pm_bytes_def add.assoc)

lemma updated_bytes_apart:
  assumes "pm_updated pm a bs pm'" "b + n \<le> unat (pm_len pm)" "b + n \<le> a \<or> a + length bs \<le> b"
  shows "pm_bytes pm' b n = pm_bytes pm b n"
  using assms by (auto simp: pm_updated_def pm_bytes_def)

lemma ucast_of_le_bytes:
  assumes "LENGTH('a) = 8 * n" "m \<le> n" "LENGTH('b) = 8 * m"
  shows "from_le_bytes (take m (to_le_bytes n (v :: 'a::len word))) = (ucast v :: 'b::len word)"
  using assms by (intro bit_word_eqI)
    (auto simp: bit_from_le_bytes to_le_bytes_def bit_simps take_map)

section \<open>Properties\<close>

text \<open>
  Construction. \<^verbatim>\<open>with_options\<close> refuses exactly the chunk sizes below 4096 or not a power
  of two and the sizes whose chunk table does not fit in \<^verbatim>\<open>usize\<close>; the memory it returns satisfies
  the invariant, has no chunk allocated and reads as zero everywhere.
\<close>

theorem pm_with_options:
  assumes "usize_max < 2 ^ 64" and "csz \<le> usize_max"
  shows "case with_options usize_max sz csz of
      Inl e \<Rightarrow> e = Fail (InvalidChunkSize csz) \<and> \<not> (4096 \<le> csz \<and> (\<exists>k. csz = 2 ^ k)) \<or>
               e = Fail (TooLarge sz csz) \<and> 4096 \<le> csz \<and> (\<exists>k. csz = 2 ^ k) \<and>
                 usize_max < (unat sz + csz - 1) div csz
    | Inr pm \<Rightarrow> 4096 \<le> csz \<and> (\<exists>k. csz = 2 ^ k) \<and> (unat sz + csz - 1) div csz \<le> usize_max \<and>
                 pm_wf pm \<and> pm_len pm = sz \<and> allocated_chunks pm = 0 \<and> (\<forall>a. pm_byte pm a = 0)"
proof (cases "with_options usize_max sz csz")
  case (Inl e)
  then show ?thesis using assms by (auto simp: with_options_ok split: if_splits)
next
  case (Inr pm)
  then have "4096 \<le> csz \<and> (\<exists>k. csz = 2 ^ k) \<and> (unat sz + csz - 1) div csz \<le> usize_max"
    using assms by (auto simp: with_options_ok split: if_splits)
  then show ?thesis using with_options_wf [OF assms Inr] Inr by simp
qed

theorem pm_with_options_witness:
  "(0xffffffff :: nat) < 2 ^ 64 \<and> (4096 :: nat) \<le> 0xffffffff \<and>
   (\<exists>pm. with_options 0xffffffff 0x2800 4096 = Inr pm \<and> pm_wf pm \<and> length (chunks pm) = 3)"
  using pm_with_options [of "0xffffffff" 4096 "0x2800"]
  by (simp add: with_options_def is_power_of_two.simps div_ceil_def Let_def)

text \<open>
  (C40) Reads. On a well-formed memory \<^verbatim>\<open>try_read_bytes\<close> fills the buffer with exactly the flat
  bytes at the address when the range lies in the RAM, and otherwise returns \<^verbatim>\<open>OutOfBounds\<close>; it
  never panics and its loop always ends, however many chunk boundaries the range crosses.
\<close>

theorem pm_read_is_flat_view:
  assumes "pm_wf pm" and "length dst < 2 ^ 64"
  shows "try_read_bytes pm addr dst =
    (if unat addr + length dst \<le> unat (pm_len pm)
     then Inr (map (\<lambda>i. pm_byte pm (unat addr + i)) [0..<length dst])
     else Inl (Fail (OutOfBounds addr (length dst) (pm_len pm))))"
  using try_read_bytes_eq [OF assms] by (simp add: pm_bytes_def)

definition sample_memory :: PhysicalMemory where
  "sample_memory = \<lparr> pm_len = 0x2800, chunk_size = 4096, chunk_shift = 12, chunk_mask = 0xfff,
     chunks = [None, Some (replicate 4096 7), None], allocated_chunks = 1 \<rparr>"

lemma sample_memory_wf: "pm_wf sample_memory"
  by (simp add: pm_wf_def sample_memory_def mask_eq_exp_minus_1)

theorem pm_read_is_flat_view_witness:
  "pm_wf sample_memory \<and> try_read_bytes sample_memory 0xffe [9, 9, 9, 9] = Inr [0, 0, 7, 7] \<and>
   try_read_bytes sample_memory 0x27fe [9, 9, 9] = Inl (Fail (OutOfBounds 0x27fe 3 0x2800))"
  using pm_read_is_flat_view [OF sample_memory_wf, of "[9, 9, 9, 9]" "0xffe"]
    pm_read_is_flat_view [OF sample_memory_wf, of "[9, 9, 9]" "0x27fe"] sample_memory_wf
  by (simp add: pm_byte_def get_chunk_def sample_memory_def upt_rec)

text \<open>
  (C39) Writes. \<^verbatim>\<open>try_write_bytes\<close> in range succeeds, keeps the invariant (the count of
  allocated chunks included), changes exactly the bytes of its range and allocates exactly the
  chunks the range meets; out of range it is \<^verbatim>\<open>OutOfBounds\<close>.
\<close>

theorem pm_write_updates_exactly:
  assumes "pm_wf pm" and "length src < 2 ^ 64"
  shows "case try_write_bytes pm addr src of
      Inl e \<Rightarrow> e = Fail (OutOfBounds addr (length src) (pm_len pm)) \<and>
               unat (pm_len pm) < unat addr + length src
    | Inr pm' \<Rightarrow> unat addr + length src \<le> unat (pm_len pm) \<and> pm_wf pm' \<and> pm_len pm' = pm_len pm \<and>
        (\<forall>x < unat (pm_len pm). pm_byte pm' x =
           (if unat addr \<le> x \<and> x < unat addr + length src then src ! (x - unat addr) else pm_byte pm x)) \<and>
        (\<forall>i < length (chunks pm). chunks pm' ! i \<noteq> None \<longleftrightarrow>
           chunks pm ! i \<noteq> None \<or>
           (\<exists>x. unat addr \<le> x \<and> x < unat addr + length src \<and> x div chunk_size pm = i))"
proof (cases "unat addr + length src \<le> unat (pm_len pm)")
  case True
  obtain pm' where "try_write_bytes pm addr src = Inr pm'" "pm_updated pm (unat addr) src pm'"
    using try_write_bytes_updates [OF assms(1) True] .
  then show ?thesis using True by (auto simp: pm_updated_def image_iff)
next
  case False
  then show ?thesis using try_write_bytes_error [OF assms(2) False] by simp
qed

theorem pm_write_updates_exactly_witness:
  "pm_wf sample_memory \<and> (\<exists>pm'. try_write_bytes sample_memory 0xfff [1, 2] = Inr pm' \<and>
     pm_wf pm' \<and> pm_byte pm' 0xfff = 1 \<and> pm_byte pm' 0x1000 = 2 \<and> pm_byte pm' 0x1001 = 7)"
proof -
  obtain pm' where w: "try_write_bytes sample_memory 0xfff [1, 2] = Inr pm'"
    using ram.write_total [OF sample_memory_wf, of "0xfff" "[1, 2]"] by (auto simp: sample_memory_def)
  have "pm_wf pm'" "\<forall>x < 0x2800. pm_byte pm' x =
      (if 0xfff \<le> x \<and> x < 0x1001 then [1, 2] ! (x - 0xfff) else pm_byte sample_memory x)"
    using pm_write_updates_exactly [OF sample_memory_wf, of "[1, 2]" "0xfff"] w
    by (simp_all add: sample_memory_def)
  then show ?thesis
    using w sample_memory_wf by (auto simp: pm_byte_def get_chunk_def sample_memory_def)
qed

text \<open>
  Integer round trip. A value written with \<^verbatim>\<open>try_write_u64\<close> at an address in range reads
  back, \<^verbatim>\<open>try_read_u32\<close> and \<^verbatim>\<open>try_read_u8\<close> at the same address see its low bytes, and a
  \<^verbatim>\<open>try_read_u64\<close> that does not overlap is unchanged, whether the accesses stay in one chunk
  (the direct path) or straddle two.
\<close>

theorem pm_integer_roundtrip:
  assumes "pm_wf pm" and "unat a + 8 \<le> unat (pm_len pm)"
  shows "\<exists>pm'. try_write_u64 pm a v = Inr pm' \<and> pm_wf pm' \<and>
    try_read_u64 pm' a = Inr v \<and> try_read_u32 pm' a = Inr (ucast v) \<and> try_read_u8 pm' a = Inr (ucast v) \<and>
    (\<forall>b. unat b + 8 \<le> unat (pm_len pm) \<and> (unat b + 8 \<le> unat a \<or> unat a + 8 \<le> unat b) \<longrightarrow>
       try_read_u64 pm' b = try_read_u64 pm b)"
proof -
  obtain pm' where w: "try_write_u64 pm a v = Inr pm'" and u: "pm_updated pm (unat a) (to_le_bytes 8 v) pm'"
    using try_write_le_eq [OF assms(1), of a 8 v] assms(2) by (auto simp: try_write_u64_def)
  have wf: "pm_wf pm'" and len: "pm_len pm' = pm_len pm" using u by (simp_all add: pm_updated_def)
  note rd = try_read_le_eq [OF wf]
  have part: "pm_bytes pm' (unat a) n = take n (to_le_bytes 8 v)" if "n \<le> 8" for n
    using updated_bytes_part [OF u, of 0 n] assms(2) that by simp
  have "try_read_u64 pm' a = Inr v"
    using assms(2) len by (simp add: try_read_u64_def rd part from_to_le_bytes)
  moreover have "try_read_u32 pm' a = Inr (ucast v)"
    using assms(2) len by (simp add: try_read_u32_def rd part ucast_of_le_bytes)
  moreover have "try_read_u8 pm' a = Inr (ucast v)"
    using assms(2) len by (simp add: try_read_u8_le [OF wf] rd part ucast_of_le_bytes)
  moreover have "try_read_u64 pm' b = try_read_u64 pm b"
    if "unat b + 8 \<le> unat (pm_len pm)" "unat b + 8 \<le> unat a \<or> unat a + 8 \<le> unat b" for b
    using updated_bytes_apart [OF u that(1)] that len
    by (simp add: try_read_u64_def rd try_read_le_eq [OF assms(1)])
  ultimately show ?thesis using w wf by blast
qed

theorem pm_integer_roundtrip_witness:
  "pm_wf sample_memory \<and> (\<exists>pm'. try_write_u64 sample_memory 0xffc 0x1122334455667788 = Inr pm' \<and>
     try_read_u64 pm' 0xffc = Inr 0x1122334455667788 \<and> try_read_u32 pm' 0xffc = Inr 0x55667788)"
  using pm_integer_roundtrip [OF sample_memory_wf, of "0xffc" "0x1122334455667788"] sample_memory_wf
  by (auto simp: sample_memory_def)

end
