(* ===== verification/MemoryBus.thy ===== *)
theory MemoryBus
  imports PhysicalMemory
begin

text \<open>
  The physical address router, \<^verbatim>\<open>crates/aero-mem/src/memory_bus.rs\<close>: a sorted table of disjoint
  MMIO and ROM overlays over guest RAM.

  An MMIO handler is a pair of functions on a device state of type \<^typ>\<open>'d\<close>, which every access
  threads; the handlers are values of the table, as the trait objects are in the source. A read
  returns the outcome together with the buffer and the device state, because a read that fails
  half-way leaves both changed, and likewise a write returns the bus.

  The theory shows that the table stays sorted and disjoint, that the binary searches find
  exactly the region of an address, that every byte of an access goes where the flat routing
  function \<open>route\<close> says, that a handler is only asked for ranges inside its region, and that the
  RAM-only (DMA) and scatter/gather operations either touch nothing or only RAM.
\<close>

section \<open>Handlers, regions and errors\<close>

record 'd MmioHandler =
  h_read :: "u64 \<Rightarrow> u8 list \<Rightarrow> 'd \<Rightarrow> u8 list \<times> 'd"
  h_write :: "u64 \<Rightarrow> u8 list \<Rightarrow> 'd \<Rightarrow> 'd"

definition FnMmioHandler ::
  "(u64 \<Rightarrow> u8 list \<Rightarrow> 'd \<Rightarrow> u8 list \<times> 'd) \<Rightarrow> (u64 \<Rightarrow> u8 list \<Rightarrow> 'd \<Rightarrow> 'd) \<Rightarrow> 'd MmioHandler" where
  "FnMmioHandler r w = \<lparr> h_read = r, h_write = w \<rparr>"

datatype 'd OverlayKind = Mmio "'d MmioHandler" | Rom "u8 list"

record 'd OverlayRegion =
  r_start :: u64
  r_end :: u64
  kind :: "'d OverlayKind"

definition contains :: "'d OverlayRegion \<Rightarrow> u64 \<Rightarrow> bool" where
  "contains r addr = (addr \<ge> r_start r \<and> addr < r_end r)"

datatype MemoryBusError =
    InvalidRange u64 u64
  | Overlap u64 u64 u64 u64
  | AddressOverflow u64 nat
  | Unmapped u64 nat
  | RamOutOfBounds PhysicalMemoryError
  | MmioAccess u64 nat
  | RomAccess u64 nat
  | LengthOverflow
  | LengthMismatch nat nat
  | OutOfMemory nat

type_synonym 'a bus_result = "MemoryBusError failure + 'a"

text \<open>\<^verbatim>\<open>From<PhysicalMemoryError>\<close>, applied by the \<^verbatim>\<open>?\<close> operator.\<close>

fun ram_result :: "'a pm_result \<Rightarrow> 'a bus_result" where
  "ram_result (Inr x) = Inr x"
| "ram_result (Inl (Fail e)) = Inl (Fail (RamOutOfBounds e))"
| "ram_result (Inl Panic) = Inl Panic"
| "ram_result (Inl Diverge) = Inl Diverge"

record 'd MemoryBus =
  ram :: PhysicalMemory
  overlays :: "'d OverlayRegion list"

section \<open>The overlay table\<close>

definition MemoryBus_new :: "PhysicalMemory \<Rightarrow> 'd MemoryBus" where
  "MemoryBus_new pm = \<lparr> ram = pm, overlays = [] \<rparr>"

text \<open>
  \<^verbatim>\<open>slice::partition_point\<close>: the length of the prefix on which the predicate holds; the
  predicates of this file are downward closed on the sorted table.
\<close>

definition partition_point :: "('a \<Rightarrow> bool) \<Rightarrow> 'a list \<Rightarrow> nat" where
  "partition_point P xs = length (takeWhile P xs)"

definition insert_overlay :: "'d MemoryBus \<Rightarrow> 'd OverlayRegion \<Rightarrow> 'd MemoryBus bus_result" where
  "insert_overlay bus region =
     (if r_start region \<ge> r_end region then Inl (Fail (InvalidRange (r_start region) (r_end region)))
      else
        let os = overlays bus;
            idx = partition_point (\<lambda>r. r_start r < r_start region) os
        in if idx > 0 \<and> r_end (os ! (idx - 1)) > r_start region then
             (let prev = os ! (idx - 1)
              in Inl (Fail (Overlap (r_start region) (r_end region) (r_start prev) (r_end prev))))
           else if idx < length os \<and> r_end region > r_start (os ! idx) then
             (let nxt = os ! idx
              in Inl (Fail (Overlap (r_start region) (r_end region) (r_start nxt) (r_end nxt))))
           else Inr (bus\<lparr>overlays := take idx os @ region # drop idx os\<rparr>))"

definition register_mmio :: "'d MemoryBus \<Rightarrow> u64 \<Rightarrow> u64 \<Rightarrow> 'd MmioHandler \<Rightarrow> 'd MemoryBus bus_result" where
  "register_mmio bus s e h = insert_overlay bus \<lparr> r_start = s, r_end = e, kind = Mmio h \<rparr>"

definition register_mmio_fn ::
  "'d MemoryBus \<Rightarrow> u64 \<Rightarrow> u64 \<Rightarrow> (u64 \<Rightarrow> u8 list \<Rightarrow> 'd \<Rightarrow> u8 list \<times> 'd) \<Rightarrow> (u64 \<Rightarrow> u8 list \<Rightarrow> 'd \<Rightarrow> 'd)
    \<Rightarrow> 'd MemoryBus bus_result" where
  "register_mmio_fn bus s e r w = register_mmio bus s e (FnMmioHandler r w)"

definition register_open_bus :: "'d MemoryBus \<Rightarrow> u64 \<Rightarrow> u64 \<Rightarrow> 'd MemoryBus bus_result" where
  "register_open_bus bus s e =
     register_mmio_fn bus s e (\<lambda>_ data d. (replicate (length data) 0xFF, d)) (\<lambda>_ _ d. d)"

definition register_rom :: "'d MemoryBus \<Rightarrow> u64 \<Rightarrow> u8 list \<Rightarrow> 'd MemoryBus bus_result" where
  "register_rom bus s data =
     (let len_u64 = (if length data < 2 ^ 64 then of_nat (length data) else - 1)
      in case checked_add s len_u64 of
           None \<Rightarrow> Inl (Fail (InvalidRange s s))
         | Some e \<Rightarrow>
             if s \<ge> e then Inl (Fail (InvalidRange s e))
             else insert_overlay bus \<lparr> r_start = s, r_end = e, kind = Rom data \<rparr>)"

definition checked_end :: "u64 \<Rightarrow> nat \<Rightarrow> u64 bus_result" where
  "checked_end addr n =
     (case checked_add addr (of_nat n) of
        Some e \<Rightarrow> Inr e | None \<Rightarrow> Inl (Fail (AddressOverflow addr n)))"

definition overlapping_overlay :: "'d MemoryBus \<Rightarrow> u64 \<Rightarrow> u64 \<Rightarrow> 'd OverlayRegion option" where
  "overlapping_overlay bus s e =
     (let idx = partition_point (\<lambda>r. r_start r < e) (overlays bus)
      in if idx = 0 then None
         else let candidate = overlays bus ! (idx - 1)
              in if r_end candidate > s then Some candidate else None)"

definition is_ram_only_range :: "'d MemoryBus \<Rightarrow> u64 \<Rightarrow> nat \<Rightarrow> bool bus_result" where
  "is_ram_only_range bus addr n =
     (if n = 0 then Inr True
      else bind_ok (checked_end addr n) (\<lambda>e.
        if e > pm_len (ram bus) then Inr False else Inr (overlapping_overlay bus addr e = None)))"

definition overlaps_overlay :: "'d MemoryBus \<Rightarrow> u64 \<Rightarrow> nat \<Rightarrow> bool bus_result" where
  "overlaps_overlay bus addr n =
     (if n = 0 then Inr False
      else bind_ok (checked_end addr n) (\<lambda>e. Inr (overlapping_overlay bus addr e \<noteq> None)))"

definition check_dma_ram_range :: "'d MemoryBus \<Rightarrow> u64 \<Rightarrow> nat \<Rightarrow> unit bus_result" where
  "check_dma_ram_range bus addr n =
     (if n = 0 then Inr ()
      else bind_ok (checked_end addr n) (\<lambda>e.
        if e > pm_len (ram bus) then
          Inl (Fail (RamOutOfBounds (OutOfBounds addr n (pm_len (ram bus)))))
        else case overlapping_overlay bus addr e of
          Some region \<Rightarrow> (case kind region of
              Mmio _ \<Rightarrow> Inl (Fail (MmioAccess addr n))
            | Rom _ \<Rightarrow> Inl (Fail (RomAccess addr n)))
        | None \<Rightarrow> Inr ()))"

definition find_overlay_idx :: "'d MemoryBus \<Rightarrow> u64 \<Rightarrow> nat option" where
  "find_overlay_idx bus addr =
     (let idx = partition_point (\<lambda>r. r_start r \<le> addr) (overlays bus)
      in if idx = 0 then None
         else if contains (overlays bus ! (idx - 1)) addr then Some (idx - 1) else None)"

definition next_overlay_start_after :: "'d MemoryBus \<Rightarrow> u64 \<Rightarrow> u64 option" where
  "next_overlay_start_after bus addr =
     (let idx = partition_point (\<lambda>r. r_start r \<le> addr) (overlays bus)
      in if idx < length (overlays bus) then Some (r_start (overlays bus ! idx)) else None)"

section \<open>Routed accesses\<close>

text \<open>The length of the RAM segment at an address that no overlay covers.\<close>

definition ram_seg_len :: "'d MemoryBus \<Rightarrow> u64 \<Rightarrow> nat \<Rightarrow> nat" where
  "ram_seg_len bus cur_addr remaining =
     (let ram_end = pm_len (ram bus);
          next_overlay = (case next_overlay_start_after bus cur_addr of Some s \<Rightarrow> s | None \<Rightarrow> ram_end);
          seg_end = min ram_end next_overlay;
          max_len = seg_end - cur_addr
      in unat (min max_len (of_nat remaining)))"

text \<open>
  The body of the loop of \<^verbatim>\<open>try_read_bytes\<close>, on the part \<open>buf\<close> of the buffer still to fill: the
  segment length, the bytes for it and the device state.
\<close>

definition read_segment ::
  "'d MemoryBus \<Rightarrow> u64 \<Rightarrow> u8 list \<Rightarrow> 'd \<Rightarrow> (nat \<times> u8 list \<times> 'd) bus_result" where
  "read_segment bus cur_addr buf d =
     (case find_overlay_idx bus cur_addr of
        Some overlay_idx \<Rightarrow>
          let overlay = overlays bus ! overlay_idx;
              max_len = r_end overlay - cur_addr;
              seg_len = unat (min max_len (of_nat (length buf)));
              offset = cur_addr - r_start overlay
          in (case kind overlay of
                Rom data \<Rightarrow>
                  (case slice_at data (unat offset) seg_len of
                     Some bs \<Rightarrow> Inr (seg_len, bs, d)
                   | None \<Rightarrow> Inl Panic)
              | Mmio handler \<Rightarrow>
                  let (bs, d') = h_read handler offset (take seg_len buf) d
                  in Inr (seg_len, bs, d'))
      | None \<Rightarrow>
          if cur_addr \<ge> pm_len (ram bus) then Inl (Fail (Unmapped cur_addr (length buf)))
          else
            let seg_len = ram_seg_len bus cur_addr (length buf)
            in bind_ok (ram_result (try_read_bytes (ram bus) cur_addr (take seg_len buf)))
                 (\<lambda>bs. Inr (seg_len, bs, d)))"

fun bus_read_loop ::
  "nat \<Rightarrow> 'd MemoryBus \<Rightarrow> u64 \<Rightarrow> nat \<Rightarrow> u8 list \<Rightarrow> 'd \<Rightarrow> unit bus_result \<times> u8 list \<times> 'd" where
  "bus_read_loop fuel bus cur_addr dst_offset dst d =
     (if dst_offset < length dst then
        (case fuel of
           0 \<Rightarrow> (Inl Diverge, dst, d)
         | Suc fuel' \<Rightarrow>
             (case read_segment bus cur_addr (drop dst_offset dst) d of
                Inl e \<Rightarrow> (Inl e, dst, d)
              | Inr (seg_len, bs, d') \<Rightarrow>
                  (case copy_at dst dst_offset bs of
                     None \<Rightarrow> (Inl Panic, dst, d')
                   | Some dst' \<Rightarrow>
                       bus_read_loop fuel' bus (cur_addr + of_nat seg_len) (dst_offset + seg_len) dst' d')))
      else (Inr (), dst, d))"

definition MemoryBus_try_read_bytes ::
  "'d MemoryBus \<Rightarrow> u64 \<Rightarrow> u8 list \<Rightarrow> 'd \<Rightarrow> unit bus_result \<times> u8 list \<times> 'd" where
  "MemoryBus_try_read_bytes bus addr dst d =
     (if dst = [] then (Inr (), dst, d)
      else case checked_end addr (length dst) of
        Inl e \<Rightarrow> (Inl e, dst, d)
      | Inr e \<Rightarrow>
          if e \<le> pm_len (ram bus) \<and> overlapping_overlay bus addr e = None then
            (case ram_result (try_read_bytes (ram bus) addr dst) of
               Inl err \<Rightarrow> (Inl err, dst, d)
             | Inr dst' \<Rightarrow> (Inr (), dst', d))
          else bus_read_loop (length dst) bus addr 0 dst d)"

text \<open>The body of the loop of \<^verbatim>\<open>try_write_bytes\<close>, on the bytes still to write.\<close>

definition write_segment ::
  "'d MemoryBus \<Rightarrow> u64 \<Rightarrow> u8 list \<Rightarrow> 'd \<Rightarrow> (nat \<times> 'd MemoryBus \<times> 'd) bus_result" where
  "write_segment bus cur_addr rest d =
     (case find_overlay_idx bus cur_addr of
        Some overlay_idx \<Rightarrow>
          let overlay = overlays bus ! overlay_idx;
              max_len = r_end overlay - cur_addr;
              seg_len = unat (min max_len (of_nat (length rest)));
              offset = cur_addr - r_start overlay
          in (case kind overlay of
                Rom data \<Rightarrow> Inr (seg_len, bus, d)
              | Mmio handler \<Rightarrow> Inr (seg_len, bus, h_write handler offset (take seg_len rest) d))
      | None \<Rightarrow>
          if cur_addr \<ge> pm_len (ram bus) then Inl (Fail (Unmapped cur_addr (length rest)))
          else
            let seg_len = ram_seg_len bus cur_addr (length rest)
            in bind_ok (ram_result (try_write_bytes (ram bus) cur_addr (take seg_len rest)))
                 (\<lambda>pm. Inr (seg_len, bus\<lparr>ram := pm\<rparr>, d)))"

fun bus_write_loop ::
  "nat \<Rightarrow> 'd MemoryBus \<Rightarrow> u64 \<Rightarrow> nat \<Rightarrow> u8 list \<Rightarrow> 'd \<Rightarrow> unit bus_result \<times> 'd MemoryBus \<times> 'd" where
  "bus_write_loop fuel bus cur_addr src_offset src d =
     (if src_offset < length src then
        (case fuel of
           0 \<Rightarrow> (Inl Diverge, bus, d)
         | Suc fuel' \<Rightarrow>
             (case write_segment bus cur_addr (drop src_offset src) d of
                Inl e \<Rightarrow> (Inl e, bus, d)
              | Inr (seg_len, bus', d') \<Rightarrow>
                  bus_write_loop fuel' bus' (cur_addr + of_nat seg_len) (src_offset + seg_len) src d'))
      else (Inr (), bus, d))"

declare bus_read_loop.simps [simp del] bus_write_loop.simps [simp del]

definition MemoryBus_try_write_bytes ::
  "'d MemoryBus \<Rightarrow> u64 \<Rightarrow> u8 list \<Rightarrow> 'd \<Rightarrow> unit bus_result \<times> 'd MemoryBus \<times> 'd" where
  "MemoryBus_try_write_bytes bus addr src d =
     (if src = [] then (Inr (), bus, d)
      else case checked_end addr (length src) of
        Inl e \<Rightarrow> (Inl e, bus, d)
      | Inr e \<Rightarrow>
          if e \<le> pm_len (ram bus) \<and> overlapping_overlay bus addr e = None then
            (case ram_result (try_write_bytes (ram bus) addr src) of
               Inl err \<Rightarrow> (Inl err, bus, d)
             | Inr pm \<Rightarrow> (Inr (), bus\<lparr>ram := pm\<rparr>, d))
          else bus_write_loop (length src) bus addr 0 src d)"

section \<open>RAM-only and scatter/gather accesses\<close>

definition try_read_ram_bytes :: "'d MemoryBus \<Rightarrow> u64 \<Rightarrow> u8 list \<Rightarrow> u8 list bus_result" where
  "try_read_ram_bytes bus addr dst =
     bind_ok (check_dma_ram_range bus addr (length dst))
       (\<lambda>_. ram_result (try_read_bytes (ram bus) addr dst))"

definition try_write_ram_bytes :: "'d MemoryBus \<Rightarrow> u64 \<Rightarrow> u8 list \<Rightarrow> 'd MemoryBus bus_result" where
  "try_write_ram_bytes bus addr src =
     bind_ok (check_dma_ram_range bus addr (length src))
       (\<lambda>_. bind_ok (ram_result (try_write_bytes (ram bus) addr src)) (\<lambda>pm. Inr (bus\<lparr>ram := pm\<rparr>)))"

text \<open>The two passes of \<^verbatim>\<open>validate_sg\<close>; \<open>usize_max\<close> bounds the sum of the lengths.\<close>

fun sg_total :: "nat \<Rightarrow> nat \<Rightarrow> (u64 \<times> nat) list \<Rightarrow> nat bus_result" where
  "sg_total usize_max acc [] = Inr acc"
| "sg_total usize_max acc ((_, n) # segs) =
     (if acc + n \<le> usize_max then sg_total usize_max (acc + n) segs else Inl (Fail LengthOverflow))"

fun sg_check :: "'d MemoryBus \<Rightarrow> (u64 \<times> nat) list \<Rightarrow> unit bus_result" where
  "sg_check bus [] = Inr ()"
| "sg_check bus ((addr, n) # segs) =
     bind_ok (check_dma_ram_range bus addr n) (\<lambda>_. sg_check bus segs)"

definition validate_sg :: "nat \<Rightarrow> 'd MemoryBus \<Rightarrow> (u64 \<times> nat) list \<Rightarrow> nat \<Rightarrow> unit bus_result" where
  "validate_sg usize_max bus segs buf_len =
     bind_ok (sg_total usize_max 0 segs) (\<lambda>len_sum.
       if len_sum \<noteq> buf_len then Inl (Fail (LengthMismatch len_sum buf_len)) else sg_check bus segs)"

text \<open>\<^verbatim>\<open>split_at\<close> panics past the end of the slice.\<close>

fun sg_read_loop :: "'d MemoryBus \<Rightarrow> (u64 \<times> nat) list \<Rightarrow> u8 list \<Rightarrow> u8 list bus_result" where
  "sg_read_loop bus [] out = Inr out"
| "sg_read_loop bus ((addr, n) # segs) out =
     (if n \<le> length out then
        bind_ok (ram_result (try_read_bytes (ram bus) addr (take n out))) (\<lambda>h.
          bind_ok (sg_read_loop bus segs (drop n out)) (\<lambda>t. Inr (h @ t)))
      else Inl Panic)"

text \<open>The segments before a failing one have been written: the bus is returned with the error.\<close>

fun sg_write_loop :: "'d MemoryBus \<Rightarrow> (u64 \<times> nat) list \<Rightarrow> u8 list \<Rightarrow> unit bus_result \<times> 'd MemoryBus" where
  "sg_write_loop bus [] input = (Inr (), bus)"
| "sg_write_loop bus ((addr, n) # segs) input =
     (if n \<le> length input then
        (case ram_result (try_write_bytes (ram bus) addr (take n input)) of
           Inl e \<Rightarrow> (Inl e, bus)
         | Inr pm \<Rightarrow> sg_write_loop (bus\<lparr>ram := pm\<rparr>) segs (drop n input))
      else (Inl Panic, bus))"

definition try_read_sg :: "nat \<Rightarrow> 'd MemoryBus \<Rightarrow> (u64 \<times> nat) list \<Rightarrow> u8 list \<Rightarrow> u8 list bus_result" where
  "try_read_sg usize_max bus segs dst =
     bind_ok (validate_sg usize_max bus segs (length dst)) (\<lambda>_. sg_read_loop bus segs dst)"

definition try_write_sg :: "nat \<Rightarrow> 'd MemoryBus \<Rightarrow> (u64 \<times> nat) list \<Rightarrow> u8 list \<Rightarrow> unit bus_result \<times> 'd MemoryBus" where
  "try_write_sg usize_max bus segs src =
     (case validate_sg usize_max bus segs (length src) of
        Inl e \<Rightarrow> (Inl e, bus)
      | Inr _ \<Rightarrow> sg_write_loop bus segs src)"

text \<open>
  \<^verbatim>\<open>memcpy_from_guest\<close>; \<open>reserve_ok\<close> says for which lengths the host can reserve the buffer
  (\<^verbatim>\<open>try_reserve_exact\<close>).
\<close>

definition memcpy_from_guest :: "(nat \<Rightarrow> bool) \<Rightarrow> 'd MemoryBus \<Rightarrow> u64 \<Rightarrow> nat \<Rightarrow> u8 list bus_result" where
  "memcpy_from_guest reserve_ok bus addr n =
     (if n = 0 then Inr []
      else if \<not> reserve_ok n then Inl (Fail (OutOfMemory n))
      else try_read_ram_bytes bus addr (replicate n 0))"

section \<open>Integers\<close>

text \<open>
  The accessors for 2, 4, 8 and 16 bytes: a range in RAM that meets no overlay goes to the
  RAM accessor of the same width, any other to the byte loop.
\<close>

definition bus_read_le ::
  "nat \<Rightarrow> (PhysicalMemory \<Rightarrow> u64 \<Rightarrow> 'a::len word pm_result) \<Rightarrow> 'd MemoryBus \<Rightarrow> u64 \<Rightarrow> 'd
    \<Rightarrow> 'a word bus_result \<times> 'd" where
  "bus_read_le n ram_read bus addr d =
     (case checked_end addr n of
        Inl e \<Rightarrow> (Inl e, d)
      | Inr e \<Rightarrow>
          if e \<le> pm_len (ram bus) \<and> overlapping_overlay bus addr e = None
          then (ram_result (ram_read (ram bus) addr), d)
          else (case MemoryBus_try_read_bytes bus addr (replicate n 0) d of
                  (Inl err, buf, d') \<Rightarrow> (Inl err, d')
                | (Inr _, buf, d') \<Rightarrow> (Inr (from_le_bytes buf), d')))"

definition bus_write_le ::
  "nat \<Rightarrow> (PhysicalMemory \<Rightarrow> u64 \<Rightarrow> 'a::len word \<Rightarrow> PhysicalMemory pm_result) \<Rightarrow> 'd MemoryBus \<Rightarrow> u64
    \<Rightarrow> 'a word \<Rightarrow> 'd \<Rightarrow> unit bus_result \<times> 'd MemoryBus \<times> 'd" where
  "bus_write_le n ram_write bus addr v d =
     (case checked_end addr n of
        Inl e \<Rightarrow> (Inl e, bus, d)
      | Inr e \<Rightarrow>
          if e \<le> pm_len (ram bus) \<and> overlapping_overlay bus addr e = None
          then (case ram_result (ram_write (ram bus) addr v) of
                  Inl err \<Rightarrow> (Inl err, bus, d)
                | Inr pm \<Rightarrow> (Inr (), bus\<lparr>ram := pm\<rparr>, d))
          else MemoryBus_try_write_bytes bus addr (to_le_bytes n v) d)"

text \<open>The byte accessors test the one address with \<^verbatim>\<open>find_overlay_idx\<close>.\<close>

definition MemoryBus_try_read_u8 :: "'d MemoryBus \<Rightarrow> u64 \<Rightarrow> 'd \<Rightarrow> u8 bus_result \<times> 'd" where
  "MemoryBus_try_read_u8 bus addr d =
     (case checked_end addr 1 of
        Inl e \<Rightarrow> (Inl e, d)
      | Inr e \<Rightarrow>
          if e \<le> pm_len (ram bus) \<and> find_overlay_idx bus addr = None
          then (ram_result (try_read_u8 (ram bus) addr), d)
          else (case MemoryBus_try_read_bytes bus addr [0] d of
                  (Inl err, buf, d') \<Rightarrow> (Inl err, d')
                | (Inr _, buf, d') \<Rightarrow> (Inr (hd buf), d')))"

definition MemoryBus_try_write_u8 ::
  "'d MemoryBus \<Rightarrow> u64 \<Rightarrow> u8 \<Rightarrow> 'd \<Rightarrow> unit bus_result \<times> 'd MemoryBus \<times> 'd" where
  "MemoryBus_try_write_u8 bus addr v d =
     (case checked_end addr 1 of
        Inl e \<Rightarrow> (Inl e, bus, d)
      | Inr e \<Rightarrow>
          if e \<le> pm_len (ram bus) \<and> find_overlay_idx bus addr = None
          then (case ram_result (try_write_u8 (ram bus) addr v) of
                  Inl err \<Rightarrow> (Inl err, bus, d)
                | Inr pm \<Rightarrow> (Inr (), bus\<lparr>ram := pm\<rparr>, d))
          else MemoryBus_try_write_bytes bus addr [v] d)"

definition MemoryBus_try_read_u16 :: "'d MemoryBus \<Rightarrow> u64 \<Rightarrow> 'd \<Rightarrow> u16 bus_result \<times> 'd" where
  "MemoryBus_try_read_u16 = bus_read_le 2 try_read_u16"
definition MemoryBus_try_read_u32 :: "'d MemoryBus \<Rightarrow> u64 \<Rightarrow> 'd \<Rightarrow> u32 bus_result \<times> 'd" where
  "MemoryBus_try_read_u32 = bus_read_le 4 try_read_u32"
definition MemoryBus_try_read_u64 :: "'d MemoryBus \<Rightarrow> u64 \<Rightarrow> 'd \<Rightarrow> u64 bus_result \<times> 'd" where
  "MemoryBus_try_read_u64 = bus_read_le 8 try_read_u64"
definition MemoryBus_try_read_u128 :: "'d MemoryBus \<Rightarrow> u64 \<Rightarrow> 'd \<Rightarrow> u128 bus_result \<times> 'd" where
  "MemoryBus_try_read_u128 = bus_read_le 16 try_read_u128"

definition MemoryBus_try_write_u16 ::
  "'d MemoryBus \<Rightarrow> u64 \<Rightarrow> u16 \<Rightarrow> 'd \<Rightarrow> unit bus_result \<times> 'd MemoryBus \<times> 'd" where
  "MemoryBus_try_write_u16 = bus_write_le 2 try_write_u16"
definition MemoryBus_try_write_u32 ::
  "'d MemoryBus \<Rightarrow> u64 \<Rightarrow> u32 \<Rightarrow> 'd \<Rightarrow> unit bus_result \<times> 'd MemoryBus \<times> 'd" where
  "MemoryBus_try_write_u32 = bus_write_le 4 try_write_u32"
definition MemoryBus_try_write_u64 ::
  "'d MemoryBus \<Rightarrow> u64 \<Rightarrow> u64 \<Rightarrow> 'd \<Rightarrow> unit bus_result \<times> 'd MemoryBus \<times> 'd" where
  "MemoryBus_try_write_u64 = bus_write_le 8 try_write_u64"
definition MemoryBus_try_write_u128 ::
  "'d MemoryBus \<Rightarrow> u64 \<Rightarrow> u128 \<Rightarrow> 'd \<Rightarrow> unit bus_result \<times> 'd MemoryBus \<times> 'd" where
  "MemoryBus_try_write_u128 = bus_write_le 16 try_write_u128"

text \<open>The wrappers that panic on an error.\<close>

definition MemoryBus_read_bytes ::
  "'d MemoryBus \<Rightarrow> u64 \<Rightarrow> u8 list \<Rightarrow> 'd \<Rightarrow> unit bus_result \<times> u8 list \<times> 'd" where
  "MemoryBus_read_bytes bus addr dst d = apfst or_panic (MemoryBus_try_read_bytes bus addr dst d)"
definition MemoryBus_write_bytes ::
  "'d MemoryBus \<Rightarrow> u64 \<Rightarrow> u8 list \<Rightarrow> 'd \<Rightarrow> unit bus_result \<times> 'd MemoryBus \<times> 'd" where
  "MemoryBus_write_bytes bus addr src d = apfst or_panic (MemoryBus_try_write_bytes bus addr src d)"
definition MemoryBus_read_u8 :: "'d MemoryBus \<Rightarrow> u64 \<Rightarrow> 'd \<Rightarrow> u8 bus_result \<times> 'd" where
  "MemoryBus_read_u8 bus addr d = apfst or_panic (MemoryBus_try_read_u8 bus addr d)"
definition MemoryBus_read_u16 :: "'d MemoryBus \<Rightarrow> u64 \<Rightarrow> 'd \<Rightarrow> u16 bus_result \<times> 'd" where
  "MemoryBus_read_u16 bus addr d = apfst or_panic (MemoryBus_try_read_u16 bus addr d)"
definition MemoryBus_read_u32 :: "'d MemoryBus \<Rightarrow> u64 \<Rightarrow> 'd \<Rightarrow> u32 bus_result \<times> 'd" where
  "MemoryBus_read_u32 bus addr d = apfst or_panic (MemoryBus_try_read_u32 bus addr d)"
definition MemoryBus_read_u64 :: "'d MemoryBus \<Rightarrow> u64 \<Rightarrow> 'd \<Rightarrow> u64 bus_result \<times> 'd" where
  "MemoryBus_read_u64 bus addr d = apfst or_panic (MemoryBus_try_read_u64 bus addr d)"
definition MemoryBus_read_u128 :: "'d MemoryBus \<Rightarrow> u64 \<Rightarrow> 'd \<Rightarrow> u128 bus_result \<times> 'd" where
  "MemoryBus_read_u128 bus addr d = apfst or_panic (MemoryBus_try_read_u128 bus addr d)"
definition MemoryBus_write_u8 ::
  "'d MemoryBus \<Rightarrow> u64 \<Rightarrow> u8 \<Rightarrow> 'd \<Rightarrow> unit bus_result \<times> 'd MemoryBus \<times> 'd" where
  "MemoryBus_write_u8 bus addr v d = apfst or_panic (MemoryBus_try_write_u8 bus addr v d)"
definition MemoryBus_write_u16 ::
  "'d MemoryBus \<Rightarrow> u64 \<Rightarrow> u16 \<Rightarrow> 'd \<Rightarrow> unit bus_result \<times> 'd MemoryBus \<times> 'd" where
  "MemoryBus_write_u16 bus addr v d = apfst or_panic (MemoryBus_try_write_u16 bus addr v d)"
definition MemoryBus_write_u32 ::
  "'d MemoryBus \<Rightarrow> u64 \<Rightarrow> u32 \<Rightarrow> 'd \<Rightarrow> unit bus_result \<times> 'd MemoryBus \<times> 'd" where
  "MemoryBus_write_u32 bus addr v d = apfst or_panic (MemoryBus_try_write_u32 bus addr v d)"
definition MemoryBus_write_u64 ::
  "'d MemoryBus \<Rightarrow> u64 \<Rightarrow> u64 \<Rightarrow> 'd \<Rightarrow> unit bus_result \<times> 'd MemoryBus \<times> 'd" where
  "MemoryBus_write_u64 bus addr v d = apfst or_panic (MemoryBus_try_write_u64 bus addr v d)"
definition MemoryBus_write_u128 ::
  "'d MemoryBus \<Rightarrow> u64 \<Rightarrow> u128 \<Rightarrow> 'd \<Rightarrow> unit bus_result \<times> 'd MemoryBus \<times> 'd" where
  "MemoryBus_write_u128 bus addr v d = apfst or_panic (MemoryBus_try_write_u128 bus addr v d)"

section \<open>The invariant of the table\<close>

definition overlay_ok :: "'d OverlayRegion \<Rightarrow> bool" where
  "overlay_ok r \<longleftrightarrow> r_start r < r_end r \<and>
     (case kind r of Rom data \<Rightarrow> length data = unat (r_end r) - unat (r_start r) | Mmio _ \<Rightarrow> True)"

abbreviation before :: "'d OverlayRegion \<Rightarrow> 'd OverlayRegion \<Rightarrow> bool" where
  "before r r' \<equiv> r_end r \<le> r_start r'"

definition table_ok :: "'d OverlayRegion list \<Rightarrow> bool" where
  "table_ok os \<longleftrightarrow> (\<forall>r \<in> set os. overlay_ok r) \<and> sorted_wrt before os"

definition bus_wf :: "'d MemoryBus \<Rightarrow> bool" where
  "bus_wf bus \<longleftrightarrow> pm_wf (ram bus) \<and> table_ok (overlays bus)"

lemma partition_point_le: "partition_point P xs \<le> length xs"
  by (simp add: partition_point_def length_takeWhile_le)

lemma partition_point_below: "i < partition_point P xs \<Longrightarrow> P (xs ! i)"
  unfolding partition_point_def by (metis nth_mem set_takeWhileD takeWhile_nth)

lemma partition_point_at: "partition_point P xs < length xs \<Longrightarrow> \<not> P (xs ! partition_point P xs)"
  unfolding partition_point_def by (rule nth_length_takeWhile)

lemma table_ok_start:
  "table_ok os \<Longrightarrow> i < length os \<Longrightarrow> r_start (os ! i) < r_end (os ! i)"
  by (simp add: table_ok_def overlay_ok_def)

lemma table_ok_before:
  "table_ok os \<Longrightarrow> i < j \<Longrightarrow> j < length os \<Longrightarrow> r_end (os ! i) \<le> r_start (os ! j)"
  by (simp add: table_ok_def sorted_wrt_iff_nth_less)

lemma table_ok_starts:
  "table_ok os \<Longrightarrow> i \<le> j \<Longrightarrow> j < length os \<Longrightarrow> r_start (os ! i) \<le> r_start (os ! j)"
  using table_ok_before [of os i j] table_ok_start [of os i] by (cases "i = j") auto

lemma table_ok_ends:
  "table_ok os \<Longrightarrow> i \<le> j \<Longrightarrow> j < length os \<Longrightarrow> r_end (os ! i) \<le> r_end (os ! j)"
  using table_ok_before [of os i j] table_ok_start [of os j] by (cases "i = j") auto

text \<open>
  The partition points of the starts split the sorted table; the \<open>i\<close>-th region starts in the
  wanted part exactly when \<open>i\<close> is below the point.
\<close>

lemma partition_starts:
  assumes "table_ok os" "i < length os" "\<And>a b. a \<le> b \<Longrightarrow> Q b \<Longrightarrow> Q a"
  shows "Q (r_start (os ! i)) \<longleftrightarrow> i < partition_point (\<lambda>r. Q (r_start r)) os"
proof
  let ?p = "partition_point (\<lambda>r. Q (r_start r)) os"
  assume q: "Q (r_start (os ! i))"
  show "i < ?p"
  proof (rule ccontr)
    assume "\<not> i < ?p"
    then have "r_start (os ! ?p) \<le> r_start (os ! i)" "?p < length os"
      using assms(1,2) by (auto intro: table_ok_starts)
    then show False
      using partition_point_at [of "\<lambda>r. Q (r_start r)" os] assms(3) q by blast
  qed
qed (rule partition_point_below)

lemma split_le:
  "table_ok os \<Longrightarrow> i < length os \<Longrightarrow> r_start (os ! i) \<le> a \<longleftrightarrow> i < partition_point (\<lambda>r. r_start r \<le> a) os"
  by (rule partition_starts) auto

lemma split_less:
  "table_ok os \<Longrightarrow> i < length os \<Longrightarrow> r_start (os ! i) < a \<longleftrightarrow> i < partition_point (\<lambda>r. r_start r < a) os"
  by (rule partition_starts) auto

lemma find_overlay_idx_iff:
  assumes "table_ok (overlays bus)"
  shows "find_overlay_idx bus a = Some i \<longleftrightarrow> i < length (overlays bus) \<and> contains (overlays bus ! i) a"
proof -
  let ?os = "overlays bus" and ?p = "partition_point (\<lambda>r. r_start r \<le> a) (overlays bus)"
  have idx: "i = ?p - 1 \<and> 0 < ?p" if i: "i < length ?os" "contains (?os ! i) a"
  proof -
    have "i < ?p" using i split_le [OF assms i(1)] by (simp add: contains_def)
    moreover have "\<not> i < ?p - 1"
    proof
      assume "i < ?p - 1"
      then have "r_end (?os ! i) \<le> r_start (?os ! (?p - 1))" "r_start (?os ! (?p - 1)) \<le> a"
        using partition_point_le [of "\<lambda>r. r_start r \<le> a" ?os] table_ok_before [OF assms]
          partition_point_below [of "?p - 1" "\<lambda>r. r_start r \<le> a" ?os] by auto
      then show False using i unfolding contains_def by (meson leD order.trans)
    qed
    ultimately show ?thesis by linarith
  qed
  show ?thesis
    using idx partition_point_le [of "\<lambda>r. r_start r \<le> a" ?os]
    by (auto simp: find_overlay_idx_def Let_def)
qed

lemma find_overlay_idx_None:
  "table_ok (overlays bus) \<Longrightarrow>
     find_overlay_idx bus a = None \<longleftrightarrow> (\<forall>r \<in> set (overlays bus). \<not> contains r a)"
  using find_overlay_idx_iff [of bus a]
  by (metis in_set_conv_nth not_None_eq option.distinct(1))

text \<open>Two half-open ranges meet.\<close>

definition meets :: "u64 \<Rightarrow> u64 \<Rightarrow> 'd OverlayRegion \<Rightarrow> bool" where
  "meets s e r \<longleftrightarrow> r_start r < e \<and> s < r_end r"

lemma overlapping_overlay_None:
  assumes "table_ok (overlays bus)"
  shows "overlapping_overlay bus s e = None \<longleftrightarrow> (\<forall>r \<in> set (overlays bus). \<not> meets s e r)"
proof -
  let ?os = "overlays bus" and ?p = "partition_point (\<lambda>r. r_start r < e) (overlays bus)"
  have le: "?p \<le> length ?os" by (rule partition_point_le)
  have "overlapping_overlay bus s e = None \<longleftrightarrow> (\<forall>i < ?p. r_end (?os ! i) \<le> s)"
  proof (cases "?p = 0")
    case False
    then have "r_end (?os ! i) \<le> r_end (?os ! (?p - 1))" if "i < ?p" for i
      using table_ok_ends [OF assms, of i "?p - 1"] that le by linarith
    moreover have "?p - 1 < ?p" using False by simp
    ultimately show ?thesis using False
      unfolding overlapping_overlay_def Let_def
      by (metis (no_types, lifting) leD leI option.distinct(1) order.trans)
  qed (simp add: overlapping_overlay_def)
  also have "\<dots> \<longleftrightarrow> (\<forall>i < length ?os. \<not> meets s e (?os ! i))"
  proof -
    have "i < ?p \<longleftrightarrow> i < length ?os \<and> r_start (?os ! i) < e" for i
      using split_less [OF assms, of i e] le by auto
    then show ?thesis by (auto simp: meets_def not_less)
  qed
  finally show ?thesis by (metis in_set_conv_nth)
qed

lemma overlapping_overlay_Some:
  assumes "overlapping_overlay bus s e = Some r"
  shows "r \<in> set (overlays bus) \<and> meets s e r"
proof -
  let ?p = "partition_point (\<lambda>r. r_start r < e) (overlays bus)"
  have "0 < ?p" "r = overlays bus ! (?p - 1)" "s < r_end r"
    using assms by (auto simp: overlapping_overlay_def Let_def split: if_splits)
  then show ?thesis
    using partition_point_below [of "?p - 1" "\<lambda>r. r_start r < e" "overlays bus"]
      partition_point_le [of "\<lambda>r. r_start r < e" "overlays bus"]
    by (auto simp: meets_def)
qed

lemma next_overlay_after:
  assumes "table_ok (overlays bus)" "next_overlay_start_after bus a = nxt" "r \<in> set (overlays bus)" "a < r_start r"
  shows "\<exists>s. nxt = Some s \<and> a < s \<and> s \<le> r_start r"
proof -
  let ?os = "overlays bus" and ?p = "partition_point (\<lambda>r. r_start r \<le> a) (overlays bus)"
  obtain i where i: "i < length ?os" "r = ?os ! i" using assms(3) by (metis in_set_conv_nth)
  then have "?p \<le> i" using assms(4) split_le [OF assms(1) i(1), of a] by auto
  then show ?thesis
    using assms(2) i partition_point_at [of "\<lambda>r. r_start r \<le> a" ?os] table_ok_starts [OF assms(1), of ?p i]
    by (auto simp: next_overlay_start_after_def Let_def)
qed

lemma next_overlay_Some:
  "next_overlay_start_after bus a = Some s \<Longrightarrow> a < s"
  using partition_point_at [of "\<lambda>r. r_start r \<le> a" "overlays bus"]
  by (auto simp: next_overlay_start_after_def Let_def split: if_splits)

section \<open>Registration\<close>

lemma table_ok_insert:
  assumes "table_ok os" "overlay_ok r" "i \<le> length os"
    "\<And>j. j < i \<Longrightarrow> before (os ! j) r" "\<And>j. i \<le> j \<Longrightarrow> j < length os \<Longrightarrow> before r (os ! j)"
  shows "table_ok (take i os @ r # drop i os)"
proof -
  have "\<forall>x \<in> set (take i os). before x r"
    using assms(3,4) by (auto simp: in_set_conv_nth)
  moreover have "\<forall>x \<in> set (drop i os). before r x"
    using assms(3,5) by (auto simp: in_set_conv_nth)
  moreover have "\<forall>x \<in> set (take i os). \<forall>y \<in> set (drop i os). before x y"
    using assms(1) unfolding table_ok_def
    by (metis append_take_drop_id sorted_wrt_append)
  moreover have "sorted_wrt before (take i os)" "sorted_wrt before (drop i os)"
    using assms(1) by (auto simp: table_ok_def sorted_wrt_take sorted_wrt_drop)
  ultimately show ?thesis
    using assms(1,2) by (auto simp: table_ok_def sorted_wrt_append dest: in_set_takeD in_set_dropD)
qed

lemma insert_overlay_cases:
  assumes ok: "table_ok (overlays bus)"
  shows "case insert_overlay bus r of
      Inr bus' \<Rightarrow> r_start r < r_end r \<and> (\<forall>x \<in> set (overlays bus). \<not> meets (r_start r) (r_end r) x) \<and>
        ram bus' = ram bus \<and> set (overlays bus') = insert r (set (overlays bus)) \<and>
        (overlay_ok r \<longrightarrow> table_ok (overlays bus'))
    | Inl e \<Rightarrow> e = Fail (InvalidRange (r_start r) (r_end r)) \<and> r_end r \<le> r_start r \<or>
        (\<exists>x \<in> set (overlays bus). e = Fail (Overlap (r_start r) (r_end r) (r_start x) (r_end x)) \<and>
           r_start r < r_end r \<and> meets (r_start r) (r_end r) x)"
proof -
  let ?os = "overlays bus" and ?p = "partition_point (\<lambda>x. r_start x < r_start r) (overlays bus)"
  have le: "?p \<le> length ?os" by (rule partition_point_le)
  consider (bad) "r_end r \<le> r_start r"
    | (prev) "r_start r < r_end r" "0 < ?p" "r_start r < r_end (?os ! (?p - 1))"
    | (nxt) "r_start r < r_end r" "\<not> (0 < ?p \<and> r_start r < r_end (?os ! (?p - 1)))"
        "?p < length ?os" "r_start (?os ! ?p) < r_end r"
    | (ins) "r_start r < r_end r" "\<not> (0 < ?p \<and> r_start r < r_end (?os ! (?p - 1)))"
        "\<not> (?p < length ?os \<and> r_start (?os ! ?p) < r_end r)"
    by (meson not_le)
  then show ?thesis
  proof cases
    case bad
    then show ?thesis by (simp add: insert_overlay_def)
  next
    case prev
    then have "?os ! (?p - 1) \<in> set ?os" "r_start (?os ! (?p - 1)) < r_start r"
      using le partition_point_below [of "?p - 1" "\<lambda>x. r_start x < r_start r" ?os] by auto
    then have "meets (r_start r) (r_end r) (?os ! (?p - 1))"
      using prev by (auto simp: meets_def)
    then show ?thesis using prev \<open>?os ! (?p - 1) \<in> set ?os\<close>
      by (auto simp: insert_overlay_def Let_def)
  next
    case nxt
    then have "?os ! ?p \<in> set ?os" "r_start r \<le> r_start (?os ! ?p)" "r_start (?os ! ?p) < r_end (?os ! ?p)"
      using partition_point_at [of "\<lambda>x. r_start x < r_start r" ?os] table_ok_start [OF ok]
      by (auto simp: not_less)
    then have "meets (r_start r) (r_end r) (?os ! ?p)"
      using nxt by (auto simp: meets_def)
    then show ?thesis using nxt \<open>?os ! ?p \<in> set ?os\<close>
      by (auto simp: insert_overlay_def Let_def)
  next
    case ins
    have lo: "before (?os ! j) r" if "j < ?p" for j
    proof -
      have "j \<le> ?p - 1" "?p - 1 < length ?os" "0 < ?p" using le that by linarith+
      then show ?thesis using ins(2) table_ok_ends [OF ok, of j "?p - 1"] by (meson leI order.trans)
    qed
    have hi: "before r (?os ! j)" if "?p \<le> j" "j < length ?os" for j
      using ins table_ok_starts [OF ok, of ?p j] that by (auto simp: not_less)
    have "\<not> meets (r_start r) (r_end r) x" if "x \<in> set ?os" for x
    proof -
      obtain j where "j < length ?os" "x = ?os ! j" using \<open>x \<in> set ?os\<close> by (metis in_set_conv_nth)
      then show ?thesis using lo [of j] hi [of j] unfolding meets_def by (meson leD linorder_not_less)
    qed
    moreover have "insert_overlay bus r = Inr (bus\<lparr>overlays := take ?p ?os @ r # drop ?p ?os\<rparr>)"
      using ins by (auto simp: insert_overlay_def Let_def)
    moreover have "set (take ?p ?os @ r # drop ?p ?os) = insert r (set ?os)"
      by (metis Un_insert_right append_take_drop_id list.simps(15) set_append)
    ultimately show ?thesis
      using ins table_ok_insert [OF ok _ le lo hi] by simp
  qed
qed

section \<open>The flat routing function\<close>

text \<open>
  The byte that an address reads as: the overlay that contains it, else RAM, else nothing. An
  MMIO handler is \<open>bytewise\<close> when a read has no effect on the device and returns, at each offset,
  the byte a one-byte read returns there; the open-bus handler is such a handler.
\<close>

definition mmio_byte :: "'d MmioHandler \<Rightarrow> 'd \<Rightarrow> nat \<Rightarrow> u8" where
  "mmio_byte h d off = hd (fst (h_read h (of_nat off) [0] d))"

definition bytewise :: "'d MmioHandler \<Rightarrow> bool" where
  "bytewise h \<longleftrightarrow> (\<forall>off buf d. unat off + length buf < 2 ^ 64 \<longrightarrow>
     h_read h off buf d = (map (\<lambda>i. mmio_byte h d (unat off + i)) [0..<length buf], d))"

definition all_bytewise :: "'d MemoryBus \<Rightarrow> bool" where
  "all_bytewise bus \<longleftrightarrow> (\<forall>r \<in> set (overlays bus). \<forall>h. kind r = Mmio h \<longrightarrow> bytewise h)"

definition overlay_at :: "'d MemoryBus \<Rightarrow> nat \<Rightarrow> 'd OverlayRegion option" where
  "overlay_at bus a = List.find (\<lambda>r. unat (r_start r) \<le> a \<and> a < unat (r_end r)) (overlays bus)"

definition overlay_byte :: "'d OverlayRegion \<Rightarrow> 'd \<Rightarrow> nat \<Rightarrow> u8" where
  "overlay_byte r d a =
     (case kind r of Rom data \<Rightarrow> data ! (a - unat (r_start r)) | Mmio h \<Rightarrow> mmio_byte h d (a - unat (r_start r)))"

definition route :: "'d MemoryBus \<Rightarrow> 'd \<Rightarrow> nat \<Rightarrow> u8 option" where
  "route bus d a =
     (case overlay_at bus a of
        Some r \<Rightarrow> Some (overlay_byte r d a)
      | None \<Rightarrow> if a < unat (pm_len (ram bus)) then Some (pm_byte (ram bus) a) else None)"

definition mapped :: "'d MemoryBus \<Rightarrow> nat \<Rightarrow> bool" where
  "mapped bus a \<longleftrightarrow> overlay_at bus a \<noteq> None \<or> a < unat (pm_len (ram bus))"

lemma route_None: "route bus d a = None \<longleftrightarrow> \<not> mapped bus a"
  by (auto simp: route_def mapped_def split: option.split)

lemma contains_unat: "contains r a \<longleftrightarrow> unat (r_start r) \<le> unat a \<and> unat a < unat (r_end r)"
  by (simp add: contains_def word_le_nat_alt word_less_nat_alt)

lemma overlay_at_None:
  "overlay_at bus a = None \<longleftrightarrow> (\<forall>r \<in> set (overlays bus). \<not> (unat (r_start r) \<le> a \<and> a < unat (r_end r)))"
  by (auto simp: overlay_at_def find_None_iff)

text \<open>In a well-formed table an address has at most one region.\<close>

lemma overlay_at_Some:
  assumes "table_ok (overlays bus)"
  shows "overlay_at bus a = Some r \<longleftrightarrow> r \<in> set (overlays bus) \<and> unat (r_start r) \<le> a \<and> a < unat (r_end r)"
proof -
  let ?os = "overlays bus"
  have uniq: "i = j" if "i < length ?os" "j < length ?os"
    "unat (r_start (?os ! i)) \<le> a" "a < unat (r_end (?os ! i))"
    "unat (r_start (?os ! j)) \<le> a" "a < unat (r_end (?os ! j))" for i j
    using table_ok_before [OF assms, of i j] table_ok_before [OF assms, of j i] that
    by (cases i j rule: linorder_cases) (simp_all add: word_le_nat_alt)
  show ?thesis
  proof
    assume "overlay_at bus a = Some r"
    then show "r \<in> set ?os \<and> unat (r_start r) \<le> a \<and> a < unat (r_end r)"
      by (auto simp: overlay_at_def find_Some_iff)
  next
    assume r: "r \<in> set ?os \<and> unat (r_start r) \<le> a \<and> a < unat (r_end r)"
    then obtain j where j: "j < length ?os" "r = ?os ! j" by (metis in_set_conv_nth)
    then show "overlay_at bus a = Some r"
      using uniq r unfolding overlay_at_def find_Some_iff
      by (metis (no_types, lifting) order.strict_trans less_irrefl)
  qed
qed

lemma find_overlay_at:
  assumes "table_ok (overlays bus)"
  shows "find_overlay_idx bus a = None \<Longrightarrow> overlay_at bus (unat a) = None"
    and "find_overlay_idx bus a = Some i \<Longrightarrow> overlay_at bus (unat a) = Some (overlays bus ! i)"
  using find_overlay_idx_None [OF assms, of a] find_overlay_idx_iff [OF assms, of a i]
  by (auto simp: overlay_at_None overlay_at_Some [OF assms] contains_unat)

lemma checked_end_eq:
  "n < 2 ^ 64 \<Longrightarrow> checked_end a n =
     (if unat a + n < 2 ^ 64 then Inr (a + of_nat n) else Inl (Fail (AddressOverflow a n)))"
  by (simp add: checked_end_def checked_add_def unat_of_nat)

lemma unat_add_small: "unat a + n < 2 ^ 64 \<Longrightarrow> unat (a + of_nat n :: u64) = unat a + n"
  by (simp add: unat_word_ariths unat_of_nat)

lemma unat_min: "unat (min a b) = min (unat a) (unat b)" for a b :: "'a::len word"
  by (simp add: min_def word_le_nat_alt)

text \<open>A RAM segment ends at the RAM end or before the next overlay, and is never empty.\<close>

lemma ram_segment:
  assumes ok: "table_ok (overlays bus)" and free: "overlay_at bus (unat a) = None"
    and inr: "unat a < unat (pm_len (ram bus))" and n: "0 < n" "n < 2 ^ 64"
  defines "m \<equiv> ram_seg_len bus a n"
  shows "0 < m \<and> m \<le> n \<and> unat a + m \<le> unat (pm_len (ram bus)) \<and>
    (\<forall>i < m. overlay_at bus (unat a + i) = None)"
proof -
  let ?len = "pm_len (ram bus)"
  define nxt where "nxt = (case next_overlay_start_after bus a of Some s \<Rightarrow> s | None \<Rightarrow> ?len)"
  have a: "a < ?len" using inr by (simp add: word_less_nat_alt)
  have "a < nxt" using a next_overlay_Some [of bus a] by (auto simp: nxt_def split: option.split)
  then have "unat (min ?len nxt - a) = min (unat ?len) (unat nxt) - unat a"
    using a by (subst unat_sub) (auto simp: unat_min word_le_nat_alt word_less_nat_alt)
  then have m: "m = min (min (unat ?len) (unat nxt) - unat a) n"
    using n by (simp add: m_def ram_seg_len_def nxt_def unat_min unat_of_nat Let_def)
  have "overlay_at bus (unat a + i) = None" if "i < m" for i
  proof (rule ccontr)
    assume "overlay_at bus (unat a + i) \<noteq> None"
    then obtain r where r: "r \<in> set (overlays bus)" "unat (r_start r) \<le> unat a + i" "unat a + i < unat (r_end r)"
      by (auto simp: overlay_at_None)
    have "\<not> unat (r_start r) \<le> unat a"
      using free r by (auto simp: overlay_at_None)
    then obtain s where "next_overlay_start_after bus a = Some s" "s \<le> r_start r"
      using next_overlay_after [OF ok refl r(1), of a] by (auto simp: word_less_nat_alt)
    then have "unat nxt \<le> unat (r_start r)" by (simp add: nxt_def word_le_nat_alt)
    then show False using r(2) that m by (simp add: min_def split: if_splits)
  qed
  then show ?thesis
    using m n a \<open>a < nxt\<close> by (auto simp: word_less_nat_alt)
qed

text \<open>An overlay segment stays inside its region.\<close>

lemma overlay_segment:
  assumes ok: "table_ok (overlays bus)" and at: "overlay_at bus (unat a) = Some r"
    and n: "0 < n" "n < 2 ^ 64"
  defines "m \<equiv> unat (min (r_end r - a) (of_nat n))"
  shows "0 < m \<and> m \<le> n \<and> unat (a - r_start r) = unat a - unat (r_start r) \<and>
    unat (a - r_start r) + m \<le> unat (r_end r) - unat (r_start r) \<and>
    (\<forall>i < m. overlay_at bus (unat a + i) = Some r)"
proof -
  have r: "r \<in> set (overlays bus)" "unat (r_start r) \<le> unat a" "unat a < unat (r_end r)"
    using at overlay_at_Some [OF ok] by blast+
  have "unat (r_end r - a) = unat (r_end r) - unat a" "unat (a - r_start r) = unat a - unat (r_start r)"
    using r by (simp_all add: unat_sub word_le_nat_alt)
  then have "m = min (unat (r_end r) - unat a) n"
    using n by (simp add: m_def unat_min unat_of_nat)
  then show ?thesis
    using r n \<open>unat (a - r_start r) = _\<close> by (auto simp: overlay_at_Some [OF ok])
qed

section \<open>Reads go where the routing function says\<close>

lemma read_segment_overlay:
  assumes ok: "table_ok (overlays bus)" and pure: "all_bytewise bus"
    and buf: "buf \<noteq> []" "unat a + length buf < 2 ^ 64" and k: "find_overlay_idx bus a = Some k"
  shows "\<exists>n bs. read_segment bus a buf d = Inr (n, bs, d) \<and> 0 < n \<and> n \<le> length buf \<and> length bs = n \<and>
    (\<forall>i < n. route bus d (unat a + i) = Some (bs ! i))"
proof -
  define r where "r = overlays bus ! k"
  define m where "m = unat (min (r_end r - a) (of_nat (length buf)))"
  have at: "overlay_at bus (unat a) = Some r" using find_overlay_at(2) [OF ok k] by (simp add: r_def)
  have len: "0 < length buf" "length buf < 2 ^ 64" using buf by auto
  note seg = overlay_segment [OF ok at len, folded m_def]
  have r: "r \<in> set (overlays bus)" "unat (r_start r) \<le> unat a" using at overlay_at_Some [OF ok] by blast+
  have byte: "route bus d (unat a + i) = Some (overlay_byte r d (unat a + i))" if "i < m" for i
    using seg that by (simp add: route_def)
  have off: "unat (a - r_start r) + i = unat a + i - unat (r_start r)" for i using seg r(2) by simp
  show ?thesis
  proof (cases "kind r")
    case (Rom data)
    then have "length data = unat (r_end r) - unat (r_start r)"
      using ok r by (auto simp: table_ok_def overlay_ok_def)
    then have "slice_at data (unat (a - r_start r)) m =
        Some (map (\<lambda>i. data ! (unat a + i - unat (r_start r))) [0..<m])"
      using seg slice_at_Some [of "unat (a - r_start r)" m data] unfolding off by simp
    then show ?thesis using k seg Rom byte
      by (simp add: read_segment_def Let_def overlay_byte_def flip: r_def m_def)
  next
    case (Mmio h)
    then have "bytewise h" using pure r by (auto simp: all_bytewise_def)
    moreover have "unat (a - r_start r) + length (take m buf) < 2 ^ 64" "length (take m buf) = m"
      using seg buf by auto
    ultimately have "h_read h (a - r_start r) (take m buf) d =
        (map (\<lambda>i. mmio_byte h d (unat a + i - unat (r_start r))) [0..<m], d)"
      unfolding bytewise_def by (simp add: off)
    then show ?thesis using k seg Mmio byte
      by (simp add: read_segment_def Let_def overlay_byte_def flip: r_def m_def)
  qed
qed

lemma read_segment_routes:
  assumes wf: "bus_wf bus" and pure: "all_bytewise bus"
    and buf: "buf \<noteq> []" "unat a + length buf < 2 ^ 64"
  shows "case read_segment bus a buf d of
      Inl e \<Rightarrow> e = Fail (Unmapped a (length buf)) \<and> \<not> mapped bus (unat a)
    | Inr (n, bs, d') \<Rightarrow> d' = d \<and> 0 < n \<and> n \<le> length buf \<and> length bs = n \<and>
        (\<forall>i < n. route bus d (unat a + i) = Some (bs ! i))"
proof -
  have ok: "table_ok (overlays bus)" and pm: "pm_wf (ram bus)" using wf by (auto simp: bus_wf_def)
  have len: "0 < length buf" "length buf < 2 ^ 64" using buf by auto
  show ?thesis
  proof (cases "find_overlay_idx bus a")
    case (Some k)
    then show ?thesis using read_segment_overlay [OF ok pure buf Some, of d] by auto
  next
    case None
    note free = find_overlay_at(1) [OF ok None]
    show ?thesis
    proof (cases "unat a < unat (pm_len (ram bus))")
      case False
      then show ?thesis using None free
        by (simp add: read_segment_def mapped_def word_le_nat_alt)
    next
      case True
      let ?m = "ram_seg_len bus a (length buf)"
      note seg = ram_segment [OF ok free True len]
      have "try_read_bytes (ram bus) a (take ?m buf) = Inr (pm_bytes (ram bus) (unat a) ?m)"
        using seg len by (subst try_read_bytes_eq [OF pm]) auto
      then show ?thesis using None True seg
        by (auto simp: read_segment_def Let_def route_def pm_bytes_def word_le_nat_alt)
    qed
  qed
qed

text \<open>The number of mapped bytes before the first hole.\<close>

fun mapped_prefix :: "'d MemoryBus \<Rightarrow> nat \<Rightarrow> nat \<Rightarrow> nat" where
  "mapped_prefix bus a 0 = 0"
| "mapped_prefix bus a (Suc n) = (if mapped bus a then Suc (mapped_prefix bus (Suc a) n) else 0)"

definition routed :: "'d MemoryBus \<Rightarrow> 'd \<Rightarrow> nat \<Rightarrow> nat \<Rightarrow> u8 list" where
  "routed bus d a n = map (\<lambda>i. the (route bus d (a + i))) [0..<n]"

lemma mapped_prefix_le: "mapped_prefix bus a n \<le> n"
  by (induction n arbitrary: a) auto

lemma mapped_prefix_numeral [simp]:
  "mapped_prefix bus a (numeral k) =
     (if mapped bus a then Suc (mapped_prefix bus (Suc a) (pred_numeral k)) else 0)"
  by (simp add: numeral_eq_Suc)

lemma mapped_prefix_add:
  "(\<forall>i < n. mapped bus (a + i)) \<Longrightarrow> mapped_prefix bus a (n + k) = n + mapped_prefix bus (a + n) k"
proof (induction n arbitrary: a)
  case (Suc n)
  have "mapped bus a" using Suc.prems by force
  moreover have "\<forall>i < n. mapped bus (Suc a + i)" using Suc.prems by force
  ultimately show ?case using Suc.IH [of "Suc a"] by simp
qed simp

lemma length_routed [simp]: "length (routed bus d a n) = n"
  by (simp add: routed_def)

lemma routed_add: "routed bus d a (m + n) = routed bus d a m @ routed bus d (a + m) n"
  by (auto simp: routed_def nth_append intro!: nth_equalityI)

lemma bus_read_loop_routes:
  assumes wf: "bus_wf bus" and pure: "all_bytewise bus"
    and "off \<le> length dst" "length dst - off \<le> fuel" "unat a + (length dst - off) < 2 ^ 64"
  shows "bus_read_loop fuel bus a off dst d =
    (let k = length dst - off; m = mapped_prefix bus (unat a) k in
       (if m = k then Inr () else Inl (Fail (Unmapped (a + of_nat m) (k - m))),
        take off dst @ routed bus d (unat a) m @ drop (off + m) dst, d))"
  using assms(3-5)
proof (induction fuel arbitrary: off dst a)
  case 0
  then show ?case by (simp add: bus_read_loop.simps routed_def Let_def)
next
  case (Suc fuel)
  show ?case
  proof (cases "off < length dst")
    case False
    with Suc.prems show ?thesis by (simp add: bus_read_loop.simps routed_def Let_def)
  next
    case True
    let ?buf = "drop off dst" and ?k = "length dst - off"
    have "?buf \<noteq> []" "unat a + length ?buf < 2 ^ 64" using True Suc.prems by auto
    note seg = read_segment_routes [OF wf pure this, of d]
    show ?thesis
    proof (cases "read_segment bus a ?buf d")
      case (Inl e)
      then have "mapped_prefix bus (unat a) ?k = 0" using seg by (cases ?k) auto
      with Inl seg True show ?thesis
        by (subst bus_read_loop.simps) (simp add: routed_def Let_def)
    next
      case (Inr x)
      then obtain n bs where x: "x = (n, bs, d)" "0 < n" "n \<le> ?k" "length bs = n"
        and bs: "\<forall>i < n. route bus d (unat a + i) = Some (bs ! i)"
        using seg by (cases x) auto
      let ?dst = "take off dst @ bs @ drop (off + n) dst"
      define m where "m = mapped_prefix bus (unat a + n) (?k - n)"
      have an: "unat (a + of_nat n) = unat a + n" using x Suc.prems by (intro unat_add_small) simp
      have rt: "bs = routed bus d (unat a) n" using bs x by (auto simp: routed_def intro!: nth_equalityI)
      have "\<forall>i < n. mapped bus (unat a + i)" using bs by (metis option.distinct(1) route_None)
      then have mp: "mapped_prefix bus (unat a) ?k = n + m"
        using mapped_prefix_add [of n bus "unat a" "?k - n"] le_add_diff_inverse [OF x(3)]
        unfolding m_def by metis
      have fit: "off + n \<le> length dst" using x(3) True by linarith
      have "bus_read_loop (Suc fuel) bus a off dst d =
          bus_read_loop fuel bus (a + of_nat n) (off + n) ?dst d"
        using True Inr x fit by (subst bus_read_loop.simps) (simp add: copy_at_def)
      also have "\<dots> = (if m = ?k - n then Inr () else Inl (Fail (Unmapped (a + of_nat n + of_nat m) (?k - n - m))),
          take (off + n) ?dst @ routed bus d (unat a + n) m @ drop (off + n + m) ?dst, d)"
        using x Suc.prems an by (subst Suc.IH) (auto simp: Let_def m_def)
      finally show ?thesis
        using x rt
        by (auto simp: mp Let_def routed_add add.assoc intro!: arg_cong [of _ _ "\<lambda>k. drop k dst"])
    qed
  qed
qed

text \<open>A range that meets no overlay and lies in RAM is mapped, byte for byte, to RAM.\<close>

lemma meets_overlay_at:
  assumes "\<forall>r \<in> set (overlays bus). \<not> meets a (a + of_nat n) r" "unat a + n < 2 ^ 64" "i < n"
  shows "overlay_at bus (unat a + i) = None"
  using assms by (fastforce simp: overlay_at_None meets_def word_less_nat_alt unat_add_small)

lemma all_mapped_prefix: "(\<forall>i < n. mapped bus (a + i)) \<Longrightarrow> mapped_prefix bus a n = n"
  using mapped_prefix_add [of n bus a 0] by simp

lemma ram_only:
  assumes ok: "table_ok (overlays bus)" and n: "unat a + n < 2 ^ 64"
    and e: "a + of_nat n \<le> pm_len (ram bus)" "overlapping_overlay bus a (a + of_nat n) = None"
  shows "unat a + n \<le> unat (pm_len (ram bus))" "\<forall>i < n. overlay_at bus (unat a + i) = None"
  using e(1) n meets_overlay_at [OF e(2) [unfolded overlapping_overlay_None [OF ok]] n]
  by (simp_all add: word_le_nat_alt unat_add_small)

lemma MemoryBus_try_read_bytes_routes:
  assumes wf: "bus_wf bus" and pure: "all_bytewise bus" and n: "length dst < 2 ^ 64"
  shows "MemoryBus_try_read_bytes bus a dst d =
    (if dst \<noteq> [] \<and> 2 ^ 64 \<le> unat a + length dst then (Inl (Fail (AddressOverflow a (length dst))), dst, d)
     else let m = mapped_prefix bus (unat a) (length dst) in
       (if m = length dst then Inr () else Inl (Fail (Unmapped (a + of_nat m) (length dst - m))),
        routed bus d (unat a) m @ drop m dst, d))"
proof (cases "dst = [] \<or> 2 ^ 64 \<le> unat a + length dst")
  case True
  then show ?thesis using n
    by (auto simp: MemoryBus_try_read_bytes_def checked_end_eq routed_def)
next
  case False
  let ?e = "a + of_nat (length dst)"
  have ok: "table_ok (overlays bus)" and pm: "pm_wf (ram bus)" using wf by (auto simp: bus_wf_def)
  show ?thesis
  proof (cases "?e \<le> pm_len (ram bus) \<and> overlapping_overlay bus a ?e = None")
    case fast: True
    have lt: "unat a + length dst < 2 ^ 64" using False by simp
    have e: "?e \<le> pm_len (ram bus)" "overlapping_overlay bus a ?e = None" using fast by simp_all
    note r = ram_only [OF ok lt e]
    have "routed bus d (unat a) (length dst) = pm_bytes (ram bus) (unat a) (length dst)"
      using r by (auto simp: routed_def pm_bytes_def route_def)
    moreover have "mapped_prefix bus (unat a) (length dst) = length dst"
      using r by (intro all_mapped_prefix) (auto simp: mapped_def)
    ultimately show ?thesis
      using False fast r n by (simp add: MemoryBus_try_read_bytes_def checked_end_eq try_read_bytes_eq [OF pm] Let_def)
  next
    case slow: False
    then have "MemoryBus_try_read_bytes bus a dst d = bus_read_loop (length dst) bus a 0 dst d"
      using False n by (auto simp: MemoryBus_try_read_bytes_def checked_end_eq)
    also have "\<dots> = (let m = mapped_prefix bus (unat a) (length dst) in
       (if m = length dst then Inr () else Inl (Fail (Unmapped (a + of_nat m) (length dst - m))),
        routed bus d (unat a) m @ drop m dst, d))"
      using False by (subst bus_read_loop_routes [OF wf pure]) (auto simp: Let_def)
    finally show ?thesis using False by auto
  qed
qed

section \<open>Handlers are asked for their own range only\<close>

text \<open>
  A property of the device state that every access inside the registered range of every handler
  keeps is kept by every access through the bus.
\<close>

definition in_range_invariant :: "'d MemoryBus \<Rightarrow> ('d \<Rightarrow> bool) \<Rightarrow> bool" where
  "in_range_invariant bus P \<longleftrightarrow>
     (\<forall>r \<in> set (overlays bus). \<forall>h off data d. kind r = Mmio h \<longrightarrow> P d \<longrightarrow> data \<noteq> [] \<longrightarrow>
        unat off + length data \<le> unat (r_end r) - unat (r_start r) \<longrightarrow>
        P (snd (h_read h off data d)) \<and> length (fst (h_read h off data d)) = length data \<and>
        P (h_write h off data d))"

lemma read_segment_in_range:
  assumes ok: "table_ok (overlays bus)" and inv: "in_range_invariant bus P" "P d"
    and buf: "buf \<noteq> []" "length buf < 2 ^ 64" and seg: "read_segment bus a buf d = Inr (n, bs, d')"
  shows "P d'"
proof (cases "find_overlay_idx bus a")
  case None
  then have "d' = d" using seg
    by (auto simp: read_segment_def Let_def split: if_splits elim!: bind_ok.elims)
  then show ?thesis using inv(2) by simp
next
  case (Some k)
  define r where "r = overlays bus ! k"
  define m where "m = unat (min (r_end r - a) (of_nat (length buf)))"
  have at: "overlay_at bus (unat a) = Some r" using find_overlay_at(2) [OF ok Some] by (simp add: r_def)
  have r: "r \<in> set (overlays bus)" using at overlay_at_Some [OF ok] by blast
  have s: "0 < m \<and> m \<le> length buf \<and> unat (a - r_start r) + m \<le> unat (r_end r) - unat (r_start r)"
    using overlay_segment [OF ok at, of "length buf"] buf by (simp add: m_def)
  show ?thesis
  proof (cases "kind r")
    case (Rom data)
    then show ?thesis using seg Some inv(2)
      by (auto simp: read_segment_def Let_def simp flip: r_def m_def split: option.splits)
  next
    case (Mmio h)
    then have "d' = snd (h_read h (a - r_start r) (take m buf) d)"
      using seg Some by (auto simp: read_segment_def Let_def simp flip: r_def m_def split: prod.splits)
    then show ?thesis using inv r Mmio s buf by (auto simp: in_range_invariant_def)
  qed
qed

lemma bus_read_loop_in_range:
  assumes "table_ok (overlays bus)" "in_range_invariant bus P" "length dst < 2 ^ 64"
  shows "P d \<Longrightarrow> P (snd (snd (bus_read_loop fuel bus a off dst d)))"
  using assms(3)
proof (induction fuel arbitrary: a off dst d)
  case 0
  then show ?case by (simp add: bus_read_loop.simps)
next
  case (Suc fuel)
  have "P d'" if "off < length dst" "read_segment bus a (drop off dst) d = Inr (n, bs, d')" for n bs d'
    using read_segment_in_range [OF assms(1,2), of d "drop off dst" a n bs d'] that Suc.prems by auto
  moreover have "length dst' = length dst" if "copy_at dst off bs = Some dst'" for dst' bs
    using that by (auto simp: copy_at_def split: if_splits)
  ultimately show ?case
    using Suc.IH Suc.prems
    by (subst bus_read_loop.simps) (auto split: sum.split prod.split option.split)
qed

lemma write_segment_in_range:
  assumes ok: "table_ok (overlays bus)" and inv: "in_range_invariant bus P" "P d"
    and rest: "rest \<noteq> []" "length rest < 2 ^ 64" and seg: "write_segment bus a rest d = Inr (n, bus', d')"
  shows "P d' \<and> overlays bus' = overlays bus"
proof (cases "find_overlay_idx bus a")
  case None
  then show ?thesis using seg inv(2)
    by (auto simp: write_segment_def Let_def split: if_splits elim!: bind_ok.elims)
next
  case (Some k)
  define r where "r = overlays bus ! k"
  define m where "m = unat (min (r_end r - a) (of_nat (length rest)))"
  have at: "overlay_at bus (unat a) = Some r" using find_overlay_at(2) [OF ok Some] by (simp add: r_def)
  have r: "r \<in> set (overlays bus)" using at overlay_at_Some [OF ok] by blast
  have s: "0 < m \<and> m \<le> length rest \<and> unat (a - r_start r) + m \<le> unat (r_end r) - unat (r_start r)"
    using overlay_segment [OF ok at, of "length rest"] rest by (simp add: m_def)
  show ?thesis
  proof (cases "kind r")
    case (Rom data)
    then show ?thesis using seg Some inv(2)
      by (auto simp: write_segment_def Let_def simp flip: r_def m_def)
  next
    case (Mmio h)
    then have "d' = h_write h (a - r_start r) (take m rest) d" "bus' = bus"
      using seg Some by (auto simp: write_segment_def Let_def simp flip: r_def m_def)
    then show ?thesis using inv r Mmio s rest by (auto simp: in_range_invariant_def)
  qed
qed

lemma bus_write_loop_in_range:
  assumes "length src < 2 ^ 64"
  shows "table_ok (overlays bus) \<Longrightarrow> in_range_invariant bus P \<Longrightarrow> P d \<Longrightarrow>
    P (snd (snd (bus_write_loop fuel bus a off src d)))"
proof (induction fuel arbitrary: a off d bus)
  case 0
  then show ?case by (simp add: bus_write_loop.simps)
next
  case (Suc fuel)
  have "P d' \<and> overlays bus' = overlays bus"
    if "off < length src" "write_segment bus a (drop off src) d = Inr (n, bus', d')" for n bus' d'
    using write_segment_in_range [OF Suc.prems, of "drop off src" a n bus' d'] that assms by auto
  moreover have "in_range_invariant bus' P" if "overlays bus' = overlays bus" for bus'
    using that Suc.prems(2) by (simp add: in_range_invariant_def)
  ultimately show ?case
    using Suc.IH Suc.prems
    by (subst bus_write_loop.simps) (auto split: sum.split prod.split)
qed

section \<open>Writes change exactly the RAM bytes they reach\<close>

definition bus_updated :: "'d MemoryBus \<Rightarrow> nat \<Rightarrow> u8 list \<Rightarrow> 'd MemoryBus \<Rightarrow> bool" where
  "bus_updated bus a bs bus' \<longleftrightarrow>
     bus_wf bus' \<and> overlays bus' = overlays bus \<and> pm_len (ram bus') = pm_len (ram bus) \<and>
     (\<forall>x < unat (pm_len (ram bus)). pm_byte (ram bus') x =
        (if x \<in> {a..<a + length bs} \<and> overlay_at bus x = None then bs ! (x - a) else pm_byte (ram bus) x))"

lemma bus_updated_Nil: "bus_wf bus \<Longrightarrow> bus_updated bus a [] bus"
  by (simp add: bus_updated_def)

lemma mapped_cong:
  "overlays bus' = overlays bus \<Longrightarrow> pm_len (ram bus') = pm_len (ram bus) \<Longrightarrow> mapped bus' x = mapped bus x"
  by (simp add: overlay_at_def mapped_def)

lemma mapped_prefix_cong:
  "overlays bus' = overlays bus \<Longrightarrow> pm_len (ram bus') = pm_len (ram bus) \<Longrightarrow>
     mapped_prefix bus' a n = mapped_prefix bus a n"
  using mapped_cong [of bus' bus] by (induction n arbitrary: a) simp_all

lemma bus_updated_append:
  assumes one: "bus_updated bus a bs bus'" and two: "bus_updated bus' (a + length bs) cs bus''"
  shows "bus_updated bus a (bs @ cs) bus''"
proof -
  have o': "overlay_at bus' = overlay_at bus"
    using one by (simp add: bus_updated_def overlay_at_def fun_eq_iff)
  have "pm_byte (ram bus'') x =
      (if x \<in> {a..<a + length (bs @ cs)} \<and> overlay_at bus x = None then (bs @ cs) ! (x - a)
       else pm_byte (ram bus) x)" if "x < unat (pm_len (ram bus))" for x
  proof (cases "overlay_at bus x = None")
    case True
    have "pm_byte (ram bus'') x =
        (if x \<in> {a + length bs..<a + length bs + length cs} then cs ! (x - (a + length bs))
         else pm_byte (ram bus') x)"
      using two one that True by (simp add: bus_updated_def o')
    moreover have "pm_byte (ram bus') x = (if x \<in> {a..<a + length bs} then bs ! (x - a) else pm_byte (ram bus) x)"
      using one that True by (simp add: bus_updated_def)
    ultimately show ?thesis using True by (auto simp: nth_append)
  next
    case False
    then show ?thesis using one two that by (auto simp: bus_updated_def o')
  qed
  then show ?thesis using one two by (simp add: bus_updated_def)
qed

lemma write_segment_updates:
  assumes wf: "bus_wf bus" and rest: "rest \<noteq> []" "unat a + length rest < 2 ^ 64"
  shows "case write_segment bus a rest d of
      Inl e \<Rightarrow> e = Fail (Unmapped a (length rest)) \<and> \<not> mapped bus (unat a)
    | Inr (n, bus', d') \<Rightarrow> 0 < n \<and> n \<le> length rest \<and> (\<forall>i < n. mapped bus (unat a + i)) \<and>
        bus_updated bus (unat a) (take n rest) bus'"
proof -
  have ok: "table_ok (overlays bus)" and pm: "pm_wf (ram bus)" using wf by (auto simp: bus_wf_def)
  have len: "0 < length rest" "length rest < 2 ^ 64" using rest by auto
  show ?thesis
  proof (cases "find_overlay_idx bus a")
    case (Some k)
    define r where "r = overlays bus ! k"
    define m where "m = unat (min (r_end r - a) (of_nat (length rest)))"
    have at: "overlay_at bus (unat a) = Some r" using find_overlay_at(2) [OF ok Some] by (simp add: r_def)
    note seg = overlay_segment [OF ok at len, folded m_def]
    then have "bus_updated bus (unat a) (take m rest) bus"
      using wf by (auto simp: bus_updated_def dest!: le_Suc_ex)
    then show ?thesis using Some seg
      by (auto simp: write_segment_def Let_def mapped_def simp flip: r_def m_def split: OverlayKind.split)
  next
    case None
    note free = find_overlay_at(1) [OF ok None]
    show ?thesis
    proof (cases "unat a < unat (pm_len (ram bus))")
      case False
      then show ?thesis using None free
        by (simp add: write_segment_def mapped_def word_le_nat_alt)
    next
      case True
      let ?m = "ram_seg_len bus a (length rest)"
      note seg = ram_segment [OF ok free True len]
      obtain pm' where w: "try_write_bytes (ram bus) a (take ?m rest) = Inr pm'"
        and u: "pm_updated (ram bus) (unat a) (take ?m rest) pm'"
        using try_write_bytes_updates [OF pm, of a "take ?m rest"] seg by auto
      have "overlay_at bus x = None" if "x \<in> {unat a..<unat a + ?m}" for x
        using seg that by (auto dest!: le_Suc_ex)
      then have "bus_updated bus (unat a) (take ?m rest) (bus\<lparr>ram := pm'\<rparr>)"
        using u wf seg by (auto simp: bus_updated_def pm_updated_def bus_wf_def)
      then show ?thesis using None True seg w
        by (auto simp: write_segment_def Let_def mapped_def word_le_nat_alt)
    qed
  qed
qed

lemma bus_write_loop_updates:
  assumes "bus_wf bus" "off \<le> length src" "length src - off \<le> fuel" "unat a + (length src - off) < 2 ^ 64"
  defines "k \<equiv> length src - off"
  shows "\<exists>bus' d'. bus_write_loop fuel bus a off src d =
      (if mapped_prefix bus (unat a) k = k then Inr ()
       else Inl (Fail (Unmapped (a + of_nat (mapped_prefix bus (unat a) k)) (k - mapped_prefix bus (unat a) k))),
       bus', d') \<and>
    bus_updated bus (unat a) (take (mapped_prefix bus (unat a) k) (drop off src)) bus'"
  using assms(1-4) unfolding k_def
proof (induction fuel arbitrary: off a bus d)
  case 0
  then show ?case by (simp add: bus_write_loop.simps bus_updated_Nil)
next
  case (Suc fuel)
  show ?case
  proof (cases "off < length src")
    case False
    with Suc.prems show ?thesis by (simp add: bus_write_loop.simps bus_updated_Nil)
  next
    case True
    let ?rest = "drop off src" and ?k = "length src - off"
    have "?rest \<noteq> []" "unat a + length ?rest < 2 ^ 64" using True Suc.prems by auto
    note seg = write_segment_updates [OF Suc.prems(1) this, of d]
    show ?thesis
    proof (cases "write_segment bus a ?rest d")
      case (Inl e)
      then have "mapped_prefix bus (unat a) ?k = 0" using seg by (cases ?k) auto
      with Inl seg True Suc.prems(1) show ?thesis
        by (subst bus_write_loop.simps) (simp add: bus_updated_Nil)
    next
      case (Inr x)
      then obtain n bus1 d1 where x: "x = (n, bus1, d1)" "0 < n" "n \<le> ?k" "\<forall>i < n. mapped bus (unat a + i)"
        and one: "bus_updated bus (unat a) (take n ?rest) bus1"
        using seg by (cases x) auto
      define m where "m = mapped_prefix bus1 (unat a + n) (?k - n)"
      have wf1: "bus_wf bus1" and same: "overlays bus1 = overlays bus" "pm_len (ram bus1) = pm_len (ram bus)"
        using one by (simp_all add: bus_updated_def)
      have an: "unat (a + of_nat n) = unat a + n" using x Suc.prems by (intro unat_add_small) simp
      have mp: "mapped_prefix bus (unat a) ?k = n + m"
        using mapped_prefix_add [OF x(4), of "?k - n"] le_add_diff_inverse [OF x(3)]
          mapped_prefix_cong [OF same] unfolding m_def by metis
      have "bus_write_loop (Suc fuel) bus a off src d = bus_write_loop fuel bus1 (a + of_nat n) (off + n) src d1"
        using True Inr x by (subst bus_write_loop.simps) simp
      moreover have "\<exists>bus' d'. bus_write_loop fuel bus1 (a + of_nat n) (off + n) src d1 =
          (if m = ?k - n then Inr () else Inl (Fail (Unmapped (a + of_nat n + of_nat m) (?k - n - m))), bus', d') \<and>
          bus_updated bus1 (unat a + n) (take m (drop (off + n) src)) bus'"
        using Suc.IH [OF wf1, of "off + n" "a + of_nat n" d1] x Suc.prems an by (auto simp: m_def)
      moreover have "take n ?rest @ take m (drop (off + n) src) = take (n + m) ?rest"
        by (simp only: take_add drop_drop add.commute [of off n])
      moreover have "length (take n ?rest) = n" using x(3) by simp
      ultimately show ?thesis
        using bus_updated_append [OF one] x(3) unfolding mp
        by (fastforce simp: add.assoc)
    qed
  qed
qed

lemma MemoryBus_try_write_bytes_updates:
  assumes wf: "bus_wf bus" and n: "length src < 2 ^ 64"
  shows "if src \<noteq> [] \<and> 2 ^ 64 \<le> unat a + length src
    then MemoryBus_try_write_bytes bus a src d = (Inl (Fail (AddressOverflow a (length src))), bus, d)
    else \<exists>bus' d'. MemoryBus_try_write_bytes bus a src d =
      (if mapped_prefix bus (unat a) (length src) = length src then Inr ()
       else Inl (Fail (Unmapped (a + of_nat (mapped_prefix bus (unat a) (length src)))
                  (length src - mapped_prefix bus (unat a) (length src)))), bus', d') \<and>
      bus_updated bus (unat a) (take (mapped_prefix bus (unat a) (length src)) src) bus'"
proof (cases "src = [] \<or> 2 ^ 64 \<le> unat a + length src")
  case True
  then show ?thesis using n bus_updated_Nil [OF wf]
    by (auto simp: MemoryBus_try_write_bytes_def checked_end_eq)
next
  case False
  let ?e = "a + of_nat (length src)"
  have ok: "table_ok (overlays bus)" and pm: "pm_wf (ram bus)" using wf by (auto simp: bus_wf_def)
  show ?thesis
  proof (cases "?e \<le> pm_len (ram bus) \<and> overlapping_overlay bus a ?e = None")
    case fast: True
    have lt: "unat a + length src < 2 ^ 64" using False by simp
    have e: "?e \<le> pm_len (ram bus)" "overlapping_overlay bus a ?e = None" using fast by simp_all
    note r = ram_only [OF ok lt e]
    obtain pm' where w: "try_write_bytes (ram bus) a src = Inr pm'" and u: "pm_updated (ram bus) (unat a) src pm'"
      using try_write_bytes_updates [OF pm r(1)] .
    have free: "overlay_at bus x = None" if "x \<in> {unat a..<unat a + length src}" for x
      using r(2) that by (auto dest!: le_Suc_ex)
    have "bus_updated bus (unat a) src (bus\<lparr>ram := pm'\<rparr>)"
      using u wf free by (auto simp: bus_updated_def pm_updated_def bus_wf_def)
    moreover have "mapped_prefix bus (unat a) (length src) = length src"
      using r by (intro all_mapped_prefix) (auto simp: mapped_def)
    ultimately show ?thesis
      using False fast w n by (auto simp: MemoryBus_try_write_bytes_def checked_end_eq)
  next
    case slow: False
    then have "MemoryBus_try_write_bytes bus a src d = bus_write_loop (length src) bus a 0 src d"
      using False n by (auto simp: MemoryBus_try_write_bytes_def checked_end_eq)
    then show ?thesis
      using False bus_write_loop_updates [OF wf, of 0 src "length src" a d] by auto
  qed
qed

section \<open>RAM-only accesses\<close>

text \<open>The range is RAM and no overlay covers any of it.\<close>

definition plain_ram :: "'d MemoryBus \<Rightarrow> nat \<Rightarrow> nat \<Rightarrow> bool" where
  "plain_ram bus a n \<longleftrightarrow> a + n \<le> unat (pm_len (ram bus)) \<and> (\<forall>i < n. overlay_at bus (a + i) = None)"

lemma overlapping_plain:
  assumes ok: "table_ok (overlays bus)" and n: "0 < n" "unat a + n < 2 ^ 64"
  shows "overlapping_overlay bus a (a + of_nat n) = None \<longleftrightarrow> (\<forall>i < n. overlay_at bus (unat a + i) = None)"
proof
  assume "overlapping_overlay bus a (a + of_nat n) = None"
  then show "\<forall>i < n. overlay_at bus (unat a + i) = None"
    using meets_overlay_at [of bus a n] n(2) overlapping_overlay_None [OF ok] by blast
next
  assume free: "\<forall>i < n. overlay_at bus (unat a + i) = None"
  have "\<not> meets a (a + of_nat n) r" if r: "r \<in> set (overlays bus)" for r
  proof
    assume "meets a (a + of_nat n) r"
    then have m: "unat (r_start r) < unat a + n" "unat a < unat (r_end r)"
      using n by (auto simp: meets_def word_less_nat_alt unat_add_small)
    have "unat (r_start r) < unat (r_end r)"
      using ok r by (auto simp: table_ok_def overlay_ok_def word_less_nat_alt)
    then have "overlay_at bus (max (unat a) (unat (r_start r))) \<noteq> None"
      using r m by (auto simp: overlay_at_None)
    moreover have "max (unat a) (unat (r_start r)) = unat a + (max (unat a) (unat (r_start r)) - unat a)" by simp
    ultimately show False using free m n by (metis max_less_iff_conj less_diff_conv2 max.cobounded1 add.commute less_add_same_cancel1)
  qed
  then show "overlapping_overlay bus a (a + of_nat n) = None"
    using overlapping_overlay_None [OF ok] by blast
qed

lemma check_dma_iff:
  assumes wf: "bus_wf bus" and n: "n < 2 ^ 64"
  shows "check_dma_ram_range bus a n = Inr () \<longleftrightarrow> n = 0 \<or> plain_ram bus (unat a) n"
proof (cases "0 < n \<and> unat a + n < 2 ^ 64")
  case True
  have ok: "table_ok (overlays bus)" using wf by (simp add: bus_wf_def)
  show ?thesis
    using True n overlapping_plain [OF ok, of n a]
    by (auto simp: check_dma_ram_range_def plain_ram_def checked_end_eq word_less_nat_alt unat_add_small
        split: option.split OverlayKind.split)
next
  case False
  then show ?thesis using n unat_less [of "pm_len (ram bus)"]
    by (auto simp: check_dma_ram_range_def plain_ram_def checked_end_eq)
qed

lemma check_dma_cong:
  assumes "overlays bus' = overlays bus" "pm_len (ram bus') = pm_len (ram bus)"
  shows "check_dma_ram_range bus' a n = check_dma_ram_range bus a n"
proof -
  have "overlapping_overlay bus' = overlapping_overlay bus"
    using assms by (simp add: overlapping_overlay_def fun_eq_iff Let_def)
  then show ?thesis using assms by (simp add: check_dma_ram_range_def cong: if_cong)
qed

lemma sg_check_cong:
  assumes "overlays bus' = overlays bus" "pm_len (ram bus') = pm_len (ram bus)"
  shows "sg_check bus' segs = sg_check bus segs"
  using check_dma_cong [OF assms] by (induction bus segs rule: sg_check.induct) simp_all

lemma sg_check_iff:
  assumes "bus_wf bus" "\<forall>(a, n) \<in> set segs. n < 2 ^ 64"
  shows "sg_check bus segs = Inr () \<longleftrightarrow> (\<forall>(a, n) \<in> set segs. n = 0 \<or> plain_ram bus (unat a) n)"
  using assms(2)
proof (induction segs)
  case (Cons s segs)
  obtain a n where s: "s = (a, n)" by (cases s)
  then show ?case
    using Cons check_dma_iff [OF assms(1), of n a] by (cases "check_dma_ram_range bus a n") auto
qed simp

lemma sg_total_eq:
  "sg_total usize_max acc segs =
     (if acc + sum_list (map snd segs) \<le> usize_max \<or> segs = [] then Inr (acc + sum_list (map snd segs))
      else Inl (Fail LengthOverflow))"
  by (induction segs arbitrary: acc) (auto simp: add.assoc)

text \<open>
  An empty segment passes the validation at any address, but the RAM access behind it still
  checks its address; \<open>sg_addresses\<close> rules the addresses past the RAM end out.
\<close>

definition sg_addresses :: "'d MemoryBus \<Rightarrow> (u64 \<times> nat) list \<Rightarrow> bool" where
  "sg_addresses bus segs \<longleftrightarrow> (\<forall>(a, n) \<in> set segs. n = 0 \<longrightarrow> unat a \<le> unat (pm_len (ram bus)))"

lemma sg_segment:
  assumes wf: "bus_wf bus" and "sg_check bus ((a, n) # segs) = Inr ()" "n = 0 \<longrightarrow> unat a \<le> unat (pm_len (ram bus))" "n < 2 ^ 64"
  shows "unat a + n \<le> unat (pm_len (ram bus)) \<and> plain_ram bus (unat a) n \<and> sg_check bus segs = Inr ()"
proof -
  have "check_dma_ram_range bus a n = Inr ()" "sg_check bus segs = Inr ()"
    using assms(2) by (cases "check_dma_ram_range bus a n"; simp)+
  then show ?thesis
    using check_dma_iff [OF wf assms(4), of a] assms(3) by (auto simp: plain_ram_def)
qed

text \<open>A validated gather reads the segments one after the other.\<close>

lemma sg_read_eq:
  assumes wf: "bus_wf bus"
    and "sg_check bus segs = Inr ()" "sg_addresses bus segs"
      "length out = sum_list (map snd segs)" "length out < 2 ^ 64"
  shows "sg_read_loop bus segs out = Inr (concat (map (\<lambda>(a, n). pm_bytes (ram bus) (unat a) n) segs))"
  using assms(2-5)
proof (induction segs arbitrary: out)
  case (Cons s segs)
  obtain a n where s: "s = (a, n)" by (cases s)
  have pm: "pm_wf (ram bus)" using wf by (simp add: bus_wf_def)
  have n: "n \<le> length out" "n < 2 ^ 64" using Cons.prems s by auto
  have adr: "n = 0 \<longrightarrow> unat a \<le> unat (pm_len (ram bus))" "sg_addresses bus segs" using Cons.prems(2) s by (auto simp: sg_addresses_def)
  note seg = sg_segment [OF wf Cons.prems(1) [unfolded s] adr(1) n(2)] adr(2)
  have "try_read_bytes (ram bus) a (take n out) = Inr (pm_bytes (ram bus) (unat a) n)"
    using seg n by (simp add: try_read_bytes_eq [OF pm])
  moreover have "sg_read_loop bus segs (drop n out) = Inr (concat (map (\<lambda>(a, n). pm_bytes (ram bus) (unat a) n) segs))"
    using seg Cons.prems s by (intro Cons.IH) auto
  ultimately show ?case using n s by simp
qed simp

text \<open>A validated scatter performs the plain RAM writes one after the other.\<close>

fun scatter :: "(u64 \<times> nat) list \<Rightarrow> u8 list \<Rightarrow> (nat \<Rightarrow> u8) \<Rightarrow> nat \<Rightarrow> u8" where
  "scatter [] src f = f"
| "scatter ((a, n) # segs) src f =
     scatter segs (drop n src) (\<lambda>x. if unat a \<le> x \<and> x < unat a + n then src ! (x - unat a) else f x)"

lemma scatter_cong: "(\<forall>x < k. f x = g x) \<Longrightarrow> x < k \<Longrightarrow> scatter segs src f x = scatter segs src g x"
proof (induction segs src f arbitrary: g rule: scatter.induct)
  case (2 a n segs src f)
  show ?case using 2(2,3) by (simp, intro 2(1)) auto
qed simp

text \<open>The segments up to the first empty one that points past the RAM.\<close>

definition sg_before_stray :: "'d MemoryBus \<Rightarrow> (u64 \<times> nat) list \<Rightarrow> (u64 \<times> nat) list" where
  "sg_before_stray bus segs = takeWhile (\<lambda>(a, n). n = 0 \<longrightarrow> unat a \<le> unat (pm_len (ram bus))) segs"

lemma sg_write_eq:
  assumes "bus_wf bus" "sg_check bus segs = Inr ()" "length input = sum_list (map snd segs)" "length input < 2 ^ 64"
  shows "\<exists>bus'. sg_write_loop bus segs input =
      (if sg_before_stray bus segs = segs then Inr ()
       else Inl (Fail (RamOutOfBounds (OutOfBounds (fst (segs ! length (sg_before_stray bus segs))) 0 (pm_len (ram bus))))), bus') \<and>
    bus_wf bus' \<and> overlays bus' = overlays bus \<and> pm_len (ram bus') = pm_len (ram bus) \<and>
    (\<forall>x < unat (pm_len (ram bus)). pm_byte (ram bus') x = scatter (sg_before_stray bus segs) input (pm_byte (ram bus)) x)"
  using assms
proof (induction segs arbitrary: input bus)
  case (Cons s segs)
  obtain a n where s: "s = (a, n)" by (cases s)
  have pm: "pm_wf (ram bus)" using Cons.prems(1) by (simp add: bus_wf_def)
  have n: "n \<le> length input" "n < 2 ^ 64" using Cons.prems s by auto
  show ?case
  proof (cases "n = 0 \<longrightarrow> unat a \<le> unat (pm_len (ram bus))")
    case True
    note seg = sg_segment [OF Cons.prems(1) Cons.prems(2) [unfolded s] True n(2)]
    obtain pm' where w: "try_write_bytes (ram bus) a (take n input) = Inr pm'"
      and u: "pm_updated (ram bus) (unat a) (take n input) pm'"
      using try_write_bytes_updates [OF pm, of a "take n input"] seg n by auto
    let ?bus = "bus\<lparr>ram := pm'\<rparr>"
    have wf': "bus_wf ?bus" and len: "pm_len pm' = pm_len (ram bus)"
      using u Cons.prems(1) by (simp_all add: pm_updated_def bus_wf_def)
    have ck: "sg_check ?bus segs = Inr ()" and st: "sg_before_stray ?bus segs = sg_before_stray bus segs"
      "sg_before_stray bus (s # segs) = s # sg_before_stray bus segs"
      using seg len True sg_check_cong [of ?bus bus segs] by (simp_all add: sg_before_stray_def s)
    obtain bus' where b: "sg_write_loop ?bus segs (drop n input) =
        (if sg_before_stray bus segs = segs then Inr ()
         else Inl (Fail (RamOutOfBounds (OutOfBounds (fst (segs ! length (sg_before_stray bus segs))) 0 (pm_len (ram bus))))), bus')"
        "bus_wf bus'" "overlays bus' = overlays bus" "pm_len (ram bus') = pm_len (ram bus)"
        "\<forall>x < unat (pm_len (ram bus)). pm_byte (ram bus') x = scatter (sg_before_stray bus segs) (drop n input) (pm_byte pm') x"
      using Cons.IH [OF wf' ck, of "drop n input"] Cons.prems s unfolding st len by (auto simp: len)
    have "\<forall>x < unat (pm_len (ram bus)). pm_byte pm' x =
        (if unat a \<le> x \<and> x < unat a + n then input ! (x - unat a) else pm_byte (ram bus) x)"
      using u n by (auto simp: pm_updated_def)
    then have "\<forall>x < unat (pm_len (ram bus)). pm_byte (ram bus') x = scatter (s # sg_before_stray bus segs) input (pm_byte (ram bus)) x"
      using b(5) s scatter_cong [of "unat (pm_len (ram bus))"] by simp
    then show ?thesis using b w n s unfolding st by auto
  next
    case False
    then have "sg_before_stray bus (s # segs) = []" by (simp add: sg_before_stray_def s)
    then show ?thesis using False n s Cons.prems(1) try_write_bytes_error [of "[]" a "ram bus"] by simp
  qed
qed (simp add: sg_before_stray_def)

section \<open>Integers are their bytes\<close>

lemma bus_read_le_bytes:
  assumes wf: "bus_wf bus" and n: "0 < n" "n < 2 ^ 64"
  shows "bus_read_le n (try_read_le n) bus a d =
    (case MemoryBus_try_read_bytes bus a (replicate n 0) d of
       (Inl err, buf, d') \<Rightarrow> (Inl err, d')
     | (Inr _, buf, d') \<Rightarrow> (Inr (from_le_bytes buf), d'))"
proof -
  have pm: "pm_wf (ram bus)" using wf by (simp add: bus_wf_def)
  show ?thesis
    using n
    by (auto simp: bus_read_le_def MemoryBus_try_read_bytes_def try_read_le_eq [OF pm]
        try_read_bytes_eq [OF pm] split: sum.split)
qed

lemma bus_write_le_updates:
  assumes wf: "bus_wf bus" and n: "0 < n" "unat a + n < 2 ^ 64"
  shows "\<exists>bus' d'. bus_write_le n (try_write_le n) bus a v d =
      (if mapped_prefix bus (unat a) n = n then Inr ()
       else Inl (Fail (Unmapped (a + of_nat (mapped_prefix bus (unat a) n)) (n - mapped_prefix bus (unat a) n))),
       bus', d') \<and>
    bus_updated bus (unat a) (take (mapped_prefix bus (unat a) n) (to_le_bytes n v)) bus'"
proof (cases "a + of_nat n \<le> pm_len (ram bus) \<and> overlapping_overlay bus a (a + of_nat n) = None")
  case True
  have ok: "table_ok (overlays bus)" and pm: "pm_wf (ram bus)" using wf by (auto simp: bus_wf_def)
  have e: "a + of_nat n \<le> pm_len (ram bus)" "overlapping_overlay bus a (a + of_nat n) = None"
    using True by simp_all
  note r = ram_only [OF ok n(2) e]
  obtain pm' where w: "try_write_le n (ram bus) a v = Inr pm'"
    and u: "pm_updated (ram bus) (unat a) (to_le_bytes n v) pm'"
    using try_write_le_eq [OF pm r(1) n(1)] .
  have free: "overlay_at bus x = None" if "x \<in> {unat a..<unat a + n}" for x
    using r(2) that by (auto dest!: le_Suc_ex)
  have "bus_updated bus (unat a) (to_le_bytes n v) (bus\<lparr>ram := pm'\<rparr>)"
    using u wf free by (auto simp: bus_updated_def pm_updated_def bus_wf_def)
  moreover have "mapped_prefix bus (unat a) n = n"
    using r by (intro all_mapped_prefix) (auto simp: mapped_def)
  ultimately show ?thesis using True w n by (auto simp: bus_write_le_def checked_end_eq)
next
  case False
  then have "bus_write_le n (try_write_le n) bus a v d = MemoryBus_try_write_bytes bus a (to_le_bytes n v) d"
    using n by (auto simp: bus_write_le_def checked_end_eq)
  then show ?thesis
    using MemoryBus_try_write_bytes_updates [OF wf, of "to_le_bytes n v" a d] n by auto
qed

section \<open>Properties\<close>

text \<open>
  Registration. \<^verbatim>\<open>register_mmio\<close> and \<^verbatim>\<open>register_rom\<close> accept a region exactly when its range
  is a proper one and meets no registered region, and then the table stays sorted and disjoint
  with ROM images of the size of their region; a refusal is reported as an invalid range or as
  the overlap with a region that is really there.
\<close>

theorem bus_registration:
  assumes "bus_wf bus" and "length data < 2 ^ 64"
  shows "(case register_mmio bus s e h of
        Inr bus' \<Rightarrow> bus_wf bus' \<and> s < e \<and> (\<forall>x \<in> set (overlays bus). \<not> meets s e x)
      | Inl err \<Rightarrow> err = Fail (InvalidRange s e) \<and> e \<le> s \<or>
          (\<exists>x \<in> set (overlays bus). err = Fail (Overlap s e (r_start x) (r_end x)) \<and> meets s e x)) \<and>
    (case register_rom bus s data of
        Inr bus' \<Rightarrow> bus_wf bus' \<and> data \<noteq> [] \<and> unat s + length data < 2 ^ 64 \<and>
          (\<forall>x \<in> set (overlays bus). \<not> meets s (s + of_nat (length data)) x)
      | Inl err \<Rightarrow> (\<exists>t. err = Fail (InvalidRange s t)) \<and> (data = [] \<or> 2 ^ 64 \<le> unat s + length data) \<or>
          (\<exists>x \<in> set (overlays bus). meets s (s + of_nat (length data)) x \<and>
             err = Fail (Overlap s (s + of_nat (length data)) (r_start x) (r_end x))))"
    (is "?mmio \<and> ?rom")
proof
  have ok: "table_ok (overlays bus)" and pm: "pm_wf (ram bus)" using assms by (auto simp: bus_wf_def)
  show ?mmio
    using insert_overlay_cases [OF ok, of "\<lparr> r_start = s, r_end = e, kind = Mmio h \<rparr>"] pm
    by (auto simp: register_mmio_def bus_wf_def overlay_ok_def split: sum.splits)
  show ?rom
  proof (cases "data \<noteq> [] \<and> unat s + length data < 2 ^ 64")
    case True
    let ?e = "s + of_nat (length data)"
    let ?r = "\<lparr> r_start = s, r_end = ?e, kind = Rom data \<rparr>"
    have e: "unat ?e = unat s + length data" using True by (intro unat_add_small) simp
    then have "s < ?e" "overlay_ok ?r"
      using True by (auto simp: word_less_nat_alt overlay_ok_def)
    then show ?thesis
      using True assms(2) insert_overlay_cases [OF ok, of ?r] pm
      by (auto simp: register_rom_def checked_add_def unat_of_nat bus_wf_def Let_def split: sum.splits)
  next
    case False
    then show ?thesis using assms(2)
      by (auto simp: register_rom_def checked_add_def unat_of_nat Let_def)
  qed
qed

definition sample_bus :: "nat MemoryBus" where
  "sample_bus = \<lparr> ram = sample_memory, overlays =
     [\<lparr> r_start = 0x1002, r_end = 0x1004, kind = Rom [0xAA, 0xBB] \<rparr>,
      \<lparr> r_start = 0x3000, r_end = 0x4000,
        kind = Mmio (FnMmioHandler (\<lambda>_ data d. (replicate (length data) 0xFF, d)) (\<lambda>_ _ d. d)) \<rparr>] \<rparr>"

lemma sample_bus_wf: "bus_wf sample_bus"
  by (simp add: bus_wf_def sample_bus_def sample_memory_wf table_ok_def overlay_ok_def)

lemma open_bus_bytewise:
  "bytewise (FnMmioHandler (\<lambda>_ data d. (replicate (length data) 0xFF, d)) (\<lambda>_ _ d. d))"
  by (auto simp: bytewise_def mmio_byte_def FnMmioHandler_def intro!: nth_equalityI)

lemma sample_bus_bytewise: "all_bytewise sample_bus"
  using open_bus_bytewise by (auto simp: all_bytewise_def sample_bus_def)

theorem bus_registration_witness:
  "bus_wf sample_bus \<and> length [1 :: u8, 2] < 2 ^ 64 \<and>
   (\<exists>bus'. register_rom sample_bus 0x1004 [1, 2] = Inr bus' \<and> bus_wf bus')"
proof -
  have "\<exists>bus'. register_rom sample_bus 0x1004 [1, 2] = Inr bus'"
    by (simp add: register_rom_def checked_add_def insert_overlay_def partition_point_def sample_bus_def Let_def)
  then obtain bus' where r: "register_rom sample_bus 0x1004 [1, 2] = Inr bus'" ..
  moreover have "bus_wf bus'"
    using bus_registration [OF sample_bus_wf, of "[1, 2]" "0x1004" 0 "FnMmioHandler (\<lambda>_ b d. (b, d)) (\<lambda>_ _ d. d)"]
    unfolding r by simp
  ultimately show ?thesis using sample_bus_wf by simp
qed

text \<open>
  (C36) Routed reads. When reads of the registered handlers are free of effects, \<^verbatim>\<open>try_read_bytes\<close>
  returns at every position the byte of the overlay that contains the address, or else of RAM;
  when it meets an address that is neither, it stops there with \<^verbatim>\<open>Unmapped\<close> and the rest of the
  buffer is untouched; a range that wraps is \<^verbatim>\<open>AddressOverflow\<close>. The fast path for plain RAM and the
  segment loop agree, the loop ends and nothing panics.
\<close>

theorem bus_read_routes:
  assumes "bus_wf bus" and "all_bytewise bus" and "length dst < 2 ^ 64"
  shows "MemoryBus_try_read_bytes bus a dst d =
    (if dst \<noteq> [] \<and> 2 ^ 64 \<le> unat a + length dst then (Inl (Fail (AddressOverflow a (length dst))), dst, d)
     else let m = mapped_prefix bus (unat a) (length dst) in
       (if m = length dst then Inr () else Inl (Fail (Unmapped (a + of_nat m) (length dst - m))),
        map (\<lambda>i. the (route bus d (unat a + i))) [0..<m] @ drop m dst, d))"
  using MemoryBus_try_read_bytes_routes [OF assms] by (simp add: routed_def)

lemma sample_memory_bytes:
  "x div 4096 = 1 \<Longrightarrow> pm_byte sample_memory x = 7" "pm_len sample_memory = 0x2800"
  by (simp_all add: pm_byte_def sample_memory_def get_chunk_def)

theorem bus_read_routes_witness:
  "bus_wf sample_bus \<and> all_bytewise sample_bus \<and>
   MemoryBus_try_read_bytes sample_bus 0x1001 [0, 0, 0, 0] 5 = (Inr (), [7, 0xAA, 0xBB, 7], 5) \<and>
   MemoryBus_try_read_bytes sample_bus 0x3fff [0, 0] 5 = (Inl (Fail (Unmapped 0x4000 1)), [0xFF, 0], 5)"
  using bus_read_routes [OF sample_bus_wf sample_bus_bytewise, of "[0, 0, 0, 0]" "0x1001" 5]
    bus_read_routes [OF sample_bus_wf sample_bus_bytewise, of "[0, 0]" "0x3fff" 5]
    sample_bus_wf sample_bus_bytewise
  by (simp add: upt_rec mapped_def overlay_at_def route_def overlay_byte_def mmio_byte_def
      FnMmioHandler_def sample_bus_def sample_memory_bytes)

text \<open>
  (C37) Routed writes. Whatever the handlers do, \<^verbatim>\<open>try_write_bytes\<close> changes exactly the RAM bytes
  of its range that no overlay covers, up to the first unmapped address, at which it stops with
  \<^verbatim>\<open>Unmapped\<close>; ROM, the table and all other RAM are unchanged and the invariant is kept.
\<close>

theorem bus_write_routes:
  assumes "bus_wf bus" and "length src < 2 ^ 64" and "unat a + length src < 2 ^ 64"
  shows "\<exists>bus' d'. MemoryBus_try_write_bytes bus a src d =
      (let m = mapped_prefix bus (unat a) (length src) in
       (if m = length src then Inr () else Inl (Fail (Unmapped (a + of_nat m) (length src - m))), bus', d')) \<and>
    bus_wf bus' \<and> overlays bus' = overlays bus \<and>
    (\<forall>x < unat (pm_len (ram bus)). pm_byte (ram bus') x =
       (if unat a \<le> x \<and> x < unat a + mapped_prefix bus (unat a) (length src) \<and> overlay_at bus x = None
        then src ! (x - unat a) else pm_byte (ram bus) x))"
proof -
  let ?m = "mapped_prefix bus (unat a) (length src)"
  obtain bus' d' where w: "MemoryBus_try_write_bytes bus a src d =
      (if ?m = length src then Inr () else Inl (Fail (Unmapped (a + of_nat ?m) (length src - ?m))), bus', d')"
    and u: "bus_updated bus (unat a) (take ?m src) bus'"
    using MemoryBus_try_write_bytes_updates [OF assms(1,2), of a d] assms(3) by auto
  have "length (take ?m src) = ?m" using mapped_prefix_le [of bus "unat a" "length src"] by simp
  then have "bus_wf bus' \<and> overlays bus' = overlays bus \<and>
    (\<forall>x < unat (pm_len (ram bus)). pm_byte (ram bus') x =
       (if unat a \<le> x \<and> x < unat a + ?m \<and> overlay_at bus x = None
        then src ! (x - unat a) else pm_byte (ram bus) x))"
    using u by (auto simp: bus_updated_def)
  then show ?thesis using w unfolding Let_def by blast
qed

theorem bus_write_routes_witness:
  "bus_wf sample_bus \<and> (\<exists>bus' d'. MemoryBus_try_write_bytes sample_bus 0x1001 [1, 2, 3, 4] 5 = (Inr (), bus', d') \<and>
     bus_wf bus' \<and> pm_byte (ram bus') 0x1001 = 1 \<and> pm_byte (ram bus') 0x1002 = 7 \<and> pm_byte (ram bus') 0x1004 = 4)"
proof -
  let ?src = "[1, 2, 3, 4] :: u8 list"
  have m: "mapped_prefix sample_bus (unat (0x1001 :: u64)) (length ?src) = 4"
    by (simp add: mapped_def sample_bus_def sample_memory_bytes)
  obtain bus' d' where "MemoryBus_try_write_bytes sample_bus 0x1001 ?src 5 = (Inr (), bus', d')"
    "bus_wf bus'" "\<forall>x < unat (pm_len (ram sample_bus)). pm_byte (ram bus') x =
       (if 0x1001 \<le> x \<and> x < 0x1005 \<and> overlay_at sample_bus x = None
        then ?src ! (x - 0x1001) else pm_byte (ram sample_bus) x)"
    using bus_write_routes [OF sample_bus_wf, of ?src "0x1001" 5] unfolding m by auto
  then show ?thesis
    using sample_bus_wf by (auto simp: overlay_at_def sample_bus_def sample_memory_bytes)
qed

text \<open>
  Handlers stay in their range. Any property of the device state that is kept by reads
  and writes of a handler at offsets inside its registered region, with a non-empty buffer, is
  kept by \<^verbatim>\<open>try_read_bytes\<close> and \<^verbatim>\<open>try_write_bytes\<close> with any address and length: no handler is ever
  called outside its region.
\<close>

theorem mmio_handlers_in_range:
  assumes "table_ok (overlays bus)" and "in_range_invariant bus P" and "P d" and "length bs < 2 ^ 64"
  shows "P (snd (snd (MemoryBus_try_read_bytes bus a bs d))) \<and>
    P (snd (snd (MemoryBus_try_write_bytes bus a bs d)))"
  using bus_read_loop_in_range [OF assms(1,2,4,3), of "length bs" a 0]
    bus_write_loop_in_range [OF assms(4,1,2,3), of "length bs" a 0] assms(3)
  by (auto simp: MemoryBus_try_read_bytes_def MemoryBus_try_write_bytes_def split: sum.split)

theorem mmio_handlers_in_range_witness:
  "table_ok (overlays sample_bus) \<and> in_range_invariant sample_bus (\<lambda>d. d = 5) \<and>
   snd (snd (MemoryBus_try_write_bytes sample_bus 0x2fff [1, 2, 3] 5)) = 5"
proof -
  have "table_ok (overlays sample_bus)" using sample_bus_wf by (simp add: bus_wf_def)
  moreover have "in_range_invariant sample_bus (\<lambda>d. d = 5)"
    by (simp add: in_range_invariant_def sample_bus_def FnMmioHandler_def)
  ultimately show ?thesis
    using mmio_handlers_in_range [of sample_bus "\<lambda>d. d = 5" 5 "[1, 2, 3]" "0x2fff"] by simp
qed

text \<open>
  (C38) What a scatter write does. When the lengths do not add up to the buffer, or a segment is not plain RAM free of
  overlays, \<^verbatim>\<open>try_write_sg\<close> fails in the validation and no byte is written. Otherwise it performs all the segment writes, in order,
  and succeeds, with one exception: an empty segment that points past the RAM passes the validation, and the write then fails there, after
  exactly the segments before it were written.
\<close>

theorem scatter_write_outcome:
  assumes "bus_wf bus" and "usize_max < 2 ^ 64" and "length src \<le> usize_max" and "\<forall>(a, n) \<in> set segs. n \<le> usize_max"
  shows "if sum_list (map snd segs) = length src \<and> (\<forall>(a, n) \<in> set segs. n = 0 \<or> plain_ram bus (unat a) n)
    then \<exists>bus'. try_write_sg usize_max bus segs src =
        (if sg_before_stray bus segs = segs then Inr ()
         else Inl (Fail (RamOutOfBounds (OutOfBounds (fst (segs ! length (sg_before_stray bus segs))) 0 (pm_len (ram bus))))), bus') \<and>
      bus_wf bus' \<and> overlays bus' = overlays bus \<and>
      (\<forall>x < unat (pm_len (ram bus)). pm_byte (ram bus') x = scatter (sg_before_stray bus segs) src (pm_byte (ram bus)) x)
    else \<exists>e. validate_sg usize_max bus segs (length src) = Inl e \<and> try_write_sg usize_max bus segs src = (Inl e, bus)"
proof -
  let ?good = "sum_list (map snd segs) = length src \<and> (\<forall>(a, n) \<in> set segs. n = 0 \<or> plain_ram bus (unat a) n)"
  have "\<forall>(a, n) \<in> set segs. n < 2 ^ 64" using assms(2,4) by fastforce
  then have check: "sg_check bus segs = Inr () \<longleftrightarrow> (\<forall>(a, n) \<in> set segs. n = 0 \<or> plain_ram bus (unat a) n)"
    by (rule sg_check_iff [OF assms(1)])
  have valid: "validate_sg usize_max bus segs (length src) = Inr () \<longleftrightarrow> ?good"
    using check assms(3) by (auto simp: validate_sg_def sg_total_eq)
  show ?thesis
  proof (cases ?good)
    case True
    then have "sg_check bus segs = Inr ()" "length src = sum_list (map snd segs)" "length src < 2 ^ 64"
      using check assms(2,3) by auto
    from sg_write_eq [OF assms(1) this] True valid show ?thesis
      by (auto simp: try_write_sg_def)
  next
    case False
    then obtain e where "validate_sg usize_max bus segs (length src) = Inl e"
      using valid by (cases "validate_sg usize_max bus segs (length src)") auto
    then show ?thesis using False by (auto simp: try_write_sg_def)
  qed
qed

lemma sample_bus_segments: "plain_ram sample_bus 0 2" "plain_ram sample_bus 0x1000 1"
  by (auto simp: plain_ram_def sample_bus_def sample_memory_def overlay_at_def)

theorem scatter_write_outcome_witness:
  "bus_wf sample_bus \<and>
   (\<exists>bus'. try_write_sg 0xffffffff sample_bus [(0, 2), (0x1000, 1)] [1, 2, 3] = (Inr (), bus') \<and> bus_wf bus' \<and>
      pm_byte (ram bus') 1 = 2 \<and> pm_byte (ram bus') 0x1000 = 3) \<and>
   (\<exists>bus' e. try_write_sg 0xffffffff sample_bus [(0, 2), (0x100000, 0)] [1, 2] = (Inl e, bus') \<and> pm_byte (ram bus') 1 = 2)"
proof -
  have s: "sg_before_stray sample_bus [(0, 2), (0x1000, 1)] = [(0, 2), (0x1000, 1)]" "sg_before_stray sample_bus [(0, 2), (0x100000, 0)] = [(0, 2)]"
    by (simp_all add: sg_before_stray_def sample_bus_def sample_memory_def)
  show ?thesis
    using scatter_write_outcome [OF sample_bus_wf, of "0xffffffff" "[1, 2, 3]" "[(0, 2), (0x1000, 1)]"]
      scatter_write_outcome [OF sample_bus_wf, of "0xffffffff" "[1, 2]" "[(0, 2), (0x100000, 0)]"] sample_bus_segments sample_bus_wf s
    by (auto simp: sample_bus_def sample_memory_def)
qed

end
