(* ===== verification/Tlb.thy ===== *)
theory Tlb
  imports Prelude
begin

text \<open>
  The software translation lookaside buffer, \<^verbatim>\<open>crates/aero-mmu/src/tlb.rs\<close>: entries, the
  4-way set-associative bank with its large-page counters, and the split instruction/data
  TLB. The first half of the theory translates the source; the second half proves the bank
  invariant (large-page counters equal the number of valid large entries, every valid entry
  sits in the set its tag hashes to) and what lookup, insertion, invalidation and flushing
  do to the set of cached translations.
\<close>

section \<open>Entries\<close>

datatype PageSize = Size4K | Size2M | Size4M | Size1G

fun bytes :: "PageSize \<Rightarrow> u64" where
  "bytes Size4K = 4 * 1024"
| "bytes Size2M = 2 * 1024 * 1024"
| "bytes Size4M = 4 * 1024 * 1024"
| "bytes Size1G = 1024 * 1024 * 1024"

datatype TlbLookupPageSizes = Only4K | Size2MAnd4K | Size4MAnd4K | Size1G2MAnd4K

record TlbEntry =
  vbase :: u64
  paddr_delta :: u64
  leaf_addr :: u64
  e_pcid :: u16
  flags :: u8
  page_size :: PageSize

definition FLAG_USER :: u8 where "FLAG_USER = push_bit 0 1"
definition FLAG_WRITABLE :: u8 where "FLAG_WRITABLE = push_bit 1 1"
definition FLAG_NX :: u8 where "FLAG_NX = push_bit 2 1"
definition FLAG_GLOBAL :: u8 where "FLAG_GLOBAL = push_bit 3 1"
definition FLAG_LEAF_64 :: u8 where "FLAG_LEAF_64 = push_bit 4 1"
definition FLAG_DIRTY :: u8 where "FLAG_DIRTY = push_bit 5 1"
definition FLAG_VALID :: u8 where "FLAG_VALID = push_bit 6 1"

lemmas tlb_flag_defs = FLAG_USER_def FLAG_WRITABLE_def FLAG_NX_def FLAG_GLOBAL_def
  FLAG_LEAF_64_def FLAG_DIRTY_def FLAG_VALID_def

record TlbEntryAttributes =
  attr_user :: bool
  attr_writable :: bool
  attr_nx :: bool
  attr_global :: bool
  attr_leaf_addr :: u64
  attr_leaf_is_64 :: bool
  attr_dirty :: bool

definition TlbEntry_default :: TlbEntry where
  "TlbEntry_default = \<lparr>vbase = 0, paddr_delta = 0, leaf_addr = 0, e_pcid = 0, flags = 0,
     page_size = Size4K\<rparr>"

definition TlbEntry_new ::
  "u64 \<Rightarrow> u64 \<Rightarrow> PageSize \<Rightarrow> u16 \<Rightarrow> TlbEntryAttributes \<Rightarrow> TlbEntry" where
  "TlbEntry_new vb pb ps pc attrs =
     (let fl = FLAG_VALID;
          fl = (if attr_user attrs then fl OR FLAG_USER else fl);
          fl = (if attr_writable attrs then fl OR FLAG_WRITABLE else fl);
          fl = (if attr_nx attrs then fl OR FLAG_NX else fl);
          fl = (if attr_global attrs then fl OR FLAG_GLOBAL else fl);
          fl = (if attr_leaf_is_64 attrs then fl OR FLAG_LEAF_64 else fl);
          fl = (if attr_dirty attrs then fl OR FLAG_DIRTY else fl)
      in \<lparr>vbase = vb, paddr_delta = pb - vb, leaf_addr = attr_leaf_addr attrs, e_pcid = pc,
          flags = fl, page_size = ps\<rparr>)"

definition translate_entry :: "TlbEntry \<Rightarrow> u64 \<Rightarrow> u64" where
  "translate_entry e vaddr = vaddr + paddr_delta e"

definition user :: "TlbEntry \<Rightarrow> bool" where
  "user e \<longleftrightarrow> flags e AND FLAG_USER \<noteq> 0"

definition writable :: "TlbEntry \<Rightarrow> bool" where
  "writable e \<longleftrightarrow> flags e AND FLAG_WRITABLE \<noteq> 0"

definition nx :: "TlbEntry \<Rightarrow> bool" where
  "nx e \<longleftrightarrow> flags e AND FLAG_NX \<noteq> 0"

definition global :: "TlbEntry \<Rightarrow> bool" where
  "global e \<longleftrightarrow> flags e AND FLAG_GLOBAL \<noteq> 0"

definition leaf_is_64 :: "TlbEntry \<Rightarrow> bool" where
  "leaf_is_64 e \<longleftrightarrow> flags e AND FLAG_LEAF_64 \<noteq> 0"

definition dirty :: "TlbEntry \<Rightarrow> bool" where
  "dirty e \<longleftrightarrow> flags e AND FLAG_DIRTY \<noteq> 0"

definition valid :: "TlbEntry \<Rightarrow> bool" where
  "valid e \<longleftrightarrow> flags e AND FLAG_VALID \<noteq> 0"

definition matches_pcid :: "bool \<Rightarrow> TlbEntry \<Rightarrow> u16 \<Rightarrow> bool" where
  "matches_pcid pcid_enabled e pc =
     (let fl = flags e in
      if pcid_enabled
      then fl AND FLAG_VALID \<noteq> 0 \<and> (fl AND FLAG_GLOBAL \<noteq> 0 \<or> e_pcid e = pc)
      else fl AND FLAG_VALID \<noteq> 0)"

definition invalidate :: "TlbEntry \<Rightarrow> TlbEntry" where
  "invalidate e = e\<lparr>flags := flags e AND NOT FLAG_VALID\<rparr>"

definition set_dirty :: "TlbEntry \<Rightarrow> TlbEntry" where
  "set_dirty e = e\<lparr>flags := flags e OR FLAG_DIRTY\<rparr>"

section \<open>One bank\<close>

definition WAYS :: nat where "WAYS = 4"
definition SETS :: nat where "SETS = 64"

record TlbSet =
  entries :: "TlbEntry list list"
  next_way :: "u8 list"
  count_1g :: u16
  count_4m :: u16
  count_2m :: u16

record TlbHit =
  hit_entry :: TlbEntry
  hit_set :: u8
  hit_way :: u8

definition TlbSet_new :: TlbSet where
  "TlbSet_new = \<lparr>entries = replicate SETS (replicate WAYS TlbEntry_default),
     next_way = replicate SETS 0, count_1g = 0, count_4m = 0, count_2m = 0\<rparr>"

definition set_index :: "u64 \<Rightarrow> nat" where
  "set_index tag =
     (let x = tag XOR drop_bit 17 tag XOR drop_bit 35 tag in unat (x AND of_nat (SETS - 1)))"

text \<open>Reading and writing \<^verbatim>\<open>self.entries[set][way]\<close>.\<close>

definition slot :: "TlbSet \<Rightarrow> nat \<Rightarrow> nat \<Rightarrow> TlbEntry" where
  "slot ts s w = entries ts ! s ! w"

definition set_slot :: "TlbSet \<Rightarrow> nat \<Rightarrow> nat \<Rightarrow> TlbEntry \<Rightarrow> TlbSet" where
  "set_slot ts s w e = ts\<lparr>entries := (entries ts)[s := (entries ts ! s)[w := e]]\<rparr>"

text \<open>The \<^verbatim>\<open>match page_size\<close> blocks that adjust the large-page counters.\<close>

fun inc_count :: "PageSize \<Rightarrow> TlbSet \<Rightarrow> TlbSet" where
  "inc_count Size1G ts = ts\<lparr>count_1g := count_1g ts + 1\<rparr>"
| "inc_count Size4M ts = ts\<lparr>count_4m := count_4m ts + 1\<rparr>"
| "inc_count Size2M ts = ts\<lparr>count_2m := count_2m ts + 1\<rparr>"
| "inc_count Size4K ts = ts"

fun dec_count :: "PageSize \<Rightarrow> TlbSet \<Rightarrow> TlbSet" where
  "dec_count Size1G ts = ts\<lparr>count_1g := count_1g ts - 1\<rparr>"
| "dec_count Size4M ts = ts\<lparr>count_4m := count_4m ts - 1\<rparr>"
| "dec_count Size2M ts = ts\<lparr>count_2m := count_2m ts - 1\<rparr>"
| "dec_count Size4K ts = ts"

definition mk_hit :: "TlbSet \<Rightarrow> nat \<Rightarrow> nat \<Rightarrow> TlbHit" where
  "mk_hit ts s w = \<lparr>hit_entry = slot ts s w, hit_set = of_nat s, hit_way = of_nat w\<rparr>"

text \<open>The macro \<^verbatim>\<open>lookup_page_size!\<close>.\<close>

definition lookup_page_size ::
  "bool \<Rightarrow> TlbSet \<Rightarrow> u64 \<Rightarrow> u16 \<Rightarrow> PageSize \<Rightarrow> TlbHit option" where
  "lookup_page_size pcid_enabled ts vaddr pc ps =
     (let vb = vaddr AND NOT (bytes ps - 1);
          tag = drop_bit 12 vb;
          s = set_index tag
      in map_option (mk_hit ts s)
           (find (\<lambda>w. let e = slot ts s w in
                       page_size e = ps \<and> vbase e = vb \<and> matches_pcid pcid_enabled e pc)
              [0..<WAYS]))"

definition lookup_impl ::
  "bool \<Rightarrow> TlbSet \<Rightarrow> u64 \<Rightarrow> u16 \<Rightarrow> TlbLookupPageSizes \<Rightarrow> TlbHit option" where
  "lookup_impl pcid_enabled ts vaddr pc page_sizes =
     (if (count_1g ts OR count_2m ts OR count_4m ts) = 0 then
        let vb = vaddr AND NOT 0xfff;
            tag = drop_bit 12 vaddr;
            s = set_index tag
        in map_option (mk_hit ts s)
             (find (\<lambda>w. let e = slot ts s w in vbase e = vb \<and> matches_pcid pcid_enabled e pc)
                [0..<WAYS])
      else
        let look = lookup_page_size pcid_enabled ts vaddr pc in
        case page_sizes of
          Only4K \<Rightarrow> look Size4K
        | Size2MAnd4K \<Rightarrow>
            or_else (if count_2m ts \<noteq> 0 then look Size2M else None) (look Size4K)
        | Size4MAnd4K \<Rightarrow>
            or_else (if count_4m ts \<noteq> 0 then look Size4M else None) (look Size4K)
        | Size1G2MAnd4K \<Rightarrow>
            or_else (if count_1g ts \<noteq> 0 then look Size1G else None)
              (or_else (if count_2m ts \<noteq> 0 then look Size2M else None) (look Size4K)))"

definition TlbSet_lookup ::
  "TlbSet \<Rightarrow> u64 \<Rightarrow> u16 \<Rightarrow> bool \<Rightarrow> TlbLookupPageSizes \<Rightarrow> TlbHit option" where
  "TlbSet_lookup ts vaddr pc pcid_enabled page_sizes =
     (if pcid_enabled then lookup_impl True ts vaddr pc page_sizes
      else lookup_impl False ts vaddr pc page_sizes)"

definition TlbSet_insert :: "TlbSet \<Rightarrow> TlbEntry \<Rightarrow> TlbSet" where
  "TlbSet_insert ts entry =
     (let tag = drop_bit 12 (vbase entry);
          s = set_index tag
      in case find (\<lambda>w. let cur = slot ts s w in
                     valid cur \<and> vbase cur = vbase entry \<and> page_size cur = page_size entry
                     \<and> (global cur \<or> e_pcid cur = e_pcid entry)) [0..<WAYS] of
           Some w \<Rightarrow> set_slot ts s w entry
         | None \<Rightarrow>
             let w = unat (next_way ts ! s) mod WAYS;
                 ts = ts\<lparr>next_way := (next_way ts)[s := next_way ts ! s + 1]\<rparr>;
                 old = slot ts s w;
                 ts = (if valid old then dec_count (page_size old) ts else ts);
                 ts = set_slot ts s w entry
             in inc_count (page_size entry) ts)"

text \<open>The body of the way loop of \<^verbatim>\<open>invalidate_address_all\<close>, and the loops.\<close>

definition invalidate_way_all :: "u64 \<Rightarrow> PageSize \<Rightarrow> nat \<Rightarrow> TlbSet \<Rightarrow> TlbSet" where
  "invalidate_way_all vaddr ps w ts =
     (let vb = vaddr AND NOT (bytes ps - 1);
          s = set_index (drop_bit 12 vb);
          entry = slot ts s w
      in if valid entry \<and> vbase entry = vb \<and> page_size entry = ps
         then dec_count ps (set_slot ts s w (invalidate entry)) else ts)"

definition TlbSet_invalidate_address_all :: "TlbSet \<Rightarrow> u64 \<Rightarrow> TlbSet" where
  "TlbSet_invalidate_address_all ts vaddr =
     fold (\<lambda>ps. fold (invalidate_way_all vaddr ps) [0..<WAYS])
       [Size1G, Size4M, Size2M, Size4K] ts"

definition invalidate_way_pcid ::
  "u64 \<Rightarrow> u16 \<Rightarrow> bool \<Rightarrow> PageSize \<Rightarrow> nat \<Rightarrow> TlbSet \<Rightarrow> TlbSet" where
  "invalidate_way_pcid vaddr pc include_global ps w ts =
     (let vb = vaddr AND NOT (bytes ps - 1);
          s = set_index (drop_bit 12 vb);
          entry = slot ts s w
      in if \<not> valid entry \<or> page_size entry \<noteq> ps \<or> vbase entry \<noteq> vb then ts
         else if global entry then
           (if include_global then dec_count ps (set_slot ts s w (invalidate entry)) else ts)
         else if e_pcid entry = pc then dec_count ps (set_slot ts s w (invalidate entry))
         else ts)"

definition TlbSet_invalidate_address_pcid :: "TlbSet \<Rightarrow> u64 \<Rightarrow> u16 \<Rightarrow> bool \<Rightarrow> TlbSet" where
  "TlbSet_invalidate_address_pcid ts vaddr pc include_global =
     fold (\<lambda>ps. fold (invalidate_way_pcid vaddr pc include_global ps) [0..<WAYS])
       [Size1G, Size4M, Size2M, Size4K] ts"

definition clear_counts :: "TlbSet \<Rightarrow> TlbSet" where
  "clear_counts ts = ts\<lparr>count_1g := 0, count_4m := 0, count_2m := 0\<rparr>"

definition TlbSet_flush_all :: "TlbSet \<Rightarrow> TlbSet" where
  "TlbSet_flush_all ts =
     fold (\<lambda>s. fold (\<lambda>w ts. set_slot ts s w (invalidate (slot ts s w))) [0..<WAYS])
       [0..<SETS] (clear_counts ts)"

definition flush_non_global_slot :: "nat \<Rightarrow> nat \<Rightarrow> TlbSet \<Rightarrow> TlbSet" where
  "flush_non_global_slot s w ts =
     (let entry = slot ts s w in
      if valid entry \<and> \<not> global entry then set_slot ts s w (invalidate entry)
      else if valid entry then inc_count (page_size entry) ts
      else ts)"

definition TlbSet_flush_non_global :: "TlbSet \<Rightarrow> TlbSet" where
  "TlbSet_flush_non_global ts =
     fold (\<lambda>s. fold (flush_non_global_slot s) [0..<WAYS]) [0..<SETS] (clear_counts ts)"

definition flush_pcid_slot :: "u16 \<Rightarrow> bool \<Rightarrow> nat \<Rightarrow> nat \<Rightarrow> TlbSet \<Rightarrow> TlbSet" where
  "flush_pcid_slot pc include_global s w ts =
     (let entry = slot ts s w in
      if \<not> valid entry then ts
      else if global entry then
        (if include_global then set_slot ts s w (invalidate entry)
         else inc_count (page_size entry) ts)
      else if e_pcid entry = pc then set_slot ts s w (invalidate entry)
      else inc_count (page_size entry) ts)"

definition TlbSet_flush_pcid :: "TlbSet \<Rightarrow> u16 \<Rightarrow> bool \<Rightarrow> TlbSet" where
  "TlbSet_flush_pcid ts pc include_global =
     fold (\<lambda>s. fold (flush_pcid_slot pc include_global s) [0..<WAYS]) [0..<SETS]
       (clear_counts ts)"

definition set_dirty_hit :: "TlbSet \<Rightarrow> nat \<Rightarrow> nat \<Rightarrow> TlbSet" where
  "set_dirty_hit ts s w = set_slot ts s w (set_dirty (slot ts s w))"

section \<open>The instruction and data banks\<close>

datatype InvpcidType =
    IndividualAddress u64
  | SingleContext
  | AllIncludingGlobal
  | AllExcludingGlobal

record Tlb =
  itlb :: TlbSet
  dtlb :: TlbSet

definition Tlb_new :: Tlb where
  "Tlb_new = \<lparr>itlb = TlbSet_new, dtlb = TlbSet_new\<rparr>"

definition Tlb_lookup ::
  "Tlb \<Rightarrow> u64 \<Rightarrow> bool \<Rightarrow> u16 \<Rightarrow> bool \<Rightarrow> TlbLookupPageSizes \<Rightarrow> TlbHit option" where
  "Tlb_lookup t vaddr is_exec pc pcid_enabled page_sizes =
     (if is_exec then TlbSet_lookup (itlb t) vaddr pc pcid_enabled page_sizes
      else TlbSet_lookup (dtlb t) vaddr pc pcid_enabled page_sizes)"

definition Tlb_insert :: "Tlb \<Rightarrow> bool \<Rightarrow> TlbEntry \<Rightarrow> Tlb" where
  "Tlb_insert t is_exec entry =
     (if is_exec then t\<lparr>itlb := TlbSet_insert (itlb t) entry\<rparr>
      else t\<lparr>dtlb := TlbSet_insert (dtlb t) entry\<rparr>)"

definition Tlb_invalidate_address_all :: "Tlb \<Rightarrow> u64 \<Rightarrow> Tlb" where
  "Tlb_invalidate_address_all t vaddr =
     t\<lparr>itlb := TlbSet_invalidate_address_all (itlb t) vaddr,
       dtlb := TlbSet_invalidate_address_all (dtlb t) vaddr\<rparr>"

definition Tlb_invalidate_address_pcid :: "Tlb \<Rightarrow> u64 \<Rightarrow> u16 \<Rightarrow> bool \<Rightarrow> Tlb" where
  "Tlb_invalidate_address_pcid t vaddr pc include_global =
     t\<lparr>itlb := TlbSet_invalidate_address_pcid (itlb t) vaddr pc include_global,
       dtlb := TlbSet_invalidate_address_pcid (dtlb t) vaddr pc include_global\<rparr>"

definition set_dirty_slot :: "Tlb \<Rightarrow> nat \<Rightarrow> nat \<Rightarrow> Tlb" where
  "set_dirty_slot t s w = t\<lparr>dtlb := set_dirty_hit (dtlb t) s w\<rparr>"

definition Tlb_flush_all :: "Tlb \<Rightarrow> Tlb" where
  "Tlb_flush_all t = t\<lparr>itlb := TlbSet_flush_all (itlb t), dtlb := TlbSet_flush_all (dtlb t)\<rparr>"

definition Tlb_flush_pcid :: "Tlb \<Rightarrow> u16 \<Rightarrow> bool \<Rightarrow> Tlb" where
  "Tlb_flush_pcid t pc include_global =
     t\<lparr>itlb := TlbSet_flush_pcid (itlb t) pc include_global,
       dtlb := TlbSet_flush_pcid (dtlb t) pc include_global\<rparr>"

definition Tlb_flush_non_global :: "Tlb \<Rightarrow> Tlb" where
  "Tlb_flush_non_global t =
     t\<lparr>itlb := TlbSet_flush_non_global (itlb t), dtlb := TlbSet_flush_non_global (dtlb t)\<rparr>"

definition on_cr3_write :: "Tlb \<Rightarrow> bool \<Rightarrow> bool \<Rightarrow> u16 \<Rightarrow> bool \<Rightarrow> Tlb" where
  "on_cr3_write t pge pcid_enabled new_pcid no_flush =
     (if pcid_enabled then (if \<not> no_flush then Tlb_flush_pcid t new_pcid False else t)
      else if pge then Tlb_flush_non_global t
      else Tlb_flush_all t)"

fun Tlb_invpcid :: "Tlb \<Rightarrow> u16 \<Rightarrow> InvpcidType \<Rightarrow> Tlb" where
  "Tlb_invpcid t pc (IndividualAddress vaddr) = Tlb_invalidate_address_pcid t vaddr pc False"
| "Tlb_invpcid t pc SingleContext = Tlb_flush_pcid t pc False"
| "Tlb_invpcid t pc AllIncludingGlobal = Tlb_flush_all t"
| "Tlb_invpcid t pc AllExcludingGlobal = Tlb_flush_non_global t"


section \<open>Facts about entries\<close>

lemma entry_flag_bits [flag_simps]:
  "user e \<longleftrightarrow> bit (flags e) 0"
  "writable e \<longleftrightarrow> bit (flags e) 1"
  "nx e \<longleftrightarrow> bit (flags e) 2"
  "global e \<longleftrightarrow> bit (flags e) 3"
  "leaf_is_64 e \<longleftrightarrow> bit (flags e) 4"
  "dirty e \<longleftrightarrow> bit (flags e) 5"
  "valid e \<longleftrightarrow> bit (flags e) 6"
  unfolding user_def writable_def nx_def global_def leaf_is_64_def dirty_def valid_def tlb_flag_defs
  by (simp_all only: flag_clear_iff not_not)

lemma matches_pcid_iff:
  "matches_pcid en e pc \<longleftrightarrow> valid e \<and> (en \<longrightarrow> global e \<or> e_pcid e = pc)"
  by (auto simp: matches_pcid_def valid_def global_def)

lemma TlbEntry_new_fields [simp]:
  "vbase (TlbEntry_new vb pb ps pc a) = vb"
  "paddr_delta (TlbEntry_new vb pb ps pc a) = pb - vb"
  "leaf_addr (TlbEntry_new vb pb ps pc a) = attr_leaf_addr a"
  "e_pcid (TlbEntry_new vb pb ps pc a) = pc"
  "page_size (TlbEntry_new vb pb ps pc a) = ps"
  by (simp_all add: TlbEntry_new_def Let_def)

lemma TlbEntry_new_flags [simp]:
  "user (TlbEntry_new vb pb ps pc a) = attr_user a"
  "writable (TlbEntry_new vb pb ps pc a) = attr_writable a"
  "nx (TlbEntry_new vb pb ps pc a) = attr_nx a"
  "global (TlbEntry_new vb pb ps pc a) = attr_global a"
  "leaf_is_64 (TlbEntry_new vb pb ps pc a) = attr_leaf_is_64 a"
  "dirty (TlbEntry_new vb pb ps pc a) = attr_dirty a"
  "valid (TlbEntry_new vb pb ps pc a)"
  unfolding entry_flag_bits TlbEntry_new_def Let_def tlb_flag_defs
  by (simp_all add: bit_simps)

lemma invalidate_simps [simp]:
  "\<not> valid (invalidate e)"
  "vbase (invalidate e) = vbase e"
  "page_size (invalidate e) = page_size e"
  "e_pcid (invalidate e) = e_pcid e"
  "global (invalidate e) = global e"
  unfolding entry_flag_bits invalidate_def tlb_flag_defs
  by (simp_all add: bit_simps)

lemma set_dirty_simps [simp]:
  "valid (set_dirty e) = valid e"
  "user (set_dirty e) = user e"
  "writable (set_dirty e) = writable e"
  "nx (set_dirty e) = nx e"
  "global (set_dirty e) = global e"
  "leaf_is_64 (set_dirty e) = leaf_is_64 e"
  "dirty (set_dirty e)"
  "vbase (set_dirty e) = vbase e"
  "page_size (set_dirty e) = page_size e"
  "e_pcid (set_dirty e) = e_pcid e"
  "leaf_addr (set_dirty e) = leaf_addr e"
  "translate_entry (set_dirty e) v = translate_entry e v"
  unfolding entry_flag_bits set_dirty_def tlb_flag_defs translate_entry_def
  by (simp_all add: bit_simps)

lemma default_not_valid [simp]: "\<not> valid TlbEntry_default"
  by (simp add: flag_simps TlbEntry_default_def)

fun page_bits :: "PageSize \<Rightarrow> nat" where
  "page_bits Size4K = 12"
| "page_bits Size2M = 21"
| "page_bits Size4M = 22"
| "page_bits Size1G = 30"

lemma bytes_minus_1: "bytes ps - 1 = mask (page_bits ps)"
  by (cases ps) (simp_all add: mask_eq_exp_minus_1)

lemma mask_4k: "(0xfff :: u64) = mask 12"
  by (simp add: mask_eq_exp_minus_1)

section \<open>Slots, and counting them\<close>

definition shape :: "TlbSet \<Rightarrow> bool" where
  "shape ts \<longleftrightarrow> length (entries ts) = SETS \<and> (\<forall>row \<in> set (entries ts). length row = WAYS)
     \<and> length (next_way ts) = SETS"

lemma sets_ways_pos [simp]: "0 < WAYS" "0 < SETS"
  by (simp_all add: WAYS_def SETS_def)

lemma set_index_less [simp]: "set_index tag < SETS"
proof -
  have "unat (x AND 63) < 64" for x :: u64
  proof -
    have "(63 :: u64) = mask 6" by (simp add: mask_eq_exp_minus_1)
    then show ?thesis by (simp only: unat_and_mask) simp
  qed
  then show ?thesis by (simp add: set_index_def Let_def SETS_def)
qed

lemma shape_row: "shape ts \<Longrightarrow> s < SETS \<Longrightarrow> length (entries ts ! s) = WAYS"
  by (simp add: shape_def)

lemma shape_set_slot [wf_intros, simp]: "shape ts \<Longrightarrow> s < SETS \<Longrightarrow> shape (set_slot ts s w e)"
  by (auto simp: shape_def set_slot_def dest!: set_update_subset_insert [THEN subsetD])

lemma shape_counts [simp]:
  "shape (inc_count ps ts) = shape ts"
  "shape (dec_count ps ts) = shape ts"
  "shape (clear_counts ts) = shape ts"
  by (cases ps; simp add: shape_def clear_counts_def)+

lemma slot_counts [simp]:
  "slot (inc_count ps ts) s w = slot ts s w"
  "slot (dec_count ps ts) s w = slot ts s w"
  "slot (clear_counts ts) s w = slot ts s w"
  "slot (ts\<lparr>next_way := nw\<rparr>) s w = slot ts s w"
  by (cases ps; simp add: slot_def clear_counts_def)+

lemma slot_set_slot:
  "shape ts \<Longrightarrow> s < SETS \<Longrightarrow> w < WAYS \<Longrightarrow>
   slot (set_slot ts s w e) s' w' = (if s' = s \<and> w' = w then e else slot ts s' w')"
  by (cases "s' = s"; cases "w' = w") (simp_all add: slot_def set_slot_def shape_row shape_def)

definition slots_of :: "(TlbEntry \<Rightarrow> bool) \<Rightarrow> TlbSet \<Rightarrow> (nat \<times> nat) set" where
  "slots_of P ts = {(s, w). s < SETS \<and> w < WAYS \<and> P (slot ts s w)}"

lemma finite_slots_of [simp]: "finite (slots_of P ts)"
  by (rule finite_subset [of _ "{..<SETS} \<times> {..<WAYS}"]) (auto simp: slots_of_def)

lemma card_slots_of_le: "card (slots_of P ts) \<le> 256"
proof -
  have "card (slots_of P ts) \<le> card ({..<SETS} \<times> {..<WAYS})"
    by (rule card_mono) (auto simp: slots_of_def)
  also have "\<dots> = 256"
    by (simp add: SETS_def WAYS_def)
  finally show ?thesis .
qed

lemma slots_of_set_slot:
  "shape ts \<Longrightarrow> s < SETS \<Longrightarrow> w < WAYS \<Longrightarrow>
   slots_of P (set_slot ts s w e) =
     (if P e then insert (s, w) (slots_of P ts) else slots_of P ts - {(s, w)})"
  by (auto simp: slots_of_def slot_set_slot)

lemma slots_of_counts [simp]:
  "slots_of P (inc_count ps ts) = slots_of P ts"
  "slots_of P (dec_count ps ts) = slots_of P ts"
  "slots_of P (clear_counts ts) = slots_of P ts"
  "slots_of P (ts\<lparr>next_way := nw\<rparr>) = slots_of P ts"
  by (simp_all add: slots_of_def)

abbreviation is_large :: "PageSize \<Rightarrow> TlbEntry \<Rightarrow> bool" where
  "is_large ps e \<equiv> valid e \<and> page_size e = ps"

fun count_of :: "PageSize \<Rightarrow> TlbSet \<Rightarrow> u16" where
  "count_of Size1G ts = count_1g ts"
| "count_of Size4M ts = count_4m ts"
| "count_of Size2M ts = count_2m ts"
| "count_of Size4K ts = 0"

lemma count_of_inc:
  "count_of ps (inc_count ps' ts) =
     (if ps = ps' \<and> ps \<noteq> Size4K then count_of ps ts + 1 else count_of ps ts)"
  by (cases ps; cases ps') simp_all

lemma count_of_dec:
  "count_of ps (dec_count ps' ts) =
     (if ps = ps' \<and> ps \<noteq> Size4K then count_of ps ts - 1 else count_of ps ts)"
  by (cases ps; cases ps') simp_all

lemma count_of_frame [simp]:
  "count_of ps (set_slot ts s w e) = count_of ps ts"
  "count_of ps (ts\<lparr>next_way := nw\<rparr>) = count_of ps ts"
  "count_of ps (clear_counts ts) = 0"
  by (cases ps; simp add: set_slot_def clear_counts_def)+

definition counts_ok :: "TlbSet \<Rightarrow> bool" where
  "counts_ok ts \<longleftrightarrow>
     (\<forall>ps. ps \<noteq> Size4K \<longrightarrow> unat (count_of ps ts) = card (slots_of (is_large ps) ts))"

section \<open>The bank invariant\<close>

text \<open>A valid entry is page-aligned and sits in the set its tag hashes to.\<close>

definition placed :: "nat \<Rightarrow> TlbEntry \<Rightarrow> bool" where
  "placed s e \<longleftrightarrow> vbase e = vbase e AND NOT (bytes (page_size e) - 1)
     \<and> set_index (drop_bit 12 (vbase e)) = s"

definition aligned_entry :: "TlbEntry \<Rightarrow> bool" where
  "aligned_entry e \<longleftrightarrow> valid e \<and> vbase e = vbase e AND NOT (bytes (page_size e) - 1)"

definition all_placed :: "TlbSet \<Rightarrow> bool" where
  "all_placed ts \<longleftrightarrow> (\<forall>s w. s < SETS \<longrightarrow> w < WAYS \<longrightarrow> valid (slot ts s w) \<longrightarrow> placed s (slot ts s w))"

definition bank_wf :: "TlbSet \<Rightarrow> bool" where
  "bank_wf ts \<longleftrightarrow> shape ts \<and> all_placed ts \<and> counts_ok ts"

lemma bank_wf_shape [simp]: "bank_wf ts \<Longrightarrow> shape ts"
  by (simp add: bank_wf_def)

lemma wf_placed:
  "bank_wf ts \<Longrightarrow> s < SETS \<Longrightarrow> w < WAYS \<Longrightarrow> valid (slot ts s w) \<Longrightarrow> placed s (slot ts s w)"
  by (simp add: bank_wf_def all_placed_def)

lemma slot_new: "s < SETS \<Longrightarrow> w < WAYS \<Longrightarrow> slot TlbSet_new s w = TlbEntry_default"
  by (simp add: slot_def TlbSet_new_def)

lemma bank_wf_new [wf_intros]: "bank_wf TlbSet_new"
proof -
  have "slots_of (is_large ps) TlbSet_new = {}" for ps
    by (auto simp: slots_of_def slot_new)
  moreover have "count_of ps TlbSet_new = 0" for ps
    by (cases ps) (simp_all add: TlbSet_new_def)
  moreover have "shape TlbSet_new"
    by (simp add: shape_def TlbSet_new_def)
  ultimately show ?thesis
    by (simp add: bank_wf_def all_placed_def slot_new counts_ok_def)
qed

lemma all_placed_set_slot:
  "all_placed ts \<Longrightarrow> shape ts \<Longrightarrow> s < SETS \<Longrightarrow> w < WAYS \<Longrightarrow> (valid e \<Longrightarrow> placed s e) \<Longrightarrow>
   all_placed (set_slot ts s w e)"
  by (auto simp: all_placed_def slot_set_slot)

lemma all_placed_counts [simp]:
  "all_placed (inc_count ps ts) = all_placed ts"
  "all_placed (dec_count ps ts) = all_placed ts"
  "all_placed (clear_counts ts) = all_placed ts"
  "all_placed (ts\<lparr>next_way := nw\<rparr>) = all_placed ts"
  by (simp_all add: all_placed_def)


text \<open>Writing one slot moves every counted class by what left and what entered.\<close>

lemma card_set_slot:
  assumes "shape ts" "s < SETS" "w < WAYS"
  shows "card (slots_of P (set_slot ts s w e)) + of_bool (P (slot ts s w))
       = card (slots_of P ts) + of_bool (P e)"
proof -
  have mem: "(s, w) \<in> slots_of P ts \<longleftrightarrow> P (slot ts s w)"
    using assms by (simp add: slots_of_def)
  show ?thesis
    using assms mem card_Suc_Diff1 [of "slots_of P ts" "(s, w)"]
    by (cases "P e"; cases "P (slot ts s w)") (simp_all add: slots_of_set_slot insert_absorb)
qed

lemma counts_ok_drop:
  assumes "counts_ok ts" "shape ts" "s < SETS" "w < WAYS" and v: "valid (slot ts s w)"
  shows "counts_ok (dec_count (page_size (slot ts s w)) (set_slot ts s w (invalidate (slot ts s w))))"
  unfolding counts_ok_def
proof (intro allI impI)
  fix ps :: PageSize
  assume ps: "ps \<noteq> Size4K"
  let ?e = "slot ts s w"
  have c: "unat (count_of ps ts) = card (slots_of (is_large ps) ts)"
    using assms(1) ps by (simp add: counts_ok_def)
  have k: "card (slots_of (is_large ps) (set_slot ts s w (invalidate ?e))) + of_bool (is_large ps ?e)
         = card (slots_of (is_large ps) ts)"
    using card_set_slot [OF assms(2-4), of "is_large ps" "invalidate ?e"] by simp
  show "unat (count_of ps (dec_count (page_size ?e) (set_slot ts s w (invalidate ?e))))
      = card (slots_of (is_large ps) (dec_count (page_size ?e) (set_slot ts s w (invalidate ?e))))"
    using c k ps v by (cases "ps = page_size ?e") (auto simp: count_of_dec unat_dec)
qed

lemma bank_wf_drop [wf_intros]:
  assumes "bank_wf ts" "s < SETS" "w < WAYS" "valid (slot ts s w)"
  shows "bank_wf (dec_count (page_size (slot ts s w)) (set_slot ts s w (invalidate (slot ts s w))))"
  using assms by (auto simp: bank_wf_def counts_ok_drop intro!: all_placed_set_slot)

lemma bank_wf_same_class:
  assumes "bank_wf ts" "s < SETS" "w < WAYS"
    and "valid e = valid (slot ts s w)" "page_size e = page_size (slot ts s w)"
    and "valid e \<Longrightarrow> placed s e"
  shows "bank_wf (set_slot ts s w e)"
proof -
  have "card (slots_of (is_large ps) (set_slot ts s w e)) = card (slots_of (is_large ps) ts)" for ps
    using card_set_slot [of ts s w "is_large ps" e] assms by (auto simp: of_bool_def split: if_splits)
  then show ?thesis
    using assms by (auto simp: bank_wf_def counts_ok_def intro!: all_placed_set_slot)
qed

lemma bank_wf_dirty_hit [wf_intros]:
  "bank_wf ts \<Longrightarrow> s < SETS \<Longrightarrow> w < WAYS \<Longrightarrow> bank_wf (set_dirty_hit ts s w)"
  unfolding set_dirty_hit_def
  by (rule bank_wf_same_class) (auto simp: placed_def bank_wf_def all_placed_def)

lemma bank_wf_next_way:
  "bank_wf ts \<Longrightarrow> length nw = SETS \<Longrightarrow> bank_wf (ts\<lparr>next_way := nw\<rparr>)"
  by (simp add: bank_wf_def counts_ok_def shape_def)

section \<open>Insertion\<close>

text \<open>Which slot an insertion writes.\<close>

definition insert_way :: "TlbSet \<Rightarrow> TlbEntry \<Rightarrow> nat" where
  "insert_way ts entry =
     (let s = set_index (drop_bit 12 (vbase entry)) in
      case find (\<lambda>w. let cur = slot ts s w in
                   valid cur \<and> vbase cur = vbase entry \<and> page_size cur = page_size entry
                   \<and> (global cur \<or> e_pcid cur = e_pcid entry)) [0..<WAYS] of
        Some w \<Rightarrow> w
      | None \<Rightarrow> unat (next_way ts ! s) mod WAYS)"

lemma insert_way_less [simp]: "insert_way ts e < WAYS"
  by (auto simp: insert_way_def Let_def dest: find_upt_SomeD split: option.split)

lemma slot_insert:
  assumes "shape ts"
  shows "slot (TlbSet_insert ts e) s w =
    (if s = set_index (drop_bit 12 (vbase e)) \<and> w = insert_way ts e then e else slot ts s w)"
proof -
  have sh: "shape (ts\<lparr>next_way := (next_way ts)[i := v]\<rparr>)" for i v
    using assms by (simp add: shape_def)
  show ?thesis
    using assms sh
    by (auto simp: TlbSet_insert_def insert_way_def Let_def slot_set_slot
        dest: find_upt_SomeD split: option.split)
qed

lemma counts_ok_replace:
  assumes "counts_ok ts" "shape ts" "s < SETS" "w < WAYS" "valid e"
  shows "counts_ok (inc_count (page_size e) (set_slot
           (if valid (slot ts s w) then dec_count (page_size (slot ts s w)) ts else ts) s w e))"
  unfolding counts_ok_def
proof (intro allI impI)
  fix ps :: PageSize
  assume ps: "ps \<noteq> Size4K"
  let ?o = "slot ts s w" and ?P = "is_large ps"
  let ?t = "if valid ?o then dec_count (page_size ?o) ts else ts"
  have sh: "shape ?t" "slot ?t s w = ?o" "slots_of ?P ?t = slots_of ?P ts"
    using assms by simp_all
  have c: "unat (count_of ps ts) = card (slots_of ?P ts)"
    using assms(1) ps by (simp add: counts_ok_def)
  have k: "card (slots_of ?P (set_slot ?t s w e)) + of_bool (?P ?o) = card (slots_of ?P ts) + of_bool (?P e)"
    using card_set_slot [of ?t s w ?P e] sh assms by simp
  have le: "card (slots_of ?P (set_slot ?t s w e)) \<le> 256" "card (slots_of ?P ts) \<le> 256"
    by (rule card_slots_of_le)+
  have pos: "?P ?o \<Longrightarrow> 0 < card (slots_of ?P ts)"
    using assms by (force simp: card_gt_0_iff slots_of_def
        intro: finite_slots_of [unfolded slots_of_def])
  show "unat (count_of ps (inc_count (page_size e) (set_slot ?t s w e)))
      = card (slots_of ?P (inc_count (page_size e) (set_slot ?t s w e)))"
    using c k ps le pos assms(5)
    by (cases "?P ?o"; cases "ps = page_size e")
      (auto simp: count_of_inc count_of_dec unat_dec unat_inc)
qed

lemma bank_wf_insert [wf_intros]:
  assumes wf: "bank_wf ts" and e: "aligned_entry e"
  shows "bank_wf (TlbSet_insert ts e)"
proof -
  let ?s = "set_index (drop_bit 12 (vbase e))"
  have pl: "placed ?s e" and v: "valid e"
    using e by (simp_all add: placed_def aligned_entry_def)
  show ?thesis
  proof (cases "find (\<lambda>w. let cur = slot ts ?s w in
       valid cur \<and> vbase cur = vbase e \<and> page_size cur = page_size e
       \<and> (global cur \<or> e_pcid cur = e_pcid e)) [0..<WAYS]")
    case (Some w)
    then have "w < WAYS" "valid (slot ts ?s w)" "page_size (slot ts ?s w) = page_size e"
      by (auto dest!: find_upt_SomeD simp: Let_def)
    with wf pl v have "bank_wf (set_slot ts ?s w e)"
      by (intro bank_wf_same_class) simp_all
    with Some show ?thesis by (simp add: TlbSet_insert_def)
  next
    case None
    define t where "t = ts\<lparr>next_way := (next_way ts)[?s := next_way ts ! ?s + 1]\<rparr>"
    define w where "w = unat (next_way ts ! ?s) mod WAYS"
    define t' where "t' = (if valid (slot t ?s w) then dec_count (page_size (slot t ?s w)) t else t)"
    have eq: "TlbSet_insert ts e = inc_count (page_size e) (set_slot t' ?s w e)"
      by (simp only: TlbSet_insert_def None [unfolded Let_def] Let_def option.case t_def w_def t'_def)
    have wf': "bank_wf t"
      unfolding t_def using wf by (intro bank_wf_next_way) (simp_all add: bank_wf_def shape_def)
    have w: "w < WAYS" by (simp add: w_def)
    have "counts_ok (inc_count (page_size e) (set_slot t' ?s w e))"
      unfolding t'_def by (rule counts_ok_replace) (use wf' v w in \<open>simp_all add: bank_wf_def\<close>)
    moreover have "shape t'" "all_placed t'"
      using wf' by (simp_all add: t'_def bank_wf_def)
    ultimately show ?thesis
      using pl w by (simp add: eq bank_wf_def all_placed_set_slot)
  qed
qed


section \<open>Invalidating one address\<close>

text \<open>
  The two invalidation loops share a contract: the body for page size \<open>ps\<close> and way \<open>w\<close> looks
  at one slot and drops the entry there when it is valid, translates the address at that page
  size and satisfies the loop's own condition. What the whole loop does to every slot follows
  from the contract alone.
\<close>

definition base_of :: "u64 \<Rightarrow> PageSize \<Rightarrow> u64" where
  "base_of vaddr ps = vaddr AND NOT (bytes ps - 1)"

definition covers :: "TlbEntry \<Rightarrow> u64 \<Rightarrow> bool" where
  "covers e vaddr \<longleftrightarrow> vbase e = base_of vaddr (page_size e)"

abbreviation set_of :: "u64 \<Rightarrow> PageSize \<Rightarrow> nat" where
  "set_of vaddr ps \<equiv> set_index (drop_bit 12 (base_of vaddr ps))"

locale invalidate_loop =
  fixes body :: "u64 \<Rightarrow> PageSize \<Rightarrow> nat \<Rightarrow> TlbSet \<Rightarrow> TlbSet"
    and dropped :: "TlbEntry \<Rightarrow> bool"
  assumes body_eq:
    "body vaddr ps w ts =
       (let s = set_of vaddr ps; e = slot ts s w in
        if valid e \<and> vbase e = base_of vaddr ps \<and> page_size e = ps \<and> dropped e
        then dec_count ps (set_slot ts s w (invalidate e)) else ts)"
begin

definition run :: "u64 \<Rightarrow> TlbSet \<Rightarrow> TlbSet" where
  "run vaddr ts = fold (\<lambda>ps. fold (body vaddr ps) [0..<WAYS]) [Size1G, Size4M, Size2M, Size4K] ts"

lemma body_wf: "bank_wf ts \<Longrightarrow> w < WAYS \<Longrightarrow> bank_wf (body vaddr ps w ts)"
  using bank_wf_drop [of ts "set_of vaddr ps" w] by (auto simp: body_eq Let_def)

lemma body_slot:
  "shape ts \<Longrightarrow> w < WAYS \<Longrightarrow>
   slot (body vaddr ps w ts) s' w' =
     (let e = slot ts s' w' in
      if s' = set_of vaddr ps \<and> w' = w \<and> valid e \<and> vbase e = base_of vaddr ps \<and> page_size e = ps
         \<and> dropped e then invalidate e else e)"
  by (auto simp: body_eq Let_def slot_set_slot)

lemma loop_slot:
  assumes "bank_wf ts" and "\<forall>(ps, w) \<in> set xs. w < WAYS"
  shows "bank_wf (fold (\<lambda>(ps, w). body vaddr ps w) xs ts)
    \<and> slot (fold (\<lambda>(ps, w). body vaddr ps w) xs ts) s' w' =
       (let e = slot ts s' w' in
        if (page_size e, w') \<in> set xs \<and> s' = set_of vaddr (page_size e) \<and> valid e \<and> covers e vaddr
           \<and> dropped e then invalidate e else e)"
  using assms
proof (induction xs arbitrary: ts)
  case Nil
  then show ?case by simp
next
  case (Cons x xs)
  obtain ps w where x: "x = (ps, w)" by (cases x)
  with Cons.prems have w: "w < WAYS" and wf: "bank_wf (body vaddr ps w ts)"
    by (auto intro: body_wf)
  show ?case
    using Cons.IH [OF wf] Cons.prems w x
    by (auto simp: body_slot Let_def covers_def)
qed

lemma run_wf: "bank_wf ts \<Longrightarrow> bank_wf (run vaddr ts)"
  unfolding run_def fold_fold_product
  by (rule loop_slot [THEN conjunct1]) (auto simp: set_product)

lemma run_slot:
  assumes wf: "bank_wf ts" and s: "s < SETS" and w: "w < WAYS"
  shows "slot (run vaddr ts) s w =
    (let e = slot ts s w in if valid e \<and> covers e vaddr \<and> dropped e then invalidate e else e)"
proof -
  let ?e = "slot ts s w"
  have "valid ?e \<Longrightarrow> covers ?e vaddr \<Longrightarrow> s = set_of vaddr (page_size ?e)"
    using wf_placed [OF wf s w] by (simp add: placed_def covers_def)
  moreover define xs where "xs = List.product [Size1G, Size4M, Size2M, Size4K] [0..<WAYS]"
  moreover have "(page_size ?e, w) \<in> set xs" "\<forall>(ps, w) \<in> set xs. w < WAYS"
    using w by (cases "page_size ?e"; auto simp: set_product xs_def)+
  moreover have "run vaddr ts = fold (\<lambda>(ps, w). body vaddr ps w) xs ts"
    by (simp only: run_def fold_fold_product xs_def)
  ultimately show ?thesis
    using loop_slot [OF wf, of xs vaddr s w] by (simp add: Let_def)
qed

end

interpretation inv_all: invalidate_loop invalidate_way_all "\<lambda>_. True"
  rewrites "invalidate_loop.run invalidate_way_all vaddr ts = TlbSet_invalidate_address_all ts vaddr"
proof -
  show loc: "invalidate_loop invalidate_way_all (\<lambda>_. True)"
    by unfold_locales (simp add: invalidate_way_all_def base_of_def Let_def)
  show "invalidate_loop.run invalidate_way_all vaddr ts = TlbSet_invalidate_address_all ts vaddr"
    by (simp only: invalidate_loop.run_def [OF loc] TlbSet_invalidate_address_all_def)
qed

interpretation inv_pcid: invalidate_loop "\<lambda>vaddr. invalidate_way_pcid vaddr pc ig"
    "\<lambda>e. if global e then ig else e_pcid e = pc"
  rewrites "invalidate_loop.run (\<lambda>vaddr. invalidate_way_pcid vaddr pc ig) vaddr ts =
    TlbSet_invalidate_address_pcid ts vaddr pc ig"
  for pc ig
proof -
  show loc: "invalidate_loop (\<lambda>vaddr. invalidate_way_pcid vaddr pc ig)
    (\<lambda>e. if global e then ig else e_pcid e = pc)"
    by unfold_locales (auto simp add: invalidate_way_pcid_def base_of_def Let_def)
  show "invalidate_loop.run (\<lambda>vaddr. invalidate_way_pcid vaddr pc ig) vaddr ts =
    TlbSet_invalidate_address_pcid ts vaddr pc ig"
    by (simp only: invalidate_loop.run_def [OF loc] TlbSet_invalidate_address_pcid_def)
qed

lemmas bank_wf_invalidate [wf_intros] = inv_all.run_wf inv_pcid.run_wf

section \<open>Flushing\<close>

text \<open>
  The three flush loops also share a contract: having cleared the counters, the body at a slot
  drops a valid entry or keeps and counts it, as the predicate \<open>keep\<close> says.
\<close>

locale flush_loop =
  fixes body :: "nat \<Rightarrow> nat \<Rightarrow> TlbSet \<Rightarrow> TlbSet"
    and keep :: "TlbEntry \<Rightarrow> bool"
  assumes body_shape: "shape ts \<Longrightarrow> s < SETS \<Longrightarrow> shape (body s w ts)"
    and body_slot: "shape ts \<Longrightarrow> s < SETS \<Longrightarrow> w < WAYS \<Longrightarrow>
      slot (body s w ts) s' w' =
        (let e = slot ts s' w' in
         if s' = s \<and> w' = w \<and> valid e \<and> \<not> keep e then invalidate e else e)"
    and body_count: "count_of ps (body s w ts) =
        count_of ps ts + of_bool (ps \<noteq> Size4K \<and> is_large ps (slot ts s w) \<and> keep (slot ts s w))"
begin

definition run :: "TlbSet \<Rightarrow> TlbSet" where
  "run ts = fold (\<lambda>s. fold (body s) [0..<WAYS]) [0..<SETS] (clear_counts ts)"

lemma loop_slot:
  assumes "shape ts" and "distinct xs" and "\<forall>(s, w) \<in> set xs. s < SETS \<and> w < WAYS"
  shows "shape (fold (\<lambda>(s, w). body s w) xs ts)
    \<and> slot (fold (\<lambda>(s, w). body s w) xs ts) s' w' =
       (let e = slot ts s' w' in if (s', w') \<in> set xs \<and> valid e \<and> \<not> keep e then invalidate e else e)"
  using assms
proof (induction xs arbitrary: ts)
  case Nil
  then show ?case by simp
next
  case (Cons x xs)
  obtain s w where x: "x = (s, w)" by (cases x)
  with Cons show ?case
    using Cons.IH [of "body s w ts"] by (auto simp: body_shape body_slot Let_def)
qed

lemma loop_count:
  assumes "shape ts" and "distinct xs" and "\<forall>(s, w) \<in> set xs. s < SETS \<and> w < WAYS"
  shows "count_of ps (fold (\<lambda>(s, w). body s w) xs ts) = count_of ps ts +
    of_nat (card {(s, w) \<in> set xs. ps \<noteq> Size4K \<and> is_large ps (slot ts s w) \<and> keep (slot ts s w)})"
  using assms
proof (induction xs arbitrary: ts)
  case Nil
  then show ?case by simp
next
  case (Cons x xs)
  obtain s w where x: "x = (s, w)" by (cases x)
  let ?Q = "\<lambda>t s w. ps \<noteq> Size4K \<and> is_large ps (slot t s w) \<and> keep (slot t s w)"
  have sw: "s < SETS" "w < WAYS" and notin: "(s, w) \<notin> set xs"
    using Cons.prems x by auto
  have same: "{(s', w') \<in> set xs. ?Q (body s w ts) s' w'} = {(s', w') \<in> set xs. ?Q ts s' w'}"
    using Cons.prems(1) sw notin by (auto simp: body_slot Let_def)
  have split: "{(s', w') \<in> set (x # xs). ?Q ts s' w'} =
      (if ?Q ts s w then insert (s, w) {(s', w') \<in> set xs. ?Q ts s' w'}
       else {(s', w') \<in> set xs. ?Q ts s' w'})"
    using x by auto
  have fin: "finite {(s', w') \<in> set xs. ?Q ts s' w'}"
    by (rule finite_subset [of _ "set xs"]) auto
  have "count_of ps (fold (\<lambda>(s, w). body s w) (x # xs) ts) = count_of ps (body s w ts) +
      of_nat (card {(s', w') \<in> set xs. ?Q (body s w ts) s' w'})"
    using Cons.IH [of "body s w ts"] Cons.prems x sw by (simp add: body_shape)
  also have "\<dots> = count_of ps ts + of_nat (card {(s', w') \<in> set (x # xs). ?Q ts s' w'})"
  proof -
    define A where "A = {(s', w') \<in> set xs. ?Q ts s' w'}"
    have "finite A" "(s, w) \<notin> A" using fin notin by (simp_all add: A_def)
    then show ?thesis
      unfolding same split A_def [symmetric] by (simp add: body_count)
  qed
  finally show ?case .
qed

lemma all_slots: "distinct (List.product [0..<SETS] [0..<WAYS])"
  "\<forall>(s, w) \<in> set (List.product [0..<SETS] [0..<WAYS]). s < SETS \<and> w < WAYS"
  by (auto simp: distinct_product set_product)

lemma run_slot:
  assumes "shape ts" "s < SETS" "w < WAYS"
  shows "slot (run ts) s w = (let e = slot ts s w in if valid e \<and> \<not> keep e then invalidate e else e)"
  using loop_slot [of "clear_counts ts" "List.product [0..<SETS] [0..<WAYS]" s w] all_slots assms
  by (simp add: run_def fold_fold_product set_product)

lemma run_wf:
  assumes wf: "bank_wf ts"
  shows "bank_wf (run ts)"
proof -
  let ?xs = "List.product [0..<SETS] [0..<WAYS]"
  have sh: "shape (run ts)"
    using loop_slot [of "clear_counts ts" ?xs] all_slots wf
    by (simp add: run_def fold_fold_product)
  have "all_placed (run ts)"
    using wf by (auto simp: all_placed_def run_slot bank_wf_def Let_def)
  moreover have "counts_ok (run ts)"
    unfolding counts_ok_def
  proof (intro allI impI)
    fix ps :: PageSize
    assume ps: "ps \<noteq> Size4K"
    have "{(s, w) \<in> set ?xs. ps \<noteq> Size4K \<and> is_large ps (slot ts s w) \<and> keep (slot ts s w)} =
        slots_of (is_large ps) (run ts)"
      using wf ps by (auto simp: slots_of_def run_slot Let_def set_product split: if_splits)
    then have "count_of ps (run ts) = of_nat (card (slots_of (is_large ps) (run ts)))"
      using loop_count [of "clear_counts ts" ?xs ps] all_slots wf
      by (simp add: run_def fold_fold_product)
    then show "unat (count_of ps (run ts)) = card (slots_of (is_large ps) (run ts))"
      using card_slots_of_le [of "is_large ps" "run ts"] by (simp add: unat_of_nat)
  qed
  ultimately show ?thesis using sh by (simp add: bank_wf_def)
qed

end

lemma set_slot_same: "shape ts \<Longrightarrow> s < SETS \<Longrightarrow> set_slot ts s w (slot ts s w) = ts"
  by (simp add: set_slot_def slot_def)

lemma invalidate_invalid: "\<not> valid e \<Longrightarrow> invalidate e = e"
proof -
  assume "\<not> valid e"
  then have "\<not> bit (flags e) 6" by (simp add: flag_simps)
  moreover have "bit FLAG_VALID n \<longleftrightarrow> n = 6" for n
    unfolding FLAG_VALID_def by (subst bit_flag) simp
  ultimately have "flags e AND NOT FLAG_VALID = flags e"
    by (intro bit_word_eqI) (auto simp: bit_simps)
  then show ?thesis by (simp add: invalidate_def)
qed

interpretation flush_all: flush_loop "\<lambda>s w ts. set_slot ts s w (invalidate (slot ts s w))" "\<lambda>_. False"
  rewrites "flush_loop.run (\<lambda>s w ts. set_slot ts s w (invalidate (slot ts s w))) ts = TlbSet_flush_all ts"
proof -
  show loc: "flush_loop (\<lambda>s w ts. set_slot ts s w (invalidate (slot ts s w))) (\<lambda>_. False)"
    by unfold_locales (auto simp: slot_set_slot Let_def invalidate_invalid)
  show "flush_loop.run (\<lambda>s w ts. set_slot ts s w (invalidate (slot ts s w))) ts = TlbSet_flush_all ts"
    by (simp only: flush_loop.run_def [OF loc] TlbSet_flush_all_def)
qed

interpretation flush_non_global: flush_loop flush_non_global_slot global
  rewrites "flush_loop.run flush_non_global_slot ts = TlbSet_flush_non_global ts"
proof -
  show loc: "flush_loop flush_non_global_slot global"
    by unfold_locales
      (auto simp: flush_non_global_slot_def slot_set_slot Let_def count_of_inc)
  show "flush_loop.run flush_non_global_slot ts = TlbSet_flush_non_global ts"
    by (simp only: flush_loop.run_def [OF loc] TlbSet_flush_non_global_def)
qed

interpretation flush_pcid: flush_loop "flush_pcid_slot pc ig"
    "\<lambda>e. if global e then \<not> ig else e_pcid e \<noteq> pc"
  rewrites "flush_loop.run (flush_pcid_slot pc ig) ts = TlbSet_flush_pcid ts pc ig"
  for pc ig
proof -
  show loc: "flush_loop (flush_pcid_slot pc ig) (\<lambda>e. if global e then \<not> ig else e_pcid e \<noteq> pc)"
    by unfold_locales
      (auto simp: flush_pcid_slot_def slot_set_slot Let_def count_of_inc)
  show "flush_loop.run (flush_pcid_slot pc ig) ts = TlbSet_flush_pcid ts pc ig"
    by (simp only: flush_loop.run_def [OF loc] TlbSet_flush_pcid_def)
qed

lemmas bank_wf_flush [wf_intros] = flush_all.run_wf flush_non_global.run_wf flush_pcid.run_wf

section \<open>Lookup\<close>

fun sizes_of :: "TlbLookupPageSizes \<Rightarrow> PageSize list" where
  "sizes_of Only4K = [Size4K]"
| "sizes_of Size2MAnd4K = [Size2M, Size4K]"
| "sizes_of Size4MAnd4K = [Size4M, Size4K]"
| "sizes_of Size1G2MAnd4K = [Size1G, Size2M, Size4K]"

text \<open>
  The reference lookup: probe every admissible page size in order, with the page-size compare
  and without looking at the counters.
\<close>

definition lookup_ref ::
  "bool \<Rightarrow> TlbSet \<Rightarrow> u64 \<Rightarrow> u16 \<Rightarrow> TlbLookupPageSizes \<Rightarrow> TlbHit option" where
  "lookup_ref en ts vaddr pc szs =
     foldr (\<lambda>ps. or_else (lookup_page_size en ts vaddr pc ps)) (sizes_of szs) None"

lemma count_zero_no_entry:
  assumes "bank_wf ts" "ps \<noteq> Size4K" "count_of ps ts = 0" "s < SETS" "w < WAYS"
  shows "\<not> is_large ps (slot ts s w)"
proof
  assume "is_large ps (slot ts s w)"
  then have "(s, w) \<in> slots_of (is_large ps) ts"
    using assms by (simp add: slots_of_def)
  then have "0 < card (slots_of (is_large ps) ts)"
    by (auto simp: card_gt_0_iff)
  moreover have "unat (count_of ps ts) = card (slots_of (is_large ps) ts)"
    using assms(1,2) by (simp add: bank_wf_def counts_ok_def)
  ultimately show False using assms(3) by simp
qed

lemma lookup_page_size_skip:
  assumes "bank_wf ts" "ps \<noteq> Size4K" "count_of ps ts = 0"
  shows "lookup_page_size en ts vaddr pc ps = None"
  using count_zero_no_entry [OF assms]
  by (auto simp: lookup_page_size_def Let_def find_upt_None matches_pcid_iff)

lemma fast_path:
  assumes wf: "bank_wf ts" and z: "count_1g ts = 0" "count_2m ts = 0" "count_4m ts = 0"
  shows "map_option (mk_hit ts (set_index (drop_bit 12 vaddr)))
      (find (\<lambda>w. let e = slot ts (set_index (drop_bit 12 vaddr)) w in
         vbase e = vaddr AND NOT 0xfff \<and> matches_pcid en e pc) [0..<WAYS])
    = lookup_page_size en ts vaddr pc Size4K"
proof -
  have base: "vaddr AND NOT (bytes Size4K - 1) = vaddr AND NOT 0xfff"
    by simp
  have tag: "drop_bit 12 (vaddr AND NOT 0xfff) = drop_bit 12 vaddr"
    unfolding mask_4k by (rule bit_word_eqI) (auto simp: bit_simps dest: bit_imp_le_length)
  have sz: "page_size (slot ts s w) = Size4K" if "s < SETS" "w < WAYS" "valid (slot ts s w)" for s w
    using count_zero_no_entry [OF wf, of Size1G s w] count_zero_no_entry [OF wf, of Size2M s w]
      count_zero_no_entry [OF wf, of Size4M s w] that z
    by (cases "page_size (slot ts s w)") simp_all
  have "find (\<lambda>w. let e = slot ts (set_index (drop_bit 12 vaddr)) w in
         vbase e = vaddr AND NOT 0xfff \<and> matches_pcid en e pc) [0..<WAYS] =
      find (\<lambda>w. let e = slot ts (set_index (drop_bit 12 vaddr)) w in
         page_size e = Size4K \<and> vbase e = vaddr AND NOT 0xfff \<and> matches_pcid en e pc) [0..<WAYS]"
    by (rule find_cong) (auto simp: Let_def matches_pcid_iff sz)
  then show ?thesis
    by (simp only: lookup_page_size_def Let_def base tag)
qed

lemma lookup_impl_ref:
  assumes wf: "bank_wf ts"
  shows "lookup_impl en ts vaddr pc szs = lookup_ref en ts vaddr pc szs"
proof -
  note skip = lookup_page_size_skip [OF wf, of _ en vaddr pc]
  have none: "or_else a None = a" for a :: "TlbHit option"
    by (cases a) simp_all
  show ?thesis
  proof (cases "count_1g ts = 0 \<and> count_2m ts = 0 \<and> count_4m ts = 0")
    case True
    then show ?thesis
      using skip [of Size1G] skip [of Size2M] skip [of Size4M] fast_path [OF wf, of vaddr en pc]
      by (cases szs) (simp_all add: lookup_impl_def lookup_ref_def Let_def none)
  next
    case False
    then have "(count_1g ts OR count_2m ts OR count_4m ts) \<noteq> 0"
      by (simp add: or_eq_0_iff)
    then show ?thesis
      using skip [of Size1G] skip [of Size2M] skip [of Size4M]
      by (cases szs) (simp_all add: lookup_impl_def lookup_ref_def Let_def none)
  qed
qed

definition matching :: "bool \<Rightarrow> u16 \<Rightarrow> u64 \<Rightarrow> TlbLookupPageSizes \<Rightarrow> TlbEntry \<Rightarrow> bool" where
  "matching en pc vaddr szs e \<longleftrightarrow> 
     matches_pcid en e pc \<and> covers e vaddr \<and> page_size e \<in> set (sizes_of szs)"

lemma lookup_page_size_Some:
  assumes "lookup_page_size en ts vaddr pc ps = Some h"
  shows "\<exists>w < WAYS. h = mk_hit ts (set_of vaddr ps) w \<and> page_size (hit_entry h) = ps
     \<and> matches_pcid en (hit_entry h) pc \<and> covers (hit_entry h) vaddr"
  using assms
  by (auto simp: lookup_page_size_def Let_def base_of_def covers_def mk_hit_def dest!: find_upt_SomeD)

lemma lookup_page_size_None:
  assumes "bank_wf ts"
  shows "lookup_page_size en ts vaddr pc ps = None \<longleftrightarrow>
     (\<forall>s w. s < SETS \<longrightarrow> w < WAYS \<longrightarrow> page_size (slot ts s w) = ps \<longrightarrow> covers (slot ts s w) vaddr \<longrightarrow>
        \<not> matches_pcid en (slot ts s w) pc)"
proof -
  have "s = set_of vaddr ps" if "s < SETS" "w < WAYS" "page_size (slot ts s w) = ps"
    "covers (slot ts s w) vaddr" "matches_pcid en (slot ts s w) pc" for s w
    using wf_placed [OF assms that(1,2)] that by (simp add: placed_def covers_def matches_pcid_iff)
  then show ?thesis
    by (auto simp: lookup_page_size_def Let_def find_upt_None covers_def base_of_def) 
qed

lemma TlbSet_lookup_impl: "TlbSet_lookup ts vaddr pc en szs = lookup_impl en ts vaddr pc szs"
  by (simp add: TlbSet_lookup_def)

lemma TlbSet_lookup_Some:
  assumes "bank_wf ts" "TlbSet_lookup ts vaddr pc en szs = Some h"
  shows "\<exists>s < SETS. \<exists>w < WAYS. h = mk_hit ts s w \<and> matching en pc vaddr szs (slot ts s w)"
proof -
  have "lookup_ref en ts vaddr pc szs = Some h"
    using assms by (simp add: TlbSet_lookup_impl lookup_impl_ref)
  then obtain ps where "ps \<in> set (sizes_of szs)" "lookup_page_size en ts vaddr pc ps = Some h"
    by (cases szs) (auto simp: lookup_ref_def or_else_eq_Some)
  then show ?thesis
    using lookup_page_size_Some [of en ts vaddr pc ps h]
    by (intro exI [of _ "set_of vaddr ps"]) (auto simp: matching_def mk_hit_def)
qed

lemma TlbSet_lookup_None:
  assumes "bank_wf ts"
  shows "TlbSet_lookup ts vaddr pc en szs = None \<longleftrightarrow>
     (\<forall>s w. s < SETS \<longrightarrow> w < WAYS \<longrightarrow> \<not> matching en pc vaddr szs (slot ts s w))"
proof -
  have "TlbSet_lookup ts vaddr pc en szs = None \<longleftrightarrow>
      (\<forall>ps \<in> set (sizes_of szs). lookup_page_size en ts vaddr pc ps = None)"
    by (cases szs) (simp_all add: TlbSet_lookup_impl lookup_impl_ref [OF assms] lookup_ref_def)
  then show ?thesis
    by (auto simp: lookup_page_size_None [OF assms] matching_def)
qed

lemma hit_slot:
  assumes "bank_wf ts" "TlbSet_lookup ts vaddr pc en szs = Some h"
  shows "unat (hit_set h) < SETS" "unat (hit_way h) < WAYS"
    "hit_entry h = slot ts (unat (hit_set h)) (unat (hit_way h))"
    "matching en pc vaddr szs (hit_entry h)"
proof -
  obtain s w where sw: "s < SETS" "w < WAYS" and h: "h = mk_hit ts s w"
    and m: "matching en pc vaddr szs (slot ts s w)"
    using TlbSet_lookup_Some [OF assms] by blast
  have "unat (of_nat s :: u8) = s" "unat (of_nat w :: u8) = w"
    using sw by (simp_all add: unat_of_nat SETS_def WAYS_def)
  then show "unat (hit_set h) < SETS" "unat (hit_way h) < WAYS"
    "hit_entry h = slot ts (unat (hit_set h)) (unat (hit_way h))"
    "matching en pc vaddr szs (hit_entry h)"
    using sw m by (simp_all add: h mk_hit_def)
qed

text \<open>After a miss, the entry just inserted is the one that is found.\<close>

lemma lookup_after_insert:
  assumes wf: "bank_wf ts" and e: "aligned_entry e"
    and miss: "TlbSet_lookup ts vaddr pc en szs = None"
    and m: "matching en pc vaddr szs e"
  shows "\<exists>h. TlbSet_lookup (TlbSet_insert ts e) vaddr pc en szs = Some h \<and> hit_entry h = e"
proof -
  let ?ts = "TlbSet_insert ts e" and ?s = "set_index (drop_bit 12 (vbase e))"
  have wf': "bank_wf ?ts" using wf e by (rule bank_wf_insert)
  have "matching en pc vaddr szs (slot ?ts ?s (insert_way ts e))"
    using m wf by (simp add: slot_insert)
  then have "TlbSet_lookup ?ts vaddr pc en szs \<noteq> None"
    unfolding TlbSet_lookup_None [OF wf'] using set_index_less insert_way_less by blast
  then obtain h where h: "TlbSet_lookup ?ts vaddr pc en szs = Some h" by blast
  have "hit_entry h = e"
  proof (rule ccontr)
    assume ne: "hit_entry h \<noteq> e"
    note hs = hit_slot [OF wf' h]
    have "hit_entry h = slot ts (unat (hit_set h)) (unat (hit_way h))"
      using hs(3) ne wf by (auto simp: slot_insert split: if_splits)
    then show False
      using miss hs unfolding TlbSet_lookup_None [OF wf] by metis
  qed
  with h show ?thesis by blast
qed

section \<open>The two banks together\<close>

definition tlb_wf :: "Tlb \<Rightarrow> bool" where
  "tlb_wf t \<longleftrightarrow> bank_wf (itlb t) \<and> bank_wf (dtlb t)"

lemma tlb_wf_new [wf_intros]: "tlb_wf Tlb_new"
  by (simp add: tlb_wf_def Tlb_new_def bank_wf_new)

lemma tlb_wf_insert [wf_intros]: "tlb_wf t \<Longrightarrow> aligned_entry e \<Longrightarrow> tlb_wf (Tlb_insert t x e)"
  by (simp add: tlb_wf_def Tlb_insert_def bank_wf_insert)

lemma tlb_wf_invalidate [wf_intros]:
  "tlb_wf t \<Longrightarrow> tlb_wf (Tlb_invalidate_address_all t v)"
  "tlb_wf t \<Longrightarrow> tlb_wf (Tlb_invalidate_address_pcid t v pc ig)"
  by (simp_all add: tlb_wf_def Tlb_invalidate_address_all_def Tlb_invalidate_address_pcid_def
      bank_wf_invalidate)

lemma tlb_wf_flush [wf_intros]:
  "tlb_wf t \<Longrightarrow> tlb_wf (Tlb_flush_all t)"
  "tlb_wf t \<Longrightarrow> tlb_wf (Tlb_flush_non_global t)"
  "tlb_wf t \<Longrightarrow> tlb_wf (Tlb_flush_pcid t pc ig)"
  by (simp_all add: tlb_wf_def Tlb_flush_all_def Tlb_flush_non_global_def Tlb_flush_pcid_def
      bank_wf_flush)

lemma tlb_wf_cr3 [wf_intros]: "tlb_wf t \<Longrightarrow> tlb_wf (on_cr3_write t pge en pc nf)"
  by (simp add: on_cr3_write_def tlb_wf_flush)

lemma tlb_wf_invpcid [wf_intros]: "tlb_wf t \<Longrightarrow> tlb_wf (Tlb_invpcid t pc k)"
  by (cases k) (simp_all add: tlb_wf_flush tlb_wf_invalidate)

lemma tlb_wf_set_dirty [wf_intros]:
  "tlb_wf t \<Longrightarrow> s < SETS \<Longrightarrow> w < WAYS \<Longrightarrow> tlb_wf (set_dirty_slot t s w)"
  by (simp add: tlb_wf_def set_dirty_slot_def bank_wf_dirty_hit)

definition bank :: "Tlb \<Rightarrow> bool \<Rightarrow> TlbSet" where
  "bank t x = (if x then itlb t else dtlb t)"

lemma Tlb_lookup_bank: "Tlb_lookup t v x pc en szs = TlbSet_lookup (bank t x) v pc en szs"
  by (simp add: Tlb_lookup_def bank_def)

lemma bank_wf_bank: "tlb_wf t \<Longrightarrow> bank_wf (bank t x)"
  by (simp add: tlb_wf_def bank_def)

text \<open>What an address can be translated to by some cached entry of the bank.\<close>

lemma Tlb_lookup_None:
  "tlb_wf t \<Longrightarrow> Tlb_lookup t v x pc en szs = None \<longleftrightarrow>
     (\<forall>s w. s < SETS \<longrightarrow> w < WAYS \<longrightarrow> \<not> matching en pc v szs (slot (bank t x) s w))"
  by (simp add: Tlb_lookup_bank TlbSet_lookup_None bank_wf_bank)

lemma slot_invalidate_all:
  "tlb_wf t \<Longrightarrow> s < SETS \<Longrightarrow> w < WAYS \<Longrightarrow>
   slot (bank (Tlb_invalidate_address_all t v) x) s w =
     (let e = slot (bank t x) s w in if valid e \<and> covers e v then invalidate e else e)"
  by (simp add: tlb_wf_def bank_def Tlb_invalidate_address_all_def inv_all.run_slot)

lemma slot_invalidate_pcid:
  "tlb_wf t \<Longrightarrow> s < SETS \<Longrightarrow> w < WAYS \<Longrightarrow>
   slot (bank (Tlb_invalidate_address_pcid t v pc ig) x) s w =
     (let e = slot (bank t x) s w in
      if valid e \<and> covers e v \<and> (if global e then ig else e_pcid e = pc) then invalidate e else e)"
  by (simp add: tlb_wf_def bank_def Tlb_invalidate_address_pcid_def inv_pcid.run_slot)

lemma slot_flush:
  assumes "tlb_wf t" "s < SETS" "w < WAYS"
  shows
    "slot (bank (Tlb_flush_all t) x) s w =
       (let e = slot (bank t x) s w in if valid e then invalidate e else e)"
    "slot (bank (Tlb_flush_non_global t) x) s w =
       (let e = slot (bank t x) s w in if valid e \<and> \<not> global e then invalidate e else e)"
    "slot (bank (Tlb_flush_pcid t pc ig) x) s w =
       (let e = slot (bank t x) s w in
        if valid e \<and> \<not> (if global e then \<not> ig else e_pcid e \<noteq> pc) then invalidate e else e)"
  using assms
  by (simp_all add: tlb_wf_def bank_def Tlb_flush_all_def Tlb_flush_non_global_def
      Tlb_flush_pcid_def flush_all.run_slot flush_non_global.run_slot flush_pcid.run_slot)

lemma not_valid_not_matching: "\<not> valid e \<Longrightarrow> \<not> matching en pc v szs e"
  by (simp add: matching_def matches_pcid_iff)

lemma Tlb_lookup_new: "Tlb_lookup Tlb_new v x pc en szs = None"
proof -
  have "slot (bank Tlb_new x) s w = TlbEntry_default" if "s < SETS" "w < WAYS" for s w
    using that by (simp add: bank_def Tlb_new_def slot_new)
  then show ?thesis
    by (simp add: Tlb_lookup_None [OF tlb_wf_new] not_valid_not_matching)
qed

text \<open>Every TLB the MMU can build from an empty one.\<close>

inductive tlb_reachable :: "Tlb \<Rightarrow> bool" where
  new: "tlb_reachable Tlb_new"
| insert: "tlb_reachable t \<Longrightarrow> aligned_entry e \<Longrightarrow> tlb_reachable (Tlb_insert t x e)"
| invalidate_all: "tlb_reachable t \<Longrightarrow> tlb_reachable (Tlb_invalidate_address_all t v)"
| invalidate_pcid: "tlb_reachable t \<Longrightarrow> tlb_reachable (Tlb_invalidate_address_pcid t v pc ig)"
| set_dirty: "tlb_reachable t \<Longrightarrow> Tlb_lookup t v False pc en szs = Some h \<Longrightarrow>
    tlb_reachable (set_dirty_slot t (unat (hit_set h)) (unat (hit_way h)))"
| flush_all: "tlb_reachable t \<Longrightarrow> tlb_reachable (Tlb_flush_all t)"
| cr3: "tlb_reachable t \<Longrightarrow> tlb_reachable (on_cr3_write t pge en pc nf)"
| invpcid: "tlb_reachable t \<Longrightarrow> tlb_reachable (Tlb_invpcid t pc k)"

lemma tlb_wf_set_dirty_hit:
  "tlb_wf t \<Longrightarrow> Tlb_lookup t v False pc en szs = Some h \<Longrightarrow>
   tlb_wf (set_dirty_slot t (unat (hit_set h)) (unat (hit_way h)))"
  using hit_slot [of "dtlb t" v pc en szs h]
  by (intro tlb_wf_set_dirty) (simp_all add: tlb_wf_def Tlb_lookup_def)

lemma reachable_tlb_wf: "tlb_reachable t \<Longrightarrow> tlb_wf t"
  by (induction rule: tlb_reachable.induct) (auto intro: wf_intros tlb_wf_set_dirty_hit)

section \<open>Properties\<close>

text \<open>A 2 MiB translation under PCID 1, used to exhibit the hypotheses below.\<close>

definition sample_entry :: TlbEntry where
  "sample_entry = TlbEntry_new 0x200000 0x40000000 Size2M 1
     \<lparr>attr_user = True, attr_writable = False, attr_nx = False, attr_global = False,
      attr_leaf_addr = 0x3000, attr_leaf_is_64 = True, attr_dirty = False\<rparr>"

lemma sample_aligned: "aligned_entry sample_entry"
  by (simp add: sample_entry_def aligned_entry_def)

lemma sample_matching: "matching True 1 0x212345 Size1G2MAnd4K sample_entry"
  by (simp add: sample_entry_def matching_def matches_pcid_iff covers_def base_of_def)

text \<open>
  (C20) Starting from an empty TLB, whatever sequence of insertions, invalidations, dirty-bit
  updates, flushes, CR3 writes and INVPCID operations the MMU performs, both banks keep their
  shape, every valid entry stays page-aligned and in the set its tag hashes to, and each
  large-page counter equals the number of valid entries of that size.
\<close>

theorem tlb_reachable_invariant: "tlb_reachable t \<Longrightarrow> tlb_wf t"
  by (rule reachable_tlb_wf)

theorem tlb_reachable_invariant_witness:
  "tlb_reachable (Tlb_insert Tlb_new True sample_entry) \<and> tlb_wf (Tlb_insert Tlb_new True sample_entry)"
proof -
  have r: "tlb_reachable (Tlb_insert Tlb_new True sample_entry)"
    by (intro tlb_reachable.intros sample_aligned)
  show ?thesis using r tlb_reachable_invariant [OF r] by simp
qed

text \<open>
  (C19) The optimised lookup (4 KiB-only fast path without the page-size compare, large-page
  probes skipped when their counter is zero) returns exactly what probing every admissible
  page size in order returns.
\<close>

theorem tlb_lookup_refines_reference:
  "bank_wf ts \<Longrightarrow> TlbSet_lookup ts vaddr pc en szs = lookup_ref en ts vaddr pc szs"
  by (simp add: TlbSet_lookup_impl lookup_impl_ref)

theorem tlb_lookup_refines_reference_witness:
  "bank_wf (TlbSet_insert TlbSet_new sample_entry)
   \<and> TlbSet_lookup (TlbSet_insert TlbSet_new sample_entry) 0x212345 1 True Size1G2MAnd4K
     = lookup_ref True (TlbSet_insert TlbSet_new sample_entry) 0x212345 1 Size1G2MAnd4K"
proof -
  have wf: "bank_wf (TlbSet_insert TlbSet_new sample_entry)"
    by (intro wf_intros sample_aligned)
  show ?thesis using wf tlb_lookup_refines_reference [OF wf] by blast
qed

text \<open>
  After a miss, inserting the entry a page walk produced makes the next lookup of the same
  address hit exactly that entry, whichever way it displaced.
\<close>

theorem tlb_insert_then_hit:
  assumes "tlb_wf t" and "aligned_entry e" and "matching en pc vaddr szs e"
    and "Tlb_lookup t vaddr x pc en szs = None"
  shows "\<exists>h. Tlb_lookup (Tlb_insert t x e) vaddr x pc en szs = Some h \<and> hit_entry h = e"
  using assms lookup_after_insert [of "bank t x" e vaddr pc en szs]
  by (cases x) (simp_all add: Tlb_lookup_def Tlb_insert_def bank_def tlb_wf_def)

theorem tlb_insert_then_hit_witness:
  "\<exists>h. Tlb_lookup (Tlb_insert Tlb_new False sample_entry) 0x212345 False 1 True Size1G2MAnd4K = Some h
       \<and> hit_entry h = sample_entry"
proof (rule tlb_insert_then_hit [OF tlb_wf_new sample_aligned sample_matching])
  show "Tlb_lookup Tlb_new 0x212345 False 1 True Size1G2MAnd4K = None"
    by (rule Tlb_lookup_new)
qed

text \<open>
  (C21) Invalidating an address. After the form for all address spaces no lookup of the address hits, in either bank, under any
  PCID and for any set of page sizes. After the form for one PCID with global entries included, no lookup of it under that PCID hits. Either
  form leaves every entry unchanged that does not translate the address; the form for one PCID also those of other PCIDs, and the global
  ones unless they are included.
\<close>

theorem tlb_invalidate_address_misses:
  assumes "tlb_wf t"
  shows "Tlb_lookup (Tlb_invalidate_address_all t vaddr) vaddr x pc en szs = None
    \<and> Tlb_lookup (Tlb_invalidate_address_pcid t vaddr pc True) vaddr x pc True szs = None
    \<and> (\<forall>s w. s < SETS \<longrightarrow> w < WAYS \<longrightarrow> \<not> covers (slot (bank t x) s w) vaddr \<longrightarrow>
         slot (bank (Tlb_invalidate_address_all t vaddr) x) s w = slot (bank t x) s w)
    \<and> (\<forall>s w. s < SETS \<longrightarrow> w < WAYS \<longrightarrow>
         \<not> covers (slot (bank t x) s w) vaddr \<or> (if global (slot (bank t x) s w) then \<not> ig else e_pcid (slot (bank t x) s w) \<noteq> pc) \<longrightarrow>
         slot (bank (Tlb_invalidate_address_pcid t vaddr pc ig) x) s w = slot (bank t x) s w)"
proof -
  have "\<not> matching en pc vaddr szs (slot (bank (Tlb_invalidate_address_all t vaddr) x) s w)"
    "\<not> matching True pc vaddr szs (slot (bank (Tlb_invalidate_address_pcid t vaddr pc True) x) s w)"
    if "s < SETS" "w < WAYS" for s w
    using assms that by (auto simp: slot_invalidate_all slot_invalidate_pcid Let_def matching_def matches_pcid_iff)
  then have "Tlb_lookup (Tlb_invalidate_address_all t vaddr) vaddr x pc en szs = None"
    "Tlb_lookup (Tlb_invalidate_address_pcid t vaddr pc True) vaddr x pc True szs = None"
    using assms by (simp_all add: Tlb_lookup_None tlb_wf_invalidate)
  then show ?thesis using assms by (auto simp: slot_invalidate_all slot_invalidate_pcid Let_def)
qed

theorem tlb_invalidate_address_misses_witness:
  "tlb_wf (Tlb_insert Tlb_new False sample_entry)
   \<and> Tlb_lookup (Tlb_invalidate_address_all (Tlb_insert Tlb_new False sample_entry) 0x212345)
       0x212345 False 1 True Size1G2MAnd4K = None
   \<and> Tlb_lookup (Tlb_invalidate_address_pcid (Tlb_insert Tlb_new False sample_entry) 0x212345 1 True)
       0x212345 False 1 True Size1G2MAnd4K = None"
proof -
  have wf: "tlb_wf (Tlb_insert Tlb_new False sample_entry)"
    by (intro wf_intros sample_aligned)
  show ?thesis using wf tlb_invalidate_address_misses [OF wf] by blast
qed

text \<open>
  Which translations survive a CR3 write. Without PCIDs: only global entries, and only when
  CR4.PGE is set. With PCIDs: everything when the no-flush bit is set, otherwise the global
  entries and the entries of other PCIDs. A surviving entry is unchanged; an entry that does
  not survive is invalid.
\<close>

theorem tlb_cr3_write_survivors:
  assumes "tlb_wf t" and "s < SETS" and "w < WAYS" and "valid (slot (bank t x) s w)"
  shows "slot (bank (on_cr3_write t pge en new_pcid no_flush) x) s w =
    (let e = slot (bank t x) s w in
     if (if en then no_flush \<or> global e \<or> e_pcid e \<noteq> new_pcid else pge \<and> global e)
     then e else invalidate e)"
  using assms by (auto simp: on_cr3_write_def slot_flush Let_def)

theorem tlb_cr3_write_survivors_witness:
  "slot (bank (on_cr3_write (Tlb_insert Tlb_new False sample_entry) True True 1 False) False)
     (set_index 0x200) 0 = invalidate sample_entry"
proof -
  let ?t = "Tlb_insert Tlb_new False sample_entry"
  have wf: "tlb_wf ?t" by (intro wf_intros sample_aligned)
  have way: "insert_way TlbSet_new sample_entry = 0"
  proof -
    have "find (\<lambda>w. let cur = slot TlbSet_new (set_index 0x200) w in
        valid cur \<and> vbase cur = vbase sample_entry \<and> page_size cur = page_size sample_entry
        \<and> (global cur \<or> e_pcid cur = e_pcid sample_entry)) [0..<WAYS] = None"
      by (simp add: find_upt_None slot_new)
    then show ?thesis
      by (simp add: insert_way_def sample_entry_def TlbSet_new_def)
  qed
  have e: "slot (bank ?t False) (set_index 0x200) 0 = sample_entry"
    using slot_insert [of TlbSet_new sample_entry "set_index 0x200" 0] bank_wf_new way
    by (simp add: bank_def Tlb_insert_def Tlb_new_def sample_entry_def)
  have "valid sample_entry" "\<not> global sample_entry" "e_pcid sample_entry = 1"
    by (simp_all add: sample_entry_def)
  then show ?thesis
    using tlb_cr3_write_survivors [OF wf, of "set_index 0x200" 0 False True True 1 False] e by simp
qed

end
