(* ===== verification/Mmu.thy ===== *)
theory Mmu
  imports Tlb
begin

text \<open>
  The x86 MMU, \<^verbatim>\<open>crates/aero-mmu/src/lib.rs\<close>: the control registers with the state cached from
  them, the page-table walkers of the three paging modes with their side-effect-free variants,
  and \<open>translate\<close> with the software TLB in front of the walkers.

  The bus of the page walk is the trait \<^verbatim>\<open>MemoryBus\<close>: a dictionary of operations on a memory
  state of type \<^typ>\<open>'m\<close>, which every walker takes as its first argument and whose state it threads.
  Reads return a new state because the trait takes \<^verbatim>\<open>&mut self\<close>. The environment variable
  \<^verbatim>\<open>AERO_COW_FORCE_RW\<close> is the boolean argument \<open>cow\<close>. The \<^verbatim>\<open>stats\<close> counters (an optional feature)
  and the diagnostic log of \<^verbatim>\<open>invlpg\<close> are left out: neither is read by any other code.
\<close>

section \<open>Constants and data\<close>

record 'm page_bus =
  bus_read_u32 :: "'m \<Rightarrow> u64 \<Rightarrow> u32 \<times> 'm"
  bus_read_u64 :: "'m \<Rightarrow> u64 \<Rightarrow> u64 \<times> 'm"
  bus_write_u32 :: "'m \<Rightarrow> u64 \<Rightarrow> u32 \<Rightarrow> 'm"
  bus_write_u64 :: "'m \<Rightarrow> u64 \<Rightarrow> u64 \<Rightarrow> 'm"

datatype AccessType = Read | Write | Execute

fun is_write :: "AccessType \<Rightarrow> bool" where
  "is_write Write = True"
| "is_write _ = False"

fun is_execute :: "AccessType \<Rightarrow> bool" where
  "is_execute Execute = True"
| "is_execute _ = False"

record PageFault =
  pf_addr :: u64
  error_code :: u32

datatype TranslateFault = PageFaultAt PageFault | NonCanonical u64

datatype PagingMode = Disabled | Legacy32 | Pae | Long4

definition CR0_WP :: u64 where "CR0_WP = push_bit 16 1"
definition CR0_PG :: u64 where "CR0_PG = push_bit 31 1"
definition CR4_PSE :: u64 where "CR4_PSE = push_bit 4 1"
definition CR4_PAE :: u64 where "CR4_PAE = push_bit 5 1"
definition CR4_PGE :: u64 where "CR4_PGE = push_bit 7 1"
definition CR4_PCIDE :: u64 where "CR4_PCIDE = push_bit 17 1"
definition EFER_LME :: u64 where "EFER_LME = push_bit 8 1"
definition EFER_NXE :: u64 where "EFER_NXE = push_bit 11 1"

text \<open>The source has the page-table bits twice, with and without the suffix \<^verbatim>\<open>64\<close>, with equal values.\<close>

definition PTE_P :: u64 where "PTE_P = push_bit 0 1"
definition PTE_RW :: u64 where "PTE_RW = push_bit 1 1"
definition PTE_US :: u64 where "PTE_US = push_bit 2 1"
definition PTE_A :: u64 where "PTE_A = push_bit 5 1"
definition PTE_D :: u64 where "PTE_D = push_bit 6 1"
definition PTE_PS :: u64 where "PTE_PS = push_bit 7 1"
definition PTE_G :: u64 where "PTE_G = push_bit 8 1"
definition PTE_NX :: u64 where "PTE_NX = push_bit 63 1"
definition LEGACY32_4MB_RESERVED_MASK :: u64 where "LEGACY32_4MB_RESERVED_MASK = 0x003fe000"

lemmas pte_defs = PTE_P_def PTE_RW_def PTE_US_def PTE_A_def PTE_D_def PTE_PS_def PTE_G_def PTE_NX_def
lemmas cr_defs = CR0_WP_def CR0_PG_def CR4_PSE_def CR4_PAE_def CR4_PGE_def CR4_PCIDE_def EFER_LME_def EFER_NXE_def

definition pf_error_code :: "bool \<Rightarrow> AccessType \<Rightarrow> bool \<Rightarrow> bool \<Rightarrow> u32" where
  "pf_error_code present access is_user rsvd =
     (let code = 0;
          code = (if present then code OR push_bit 0 1 else code);
          code = (if is_write access then code OR push_bit 1 1 else code);
          code = (if is_user then code OR push_bit 2 1 else code);
          code = (if rsvd then code OR push_bit 3 1 else code);
          code = (if is_execute access then code OR push_bit 4 1 else code)
      in code)"

definition PageFault_new :: "u64 \<Rightarrow> u32 \<Rightarrow> PageFault" where
  "PageFault_new a code = \<lparr> pf_addr = a, error_code = code \<rparr>"

definition is_canonical_48 :: "u64 \<Rightarrow> bool" where
  "is_canonical_48 vaddr \<longleftrightarrow> (drop_bit 47 vaddr + 1) AND 0x1fffe = 0"

datatype EntryKind64 = Pml4e | PdpteLong | PdeLong | PteLong | PdptePae | PdePae | PtePae

record EntryAccessContext =
  ctx_vaddr :: u64
  ctx_access :: AccessType
  ctx_user :: bool

record Mmu =
  cr0 :: u64
  cr2 :: u64
  cr3 :: u64
  cr4 :: u64
  efer :: u64
  mode :: PagingMode
  max_phys_bits :: u8
  tlb_page_sizes :: TlbLookupPageSizes
  pcid_enabled :: bool
  pcid :: u16
  tlb :: Tlb

section \<open>Control registers\<close>

definition update_cached_state :: "Mmu \<Rightarrow> Mmu" where
  "update_cached_state mmu =
     (let md = (if cr0 mmu AND CR0_PG = 0 then Disabled
                else if cr4 mmu AND CR4_PAE = 0 then Legacy32
                else if efer mmu AND EFER_LME \<noteq> 0 then Long4
                else Pae);
          szs = (if cr4 mmu AND CR4_PSE = 0 then Only4K
                 else case md of
                        Disabled \<Rightarrow> Only4K | Legacy32 \<Rightarrow> Size4MAnd4K
                      | Pae \<Rightarrow> Size2MAnd4K | Long4 \<Rightarrow> Size1G2MAnd4K);
          en = (cr4 mmu AND CR4_PCIDE \<noteq> 0)
      in mmu\<lparr>mode := md, tlb_page_sizes := szs, pcid_enabled := en,
             pcid := (if en then ucast (cr3 mmu AND 0xfff) else 0)\<rparr>)"

definition Mmu_new :: Mmu where
  "Mmu_new = update_cached_state
     \<lparr> cr0 = 0, cr2 = 0, cr3 = 0, cr4 = 0, efer = 0, mode = Disabled, max_phys_bits = 52,
       tlb_page_sizes = Only4K, pcid_enabled = False, pcid = 0, tlb = Tlb_new \<rparr>"

definition cr4_pse :: "Mmu \<Rightarrow> bool" where "cr4_pse mmu \<longleftrightarrow> cr4 mmu AND CR4_PSE \<noteq> 0"
definition cr4_pge :: "Mmu \<Rightarrow> bool" where "cr4_pge mmu \<longleftrightarrow> cr4 mmu AND CR4_PGE \<noteq> 0"
definition cr3_no_flush :: "Mmu \<Rightarrow> bool" where
  "cr3_no_flush mmu \<longleftrightarrow> pcid_enabled mmu \<and> drop_bit 63 (cr3 mmu) AND 1 \<noteq> 0"
definition nx_enabled :: "Mmu \<Rightarrow> bool" where "nx_enabled mmu \<longleftrightarrow> efer mmu AND EFER_NXE \<noteq> 0"
definition wp_enabled :: "Mmu \<Rightarrow> bool" where "wp_enabled mmu \<longleftrightarrow> cr0 mmu AND CR0_WP \<noteq> 0"

definition phys_addr_mask :: "Mmu \<Rightarrow> u64" where
  "phys_addr_mask mmu =
     (if max_phys_bits mmu = 64 then NOT 0 else push_bit (unat (max_phys_bits mmu)) 1 - 1)"

text \<open>\<open>None\<close> is the failed assertion.\<close>

definition set_max_phys_bits :: "Mmu \<Rightarrow> u8 \<Rightarrow> Mmu option" where
  "set_max_phys_bits mmu bits =
     (if 1 \<le> bits \<and> bits \<le> 52 then
        Some (if max_phys_bits mmu \<noteq> bits
              then mmu\<lparr>max_phys_bits := bits, tlb := Tlb_flush_all (tlb mmu)\<rparr> else mmu)
      else None)"

definition set_cr0 :: "Mmu \<Rightarrow> u64 \<Rightarrow> Mmu" where
  "set_cr0 mmu v =
     (let old_pg = (cr0 mmu AND CR0_PG \<noteq> 0);
          mmu = mmu\<lparr>cr0 := v\<rparr>;
          new_pg = (cr0 mmu AND CR0_PG \<noteq> 0);
          mmu = (if old_pg \<noteq> new_pg then mmu\<lparr>tlb := Tlb_flush_all (tlb mmu)\<rparr> else mmu)
      in update_cached_state mmu)"

definition set_cr3 :: "Mmu \<Rightarrow> u64 \<Rightarrow> Mmu" where
  "set_cr3 mmu v =
     (let mmu = update_cached_state (mmu\<lparr>cr3 := v\<rparr>)
      in mmu\<lparr>tlb := on_cr3_write (tlb mmu) (cr4_pge mmu) (pcid_enabled mmu) (pcid mmu) (cr3_no_flush mmu)\<rparr>)"

definition CR4_RELEVANT :: u64 where
  "CR4_RELEVANT = CR4_PAE OR CR4_PSE OR CR4_PGE OR CR4_PCIDE"

definition set_cr4 :: "Mmu \<Rightarrow> u64 \<Rightarrow> Mmu" where
  "set_cr4 mmu v =
     (let old_relevant = cr4 mmu AND CR4_RELEVANT;
          mmu = mmu\<lparr>cr4 := v\<rparr>;
          new_relevant = cr4 mmu AND CR4_RELEVANT;
          mmu = (if old_relevant \<noteq> new_relevant then mmu\<lparr>tlb := Tlb_flush_all (tlb mmu)\<rparr> else mmu)
      in update_cached_state mmu)"

definition set_efer :: "Mmu \<Rightarrow> u64 \<Rightarrow> Mmu" where
  "set_efer mmu v =
     (let old_relevant = efer mmu AND (EFER_LME OR EFER_NXE);
          mmu = mmu\<lparr>efer := v\<rparr>;
          new_relevant = efer mmu AND (EFER_LME OR EFER_NXE);
          mmu = (if old_relevant \<noteq> new_relevant then mmu\<lparr>tlb := Tlb_flush_all (tlb mmu)\<rparr> else mmu)
      in update_cached_state mmu)"

definition invlpg :: "Mmu \<Rightarrow> u64 \<Rightarrow> Mmu" where
  "invlpg mmu vaddr =
     (if pcid_enabled mmu
      then mmu\<lparr>tlb := Tlb_invalidate_address_pcid (tlb mmu) vaddr (pcid mmu) True\<rparr>
      else mmu\<lparr>tlb := Tlb_invalidate_address_all (tlb mmu) vaddr\<rparr>)"

definition Mmu_invpcid :: "Mmu \<Rightarrow> u16 \<Rightarrow> InvpcidType \<Rightarrow> Mmu" where
  "Mmu_invpcid mmu pc k = mmu\<lparr>tlb := Tlb_invpcid (tlb mmu) pc k\<rparr>"

section \<open>Page-table entries\<close>

definition page_fault_not_present :: "u64 \<Rightarrow> AccessType \<Rightarrow> bool \<Rightarrow> PageFault" where
  "page_fault_not_present vaddr access is_user =
     PageFault_new vaddr (pf_error_code False access is_user False)"

definition page_fault_rsvd :: "u64 \<Rightarrow> AccessType \<Rightarrow> bool \<Rightarrow> PageFault" where
  "page_fault_rsvd vaddr access is_user = PageFault_new vaddr (pf_error_code True access is_user True)"

definition check_perms ::
  "Mmu \<Rightarrow> u64 \<Rightarrow> bool \<Rightarrow> bool \<Rightarrow> bool \<Rightarrow> AccessType \<Rightarrow> bool \<Rightarrow> PageFault + unit" where
  "check_perms mmu vaddr user_ok writable_ok nx_bit access is_user =
     (if is_user \<and> \<not> user_ok then
        Inl (PageFault_new vaddr (pf_error_code True access is_user False))
      else if is_write access \<and> \<not> writable_ok \<and> (is_user \<or> wp_enabled mmu) then
        Inl (PageFault_new vaddr (pf_error_code True access is_user False))
      else if is_execute access \<and> nx_bit then
        Inl (PageFault_new vaddr (pf_error_code True access is_user False))
      else Inr ())"

definition has_reserved_bits64 :: "Mmu \<Rightarrow> u64 \<Rightarrow> EntryKind64 \<Rightarrow> bool" where
  "has_reserved_bits64 mmu entry knd =
     (if entry AND PTE_P = 0 then False
      else if \<not> nx_enabled mmu \<and> entry AND PTE_NX \<noteq> 0 then True
      else if knd \<in> {Pml4e, PdptePae} \<and> entry AND PTE_PS \<noteq> 0 then True
      else if knd = PdptePae then
        let allowed_flags = PTE_P OR push_bit 3 1 OR push_bit 4 1 OR push_bit 9 7;
            allowed_addr = phys_addr_mask mmu AND NOT 0xfff;
            allowed = allowed_flags OR allowed_addr;
            allowed = allowed OR push_bit 52 0x7ff;
            allowed = (if nx_enabled mmu then allowed OR PTE_NX else allowed)
        in entry AND NOT allowed \<noteq> 0
      else
        let page_align = (case knd of
              PdpteLong \<Rightarrow> if entry AND PTE_PS \<noteq> 0 then bytes Size1G else 0x1000
            | PdePae \<Rightarrow> if entry AND PTE_PS \<noteq> 0 then bytes Size2M else 0x1000
            | PdeLong \<Rightarrow> if entry AND PTE_PS \<noteq> 0 then bytes Size2M else 0x1000
            | _ \<Rightarrow> 0x1000);
            allowed_addr = phys_addr_mask mmu AND NOT (page_align - 1);
            allowed = allowed_addr OR 0x1fff;
            allowed = (if knd \<noteq> PdptePae then allowed OR push_bit 52 0x7ff else allowed);
            allowed = (if nx_enabled mmu then allowed OR PTE_NX else allowed)
        in entry AND NOT allowed \<noteq> 0)"

definition check_entry32 :: "'m page_bus \<Rightarrow> 'm \<Rightarrow> u64 \<Rightarrow> u64 \<Rightarrow> u64 option \<times> 'm" where
  "check_entry32 B m entry_addr entry =
     (if entry AND PTE_P = 0 then (None, m)
      else if entry AND PTE_A = 0 then
        let entry = entry OR PTE_A in (Some entry, bus_write_u32 B m entry_addr (ucast entry))
      else (Some entry, m))"

definition check_entry32_probe :: "u64 \<Rightarrow> u64 option" where
  "check_entry32_probe entry = (if entry AND PTE_P = 0 then None else Some entry)"

definition check_entry64 ::
  "'m page_bus \<Rightarrow> Mmu \<Rightarrow> 'm \<Rightarrow> u64 \<Rightarrow> u64 \<Rightarrow> EntryAccessContext \<Rightarrow> EntryKind64 \<Rightarrow> (PageFault + u64 option) \<times> 'm" where
  "check_entry64 B mmu m entry_addr entry ctx knd =
     (if entry AND PTE_P = 0 then (Inr None, m)
      else if has_reserved_bits64 mmu entry knd then
        (Inl (page_fault_rsvd (ctx_vaddr ctx) (ctx_access ctx) (ctx_user ctx)), m)
      else if knd \<noteq> PdptePae \<and> entry AND PTE_A = 0 then
        let entry = entry OR PTE_A in (Inr (Some entry), bus_write_u64 B m entry_addr entry)
      else (Inr (Some entry), m))"

definition check_entry64_probe :: "Mmu \<Rightarrow> u64 \<Rightarrow> EntryAccessContext \<Rightarrow> EntryKind64 \<Rightarrow> PageFault + u64 option" where
  "check_entry64_probe mmu entry ctx knd =
     (if entry AND PTE_P = 0 then Inr None
      else if has_reserved_bits64 mmu entry knd then
        Inl (page_fault_rsvd (ctx_vaddr ctx) (ctx_access ctx) (ctx_user ctx))
      else Inr (Some entry))"

section \<open>Steps that the walkers share\<close>

text \<open>The \<^verbatim>\<open>?\<close> operator of a walker: a fault ends the walk, with the memory as it is.\<close>

definition and_then :: "('e + 'a) \<times> 'm \<Rightarrow> ('a \<Rightarrow> 'm \<Rightarrow> ('e + 'b) \<times> 'm) \<Rightarrow> ('e + 'b) \<times> 'm" where
  "and_then r f = (case r of (Inl e, m) \<Rightarrow> (Inl e, m) | (Inr x, m) \<Rightarrow> f x m)"

text \<open>
  One level of a 64-bit walk: read the entry, check it, fault when it is not present. The
  walkers repeat these lines at every level.
\<close>

definition next_level ::
  "'m page_bus \<Rightarrow> Mmu \<Rightarrow> 'm \<Rightarrow> u64 \<Rightarrow> EntryAccessContext \<Rightarrow> EntryKind64 \<Rightarrow> (PageFault + u64) \<times> 'm" where
  "next_level B mmu m entry_addr ctx knd =
     (let (entry, m) = bus_read_u64 B m entry_addr
      in and_then (check_entry64 B mmu m entry_addr entry ctx knd) (\<lambda>r m.
           case r of
             Some v \<Rightarrow> (Inr v, m)
           | None \<Rightarrow> (Inl (page_fault_not_present (ctx_vaddr ctx) (ctx_access ctx) (ctx_user ctx)), m)))"

definition next_level_probe ::
  "'m page_bus \<Rightarrow> Mmu \<Rightarrow> 'm \<Rightarrow> u64 \<Rightarrow> EntryAccessContext \<Rightarrow> EntryKind64 \<Rightarrow> (PageFault + u64) \<times> 'm" where
  "next_level_probe B mmu m entry_addr ctx knd =
     (let (entry, m) = bus_read_u64 B m entry_addr
      in and_then (check_entry64_probe mmu entry ctx knd, m) (\<lambda>r m.
           case r of
             Some v \<Rightarrow> (Inr v, m)
           | None \<Rightarrow> (Inl (page_fault_not_present (ctx_vaddr ctx) (ctx_access ctx) (ctx_user ctx)), m)))"

text \<open>The physical base of a 64-bit leaf.\<close>

definition leaf_base64 :: "Mmu \<Rightarrow> PageSize \<Rightarrow> u64 \<Rightarrow> u64" where
  "leaf_base64 mmu ps entry = (entry AND phys_addr_mask mmu) AND NOT (bytes ps - 1)"

text \<open>
  The end of a walk at a leaf: permissions, the dirty bit of a write, and the TLB entry. In the
  32-bit walker the entries are 32 bits wide.
\<close>

definition leaf64 ::
  "'m page_bus \<Rightarrow> Mmu \<Rightarrow> 'm \<Rightarrow> PageSize \<Rightarrow> u64 \<Rightarrow> u64 \<Rightarrow> bool \<Rightarrow> bool \<Rightarrow> bool \<Rightarrow> EntryAccessContext
    \<Rightarrow> (PageFault + TlbEntry \<times> u64) \<times> 'm" where
  "leaf64 B mmu m ps entry_addr entry eff_user eff_writable eff_nx ctx =
     and_then (check_perms mmu (ctx_vaddr ctx) eff_user eff_writable eff_nx (ctx_access ctx) (ctx_user ctx), m)
       (\<lambda>_ m.
         let new_entry = (if is_write (ctx_access ctx) then entry OR PTE_D else entry);
             m = (if new_entry \<noteq> entry then bus_write_u64 B m entry_addr new_entry else m);
             vbase = ctx_vaddr ctx AND NOT (bytes ps - 1);
             pbase = leaf_base64 mmu ps entry;
             glob = (cr4_pge mmu \<and> entry AND PTE_G \<noteq> 0);
             dty = (new_entry AND PTE_D \<noteq> 0);
             tentry = TlbEntry_new vbase pbase ps (pcid mmu)
               \<lparr> attr_user = eff_user, attr_writable = eff_writable, attr_nx = eff_nx, attr_global = glob,
                 attr_leaf_addr = entry_addr, attr_leaf_is_64 = True, attr_dirty = dty \<rparr>
         in (Inr (tentry, pbase + (ctx_vaddr ctx - vbase)), m))"

definition leaf64_probe ::
  "Mmu \<Rightarrow> 'm \<Rightarrow> PageSize \<Rightarrow> u64 \<Rightarrow> bool \<Rightarrow> bool \<Rightarrow> bool \<Rightarrow> EntryAccessContext \<Rightarrow> (PageFault + u64) \<times> 'm" where
  "leaf64_probe mmu m ps entry eff_user eff_writable eff_nx ctx =
     and_then (check_perms mmu (ctx_vaddr ctx) eff_user eff_writable eff_nx (ctx_access ctx) (ctx_user ctx), m)
       (\<lambda>_ m. let vbase = ctx_vaddr ctx AND NOT (bytes ps - 1); pbase = leaf_base64 mmu ps entry
              in (Inr (pbase + (ctx_vaddr ctx - vbase)), m))"

definition leaf_base32 :: "PageSize \<Rightarrow> u64 \<Rightarrow> u64" where
  "leaf_base32 ps entry = (if ps = Size4M then entry AND 0xffc00000 else entry AND 0xfffff000)"

definition leaf32 ::
  "'m page_bus \<Rightarrow> Mmu \<Rightarrow> 'm \<Rightarrow> PageSize \<Rightarrow> u64 \<Rightarrow> u64 \<Rightarrow> bool \<Rightarrow> bool \<Rightarrow> EntryAccessContext
    \<Rightarrow> (PageFault + TlbEntry \<times> u64) \<times> 'm" where
  "leaf32 B mmu m ps entry_addr entry user_ok writable_ok ctx =
     and_then (check_perms mmu (ctx_vaddr ctx) user_ok writable_ok False (ctx_access ctx) (ctx_user ctx), m)
       (\<lambda>_ m.
         let new_entry = (if is_write (ctx_access ctx) then entry OR PTE_D else entry);
             m = (if new_entry \<noteq> entry then bus_write_u32 B m entry_addr (ucast new_entry) else m);
             vbase = ctx_vaddr ctx AND NOT (bytes ps - 1);
             pbase = leaf_base32 ps entry;
             glob = (cr4_pge mmu \<and> entry AND PTE_G \<noteq> 0);
             dty = (new_entry AND PTE_D \<noteq> 0);
             tentry = TlbEntry_new vbase pbase ps (pcid mmu)
               \<lparr> attr_user = user_ok, attr_writable = writable_ok, attr_nx = False, attr_global = glob,
                 attr_leaf_addr = entry_addr, attr_leaf_is_64 = False, attr_dirty = dty \<rparr>
         in (Inr (tentry, pbase + (ctx_vaddr ctx - vbase)), m))"

definition leaf32_probe ::
  "Mmu \<Rightarrow> 'm \<Rightarrow> PageSize \<Rightarrow> u64 \<Rightarrow> bool \<Rightarrow> bool \<Rightarrow> EntryAccessContext \<Rightarrow> (PageFault + u64) \<times> 'm" where
  "leaf32_probe mmu m ps entry user_ok writable_ok ctx =
     and_then (check_perms mmu (ctx_vaddr ctx) user_ok writable_ok False (ctx_access ctx) (ctx_user ctx), m)
       (\<lambda>_ m. let vbase = ctx_vaddr ctx AND NOT (bytes ps - 1); pbase = leaf_base32 ps entry
              in (Inr (pbase + (ctx_vaddr ctx - vbase)), m))"

section \<open>The walkers\<close>

text \<open>32-bit paging. The entries are \<^verbatim>\<open>u32\<close> values widened to \<^verbatim>\<open>u64\<close>.\<close>

definition walk_legacy32 ::
  "'m page_bus \<Rightarrow> Mmu \<Rightarrow> 'm \<Rightarrow> EntryAccessContext \<Rightarrow> (PageFault + TlbEntry \<times> u64) \<times> 'm" where
  "walk_legacy32 B mmu m ctx =
     (let vaddr = ctx_vaddr ctx;
          not_present = page_fault_not_present vaddr (ctx_access ctx) (ctx_user ctx);
          rsvd = page_fault_rsvd vaddr (ctx_access ctx) (ctx_user ctx);
          pd_base = (cr3 mmu AND 0xffffffff) AND NOT 0xfff;
          pd_index = drop_bit 22 vaddr AND 0x3ff;
          pde_addr = pd_base + pd_index * 4;
          (pde32, m) = bus_read_u32 B m pde_addr;
          pde_raw = ucast pde32 :: u64;
          pde_ps = (pde_raw AND PTE_PS \<noteq> 0)
      in if pde_raw AND PTE_P = 0 then (Inl not_present, m)
         else if pde_ps \<and> \<not> cr4_pse mmu then (Inl rsvd, m)
         else if pde_ps \<and> pde_raw AND LEGACY32_4MB_RESERVED_MASK \<noteq> 0 then (Inl rsvd, m)
         else case check_entry32 B m pde_addr pde_raw of
             (None, m) \<Rightarrow> (Inl not_present, m)
           | (Some pde, m) \<Rightarrow>
               if pde_ps then
                 leaf32 B mmu m Size4M pde_addr pde (pde AND PTE_US \<noteq> 0) (pde AND PTE_RW \<noteq> 0) ctx
               else
                 let pt_base = pde AND 0xfffff000;
                     pt_index = drop_bit 12 vaddr AND 0x3ff;
                     pte_addr = pt_base + pt_index * 4;
                     (pte32, m) = bus_read_u32 B m pte_addr
                 in case check_entry32 B m pte_addr (ucast pte32) of
                      (None, m) \<Rightarrow> (Inl not_present, m)
                    | (Some pte, m) \<Rightarrow>
                        leaf32 B mmu m Size4K pte_addr pte
                          (pde AND PTE_US \<noteq> 0 \<and> pte AND PTE_US \<noteq> 0)
                          (pde AND PTE_RW \<noteq> 0 \<and> pte AND PTE_RW \<noteq> 0) ctx)"

definition walk_legacy32_probe ::
  "'m page_bus \<Rightarrow> Mmu \<Rightarrow> 'm \<Rightarrow> EntryAccessContext \<Rightarrow> (PageFault + u64) \<times> 'm" where
  "walk_legacy32_probe B mmu m ctx =
     (let vaddr = ctx_vaddr ctx;
          not_present = page_fault_not_present vaddr (ctx_access ctx) (ctx_user ctx);
          rsvd = page_fault_rsvd vaddr (ctx_access ctx) (ctx_user ctx);
          pd_base = (cr3 mmu AND 0xffffffff) AND NOT 0xfff;
          pd_index = drop_bit 22 vaddr AND 0x3ff;
          pde_addr = pd_base + pd_index * 4;
          (pde32, m) = bus_read_u32 B m pde_addr;
          pde = ucast pde32 :: u64;
          pde_ps = (pde AND PTE_PS \<noteq> 0)
      in if pde AND PTE_P = 0 then (Inl not_present, m)
         else if pde_ps \<and> \<not> cr4_pse mmu then (Inl rsvd, m)
         else if pde_ps \<and> pde AND LEGACY32_4MB_RESERVED_MASK \<noteq> 0 then (Inl rsvd, m)
         else if pde_ps then
           leaf32_probe mmu m Size4M pde (pde AND PTE_US \<noteq> 0) (pde AND PTE_RW \<noteq> 0) ctx
         else
           let pt_base = pde AND 0xfffff000;
               pt_index = drop_bit 12 vaddr AND 0x3ff;
               pte_addr = pt_base + pt_index * 4;
               (pte32, m) = bus_read_u32 B m pte_addr
           in case check_entry32_probe (ucast pte32) of
                None \<Rightarrow> (Inl not_present, m)
              | Some pte \<Rightarrow>
                  leaf32_probe mmu m Size4K pte
                    (pde AND PTE_US \<noteq> 0 \<and> pte AND PTE_US \<noteq> 0)
                    (pde AND PTE_RW \<noteq> 0 \<and> pte AND PTE_RW \<noteq> 0) ctx)"

text \<open>PAE paging.\<close>

definition walk_pae ::
  "'m page_bus \<Rightarrow> Mmu \<Rightarrow> 'm \<Rightarrow> EntryAccessContext \<Rightarrow> (PageFault + TlbEntry \<times> u64) \<times> 'm" where
  "walk_pae B mmu m ctx =
     (let vaddr = ctx_vaddr ctx;
          nxe = nx_enabled mmu;
          addr_mask = phys_addr_mask mmu;
          pdpt_base = (cr3 mmu AND 0xffffffff) AND NOT 0x1f;
          pdpte_addr = pdpt_base + (drop_bit 30 vaddr AND 0x3) * 8
      in and_then (next_level B mmu m pdpte_addr ctx PdptePae) (\<lambda>pdpte m.
         let eff_nx = (nxe \<and> pdpte AND PTE_NX \<noteq> 0);
             pd_base = (pdpte AND addr_mask) AND NOT 0xfff;
             pde_addr = pd_base + (drop_bit 21 vaddr AND 0x1ff) * 8
         in and_then (next_level B mmu m pde_addr ctx PdePae) (\<lambda>pde m.
            let eff_user = (pde AND PTE_US \<noteq> 0);
                eff_writable = (pde AND PTE_RW \<noteq> 0);
                eff_nx = (eff_nx \<or> nxe \<and> pde AND PTE_NX \<noteq> 0)
            in if pde AND PTE_PS \<noteq> 0 then
                 leaf64 B mmu m Size2M pde_addr pde eff_user eff_writable eff_nx ctx
               else
                 let pt_base = (pde AND addr_mask) AND NOT 0xfff;
                     pte_addr = pt_base + (drop_bit 12 vaddr AND 0x1ff) * 8
                 in and_then (next_level B mmu m pte_addr ctx PtePae) (\<lambda>pte m.
                      leaf64 B mmu m Size4K pte_addr pte
                        (eff_user \<and> pte AND PTE_US \<noteq> 0) (eff_writable \<and> pte AND PTE_RW \<noteq> 0)
                        (eff_nx \<or> nxe \<and> pte AND PTE_NX \<noteq> 0) ctx))))"

definition walk_pae_probe ::
  "'m page_bus \<Rightarrow> Mmu \<Rightarrow> 'm \<Rightarrow> EntryAccessContext \<Rightarrow> (PageFault + u64) \<times> 'm" where
  "walk_pae_probe B mmu m ctx =
     (let vaddr = ctx_vaddr ctx;
          nxe = nx_enabled mmu;
          addr_mask = phys_addr_mask mmu;
          pdpt_base = (cr3 mmu AND 0xffffffff) AND NOT 0x1f;
          pdpte_addr = pdpt_base + (drop_bit 30 vaddr AND 0x3) * 8
      in and_then (next_level_probe B mmu m pdpte_addr ctx PdptePae) (\<lambda>pdpte m.
         let eff_nx = (nxe \<and> pdpte AND PTE_NX \<noteq> 0);
             pd_base = (pdpte AND addr_mask) AND NOT 0xfff;
             pde_addr = pd_base + (drop_bit 21 vaddr AND 0x1ff) * 8
         in and_then (next_level_probe B mmu m pde_addr ctx PdePae) (\<lambda>pde m.
            let eff_user = (pde AND PTE_US \<noteq> 0);
                eff_writable = (pde AND PTE_RW \<noteq> 0);
                eff_nx = (eff_nx \<or> nxe \<and> pde AND PTE_NX \<noteq> 0)
            in if pde AND PTE_PS \<noteq> 0 then
                 leaf64_probe mmu m Size2M pde eff_user eff_writable eff_nx ctx
               else
                 let pt_base = (pde AND addr_mask) AND NOT 0xfff;
                     pte_addr = pt_base + (drop_bit 12 vaddr AND 0x1ff) * 8
                 in and_then (next_level_probe B mmu m pte_addr ctx PtePae) (\<lambda>pte m.
                      leaf64_probe mmu m Size4K pte
                        (eff_user \<and> pte AND PTE_US \<noteq> 0) (eff_writable \<and> pte AND PTE_RW \<noteq> 0)
                        (eff_nx \<or> nxe \<and> pte AND PTE_NX \<noteq> 0) ctx))))"

text \<open>
  The optional copy-on-write workaround of the 4-level walker: a user write to a present user
  page that is read-only makes the entries on the path writable. The result is the leaf, whether
  the page counts as writable, and the memory.
\<close>

definition cow_upgrade ::
  "'m page_bus \<Rightarrow> bool \<Rightarrow> 'm \<Rightarrow> EntryAccessContext \<Rightarrow> bool \<Rightarrow> u64 \<times> u64 \<Rightarrow> u64 \<times> u64 \<Rightarrow> u64 \<times> u64 \<Rightarrow> u64 \<times> u64
    \<Rightarrow> u64 \<times> bool \<times> 'm" where
  "cow_upgrade B cow m ctx eff_writable leaf pml4e_at pdpte_at pde_at =
     (let (pte_addr, pte) = leaf
      in if is_write (ctx_access ctx) \<and> ctx_user ctx \<and> \<not> eff_writable \<and> pte AND PTE_P \<noteq> 0 \<and>
            pte AND PTE_US \<noteq> 0 \<and> cow then
           let (pte, m) = (if pte AND PTE_RW = 0
                           then (pte OR PTE_RW, bus_write_u64 B m pte_addr (pte OR PTE_RW)) else (pte, m));
               up = (\<lambda>(addr, e) m. if e AND PTE_RW = 0 then bus_write_u64 B m addr (e OR PTE_RW) else m);
               m = up pml4e_at m;
               m = up pdpte_at m;
               m = up pde_at m
           in (pte, True, m)
         else (pte, eff_writable, m))"

definition walk_long4 ::
  "'m page_bus \<Rightarrow> bool \<Rightarrow> Mmu \<Rightarrow> 'm \<Rightarrow> EntryAccessContext \<Rightarrow> (PageFault + TlbEntry \<times> u64) \<times> 'm" where
  "walk_long4 B cow mmu m ctx =
     (let vaddr = ctx_vaddr ctx;
          nxe = nx_enabled mmu;
          addr_mask = phys_addr_mask mmu;
          pml4_base = (cr3 mmu AND addr_mask) AND NOT 0xfff;
          pml4e_addr = pml4_base + (drop_bit 39 vaddr AND 0x1ff) * 8
      in and_then (next_level B mmu m pml4e_addr ctx Pml4e) (\<lambda>pml4e m.
         let eff_user = (pml4e AND PTE_US \<noteq> 0);
             eff_writable = (pml4e AND PTE_RW \<noteq> 0);
             eff_nx = (nxe \<and> pml4e AND PTE_NX \<noteq> 0);
             pdpt_base = (pml4e AND addr_mask) AND NOT 0xfff;
             pdpte_addr = pdpt_base + (drop_bit 30 vaddr AND 0x1ff) * 8
         in and_then (next_level B mmu m pdpte_addr ctx PdpteLong) (\<lambda>pdpte m.
            let eff_user = (eff_user \<and> pdpte AND PTE_US \<noteq> 0);
                eff_writable = (eff_writable \<and> pdpte AND PTE_RW \<noteq> 0);
                eff_nx = (eff_nx \<or> nxe \<and> pdpte AND PTE_NX \<noteq> 0)
            in if pdpte AND PTE_PS \<noteq> 0 then
                 leaf64 B mmu m Size1G pdpte_addr pdpte eff_user eff_writable eff_nx ctx
               else
                 let pd_base = (pdpte AND addr_mask) AND NOT 0xfff;
                     pde_addr = pd_base + (drop_bit 21 vaddr AND 0x1ff) * 8
                 in and_then (next_level B mmu m pde_addr ctx PdeLong) (\<lambda>pde m.
                    let eff_user = (eff_user \<and> pde AND PTE_US \<noteq> 0);
                        eff_writable = (eff_writable \<and> pde AND PTE_RW \<noteq> 0);
                        eff_nx = (eff_nx \<or> nxe \<and> pde AND PTE_NX \<noteq> 0)
                    in if pde AND PTE_PS \<noteq> 0 then
                         leaf64 B mmu m Size2M pde_addr pde eff_user eff_writable eff_nx ctx
                       else
                         let pt_base = (pde AND addr_mask) AND NOT 0xfff;
                             pte_addr = pt_base + (drop_bit 12 vaddr AND 0x1ff) * 8
                         in and_then (next_level B mmu m pte_addr ctx PteLong) (\<lambda>pte m.
                              let eff_user = (eff_user \<and> pte AND PTE_US \<noteq> 0);
                                  eff_writable = (eff_writable \<and> pte AND PTE_RW \<noteq> 0);
                                  eff_nx = (eff_nx \<or> nxe \<and> pte AND PTE_NX \<noteq> 0);
                                  (pte, eff_writable, m) =
                                    cow_upgrade B cow m ctx eff_writable (pte_addr, pte)
                                      (pml4e_addr, pml4e) (pdpte_addr, pdpte) (pde_addr, pde)
                              in leaf64 B mmu m Size4K pte_addr pte eff_user eff_writable eff_nx ctx)))))"

definition walk_long4_probe ::
  "'m page_bus \<Rightarrow> Mmu \<Rightarrow> 'm \<Rightarrow> EntryAccessContext \<Rightarrow> (PageFault + u64) \<times> 'm" where
  "walk_long4_probe B mmu m ctx =
     (let vaddr = ctx_vaddr ctx;
          nxe = nx_enabled mmu;
          addr_mask = phys_addr_mask mmu;
          pml4_base = (cr3 mmu AND addr_mask) AND NOT 0xfff;
          pml4e_addr = pml4_base + (drop_bit 39 vaddr AND 0x1ff) * 8
      in and_then (next_level_probe B mmu m pml4e_addr ctx Pml4e) (\<lambda>pml4e m.
         let eff_user = (pml4e AND PTE_US \<noteq> 0);
             eff_writable = (pml4e AND PTE_RW \<noteq> 0);
             eff_nx = (nxe \<and> pml4e AND PTE_NX \<noteq> 0);
             pdpt_base = (pml4e AND addr_mask) AND NOT 0xfff;
             pdpte_addr = pdpt_base + (drop_bit 30 vaddr AND 0x1ff) * 8
         in and_then (next_level_probe B mmu m pdpte_addr ctx PdpteLong) (\<lambda>pdpte m.
            let eff_user = (eff_user \<and> pdpte AND PTE_US \<noteq> 0);
                eff_writable = (eff_writable \<and> pdpte AND PTE_RW \<noteq> 0);
                eff_nx = (eff_nx \<or> nxe \<and> pdpte AND PTE_NX \<noteq> 0)
            in if pdpte AND PTE_PS \<noteq> 0 then
                 leaf64_probe mmu m Size1G pdpte eff_user eff_writable eff_nx ctx
               else
                 let pd_base = (pdpte AND addr_mask) AND NOT 0xfff;
                     pde_addr = pd_base + (drop_bit 21 vaddr AND 0x1ff) * 8
                 in and_then (next_level_probe B mmu m pde_addr ctx PdeLong) (\<lambda>pde m.
                    let eff_user = (eff_user \<and> pde AND PTE_US \<noteq> 0);
                        eff_writable = (eff_writable \<and> pde AND PTE_RW \<noteq> 0);
                        eff_nx = (eff_nx \<or> nxe \<and> pde AND PTE_NX \<noteq> 0)
                    in if pde AND PTE_PS \<noteq> 0 then
                         leaf64_probe mmu m Size2M pde eff_user eff_writable eff_nx ctx
                       else
                         let pt_base = (pde AND addr_mask) AND NOT 0xfff;
                             pte_addr = pt_base + (drop_bit 12 vaddr AND 0x1ff) * 8
                         in and_then (next_level_probe B mmu m pte_addr ctx PteLong) (\<lambda>pte m.
                              leaf64_probe mmu m Size4K pte
                                (eff_user \<and> pte AND PTE_US \<noteq> 0) (eff_writable \<and> pte AND PTE_RW \<noteq> 0)
                                (eff_nx \<or> nxe \<and> pte AND PTE_NX \<noteq> 0) ctx)))))"

section \<open>Translation\<close>

text \<open>The first lines of \<^verbatim>\<open>translate\<close>: the linear address of the mode, or an early return.\<close>

definition linear_address :: "Mmu \<Rightarrow> u64 \<Rightarrow> (TranslateFault + u64) + u64" where
  "linear_address mmu vaddr =
     (case mode mmu of
        Disabled \<Rightarrow> Inl (Inr (vaddr AND 0xffffffff))
      | Legacy32 \<Rightarrow> Inr (ucast (ucast vaddr :: u32))
      | Pae \<Rightarrow> Inr (ucast (ucast vaddr :: u32))
      | Long4 \<Rightarrow> if is_canonical_48 vaddr then Inr vaddr else Inl (Inl (NonCanonical vaddr)))"

text \<open>The walk of the mode; \<^verbatim>\<open>Disabled\<close> is unreachable here.\<close>

definition page_walk ::
  "'m page_bus \<Rightarrow> bool \<Rightarrow> Mmu \<Rightarrow> 'm \<Rightarrow> EntryAccessContext \<Rightarrow> (PageFault + TlbEntry \<times> u64) \<times> 'm" where
  "page_walk B cow mmu m ctx =
     (case mode mmu of
        Legacy32 \<Rightarrow> walk_legacy32 B mmu m ctx
      | Pae \<Rightarrow> walk_pae B mmu m ctx
      | _ \<Rightarrow> walk_long4 B cow mmu m ctx)"

definition page_walk_probe ::
  "'m page_bus \<Rightarrow> Mmu \<Rightarrow> 'm \<Rightarrow> EntryAccessContext \<Rightarrow> (PageFault + u64) \<times> 'm" where
  "page_walk_probe B mmu m ctx =
     (case mode mmu of
        Legacy32 \<Rightarrow> walk_legacy32_probe B mmu m ctx
      | Pae \<Rightarrow> walk_pae_probe B mmu m ctx
      | _ \<Rightarrow> walk_long4_probe B mmu m ctx)"

text \<open>The miss path: walk, then fill the TLB or record the fault address in CR2.\<close>

definition translate_walk ::
  "'m page_bus \<Rightarrow> bool \<Rightarrow> Mmu \<Rightarrow> 'm \<Rightarrow> EntryAccessContext \<Rightarrow> (TranslateFault + u64) \<times> Mmu \<times> 'm" where
  "translate_walk B cow mmu m ctx =
     (case page_walk B cow mmu m ctx of
        (Inr (entry, paddr), m) \<Rightarrow>
          (Inr paddr, mmu\<lparr>tlb := Tlb_insert (tlb mmu) (is_execute (ctx_access ctx)) entry\<rparr>, m)
      | (Inl pf, m) \<Rightarrow> (Inl (PageFaultAt pf), mmu\<lparr>cr2 := pf_addr pf\<rparr>, m))"

definition perm_fault :: "u64 \<Rightarrow> AccessType \<Rightarrow> bool \<Rightarrow> PageFault" where
  "perm_fault vaddr access is_user = PageFault_new vaddr (pf_error_code True access is_user False)"

text \<open>The lazily set dirty bit of a write hit.\<close>

definition write_dirty :: "'m page_bus \<Rightarrow> 'm \<Rightarrow> TlbEntry \<Rightarrow> 'm" where
  "write_dirty B m entry =
     (if leaf_is_64 entry then
        let (val, m) = bus_read_u64 B m (leaf_addr entry) in bus_write_u64 B m (leaf_addr entry) (val OR PTE_D)
      else
        let (val, m) = bus_read_u32 B m (leaf_addr entry)
        in bus_write_u32 B m (leaf_addr entry) (val OR ucast PTE_D))"

definition need_rewalk :: "Mmu \<Rightarrow> TlbEntry \<Rightarrow> bool \<Rightarrow> bool" where
  "need_rewalk mmu entry is_user =
     (if is_user then \<not> user entry \<or> \<not> writable entry else \<not> writable entry \<and> wp_enabled mmu)"

definition translate ::
  "'m page_bus \<Rightarrow> bool \<Rightarrow> Mmu \<Rightarrow> 'm \<Rightarrow> u64 \<Rightarrow> AccessType \<Rightarrow> u8 \<Rightarrow> (TranslateFault + u64) \<times> Mmu \<times> 'm" where
  "translate B cow mmu m va access cpl =
     (let is_user = (cpl = 3)
      in case linear_address mmu va of
           Inl early \<Rightarrow> (early, mmu, m)
         | Inr vaddr \<Rightarrow>
             let ctx = \<lparr> ctx_vaddr = vaddr, ctx_access = access, ctx_user = is_user \<rparr>;
                 fault = (let pf = perm_fault vaddr access is_user
                          in (Inl (PageFaultAt pf), mmu\<lparr>cr2 := pf_addr pf\<rparr>, m))
             in case Tlb_lookup (tlb mmu) vaddr (is_execute access) (pcid mmu) (pcid_enabled mmu)
                       (tlb_page_sizes mmu) of
                  None \<Rightarrow> translate_walk B cow mmu m ctx
                | Some hit \<Rightarrow>
                    let entry = hit_entry hit
                    in (case access of
                          Read \<Rightarrow>
                            if is_user \<and> \<not> user entry then fault
                            else (Inr (translate_entry entry vaddr), mmu, m)
                        | Execute \<Rightarrow>
                            if is_user \<and> \<not> user entry then fault
                            else if nx entry then fault
                            else (Inr (translate_entry entry vaddr), mmu, m)
                        | Write \<Rightarrow>
                            if need_rewalk mmu entry is_user then
                              translate_walk B cow
                                (mmu\<lparr>tlb := Tlb_invalidate_address_all (tlb mmu) vaddr\<rparr>) m ctx
                            else if \<not> dirty entry then
                              (Inr (translate_entry entry vaddr),
                               mmu\<lparr>tlb := set_dirty_slot (tlb mmu) (unat (hit_set hit)) (unat (hit_way hit))\<rparr>,
                               write_dirty B m entry)
                            else (Inr (translate_entry entry vaddr), mmu, m)))"

definition translate_probe ::
  "'m page_bus \<Rightarrow> Mmu \<Rightarrow> 'm \<Rightarrow> u64 \<Rightarrow> AccessType \<Rightarrow> u8 \<Rightarrow> (TranslateFault + u64) \<times> 'm" where
  "translate_probe B mmu m va access cpl =
     (let is_user = (cpl = 3)
      in case linear_address mmu va of
           Inl early \<Rightarrow> (early, m)
         | Inr vaddr \<Rightarrow>
             let ctx = \<lparr> ctx_vaddr = vaddr, ctx_access = access, ctx_user = is_user \<rparr>;
                 fault = (Inl (PageFaultAt (perm_fault vaddr access is_user)), m)
             in case Tlb_lookup (tlb mmu) vaddr (is_execute access) (pcid mmu) (pcid_enabled mmu)
                       (tlb_page_sizes mmu) of
                  None \<Rightarrow>
                    (case page_walk_probe B mmu m ctx of
                       (Inl pf, m) \<Rightarrow> (Inl (PageFaultAt pf), m)
                     | (Inr paddr, m) \<Rightarrow> (Inr paddr, m))
                | Some hit \<Rightarrow>
                    let entry = hit_entry hit
                    in (case access of
                          Read \<Rightarrow>
                            if is_user \<and> \<not> user entry then fault
                            else (Inr (translate_entry entry vaddr), m)
                        | Execute \<Rightarrow>
                            if is_user \<and> \<not> user entry then fault
                            else if nx entry then fault
                            else (Inr (translate_entry entry vaddr), m)
                        | Write \<Rightarrow>
                            if need_rewalk mmu entry is_user then fault
                            else (Inr (translate_entry entry vaddr), m)))"

section \<open>Single bits of entries and registers\<close>

lemma pte_bits [flag_simps]:
  "x AND PTE_P = 0 \<longleftrightarrow> \<not> bit x 0" "x AND PTE_RW = 0 \<longleftrightarrow> \<not> bit x 1" "x AND PTE_US = 0 \<longleftrightarrow> \<not> bit x 2"
  "x AND PTE_A = 0 \<longleftrightarrow> \<not> bit x 5" "x AND PTE_D = 0 \<longleftrightarrow> \<not> bit x 6" "x AND PTE_PS = 0 \<longleftrightarrow> \<not> bit x 7"
  "x AND PTE_G = 0 \<longleftrightarrow> \<not> bit x 8" "x AND PTE_NX = 0 \<longleftrightarrow> \<not> bit x 63"
  unfolding pte_defs by (rule flag_clear_iff)+

lemma cr_bits [flag_simps]:
  "x AND CR0_WP = 0 \<longleftrightarrow> \<not> bit x 16" "x AND CR0_PG = 0 \<longleftrightarrow> \<not> bit x 31" "x AND CR4_PSE = 0 \<longleftrightarrow> \<not> bit x 4"
  "x AND CR4_PAE = 0 \<longleftrightarrow> \<not> bit x 5" "x AND CR4_PGE = 0 \<longleftrightarrow> \<not> bit x 7" "x AND CR4_PCIDE = 0 \<longleftrightarrow> \<not> bit x 17"
  "x AND EFER_LME = 0 \<longleftrightarrow> \<not> bit x 8" "x AND EFER_NXE = 0 \<longleftrightarrow> \<not> bit x 11"
  unfolding cr_defs by (rule flag_clear_iff)+

lemma or_pte_bits [simp]:
  "bit (x OR PTE_A) n \<longleftrightarrow> bit x n \<or> n = 5" "bit (x OR PTE_D) n \<longleftrightarrow> bit x n \<or> n = 6"
  "bit (x OR PTE_RW) n \<longleftrightarrow> bit x n \<or> n = 1"
  unfolding pte_defs bit_or_iff bit_flag by auto

lemma pf_error_code_bits:
  "bit (pf_error_code p a u r) n \<longleftrightarrow>
     n = 0 \<and> p \<or> n = 1 \<and> is_write a \<or> n = 2 \<and> u \<or> n = 3 \<and> r \<or> n = 4 \<and> is_execute a"
  unfolding pf_error_code_def Let_def if_distrib [of "\<lambda>x. bit x n"] bit_or_iff bit_flag by auto

section \<open>What a walk returns\<close>

text \<open>The access is allowed by the permissions of the entry.\<close>

definition permits :: "Mmu \<Rightarrow> TlbEntry \<Rightarrow> EntryAccessContext \<Rightarrow> bool" where
  "permits mmu e ctx \<longleftrightarrow>
     (ctx_user ctx \<longrightarrow> user e) \<and>
     (is_write (ctx_access ctx) \<longrightarrow> writable e \<or> \<not> ctx_user ctx \<and> \<not> wp_enabled mmu) \<and>
     (is_execute (ctx_access ctx) \<longrightarrow> \<not> nx e)"

text \<open>The entry is one that the current paging mode can produce.\<close>

fun mode_sizes :: "PagingMode \<Rightarrow> PageSize set" where
  "mode_sizes Disabled = {}"
| "mode_sizes Legacy32 = {Size4K, Size4M}"
| "mode_sizes Pae = {Size4K, Size2M}"
| "mode_sizes Long4 = {Size4K, Size2M, Size1G}"

definition entry_of_mode :: "Mmu \<Rightarrow> TlbEntry \<Rightarrow> bool" where
  "entry_of_mode mmu e \<longleftrightarrow>
     page_size e \<in> mode_sizes (mode mmu) \<and> (page_size e = Size4M \<longrightarrow> cr4_pse mmu) \<and>
     (leaf_is_64 e \<longleftrightarrow> mode mmu \<noteq> Legacy32) \<and> (global e \<longrightarrow> cr4_pge mmu) \<and>
     (nx e \<longrightarrow> nx_enabled mmu) \<and> (\<not> pcid_enabled mmu \<longrightarrow> e_pcid e = 0)"

text \<open>The entry translates the address of the access to \<open>pa\<close> and allows it.\<close>

definition translates :: "Mmu \<Rightarrow> EntryAccessContext \<Rightarrow> TlbEntry \<Rightarrow> u64 \<Rightarrow> bool" where
  "translates mmu ctx e pa \<longleftrightarrow>
     valid e \<and> aligned_entry e \<and> covers e (ctx_vaddr ctx) \<and> translate_entry e (ctx_vaddr ctx) = pa \<and>
     permits mmu e ctx"

definition walk_result :: "Mmu \<Rightarrow> EntryAccessContext \<Rightarrow> TlbEntry \<Rightarrow> u64 \<Rightarrow> bool" where
  "walk_result mmu ctx e pa \<longleftrightarrow>
     translates mmu ctx e pa \<and> e_pcid e = pcid mmu \<and> (global e \<longrightarrow> cr4_pge mmu) \<and>
     (is_write (ctx_access ctx) \<longrightarrow> dirty e)"

text \<open>A fault names the address and carries the error code of the access.\<close>

definition walk_fault :: "EntryAccessContext \<Rightarrow> PageFault \<Rightarrow> bool" where
  "walk_fault ctx pf \<longleftrightarrow>
     (\<exists>p r. pf = PageFault_new (ctx_vaddr ctx) (pf_error_code p (ctx_access ctx) (ctx_user ctx) r) \<and> (r \<longrightarrow> p))"

text \<open>
  Both outcomes of a walk step at once, with the rules that follow its structure: a step passes
  when the fault it may raise satisfies \<open>F\<close> and the value it may return satisfies \<open>Q\<close>.
\<close>

definition outcome :: "('e \<Rightarrow> 'm \<Rightarrow> bool) \<Rightarrow> ('a \<Rightarrow> 'm \<Rightarrow> bool) \<Rightarrow> ('e + 'a) \<times> 'm \<Rightarrow> bool" where
  "outcome F Q r \<longleftrightarrow> (case r of (Inl e, m) \<Rightarrow> F e m | (Inr x, m) \<Rightarrow> Q x m)"

lemma outcome_simps [simp]: "outcome F Q (Inl e, m) \<longleftrightarrow> F e m" "outcome F Q (Inr x, m) \<longleftrightarrow> Q x m"
  by (simp_all add: outcome_def)

lemma outcome_and_then:
  "outcome F R r \<Longrightarrow> (\<And>x m. R x m \<Longrightarrow> outcome F Q (f x m)) \<Longrightarrow> outcome F Q (and_then r f)"
  by (cases r rule: prod.exhaust; cases "fst r") (auto simp: and_then_def)

lemma outcome_if: "(c \<Longrightarrow> outcome F Q a) \<Longrightarrow> (\<not> c \<Longrightarrow> outcome F Q b) \<Longrightarrow> outcome F Q (if c then a else b)"
  by simp

lemma outcome_prod: "(\<And>a b. p = (a, b) \<Longrightarrow> outcome F Q (f a b)) \<Longrightarrow> outcome F Q (case p of (a, b) \<Rightarrow> f a b)"
  by (cases p) simp

lemma outcome_option:
  "(p = None \<Longrightarrow> outcome F Q a) \<Longrightarrow> (\<And>x. p = Some x \<Longrightarrow> outcome F Q (f x)) \<Longrightarrow>
     outcome F Q (case p of None \<Rightarrow> a | Some x \<Rightarrow> f x)"
  by (cases p) simp_all

lemmas outcome_rules = outcome_if outcome_prod outcome_option

lemma check_perms_outcome:
  "outcome (\<lambda>pf _. pf = PageFault_new v (pf_error_code True a us False))
     (\<lambda>_ _. (us \<longrightarrow> u) \<and> (is_write a \<longrightarrow> w \<or> \<not> us \<and> \<not> wp_enabled mmu) \<and> (is_execute a \<longrightarrow> \<not> n))
     (check_perms mmu v u w n a us, m)"
  by (auto simp: check_perms_def)

lemma outcome_mono:
  "outcome F Q r \<Longrightarrow> (\<And>e m. F e m \<Longrightarrow> F' e m) \<Longrightarrow> (\<And>x m. Q x m \<Longrightarrow> Q' x m) \<Longrightarrow> outcome F' Q' r"
  by (auto simp: outcome_def split: prod.splits sum.splits)

lemma perm_walk_fault:
  "walk_fault ctx (PageFault_new (ctx_vaddr ctx) (pf_error_code True (ctx_access ctx) (ctx_user ctx) False))"
  by (auto simp: walk_fault_def)

lemma leaf64_outcome:
  "outcome (\<lambda>pf _. walk_fault ctx pf)
     (\<lambda>(e, pa) _. walk_result mmu ctx e pa \<and> page_size e = ps \<and> leaf_is_64 e \<and> nx e = n)
     (leaf64 B mmu m ps a entry u w n ctx)"
  unfolding leaf64_def Let_def
  by (rule outcome_and_then, rule outcome_mono [OF check_perms_outcome])
    (auto simp: walk_result_def translates_def permits_def covers_def base_of_def perm_walk_fault
      aligned_entry_def translate_entry_def pte_bits bytes_minus_1)

lemma leaf32_outcome:
  "outcome (\<lambda>pf _. walk_fault ctx pf)
     (\<lambda>(e, pa) _. walk_result mmu ctx e pa \<and> page_size e = ps \<and> \<not> leaf_is_64 e \<and> \<not> nx e)
     (leaf32 B mmu m ps a entry u w ctx)"
  unfolding leaf32_def Let_def
  by (rule outcome_and_then, rule outcome_mono [OF check_perms_outcome])
    (auto simp: walk_result_def translates_def permits_def covers_def base_of_def perm_walk_fault
      aligned_entry_def translate_entry_def pte_bits bytes_minus_1)

lemma plain_faults:
  "walk_fault ctx (page_fault_rsvd (ctx_vaddr ctx) (ctx_access ctx) (ctx_user ctx))"
  "walk_fault ctx (page_fault_not_present (ctx_vaddr ctx) (ctx_access ctx) (ctx_user ctx))"
  by (auto simp: walk_fault_def page_fault_rsvd_def page_fault_not_present_def)

lemma next_level_outcome:
  "outcome (\<lambda>pf _. walk_fault ctx pf) (\<lambda>_ _. True) (next_level B mmu m a ctx k)"
  by (auto simp: next_level_def check_entry64_def Let_def and_then_def plain_faults split: prod.split)

lemma outcome_next_level:
  "(\<And>x m. outcome (\<lambda>pf _. walk_fault ctx pf) Q (f x m)) \<Longrightarrow>
     outcome (\<lambda>pf _. walk_fault ctx pf) Q (and_then (next_level B mmu m a ctx k) f)"
  by (rule outcome_and_then [OF next_level_outcome])

lemmas walk_rules = outcome_next_level outcome_rules

lemma walk_long4_outcome:
  "outcome (\<lambda>pf _. walk_fault ctx pf)
     (\<lambda>(e, pa) _. walk_result mmu ctx e pa \<and> page_size e \<in> mode_sizes Long4 \<and> leaf_is_64 e \<and>
        (nx e \<longrightarrow> nx_enabled mmu)) (walk_long4 B cow mmu m ctx)"
  unfolding walk_long4_def Let_def
  by (intro walk_rules; rule outcome_mono [OF leaf64_outcome]; auto)

lemma walk_pae_outcome:
  "outcome (\<lambda>pf _. walk_fault ctx pf)
     (\<lambda>(e, pa) _. walk_result mmu ctx e pa \<and> page_size e \<in> mode_sizes Pae \<and> leaf_is_64 e \<and>
        (nx e \<longrightarrow> nx_enabled mmu)) (walk_pae B mmu m ctx)"
  unfolding walk_pae_def Let_def
  by (intro walk_rules; rule outcome_mono [OF leaf64_outcome]; auto)

lemma walk_legacy32_outcome:
  "outcome (\<lambda>pf _. walk_fault ctx pf)
     (\<lambda>(e, pa) _. walk_result mmu ctx e pa \<and> page_size e \<in> mode_sizes Legacy32 \<and> \<not> leaf_is_64 e \<and> \<not> nx e \<and>
        (page_size e = Size4M \<longrightarrow> cr4_pse mmu)) (walk_legacy32 B mmu m ctx)"
  unfolding walk_legacy32_def Let_def
  by (intro outcome_rules; (simp add: plain_faults; fail)?; rule outcome_mono [OF leaf32_outcome]; auto)

lemma page_walk_outcome:
  assumes "mode mmu \<noteq> Disabled" "\<not> pcid_enabled mmu \<Longrightarrow> pcid mmu = 0"
  shows "outcome (\<lambda>pf _. walk_fault ctx pf)
     (\<lambda>(e, pa) _. walk_result mmu ctx e pa \<and> entry_of_mode mmu e) (page_walk B cow mmu m ctx)"
  using assms
  by (cases "mode mmu")
    (auto simp: page_walk_def entry_of_mode_def walk_result_def
      intro: outcome_mono [OF walk_legacy32_outcome] outcome_mono [OF walk_pae_outcome] outcome_mono [OF walk_long4_outcome])

section \<open>The entries a TLB holds\<close>

definition live :: "Tlb \<Rightarrow> TlbEntry set" where
  "live t = {slot (bank t x) s w |x s w. s < SETS \<and> w < WAYS \<and> valid (slot (bank t x) s w)}"

lemma live_new: "live Tlb_new = {}"
  by (auto simp: live_def bank_def Tlb_new_def slot_new)

lemma live_flush_all: "tlb_wf t \<Longrightarrow> live (Tlb_flush_all t) = {}"
  by (auto simp: live_def slot_flush Let_def)

lemma live_invalidate:
  assumes "tlb_wf t"
  shows "live (Tlb_invalidate_address_all t v) \<subseteq> live t"
    and "live (Tlb_invalidate_address_pcid t v pc ig) \<subseteq> live t"
  using assms
  by (fastforce simp: live_def slot_invalidate_all slot_invalidate_pcid Let_def split: if_splits)+

lemma live_flush:
  assumes "tlb_wf t"
  shows "live (Tlb_flush_non_global t) \<subseteq> live t" "live (Tlb_flush_pcid t pc ig) \<subseteq> live t"
  using assms by (fastforce simp: live_def slot_flush Let_def split: if_splits)+

lemma live_cr3: "tlb_wf t \<Longrightarrow> live (on_cr3_write t pge en pc nf) \<subseteq> live t"
  using live_flush live_flush_all by (auto simp: on_cr3_write_def split: if_splits)

lemma live_invpcid: "tlb_wf t \<Longrightarrow> live (Tlb_invpcid t pc k) \<subseteq> live t"
  using live_flush live_flush_all live_invalidate by (cases k) auto

lemma live_insert: "tlb_wf t \<Longrightarrow> live (Tlb_insert t x e) \<subseteq> insert e (live t)"
  by (fastforce simp: live_def tlb_wf_def bank_def Tlb_insert_def slot_insert split: if_splits)

lemma live_set_dirty: "tlb_wf t \<Longrightarrow> s < SETS \<Longrightarrow> w < WAYS \<Longrightarrow> live (set_dirty_slot t s w) \<subseteq> live t \<union> set_dirty ` live t"
  by (fastforce simp: live_def tlb_wf_def bank_def set_dirty_slot_def set_dirty_hit_def slot_set_slot image_iff split: if_splits)

lemma lookup_live:
  assumes "tlb_wf t" "Tlb_lookup t v x pc en szs = Some h"
  shows "hit_entry h \<in> live t" "matching en pc v szs (hit_entry h)" "unat (hit_set h) < SETS" "unat (hit_way h) < WAYS"
  using hit_slot [OF bank_wf_bank [OF assms(1)], of x v pc en szs h] assms(2)
  by (auto simp: Tlb_lookup_bank live_def matching_def matches_pcid_iff)

section \<open>The invariant of the MMU\<close>

text \<open>
  The cached mode, page sizes and PCID are those of the control registers, the physical width is
  in range, and every cached translation is one that the current paging mode, page-global, NX
  and PCID settings can produce.
\<close>

definition mmu_wf :: "Mmu \<Rightarrow> bool" where
  "mmu_wf mmu \<longleftrightarrow> tlb_wf (tlb mmu) \<and> update_cached_state mmu = mmu \<and>
     1 \<le> max_phys_bits mmu \<and> max_phys_bits mmu \<le> 52 \<and> (\<forall>e \<in> live (tlb mmu). entry_of_mode mmu e)"

lemma update_cached_idem [simp]: "update_cached_state (update_cached_state mmu) = update_cached_state mmu"
  by (simp add: update_cached_state_def Let_def)

lemma update_cached_fields [simp]:
  "cr0 (update_cached_state mmu) = cr0 mmu" "cr2 (update_cached_state mmu) = cr2 mmu"
  "cr3 (update_cached_state mmu) = cr3 mmu" "cr4 (update_cached_state mmu) = cr4 mmu"
  "efer (update_cached_state mmu) = efer mmu" "tlb (update_cached_state mmu) = tlb mmu"
  "max_phys_bits (update_cached_state mmu) = max_phys_bits mmu"
  by (simp_all add: update_cached_state_def Let_def)

lemma update_cached_tlb: "update_cached_state (mmu\<lparr>tlb := t\<rparr>) = (update_cached_state mmu)\<lparr>tlb := t\<rparr>"
  "update_cached_state (mmu\<lparr>cr2 := a\<rparr>) = (update_cached_state mmu)\<lparr>cr2 := a\<rparr>"
  "update_cached_state (mmu\<lparr>max_phys_bits := b\<rparr>) = (update_cached_state mmu)\<lparr>max_phys_bits := b\<rparr>"
  by (simp_all add: update_cached_state_def Let_def)

lemma entry_of_mode_tlb [simp]:
  "entry_of_mode (mmu\<lparr>tlb := t\<rparr>) e = entry_of_mode mmu e"
  "entry_of_mode (mmu\<lparr>cr2 := a\<rparr>) e = entry_of_mode mmu e"
  "entry_of_mode (mmu\<lparr>max_phys_bits := b\<rparr>) e = entry_of_mode mmu e"
  by (simp_all add: entry_of_mode_def cr4_pse_def cr4_pge_def nx_enabled_def)

lemma mmu_wf_tlb:
  assumes "mmu_wf mmu" "tlb_wf t" "\<And>e. e \<in> live t \<Longrightarrow> entry_of_mode mmu e"
  shows "mmu_wf (mmu\<lparr>tlb := t\<rparr>)"
  using assms by (simp add: mmu_wf_def update_cached_tlb)

lemma mmu_wf_shrink:
  "mmu_wf mmu \<Longrightarrow> tlb_wf t \<Longrightarrow> live t \<subseteq> live (tlb mmu) \<Longrightarrow> mmu_wf (mmu\<lparr>tlb := t\<rparr>)"
  by (rule mmu_wf_tlb) (auto simp: mmu_wf_def)

lemma mmu_wf_tlb_wf: "mmu_wf mmu \<Longrightarrow> tlb_wf (tlb mmu)"
  by (simp add: mmu_wf_def)

lemma mmu_wf_cr2: "mmu_wf mmu \<Longrightarrow> mmu_wf (mmu\<lparr>cr2 := a\<rparr>)"
  by (simp add: mmu_wf_def update_cached_tlb)

text \<open>What an entry has to fit: equal settings accept equal entries.\<close>

definition same_settings :: "Mmu \<Rightarrow> Mmu \<Rightarrow> bool" where
  "same_settings a b \<longleftrightarrow> mode a = mode b \<and> cr4_pse a = cr4_pse b \<and> cr4_pge a = cr4_pge b \<and>
     nx_enabled a = nx_enabled b \<and> pcid_enabled a = pcid_enabled b"

lemma entry_of_mode_cong: "same_settings a b \<Longrightarrow> entry_of_mode a e = entry_of_mode b e"
  by (simp add: same_settings_def entry_of_mode_def)

lemma mmu_wf_new [wf_intros]: "mmu_wf Mmu_new"
  by (simp add: mmu_wf_def Mmu_new_def tlb_wf_new live_new)

lemma flag_and_eq:
  "a AND f = b AND f \<Longrightarrow> f AND push_bit n 1 \<noteq> 0 \<Longrightarrow> bit a n = bit b n" for a b f :: u64
  by (metis bit_and_iff flag_clear_iff)

lemma mmu_wf_set_cr0 [wf_intros]:
  assumes "mmu_wf mmu"
  shows "mmu_wf (set_cr0 mmu v)"
proof (cases "bit (cr0 mmu) 31 = bit v 31")
  case True
  then have "same_settings (update_cached_state (mmu\<lparr>cr0 := v\<rparr>)) (update_cached_state mmu)"
    by (simp add: same_settings_def update_cached_state_def Let_def cr4_pse_def cr4_pge_def nx_enabled_def flag_simps)
  then show ?thesis using True assms entry_of_mode_cong
    by (auto simp: set_cr0_def mmu_wf_def flag_simps)
next
  case False
  then show ?thesis using assms
    by (auto simp: set_cr0_def mmu_wf_def flag_simps update_cached_tlb live_flush_all tlb_wf_flush)
qed

lemma mmu_wf_set_cr3 [wf_intros]:
  assumes "mmu_wf mmu"
  shows "mmu_wf (set_cr3 mmu v)"
proof -
  let ?mmu = "update_cached_state (mmu\<lparr>cr3 := v\<rparr>)"
  have "same_settings ?mmu (update_cached_state mmu)"
    by (simp add: same_settings_def update_cached_state_def Let_def cr4_pse_def cr4_pge_def nx_enabled_def)
  then have "mmu_wf ?mmu" using assms entry_of_mode_cong by (auto simp: mmu_wf_def)
  then show ?thesis
    unfolding set_cr3_def Let_def by (intro mmu_wf_shrink tlb_wf_cr3 live_cr3 mmu_wf_tlb_wf)
qed

lemma mmu_wf_set_cr4 [wf_intros]:
  assumes "mmu_wf mmu"
  shows "mmu_wf (set_cr4 mmu v)"
proof (cases "cr4 mmu AND CR4_RELEVANT = v AND CR4_RELEVANT")
  case True
  have "bit (cr4 mmu) n = bit v n" if "n \<in> {4, 5, 7, 17}" for n
    using that by (intro flag_and_eq [OF True]) (auto simp: CR4_RELEVANT_def cr_defs)
  then have "same_settings (update_cached_state (mmu\<lparr>cr4 := v\<rparr>)) (update_cached_state mmu)"
    by (simp add: same_settings_def update_cached_state_def Let_def cr4_pse_def cr4_pge_def nx_enabled_def flag_simps)
  then show ?thesis using True assms entry_of_mode_cong
    by (auto simp: set_cr4_def mmu_wf_def)
next
  case False
  then show ?thesis using assms
    by (auto simp: set_cr4_def mmu_wf_def update_cached_tlb live_flush_all tlb_wf_flush)
qed

lemma mmu_wf_set_efer [wf_intros]:
  assumes "mmu_wf mmu"
  shows "mmu_wf (set_efer mmu v)"
proof (cases "efer mmu AND (EFER_LME OR EFER_NXE) = v AND (EFER_LME OR EFER_NXE)")
  case True
  have "bit (efer mmu) n = bit v n" if "n \<in> {8, 11}" for n
    using that by (intro flag_and_eq [OF True]) (auto simp: cr_defs)
  then have "same_settings (update_cached_state (mmu\<lparr>efer := v\<rparr>)) (update_cached_state mmu)"
    by (simp add: same_settings_def update_cached_state_def Let_def cr4_pse_def cr4_pge_def nx_enabled_def flag_simps)
  then show ?thesis using True assms entry_of_mode_cong
    by (auto simp: set_efer_def mmu_wf_def)
next
  case False
  then show ?thesis using assms
    by (auto simp: set_efer_def mmu_wf_def update_cached_tlb live_flush_all tlb_wf_flush)
qed

lemma mmu_wf_set_max_phys_bits [wf_intros]:
  "mmu_wf mmu \<Longrightarrow> set_max_phys_bits mmu b = Some mmu' \<Longrightarrow> mmu_wf mmu'"
  by (auto simp: set_max_phys_bits_def mmu_wf_def update_cached_tlb live_flush_all tlb_wf_flush split: if_splits)

lemma mmu_wf_invlpg [wf_intros]: "mmu_wf mmu \<Longrightarrow> mmu_wf (invlpg mmu v)"
  by (simp add: invlpg_def mmu_wf_shrink tlb_wf_invalidate live_invalidate mmu_wf_tlb_wf)

lemma mmu_wf_invpcid [wf_intros]: "mmu_wf mmu \<Longrightarrow> mmu_wf (Mmu_invpcid mmu pc k)"
  by (simp add: Mmu_invpcid_def mmu_wf_shrink tlb_wf_invpcid live_invpcid mmu_wf_tlb_wf)

lemma mmu_wf_pcid: "mmu_wf mmu \<Longrightarrow> \<not> pcid_enabled mmu \<Longrightarrow> pcid mmu = 0"
proof -
  have "\<not> pcid_enabled (update_cached_state mmu) \<Longrightarrow> pcid (update_cached_state mmu) = 0"
    by (simp add: update_cached_state_def Let_def)
  then show "mmu_wf mmu \<Longrightarrow> \<not> pcid_enabled mmu \<Longrightarrow> pcid mmu = 0"
    by (simp add: mmu_wf_def)
qed

lemma permits_tlb [simp]: "permits (mmu\<lparr>tlb := t\<rparr>) e ctx = permits mmu e ctx"
  by (simp add: permits_def wp_enabled_def)

lemma translate_walk_outcome:
  assumes wf: "mmu_wf mmu" and md: "mode mmu \<noteq> Disabled"
  shows "case translate_walk B cow mmu m ctx of
      (Inr pa, mmu', m') \<Rightarrow> mmu_wf mmu' \<and>
         (\<exists>e. walk_result mmu ctx e pa \<and> mmu' = mmu\<lparr>tlb := Tlb_insert (tlb mmu) (is_execute (ctx_access ctx)) e\<rparr>)
    | (Inl f, mmu', m') \<Rightarrow> mmu_wf mmu' \<and>
         (\<exists>pf. f = PageFaultAt pf \<and> walk_fault ctx pf \<and> mmu' = mmu\<lparr>cr2 := pf_addr pf\<rparr>)"
proof -
  have out: "outcome (\<lambda>pf _. walk_fault ctx pf)
      (\<lambda>(e, pa) _. walk_result mmu ctx e pa \<and> entry_of_mode mmu e) (page_walk B cow mmu m ctx)"
    using mmu_wf_pcid [OF wf] md by (intro page_walk_outcome)
  have ins: "mmu_wf (mmu\<lparr>tlb := Tlb_insert (tlb mmu) x e\<rparr>)"
    if "walk_result mmu ctx e pa" "entry_of_mode mmu e" for e pa x
  proof (rule mmu_wf_tlb [OF wf])
    show "tlb_wf (Tlb_insert (tlb mmu) x e)"
      using wf that by (intro tlb_wf_insert) (auto simp: mmu_wf_def walk_result_def translates_def)
    show "entry_of_mode mmu e'" if "e' \<in> live (Tlb_insert (tlb mmu) x e)" for e'
      using that live_insert [OF mmu_wf_tlb_wf [OF wf], of x e] \<open>entry_of_mode mmu e\<close> wf by (auto simp: mmu_wf_def)
  qed
  show ?thesis
    using out ins wf
    by (auto simp: translate_walk_def outcome_def mmu_wf_cr2 split: prod.splits sum.splits)
qed

lemma translate_walk_wf:
  assumes "mmu_wf mmu" "mode mmu \<noteq> Disabled" "translate_walk B cow mmu m ctx = (r, mmu', m')"
  shows "mmu_wf mmu'"
  using translate_walk_outcome [OF assms(1,2), where B = B and cow = cow and m = m and ctx = ctx] assms(3)
  by (cases r) auto

lemma live_aligned: "tlb_wf t \<Longrightarrow> e \<in> live t \<Longrightarrow> valid e \<and> aligned_entry e"
  by (auto simp: live_def aligned_entry_def placed_def dest: wf_placed [OF bank_wf_bank])

lemma linear_address_Inl:
  "linear_address mmu va = Inl early \<Longrightarrow>
     mode mmu = Disabled \<and> early = Inr (va AND 0xffffffff) \<or>
     mode mmu = Long4 \<and> \<not> is_canonical_48 va \<and> early = Inl (NonCanonical va)"
  by (auto simp: linear_address_def split: PagingMode.splits if_splits)

lemma linear_address_mode: "linear_address mmu va = Inr v \<Longrightarrow> mode mmu \<noteq> Disabled"
  by (auto simp: linear_address_def)

abbreviation access_ctx :: "u64 \<Rightarrow> AccessType \<Rightarrow> u8 \<Rightarrow> EntryAccessContext" where
  "access_ctx v access cpl \<equiv> \<lparr> ctx_vaddr = v, ctx_access = access, ctx_user = (cpl = 3) \<rparr>"

text \<open>The four ways in which a translation of a linear address ends.\<close>

lemma translate_cases:
  fixes access :: AccessType and cpl :: u8
  assumes "mmu_wf mmu" "linear_address mmu va = Inr v"
  defines "ctx \<equiv> access_ctx v access cpl"
  defines "pf \<equiv> perm_fault v access (cpl = 3)"
  shows "(\<exists>h. Tlb_lookup (tlb mmu) v (is_execute access) (pcid mmu) (pcid_enabled mmu) (tlb_page_sizes mmu) = Some h \<and>
      (permits mmu (hit_entry h) ctx \<and>
         fst (translate B cow mmu m va access cpl) = Inr (translate_entry (hit_entry h) v) \<and>
         (snd (translate B cow mmu m va access cpl) = (mmu, m) \<and> (is_write access \<longrightarrow> dirty (hit_entry h)) \<or>
          is_write access \<and> \<not> dirty (hit_entry h) \<and>
          snd (translate B cow mmu m va access cpl) =
            (mmu\<lparr>tlb := set_dirty_slot (tlb mmu) (unat (hit_set h)) (unat (hit_way h))\<rparr>, write_dirty B m (hit_entry h))) \<or>
       \<not> permits mmu (hit_entry h) ctx \<and> \<not> is_write access \<and>
         translate B cow mmu m va access cpl = (Inl (PageFaultAt pf), mmu\<lparr>cr2 := v\<rparr>, m) \<or>
       \<not> permits mmu (hit_entry h) ctx \<and> is_write access \<and>
         translate B cow mmu m va access cpl =
           translate_walk B cow (mmu\<lparr>tlb := Tlb_invalidate_address_all (tlb mmu) v\<rparr>) m ctx)) \<or>
    Tlb_lookup (tlb mmu) v (is_execute access) (pcid mmu) (pcid_enabled mmu) (tlb_page_sizes mmu) = None \<and>
      translate B cow mmu m va access cpl = translate_walk B cow mmu m ctx"
  using assms(2) unfolding translate_def ctx_def pf_def Let_def
  by (cases access)
    (auto simp: permits_def need_rewalk_def perm_fault_def PageFault_new_def split: option.split)

lemma translate_wf [wf_intros]:
  assumes wf: "mmu_wf mmu" and t: "translate B cow mmu m va access cpl = (r, mmu', m')"
  shows "mmu_wf mmu'"
proof (cases "linear_address mmu va")
  case (Inl early)
  then show ?thesis using t wf by (simp add: translate_def)
next
  case (Inr v)
  note md = linear_address_mode [OF Inr]
  let ?ctx = "access_ctx v access cpl" and ?inv = "mmu\<lparr>tlb := Tlb_invalidate_address_all (tlb mmu) v\<rparr>"
  have tw: "tlb_wf (tlb mmu)" using wf by (rule mmu_wf_tlb_wf)
  have inv: "mmu_wf ?inv" by (intro mmu_wf_shrink tlb_wf_invalidate live_invalidate tw wf)
  have dirty: "mmu_wf (mmu\<lparr>tlb := set_dirty_slot (tlb mmu) (unat (hit_set h)) (unat (hit_way h))\<rparr>)"
    if h: "Tlb_lookup (tlb mmu) v x (pcid mmu) (pcid_enabled mmu) (tlb_page_sizes mmu) = Some h" for h x
  proof (rule mmu_wf_tlb [OF wf])
    note hl = lookup_live [OF tw h]
    show "tlb_wf (set_dirty_slot (tlb mmu) (unat (hit_set h)) (unat (hit_way h)))"
      using tw hl by (intro tlb_wf_set_dirty)
    show "entry_of_mode mmu e" if "e \<in> live (set_dirty_slot (tlb mmu) (unat (hit_set h)) (unat (hit_way h)))" for e
      using that live_set_dirty [OF tw hl(3,4)] wf by (auto simp: mmu_wf_def entry_of_mode_def)
  qed
  show ?thesis
    using translate_cases [OF wf Inr, of access cpl B cow m] t dirty mmu_wf_cr2 [OF wf] wf md
      translate_walk_wf [OF wf md, of B cow m ?ctx r mmu' m'] translate_walk_wf [OF inv, of B cow m ?ctx r mmu' m']
    by auto
qed

section \<open>Canonical addresses\<close>

lemma and_mid_mask: "x AND 0x1fffe = 0 \<longleftrightarrow> unat x div 2 mod 2 ^ 16 = 0" for x :: u64
proof -
  have m: "(0x1fffe :: u64) = push_bit 1 (mask 16)" by (simp add: mask_eq_exp_minus_1)
  have "x AND 0x1fffe = 0 \<longleftrightarrow> drop_bit 1 x AND mask 16 = 0"
  proof -
    have "x AND push_bit 1 (mask 16) = push_bit 1 (drop_bit 1 x AND mask 16)"
      by (rule bit_word_eqI)
        (auto simp only: bit_and_iff bit_push_bit_iff bit_drop_bit_eq bit_mask_iff o_def possible_bit_word le_add_diff_inverse)
    moreover have "drop_bit 1 (push_bit 1 (drop_bit 1 x AND mask 16)) = drop_bit 1 x AND mask 16"
      by (rule bit_word_eqI)
        (auto simp only: bit_and_iff bit_push_bit_iff bit_drop_bit_eq bit_mask_iff o_def possible_bit_word add_diff_cancel_left' le_add1
          dest: bit_imp_le_length)
    ultimately show ?thesis unfolding m by (metis drop_bit_of_0 push_bit_of_0)
  qed
  also have "\<dots> \<longleftrightarrow> unat x div 2 mod 2 ^ 16 = 0"
    unfolding unat_eq_zero [symmetric] unat_and_mask unat_drop_bit by simp
  finally show ?thesis .
qed

lemma canonical_top: "is_canonical_48 v \<longleftrightarrow> drop_bit 47 v = 0 \<or> drop_bit 47 v = mask 17"
proof -
  define n where "n = unat (drop_bit 47 v)"
  have t: "n < 131072"
    using unat_less [of v] by (simp add: n_def unat_drop_bit less_mult_imp_div_less)
  then have s: "unat (drop_bit 47 v + 1) = n + 1" by (subst unat_inc) (auto simp: n_def)
  have "is_canonical_48 v \<longleftrightarrow> (n + 1) div 2 mod 2 ^ 16 = 0"
    unfolding is_canonical_48_def and_mid_mask s ..
  also have "\<dots> \<longleftrightarrow> n = 0 \<or> n = 131071"
  proof
    assume "(n + 1) div 2 mod 2 ^ 16 = 0"
    then obtain k where k: "(n + 1) div 2 = 65536 * k" by (auto simp: mod_eq_0_iff_dvd elim: dvdE)
    then have "k \<le> 1" using t by linarith
    then show "n = 0 \<or> n = 131071" using k t by (cases k) auto
  qed auto
  also have "\<dots> \<longleftrightarrow> drop_bit 47 v = 0 \<or> drop_bit 47 v = mask 17"
    unfolding n_def word_unat_eq_iff [of "drop_bit 47 v"] by (simp add: mask_eq_exp_minus_1)
  finally show ?thesis .
qed

lemma canonical_bits: "is_canonical_48 v \<longleftrightarrow> (\<forall>i. 47 \<le> i \<and> i < 64 \<longrightarrow> bit v i = bit v 47)"
proof -
  have top: "bit (drop_bit 47 v) j \<longleftrightarrow> bit v (47 + j)" for j by (simp add: bit_simps)
  have hi: "(\<forall>i. 47 \<le> i \<and> i < 64 \<longrightarrow> P i) \<longleftrightarrow> (\<forall>j < 17. P (47 + j))" for P :: "nat \<Rightarrow> bool"
  proof
    assume r: "\<forall>j < 17. P (47 + j)"
    show "\<forall>i. 47 \<le> i \<and> i < 64 \<longrightarrow> P i"
    proof (intro allI impI)
      fix i :: nat assume "47 \<le> i \<and> i < 64"
      then have "i - 47 < 17" "47 + (i - 47) = i" by auto
      then show "P i" using r by metis
    qed
  qed auto
  have out: "\<not> bit v (47 + j)" if "\<not> j < 17" for j
    using that bit_imp_le_length [of v "47 + j"] by auto
  have "drop_bit 47 v = 0 \<longleftrightarrow> (\<forall>j < 17. \<not> bit v (47 + j))"
    using out by (auto simp: bit_eq_iff top)
  moreover have "drop_bit 47 v = mask 17 \<longleftrightarrow> (\<forall>j < 17. bit v (47 + j))"
    using out by (auto simp: bit_eq_iff top bit_mask_iff)
  moreover have "(\<forall>j < 17. bit v (47 + j) = bit v 47) \<longleftrightarrow>
      (\<forall>j < 17. \<not> bit v (47 + j)) \<or> (\<forall>j < 17. bit v (47 + j))"
    by (metis add_0_right zero_less_numeral)
  ultimately show ?thesis unfolding canonical_top hi by blast
qed

section \<open>Reachable MMU states\<close>

inductive mmu_reachable :: "'m page_bus \<Rightarrow> Mmu \<Rightarrow> bool" for B where
  new: "mmu_reachable B Mmu_new"
| cr0: "mmu_reachable B mmu \<Longrightarrow> mmu_reachable B (set_cr0 mmu v)"
| cr3: "mmu_reachable B mmu \<Longrightarrow> mmu_reachable B (set_cr3 mmu v)"
| cr4: "mmu_reachable B mmu \<Longrightarrow> mmu_reachable B (set_cr4 mmu v)"
| efer: "mmu_reachable B mmu \<Longrightarrow> mmu_reachable B (set_efer mmu v)"
| bits: "mmu_reachable B mmu \<Longrightarrow> set_max_phys_bits mmu n = Some mmu' \<Longrightarrow> mmu_reachable B mmu'"
| invlpg: "mmu_reachable B mmu \<Longrightarrow> mmu_reachable B (invlpg mmu v)"
| invpcid: "mmu_reachable B mmu \<Longrightarrow> mmu_reachable B (Mmu_invpcid mmu pc k)"
| translate: "mmu_reachable B mmu \<Longrightarrow> translate B cow mmu m va access cpl = (r, mmu', m') \<Longrightarrow>
    mmu_reachable B mmu'"

lemma reachable_mmu_wf: "mmu_reachable B mmu \<Longrightarrow> mmu_wf mmu"
  by (induction rule: mmu_reachable.induct) (auto intro: wf_intros)

lemma live_insert_self: "tlb_wf t \<Longrightarrow> valid e \<Longrightarrow> e \<in> live (Tlb_insert t x e)"
proof -
  assume t: "tlb_wf t" and e: "valid e"
  have "slot (bank (Tlb_insert t x e) x) (set_index (drop_bit 12 (vbase e))) (insert_way (bank t x) e) = e"
    using t by (simp add: tlb_wf_def bank_def Tlb_insert_def slot_insert)
  then show ?thesis using e set_index_less insert_way_less unfolding live_def by (smt (verit) mem_Collect_eq)
qed

lemma live_set_dirty_self:
  assumes t: "tlb_wf t" and h: "Tlb_lookup t v False pc en szs = Some h"
  shows "set_dirty (hit_entry h) \<in> live (set_dirty_slot t (unat (hit_set h)) (unat (hit_way h)))"
proof -
  let ?s = "unat (hit_set h)" and ?w = "unat (hit_way h)"
  note hs = hit_slot [OF bank_wf_bank [OF t], of False v pc en szs h] h
  have "slot (bank (set_dirty_slot t ?s ?w) False) ?s ?w = set_dirty (hit_entry h)"
    using t hs by (simp add: tlb_wf_def bank_def set_dirty_slot_def set_dirty_hit_def slot_set_slot Tlb_lookup_bank)
  moreover have "valid (set_dirty (hit_entry h))" "?s < SETS" "?w < WAYS"
    using hs by (auto simp: Tlb_lookup_bank matching_def matches_pcid_iff)
  ultimately show ?thesis unfolding live_def by (smt (verit) mem_Collect_eq)
qed

section \<open>Successful and failed translations\<close>

lemma translate_success:
  assumes wf: "mmu_wf mmu" and lin: "linear_address mmu va = Inr v"
    and t: "translate B cow mmu m va access cpl = (Inr pa, mmu', m')"
  shows "\<exists>e. translates mmu (access_ctx v access cpl) e pa \<and> e \<in> live (tlb mmu') \<and>
    (is_write access \<longrightarrow> dirty e)"
proof -
  let ?ctx = "access_ctx v access cpl" and ?inv = "mmu\<lparr>tlb := Tlb_invalidate_address_all (tlb mmu) v\<rparr>"
  have tw: "tlb_wf (tlb mmu)" using wf by (rule mmu_wf_tlb_wf)
  have md: "mode mmu \<noteq> Disabled" using linear_address_mode [OF lin] .
  have inv: "mmu_wf ?inv" by (intro mmu_wf_shrink tlb_wf_invalidate live_invalidate tw wf)
  have walk: ?thesis if "mmu_wf mmu1" "mode mmu1 \<noteq> Disabled" "\<And>e. permits mmu1 e ?ctx = permits mmu e ?ctx"
    "translate_walk B cow mmu1 m ?ctx = (Inr pa, mmu', m')" for mmu1
    using translate_walk_outcome [OF that(1,2), where B = B and cow = cow and m = m and ctx = ?ctx] that
      live_insert_self [OF mmu_wf_tlb_wf [OF that(1)]]
    by (auto simp: walk_result_def translates_def)
  have hit: ?thesis
    if h: "Tlb_lookup (tlb mmu) v (is_execute access) (pcid mmu) (pcid_enabled mmu) (tlb_page_sizes mmu) = Some h"
      and p: "permits mmu (hit_entry h) ?ctx" "pa = translate_entry (hit_entry h) v"
      and s: "mmu' = mmu \<and> (is_write access \<longrightarrow> dirty (hit_entry h)) \<or>
        is_write access \<and> mmu' = mmu\<lparr>tlb := set_dirty_slot (tlb mmu) (unat (hit_set h)) (unat (hit_way h))\<rparr>" for h
  proof -
    note l = lookup_live [OF tw h]
    have e: "translates mmu ?ctx (hit_entry h) pa"
      using live_aligned [OF tw l(1)] l(2) p by (auto simp: translates_def matching_def)
    show ?thesis
    proof (cases "mmu' = mmu \<and> (is_write access \<longrightarrow> dirty (hit_entry h))")
      case True
      then show ?thesis using e l(1) by blast
    next
      case False
      then have w: "is_write access" "mmu' = mmu\<lparr>tlb := set_dirty_slot (tlb mmu) (unat (hit_set h)) (unat (hit_way h))\<rparr>"
        using s by auto
      then have "\<not> is_execute access" by (cases access) auto
      then have "set_dirty (hit_entry h) \<in> live (tlb mmu')"
        using live_set_dirty_self [OF tw] h w(2) by simp
      moreover have "translates mmu ?ctx (set_dirty (hit_entry h)) pa"
        using e unfolding translates_def permits_def aligned_entry_def covers_def set_dirty_simps .
      ultimately show ?thesis by auto
    qed
  qed
  show ?thesis
    using translate_cases [OF wf lin, of access cpl B cow m] t walk [OF wf md refl] walk [OF inv _ permits_tlb] md hit
    by auto
qed

lemma translate_failure:
  assumes wf: "mmu_wf mmu" and lin: "linear_address mmu va = Inr v"
    and t: "translate B cow mmu m va access cpl = (Inl f, mmu', m')"
  shows "\<exists>pf. f = PageFaultAt pf \<and> walk_fault (access_ctx v access cpl) pf \<and> cr2 mmu' = pf_addr pf"
proof -
  let ?ctx = "access_ctx v access cpl" and ?inv = "mmu\<lparr>tlb := Tlb_invalidate_address_all (tlb mmu) v\<rparr>"
  have tw: "tlb_wf (tlb mmu)" using wf by (rule mmu_wf_tlb_wf)
  have md: "mode mmu \<noteq> Disabled" using linear_address_mode [OF lin] .
  have inv: "mmu_wf ?inv" by (intro mmu_wf_shrink tlb_wf_invalidate live_invalidate tw wf)
  have walk: ?thesis if "mmu_wf mmu1" "mode mmu1 \<noteq> Disabled"
    "translate_walk B cow mmu1 m ?ctx = (Inl f, mmu', m')" for mmu1
    using translate_walk_outcome [OF that(1,2), where B = B and cow = cow and m = m and ctx = ?ctx] that by auto
  have "walk_fault ?ctx (perm_fault v access (cpl = 3))" "pf_addr (perm_fault v access (cpl = 3)) = v"
    by (auto simp: walk_fault_def perm_fault_def PageFault_new_def)
  then show ?thesis
    using translate_cases [OF wf lin, of access cpl B cow m] t walk [OF wf md] walk [OF inv] md by auto
qed

section \<open>Properties of translation\<close>

text \<open>
  A memory of page-table cells and an MMU in 32-bit paging with one 4 MiB page, used to exhibit
  the hypotheses below.
\<close>

definition cell_bus :: "(u64 \<Rightarrow> u64) page_bus" where
  "cell_bus = \<lparr> bus_read_u32 = (\<lambda>m a. (ucast (m a), m)), bus_read_u64 = (\<lambda>m a. (m a, m)),
     bus_write_u32 = (\<lambda>m a v. m(a := ucast v)), bus_write_u64 = (\<lambda>m a v. m(a := v)) \<rparr>"

definition sample_cells :: "u64 \<Rightarrow> u64" where
  "sample_cells = (\<lambda>a. if a = 0x1004 then 0x00800087 else 0)"

definition sample_mmu :: Mmu where
  "sample_mmu = \<lparr> cr0 = 0x80010000, cr2 = 0, cr3 = 0x1000, cr4 = 0x10, efer = 0, mode = Legacy32,
     max_phys_bits = 52, tlb_page_sizes = Size4MAnd4K, pcid_enabled = False, pcid = 0, tlb = Tlb_new \<rparr>"

lemma sample_mmu_wf: "mmu_wf sample_mmu"
  by (simp add: mmu_wf_def sample_mmu_def tlb_wf_new live_new update_cached_state_def cr_defs Let_def)

lemma sample_translate:
  "fst (translate cell_bus False sample_mmu sample_cells 0x401234 Write 3) = Inr 0x801234"
  "fst (translate cell_bus False sample_mmu sample_cells 0x801234 Write 3) =
     Inl (PageFaultAt \<lparr> pf_addr = 0x801234, error_code = 6 \<rparr>)"
  by (simp_all add: translate_def linear_address_def sample_mmu_def Tlb_lookup_new translate_walk_def page_walk_def
      walk_legacy32_def cell_bus_def sample_cells_def pte_defs cr_defs cr4_pse_def LEGACY32_4MB_RESERVED_MASK_def
      check_entry32_def leaf32_def and_then_def check_perms_def leaf_base32_def page_fault_not_present_def
      PageFault_new_def pf_error_code_def)

text \<open>
  (C4) The TLB never holds a translation of another paging mode. In every MMU state reachable by
  register writes, invalidations and translations over any bus, the cached mode, page sizes and
  PCID are those of the control registers, both TLB banks are well-formed, and every valid entry
  has a page size and entry width of the current mode, is global only with CR4.PGE, is no-execute
  only with EFER.NXE and has PCID 0 without CR4.PCIDE.
\<close>

theorem mmu_reachable_invariant:
  assumes "mmu_reachable B mmu"
  shows "update_cached_state mmu = mmu \<and> tlb_wf (tlb mmu) \<and>
    1 \<le> max_phys_bits mmu \<and> max_phys_bits mmu \<le> 52 \<and> (\<forall>e \<in> live (tlb mmu). entry_of_mode mmu e)"
  using reachable_mmu_wf [OF assms] by (simp add: mmu_wf_def)

theorem mmu_reachable_invariant_witness:
  "mmu_reachable cell_bus (fst (snd (translate cell_bus False (set_cr0 (set_cr4 Mmu_new 0x10) 0x80010000)
     sample_cells 0x401234 Write 3))) \<and>
   tlb_wf (tlb (fst (snd (translate cell_bus False (set_cr0 (set_cr4 Mmu_new 0x10) 0x80010000)
     sample_cells 0x401234 Write 3))))"
    (is "mmu_reachable _ ?mmu \<and> _")
proof -
  obtain r mmu m where t: "translate cell_bus False (set_cr0 (set_cr4 Mmu_new 0x10) 0x80010000)
      sample_cells 0x401234 Write 3 = (r, mmu, m)" by (metis prod_cases3)
  have "mmu_reachable cell_bus (set_cr0 (set_cr4 Mmu_new 0x10) 0x80010000)"
    by (intro mmu_reachable.intros)
  then have "mmu_reachable cell_bus ?mmu" using t mmu_reachable.translate by fastforce
  then show ?thesis using mmu_reachable_invariant by blast
qed

text \<open>
  (C3) Every successful translation is authorised. With paging off the address is truncated to
  32 bits; otherwise there is a TLB entry, cached after the call, that covers the linear address,
  maps it to the returned physical address and permits the access (user bit, write permission
  under CR0.WP, no-execute), with its dirty flag set when the access is a write.
\<close>

theorem translate_authorised:
  assumes "mmu_wf mmu" and "translate B cow mmu m va access cpl = (Inr pa, mmu', m')"
  shows "(mode mmu = Disabled \<and> pa = va AND 0xffffffff \<and> mmu' = mmu \<and> m' = m) \<or>
    (\<exists>v e. linear_address mmu va = Inr v \<and> e \<in> live (tlb mmu') \<and> aligned_entry e \<and> covers e v \<and>
       translate_entry e v = pa \<and> permits mmu e (access_ctx v access cpl) \<and> (is_write access \<longrightarrow> dirty e))"
proof (cases "linear_address mmu va")
  case (Inl early)
  then show ?thesis using assms(2) linear_address_Inl [OF Inl] by (auto simp: translate_def)
next
  case (Inr v)
  then show ?thesis
    using translate_success [OF assms(1) Inr assms(2)] by (auto simp: translates_def)
qed

theorem translate_authorised_witness:
  "mmu_wf sample_mmu \<and> (\<exists>mmu' m'. translate cell_bus False sample_mmu sample_cells 0x401234 Write 3 = (Inr 0x801234, mmu', m') \<and>
     (\<exists>e \<in> live (tlb mmu'). user e \<and> writable e \<and> dirty e \<and> translate_entry e 0x401234 = 0x801234))"
proof -
  obtain mmu' m' where t: "translate cell_bus False sample_mmu sample_cells 0x401234 Write 3 = (Inr 0x801234, mmu', m')"
    using sample_translate(1) by (metis prod.collapse)
  have "linear_address sample_mmu 0x401234 = Inr 0x401234" by (simp add: linear_address_def sample_mmu_def)
  then show ?thesis
    using translate_authorised [OF sample_mmu_wf t] t sample_mmu_wf
    by (auto simp: permits_def sample_mmu_def)
qed

text \<open>
  (C8) Faults. A failed translation is either the non-canonical address of long mode, with the MMU
  and the memory unchanged, or a page fault for the linear address: CR2 holds that address and the
  error code has the write, user and fetch bits of the access, the reserved bit only together with
  the present bit, and no other bit.
\<close>

theorem translate_faults:
  assumes "mmu_wf mmu" and "translate B cow mmu m va access cpl = (Inl f, mmu', m')"
  shows "(f = NonCanonical va \<and> mode mmu = Long4 \<and> \<not> is_canonical_48 va \<and> mmu' = mmu \<and> m' = m) \<or>
    (\<exists>v pf. linear_address mmu va = Inr v \<and> f = PageFaultAt pf \<and> pf_addr pf = v \<and> cr2 mmu' = v \<and>
       (bit (error_code pf) 1 \<longleftrightarrow> access = Write) \<and> (bit (error_code pf) 2 \<longleftrightarrow> cpl = 3) \<and>
       (bit (error_code pf) 4 \<longleftrightarrow> access = Execute) \<and> (bit (error_code pf) 3 \<longrightarrow> bit (error_code pf) 0) \<and>
       (\<forall>n. bit (error_code pf) n \<longrightarrow> n < 5))"
proof (cases "linear_address mmu va")
  case (Inl early)
  then show ?thesis using assms(2) linear_address_Inl [OF Inl] by (auto simp: translate_def)
next
  case (Inr v)
  obtain p r where "f = PageFaultAt (PageFault_new v (pf_error_code p access (cpl = 3) r))" "r \<longrightarrow> p" "cr2 mmu' = v"
    using translate_failure [OF assms(1) Inr assms(2)] by (auto simp: walk_fault_def PageFault_new_def)
  then show ?thesis using Inr
    by (cases access) (auto simp: PageFault_new_def pf_error_code_bits)
qed

theorem translate_faults_witness:
  "mmu_wf sample_mmu \<and> (\<exists>mmu' m'. translate cell_bus False sample_mmu sample_cells 0x801234 Write 3 =
     (Inl (PageFaultAt \<lparr> pf_addr = 0x801234, error_code = 6 \<rparr>), mmu', m') \<and> cr2 mmu' = 0x801234)"
proof -
  obtain mmu' m' where t: "translate cell_bus False sample_mmu sample_cells 0x801234 Write 3 =
      (Inl (PageFaultAt \<lparr> pf_addr = 0x801234, error_code = 6 \<rparr>), mmu', m')"
    using sample_translate(2) by (metis prod.collapse)
  then show ?thesis using translate_faults [OF sample_mmu_wf t] sample_mmu_wf by auto
qed

text \<open>
  The branch-free test of \<^verbatim>\<open>is_canonical_48\<close> accepts exactly the addresses whose bits 48 to 63
  are copies of bit 47.
\<close>

theorem canonical_is_sign_extension:
  "is_canonical_48 v = (\<forall>i. 47 \<le> i \<and> i < 64 \<longrightarrow> bit v i = bit v 47)"
  by (rule canonical_bits)

theorem canonical_is_sign_extension_witness:
  "is_canonical_48 0xffff800000000000 \<and> \<not> is_canonical_48 0x800000000000"
  using canonical_is_sign_extension [of "0xffff800000000000"] canonical_is_sign_extension [of "0x800000000000"]
  by (simp add: is_canonical_48_def)

end
