(* ===== verification/PageWalk.thy ===== *)
theory PageWalk
  imports Mmu
begin

text \<open>
  The walkers of \<^verbatim>\<open>aero-mmu/src/lib.rs\<close> seen from the memory they walk. The locale
  \<open>page_table_bus\<close> states what they rely on of the bus; inside it, every walker is shown to do the
  same as its side-effect-free \<^verbatim>\<open>_probe\<close> variant, with the same fault or the same physical address,
  and to change the memory only by setting accessed and dirty bits. The locale is interpreted on
  the physical memory bus in theory \<open>PhysBus\<close>. The last section shows that a translation found by a
  walk is served by the TLB from then on.
\<close>

section \<open>Entries up to accessed and dirty bits\<close>

text \<open>\<open>y\<close> is \<open>x\<close> with some of the accessed and dirty bits set in addition.\<close>

definition ad_grow :: "'a::len word \<Rightarrow> 'a word \<Rightarrow> bool" where
  "ad_grow x y \<longleftrightarrow> (\<forall>n. bit x n \<longrightarrow> bit y n) \<and> (\<forall>n. bit y n \<longrightarrow> bit x n \<or> n = 5 \<or> n = 6)"

lemma ad_grow_refl [simp]: "ad_grow x x"
  by (simp add: ad_grow_def)

lemma ad_grow_trans: "ad_grow x y \<Longrightarrow> ad_grow y z \<Longrightarrow> ad_grow x z"
  by (auto simp: ad_grow_def)

lemma ad_grow_bit: "ad_grow x y \<Longrightarrow> n \<noteq> 5 \<Longrightarrow> n \<noteq> 6 \<Longrightarrow> bit y n = bit x n"
  by (auto simp: ad_grow_def)

lemma ad_grow_set [simp]: "ad_grow x y \<Longrightarrow> ad_grow x (y OR PTE_A)" "ad_grow x y \<Longrightarrow> ad_grow x (y OR PTE_D)"
  by (auto simp: ad_grow_def)

lemma ad_grow_mask:
  assumes "ad_grow x y" "\<not> bit k 5" "\<not> bit k 6"
  shows "y AND k = x AND k"
  using assms by (intro bit_word_eqI) (auto simp: bit_simps ad_grow_bit; metis ad_grow_bit)

lemma ad_grow_base:
  assumes "ad_grow x y"
  shows "(y AND k) AND NOT 0xfff = (x AND k) AND NOT 0xfff"
proof -
  have "\<not> bit (NOT 0xfff :: u64) 5" "\<not> bit (NOT 0xfff :: u64) 6" by simp_all
  then show ?thesis using ad_grow_mask [OF assms, of "k AND NOT 0xfff"] by (simp add: and.assoc bit_simps)
qed

lemma ad_grow_leaf:
  assumes "ad_grow x y"
  shows "leaf_base64 mmu ps y = leaf_base64 mmu ps x" "leaf_base32 ps y = leaf_base32 ps x"
proof -
  have "\<not> bit (NOT (bytes ps - 1)) 5" "\<not> bit (NOT (bytes ps - 1)) 6" by (cases ps; simp)+
  then have "y AND (phys_addr_mask mmu AND NOT (bytes ps - 1)) = x AND (phys_addr_mask mmu AND NOT (bytes ps - 1))"
    by (intro ad_grow_mask [OF assms]) (auto simp: bit_simps)
  then show "leaf_base64 mmu ps y = leaf_base64 mmu ps x" by (simp add: leaf_base64_def and.assoc)
  show "leaf_base32 ps y = leaf_base32 ps x"
    by (simp add: leaf_base32_def ad_grow_mask [OF assms])
qed

lemma ad_grow_flags:
  assumes "ad_grow x y"
  shows "y AND PTE_P = 0 \<longleftrightarrow> x AND PTE_P = 0" "y AND PTE_RW = 0 \<longleftrightarrow> x AND PTE_RW = 0"
    "y AND PTE_US = 0 \<longleftrightarrow> x AND PTE_US = 0" "y AND PTE_PS = 0 \<longleftrightarrow> x AND PTE_PS = 0"
    "y AND PTE_G = 0 \<longleftrightarrow> x AND PTE_G = 0" "y AND PTE_NX = 0 \<longleftrightarrow> x AND PTE_NX = 0"
  using assms by (simp_all add: pte_bits ad_grow_bit)

lemma ad_grow_reserved:
  assumes "ad_grow x y" "knd \<noteq> PdptePae"
  shows "has_reserved_bits64 mmu y knd = has_reserved_bits64 mmu x knd"
proof -
  define allowed where "allowed pa = (let a = (phys_addr_mask mmu AND NOT (pa - 1)) OR 0x1fff;
      a = (if knd \<noteq> PdptePae then a OR push_bit 52 0x7ff else a)
      in if nx_enabled mmu then a OR PTE_NX else a)" for pa
  have "bit (allowed pa) 5" "bit (allowed pa) 6" for pa
    by (auto simp: allowed_def Let_def bit_or_iff)
  then have "y AND NOT (allowed pa) = x AND NOT (allowed pa)" for pa
    by (intro ad_grow_mask [OF assms(1)]) (auto simp: bit_not_iff)
  then show ?thesis
    using assms(2) unfolding has_reserved_bits64_def ad_grow_flags [OF assms(1)] Let_def
    by (simp only: allowed_def Let_def if_False)
qed

section \<open>The bus interface of the walkers\<close>

definition aligned_to :: "nat \<Rightarrow> u64 \<Rightarrow> bool" where
  "aligned_to k a \<longleftrightarrow> a AND mask k = 0"

lemma aligned_to_take_bit: "aligned_to k a \<longleftrightarrow> take_bit k a = 0"
  by (simp add: aligned_to_def take_bit_eq_mask)

lemma aligned_to_unat: "aligned_to k a \<longleftrightarrow> unat a mod 2 ^ k = 0"
  unfolding aligned_to_def unat_eq_zero [symmetric] unat_and_mask ..

lemma aligned_to_add: "k \<le> 64 \<Longrightarrow> aligned_to k a \<Longrightarrow> aligned_to k b \<Longrightarrow> aligned_to k (a + b)"
  unfolding aligned_to_unat unat_word_ariths mod_eq_0_iff_dvd
  by (intro dvd_mod dvd_add) (simp_all only: le_imp_power_dvd len_num0 len_bit0 len_of_numeral_defs)

lemma aligned_to_mult: "aligned_to 3 (i * 8)" "aligned_to 2 (i * 4)"
  using take_bit_push_bit [of 3 3 i] take_bit_push_bit [of 2 2 i]
  unfolding aligned_to_take_bit push_bit_eq_mult by simp_all

lemma aligned_to_base: "k \<le> n \<Longrightarrow> aligned_to k (x AND NOT (mask n))"
  unfolding aligned_to_def by (rule bit_word_eqI) (auto simp: bit_simps)

lemma aligned_entries:
  "aligned_to 3 ((x AND NOT 0xfff) + i * 8)" "aligned_to 3 ((x AND NOT 0x1f) + i * 8)"
  "aligned_to 2 ((x AND NOT 0xfff) + i * 4)" "aligned_to 2 ((x AND 0xfffff000) + i * 4)"
proof -
  have m: "(0xfff :: u64) = mask 12" "(0x1f :: u64) = mask 5" by (simp_all add: mask_eq_exp_minus_1)
  show "aligned_to 3 ((x AND NOT 0xfff) + i * 8)" "aligned_to 3 ((x AND NOT 0x1f) + i * 8)"
    "aligned_to 2 ((x AND NOT 0xfff) + i * 4)"
    unfolding m by (intro aligned_to_add aligned_to_mult aligned_to_base; simp)+
  have "x AND 0xfffff000 = (x AND mask 32) AND NOT (mask 12)"
    by (rule bit_word_eqI) (simp add: mask_eq_exp_minus_1 and.assoc)
  then show "aligned_to 2 ((x AND 0xfffff000) + i * 4)"
    by (simp only:) (intro aligned_to_add aligned_to_mult aligned_to_base; simp)
qed

text \<open>
  What a walker relies on: reads have no effect; a write to an aligned cell leaves every other
  aligned cell alone and leaves in its own cell the value written or, where the address is not
  writable (ROM, open bus), what it held.
\<close>

locale page_table_bus =
  fixes B :: "'m page_bus" and ok :: "'m \<Rightarrow> bool"
  assumes read32_pure: "ok m \<Longrightarrow> snd (bus_read_u32 B m a) = m"
    and read64_pure: "ok m \<Longrightarrow> snd (bus_read_u64 B m a) = m"
    and write32_ok: "ok m \<Longrightarrow> ok (bus_write_u32 B m a v)"
    and write64_ok: "ok m \<Longrightarrow> ok (bus_write_u64 B m a w)"
    and read32_write32: "ok m \<Longrightarrow> aligned_to 2 a \<Longrightarrow> aligned_to 2 b \<Longrightarrow>
      fst (bus_read_u32 B (bus_write_u32 B m a v) b) \<in>
        (if b = a then {v, fst (bus_read_u32 B m a)} else {fst (bus_read_u32 B m b)})"
    and read64_write64: "ok m \<Longrightarrow> aligned_to 3 a \<Longrightarrow> aligned_to 3 b \<Longrightarrow>
      fst (bus_read_u64 B (bus_write_u64 B m a w) b) \<in>
        (if b = a then {w, fst (bus_read_u64 B m a)} else {fst (bus_read_u64 B m b)})"
begin

abbreviation cell32 :: "'m \<Rightarrow> u64 \<Rightarrow> u32" where "cell32 m a \<equiv> fst (bus_read_u32 B m a)"
abbreviation cell64 :: "'m \<Rightarrow> u64 \<Rightarrow> u64" where "cell64 m a \<equiv> fst (bus_read_u64 B m a)"

lemma read_eqs: "ok m \<Longrightarrow> bus_read_u32 B m a = (cell32 m a, m)" "ok m \<Longrightarrow> bus_read_u64 B m a = (cell64 m a, m)"
  by (metis read32_pure prod.collapse, metis read64_pure prod.collapse)

text \<open>The memory \<open>m1\<close> differs from \<open>m\<close> only by accessed and dirty bits that were set.\<close>

definition grown32 :: "'m \<Rightarrow> 'm \<Rightarrow> bool" where
  "grown32 m m1 \<longleftrightarrow> ok m1 \<and> (\<forall>b. aligned_to 2 b \<longrightarrow> ad_grow (cell32 m b) (cell32 m1 b))"

definition grown64 :: "'m \<Rightarrow> 'm \<Rightarrow> bool" where
  "grown64 m m1 \<longleftrightarrow> ok m1 \<and> (\<forall>b. aligned_to 3 b \<longrightarrow> ad_grow (cell64 m b) (cell64 m1 b))"

lemma grown_refl: "ok m \<Longrightarrow> grown32 m m" "ok m \<Longrightarrow> grown64 m m"
  by (simp_all add: grown32_def grown64_def)

lemma grown32_write:
  assumes "grown32 m m1" "aligned_to 2 a" "ad_grow (cell32 m a) v"
  shows "grown32 m (bus_write_u32 B m1 a v)"
proof -
  have "ad_grow (cell32 m b) (cell32 (bus_write_u32 B m1 a v) b)" if "aligned_to 2 b" for b
    using read32_write32 [of m1 a b v] assms that by (cases "b = a") (auto simp: grown32_def)
  then show ?thesis using assms(1) write32_ok by (simp add: grown32_def)
qed

lemma grown64_write:
  assumes "grown64 m m1" "aligned_to 3 a" "ad_grow (cell64 m a) v"
  shows "grown64 m (bus_write_u64 B m1 a v)"
proof -
  have "ad_grow (cell64 m b) (cell64 (bus_write_u64 B m1 a v) b)" if "aligned_to 3 b" for b
    using read64_write64 [of m1 a b v] assms that by (cases "b = a") (auto simp: grown64_def)
  then show ?thesis using assms(1) write64_ok by (simp add: grown64_def)
qed

text \<open>
  A step of a walk and the same step of the probe: the same fault, or related values; the probe
  leaves the memory \<open>m\<close> alone and the walk only grows it.
\<close>

definition sim :: "('m \<Rightarrow> bool) \<Rightarrow> 'm \<Rightarrow> ('a \<Rightarrow> 'b \<Rightarrow> bool) \<Rightarrow> ('e + 'a) \<times> 'm \<Rightarrow> ('e + 'b) \<times> 'm \<Rightarrow> bool" where
  "sim G m R r s \<longleftrightarrow> snd s = m \<and> G (snd r) \<and> (case (fst r, fst s) of
       (Inl e, Inl f) \<Rightarrow> e = f | (Inr x, Inr y) \<Rightarrow> R x y | _ \<Rightarrow> False)"

lemma sim_simps [simp]:
  "sim G m R (Inl e, m1) (Inl f, m2) \<longleftrightarrow> m2 = m \<and> G m1 \<and> e = f"
  "sim G m R (Inr x, m1) (Inr y, m2) \<longleftrightarrow> m2 = m \<and> G m1 \<and> R x y"
  "\<not> sim G m R (Inl e, m1) (Inr y, m2)" "\<not> sim G m R (Inr x, m1) (Inl f, m2)"
  by (auto simp: sim_def)

lemma sim_and_then:
  assumes "sim G m R r s" "\<And>x y m1. R x y \<Longrightarrow> G m1 \<Longrightarrow> sim G m S (f x m1) (g y m)"
  shows "sim G m S (and_then r f) (and_then s g)"
proof -
  obtain a m1 b m2 where rs: "r = (a, m1)" "s = (b, m2)" by (metis prod.collapse)
  show ?thesis using assms by (cases a; cases b) (auto simp: rs and_then_def)
qed

lemma next_level_sim:
  assumes G: "grown64 m m1" and ok: "ok m" and a: "aligned_to 3 a" and k: "knd \<noteq> PdptePae \<or> m1 = m"
  shows "sim (grown64 m) m (\<lambda>x y. ad_grow y x \<and> y = cell64 m a)
    (next_level B mmu m1 a ctx knd) (next_level_probe B mmu m a ctx knd)"
proof -
  have ok1: "ok m1" using G by (simp add: grown64_def)
  obtain c c1 where c: "bus_read_u64 B m a = (c, m)" "bus_read_u64 B m1 a = (c1, m1)"
    using read_eqs(2) [OF ok, of a] read_eqs(2) [OF ok1, of a] by metis
  have g: "ad_grow c c1" using G a c by (auto simp: grown64_def)
  have r: "has_reserved_bits64 mmu c1 knd = has_reserved_bits64 mmu c knd"
    using k c ad_grow_reserved [OF g] by auto
  have "grown64 m (bus_write_u64 B m1 a (c1 OR PTE_A))"
    using grown64_write [OF G a] g c by simp
  then show ?thesis
    by (simp add: next_level_def next_level_probe_def check_entry64_def check_entry64_probe_def Let_def
        and_then_def c G g r ad_grow_flags(1) [OF g])
qed

lemma leaf64_sim:
  assumes G: "grown64 m m1" and a: "aligned_to 3 a" and g: "ad_grow y x" "y = cell64 m a"
  shows "sim (grown64 m) m (\<lambda>(e, pa) pb. pa = pb)
    (leaf64 B mmu m1 ps a x u w n ctx) (leaf64_probe mmu m ps y u w n ctx)"
proof -
  have "grown64 m (bus_write_u64 B m1 a (x OR PTE_D))" using grown64_write [OF G a] g by simp
  then show ?thesis
    using G by (cases "check_perms mmu (ctx_vaddr ctx) u w n (ctx_access ctx) (ctx_user ctx)")
      (auto simp: leaf64_def leaf64_probe_def Let_def and_then_def ad_grow_leaf(1) [OF g(1)])
qed

lemma leaf32_sim:
  assumes G: "grown32 m m1" and a: "aligned_to 2 a" and g: "ad_grow y x" "ad_grow (cell32 m a) (ucast x)"
  shows "sim (grown32 m) m (\<lambda>(e, pa) pb. pa = pb)
    (leaf32 B mmu m1 ps a x u w ctx) (leaf32_probe mmu m ps y u w ctx)"
proof -
  have "ad_grow (cell32 m a) (ucast (x OR PTE_D))"
    using g(2) by (auto simp: ad_grow_def bit_unsigned_iff dest: bit_imp_le_length)
  then have "grown32 m (bus_write_u32 B m1 a (ucast (x OR PTE_D)))" using grown32_write [OF G a] by simp
  then show ?thesis
    using G by (cases "check_perms mmu (ctx_vaddr ctx) u w False (ctx_access ctx) (ctx_user ctx)")
      (auto simp: leaf32_def leaf32_probe_def Let_def and_then_def ad_grow_leaf(2) [OF g(1)])
qed

lemma check_entry32_sim:
  assumes G: "grown32 m m1" and a: "aligned_to 2 a"
  shows "case check_entry32_probe (ucast (cell32 m a)) of
      None \<Rightarrow> check_entry32 B m1 a (ucast (cell32 m1 a)) = (None, m1)
    | Some y \<Rightarrow> y = ucast (cell32 m a) \<and> (\<exists>x m2. check_entry32 B m1 a (ucast (cell32 m1 a)) = (Some x, m2) \<and>
        grown32 m m2 \<and> ad_grow y x \<and> ad_grow (cell32 m a) (ucast x))"
proof -
  have g: "ad_grow (cell32 m a) (cell32 m1 a)" using G a by (auto simp: grown32_def)
  have g': "ad_grow (ucast (cell32 m a)) (ucast (cell32 m1 a) :: u64)"
    using g by (auto simp: ad_grow_def bit_unsigned_iff dest: bit_imp_le_length)
  have u: "ad_grow (cell32 m a) (ucast (ucast (cell32 m1 a) OR PTE_A :: u64))"
    using g by (auto simp: ad_grow_def bit_unsigned_iff dest: bit_imp_le_length)
  have "ad_grow (cell32 m a) (ucast (ucast (cell32 m1 a) :: u64))"
    using g by (auto simp: ad_grow_def bit_unsigned_iff dest: bit_imp_le_length)
  then show ?thesis
    using G g' u grown32_write [OF G a u]
    unfolding check_entry32_probe_def check_entry32_def ad_grow_flags(1) [OF g'] Let_def
    by auto
qed

lemma sim_if: "c = c' \<Longrightarrow> (c' \<Longrightarrow> sim G m R a a') \<Longrightarrow> (\<not> c' \<Longrightarrow> sim G m R b b') \<Longrightarrow>
    sim G m R (if c then a else b) (if c' then a' else b')"
  by simp

lemma sim_next:
  assumes "grown64 m m1" "ok m" "aligned_to 3 a" "knd \<noteq> PdptePae \<or> m1 = m"
    and "\<And>x y m2. ad_grow y x \<Longrightarrow> y = cell64 m a \<Longrightarrow> grown64 m m2 \<Longrightarrow> sim (grown64 m) m S (f x m2) (g y m)"
  shows "sim (grown64 m) m S (and_then (next_level B mmu m1 a ctx knd) f)
    (and_then (next_level_probe B mmu m a ctx knd) g)"
  by (rule sim_and_then [OF next_level_sim [OF assms(1-4)]]) (auto intro: assms(5))

lemma walk_pae_sim:
  assumes ok: "ok m"
  shows "sim (grown64 m) m (\<lambda>(e, pa) pb. pa = pb) (walk_pae B mmu m ctx) (walk_pae_probe B mmu m ctx)"
  unfolding walk_pae_def walk_pae_probe_def Let_def
  apply (rule sim_next [OF grown_refl(2) [OF ok] ok aligned_entries(2)], simp)
  subgoal premises p for pdpte' pdpte m1
    unfolding ad_grow_base [OF p(1)] ad_grow_flags [OF p(1)]
    apply (rule sim_next [OF p(3) ok aligned_entries(1)], simp)
    subgoal premises q for pde' pde m2
      unfolding ad_grow_base [OF q(1)] ad_grow_flags [OF q(1)]
      apply (rule sim_if [OF refl leaf64_sim [OF q(3) aligned_entries(1) q(1,2)]])
      apply (rule sim_next [OF q(3) ok aligned_entries(1)], simp)
      subgoal premises r for pte' pte m3
        unfolding ad_grow_flags [OF r(2)] by (rule leaf64_sim [OF r(4) aligned_entries(1) r(2,3)])
      done
    done
  done

lemma cow_off: "cow_upgrade B False m ctx w (a, e) x y z = (e, w, m)"
  by (simp add: cow_upgrade_def)

lemma walk_long4_sim:
  assumes ok: "ok m"
  shows "sim (grown64 m) m (\<lambda>(e, pa) pb. pa = pb) (walk_long4 B False mmu m ctx) (walk_long4_probe B mmu m ctx)"
  unfolding walk_long4_def walk_long4_probe_def Let_def cow_off prod.case
  apply (rule sim_next [OF grown_refl(2) [OF ok] ok aligned_entries(1)], simp)
  subgoal premises p for pml4e' pml4e m1
    unfolding ad_grow_base [OF p(1)] ad_grow_flags [OF p(1)]
    apply (rule sim_next [OF p(3) ok aligned_entries(1)], simp)
    subgoal premises q for pdpte' pdpte m2
      unfolding ad_grow_base [OF q(1)] ad_grow_flags [OF q(1)]
      apply (rule sim_if [OF refl leaf64_sim [OF q(3) aligned_entries(1) q(1,2)]])
      apply (rule sim_next [OF q(3) ok aligned_entries(1)], simp)
      subgoal premises r for pde' pde m3
        unfolding ad_grow_base [OF r(2)] ad_grow_flags [OF r(2)]
        apply (rule sim_if [OF refl leaf64_sim [OF r(4) aligned_entries(1) r(2,3)]])
        apply (rule sim_next [OF r(4) ok aligned_entries(1)], simp)
        subgoal premises t for pte' pte m4
          unfolding ad_grow_flags [OF t(2)] by (rule leaf64_sim [OF t(4) aligned_entries(1) t(2,3)])
        done
      done
    done
  done

lemma walk_legacy32_sim:
  assumes ok: "ok m"
  shows "sim (grown32 m) m (\<lambda>(e, pa) pb. pa = pb) (walk_legacy32 B mmu m ctx) (walk_legacy32_probe B mmu m ctx)"
proof -
  define a where "a = ((cr3 mmu AND 0xffffffff) AND NOT 0xfff) + (drop_bit 22 (ctx_vaddr ctx) AND 0x3ff) * 4"
  obtain pd where pd: "bus_read_u32 B m a = (pd, m)" using read_eqs(1) [OF ok] by blast
  define pde :: u64 where "pde = ucast pd"
  define b where "b = (pde AND 0xfffff000) + (drop_bit 12 (ctx_vaddr ctx) AND 0x3ff) * 4"
  obtain pt where pt: "bus_read_u32 B m b = (pt, m)" using read_eqs(1) [OF ok] by blast
  have al: "aligned_to 2 a" "aligned_to 2 b" by (simp_all only: a_def b_def aligned_entries)
  note defs = walk_legacy32_def walk_legacy32_probe_def Let_def a_def [symmetric] pd prod.case pde_def [symmetric]
  show ?thesis
  proof (cases "pde AND PTE_P = 0 \<or> pde AND PTE_PS \<noteq> 0 \<and> (\<not> cr4_pse mmu \<or> pde AND LEGACY32_4MB_RESERVED_MASK \<noteq> 0)")
    case True
    then show ?thesis using grown_refl(1) [OF ok] unfolding defs by auto
  next
    case False
    then obtain x m1 where c: "check_entry32 B m a pde = (Some x, m1)"
      and g: "grown32 m m1" "ad_grow pde x" "ad_grow (cell32 m a) (ucast x)"
      using check_entry32_sim [OF grown_refl(1) [OF ok] al(1)]
      by (auto simp: check_entry32_probe_def pd simp flip: pde_def)
    have x: "x AND 0xfffff000 = pde AND 0xfffff000" by (rule ad_grow_mask [OF g(2)]) simp_all
    have ok1: "ok m1" using g(1) by (simp add: grown32_def)
    obtain pt1 where pt1: "bus_read_u32 B m1 b = (pt1, m1)" using read_eqs(1) [OF ok1] by blast
    have leaf: "sim (grown32 m) m (\<lambda>(e, pa) pb. pa = pb)
        (leaf32 B mmu m1 Size4M a x u w ctx) (leaf32_probe mmu m Size4M pde u w ctx)" for u w
      by (rule leaf32_sim [OF g(1) al(1) g(2,3)])
    show ?thesis
    proof (cases "check_entry32_probe (ucast pt)")
      case None
      then have "check_entry32 B m1 b (ucast pt1) = (None, m1)"
        using check_entry32_sim [OF g(1) al(2)] by (simp add: pt pt1)
      then show ?thesis
        using False leaf g(1) None unfolding defs c option.case ad_grow_flags [OF g(2)] x b_def [symmetric] pt pt1
        by auto
    next
      case (Some y)
      then obtain z m2 where z: "check_entry32 B m1 b (ucast pt1) = (Some z, m2)" "grown32 m m2" "ad_grow y z"
          "ad_grow (cell32 m b) (ucast z)"
        using check_entry32_sim [OF g(1) al(2)] by (auto simp: pt pt1)
      then show ?thesis
        using False leaf Some leaf32_sim [OF z(2) al(2) z(3,4)]
        unfolding defs c option.case ad_grow_flags [OF g(2)] x b_def [symmetric] pt pt1 z(1)
          ad_grow_flags [OF z(3)]
        by auto
    qed
  qed
qed

text \<open>All three walkers at once.\<close>

lemma page_walk_sim:
  assumes "ok m"
  shows "sim (if mode mmu = Legacy32 then grown32 m else grown64 m) m (\<lambda>(e, pa) pb. pa = pb)
    (page_walk B False mmu m ctx) (page_walk_probe B mmu m ctx)"
  using walk_legacy32_sim [OF assms] walk_pae_sim [OF assms] walk_long4_sim [OF assms]
  by (cases "mode mmu") (simp_all add: page_walk_def page_walk_probe_def)

lemma translate_probe_sim:
  assumes ok: "ok m"
    and hit: "\<And>v h. linear_address mmu va = Inr v \<Longrightarrow> access = Write \<Longrightarrow>
      Tlb_lookup (tlb mmu) v False (pcid mmu) (pcid_enabled mmu) (tlb_page_sizes mmu) = Some h \<Longrightarrow>
      \<not> need_rewalk mmu (hit_entry h) (cpl = 3)"
  shows "fst (translate B False mmu m va access cpl) = fst (translate_probe B mmu m va access cpl) \<and>
    snd (translate_probe B mmu m va access cpl) = m"
proof (cases "linear_address mmu va")
  case (Inl early)
  then show ?thesis by (simp add: translate_def translate_probe_def)
next
  case (Inr v)
  let ?ctx = "access_ctx v access cpl"
  show ?thesis
  proof (cases "Tlb_lookup (tlb mmu) v (is_execute access) (pcid mmu) (pcid_enabled mmu) (tlb_page_sizes mmu)")
    case None
    have "sim (if mode mmu = Legacy32 then grown32 m else grown64 m) m (\<lambda>(e, pa) pb. pa = pb)
        (page_walk B False mmu m ?ctx) (page_walk_probe B mmu m ?ctx)"
      by (rule page_walk_sim [OF ok])
    then show ?thesis using Inr None
      by (cases "page_walk B False mmu m ?ctx"; cases "page_walk_probe B mmu m ?ctx")
        (auto simp: translate_def translate_probe_def translate_walk_def sim_def Let_def split: sum.splits)
  next
    case (Some h)
    then show ?thesis using Inr hit [OF Inr]
      by (cases access) (auto simp: translate_def translate_probe_def Let_def)
  qed
qed

end

section \<open>Translations are cached\<close>

lemma mmu_wf_sizes:
  assumes "mmu_wf mmu" "cr4_pse mmu" "mode mmu \<noteq> Disabled"
  shows "set (sizes_of (tlb_page_sizes mmu)) = mode_sizes (mode mmu)"
proof -
  have "set (sizes_of (tlb_page_sizes (update_cached_state mmu))) = mode_sizes (mode (update_cached_state mmu))"
    if "mode (update_cached_state mmu) \<noteq> Disabled"
    using that assms(2) by (auto simp: update_cached_state_def Let_def cr4_pse_def split: if_splits)
  then show ?thesis using assms(1,3) by (simp add: mmu_wf_def)
qed

lemma matching_walk_entry:
  assumes "mmu_wf mmu" "cr4_pse mmu" "mode mmu \<noteq> Disabled" "walk_result mmu ctx e pa" "entry_of_mode mmu e"
  shows "matching (pcid_enabled mmu) (pcid mmu) (ctx_vaddr ctx) (tlb_page_sizes mmu) e"
  using assms mmu_wf_sizes [OF assms(1-3)]
  by (auto simp: matching_def matches_pcid_iff walk_result_def translates_def entry_of_mode_def)

lemma lookup_inserted:
  assumes "tlb_wf t" "aligned_entry e" "matching en pc v szs e" "Tlb_lookup t v x pc en szs = None"
  shows "\<exists>h. Tlb_lookup (Tlb_insert t x e) v x pc en szs = Some h \<and> hit_entry h = e"
  using assms lookup_after_insert [of "bank t x" e v pc en szs]
  by (cases x) (simp_all add: Tlb_lookup_def Tlb_insert_def bank_def tlb_wf_def)

lemma lookup_invalidated:
  assumes "tlb_wf t"
  shows "Tlb_lookup (Tlb_invalidate_address_all t v) v x pc en szs = None"
proof -
  have "\<not> matching en pc v szs (slot (bank (Tlb_invalidate_address_all t v) x) s w)" if "s < SETS" "w < WAYS" for s w
    using assms that by (auto simp: slot_invalidate_all Let_def matching_def matches_pcid_iff)
  then show ?thesis using assms by (simp add: Tlb_lookup_None tlb_wf_invalidate)
qed

lemma translate_hit:
  assumes "linear_address mmu va = Inr v"
    and "Tlb_lookup (tlb mmu) v (is_execute access) (pcid mmu) (pcid_enabled mmu) (tlb_page_sizes mmu) = Some h"
    and "permits mmu (hit_entry h) (access_ctx v access cpl)" "is_write access \<longrightarrow> dirty (hit_entry h)"
  shows "translate B cow mmu m va access cpl = (Inr (translate_entry (hit_entry h) v), mmu, m)"
  using assms by (cases access) (auto simp: translate_def permits_def need_rewalk_def Let_def)

text \<open>The address is translated by a walk, not by the TLB.\<close>

definition walks :: "Mmu \<Rightarrow> u64 \<Rightarrow> AccessType \<Rightarrow> u8 \<Rightarrow> bool" where
  "walks mmu v access cpl \<longleftrightarrow>
     (case Tlb_lookup (tlb mmu) v (is_execute access) (pcid mmu) (pcid_enabled mmu) (tlb_page_sizes mmu) of
        None \<Rightarrow> True
      | Some h \<Rightarrow> is_write access \<and> need_rewalk mmu (hit_entry h) (cpl = 3))"

lemma translate_walk_repeat:
  assumes wf: "mmu_wf mmu" and md: "mode mmu \<noteq> Disabled" and pse: "cr4_pse mmu"
    and miss: "Tlb_lookup (tlb mmu) v (is_execute access) (pcid mmu) (pcid_enabled mmu) (tlb_page_sizes mmu) = None"
    and t: "translate_walk B cow mmu m (access_ctx v access cpl) = (Inr pa, mmu', m')"
    and lin: "linear_address mmu va = Inr v"
  shows "translate B cow mmu' m' va access cpl = (Inr pa, mmu', m')"
proof -
  let ?ctx = "access_ctx v access cpl"
  have out: "outcome (\<lambda>pf _. walk_fault ?ctx pf)
      (\<lambda>(e, pa) _. walk_result mmu ?ctx e pa \<and> entry_of_mode mmu e) (page_walk B cow mmu m ?ctx)"
    using mmu_wf_pcid [OF wf] md by (intro page_walk_outcome)
  then obtain e where e: "walk_result mmu ?ctx e pa" "entry_of_mode mmu e"
    and mmu': "mmu' = mmu\<lparr>tlb := Tlb_insert (tlb mmu) (is_execute access) e\<rparr>"
    using t by (auto simp: translate_walk_def outcome_def split: prod.splits sum.splits)
  have "aligned_entry e" using e(1) by (simp add: walk_result_def translates_def)
  moreover have "matching (pcid_enabled mmu) (pcid mmu) v (tlb_page_sizes mmu) e"
    using matching_walk_entry [OF wf pse md e] by simp
  ultimately obtain h where h: "Tlb_lookup (tlb mmu') v (is_execute access) (pcid mmu') (pcid_enabled mmu')
      (tlb_page_sizes mmu') = Some h" "hit_entry h = e"
    using lookup_inserted [OF mmu_wf_tlb_wf [OF wf] _ _ miss] mmu' by auto
  have "linear_address mmu' va = Inr v" using lin by (simp add: mmu' linear_address_def cong: PagingMode.case_cong)
  moreover have "permits mmu' e ?ctx" "is_write access \<longrightarrow> dirty e" "translate_entry e v = pa"
    using e(1) by (auto simp: mmu' walk_result_def translates_def)
  ultimately show ?thesis using translate_hit [OF _ h(1)] h(2) by simp
qed

lemma translate_repeat:
  assumes wf: "mmu_wf mmu" and lin: "linear_address mmu va = Inr v" and pse: "cr4_pse mmu"
    and w: "walks mmu v access cpl" and t: "translate B cow mmu m va access cpl = (Inr pa, mmu', m')"
  shows "translate B cow mmu' m' va access cpl = (Inr pa, mmu', m')"
proof (cases "Tlb_lookup (tlb mmu) v (is_execute access) (pcid mmu) (pcid_enabled mmu) (tlb_page_sizes mmu)")
  case None
  then show ?thesis
    using translate_walk_repeat [OF wf linear_address_mode [OF lin] pse None _ lin] t lin
    by (simp add: translate_def)
next
  case (Some h)
  let ?inv = "mmu\<lparr>tlb := Tlb_invalidate_address_all (tlb mmu) v\<rparr>"
  have tw: "tlb_wf (tlb mmu)" using wf by (rule mmu_wf_tlb_wf)
  have inv: "mmu_wf ?inv" by (intro mmu_wf_shrink tlb_wf_invalidate live_invalidate tw wf)
  have "access = Write" "need_rewalk mmu (hit_entry h) (cpl = 3)"
    using w Some by (auto simp: walks_def elim: is_write.elims)
  then have tr: "translate_walk B cow ?inv m (access_ctx v access cpl) = (Inr pa, mmu', m')"
    using t lin Some by (simp add: translate_def)
  have lin': "linear_address ?inv va = Inr v" and md: "mode ?inv \<noteq> Disabled" and pse': "cr4_pse ?inv"
    using lin linear_address_mode [OF lin] pse by (simp_all add: linear_address_def cr4_pse_def cong: PagingMode.case_cong)
  have "Tlb_lookup (tlb ?inv) v (is_execute access) (pcid ?inv) (pcid_enabled ?inv) (tlb_page_sizes ?inv) = None"
    by (simp add: lookup_invalidated [OF tw])
  then show ?thesis by (rule translate_walk_repeat [OF inv md pse' _ tr lin'])
qed

section \<open>The property\<close>

text \<open>
  (C7) A walk fills the TLB. When an address is translated by a walk (a TLB miss, or a write hit that
  must be walked again), on a processor with CR4.PSE set, repeating the access gives the same physical
  address out of the TLB: neither the MMU nor the memory changes any more.
\<close>

theorem translation_is_cached:
  assumes "mmu_wf mmu" "cr4_pse mmu" "linear_address mmu va = Inr v" "walks mmu v access cpl"
    and "translate B cow mmu m va access cpl = (Inr pa, mmu', m')"
  shows "translate B cow mmu' m' va access cpl = (Inr pa, mmu', m')"
  using translate_repeat [OF assms(1,3,2,4,5)] .

theorem translation_is_cached_witness:
  "\<exists>mmu' m'. translate cell_bus False sample_mmu sample_cells 0x401234 Write 3 = (Inr 0x801234, mmu', m') \<and>
     mmu' \<noteq> sample_mmu \<and> translate cell_bus False mmu' m' 0x401234 Write 3 = (Inr 0x801234, mmu', m')"
proof -
  obtain mmu' m' where t: "translate cell_bus False sample_mmu sample_cells 0x401234 Write 3 = (Inr 0x801234, mmu', m')"
    using sample_translate(1) by (metis prod.collapse)
  have lin: "linear_address sample_mmu 0x401234 = Inr 0x401234" by (simp add: linear_address_def sample_mmu_def)
  have "cr4_pse sample_mmu" by (simp add: cr4_pse_def sample_mmu_def cr_defs)
  moreover have "walks sample_mmu 0x401234 Write 3" by (simp add: walks_def sample_mmu_def Tlb_lookup_new)
  ultimately have "translate cell_bus False mmu' m' 0x401234 Write 3 = (Inr 0x801234, mmu', m')"
    using translation_is_cached [OF sample_mmu_wf _ lin _ t] by blast
  moreover have "live (tlb mmu') \<noteq> {}"
    using translate_success [OF sample_mmu_wf lin t] by auto
  then have "mmu' \<noteq> sample_mmu" by (auto simp: sample_mmu_def live_new)
  ultimately show ?thesis using t by blast
qed

end
