(* ===== verification/PhysBus.thy ===== *)
theory PhysBus
  imports MemoryBus PageWalk
begin

text \<open>
  The physical memory bus as the processor and the page walker use it: the implementation of the
  walker's trait for \<^verbatim>\<open>aero_mem::MemoryBus\<close> in \<^verbatim>\<open>aero-mmu/src/lib.rs\<close> and the compatibility trait in
  \<^verbatim>\<open>aero-mem/src/memory_compat.rs\<close>. Both drop errors: a read that fails leaves 0xFF, a write that
  fails is lost. (Neither a panic nor divergence of the bus operations can occur on a well-formed
  bus, which theory \<open>MemoryBus\<close> shows, so the catch-all cases below only see errors.) The memory is
  the pair of the bus and the state of the devices behind it. The theory interprets
  \<open>page_table_bus\<close> on this bus and carries the results on the walkers over to it.
\<close>

section \<open>The bus behind the page walker\<close>

type_synonym 'd machine_memory = "'d MemoryBus \<times> 'd"

fun phys_read_bytes :: "'d machine_memory \<Rightarrow> u64 \<Rightarrow> u8 list \<Rightarrow> u8 list \<times> 'd machine_memory" where
  "phys_read_bytes (bus, d) paddr dst =
     (case MemoryBus_try_read_bytes bus paddr (replicate (length dst) 0xFF) d of (_, buf, d') \<Rightarrow> (buf, bus, d'))"

fun phys_write_bytes :: "'d machine_memory \<Rightarrow> u64 \<Rightarrow> u8 list \<Rightarrow> 'd machine_memory" where
  "phys_write_bytes (bus, d) paddr src = snd (MemoryBus_try_write_bytes bus paddr src d)"

fun phys_read_u8 :: "'d machine_memory \<Rightarrow> u64 \<Rightarrow> u8 \<times> 'd machine_memory" where
  "phys_read_u8 (bus, d) paddr =
     (case MemoryBus_try_read_u8 bus paddr d of (Inr b, d') \<Rightarrow> (b, bus, d') | (Inl _, d') \<Rightarrow> (0xFF, bus, d'))"

definition phys_read_u16 :: "'d machine_memory \<Rightarrow> u64 \<Rightarrow> u16 \<times> 'd machine_memory" where
  "phys_read_u16 m paddr = (case phys_read_bytes m paddr (replicate 2 0) of (buf, m') \<Rightarrow> (from_le_bytes buf, m'))"
definition phys_read_u32 :: "'d machine_memory \<Rightarrow> u64 \<Rightarrow> u32 \<times> 'd machine_memory" where
  "phys_read_u32 m paddr = (case phys_read_bytes m paddr (replicate 4 0) of (buf, m') \<Rightarrow> (from_le_bytes buf, m'))"
definition phys_read_u64 :: "'d machine_memory \<Rightarrow> u64 \<Rightarrow> u64 \<times> 'd machine_memory" where
  "phys_read_u64 m paddr = (case phys_read_bytes m paddr (replicate 8 0) of (buf, m') \<Rightarrow> (from_le_bytes buf, m'))"

fun phys_write_u8 :: "'d machine_memory \<Rightarrow> u64 \<Rightarrow> u8 \<Rightarrow> 'd machine_memory" where
  "phys_write_u8 (bus, d) paddr v = snd (MemoryBus_try_write_u8 bus paddr v d)"
fun phys_write_u16 :: "'d machine_memory \<Rightarrow> u64 \<Rightarrow> u16 \<Rightarrow> 'd machine_memory" where
  "phys_write_u16 (bus, d) paddr v = snd (MemoryBus_try_write_u16 bus paddr v d)"
fun phys_write_u32 :: "'d machine_memory \<Rightarrow> u64 \<Rightarrow> u32 \<Rightarrow> 'd machine_memory" where
  "phys_write_u32 (bus, d) paddr v = snd (MemoryBus_try_write_u32 bus paddr v d)"
fun phys_write_u64 :: "'d machine_memory \<Rightarrow> u64 \<Rightarrow> u64 \<Rightarrow> 'd machine_memory" where
  "phys_write_u64 (bus, d) paddr v = snd (MemoryBus_try_write_u64 bus paddr v d)"

definition physical_bus :: "'d machine_memory page_bus" where
  "physical_bus = \<lparr> bus_read_u32 = phys_read_u32, bus_read_u64 = phys_read_u64,
     bus_write_u32 = phys_write_u32, bus_write_u64 = phys_write_u64 \<rparr>"

lemma physical_bus_simps:
  "bus_read_u32 physical_bus = phys_read_u32" "bus_read_u64 physical_bus = phys_read_u64"
  "bus_write_u32 physical_bus = phys_write_u32" "bus_write_u64 physical_bus = phys_write_u64"
  by (simp_all add: physical_bus_def)

text \<open>
  The legacy trait of \<^verbatim>\<open>crates/memory\<close>, implemented in \<^verbatim>\<open>memory_compat.rs\<close>.
\<close>

definition read_physical :: "'d machine_memory \<Rightarrow> u64 \<Rightarrow> u8 list \<Rightarrow> u8 list \<times> 'd machine_memory" where
  "read_physical m paddr buf = (if buf = [] then (buf, m) else
     case m of (bus, d) \<Rightarrow>
       (case MemoryBus_try_read_bytes bus paddr (replicate (length buf) 0xFF) d of (_, buf', d') \<Rightarrow> (buf', bus, d')))"

definition write_physical :: "'d machine_memory \<Rightarrow> u64 \<Rightarrow> u8 list \<Rightarrow> 'd machine_memory" where
  "write_physical m paddr buf = (if buf = [] then m else
     case m of (bus, d) \<Rightarrow> snd (MemoryBus_try_write_bytes bus paddr buf d))"

section \<open>Memories that hold page tables\<close>

text \<open>The byte the processor sees, with the open bus where nothing is mapped.\<close>

definition open_byte :: "'d machine_memory \<Rightarrow> nat \<Rightarrow> u8" where
  "open_byte m x = (case route (fst m) (snd m) x of Some b \<Rightarrow> b | None \<Rightarrow> 0xFF)"

text \<open>
  The registered ranges and the RAM end on multiples of 8 (the machine registers whole pages), so
  that no aligned cell is partly in one of them.
\<close>

definition borders_aligned :: "'d MemoryBus \<Rightarrow> bool" where
  "borders_aligned bus \<longleftrightarrow> aligned_to 3 (pm_len (ram bus)) \<and>
     (\<forall>r \<in> set (overlays bus). aligned_to 3 (r_start r) \<and> aligned_to 3 (r_end r))"

text \<open>
  The devices do not react to writes in a way that a read can see; without such a condition a page
  table entry in a device register could change under the walker.
\<close>

definition device_writes_unseen :: "'d MemoryBus \<Rightarrow> bool" where
  "device_writes_unseen bus \<longleftrightarrow> (\<forall>r \<in> set (overlays bus). \<forall>h. kind r = Mmio h \<longrightarrow>
     (\<forall>r' \<in> set (overlays bus). \<forall>h' off data d x. kind r' = Mmio h' \<longrightarrow>
        mmio_byte h' (h_write h off data d) x = mmio_byte h' d x))"

definition table_memory :: "'d machine_memory \<Rightarrow> bool" where
  "table_memory m \<longleftrightarrow> bus_wf (fst m) \<and> all_bytewise (fst m) \<and> borders_aligned (fst m) \<and> device_writes_unseen (fst m)"

lemma table_memory_simps:
  "table_memory (bus, d) \<longleftrightarrow> bus_wf bus \<and> all_bytewise bus \<and> borders_aligned bus \<and> device_writes_unseen bus"
  by (simp add: table_memory_def)

lemma open_byte_route: "open_byte (bus, d) x = (if mapped bus x then the (route bus d x) else 0xFF)"
  by (auto simp: open_byte_def mapped_def route_def split: option.split)

lemma aligned_less:
  fixes a b i :: nat
  assumes "a mod 8 = 0" "b mod n = 0" "n = 4 \<or> n = 8" "i < n"
  shows "b + i < a \<longleftrightarrow> b < a"
  using assms by (elim disjE) (simp, presburger)+

lemma aligned_cell_uniform:
  assumes al: "borders_aligned bus" and b: "b mod n = 0" and n: "n = 4 \<or> n = 8" and i: "i < n"
  shows "overlay_at bus (b + i) = overlay_at bus b" "mapped bus (b + i) = mapped bus b"
    "b + i < unat (pm_len (ram bus)) \<longleftrightarrow> b < unat (pm_len (ram bus))"
proof -
  have len: "b + i < unat (pm_len (ram bus)) \<longleftrightarrow> b < unat (pm_len (ram bus))"
    using al b n i by (intro aligned_less) (auto simp: borders_aligned_def aligned_to_unat)
  have "(unat (r_start r) \<le> b + i \<and> b + i < unat (r_end r)) \<longleftrightarrow> (unat (r_start r) \<le> b \<and> b < unat (r_end r))"
    if "r \<in> set (overlays bus)" for r
    using al that aligned_less [of "unat (r_start r)" b n i] aligned_less [of "unat (r_end r)" b n i] b n i
    by (auto simp: borders_aligned_def aligned_to_unat not_less [symmetric])
  then show "overlay_at bus (b + i) = overlay_at bus b"
    unfolding overlay_at_def by (intro find_cong) auto
  then show "mapped bus (b + i) = mapped bus b" using len by (simp add: mapped_def)
  show "b + i < unat (pm_len (ram bus)) \<longleftrightarrow> b < unat (pm_len (ram bus))" by (rule len)
qed

lemma aligned_cell_prefix:
  assumes "borders_aligned bus" "b mod n = 0" "n = 4 \<or> n = 8"
  shows "mapped_prefix bus b n = (if mapped bus b then n else 0)"
proof (cases "mapped bus b")
  case True
  then have "\<forall>i < n. mapped bus (b + i)" using aligned_cell_uniform(2) [OF assms] by blast
  then show ?thesis using True by (simp add: all_mapped_prefix)
next
  case False
  then show ?thesis using assms(3) by (cases n) auto
qed

text \<open>Nothing is mapped in the last cell of the address space.\<close>

lemma last_cell_unmapped:
  assumes al: "borders_aligned bus" and b: "b < 2 ^ 64" "b mod n = 0" "n = 4 \<or> n = 8" and e: "2 ^ 64 \<le> b + n"
  shows "\<not> mapped bus b"
proof -
  have top: "unat w \<le> b" if "aligned_to 3 w" for w :: u64
  proof -
    have "unat w mod 8 = 0" "unat w < 2 ^ 64" using that unat_less [of w] by (auto simp: aligned_to_unat)
    then have "unat w div 8 * 8 = unat w" "unat w div 8 < 2 ^ 61" by (auto simp: less_mult_imp_div_less)
    then show ?thesis using b(3) e by auto
  qed
  have "overlay_at bus b = None"
    using al top unfolding overlay_at_def borders_aligned_def find_None_iff by (auto simp: not_less)
  then show ?thesis using al top [of "pm_len (ram bus)"] by (auto simp: mapped_def borders_aligned_def)
qed


section \<open>Aligned cells\<close>

definition cell_bytes :: "'d machine_memory \<Rightarrow> u64 \<Rightarrow> nat \<Rightarrow> u8 list" where
  "cell_bytes m a n = map (\<lambda>i. open_byte m (unat a + i)) [0..<n]"

lemma phys_read_bytes_cell:
  assumes m: "table_memory m" and a: "unat a mod n = 0" "n = 4 \<or> n = 8" and dst: "length dst = n"
  shows "phys_read_bytes m a dst = (cell_bytes m a n, m)"
proof -
  obtain bus d where md: "m = (bus, d)" by (cases m)
  have wf: "bus_wf bus" "all_bytewise bus" "borders_aligned bus" using m by (simp_all add: md table_memory_simps)
  have n: "0 < n" "n < 2 ^ 64" "replicate n x \<noteq> []" for x :: u8 using a(2) by auto
  note u = aligned_cell_uniform(2) [OF wf(3) a] and p = aligned_cell_prefix [OF wf(3) a]
  have bytes: "cell_bytes m a n = (if mapped bus (unat a) then routed bus d (unat a) n else replicate n 0xFF)"
    by (auto simp: cell_bytes_def md open_byte_route u routed_def intro!: nth_equalityI)
  have over: "\<not> mapped bus (unat a)" if "2 ^ 64 \<le> unat a + n"
    using last_cell_unmapped [OF wf(3) _ a that] unat_less [of a] by simp
  show ?thesis
    using MemoryBus_try_read_bytes_routes [OF wf(1,2), of "replicate n 0xFF" a d] n over
    by (auto simp: md dst bytes [unfolded md] p Let_def routed_def)
qed

lemma bus_write_le_unseen:
  assumes m: "table_memory (bus, d)" and n: "0 < n" "n < 2 ^ 64"
    and w: "bus_write_le n (try_write_le n) bus a v d = (r, bus', d')"
    and h: "x \<in> set (overlays bus)" "kind x = Mmio h"
  shows "mmio_byte h d' k = mmio_byte h d k"
proof -
  define P where "P e \<longleftrightarrow> (\<forall>r \<in> set (overlays bus). \<forall>h k. kind r = Mmio h \<longrightarrow> mmio_byte h e k = mmio_byte h d k)" for e
  have wf: "table_ok (overlays bus)" "all_bytewise bus" "device_writes_unseen bus"
    using m by (simp_all add: table_memory_simps bus_wf_def)
  have "in_range_invariant bus P"
    unfolding in_range_invariant_def
  proof (intro ballI allI impI)
    fix r h e and off :: u64 and data :: "u8 list"
    assume r: "r \<in> set (overlays bus)" "kind r = Mmio h" "P e" "data \<noteq> []"
      "unat off + length data \<le> unat (r_end r) - unat (r_start r)"
    have "unat off + length data < 2 ^ 64" using r(5) unat_less [of "r_end r"] by simp
    then have "h_read h off data e = (map (\<lambda>i. mmio_byte h e (unat off + i)) [0..<length data], e)"
      using wf(2) r(1,2) by (auto simp: all_bytewise_def bytewise_def)
    moreover have "P (h_write h off data e)"
      using r(1-3) wf(3) unfolding P_def device_writes_unseen_def by metis
    ultimately show "P (snd (h_read h off data e)) \<and> length (fst (h_read h off data e)) = length data \<and>
        P (h_write h off data e)" using r(3) by simp
  qed
  moreover have "P d" by (simp add: P_def)
  ultimately have "P d'"
    using bus_write_loop_in_range [OF _ wf(1), of "to_le_bytes n v" P d n a 0] n w
    by (auto simp: bus_write_le_def MemoryBus_try_write_bytes_def split: sum.splits if_splits)
  then show ?thesis using h by (auto simp: P_def)
qed

text \<open>
  What a write of an aligned cell does: the bytes of the cell become those of the value where the
  cell is plain RAM, and no other byte changes.
\<close>

lemma bus_write_le_cell:
  assumes m: "table_memory (bus, d)" and a: "unat a mod n = 0" "n = 4 \<or> n = 8"
    and w: "snd (bus_write_le n (try_write_le n) bus a v d) = m'"
  shows "table_memory m' \<and> (\<forall>x. open_byte m' x =
    (if x \<in> {unat a..<unat a + n} \<and> overlay_at bus (unat a) = None \<and> unat a < unat (pm_len (ram bus))
     then to_le_bytes n v ! (x - unat a) else open_byte (bus, d) x))"
proof -
  have wf: "bus_wf bus" "all_bytewise bus" "borders_aligned bus" "device_writes_unseen bus"
    using m by (simp_all add: table_memory_simps)
  have n: "0 < n" "n < 2 ^ 64" using a(2) by auto
  note p = aligned_cell_prefix [OF wf(3) a]
  show ?thesis
  proof (cases "unat a + n < 2 ^ 64")
    case False
    have "\<not> mapped bus (unat a)"
      using last_cell_unmapped [OF wf(3) _ a] False unat_less [of a] by simp
    moreover have "m' = (bus, d)"
      using w False n by (auto simp: bus_write_le_def checked_end_eq)
    ultimately show ?thesis using m by (auto simp: mapped_def)
  next
    case True
    obtain r bus' d' where w': "bus_write_le n (try_write_le n) bus a v d = (r, bus', d')" "m' = (bus', d')"
      using w by (metis prod.collapse)
    let ?k = "if mapped bus (unat a) then n else 0"
    have up: "bus_updated bus (unat a) (take ?k (to_le_bytes n v)) bus'"
      using bus_write_le_updates [OF wf(1) n(1) True, of v d] w'(1) p by auto
    have same: "overlays bus' = overlays bus" "pm_len (ram bus') = pm_len (ram bus)" "bus_wf bus'"
      using up by (auto simp: bus_updated_def)
    have "table_memory m'"
      using wf same by (simp add: w'(2) table_memory_simps all_bytewise_def borders_aligned_def device_writes_unseen_def)
    moreover have "open_byte m' x = (if x \<in> {unat a..<unat a + n} \<and> overlay_at bus (unat a) = None \<and>
        unat a < unat (pm_len (ram bus)) then to_le_bytes n v ! (x - unat a) else open_byte (bus, d) x)" for x
    proof (cases "overlay_at bus x")
      case None
      have cell: "overlay_at bus (unat a) = None" "x < unat (pm_len (ram bus)) \<longleftrightarrow> unat a < unat (pm_len (ram bus))"
        if "x \<in> {unat a..<unat a + n}"
        using aligned_cell_uniform [OF wf(3) a, of "x - unat a"] that None by auto
      have "overlay_at bus' x = None" using None same(1) by (simp add: overlay_at_def)
      then show ?thesis using None cell up same(2) unfolding w'(2)
        by (auto simp: open_byte_def route_def bus_updated_def mapped_def split: if_splits)
    next
      case (Some y)
      then have y: "y \<in> set (overlays bus)" by (auto simp: overlay_at_def find_Some_iff)
      have "overlay_byte y d' x = overlay_byte y d x"
        using bus_write_le_unseen [OF m n w'(1) y] by (auto simp: overlay_byte_def split: OverlayKind.split)
      moreover have "overlay_at bus' x = Some y" using Some same(1) by (simp add: overlay_at_def)
      moreover have "overlay_at bus (unat a) = Some y" if "x \<in> {unat a..<unat a + n}"
        using aligned_cell_uniform(1) [OF wf(3) a, of "x - unat a"] that Some by auto
      ultimately show ?thesis using Some unfolding w'(2) by (auto simp: open_byte_def route_def)
    qed
    ultimately show ?thesis by blast
  qed
qed

lemma aligned_cells_disjoint:
  fixes a b n :: nat
  assumes "a mod n = 0" "b mod n = 0" "b \<noteq> a" "i < n"
  shows "b + i \<notin> {a..<a + n}"
proof
  assume in_cell: "b + i \<in> {a..<a + n}"
  obtain p q where pq: "a = n * p" "b = n * q" using assms(1,2) by (auto simp: mod_eq_0_iff_dvd elim!: dvdE)
  then have "n * p < n * (q + 1)" "n * q < n * (p + 1)" using in_cell assms(4) by auto
  then have "p = q" by (simp only: mult_less_cancel1) simp
  then show False using pq assms(3) by simp
qed

text \<open>Reading a cell back after a write: the value, or what was there, and nothing else moves.\<close>

lemma read_write_cell:
  fixes v :: "'a::len word"
  assumes m: "table_memory (bus, d)" and a: "unat a mod n = 0" and b: "unat b mod n = 0" and n: "n = 4 \<or> n = 8"
    and len: "LENGTH('a) = 8 * n" and w: "snd (bus_write_le n (try_write_le n) bus a v d) = m'"
  shows "(from_le_bytes (cell_bytes m' b n) :: 'a word) \<in>
    (if b = a then {v, from_le_bytes (cell_bytes (bus, d) a n)} else {from_le_bytes (cell_bytes (bus, d) b n)})"
proof -
  note up = bus_write_le_cell [OF m a n w]
  show ?thesis
  proof (cases "b = a")
    case True
    have "cell_bytes m' a n = (if overlay_at bus (unat a) = None \<and> unat a < unat (pm_len (ram bus))
        then to_le_bytes n v else cell_bytes (bus, d) a n)"
      using up by (intro nth_equalityI) (auto simp: cell_bytes_def)
    then show ?thesis using True len by (auto simp: from_to_le_bytes)
  next
    case False
    then have "unat b \<noteq> unat a" by (metis word_unat_eq_iff)
    then have "cell_bytes m' b n = cell_bytes (bus, d) b n"
      using up aligned_cells_disjoint [OF a b] unfolding cell_bytes_def by (intro map_cong) auto
    then show ?thesis using False by simp
  qed
qed

lemma phys_reads:
  assumes "table_memory m"
  shows "aligned_to 2 a \<Longrightarrow> phys_read_u32 m a = (from_le_bytes (cell_bytes m a 4), m)"
    "aligned_to 3 a \<Longrightarrow> phys_read_u64 m a = (from_le_bytes (cell_bytes m a 8), m)"
  using phys_read_bytes_cell [OF assms, of a]
  by (simp_all add: phys_read_u32_def phys_read_u64_def aligned_to_unat)

lemma phys_writes:
  "phys_write_u32 (bus, d) a v = snd (bus_write_le 4 (try_write_le 4) bus a v d)"
  "phys_write_u64 (bus, d) a w = snd (bus_write_le 8 (try_write_le 8) bus a w d)"
  by (simp_all add: MemoryBus_try_write_u32_def MemoryBus_try_write_u64_def try_write_u32_def try_write_u64_def)

lemma phys_read_pure: "table_memory m \<Longrightarrow> length dst < 2 ^ 64 \<Longrightarrow> snd (phys_read_bytes m a dst) = m"
  using MemoryBus_try_read_bytes_routes [of "fst m" "replicate (length dst) 0xFF" a "snd m"]
  by (cases m) (auto simp: table_memory_simps Let_def)

lemma phys_reads_pure:
  assumes "table_memory m"
  shows "snd (phys_read_u32 m a) = m" "snd (phys_read_u64 m a) = m"
  using phys_read_pure [OF assms, of "replicate 4 0" a] phys_read_pure [OF assms, of "replicate 8 0" a]
  by (auto simp: phys_read_u32_def phys_read_u64_def split: prod.split)

lemma bus_write_le_table_memory:
  assumes m: "table_memory (bus, d)" and n: "0 < n" "n < 2 ^ 64"
  shows "table_memory (snd (bus_write_le n (try_write_le n) bus a v d))"
proof (cases "unat a + n < 2 ^ 64")
  case True
  have wf: "bus_wf bus" using m by (simp add: table_memory_simps)
  obtain r bus' d' where "bus_write_le n (try_write_le n) bus a v d = (r, bus', d')"
    "overlays bus' = overlays bus" "pm_len (ram bus') = pm_len (ram bus)" "bus_wf bus'"
    using bus_write_le_updates [OF wf n(1) True, of v d] by (auto simp: bus_updated_def)
  then show ?thesis
    using m by (simp add: table_memory_simps all_bytewise_def borders_aligned_def device_writes_unseen_def)
next
  case False
  then show ?thesis using n m by (auto simp: bus_write_le_def checked_end_eq)
qed

text \<open>The bus of the machine keeps the laws that the walkers rely on.\<close>

interpretation phys: page_table_bus physical_bus table_memory
proof
  fix m :: "'d machine_memory" and a b :: u64 and v :: u32 and w :: u64
  assume m: "table_memory m"
  obtain bus d where md: "m = (bus, d)" by (cases m)
  note phys_bus = md physical_bus_def phys_writes
  show "snd (bus_read_u32 physical_bus m a) = m" "snd (bus_read_u64 physical_bus m a) = m"
    using phys_reads_pure [OF m] by (simp_all add: physical_bus_def)
  have ok: "table_memory (snd (bus_write_le 4 (try_write_le 4) bus a v d))"
    "table_memory (snd (bus_write_le 8 (try_write_le 8) bus a w d))"
    using m by (simp_all add: md bus_write_le_table_memory)
  then show "table_memory (bus_write_u32 physical_bus m a v)" "table_memory (bus_write_u64 physical_bus m a w)"
    by (simp_all add: phys_bus del: phys_write_u32.simps phys_write_u64.simps)
  show "fst (bus_read_u32 physical_bus (bus_write_u32 physical_bus m a v) b) \<in>
      (if b = a then {v, fst (bus_read_u32 physical_bus m a)} else {fst (bus_read_u32 physical_bus m b)})"
    if "aligned_to 2 a" "aligned_to 2 b"
    using read_write_cell [OF m [unfolded md], of a 4 b v, OF _ _ _ _ refl] that m ok
    by (auto simp add: phys_bus phys_reads aligned_to_unat simp del: phys_write_u32.simps split: if_splits)
  show "fst (bus_read_u64 physical_bus (bus_write_u64 physical_bus m a w) b) \<in>
      (if b = a then {w, fst (bus_read_u64 physical_bus m a)} else {fst (bus_read_u64 physical_bus m b)})"
    if "aligned_to 3 a" "aligned_to 3 b"
    using read_write_cell [OF m [unfolded md], of a 8 b w, OF _ _ _ _ refl] that m ok
    by (auto simp add: phys_bus phys_reads aligned_to_unat simp del: phys_write_u64.simps split: if_splits)
qed

section \<open>Properties\<close>

text \<open>A machine with 10 KiB of RAM and an open-bus window.\<close>

definition sample_machine :: "nat machine_memory" where
  "sample_machine = (\<lparr> ram = sample_memory, overlays =
     [\<lparr> r_start = 0x3000, r_end = 0x4000,
        kind = Mmio (FnMmioHandler (\<lambda>_ data d. (replicate (length data) 0xFF, d)) (\<lambda>_ _ d. d)) \<rparr>] \<rparr>, 0)"

lemma sample_machine_tables: "table_memory sample_machine"
proof -
  have "all_bytewise (fst sample_machine)"
    using open_bus_bytewise by (auto simp: all_bytewise_def sample_machine_def)
  moreover have "device_writes_unseen (fst sample_machine)"
    by (auto simp: device_writes_unseen_def sample_machine_def FnMmioHandler_def)
  moreover have "bus_wf (fst sample_machine)"
    by (simp add: bus_wf_def sample_machine_def sample_memory_wf table_ok_def overlay_ok_def)
  moreover have "borders_aligned (fst sample_machine)"
    by (simp add: borders_aligned_def sample_machine_def sample_memory_def aligned_to_def mask_eq_exp_minus_1)
  ultimately show ?thesis by (simp add: table_memory_def)
qed

text \<open>
  (C5) A page walk writes nothing but accessed and dirty bits. Over a physical bus whose devices are inert
  (bytes are read one by one without effect, and no write to a device changes what is read) and whose regions begin
  and end at multiples of 8, with the copy-on-write switch \<^verbatim>\<open>AERO_COW_FORCE_RW\<close> off, a walk in any paging mode and with any outcome leaves
  every aligned cell of memory (32-bit cells in 32-bit paging, 64-bit cells otherwise) as it was, up to bits 5 and 6,
  which are only ever set. (With the switch on, a walk also sets writable bits.)
\<close>

theorem walk_sets_only_accessed_dirty:
  assumes "table_memory m"
  shows "let m' = snd (page_walk physical_bus False mmu m ctx) in
    if mode mmu = Legacy32
    then \<forall>b. aligned_to 2 b \<longrightarrow> ad_grow (fst (phys_read_u32 m b)) (fst (phys_read_u32 m' b))
    else \<forall>b. aligned_to 3 b \<longrightarrow> ad_grow (fst (phys_read_u64 m b)) (fst (phys_read_u64 m' b))"
  using phys.page_walk_sim [OF assms, of mmu ctx]
  by (cases "mode mmu = Legacy32") (simp_all add: phys.sim_def phys.grown32_def phys.grown64_def physical_bus_simps Let_def)

theorem walk_sets_only_accessed_dirty_witness:
  "table_memory sample_machine \<and> aligned_to 2 0x1004 \<and>
   ad_grow (fst (phys_read_u32 sample_machine 0x1004)) (fst (phys_read_u32
      (snd (page_walk physical_bus False sample_mmu sample_machine (access_ctx 0x401234 Write 3))) 0x1004))"
proof -
  have "aligned_to 2 0x1004" by (simp add: aligned_to_def mask_eq_exp_minus_1)
  then show ?thesis
    using walk_sets_only_accessed_dirty [OF sample_machine_tables, of sample_mmu "access_ctx 0x401234 Write 3"]
      sample_machine_tables by (simp add: sample_mmu_def Let_def)
qed

text \<open>
  (C6) Probing agrees with translating. Over a physical bus with inert devices as before and with the copy-on-write switch off,
  \<^verbatim>\<open>translate_probe\<close> gives the same physical address or the same fault as \<^verbatim>\<open>translate\<close> and changes no memory, unless the
  access is a write that hits a TLB entry without write permission, which only \<^verbatim>\<open>translate\<close> walks again. (With the
  switch on, \<^verbatim>\<open>translate\<close> may make a page writable where the probe faults.)
\<close>

theorem probe_agrees_with_translate:
  assumes "table_memory m"
    and "\<And>v h. linear_address mmu va = Inr v \<Longrightarrow> access = Write \<Longrightarrow>
      Tlb_lookup (tlb mmu) v False (pcid mmu) (pcid_enabled mmu) (tlb_page_sizes mmu) = Some h \<Longrightarrow>
      \<not> need_rewalk mmu (hit_entry h) (cpl = 3)"
  shows "fst (translate physical_bus False mmu m va access cpl) = fst (translate_probe physical_bus mmu m va access cpl) \<and>
    snd (translate_probe physical_bus mmu m va access cpl) = m"
  using phys.translate_probe_sim [OF assms] .

theorem probe_agrees_with_translate_witness:
  "table_memory sample_machine \<and>
   fst (translate physical_bus False sample_mmu sample_machine 0x401234 Write 3) =
     fst (translate_probe physical_bus sample_mmu sample_machine 0x401234 Write 3)"
  using probe_agrees_with_translate [OF sample_machine_tables, of sample_mmu "0x401234" Write 3]
    sample_machine_tables by (simp add: sample_mmu_def Tlb_lookup_new)

text \<open>
  The open bus. \<^verbatim>\<open>read_physical\<close> and the walker's \<^verbatim>\<open>read_bytes\<close> return the routed bytes up to the
  first address where nothing is mapped and 0xFF from there on, also where the range is mapped again;
  a range that wraps around the address space reads as 0xFF throughout. The memory and the devices do
  not change.
\<close>

theorem open_bus_reads:
  assumes "bus_wf bus" and "all_bytewise bus" and "length buf < 2 ^ 64"
  shows "read_physical (bus, d) a buf =
      (let k = (if 2 ^ 64 \<le> unat a + length buf then 0 else mapped_prefix bus (unat a) (length buf))
       in map (\<lambda>i. the (route bus d (unat a + i))) [0..<k] @ replicate (length buf - k) 0xFF, bus, d) \<and>
    phys_read_bytes (bus, d) a buf = read_physical (bus, d) a buf"
  using MemoryBus_try_read_bytes_routes [OF assms(1,2), of "replicate (length buf) 0xFF" a d] assms(3)
  by (auto simp: read_physical_def routed_def Let_def)

theorem open_bus_reads_witness:
  "fst (read_physical (sample_bus, 5) 0x2ffe [1, 2, 3, 4]) = [0xFF, 0xFF, 0xFF, 0xFF] \<and>
   fst (read_physical (sample_bus, 5) 0x1001 [1, 2, 3]) = [7, 0xAA, 0xBB]"
proof -
  have *: "mapped sample_bus x \<longleftrightarrow> x < 0x2800 \<or> 0x3000 \<le> x \<and> x < 0x4000" for x
    by (auto simp: mapped_def overlay_at_def sample_bus_def sample_memory_bytes)
  have r: "route sample_bus 5 0x1001 = Some 7" "route sample_bus 5 0x1002 = Some 0xAA"
      "route sample_bus 5 0x1003 = Some 0xBB"
    by (simp_all add: route_def overlay_at_def overlay_byte_def sample_bus_def sample_memory_bytes)
  show ?thesis
    using open_bus_reads [OF sample_bus_wf sample_bus_bytewise, of "[1, 2, 3, 4]" 5 "0x2ffe"]
      open_bus_reads [OF sample_bus_wf sample_bus_bytewise, of "[1, 2, 3]" 5 "0x1001"]
    by (simp add: * r Let_def upt_rec)
qed

end
