(* ===== verification/Pic8259.thy ===== *)
theory Pic8259
  imports Prelude
begin

text \<open>
  The pair of cascaded 8259A interrupt controllers of \<^verbatim>\<open>aero-interrupts/src/pic8259.rs\<close>: the
  initialisation and operation command words of one controller, its priority resolution, and the
  master and slave behind the I/O ports. The results: what \<^verbatim>\<open>get_pending_vector\<close> offers is the
  request of highest priority, \<^verbatim>\<open>acknowledge\<close> consumes exactly that request, end of interrupt undoes
  the acknowledgement, and level-triggered requests come back while their line is high.
\<close>

section \<open>One controller\<close>

datatype InitState = InitNone | Icw2 | Icw3 | Icw4

record Pic8259 =
  imr :: u8
  irr :: u8
  isr :: u8
  line_level :: u8
  vector_base :: u8
  icw3 :: u8
  read_isr :: bool
  level_triggered :: bool
  auto_eoi :: bool
  single :: bool
  init_state :: InitState
  expect_icw4 :: bool
  lowest_priority :: u8

definition new_power_on :: Pic8259 where
  "new_power_on = \<lparr> imr = 0xFF, irr = 0, isr = 0, line_level = 0, vector_base = 0, icw3 = 0,
     read_isr = False, level_triggered = False, auto_eoi = False, single = True,
     init_state = InitNone, expect_icw4 = False, lowest_priority = 7 \<rparr>"

text \<open>\<^verbatim>\<open>1u8 << irq\<close>; every IRQ number the code shifts by is below 8.\<close>

definition irq_bit :: "u8 \<Rightarrow> u8" where
  "irq_bit irq = push_bit (unat irq) 1"

definition irq_priority_order :: "Pic8259 \<Rightarrow> u8 list" where
  "irq_priority_order pic = map (\<lambda>i. (lowest_priority pic AND 7) + of_nat i AND 7) [1..<9]"

definition highest_in_service :: "Pic8259 \<Rightarrow> u8 option" where
  "highest_in_service pic = List.find (\<lambda>irq. isr pic AND irq_bit irq \<noteq> 0) (irq_priority_order pic)"

definition command_read :: "Pic8259 \<Rightarrow> u8" where
  "command_read pic = (if read_isr pic then isr pic else irr pic)"

definition data_read :: "Pic8259 \<Rightarrow> u8" where
  "data_read pic = imr pic"

definition refresh_level_triggered_irr :: "Pic8259 \<Rightarrow> Pic8259" where
  "refresh_level_triggered_irr pic =
     (let r = irr pic OR (line_level pic AND NOT (isr pic))
      in pic\<lparr>irr := r AND (line_level pic OR isr pic)\<rparr>)"

text \<open>The three words of the command port: ICW1, OCW3 and OCW2.\<close>

definition write_icw1 :: "Pic8259 \<Rightarrow> u8 \<Rightarrow> Pic8259" where
  "write_icw1 pic val =
     pic\<lparr>init_state := Icw2, expect_icw4 := val AND 0x01 \<noteq> 0, single := val AND 0x02 \<noteq> 0,
         level_triggered := val AND 0x08 \<noteq> 0, isr := 0, irr := 0, line_level := 0, read_isr := False,
         auto_eoi := False, lowest_priority := 7, imr := 0x00\<rparr>"

definition write_ocw2 :: "Pic8259 \<Rightarrow> u8 \<Rightarrow> Pic8259" where
  "write_ocw2 pic val =
     (if val AND 0x20 \<noteq> 0 then
        let rotate = val AND 0x80 \<noteq> 0;
            specific = val AND 0x40 \<noteq> 0;
            cleared = (if specific then Some (val AND 0x07) else highest_in_service pic);
            pic = (case cleared of Some level \<Rightarrow> pic\<lparr>isr := isr pic AND NOT (irq_bit level)\<rparr> | None \<Rightarrow> pic);
            pic = (case cleared of
                     Some level \<Rightarrow> if rotate then pic\<lparr>lowest_priority := level AND 7\<rparr> else pic
                   | None \<Rightarrow> pic)
        in if level_triggered pic then refresh_level_triggered_irr pic else pic
      else if val AND 0xC0 = 0xC0 then pic\<lparr>lowest_priority := val AND 0x07\<rparr>
      else pic)"

definition write_command :: "Pic8259 \<Rightarrow> u8 \<Rightarrow> Pic8259" where
  "write_command pic val =
     (if val AND 0x10 \<noteq> 0 then write_icw1 pic val
      else if val AND 0x08 \<noteq> 0 then
        (if val AND 0x02 \<noteq> 0 then pic\<lparr>read_isr := val AND 0x01 \<noteq> 0\<rparr> else pic)
      else write_ocw2 pic val)"

definition write_data :: "Pic8259 \<Rightarrow> u8 \<Rightarrow> Pic8259" where
  "write_data pic val =
     (case init_state pic of
        Icw2 \<Rightarrow>
          (let pic = pic\<lparr>vector_base := val AND 0xF8\<rparr>
           in if single pic then pic\<lparr>init_state := (if expect_icw4 pic then Icw4 else InitNone)\<rparr>
              else pic\<lparr>init_state := Icw3\<rparr>)
      | Icw3 \<Rightarrow> pic\<lparr>icw3 := val, init_state := (if expect_icw4 pic then Icw4 else InitNone)\<rparr>
      | Icw4 \<Rightarrow> pic\<lparr>auto_eoi := val AND 0x02 \<noteq> 0, init_state := InitNone\<rparr>
      | InitNone \<Rightarrow> pic\<lparr>imr := val\<rparr>)"

definition set_irq_level :: "Pic8259 \<Rightarrow> u8 \<Rightarrow> bool \<Rightarrow> Pic8259" where
  "set_irq_level pic irq level =
     (let msk = irq_bit irq
      in if level then
           let pic = (if line_level pic AND msk = 0 \<and> \<not> level_triggered pic
                      then pic\<lparr>irr := irr pic OR msk\<rparr> else pic);
               pic = pic\<lparr>line_level := line_level pic OR msk\<rparr>
           in if level_triggered pic then refresh_level_triggered_irr pic else pic
         else
           let pic = pic\<lparr>line_level := line_level pic AND NOT msk\<rparr>
           in if level_triggered pic then refresh_level_triggered_irr pic else pic)"

text \<open>The loop over the priority order, left at the highest interrupt in service.\<close>

fun pending_scan :: "u8 option \<Rightarrow> u8 \<Rightarrow> u8 list \<Rightarrow> u8 option" where
  "pending_scan highest pending [] = None"
| "pending_scan highest pending (irq # irqs) =
     (if Some irq = highest then None
      else if pending AND irq_bit irq \<noteq> 0 then Some irq
      else pending_scan highest pending irqs)"

definition pending_irq_with_extra_irr :: "Pic8259 \<Rightarrow> u8 \<Rightarrow> u8 option" where
  "pending_irq_with_extra_irr pic extra_irr =
     (let pending = (irr pic OR extra_irr) AND NOT (imr pic)
      in if pending = 0 then None
         else pending_scan (highest_in_service pic) pending (irq_priority_order pic))"

definition pending_irq :: "Pic8259 \<Rightarrow> u8 option" where
  "pending_irq pic = pending_irq_with_extra_irr pic 0"

definition is_irq_requested :: "Pic8259 \<Rightarrow> u8 \<Rightarrow> bool" where
  "is_irq_requested pic irq \<longleftrightarrow> irr pic AND irq_bit irq \<noteq> 0"

definition acknowledge_irq :: "Pic8259 \<Rightarrow> u8 \<Rightarrow> bool \<times> Pic8259" where
  "acknowledge_irq pic irq =
     (let msk = irq_bit irq
      in if irr pic AND msk = 0 then (False, pic)
         else
           let pic = pic\<lparr>irr := irr pic AND NOT msk\<rparr>;
               pic = (if auto_eoi pic then pic else pic\<lparr>isr := isr pic OR msk\<rparr>);
               pic = (if level_triggered pic then refresh_level_triggered_irr pic else pic)
           in (True, pic))"

definition force_in_service :: "Pic8259 \<Rightarrow> u8 \<Rightarrow> Pic8259" where
  "force_in_service pic irq =
     (if auto_eoi pic then pic
      else
        let pic = pic\<lparr>isr := isr pic OR irq_bit irq\<rparr>
        in if level_triggered pic then refresh_level_triggered_irr pic else pic)"

section \<open>The cascaded pair\<close>

text \<open>\<^verbatim>\<open>trailing_zeros\<close> of a byte that is not zero.\<close>

definition lowest_set_bit :: "u8 \<Rightarrow> u8 option" where
  "lowest_set_bit val = (if val = 0 then None else map_option of_nat (List.find (bit val) [0..<8]))"

record DualPic8259 =
  master :: Pic8259
  slave :: Pic8259

definition DualPic8259_new :: DualPic8259 where
  "DualPic8259_new = \<lparr> master = new_power_on, slave = new_power_on \<rparr>"

definition vector_bases :: "DualPic8259 \<Rightarrow> u8 \<times> u8" where
  "vector_bases d = (vector_base (master d), vector_base (slave d))"

definition cascade_line :: "DualPic8259 \<Rightarrow> u8 option" where
  "cascade_line d =
     (if single (master d) \<or> single (slave d) \<or> icw3 (master d) = 0 then None
      else
        let slave_id = icw3 (slave d) AND 0x07
        in if icw3 (master d) AND irq_bit slave_id \<noteq> 0 then Some slave_id
           else lowest_set_bit (icw3 (master d)))"

definition slave_interrupt_output :: "DualPic8259 \<Rightarrow> bool" where
  "slave_interrupt_output d \<longleftrightarrow> pending_irq (slave d) \<noteq> None"

definition get_pending_vector :: "DualPic8259 \<Rightarrow> u8 option" where
  "get_pending_vector d =
     (let (line, cascade_bit, slave_pending) =
        (case cascade_line d of
           Some line \<Rightarrow>
             let pending = pending_irq (slave d)
             in (line, if pending \<noteq> None then irq_bit line else 0, pending)
         | None \<Rightarrow> (0, 0, None))
      in case pending_irq_with_extra_irr (master d) cascade_bit of
           None \<Rightarrow> None
         | Some master_irq \<Rightarrow>
             (case (if cascade_bit \<noteq> 0 \<and> master_irq = line then slave_pending else None) of
                Some slave_irq \<Rightarrow> Some (vector_base (slave d) OR slave_irq)
              | None \<Rightarrow> Some (vector_base (master d) OR master_irq)))"

definition acknowledge :: "DualPic8259 \<Rightarrow> u8 \<Rightarrow> u8 option \<times> DualPic8259" where
  "acknowledge d vector =
     (if vector AND 0xF8 = vector_base (slave d) then
        let irq = vector AND 0x07;
            line = (case cascade_line d of Some l \<Rightarrow> l | None \<Rightarrow> 2)
        in case acknowledge_irq (slave d) irq of
             (True, s) \<Rightarrow>
               let mst = force_in_service (master d) line
               in (Some (8 + irq), d\<lparr>slave := s, master := mst\<lparr>irr := irr mst AND NOT (irq_bit line)\<rparr>\<rparr>)
           | (False, s) \<Rightarrow>
               (None, d\<lparr>slave := s, master := (if irq = 7 then force_in_service (master d) line else master d)\<rparr>)
      else if vector AND 0xF8 = vector_base (master d) then
        let irq = vector AND 0x07
        in if irq = 7 \<and> \<not> is_irq_requested (master d) 7 then (None, d)
           else (case acknowledge_irq (master d) irq of
                   (True, mst) \<Rightarrow> (Some irq, d\<lparr>master := mst\<rparr>)
                 | (False, mst) \<Rightarrow> (None, d\<lparr>master := mst\<rparr>))
      else (None, d))"

definition pic_set_line :: "DualPic8259 \<Rightarrow> u8 \<Rightarrow> bool \<Rightarrow> DualPic8259" where
  "pic_set_line d irq level =
     (if irq \<le> 7 then d\<lparr>master := set_irq_level (master d) irq level\<rparr>
      else if irq \<le> 15 then d\<lparr>slave := set_irq_level (slave d) (irq - 8) level\<rparr>
      else d)"

definition pic_raise_irq :: "DualPic8259 \<Rightarrow> u8 \<Rightarrow> DualPic8259" where
  "pic_raise_irq d irq = pic_set_line d irq True"

definition pic_lower_irq :: "DualPic8259 \<Rightarrow> u8 \<Rightarrow> DualPic8259" where
  "pic_lower_irq d irq = pic_set_line d irq False"

definition MASTER_CMD :: u16 where "MASTER_CMD = 0x20"
definition MASTER_DATA :: u16 where "MASTER_DATA = 0x21"
definition SLAVE_CMD :: u16 where "SLAVE_CMD = 0xA0"
definition SLAVE_DATA :: u16 where "SLAVE_DATA = 0xA1"

definition port_read_u8 :: "DualPic8259 \<Rightarrow> u16 \<Rightarrow> u8" where
  "port_read_u8 d port =
     (if port = MASTER_CMD then
        if read_isr (master d) then isr (master d)
        else (case cascade_line d of
                Some line \<Rightarrow> if slave_interrupt_output d then irr (master d) OR irq_bit line else irr (master d)
              | None \<Rightarrow> irr (master d))
      else if port = MASTER_DATA then data_read (master d)
      else if port = SLAVE_CMD then command_read (slave d)
      else if port = SLAVE_DATA then data_read (slave d)
      else 0xFF)"

definition port_write_u8 :: "DualPic8259 \<Rightarrow> u16 \<Rightarrow> u8 \<Rightarrow> DualPic8259" where
  "port_write_u8 d port val =
     (if port = MASTER_CMD then d\<lparr>master := write_command (master d) val\<rparr>
      else if port = MASTER_DATA then d\<lparr>master := write_data (master d) val\<rparr>
      else if port = SLAVE_CMD then d\<lparr>slave := write_command (slave d) val\<rparr>
      else if port = SLAVE_DATA then d\<lparr>slave := write_data (slave d) val\<rparr>
      else d)"

section \<open>Priorities\<close>

text \<open>The position of an IRQ in the priority order: 0 is the highest priority.\<close>

definition priority :: "Pic8259 \<Rightarrow> u8 \<Rightarrow> nat" where
  "priority pic irq = unat ((irq - (lowest_priority pic AND 7) - 1) AND 7)"

lemma less8_cases: "n < 8 \<Longrightarrow> n = 0 \<or> n = 1 \<or> n = 2 \<or> n = 3 \<or> n = 4 \<or> n = 5 \<or> n = 6 \<or> n = 7" for n :: nat
  by arith

lemma le7_cases: "q \<le> 7 \<longleftrightarrow> q = 0 \<or> q = 1 \<or> q = 2 \<or> q = 3 \<or> q = 4 \<or> q = 5 \<or> q = 6 \<or> q = 7" for q :: u8
proof
  assume "q \<le> 7"
  then have "unat q < 8" by (simp add: word_le_nat_alt)
  then have "of_nat (unat q) = (0 :: u8) \<or> of_nat (unat q) = (1 :: u8) \<or> of_nat (unat q) = (2 :: u8) \<or>
      of_nat (unat q) = (3 :: u8) \<or> of_nat (unat q) = (4 :: u8) \<or> of_nat (unat q) = (5 :: u8) \<or>
      of_nat (unat q) = (6 :: u8) \<or> of_nat (unat q) = (7 :: u8)"
    using less8_cases by fastforce
  then show "q = 0 \<or> q = 1 \<or> q = 2 \<or> q = 3 \<or> q = 4 \<or> q = 5 \<or> q = 6 \<or> q = 7" by simp
qed auto

lemma and7_le: "x AND 7 \<le> 7" for x :: u8
  using unat_and_mask [of x 3] by (simp add: mask_eq_exp_minus_1 word_le_nat_alt)

lemmas and7_cases = and7_le [unfolded le7_cases]

lemma length_order [simp]: "length (irq_priority_order pic) = 8"
  by (simp add: irq_priority_order_def)

lemma order_nth: "k < 8 \<Longrightarrow> irq_priority_order pic ! k = ((lowest_priority pic AND 7) + of_nat (Suc k)) AND 7"
  by (simp add: irq_priority_order_def)

lemma order_priority: "q \<le> 7 \<Longrightarrow> priority pic q < 8 \<and> irq_priority_order pic ! priority pic q = q"
  using and7_cases [of "lowest_priority pic"] unfolding le7_cases
  by (elim disjE) (simp_all add: priority_def order_nth)

lemma priority_order: "k < 8 \<Longrightarrow> irq_priority_order pic ! k \<le> 7 \<and> priority pic (irq_priority_order pic ! k) = k"
  by (drule less8_cases, rule disjE [OF and7_cases [of "lowest_priority pic"]]; (elim disjE)?)
    (simp_all add: priority_def order_nth)

text \<open>The bits of the registers, by IRQ number.\<close>

lemma irq_flag [simp]: "w AND irq_bit q = 0 \<longleftrightarrow> \<not> bit w (unat q)" for q :: u8
  unfolding irq_bit_def by (rule flag_clear_iff)

lemma bit_irq_bit: "bit (irq_bit q) n \<longleftrightarrow> n = unat q \<and> n < 8" for q :: u8
  unfolding irq_bit_def bit_flag by auto

definition requested :: "Pic8259 \<Rightarrow> u8 \<Rightarrow> u8 \<Rightarrow> bool" where
  "requested pic x q \<longleftrightarrow> bit (irr pic OR x) (unat q) \<and> \<not> bit (imr pic) (unat q)"

abbreviation in_service :: "Pic8259 \<Rightarrow> u8 \<Rightarrow> bool" where
  "in_service pic q \<equiv> bit (isr pic) (unat q)"

lemma pending_scan_iff:
  "pending_scan (List.find S xs) p xs = Some q \<longleftrightarrow>
    (\<exists>k < length xs. xs ! k = q \<and> bit p (unat q) \<and> (\<forall>j < k. \<not> bit p (unat (xs ! j))) \<and> (\<forall>j \<le> k. \<not> S (xs ! j)))"
proof (induction xs)
  case (Cons x xs)
  show ?case
  proof (cases "S x")
    case True
    then show ?thesis by auto
  next
    case False
    then have h: "Some x \<noteq> List.find S xs" by (auto simp: find_Some_iff dest!: sym [of "Some x"])
    have shift: "(\<forall>j \<le> Suc k. P j) \<longleftrightarrow> P 0 \<and> (\<forall>j \<le> k. P (Suc j))" for P and k :: nat
      by (metis Suc_le_mono le0 not0_implies_Suc)
    show ?thesis using False h Cons.IH
      by (auto simp: Ex_less_Suc2 All_less_Suc2 shift)
  qed
qed simp

lemma at_priority: "(\<exists>k < 8. irq_priority_order pic ! k = q \<and> R k) \<longleftrightarrow> q \<le> 7 \<and> R (priority pic q)"
  using order_priority [of q pic] priority_order [of _ pic] by auto

lemma pending_iff:
  "pending_irq_with_extra_irr pic x = Some q \<longleftrightarrow>
    q \<le> 7 \<and> requested pic x q \<and> (\<forall>r \<le> 7. requested pic x r \<longrightarrow> priority pic q \<le> priority pic r) \<and>
    (\<forall>r \<le> 7. in_service pic r \<longrightarrow> priority pic q < priority pic r)"
proof -
  let ?xs = "irq_priority_order pic" and ?p = "(irr pic OR x) AND NOT (imr pic)"
  have req: "bit ?p (unat r) \<longleftrightarrow> requested pic x r" for r :: u8
    using unat_less [of r] by (auto simp: requested_def bit_simps dest: bit_imp_le_length)
  have below: "(\<forall>j < k. \<not> P (?xs ! j)) \<longleftrightarrow> (\<forall>r \<le> 7. P r \<longrightarrow> k \<le> priority pic r)" if "k \<le> 8" for P k
  proof
    assume *: "\<forall>j < k. \<not> P (?xs ! j)"
    show "\<forall>r \<le> 7. P r \<longrightarrow> k \<le> priority pic r"
      using * order_priority by (metis linorder_not_le)
  next
    assume *: "\<forall>r \<le> 7. P r \<longrightarrow> k \<le> priority pic r"
    show "\<forall>j < k. \<not> P (?xs ! j)"
    proof (intro allI impI notI)
      fix j assume "j < k" "P (?xs ! j)"
      then show False using * priority_order [of j pic] that by fastforce
    qed
  qed
  have "pending_irq_with_extra_irr pic x = pending_scan (highest_in_service pic) ?p ?xs"
  proof (cases "?p = 0")
    case True
    have "pending_scan h 0 xs = None" for h xs by (induction xs) auto
    then show ?thesis using True by (simp add: pending_irq_with_extra_irr_def)
  qed (simp add: pending_irq_with_extra_irr_def)
  also have "\<dots> = Some q \<longleftrightarrow> (\<exists>k < 8. ?xs ! k = q \<and> requested pic x q \<and>
      (\<forall>j < k. \<not> requested pic x (?xs ! j)) \<and> (\<forall>j < Suc k. \<not> in_service pic (?xs ! j)))"
    by (simp add: highest_in_service_def pending_scan_iff req less_Suc_eq_le)
  also have "\<dots> \<longleftrightarrow> (\<exists>k < 8. ?xs ! k = q \<and> requested pic x q \<and>
      (\<forall>r \<le> 7. requested pic x r \<longrightarrow> k \<le> priority pic r) \<and> (\<forall>r \<le> 7. in_service pic r \<longrightarrow> Suc k \<le> priority pic r))"
  proof (rule ex_cong1)
    fix k show "(k < 8 \<and> ?xs ! k = q \<and> requested pic x q \<and> (\<forall>j < k. \<not> requested pic x (?xs ! j)) \<and>
        (\<forall>j < Suc k. \<not> in_service pic (?xs ! j))) = (k < 8 \<and> ?xs ! k = q \<and> requested pic x q \<and>
        (\<forall>r \<le> 7. requested pic x r \<longrightarrow> k \<le> priority pic r) \<and> (\<forall>r \<le> 7. in_service pic r \<longrightarrow> Suc k \<le> priority pic r))"
      using below [of k "requested pic x"] below [of "Suc k" "in_service pic"] by (cases "k < 8") simp_all
  qed
  also have "\<dots> \<longleftrightarrow> q \<le> 7 \<and> requested pic x q \<and> (\<forall>r \<le> 7. requested pic x r \<longrightarrow> priority pic q \<le> priority pic r) \<and>
      (\<forall>r \<le> 7. in_service pic r \<longrightarrow> priority pic q < priority pic r)"
    unfolding at_priority Suc_le_eq ..
  finally show ?thesis .
qed

section \<open>Well-formed controllers\<close>

definition pic_wf :: "Pic8259 \<Rightarrow> bool" where
  "pic_wf pic \<longleftrightarrow> vector_base pic AND 7 = 0 \<and> lowest_priority pic \<le> 7 \<and>
     (level_triggered pic \<longrightarrow> (\<forall>n. bit (irr pic) n \<longrightarrow> bit (line_level pic) n \<or> bit (isr pic) n))"

definition dual_wf :: "DualPic8259 \<Rightarrow> bool" where
  "dual_wf d \<longleftrightarrow> pic_wf (master d) \<and> pic_wf (slave d)"

lemma refresh_fields [simp]:
  "imr (refresh_level_triggered_irr pic) = imr pic" "isr (refresh_level_triggered_irr pic) = isr pic"
  "line_level (refresh_level_triggered_irr pic) = line_level pic"
  "vector_base (refresh_level_triggered_irr pic) = vector_base pic" "icw3 (refresh_level_triggered_irr pic) = icw3 pic"
  "level_triggered (refresh_level_triggered_irr pic) = level_triggered pic"
  "auto_eoi (refresh_level_triggered_irr pic) = auto_eoi pic" "single (refresh_level_triggered_irr pic) = single pic"
  "lowest_priority (refresh_level_triggered_irr pic) = lowest_priority pic"
  by (simp_all add: refresh_level_triggered_irr_def Let_def)

lemma refresh_irr: "irr (refresh_level_triggered_irr pic) =
    (irr pic OR line_level pic AND NOT (isr pic)) AND (line_level pic OR isr pic)"
  by (simp add: refresh_level_triggered_irr_def Let_def)

lemma and_F8: "(x AND 0xF8) AND 7 = 0" for x :: u8
  by (simp add: and.assoc)

text \<open>Most operations end with the refresh in level-triggered mode, which repairs the invariant.\<close>

definition settle :: "Pic8259 \<Rightarrow> Pic8259" where
  "settle pic = (if level_triggered pic then refresh_level_triggered_irr pic else pic)"

lemmas settled_defs = write_ocw2_def [unfolded Let_def, folded settle_def]
  set_irq_level_def [unfolded Let_def, folded settle_def] acknowledge_irq_def [unfolded Let_def, folded settle_def]
  force_in_service_def [unfolded Let_def, folded settle_def]

lemma settle_fields [simp]:
  "imr (settle pic) = imr pic" "isr (settle pic) = isr pic" "line_level (settle pic) = line_level pic"
  "vector_base (settle pic) = vector_base pic" "icw3 (settle pic) = icw3 pic" "single (settle pic) = single pic"
  "level_triggered (settle pic) = level_triggered pic" "auto_eoi (settle pic) = auto_eoi pic"
  "lowest_priority (settle pic) = lowest_priority pic"
  by (simp_all add: settle_def)

lemma settle_irr: "bit (irr (settle pic)) n \<longleftrightarrow>
    (if level_triggered pic then bit (line_level pic) n \<and> \<not> bit (isr pic) n \<or>
       bit (irr pic) n \<and> (bit (line_level pic) n \<or> bit (isr pic) n) else bit (irr pic) n)"
  by (auto simp: settle_def refresh_irr bit_simps dest: bit_imp_le_length)

lemma pic_wf_settle: "vector_base pic AND 7 = 0 \<Longrightarrow> lowest_priority pic \<le> 7 \<Longrightarrow> pic_wf (settle pic)"
  by (auto simp: pic_wf_def settle_irr)

lemma pic_wf_power_on [wf_intros]: "pic_wf new_power_on"
  by (simp add: pic_wf_def new_power_on_def)

lemma pic_wf_write_ocw2: "pic_wf pic \<Longrightarrow> pic_wf (write_ocw2 pic val)"
  unfolding settled_defs
  by (auto simp: and7_le pic_wf_def [of pic] intro!: pic_wf_settle split: option.split) (auto simp: pic_wf_def and7_le)

lemma pic_wf_write_command [wf_intros]: "pic_wf pic \<Longrightarrow> pic_wf (write_command pic val)"
  using pic_wf_write_ocw2 by (auto simp: write_command_def pic_wf_def write_icw1_def)

lemma pic_wf_write_data [wf_intros]: "pic_wf pic \<Longrightarrow> pic_wf (write_data pic val)"
  by (auto simp: pic_wf_def write_data_def and_F8 Let_def split: InitState.split)

lemma pic_wf_set_irq_level [wf_intros]: "pic_wf pic \<Longrightarrow> pic_wf (set_irq_level pic irq level)"
  unfolding settled_defs by (auto simp: pic_wf_def [of pic] intro!: pic_wf_settle)

lemma pic_wf_acknowledge_irq [wf_intros]: "pic_wf pic \<Longrightarrow> pic_wf (snd (acknowledge_irq pic irq))"
  unfolding settled_defs by (auto simp: pic_wf_def [of pic] intro!: pic_wf_settle)

lemma pic_wf_force_in_service [wf_intros]: "pic_wf pic \<Longrightarrow> pic_wf (force_in_service pic irq)"
  unfolding settled_defs by (auto simp: pic_wf_def [of pic] intro!: pic_wf_settle)

lemma pic_wf_clear_irr: "pic_wf pic \<Longrightarrow> pic_wf (pic\<lparr>irr := irr pic AND c\<rparr>)"
  by (auto simp: pic_wf_def bit_simps)

text \<open>Everything the processor and the devices can do to the pair.\<close>

inductive pic_reachable :: "DualPic8259 \<Rightarrow> bool" where
  power_on: "pic_reachable DualPic8259_new"
| port: "pic_reachable d \<Longrightarrow> pic_reachable (port_write_u8 d p val)"
| raise: "pic_reachable d \<Longrightarrow> pic_reachable (pic_raise_irq d irq)"
| lower: "pic_reachable d \<Longrightarrow> pic_reachable (pic_lower_irq d irq)"
| ack: "pic_reachable d \<Longrightarrow> pic_reachable (snd (acknowledge d v))"

lemma dual_wf_acknowledge [wf_intros]: "dual_wf d \<Longrightarrow> dual_wf (snd (acknowledge d v))"
  using pic_wf_acknowledge_irq [of "slave d" "v AND 7"] pic_wf_acknowledge_irq [of "master d" "v AND 7"]
  by (auto simp: acknowledge_def dual_wf_def Let_def intro: pic_wf_clear_irr pic_wf_force_in_service
      split: prod.split bool.split)

lemma reachable_dual_wf: "pic_reachable d \<Longrightarrow> dual_wf d"
  by (induction rule: pic_reachable.induct)
    (auto simp: dual_wf_def DualPic8259_new_def port_write_u8_def pic_raise_irq_def pic_lower_irq_def pic_set_line_def
      intro: wf_intros dual_wf_acknowledge [unfolded dual_wf_def, THEN conjunct1]
        dual_wf_acknowledge [unfolded dual_wf_def, THEN conjunct2])

section \<open>Acknowledging and ending interrupts\<close>

text \<open>
  What serving an interrupt does to a controller: the in-service bit is set unless end of interrupt
  is automatic, an edge-triggered request is consumed, and nothing else changes.
\<close>

definition served :: "Pic8259 \<Rightarrow> u8 \<Rightarrow> Pic8259 \<Rightarrow> bool" where
  "served pic q pic' \<longleftrightarrow>
     (\<forall>n. bit (isr pic') n \<longleftrightarrow> bit (isr pic) n \<or> n = unat q \<and> \<not> auto_eoi pic) \<and>
     (\<not> level_triggered pic \<longrightarrow> (\<forall>n. bit (irr pic') n \<longleftrightarrow> bit (irr pic) n \<and> n \<noteq> unat q)) \<and>
     imr pic' = imr pic \<and> line_level pic' = line_level pic \<and> vector_base pic' = vector_base pic \<and>
     lowest_priority pic' = lowest_priority pic \<and> auto_eoi pic' = auto_eoi pic \<and>
     level_triggered pic' = level_triggered pic"

lemma le7_less8: "q \<le> 7 \<Longrightarrow> unat q < 8" for q :: u8
  by (simp add: word_le_nat_alt)

lemma acknowledge_irq_served:
  assumes "q \<le> 7" "bit (irr pic) (unat q)"
  shows "\<exists>pic'. acknowledge_irq pic q = (True, pic') \<and> served pic q pic'"
  using assms le7_less8 [of q]
  by (auto simp: settled_defs served_def settle_irr bit_simps bit_irq_bit dest: bit_imp_le_length)

lemma cascade_served:
  assumes "q \<le> 7"
  shows "served pic q ((force_in_service pic q)\<lparr>irr := irr (force_in_service pic q) AND NOT (irq_bit q)\<rparr>)"
  using assms le7_less8 [of q]
  by (auto simp: settled_defs served_def settle_irr bit_simps bit_irq_bit dest: bit_imp_le_length)

text \<open>
  In level-triggered mode, the request of the acknowledged input is withdrawn until its end of interrupt (if that is not automatic); no other
  request is lost, and only an asserted line can add one.
\<close>

definition level_served :: "Pic8259 \<Rightarrow> u8 \<Rightarrow> Pic8259 \<Rightarrow> bool" where
  "level_served pic q pic' \<longleftrightarrow> level_triggered pic \<longrightarrow>
     (\<not> auto_eoi pic \<longrightarrow> \<not> bit (irr pic') (unat q)) \<and>
     (\<forall>n. n \<noteq> unat q \<longrightarrow> (bit (irr pic) n \<longrightarrow> bit (irr pic') n) \<and> (bit (irr pic') n \<longrightarrow> bit (irr pic) n \<or> bit (line_level pic) n))"

lemma acknowledge_level_served:
  assumes "pic_wf pic" "q \<le> 7" "acknowledge_irq pic q = (True, pic')"
  shows "level_served pic q pic'"
proof -
  have "bit (irr pic) n \<Longrightarrow> n < 8" for n using bit_imp_le_length [of "irr pic" n] by simp
  then show ?thesis
    using assms le7_less8 [of q]
    by (auto simp: settled_defs level_served_def settle_irr bit_simps bit_irq_bit pic_wf_def split: if_splits)
qed

lemma cascade_level_served:
  assumes "pic_wf pic" "q \<le> 7"
  shows "level_served pic q ((force_in_service pic q)\<lparr>irr := irr (force_in_service pic q) AND NOT (irq_bit q)\<rparr>)"
  using assms le7_less8 [of q]
  by (auto simp: settled_defs level_served_def settle_irr bit_simps bit_irq_bit pic_wf_def dest: bit_imp_le_length)

lemma vector_decode:
  fixes base q :: u8
  assumes "base AND 7 = 0" "q \<le> 7"
  shows "(base OR q) AND 0xF8 = base" "(base OR q) AND 7 = q"
proof -
  have "base AND mask 8 = base" by (rule bit_word_eqI) (simp add: bit_simps)
  then have "base = base AND (0xF8 OR 7)" by (simp add: mask_eq_exp_minus_1)
  then have b: "base AND 0xF8 = base" using assms(1) by (metis bit.conj_disj_distrib or.right_neutral)
  have q: "q AND 0xF8 = 0" "q AND 7 = q" using assms(2) unfolding le7_cases by auto
  show "(base OR q) AND 0xF8 = base" "(base OR q) AND 7 = q"
    by (simp_all add: bit.conj_disj_distrib2 b q assms(1))
qed

lemma cascade_line_le7: "cascade_line d = Some line \<Longrightarrow> line \<le> 7"
proof -
  have "of_nat i \<le> (7 :: u8)" if "List.find P [0..<8] = Some i" for P i
    using find_upt_SomeD [OF that] by (simp add: word_le_nat_alt unat_of_nat)
  then show "cascade_line d = Some line \<Longrightarrow> line \<le> 7"
    by (auto simp: cascade_line_def Let_def lowest_set_bit_def and7_le split: if_splits)
qed

text \<open>What is pending on the pair, from either side.\<close>

lemma get_pending_cases:
  assumes "get_pending_vector d = Some v"
  obtains (master) irq where "irq \<le> 7" "requested (master d) 0 irq" "v = vector_base (master d) OR irq"
  | (slave) line irq where "cascade_line d = Some line" "line \<le> 7" "irq \<le> 7" "pending_irq (slave d) = Some irq"
      "\<not> bit (imr (master d)) (unat line)" "v = vector_base (slave d) OR irq"
      "\<forall>r \<le> 7. in_service (master d) r \<longrightarrow> priority (master d) line < priority (master d) r"
proof (cases "cascade_line d")
  case None
  then show ?thesis using assms master by (auto simp: get_pending_vector_def pending_iff split: option.splits)
next
  case (Some line)
  note line = cascade_line_le7 [OF Some] and l8 = le7_less8 [OF cascade_line_le7 [OF Some]]
  show ?thesis
  proof (cases "pending_irq (slave d)")
    case None
    then show ?thesis using assms Some master by (auto simp: get_pending_vector_def pending_iff split: option.splits)
  next
    case (Some irq)
    then have irq: "irq \<le> 7" by (simp add: pending_irq_def pending_iff)
    obtain q where q: "pending_irq_with_extra_irr (master d) (irq_bit line) = Some q"
      using assms Some \<open>cascade_line d = Some line\<close> by (auto simp: get_pending_vector_def split: option.splits)
    have nz: "irq_bit line \<noteq> 0" using l8 by (auto simp: bit_eq_iff bit_irq_bit)
    have v: "v = (if q = line then vector_base (slave d) OR irq else vector_base (master d) OR q)"
      using assms Some \<open>cascade_line d = Some line\<close> q nz by (auto simp: get_pending_vector_def split: if_splits)
    show ?thesis
    proof (cases "q = line")
      case True
      then show ?thesis
        using slave [OF \<open>cascade_line d = Some line\<close> line irq Some] q v by (auto simp: pending_iff requested_def)
    next
      case False
      then have "unat q \<noteq> unat line" by (metis word_unat_eq_iff)
      then show ?thesis
        using master [of q] q False v by (auto simp: pending_iff requested_def bit_simps bit_irq_bit)
    qed
  qed
qed

lemma acknowledge_pending:
  assumes wf: "dual_wf d" and bases: "vector_base (master d) \<noteq> vector_base (slave d)"
    and v: "get_pending_vector d = Some v"
  shows "\<exists>irq d'. acknowledge d v = (Some irq, d') \<and>
    (irq \<le> 7 \<and> v = vector_base (master d) OR irq \<and> requested (master d) 0 irq \<and>
       served (master d) irq (master d') \<and> level_served (master d) irq (master d') \<and> slave d' = slave d \<or>
     (\<exists>line q. irq = 8 + q \<and> q \<le> 7 \<and> v = vector_base (slave d) OR q \<and> pending_irq (slave d) = Some q \<and>
       cascade_line d = Some line \<and> \<not> bit (imr (master d)) (unat line) \<and>
       served (slave d) q (slave d') \<and> level_served (slave d) q (slave d') \<and>
       served (master d) line (master d') \<and> level_served (master d) line (master d')))"
  using v
proof (cases rule: get_pending_cases)
  case (master irq)
  have dec: "v AND 0xF8 = vector_base (master d)" "v AND 7 = irq"
    using vector_decode [of "vector_base (master d)" irq] wf master by (auto simp: dual_wf_def pic_wf_def)
  have irr: "bit (irr (master d)) (unat irq)" using master(2) by (simp add: requested_def)
  have nsp: "\<not> (irq = 7 \<and> \<not> is_irq_requested (master d) 7)" using irr by (auto simp: is_irq_requested_def)
  obtain pic' where pic': "acknowledge_irq (master d) irq = (True, pic')" "served (master d) irq pic'"
    using acknowledge_irq_served [OF master(1) irr] by blast
  have "acknowledge d v = (Some irq, d\<lparr>master := pic'\<rparr>)"
    using bases nsp unfolding acknowledge_def dec Let_def pic'(1) by simp
  then show ?thesis using master pic'(2) acknowledge_level_served [OF _ master(1) pic'(1)] wf by (simp add: dual_wf_def)
next
  case (slave line irq)
  have dec: "v AND 0xF8 = vector_base (slave d)" "v AND 7 = irq"
    using vector_decode [of "vector_base (slave d)" irq] wf slave by (auto simp: dual_wf_def pic_wf_def)
  have "bit (irr (slave d)) (unat irq)" using slave(4) by (simp add: pending_irq_def pending_iff requested_def)
  then obtain s where s: "acknowledge_irq (slave d) irq = (True, s)" "served (slave d) irq s"
    using acknowledge_irq_served [OF slave(3)] by blast
  let ?m = "force_in_service (master d) line"
  have "acknowledge d v = (Some (8 + irq), d\<lparr>slave := s, master := ?m\<lparr>irr := irr ?m AND NOT (irq_bit line)\<rparr>\<rparr>)"
    unfolding acknowledge_def dec Let_def s(1) slave(1) by simp
  then show ?thesis
    using slave s(2) cascade_served [OF slave(2), of "master d"] cascade_level_served [OF _ slave(2), of "master d"]
      acknowledge_level_served [OF _ slave(3) s(1)] wf by (auto simp: dual_wf_def)
qed

lemma highest_in_service_after:
  assumes q: "q \<le> 7" "in_service pic q" and r: "\<forall>r \<le> 7. in_service pic r \<longrightarrow> priority pic q \<le> priority pic r"
  shows "highest_in_service pic = Some q"
proof -
  let ?k = "priority pic q"
  have k: "?k < 8" "irq_priority_order pic ! ?k = q" using order_priority [OF q(1)] by auto
  have "\<not> in_service pic (irq_priority_order pic ! j)" if "j < ?k" for j
    using r priority_order [of j pic] that k(1) by fastforce
  then show ?thesis unfolding highest_in_service_def find_Some_iff using k q(2) by (intro exI [of _ ?k]) simp
qed

text \<open>A non-specific end of interrupt ends the interrupt acknowledged last.\<close>

lemma eoi_after_acknowledge:
  assumes p: "pending_irq pic = Some q" and a: "acknowledge_irq pic q = (True, pic')" and eoi: "\<not> auto_eoi pic"
  shows "isr (write_command pic' 0x20) = isr pic"
proof -
  have q: "q \<le> 7" "bit (irr pic) (unat q)" "\<forall>r \<le> 7. in_service pic r \<longrightarrow> priority pic q < priority pic r"
    using p by (auto simp: pending_irq_def pending_iff requested_def)
  have s: "served pic q pic'" using acknowledge_irq_served [OF q(1,2)] a by simp
  have new: "\<not> in_service pic q" using q(1,3) by auto
  have "unat r \<noteq> unat q \<Longrightarrow> r \<noteq> q" for r :: u8 by auto
  have "priority pic' r = priority pic r" for r using s by (simp add: priority_def served_def)
  moreover have "in_service pic' r \<longleftrightarrow> in_service pic r \<or> r = q" for r
    using s eoi by (auto simp: served_def word_unat_eq_iff)
  ultimately have "highest_in_service pic' = Some q"
    using q by (intro highest_in_service_after) (auto simp: less_imp_le)
  then have "isr (write_command pic' 0x20) = isr pic' AND NOT (irq_bit q)"
    by (simp add: write_command_def settled_defs)
  also have "\<dots> = isr pic"
    using s eoi new q(1) by (intro bit_word_eqI) (auto simp: served_def bit_simps bit_irq_bit)
  finally show ?thesis .
qed

section \<open>Properties\<close>

text \<open>A programmed pair: bases 0x20 and 0x28, slave on line 2, IRQ 1 and IRQ 12 raised, nothing masked.\<close>

definition sample_pair :: DualPic8259 where
  "sample_pair =
     (let p = new_power_on\<lparr>imr := 0, single := False\<rparr>
      in \<lparr> master = p\<lparr>vector_base := 0x20, icw3 := 4, irr := 2, line_level := 2\<rparr>,
           slave = p\<lparr>vector_base := 0x28, icw3 := 2, irr := 0x10, line_level := 0x10\<rparr> \<rparr>)"

lemma sample_pair_wf: "dual_wf sample_pair"
  by (simp add: dual_wf_def pic_wf_def sample_pair_def new_power_on_def Let_def)

lemmas pic_eval = sample_pair_def new_power_on_def pending_irq_def pending_irq_with_extra_irr_def
  highest_in_service_def irq_priority_order_def irq_bit_def upt_rec Let_def

text \<open>
  (C23) Priority resolution. A controller offers an IRQ exactly when it is requested and not masked,
  no other unmasked request has a higher priority, and every interrupt in service has a strictly
  lower one. This holds for every rotation of the priorities.
\<close>

theorem pic_pending_is_highest_priority:
  "pending_irq_with_extra_irr pic x = Some q \<longleftrightarrow>
    q \<le> 7 \<and> requested pic x q \<and> (\<forall>r \<le> 7. requested pic x r \<longrightarrow> priority pic q \<le> priority pic r) \<and>
    (\<forall>r \<le> 7. in_service pic r \<longrightarrow> priority pic q < priority pic r)"
  by (rule pending_iff)

theorem pic_pending_is_highest_priority_witness:
  "pending_irq_with_extra_irr (slave sample_pair) 3 = Some 0 \<and> priority (slave sample_pair) 0 \<le> priority (slave sample_pair) 4"
proof -
  have p: "pending_irq_with_extra_irr (slave sample_pair) 3 = Some 0" by (simp add: pic_eval)
  have "requested (slave sample_pair) 3 4" by (simp add: requested_def sample_pair_def new_power_on_def Let_def)
  then show ?thesis
    using p pic_pending_is_highest_priority [of "slave sample_pair" 3 0] by auto
qed

text \<open>
  (C22) Acknowledging what is pending. When the two controllers have been given different vector bases (at power on they are equal,
  and then the lemma \<open>equal_bases_lose_acknowledge\<close> shows a request that is lost), acknowledging the vector that
  \<^verbatim>\<open>get_pending_vector\<close> returned always consumes a request and names the right IRQ: either an unmasked
  request of the master, with the slave untouched, or the request the slave offers, served there and on the cascade line of the master. Serving
  a request sets its in-service bit unless the end of interrupt is automatic. In edge mode exactly its request bit is cleared; in level mode its
  request is withdrawn unless the end of interrupt is automatic, no other request is lost and only asserted lines add one.
\<close>

theorem pic_acknowledge_consumes_pending:
  assumes "dual_wf d" and "vector_base (master d) \<noteq> vector_base (slave d)" and "get_pending_vector d = Some v"
  shows "\<exists>irq d'. acknowledge d v = (Some irq, d') \<and>
    (irq \<le> 7 \<and> v = vector_base (master d) OR irq \<and> requested (master d) 0 irq \<and>
       served (master d) irq (master d') \<and> level_served (master d) irq (master d') \<and> slave d' = slave d \<or>
     (\<exists>line q. irq = 8 + q \<and> q \<le> 7 \<and> v = vector_base (slave d) OR q \<and> pending_irq (slave d) = Some q \<and>
       cascade_line d = Some line \<and> \<not> bit (imr (master d)) (unat line) \<and>
       served (slave d) q (slave d') \<and> level_served (slave d) q (slave d') \<and>
       served (master d) line (master d') \<and> level_served (master d) line (master d')))"
  using acknowledge_pending [OF assms] .

theorem pic_acknowledge_consumes_pending_witness:
  "dual_wf sample_pair \<and> get_pending_vector sample_pair = Some 0x21 \<and>
   (\<exists>d'. acknowledge sample_pair 0x21 = (Some 1, d') \<and> served (master sample_pair) 1 (master d'))"
proof -
  have p: "get_pending_vector sample_pair = Some 0x21"
    by (simp add: get_pending_vector_def cascade_line_def pic_eval)
  moreover have "fst (acknowledge sample_pair 0x21) = Some 1"
    by (simp add: acknowledge_def acknowledge_irq_def pic_eval)
  moreover have "vector_base (master sample_pair) = 0x20" "vector_base (slave sample_pair) = 0x28"
    by (simp_all add: sample_pair_def new_power_on_def Let_def)
  moreover have "0x28 OR q \<noteq> 0x21" if "q \<le> 7" for q :: u8
    using that unfolding le7_cases by auto
  ultimately show ?thesis
    using pic_acknowledge_consumes_pending [OF sample_pair_wf _ p] sample_pair_wf by auto
qed

text \<open>
  Interrupts nest. After the pending IRQ of a controller without automatic end of interrupt is
  acknowledged, only a request of strictly higher priority is offered, and a non-specific end of
  interrupt restores the in-service register as it was before the acknowledgement.
\<close>

theorem pic_interrupts_nest:
  assumes "pending_irq pic = Some q" and "\<not> auto_eoi pic"
  shows "\<exists>pic'. acknowledge_irq pic q = (True, pic') \<and> in_service pic' q \<and>
    (\<forall>x r. pending_irq_with_extra_irr pic' x = Some r \<longrightarrow> priority pic' r < priority pic' q) \<and>
    isr (write_command pic' 0x20) = isr pic"
proof -
  have q: "q \<le> 7" "bit (irr pic) (unat q)" using assms by (auto simp: pending_irq_def pending_iff requested_def)
  then obtain pic' where a: "acknowledge_irq pic q = (True, pic')" "served pic q pic'"
    using acknowledge_irq_served by blast
  have s: "in_service pic' q" using a(2) assms(2) by (simp add: served_def)
  then show ?thesis
    using a(1) q(1) eoi_after_acknowledge [OF assms(1) a(1) assms(2)] by (auto simp: pending_iff)
qed

theorem pic_interrupts_nest_witness:
  "pending_irq (slave sample_pair) = Some 4 \<and> \<not> auto_eoi (slave sample_pair) \<and>
   isr (write_command (snd (acknowledge_irq (slave sample_pair) 4)) 0x20) = 0"
proof -
  have p: "pending_irq (slave sample_pair) = Some 4" by (simp add: pic_eval)
  have a: "\<not> auto_eoi (slave sample_pair)" "isr (slave sample_pair) = 0"
    by (simp_all add: sample_pair_def new_power_on_def Let_def)
  show ?thesis using pic_interrupts_nest [OF p a(1)] p a by auto
qed

text \<open>
  Initialisation. Whatever state a controller is in, ICW1 followed by the words it announces
  (ICW2, ICW3 unless single, ICW4 if requested) leaves it with no request and nothing in service,
  nothing masked, fixed priorities, the vector base of ICW2 rounded down to a multiple of 8 and the
  trigger and end-of-interrupt modes of ICW1 and ICW4, ready to take OCW1 as its mask.
\<close>

theorem pic_initialisation:
  fixes icw1 icw2 w3 icw4 ocw1 :: u8 and pic :: Pic8259
  assumes "icw1 AND 0x10 \<noteq> 0"
  defines "words \<equiv> [icw2] @ (if icw1 AND 2 \<noteq> 0 then [] else [w3]) @ (if icw1 AND 1 \<noteq> 0 then [icw4] else [])"
  defines "pic' \<equiv> fold (\<lambda>w p. write_data p w) words (write_command pic icw1)"
  shows "pic' = \<lparr> imr = 0, irr = 0, isr = 0, line_level = 0, vector_base = icw2 AND 0xF8,
      icw3 = (if icw1 AND 2 \<noteq> 0 then icw3 pic else w3), read_isr = False, level_triggered = (icw1 AND 8 \<noteq> 0),
      auto_eoi = (icw1 AND 1 \<noteq> 0 \<and> icw4 AND 2 \<noteq> 0), single = (icw1 AND 2 \<noteq> 0), init_state = InitNone,
      expect_icw4 = (icw1 AND 1 \<noteq> 0), lowest_priority = 7 \<rparr> \<and>
    data_read (write_data pic' ocw1) = ocw1"
proof -
  have "pic' = \<lparr> imr = 0, irr = 0, isr = 0, line_level = 0, vector_base = icw2 AND 0xF8,
      icw3 = (if icw1 AND 2 \<noteq> 0 then icw3 pic else w3), read_isr = False, level_triggered = (icw1 AND 8 \<noteq> 0),
      auto_eoi = (icw1 AND 1 \<noteq> 0 \<and> icw4 AND 2 \<noteq> 0), single = (icw1 AND 2 \<noteq> 0), init_state = InitNone,
      expect_icw4 = (icw1 AND 1 \<noteq> 0), lowest_priority = 7 \<rparr>"
    unfolding pic'_def words_def using assms(1)
    by (auto simp: write_command_def write_icw1_def write_data_def)
  then show ?thesis by (simp add: write_data_def data_read_def)
qed

theorem pic_initialisation_witness:
  "let pic' = write_data (write_data (write_data (write_command new_power_on 0x11) 0x23) 4) 1
   in vector_base pic' = 0x20 \<and> icw3 pic' = 4 \<and> init_state pic' = InitNone \<and> data_read (write_data pic' 0xFB) = 0xFB"
  using pic_initialisation [of "0x11" "0x23" 4 1 new_power_on "0xFB"]
  by (auto simp: Let_def)

text \<open>
  (C24) Level-triggered requests persist. In level-triggered mode a line that is high is a request
  whenever it is not in service: after its acknowledgement and the specific end of interrupt it is
  requested again, and lowering the line withdraws a request that is not in service.
\<close>

theorem pic_level_redelivery:
  assumes "level_triggered pic" and "q \<le> 7" and "bit (line_level pic) (unat q)" and "bit (irr pic) (unat q)"
  shows "bit (irr (write_command (snd (acknowledge_irq pic q)) (0x60 OR q))) (unat q) \<and>
    (\<not> in_service pic q \<longrightarrow> \<not> bit (irr (set_irq_level pic q False)) (unat q))"
proof -
  obtain pic' where a: "acknowledge_irq pic q = (True, pic')" "served pic q pic'"
    using acknowledge_irq_served [OF assms(2,4)] by blast
  have w: "(0x60 OR q) AND 0x10 = 0" "(0x60 OR q) AND 0x08 = 0" "(0x60 OR q) AND 0x20 \<noteq> 0" "(0x60 OR q) AND 0x40 \<noteq> 0"
      "(0x60 OR q) AND 0x80 = 0" "(0x60 OR q) AND 7 = q"
    using assms(2) unfolding le7_cases by auto
  have "write_command pic' (0x60 OR q) = settle (pic'\<lparr>isr := isr pic' AND NOT (irq_bit q)\<rparr>)"
    by (simp add: write_command_def settled_defs w)
  then have "bit (irr (write_command pic' (0x60 OR q))) (unat q)"
    using a(2) assms le7_less8 [OF assms(2)] by (simp add: settle_irr served_def bit_simps bit_irq_bit)
  moreover have "\<not> bit (irr (set_irq_level pic q False)) (unat q)" if "\<not> in_service pic q"
    using that assms le7_less8 [OF assms(2)] by (simp add: settled_defs settle_irr bit_simps bit_irq_bit)
  ultimately show ?thesis by (simp add: a(1))
qed

theorem pic_level_redelivery_witness:
  "let pic = (slave sample_pair)\<lparr>level_triggered := True\<rparr>
   in bit (irr (write_command (snd (acknowledge_irq pic 4)) 0x64)) 4 \<and> \<not> bit (irr (set_irq_level pic 4 False)) 4"
  using pic_level_redelivery [of "(slave sample_pair)\<lparr>level_triggered := True\<rparr>" 4]
  by (simp add: sample_pair_def new_power_on_def Let_def)

text \<open>
  (C25) In every state reachable by port writes, line changes and acknowledgements, the vector bases
  are multiples of 8, the lowest priority is an IRQ number, and a level-triggered request belongs to a
  line that is high or to an interrupt in service.
\<close>

theorem pic_reachable_invariant:
  assumes "pic_reachable d" and "pic = master d \<or> pic = slave d"
  shows "vector_base pic AND 7 = 0 \<and> lowest_priority pic \<le> 7 \<and>
    (level_triggered pic \<longrightarrow> (\<forall>n. bit (irr pic) n \<longrightarrow> bit (line_level pic) n \<or> in_service pic (of_nat n)))"
proof -
  have wf: "pic_wf pic" using reachable_dual_wf [OF assms(1)] assms(2) by (auto simp: dual_wf_def)
  have "bit (isr pic) n \<Longrightarrow> in_service pic (of_nat n)" for n
    using bit_imp_le_length [of "isr pic" n] by (simp add: unat_of_nat)
  then show ?thesis using wf by (auto simp: pic_wf_def)
qed

theorem pic_reachable_invariant_witness:
  "pic_reachable (pic_raise_irq (port_write_u8 DualPic8259_new MASTER_CMD 0x1B) 3) \<and>
   vector_base (slave (pic_raise_irq (port_write_u8 DualPic8259_new MASTER_CMD 0x1B) 3)) AND 7 = 0"
proof -
  have "pic_reachable (pic_raise_irq (port_write_u8 DualPic8259_new MASTER_CMD 0x1B) 3)"
    by (intro pic_reachable.intros)
  then show ?thesis using pic_reachable_invariant by blast
qed

text \<open>
  When the two vector bases coincide, as they do at power on, the acknowledgement decodes the vector
  for the slave and the pending request of the master is not consumed.
\<close>

lemma equal_bases_lose_acknowledge:
  defines "d \<equiv> pic_raise_irq (port_write_u8 DualPic8259_new MASTER_CMD 0x13) 3"
  shows "pic_reachable d \<and> get_pending_vector d = Some 3 \<and> acknowledge d 3 = (None, d)"
proof -
  have "pic_reachable d" unfolding d_def by (intro pic_reachable.intros)
  moreover have "get_pending_vector d = Some 3" "acknowledge d 3 = (None, d)"
    by (simp_all add: d_def pic_raise_irq_def pic_set_line_def port_write_u8_def MASTER_CMD_def DualPic8259_new_def
        write_command_def write_icw1_def set_irq_level_def get_pending_vector_def cascade_line_def acknowledge_def
        acknowledge_irq_def pic_eval)
  ultimately show ?thesis by blast
qed

end
