(* ===== verification/LocalApic.thy ===== *)
theory LocalApic
  imports Prelude
begin

text \<open>
  The local APIC of \<^verbatim>\<open>aero-interrupts/src/apic/local_apic.rs\<close>: the request and in-service bitmaps, the
  processor priority, acknowledgement and end of interrupt, the timer and the register page. The
  clock is outside of the model: every operation that reads it takes the time \<open>now\<close> in nanoseconds.
  The mutex around the state is held for a whole operation, so each operation is one step. The
  notifiers run after the state was updated: an operation returns what it would pass to them, and theory
  \<open>InterruptRouter\<close>, which registers them in the source, calls them. The snapshot functions are not modelled.
\<close>

section \<open>Interrupt commands\<close>

datatype DeliveryMode =
    DmFixed | DmLowestPriority | DmSmi | DmRemoteRead | DmNmi | DmInit | DmStartup | DmExtInt
  | DmReserved u8

definition DeliveryMode_from_bits :: "u8 \<Rightarrow> DeliveryMode" where
  "DeliveryMode_from_bits bits =
     (let b = bits AND 0x7
      in if b = 0 then DmFixed else if b = 1 then DmLowestPriority else if b = 2 then DmSmi
         else if b = 3 then DmRemoteRead else if b = 4 then DmNmi else if b = 5 then DmInit
         else if b = 6 then DmStartup else if b = 7 then DmExtInt else DmReserved b)"

datatype DestinationShorthand = NoShorthand | SelfOnly | AllIncludingSelf | AllExcludingSelf

text \<open>The last case of the source is \<^verbatim>\<open>unreachable!()\<close>: two bits have four values.\<close>

definition DestinationShorthand_from_bits :: "u8 \<Rightarrow> DestinationShorthand" where
  "DestinationShorthand_from_bits bits =
     (let b = bits AND 0x3
      in if b = 0 then NoShorthand else if b = 1 then SelfOnly else if b = 2 then AllIncludingSelf
         else AllExcludingSelf)"

datatype Level = Assert | Deassert

definition Level_from_bit :: "bool \<Rightarrow> Level" where
  "Level_from_bit b = (if b then Assert else Deassert)"

record Icr =
  icr_vector :: u8
  icr_delivery_mode :: DeliveryMode
  icr_destination_mode :: bool
  icr_level :: Level
  icr_destination_shorthand :: DestinationShorthand
  icr_destination :: u8

definition Icr_decode :: "u32 \<Rightarrow> u32 \<Rightarrow> Icr" where
  "Icr_decode low high =
     \<lparr> icr_vector = ucast (low AND 0xFF),
       icr_delivery_mode = DeliveryMode_from_bits (ucast (drop_bit 8 low AND 0x7)),
       icr_destination_mode = (drop_bit 11 low AND 1 \<noteq> 0),
       icr_level = Level_from_bit (drop_bit 14 low AND 1 \<noteq> 0),
       icr_destination_shorthand = DestinationShorthand_from_bits (ucast (drop_bit 18 low AND 0x3)),
       icr_destination = ucast (drop_bit 24 high AND 0xFF) \<rparr>"

section \<open>Bitmaps of 256 vectors\<close>

definition bitmap_word_index :: "u8 \<Rightarrow> nat" where
  "bitmap_word_index vector = unat (vector div 32)"

definition bitmap_bit_mask :: "u8 \<Rightarrow> u32" where
  "bitmap_bit_mask vector = push_bit (unat (vector mod 32)) 1"

definition bitmap_is_set :: "u32 list \<Rightarrow> u8 \<Rightarrow> bool" where
  "bitmap_is_set bitmap vector \<longleftrightarrow> bitmap ! bitmap_word_index vector AND bitmap_bit_mask vector \<noteq> 0"

definition bitmap_set :: "u32 list \<Rightarrow> u8 \<Rightarrow> u32 list" where
  "bitmap_set bitmap vector =
     (let idx = bitmap_word_index vector in bitmap[idx := bitmap ! idx OR bitmap_bit_mask vector])"

definition bitmap_clear :: "u32 list \<Rightarrow> u8 \<Rightarrow> u32 list" where
  "bitmap_clear bitmap vector =
     (let idx = bitmap_word_index vector in bitmap[idx := bitmap ! idx AND NOT (bitmap_bit_mask vector)])"

text \<open>\<^verbatim>\<open>31 - word.leading_zeros()\<close> of a word that is not zero: the position of its highest set bit.\<close>

definition highest_bit :: "u32 \<Rightarrow> nat" where
  "highest_bit word = (case List.find (bit word) (rev [0..<32]) of Some i \<Rightarrow> i | None \<Rightarrow> 0)"

definition bitmap_highest_set_bit :: "u32 list \<Rightarrow> u8 option" where
  "bitmap_highest_set_bit bitmap =
     (case List.find (\<lambda>idx. bitmap ! idx \<noteq> 0) (rev [0..<length bitmap]) of
        None \<Rightarrow> None
      | Some idx \<Rightarrow> Some (of_nat (idx * 32 + highest_bit (bitmap ! idx))))"

definition vector_priority_class :: "u8 \<Rightarrow> u8" where
  "vector_priority_class vector = vector AND 0xF0"

section \<open>The register state\<close>

datatype TimerMode = OneShot | Periodic

record LapicState =
  l_id :: u8
  tpr :: u8
  ldr :: u32
  dfr :: u32
  svr :: u32
  icr_low :: u32
  icr_high :: u32
  l_irr :: "u32 list"
  l_isr :: "u32 list"
  lvt_timer :: u32
  divide_config :: u32
  initial_count :: u32
  next_timer_deadline_ns :: "u64 option"

definition LapicState_new :: "u8 \<Rightarrow> LapicState" where
  "LapicState_new i = \<lparr> l_id = i, tpr = 0, ldr = 0, dfr = 0xFFFFFFFF, svr = 0xFF, icr_low = 0, icr_high = 0,
     l_irr = replicate 8 0, l_isr = replicate 8 0, lvt_timer = push_bit 16 1, divide_config = 0, initial_count = 0,
     next_timer_deadline_ns = None \<rparr>"

definition matches_logical_dest :: "LapicState \<Rightarrow> u8 \<Rightarrow> bool" where
  "matches_logical_dest s dest =
     (if dest = 0xFF then True
      else
        let ldr_bits = ucast (drop_bit 24 (ldr s)) :: u8;
            msk = (if ldr_bits \<noteq> 0 then ldr_bits else if l_id s < 8 then push_bit (unat (l_id s)) 1 else 0)
        in dest AND msk \<noteq> 0)"

definition enabled :: "LapicState \<Rightarrow> bool" where
  "enabled s \<longleftrightarrow> svr s AND push_bit 8 1 \<noteq> 0"

definition ppr :: "LapicState \<Rightarrow> u8" where
  "ppr s =
     (let task = tpr s AND 0xF0;
          isr_class = (case bitmap_highest_set_bit (l_isr s) of Some v \<Rightarrow> vector_priority_class v | None \<Rightarrow> 0)
      in max task isr_class)"

definition highest_deliverable_vector :: "LapicState \<Rightarrow> u8 \<Rightarrow> u8 option" where
  "highest_deliverable_vector s p =
     List.find (\<lambda>vector. bitmap_is_set (l_irr s) vector \<and> vector_priority_class vector > p)
       (map of_nat (rev [0..<256]))"

definition LapicState_ack :: "LapicState \<Rightarrow> u8 \<Rightarrow> bool \<times> LapicState" where
  "LapicState_ack s vector =
     (if \<not> enabled s then (False, s)
      else if \<not> bitmap_is_set (l_irr s) vector then (False, s)
      else if vector_priority_class vector \<le> ppr s then (False, s)
      else (True, s\<lparr>l_irr := bitmap_clear (l_irr s) vector, l_isr := bitmap_set (l_isr s) vector\<rparr>))"

definition LapicState_eoi :: "LapicState \<Rightarrow> u8 option \<times> LapicState" where
  "LapicState_eoi s =
     (case bitmap_highest_set_bit (l_isr s) of
        None \<Rightarrow> (None, s)
      | Some vector \<Rightarrow> (Some vector, s\<lparr>l_isr := bitmap_clear (l_isr s) vector\<rparr>))"

definition inject_fixed_interrupt_inner :: "LapicState \<Rightarrow> u8 \<Rightarrow> LapicState" where
  "inject_fixed_interrupt_inner s vector =
     (if enabled s then s\<lparr>l_irr := bitmap_set (l_irr s) vector\<rparr> else s)"

section \<open>The timer\<close>

definition timer_mode :: "LapicState \<Rightarrow> TimerMode" where
  "timer_mode s = (if drop_bit 17 (lvt_timer s) AND 3 = 1 then Periodic else OneShot)"

definition timer_masked :: "LapicState \<Rightarrow> bool" where
  "timer_masked s \<longleftrightarrow> lvt_timer s AND push_bit 16 1 \<noteq> 0"

definition timer_vector :: "LapicState \<Rightarrow> u8" where
  "timer_vector s = ucast (lvt_timer s AND 0xFF)"

definition timer_divisor :: "LapicState \<Rightarrow> u32" where
  "timer_divisor s =
     (let d = divide_config s AND 0x0B
      in if d = 0 then 2 else if d = 1 then 4 else if d = 2 then 8 else if d = 3 then 16
         else if d = 8 then 32 else if d = 9 then 64 else if d = 0xA then 128 else if d = 0xB then 1 else 2)"

definition timer_tick_ns :: "LapicState \<Rightarrow> u64" where
  "timer_tick_ns s = ucast (timer_divisor s)"

definition current_count_at :: "LapicState \<Rightarrow> u64 \<Rightarrow> u32" where
  "current_count_at s now =
     (case next_timer_deadline_ns s of
        None \<Rightarrow> 0
      | Some deadline \<Rightarrow>
          if initial_count s = 0 then 0
          else if now \<ge> deadline then 0
          else
            let remaining_ticks = div_ceil (deadline - now) (timer_tick_ns s)
            in ucast (min remaining_ticks 0xFFFFFFFF))"

definition timer_period_ns :: "LapicState \<Rightarrow> u64" where
  "timer_period_ns s = saturating_mul (ucast (initial_count s)) (timer_tick_ns s)"

definition poll_timer :: "LapicState \<Rightarrow> u64 \<Rightarrow> LapicState" where
  "poll_timer s now =
     (case next_timer_deadline_ns s of
        None \<Rightarrow> s
      | Some deadline \<Rightarrow>
          if initial_count s = 0 then s\<lparr>next_timer_deadline_ns := None\<rparr>
          else if now < deadline then s
          else
            let period_ns = timer_period_ns s
            in if period_ns = 0 then s\<lparr>next_timer_deadline_ns := None\<rparr>
               else
                 let s = (if enabled s \<and> \<not> timer_masked s
                          then inject_fixed_interrupt_inner s (timer_vector s) else s)
                 in case timer_mode s of
                      OneShot \<Rightarrow> s\<lparr>next_timer_deadline_ns := None\<rparr>
                    | Periodic \<Rightarrow>
                        let elapsed = now - deadline;
                            periods = elapsed div period_ns + 1
                        in s\<lparr>next_timer_deadline_ns :=
                               Some (saturating_add deadline (saturating_mul periods period_ns))\<rparr>)"

definition write_divide_config :: "LapicState \<Rightarrow> u64 \<Rightarrow> u32 \<Rightarrow> LapicState" where
  "write_divide_config s now val =
     (let s = poll_timer s now;
          remaining_ticks = current_count_at s now;
          s = s\<lparr>divide_config := val\<rparr>
      in if remaining_ticks = 0 then s
         else s\<lparr>next_timer_deadline_ns :=
                  Some (saturating_add now (saturating_mul (ucast remaining_ticks) (timer_tick_ns s)))\<rparr>)"

definition write_initial_count :: "LapicState \<Rightarrow> u64 \<Rightarrow> u32 \<Rightarrow> LapicState" where
  "write_initial_count s now val =
     (let s = (poll_timer s now)\<lparr>initial_count := val\<rparr>
      in if val = 0 then s\<lparr>next_timer_deadline_ns := None\<rparr>
         else s\<lparr>next_timer_deadline_ns := Some (saturating_add now (timer_period_ns s))\<rparr>)"

section \<open>The register page\<close>

definition LAPIC_MMIO_SIZE :: u64 where "LAPIC_MMIO_SIZE = 0x1000"
definition REG_ID :: u64 where "REG_ID = 0x20"
definition REG_VERSION :: u64 where "REG_VERSION = 0x30"
definition REG_TPR :: u64 where "REG_TPR = 0x80"
definition REG_PPR :: u64 where "REG_PPR = 0xA0"
definition REG_EOI :: u64 where "REG_EOI = 0xB0"
definition REG_LDR :: u64 where "REG_LDR = 0xD0"
definition REG_DFR :: u64 where "REG_DFR = 0xE0"
definition REG_SVR :: u64 where "REG_SVR = 0xF0"
definition REG_ISR_BASE :: u64 where "REG_ISR_BASE = 0x100"
definition REG_IRR_BASE :: u64 where "REG_IRR_BASE = 0x200"
definition REG_ICR_LOW :: u64 where "REG_ICR_LOW = 0x300"
definition REG_ICR_HIGH :: u64 where "REG_ICR_HIGH = 0x310"
definition REG_LVT_TIMER :: u64 where "REG_LVT_TIMER = 0x320"
definition REG_INITIAL_COUNT :: u64 where "REG_INITIAL_COUNT = 0x380"
definition REG_CURRENT_COUNT :: u64 where "REG_CURRENT_COUNT = 0x390"
definition REG_DIVIDE_CONFIG :: u64 where "REG_DIVIDE_CONFIG = 0x3E0"

lemmas lapic_regs = LAPIC_MMIO_SIZE_def REG_ID_def REG_VERSION_def REG_TPR_def REG_PPR_def REG_EOI_def REG_LDR_def
  REG_DFR_def REG_SVR_def REG_ISR_BASE_def REG_IRR_BASE_def REG_ICR_LOW_def REG_ICR_HIGH_def REG_LVT_TIMER_def
  REG_INITIAL_COUNT_def REG_CURRENT_COUNT_def REG_DIVIDE_CONFIG_def

definition is_apic_array_register :: "u64 \<Rightarrow> u64 \<Rightarrow> bool" where
  "is_apic_array_register off base \<longleftrightarrow> off \<ge> base \<and> off < base + 0x80 \<and> (off - base) mod 0x10 = 0"

definition apic_array_index :: "u64 \<Rightarrow> u64 \<Rightarrow> nat" where
  "apic_array_index off base = unat ((off - base) div 0x10)"

definition lapic_read_u32 :: "LapicState \<Rightarrow> u64 \<Rightarrow> u64 \<Rightarrow> u32" where
  "lapic_read_u32 s now off =
     (if off = REG_ID then push_bit 24 (ucast (l_id s))
      else if off = REG_VERSION then 0x00060014
      else if off = REG_TPR then ucast (tpr s)
      else if off = REG_PPR then ucast (ppr s)
      else if off = REG_EOI then 0
      else if off = REG_LDR then ldr s
      else if off = REG_DFR then dfr s
      else if off = REG_SVR then svr s
      else if off = REG_ICR_LOW then icr_low s
      else if off = REG_ICR_HIGH then icr_high s
      else if off = REG_LVT_TIMER then lvt_timer s
      else if off = REG_INITIAL_COUNT then initial_count s
      else if off = REG_CURRENT_COUNT then current_count_at s now
      else if off = REG_DIVIDE_CONFIG then divide_config s
      else if is_apic_array_register off REG_ISR_BASE then l_isr s ! apic_array_index off REG_ISR_BASE
      else if is_apic_array_register off REG_IRR_BASE then l_irr s ! apic_array_index off REG_IRR_BASE
      else 0)"

definition lapic_write_u32 :: "LapicState \<Rightarrow> u64 \<Rightarrow> u64 \<Rightarrow> u32 \<Rightarrow> u8 option \<times> LapicState" where
  "lapic_write_u32 s now off val =
     (if off = REG_ID then (None, s\<lparr>l_id := ucast (drop_bit 24 val)\<rparr>)
      else if off = REG_TPR then (None, s\<lparr>tpr := ucast val\<rparr>)
      else if off = REG_EOI then LapicState_eoi s
      else if off = REG_LDR then (None, s\<lparr>ldr := val AND 0xFF000000\<rparr>)
      else if off = REG_DFR then (None, s\<lparr>dfr := (val AND 0xF0000000) OR 0x0FFFFFFF\<rparr>)
      else if off = REG_SVR then (None, s\<lparr>svr := val\<rparr>)
      else if off = REG_ICR_LOW then (None, s\<lparr>icr_low := val\<rparr>)
      else if off = REG_ICR_HIGH then (None, s\<lparr>icr_high := val\<rparr>)
      else if off = REG_LVT_TIMER then (None, s\<lparr>lvt_timer := val\<rparr>)
      else if off = REG_DIVIDE_CONFIG then (None, write_divide_config s now val)
      else if off = REG_INITIAL_COUNT then (None, write_initial_count s now val)
      else (None, s))"

text \<open>
  The merge of the bytes of one word in a register write (\<^verbatim>\<open>for byte_idx in start_in_word..4\<close>), and
  the loop over the words. The indices of the bytes still to be merged are a list.
\<close>

fun merge_word :: "u64 \<Rightarrow> u8 list \<Rightarrow> u64 \<Rightarrow> nat list \<Rightarrow> nat \<Rightarrow> u32 \<Rightarrow> nat \<times> u32" where
  "merge_word offset data word_offset [] idx word = (idx, word)"
| "merge_word offset data word_offset (byte_idx # rest) idx word =
     (if idx \<ge> length data then (idx, word)
      else
        let off = offset + of_nat idx
        in if off \<ge> LAPIC_MMIO_SIZE then merge_word offset data word_offset rest (idx + 1) word
           else if off AND NOT 3 \<noteq> word_offset then (idx, word)
           else
             let shift = byte_idx * 8;
                 word = word AND NOT (push_bit shift 0xFF);
                 word = word OR push_bit shift (ucast (data ! idx))
             in merge_word offset data word_offset rest (idx + 1) word)"

lemma merge_word_mono: "idx \<le> fst (merge_word offset data wo bs idx word)"
proof (induction bs arbitrary: idx word)
  case (Cons b bs)
  have "idx \<le> fst (merge_word offset data wo bs (idx + 1) w)" for w using Cons.IH [of "idx + 1" w] by simp
  then show ?case by (simp add: Let_def)
qed simp

lemma merge_word_progress:
  assumes "idx < length data" "offset + of_nat idx < LAPIC_MMIO_SIZE"
  shows "idx < fst (merge_word offset data ((offset + of_nat idx) AND NOT 3)
    [unat ((offset + of_nat idx) AND 3)..<4] idx word)"
proof -
  have "unat ((offset + of_nat idx) AND mask 2) < 4" by (simp add: unat_and_mask)
  then have "[unat ((offset + of_nat idx) AND 3)..<4] \<noteq> []" by (simp add: mask_eq_exp_minus_1)
  then obtain b bs where bs: "[unat ((offset + of_nat idx) AND 3)..<4] = b # bs" by (meson list.exhaust)
  show ?thesis
    unfolding bs using assms merge_word_mono [of "Suc idx" offset data] by (simp add: Let_def Suc_le_eq)
qed

function mmio_write_loop ::
  "u64 \<Rightarrow> u64 \<Rightarrow> u8 list \<Rightarrow> nat \<Rightarrow> LapicState \<Rightarrow> u8 list \<Rightarrow> Icr list \<Rightarrow> u8 list \<times> Icr list \<times> LapicState" where
  "mmio_write_loop now offset data idx s eoi_vectors icr_events =
     (if idx < length data then
        let off = offset + of_nat idx
        in if off \<ge> LAPIC_MMIO_SIZE then mmio_write_loop now offset data (idx + 1) s eoi_vectors icr_events
           else
             let word_offset = off AND NOT 3;
                 start_in_word = unat (off AND 3);
                 (idx', word) = merge_word offset data word_offset [start_in_word..<4] idx
                                  (lapic_read_u32 s now word_offset);
                 (eoi, s) = lapic_write_u32 s now word_offset word;
                 eoi_vectors = (case eoi of Some v \<Rightarrow> eoi_vectors @ [v] | None \<Rightarrow> eoi_vectors);
                 icr_events = (if word_offset = REG_ICR_LOW then icr_events @ [Icr_decode word (icr_high s)]
                               else icr_events)
             in mmio_write_loop now offset data idx' s eoi_vectors icr_events
      else (eoi_vectors, icr_events, s))"
  by pat_completeness auto

termination
proof (relation "measure (\<lambda>(_, _, data, idx, _). length data - idx)", goal_cases)
  case (3 now offset data idx s eoi_vectors icr_events off wo st p idx' word q eoi s' ev ic)
  then have "idx < idx'"
    using merge_word_progress [of idx data offset "lapic_read_u32 s now wo"] by (metis fst_conv not_le)
  then show ?case using 3(1) by (simp add: diff_less_mono2)
qed auto

declare mmio_write_loop.simps [simp del]

section \<open>The operations of the local APIC\<close>

definition lapic_reset_state :: "LapicState \<Rightarrow> LapicState" where
  "lapic_reset_state s = LapicState_new (l_id s)"

definition set_tpr :: "LapicState \<Rightarrow> u8 \<Rightarrow> LapicState" where
  "set_tpr s v = s\<lparr>tpr := v\<rparr>"

definition set_tpr_from_cr8 :: "LapicState \<Rightarrow> u64 \<Rightarrow> LapicState" where
  "set_tpr_from_cr8 s cr8 = set_tpr s (push_bit 4 (ucast cr8 AND 0x0f))"

definition inject_fixed_interrupt :: "LapicState \<Rightarrow> u64 \<Rightarrow> u8 \<Rightarrow> LapicState" where
  "inject_fixed_interrupt s now vector = inject_fixed_interrupt_inner (poll_timer s now) vector"

definition lapic_get_pending_vector :: "LapicState \<Rightarrow> u64 \<Rightarrow> u8 option \<times> LapicState" where
  "lapic_get_pending_vector s now =
     (let s = poll_timer s now
      in (if \<not> enabled s then None else highest_deliverable_vector s (ppr s), s))"

definition is_pending :: "LapicState \<Rightarrow> u8 \<Rightarrow> bool" where
  "is_pending s vector = bitmap_is_set (l_irr s) vector"

definition lapic_ack :: "LapicState \<Rightarrow> u64 \<Rightarrow> u8 \<Rightarrow> bool \<times> LapicState" where
  "lapic_ack s now vector = LapicState_ack (poll_timer s now) vector"

text \<open>The vector that \<^verbatim>\<open>eoi\<close> passes to the notifiers, and the new state.\<close>

definition lapic_eoi :: "LapicState \<Rightarrow> u64 \<Rightarrow> u8 option \<times> LapicState" where
  "lapic_eoi s now = LapicState_eoi (poll_timer s now)"

definition mmio_read_byte :: "LapicState \<Rightarrow> u64 \<Rightarrow> u64 \<Rightarrow> u8" where
  "mmio_read_byte s now off =
     (if off \<ge> LAPIC_MMIO_SIZE then 0
      else ucast (drop_bit (unat ((off AND 3) * 8)) (lapic_read_u32 s now (off AND NOT 3)) AND 0xFF))"

definition lapic_mmio_read :: "LapicState \<Rightarrow> u64 \<Rightarrow> u64 \<Rightarrow> nat \<Rightarrow> u8 list \<times> LapicState" where
  "lapic_mmio_read s now offset len =
     (if len = 0 then ([], s)
      else let s = poll_timer s now in (map (\<lambda>idx. mmio_read_byte s now (offset + of_nat idx)) [0..<len], s))"

text \<open>
  A register write returns, beside the new state, the vectors for the EOI notifiers and the commands
  for the ICR notifiers; the caller of the notifiers is the platform (theory \<open>InterruptRouter\<close>).
\<close>

definition lapic_mmio_write :: "LapicState \<Rightarrow> u64 \<Rightarrow> u64 \<Rightarrow> u8 list \<Rightarrow> u8 list \<times> Icr list \<times> LapicState" where
  "lapic_mmio_write s now offset data =
     (if data = [] then ([], [], s) else mmio_write_loop now offset data 0 (poll_timer s now) [] [])"

section \<open>Bitmaps are sets of vectors\<close>

lemma find_rev_upt: "List.find P (rev [0..<n]) = Some i \<longleftrightarrow> i < n \<and> P i \<and> (\<forall>j. i < j \<and> j < n \<longrightarrow> \<not> P j)"
proof (induction n)
  case (Suc n)
  show ?case
  proof (cases "P n")
    case True
    then show ?thesis by (auto simp: less_Suc_eq)
  next
    case False
    then show ?thesis using Suc by (auto simp: less_Suc_eq)
  qed
qed simp

lemma find_rev_upt_None: "List.find P (rev [0..<n]) = None \<longleftrightarrow> (\<forall>j < n. \<not> P j)"
  by (auto simp: find_None_iff)

lemma vector_index: "unat (v div 32 :: u8) = unat v div 32" "unat (v mod 32 :: u8) = unat v mod 32"
  by (simp_all add: unat_div unat_mod)

lemma vector_index_less: "unat (v :: u8) div 32 < 8" "unat v mod 32 < 32"
  using unat_less [of v] by auto

lemma bitmap_is_set_bit: "bitmap_is_set bm v \<longleftrightarrow> bit (bm ! (unat v div 32)) (unat v mod 32)"
  unfolding bitmap_is_set_def bitmap_word_index_def bitmap_bit_mask_def vector_index flag_clear_iff by simp

lemma vector_eq_iff: "v = w \<longleftrightarrow> unat v div 32 = unat w div 32 \<and> unat v mod 32 = unat w mod 32" for v w :: u8
  by (metis div_mult_mod_eq word_unat_eq_iff)

lemma length_bitmap [simp]: "length (bitmap_set bm v) = length bm" "length (bitmap_clear bm v) = length bm"
  by (simp_all add: bitmap_set_def bitmap_clear_def Let_def)

lemma bitmap_is_set_set:
  "length bm = 8 \<Longrightarrow> bitmap_is_set (bitmap_set bm v) w \<longleftrightarrow> w = v \<or> bitmap_is_set bm w"
  using vector_index_less [of v] vector_index_less [of w]
  unfolding bitmap_is_set_bit vector_eq_iff [of w] bitmap_set_def bitmap_word_index_def bitmap_bit_mask_def vector_index
  by (auto simp: Let_def nth_list_update bit_or_iff bit_flag simp del: push_bit_eq_mult push_bit_of_1)

lemma bitmap_is_set_clear:
  "length bm = 8 \<Longrightarrow> bitmap_is_set (bitmap_clear bm v) w \<longleftrightarrow> w \<noteq> v \<and> bitmap_is_set bm w"
  using vector_index_less [of v] vector_index_less [of w]
  unfolding bitmap_is_set_bit vector_eq_iff [of w] bitmap_clear_def bitmap_word_index_def bitmap_bit_mask_def vector_index
  by (auto simp: Let_def nth_list_update bit_and_iff bit_not_iff bit_flag simp del: push_bit_eq_mult push_bit_of_1)

lemma unat_vector: "j < 8 \<Longrightarrow> n < 32 \<Longrightarrow> unat (of_nat (j * 32 + n) :: u8) = j * 32 + n"
  by (subst unat_of_nat) simp

lemma highest_bit_iff: "w \<noteq> 0 \<Longrightarrow> highest_bit w = i \<longleftrightarrow> bit w i \<and> (\<forall>j. i < j \<longrightarrow> \<not> bit w j)"
proof -
  assume "w \<noteq> 0"
  then obtain k where "bit w k" "k < 32" using bit_word_eqI [of w 0] by auto
  then obtain m where m: "List.find (bit w) (rev [0..<32]) = Some m"
    using find_rev_upt_None [of "bit w" 32] by (cases "List.find (bit w) (rev [0..<32])") auto
  have "bit w j \<Longrightarrow> j < 32" for j using bit_imp_le_length [of w j] by simp
  then have top: "bit w m" "\<not> bit w j" if "m < j" for j using m that unfolding find_rev_upt by auto
  have "bit w m" using m unfolding find_rev_upt by simp
  then show ?thesis using m top(2) by (auto simp: highest_bit_def) (metis nat_neq_iff)
qed

lemma bitmap_highest_None: "length bm = 8 \<Longrightarrow> bitmap_highest_set_bit bm = None \<longleftrightarrow> (\<forall>v. \<not> bitmap_is_set bm v)"
proof -
  assume len: "length bm = 8"
  have "(\<forall>j < 8. bm ! j = 0) \<longleftrightarrow> (\<forall>v. \<not> bitmap_is_set bm v)"
  proof
    assume z: "\<forall>v. \<not> bitmap_is_set bm v"
    show "\<forall>j < 8. bm ! j = 0"
    proof (intro allI impI bit_word_eqI)
      fix j n :: nat assume j: "j < 8" "n < LENGTH(32)"
      have u: "unat (of_nat (j * 32 + n) :: u8) = j * 32 + n" using j by (intro unat_vector) simp_all
      show "bit (bm ! j) n = bit 0 n"
        using z [rule_format, of "of_nat (j * 32 + n)"] j unfolding bitmap_is_set_bit u by simp
    qed
  qed (simp add: bitmap_is_set_bit vector_index_less)
  moreover have "bitmap_highest_set_bit bm = None \<longleftrightarrow> List.find (\<lambda>idx. bm ! idx \<noteq> 0) (rev [0..<8]) = None"
    using len by (simp add: bitmap_highest_set_bit_def split: option.split)
  ultimately show ?thesis unfolding find_rev_upt_None by simp
qed

lemma bitmap_highest_Some:
  assumes len: "length bm = 8"
  shows "bitmap_highest_set_bit bm = Some v \<longleftrightarrow> bitmap_is_set bm v \<and> (\<forall>w. bitmap_is_set bm w \<longrightarrow> w \<le> v)"
proof -
  have top: "bitmap_is_set bm u \<and> (\<forall>w. bitmap_is_set bm w \<longrightarrow> w \<le> u)" if h: "bitmap_highest_set_bit bm = Some u" for u
  proof -
    obtain i where i: "List.find (\<lambda>idx. bm ! idx \<noteq> 0) (rev [0..<8]) = Some i"
      and u: "u = of_nat (i * 32 + highest_bit (bm ! i))"
      using h len by (auto simp: bitmap_highest_set_bit_def split: option.splits)
    have i8: "i < 8" "bm ! i \<noteq> 0" "\<And>j. i < j \<Longrightarrow> j < 8 \<Longrightarrow> bm ! j = 0" using i unfolding find_rev_upt by auto
    define b where "b = highest_bit (bm ! i)"
    have b: "bit (bm ! i) b" "\<And>j. b < j \<Longrightarrow> \<not> bit (bm ! i) j"
      using highest_bit_iff [OF i8(2), of b] by (auto simp: b_def)
    have b32: "b < 32" using bit_imp_le_length [OF b(1)] by simp
    have uu: "unat u = i * 32 + b" unfolding u b_def [symmetric] by (rule unat_vector [OF i8(1) b32])
    have d: "unat u div 32 = i" "unat u mod 32 = b" using b32 by (simp_all add: uu)
    have "w \<le> u" if w: "bitmap_is_set bm w" for w
    proof -
      have "bm ! (unat w div 32) \<noteq> 0" using w by (auto simp: bitmap_is_set_bit)
      then have le: "unat w div 32 \<le> i" using i8(3) vector_index_less(1) [of w] by (meson not_le)
      moreover have "unat w mod 32 \<le> b" if "unat w div 32 = i"
        using w b(2) that by (auto simp: bitmap_is_set_bit not_le [symmetric])
      ultimately have "unat w \<le> unat u"
        using vector_index_less(2) [of w] div_mult_mod_eq [of "unat w" 32] uu by (cases "unat w div 32 = i") linarith+
      then show ?thesis by (simp add: word_le_nat_alt)
    qed
    then show ?thesis using b(1) by (simp add: bitmap_is_set_bit d)
  qed
  show ?thesis
  proof
    assume "bitmap_is_set bm v \<and> (\<forall>w. bitmap_is_set bm w \<longrightarrow> w \<le> v)"
    moreover then obtain u where "bitmap_highest_set_bit bm = Some u"
      using bitmap_highest_None [OF len] by (cases "bitmap_highest_set_bit bm") auto
    ultimately show "bitmap_highest_set_bit bm = Some v" using top by (metis antisym)
  qed (rule top)
qed

section \<open>Priorities, acknowledgement and end of interrupt\<close>

definition lapic_wf :: "LapicState \<Rightarrow> bool" where
  "lapic_wf s \<longleftrightarrow> length (l_irr s) = 8 \<and> length (l_isr s) = 8"

abbreviation lapic_requested :: "LapicState \<Rightarrow> u8 \<Rightarrow> bool" where
  "lapic_requested s v \<equiv> bitmap_is_set (l_irr s) v"

abbreviation lapic_in_service :: "LapicState \<Rightarrow> u8 \<Rightarrow> bool" where
  "lapic_in_service s v \<equiv> bitmap_is_set (l_isr s) v"

lemma class_bits: "vector_priority_class v = v AND NOT (mask 4)"
proof -
  have "v AND 0xF0 = (v AND mask 8) AND NOT (mask 4)" by (rule bit_word_eqI) (simp add: mask_eq_exp_minus_1 and.assoc)
  also have "v AND mask 8 = v" by (rule bit_word_eqI) (simp add: bit_simps)
  finally show ?thesis by (simp add: vector_priority_class_def)
qed

lemma class_unat: "unat (vector_priority_class v) = unat v - unat v mod 16"
  unfolding class_bits by (simp add: unat_and_not_mask)

lemma class_mono: "v \<le> w \<Longrightarrow> vector_priority_class v \<le> vector_priority_class w"
proof -
  assume "v \<le> w"
  then have "16 * (unat v div 16) \<le> 16 * (unat w div 16)" by (simp add: word_le_nat_alt div_le_mono)
  then show ?thesis by (simp add: word_le_nat_alt class_unat minus_mod_eq_mult_div)
qed

lemma class_less: "vector_priority_class v < vector_priority_class w \<Longrightarrow> v < w"
  using class_mono [of w v] by (auto simp: not_le [symmetric])

lemma find_map: "List.find P (map f xs) = map_option f (List.find (\<lambda>x. P (f x)) xs)"
  by (induction xs) auto

lemma deliverable_iff:
  "highest_deliverable_vector s p = Some v \<longleftrightarrow>
    lapic_requested s v \<and> p < vector_priority_class v \<and> (\<forall>w. lapic_requested s w \<longrightarrow> w \<le> v)"
proof -
  let ?P = "\<lambda>v. lapic_requested s v \<and> p < vector_priority_class v"
  have "highest_deliverable_vector s p = Some v \<longleftrightarrow>
      (\<exists>i. List.find (\<lambda>i. ?P (of_nat i)) (rev [0..<256]) = Some i \<and> v = of_nat i)"
    unfolding highest_deliverable_vector_def find_map by auto
  also have "\<dots> \<longleftrightarrow> (\<exists>i < 256. v = of_nat i \<and> ?P v \<and> (\<forall>j. i < j \<and> j < 256 \<longrightarrow> \<not> ?P (of_nat j)))"
    unfolding find_rev_upt by blast
  also have "\<dots> \<longleftrightarrow> ?P v \<and> (\<forall>w. ?P w \<longrightarrow> w \<le> v)"
  proof safe
    fix i w
    assume i: "i < 256" "v = of_nat i" "\<forall>j. i < j \<and> j < 256 \<longrightarrow> \<not> ?P (of_nat j)"
      and w: "lapic_requested s w" "p < vector_priority_class w"
    have "\<not> i < unat w" using i(3) [rule_format, of "unat w"] w unat_less [of w] by auto
    then show "w \<le> of_nat i" using i(1) by (simp add: word_le_nat_alt unat_of_nat)
  next
    assume v: "lapic_requested s v" "p < vector_priority_class v" "\<forall>w. ?P w \<longrightarrow> w \<le> v"
    have "\<not> ?P (of_nat j)" if "unat v < j" "j < 256" for j
      using v(3) that by (auto simp: word_le_nat_alt unat_of_nat)
    then show "\<exists>i < 256. v = of_nat i \<and> ?P v \<and> (\<forall>j. i < j \<and> j < 256 \<longrightarrow> \<not> ?P (of_nat j))"
      using v unat_less [of v] by (intro exI [of _ "unat v"]) auto
  qed
  also have "\<dots> \<longleftrightarrow> lapic_requested s v \<and> p < vector_priority_class v \<and> (\<forall>w. lapic_requested s w \<longrightarrow> w \<le> v)"
    using class_mono by (meson le_less_trans linear order_less_le_trans)
  finally show ?thesis .
qed

text \<open>What the timer may do at any access: it requests its own vector, nothing else.\<close>

lemma inner_fields [simp]:
  "l_isr (inject_fixed_interrupt_inner s v) = l_isr s" "tpr (inject_fixed_interrupt_inner s v) = tpr s"
  "svr (inject_fixed_interrupt_inner s v) = svr s" "l_id (inject_fixed_interrupt_inner s v) = l_id s"
  "ldr (inject_fixed_interrupt_inner s v) = ldr s" "lvt_timer (inject_fixed_interrupt_inner s v) = lvt_timer s"
  "initial_count (inject_fixed_interrupt_inner s v) = initial_count s"
  "divide_config (inject_fixed_interrupt_inner s v) = divide_config s"
  "icr_high (inject_fixed_interrupt_inner s v) = icr_high s"
  "next_timer_deadline_ns (inject_fixed_interrupt_inner s v) = next_timer_deadline_ns s"
  "enabled (inject_fixed_interrupt_inner s v) = enabled s"
  by (simp_all add: inject_fixed_interrupt_inner_def enabled_def)

lemma poll_timer_fields [simp]:
  "l_isr (poll_timer s now) = l_isr s" "tpr (poll_timer s now) = tpr s" "svr (poll_timer s now) = svr s"
  "l_id (poll_timer s now) = l_id s" "ldr (poll_timer s now) = ldr s" "lvt_timer (poll_timer s now) = lvt_timer s"
  "initial_count (poll_timer s now) = initial_count s" "divide_config (poll_timer s now) = divide_config s"
  "icr_high (poll_timer s now) = icr_high s"
  "enabled (poll_timer s now) = enabled s" "ppr (poll_timer s now) = ppr s"
  by (auto simp: poll_timer_def Let_def enabled_def ppr_def split: option.split TimerMode.split)

lemma lapic_wf_inner [wf_intros]: "lapic_wf s \<Longrightarrow> lapic_wf (inject_fixed_interrupt_inner s v)"
  by (simp add: lapic_wf_def inject_fixed_interrupt_inner_def)

lemma lapic_wf_poll [wf_intros]: "lapic_wf s \<Longrightarrow> lapic_wf (poll_timer s now)"
  by (auto simp: lapic_wf_def poll_timer_def Let_def inject_fixed_interrupt_inner_def
      split: option.split TimerMode.split)

lemma requested_inner: "lapic_wf s \<Longrightarrow>
    lapic_requested (inject_fixed_interrupt_inner s v) w \<longleftrightarrow> lapic_requested s w \<or> enabled s \<and> w = v"
  by (auto simp: inject_fixed_interrupt_inner_def lapic_wf_def bitmap_is_set_set)

text \<open>The timer fires at this access.\<close>

definition timer_due :: "LapicState \<Rightarrow> u64 \<Rightarrow> bool" where
  "timer_due s now \<longleftrightarrow> initial_count s \<noteq> 0 \<and> (\<exists>deadline. next_timer_deadline_ns s = Some deadline \<and> deadline \<le> now)"

lemma divisor_cases: "timer_divisor s \<in> {1, 2, 4, 8, 16, 32, 64, 128}"
  by (simp add: timer_divisor_def Let_def)

lemma tick_unat: "unat (timer_tick_ns s) = unat (timer_divisor s)" "timer_tick_ns s \<noteq> 0"
  using divisor_cases [of s] by (auto simp: timer_tick_ns_def)

lemma ucast_32_64: "unat (ucast x :: u64) = unat x" for x :: u32
proof -
  have "unat x < 2 ^ 64" using unat_less [of x] by simp
  then show ?thesis by (simp add: unsigned_ucast_eq take_bit_nat_eq_self)
qed

lemma period_unat: "unat (timer_period_ns s) = unat (initial_count s) * unat (timer_divisor s)"
proof -
  have "unat (initial_count s) * unat (timer_divisor s) < 2 ^ 32 * 2 ^ 32"
    using unat_less [of "initial_count s"] unat_less [of "timer_divisor s"] by (intro mult_strict_mono) auto
  then have "unat (initial_count s) * unat (timer_divisor s) < 2 ^ 64" by simp
  then show ?thesis
    by (simp add: timer_period_ns_def saturating_mul_def unat_word_ariths tick_unat ucast_32_64)
qed

lemma poll_requested:
  assumes wf: "lapic_wf s"
  shows "lapic_requested (poll_timer s now) w \<longleftrightarrow>
    lapic_requested s w \<or> timer_due s now \<and> enabled s \<and> \<not> timer_masked s \<and> w = timer_vector s"
proof -
  have "timer_period_ns s \<noteq> 0" if "initial_count s \<noteq> 0"
    using period_unat [of s] divisor_cases [of s] that by (auto simp: unat_eq_zero [symmetric] simp del: unat_eq_zero)
  then show ?thesis using requested_inner [OF wf]
    by (auto simp: poll_timer_def Let_def timer_due_def not_less not_le [symmetric]
        split: option.split TimerMode.split)
qed

lemma lapic_pending_iff:
  assumes "lapic_wf s"
  shows "fst (lapic_get_pending_vector s now) = Some v \<longleftrightarrow>
    enabled s \<and> (let s' = poll_timer s now in lapic_requested s' v \<and> (\<forall>w. lapic_requested s' w \<longrightarrow> w \<le> v)) \<and>
    tpr s AND 0xF0 < vector_priority_class v \<and>
    (\<forall>w. lapic_in_service s w \<longrightarrow> vector_priority_class w < vector_priority_class v)"
proof -
  have "ppr s < c \<longleftrightarrow> tpr s AND 0xF0 < c \<and> (\<forall>w. lapic_in_service s w \<longrightarrow> vector_priority_class w < c)" for c
  proof (cases "bitmap_highest_set_bit (l_isr s)")
    case None
    then show ?thesis using assms bitmap_highest_None [of "l_isr s"]
      by (auto simp: ppr_def lapic_wf_def max_def)
  next
    case (Some u)
    then have u: "lapic_in_service s u" "\<And>w. lapic_in_service s w \<Longrightarrow> w \<le> u"
      using assms bitmap_highest_Some [of "l_isr s" u] by (auto simp: lapic_wf_def)
    then show ?thesis using Some class_mono
      by (auto simp: ppr_def) (meson le_less_trans)
  qed
  then show ?thesis by (auto simp: lapic_get_pending_vector_def Let_def deliverable_iff)
qed

lemma ack_fields: "LapicState_ack s v = (True, s') \<Longrightarrow> tpr s' = tpr s \<and> svr s' = svr s \<and> enabled s' = enabled s"
  by (auto simp: LapicState_ack_def enabled_def split: if_splits)

lemma lapic_wf_ack [wf_intros]: "lapic_wf s \<Longrightarrow> lapic_wf (snd (LapicState_ack s v))"
  by (auto simp: lapic_wf_def LapicState_ack_def)

lemma lapic_wf_eoi [wf_intros]: "lapic_wf s \<Longrightarrow> lapic_wf (snd (LapicState_eoi s))"
  by (auto simp: lapic_wf_def LapicState_eoi_def split: option.split)

lemma lapic_wf_new [wf_intros]: "lapic_wf (LapicState_new i)"
  by (simp add: lapic_wf_def LapicState_new_def)

lemma lapic_ack_pending:
  assumes wf: "lapic_wf s" and p: "fst (lapic_get_pending_vector s now) = Some v"
  shows "\<exists>s'. lapic_ack s now v = (True, s') \<and> lapic_wf s' \<and> enabled s' \<and>
    (\<forall>w. lapic_in_service s' w \<longleftrightarrow> w = v \<or> lapic_in_service s w) \<and>
    (\<forall>w. lapic_requested s' w \<longleftrightarrow> w \<noteq> v \<and> lapic_requested (poll_timer s now) w)"
proof -
  note p' = p [unfolded lapic_pending_iff [OF wf] Let_def]
  have "ppr (poll_timer s now) < vector_priority_class v"
    using p by (auto simp: lapic_get_pending_vector_def Let_def deliverable_iff split: if_splits)
  then have a: "lapic_ack s now v = (True, (poll_timer s now)\<lparr>l_irr := bitmap_clear (l_irr (poll_timer s now)) v,
      l_isr := bitmap_set (l_isr (poll_timer s now)) v\<rparr>)"
    using p' by (simp add: lapic_ack_def LapicState_ack_def not_le)
  have wf': "lapic_wf (poll_timer s now)" using wf by (rule lapic_wf_poll)
  then show ?thesis
    using a p' wf by (auto simp: lapic_wf_def bitmap_is_set_set bitmap_is_set_clear enabled_def)
qed

lemma lapic_eoi_highest:
  assumes wf: "lapic_wf s" and v: "lapic_in_service s v" "\<forall>w. lapic_in_service s w \<longrightarrow> w \<le> v"
  shows "fst (lapic_eoi s now) = Some v"
    "lapic_in_service (snd (lapic_eoi s now)) w \<longleftrightarrow> w \<noteq> v \<and> lapic_in_service s w"
proof -
  have "bitmap_highest_set_bit (l_isr (poll_timer s now)) = Some v"
    using v bitmap_highest_Some [of "l_isr s" v] wf by (simp add: lapic_wf_def)
  then show "fst (lapic_eoi s now) = Some v"
    "lapic_in_service (snd (lapic_eoi s now)) w \<longleftrightarrow> w \<noteq> v \<and> lapic_in_service s w"
    using wf by (auto simp: lapic_eoi_def LapicState_eoi_def lapic_wf_def bitmap_is_set_clear)
qed

section \<open>The timer\<close>

lemma unat_saturating_mul: "unat a * unat b < 2 ^ LENGTH('a) \<Longrightarrow> unat (saturating_mul a b) = unat a * unat b"
  for a b :: "'a::len word"
  by (simp add: saturating_mul_def unat_word_ariths)

lemma unat_saturating_add: "unat a + unat b < 2 ^ LENGTH('a) \<Longrightarrow> unat (saturating_add a b) = unat a + unat b"
  for a b :: "'a::len word"
  by (simp add: saturating_add_def unat_word_ariths)

lemma poll_periodic:
  assumes due: "next_timer_deadline_ns s = Some deadline" "deadline \<le> now" "initial_count s \<noteq> 0"
    and m: "timer_mode s = Periodic" and room: "unat now + unat (timer_period_ns s) < 2 ^ 64"
  shows "\<exists>deadline'. next_timer_deadline_ns (poll_timer s now) = Some deadline' \<and> now < deadline' \<and>
    unat deadline' \<le> unat now + unat (timer_period_ns s) \<and>
    unat deadline' mod unat (timer_period_ns s) = unat deadline mod unat (timer_period_ns s)"
proof -
  define p where "p = unat (timer_period_ns s)"
  have p0: "0 < p"
    using period_unat [of s] divisor_cases [of s] due(3) by (auto simp: p_def unat_gt_0)
  have le: "unat deadline \<le> unat now" using due(2) by (simp add: word_le_nat_alt)
  define e where "e = unat now - unat deadline"
  have e: "unat (now - deadline) = e" using due(2) by (simp add: e_def unat_sub)
  have q: "unat ((now - deadline) div timer_period_ns s) = e div p" by (simp add: unat_div e p_def)
  have small: "(e div p + 1) * p \<le> e + p" by (simp add: add.commute)
  have "e + p < 2 ^ 64" using room le by (simp add: e_def p_def)
  then have mul: "(e div p + 1) * p < 2 ^ 64" using small by linarith
  moreover have "e div p + 1 \<le> (e div p + 1) * p" using p0 mult_le_mono2 [of 1 p "e div p + 1"] by simp
  ultimately have "e div p + 1 < 2 ^ 64" by linarith
  then have q1: "unat ((now - deadline) div timer_period_ns s + 1) = e div p + 1"
    using q by (subst unat_inc) simp_all
  have m1: "unat (saturating_mul ((now - deadline) div timer_period_ns s + 1) (timer_period_ns s)) = (e div p + 1) * p"
    using mul unat_saturating_mul [of "(now - deadline) div timer_period_ns s + 1" "timer_period_ns s"]
    unfolding q1 p_def [symmetric] by simp
  have "unat deadline + (e div p + 1) * p < 2 ^ 64" using small room le by (simp add: e_def p_def)
  then have d: "unat (saturating_add deadline (saturating_mul ((now - deadline) div timer_period_ns s + 1) (timer_period_ns s)))
      = unat deadline + (e div p + 1) * p"
    using unat_saturating_add [of deadline] unfolding m1 [symmetric] by simp
  have "e < (e div p + 1) * p" using p0 by (simp add: dividend_less_times_div add.commute mult.commute)
  then have "unat now < unat deadline + (e div p + 1) * p" using le by (simp add: e_def)
  moreover have "unat deadline + (e div p + 1) * p \<le> unat now + p" using small le by (simp add: e_def)
  moreover have "(unat deadline + (e div p + 1) * p) mod p = unat deadline mod p" by (rule mod_mult_self1)
  moreover have "timer_period_ns s \<noteq> 0" using p0 by (auto simp: p_def)
  moreover have "timer_mode (inject_fixed_interrupt_inner s v) = Periodic" for v using m by (simp add: timer_mode_def)
  ultimately show ?thesis using due m unfolding p_def [symmetric] d [symmetric] word_less_nat_alt [symmetric]
    by (auto simp: poll_timer_def Let_def not_less)
qed

lemma count_down:
  fixes c d t :: nat
  assumes "0 < d" "t < c * d"
  shows "(c * d - t) div d + (if 0 < (c * d - t) mod d then 1 else 0) = c - t div d"
proof -
  define q r where "q = t div d" and "r = t mod d"
  have t: "t = q * d + r" "r < d" using assms(1) by (simp_all add: q_def r_def)
  have "q < c" using assms by (simp add: q_def less_mult_imp_div_less)
  then obtain k where c: "c = Suc (q + k)" using less_imp_Suc_add [of q c] by auto
  have "c * d = q * d + k * d + d" by (simp add: c add_mult_distrib)
  moreover define m where "m = d - r"
  ultimately have e: "c * d - t = k * d + m" "0 < m" "m \<le> d" using t by auto
  show ?thesis
  proof (cases "m = d")
    case True
    then show ?thesis using e c assms(1) by (simp add: q_def [symmetric])
  next
    case False
    then show ?thesis using e c by (simp add: q_def [symmetric])
  qed
qed

lemma timer_counts_down:
  assumes c: "val \<noteq> 0" and t: "t < unat val * unat (timer_divisor s)"
    and room: "unat now + unat val * unat (timer_divisor s) < 2 ^ 64"
  shows "unat (current_count_at (write_initial_count s now val) (now + of_nat t)) = unat val - t div unat (timer_divisor s)"
proof -
  define d where "d = unat (timer_divisor s)"
  define s' where "s' = write_initial_count s now val"
  let ?stop = "saturating_add now (timer_period_ns ((poll_timer s now)\<lparr>initial_count := val\<rparr>))"
  have div: "timer_divisor s' = timer_divisor s" "timer_divisor ((poll_timer s now)\<lparr>initial_count := val\<rparr>) = timer_divisor s"
    by (simp_all add: s'_def write_initial_count_def timer_divisor_def Let_def)
  have d0: "0 < d" using divisor_cases [of s] by (auto simp: d_def)
  have e: "unat ?stop = unat now + unat val * d"
    using room by (simp add: saturating_add_def period_unat div unat_word_ariths d_def)
  have n: "unat (now + of_nat t) = unat now + t"
    using room t by (simp add: unat_word_ariths unat_of_nat)
  have fields: "next_timer_deadline_ns s' = Some ?stop" "initial_count s' = val"
    using c by (simp_all add: s'_def write_initial_count_def Let_def)
  have lt: "now + of_nat t < ?stop" using e n t by (simp add: word_less_nat_alt d_def)
  have sub: "unat (?stop - (now + of_nat t)) = unat val * d - t"
    using lt e n t by (simp add: unat_sub d_def)
  have tick: "unat (timer_tick_ns s') = d" by (simp add: tick_unat div d_def)
  have "unat (div_ceil (?stop - (now + of_nat t)) (timer_tick_ns s')) =
      (unat val * d - t) div d + (if 0 < (unat val * d - t) mod d then 1 else 0)"
  proof -
    have "(unat val * d - t) div d < unat val + 1"
      using d0 by (intro less_mult_imp_div_less) (simp add: algebra_simps)
    then have "(unat val * d - t) div d < 2 ^ 64 - 1" using unat_less [of val] by simp
    then show ?thesis
      by (auto simp: div_ceil_def Let_def unat_div unat_mod sub tick unat_inc word_less_nat_alt)
  qed
  then have r: "unat (div_ceil (?stop - (now + of_nat t)) (timer_tick_ns s')) = unat val - t div d"
    using count_down [OF d0] t by (simp add: d_def)
  have small: "unat val - t div d \<le> 0xFFFFFFFF" using unat_less [of val] by simp
  then have "min (div_ceil (?stop - (now + of_nat t)) (timer_tick_ns s')) 0xFFFFFFFF =
      div_ceil (?stop - (now + of_nat t)) (timer_tick_ns s')"
    using r by (simp add: min_def word_le_nat_alt)
  moreover have "unat (ucast (div_ceil (?stop - (now + of_nat t)) (timer_tick_ns s')) :: u32) = unat val - t div d"
    using r small by (simp add: unsigned_ucast_eq take_bit_nat_eq_self)
  ultimately show ?thesis
    using fields c lt unfolding s'_def [symmetric] d_def [symmetric] current_count_at_def not_le [symmetric] by simp
qed

section \<open>Register accesses\<close>

lemma aligned_register:
  fixes off :: u64
  assumes a: "off AND 3 = 0" and r: "off < 0x1000" and k: "k < 4"
  shows "(off + of_nat k) AND NOT 3 = off" "off + of_nat k < 0x1000" "(off + of_nat k) AND 3 = of_nat k"
proof -
  have m: "(3 :: u64) = mask 2" by (simp add: mask_eq_exp_minus_1)
  have "unat off mod 4 = 0" using a unat_and_mask [of off 2] unfolding m by simp
  then obtain q where q: "unat off = 4 * q" by (auto simp: mod_eq_0_iff_dvd elim!: dvdE)
  have r': "unat off < 4096" using r by (simp add: word_less_nat_alt)
  have n: "unat (off + of_nat k) = 4 * q + k" using q r' k by (simp add: unat_word_ariths unat_of_nat)
  have "unat ((off + of_nat k) AND NOT (mask 2)) = unat off" using k by (simp add: unat_and_not_mask n q)
  then show "(off + of_nat k) AND NOT 3 = off" unfolding m by (simp add: word_unat_eq_iff)
  show "off + of_nat k < 0x1000" using n q r' k by (simp add: word_less_nat_alt)
  have "unat ((off + of_nat k) AND mask 2) = unat (of_nat k :: u64)"
    using k by (simp add: unat_and_mask n unat_of_nat)
  then show "(off + of_nat k) AND 3 = of_nat k" unfolding m by (simp add: word_unat_eq_iff)
qed

lemma merge_bytes:
  "((((((((w AND NOT 0xFF) OR ucast a) AND NOT (push_bit 8 0xFF)) OR push_bit 8 (ucast b)) AND NOT (push_bit 16 0xFF)) OR
     push_bit 16 (ucast c)) AND NOT (push_bit 24 0xFF)) OR push_bit 24 (ucast d)) = (from_le_bytes [a, b, c, d] :: u32)"
proof (rule bit_word_eqI)
  fix n assume "n < LENGTH(32)"
  then have n: "n < 32" by simp
  have m: "(0xFF :: u32) = mask 8" by (simp add: mask_eq_exp_minus_1)
  have o: "\<not> bit x k" if "8 \<le> k" for x :: u8 and k using that by (auto dest: bit_imp_le_length)
  consider "n < 8" | "8 \<le> n" "n < 16" | "16 \<le> n" "n < 24" | "24 \<le> n" using n by linarith
  then show "bit ((((((((w AND NOT 0xFF) OR ucast a) AND NOT (push_bit 8 0xFF)) OR push_bit 8 (ucast b)) AND NOT (push_bit 16 0xFF)) OR
     push_bit 16 (ucast c)) AND NOT (push_bit 24 0xFF)) OR push_bit 24 (ucast d)) n = bit (from_le_bytes [a, b, c, d] :: u32) n"
    unfolding m using n by cases (auto simp: bit_simps o)
qed

lemma mmio_write_word:
  assumes a: "off AND 3 = 0" and r: "off < LAPIC_MMIO_SIZE" and d: "length data = 4"
  shows "lapic_mmio_write s now off data =
    (case lapic_write_u32 (poll_timer s now) now off (from_le_bytes data) of (eoi, s') \<Rightarrow>
       (case eoi of Some v \<Rightarrow> [v] | None \<Rightarrow> [],
        if off = REG_ICR_LOW then [Icr_decode (from_le_bytes data) (icr_high s')] else [], s'))"
proof -
  obtain b0 b1 b2 b3 where data: "data = [b0, b1, b2, b3]"
    using d by (auto simp: length_Suc_conv numeral_eq_Suc)
  note r' = r [unfolded LAPIC_MMIO_SIZE_def]
  have k: "(off + 1) AND NOT 3 = off" "(off + 2) AND NOT 3 = off" "(off + 3) AND NOT 3 = off" "off AND NOT 3 = off"
    "\<not> 0x1000 \<le> off" "\<not> 0x1000 \<le> off + 1" "\<not> 0x1000 \<le> off + 2" "\<not> 0x1000 \<le> off + 3"
    using aligned_register [OF a r', of 0] aligned_register [OF a r', of 1]
      aligned_register [OF a r', of 2] aligned_register [OF a r', of 3] by (simp_all add: not_le)
  have u: "[0..<4] = [0, 1, 2, 3 :: nat]" by (simp add: upt_rec)
  have mw: "merge_word off data off [0..<4] 0 w = (4, from_le_bytes data)" for w
    using merge_bytes [of w b0 b1 b2 b3]
    unfolding u data merge_word.simps Let_def LAPIC_MMIO_SIZE_def by (simp add: k [simplified])
  have stop: "mmio_write_loop now off data 4 t ev ic = (ev, ic, t)" for t ev ic
    by (subst mmio_write_loop.simps) (simp add: d)
  have "data \<noteq> []" using d by auto
  then show ?thesis
    unfolding lapic_mmio_write_def
    by (subst mmio_write_loop.simps)
      (simp add: a k [simplified] mw stop LAPIC_MMIO_SIZE_def split: prod.split option.split)
qed

lemma mmio_read_word:
  assumes a: "off AND 3 = 0" and r: "off < LAPIC_MMIO_SIZE"
  shows "lapic_mmio_read s now off 4 = (to_le_bytes 4 (lapic_read_u32 (poll_timer s now) now off), poll_timer s now)"
proof -
  note r' = r [unfolded LAPIC_MMIO_SIZE_def]
  have "mmio_read_byte t now (off + of_nat k) = ucast (drop_bit (8 * k) (lapic_read_u32 t now off))" if "k < 4" for t k
  proof -
    have m: "(0xFF :: u32) = mask 8" by (simp add: mask_eq_exp_minus_1)
    have "unat (of_nat k * 8 :: u64) = 8 * k" using that by (simp add: unat_word_ariths unat_of_nat)
    moreover have "ucast (w AND 0xFF) = (ucast w :: u8)" for w :: u32
      unfolding m by (rule bit_word_eqI) (auto simp: bit_simps)
    ultimately show ?thesis
      using aligned_register [OF a r' that] by (simp add: mmio_read_byte_def LAPIC_MMIO_SIZE_def not_le [symmetric])
  qed
  then show ?thesis by (auto simp: lapic_mmio_read_def to_le_bytes_def Let_def intro!: nth_equalityI)
qed

section \<open>Properties\<close>

text \<open>An enabled local APIC with vectors 0x31 and 0x52 requested and 0x41 in service.\<close>

definition sample_lapic :: LapicState where
  "sample_lapic = (LapicState_new 0)\<lparr>svr := 0x1FF, l_irr := bitmap_set (bitmap_set (replicate 8 0) 0x31) 0x52,
     l_isr := bitmap_set (replicate 8 0) 0x41\<rparr>"

lemma sample_lapic_wf: "lapic_wf sample_lapic"
  by (simp add: lapic_wf_def sample_lapic_def)

lemma sample_lapic_bits:
  "lapic_requested sample_lapic v \<longleftrightarrow> v = 0x52 \<or> v = 0x31" "lapic_in_service sample_lapic v \<longleftrightarrow> v = 0x41"
  "enabled sample_lapic" "tpr sample_lapic = 0" "poll_timer sample_lapic now = sample_lapic"
proof -
  have z: "\<not> bitmap_is_set (replicate 8 0) v"
    by (simp add: bitmap_is_set_bit vector_index_less(1) [of v])
  show "lapic_requested sample_lapic v \<longleftrightarrow> v = 0x52 \<or> v = 0x31" "lapic_in_service sample_lapic v \<longleftrightarrow> v = 0x41"
    using z by (auto simp: sample_lapic_def bitmap_is_set_set)
  show "enabled sample_lapic" "tpr sample_lapic = 0" "poll_timer sample_lapic now = sample_lapic"
    by (simp_all add: sample_lapic_def enabled_def LapicState_new_def poll_timer_def)
qed

text \<open>
  (C31) The pending vector. \<^verbatim>\<open>get_pending_vector\<close> returns a vector exactly when the local APIC is enabled,
  the vector is the highest one requested (after the timer had its turn), and its priority class is
  above the task priority and above the class of every interrupt in service.
\<close>

theorem lapic_pending_is_highest:
  assumes "lapic_wf s"
  shows "fst (lapic_get_pending_vector s now) = Some v \<longleftrightarrow>
    enabled s \<and> lapic_requested (poll_timer s now) v \<and> (\<forall>w. lapic_requested (poll_timer s now) w \<longrightarrow> w \<le> v) \<and>
    tpr s AND 0xF0 < vector_priority_class v \<and>
    (\<forall>w. lapic_in_service s w \<longrightarrow> vector_priority_class w < vector_priority_class v)"
  using lapic_pending_iff [OF assms] by (simp add: Let_def)

lemma sample_lapic_pending: "fst (lapic_get_pending_vector sample_lapic 7) = Some 0x52"
  using lapic_pending_iff [OF sample_lapic_wf, of 7 "0x52"]
  by (simp add: sample_lapic_bits Let_def vector_priority_class_def)

theorem lapic_pending_is_highest_witness:
  "lapic_wf sample_lapic \<and> fst (lapic_get_pending_vector sample_lapic 7) = Some 0x52 \<and>
   fst (lapic_get_pending_vector (set_tpr sample_lapic 0x50) 7) \<noteq> Some 0x52"
proof -
  have "lapic_wf (set_tpr sample_lapic 0x50)" using sample_lapic_wf by (simp add: lapic_wf_def set_tpr_def)
  then have "fst (lapic_get_pending_vector (set_tpr sample_lapic 0x50) 7) \<noteq> Some 0x52"
    using lapic_pending_is_highest [of "set_tpr sample_lapic 0x50" 7 "0x52"]
    by (simp add: set_tpr_def vector_priority_class_def)
  then show ?thesis
    using lapic_pending_is_highest [OF sample_lapic_wf, of 7 "0x52"] sample_lapic_wf
    by (simp add: sample_lapic_bits vector_priority_class_def)
qed

text \<open>
  Interrupts nest. Acknowledging the pending vector succeeds and moves it from the requests to the
  interrupts in service. From then on only vectors of a strictly higher class are offered, and the
  next end of interrupt names that vector and leaves in service what was in service before, whatever
  the timer does in between.
\<close>

theorem lapic_interrupts_nest:
  assumes wf: "lapic_wf s" and p: "fst (lapic_get_pending_vector s now) = Some v"
  shows "\<exists>s'. lapic_ack s now v = (True, s') \<and> \<not> lapic_requested s' v \<and> lapic_in_service s' v \<and>
    (\<forall>t w. fst (lapic_get_pending_vector s' t) = Some w \<longrightarrow> vector_priority_class v < vector_priority_class w) \<and>
    (\<forall>t. fst (lapic_eoi s' t) = Some v \<and>
       (\<forall>w. lapic_in_service (snd (lapic_eoi s' t)) w \<longleftrightarrow> lapic_in_service s w))"
proof -
  obtain s' where a: "lapic_ack s now v = (True, s')" and wf': "lapic_wf s'"
    and isr: "\<And>w. lapic_in_service s' w \<longleftrightarrow> w = v \<or> lapic_in_service s w" and irr: "\<not> lapic_requested s' v"
    using lapic_ack_pending [OF wf p] by blast
  have above: "w < v" if "lapic_in_service s w" for w
    using p that class_less unfolding lapic_pending_iff [OF wf] by blast
  then have top: "lapic_in_service s' v" "\<forall>w. lapic_in_service s' w \<longrightarrow> w \<le> v" by (auto simp: isr less_imp_le)
  have "vector_priority_class v < vector_priority_class w" if "fst (lapic_get_pending_vector s' t) = Some w" for t w
    using that top(1) unfolding lapic_pending_iff [OF wf'] by blast
  moreover have "\<not> lapic_in_service s v" using above by blast
  ultimately show ?thesis using a irr top(1) lapic_eoi_highest [OF wf' top] isr by auto
qed

theorem lapic_interrupts_nest_witness:
  "fst (lapic_get_pending_vector sample_lapic 7) = Some 0x52 \<and>
   (\<exists>s'. lapic_ack sample_lapic 7 0x52 = (True, s') \<and> fst (lapic_eoi s' 9) = Some 0x52)"
  using lapic_interrupts_nest [OF sample_lapic_wf sample_lapic_pending] sample_lapic_pending by blast

text \<open>
  (C32) The periodic timer keeps its beat. When the deadline has passed in periodic mode, polling
  requests the timer vector (if the local APIC is enabled and the timer is not masked) and sets the
  next deadline in the future, at most one period ahead and a whole number of periods after the last
  deadline, however late the poll is. In one-shot mode the timer stops.
\<close>

theorem lapic_timer_periodic:
  assumes "lapic_wf s" and "next_timer_deadline_ns s = Some deadline" and "deadline \<le> now" and "initial_count s \<noteq> 0"
    and "unat now + unat (timer_period_ns s) < 2 ^ 64"
  shows "(enabled s \<and> \<not> timer_masked s \<longrightarrow> lapic_requested (poll_timer s now) (timer_vector s)) \<and>
    (case timer_mode s of
       OneShot \<Rightarrow> next_timer_deadline_ns (poll_timer s now) = None
     | Periodic \<Rightarrow> \<exists>deadline'. next_timer_deadline_ns (poll_timer s now) = Some deadline' \<and> now < deadline' \<and>
         unat deadline' \<le> unat now + unat (timer_period_ns s) \<and>
         unat deadline' mod unat (timer_period_ns s) = unat deadline mod unat (timer_period_ns s))"
proof -
  have "timer_period_ns s \<noteq> 0"
    using period_unat [of s] divisor_cases [of s] assms(4) by (auto simp: unat_eq_zero [symmetric] simp del: unat_eq_zero)
  then have "next_timer_deadline_ns (poll_timer s now) = None" if "timer_mode s = OneShot"
    using that assms by (auto simp: poll_timer_def Let_def not_less [symmetric] timer_mode_def)
  then show ?thesis
    using poll_requested [OF assms(1)] poll_periodic [OF assms(2,3,4) _ assms(5)] assms(2-4)
    by (auto simp: timer_due_def split: TimerMode.split)
qed

theorem lapic_timer_periodic_witness:
  "let s = sample_lapic\<lparr>initial_count := 100, lvt_timer := 0x20040, next_timer_deadline_ns := Some 500\<rparr>
   in lapic_requested (poll_timer s 950) 0x40 \<and> next_timer_deadline_ns (poll_timer s 950) = Some 1100"
proof -
  let ?s = "sample_lapic\<lparr>initial_count := 100, lvt_timer := 0x20040, next_timer_deadline_ns := Some 500\<rparr>"
  have s: "lapic_wf ?s" "enabled ?s" "timer_mode ?s = Periodic" "timer_vector ?s = 0x40" "\<not> timer_masked ?s"
    "timer_period_ns ?s = 200"
    using sample_lapic_wf sample_lapic_bits(3)
    by (simp_all add: lapic_wf_def enabled_def timer_mode_def timer_vector_def timer_masked_def timer_period_ns_def
        timer_tick_ns_def timer_divisor_def saturating_mul_def sample_lapic_def LapicState_new_def)
  have "next_timer_deadline_ns ?s = Some 500" "initial_count ?s \<noteq> 0" "unat (950 :: u64) + unat (timer_period_ns ?s) < 2 ^ 64"
    by (simp_all add: s(6))
  then obtain d' where d: "next_timer_deadline_ns (poll_timer ?s 950) = Some d'" "950 < d'" "unat d' \<le> 1150"
      "unat d' mod 200 = 100" "lapic_requested (poll_timer ?s 950) 0x40"
    using lapic_timer_periodic [OF s(1), of 500 950] unfolding s(3,4,6) TimerMode.case using s(2,5) by fastforce
  have "950 < unat d'" using d(2) by (simp add: word_less_nat_alt)
  moreover have k: "unat d' = 200 * (unat d' div 200) + 100" using div_mult_mod_eq [of "unat d'" 200] d(4) by simp
  ultimately have "4 < unat d' div 200" "unat d' div 200 < 6" using d(3) by linarith+
  then have "unat d' = 1100" using k by linarith
  then have "unat d' = unat (1100 :: u64)" by simp
  then have "d' = 1100" by (simp only: word_unat_eq_iff)
  then show ?thesis using d by (simp add: Let_def)
qed

text \<open>
  Counting down. After the initial count is written at time \<open>now\<close>, the current count at any later
  time before expiry is the initial count minus the number of whole ticks that passed: it starts at
  the initial count, is never zero before expiry and never above the initial count.
\<close>

theorem lapic_timer_counts_down:
  assumes "val \<noteq> 0" and "t < unat val * unat (timer_divisor s)"
    and "unat now + unat val * unat (timer_divisor s) < 2 ^ 64"
  shows "unat (current_count_at (write_initial_count s now val) (now + of_nat t)) = unat val - t div unat (timer_divisor s) \<and>
    unat val - t div unat (timer_divisor s) > 0"
  using timer_counts_down [OF assms] less_mult_imp_div_less [OF assms(2)] by simp

theorem lapic_timer_counts_down_witness:
  "unat (current_count_at (write_initial_count sample_lapic 1000 50) 1007) = 47"
  using lapic_timer_counts_down [of 50 7 sample_lapic 1000]
  by (simp add: timer_divisor_def sample_lapic_def LapicState_new_def)

text \<open>
  Word accesses to the register page. A 4-byte read at an aligned offset returns the bytes of the
  register, and a 4-byte write is one write of that register with the little-endian value: it reports
  an end of interrupt or an interrupt command exactly when that register is written, and the byte
  loops of the source leave no other trace.
\<close>

theorem lapic_register_access:
  assumes "off AND 3 = 0" and "off < LAPIC_MMIO_SIZE" and "length data = 4"
  shows "lapic_mmio_read s now off 4 = (to_le_bytes 4 (lapic_read_u32 (poll_timer s now) now off), poll_timer s now) \<and>
    lapic_mmio_write s now off data =
      (case lapic_write_u32 (poll_timer s now) now off (from_le_bytes data) of (eoi, s') \<Rightarrow>
         (case eoi of Some v \<Rightarrow> [v] | None \<Rightarrow> [],
          if off = REG_ICR_LOW then [Icr_decode (from_le_bytes data) (icr_high s')] else [], s'))"
  using mmio_read_word [OF assms(1,2)] mmio_write_word [OF assms] by simp

theorem lapic_register_access_witness:
  "lapic_mmio_write sample_lapic 7 0x80 [0x30, 0, 0, 0] = ([], [], sample_lapic\<lparr>tpr := 0x30\<rparr>) \<and>
   fst (lapic_mmio_read sample_lapic 7 0x30 4) = [0x14, 0, 6, 0]"
  using lapic_register_access [of "0x80" "[0x30, 0, 0, 0]" sample_lapic 7]
    lapic_register_access [of "0x30" "[0, 0, 0, 0]" sample_lapic 7]
  by (simp add: lapic_regs lapic_write_u32_def lapic_read_u32_def sample_lapic_bits to_le_bytes_def upt_rec)

end
