(* ===== verification/IoApic.thy ===== *)
theory IoApic
  imports Prelude
begin

text \<open>
  The I/O APIC of \<^verbatim>\<open>aero-interrupts/src/apic/io_apic.rs\<close>: the redirection table behind \<^verbatim>\<open>IOREGSEL\<close> and
  \<^verbatim>\<open>IOWIN\<close>, the input pins, delivery to local APICs and the Remote-IRR protocol of level-triggered
  interrupts. The local APICs are the elements of a list, reached through the operations of the trait
  \<^verbatim>\<open>LapicInterruptSink\<close>, a parameter of the model. The locale \<open>interrupt_sink\<close> states what the I/O APIC
  relies on of a sink; theory \<open>InterruptRouter\<close> interprets it on the local APIC of theory \<open>LocalApic\<close>.
  The snapshot functions are not modelled.
\<close>

section \<open>The redirection table\<close>

datatype TriggerMode = Edge | Level_triggered

record RedirectionEntry =
  rte_vector :: u8
  delivery_mode :: u8
  destination_mode :: bool
  polarity_low :: bool
  trigger_mode :: TriggerMode
  rte_mask :: bool
  destination :: u8
  remote_irr :: bool

definition RedirectionEntry_default :: RedirectionEntry where
  "RedirectionEntry_default = \<lparr> rte_vector = 0, delivery_mode = 0, destination_mode = False, polarity_low = False,
     trigger_mode = Edge, rte_mask = True, destination = 0, remote_irr = False \<rparr>"

definition interpret_level :: "RedirectionEntry \<Rightarrow> bool \<Rightarrow> bool" where
  "interpret_level e raw_level = (if polarity_low e then \<not> raw_level else raw_level)"

text \<open>\<^verbatim>\<open>u32::from(b)\<close> of a flag.\<close>

definition flag_u32 :: "bool \<Rightarrow> u32" where
  "flag_u32 b = (if b then 1 else 0)"

definition read_low :: "RedirectionEntry \<Rightarrow> u32" where
  "read_low e =
     ucast (rte_vector e) OR push_bit 8 (ucast (delivery_mode e AND 0x7)) OR
     push_bit 11 (flag_u32 (destination_mode e)) OR push_bit 13 (flag_u32 (polarity_low e)) OR
     push_bit 14 (flag_u32 (remote_irr e)) OR
     push_bit 15 (case trigger_mode e of Edge \<Rightarrow> 0 | Level_triggered \<Rightarrow> 1) OR
     push_bit 16 (flag_u32 (rte_mask e))"

definition read_high :: "RedirectionEntry \<Rightarrow> u32" where
  "read_high e = push_bit 24 (ucast (destination e))"

datatype MaskTransition = Unchanged | Masked | Unmasked

definition write_low :: "RedirectionEntry \<Rightarrow> u32 \<Rightarrow> MaskTransition \<times> RedirectionEntry" where
  "write_low e v =
     (let old_mask = rte_mask e;
          e = e\<lparr>rte_vector := ucast (v AND 0xff), delivery_mode := ucast (drop_bit 8 v AND 0x7),
                destination_mode := drop_bit 11 v AND 0x1 \<noteq> 0, polarity_low := drop_bit 13 v AND 0x1 \<noteq> 0,
                trigger_mode := (if drop_bit 15 v AND 0x1 \<noteq> 0 then Level_triggered else Edge),
                rte_mask := drop_bit 16 v AND 0x1 \<noteq> 0\<rparr>
      in (if old_mask \<and> \<not> rte_mask e then Unmasked else if \<not> old_mask \<and> rte_mask e then Masked else Unchanged, e))"

definition write_high :: "RedirectionEntry \<Rightarrow> u32 \<Rightarrow> RedirectionEntry" where
  "write_high e v = e\<lparr>destination := ucast (drop_bit 24 v)\<rparr>"

section \<open>The controller\<close>

record 'l LapicInterruptSink =
  sink_apic_id :: "'l \<Rightarrow> u8"
  sink_inject :: "'l \<Rightarrow> u8 \<Rightarrow> 'l"
  sink_priority :: "'l \<Rightarrow> u8"
  sink_matches_logical :: "'l \<Rightarrow> u8 \<Rightarrow> bool"

record IoApic =
  io_id :: u8
  ioregsel :: u8
  redirection :: "RedirectionEntry list"
  pin_active_low :: "bool list"
  pin_level :: "bool list"

type_synonym 'l io_system = "IoApic \<times> 'l list"

definition NUM_REDIRECTION_ENTRIES :: nat where "NUM_REDIRECTION_ENTRIES = 24"

definition with_entries_and_lapics :: "u8 \<Rightarrow> nat \<Rightarrow> IoApic" where
  "with_entries_and_lapics i entries =
     (let active_low = map (\<lambda>gsi. gsi = 9 \<or> gsi \<ge> 16) [0..<entries]
      in \<lparr> io_id = i, ioregsel = 0, redirection = replicate entries RedirectionEntry_default,
           pin_active_low = active_low, pin_level = active_low \<rparr>)"

definition with_lapics :: "u8 \<Rightarrow> IoApic" where
  "with_lapics i = with_entries_and_lapics i NUM_REDIRECTION_ENTRIES"

definition has_unmasked_redirection_entry :: "IoApic \<Rightarrow> bool" where
  "has_unmasked_redirection_entry io = list_ex (\<lambda>e. \<not> rte_mask e) (redirection io)"

definition set_pin_active_low :: "IoApic \<Rightarrow> u32 \<Rightarrow> bool \<Rightarrow> IoApic" where
  "set_pin_active_low io gsi active_low =
     io\<lparr>pin_active_low := (pin_active_low io)[unat gsi := active_low],
        pin_level := (pin_level io)[unat gsi := active_low]\<rparr>"

definition clear_remote_irr :: "IoApic \<Rightarrow> IoApic" where
  "clear_remote_irr io = io\<lparr>redirection := map (\<lambda>e. e\<lparr>remote_irr := False\<rparr>) (redirection io)\<rparr>"

section \<open>Delivery\<close>

definition matches_destination :: "'l LapicInterruptSink \<Rightarrow> RedirectionEntry \<Rightarrow> 'l \<Rightarrow> bool" where
  "matches_destination K e l =
     (if destination e = 0xFF then True
      else if destination_mode e then sink_matches_logical K l (destination e)
      else destination e = sink_apic_id K l)"

text \<open>
  \<^verbatim>\<open>min_by_key\<close> over the matching local APICs, by priority class and then APIC ID: the first of the
  minimal ones, here by its index.
\<close>

definition key_less :: "'l LapicInterruptSink \<Rightarrow> 'l \<Rightarrow> 'l \<Rightarrow> bool" where
  "key_less K l l' \<longleftrightarrow> sink_priority K l AND 0xF0 < sink_priority K l' AND 0xF0 \<or>
     sink_priority K l AND 0xF0 = sink_priority K l' AND 0xF0 \<and> sink_apic_id K l < sink_apic_id K l'"

definition lowest_priority_target :: "'l LapicInterruptSink \<Rightarrow> RedirectionEntry \<Rightarrow> 'l list \<Rightarrow> nat option" where
  "lowest_priority_target K e lapics =
     (case filter (\<lambda>i. matches_destination K e (lapics ! i)) [0..<length lapics] of
        [] \<Rightarrow> None
      | i # is \<Rightarrow> Some (fold (\<lambda>j best. if key_less K (lapics ! j) (lapics ! best) then j else best) is i))"

definition deliver :: "'l LapicInterruptSink \<Rightarrow> nat \<Rightarrow> 'l io_system \<Rightarrow> 'l io_system" where
  "deliver K gsi = (\<lambda>(io, lapics).
     let entry = redirection io ! gsi
     in if delivery_mode entry > 1 then (io, lapics)
        else
          let vector = rte_vector entry;
              level = (trigger_mode entry = Level_triggered);
              (delivered, lapics) =
                (if delivery_mode entry = 1 then
                   (case lowest_priority_target K entry lapics of
                      Some i \<Rightarrow> (True, lapics[i := sink_inject K (lapics ! i) vector])
                    | None \<Rightarrow> (False, lapics))
                 else (list_ex (matches_destination K entry) lapics,
                       map (\<lambda>l. if matches_destination K entry l then sink_inject K l vector else l) lapics));
              io = (if delivered \<and> level
                    then io\<lparr>redirection := (redirection io)[gsi := entry\<lparr>remote_irr := True\<rparr>]\<rparr> else io)
          in (io, lapics))"

definition maybe_deliver_level :: "'l LapicInterruptSink \<Rightarrow> nat \<Rightarrow> 'l io_system \<Rightarrow> 'l io_system" where
  "maybe_deliver_level K idx = (\<lambda>(io, lapics).
     let entry = redirection io ! idx
     in if trigger_mode entry \<noteq> Level_triggered then (io, lapics)
        else if rte_mask entry \<or> remote_irr entry \<or> \<not> interpret_level entry (pin_level io ! idx) then (io, lapics)
        else deliver K idx (io, lapics))"

definition sync_level_triggered :: "'l LapicInterruptSink \<Rightarrow> 'l io_system \<Rightarrow> 'l io_system" where
  "sync_level_triggered K sys = fold (maybe_deliver_level K) [0..<length (redirection (fst sys))] sys"

definition ioapic_set_irq_level :: "'l LapicInterruptSink \<Rightarrow> u32 \<Rightarrow> bool \<Rightarrow> 'l io_system \<Rightarrow> 'l io_system" where
  "ioapic_set_irq_level K gsi level = (\<lambda>(io, lapics).
     let idx = unat gsi
     in if idx \<ge> length (pin_level io) then (io, lapics)
        else
          let prev_raw = pin_level io ! idx;
              active_low = (if idx < length (pin_active_low io) then pin_active_low io ! idx else False);
              new_raw = (level \<noteq> active_low);
              io = io\<lparr>pin_level := (pin_level io)[idx := new_raw]\<rparr>
          in if idx \<ge> length (redirection io) then (io, lapics)
             else
               let entry = redirection io ! idx;
                   prev = interpret_level entry prev_raw;
                   asserted = interpret_level entry new_raw
               in case trigger_mode entry of
                    Edge \<Rightarrow>
                      if rte_mask entry then (io, lapics)
                      else if \<not> prev \<and> asserted then deliver K idx (io, lapics) else (io, lapics)
                  | Level_triggered \<Rightarrow>
                      if rte_mask entry then (io, lapics)
                      else if asserted then maybe_deliver_level K idx (io, lapics) else (io, lapics))"

text \<open>The entries that an end of interrupt for \<open>vector\<close> concerns.\<close>

definition eoi_concerns :: "u8 \<Rightarrow> RedirectionEntry \<Rightarrow> bool" where
  "eoi_concerns vector e \<longleftrightarrow> trigger_mode e = Level_triggered \<and> remote_irr e \<and> rte_vector e = vector"

definition ioapic_notify_eoi :: "'l LapicInterruptSink \<Rightarrow> u8 \<Rightarrow> 'l io_system \<Rightarrow> 'l io_system" where
  "ioapic_notify_eoi K vector = (\<lambda>(io, lapics).
     let pending_redelivery =
           filter (\<lambda>gsi. let entry = redirection io ! gsi
                         in eoi_concerns vector entry \<and> interpret_level entry (pin_level io ! gsi) \<and> \<not> rte_mask entry)
             [0..<length (redirection io)];
         io = io\<lparr>redirection := map (\<lambda>e. if eoi_concerns vector e then e\<lparr>remote_irr := False\<rparr> else e) (redirection io)\<rparr>
     in fold (deliver K) pending_redelivery (io, lapics))"

section \<open>The register window\<close>

definition read_register :: "IoApic \<Rightarrow> u8 \<Rightarrow> u32" where
  "read_register io reg =
     (if reg = 0x00 \<or> reg = 0x02 then push_bit 24 (ucast (io_id io AND 0x0f))
      else if reg = 0x01 then 0x11 OR push_bit 16 (of_nat (length (redirection io)) - 1)
      else if reg \<ge> 0x10 then
        let idx = unat (reg - 0x10); entry = idx div 2
        in if entry \<ge> length (redirection io) then 0
           else if idx mod 2 = 0 then read_low (redirection io ! entry) else read_high (redirection io ! entry)
      else 0)"

definition write_register :: "'l LapicInterruptSink \<Rightarrow> u8 \<Rightarrow> u32 \<Rightarrow> 'l io_system \<Rightarrow> 'l io_system" where
  "write_register K reg v = (\<lambda>(io, lapics).
     if reg = 0x00 then (io\<lparr>io_id := ucast (drop_bit 24 v AND 0x0f)\<rparr>, lapics)
     else if reg \<ge> 0x10 then
       let idx = unat (reg - 0x10); entry = idx div 2
       in if entry \<ge> length (redirection io) then (io, lapics)
          else if idx mod 2 = 0 then
            let (transition, e) = write_low (redirection io ! entry) v;
                io = io\<lparr>redirection := (redirection io)[entry := e]\<rparr>
            in if transition = Unmasked then maybe_deliver_level K entry (io, lapics) else (io, lapics)
          else (io\<lparr>redirection := (redirection io)[entry := write_high (redirection io ! entry) v]\<rparr>, lapics)
     else (io, lapics))"

definition ioapic_mmio_read :: "IoApic \<Rightarrow> u64 \<Rightarrow> nat \<Rightarrow> u64" where
  "ioapic_mmio_read io offset sz =
     (if sz \<noteq> 4 then 0
      else ucast (if offset = 0x00 then ucast (ioregsel io)
                  else if offset = 0x10 then read_register io (ioregsel io) else (0 :: u32)))"

definition ioapic_mmio_write :: "'l LapicInterruptSink \<Rightarrow> u64 \<Rightarrow> nat \<Rightarrow> u64 \<Rightarrow> 'l io_system \<Rightarrow> 'l io_system" where
  "ioapic_mmio_write K offset sz val = (\<lambda>(io, lapics).
     if sz \<noteq> 4 then (io, lapics)
     else
       let v = ucast val :: u32
       in if offset = 0x00 then (io\<lparr>ioregsel := ucast (v AND 0xff)\<rparr>, lapics)
          else if offset = 0x10 then write_register K (ioregsel io) v (io, lapics)
          else (io, lapics))"

section \<open>Redirection entries as registers\<close>

lemma bit_flag_u32: "bit (push_bit k (flag_u32 b)) n \<longleftrightarrow> b \<and> n = k \<and> k < 32"
  by (auto simp: flag_u32_def bit_push_bit_iff bit_1_iff)

lemma field_flag: "drop_bit k v AND 1 \<noteq> 0 \<longleftrightarrow> bit v k" for v :: u32
proof -
  have "drop_bit k v AND push_bit 0 1 = 0 \<longleftrightarrow> \<not> bit (drop_bit k v) 0" by (rule flag_clear_iff)
  then show ?thesis by (simp add: bit_drop_bit_eq)
qed

lemma writable_bits: "bit (0x1AFFF :: u32) n \<longleftrightarrow> n < 11 \<or> n = 11 \<or> n = 13 \<or> n = 15 \<or> n = 16"
proof -
  have "(0x1AFFF :: u32) = mask 11 OR push_bit 11 1 OR push_bit 13 1 OR push_bit 15 1 OR push_bit 16 1"
    by (simp add: mask_eq_exp_minus_1)
  then show ?thesis by (simp only: bit_or_iff bit_mask_iff bit_flag) auto
qed

lemma read_write_low: "read_low (snd (write_low e v)) = (v AND 0x1AFFF) OR push_bit 14 (flag_u32 (remote_irr e))"
proof (rule bit_word_eqI)
  fix n assume "n < LENGTH(32)"
  then have n: "n < 32" by simp
  have vec: "bit (ucast (ucast (v AND 0xff) :: u8) :: u32) n \<longleftrightarrow> n < 8 \<and> bit v n"
  proof -
    have m: "(0xff :: u32) = mask 8" by (simp add: mask_eq_exp_minus_1)
    show ?thesis unfolding m using n by (auto simp: bit_simps)
  qed
  have dm: "bit (push_bit 8 (ucast ((ucast (drop_bit 8 v AND 7) :: u8) AND 7)) :: u32) n \<longleftrightarrow> 8 \<le> n \<and> n < 11 \<and> bit v n"
  proof -
    have m: "(7 :: u32) = mask 3" "(7 :: u8) = mask 3" by (simp_all add: mask_eq_exp_minus_1)
    show ?thesis unfolding m using n by (auto simp: bit_simps)
  qed
  have tr: "push_bit 15 (case (if b then Level_triggered else Edge) of Edge \<Rightarrow> 0 | Level_triggered \<Rightarrow> 1) =
      push_bit 15 (flag_u32 b)" for b by (simp add: flag_u32_def)
  show "bit (read_low (snd (write_low e v))) n = bit ((v AND 0x1AFFF) OR push_bit 14 (flag_u32 (remote_irr e))) n"
    using n unfolding read_low_def write_low_def Let_def snd_conv bit_or_iff bit_and_iff writable_bits bit_flag_u32
    by (simp add: vec dm bit_flag_u32 field_flag tr) auto
qed

lemma write_low_fields:
  "remote_irr (snd (write_low e v)) = remote_irr e" "destination (snd (write_low e v)) = destination e"
  "rte_mask (snd (write_low e v)) \<longleftrightarrow> bit v 16"
  "fst (write_low e v) = Unmasked \<longleftrightarrow> rte_mask e \<and> \<not> bit v 16"
  using field_flag [of 16 v] by (auto simp: write_low_def Let_def)

section \<open>What an operation leaves alone\<close>

definition ioapic_wf :: "IoApic \<Rightarrow> bool" where
  "ioapic_wf io \<longleftrightarrow> length (pin_level io) = length (redirection io) \<and> length (pin_active_low io) = length (redirection io)"

text \<open>A delivery changes nothing of the controller but the Remote-IRR flag of the entry.\<close>

lemma deliver_io:
  assumes "deliver K g (io, lapics) = (io', lapics')"
  shows "io' = io \<or> trigger_mode (redirection io ! g) = Level_triggered \<and>
    io' = io\<lparr>redirection := (redirection io)[g := (redirection io ! g)\<lparr>remote_irr := True\<rparr>]\<rparr>"
  using assms by (auto simp: deliver_def Let_def split: if_splits option.splits)

lemma deliver_length: "deliver K g (io, lapics) = (io', lapics') \<Longrightarrow> length lapics' = length lapics"
  by (auto simp: deliver_def Let_def split: if_splits option.splits)

lemma deliver_wf: "ioapic_wf io \<Longrightarrow> deliver K g (io, lapics) = (io', lapics') \<Longrightarrow> ioapic_wf io'"
  using deliver_io [of K g io lapics io' lapics'] by (auto simp: ioapic_wf_def)

lemma lowest_priority_target_Some:
  assumes "lowest_priority_target K e lapics = Some i"
  shows "i < length lapics \<and> matches_destination K e (lapics ! i) \<and>
    (\<forall>j < length lapics. matches_destination K e (lapics ! j) \<longrightarrow> \<not> key_less K (lapics ! j) (lapics ! i))"
proof -
  let ?f = "\<lambda>j best. if key_less K (lapics ! j) (lapics ! best) then j else best"
  obtain i0 "is" where f: "filter (\<lambda>i. matches_destination K e (lapics ! i)) [0..<length lapics] = i0 # is"
    and i: "i = fold ?f is i0"
    using assms by (auto simp: lowest_priority_target_def split: list.splits)
  have trans: "key_less K a c \<or> \<not> key_less K b c" if "\<not> key_less K c a \<and> \<not> key_less K b a" for a b c
    using that by (auto simp: key_less_def)
  have fold: "fold ?f js b \<in> set (b # js) \<and> (\<forall>j \<in> set (b # js). \<not> key_less K (lapics ! j) (lapics ! fold ?f js b))" for js b
  proof (induction js arbitrary: b)
    case Nil
    then show ?case by (auto simp: key_less_def)
  next
    case (Cons j js)
    let ?b = "?f j b"
    have IH: "fold ?f js ?b \<in> set (?b # js)" "\<forall>k \<in> set (?b # js). \<not> key_less K (lapics ! k) (lapics ! fold ?f js ?b)"
      using Cons.IH [of ?b] by auto
    have "\<not> key_less K (lapics ! j) (lapics ! ?b)" "\<not> key_less K (lapics ! b) (lapics ! ?b)"
      by (auto simp: key_less_def)
    moreover have "\<not> key_less K (lapics ! ?b) (lapics ! fold ?f js ?b)" using IH(2) by simp
    ultimately have "\<not> key_less K (lapics ! j) (lapics ! fold ?f js ?b)" "\<not> key_less K (lapics ! b) (lapics ! fold ?f js ?b)"
      by (auto simp: key_less_def)
    then show ?case using IH by auto
  qed
  have "set (i0 # is) = {k. k < length lapics \<and> matches_destination K e (lapics ! k)}"
    unfolding f [symmetric] by auto
  then show ?thesis using fold [of "is" i0] unfolding i [symmetric] by blast
qed

lemma lowest_priority_target_None:
  "lowest_priority_target K e lapics = None \<longleftrightarrow> \<not> list_ex (matches_destination K e) lapics"
proof -
  have "list_ex (matches_destination K e) lapics \<longleftrightarrow>
      filter (\<lambda>i. matches_destination K e (lapics ! i)) [0..<length lapics] \<noteq> []"
    by (simp add: list_ex_length filter_empty_conv Bex_def)
  then show ?thesis by (auto simp: lowest_priority_target_def split: list.split)
qed

text \<open>The flag is set exactly when a level-triggered interrupt finds a target.\<close>

lemma deliver_remote_irr:
  assumes "deliver K g (io, lapics) = (io', lapics')" "g < length (redirection io)"
  shows "remote_irr (redirection io' ! g) \<longleftrightarrow> remote_irr (redirection io ! g) \<or>
    (trigger_mode (redirection io ! g) = Level_triggered \<and> delivery_mode (redirection io ! g) \<le> 1 \<and>
     list_ex (matches_destination K (redirection io ! g)) lapics)"
  using assms lowest_priority_target_None [of K "redirection io ! g" lapics]
  by (auto simp: deliver_def Let_def not_less not_le split: if_splits option.splits)

lemma word_le_1: "x \<le> 1 \<longleftrightarrow> x = 0 \<or> x = 1" for x :: u8
proof
  assume "x \<le> 1"
  then have "unat x = 0 \<or> unat x = unat (1 :: u8)" by (auto simp: word_le_nat_alt)
  then show "x = 0 \<or> x = 1" by (simp only: unat_eq_0 word_unat_eq_iff)
qed auto

text \<open>Each local APIC is left alone or has the vector of the entry injected.\<close>

lemma deliver_sinks:
  assumes "deliver K g (io, ls) = (io', ls')" "i < length ls"
  shows "ls' ! i = ls ! i \<or> ls' ! i = sink_inject K (ls ! i) (rte_vector (redirection io ! g))"
proof -
  have "ls[j := sink_inject K (ls ! j) v] ! i = ls ! i \<or> ls[j := sink_inject K (ls ! j) v] ! i = sink_inject K (ls ! i) v" for j v
    using assms(2) by (cases "j = i") auto
  then show ?thesis using assms by (auto simp: deliver_def Let_def split: if_splits option.splits)
qed

text \<open>The new redirection entry, and the new controller.\<close>

definition delivers :: "'l LapicInterruptSink \<Rightarrow> RedirectionEntry \<Rightarrow> 'l list \<Rightarrow> bool" where
  "delivers K e ls \<longleftrightarrow> delivery_mode e \<le> 1 \<and> list_ex (matches_destination K e) ls"

definition delivered_entry :: "'l LapicInterruptSink \<Rightarrow> 'l list \<Rightarrow> RedirectionEntry \<Rightarrow> RedirectionEntry" where
  "delivered_entry K ls e = (if trigger_mode e = Level_triggered \<and> delivers K e ls then e\<lparr>remote_irr := True\<rparr> else e)"

lemma fst_deliver:
  "fst (deliver K g (io, ls)) = io\<lparr>redirection := (redirection io)[g := delivered_entry K ls (redirection io ! g)]\<rparr>"
  using lowest_priority_target_None [of K "redirection io ! g" ls]
  by (auto simp: deliver_def Let_def delivered_entry_def delivers_def not_less not_le split: if_splits option.splits)

lemma deliver_nothing: "\<not> delivers K (redirection io ! g) ls \<Longrightarrow> deliver K g (io, ls) = (io, ls)"
  using lowest_priority_target_None [of K "redirection io ! g" ls]
  by (auto simp: deliver_def delivers_def Let_def not_less not_le list_ex_iff intro!: map_idI split: option.split)

section \<open>What the I/O APIC relies on of a local APIC\<close>

text \<open>
  The laws of the trait \<^verbatim>\<open>LapicInterruptSink\<close>. A sink has a set of requested vectors; an injection adds
  the vector when the sink accepts it (it is enabled), adds nothing else but what the sink requests
  \<open>own\<close> its own (its timer), loses no request, and changes neither the addresses of the sink nor
  whether it accepts.
\<close>

locale interrupt_sink =
  fixes K :: "'l LapicInterruptSink" and ok :: "'l \<Rightarrow> bool" and requests :: "'l \<Rightarrow> u8 \<Rightarrow> bool"
    and accepts :: "'l \<Rightarrow> bool" and own :: "'l \<Rightarrow> u8 \<Rightarrow> bool"
  assumes inject_id: "sink_apic_id K (sink_inject K l v) = sink_apic_id K l"
    and inject_logical: "sink_matches_logical K (sink_inject K l v) d = sink_matches_logical K l d"
    and inject_ok: "ok l \<Longrightarrow> ok (sink_inject K l v)"
    and inject_accepts: "accepts (sink_inject K l v) = accepts l"
    and inject_requests: "ok l \<Longrightarrow> accepts l \<Longrightarrow> requests (sink_inject K l v) v"
    and inject_keeps: "ok l \<Longrightarrow> requests l w \<Longrightarrow> requests (sink_inject K l v) w"
    and inject_only: "ok l \<Longrightarrow> requests (sink_inject K l v) w \<Longrightarrow> requests l w \<or> own l w \<or> accepts l \<and> w = v"
begin

lemma matches_inject: "matches_destination K e (sink_inject K l v) = matches_destination K e l"
  by (simp add: matches_destination_def inject_id inject_logical)

text \<open>Two lists of sinks in which each sink of the second has the addresses of the first, and no request less.\<close>

definition extends :: "'l list \<Rightarrow> 'l list \<Rightarrow> bool" where
  "extends ls ls' \<longleftrightarrow> length ls' = length ls \<and>
     (\<forall>i < length ls. (\<forall>e. matches_destination K e (ls' ! i) = matches_destination K e (ls ! i)) \<and>
        accepts (ls' ! i) = accepts (ls ! i) \<and> (ok (ls ! i) \<longrightarrow> ok (ls' ! i) \<and> (\<forall>w. requests (ls ! i) w \<longrightarrow> requests (ls' ! i) w)))"

lemma extends_refl: "extends ls ls"
  by (simp add: extends_def)

lemma extends_trans: "extends a b \<Longrightarrow> extends b c \<Longrightarrow> extends a c"
  by (auto simp: extends_def)

lemma extends_inject:
  "length ls' = length ls \<Longrightarrow> (\<And>i. i < length ls \<Longrightarrow> ls' ! i = ls ! i \<or> (\<exists>v. ls' ! i = sink_inject K (ls ! i) v)) \<Longrightarrow>
   extends ls ls'"
  unfolding extends_def by (metis matches_inject inject_accepts inject_ok inject_keeps)

lemma extends_matches: "extends ls ls' \<Longrightarrow> list_ex (matches_destination K e) ls' \<longleftrightarrow> list_ex (matches_destination K e) ls"
  by (auto simp: extends_def list_ex_length)

lemma extends_deliver: "deliver K g (io, ls) = (io', ls') \<Longrightarrow> extends ls ls'"
  using deliver_sinks [of K g io ls io' ls'] by (intro extends_inject deliver_length) blast+

text \<open>The sinks that an interrupt of the entry reaches.\<close>

definition reached :: "RedirectionEntry \<Rightarrow> 'l list \<Rightarrow> 'l list \<Rightarrow> bool" where
  "reached e ls ls' \<longleftrightarrow>
     (if delivery_mode e = 0
      then \<forall>i < length ls. matches_destination K e (ls ! i) \<and> accepts (ls ! i) \<and> ok (ls ! i) \<longrightarrow> requests (ls' ! i) (rte_vector e)
      else \<exists>i < length ls. matches_destination K e (ls ! i) \<and> (accepts (ls ! i) \<and> ok (ls ! i) \<longrightarrow> requests (ls' ! i) (rte_vector e)))"

lemma reached_extends: "reached e ls ls' \<Longrightarrow> extends ls ls' \<Longrightarrow> extends ls' ls'' \<Longrightarrow> reached e ls ls''"
  unfolding reached_def extends_def by (metis (no_types, lifting))

lemma reached_before: "reached e ls' ls'' \<Longrightarrow> extends ls ls' \<Longrightarrow> reached e ls ls''"
  unfolding reached_def extends_def by (metis (no_types, lifting))

lemma deliver_reaches:
  assumes d: "deliver K g (io, ls) = (io', ls')" and e: "e = redirection io ! g"
    and m: "delivery_mode e \<le> 1" "list_ex (matches_destination K e) ls"
  shows "reached e ls ls'"
proof (cases "delivery_mode e = 1")
  case True
  then obtain i where i: "lowest_priority_target K e ls = Some i"
    using m(2) lowest_priority_target_None [of K e ls] by auto
  then have "ls' = ls[i := sink_inject K (ls ! i) (rte_vector e)]"
    using d True by (auto simp: deliver_def Let_def e split: if_splits)
  then show ?thesis
    using lowest_priority_target_Some [OF i] inject_requests True by (auto simp: reached_def)
next
  case False
  then have "delivery_mode e = 0" using m(1) by (simp add: word_le_1)
  then show ?thesis
    using d inject_requests by (auto simp: deliver_def Let_def e [symmetric] reached_def split: if_splits)
qed

lemma fold_deliver:
  assumes "fold (deliver K) gs (io, ls) = (io', ls')" "distinct gs" "\<forall>g \<in> set gs. g < length (redirection io)"
  shows "extends ls ls' \<and> length (redirection io') = length (redirection io) \<and>
    (\<forall>g. redirection io' ! g = (if g \<in> set gs then delivered_entry K ls (redirection io ! g) else redirection io ! g)) \<and>
    (\<forall>g \<in> set gs. delivers K (redirection io ! g) ls \<longrightarrow> reached (redirection io ! g) ls ls') \<and>
    pin_level io' = pin_level io \<and> pin_active_low io' = pin_active_low io"
  using assms
proof (induction gs arbitrary: io ls)
  case Nil
  then show ?case by (simp add: extends_refl)
next
  case (Cons g gs)
  obtain io1 ls1 where d: "deliver K g (io, ls) = (io1, ls1)" by fastforce
  have io1: "io1 = io\<lparr>redirection := (redirection io)[g := delivered_entry K ls (redirection io ! g)]\<rparr>"
    using fst_deliver [of K g io ls] d by simp
  have x: "extends ls ls1" by (rule extends_deliver [OF d])
  have same: "delivers K e ls1 = delivers K e ls" for e by (simp add: delivers_def extends_matches [OF x])
  have IH: "extends ls1 ls' \<and> length (redirection io') = length (redirection io1) \<and>
    (\<forall>g. redirection io' ! g = (if g \<in> set gs then delivered_entry K ls1 (redirection io1 ! g) else redirection io1 ! g)) \<and>
    (\<forall>g \<in> set gs. delivers K (redirection io1 ! g) ls1 \<longrightarrow> reached (redirection io1 ! g) ls1 ls') \<and>
    pin_level io' = pin_level io1 \<and> pin_active_low io' = pin_active_low io1"
    using Cons.prems by (intro Cons.IH) (simp_all add: d io1)
  have "redirection io1 ! h = redirection io ! h" if "h \<in> set gs" for h
    using Cons.prems(2) that by (cases "h = g") (auto simp: io1)
  moreover have "delivered_entry K ls1 e = delivered_entry K ls e" for e by (simp add: delivered_entry_def same)
  moreover have "delivers K (redirection io ! g) ls \<Longrightarrow> reached (redirection io ! g) ls ls'"
    using deliver_reaches [OF d refl] reached_extends x IH by (auto simp: delivers_def)
  moreover have "reached e ls1 ls' \<Longrightarrow> reached e ls ls'" for e using reached_before x by blast
  ultimately show ?case
    using IH Cons.prems(2,3) extends_trans [OF x] by (auto simp: io1 same nth_list_update)
qed

text \<open>What an end of interrupt does to each entry.\<close>

lemma notify_eoi_spec:
  assumes "ioapic_notify_eoi K v (io, ls) = (io', ls')"
  shows "extends ls ls' \<and> length (redirection io') = length (redirection io) \<and>
    pin_level io' = pin_level io \<and> pin_active_low io' = pin_active_low io \<and>
    (\<forall>g < length (redirection io). let e = redirection io ! g; again = interpret_level e (pin_level io ! g) \<and> \<not> rte_mask e \<and> delivers K e ls
       in redirection io' ! g = (if eoi_concerns v e then e\<lparr>remote_irr := again\<rparr> else e) \<and>
          (eoi_concerns v e \<and> again \<longrightarrow> reached e ls ls'))"
proof -
  define gs where "gs = filter (\<lambda>gsi. let entry = redirection io ! gsi
      in eoi_concerns v entry \<and> interpret_level entry (pin_level io ! gsi) \<and> \<not> rte_mask entry) [0..<length (redirection io)]"
  define io1 where "io1 = io\<lparr>redirection := map (\<lambda>e. if eoi_concerns v e then e\<lparr>remote_irr := False\<rparr> else e) (redirection io)\<rparr>"
  have f: "fold (deliver K) gs (io1, ls) = (io', ls')"
    using assms by (simp add: ioapic_notify_eoi_def Let_def gs_def io1_def)
  have gs: "distinct gs" "\<forall>g \<in> set gs. g < length (redirection io1)" by (auto simp: gs_def io1_def)
  have cleared: "delivers K (e\<lparr>remote_irr := b\<rparr>) ls = delivers K e ls" "reached (e\<lparr>remote_irr := b\<rparr>) ls ls' = reached e ls ls'" for e b
    by (simp_all add: delivers_def reached_def matches_destination_def list_ex_iff)
  show ?thesis
    using fold_deliver [OF f gs]
    by (auto simp: io1_def gs_def Let_def delivered_entry_def cleared eoi_concerns_def)
qed

end

section \<open>Properties\<close>

lemma pin_deliver: "pin_level (fst (deliver K g (io, ls))) = pin_level io"
    "pin_active_low (fst (deliver K g (io, ls))) = pin_active_low io"
    "length (redirection (fst (deliver K g (io, ls)))) = length (redirection io)"
  by (simp_all add: fst_deliver)

text \<open>Once a level-triggered entry has had its turn, another turn changes nothing.\<close>

lemma maybe_deliver_level_stable:
  assumes "g < length (redirection io)"
  shows "maybe_deliver_level K g (maybe_deliver_level K g (io, ls)) = maybe_deliver_level K g (io, ls)"
proof (cases "delivers K (redirection io ! g) ls")
  case True
  then show ?thesis
    using assms fst_deliver [of K g io ls]
    by (cases "deliver K g (io, ls)")
      (auto simp: maybe_deliver_level_def Let_def delivered_entry_def split: if_splits)
qed (simp add: maybe_deliver_level_def Let_def deliver_nothing)

lemma maybe_deliver_level_cases:
  "maybe_deliver_level K g (io, ls) = (io, ls) \<or> maybe_deliver_level K g (io, ls) = deliver K g (io, ls)"
  by (simp add: maybe_deliver_level_def Let_def)

text \<open>The electrical level of a pin that is driven to a logical level, and what driving it does.\<close>

definition raw_level :: "IoApic \<Rightarrow> nat \<Rightarrow> bool \<Rightarrow> bool" where
  "raw_level io g level = (level \<noteq> (if g < length (pin_active_low io) then pin_active_low io ! g else False))"

definition drive_pin :: "IoApic \<Rightarrow> nat \<Rightarrow> bool \<Rightarrow> IoApic" where
  "drive_pin io g level = io\<lparr>pin_level := (pin_level io)[g := raw_level io g level]\<rparr>"

lemma drive_pin_fields [simp]:
  "redirection (drive_pin io g level) = redirection io" "pin_active_low (drive_pin io g level) = pin_active_low io"
  "pin_level (drive_pin io g level) = (pin_level io)[g := raw_level io g level]"
  by (simp_all add: drive_pin_def)

lemma drive_pin_again:
  "pin_level io' = (pin_level io)[g := raw_level io g level] \<Longrightarrow> pin_active_low io' = pin_active_low io \<Longrightarrow> drive_pin io' g level = io'"
  by (simp add: drive_pin_def raw_level_def)

lemma set_irq_level_out_of_range:
  "\<not> unat gsi < length (pin_level io) \<Longrightarrow> ioapic_set_irq_level K gsi level (io, ls) = (io, ls)"
  "\<not> unat gsi < length (redirection io) \<Longrightarrow> unat gsi < length (pin_level io) \<Longrightarrow>
    ioapic_set_irq_level K gsi level (io, ls) = (drive_pin io (unat gsi) level, ls)"
  by (simp_all add: ioapic_set_irq_level_def drive_pin_def raw_level_def Let_def)

lemma set_irq_level_in_range:
  assumes "unat gsi < length (pin_level io)" "unat gsi < length (redirection io)"
  shows "ioapic_set_irq_level K gsi level (io, ls) =
    (let g = unat gsi; e = redirection io ! g; sys = (drive_pin io g level, ls)
     in if rte_mask e then sys
        else case trigger_mode e of
          Edge \<Rightarrow> if \<not> interpret_level e (pin_level io ! g) \<and> interpret_level e (raw_level io g level) then deliver K g sys else sys
        | Level_triggered \<Rightarrow> maybe_deliver_level K g sys)"
  using assms
  by (simp add: ioapic_set_irq_level_def drive_pin_def raw_level_def Let_def maybe_deliver_level_def split: TriggerMode.split)

text \<open>
  A line that is driven to the level it already has interrupts nobody: setting the level of an
  input twice has the effect of setting it once, for edge-triggered and level-triggered entries, every
  polarity and delivery mode, and whatever the local APICs do with an injected vector.
\<close>

theorem ioapic_set_level_idempotent:
  "ioapic_set_irq_level K gsi level (ioapic_set_irq_level K gsi level sys) = ioapic_set_irq_level K gsi level sys"
proof -
  obtain io ls where sys: "sys = (io, ls)" by fastforce
  define g where "g = unat gsi"
  define io1 where "io1 = drive_pin io g level"
  consider "\<not> g < length (pin_level io)" | "g < length (pin_level io)" "\<not> g < length (redirection io)"
    | "g < length (pin_level io)" "g < length (redirection io)" by blast
  then show ?thesis
  proof cases
    case 3
    have set: "ioapic_set_irq_level K gsi level (io', ls') =
        (if rte_mask (redirection io' ! g) then (io', ls')
         else case trigger_mode (redirection io' ! g) of Edge \<Rightarrow> (io', ls')
              | Level_triggered \<Rightarrow> maybe_deliver_level K g (io', ls'))"
      if "pin_level io' = (pin_level io)[g := raw_level io g level]" "pin_active_low io' = pin_active_low io"
        "length (redirection io') = length (redirection io)" for io' ls'
      using 3 that drive_pin_again [OF that(1,2)]
      by (subst set_irq_level_in_range) (auto simp: g_def Let_def raw_level_def split: TriggerMode.split)
    obtain io2 ls2 where d: "deliver K g (io1, ls) = (io2, ls2)" by fastforce
    have p2: "pin_level io2 = (pin_level io)[g := raw_level io g level]" "pin_active_low io2 = pin_active_low io"
        "length (redirection io2) = length (redirection io)"
        "redirection io2 ! g = delivered_entry K ls (redirection io ! g)"
      using pin_deliver [of K g io1 ls] fst_deliver [of K g io1 ls] d 3 by (auto simp: io1_def)
    have same: "rte_mask (delivered_entry K ls e) = rte_mask e" "trigger_mode (delivered_entry K ls e) = trigger_mode e" for e
      by (simp_all add: delivered_entry_def)
    have "maybe_deliver_level K g (maybe_deliver_level K g (io1, ls)) = maybe_deliver_level K g (io1, ls)"
      using 3 by (intro maybe_deliver_level_stable) (simp add: io1_def)
    moreover have once: "ioapic_set_irq_level K gsi level (io, ls) =
      (if rte_mask (redirection io ! g) then (io1, ls)
        else case trigger_mode (redirection io ! g) of
          Edge \<Rightarrow> if \<not> interpret_level (redirection io ! g) (pin_level io ! g) \<and>
            interpret_level (redirection io ! g) (raw_level io g level) then (io2, ls2) else (io1, ls)
        | Level_triggered \<Rightarrow> maybe_deliver_level K g (io1, ls))"
      using 3 d by (subst set_irq_level_in_range) (auto simp: g_def io1_def Let_def split: TriggerMode.split)
    ultimately show ?thesis
      using maybe_deliver_level_cases [of K g io1 ls] p2 set [of io1 ls] set [of io2 ls2] d unfolding sys once
      by (auto simp: same io1_def split: TriggerMode.split)
  qed (auto simp: sys g_def set_irq_level_out_of_range intro!: drive_pin_again)
qed

text \<open>
  (C30) Lowest-priority delivery. A rising edge on an unmasked edge-triggered input in lowest-priority
  mode whose destination matches some local APIC interrupts exactly one of them: one that matches and
  whose priority class is minimal, ties broken by the smaller APIC ID. No other local APIC changes.
\<close>

theorem ioapic_lowest_priority:
  assumes "unat gsi < length (pin_level io)" and "unat gsi < length (redirection io)"
    and e: "e = redirection io ! unat gsi" and "\<not> rte_mask e" and "trigger_mode e = Edge"
    and "\<not> interpret_level e (pin_level io ! unat gsi)" and "interpret_level e (raw_level io (unat gsi) level)"
    and m: "delivery_mode e = 1" and "list_ex (matches_destination K e) ls"
  shows "\<exists>i < length ls. matches_destination K e (ls ! i) \<and>
    (\<forall>j < length ls. matches_destination K e (ls ! j) \<longrightarrow>
       sink_priority K (ls ! i) AND 0xF0 < sink_priority K (ls ! j) AND 0xF0 \<or>
       sink_priority K (ls ! i) AND 0xF0 = sink_priority K (ls ! j) AND 0xF0 \<and> sink_apic_id K (ls ! i) \<le> sink_apic_id K (ls ! j)) \<and>
    snd (ioapic_set_irq_level K gsi level (io, ls)) = ls[i := sink_inject K (ls ! i) (rte_vector e)]"
proof -
  obtain i where i: "lowest_priority_target K e ls = Some i"
    using assms(9) lowest_priority_target_None [of K e ls] by auto
  have "snd (deliver K (unat gsi) (drive_pin io (unat gsi) level, ls)) = ls[i := sink_inject K (ls ! i) (rte_vector e)]"
    using i m by (simp add: deliver_def Let_def e [symmetric])
  then have "snd (ioapic_set_irq_level K gsi level (io, ls)) = ls[i := sink_inject K (ls ! i) (rte_vector e)]"
    using assms(1-7) by (subst set_irq_level_in_range) (simp_all add: Let_def)
  then show ?thesis
    using lowest_priority_target_Some [OF i] unfolding key_less_def by (intro exI [of _ i]) (auto simp: le_less)
qed

text \<open>Sinks that are pairs of an APIC ID and a priority, with the vectors they got.\<close>

definition sample_sinks :: "(u8 \<times> u8 \<times> u8 list) LapicInterruptSink" where
  "sample_sinks = \<lparr> sink_apic_id = fst, sink_inject = (\<lambda>(i, p, vs) v. (i, p, v # vs)), sink_priority = (\<lambda>(i, p, vs). p),
     sink_matches_logical = (\<lambda>(i, p, vs) d. bit d (unat i)) \<rparr>"

theorem ioapic_lowest_priority_witness:
  "snd (ioapic_set_irq_level sample_sinks 2 True
     ((with_lapics 0)\<lparr>redirection := (replicate 24 RedirectionEntry_default)[2 := RedirectionEntry_default
        \<lparr>rte_vector := 0x41, delivery_mode := 1, rte_mask := False, destination := 0xFF\<rparr>]\<rparr>,
      [(0, 0x35, []), (1, 0x2A, []), (2, 0x21, [])])) = [(0, 0x35, []), (1, 0x2A, [0x41]), (2, 0x21, [])]"
proof -
  let ?e = "RedirectionEntry_default\<lparr>rte_vector := 0x41, delivery_mode := 1, rte_mask := False, destination := 0xFF\<rparr>"
  let ?io = "(with_lapics 0)\<lparr>redirection := (replicate 24 RedirectionEntry_default)[2 := ?e]\<rparr>"
  let ?ls = "[(0, 0x35, []), (1, 0x2A, []), (2, 0x21, [])] :: (u8 \<times> u8 \<times> u8 list) list"
  note defs = with_lapics_def with_entries_and_lapics_def NUM_REDIRECTION_ENTRIES_def RedirectionEntry_default_def
    interpret_level_def raw_level_def Let_def nth_append
  have h: "unat (2 :: u32) < length (pin_level ?io)" "unat (2 :: u32) < length (redirection ?io)"
    "?e = redirection ?io ! unat (2 :: u32)" "\<not> rte_mask ?e" "trigger_mode ?e = Edge"
    "\<not> interpret_level ?e (pin_level ?io ! unat (2 :: u32))" "interpret_level ?e (raw_level ?io (unat (2 :: u32)) True)"
    "delivery_mode ?e = 1" "list_ex (matches_destination sample_sinks ?e) ?ls"
    by (simp_all add: defs matches_destination_def)
  have match: "matches_destination sample_sinks ?e (?ls ! j)" for j by (simp add: matches_destination_def RedirectionEntry_default_def)
  define ls where "ls = ?ls"
  obtain i where i: "i < length ls" and low: "\<forall>j < length ls. matches_destination sample_sinks ?e (ls ! j) \<longrightarrow>
       sink_priority sample_sinks (ls ! i) AND 0xF0 < sink_priority sample_sinks (ls ! j) AND 0xF0 \<or>
       sink_priority sample_sinks (ls ! i) AND 0xF0 = sink_priority sample_sinks (ls ! j) AND 0xF0 \<and>
       sink_apic_id sample_sinks (ls ! i) \<le> sink_apic_id sample_sinks (ls ! j)"
    and r: "snd (ioapic_set_irq_level sample_sinks 2 True (?io, ls)) = ls[i := sink_inject sample_sinks (ls ! i) (rte_vector ?e)]"
    using ioapic_lowest_priority [OF h] unfolding ls_def by blast
  have "i < 3" using i by (simp add: ls_def)
  then have "i = 0 \<or> i = 1 \<or> i = 2" by linarith
  then have "i = 1"
    using low [rule_format, of 1] match [of 1] by (auto simp: ls_def sample_sinks_def word_le_nat_alt)
  then show ?thesis using r by (simp add: ls_def sample_sinks_def)
qed


text \<open>The redirection register of entry \<open>g\<close>, low or high half, as \<^verbatim>\<open>IOREGSEL\<close> selects it.\<close>

definition redirection_register :: "nat \<Rightarrow> bool \<Rightarrow> u64" where
  "redirection_register g high = of_nat (0x10 + 2 * g + (if high then 1 else 0))"

text \<open>The guest's way to write and to read a register: select it, then access the window.\<close>

definition write_indirect :: "'l LapicInterruptSink \<Rightarrow> u64 \<Rightarrow> u64 \<Rightarrow> 'l io_system \<Rightarrow> 'l io_system" where
  "write_indirect K reg v = ioapic_mmio_write K 0x10 4 v \<circ> ioapic_mmio_write K 0x00 4 reg"

definition read_indirect :: "'l LapicInterruptSink \<Rightarrow> u64 \<Rightarrow> 'l io_system \<Rightarrow> u64" where
  "read_indirect K reg sys = ioapic_mmio_read (fst (ioapic_mmio_write K 0x00 4 reg sys)) 0x10 4"

lemma register_select:
  assumes "g < 120"
  shows "ucast (ucast (redirection_register g high) AND 0xff :: u32) = (of_nat (0x10 + 2 * g + (if high then 1 else 0)) :: u8)"
    "(0x10 :: u8) \<le> of_nat (0x10 + 2 * g + (if high then 1 else 0))"
    "unat (of_nat (0x10 + 2 * g + (if high then 1 else 0)) - 0x10 :: u8) = 2 * g + (if high then 1 else 0)"
    "(of_nat (0x10 + 2 * g + (if high then 1 else 0)) :: u8) \<notin> {0, 1, 2}"
proof -
  let ?n = "0x10 + 2 * g + (if high then 1 else 0 :: nat)"
  have n: "?n < 256" "16 \<le> ?n" using assms by auto
  then have u: "unat (of_nat ?n :: u8) = ?n" by (simp only: unat_of_nat) simp
  show "(0x10 :: u8) \<le> of_nat ?n" using n(2) u by (simp only: word_le_nat_alt) simp
  then show "unat (of_nat ?n - 0x10 :: u8) = 2 * g + (if high then 1 else 0)"
    by (simp only: unat_sub u) simp
  show "(of_nat ?n :: u8) \<notin> {0, 1, 2}"
  proof -
    have "w \<in> {0, 1, 2} \<Longrightarrow> unat w \<in> {0, 1, 2}" for w :: u8 by auto
    from this [of "of_nat ?n"] show ?thesis unfolding u using n(2) by auto
  qed
  have m: "(0xff :: u32) = mask 8" by (simp add: mask_eq_exp_minus_1)
  have "ucast (ucast w AND mask 8 :: u32) = (ucast w :: u8)" for w :: u64
    by (rule bit_word_eqI) (auto simp: bit_simps)
  moreover have "ucast (of_nat k :: u64) = (of_nat k :: u8)" for k by (simp add: unsigned_of_nat word_of_nat_eq_iff)
  ultimately show "ucast (ucast (redirection_register g high) AND 0xff :: u32) = (of_nat ?n :: u8)"
    unfolding m redirection_register_def by (simp only:)
qed


lemma fst_maybe_deliver:
  "fst (maybe_deliver_level K g (io, ls)) = io \<or>
   fst (maybe_deliver_level K g (io, ls)) = io\<lparr>redirection := (redirection io)[g := (redirection io ! g)\<lparr>remote_irr := True\<rparr>]\<rparr>"
  using maybe_deliver_level_cases [of K g io ls] fst_deliver [of K g io ls]
  by (auto simp: delivered_entry_def)

text \<open>Writing the low half stores the fields of the value; only Remote-IRR may also be set, by a delivery.\<close>

lemma write_register_low:
  assumes "reg \<ge> 0x10" "unat (reg - 0x10) = 2 * g" "g < length (redirection io)"
  shows "\<exists>b. fst (write_register K reg v (io, ls)) =
    io\<lparr>redirection := (redirection io)[g := snd (write_low ((redirection io ! g)\<lparr>remote_irr := b\<rparr>) v)]\<rparr>"
proof -
  have w: "snd (write_low (e\<lparr>remote_irr := b\<rparr>) v) = (snd (write_low e v))\<lparr>remote_irr := b\<rparr>" for e b
    by (simp add: write_low_def Let_def)
  have self: "e = e\<lparr>remote_irr := remote_irr e\<rparr>" for e :: RedirectionEntry by simp
  obtain tr e where e: "write_low (redirection io ! g) v = (tr, e)" by fastforce
  define io1 where "io1 = io\<lparr>redirection := (redirection io)[g := e]\<rparr>"
  have g: "redirection io1 ! g = e" using assms(3) by (simp add: io1_def)
  have "reg \<noteq> 0" using assms(1) by (auto simp: word_le_nat_alt)
  then have "write_register K reg v (io, ls) = (if tr = Unmasked then maybe_deliver_level K g (io1, ls) else (io1, ls))"
    using assms e by (simp add: write_register_def Let_def io1_def)
  then have "fst (write_register K reg v (io, ls)) \<in>
      {io\<lparr>redirection := (redirection io)[g := e]\<rparr>, io\<lparr>redirection := (redirection io)[g := e\<lparr>remote_irr := True\<rparr>]\<rparr>}"
    using fst_maybe_deliver [of K g io1 ls] unfolding g by (auto simp: io1_def)
  moreover have "snd (write_low (redirection io ! g) v) = e" using e by simp
  moreover have "\<exists>b. io\<lparr>redirection := (redirection io)[g := e]\<rparr> = io\<lparr>redirection := (redirection io)[g := e\<lparr>remote_irr := b\<rparr>]\<rparr>"
    using self [of e] by metis
  ultimately show ?thesis unfolding w by auto
qed

lemma write_register_high:
  assumes "reg \<ge> 0x10" "unat (reg - 0x10) = 2 * g + 1" "g < length (redirection io)"
  shows "write_register K reg v (io, ls) = (io\<lparr>redirection := (redirection io)[g := write_high (redirection io ! g) v]\<rparr>, ls)"
proof -
  have "reg \<noteq> 0" using assms(1) by (auto simp: word_le_nat_alt)
  then show ?thesis using assms by (simp add: write_register_def Let_def)
qed

lemma read_register_entry:
  assumes "g < 120" "g < length (redirection io)"
  shows "read_register io (of_nat (0x10 + 2 * g + (if high then 1 else 0))) =
    (if high then read_high (redirection io ! g) else read_low (redirection io ! g))"
  using register_select(2-4) [OF assms(1), of high] assms(2)
  unfolding read_register_def Let_def by (simp only: insert_iff empty_iff de_Morgan_disj) auto

lemma read_indirect_entry:
  assumes "g < 120" "g < length (redirection io)"
  shows "read_indirect K (redirection_register g high) (io, ls) =
    ucast (if high then read_high (redirection io ! g) else read_low (redirection io ! g))"
  using read_register_entry [of g "io\<lparr>ioregsel := r\<rparr>" high for r] assms register_select(1) [OF assms(1), of high]
  by (simp add: read_indirect_def ioapic_mmio_write_def ioapic_mmio_read_def Let_def)

lemma write_indirect_entry:
  assumes "g < 120"
  shows "write_indirect K (redirection_register g high) v (io, ls) =
    (let reg = of_nat (0x10 + 2 * g + (if high then 1 else 0))
     in write_register K reg (ucast v) (io\<lparr>ioregsel := reg\<rparr>, ls))"
  using register_select(1) [OF assms, of high] by (simp add: write_indirect_def ioapic_mmio_write_def Let_def)

lemma read_write_high: "read_high (write_high e v) = v AND 0xFF000000"
proof -
  have m: "(0xFF000000 :: u32) = NOT (mask 24)" by (simp add: mask_eq_exp_minus_1)
  show ?thesis unfolding m read_high_def write_high_def by (rule bit_word_eqI) (auto simp: bit_simps)
qed

text \<open>
  Programming the redirection table. Through the register window the low half of an entry reads
  back as what was written to the fields of the register (vector, delivery mode, destination mode,
  polarity, trigger mode, mask), with the read-only Remote-IRR bit as the controller keeps it and every
  other bit zero; the high half reads back as the destination. A write changes no other entry, the
  low half keeps the high half and the high half keeps the low half, and only a write of the
  low half can interrupt a processor.
\<close>

theorem ioapic_redirection_roundtrip:
  assumes g: "g < 120" "g < length (redirection io)"
    and low: "write_indirect K (redirection_register g False) v (io, ls) = (io1, ls1)"
    and high: "write_indirect K (redirection_register g True) v (io, ls) = (io2, ls2)"
  shows "read_indirect K (redirection_register g False) (io1, ls1) =
      ucast ((ucast v AND 0x1AFFF) OR push_bit 14 (flag_u32 (remote_irr (redirection io1 ! g)))) \<and>
    read_indirect K (redirection_register g True) (io1, ls1) = read_indirect K (redirection_register g True) (io, ls) \<and>
    read_indirect K (redirection_register g True) (io2, ls2) = ucast (ucast v AND 0xFF000000 :: u32) \<and>
    read_indirect K (redirection_register g False) (io2, ls2) = read_indirect K (redirection_register g False) (io, ls) \<and>
    ls2 = ls \<and> (\<forall>h. h \<noteq> g \<longrightarrow> redirection io1 ! h = redirection io ! h \<and> redirection io2 ! h = redirection io ! h)"
proof -
  let ?e = "redirection io ! g"
  define r where "r high = (of_nat (0x10 + 2 * g + (if high then 1 else 0)) :: u8)" for high
  obtain b where io1: "io1 = io\<lparr>ioregsel := r False, redirection := (redirection io)[g := snd (write_low (?e\<lparr>remote_irr := b\<rparr>) (ucast v))]\<rparr>"
    using low write_register_low [of "r False" g "io\<lparr>ioregsel := r False\<rparr>" K "ucast v" ls] register_select(2,3) [OF g(1), of False] g
    unfolding write_indirect_entry [OF g(1)] r_def [symmetric] Let_def by auto
  have io2: "io2 = io\<lparr>ioregsel := r True, redirection := (redirection io)[g := write_high ?e (ucast v)]\<rparr>" and ls2: "ls2 = ls"
    using high write_register_high [of "r True" g "io\<lparr>ioregsel := r True\<rparr>" K "ucast v" ls] register_select(2,3) [OF g(1), of True] g
    unfolding write_indirect_entry [OF g(1)] r_def [symmetric] Let_def by auto
  have e1: "redirection io1 ! g = snd (write_low (?e\<lparr>remote_irr := b\<rparr>) (ucast v))" and e2: "redirection io2 ! g = write_high ?e (ucast v)"
    and len: "length (redirection io1) = length (redirection io)" "length (redirection io2) = length (redirection io)"
    using g by (simp_all add: io1 io2)
  have keep: "read_high (snd (write_low e w)) = read_high e" "read_high (e\<lparr>remote_irr := b\<rparr>) = read_high e"
      "read_low (write_high e w) = read_low e" for e w
    by (simp_all add: read_high_def read_low_def write_low_def write_high_def Let_def)
  have "redirection io1 ! h = redirection io ! h \<and> redirection io2 ! h = redirection io ! h" if "h \<noteq> g" for h
    using that by (simp add: io1 io2)
  then show ?thesis
    using g ls2 by (auto simp: read_indirect_entry len e1 e2 read_write_low read_write_high write_low_fields keep)
qed

theorem ioapic_redirection_roundtrip_witness:
  "read_indirect sample_sinks (redirection_register 2 True)
     (write_indirect sample_sinks (redirection_register 2 True) 0x12345678 (with_lapics 0, [(0, 0, [])])) = 0x12000000 \<and>
   read_indirect sample_sinks (redirection_register 2 False)
     (write_indirect sample_sinks (redirection_register 2 False) 0xFFFF1441 (with_lapics 0, [(0, 0, [])])) AND 0x1AFFF = 0x10441"
proof -
  let ?sys = "(with_lapics 0, [(0, 0, [])])"
  have g: "(2 :: nat) < 120" "2 < length (redirection (with_lapics 0))"
    by (simp_all add: with_lapics_def with_entries_and_lapics_def NUM_REDIRECTION_ENTRIES_def Let_def)
  obtain io1 ls1 io2 ls2 where w: "write_indirect sample_sinks (redirection_register 2 False) 0xFFFF1441 ?sys = (io1, ls1)"
    "write_indirect sample_sinks (redirection_register 2 True) 0xFFFF1441 ?sys = (io2, ls2)" by fastforce
  obtain io3 ls3 io4 ls4 where w': "write_indirect sample_sinks (redirection_register 2 False) 0x12345678 ?sys = (io3, ls3)"
    "write_indirect sample_sinks (redirection_register 2 True) 0x12345678 ?sys = (io4, ls4)" by fastforce
  have "read_indirect sample_sinks (redirection_register 2 True) (io4, ls4) = 0x12000000"
    using ioapic_redirection_roundtrip [OF g w', THEN conjunct2, THEN conjunct2, THEN conjunct1] by simp
  moreover have "read_indirect sample_sinks (redirection_register 2 False) (io1, ls1) AND 0x1AFFF = 0x10441"
    using ioapic_redirection_roundtrip [OF g w] by (auto simp: flag_u32_def)
  ultimately show ?thesis using w w' by simp
qed

section \<open>What every operation keeps\<close>

context interrupt_sink
begin

text \<open>Every operation keeps the sizes of the table and of the pins, and loses no request of a sink.\<close>

definition safe_step :: "'l io_system \<Rightarrow> 'l io_system \<Rightarrow> bool" where
  "safe_step sys sys' \<longleftrightarrow> extends (snd sys) (snd sys') \<and> length (redirection (fst sys')) = length (redirection (fst sys)) \<and>
     length (pin_level (fst sys')) = length (pin_level (fst sys)) \<and>
     length (pin_active_low (fst sys')) = length (pin_active_low (fst sys))"

lemma safe_refl [simp]: "safe_step sys sys"
  by (simp add: safe_step_def extends_refl)

lemma safe_trans: "safe_step a b \<Longrightarrow> safe_step b c \<Longrightarrow> safe_step a c"
  by (auto simp: safe_step_def intro: extends_trans)

lemma safe_fold: "(\<And>x s. x \<in> set xs \<Longrightarrow> safe_step s (f x s)) \<Longrightarrow> safe_step sys (fold f xs sys)"
proof (induction xs arbitrary: sys)
  case (Cons x xs)
  have "safe_step sys (f x sys)" using Cons.prems by simp
  moreover have "safe_step (f x sys) (fold f xs (f x sys))" using Cons by auto
  ultimately show ?case by (simp add: safe_trans)
qed simp

text \<open>A change of the controller alone that keeps the sizes.\<close>

lemma safe_controller:
  "length (redirection io') = length (redirection io) \<Longrightarrow> length (pin_level io') = length (pin_level io) \<Longrightarrow>
   length (pin_active_low io') = length (pin_active_low io) \<Longrightarrow> safe_step (io, ls) (io', ls)"
  by (simp add: safe_step_def extends_refl)

lemma safe_deliver: "safe_step sys (deliver K g sys)"
proof -
  obtain io ls io' ls' where d: "sys = (io, ls)" "deliver K g (io, ls) = (io', ls')" by fastforce
  show ?thesis
    using fst_deliver [of K g io ls] extends_deliver [OF d(2)] by (simp add: safe_step_def d)
qed

lemma safe_maybe_deliver: "safe_step sys (maybe_deliver_level K g sys)"
  using maybe_deliver_level_cases [of K g "fst sys" "snd sys"] safe_deliver [of sys g] by auto

lemma safe_sync: "safe_step sys (sync_level_triggered K sys)"
  by (simp add: sync_level_triggered_def safe_fold safe_maybe_deliver)

lemma safe_set_irq_level: "safe_step sys (ioapic_set_irq_level K gsi level sys)"
proof -
  obtain io ls where sys: "sys = (io, ls)" by fastforce
  have d: "safe_step (io, ls) (drive_pin io g level, ls)" for g by (simp add: safe_step_def extends_refl)
  consider "\<not> unat gsi < length (pin_level io)" | "unat gsi < length (pin_level io)" "\<not> unat gsi < length (redirection io)"
    | "unat gsi < length (pin_level io)" "unat gsi < length (redirection io)" by blast
  then show ?thesis
  proof cases
    case 3
    then show ?thesis
      using d safe_trans [OF d safe_deliver] safe_trans [OF d safe_maybe_deliver]
      by (auto simp: sys set_irq_level_in_range Let_def split: TriggerMode.split)
  qed (simp_all add: sys set_irq_level_out_of_range d)
qed

lemma safe_notify_eoi: "safe_step sys (ioapic_notify_eoi K v sys)"
proof -
  obtain io ls where sys: "sys = (io, ls)" by fastforce
  show ?thesis
    unfolding sys ioapic_notify_eoi_def Let_def prod.case
    by (rule safe_trans [OF safe_controller safe_fold [OF safe_deliver]]) simp_all
qed

lemma safe_write_register: "safe_step sys (write_register K reg v sys)"
proof -
  obtain io ls where sys: "sys = (io, ls)" by fastforce
  have c: "safe_step (io, ls) (io\<lparr>redirection := (redirection io)[g := e]\<rparr>, ls)" for g e by (rule safe_controller) simp_all
  then have "safe_step (io, ls) (maybe_deliver_level K h (io\<lparr>redirection := (redirection io)[g := e]\<rparr>, ls))" for g e h
    by (rule safe_trans [OF _ safe_maybe_deliver])
  with c show ?thesis
    by (auto simp: sys write_register_def Let_def safe_controller split: prod.split)
qed

lemma safe_mmio_write: "safe_step sys (ioapic_mmio_write K offset sz v sys)"
proof -
  obtain io ls where sys: "sys = (io, ls)" by fastforce
  have "safe_step (io, ls) (io\<lparr>ioregsel := r\<rparr>, ls)" for r by (rule safe_controller) simp_all
  then show ?thesis by (simp add: sys ioapic_mmio_write_def Let_def safe_write_register)
qed

lemmas safe_ops = safe_deliver safe_maybe_deliver safe_sync safe_set_irq_level safe_notify_eoi safe_mmio_write

end

context interrupt_sink
begin

text \<open>A level-triggered entry that is due when its pin is driven: it delivers at once.\<close>

definition level_due :: "IoApic \<Rightarrow> 'l list \<Rightarrow> nat \<Rightarrow> bool \<Rightarrow> bool" where
  "level_due io ls g level \<longleftrightarrow> (let e = redirection io ! g in
     trigger_mode e = Level_triggered \<and> \<not> rte_mask e \<and> \<not> remote_irr e \<and> interpret_level e (raw_level io g level) \<and> delivers K e ls)"

lemma set_irq_level_spec:
  assumes s: "ioapic_set_irq_level K gsi level (io, ls) = (io', ls')" and g: "g = unat gsi"
    and r: "g < length (redirection io)" "g < length (pin_level io)"
  shows "extends ls ls' \<and> pin_active_low io' = pin_active_low io \<and> length (redirection io') = length (redirection io) \<and>
    length (pin_level io') = length (pin_level io) \<and>
    (\<forall>h. h \<noteq> g \<longrightarrow> redirection io' ! h = redirection io ! h) \<and>
    (level_due io ls g level \<longrightarrow> redirection io' ! g = (redirection io ! g)\<lparr>remote_irr := True\<rparr> \<and> reached (redirection io ! g) ls ls')"
proof -
  define sys where "sys = (drive_pin io g level, ls)"
  obtain io1 ls1 where d: "deliver K g sys = (io1, ls1)" by fastforce
  have cases: "(io', ls') = sys \<and> \<not> level_due io ls g level \<or> (io', ls') = (io1, ls1)"
    using s r d unfolding g sys_def
    by (auto simp: set_irq_level_in_range Let_def maybe_deliver_level_def level_due_def split: TriggerMode.splits if_splits)
  have io1: "io1 = (drive_pin io g level)\<lparr>redirection := (redirection io)[g := delivered_entry K ls (redirection io ! g)]\<rparr>"
    using fst_deliver [of K g "drive_pin io g level" ls] d by (simp add: sys_def)
  have "reached (redirection io ! g) ls ls1" if "level_due io ls g level"
    using deliver_reaches [OF d [unfolded sys_def] refl] that by (simp add: level_due_def Let_def delivers_def)
  moreover have "delivered_entry K ls (redirection io ! g) = (redirection io ! g)\<lparr>remote_irr := True\<rparr>" if "level_due io ls g level"
    using that by (simp add: level_due_def Let_def delivered_entry_def)
  moreover have "extends ls ls1" using extends_deliver [OF d [unfolded sys_def]] .
  ultimately show ?thesis
    using cases r by (auto simp: sys_def io1 extends_refl)
qed

lemma level_due_cong:
  "redirection io' ! g = redirection io ! g \<Longrightarrow> pin_active_low io' = pin_active_low io \<Longrightarrow> extends ls ls' \<Longrightarrow>
   level_due io' ls' g level = level_due io ls g level"
  by (simp add: level_due_def raw_level_def delivers_def extends_matches)

lemma fold_set_irq_level:
  assumes "fold (\<lambda>g. ioapic_set_irq_level K (of_nat g) (lv ! g)) gs (io, ls) = (io', ls')" "distinct gs"
    "\<forall>g \<in> set gs. g < length (redirection io) \<and> g < length (pin_level io) \<and> g < 2 ^ 32"
  shows "extends ls ls' \<and> (\<forall>g. g \<notin> set gs \<longrightarrow> redirection io' ! g = redirection io ! g) \<and>
    (\<forall>g \<in> set gs. level_due io ls g (lv ! g) \<longrightarrow>
       redirection io' ! g = (redirection io ! g)\<lparr>remote_irr := True\<rparr> \<and> reached (redirection io ! g) ls ls')"
  using assms
proof (induction gs arbitrary: io ls)
  case Nil
  then show ?case by (simp add: extends_refl)
next
  case (Cons g gs)
  obtain io1 ls1 where s: "ioapic_set_irq_level K (of_nat g) (lv ! g) (io, ls) = (io1, ls1)" by fastforce
  have "g = unat (of_nat g :: u32)" using Cons.prems(3) by (simp add: unat_of_nat)
  note step = set_irq_level_spec [OF s this]
  have step: "extends ls ls1 \<and> pin_active_low io1 = pin_active_low io \<and> length (redirection io1) = length (redirection io) \<and>
    length (pin_level io1) = length (pin_level io) \<and> (\<forall>h. h \<noteq> g \<longrightarrow> redirection io1 ! h = redirection io ! h) \<and>
    (level_due io ls g (lv ! g) \<longrightarrow> redirection io1 ! g = (redirection io ! g)\<lparr>remote_irr := True\<rparr> \<and> reached (redirection io ! g) ls ls1)"
    using Cons.prems(3) by (intro step) simp_all
  have IH: "extends ls1 ls' \<and> (\<forall>g. g \<notin> set gs \<longrightarrow> redirection io' ! g = redirection io1 ! g) \<and>
    (\<forall>g \<in> set gs. level_due io1 ls1 g (lv ! g) \<longrightarrow>
       redirection io' ! g = (redirection io1 ! g)\<lparr>remote_irr := True\<rparr> \<and> reached (redirection io1 ! g) ls1 ls')"
    using Cons.prems s step by (intro Cons.IH) auto
  have "redirection io' ! h = (redirection io ! h)\<lparr>remote_irr := True\<rparr> \<and> reached (redirection io ! h) ls ls'"
    if "h \<in> set gs" "level_due io ls h (lv ! h)" for h
  proof -
    have "h \<noteq> g" using Cons.prems(2) that(1) by auto
    then have "redirection io1 ! h = redirection io ! h" "level_due io1 ls1 h (lv ! h)"
      using step that(2) level_due_cong [of io1 h io ls ls1] by auto
    then show ?thesis using IH that(1) step reached_before by auto
  qed
  moreover have "extends ls ls'" using IH step extends_trans by blast
  moreover have "redirection io' ! g = (redirection io ! g)\<lparr>remote_irr := True\<rparr> \<and> reached (redirection io ! g) ls ls'"
    if "level_due io ls g (lv ! g)"
    using that step IH Cons.prems(2) reached_extends by auto
  moreover have "redirection io' ! h = redirection io ! h" if "h \<notin> set (g # gs)" for h
    using that step IH by auto
  ultimately show ?case by auto
qed

end

end
