(* ===== verification/InterruptRouter.thy ===== *)
theory InterruptRouter
  imports Pic8259 LocalApic IoApic
begin

text \<open>
  The interrupt fabric of the platform, \<^verbatim>\<open>platform/src/interrupts/\<close> (\<^verbatim>\<open>router.rs\<close>, \<^verbatim>\<open>pic.rs\<close>, \<^verbatim>\<open>msi.rs\<close>,
  \<^verbatim>\<open>mmio.rs\<close>) with the routing tables of \<^verbatim>\<open>aero-pci-routing\<close>: reference-counted interrupt lines, the
  switch between the 8259 pair and the APICs, inter-processor interrupts, message-signalled interrupts
  and the register windows. The state composes the controllers of the theories \<open>Pic8259\<close>, \<open>IoApic\<close> and
  \<open>LocalApic\<close>. The callbacks that the constructor registers are calls here: an end of interrupt at a
  local APIC is reported to the I/O APIC, and a write of an interrupt command register is routed to
  the other local APICs. The shared clock is a field of the state. Snapshots are not modelled.
\<close>

section \<open>PCI interrupt routing\<close>

definition DEFAULT_PIRQ_TO_GSI :: "u32 list" where
  "DEFAULT_PIRQ_TO_GSI = [20, 21, 22, 23]"

definition q35_legacy_pic_irq_for_gsi :: "u32 \<Rightarrow> u8 option" where
  "q35_legacy_pic_irq_for_gsi gsi = (if gsi \<ge> 20 \<and> gsi \<le> 23 then Some (ucast (gsi - 20) + 10) else None)"

definition pirq_index :: "u8 \<Rightarrow> u8 \<Rightarrow> u8" where
  "pirq_index device pin_index = (device + pin_index) AND 0x03"

definition gsi_for_intx :: "u32 list \<Rightarrow> u8 \<Rightarrow> u8 \<Rightarrow> u32" where
  "gsi_for_intx pirq_to_gsi device pin_index = pirq_to_gsi ! unat (pirq_index device pin_index)"

definition irq_line_for_intx :: "u32 list \<Rightarrow> u8 \<Rightarrow> u8 \<Rightarrow> u8" where
  "irq_line_for_intx pirq_to_gsi device interrupt_pin_cfg =
     (if interrupt_pin_cfg = 0 then 0xFF
      else
        let pin_index = (interrupt_pin_cfg - 1) AND 0x03;
            gsi = gsi_for_intx pirq_to_gsi device pin_index
        in if unat gsi < 256 then ucast gsi else 0xFF)"

section \<open>The legacy controllers of the platform\<close>

record PlatformPic =
  inner :: DualPic8259
  master_base :: u8
  slave_base :: u8

definition ppic_port_write_u8 :: "PlatformPic \<Rightarrow> u16 \<Rightarrow> u8 \<Rightarrow> PlatformPic" where
  "ppic_port_write_u8 p port val = p\<lparr>inner := port_write_u8 (inner p) port val\<rparr>"

definition ppic_port_read_u8 :: "PlatformPic \<Rightarrow> u16 \<Rightarrow> u8" where
  "ppic_port_read_u8 p port = port_read_u8 (inner p) port"

definition set_offsets :: "PlatformPic \<Rightarrow> u8 \<Rightarrow> u8 \<Rightarrow> PlatformPic" where
  "set_offsets p mb sb =
     (let p = ppic_port_write_u8 p MASTER_CMD 0x11;
          p = ppic_port_write_u8 p MASTER_DATA mb;
          p = ppic_port_write_u8 p MASTER_DATA 0x04;
          p = ppic_port_write_u8 p MASTER_DATA 0x01;
          p = ppic_port_write_u8 p SLAVE_CMD 0x11;
          p = ppic_port_write_u8 p SLAVE_DATA sb;
          p = ppic_port_write_u8 p SLAVE_DATA 0x02;
          p = ppic_port_write_u8 p SLAVE_DATA 0x01
      in p\<lparr>master_base := mb AND 0xF8, slave_base := sb AND 0xF8\<rparr>)"

definition PlatformPic_new :: "u8 \<Rightarrow> u8 \<Rightarrow> PlatformPic" where
  "PlatformPic_new mb sb = set_offsets \<lparr> inner = DualPic8259_new, master_base = mb, slave_base = sb \<rparr> mb sb"

definition set_masked :: "PlatformPic \<Rightarrow> u8 \<Rightarrow> bool \<Rightarrow> PlatformPic" where
  "set_masked p irq masked =
     (case (if irq \<le> 7 then Some (MASTER_DATA, irq_bit irq)
            else if irq \<le> 15 then Some (SLAVE_DATA, irq_bit (irq - 8)) else None) of
        None \<Rightarrow> p
      | Some (port, b) \<Rightarrow>
          let m = ppic_port_read_u8 p port;
              m = (if masked then m OR b else m AND NOT b)
          in ppic_port_write_u8 p port m)"

definition ppic_raise_irq :: "PlatformPic \<Rightarrow> u8 \<Rightarrow> PlatformPic" where
  "ppic_raise_irq p irq = p\<lparr>inner := pic_raise_irq (inner p) irq\<rparr>"

definition ppic_lower_irq :: "PlatformPic \<Rightarrow> u8 \<Rightarrow> PlatformPic" where
  "ppic_lower_irq p irq = p\<lparr>inner := pic_lower_irq (inner p) irq\<rparr>"

definition ppic_get_pending_vector :: "PlatformPic \<Rightarrow> u8 option" where
  "ppic_get_pending_vector p = get_pending_vector (inner p)"

definition ppic_acknowledge :: "PlatformPic \<Rightarrow> u8 \<Rightarrow> PlatformPic" where
  "ppic_acknowledge p vector = p\<lparr>inner := snd (acknowledge (inner p) vector)\<rparr>"

definition vector_to_irq :: "PlatformPic \<Rightarrow> u8 \<Rightarrow> u8 option" where
  "vector_to_irq p vector =
     (let mb = master_base p; sb = slave_base p
      in if vector \<ge> mb \<and> vector < mb + 8 then Some (vector - mb)
         else if vector \<ge> sb \<and> vector < sb + 8 then Some (8 + (vector - sb))
         else None)"

definition ppic_eoi :: "PlatformPic \<Rightarrow> u8 \<Rightarrow> PlatformPic" where
  "ppic_eoi p vector =
     (case vector_to_irq p vector of
        None \<Rightarrow> p
      | Some irq \<Rightarrow>
          if irq < 8 then ppic_port_write_u8 p MASTER_CMD (0x60 OR (irq AND 0x07))
          else
            let p = ppic_port_write_u8 p SLAVE_CMD (0x60 OR ((irq - 8) AND 0x07))
            in ppic_port_write_u8 p MASTER_CMD (0x60 OR 0x02))"

section \<open>The state of the fabric\<close>

datatype PlatformInterruptMode = LegacyPic | Apic

datatype InterruptInput = IsaIrq u8 | Gsi u32

record PlatformInterrupts =
  irq_mode :: PlatformInterruptMode
  isa_irq_to_gsi :: "u32 list"
  gsi_level :: "bool list"
  gsi_restore_baseline :: "bool list"
  gsi_assert_count :: "u32 list"
  irq_line_generation :: u64
  pic :: PlatformPic
  ioapic :: IoApic
  lapics :: "LapicState list"
  lapic_clock :: u64
  apic_enabled :: bool
  pending_init :: "bool list"
  pending_sipi :: "u8 option list"
  imcr_select :: u8
  imcr :: u8

text \<open>\<^verbatim>\<open>RoutedLapicSink\<close>: a local APIC as the I/O APIC sees it.\<close>

definition RoutedLapicSink :: "bool \<Rightarrow> u64 \<Rightarrow> LapicState LapicInterruptSink" where
  "RoutedLapicSink on now =
     \<lparr> sink_apic_id = l_id,
       sink_inject = (\<lambda>l vector. if on then inject_fixed_interrupt l now vector else l),
       sink_priority = ppr,
       sink_matches_logical = matches_logical_dest \<rparr>"

text \<open>An operation of the I/O APIC on the controller and its sinks, as the fabric runs it.\<close>

definition with_ioapic ::
  "(LapicState LapicInterruptSink \<Rightarrow> LapicState io_system \<Rightarrow> LapicState io_system) \<Rightarrow> PlatformInterrupts \<Rightarrow> PlatformInterrupts" where
  "with_ioapic f p =
     (let (io, ls) = f (RoutedLapicSink (apic_enabled p) (lapic_clock p)) (ioapic p, lapics p)
      in p\<lparr>ioapic := io, lapics := ls\<rparr>)"

text \<open>
  The write of \<^verbatim>\<open>SVR\<close> in the constructor, in \<^verbatim>\<open>reset\<close> and in \<^verbatim>\<open>enable_lapic_software\<close>; it reports no end of
  interrupt and no command (lemma \<open>svr_write\<close> below).
\<close>

definition write_svr :: "LapicState \<Rightarrow> u64 \<Rightarrow> u32 \<Rightarrow> LapicState" where
  "write_svr l now v = snd (snd (lapic_mmio_write l now 0xF0 (to_le_bytes 4 v)))"

definition enable_lapic_software :: "u64 \<Rightarrow> LapicState \<Rightarrow> LapicState" where
  "enable_lapic_software now l =
     (let (buf, l) = lapic_mmio_read l now 0xF0 4;
          v = from_le_bytes buf OR push_bit 8 1
      in write_svr l now v)"

definition default_isa_irq_to_gsi :: "u32 list" where
  "default_isa_irq_to_gsi = (map of_nat [0..<16])[0 := 2]"

definition default_pic :: PlatformPic where
  "default_pic = ppic_port_write_u8 (ppic_port_write_u8 (PlatformPic_new 0x08 0x70) MASTER_DATA 0xFF) SLAVE_DATA 0xFF"

definition new_with_cpu_count :: "u8 \<Rightarrow> PlatformInterrupts" where
  "new_with_cpu_count cpu_count =
     (let n = unat (max cpu_count 1);
          io = with_lapics 0;
          num_gsis = length (redirection io)
      in \<lparr> irq_mode = LegacyPic, isa_irq_to_gsi = default_isa_irq_to_gsi, gsi_level = replicate num_gsis False,
           gsi_restore_baseline = replicate num_gsis False, gsi_assert_count = replicate num_gsis 0,
           irq_line_generation = 0, pic = default_pic, ioapic = io,
           lapics = map (\<lambda>i. write_svr (LapicState_new (of_nat i)) 0 0x1FF) [0..<n], lapic_clock = 0,
           apic_enabled = False, pending_init = replicate n False, pending_sipi = replicate n None,
           imcr_select = 0, imcr = 0 \<rparr>)"

definition PlatformInterrupts_reset :: "PlatformInterrupts \<Rightarrow> PlatformInterrupts" where
  "PlatformInterrupts_reset p =
     (let io = with_lapics 0;
          num_gsis = length (redirection io)
      in p\<lparr>irq_line_generation := irq_line_generation p + 1, isa_irq_to_gsi := default_isa_irq_to_gsi,
           pending_init := map (\<lambda>_. False) (pending_init p), pending_sipi := map (\<lambda>_. None) (pending_sipi p),
           lapic_clock := 0, lapics := map (\<lambda>l. write_svr (lapic_reset_state l) 0 0x1FF) (lapics p),
           apic_enabled := False, ioapic := io, gsi_level := replicate num_gsis False,
           gsi_restore_baseline := replicate num_gsis False, gsi_assert_count := replicate num_gsis 0,
           pic := default_pic, irq_mode := LegacyPic, imcr_select := 0, imcr := 0\<rparr>)"

section \<open>Inter-processor interrupts\<close>

text \<open>\<^verbatim>\<open>lapics.iter().find(|lapic| lapic.apic_id() == id)\<close>, by index.\<close>

definition lapic_for_apic_id :: "LapicState list \<Rightarrow> u8 \<Rightarrow> nat option" where
  "lapic_for_apic_id ls apic_id = List.find (\<lambda>i. l_id (ls ! i) = apic_id) [0..<length ls]"

definition icr_targets :: "u8 \<Rightarrow> Icr \<Rightarrow> LapicState list \<Rightarrow> nat list" where
  "icr_targets src_apic_id icr ls =
     (case icr_destination_shorthand icr of
        NoShorthand \<Rightarrow> (case lapic_for_apic_id ls (icr_destination icr) of Some i \<Rightarrow> [i] | None \<Rightarrow> [])
      | SelfOnly \<Rightarrow> (case lapic_for_apic_id ls src_apic_id of Some i \<Rightarrow> [i] | None \<Rightarrow> [])
      | AllIncludingSelf \<Rightarrow> [0..<length ls]
      | AllExcludingSelf \<Rightarrow> filter (\<lambda>i. l_id (ls ! i) \<noteq> src_apic_id) [0..<length ls])"

definition inject_at :: "u8 \<Rightarrow> nat \<Rightarrow> PlatformInterrupts \<Rightarrow> PlatformInterrupts" where
  "inject_at vector i p = p\<lparr>lapics := (lapics p)[i := inject_fixed_interrupt (lapics p ! i) (lapic_clock p) vector]\<rparr>"

definition init_at :: "nat \<Rightarrow> PlatformInterrupts \<Rightarrow> PlatformInterrupts" where
  "init_at i p =
     (let apic_id = l_id (lapics p ! i);
          l = lapic_reset_state (lapics p ! i);
          l = (if apic_enabled p then enable_lapic_software (lapic_clock p) l else l)
      in p\<lparr>pending_init := (pending_init p)[unat apic_id := True], lapics := (lapics p)[i := l]\<rparr>)"

definition startup_at :: "u8 \<Rightarrow> nat \<Rightarrow> PlatformInterrupts \<Rightarrow> PlatformInterrupts" where
  "startup_at vector i p = p\<lparr>pending_sipi := (pending_sipi p)[unat (l_id (lapics p ! i)) := Some vector]\<rparr>"

definition handle_icr_ipi :: "u8 \<Rightarrow> Icr \<Rightarrow> PlatformInterrupts \<Rightarrow> PlatformInterrupts" where
  "handle_icr_ipi src_apic_id icr p =
     (let targets = icr_targets src_apic_id icr (lapics p)
      in case icr_delivery_mode icr of
           DmFixed \<Rightarrow> fold (inject_at (icr_vector icr)) targets p
         | DmInit \<Rightarrow> if icr_level icr \<noteq> Assert then p else fold init_at targets p
         | DmStartup \<Rightarrow> fold (startup_at (icr_vector icr)) targets p
         | _ \<Rightarrow> p)"

text \<open>
  The register page of one local APIC, with the callbacks: the ends of interrupt go to the I/O APIC,
  the commands to the other local APICs. The command notifier of the local APIC at index \<open>i\<close> was
  registered with \<open>i\<close> as its APIC ID.
\<close>

definition notify_eoi :: "u8 \<Rightarrow> PlatformInterrupts \<Rightarrow> PlatformInterrupts" where
  "notify_eoi vector = with_ioapic (\<lambda>K. ioapic_notify_eoi K vector)"

definition lapic_write_at :: "nat \<Rightarrow> u64 \<Rightarrow> u8 list \<Rightarrow> PlatformInterrupts \<Rightarrow> PlatformInterrupts" where
  "lapic_write_at i offset data p =
     (let (eoi_vectors, icr_events, l) = lapic_mmio_write (lapics p ! i) (lapic_clock p) offset data;
          p = p\<lparr>lapics := (lapics p)[i := l]\<rparr>;
          p = fold notify_eoi eoi_vectors p
      in fold (handle_icr_ipi (of_nat i)) icr_events p)"

definition lapic_read_at :: "nat \<Rightarrow> u64 \<Rightarrow> nat \<Rightarrow> PlatformInterrupts \<Rightarrow> u8 list \<times> PlatformInterrupts" where
  "lapic_read_at i offset len p =
     (let (data, l) = lapic_mmio_read (lapics p ! i) (lapic_clock p) offset len
      in (data, p\<lparr>lapics := (lapics p)[i := l]\<rparr>))"

definition lapic_mmio_read_for_cpu :: "PlatformInterrupts \<Rightarrow> nat \<Rightarrow> u64 \<Rightarrow> nat \<Rightarrow> u8 list \<times> PlatformInterrupts" where
  "lapic_mmio_read_for_cpu p cpu offset len =
     (if cpu < length (lapics p) then lapic_read_at cpu offset len p else (replicate len 0, p))"

definition lapic_mmio_write_for_cpu :: "PlatformInterrupts \<Rightarrow> nat \<Rightarrow> u64 \<Rightarrow> u8 list \<Rightarrow> PlatformInterrupts" where
  "lapic_mmio_write_for_cpu p cpu offset data =
     (if cpu < length (lapics p) then lapic_write_at cpu offset data p else p)"

definition lapic_mmio_read_for_apic :: "PlatformInterrupts \<Rightarrow> u8 \<Rightarrow> u64 \<Rightarrow> nat \<Rightarrow> u8 list \<times> PlatformInterrupts" where
  "lapic_mmio_read_for_apic p apic_id offset len =
     (case lapic_for_apic_id (lapics p) apic_id of
        Some i \<Rightarrow> lapic_read_at i offset len p
      | None \<Rightarrow> (replicate len 0, p))"

definition lapic_mmio_write_for_apic :: "PlatformInterrupts \<Rightarrow> u8 \<Rightarrow> u64 \<Rightarrow> u8 list \<Rightarrow> PlatformInterrupts" where
  "lapic_mmio_write_for_apic p apic_id offset data =
     (case lapic_for_apic_id (lapics p) apic_id of Some i \<Rightarrow> lapic_write_at i offset data p | None \<Rightarrow> p)"

section \<open>What a processor sees\<close>

definition sync_cr8_tpr_for_cpu :: "PlatformInterrupts \<Rightarrow> nat \<Rightarrow> u64 \<Rightarrow> PlatformInterrupts" where
  "sync_cr8_tpr_for_cpu p cpu cr8 =
     (if irq_mode p \<noteq> Apic then p
      else if cpu < length (lapics p) then p\<lparr>lapics := (lapics p)[cpu := set_tpr_from_cr8 (lapics p ! cpu) cr8]\<rparr>
      else p)"

definition lapic_pending_at :: "nat \<Rightarrow> PlatformInterrupts \<Rightarrow> u8 option \<times> PlatformInterrupts" where
  "lapic_pending_at i p =
     (let (v, l) = lapic_get_pending_vector (lapics p ! i) (lapic_clock p)
      in (v, p\<lparr>lapics := (lapics p)[i := l]\<rparr>))"

definition lapic_ack_at :: "nat \<Rightarrow> u8 \<Rightarrow> PlatformInterrupts \<Rightarrow> PlatformInterrupts" where
  "lapic_ack_at i vector p =
     p\<lparr>lapics := (lapics p)[i := snd (lapic_ack (lapics p ! i) (lapic_clock p) vector)]\<rparr>"

definition lapic_eoi_at :: "nat \<Rightarrow> PlatformInterrupts \<Rightarrow> PlatformInterrupts" where
  "lapic_eoi_at i p =
     (let (v, l) = lapic_eoi (lapics p ! i) (lapic_clock p);
          p = p\<lparr>lapics := (lapics p)[i := l]\<rparr>
      in case v of Some vector \<Rightarrow> notify_eoi vector p | None \<Rightarrow> p)"

definition get_pending_for_cpu :: "PlatformInterrupts \<Rightarrow> nat \<Rightarrow> u8 option \<times> PlatformInterrupts" where
  "get_pending_for_cpu p cpu =
     (case irq_mode p of
        LegacyPic \<Rightarrow> (if cpu \<noteq> 0 then None else ppic_get_pending_vector (pic p), p)
      | Apic \<Rightarrow> if cpu < length (lapics p) then lapic_pending_at cpu p else (None, p))"

definition acknowledge_for_cpu :: "PlatformInterrupts \<Rightarrow> nat \<Rightarrow> u8 \<Rightarrow> PlatformInterrupts" where
  "acknowledge_for_cpu p cpu vector =
     (case irq_mode p of
        LegacyPic \<Rightarrow> if cpu \<noteq> 0 then p else p\<lparr>pic := ppic_acknowledge (pic p) vector\<rparr>
      | Apic \<Rightarrow> if cpu < length (lapics p) then lapic_ack_at cpu vector p else p)"

definition eoi_for_cpu :: "PlatformInterrupts \<Rightarrow> nat \<Rightarrow> u8 \<Rightarrow> PlatformInterrupts" where
  "eoi_for_cpu p cpu vector =
     (case irq_mode p of
        LegacyPic \<Rightarrow> if cpu \<noteq> 0 then p else p\<lparr>pic := ppic_eoi (pic p) vector\<rparr>
      | Apic \<Rightarrow> if cpu < length (lapics p) then lapic_eoi_at cpu p else p)"

definition get_pending_for_apic :: "PlatformInterrupts \<Rightarrow> u8 \<Rightarrow> u8 option \<times> PlatformInterrupts" where
  "get_pending_for_apic p apic_id =
     (case irq_mode p of
        LegacyPic \<Rightarrow> (if apic_id = 0 then ppic_get_pending_vector (pic p) else None, p)
      | Apic \<Rightarrow> (case lapic_for_apic_id (lapics p) apic_id of Some i \<Rightarrow> lapic_pending_at i p | None \<Rightarrow> (None, p)))"

definition acknowledge_for_apic :: "PlatformInterrupts \<Rightarrow> u8 \<Rightarrow> u8 \<Rightarrow> PlatformInterrupts" where
  "acknowledge_for_apic p apic_id vector =
     (case irq_mode p of
        LegacyPic \<Rightarrow> if apic_id = 0 then p\<lparr>pic := ppic_acknowledge (pic p) vector\<rparr> else p
      | Apic \<Rightarrow> (case lapic_for_apic_id (lapics p) apic_id of Some i \<Rightarrow> lapic_ack_at i vector p | None \<Rightarrow> p))"

definition eoi_for_apic :: "PlatformInterrupts \<Rightarrow> u8 \<Rightarrow> u8 \<Rightarrow> PlatformInterrupts" where
  "eoi_for_apic p apic_id vector =
     (case irq_mode p of
        LegacyPic \<Rightarrow> if apic_id = 0 then p\<lparr>pic := ppic_eoi (pic p) vector\<rparr> else p
      | Apic \<Rightarrow> (case lapic_for_apic_id (lapics p) apic_id of Some i \<Rightarrow> lapic_eoi_at i p | None \<Rightarrow> p))"

section \<open>Interrupt lines\<close>

definition set_mode :: "PlatformInterruptMode \<Rightarrow> PlatformInterrupts \<Rightarrow> PlatformInterrupts" where
  "set_mode m p =
     (let prev = irq_mode p;
          p = p\<lparr>irq_mode := m, apic_enabled := (m = Apic)\<rparr>
      in if prev \<noteq> Apic \<and> m = Apic then
           let p = p\<lparr>lapics := map (enable_lapic_software (lapic_clock p)) (lapics p),
                     ioapic := clear_remote_irr (ioapic p)\<rparr>
           in fold (\<lambda>gsi. with_ioapic (\<lambda>K. ioapic_set_irq_level K (of_nat gsi) (gsi_level p ! gsi)))
                [0..<length (gsi_level p)] p
         else p)"

definition set_isa_irq_override :: "PlatformInterrupts \<Rightarrow> u8 \<Rightarrow> u32 \<Rightarrow> PlatformInterrupts" where
  "set_isa_irq_override p isa_irq gsi =
     (if isa_irq < 16 then p\<lparr>isa_irq_to_gsi := (isa_irq_to_gsi p)[unat isa_irq := gsi]\<rparr> else p)"

definition legacy_pic_irq_for_gsi :: "PlatformInterrupts \<Rightarrow> u32 \<Rightarrow> u8 option" where
  "legacy_pic_irq_for_gsi p gsi =
     (case q35_legacy_pic_irq_for_gsi gsi of
        Some irq \<Rightarrow> Some irq
      | None \<Rightarrow>
          if gsi \<ge> 16 then None
          else (case List.find (\<lambda>irq. isa_irq_to_gsi p ! irq = gsi) [0..<length (isa_irq_to_gsi p)] of
                  Some irq \<Rightarrow> Some (of_nat irq)
                | None \<Rightarrow> if unat gsi < 256 then Some (ucast gsi) else None))"

definition drive_gsi_effective_level :: "u32 \<Rightarrow> bool \<Rightarrow> PlatformInterrupts \<Rightarrow> PlatformInterrupts" where
  "drive_gsi_effective_level gsi level p =
     (case irq_mode p of
        LegacyPic \<Rightarrow>
          (case legacy_pic_irq_for_gsi p gsi of
             Some irq \<Rightarrow> p\<lparr>pic := (if level then ppic_raise_irq (pic p) irq else ppic_lower_irq (pic p) irq)\<rparr>
           | None \<Rightarrow> p)
      | Apic \<Rightarrow> with_ioapic (\<lambda>K. ioapic_set_irq_level K gsi level) p)"

definition update_gsi_assert_count :: "u32 \<Rightarrow> bool \<Rightarrow> PlatformInterrupts \<Rightarrow> PlatformInterrupts" where
  "update_gsi_assert_count gsi asserted p =
     (let idx = unat gsi
      in if idx \<ge> length (gsi_assert_count p) then p
         else
           case (let count = gsi_assert_count p ! idx
                 in if asserted then Some (saturating_add count 1)
                    else if count > 0 then Some (count - 1) else None) of
             None \<Rightarrow> p
           | Some count \<Rightarrow>
               let p = p\<lparr>gsi_assert_count := (gsi_assert_count p)[idx := count]\<rparr>;
                   baseline = (if idx < length (gsi_restore_baseline p) then gsi_restore_baseline p ! idx else False);
                   desired_level = (baseline \<or> count > 0);
                   prev = (if idx < length (gsi_level p) then gsi_level p ! idx else False)
               in if desired_level = prev then p
                  else
                    let p = p\<lparr>gsi_level := (gsi_level p)[idx := desired_level]\<rparr>
                    in drive_gsi_effective_level gsi desired_level p)"

definition input_gsi :: "PlatformInterrupts \<Rightarrow> InterruptInput \<Rightarrow> u32" where
  "input_gsi p input =
     (case input of
        IsaIrq irq \<Rightarrow> if unat irq < length (isa_irq_to_gsi p) then isa_irq_to_gsi p ! unat irq else ucast irq
      | Gsi gsi \<Rightarrow> gsi)"

definition raise_irq :: "PlatformInterrupts \<Rightarrow> InterruptInput \<Rightarrow> PlatformInterrupts" where
  "raise_irq p input = update_gsi_assert_count (input_gsi p input) True p"

definition lower_irq :: "PlatformInterrupts \<Rightarrow> InterruptInput \<Rightarrow> PlatformInterrupts" where
  "lower_irq p input = update_gsi_assert_count (input_gsi p input) False p"

definition gsi_level_of :: "PlatformInterrupts \<Rightarrow> u32 \<Rightarrow> bool" where
  "gsi_level_of p gsi = (if unat gsi < length (gsi_level p) then gsi_level p ! unat gsi else False)"

definition finalize_restore :: "PlatformInterrupts \<Rightarrow> PlatformInterrupts" where
  "finalize_restore p =
     (let adopt = (\<lambda>idx p.
            if (if idx < length (gsi_restore_baseline p) then gsi_restore_baseline p ! idx else False) \<and>
               (if idx < length (gsi_assert_count p) then gsi_assert_count p ! idx else 0) = 0
            then p\<lparr>gsi_assert_count := (gsi_assert_count p)[idx := 1]\<rparr> else p);
          p = fold adopt [0..<length (gsi_level p)] p;
          p = p\<lparr>gsi_restore_baseline := map (\<lambda>_. False) (gsi_restore_baseline p)\<rparr>;
          settle = (\<lambda>gsi p.
            let desired = (gsi_assert_count p ! gsi > 0)
            in if gsi_level p ! gsi \<noteq> desired
               then drive_gsi_effective_level (of_nat gsi) desired (p\<lparr>gsi_level := (gsi_level p)[gsi := desired]\<rparr>)
               else p)
      in fold settle [0..<length (gsi_level p)] p)"

section \<open>Registers and events\<close>

definition platform_ioapic_read :: "PlatformInterrupts \<Rightarrow> u64 \<Rightarrow> u32" where
  "platform_ioapic_read p offset = ucast (ioapic_mmio_read (ioapic p) offset 4)"

definition platform_ioapic_write :: "u64 \<Rightarrow> u32 \<Rightarrow> PlatformInterrupts \<Rightarrow> PlatformInterrupts" where
  "platform_ioapic_write offset val p =
     (let p = with_ioapic (\<lambda>K. ioapic_mmio_write K offset 4 (ucast val)) p;
          p = (if irq_mode p \<noteq> Apic then p\<lparr>ioapic := clear_remote_irr (ioapic p)\<rparr> else p);
          enter_symmetric_io = (irq_mode p \<noteq> Apic \<and> has_unmasked_redirection_entry (ioapic p))
      in if enter_symmetric_io then set_mode Apic p else p)"

definition tick :: "PlatformInterrupts \<Rightarrow> u64 \<Rightarrow> PlatformInterrupts" where
  "tick p delta_ns =
     (let now = lapic_clock p + delta_ns
      in p\<lparr>lapic_clock := now, lapics := map (\<lambda>l. poll_timer l now) (lapics p)\<rparr>)"

definition take_pending_init :: "PlatformInterrupts \<Rightarrow> nat \<Rightarrow> bool \<times> PlatformInterrupts" where
  "take_pending_init p cpu =
     (if cpu < length (pending_init p) then (pending_init p ! cpu, p\<lparr>pending_init := (pending_init p)[cpu := False]\<rparr>)
      else (False, p))"

definition take_pending_sipi :: "PlatformInterrupts \<Rightarrow> nat \<Rightarrow> u8 option \<times> PlatformInterrupts" where
  "take_pending_sipi p cpu =
     (if cpu < length (pending_sipi p) then (pending_sipi p ! cpu, p\<lparr>pending_sipi := (pending_sipi p)[cpu := None]\<rparr>)
      else (None, p))"

definition IMCR_SELECT_PORT :: u16 where "IMCR_SELECT_PORT = 0x22"
definition IMCR_DATA_PORT :: u16 where "IMCR_DATA_PORT = 0x23"
definition IMCR_INDEX :: u8 where "IMCR_INDEX = 0x70"

definition imcr_port_write :: "u16 \<Rightarrow> u8 \<Rightarrow> PlatformInterrupts \<Rightarrow> PlatformInterrupts" where
  "imcr_port_write port val p =
     (if port = IMCR_SELECT_PORT then p\<lparr>imcr_select := val\<rparr>
      else if port = IMCR_DATA_PORT then
        if imcr_select p = IMCR_INDEX then
          let p = p\<lparr>imcr := val AND 1\<rparr> in set_mode (if imcr p \<noteq> 0 then Apic else LegacyPic) p
        else p
      else p)"

definition imcr_port_read_u8 :: "PlatformInterrupts \<Rightarrow> u16 \<Rightarrow> u8" where
  "imcr_port_read_u8 p port =
     (if port = IMCR_SELECT_PORT then imcr_select p
      else if port = IMCR_DATA_PORT then if imcr_select p = IMCR_INDEX then imcr p else 0
      else 0)"

definition ImcrPort_read :: "PlatformInterrupts \<Rightarrow> u16 \<Rightarrow> nat \<Rightarrow> u32" where
  "ImcrPort_read p port sz =
     (if sz = 0 then 0
      else
        let val = ucast (imcr_port_read_u8 p port) :: u32
        in if sz = 2 then val OR push_bit 8 val
           else if sz = 4 then val OR push_bit 8 val OR push_bit 16 val OR push_bit 24 val
           else val)"

definition ImcrPort_write :: "u16 \<Rightarrow> nat \<Rightarrow> u32 \<Rightarrow> PlatformInterrupts \<Rightarrow> PlatformInterrupts" where
  "ImcrPort_write port sz val p =
     (if sz = 0 then p
      else if sz = 2 \<or> sz = 4 then fold (\<lambda>i. imcr_port_write port (ucast (drop_bit (i * 8) val))) [0..<sz] p
      else imcr_port_write port (ucast val) p)"

definition inject_fixed_for_apic :: "u8 \<Rightarrow> u8 \<Rightarrow> PlatformInterrupts \<Rightarrow> PlatformInterrupts" where
  "inject_fixed_for_apic apic_id vector p =
     (case lapic_for_apic_id (lapics p) apic_id of Some i \<Rightarrow> inject_at vector i p | None \<Rightarrow> p)"

definition inject_fixed_broadcast :: "u8 \<Rightarrow> PlatformInterrupts \<Rightarrow> PlatformInterrupts" where
  "inject_fixed_broadcast vector p = fold (inject_at vector) [0..<length (lapics p)] p"

definition reset_lapic :: "PlatformInterrupts \<Rightarrow> u8 \<Rightarrow> PlatformInterrupts" where
  "reset_lapic p apic_id =
     (case lapic_for_apic_id (lapics p) apic_id of
        None \<Rightarrow> p
      | Some i \<Rightarrow>
          let l = lapic_reset_state (lapics p ! i);
              l = (if apic_enabled p then enable_lapic_software (lapic_clock p) l else l)
          in p\<lparr>lapics := (lapics p)[i := l]\<rparr>)"

section \<open>Message-signalled interrupts\<close>

record MsiMessage =
  msi_address :: u64
  msi_data :: u16

definition is_xapic_msi_address :: "u64 \<Rightarrow> bool" where
  "is_xapic_msi_address address \<longleftrightarrow> drop_bit 32 address = 0 \<and> address AND 0xFFF00000 = 0xFEE00000"

definition msi_vector :: "MsiMessage \<Rightarrow> u8" where
  "msi_vector m = ucast (msi_data m AND 0x00ff)"

definition msi_destination_id :: "MsiMessage \<Rightarrow> u8" where
  "msi_destination_id m = ucast (drop_bit 12 (msi_address m) AND 0xff)"

definition msi_destination_is_logical :: "MsiMessage \<Rightarrow> bool" where
  "msi_destination_is_logical m \<longleftrightarrow> drop_bit 2 (msi_address m) AND 0x1 \<noteq> 0"

definition trigger_msi :: "MsiMessage \<Rightarrow> PlatformInterrupts \<Rightarrow> PlatformInterrupts" where
  "trigger_msi m p =
     (if \<not> is_xapic_msi_address (msi_address m) then p
      else
        let vector = msi_vector m;
            dest = msi_destination_id m
        in if msi_destination_is_logical m then
             if dest = 0xFF then inject_fixed_broadcast vector p
             else fold (\<lambda>cpu p. let apic_id = l_id (lapics p ! cpu)
                                in if apic_id < 8 \<and> dest AND push_bit (unat apic_id) 1 \<noteq> 0 then inject_at vector cpu p else p)
                    [0..<length (lapics p)] p
           else if dest = 0xFF then inject_fixed_broadcast vector p
           else inject_fixed_for_apic dest vector p)"

section \<open>The local APICs are what the I/O APIC relies on\<close>

lemma inject_fixed_fields [simp]:
  "l_id (inject_fixed_interrupt l now v) = l_id l" "ldr (inject_fixed_interrupt l now v) = ldr l"
  "enabled (inject_fixed_interrupt l now v) = enabled l" "l_isr (inject_fixed_interrupt l now v) = l_isr l"
  "tpr (inject_fixed_interrupt l now v) = tpr l"
  by (simp_all add: inject_fixed_interrupt_def)

lemma matches_logical_inject [simp]: "matches_logical_dest (inject_fixed_interrupt l now v) d = matches_logical_dest l d"
  by (simp add: matches_logical_dest_def)

lemma enabled_bit: "enabled l \<longleftrightarrow> bit (svr l) 8"
  by (simp only: enabled_def flag_clear_iff not_not)

lemma lapic_wf_inject [wf_intros]: "lapic_wf l \<Longrightarrow> lapic_wf (inject_fixed_interrupt l now v)"
  by (simp add: inject_fixed_interrupt_def lapic_wf_inner lapic_wf_poll)

text \<open>What the timer of a local APIC requests at time \<open>now\<close>.\<close>

definition timer_requests :: "u64 \<Rightarrow> LapicState \<Rightarrow> u8 \<Rightarrow> bool" where
  "timer_requests now l w \<longleftrightarrow> timer_due l now \<and> enabled l \<and> \<not> timer_masked l \<and> w = timer_vector l"

lemma requested_inject:
  "lapic_wf l \<Longrightarrow> lapic_requested (inject_fixed_interrupt l now v) w \<longleftrightarrow>
     lapic_requested l w \<or> timer_requests now l w \<or> enabled l \<and> w = v"
  by (auto simp: inject_fixed_interrupt_def requested_inner lapic_wf_poll poll_requested timer_requests_def)

interpretation routed: interrupt_sink "RoutedLapicSink on now" lapic_wf "\<lambda>l. lapic_requested l" "\<lambda>l. on \<and> enabled l"
    "timer_requests now" for on now
  by unfold_locales
    (auto simp: RoutedLapicSink_def lapic_wf_inject requested_inject split: if_splits)

section \<open>Writes of SVR\<close>

lemma svr_write:
  "lapic_mmio_write l now 0xF0 (to_le_bytes 4 v) = ([], [], (poll_timer l now)\<lparr>svr := v\<rparr>)"
  by (subst mmio_write_word) (simp_all add: LAPIC_MMIO_SIZE_def lapic_write_u32_def lapic_regs from_to_le_bytes)

lemma write_svr_eq: "write_svr l now v = (poll_timer l now)\<lparr>svr := v\<rparr>"
  by (simp add: write_svr_def svr_write)

lemma poll_timer_again: "enable_lapic_software now l = (poll_timer (poll_timer l now) now)\<lparr>svr := svr l OR push_bit 8 1\<rparr>"
proof -
  have "lapic_mmio_read l now 0xF0 4 = (to_le_bytes 4 (svr l), poll_timer l now)"
    by (subst mmio_read_word) (simp_all add: LAPIC_MMIO_SIZE_def lapic_read_u32_def lapic_regs)
  then show ?thesis by (simp add: enable_lapic_software_def write_svr_eq from_to_le_bytes)
qed

lemma enable_software_fields:
  "enabled (enable_lapic_software now l)" "l_id (enable_lapic_software now l) = l_id l"
  "lapic_wf l \<Longrightarrow> lapic_wf (enable_lapic_software now l)"
proof -
  have "bit (x OR push_bit 8 1) 8" for x :: u32 by (simp add: bit_or_iff bit_flag)
  then show "enabled (enable_lapic_software now l)"
    unfolding poll_timer_again enabled_bit by (simp del: push_bit_of_1)
  show "l_id (enable_lapic_software now l) = l_id l" by (simp add: poll_timer_again)
  show "lapic_wf (enable_lapic_software now l)" if "lapic_wf l"
    using lapic_wf_poll [OF lapic_wf_poll [OF that]] by (simp add: poll_timer_again lapic_wf_def)
qed

section \<open>The invariant of the fabric\<close>

lemma lapic_wf_write_u32: "lapic_wf l \<Longrightarrow> lapic_wf (snd (lapic_write_u32 l now off v))"
proof -
  assume l: "lapic_wf l"
  have "lapic_wf (write_divide_config l now v)" "lapic_wf (write_initial_count l now v)"
    using lapic_wf_poll [OF l, of now] by (simp_all add: write_divide_config_def write_initial_count_def Let_def lapic_wf_def)
  then show ?thesis using l lapic_wf_eoi [OF l] by (simp add: lapic_write_u32_def) (simp add: lapic_wf_def)
qed

lemma lapic_wf_write_loop:
  "lapic_wf l \<Longrightarrow> lapic_wf (snd (snd (mmio_write_loop now offset data idx l ev ic)))"
proof (induction now offset data idx l ev ic rule: mmio_write_loop.induct)
  case (1 now offset data idx l ev ic)
  show ?case
  proof (cases "idx < length data \<and> \<not> offset + of_nat idx \<ge> LAPIC_MMIO_SIZE")
    case True
    let ?off = "offset + of_nat idx"
    obtain idx' word where m: "merge_word offset data (?off AND NOT 3) [unat (?off AND 3)..<4] idx (lapic_read_u32 l now (?off AND NOT 3)) = (idx', word)"
      by fastforce
    obtain eoi l' where w: "lapic_write_u32 l now (?off AND NOT 3) word = (eoi, l')" by fastforce
    have "lapic_wf l'" using lapic_wf_write_u32 [OF "1.prems"] w by (metis snd_conv)
    then show ?thesis
      using True m w "1.IH"(2) [OF _ refl _ refl refl m [symmetric] _ w [symmetric] _ refl refl]
      by (subst mmio_write_loop.simps) auto
  next
    case False
    then show ?thesis using 1 by (subst mmio_write_loop.simps) auto
  qed
qed

lemma lapic_wf_mmio [wf_intros]:
  "lapic_wf l \<Longrightarrow> lapic_wf (snd (snd (lapic_mmio_write l now offset data)))"
  "lapic_wf l \<Longrightarrow> lapic_wf (snd (lapic_mmio_read l now offset len))"
  by (simp_all add: lapic_mmio_write_def lapic_mmio_read_def Let_def lapic_wf_write_loop lapic_wf_poll)

lemma lapic_wf_svr [wf_intros]: "lapic_wf l \<Longrightarrow> lapic_wf (write_svr l now v)"
  by (simp add: write_svr_def lapic_wf_mmio)

lemma lapic_wf_reset [wf_intros]: "lapic_wf (lapic_reset_state l)"
  by (simp add: lapic_reset_state_def lapic_wf_new)

definition lines_wf :: "bool list \<Rightarrow> bool list \<Rightarrow> u32 list \<Rightarrow> bool" where
  "lines_wf level baseline count \<longleftrightarrow> length level = 24 \<and> length baseline = 24 \<and> length count = 24 \<and>
     (\<forall>g < 24. level ! g \<longleftrightarrow> baseline ! g \<or> count ! g > 0)"

definition apics_wf :: "PlatformInterrupts \<Rightarrow> bool" where
  "apics_wf p \<longleftrightarrow> apic_enabled p = (irq_mode p = Apic) \<and> ioapic_wf (ioapic p) \<and> length (redirection (ioapic p)) = 24 \<and>
     lapics p \<noteq> [] \<and> list_all lapic_wf (lapics p) \<and> length (pending_init p) = length (lapics p) \<and>
     length (pending_sipi p) = length (lapics p)"

definition platform_wf :: "PlatformInterrupts \<Rightarrow> bool" where
  "platform_wf p \<longleftrightarrow> lines_wf (gsi_level p) (gsi_restore_baseline p) (gsi_assert_count p) \<and> apics_wf p \<and>
     pic_reachable (inner (pic p)) \<and> length (isa_irq_to_gsi p) = 16 \<and> imcr p \<le> 1"

text \<open>Operations of the I/O APIC change nothing but the controller and the local APICs.\<close>

lemma with_ioapic_fields [simp]:
  "irq_mode (with_ioapic f p) = irq_mode p" "isa_irq_to_gsi (with_ioapic f p) = isa_irq_to_gsi p"
  "gsi_level (with_ioapic f p) = gsi_level p" "gsi_restore_baseline (with_ioapic f p) = gsi_restore_baseline p"
  "gsi_assert_count (with_ioapic f p) = gsi_assert_count p" "pic (with_ioapic f p) = pic p"
  "lapic_clock (with_ioapic f p) = lapic_clock p" "apic_enabled (with_ioapic f p) = apic_enabled p"
  "pending_init (with_ioapic f p) = pending_init p" "pending_sipi (with_ioapic f p) = pending_sipi p"
  "imcr (with_ioapic f p) = imcr p" "imcr_select (with_ioapic f p) = imcr_select p"
  by (simp_all add: with_ioapic_def split: prod.split)

lemma with_ioapic_system:
  "(ioapic (with_ioapic f p), lapics (with_ioapic f p)) = f (RoutedLapicSink (apic_enabled p) (lapic_clock p)) (ioapic p, lapics p)"
  by (simp add: with_ioapic_def split: prod.split)

lemma safe_apics_wf:
  assumes "apics_wf p" "routed.safe_step on now (ioapic p, lapics p) (io', ls')"
  shows "apics_wf (p\<lparr>ioapic := io', lapics := ls'\<rparr>)"
  using assms
  by (auto simp: apics_wf_def routed.safe_step_def routed.extends_def ioapic_wf_def list_all_length)


lemma wf_with_ioapic:
  assumes "platform_wf p"
    "\<And>on now. routed.safe_step on now (ioapic p, lapics p) (f (RoutedLapicSink on now) (ioapic p, lapics p))"
  shows "platform_wf (with_ioapic f p)"
proof -
  obtain io ls where f: "f (RoutedLapicSink (apic_enabled p) (lapic_clock p)) (ioapic p, lapics p) = (io, ls)" by fastforce
  have "apics_wf (p\<lparr>ioapic := io, lapics := ls\<rparr>)"
    using assms(1) assms(2) [of "apic_enabled p" "lapic_clock p"] unfolding f
    by (intro safe_apics_wf) (simp_all add: platform_wf_def)
  then show ?thesis using assms(1) by (simp add: platform_wf_def with_ioapic_def f)
qed

text \<open>Changes of one local APIC, and of what the invariant does not speak of.\<close>

lemma wf_lapic_update:
  "platform_wf p \<Longrightarrow> (i < length (lapics p) \<Longrightarrow> lapic_wf (lapics p ! i) \<Longrightarrow> lapic_wf l) \<Longrightarrow>
   platform_wf (p\<lparr>lapics := (lapics p)[i := l]\<rparr>)"
  by (cases "i < length (lapics p)")
    (auto simp: platform_wf_def apics_wf_def list_all_length nth_list_update)

lemma wf_lapics_map:
  "platform_wf p \<Longrightarrow> (\<And>l. lapic_wf l \<Longrightarrow> lapic_wf (f l)) \<Longrightarrow> platform_wf (p\<lparr>lapics := map f (lapics p)\<rparr>)"
  by (auto simp: platform_wf_def apics_wf_def list_all_length)

lemma wf_pending:
  "platform_wf p \<Longrightarrow> length b = length (pending_init p) \<Longrightarrow> platform_wf (p\<lparr>pending_init := b\<rparr>)"
  "platform_wf p \<Longrightarrow> length c = length (pending_sipi p) \<Longrightarrow> platform_wf (p\<lparr>pending_sipi := c\<rparr>)"
  by (simp_all add: platform_wf_def apics_wf_def)

lemma wf_pic: "platform_wf p \<Longrightarrow> pic_reachable (inner q) \<Longrightarrow> platform_wf (p\<lparr>pic := q\<rparr>)"
  by (simp add: platform_wf_def apics_wf_def)

lemma wf_clock: "platform_wf p \<Longrightarrow> platform_wf (p\<lparr>lapic_clock := t\<rparr>)"
  by (simp add: platform_wf_def apics_wf_def)

lemma wf_clear_remote_irr: "platform_wf p \<Longrightarrow> platform_wf (p\<lparr>ioapic := clear_remote_irr (ioapic p)\<rparr>)"
  by (simp add: platform_wf_def apics_wf_def clear_remote_irr_def ioapic_wf_def)

lemma wf_fold: "platform_wf p \<Longrightarrow> (\<And>x q. platform_wf q \<Longrightarrow> platform_wf (f x q)) \<Longrightarrow> platform_wf (fold f xs p)"
  by (rule fold_invariant_on)

lemma pic_reachable_ppic:
  assumes "pic_reachable (inner q)"
  shows "pic_reachable (inner (ppic_port_write_u8 q port v))" "pic_reachable (inner (ppic_raise_irq q irq))"
    "pic_reachable (inner (ppic_lower_irq q irq))" "pic_reachable (inner (ppic_acknowledge q v))"
    "pic_reachable (inner (ppic_eoi q v))" "pic_reachable (inner (set_masked q irq b))"
  using assms
  by (auto simp: ppic_port_write_u8_def ppic_raise_irq_def ppic_lower_irq_def ppic_acknowledge_def ppic_eoi_def
      set_masked_def Let_def split: option.split intro: pic_reachable.intros)

lemma pic_reachable_set_offsets: "pic_reachable (inner q) \<Longrightarrow> pic_reachable (inner (set_offsets q mb sb))"
  unfolding set_offsets_def Let_def by (simp add: pic_reachable_ppic(1))

lemma pic_reachable_default: "pic_reachable (inner default_pic)"
  unfolding default_pic_def PlatformPic_new_def
  by (intro pic_reachable_ppic(1) pic_reachable_set_offsets) (simp add: pic_reachable.power_on)

text \<open>The operations.\<close>

lemma wf_notify_eoi: "platform_wf p \<Longrightarrow> platform_wf (notify_eoi v p)"
  unfolding notify_eoi_def by (rule wf_with_ioapic) (simp_all add: routed.safe_notify_eoi)

lemma wf_drive: "platform_wf p \<Longrightarrow> platform_wf (drive_gsi_effective_level gsi level p)"
proof -
  assume p: "platform_wf p"
  then have "pic_reachable (inner (pic p))" by (simp add: platform_wf_def)
  then have "platform_wf (p\<lparr>pic := (if level then ppic_raise_irq (pic p) irq else ppic_lower_irq (pic p) irq)\<rparr>)" for irq
    by (intro wf_pic p) (simp add: pic_reachable_ppic)
  moreover have "platform_wf (with_ioapic (\<lambda>K. ioapic_set_irq_level K gsi level) p)"
    using p by (rule wf_with_ioapic) (simp add: routed.safe_set_irq_level)
  ultimately show ?thesis
    using p by (simp add: drive_gsi_effective_level_def split: PlatformInterruptMode.split option.split)
qed

lemma inject_at_wf: "platform_wf p \<Longrightarrow> platform_wf (inject_at v i p)"
  unfolding inject_at_def by (rule wf_lapic_update) (auto intro: lapic_wf_inject)

lemma init_at_wf: "platform_wf p \<Longrightarrow> platform_wf (init_at i p)"
proof -
  assume p: "platform_wf p"
  have "platform_wf ((p\<lparr>pending_init := b\<rparr>)\<lparr>lapics := (lapics (p\<lparr>pending_init := b\<rparr>))[i := l]\<rparr>)"
      if "lapic_wf l" "length b = length (pending_init p)" for l b
    using that by (intro wf_lapic_update wf_pending p)
  then show ?thesis by (simp add: init_at_def Let_def enable_software_fields lapic_wf_reset)
qed

lemma handle_icr_ipi_wf: "platform_wf p \<Longrightarrow> platform_wf (handle_icr_ipi src icr p)"
proof -
  assume p: "platform_wf p"
  have "platform_wf q \<Longrightarrow> platform_wf (startup_at v i q)" for v i q
    unfolding startup_at_def by (rule wf_pending) simp_all
  then show ?thesis
    using p by (auto simp: handle_icr_ipi_def Let_def inject_at_wf init_at_wf intro!: wf_fold split: DeliveryMode.split)
qed

lemma lapic_write_at_wf: "platform_wf p \<Longrightarrow> platform_wf (lapic_write_at i offset data p)"
proof -
  assume p: "platform_wf p"
  obtain ev ic l where w: "lapic_mmio_write (lapics p ! i) (lapic_clock p) offset data = (ev, ic, l)" by (metis prod_cases3)
  then have "platform_wf (p\<lparr>lapics := (lapics p)[i := l]\<rparr>)"
    using lapic_wf_mmio(1) [of "lapics p ! i" "lapic_clock p" offset data] by (intro wf_lapic_update p) simp
  then show ?thesis by (simp add: lapic_write_at_def w wf_fold handle_icr_ipi_wf wf_notify_eoi)
qed

lemma lapic_at_wf:
  assumes p: "platform_wf p"
  shows "platform_wf (snd (lapic_read_at i offset len p))" "platform_wf (snd (lapic_pending_at i p))"
    "platform_wf (lapic_ack_at i v p)" "platform_wf (lapic_eoi_at i p)"
proof -
  have "platform_wf (p\<lparr>lapics := (lapics p)[i := snd (lapic_mmio_read (lapics p ! i) (lapic_clock p) offset len)]\<rparr>)"
    by (intro wf_lapic_update p lapic_wf_mmio)
  then show "platform_wf (snd (lapic_read_at i offset len p))"
    by (cases "lapic_mmio_read (lapics p ! i) (lapic_clock p) offset len") (simp add: lapic_read_at_def)
  have "platform_wf (p\<lparr>lapics := (lapics p)[i := snd (lapic_get_pending_vector (lapics p ! i) (lapic_clock p))]\<rparr>)"
    by (intro wf_lapic_update p) (simp add: lapic_get_pending_vector_def Let_def lapic_wf_poll)
  then show "platform_wf (snd (lapic_pending_at i p))" 
    by (cases "lapic_get_pending_vector (lapics p ! i) (lapic_clock p)") (simp add: lapic_pending_at_def)
  show "platform_wf (lapic_ack_at i v p)"
    unfolding lapic_ack_at_def lapic_ack_def by (intro wf_lapic_update p lapic_wf_ack lapic_wf_poll)
  have "platform_wf (p\<lparr>lapics := (lapics p)[i := snd (lapic_eoi (lapics p ! i) (lapic_clock p))]\<rparr>)"
    unfolding lapic_eoi_def by (intro wf_lapic_update p lapic_wf_eoi lapic_wf_poll)
  then show "platform_wf (lapic_eoi_at i p)"
    by (cases "lapic_eoi (lapics p ! i) (lapic_clock p)") (simp add: lapic_eoi_at_def Let_def wf_notify_eoi split: option.split)
qed

lemma wf_mode: "platform_wf p \<Longrightarrow> platform_wf (p\<lparr>irq_mode := m, apic_enabled := (m = Apic)\<rparr>)"
  by (simp add: platform_wf_def apics_wf_def)

lemma wf_set_mode: "platform_wf p \<Longrightarrow> platform_wf (set_mode m p)"
proof -
  assume p: "platform_wf p"
  let ?q = "p\<lparr>irq_mode := m, apic_enabled := (m = Apic)\<rparr>"
  have q: "platform_wf ?q" using p by (rule wf_mode)
  have "platform_wf (?q\<lparr>lapics := map (enable_lapic_software (lapic_clock ?q)) (lapics ?q)\<rparr>)"
    by (rule wf_lapics_map [OF q enable_software_fields(3)])
  from wf_clear_remote_irr [OF this]
  have r: "platform_wf (?q\<lparr>lapics := map (enable_lapic_software (lapic_clock ?q)) (lapics ?q), ioapic := clear_remote_irr (ioapic ?q)\<rparr>)"
    by simp
  have "platform_wf s \<Longrightarrow> platform_wf (with_ioapic (\<lambda>K. ioapic_set_irq_level K g b) s)" for s g b
    by (rule wf_with_ioapic) (simp_all add: routed.safe_set_irq_level)
  then show ?thesis using q r unfolding set_mode_def Let_def by (auto intro!: wf_fold)
qed

lemma wf_ioapic_write: "platform_wf p \<Longrightarrow> platform_wf (platform_ioapic_write offset v p)"
proof -
  assume p: "platform_wf p"
  have "platform_wf (with_ioapic (\<lambda>K. ioapic_mmio_write K offset 4 (ucast v)) p)"
    using p by (rule wf_with_ioapic) (simp add: routed.safe_mmio_write)
  then show ?thesis by (simp add: platform_ioapic_write_def Let_def wf_set_mode wf_clear_remote_irr)
qed

lemma wf_imcr: "platform_wf p \<Longrightarrow> platform_wf (imcr_port_write port v p)"
proof -
  assume p: "platform_wf p"
  have "v AND 1 \<le> 1" by (rule word_and_le1)
  then have "platform_wf (p\<lparr>imcr := v AND 1\<rparr>)" "platform_wf (p\<lparr>imcr_select := v\<rparr>)"
    using p by (simp_all add: platform_wf_def apics_wf_def)
  then show ?thesis using p by (simp add: imcr_port_write_def Let_def wf_set_mode)
qed

text \<open>Asserting and deasserting a line keeps the level of the line in step with the count.\<close>

lemma wf_lines:
  "platform_wf p \<Longrightarrow> lines_wf a (gsi_restore_baseline p) c \<Longrightarrow> platform_wf (p\<lparr>gsi_assert_count := c, gsi_level := a\<rparr>)"
  by (simp add: platform_wf_def apics_wf_def)

lemma lines_wf_update:
  "lines_wf a b c \<Longrightarrow> g < 24 \<Longrightarrow> lines_wf (a[g := b ! g \<or> n > 0]) b (c[g := n])"
  by (auto simp: lines_wf_def nth_list_update)

text \<open>The effect of asserting or deasserting a line, with the level as a function of the count.\<close>

definition new_count :: "bool \<Rightarrow> u32 \<Rightarrow> u32 option" where
  "new_count asserted c = (if asserted then Some (saturating_add c 1) else if c > 0 then Some (c - 1) else None)"

definition set_line :: "nat \<Rightarrow> u32 \<Rightarrow> PlatformInterrupts \<Rightarrow> PlatformInterrupts" where
  "set_line g n p = p\<lparr>gsi_assert_count := (gsi_assert_count p)[g := n],
     gsi_level := (gsi_level p)[g := gsi_restore_baseline p ! g \<or> n > 0]\<rparr>"

lemma update_count_eq:
  assumes "lines_wf (gsi_level p) (gsi_restore_baseline p) (gsi_assert_count p)" "unat gsi < 24"
  shows "update_gsi_assert_count gsi asserted p =
    (case new_count asserted (gsi_assert_count p ! unat gsi) of None \<Rightarrow> p
     | Some n \<Rightarrow>
         let q = set_line (unat gsi) n p; level = gsi_restore_baseline p ! unat gsi \<or> n > 0
         in if level = gsi_level p ! unat gsi then q else drive_gsi_effective_level gsi level q)"
proof -
  let ?g = "unat gsi"
  have len: "length (gsi_level p) = 24" "length (gsi_restore_baseline p) = 24" "length (gsi_assert_count p) = 24" "?g < 24"
    using assms by (simp_all add: lines_wf_def)
  have step: "(let p = p\<lparr>gsi_assert_count := (gsi_assert_count p)[?g := n]\<rparr>;
       baseline = (if ?g < length (gsi_restore_baseline p) then gsi_restore_baseline p ! ?g else False);
       desired_level = (baseline \<or> n > 0); prev = (if ?g < length (gsi_level p) then gsi_level p ! ?g else False)
     in if desired_level = prev then p
        else let p = p\<lparr>gsi_level := (gsi_level p)[?g := desired_level]\<rparr> in drive_gsi_effective_level gsi desired_level p) =
    (let q = set_line ?g n p; level = gsi_restore_baseline p ! ?g \<or> n > 0
         in if level = gsi_level p ! ?g then q else drive_gsi_effective_level gsi level q)" for n
  proof (cases "(gsi_restore_baseline p ! ?g \<or> n > 0) = gsi_level p ! ?g")
    case True
    have "set_line ?g n p = p\<lparr>gsi_assert_count := (gsi_assert_count p)[?g := n]\<rparr>" unfolding set_line_def True by simp
    then show ?thesis using True len by (simp add: Let_def)
  next
    case False
    then show ?thesis using len unfolding set_line_def Let_def by simp
  qed
  show ?thesis
    using len unfolding update_gsi_assert_count_def new_count_def [symmetric] step
    by (simp only: Let_def new_count_def [symmetric] step [unfolded Let_def] split: if_splits) auto
qed

lemma wf_set_line: "platform_wf p \<Longrightarrow> g < 24 \<Longrightarrow> platform_wf (set_line g n p)"
  unfolding set_line_def by (intro wf_lines lines_wf_update) (auto simp: platform_wf_def)

lemma update_count_out_of_range:
  "platform_wf p \<Longrightarrow> \<not> unat gsi < 24 \<Longrightarrow> update_gsi_assert_count gsi asserted p = p"
  by (simp add: platform_wf_def lines_wf_def update_gsi_assert_count_def)

lemma wf_update_count: "platform_wf p \<Longrightarrow> platform_wf (update_gsi_assert_count gsi asserted p)"
proof (cases "unat gsi < 24")
  case True
  assume p: "platform_wf p"
  then have "lines_wf (gsi_level p) (gsi_restore_baseline p) (gsi_assert_count p)" by (simp add: platform_wf_def)
  then show ?thesis
    using p True by (simp add: update_count_eq Let_def wf_set_line wf_drive split: option.split)
qed (simp add: update_count_out_of_range)

text \<open>
  The end of a restore: in a well-formed state a line that only the snapshot asserted becomes one
  anonymous assertion, and no level changes, so nothing is driven.
\<close>

definition adopted_counts :: "PlatformInterrupts \<Rightarrow> nat \<Rightarrow> u32 list" where
  "adopted_counts p k = map (\<lambda>i. if i < k \<and> gsi_restore_baseline p ! i \<and> gsi_assert_count p ! i = 0 then 1
     else gsi_assert_count p ! i) [0..<24]"

lemma fold_stays: "(\<And>x. x \<in> set xs \<Longrightarrow> f x s = s) \<Longrightarrow> fold f xs s = s"
  by (induction xs) simp_all

lemma finalize_restore_eq:
  assumes "platform_wf p"
  shows "finalize_restore p = p\<lparr>gsi_assert_count := adopted_counts p 24, gsi_restore_baseline := replicate 24 False\<rparr>"
proof -
  define adopt where "adopt = (\<lambda>idx (p :: PlatformInterrupts).
            if (if idx < length (gsi_restore_baseline p) then gsi_restore_baseline p ! idx else False) \<and>
               (if idx < length (gsi_assert_count p) then gsi_assert_count p ! idx else 0) = 0
            then p\<lparr>gsi_assert_count := (gsi_assert_count p)[idx := 1]\<rparr> else p)"
  have l: "length (gsi_level p) = 24" "length (gsi_restore_baseline p) = 24" "length (gsi_assert_count p) = 24"
      "\<And>g. g < 24 \<Longrightarrow> gsi_level p ! g \<longleftrightarrow> gsi_restore_baseline p ! g \<or> gsi_assert_count p ! g > 0"
    using assms by (auto simp: platform_wf_def lines_wf_def)
  have fold: "fold adopt [0..<k] p = p\<lparr>gsi_assert_count := adopted_counts p k\<rparr>" if "k \<le> 24" for k
    using that
  proof (induction k)
    case 0
    have "adopted_counts p 0 = gsi_assert_count p" using l(3) by (auto simp: adopted_counts_def intro: nth_equalityI)
    then show ?case by simp
  next
    case (Suc k)
    have same: "gsi_assert_count p ! k = adopted_counts p k ! k" "length (adopted_counts p k) = 24"
      using Suc.prems by (simp_all add: adopted_counts_def)
    have "adopted_counts p (Suc k) =
        (if gsi_restore_baseline p ! k \<and> gsi_assert_count p ! k = 0 then (adopted_counts p k)[k := 1] else adopted_counts p k)"
      using Suc.prems by (auto simp: adopted_counts_def nth_list_update less_Suc_eq intro!: nth_equalityI)
    then show ?case using Suc l(2) same by (simp add: adopt_def)
  qed
  let ?q = "p\<lparr>gsi_assert_count := adopted_counts p 24, gsi_restore_baseline := replicate 24 False\<rparr>"
  have "adopted_counts p 24 ! g > 0 \<longleftrightarrow> gsi_level p ! g" if "g < 24" for g
    using l(4) [OF that] that by (auto simp: adopted_counts_def word_gt_0)
  then show ?thesis
    using fold [of 24] l(1,2)
    by (simp add: finalize_restore_def Let_def adopt_def [symmetric] map_replicate_const) (rule fold_stays, simp)
qed

lemma wf_finalize_restore: "platform_wf p \<Longrightarrow> platform_wf (finalize_restore p)"
  by (auto simp: finalize_restore_eq platform_wf_def apics_wf_def lines_wf_def adopted_counts_def word_gt_0)

lemma lines_wf_new: "lines_wf (replicate 24 False) (replicate 24 False) (replicate 24 0)"
  by (simp add: lines_wf_def)

lemma with_lapics_sizes: "length (redirection (with_lapics i)) = 24" "ioapic_wf (with_lapics i)"
  by (simp_all add: with_lapics_def with_entries_and_lapics_def NUM_REDIRECTION_ENTRIES_def ioapic_wf_def Let_def)

lemma wf_new: "platform_wf (new_with_cpu_count n)"
proof -
  have "unat (max n 1) \<noteq> 0" by (auto simp: max_def unat_eq_0)
  then show ?thesis
    by (auto simp: platform_wf_def apics_wf_def new_with_cpu_count_def Let_def with_lapics_sizes lines_wf_new
        list_all_iff pic_reachable_default default_isa_irq_to_gsi_def lapic_wf_svr lapic_wf_new)
qed

lemma wf_reset: "platform_wf p \<Longrightarrow> platform_wf (PlatformInterrupts_reset p)"
  by (auto simp: platform_wf_def apics_wf_def PlatformInterrupts_reset_def Let_def with_lapics_sizes lines_wf_new
      list_all_iff pic_reachable_default default_isa_irq_to_gsi_def lapic_wf_svr lapic_wf_reset)

section \<open>Reachable states\<close>

text \<open>Everything that devices, processors and the machine can do to the fabric.\<close>

inductive platform_reachable :: "PlatformInterrupts \<Rightarrow> bool" where
  new: "platform_reachable (new_with_cpu_count n)"
| reset: "platform_reachable p \<Longrightarrow> platform_reachable (PlatformInterrupts_reset p)"
| raised: "platform_reachable p \<Longrightarrow> platform_reachable (raise_irq p input)"
| lowered: "platform_reachable p \<Longrightarrow> platform_reachable (lower_irq p input)"
| override: "platform_reachable p \<Longrightarrow> platform_reachable (set_isa_irq_override p irq gsi)"
| mode: "platform_reachable p \<Longrightarrow> platform_reachable (set_mode m p)"
| restored: "platform_reachable p \<Longrightarrow> platform_reachable (finalize_restore p)"
| pic_offsets: "platform_reachable p \<Longrightarrow> platform_reachable (p\<lparr>pic := set_offsets (pic p) mb sb\<rparr>)"
| pic_masked: "platform_reachable p \<Longrightarrow> platform_reachable (p\<lparr>pic := set_masked (pic p) irq b\<rparr>)"
| pic_port: "platform_reachable p \<Longrightarrow> platform_reachable (p\<lparr>pic := ppic_port_write_u8 (pic p) port v\<rparr>)"
| ioapic_write: "platform_reachable p \<Longrightarrow> platform_reachable (platform_ioapic_write offset w p)"
| lapic_read: "platform_reachable p \<Longrightarrow> platform_reachable (snd (lapic_mmio_read_for_cpu p cpu offset len))"
| lapic_write: "platform_reachable p \<Longrightarrow> platform_reachable (lapic_mmio_write_for_cpu p cpu offset data)"
| lapic_read_apic: "platform_reachable p \<Longrightarrow> platform_reachable (snd (lapic_mmio_read_for_apic p apic_id offset len))"
| lapic_write_apic: "platform_reachable p \<Longrightarrow> platform_reachable (lapic_mmio_write_for_apic p apic_id offset data)"
| cr8: "platform_reachable p \<Longrightarrow> platform_reachable (sync_cr8_tpr_for_cpu p cpu cr8)"
| pending: "platform_reachable p \<Longrightarrow> platform_reachable (snd (get_pending_for_cpu p cpu))"
| acknowledged: "platform_reachable p \<Longrightarrow> platform_reachable (acknowledge_for_cpu p cpu v)"
| ended: "platform_reachable p \<Longrightarrow> platform_reachable (eoi_for_cpu p cpu v)"
| pending_apic: "platform_reachable p \<Longrightarrow> platform_reachable (snd (get_pending_for_apic p apic_id))"
| acknowledged_apic: "platform_reachable p \<Longrightarrow> platform_reachable (acknowledge_for_apic p apic_id v)"
| ended_apic: "platform_reachable p \<Longrightarrow> platform_reachable (eoi_for_apic p apic_id v)"
| ticked: "platform_reachable p \<Longrightarrow> platform_reachable (tick p delta)"
| init_taken: "platform_reachable p \<Longrightarrow> platform_reachable (snd (take_pending_init p cpu))"
| sipi_taken: "platform_reachable p \<Longrightarrow> platform_reachable (snd (take_pending_sipi p cpu))"
| imcr_port: "platform_reachable p \<Longrightarrow> platform_reachable (ImcrPort_write port sz w p)"
| lapic_reset: "platform_reachable p \<Longrightarrow> platform_reachable (reset_lapic p apic_id)"
| msi: "platform_reachable p \<Longrightarrow> platform_reachable (trigger_msi m p)"


lemma trigger_msi_wf: "platform_wf p \<Longrightarrow> platform_wf (trigger_msi m p)"
  by (auto simp: trigger_msi_def inject_fixed_broadcast_def inject_fixed_for_apic_def Let_def inject_at_wf
      intro!: wf_fold split: option.split)

lemma set_tpr_wf: "lapic_wf l \<Longrightarrow> lapic_wf (set_tpr_from_cr8 l c)"
  by (simp add: set_tpr_from_cr8_def set_tpr_def lapic_wf_def)

lemma wf_pic_ops:
  assumes "platform_wf p"
  shows "platform_wf (p\<lparr>pic := ppic_acknowledge (pic p) v\<rparr>)" "platform_wf (p\<lparr>pic := ppic_eoi (pic p) v\<rparr>)"
    "platform_wf (p\<lparr>pic := set_offsets (pic p) mb sb\<rparr>)" "platform_wf (p\<lparr>pic := set_masked (pic p) irq b\<rparr>)"
    "platform_wf (p\<lparr>pic := ppic_port_write_u8 (pic p) port v\<rparr>)"
  using assms by (simp_all add: wf_pic platform_wf_def pic_reachable_ppic pic_reachable_set_offsets apics_wf_def)

lemma wf_processor:
  assumes "platform_wf p"
  shows "platform_wf (snd (get_pending_for_cpu p cpu))" "platform_wf (acknowledge_for_cpu p cpu v)"
    "platform_wf (eoi_for_cpu p cpu v)" "platform_wf (snd (get_pending_for_apic p apic_id))"
    "platform_wf (acknowledge_for_apic p apic_id v)" "platform_wf (eoi_for_apic p apic_id v)"
  using assms
  by (simp_all add: get_pending_for_cpu_def acknowledge_for_cpu_def eoi_for_cpu_def get_pending_for_apic_def
      acknowledge_for_apic_def eoi_for_apic_def wf_pic_ops lapic_at_wf split: PlatformInterruptMode.split option.split)

lemma reachable_wf: "platform_reachable p \<Longrightarrow> platform_wf p"
proof (induction rule: platform_reachable.induct)
  case (raised p input)
  then show ?case by (simp add: raise_irq_def wf_update_count)
next
  case (lowered p input)
  then show ?case by (simp add: lower_irq_def wf_update_count)
next
  case (override p irq gsi)
  then show ?case by (simp add: set_isa_irq_override_def platform_wf_def apics_wf_def)
next
  case (cr8 p cpu c)
  then show ?case by (auto simp: sync_cr8_tpr_for_cpu_def intro!: wf_lapic_update set_tpr_wf)
next
  case (ticked p delta)
  then show ?case
    using wf_lapics_map [OF wf_clock [OF ticked.IH, of "lapic_clock p + delta"], of "\<lambda>l. poll_timer l (lapic_clock p + delta)"]
    by (simp add: tick_def Let_def lapic_wf_poll)
next
  case (lapic_reset p apic_id)
  then show ?case
    by (auto simp: reset_lapic_def Let_def enable_software_fields lapic_wf_reset intro!: wf_lapic_update split: option.split)
qed (auto simp: wf_new wf_reset wf_set_mode wf_finalize_restore wf_ioapic_write trigger_msi_wf lapic_at_wf lapic_write_at_wf
      wf_pic_ops wf_processor lapic_mmio_read_for_cpu_def lapic_mmio_write_for_cpu_def lapic_mmio_read_for_apic_def lapic_mmio_write_for_apic_def
      ImcrPort_write_def wf_imcr take_pending_init_def take_pending_sipi_def wf_pending
      intro!: wf_fold split: option.split)

section \<open>Shared interrupt lines\<close>

text \<open>
  The specification of a shared line: a counter of the sources that assert it. Devices drive lines
  with a sequence of events; an event concerns the line that its input is wired to.
\<close>

datatype line_event = Raise InterruptInput | Lower InterruptInput

fun apply_event :: "line_event \<Rightarrow> PlatformInterrupts \<Rightarrow> PlatformInterrupts" where
  "apply_event (Raise input) p = raise_irq p input"
| "apply_event (Lower input) p = lower_irq p input"

fun count_event :: "(InterruptInput \<Rightarrow> u32) \<Rightarrow> u32 \<Rightarrow> line_event \<Rightarrow> nat \<Rightarrow> nat" where
  "count_event wire gsi (Raise input) n = (if wire input = gsi then n + 1 else n)"
| "count_event wire gsi (Lower input) n = (if wire input = gsi then n - 1 else n)"

lemma drive_fields [simp]:
  "gsi_level (drive_gsi_effective_level gsi level p) = gsi_level p"
  "gsi_restore_baseline (drive_gsi_effective_level gsi level p) = gsi_restore_baseline p"
  "gsi_assert_count (drive_gsi_effective_level gsi level p) = gsi_assert_count p"
  "isa_irq_to_gsi (drive_gsi_effective_level gsi level p) = isa_irq_to_gsi p"
  "irq_mode (drive_gsi_effective_level gsi level p) = irq_mode p"
  by (auto simp: drive_gsi_effective_level_def split: PlatformInterruptMode.split option.split)

lemma update_count_fields:
  assumes "platform_wf p"
  shows "gsi_assert_count (update_gsi_assert_count gsi b p) =
      (if unat gsi < 24 then case new_count b (gsi_assert_count p ! unat gsi) of None \<Rightarrow> gsi_assert_count p
         | Some n \<Rightarrow> (gsi_assert_count p)[unat gsi := n] else gsi_assert_count p)"
    "isa_irq_to_gsi (update_gsi_assert_count gsi b p) = isa_irq_to_gsi p"
    "gsi_restore_baseline (update_gsi_assert_count gsi b p) = gsi_restore_baseline p"
proof -
  have l: "lines_wf (gsi_level p) (gsi_restore_baseline p) (gsi_assert_count p)" using assms by (simp add: platform_wf_def)
  show "gsi_assert_count (update_gsi_assert_count gsi b p) =
      (if unat gsi < 24 then case new_count b (gsi_assert_count p ! unat gsi) of None \<Rightarrow> gsi_assert_count p
         | Some n \<Rightarrow> (gsi_assert_count p)[unat gsi := n] else gsi_assert_count p)"
    "isa_irq_to_gsi (update_gsi_assert_count gsi b p) = isa_irq_to_gsi p"
    "gsi_restore_baseline (update_gsi_assert_count gsi b p) = gsi_restore_baseline p"
    using update_count_eq [OF l, of gsi b] update_count_out_of_range [OF assms, of gsi b]
    by (cases "unat gsi < 24"; simp add: Let_def set_line_def split: option.split)+
qed

lemma input_gsi_wire: "isa_irq_to_gsi q = isa_irq_to_gsi p \<Longrightarrow> input_gsi q = input_gsi p"
  by (auto simp: input_gsi_def fun_eq_iff split: InterruptInput.split)

text \<open>One event, as a step of the counter.\<close>

lemma apply_event_count:
  assumes p: "platform_wf p" and g: "unat gsi < 24" and n: "Suc (unat (gsi_assert_count p ! unat gsi)) < 2 ^ 32"
  shows "unat (gsi_assert_count (apply_event e p) ! unat gsi) = count_event (input_gsi p) gsi e (unat (gsi_assert_count p ! unat gsi))"
proof -
  have len: "length (gsi_assert_count p) = 24" using p by (simp add: platform_wf_def lines_wf_def)
  have "unat (saturating_add c 1) = unat c + 1" if "Suc (unat c) < 2 ^ 32" for c :: u32
    using that unat_saturating_add [of c 1] by simp
  moreover have "unat (c - 1) = unat c - 1" if "c > 0" for c :: u32
    using that by (simp add: unat_sub word_le_nat_alt word_gt_0 unat_gt_0 Suc_le_eq)
  moreover have "unat c = 0" if "\<not> c > 0" for c :: u32 using that by (simp add: word_gt_0)
  moreover have "unat h = unat gsi \<longleftrightarrow> h = gsi" for h by (rule word_unat_eq_iff [symmetric])
  ultimately show ?thesis
    using n g len update_count_fields(1) [OF p]
    by (cases e) (auto simp: raise_irq_def lower_irq_def new_count_def nth_list_update split: if_splits)
qed

lemma apply_event_wf: "platform_wf p \<Longrightarrow> platform_wf (apply_event e p)"
  by (cases e) (simp_all add: raise_irq_def lower_irq_def wf_update_count)

lemma apply_event_wire:
  "platform_wf p \<Longrightarrow> input_gsi (apply_event e p) = input_gsi p"
  "platform_wf p \<Longrightarrow> gsi_restore_baseline (apply_event e p) = gsi_restore_baseline p"
  by (rule input_gsi_wire) (cases e; simp add: raise_irq_def lower_irq_def update_count_fields)+

lemma count_event_le: "count_event w g e n \<le> n + 1"
  by (cases e) auto

lemma events_count:
  assumes "platform_wf p" "unat gsi < 24" "unat (gsi_assert_count p ! unat gsi) + length es < 2 ^ 32"
  shows "platform_wf (fold apply_event es p) \<and>
    gsi_restore_baseline (fold apply_event es p) = gsi_restore_baseline p \<and>
    unat (gsi_assert_count (fold apply_event es p) ! unat gsi) =
      fold (count_event (input_gsi p) gsi) es (unat (gsi_assert_count p ! unat gsi))"
  using assms
proof (induction es arbitrary: p)
  case (Cons e es)
  have c: "unat (gsi_assert_count (apply_event e p) ! unat gsi) = count_event (input_gsi p) gsi e (unat (gsi_assert_count p ! unat gsi))"
    using Cons.prems by (intro apply_event_count) simp_all
  then have "unat (gsi_assert_count (apply_event e p) ! unat gsi) + length es < 2 ^ 32"
    using Cons.prems(3) count_event_le [of "input_gsi p" gsi e "unat (gsi_assert_count p ! unat gsi)"] by simp
  then show ?case
    using Cons.IH [OF apply_event_wf [OF Cons.prems(1)] Cons.prems(2)] apply_event_wire [OF Cons.prems(1)] c by simp
qed simp

section \<open>Properties\<close>

text \<open>
  (C26) The fabric keeps its state in step in every reachable state, whatever devices and processors do
  in whatever order: the level of each of the 24 lines is asserted exactly when a source asserts it or a
  snapshot did; interrupts reach the local APICs through the I/O APIC exactly in APIC mode; the tables of
  the I/O APIC and of pending start-up requests keep their sizes; and the 8259 pair and the local
  APICs are well-formed.
\<close>

theorem platform_reachable_invariant:
  assumes "platform_reachable p"
  shows "length (gsi_level p) = 24 \<and>
    (\<forall>gsi. gsi_level_of p gsi \<longleftrightarrow> unat gsi < 24 \<and> (gsi_restore_baseline p ! unat gsi \<or> gsi_assert_count p ! unat gsi > 0)) \<and>
    (apic_enabled p \<longleftrightarrow> irq_mode p = Apic) \<and>
    length (redirection (ioapic p)) = 24 \<and> length (pin_level (ioapic p)) = 24 \<and>
    lapics p \<noteq> [] \<and> length (pending_init p) = length (lapics p) \<and> length (pending_sipi p) = length (lapics p) \<and>
    list_all lapic_wf (lapics p) \<and> dual_wf (inner (pic p)) \<and> imcr p \<le> 1"
  using reachable_wf [OF assms] reachable_dual_wf
  by (auto simp: platform_wf_def lines_wf_def apics_wf_def ioapic_wf_def gsi_level_of_def)

theorem platform_reachable_invariant_witness:
  "let p = raise_irq (set_mode Apic (new_with_cpu_count 2)) (IsaIrq 0) in apic_enabled p = (irq_mode p = Apic) \<and> length (gsi_level p) = 24"
proof -
  have "platform_reachable (raise_irq (set_mode Apic (new_with_cpu_count 2)) (IsaIrq 0))"
    by (intro platform_reachable.intros)
  from platform_reachable_invariant [OF this] show ?thesis by (simp add: Let_def)
qed

text \<open>
  (C27) Lines are shared by reference count. From any reachable state whose restore is finalized, and for
  any sequence of assertions and deassertions by devices (of ISA inputs and of system interrupts, in
  any mode, fewer than $2^{32}$ in total), the level of a line is the one of the specification: a
  counter per line that an assertion increments and a deassertion decrements, never below zero.
\<close>

theorem platform_lines_refine_counters:
  assumes "platform_reachable p" and "unat gsi < 24" and "\<not> gsi_restore_baseline p ! unat gsi"
    and "unat (gsi_assert_count p ! unat gsi) + length es < 2 ^ 32"
  shows "gsi_level_of (fold apply_event es p) gsi \<longleftrightarrow>
    0 < fold (count_event (input_gsi p) gsi) es (unat (gsi_assert_count p ! unat gsi))"
proof -
  note e = events_count [OF reachable_wf [OF assms(1)] assms(2,4)]
  then show ?thesis
    using assms(2,3)
    by (auto simp: platform_wf_def lines_wf_def gsi_level_of_def word_gt_0 unat_gt_0 [symmetric] simp del: unat_gt_0)
qed

theorem platform_lines_refine_counters_witness:
  "gsi_level_of (fold apply_event [Raise (IsaIrq 0), Raise (Gsi 2), Lower (IsaIrq 0)] (new_with_cpu_count 1)) 2 \<and>
   \<not> gsi_level_of (fold apply_event [Raise (IsaIrq 0), Lower (Gsi 2), Lower (IsaIrq 0)] (new_with_cpu_count 1)) 2"
proof -
  let ?p = "new_with_cpu_count 1"
  have p: "\<not> gsi_restore_baseline ?p ! unat (2 :: u32)" "gsi_assert_count ?p ! unat (2 :: u32) = 0"
    "input_gsi ?p (IsaIrq 0) = 2" "input_gsi ?p (Gsi 2) = 2"
    by (simp_all add: new_with_cpu_count_def Let_def with_lapics_sizes input_gsi_def default_isa_irq_to_gsi_def)
  show ?thesis
    using platform_lines_refine_counters [OF platform_reachable.new _ p(1), of "[Raise (IsaIrq 0), Raise (Gsi 2), Lower (IsaIrq 0)]"]
      platform_lines_refine_counters [OF platform_reachable.new _ p(1), of "[Raise (IsaIrq 0), Lower (Gsi 2), Lower (IsaIrq 0)]"]
    by (simp add: p p(2) [simplified])
qed

lemma eoi_keeps:
  "l_id (snd (lapic_eoi l now)) = l_id l" "ldr (snd (lapic_eoi l now)) = ldr l" "enabled (snd (lapic_eoi l now)) = enabled l"
  by (auto simp: lapic_eoi_def LapicState_eoi_def enabled_bit split: option.split)

lemma lapic_eoi_wf: "lapic_wf l \<Longrightarrow> lapic_wf (snd (lapic_eoi l now))"
  unfolding lapic_eoi_def by (intro lapic_wf_eoi lapic_wf_poll)

lemma matches_routed:
  "l_id l' = l_id l \<Longrightarrow> ldr l' = ldr l \<Longrightarrow>
   matches_destination (RoutedLapicSink on now) e l' = matches_destination (RoutedLapicSink on now) e l"
  by (simp add: matches_destination_def RoutedLapicSink_def matches_logical_dest_def)

lemma matches_eoi:
  "matches_destination (RoutedLapicSink on now) e (snd (lapic_eoi l t)) = matches_destination (RoutedLapicSink on now) e l"
  by (rule matches_routed) (simp_all add: eoi_keeps)

text \<open>
  (C28) Level-triggered interrupts are not lost. Ending, at a processor, an interrupt of a level-triggered
  entry whose Remote-IRR is set clears that flag when the line is no longer asserted (or the entry is
  masked, or nobody matches its destination), and delivers the interrupt again otherwise: every enabled
  local APIC that the destination matches requests the vector (in lowest-priority mode, one that matches
  requests it if it is enabled). Entries with other vectors keep their state.
\<close>

theorem platform_level_redelivery:
  assumes "platform_wf p" and "irq_mode p = Apic" and "cpu < length (lapics p)"
    and v: "fst (lapic_eoi (lapics p ! cpu) (lapic_clock p)) = Some v"
    and g: "g < 24" and e: "e = redirection (ioapic p) ! g" and p': "p' = eoi_for_cpu p cpu w"
    and K: "K = RoutedLapicSink True (lapic_clock p)"
    and again: "again = (interpret_level e (pin_level (ioapic p) ! g) \<and> \<not> rte_mask e \<and> delivery_mode e \<le> 1 \<and>
       list_ex (matches_destination K e) (lapics p))"
  shows "redirection (ioapic p') ! g = (if eoi_concerns v e then e\<lparr>remote_irr := again\<rparr> else e) \<and>
    (eoi_concerns v e \<and> again \<longrightarrow>
       (if delivery_mode e = 0
        then \<forall>i < length (lapics p). matches_destination K e (lapics p ! i) \<and> enabled (lapics p ! i) \<longrightarrow> lapic_requested (lapics p' ! i) v
        else \<exists>i < length (lapics p). matches_destination K e (lapics p ! i) \<and>
          (enabled (lapics p ! i) \<longrightarrow> lapic_requested (lapics p' ! i) v)))"
proof -
  have wf: "apics_wf p" using assms(1) by (simp add: platform_wf_def)
  define ls where "ls = (lapics p)[cpu := snd (lapic_eoi (lapics p ! cpu) (lapic_clock p))]"
  have ls: "length ls = length (lapics p)" "\<And>i. i < length (lapics p) \<Longrightarrow> enabled (ls ! i) = enabled (lapics p ! i)"
    "\<And>i e. i < length (lapics p) \<Longrightarrow> matches_destination K e (ls ! i) = matches_destination K e (lapics p ! i)"
    "\<And>i. i < length (lapics p) \<Longrightarrow> lapic_wf (ls ! i)"
    using wf assms(3) unfolding K
    by (auto simp: ls_def nth_list_update eoi_keeps lapic_eoi_wf matches_eoi apics_wf_def list_all_length)
  have on: "apic_enabled p" using wf assms(2) by (simp add: apics_wf_def)
  have "p' = notify_eoi v (p\<lparr>lapics := ls\<rparr>)"
    using assms(2,3) v by (cases "lapic_eoi (lapics p ! cpu) (lapic_clock p)") (simp add: p' eoi_for_cpu_def lapic_eoi_at_def ls_def)
  then have n: "ioapic_notify_eoi K v (ioapic p, ls) = (ioapic p', lapics p')"
    using with_ioapic_system [of "\<lambda>K. ioapic_notify_eoi K v" "p\<lparr>lapics := ls\<rparr>"] on by (simp add: notify_eoi_def K)
  have ex: "list_ex (matches_destination K e) ls = list_ex (matches_destination K e) (lapics p)"
    using ls by (auto simp: list_ex_length)
  have spec: "redirection (ioapic p') ! g = (if eoi_concerns v e then e\<lparr>remote_irr := again\<rparr> else e) \<and>
      (eoi_concerns v e \<and> again \<longrightarrow> routed.reached True (lapic_clock p) e ls (lapics p'))"
  proof -
    have "g < length (redirection (ioapic p))" using wf g by (simp add: apics_wf_def)
    then show ?thesis
      using routed.notify_eoi_spec [OF n [unfolded K]]
      unfolding Let_def delivers_def again e K ex [unfolded K e, symmetric] by blast
  qed
  have "rte_vector e = v" if "eoi_concerns v e" using that by (simp add: eoi_concerns_def)
  then show ?thesis
    using spec [unfolded routed.reached_def] ls unfolding K by (auto split: if_split) blast
qed


theorem platform_level_redelivery_witness:
  "let p = (new_with_cpu_count 1)\<lparr>irq_mode := Apic, apic_enabled := True, lapics := [sample_lapic],
         ioapic := (with_lapics 0)\<lparr>redirection := (replicate 24 RedirectionEntry_default)[20 := RedirectionEntry_default
           \<lparr>rte_vector := 0x41, rte_mask := False, trigger_mode := Level_triggered, remote_irr := True\<rparr>],
           pin_level := replicate 24 True\<rparr>\<rparr>
   in platform_wf p \<and> lapic_requested (lapics (eoi_for_cpu p 0 0x41) ! 0) 0x41 \<and>
      remote_irr (redirection (ioapic (eoi_for_cpu p 0 0x41)) ! 20)"
proof -
  let ?e = "RedirectionEntry_default\<lparr>rte_vector := 0x41, rte_mask := False, trigger_mode := Level_triggered, remote_irr := True\<rparr>"
  define p where "p = (new_with_cpu_count 1)\<lparr>irq_mode := Apic, apic_enabled := True, lapics := [sample_lapic],
         ioapic := (with_lapics 0)\<lparr>redirection := (replicate 24 RedirectionEntry_default)[20 := ?e], pin_level := replicate 24 True\<rparr>\<rparr>"
  have q: "platform_wf (new_with_cpu_count 1)" "length (pending_init (new_with_cpu_count 1)) = 1" "length (pending_sipi (new_with_cpu_count 1)) = 1"
    by (rule wf_new) (simp_all add: new_with_cpu_count_def Let_def)
  then have wf: "platform_wf p"
    using with_lapics_sizes(2) [of 0] sample_lapic_wf with_lapics_sizes(1) [of 0]
    by (simp add: p_def platform_wf_def apics_wf_def ioapic_wf_def)
  have p: "irq_mode p = Apic" "0 < length (lapics p)" "lapics p ! 0 = sample_lapic" "redirection (ioapic p) ! 20 = ?e"
    "pin_level (ioapic p) ! 20" "lapics p = [sample_lapic]"
    by (simp_all add: p_def)
  have v: "fst (lapic_eoi (lapics p ! 0) (lapic_clock p)) = Some 0x41"
    unfolding p(3) by (rule lapic_eoi_highest [OF sample_lapic_wf]) (simp_all add: sample_lapic_bits)
  have e: "interpret_level ?e True" "\<not> rte_mask ?e" "delivery_mode ?e = 0" "eoi_concerns 0x41 ?e"
    "matches_destination (RoutedLapicSink True (lapic_clock p)) ?e sample_lapic"
    by (simp_all add: RedirectionEntry_default_def interpret_level_def eoi_concerns_def matches_destination_def
        RoutedLapicSink_def sample_lapic_def LapicState_new_def)
  have "redirection (ioapic (eoi_for_cpu p 0 0x41)) ! 20 = ?e\<lparr>remote_irr := True\<rparr> \<and> lapic_requested (lapics (eoi_for_cpu p 0 0x41) ! 0) 0x41"
    using platform_level_redelivery [OF wf p(1,2) v, of 20 ?e "eoi_for_cpu p 0 0x41" "0x41" _ True] p e sample_lapic_bits(3)
    by (simp add: list_ex_iff)
  then show ?thesis using wf by (simp add: p_def [symmetric] Let_def)
qed

text \<open>The switch to APIC mode, as one run of the I/O APIC over all the lines.\<close>

lemma fold_with_ioapic:
  "fold (\<lambda>x. with_ioapic (f x)) xs p =
     (let (io, ls) = fold (\<lambda>x. f x (RoutedLapicSink (apic_enabled p) (lapic_clock p))) xs (ioapic p, lapics p)
      in p\<lparr>ioapic := io, lapics := ls\<rparr>)"
proof (induction xs arbitrary: p)
  case (Cons x xs)
  show ?case
    using Cons.IH [of "with_ioapic (f x) p"] with_ioapic_system [of "f x" p]
    by (auto simp: with_ioapic_def split: prod.split)
qed simp

text \<open>
  Switching to the APICs loses no level-triggered interrupt. When the fabric leaves the legacy mode,
  every line that is asserted at that moment and whose entry of the I/O APIC is level-triggered,
  unmasked, of the polarity of the pin and addressed to some local APIC is delivered: its
  Remote-IRR is set, every local APIC that the destination matches requests the vector in fixed mode,
  and one of them does in lowest-priority mode. All local APICs are enabled by the switch.
\<close>

theorem platform_switch_delivers_levels:
  assumes wf: "platform_wf p" and m: "irq_mode p = LegacyPic" and p': "p' = set_mode Apic p"
    and g: "g < 24" and l: "gsi_level p ! g" and e: "e = redirection (ioapic p) ! g"
    and K: "K = RoutedLapicSink True (lapic_clock p)"
    and due: "trigger_mode e = Level_triggered" "\<not> rte_mask e" "interpret_level e (raw_level (ioapic p) g True)"
    and del: "delivery_mode e \<le> 1" "list_ex (matches_destination K e) (lapics p)"
  shows "redirection (ioapic p') ! g = e\<lparr>remote_irr := True\<rparr> \<and>
    (if delivery_mode e = 0
     then \<forall>i < length (lapics p). matches_destination K e (lapics p ! i) \<longrightarrow> lapic_requested (lapics p' ! i) (rte_vector e)
     else \<exists>i < length (lapics p). matches_destination K e (lapics p ! i) \<and> lapic_requested (lapics p' ! i) (rte_vector e))"
proof -
  define ls where "ls = map (enable_lapic_software (lapic_clock p)) (lapics p)"
  define io where "io = clear_remote_irr (ioapic p)"
  have sizes: "length (redirection io) = 24" "length (pin_level io) = 24" "length (gsi_level p) = 24" "pin_active_low io = pin_active_low (ioapic p)"
    "redirection io ! g = e\<lparr>remote_irr := False\<rparr>"
    using wf g by (auto simp: platform_wf_def apics_wf_def ioapic_wf_def lines_wf_def io_def clear_remote_irr_def e)
  have keep: "ldr (enable_lapic_software now l) = ldr l" for now l by (simp add: poll_timer_again)
  have "matches_destination K e' (enable_lapic_software now l) = matches_destination K e' l" for e' now l
    unfolding K by (rule matches_routed) (simp_all add: enable_software_fields keep)
  then have ls: "length ls = length (lapics p)" "\<And>i. i < length (lapics p) \<Longrightarrow> enabled (ls ! i) \<and> lapic_wf (ls ! i)"
    "\<And>i e. i < length (lapics p) \<Longrightarrow> matches_destination K e (ls ! i) = matches_destination K e (lapics p ! i)"
    using wf by (auto simp: ls_def enable_software_fields platform_wf_def apics_wf_def list_all_length)
  have mode: "set_mode Apic p = fold (\<lambda>gsi. with_ioapic (\<lambda>K. ioapic_set_irq_level K (of_nat gsi) (gsi_level p ! gsi)))
      [0..<24] (p\<lparr>irq_mode := Apic, apic_enabled := True, lapics := ls, ioapic := io\<rparr>)"
    using m sizes(3) by (simp add: set_mode_def Let_def ls_def io_def)
  have run: "fold (\<lambda>g. ioapic_set_irq_level K (of_nat g) (gsi_level p ! g)) [0..<24] (io, ls) = (ioapic p', lapics p')"
    unfolding p' mode fold_with_ioapic by (simp add: K split: prod.split)
  have same: "delivers K (e\<lparr>remote_irr := b\<rparr>) ls = delivers K e ls" "matches_destination K (e\<lparr>remote_irr := b\<rparr>) x = matches_destination K e x"
    "interpret_level (e\<lparr>remote_irr := b\<rparr>) r = interpret_level e r" for b x r
    by (simp_all add: delivers_def matches_destination_def interpret_level_def list_ex_iff)
  have "delivers K e ls" using del ls by (auto simp: delivers_def list_ex_length)
  moreover have "raw_level io g True = raw_level (ioapic p) g True" by (simp add: raw_level_def sizes)
  ultimately have d: "routed.level_due True (lapic_clock p) io ls g (gsi_level p ! g)"
    using due l unfolding routed.level_due_def Let_def sizes(5) K by (simp add: same [unfolded K])
  have "\<forall>g \<in> set [0..<24]. g < length (redirection io) \<and> g < length (pin_level io) \<and> g < 2 ^ 32" by (simp add: sizes)
  from routed.fold_set_irq_level [OF run [unfolded K] distinct_upt this, THEN conjunct2, THEN conjunct2, rule_format, of g]
  have "redirection (ioapic p') ! g = e\<lparr>remote_irr := True\<rparr> \<and> routed.reached True (lapic_clock p) (e\<lparr>remote_irr := False\<rparr>) ls (lapics p')"
    using d g sizes(5) by simp
  then show ?thesis
    using ls unfolding routed.reached_def K same [unfolded K] by (auto split: if_splits)
qed

theorem platform_switch_delivers_levels_witness:
  "let p = (new_with_cpu_count 1)\<lparr>gsi_level := (replicate 24 False)[5 := True], gsi_assert_count := (replicate 24 0)[5 := 1],
         ioapic := (with_lapics 0)\<lparr>redirection := (replicate 24 RedirectionEntry_default)[5 := RedirectionEntry_default
           \<lparr>rte_vector := 0x61, rte_mask := False, trigger_mode := Level_triggered\<rparr>]\<rparr>\<rparr>
   in platform_wf p \<and> lapic_requested (lapics (set_mode Apic p) ! 0) 0x61 \<and>
      remote_irr (redirection (ioapic (set_mode Apic p)) ! 5)"
proof -
  let ?e = "RedirectionEntry_default\<lparr>rte_vector := 0x61, rte_mask := False, trigger_mode := Level_triggered\<rparr>"
  define p where "p = (new_with_cpu_count 1)\<lparr>gsi_level := (replicate 24 False)[5 := True], gsi_assert_count := (replicate 24 0)[5 := 1],
         ioapic := (with_lapics 0)\<lparr>redirection := (replicate 24 RedirectionEntry_default)[5 := ?e]\<rparr>\<rparr>"
  have "gsi_restore_baseline (new_with_cpu_count 1) = replicate 24 False"
    by (simp add: new_with_cpu_count_def Let_def with_lapics_sizes)
  then have wf: "platform_wf p"
    using wf_new [of 1] with_lapics_sizes [of 0]
    by (auto simp: p_def platform_wf_def apics_wf_def ioapic_wf_def lines_wf_def nth_list_update)
  have p: "irq_mode p = LegacyPic" "(5 :: nat) < 24" "gsi_level p ! 5" "?e = redirection (ioapic p) ! 5" "length (lapics p) = 1"
    "l_id (lapics p ! 0) = 0" "pin_active_low (ioapic p) ! 5 = False"
    by (simp_all add: p_def new_with_cpu_count_def Let_def write_svr_eq LapicState_new_def with_lapics_def
        with_entries_and_lapics_def NUM_REDIRECTION_ENTRIES_def)
  have m: "matches_destination (RoutedLapicSink True (lapic_clock p)) ?e (lapics p ! 0)"
    using p(6) by (simp add: RedirectionEntry_default_def matches_destination_def RoutedLapicSink_def)
  have e: "trigger_mode ?e = Level_triggered" "\<not> rte_mask ?e" "delivery_mode ?e = 0"
    "interpret_level ?e (raw_level (ioapic p) 5 True)"
    using p(7) by (simp_all add: RedirectionEntry_default_def interpret_level_def raw_level_def)
  have "redirection (ioapic (set_mode Apic p)) ! 5 = ?e\<lparr>remote_irr := True\<rparr> \<and> lapic_requested (lapics (set_mode Apic p) ! 0) 0x61"
    using platform_switch_delivers_levels [OF wf p(1) refl p(2,3,4) refl e(1,2,4)] e(3) m p(5) by (simp add: list_ex_length)
  then show ?thesis using wf by (simp add: p_def [symmetric] Let_def)
qed

section \<open>Inter-processor interrupts\<close>













section \<open>A guest that moves the vectors of the 8259 pair\<close>

text \<open>
  \<^verbatim>\<open>Pic8259::eoi\<close> of the platform translates a vector with the bases of the last \<^verbatim>\<open>set_offsets\<close>, and a
  guest programs the bases through the ports. After the usual remapping to 0x20 and 0x28 the pair delivers
  IRQ 1 at vector 0x21, and \<^verbatim>\<open>eoi(0x21)\<close> has no effect.
\<close>

definition guest_remap :: "PlatformPic \<Rightarrow> PlatformPic" where
  "guest_remap q = fold (\<lambda>(port, v) q. ppic_port_write_u8 q port v)
     [(MASTER_CMD, 0x11), (MASTER_DATA, 0x20), (MASTER_DATA, 0x04), (MASTER_DATA, 0x01),
      (SLAVE_CMD, 0x11), (SLAVE_DATA, 0x28), (SLAVE_DATA, 0x02), (SLAVE_DATA, 0x01)] q"

lemma ppic_eoi_after_guest_remap:
  "vector_bases (inner (guest_remap default_pic)) = (0x20, 0x28)"
  "vector_to_irq (guest_remap default_pic) 0x21 = None" "ppic_eoi (guest_remap default_pic) 0x21 = guest_remap default_pic"
proof -
  note defs = guest_remap_def default_pic_def PlatformPic_new_def set_offsets_def ppic_port_write_u8_def port_write_u8_def
    MASTER_CMD_def MASTER_DATA_def SLAVE_CMD_def SLAVE_DATA_def Let_def
  have b: "master_base (guest_remap default_pic) = 0x08" "slave_base (guest_remap default_pic) = 0x70"
    by (simp_all add: defs)
  show "vector_bases (inner (guest_remap default_pic)) = (0x20, 0x28)"
    by (simp add: defs vector_bases_def write_command_def write_icw1_def write_data_def DualPic8259_new_def new_power_on_def)
  show "vector_to_irq (guest_remap default_pic) 0x21 = None" by (simp add: vector_to_irq_def b word_le_nat_alt word_less_nat_alt)
  then show "ppic_eoi (guest_remap default_pic) 0x21 = guest_remap default_pic" by (simp add: ppic_eoi_def)
qed

end
