(* ===== verification/IpcRing.thy ===== *)
theory IpcRing
  imports Prelude
begin

text \<open>
  The ring buffer of variable-length records in \<^verbatim>\<open>aero-ipc/src/ring.rs\<close>: many producers reserve space with
  a compare-and-exchange on \<^verbatim>\<open>tail_reserve\<close>, write their record and publish it in order through
  \<^verbatim>\<open>tail_commit\<close>; one consumer advances \<^verbatim>\<open>head\<close>. The three positions are wrapping 32-bit counters. The
  first part translates the operations for one thread; the second is the step relation of concurrent
  producers and one consumer; the third shows that the ring is a queue, for every interleaving.

  The bytes behind \<^verbatim>\<open>data_ptr\<close> are a list, and \<open>copy_at\<close> is a write through the raw pointer: \<^term>\<open>None\<close> is a write
  outside of the buffer, which the source performs without a check and which never happens (below).
  The largest \<^verbatim>\<open>usize\<close> is the argument \<open>umax\<close>. A loop that makes no progress is fuel that runs out (\<open>Diverge\<close>).
\<close>

section \<open>Records\<close>

definition RECORD_ALIGN :: nat where "RECORD_ALIGN = 4"
definition WRAP_MARKER :: u32 where "WRAP_MARKER = 0xFFFFFFFF"

datatype PushError = Full | TooLarge

datatype PopError = Empty | PopTooLarge u32 u32 | Corrupt

text \<open>\<^verbatim>\<open>v & !(align - 1)\<close> for an alignment that is a power of two.\<close>

definition align_up_checked :: "nat \<Rightarrow> nat \<Rightarrow> nat \<Rightarrow> nat option" where
  "align_up_checked umax v align =
     (if v + (align - 1) \<le> umax then Some ((v + (align - 1)) div align * align) else None)"

definition record_size_checked :: "nat \<Rightarrow> nat \<Rightarrow> nat option" where
  "record_size_checked umax payload_len =
     (if 4 + payload_len \<le> umax then align_up_checked umax (4 + payload_len) RECORD_ALIGN else None)"

definition record_size :: "nat \<Rightarrow> nat \<Rightarrow> nat" where
  "record_size umax payload_len = (case record_size_checked umax payload_len of Some n \<Rightarrow> n | None \<Rightarrow> umax)"

definition bytes_for_ring :: "nat \<Rightarrow> nat" where
  "bytes_for_ring capacity_bytes = 4 * 4 + capacity_bytes"

definition max_payload_len_for_capacity :: "nat \<Rightarrow> nat" where
  "max_payload_len_for_capacity capacity_bytes = capacity_bytes - (4 + (RECORD_ALIGN - 1))"

section \<open>The ring\<close>

record RingBuffer =
  cap :: u32
  head :: u32
  tail_reserve :: u32
  tail_commit :: u32
  ring_data :: "u8 list"

text \<open>\<^term>\<open>None\<close> is a failed \<^verbatim>\<open>assert!\<close>.\<close>

definition RingBuffer_new :: "nat \<Rightarrow> RingBuffer option" where
  "RingBuffer_new capacity_bytes =
     (if capacity_bytes > 0 \<and> capacity_bytes mod RECORD_ALIGN = 0 \<and> capacity_bytes < 2 ^ 32 - 1
      then Some \<lparr> cap = of_nat capacity_bytes, head = 0, tail_reserve = 0, tail_commit = 0,
                  ring_data = replicate capacity_bytes 0 \<rparr>
      else None)"

definition ring_is_empty :: "RingBuffer \<Rightarrow> bool" where
  "ring_is_empty r \<longleftrightarrow> head r = tail_commit r"

text \<open>The bounds of a payload, checked before the loop of \<^verbatim>\<open>try_push\<close>.\<close>

definition push_size :: "nat \<Rightarrow> u32 \<Rightarrow> nat \<Rightarrow> nat option" where
  "push_size umax cp payload_len =
     (if payload_len > (2 ^ 32 - 1) - 1 then None
      else case record_size_checked umax payload_len of
             None \<Rightarrow> None
           | Some rs \<Rightarrow> if rs > unat cp then None else Some rs)"

text \<open>
  One turn of the loop of \<^verbatim>\<open>try_push\<close>, up to the compare-and-exchange: try again, give up, or the padding,
  the wrap marker and the new tail of a reservation.
\<close>

datatype push_turn = Retry | NoRoom | Reserve nat bool u32

definition push_attempt :: "u32 \<Rightarrow> u32 \<Rightarrow> u32 \<Rightarrow> nat \<Rightarrow> push_turn" where
  "push_attempt cp hd0 tl0 rs =
     (let used = tl0 - hd0
      in if used > cp then Retry
         else
           let free = cp - used;
               tail_index = unat (tl0 mod cp);
               remaining = unat cp - tail_index;
               (padding, write_wrap_marker) =
                 (if remaining < 4 then (remaining, False)
                  else if remaining < rs then (remaining, True)
                  else (0, False));
               reserve = padding + rs
           in if (of_nat reserve :: u32) > free then NoRoom
              else Reserve padding write_wrap_marker (tl0 + of_nat reserve))"

definition push_write :: "u32 \<Rightarrow> u32 \<Rightarrow> nat \<Rightarrow> bool \<Rightarrow> u8 list \<Rightarrow> u8 list \<Rightarrow> u8 list option" where
  "push_write cp tl0 padding write_wrap_marker payload d =
     (case (if write_wrap_marker then copy_at d (unat (tl0 mod cp)) (to_le_bytes 4 WRAP_MARKER) else Some d) of
        None \<Rightarrow> None
      | Some d \<Rightarrow>
          let start = tl0 + of_nat padding;
              start_index = unat (start mod cp)
          in case copy_at d start_index (to_le_bytes 4 (of_nat (length payload) :: u32)) of
               None \<Rightarrow> None
             | Some d \<Rightarrow> copy_at d (start_index + 4) payload)"

text \<open>
  \<^verbatim>\<open>try_push\<close> when no other thread runs: a turn that retries does so for ever, the exchange succeeds, and
  waiting for \<^verbatim>\<open>tail_commit\<close> ends only if it already has the value waited for.
\<close>

definition try_push :: "nat \<Rightarrow> RingBuffer \<Rightarrow> u8 list \<Rightarrow> PushError failure + RingBuffer" where
  "try_push umax r payload =
     (case push_size umax (cap r) (length payload) of
        None \<Rightarrow> Inl (Fail TooLarge)
      | Some rs \<Rightarrow>
          (case push_attempt (cap r) (head r) (tail_reserve r) rs of
             Retry \<Rightarrow> Inl Diverge
           | NoRoom \<Rightarrow> Inl (Fail Full)
           | Reserve padding write_wrap_marker new_tail \<Rightarrow>
               let tl0 = tail_reserve r
               in case push_write (cap r) tl0 padding write_wrap_marker payload (ring_data r) of
                    None \<Rightarrow> Inl Panic
                  | Some d \<Rightarrow>
                      if tail_commit r = tl0
                      then Inr (r\<lparr>tail_reserve := new_tail, ring_data := d, tail_commit := new_tail\<rparr>)
                      else Inl Diverge))"

text \<open>
  The loop of \<^verbatim>\<open>try_pop\<close> and of \<^verbatim>\<open>try_pop_capped\<close>, which differ in the check of the length against a maximum.
  \<^verbatim>\<open>head\<close> is stored before a skip is continued, so the ring is part of every outcome.
\<close>

fun pop_loop :: "nat \<Rightarrow> nat \<Rightarrow> u32 option \<Rightarrow> RingBuffer \<Rightarrow> (PopError failure + u8 list) \<times> RingBuffer" where
  "pop_loop 0 umax max_len r = (Inl Diverge, r)"
| "pop_loop (Suc fuel) umax max_len r =
     (let hd0 = head r;
          tl0 = tail_commit r
      in if hd0 = tl0 then (Inl (Fail Empty), r)
         else
           let head_index = unat (hd0 mod cap r);
               remaining = unat (cap r) - head_index;
               skip = r\<lparr>head := hd0 + of_nat remaining\<rparr>
           in if remaining < 4 then pop_loop fuel umax max_len skip
              else
                let len = from_le_bytes (take 4 (drop head_index (ring_data r))) :: u32
                in if len = WRAP_MARKER then pop_loop fuel umax max_len skip
                   else
                     case record_size_checked umax (unat len) of
                       None \<Rightarrow> (Inl (Fail Corrupt), r)
                     | Some tot \<Rightarrow>
                         if tot > remaining then (Inl (Fail Corrupt), r)
                         else if tl0 - hd0 < of_nat tot then (Inl (Fail Corrupt), r)
                         else
                           let r' = r\<lparr>head := hd0 + of_nat tot\<rparr>
                           in (case max_len of
                                Some mx \<Rightarrow>
                                  if len > mx then (Inl (Fail (PopTooLarge len mx)), r')
                                  else (Inr (take (unat len) (drop (head_index + 4) (ring_data r))), r')
                              | None \<Rightarrow> (Inr (take (unat len) (drop (head_index + 4) (ring_data r))), r')))"

definition try_pop :: "nat \<Rightarrow> nat \<Rightarrow> RingBuffer \<Rightarrow> (PopError failure + u8 list) \<times> RingBuffer" where
  "try_pop fuel umax r = pop_loop fuel umax None r"

definition try_pop_capped :: "nat \<Rightarrow> nat \<Rightarrow> nat \<Rightarrow> RingBuffer \<Rightarrow> (PopError failure + u8 list) \<times> RingBuffer" where
  "try_pop_capped fuel umax max_len r = pop_loop fuel umax (Some (of_nat (min max_len (2 ^ 32 - 1)))) r"

text \<open>
  The spinning helpers when no other thread runs: waiting for another thread never ends.
\<close>

definition pop_spinning :: "nat \<Rightarrow> nat \<Rightarrow> RingBuffer \<Rightarrow> (PopError failure + u8 list) \<times> RingBuffer" where
  "pop_spinning fuel umax r =
     (case try_pop fuel umax r of
        (Inr v, r') \<Rightarrow> (Inr v, r')
      | (Inl (Fail Empty), r') \<Rightarrow> (Inl Diverge, r')
      | (Inl (Fail (PopTooLarge _ _)), r') \<Rightarrow> (Inl Panic, r')
      | (Inl (Fail Corrupt), r') \<Rightarrow> (Inl Panic, r')
      | (Inl e, r') \<Rightarrow> (Inl e, r'))"

definition push_spinning :: "nat \<Rightarrow> RingBuffer \<Rightarrow> u8 list \<Rightarrow> PushError failure + RingBuffer" where
  "push_spinning umax r payload =
     (case try_push umax r payload of
        Inr r' \<Rightarrow> Inr r'
      | Inl (Fail Full) \<Rightarrow> Inl Diverge
      | Inl (Fail TooLarge) \<Rightarrow> Inl Panic
      | Inl e \<Rightarrow> Inl e)"

section \<open>Concurrent producers and one consumer\<close>

text \<open>
  A push in flight: between its reservation and its commit a producer holds its payload, the tail it
  reserved from, and what its turn computed.
\<close>

datatype push_phase = Reserved | Written

record push_in_flight =
  pf_payload :: "u8 list"
  pf_tail :: u32
  pf_padding :: nat
  pf_marker :: bool
  pf_new_tail :: u32
  pf_phase :: push_phase

type_synonym ring_system = "RingBuffer \<times> push_in_flight list"

text \<open>What the outside sees of a step.\<close>

datatype ring_label = Silent | Pushed "u8 list" | Popped "u8 list" | Dropped u32 | FoundEmpty | PopFailed

fun pop_label :: "PopError failure + u8 list \<Rightarrow> ring_label" where
  "pop_label (Inr v) = Popped v"
| "pop_label (Inl (Fail (PopTooLarge len mx))) = Dropped len"
| "pop_label (Inl (Fail Empty)) = FoundEmpty"
| "pop_label (Inl Diverge) = Silent"
| "pop_label _ = PopFailed"

text \<open>
  The steps. A reservation is atomic from its load of \<^verbatim>\<open>tail_reserve\<close> to its successful exchange (the
  tail did not change in between), but its value of \<^verbatim>\<open>head\<close> may be an older one, \<open>hd0\<close>, which the consumer has moved
  on from; the distance from it to the tail is less than $2^{32}$. Writing a record, storing
  \<^verbatim>\<open>tail_commit\<close> and the turns of a pop are steps of their own (a pop with fuel 1 is one turn, silent when
  it skips the padding and would go round again), and any push in flight may take the next one.
\<close>

inductive ring_step :: "nat \<Rightarrow> ring_system \<Rightarrow> ring_label \<Rightarrow> ring_system \<Rightarrow> bool" where
  reserve: "ring_step umax (r, ps) Silent
      (r\<lparr>tail_reserve := new_tail\<rparr>,
       ps @ [\<lparr>pf_payload = payload, pf_tail = tail_reserve r, pf_padding = padding, pf_marker = marker,
              pf_new_tail = new_tail, pf_phase = Reserved\<rparr>])"
  if "push_size umax (cap r) (length payload) = Some rs"
    "unat (head r - hd0) + unat (tail_reserve r - head r) < 2 ^ 32"
    "push_attempt (cap r) hd0 (tail_reserve r) rs = Reserve padding marker new_tail"
| write_record: "ring_step umax (r, ps) Silent (r\<lparr>ring_data := d\<rparr>, ps[i := (ps ! i)\<lparr>pf_phase := Written\<rparr>])"
  if "i < length ps" "pf_phase (ps ! i) = Reserved"
    "push_write (cap r) (pf_tail (ps ! i)) (pf_padding (ps ! i)) (pf_marker (ps ! i)) (pf_payload (ps ! i)) (ring_data r) = Some d"
| commit: "ring_step umax (r, ps) (Pushed (pf_payload (ps ! i)))
      (r\<lparr>tail_commit := pf_new_tail (ps ! i)\<rparr>, take i ps @ drop (Suc i) ps)"
  if "i < length ps" "pf_phase (ps ! i) = Written" "tail_commit r = pf_tail (ps ! i)"
| pop: "ring_step umax (r, ps) (pop_label res) (r', ps)" if "try_pop fuel umax r = (res, r')"
| pop_capped: "ring_step umax (r, ps) (pop_label res) (r', ps)" if "try_pop_capped fuel umax mx r = (res, r')"

section \<open>Where a record lies\<close>

text \<open>The size of the record of a payload of \<open>k\<close> bytes, without the checks for overflow.\<close>

definition rsize :: "nat \<Rightarrow> nat" where
  "rsize k = (k + 7) div 4 * 4"

lemma rsize_bounds: "4 + k \<le> rsize k" "rsize k \<le> k + 7" "4 dvd rsize k"
proof -
  have "(k + 7) div 4 * 4 + (k + 7) mod 4 = k + 7" by (rule div_mult_mod_eq)
  moreover have "(k + 7) mod 4 < 4" by simp
  ultimately show "4 + k \<le> rsize k" "rsize k \<le> k + 7" unfolding rsize_def by linarith+
qed (simp add: rsize_def)

lemma record_size_checked_eq: "record_size_checked umax k = (if k + 7 \<le> umax then Some (rsize k) else None)"
  by (auto simp: record_size_checked_def align_up_checked_def RECORD_ALIGN_def rsize_def add.commute add.left_commute)

text \<open>A payload that a ring of \<open>n\<close> bytes takes.\<close>

definition fits :: "nat \<Rightarrow> nat \<Rightarrow> u8 list \<Rightarrow> bool" where
  "fits umax n p \<longleftrightarrow> length p + 7 \<le> umax \<and> rsize (length p) \<le> n \<and> length p < 2 ^ 32 - 1"

lemma push_size_iff: "push_size umax cp (length p) = Some rs \<longleftrightarrow> fits umax (unat cp) p \<and> rs = rsize (length p)"
  by (auto simp: push_size_def fits_def record_size_checked_eq)

text \<open>The bytes skipped at the end of the ring before the record, and the position behind the record.\<close>

definition pad :: "nat \<Rightarrow> nat \<Rightarrow> u8 list \<Rightarrow> nat" where
  "pad n t p = (let rem = n - t mod n in if rem < rsize (length p) then rem else 0)"

definition nxt :: "nat \<Rightarrow> nat \<Rightarrow> u8 list \<Rightarrow> nat" where
  "nxt n t p = t + pad n t p + rsize (length p)"

text \<open>A capacity for which the wrapping positions work: it divides $2^{32}$.\<close>

definition good_cap :: "nat \<Rightarrow> bool" where
  "good_cap n \<longleftrightarrow> 4 dvd n \<and> n dvd 2 ^ 32 \<and> 0 < n \<and> n < 2 ^ 32"

lemma good_cap_half: "good_cap n \<Longrightarrow> n + n \<le> 2 ^ 32"
proof -
  assume "good_cap n"
  then obtain k where k: "(2 :: nat) ^ 32 = n * k" and n: "0 < n" "n < 2 ^ 32" by (auto simp: good_cap_def dvd_def)
  have "k \<noteq> 0" using k by (intro notI) simp
  moreover have "k \<noteq> 1" using k n by auto
  ultimately have "2 \<le> k" by simp
  then have "n * 2 \<le> n * k" by (rule mult_le_mono2)
  then show ?thesis unfolding k mult_2_right .
qed

lemma good_index:
  assumes "good_cap n" "n = unat cp"
  shows "unat (of_nat t mod cp :: u32) = t mod n"
  using assms by (simp add: unat_mod unat_of_nat good_cap_def mod_mod_cancel)

lemma room_at_end: "4 dvd n \<Longrightarrow> 4 dvd t \<Longrightarrow> 0 < n \<Longrightarrow> 4 \<le> n - t mod n" for n t :: nat
proof -
  assume n: "4 dvd n" "4 dvd t" "0 < n"
  then have "4 dvd n - t mod n" by (simp add: dvd_mod dvd_diff_nat)
  moreover have "0 < n - t mod n" using n(3) by simp
  ultimately show ?thesis by (rule dvd_imp_le)
qed

lemma record_place:
  assumes n: "0 < n" and s: "s = (t + pad n t p) mod n" and f: "rsize (length p) \<le> n"
  shows "s + rsize (length p) \<le> n" "\<And>k. k < rsize (length p) \<Longrightarrow> s + k = (t + pad n t p + k) mod n"
    "\<And>k. k < pad n t p \<Longrightarrow> t mod n + k = (t + k) mod n"
proof -
  have lt: "t mod n < n" using n by simp
  show le: "s + rsize (length p) \<le> n"
  proof (cases "n - t mod n < rsize (length p)")
    case True
    then have "pad n t p = n - t mod n" by (simp add: pad_def)
    moreover have "(t + (n - t mod n)) mod n = 0"
      using lt by (metis add_diff_inverse_nat mod_add_left_eq mod_self not_less_iff_gr_or_eq)
    ultimately show ?thesis using s f by simp
  next
    case False
    then have "pad n t p = 0" by (simp add: pad_def)
    then show ?thesis using s False lt by simp
  qed
  show "s + k = (t + pad n t p + k) mod n" if "k < rsize (length p)" for k
    using le that s by (metis mod_add_left_eq mod_less add_less_le_mono less_le_trans nat_add_left_cancel_less)
  show "t mod n + k = (t + k) mod n" if "k < pad n t p" for k
  proof -
    have "k < n - t mod n" using that by (simp add: pad_def Let_def split: if_splits)
    then have "t mod n + k < n" by simp
    then show ?thesis by (metis mod_add_left_eq mod_less)
  qed
qed

lemma nxt_bounds: "good_cap n \<Longrightarrow> 4 dvd t \<Longrightarrow> t < nxt n t p" "good_cap n \<Longrightarrow> 4 dvd t \<Longrightarrow> 4 dvd nxt n t p"
  "pad n t p \<noteq> 0 \<Longrightarrow> good_cap n \<Longrightarrow> 4 dvd t \<Longrightarrow> 4 \<le> pad n t p"
proof -
  show "t < nxt n t p" using rsize_bounds(1) [of "length p"] by (simp add: nxt_def)
  assume n: "good_cap n" "4 dvd t"
  then have "4 dvd n - t mod n" by (simp add: good_cap_def dvd_mod dvd_diff_nat)
  then show "4 dvd nxt n t p" using n rsize_bounds(3) by (auto simp: nxt_def pad_def Let_def)
  show "4 \<le> pad n t p" if "pad n t p \<noteq> 0"
    using that room_at_end [of n t] n by (auto simp: good_cap_def pad_def Let_def split: if_splits)
qed

lemma mod_inj_window: "H \<le> x \<Longrightarrow> x < H + n \<Longrightarrow> H \<le> z \<Longrightarrow> z < H + n \<Longrightarrow> x mod n = z mod n \<Longrightarrow> x = z" for n :: nat
proof (induction x z rule: linorder_wlog)
  case (le x z)
  then have "n dvd z - x" by (metis mod_eq_dvd_iff_nat)
  moreover have "z - x < n" using le by linarith
  ultimately have "z - x = 0" using nat_dvd_not_less by blast
  then show ?case using le by simp
qed simp

section \<open>The bytes of a record\<close>

definition bytes_at :: "u8 list \<Rightarrow> nat \<Rightarrow> u8 list \<Rightarrow> bool" where
  "bytes_at d i xs \<longleftrightarrow> i + length xs \<le> length d \<and> (\<forall>k < length xs. d ! (i + k) = xs ! k)"

lemma bytes_at_take: "bytes_at d i xs \<Longrightarrow> take (length xs) (drop i d) = xs"
  by (auto simp: bytes_at_def intro!: nth_equalityI)

lemma copy_at_bytes:
  assumes "a + length ys \<le> length xs"
  obtains zs where "copy_at xs a ys = Some zs" "length zs = length xs" "bytes_at zs a ys"
    "\<And>i. i < length xs \<Longrightarrow> i < a \<or> a + length ys \<le> i \<Longrightarrow> zs ! i = xs ! i"
proof -
  obtain zs where "copy_at xs a ys = Some zs" "length zs = length xs"
      "\<forall>i < length xs. zs ! i = (if a \<le> i \<and> i < a + length ys then ys ! (i - a) else xs ! i)"
    using copy_at_Some [OF assms] by blast
  then show thesis using assms by (intro that [of zs]) (auto simp: bytes_at_def)
qed

definition record_at :: "nat \<Rightarrow> u8 list \<Rightarrow> nat \<Rightarrow> u8 list \<Rightarrow> bool" where
  "record_at n d t p \<longleftrightarrow>
     (pad n t p \<noteq> 0 \<longrightarrow> bytes_at d (t mod n) (to_le_bytes 4 WRAP_MARKER)) \<and>
     bytes_at d ((t + pad n t p) mod n) (to_le_bytes 4 (of_nat (length p) :: u32)) \<and>
     bytes_at d ((t + pad n t p) mod n + 4) p"

lemma bytes_at_cong:
  "bytes_at d i xs \<Longrightarrow> length d' = length d \<Longrightarrow> (\<And>k. k < length xs \<Longrightarrow> d' ! (i + k) = d ! (i + k)) \<Longrightarrow> bytes_at d' i xs"
  by (simp add: bytes_at_def)

text \<open>A record is a matter of the bytes of its segment.\<close>

lemma record_at_frame:
  assumes r: "record_at n d t p" and l: "length d' = length d" and n: "good_cap n" "4 dvd t" and f: "rsize (length p) \<le> n"
    and eq: "\<And>x. t \<le> x \<Longrightarrow> x < nxt n t p \<Longrightarrow> d' ! (x mod n) = d ! (x mod n)"
  shows "record_at n d' t p"
proof -
  have n0: "0 < n" using n by (simp add: good_cap_def)
  note place = record_place [OF n0 refl f]
  have seg: "d' ! ((t + pad n t p) mod n + k) = d ! ((t + pad n t p) mod n + k)" if "k < rsize (length p)" for k
    using place(2) [OF that] eq [of "t + pad n t p + k"] that by (simp add: nxt_def)
  have "d' ! (t mod n + k) = d ! (t mod n + k)" if "k < 4" "pad n t p \<noteq> 0" for k
  proof -
    have "k < pad n t p" using that nxt_bounds(3) [OF _ n] by fastforce
    then show ?thesis using place(3) [of k] eq [of "t + k"] by (simp add: nxt_def)
  qed
  moreover have "d' ! ((t + pad n t p) mod n + 4 + k) = d ! ((t + pad n t p) mod n + 4 + k)" if "k < length p" for k
    using seg [of "4 + k"] that rsize_bounds(1) [of "length p"] by (simp add: add.assoc)
  moreover have "d' ! ((t + pad n t p) mod n + k) = d ! ((t + pad n t p) mod n + k)" if "k < 4" for k
    using seg [of k] that rsize_bounds(1) [of "length p"] by simp
  ultimately show ?thesis
    using r l unfolding record_at_def by (auto intro: bytes_at_cong)
qed


section \<open>One turn of a producer, on unbounded positions\<close>

lemma push_attempt_eq:
  assumes c: "good_cap n" "n = unat cp" and t: "4 dvd t" and f: "rsize (length p) \<le> n" and u: "unat (of_nat t - h) = u"
  shows "push_attempt cp h (of_nat t) (rsize (length p)) =
    (if u > n then Retry else if pad n t p + rsize (length p) > n - u then NoRoom
     else Reserve (pad n t p) (pad n t p \<noteq> 0) (of_nat (nxt n t p)))"
proof -
  have n: "4 dvd n" "0 < n" using c by (simp_all add: good_cap_def)
  have rem: "4 \<le> n - t mod n" using room_at_end [OF n(1) t n(2)] .
  have "pad n t p + rsize (length p) < 2 ^ 32"
    using good_cap_half [OF c(1)] f n(2) by (auto simp: pad_def Let_def)
  then have small: "unat (of_nat (pad n t p + rsize (length p)) :: u32) = pad n t p + rsize (length p)"
    by (simp only: unat_of_nat) simp
  have used: "of_nat t - h > cp \<longleftrightarrow> u > n" using u c(2) by (simp add: word_less_nat_alt)
  have free: "unat (cp - (of_nat t - h)) = n - u" if "\<not> u > n"
    using that u c(2) by (simp add: unat_sub word_le_nat_alt)
  have p: "pad n t p = (if n - t mod n < rsize (length p) then n - t mod n else 0)" by (simp add: pad_def)
  show ?thesis
  proof (cases "u > n")
    case False
    have "(of_nat (pad n t p + rsize (length p)) > cp - (of_nat t - h)) \<longleftrightarrow> pad n t p + rsize (length p) > n - u"
      by (simp only: word_less_nat_alt free [OF False] small)
    then show ?thesis
      using False used rem
      unfolding push_attempt_def Let_def good_index [OF c] c(2) [symmetric] nxt_def
      by (simp add: p add.assoc split: if_splits)
  qed (simp add: push_attempt_def used)
qed

lemma outside: "(\<And>k. k < m \<Longrightarrow> x \<noteq> a + k) \<Longrightarrow> x < a \<or> a + m \<le> x" for x a m :: nat
  by (metis le_add_diff_inverse linorder_not_le nat_add_left_cancel_less)

text \<open>The writes of a producer stay inside of its segment and leave its record there.\<close>

lemma push_write_spec:
  assumes c: "good_cap n" "n = unat cp" and t: "4 dvd t" and f: "rsize (length p) \<le> n" and d: "length d = n"
    and w: "nxt n t p \<le> t + n"
  obtains d' where "push_write cp (of_nat t) (pad n t p) (pad n t p \<noteq> 0) p d = Some d'" "length d' = n" "record_at n d' t p"
    "\<And>x. x < n \<Longrightarrow> (\<And>z. t \<le> z \<Longrightarrow> z < nxt n t p \<Longrightarrow> x \<noteq> z mod n) \<Longrightarrow> d' ! x = d ! x"
proof -
  have n: "4 dvd n" "0 < n" using c by (simp_all add: good_cap_def)
  define s where "s = (t + pad n t p) mod n"
  note place = record_place [OF n(2) s_def f]
  have s: "s + 4 + length p \<le> n" using place(1) rsize_bounds(1) [of "length p"] by simp
  obtain d1 where d1: "(if pad n t p \<noteq> 0 then copy_at d (t mod n) (to_le_bytes 4 WRAP_MARKER) else Some d) = Some d1" "length d1 = n"
      "pad n t p \<noteq> 0 \<longrightarrow> bytes_at d1 (t mod n) (to_le_bytes 4 WRAP_MARKER)"
      "\<And>x. x < n \<Longrightarrow> (\<And>k. k < 4 \<Longrightarrow> k < pad n t p \<Longrightarrow> x \<noteq> t mod n + k) \<Longrightarrow> d1 ! x = d ! x"
  proof (cases "pad n t p = 0")
    case False
    then have p4: "4 \<le> pad n t p" using nxt_bounds(3) [OF _ c(1) t] by blast
    then have "t mod n + length (to_le_bytes 4 WRAP_MARKER) \<le> length d"
      using False d n(2) mod_less_divisor [OF n(2), of t] by (simp add: pad_def Let_def split: if_splits)
    then obtain d1 where "copy_at d (t mod n) (to_le_bytes 4 WRAP_MARKER) = Some d1" "length d1 = length d"
        "bytes_at d1 (t mod n) (to_le_bytes 4 WRAP_MARKER)"
        "\<And>i. i < length d \<Longrightarrow> i < t mod n \<or> t mod n + length (to_le_bytes 4 WRAP_MARKER) \<le> i \<Longrightarrow> d1 ! i = d ! i"
      by (rule copy_at_bytes) fast
    moreover have "x < t mod n \<or> t mod n + 4 \<le> x" if "\<And>k. k < 4 \<Longrightarrow> k < pad n t p \<Longrightarrow> x \<noteq> t mod n + k" for x
      using that p4 by (intro outside) auto
    ultimately show thesis using False d by (intro that [of d1]) auto
  qed (use d in \<open>auto intro!: that [of d]\<close>)
  obtain d2 where d2: "copy_at d1 s (to_le_bytes 4 (of_nat (length p) :: u32)) = Some d2" "length d2 = n"
      "bytes_at d2 s (to_le_bytes 4 (of_nat (length p) :: u32))" "\<And>i. i < n \<Longrightarrow> i < s \<or> s + 4 \<le> i \<Longrightarrow> d2 ! i = d1 ! i"
    using copy_at_bytes [of s "to_le_bytes 4 (of_nat (length p) :: u32)" d1] s d1(2) by auto
  obtain d3 where d3: "copy_at d2 (s + 4) p = Some d3" "length d3 = n" "bytes_at d3 (s + 4) p"
      "\<And>i. i < n \<Longrightarrow> i < s + 4 \<or> s + 4 + length p \<le> i \<Longrightarrow> d3 ! i = d2 ! i"
    using copy_at_bytes [of "s + 4" p d2] s d2(2) by auto
  show thesis
  proof (rule that [of d3])
    have "(of_nat t + of_nat (pad n t p) :: u32) = of_nat (t + pad n t p)" by simp
    then have "unat ((of_nat t + of_nat (pad n t p)) mod cp) = s" using good_index [OF c, of "t + pad n t p"] by (simp add: s_def)
    then show "push_write cp (of_nat t) (pad n t p) (pad n t p \<noteq> 0) p d = Some d3"
      using d1(1) d2(1) d3(1) unfolding push_write_def good_index [OF c] Let_def by simp
    show "length d3 = n" by (rule d3(2))
    have apart: "t mod n + k < s \<or> s + 4 + length p \<le> t mod n + k" if "k < 4" "pad n t p \<noteq> 0" for k
    proof -
      have k: "k < pad n t p" using that nxt_bounds(3) [OF _ c(1) t] by fastforce
      have "t mod n + k \<noteq> s + j" if "j < rsize (length p)" for j
        using place(2) [OF that] place(3) [OF k] mod_inj_window [of t "t + k" n "t + pad n t p + j"] that k w by (auto simp: nxt_def)
      then have "t mod n + k < s \<or> s + rsize (length p) \<le> t mod n + k" by (rule outside)
      then show ?thesis using rsize_bounds(1) [of "length p"] by linarith
    qed
    have "bytes_at d3 (t mod n) (to_le_bytes 4 WRAP_MARKER)" if "pad n t p \<noteq> 0"
    proof (rule bytes_at_cong [OF mp [OF d1(3) that]])
      show "d3 ! (t mod n + k) = d1 ! (t mod n + k)" if "k < length (to_le_bytes 4 WRAP_MARKER)" for k
        using apart [of k] that \<open>pad n t p \<noteq> 0\<close> d1(3) d1(2) d2(4) d3(4) by (auto simp: bytes_at_def)
    qed (simp add: d3(2) d1(2))
    moreover have "bytes_at d3 s (to_le_bytes 4 (of_nat (length p) :: u32))"
      using s by (intro bytes_at_cong [OF d2(3)]) (auto simp: d2(2) d3(2) intro!: d3(4))
    ultimately show "record_at n d3 t p" using d3(3) by (simp add: record_at_def s_def)
    show "d3 ! x = d ! x" if "x < n" "\<And>z. t \<le> z \<Longrightarrow> z < nxt n t p \<Longrightarrow> x \<noteq> z mod n" for x
    proof -
      have "x \<noteq> s + k" if "k < rsize (length p)" for k
        using place(2) [OF that] that \<open>\<And>z. t \<le> z \<Longrightarrow> z < nxt n t p \<Longrightarrow> x \<noteq> z mod n\<close> [of "t + pad n t p + k"] by (simp add: nxt_def)
      then have "x < s \<or> s + rsize (length p) \<le> x" by (rule outside)
      then have x: "x < s \<or> s + 4 + length p \<le> x" using rsize_bounds(1) [of "length p"] by linarith
      have "x \<noteq> t mod n + k" if "k < pad n t p" for k
        using place(3) [OF that] that \<open>\<And>z. t \<le> z \<Longrightarrow> z < nxt n t p \<Longrightarrow> x \<noteq> z mod n\<close> [of "t + k"] by (simp add: nxt_def)
      then show ?thesis using x \<open>x < n\<close> d1(4) d2(4) d3(4) by auto
    qed
  qed
qed


section \<open>The queue in the ring\<close>

text \<open>The committed records from position \<open>t\<close> to \<open>u\<close>, and the pushes in flight behind them.\<close>

fun stored :: "nat \<Rightarrow> nat \<Rightarrow> u8 list \<Rightarrow> nat \<Rightarrow> u8 list list \<Rightarrow> nat \<Rightarrow> bool" where
  "stored umax n d t [] u \<longleftrightarrow> t = u"
| "stored umax n d t (p # q) u \<longleftrightarrow> fits umax n p \<and> record_at n d t p \<and> stored umax n d (nxt n t p) q u"

fun in_flight :: "nat \<Rightarrow> nat \<Rightarrow> u8 list \<Rightarrow> nat \<Rightarrow> push_in_flight list \<Rightarrow> nat \<Rightarrow> bool" where
  "in_flight umax n d t [] u \<longleftrightarrow> t = u"
| "in_flight umax n d t (f # fs) u \<longleftrightarrow>
     (let p = pf_payload f in
      fits umax n p \<and> pf_tail f = of_nat t \<and> pf_padding f = pad n t p \<and> pf_marker f = (pad n t p \<noteq> 0) \<and>
      pf_new_tail f = of_nat (nxt n t p) \<and> (pf_phase f = Written \<longrightarrow> record_at n d t p) \<and>
      in_flight umax n d (nxt n t p) fs u)"

lemma stored_le: "good_cap n \<Longrightarrow> 4 dvd t \<Longrightarrow> stored umax n d t q u \<Longrightarrow> t \<le> u \<and> 4 dvd u"
proof (induction q arbitrary: t)
  case (Cons p q)
  have "t < nxt n t p" "4 dvd nxt n t p" using nxt_bounds Cons.prems by auto
  then show ?case using Cons.IH [of "nxt n t p"] Cons.prems by auto
qed simp

lemma in_flight_le: "good_cap n \<Longrightarrow> 4 dvd t \<Longrightarrow> in_flight umax n d t fs u \<Longrightarrow> t \<le> u \<and> 4 dvd u"
proof (induction fs arbitrary: t)
  case (Cons f fs)
  have "t < nxt n t (pf_payload f)" "4 dvd nxt n t (pf_payload f)" using nxt_bounds Cons.prems by auto
  then show ?case using Cons.IH [of "nxt n t (pf_payload f)"] Cons.prems by (auto simp: Let_def)
qed simp

lemma stored_frame:
  assumes "good_cap n" "4 dvd t" "stored umax n d t q u" "length d' = length d"
    "\<And>x. t \<le> x \<Longrightarrow> x < u \<Longrightarrow> d' ! (x mod n) = d ! (x mod n)"
  shows "stored umax n d' t q u"
  using assms
proof (induction q arbitrary: t)
  case (Cons p q)
  have b: "t < nxt n t p" "4 dvd nxt n t p" using nxt_bounds Cons.prems by auto
  have u: "nxt n t p \<le> u" using stored_le [OF Cons.prems(1) b(2)] Cons.prems(3) by auto
  have "record_at n d' t p"
    using Cons.prems u by (intro record_at_frame [of n d t p d']) (auto simp: fits_def)
  moreover have "stored umax n d' (nxt n t p) q u" using Cons.prems b by (intro Cons.IH) auto
  ultimately show ?case using Cons.prems(3) by simp
qed simp

lemma in_flight_frame:
  assumes "good_cap n" "4 dvd t" "in_flight umax n d t fs u" "length d' = length d"
    "\<And>x. t \<le> x \<Longrightarrow> x < u \<Longrightarrow> d' ! (x mod n) = d ! (x mod n)"
  shows "in_flight umax n d' t fs u"
  using assms
proof (induction fs arbitrary: t)
  case (Cons f fs)
  let ?p = "pf_payload f"
  have b: "t < nxt n t ?p" "4 dvd nxt n t ?p" using nxt_bounds Cons.prems by auto
  have u: "nxt n t ?p \<le> u" using in_flight_le [OF Cons.prems(1) b(2)] Cons.prems(3) by (auto simp: Let_def)
  have "record_at n d' t ?p" if "record_at n d t ?p"
    using that Cons.prems u by (intro record_at_frame [of n d t ?p d']) (auto simp: fits_def Let_def)
  moreover have "in_flight umax n d' (nxt n t ?p) fs u" using Cons.prems b by (intro Cons.IH) (auto simp: Let_def)
  ultimately show ?case using Cons.prems(3) by (simp add: Let_def)
qed simp

lemma stored_append: "stored umax n d t (q @ [p]) u \<longleftrightarrow> (\<exists>v. stored umax n d t q v \<and> fits umax n p \<and> record_at n d v p \<and> u = nxt n v p)"
  by (induction q arbitrary: t) auto

lemma in_flight_append:
  "in_flight umax n d t (fs @ [f]) u \<longleftrightarrow> (\<exists>v. in_flight umax n d t fs v \<and> in_flight umax n d v [f] u)"
  by (induction fs arbitrary: t) (auto simp: Let_def)

text \<open>The positions of the pushes in flight; only the first starts at the committed tail.\<close>

lemma in_flight_tail:
  "good_cap n \<Longrightarrow> 4 dvd t \<Longrightarrow> in_flight umax n d t fs u \<Longrightarrow> i < length fs \<Longrightarrow>
   \<exists>v. pf_tail (fs ! i) = of_nat v \<and> t \<le> v \<and> v < u \<and> (i \<noteq> 0 \<longrightarrow> t < v)"
proof (induction fs arbitrary: t i)
  case (Cons f fs)
  let ?p = "pf_payload f"
  have b: "t < nxt n t ?p" "4 dvd nxt n t ?p" using nxt_bounds Cons.prems by auto
  have fl: "in_flight umax n d (nxt n t ?p) fs u" "pf_tail f = of_nat t" using Cons.prems(3) by (auto simp: Let_def)
  have u: "nxt n t ?p \<le> u" using in_flight_le [OF Cons.prems(1) b(2) fl(1)] by simp
  show ?case
  proof (cases i)
    case 0
    then show ?thesis using fl(2) b u by auto
  next
    case (Suc j)
    then show ?thesis using Cons.IH [OF Cons.prems(1) b(2) fl(1), of j] Cons.prems(4) b by fastforce
  qed
qed simp

text \<open>A producer writes its record; every other record and push keeps its bytes.\<close>

lemma in_flight_write:
  assumes "good_cap n" "n = unat cp" "4 dvd t" "in_flight umax n d t fs u" "H \<le> t" "u \<le> H + n" "length d = n" "i < length fs"
    "push_write cp (pf_tail (fs ! i)) (pf_padding (fs ! i)) (pf_marker (fs ! i)) (pf_payload (fs ! i)) d = Some d'"
  shows "in_flight umax n d' t (fs[i := (fs ! i)\<lparr>pf_phase := Written\<rparr>]) u \<and> length d' = n \<and>
    (\<forall>x. H \<le> x \<and> x < t \<longrightarrow> d' ! (x mod n) = d ! (x mod n))"
  using assms
proof (induction fs arbitrary: t i)
  case (Cons f fs)
  let ?p = "pf_payload f"
  note c = Cons.prems(1,2)
  have b: "t < nxt n t ?p" "4 dvd nxt n t ?p" using nxt_bounds Cons.prems by auto
  have fl: "in_flight umax n d (nxt n t ?p) fs u" "pf_tail f = of_nat t" "fits umax n ?p" "pf_padding f = pad n t ?p"
      "pf_marker f = (pad n t ?p \<noteq> 0)" "pf_new_tail f = of_nat (nxt n t ?p)"
    using Cons.prems(4) by (auto simp: Let_def)
  have u: "nxt n t ?p \<le> u" using in_flight_le [OF c(1) b(2) fl(1)] by simp
  show ?case
  proof (cases i)
    case 0
    have "nxt n t ?p \<le> t + n" using u Cons.prems(5,6) by simp
    then obtain d1 where d1: "push_write cp (of_nat t) (pad n t ?p) (pad n t ?p \<noteq> 0) ?p d = Some d1" "length d1 = n" "record_at n d1 t ?p"
        "\<And>x. x < n \<Longrightarrow> (\<And>z. t \<le> z \<Longrightarrow> z < nxt n t ?p \<Longrightarrow> x \<noteq> z mod n) \<Longrightarrow> d1 ! x = d ! x"
      using push_write_spec [OF c Cons.prems(3) _ Cons.prems(7)] fl(3) by (metis fits_def)
    have [simp]: "d1 = d'" using d1(1) Cons.prems(9) fl 0 by simp
    have keep: "d' ! (x mod n) = d ! (x mod n)" if "H \<le> x" "x < H + n" "\<not> (t \<le> x \<and> x < nxt n t ?p)" for x
    proof -
      have "x mod n \<noteq> z mod n" if "t \<le> z" "z < nxt n t ?p" for z
        using mod_inj_window [of H x n z] that \<open>H \<le> x\<close> \<open>x < H + n\<close> \<open>\<not> (t \<le> x \<and> x < nxt n t ?p)\<close> u Cons.prems(5,6) by auto
      then show ?thesis using d1(4) [of "x mod n"] c by (auto simp: good_cap_def)
    qed
    have "in_flight umax n d' (nxt n t ?p) fs u"
    proof (rule in_flight_frame [OF c(1) b(2) fl(1)])
      show "length d' = length d" using d1(2) Cons.prems(7) by simp
      show "d' ! (x mod n) = d ! (x mod n)" if "nxt n t ?p \<le> x" "x < u" for x
        using keep [of x] that b Cons.prems(5,6) by linarith
    qed
    then show ?thesis using 0 fl d1(2,3) keep b Cons.prems(5,6) u by (auto simp: Let_def)
  next
    case (Suc j)
    have IH: "in_flight umax n d' (nxt n t ?p) (fs[j := (fs ! j)\<lparr>pf_phase := Written\<rparr>]) u \<and> length d' = n \<and>
        (\<forall>x. H \<le> x \<and> x < nxt n t ?p \<longrightarrow> d' ! (x mod n) = d ! (x mod n))"
      using Cons.prems Suc b fl(1) by (intro Cons.IH) auto
    have "record_at n d' t ?p" if "record_at n d t ?p"
      using that IH Cons.prems fl(3) by (intro record_at_frame [of n d t ?p d']) (auto simp: fits_def)
    then show ?thesis using Suc IH Cons.prems(4) b by (auto simp: Let_def)
  qed
qed simp

section \<open>One turn of the consumer\<close>

definition ring_at :: "nat \<Rightarrow> RingBuffer \<Rightarrow> push_in_flight list \<Rightarrow> u8 list list \<Rightarrow> nat \<Rightarrow> nat \<Rightarrow> nat \<Rightarrow> bool" where
  "ring_at umax r ps q H C T \<longleftrightarrow>
     (let n = unat (cap r) in
      good_cap n \<and> length (ring_data r) = n \<and> 4 dvd H \<and>
      head r = of_nat H \<and> tail_commit r = of_nat C \<and> tail_reserve r = of_nat T \<and>
      stored umax n (ring_data r) H q C \<and> in_flight umax n (ring_data r) C ps T \<and> T \<le> H + n)"

lemma ring_at_bounds:
  assumes "ring_at umax r ps q H C T"
  shows "H \<le> C" "4 dvd C" "C \<le> T" "4 dvd T" "T \<le> H + unat (cap r)" "T < H + 2 ^ 32"
proof -
  have n: "good_cap (unat (cap r))" "4 dvd H" using assms by (auto simp: ring_at_def Let_def)
  show H: "H \<le> C" "4 dvd C" using stored_le [OF n] assms by (auto simp: ring_at_def Let_def)
  show "C \<le> T" "4 dvd T" using in_flight_le [OF n(1) H(2)] assms by (auto simp: ring_at_def Let_def)
  show le: "T \<le> H + unat (cap r)" using assms by (auto simp: ring_at_def Let_def)
  show "T < H + 2 ^ 32" using le n(1) by (simp add: good_cap_def)
qed

text \<open>Within a window of less than $2^{32}$ the wrapping positions are as good as the unbounded ones.\<close>

lemma of_nat_window: "a \<le> b \<Longrightarrow> b < a + 2 ^ 32 \<Longrightarrow> unat (of_nat b - of_nat a :: u32) = b - a"
proof -
  assume a: "a \<le> b" "b < a + 2 ^ 32"
  have "(of_nat b - of_nat a :: u32) = of_nat (b - a)" using a(1) by simp
  then show ?thesis using a by (simp only: unat_of_nat) simp
qed

lemma of_nat_window_eq: "a \<le> b \<Longrightarrow> b < a + 2 ^ 32 \<Longrightarrow> (of_nat a :: u32) = of_nat b \<longleftrightarrow> a = b"
  using of_nat_window [of a b] by (metis diff_is_0_eq eq_iff right_minus_eq unat_eq_zero)

text \<open>A skipped padding leaves the same queue.\<close>

lemma stored_skip:
  assumes c: "good_cap n" and s: "stored umax n d H (p # q) C"
  shows "pad n (H + pad n H p) p = 0" "nxt n (H + pad n H p) p = nxt n H p" "stored umax n d (H + pad n H p) (p # q) C"
proof -
  have n: "0 < n" using c by (simp add: good_cap_def)
  have "(H + pad n H p) mod n + rsize (length p) \<le> n"
    using record_place(1) [OF n refl, of p H] s by (simp add: fits_def)
  then show z: "pad n (H + pad n H p) p = 0" by (simp add: pad_def Let_def)
  show e: "nxt n (H + pad n H p) p = nxt n H p" using z by (simp add: nxt_def)
  show "stored umax n d (H + pad n H p) (p # q) C" using s z e by (simp add: record_at_def)
qed

lemma pop_turn_empty: "ring_at umax r ps [] H C T \<Longrightarrow> pop_loop (Suc fuel) umax mx r = (Inl (Fail Empty), r)"
  by (simp add: ring_at_def Let_def)

lemma len_at:
  "bytes_at d i (to_le_bytes 4 (v :: u32)) \<Longrightarrow> (from_le_bytes (take 4 (drop i d)) :: u32) = v"
  using bytes_at_take [of d i "to_le_bytes 4 v"] by (simp add: from_to_le_bytes)

lemma pop_turn_skip:
  assumes r: "ring_at umax r ps (p # q) H C T" and pd: "pad (unat (cap r)) H p \<noteq> 0"
  shows "pop_loop (Suc fuel) umax mx r = pop_loop fuel umax mx (r\<lparr>head := of_nat (H + pad (unat (cap r)) H p)\<rparr>)"
proof -
  define n where "n = unat (cap r)"
  have c: "good_cap n" "4 dvd H" "head r = of_nat H" "tail_commit r = of_nat C" "stored umax n (ring_data r) H (p # q) C"
    using r by (auto simp: ring_at_def Let_def n_def)
  have "H < nxt n H p" "nxt n H p \<le> C"
    using nxt_bounds(1) [OF c(1,2)] nxt_bounds(2) [OF c(1,2)] stored_le [OF c(1), of "nxt n H p"] c by auto
  then have ne: "head r \<noteq> tail_commit r" using of_nat_window_eq [of H C] ring_at_bounds [OF r] c(3,4) by auto
  have "bytes_at (ring_data r) (H mod n) (to_le_bytes 4 WRAP_MARKER)" using c(5) pd by (simp add: record_at_def n_def)
  then have m: "(from_le_bytes (take 4 (drop (H mod n) (ring_data r))) :: u32) = WRAP_MARKER" by (rule len_at)
  have i: "unat (head r mod cap r) = H mod n" using good_index [OF c(1) n_def] c(3) by simp
  have "pad n H p = n - H mod n" using pd by (simp add: pad_def Let_def n_def split: if_splits)
  then show ?thesis using ne m i by (simp add: n_def [symmetric] c(3) Let_def)
qed

lemma pop_turn_record:
  assumes r: "ring_at umax r ps (p # q) H C T" and pd: "pad (unat (cap r)) H p = 0"
  shows "pop_loop (Suc fuel) umax mx r =
    ((case mx of Some m \<Rightarrow> if of_nat (length p) > m then Inl (Fail (PopTooLarge (of_nat (length p)) m)) else Inr p | None \<Rightarrow> Inr p),
     r\<lparr>head := of_nat (nxt (unat (cap r)) H p)\<rparr>)"
proof -
  define n where "n = unat (cap r)"
  have c: "good_cap n" "4 dvd H" "head r = of_nat H" "tail_commit r = of_nat C" "stored umax n (ring_data r) H (p # q) C"
    using r by (auto simp: ring_at_def Let_def n_def)
  have b: "H < nxt n H p" "nxt n H p \<le> C" "C < H + 2 ^ 32"
    using nxt_bounds(1) [OF c(1,2)] nxt_bounds(2) [OF c(1,2)] stored_le [OF c(1), of "nxt n H p"] c ring_at_bounds [OF r] by auto
  have ne: "head r \<noteq> tail_commit r" using of_nat_window_eq [of H C] b c(3,4) by auto
  have f: "length p + 7 \<le> umax" "rsize (length p) \<le> n" "length p < 2 ^ 32 - 1" using c(5) by (auto simp: fits_def)
  have rec: "bytes_at (ring_data r) (H mod n) (to_le_bytes 4 (of_nat (length p) :: u32))" "bytes_at (ring_data r) (H mod n + 4) p"
    using c(5) pd by (simp_all add: record_at_def n_def)
  note m = len_at [OF rec(1)] and t = bytes_at_take [OF rec(2)]
  have ul: "unat (of_nat (length p) :: u32) = length p" using f(3) by (simp only: unat_of_nat) simp
  have "of_nat (length p) \<noteq> WRAP_MARKER"
  proof
    assume "of_nat (length p) = WRAP_MARKER"
    then have "length p = unat WRAP_MARKER" using ul by simp
    then show False using f(3) by (simp add: WRAP_MARKER_def)
  qed
  moreover have i: "unat (head r mod cap r) = H mod n" using good_index [OF c(1) n_def] c(3) by simp
  moreover have rem: "rsize (length p) \<le> n - H mod n" 
  proof -
    have "H mod n < n" using c(1) by (simp add: good_cap_def)
    then show ?thesis using pd unfolding pad_def Let_def n_def [symmetric] by (auto split: if_splits)
  qed
  moreover have "4 \<le> n - H mod n" using rem rsize_bounds(1) [of "length p"] by simp
  moreover have "\<not> tail_commit r - head r < of_nat (rsize (length p))"
  proof -
    have "unat (tail_commit r - head r) = C - H" using of_nat_window [of H C] b c(3,4) by simp
    moreover have "rsize (length p) \<le> C - H" using b(2) pd by (simp add: nxt_def n_def)
    moreover have "unat (of_nat (rsize (length p)) :: u32) \<le> rsize (length p)" by (simp add: unat_of_nat)
    ultimately show ?thesis by (simp add: word_less_nat_alt)
  qed
  moreover have "nxt n H p = H + rsize (length p)" using pd by (simp add: nxt_def n_def)
  ultimately show ?thesis
    using ne m t ul f(1)
    by (simp add: n_def [symmetric] Let_def record_size_checked_eq c(3) split: option.splits)
qed

section \<open>The ring is a queue\<close>

text \<open>What a pop does to a queue of payloads, and what the label of a step means for it.\<close>

fun queue_pop :: "u32 option \<Rightarrow> u8 list list \<Rightarrow> (PopError + u8 list) \<times> u8 list list" where
  "queue_pop mx [] = (Inl Empty, [])"
| "queue_pop mx (p # q) =
     ((case mx of
         Some m \<Rightarrow> if of_nat (length p) > m then Inl (PopTooLarge (of_nat (length p)) m) else Inr p
       | None \<Rightarrow> Inr p), q)"

fun queue_do :: "ring_label \<Rightarrow> u8 list list \<Rightarrow> u8 list list option" where
  "queue_do Silent q = Some q"
| "queue_do (Pushed p) q = Some (q @ [p])"
| "queue_do (Popped v) (p # q) = (if v = p then Some q else None)"
| "queue_do (Dropped len) (p # q) = (if len = of_nat (length p) then Some q else None)"
| "queue_do FoundEmpty [] = Some []"
| "queue_do _ _ = None"

fun queue_run :: "ring_label list \<Rightarrow> u8 list list \<Rightarrow> u8 list list option" where
  "queue_run [] q = Some q"
| "queue_run (l # ls) q = Option.bind (queue_do l q) (queue_run ls)"

lemma queue_run_append: "queue_run (ls @ ks) q = Option.bind (queue_run ls q) (queue_run ks)"
  by (induction ls arbitrary: q) (auto split: bind_splits)

text \<open>The positions move without touching the bytes.\<close>

lemma ring_at_skip:
  assumes "ring_at umax r ps (p # q) H C T"
  shows "ring_at umax (r\<lparr>head := of_nat (H + pad (unat (cap r)) H p)\<rparr>) ps (p # q) (H + pad (unat (cap r)) H p) C T"
    "pad (unat (cap r)) (H + pad (unat (cap r)) H p) p = 0"
proof -
  let ?n = "unat (cap r)"
  have c: "good_cap ?n" "4 dvd H" "stored umax ?n (ring_data r) H (p # q) C" using assms by (auto simp: ring_at_def Let_def)
  note sk = stored_skip [OF c(1,3)]
  have "4 dvd H + pad ?n H p + rsize (length p)" using nxt_bounds(2) [OF c(1,2)] by (simp add: nxt_def)
  then have "4 dvd H + pad ?n H p" using rsize_bounds(3) by (simp add: dvd_add_left_iff)
  then show "ring_at umax (r\<lparr>head := of_nat (H + pad ?n H p)\<rparr>) ps (p # q) (H + pad ?n H p) C T"
    using assms sk(3) unfolding ring_at_def Let_def by auto
  show "pad ?n (H + pad ?n H p) p = 0" by (rule sk(1))
qed

lemma ring_at_pop:
  assumes "ring_at umax r ps (p # q) H C T"
  shows "ring_at umax (r\<lparr>head := of_nat (nxt (unat (cap r)) H p)\<rparr>) ps q (nxt (unat (cap r)) H p) C T"
  using assms nxt_bounds(1,2) [of "unat (cap r)" H p] by (auto simp: ring_at_def Let_def)

text \<open>A pop of two turns or more is the pop of the queue; one with less fuel may have skipped the padding only.\<close>

lemma pop_loop_queue:
  assumes "ring_at umax r ps q H C T"
  shows "\<exists>r' H'. pop_loop (Suc (Suc fuel)) umax mx r = (map_sum Fail id (fst (queue_pop mx q)), r') \<and>
    ring_at umax r' ps (snd (queue_pop mx q)) H' C T \<and> cap r' = cap r"
proof (cases q)
  case Nil
  then show ?thesis using pop_turn_empty [of umax r ps H C T "Suc fuel" mx] assms by (intro exI [of _ r] exI [of _ H]) simp
next
  case (Cons p q')
  let ?n = "unat (cap r)"
  note at = assms [unfolded Cons]
  have now: "\<exists>r' H'. pop_loop (Suc fuel) umax mx s = (map_sum Fail id (fst (queue_pop mx (p # q'))), r') \<and>
      ring_at umax r' ps q' H' C T \<and> cap r' = cap s"
    if "ring_at umax s ps (p # q') G C T" "pad (unat (cap s)) G p = 0" for s G fuel
    using pop_turn_record [OF that, of fuel mx] ring_at_pop [OF that(1)]
    by (intro exI [of _ "s\<lparr>head := of_nat (nxt (unat (cap s)) G p)\<rparr>"] exI [of _ "nxt (unat (cap s)) G p"])
       (auto split: option.splits)
  show ?thesis
  proof (cases "pad ?n H p = 0")
    case True
    then show ?thesis using now [OF at True, of "Suc fuel"] Cons by simp
  next
    case False
    then show ?thesis
      using now [of "r\<lparr>head := of_nat (H + pad ?n H p)\<rparr>", OF ring_at_skip(1) [OF at], of fuel] ring_at_skip(2) [OF at]
        pop_turn_skip [OF at False, of "Suc fuel" mx] Cons by simp
  qed
qed

lemma pop_loop_one:
  assumes "ring_at umax r ps q H C T"
  shows "pop_loop (Suc 0) umax mx r = pop_loop (Suc (Suc fuel)) umax mx r \<or>
    (\<exists>r' H'. pop_loop (Suc 0) umax mx r = (Inl Diverge, r') \<and> ring_at umax r' ps q H' C T)"
proof (cases q)
  case Nil
  then show ?thesis using pop_turn_empty [of umax r ps H C T _ mx] assms by simp
next
  case (Cons p q')
  note at = assms [unfolded Cons]
  show ?thesis
  proof (cases "pad (unat (cap r)) H p = 0")
    case True
    then show ?thesis using pop_turn_record [OF at True, of 0 mx] pop_turn_record [OF at True, of "Suc fuel" mx] by simp
  next
    case False
    then show ?thesis using pop_turn_skip [OF at False, of 0 mx] ring_at_skip(1) [OF at] Cons by auto
  qed
qed

lemma pop_loop_any:
  assumes "ring_at umax r ps q H C T"
  shows "\<exists>r' H'. (pop_loop fuel umax mx r = (map_sum Fail id (fst (queue_pop mx q)), r') \<and>
      ring_at umax r' ps (snd (queue_pop mx q)) H' C T) \<or>
    (pop_loop fuel umax mx r = (Inl Diverge, r') \<and> ring_at umax r' ps q H' C T)"
proof -
  consider "fuel = 0" | "fuel = Suc 0" | k where "fuel = Suc (Suc k)" by (metis not0_implies_Suc)
  then show ?thesis
  proof cases
    case 1
    then show ?thesis using assms by auto
  next
    case 2
    then show ?thesis using pop_loop_one [OF assms, of mx 0] pop_loop_queue [OF assms, of 0 mx] by metis
  next
    case 3
    then show ?thesis using pop_loop_queue [OF assms, of k mx] by blast
  qed
qed

text \<open>Every step of the system is a step of the queue.\<close>

lemma ring_at_reserve:
  assumes at: "ring_at umax r ps q H C T" and sz: "push_size umax (cap r) (length p) = Some rs"
    and old: "unat (head r - hd0) + unat (tail_reserve r - head r) < 2 ^ 32"
    and a: "push_attempt (cap r) hd0 (tail_reserve r) rs = Reserve padding marker new_tail"
  shows "ring_at umax (r\<lparr>tail_reserve := new_tail\<rparr>)
    (ps @ [\<lparr>pf_payload = p, pf_tail = tail_reserve r, pf_padding = padding, pf_marker = marker,
            pf_new_tail = new_tail, pf_phase = Reserved\<rparr>]) q H C (nxt (unat (cap r)) T p)"
proof -
  let ?n = "unat (cap r)"
  have c: "good_cap ?n" "tail_reserve r = of_nat T" "head r = of_nat H" using at by (auto simp: ring_at_def Let_def)
  have f: "fits umax ?n p" "rs = rsize (length p)" using sz by (simp_all add: push_size_iff)
  note b = ring_at_bounds [OF at]
  define u where "u = unat (of_nat T - hd0)"
  have "unat ((head r - hd0) + (tail_reserve r - head r)) = unat (head r - hd0) + unat (tail_reserve r - head r)"
    using old by (intro iffD1 [OF unat_add_lem]) simp
  then have "u = unat (head r - hd0) + unat (of_nat T - of_nat H :: u32)" unfolding u_def c(2,3) by simp
  then have u: "T - H \<le> u" using of_nat_window [of H T] b by simp
  have res: "padding = pad ?n T p" "marker = (pad ?n T p \<noteq> 0)" "new_tail = of_nat (nxt ?n T p)"
      "\<not> u > ?n" "\<not> pad ?n T p + rsize (length p) > ?n - u"
    using a push_attempt_eq [OF c(1) refl b(4) _ u_def [symmetric], of p] f c(2)
    by (auto simp: fits_def split: if_splits)
  have "nxt ?n T p \<le> H + ?n" using res(4,5) u b unfolding nxt_def by linarith
  then show ?thesis
    using at f(1) res(1-3) c(2) by (auto simp: ring_at_def Let_def in_flight_append)
qed

lemma ring_at_write:
  assumes at: "ring_at umax r ps q H C T" and i: "i < length ps"
    and w: "push_write (cap r) (pf_tail (ps ! i)) (pf_padding (ps ! i)) (pf_marker (ps ! i)) (pf_payload (ps ! i)) (ring_data r) = Some d"
  shows "ring_at umax (r\<lparr>ring_data := d\<rparr>) (ps[i := (ps ! i)\<lparr>pf_phase := Written\<rparr>]) q H C T"
proof -
  let ?n = "unat (cap r)"
  have c: "good_cap ?n" "4 dvd H" "stored umax ?n (ring_data r) H q C" "in_flight umax ?n (ring_data r) C ps T" "length (ring_data r) = ?n"
    using at by (auto simp: ring_at_def Let_def)
  note b = ring_at_bounds [OF at]
  note wr = in_flight_write [OF c(1) refl b(2) c(4) b(1) b(5) c(5) i w]
  have "stored umax ?n d H q C" using wr c(5) by (intro stored_frame [OF c(1-3)]) auto
  then show ?thesis using at wr by (auto simp: ring_at_def Let_def)
qed

lemma ring_at_commit:
  assumes at: "ring_at umax r ps q H C T" and i: "i < length ps" "pf_phase (ps ! i) = Written" "tail_commit r = pf_tail (ps ! i)"
  shows "ring_at umax (r\<lparr>tail_commit := pf_new_tail (ps ! i)\<rparr>) (take i ps @ drop (Suc i) ps)
    (q @ [pf_payload (ps ! i)]) H (nxt (unat (cap r)) C (pf_payload (ps ! i))) T"
proof -
  let ?n = "unat (cap r)"
  have c: "good_cap ?n" "in_flight umax ?n (ring_data r) C ps T" "tail_commit r = of_nat C"
    using at by (auto simp: ring_at_def Let_def)
  note b = ring_at_bounds [OF at]
  obtain v where v: "pf_tail (ps ! i) = of_nat v" "C \<le> v" "v < T" "i \<noteq> 0 \<longrightarrow> C < v"
    using in_flight_tail [OF c(1) b(2) c(2) i(1)] by blast
  then have "C = v" using of_nat_window_eq [of C v] i(3) c(3) b by auto
  then have i0: "i = 0" using v(4) by auto
  then obtain f fs where ps: "ps = f # fs" using i(1) by (cases ps) auto
  show ?thesis
    using at i0 i(2) nxt_bounds(1) [OF c(1) b(2), of "pf_payload f"]
    by (auto simp: ps ring_at_def Let_def stored_append)
qed

text \<open>The first push in flight can always finish, and so can every other one after it.\<close>

lemma in_flight_push_write:
  "good_cap (unat cp) \<Longrightarrow> 4 dvd t \<Longrightarrow> in_flight umax (unat cp) d t fs u \<Longrightarrow> u \<le> t + unat cp \<Longrightarrow> length d = unat cp \<Longrightarrow>
   i < length fs \<Longrightarrow>
   \<exists>d'. push_write cp (pf_tail (fs ! i)) (pf_padding (fs ! i)) (pf_marker (fs ! i)) (pf_payload (fs ! i)) d = Some d'"
proof (induction fs arbitrary: t i)
  case (Cons f fs)
  let ?n = "unat cp" and ?p = "pf_payload f"
  have b: "t < nxt ?n t ?p" "4 dvd nxt ?n t ?p" using nxt_bounds Cons.prems by auto
  have fl: "in_flight umax ?n d (nxt ?n t ?p) fs u" "pf_tail f = of_nat t" "fits umax ?n ?p" "pf_padding f = pad ?n t ?p"
      "pf_marker f = (pad ?n t ?p \<noteq> 0)"
    using Cons.prems(3) by (auto simp: Let_def)
  have u: "nxt ?n t ?p \<le> u" using in_flight_le [OF Cons.prems(1) b(2) fl(1)] by simp
  show ?case
  proof (cases i)
    case 0
    have "rsize (length ?p) \<le> ?n" "nxt ?n t ?p \<le> t + ?n" using fl(3) u Cons.prems(4) by (auto simp: fits_def)
    then obtain d' where "push_write cp (of_nat t) (pad ?n t ?p) (pad ?n t ?p \<noteq> 0) ?p d = Some d'"
      using push_write_spec [OF Cons.prems(1) refl Cons.prems(2) _ Cons.prems(5), of ?p] by blast
    then show ?thesis using fl 0 by simp
  next
    case (Suc j)
    then show ?thesis using Cons.IH [OF Cons.prems(1) b(2) fl(1) _ Cons.prems(5), of j] Cons.prems b by simp
  qed
qed simp

lemma ring_at_push_write:
  assumes at: "ring_at umax r ps q H C T" and i: "i < length ps"
  shows "\<exists>d. push_write (cap r) (pf_tail (ps ! i)) (pf_padding (ps ! i)) (pf_marker (ps ! i)) (pf_payload (ps ! i)) (ring_data r) = Some d"
  using in_flight_push_write [OF _ ring_at_bounds(2) [OF at], of "cap r" umax "ring_data r" ps T i] at i ring_at_bounds [OF at]
  by (auto simp: ring_at_def Let_def)

lemma pop_loop_label:
  assumes "ring_at umax r ps q H C T" "pop_loop fuel umax mx r = (res, r')"
  shows "\<exists>q' H'. queue_do (pop_label res) q = Some q' \<and> ring_at umax r' ps q' H' C T"
  using pop_loop_any [OF assms(1), of fuel mx] assms(2) by (cases q) (auto split: option.splits if_splits)

lemma ring_step_queue:
  assumes "ring_step umax (r, ps) l (r', ps')" "ring_at umax r ps q H C T"
  shows "\<exists>q' H' C' T'. queue_do l q = Some q' \<and> ring_at umax r' ps' q' H' C' T'"
  using assms(1)
proof cases
  case (reserve payload rs hd0 padding marker new_tail)
  show ?thesis using ring_at_reserve [OF assms(2) reserve(4-6)] reserve(1-3) by auto
next
  case (write_record i d)
  show ?thesis using ring_at_write [OF assms(2) write_record(4,6)] write_record(1-3) by auto
next
  case (commit i)
  show ?thesis using ring_at_commit [OF assms(2) commit(4-6)] commit(1-3) by auto
next
  case (pop fuel res)
  then show ?thesis using pop_loop_label [OF assms(2), of fuel None] by (fastforce simp: try_pop_def)
next
  case (pop_capped fuel mx res)
  then show ?thesis using pop_loop_label [OF assms(2)] by (fastforce simp: try_pop_capped_def)
qed


text \<open>The runs of the system from a fresh ring, with their labels.\<close>

inductive ring_run :: "nat \<Rightarrow> nat \<Rightarrow> ring_label list \<Rightarrow> ring_system \<Rightarrow> bool" for umax n where
  fresh: "ring_run umax n [] (r, [])" if "RingBuffer_new n = Some r"
| more: "ring_run umax n (ls @ [l]) s'" if "ring_run umax n ls s" "ring_step umax s l s'"

definition ring_inv :: "nat \<Rightarrow> nat \<Rightarrow> ring_system \<Rightarrow> u8 list list \<Rightarrow> bool" where
  "ring_inv umax n s q \<longleftrightarrow> unat (cap (fst s)) = n \<and> (\<exists>H C T. ring_at umax (fst s) (snd s) q H C T)"

lemma ring_step_cap: "ring_step umax (r, ps) l (r', ps') \<Longrightarrow> cap r' = cap r"
proof -
  have "cap (snd (pop_loop fuel umax mx r)) = cap r" for fuel mx r
    by (induction fuel umax mx r rule: pop_loop.induct) (auto simp: Let_def split: option.splits)
  then show "ring_step umax (r, ps) l (r', ps') \<Longrightarrow> cap r' = cap r"
    by (auto elim!: ring_step.cases simp: try_pop_def try_pop_capped_def) (metis snd_conv)+
qed

lemma ring_inv_fresh: "good_cap n \<Longrightarrow> RingBuffer_new n = Some r \<Longrightarrow> ring_inv umax n (r, []) []"
proof -
  assume "good_cap n" "RingBuffer_new n = Some r"
  then have "cap r = of_nat n" "n < 2 ^ 32" "good_cap n" "r = \<lparr> cap = of_nat n, head = 0, tail_reserve = 0, tail_commit = 0, ring_data = replicate n 0 \<rparr>"
    by (auto simp: RingBuffer_new_def good_cap_def split: if_splits)
  moreover have "unat (of_nat n :: u32) = n" using calculation(2) by (simp only: unat_of_nat) simp
  ultimately show ?thesis unfolding ring_inv_def ring_at_def Let_def by (auto intro!: exI [of _ "0 :: nat"])
qed

lemma ring_inv_step: "ring_inv umax n s q \<Longrightarrow> ring_step umax s l s' \<Longrightarrow> \<exists>q'. queue_do l q = Some q' \<and> ring_inv umax n s' q'"
  using ring_step_queue [of umax "fst s" "snd s" l "fst s'" "snd s'" q] ring_step_cap [of umax "fst s" "snd s" l "fst s'" "snd s'"]
  by (fastforce simp: ring_inv_def)

lemma ring_run_inv: "ring_run umax n ls s \<Longrightarrow> good_cap n \<Longrightarrow> \<exists>q. queue_run ls [] = Some q \<and> ring_inv umax n s q"
proof (induction rule: ring_run.induct)
  case (fresh r)
  then show ?case using ring_inv_fresh by simp
next
  case (more ls s l s')
  then show ?case using ring_inv_step [OF _ more.hyps(2)] by (fastforce simp: queue_run_append)
qed


text \<open>\<^verbatim>\<open>try_push\<close> is its three steps one after the other.\<close>

lemma try_push_run:
  assumes "ring_run umax n ls (r, [])" "try_push umax r p = Inr r'"
  shows "ring_run umax n (ls @ [Silent, Silent, Pushed p]) (r', [])"
proof -
  obtain rs padding marker new_tail d where a: "push_size umax (cap r) (length p) = Some rs"
      "push_attempt (cap r) (head r) (tail_reserve r) rs = Reserve padding marker new_tail"
      "push_write (cap r) (tail_reserve r) padding marker p (ring_data r) = Some d"
      "tail_commit r = tail_reserve r" "r' = r\<lparr>tail_reserve := new_tail, ring_data := d, tail_commit := new_tail\<rparr>"
    using assms(2) by (auto simp: try_push_def Let_def split: option.splits push_turn.splits if_splits)
  let ?f = "\<lparr>pf_payload = p, pf_tail = tail_reserve r, pf_padding = padding, pf_marker = marker,
              pf_new_tail = new_tail, pf_phase = Reserved\<rparr>"
  have "unat (head r - head r) + unat (tail_reserve r - head r) < 2 ^ 32"
    using unsigned_less [of "tail_reserve r - head r"] by simp
  then have s1: "ring_step umax (r, []) Silent (r\<lparr>tail_reserve := new_tail\<rparr>, [?f])"
    using ring_step.reserve [OF a(1) _ a(2), of "[]"] by simp
  have s2: "ring_step umax (r\<lparr>tail_reserve := new_tail\<rparr>, [?f]) Silent
      (r\<lparr>tail_reserve := new_tail, ring_data := d\<rparr>, [?f\<lparr>pf_phase := Written\<rparr>])"
    using ring_step.write_record [of 0 "[?f]" "r\<lparr>tail_reserve := new_tail\<rparr>" d umax] a(3) by simp
  have s3: "ring_step umax (r\<lparr>tail_reserve := new_tail, ring_data := d\<rparr>, [?f\<lparr>pf_phase := Written\<rparr>]) (Pushed p) (r', [])"
    using ring_step.commit [of 0 "[?f\<lparr>pf_phase := Written\<rparr>]" "r\<lparr>tail_reserve := new_tail, ring_data := d\<rparr>" umax] a(4,5) by simp
  show ?thesis using ring_run.more [OF ring_run.more [OF ring_run.more [OF assms(1) s1] s2] s3] by simp
qed

text \<open>What \<^verbatim>\<open>try_push\<close> answers when no push is in flight.\<close>

lemma ring_at_try_push:
  assumes at: "ring_at umax r [] q H C T" and n: "n = unat (cap r)"
  shows "\<not> fits umax n p \<Longrightarrow> try_push umax r p = Inl (Fail TooLarge)"
    "fits umax n p \<Longrightarrow> pad n T p + rsize (length p) > n - (T - H) \<Longrightarrow> try_push umax r p = Inl (Fail Full)"
    "fits umax n p \<Longrightarrow> pad n T p + rsize (length p) \<le> n - (T - H) \<Longrightarrow> \<exists>r'. try_push umax r p = Inr r'"
proof -
  have c: "good_cap n" "tail_reserve r = of_nat T" "head r = of_nat H" "C = T" "tail_commit r = of_nat C" "length (ring_data r) = n"
    using at by (auto simp: ring_at_def Let_def n)
  note b = ring_at_bounds [OF at, folded n]
  have u: "unat (of_nat T - head r) = T - H" using of_nat_window [of H T] b c(3) by simp
  have sz: "push_size umax (cap r) (length p) = (if fits umax n p then Some (rsize (length p)) else None)"
    using push_size_iff [of umax "cap r" p] n by (cases "push_size umax (cap r) (length p)") auto
  have at: "push_attempt (cap r) (head r) (tail_reserve r) (rsize (length p)) =
      (if T - H > n then Retry else if pad n T p + rsize (length p) > n - (T - H) then NoRoom
       else Reserve (pad n T p) (pad n T p \<noteq> 0) (of_nat (nxt n T p)))" if "fits umax n p"
    using push_attempt_eq [OF c(1) n b(4) _ u, of p] that c(2) by (simp add: fits_def)
  show "try_push umax r p = Inl (Fail TooLarge)" if "\<not> fits umax n p" using that sz by (simp add: try_push_def)
  have le: "\<not> T - H > n" using b by simp
  show "try_push umax r p = Inl (Fail Full)" if "fits umax n p" "pad n T p + rsize (length p) > n - (T - H)"
    using that sz at le by (simp add: try_push_def)
  show "\<exists>r'. try_push umax r p = Inr r'" if "fits umax n p" "pad n T p + rsize (length p) \<le> n - (T - H)"
  proof -
    have w: "nxt n T p \<le> T + n" using that(2) b unfolding nxt_def by linarith
    have f: "rsize (length p) \<le> n" using that(1) by (simp add: fits_def)
    obtain d where "push_write (cap r) (of_nat T) (pad n T p) (pad n T p \<noteq> 0) p (ring_data r) = Some d"
      by (rule push_write_spec [OF c(1) n b(4) f c(6) w])
    then show ?thesis using that sz at le c(2,4,5) by (simp add: try_push_def)
  qed
qed

text \<open>The first push in flight can finish: it writes, and its turn to commit has come.\<close>

lemma ring_first_push:
  assumes run: "ring_run umax n ls (r, f # fs)" and c: "good_cap n"
  shows "\<exists>r' ls'. ring_run umax n (ls @ ls') (r', fs) \<and> filter (\<lambda>l. l \<noteq> Silent) ls' = [Pushed (pf_payload f)]"
proof -
  have first: "tail_commit r = pf_tail f \<and> (\<exists>d. push_write (cap r) (pf_tail f) (pf_padding f) (pf_marker f) (pf_payload f) (ring_data r) = Some d)"
    if k: "ring_run umax n ks (r, f # fs)" for ks r f
  proof -
    obtain q H C T where at: "ring_at umax r (f # fs) q H C T" using ring_run_inv [OF k c] by (auto simp: ring_inv_def)
    then have "tail_commit r = pf_tail f" by (auto simp: ring_at_def Let_def)
    then show ?thesis using ring_at_push_write [OF at, of 0] by simp
  qed
  have commit: "ring_run umax n (ks @ [Pushed (pf_payload g)]) (s\<lparr>tail_commit := pf_new_tail g\<rparr>, fs)"
    if "ring_run umax n ks (s, g # fs)" "pf_phase g = Written" for ks s g
    using ring_run.more [OF that(1) ring_step.commit [of 0 "g # fs" s umax]] first [OF that(1)] that(2) by simp
  show ?thesis
  proof (cases "pf_phase f")
    case Written
    then show ?thesis using commit [OF run] by (intro exI conjI) auto
  next
    case Reserved
    obtain d where "push_write (cap r) (pf_tail f) (pf_padding f) (pf_marker f) (pf_payload f) (ring_data r) = Some d"
      using first [OF run] by blast
    then have "ring_step umax (r, f # fs) Silent (r\<lparr>ring_data := d\<rparr>, f\<lparr>pf_phase := Written\<rparr> # fs)"
      using ring_step.write_record [of 0 "f # fs" r d umax] Reserved by simp
    then have "ring_run umax n (ls @ [Silent]) (r\<lparr>ring_data := d\<rparr>, f\<lparr>pf_phase := Written\<rparr> # fs)" by (rule ring_run.more [OF run])
    from commit [OF this] show ?thesis
      by (intro exI [of _ "r\<lparr>ring_data := d\<rparr>\<lparr>tail_commit := pf_new_tail f\<rparr>"] exI [of _ "[Silent, Pushed (pf_payload f)]"]) simp
  qed
qed



text \<open>
  A push when no other is in flight: a payload whose record exceeds the ring (or whose length is the
  wrap marker) is \<^verbatim>\<open>TooLarge\<close>; otherwise the push succeeds, and the payload is the newest one of the queue, exactly
  if the record and the padding before it fit into the free bytes, and is \<^verbatim>\<open>Full\<close> otherwise. In an empty ring
  every record of at most half the capacity is accepted.
\<close>

theorem ring_push_outcome:
  assumes "good_cap n" "ring_run umax n ls (r, [])"
  shows "let free = n - unat (tail_reserve r - head r); need = pad n (unat (tail_reserve r)) p + rsize (length p) in
    if \<not> fits umax n p then try_push umax r p = Inl (Fail TooLarge)
    else if need > free then try_push umax r p = Inl (Fail Full) \<and> \<not> (ring_is_empty r \<and> 2 * rsize (length p) \<le> n)
    else \<exists>r'. try_push umax r p = Inr r' \<and> ring_run umax n (ls @ [Silent, Silent, Pushed p]) (r', [])"
proof -
  obtain q H C T where at: "ring_at umax r [] q H C T" "unat (cap r) = n"
    using ring_run_inv [OF assms(2,1)] by (auto simp: ring_inv_def)
  note b = ring_at_bounds [OF at(1)]
  have c: "tail_reserve r = of_nat T" "head r = of_nat H" "tail_commit r = of_nat C" "C = T" using at(1) by (auto simp: ring_at_def Let_def)
  define free need where "free = n - unat (tail_reserve r - head r)" and "need = pad n (unat (tail_reserve r)) p + rsize (length p)"
  note defs = this
  have f: "free = n - (T - H)" using of_nat_window [of H T] b c(1,2) by (simp add: defs)
  have "n dvd 2 ^ 32" using assms(1) by (simp add: good_cap_def)
  then have "unat (tail_reserve r) mod n = T mod n" by (simp add: c(1) unat_of_nat mod_mod_cancel)
  then have nd: "need = pad n T p + rsize (length p)" by (simp add: defs pad_def)
  note push = ring_at_try_push [OF at(1) at(2) [symmetric], of p]
  have "need < 2 * rsize (length p)" using rsize_bounds(1) [of "length p"] by (simp add: nd pad_def Let_def)
  moreover have "free = n" if "ring_is_empty r" using that c by (simp add: defs ring_is_empty_def)
  ultimately show ?thesis
    using push try_push_run [OF assms(2)] unfolding Let_def defs [symmetric] by (auto simp: f nd)
qed

text \<open>
  No push in flight is stuck: on a ring whose capacity divides \<open>2 ^ 32\<close>, from every state the system reaches, the pushes in flight can all
  complete, one after the other in the order of their reservations, without the help of the consumer.
\<close>

theorem ring_pushes_complete:
  assumes "good_cap n" "ring_run umax n ls (r, ps)"
  shows "\<exists>ls' r'. ring_run umax n (ls @ ls') (r', []) \<and> filter (\<lambda>l. l \<noteq> Silent) ls' = map (\<lambda>f. Pushed (pf_payload f)) ps"
  using assms(2)
proof (induction ps arbitrary: ls r)
  case Nil
  then show ?case by (intro exI [of _ "[]"] exI [of _ r]) simp
next
  case (Cons f fs)
  obtain r' ks where k: "ring_run umax n (ls @ ks) (r', fs)" "filter (\<lambda>l. l \<noteq> Silent) ks = [Pushed (pf_payload f)]"
    using ring_first_push [OF Cons.prems assms(1)] by blast
  obtain ls' r'' where l: "ring_run umax n ((ls @ ks) @ ls') (r'', [])"
      "filter (\<lambda>l. l \<noteq> Silent) ls' = map (\<lambda>f. Pushed (pf_payload f)) fs"
    using Cons.IH [OF k(1)] by blast
  show ?case using k(2) l by (intro exI [of _ "ks @ ls'"] exI [of _ r'']) simp
qed

text \<open>A ring of 16 bytes in which one payload has been pushed, and a second push has reserved its bytes.\<close>

definition example_ring :: RingBuffer where
  "example_ring = \<lparr> cap = 16, head = 0, tail_reserve = 8, tail_commit = 8,
     ring_data = [3, 0, 0, 0, 7, 8, 9, 0, 0, 0, 0, 0, 0, 0, 0, 0] \<rparr>"

definition example_push :: push_in_flight where
  "example_push = \<lparr>pf_payload = [], pf_tail = 8, pf_padding = 0, pf_marker = False, pf_new_tail = 12, pf_phase = Reserved\<rparr>"

lemma good_cap_16: "good_cap 16"
  by (simp add: good_cap_def)

lemma example_run: "ring_run (2 ^ 64 - 1) 16 [Silent, Silent, Pushed [7, 8, 9]] (example_ring, [])"
proof -
  let ?r = "\<lparr> cap = 16, head = 0, tail_reserve = 0, tail_commit = 0, ring_data = replicate 16 0 \<rparr>"
  have "RingBuffer_new 16 = Some ?r" by (simp add: RingBuffer_new_def RECORD_ALIGN_def)
  then have "ring_run (2 ^ 64 - 1) 16 [] (?r, [])" by (rule ring_run.fresh)
  moreover have "try_push (2 ^ 64 - 1) ?r [7, 8, 9] = Inr example_ring"
  proof -
    have "push_size (2 ^ 64 - 1) 16 (length [7, 8, 9 :: u8]) = Some 8" by (simp add: push_size_def record_size_checked_eq rsize_def)
    moreover have "push_attempt 16 0 0 8 = Reserve 0 False 8" by (simp add: push_attempt_def)
    moreover have "push_write 16 0 0 False [7, 8, 9] (replicate 16 0) = Some (ring_data example_ring)" by code_simp
    ultimately show ?thesis by (simp add: try_push_def example_ring_def)
  qed
  ultimately show ?thesis using try_push_run by fastforce
qed

lemma example_run_in_flight:
  "ring_run (2 ^ 64 - 1) 16 [Silent, Silent, Pushed [7, 8, 9], Silent] (example_ring\<lparr>tail_reserve := 12\<rparr>, [example_push])"
proof -
  have a: "push_size (2 ^ 64 - 1) (cap example_ring) (length ([] :: u8 list)) = Some 4" by (simp add: push_size_def record_size_checked_eq rsize_def example_ring_def)
  have b: "push_attempt (cap example_ring) 0 (tail_reserve example_ring) 4 = Reserve 0 False 12" by (simp add: push_attempt_def example_ring_def)
  have "ring_step (2 ^ 64 - 1) (example_ring, []) Silent (example_ring\<lparr>tail_reserve := 12\<rparr>, [example_push])"
    using ring_step.reserve [OF a _ b, of "[]"] by (simp add: example_ring_def example_push_def)
  then show ?thesis using ring_run.more [OF example_run] by simp
qed



theorem ring_push_outcome_witness:
  "try_push (2 ^ 64 - 1) example_ring [1, 2, 3, 4, 5] = Inl (Fail Full) \<and>
   (\<exists>r'. try_push (2 ^ 64 - 1) example_ring [1, 2, 3, 4] = Inr r')"
  using ring_push_outcome [OF good_cap_16 example_run, of "[1, 2, 3, 4, 5]"] ring_push_outcome [OF good_cap_16 example_run, of "[1, 2, 3, 4]"]
  by (auto simp: fits_def rsize_def pad_def example_ring_def Let_def)

theorem ring_pushes_complete_witness:
  "\<exists>ls' r'. ring_run (2 ^ 64 - 1) 16 ([Silent, Silent, Pushed [7, 8, 9], Silent] @ ls') (r', []) \<and>
     filter (\<lambda>l. l \<noteq> Silent) ls' = [Pushed []]"
  using ring_pushes_complete [OF good_cap_16 example_run_in_flight] by (simp add: example_push_def)

section \<open>Outside of these bounds\<close>

text \<open>
  The sum of padding and record is compared after it is cut to 32 bits. In a ring of more than 2 GiB it can
  come out as 0: the record overlaps the free space twice over, and the tail stays where it is.
\<close>

lemma push_reserves_nothing: "push_attempt 0xC0000000 0x60000000 0x60000000 0xA0000000 = Reserve 0x60000000 True 0x60000000"
  by (simp add: push_attempt_def)

text \<open>
  \<^verbatim>\<open>new\<close> accepts a capacity that does not divide \<open>2 ^ 32\<close>. When the positions of such a ring wrap, the index jumps:
  here the second push overwrites the first one, and the pops return the wrong payload and then report corruption.
\<close>

definition wrapping_ring :: RingBuffer where
  "wrapping_ring = \<lparr> cap = 12, head = 0xFFFFFFFC, tail_reserve = 0xFFFFFFFC, tail_commit = 0xFFFFFFFC, ring_data = replicate 12 0 \<rparr>"

lemma pop_turn:
  assumes "head r \<noteq> tail_commit r" "unat (head r mod cap r) = i" "\<not> unat (cap r) - i < 4"
    "(from_le_bytes (take 4 (drop i (ring_data r))) :: u32) = len" "len \<noteq> WRAP_MARKER"
  shows "pop_loop (Suc fuel) umax None r =
    (if unat len + 7 \<le> umax \<and> rsize (unat len) \<le> unat (cap r) - i \<and> \<not> tail_commit r - head r < of_nat (rsize (unat len))
     then (Inr (take (unat len) (drop (i + 4) (ring_data r))), r\<lparr>head := head r + of_nat (rsize (unat len))\<rparr>)
     else (Inl (Fail Corrupt), r))"
  using assms by (simp add: record_size_checked_eq Let_def)

lemma wrap_overwrites_record:
  assumes "11 \<le> umax"
  obtains r1 r2 r3 r4 where "RingBuffer_new 12 \<noteq> None" "try_push umax wrapping_ring [] = Inr r1" "try_push umax r1 [1, 2, 3, 4] = Inr r2"
    "try_pop 2 umax r2 = (Inr [1, 2, 3, 4], r3)" "try_pop 2 umax r3 = (Inl (Fail Corrupt), r4)"
proof
  let ?d1 = "replicate 12 0 :: u8 list" and ?d2 = "[4, 0, 0, 0, 1, 2, 3, 4, 0, 0, 0, 0] :: u8 list"
  let ?r1 = "\<lparr> cap = 12, head = 0xFFFFFFFC, tail_reserve = 0, tail_commit = 0, ring_data = ?d1 \<rparr>"
  let ?r2 = "\<lparr> cap = 12, head = 0xFFFFFFFC, tail_reserve = 8, tail_commit = 8, ring_data = ?d2 \<rparr>"
  show "RingBuffer_new 12 \<noteq> None" by (simp add: RingBuffer_new_def RECORD_ALIGN_def)
  have "push_write 12 0xFFFFFFFC 0 False [] ?d1 = Some ?d1" by code_simp
  then show "try_push umax wrapping_ring [] = Inr ?r1"
    using assms by (simp add: try_push_def wrapping_ring_def push_size_def record_size_checked_eq rsize_def push_attempt_def)
  have "push_write 12 0 0 False [1, 2, 3, 4] ?d1 = Some ?d2" by code_simp
  then show "try_push umax ?r1 [1, 2, 3, 4] = Inr ?r2"
    using assms by (simp add: try_push_def push_size_def record_size_checked_eq rsize_def push_attempt_def)
  have len: "(from_le_bytes (take 4 (drop 0 ?d2)) :: u32) = 4" "(from_le_bytes (take 4 (drop 4 ?d2)) :: u32) = 0x04030201" by code_simp+
  show "try_pop 2 umax ?r2 = (Inr [1, 2, 3, 4], ?r2\<lparr>head := 4\<rparr>)"
    using assms pop_turn [of ?r2 0 4 "Suc 0"] len(1) unfolding try_pop_def numeral_2_eq_2
    by (simp del: pop_loop.simps from_le_bytes.simps add: rsize_def WRAP_MARKER_def)
  show "try_pop 2 umax (?r2\<lparr>head := 4\<rparr>) = (Inl (Fail Corrupt), ?r2\<lparr>head := 4\<rparr>)"
    using pop_turn [of "?r2\<lparr>head := 4\<rparr>" 4 "0x04030201" "Suc 0"] len(2) unfolding try_pop_def numeral_2_eq_2
    by (simp del: pop_loop.simps from_le_bytes.simps add: rsize_def WRAP_MARKER_def)
qed

text \<open>
  A wrap marker is skipped without a look at the committed bytes. One at index 0, which no producer writes,
  is found again after every lap, and the pop never returns, neither with a record nor with \<^verbatim>\<open>Corrupt\<close>.
\<close>

lemma pop_hangs_on_marker:
  assumes "cap r = 16" "unat (head r) mod 16 = 0" "unat (tail_commit r) mod 16 = 4" "take 4 (ring_data r) = [255, 255, 255, 255]"
  shows "fst (pop_loop fuel umax mx r) = Inl Diverge"
  using assms
proof (induction fuel arbitrary: r)
  case (Suc fuel)
  have "head r \<noteq> tail_commit r" using Suc.prems(2,3) by auto
  moreover have "(from_le_bytes [255, 255, 255, 255] :: u32) = WRAP_MARKER" by code_simp
  moreover have "unat (head r + 16) mod 16 = 0"
    using Suc.prems(2) by (simp add: unat_word_ariths mod_mod_cancel)
  ultimately show ?case using Suc.prems Suc.IH [of "r\<lparr>head := head r + 16\<rparr>"] by (simp add: unat_mod)
qed simp

text \<open>
  An empty ring may refuse a payload for ever: the largest one that \<^verbatim>\<open>max_payload_len_for_capacity\<close> gives fits at
  index 0 only, and \<^verbatim>\<open>push_spinning\<close> waits for a consumer that has nothing left to pop.
\<close>

lemma empty_ring_refuses_payload:
  assumes "16 \<le> umax" "length p = max_payload_len_for_capacity 16"
    "r = \<lparr> cap = 16, head = 4, tail_reserve = 4, tail_commit = 4, ring_data = replicate 16 0 \<rparr>"
  shows "ring_is_empty r" "try_push umax r p = Inl (Fail Full)" "push_spinning umax r p = Inl Diverge"
proof -
  show "ring_is_empty r" by (simp add: ring_is_empty_def assms(3))
  show f: "try_push umax r p = Inl (Fail Full)"
    using assms by (simp add: try_push_def push_size_def record_size_checked_eq rsize_def push_attempt_def
        max_payload_len_for_capacity_def RECORD_ALIGN_def)
  show "push_spinning umax r p = Inl Diverge" by (simp add: push_spinning_def f)
qed

end
