(* ===== verification/CpuState.thy ===== *)
theory CpuState
  imports Prelude
begin

text \<open>
  The architectural state of a processor, \<^verbatim>\<open>aero-cpu-core/src/state.rs\<close>: general registers and their parts,
  lazily evaluated status flags, segments, execution modes, the instruction and stack pointers, and the
  masks on linear addresses. The registers of the decoder library are grouped by their width; what the source
  does not distinguish is \<open>OtherReg\<close>.

  The lemmas show what a write to a part of a register does to every other part, and that committing lazy flags
  changes no flag as it is read.
\<close>

section \<open>Flags and masks\<close>

definition RFLAGS_CF :: u64 where "RFLAGS_CF = push_bit 0 1"
definition RFLAGS_RESERVED1 :: u64 where "RFLAGS_RESERVED1 = push_bit 1 1"
definition RFLAGS_PF :: u64 where "RFLAGS_PF = push_bit 2 1"
definition RFLAGS_AF :: u64 where "RFLAGS_AF = push_bit 4 1"
definition RFLAGS_ZF :: u64 where "RFLAGS_ZF = push_bit 6 1"
definition RFLAGS_SF :: u64 where "RFLAGS_SF = push_bit 7 1"
definition RFLAGS_TF :: u64 where "RFLAGS_TF = push_bit 8 1"
definition RFLAGS_IF :: u64 where "RFLAGS_IF = push_bit 9 1"
definition RFLAGS_DF :: u64 where "RFLAGS_DF = push_bit 10 1"
definition RFLAGS_OF :: u64 where "RFLAGS_OF = push_bit 11 1"
definition RFLAGS_IOPL_MASK :: u64 where "RFLAGS_IOPL_MASK = push_bit 12 3"
definition RFLAGS_VM :: u64 where "RFLAGS_VM = push_bit 17 1"
definition RFLAGS_AC :: u64 where "RFLAGS_AC = push_bit 18 1"
definition RFLAGS_VIF :: u64 where "RFLAGS_VIF = push_bit 19 1"
definition RFLAGS_VIP :: u64 where "RFLAGS_VIP = push_bit 20 1"
definition RFLAGS_ID :: u64 where "RFLAGS_ID = push_bit 21 1"

abbreviation FLAG_CF :: u64 where "FLAG_CF \<equiv> RFLAGS_CF"
abbreviation FLAG_PF :: u64 where "FLAG_PF \<equiv> RFLAGS_PF"
abbreviation FLAG_AF :: u64 where "FLAG_AF \<equiv> RFLAGS_AF"
abbreviation FLAG_ZF :: u64 where "FLAG_ZF \<equiv> RFLAGS_ZF"
abbreviation FLAG_SF :: u64 where "FLAG_SF \<equiv> RFLAGS_SF"
abbreviation FLAG_DF :: u64 where "FLAG_DF \<equiv> RFLAGS_DF"
abbreviation FLAG_OF :: u64 where "FLAG_OF \<equiv> RFLAGS_OF"

lemmas rflag_defs = RFLAGS_CF_def RFLAGS_RESERVED1_def RFLAGS_PF_def RFLAGS_AF_def RFLAGS_ZF_def RFLAGS_SF_def RFLAGS_TF_def
  RFLAGS_IF_def RFLAGS_DF_def RFLAGS_OF_def RFLAGS_IOPL_MASK_def RFLAGS_VM_def RFLAGS_AC_def RFLAGS_VIF_def RFLAGS_VIP_def RFLAGS_ID_def

definition mask_bits :: "nat \<Rightarrow> u64" where
  "mask_bits bits =
     (if bits = 8 then 0xFF else if bits = 16 then 0xFFFF else if bits = 32 then 0xFFFFFFFF else if bits = 64 then - 1
      else if bits \<ge> 64 then - 1 else push_bit bits 1 - 1)"

definition set_bit_to :: "u64 \<Rightarrow> u64 \<Rightarrow> bool \<Rightarrow> u64" where
  "set_bit_to bits msk value = (if value then bits OR msk else bits AND NOT msk)"

text \<open>\<^verbatim>\<open>count_ones\<close> of a byte.\<close>

definition count_ones8 :: "u8 \<Rightarrow> nat" where
  "count_ones8 b = length (filter (bit b) [0..<8])"

section \<open>Lazy flags\<close>

datatype OperandSize = Byte | Word | Dword | Qword

fun size_bytes :: "OperandSize \<Rightarrow> nat" where
  "size_bytes Byte = 1" | "size_bytes Word = 2" | "size_bytes Dword = 4" | "size_bytes Qword = 8"

definition size_bits :: "OperandSize \<Rightarrow> nat" where
  "size_bits sz = size_bytes sz * 8"

fun size_mask :: "OperandSize \<Rightarrow> u64" where
  "size_mask Byte = 0xFF" | "size_mask Word = 0xFFFF" | "size_mask Dword = 0xFFFFFFFF" | "size_mask Qword = 0xFFFFFFFFFFFFFFFF"

definition size_sign_bit :: "OperandSize \<Rightarrow> u64" where
  "size_sign_bit sz = push_bit (size_bits sz - 1) 1"

datatype LazyFlagOp = LNone | LAdd | LAdc | LSub | LSbb | LLogic

record LazyFlags =
  lop :: LazyFlagOp
  lsize :: OperandSize
  carry_in :: u8
  lresult :: u64
  op1 :: u64
  op2 :: u64

definition LazyFlags_default :: LazyFlags where
  "LazyFlags_default = \<lparr> lop = LNone, lsize = Qword, carry_in = 0, lresult = 0, op1 = 0, op2 = 0 \<rparr>"

definition is_active :: "LazyFlags \<Rightarrow> bool" where
  "is_active lf \<longleftrightarrow> lop lf \<noteq> LNone"

definition for_add :: "OperandSize \<Rightarrow> u64 \<Rightarrow> u64 \<Rightarrow> u64 \<Rightarrow> LazyFlags" where
  "for_add sz a b res = \<lparr> lop = LAdd, lsize = sz, carry_in = 0, lresult = res, op1 = a, op2 = b \<rparr>"

definition for_adc :: "OperandSize \<Rightarrow> u64 \<Rightarrow> u64 \<Rightarrow> bool \<Rightarrow> u64 \<Rightarrow> LazyFlags" where
  "for_adc sz a b c res = \<lparr> lop = LAdc, lsize = sz, carry_in = of_bool c, lresult = res, op1 = a, op2 = b \<rparr>"

definition for_sub :: "OperandSize \<Rightarrow> u64 \<Rightarrow> u64 \<Rightarrow> u64 \<Rightarrow> LazyFlags" where
  "for_sub sz a b res = \<lparr> lop = LSub, lsize = sz, carry_in = 0, lresult = res, op1 = a, op2 = b \<rparr>"

definition for_sbb :: "OperandSize \<Rightarrow> u64 \<Rightarrow> u64 \<Rightarrow> bool \<Rightarrow> u64 \<Rightarrow> LazyFlags" where
  "for_sbb sz a b c res = \<lparr> lop = LSbb, lsize = sz, carry_in = of_bool c, lresult = res, op1 = a, op2 = b \<rparr>"

definition for_logic :: "OperandSize \<Rightarrow> u64 \<Rightarrow> LazyFlags" where
  "for_logic sz res = \<lparr> lop = LLogic, lsize = sz, carry_in = 0, lresult = res, op1 = 0, op2 = 0 \<rparr>"

definition masked :: "LazyFlags \<Rightarrow> u64 \<Rightarrow> u64" where
  "masked lf v = v AND size_mask (lsize lf)"

definition carry_in_u64 :: "LazyFlags \<Rightarrow> u64" where
  "carry_in_u64 lf = ucast (carry_in lf AND 1)"

definition add_rhs :: "LazyFlags \<Rightarrow> u64" where
  "add_rhs lf = (masked lf (op2 lf) + carry_in_u64 lf) AND size_mask (lsize lf)"

definition lazy_cf :: "LazyFlags \<Rightarrow> bool" where
  "lazy_cf lf =
     (if \<not> is_active lf then False
      else
        let a = ucast (masked lf (op1 lf)) :: u128;
            msk = ucast (size_mask (lsize lf)) :: u128;
            b = ucast (masked lf (op2 lf)) :: u128
        in case lop lf of
             LAdd \<Rightarrow> a + b > msk
           | LAdc \<Rightarrow> a + b + ucast (carry_in_u64 lf) > msk
           | LSub \<Rightarrow> a < b
           | LSbb \<Rightarrow> a < b + ucast (carry_in_u64 lf)
           | LLogic \<Rightarrow> False
           | LNone \<Rightarrow> False)"

definition lazy_zf :: "LazyFlags \<Rightarrow> bool" where
  "lazy_zf lf \<longleftrightarrow> masked lf (lresult lf) = 0"

definition lazy_sf :: "LazyFlags \<Rightarrow> bool" where
  "lazy_sf lf \<longleftrightarrow> masked lf (lresult lf) AND size_sign_bit (lsize lf) \<noteq> 0"

definition lazy_pf :: "LazyFlags \<Rightarrow> bool" where
  "lazy_pf lf \<longleftrightarrow> count_ones8 (ucast (masked lf (lresult lf))) mod 2 = 0"

definition lazy_rhs :: "LazyFlags \<Rightarrow> u64" where
  "lazy_rhs lf =
     (case lop lf of
        LAdc \<Rightarrow> add_rhs lf
      | LSbb \<Rightarrow> add_rhs lf
      | LAdd \<Rightarrow> masked lf (op2 lf)
      | LSub \<Rightarrow> masked lf (op2 lf)
      | _ \<Rightarrow> 0)"

definition lazy_af :: "LazyFlags \<Rightarrow> bool" where
  "lazy_af lf =
     (if \<not> is_active lf then False
      else
        let a = masked lf (op1 lf);
            b = lazy_rhs lf;
            r = masked lf (lresult lf)
        in (a XOR b XOR r) AND 0x10 \<noteq> 0)"

definition lazy_of :: "LazyFlags \<Rightarrow> bool" where
  "lazy_of lf =
     (if \<not> is_active lf then False
      else
        let sign = size_sign_bit (lsize lf);
            a = masked lf (op1 lf);
            b = lazy_rhs lf;
            r = masked lf (lresult lf)
        in case lop lf of
             LAdd \<Rightarrow> (a XOR r) AND (b XOR r) AND sign \<noteq> 0
           | LAdc \<Rightarrow> (a XOR r) AND (b XOR r) AND sign \<noteq> 0
           | LSub \<Rightarrow> (a XOR b) AND (a XOR r) AND sign \<noteq> 0
           | LSbb \<Rightarrow> (a XOR b) AND (a XOR r) AND sign \<noteq> 0
           | LLogic \<Rightarrow> False
           | LNone \<Rightarrow> False)"

section \<open>Registers\<close>

text \<open>The registers that the sources name, grouped by the arms of \<^verbatim>\<open>gpr_info\<close>.\<close>

datatype Gpr8 = AL | CL | DL | BL | AH | CH | DH | BH | SPL | BPL | SIL | DIL | R8L | R9L | R10L | R11L | R12L | R13L | R14L | R15L
datatype Gpr16 = AX | CX | DX | BX | SP | BP | SI | DI | R8W | R9W | R10W | R11W | R12W | R13W | R14W | R15W
datatype Gpr32 = EAX | ECX | EDX | EBX | ESP | EBP | ESI | EDI | R8D | R9D | R10D | R11D | R12D | R13D | R14D | R15D
datatype Gpr64 = RAX | RCX | RDX | RBX | RSP | RBP | RSI | RDI | R8 | R9 | R10 | R11 | R12 | R13 | R14 | R15
datatype SegReg = ES | CS | SS | DS | FS | GS
datatype CtrlReg = CR0 | CR2 | CR3 | CR4 | CR8 | DR0 | DR1 | DR2 | DR3 | DR6 | DR7

datatype Register = NoReg | Reg8 Gpr8 | Reg16 Gpr16 | Reg32 Gpr32 | Reg64 Gpr64 | Seg SegReg | RIP | EIP | Ctrl CtrlReg | OtherReg nat

fun gpr8_info :: "Gpr8 \<Rightarrow> nat \<times> bool" where
  "gpr8_info AL = (0, False)" | "gpr8_info CL = (1, False)" | "gpr8_info DL = (2, False)" | "gpr8_info BL = (3, False)"
| "gpr8_info AH = (0, True)" | "gpr8_info CH = (1, True)" | "gpr8_info DH = (2, True)" | "gpr8_info BH = (3, True)"
| "gpr8_info SPL = (4, False)" | "gpr8_info BPL = (5, False)" | "gpr8_info SIL = (6, False)" | "gpr8_info DIL = (7, False)"
| "gpr8_info R8L = (8, False)" | "gpr8_info R9L = (9, False)" | "gpr8_info R10L = (10, False)" | "gpr8_info R11L = (11, False)"
| "gpr8_info R12L = (12, False)" | "gpr8_info R13L = (13, False)" | "gpr8_info R14L = (14, False)" | "gpr8_info R15L = (15, False)"

fun gpr16_index :: "Gpr16 \<Rightarrow> nat" where
  "gpr16_index AX = 0" | "gpr16_index CX = 1" | "gpr16_index DX = 2" | "gpr16_index BX = 3"
| "gpr16_index SP = 4" | "gpr16_index BP = 5" | "gpr16_index SI = 6" | "gpr16_index DI = 7"
| "gpr16_index R8W = 8" | "gpr16_index R9W = 9" | "gpr16_index R10W = 10" | "gpr16_index R11W = 11"
| "gpr16_index R12W = 12" | "gpr16_index R13W = 13" | "gpr16_index R14W = 14" | "gpr16_index R15W = 15"

fun gpr32_index :: "Gpr32 \<Rightarrow> nat" where
  "gpr32_index EAX = 0" | "gpr32_index ECX = 1" | "gpr32_index EDX = 2" | "gpr32_index EBX = 3"
| "gpr32_index ESP = 4" | "gpr32_index EBP = 5" | "gpr32_index ESI = 6" | "gpr32_index EDI = 7"
| "gpr32_index R8D = 8" | "gpr32_index R9D = 9" | "gpr32_index R10D = 10" | "gpr32_index R11D = 11"
| "gpr32_index R12D = 12" | "gpr32_index R13D = 13" | "gpr32_index R14D = 14" | "gpr32_index R15D = 15"

fun gpr64_index :: "Gpr64 \<Rightarrow> nat" where
  "gpr64_index RAX = 0" | "gpr64_index RCX = 1" | "gpr64_index RDX = 2" | "gpr64_index RBX = 3"
| "gpr64_index RSP = 4" | "gpr64_index RBP = 5" | "gpr64_index RSI = 6" | "gpr64_index RDI = 7"
| "gpr64_index R8 = 8" | "gpr64_index R9 = 9" | "gpr64_index R10 = 10" | "gpr64_index R11 = 11"
| "gpr64_index R12 = 12" | "gpr64_index R13 = 13" | "gpr64_index R14 = 14" | "gpr64_index R15 = 15"

fun gpr_info :: "Register \<Rightarrow> (nat \<times> nat \<times> bool) option" where
  "gpr_info (Reg8 g) = Some (fst (gpr8_info g), 8, snd (gpr8_info g))"
| "gpr_info (Reg16 g) = Some (gpr16_index g, 16, False)"
| "gpr_info (Reg32 g) = Some (gpr32_index g, 32, False)"
| "gpr_info (Reg64 g) = Some (gpr64_index g, 64, False)"
| "gpr_info _ = None"

text \<open>\<^term>\<open>None\<close> is the \<^verbatim>\<open>unreachable!\<close> of an index that is no register.\<close>

definition gpr8_mapping :: "nat \<Rightarrow> bool \<Rightarrow> (nat \<times> nat) option" where
  "gpr8_mapping index rex_present =
     (if index \<le> 3 then Some (index, 0)
      else if index \<le> 7 then (if rex_present then Some (index, 0) else Some (index - 4, 8))
      else if index \<le> 15 then Some (index, 0)
      else None)"

section \<open>Segments, modes and the state\<close>

definition SEG_ACCESS_L :: u32 where "SEG_ACCESS_L = push_bit 9 1"
definition SEG_ACCESS_DB :: u32 where "SEG_ACCESS_DB = push_bit 10 1"
definition SEG_ACCESS_UNUSABLE :: u32 where "SEG_ACCESS_UNUSABLE = push_bit 16 1"
definition SEG_ACCESS_PRESENT :: u32 where "SEG_ACCESS_PRESENT = push_bit 7 1"

record Segment =
  selector :: u16
  seg_base :: u64
  seg_limit :: u32
  seg_access :: u32

definition Segment_default :: Segment where
  "Segment_default = \<lparr> selector = 0, seg_base = 0, seg_limit = 0, seg_access = 0 \<rparr>"

definition seg_typ :: "Segment \<Rightarrow> u8" where "seg_typ sg = ucast (seg_access sg AND 0xF)"
definition seg_s :: "Segment \<Rightarrow> bool" where "seg_s sg \<longleftrightarrow> seg_access sg AND push_bit 4 1 \<noteq> 0"
definition seg_dpl :: "Segment \<Rightarrow> u8" where "seg_dpl sg = ucast (drop_bit 5 (seg_access sg) AND 3)"
definition seg_is_present :: "Segment \<Rightarrow> bool" where "seg_is_present sg \<longleftrightarrow> seg_access sg AND SEG_ACCESS_PRESENT \<noteq> 0"
definition seg_is_unusable :: "Segment \<Rightarrow> bool" where "seg_is_unusable sg \<longleftrightarrow> seg_access sg AND SEG_ACCESS_UNUSABLE \<noteq> 0"
definition seg_is_code :: "Segment \<Rightarrow> bool" where "seg_is_code sg \<longleftrightarrow> seg_s sg \<and> seg_typ sg AND 8 \<noteq> 0"
definition seg_is_data :: "Segment \<Rightarrow> bool" where "seg_is_data sg \<longleftrightarrow> seg_s sg \<and> seg_typ sg AND 8 = 0"
definition code_conforming :: "Segment \<Rightarrow> bool" where "code_conforming sg \<longleftrightarrow> seg_is_code sg \<and> seg_typ sg AND 4 \<noteq> 0"
definition code_readable :: "Segment \<Rightarrow> bool" where "code_readable sg \<longleftrightarrow> seg_is_code sg \<and> seg_typ sg AND 2 \<noteq> 0"
definition data_expand_down :: "Segment \<Rightarrow> bool" where "data_expand_down sg \<longleftrightarrow> seg_is_data sg \<and> seg_typ sg AND 4 \<noteq> 0"
definition data_writable :: "Segment \<Rightarrow> bool" where "data_writable sg \<longleftrightarrow> seg_is_data sg \<and> seg_typ sg AND 2 \<noteq> 0"
definition seg_is_long :: "Segment \<Rightarrow> bool" where "seg_is_long sg \<longleftrightarrow> seg_access sg AND SEG_ACCESS_L \<noteq> 0"
definition is_default_32bit :: "Segment \<Rightarrow> bool" where "is_default_32bit sg \<longleftrightarrow> seg_access sg AND SEG_ACCESS_DB \<noteq> 0"
definition seg_rpl :: "Segment \<Rightarrow> u8" where "seg_rpl sg = ucast (selector sg AND 3)"

record SegmentRegs =
  cs :: Segment
  ds :: Segment
  es :: Segment
  fs :: Segment
  gs :: Segment
  ss :: Segment

datatype CpuMode = Real | Protected | Long | Vm86

fun mode_bitness :: "CpuMode \<Rightarrow> nat" where
  "mode_bitness Real = 16" | "mode_bitness Vm86 = 16" | "mode_bitness Protected = 32" | "mode_bitness Long = 64"

fun mode_ip_mask :: "CpuMode \<Rightarrow> u64" where
  "mode_ip_mask Real = 0xFFFF" | "mode_ip_mask Vm86 = 0xFFFF" | "mode_ip_mask Protected = 0xFFFFFFFF" | "mode_ip_mask Long = - 1"

definition CR0_PE :: u64 where "CR0_PE = push_bit 0 1"
definition cpu_CR0_PG :: u64 where "cpu_CR0_PG = push_bit 31 1"
definition cpu_CR4_PAE :: u64 where "cpu_CR4_PAE = push_bit 5 1"
definition cpu_EFER_LME :: u64 where "cpu_EFER_LME = push_bit 8 1"
definition EFER_LMA :: u64 where "EFER_LMA = push_bit 10 1"

record ControlRegs =
  ctl_cr0 :: u64
  ctl_cr2 :: u64
  ctl_cr3 :: u64
  ctl_cr4 :: u64
  ctl_cr8 :: u64

record DescriptorTable =
  dt_limit :: u16
  dt_base :: u64

record DescriptorTables =
  gdtr :: DescriptorTable
  idtr :: DescriptorTable
  ldtr :: Segment
  task_reg :: Segment

record DebugRegs =
  dr :: "u64 list"
  dr6 :: u64
  dr7 :: u64

record MsrState =
  msr_efer :: u64
  msr_star :: u64
  msr_lstar :: u64
  msr_cstar :: u64
  msr_fmask :: u64
  sysenter_cs :: u64
  sysenter_eip :: u64
  sysenter_esp :: u64
  msr_fs_base :: u64
  msr_gs_base :: u64
  kernel_gs_base :: u64
  apic_base :: u64
  tsc :: u64
  tsc_aux :: u32

definition MsrState_default :: MsrState where
  "MsrState_default =
     \<lparr> msr_efer = 0, msr_star = 0, msr_lstar = 0, msr_cstar = 0, msr_fmask = 0, sysenter_cs = 0, sysenter_eip = 0, sysenter_esp = 0,
       msr_fs_base = 0, msr_gs_base = 0, kernel_gs_base = 0, apic_base = 0xFEE00000 OR push_bit 11 1 OR push_bit 8 1, tsc = 0, tsc_aux = 0 \<rparr>"

text \<open>The x87 and the SSE registers, \<^verbatim>\<open>fpu.rs\<close> and \<^verbatim>\<open>sse_state.rs\<close>.\<close>

record FpuState =
  fcw :: u16
  fsw :: u16
  ftw :: u16
  fpu_top :: u8
  fop :: u16
  fip :: u64
  fdp :: u64
  fcs :: u16
  fds :: u16
  fpu_st :: "u128 list"

definition FpuState_default :: FpuState where
  "FpuState_default =
     \<lparr> fcw = 0x037F, fsw = 0, ftw = 0, fpu_top = 0, fop = 0, fip = 0, fdp = 0, fcs = 0, fds = 0, fpu_st = replicate 8 0 \<rparr>"

definition MXCSR_EXCEPTION_MASK :: u32 where
  "MXCSR_EXCEPTION_MASK = push_bit 7 1 OR push_bit 8 1 OR push_bit 9 1 OR push_bit 10 1 OR push_bit 11 1 OR push_bit 12 1"

record SseState =
  xmm :: "u128 list"
  mxcsr :: u32

definition SseState_default :: SseState where
  "SseState_default = \<lparr> xmm = replicate 16 0, mxcsr = MXCSR_EXCEPTION_MASK \<rparr>"

record CpuState =
  gpr :: "u64 list"
  rip :: u64
  rflags :: u64
  lazy_flags :: LazyFlags
  cpu_mode :: CpuMode
  halted :: bool
  pending_bios_int :: u8
  pending_bios_int_valid :: bool
  segments :: SegmentRegs
  tables :: DescriptorTables
  control :: ControlRegs
  debug :: DebugRegs
  msr :: MsrState
  fpu :: FpuState
  sse :: SseState
  a20_enabled :: bool
  irq13_pending :: bool

definition CpuState_default :: CpuState where
  "CpuState_default =
     \<lparr> gpr = replicate 16 0, rip = 0, rflags = RFLAGS_RESERVED1, lazy_flags = LazyFlags_default, cpu_mode = Real, halted = False,
       pending_bios_int = 0, pending_bios_int_valid = False,
       segments = \<lparr> cs = Segment_default, ds = Segment_default, es = Segment_default, fs = Segment_default,
                    gs = Segment_default, ss = Segment_default \<rparr>,
       tables = \<lparr> gdtr = \<lparr> dt_limit = 0, dt_base = 0 \<rparr>, idtr = \<lparr> dt_limit = 0, dt_base = 0 \<rparr>, ldtr = Segment_default, task_reg = Segment_default \<rparr>,
       control = \<lparr> ctl_cr0 = 0, ctl_cr2 = 0, ctl_cr3 = 0, ctl_cr4 = 0, ctl_cr8 = 0 \<rparr>,
       debug = \<lparr> dr = replicate 4 0, dr6 = 0, dr7 = 0 \<rparr>,
       msr = MsrState_default, fpu = FpuState_default, sse = SseState_default,
       a20_enabled = True, irq13_pending = False \<rparr>"

definition map_cs :: "(Segment \<Rightarrow> Segment) \<Rightarrow> CpuState \<Rightarrow> CpuState" where
  "map_cs f s = s\<lparr>segments := (segments s)\<lparr>cs := f (cs (segments s))\<rparr>\<rparr>"

definition CpuState_new :: "CpuMode \<Rightarrow> CpuState" where
  "CpuState_new m =
     (let s = CpuState_default\<lparr>cpu_mode := m\<rparr>
      in case m of
           Real \<Rightarrow> map_cs (seg_access_update (\<lambda>a. a AND NOT (SEG_ACCESS_DB OR SEG_ACCESS_L))) s
         | Vm86 \<Rightarrow> map_cs (seg_access_update (\<lambda>a. a AND NOT (SEG_ACCESS_DB OR SEG_ACCESS_L))) s
         | Protected \<Rightarrow> map_cs (seg_access_update (\<lambda>a. (a OR SEG_ACCESS_DB) AND NOT SEG_ACCESS_L)) s
         | Long \<Rightarrow> map_cs (seg_access_update (\<lambda>a. a OR SEG_ACCESS_L OR SEG_ACCESS_DB)) s)"

definition set_pending_bios_int :: "CpuState \<Rightarrow> u8 \<Rightarrow> CpuState" where
  "set_pending_bios_int s vector = s\<lparr>pending_bios_int := vector, pending_bios_int_valid := True\<rparr>"

definition take_pending_bios_int :: "CpuState \<Rightarrow> u8 option \<times> CpuState" where
  "take_pending_bios_int s =
     (if pending_bios_int_valid s then (Some (pending_bios_int s), s\<lparr>pending_bios_int_valid := False\<rparr>) else (None, s))"

definition clear_pending_bios_int :: "CpuState \<Rightarrow> CpuState" where
  "clear_pending_bios_int s = s\<lparr>pending_bios_int_valid := False\<rparr>"

definition bitness :: "CpuState \<Rightarrow> nat" where
  "bitness s =
     (case cpu_mode s of
        Long \<Rightarrow> 64
      | Protected \<Rightarrow> if is_default_32bit (cs (segments s)) then 32 else 16
      | _ \<Rightarrow> 16)"

definition cpl :: "CpuState \<Rightarrow> u8" where
  "cpl s = (case cpu_mode s of Real \<Rightarrow> 0 | Vm86 \<Rightarrow> 3 | _ \<Rightarrow> seg_rpl (cs (segments s)))"

definition update_mode :: "CpuState \<Rightarrow> CpuMode \<times> CpuState" where
  "update_mode s =
     (if ctl_cr0 (control s) AND CR0_PE = 0 then
        (Real, s\<lparr>msr := (msr s)\<lparr>msr_efer := msr_efer (msr s) AND NOT EFER_LMA\<rparr>, cpu_mode := Real\<rparr>)
      else
        let ia32e_enabled = (msr_efer (msr s) AND cpu_EFER_LME \<noteq> 0 \<and> ctl_cr0 (control s) AND cpu_CR0_PG \<noteq> 0 \<and>
                             ctl_cr4 (control s) AND cpu_CR4_PAE \<noteq> 0);
            efer = (if ia32e_enabled then msr_efer (msr s) OR EFER_LMA else msr_efer (msr s) AND NOT EFER_LMA);
            s = s\<lparr>msr := (msr s)\<lparr>msr_efer := efer\<rparr>\<rparr>;
            m = (if ia32e_enabled \<and> seg_is_long (cs (segments s)) then Long
                 else if rflags s AND RFLAGS_VM \<noteq> 0 then Vm86 else Protected)
        in (m, s\<lparr>cpu_mode := m\<rparr>))"

definition ip_mask :: "CpuState \<Rightarrow> u64" where
  "ip_mask s =
     (case cpu_mode s of
        Long \<Rightarrow> - 1
      | Protected \<Rightarrow> if is_default_32bit (cs (segments s)) then 0xFFFFFFFF else 0xFFFF
      | _ \<Rightarrow> 0xFFFF)"

definition get_ip :: "CpuState \<Rightarrow> u64" where
  "get_ip s = rip s AND ip_mask s"

definition set_ip :: "CpuState \<Rightarrow> u64 \<Rightarrow> CpuState" where
  "set_ip s ip = s\<lparr>rip := ip AND ip_mask s\<rparr>"

definition advance_ip :: "CpuState \<Rightarrow> u64 \<Rightarrow> CpuState" where
  "advance_ip s delta = s\<lparr>rip := (get_ip s + delta) AND ip_mask s\<rparr>"

section \<open>Accessors of the general registers\<close>

text \<open>An index above 15 panics in the source; the callers pass register numbers.\<close>

definition read_gpr64 :: "CpuState \<Rightarrow> nat \<Rightarrow> u64" where "read_gpr64 s index = gpr s ! index"
definition write_gpr64 :: "CpuState \<Rightarrow> nat \<Rightarrow> u64 \<Rightarrow> CpuState" where "write_gpr64 s index v = s\<lparr>gpr := (gpr s)[index := v]\<rparr>"
definition read_gpr32 :: "CpuState \<Rightarrow> nat \<Rightarrow> u32" where "read_gpr32 s index = ucast (gpr s ! index)"
definition write_gpr32 :: "CpuState \<Rightarrow> nat \<Rightarrow> u32 \<Rightarrow> CpuState" where
  "write_gpr32 s index v = s\<lparr>gpr := (gpr s)[index := ucast v]\<rparr>"
definition read_gpr16 :: "CpuState \<Rightarrow> nat \<Rightarrow> u16" where "read_gpr16 s index = ucast (gpr s ! index)"
definition write_gpr16 :: "CpuState \<Rightarrow> nat \<Rightarrow> u16 \<Rightarrow> CpuState" where
  "write_gpr16 s index v = s\<lparr>gpr := (gpr s)[index := (gpr s ! index AND NOT 0xFFFF) OR ucast v]\<rparr>"

definition read_gpr8 :: "CpuState \<Rightarrow> nat \<Rightarrow> bool \<Rightarrow> u8 option" where
  "read_gpr8 s index rex_present =
     (case gpr8_mapping index rex_present of
        None \<Rightarrow> None
      | Some (base, shift) \<Rightarrow> Some (ucast (drop_bit shift (gpr s ! base) AND 0xFF)))"

definition write_gpr8 :: "CpuState \<Rightarrow> nat \<Rightarrow> bool \<Rightarrow> u8 \<Rightarrow> CpuState option" where
  "write_gpr8 s index rex_present v =
     (case gpr8_mapping index rex_present of
        None \<Rightarrow> None
      | Some (base, shift) \<Rightarrow>
          let msk = NOT (push_bit shift 0xFF);
              old = gpr s ! base AND msk
          in Some (s\<lparr>gpr := (gpr s)[base := old OR push_bit shift (ucast v)]\<rparr>))"

section \<open>Accessors of the flags\<close>

definition get_flag :: "CpuState \<Rightarrow> u64 \<Rightarrow> bool" where
  "get_flag s msk =
     (if is_active (lazy_flags s) \<and> msk = RFLAGS_CF then lazy_cf (lazy_flags s)
      else if is_active (lazy_flags s) \<and> msk = RFLAGS_PF then lazy_pf (lazy_flags s)
      else if is_active (lazy_flags s) \<and> msk = RFLAGS_AF then lazy_af (lazy_flags s)
      else if is_active (lazy_flags s) \<and> msk = RFLAGS_ZF then lazy_zf (lazy_flags s)
      else if is_active (lazy_flags s) \<and> msk = RFLAGS_SF then lazy_sf (lazy_flags s)
      else if is_active (lazy_flags s) \<and> msk = RFLAGS_OF then lazy_of (lazy_flags s)
      else rflags s AND msk \<noteq> 0)"

definition rflags_snapshot :: "CpuState \<Rightarrow> u64" where
  "rflags_snapshot s =
     (if \<not> is_active (lazy_flags s) then rflags s OR RFLAGS_RESERVED1
      else
        let r = rflags s OR RFLAGS_RESERVED1;
            r = set_bit_to r RFLAGS_CF (lazy_cf (lazy_flags s));
            r = set_bit_to r RFLAGS_PF (lazy_pf (lazy_flags s));
            r = set_bit_to r RFLAGS_AF (lazy_af (lazy_flags s));
            r = set_bit_to r RFLAGS_ZF (lazy_zf (lazy_flags s));
            r = set_bit_to r RFLAGS_SF (lazy_sf (lazy_flags s));
            r = set_bit_to r RFLAGS_OF (lazy_of (lazy_flags s))
        in r)"

definition commit_lazy_flags :: "CpuState \<Rightarrow> CpuState" where
  "commit_lazy_flags s =
     (if \<not> is_active (lazy_flags s) then s\<lparr>rflags := rflags s OR RFLAGS_RESERVED1\<rparr>
      else s\<lparr>rflags := rflags_snapshot s, lazy_flags := LazyFlags_default\<rparr>)"

definition set_flag :: "CpuState \<Rightarrow> u64 \<Rightarrow> bool \<Rightarrow> CpuState" where
  "set_flag s msk v =
     (let s = commit_lazy_flags s;
          s = (if v then s\<lparr>rflags := rflags s OR msk\<rparr> else s\<lparr>rflags := rflags s AND NOT msk\<rparr>)
      in s\<lparr>rflags := rflags s OR RFLAGS_RESERVED1\<rparr>)"

definition set_rflags :: "CpuState \<Rightarrow> u64 \<Rightarrow> CpuState" where
  "set_rflags s v =
     (let s = s\<lparr>rflags := v OR RFLAGS_RESERVED1\<rparr>
      in if is_active (lazy_flags s) then s\<lparr>lazy_flags := LazyFlags_default\<rparr> else s)"

section \<open>Registers by name\<close>

fun segment_of :: "SegReg \<Rightarrow> SegmentRegs \<Rightarrow> Segment" where
  "segment_of ES r = es r" | "segment_of CS r = cs r" | "segment_of SS r = ss r"
| "segment_of DS r = ds r" | "segment_of FS r = fs r" | "segment_of GS r = gs r"

definition seg_base_reg :: "CpuState \<Rightarrow> Register \<Rightarrow> u64" where
  "seg_base_reg s reg =
     (case cpu_mode s of
        Long \<Rightarrow> (case reg of Seg FS \<Rightarrow> msr_fs_base (msr s) | Seg GS \<Rightarrow> msr_gs_base (msr s) | _ \<Rightarrow> 0)
      | _ \<Rightarrow> (case reg of Seg g \<Rightarrow> seg_base (segment_of g (segments s)) | _ \<Rightarrow> 0))"

definition read_reg :: "CpuState \<Rightarrow> Register \<Rightarrow> u64" where
  "read_reg s reg =
     (case gpr_info reg of
        Some (idx, bits, high8) \<Rightarrow>
          let full = gpr s ! idx
          in if bits = 8 \<and> \<not> high8 then full AND 0xFF
             else if bits = 8 then drop_bit 8 full AND 0xFF
             else if bits = 16 then full AND 0xFFFF
             else if bits = 32 then full AND 0xFFFFFFFF
             else if bits = 64 then full
             else 0
      | None \<Rightarrow>
          (case reg of
             Seg g \<Rightarrow> ucast (selector (segment_of g (segments s)))
           | RIP \<Rightarrow> get_ip s
           | EIP \<Rightarrow> get_ip s AND 0xFFFFFFFF
           | _ \<Rightarrow> 0))"

definition write_segment_register :: "CpuMode \<Rightarrow> Segment \<Rightarrow> u16 \<Rightarrow> Segment" where
  "write_segment_register m sg sel =
     (let sg = sg\<lparr>selector := sel\<rparr>
      in if m = Real \<or> m = Vm86 then sg\<lparr>seg_base := push_bit 4 (ucast sel), seg_limit := 0xFFFF, seg_access := 0\<rparr> else sg)"

fun update_segment :: "SegReg \<Rightarrow> (Segment \<Rightarrow> Segment) \<Rightarrow> SegmentRegs \<Rightarrow> SegmentRegs" where
  "update_segment ES f r = r\<lparr>es := f (es r)\<rparr>" | "update_segment CS f r = r\<lparr>cs := f (cs r)\<rparr>"
| "update_segment SS f r = r\<lparr>ss := f (ss r)\<rparr>" | "update_segment DS f r = r\<lparr>ds := f (ds r)\<rparr>"
| "update_segment FS f r = r\<lparr>fs := f (fs r)\<rparr>" | "update_segment GS f r = r\<lparr>gs := f (gs r)\<rparr>"

definition write_reg :: "CpuState \<Rightarrow> Register \<Rightarrow> u64 \<Rightarrow> CpuState" where
  "write_reg s reg v =
     (case gpr_info reg of
        Some (idx, bits, high8) \<Rightarrow>
          let cur = gpr s ! idx
          in s\<lparr>gpr := (gpr s)[idx :=
               (if bits = 64 then v
                else if bits = 32 then v AND 0xFFFFFFFF
                else if bits = 16 then (cur AND NOT 0xFFFF) OR (v AND 0xFFFF)
                else if bits = 8 \<and> \<not> high8 then (cur AND NOT 0xFF) OR (v AND 0xFF)
                else if bits = 8 then (cur AND NOT 0xFF00) OR push_bit 8 (v AND 0xFF)
                else cur)]\<rparr>
      | None \<Rightarrow>
          (case reg of
             Seg g \<Rightarrow> s\<lparr>segments := update_segment g (\<lambda>sg. write_segment_register (cpu_mode s) sg (ucast v)) (segments s)\<rparr>
           | RIP \<Rightarrow> set_ip s v
           | EIP \<Rightarrow> set_ip s v
           | _ \<Rightarrow> s))"

definition stack_addr_bits :: "CpuState \<Rightarrow> nat" where
  "stack_addr_bits s =
     (case cpu_mode s of
        Long \<Rightarrow> 64
      | Protected \<Rightarrow> if is_default_32bit (ss (segments s)) then 32 else 16
      | _ \<Rightarrow> 16)"

definition stack_ptr_reg :: "CpuState \<Rightarrow> Register" where
  "stack_ptr_reg s =
     (if stack_addr_bits s = 16 then Reg16 SP else if stack_addr_bits s = 32 then Reg32 ESP else Reg64 RSP)"

definition stack_ptr :: "CpuState \<Rightarrow> u64" where
  "stack_ptr s = read_reg s (stack_ptr_reg s) AND mask_bits (stack_addr_bits s)"

definition set_stack_ptr :: "CpuState \<Rightarrow> u64 \<Rightarrow> CpuState" where
  "set_stack_ptr s v = write_reg s (stack_ptr_reg s) (v AND mask_bits (stack_addr_bits s))"

definition apply_a20 :: "CpuState \<Rightarrow> u64 \<Rightarrow> u64" where
  "apply_a20 s addr =
     (let addr = (if cpu_mode s \<noteq> Long then addr AND 0xFFFFFFFF else addr)
      in if \<not> a20_enabled s \<and> (cpu_mode s = Real \<or> cpu_mode s = Vm86) then addr AND NOT (push_bit 20 1) else addr)"

end
