(* ===== verification/CpuAlu.thy ===== *)
theory CpuAlu
  imports CpuState
begin

text \<open>
  The arithmetic of the interpreter on masked 64-bit values, \<^verbatim>\<open>interp/tier0/ops_alu.rs\<close>: results and status flags of
  additions, subtractions, logic, shifts and rotates of 8, 16, 32 and 64 bits; and the helpers
  of \<^verbatim>\<open>interp/alu.rs\<close>, which compute the same flags for the older interpreter.

  The lemmas compare them with arithmetic on integers: carry and overflow are the unsigned and the signed range,
  and the conditions after a comparison are the order of the operands. Lazily evaluated flags are compared with those computed here. Shifts and
  rotates are the subject of theory \<open>CpuShift\<close>.
\<close>

section \<open>Sums and differences\<close>

definition STATUS_FLAGS :: u64 where
  "STATUS_FLAGS = FLAG_CF OR FLAG_OF OR FLAG_SF OR FLAG_ZF OR FLAG_PF OR FLAG_AF"

definition parity8 :: "u8 \<Rightarrow> bool" where
  "parity8 v \<longleftrightarrow> count_ones8 v mod 2 = 0"

definition or_if :: "bool \<Rightarrow> u64 \<Rightarrow> u64 \<Rightarrow> u64" where
  "or_if c msk flags = (if c then flags OR msk else flags)"

definition set_logic_szp :: "u64 \<Rightarrow> u64 \<Rightarrow> nat \<Rightarrow> u64" where
  "set_logic_szp flags res bits =
     (let r = res AND mask_bits bits;
          flags = or_if (r = 0) FLAG_ZF flags;
          flags = or_if (r AND push_bit (bits - 1) 1 \<noteq> 0) FLAG_SF flags
      in or_if (parity8 (ucast r)) FLAG_PF flags)"

definition add_with_flags :: "CpuState \<Rightarrow> u64 \<Rightarrow> u64 \<Rightarrow> u64 \<Rightarrow> nat \<Rightarrow> u64 \<times> u64" where
  "add_with_flags s a b cin bits =
     (let msk = mask_bits bits;
          a_m = a AND msk;
          b_m = b AND msk;
          (res, cf) =
            (if bits < 64 then let sum = a_m + b_m + cin in (sum AND msk, sum > msk)
             else let full = ucast a_m + ucast b_m + ucast cin :: u128 in (ucast full AND msk, full > ucast msk));
          sign_mask = push_bit (bits - 1) 1;
          ov = ((a_m XOR res) AND (b_m XOR res) AND sign_mask \<noteq> 0);
          af = ((a_m XOR b_m XOR res) AND 0x10 \<noteq> 0);
          flags = rflags_snapshot s AND NOT STATUS_FLAGS;
          flags = set_logic_szp flags res bits;
          flags = or_if cf FLAG_CF flags;
          flags = or_if ov FLAG_OF flags;
          flags = or_if af FLAG_AF flags
      in (res, flags))"

definition sub_with_flags :: "CpuState \<Rightarrow> u64 \<Rightarrow> u64 \<Rightarrow> u64 \<Rightarrow> nat \<Rightarrow> u64 \<times> u64" where
  "sub_with_flags s a b bin bits =
     (let msk = mask_bits bits;
          a_m = a AND msk;
          b_m = b AND msk;
          (res, cf) =
            (if bits < 64 then let diff = a_m - (b_m + bin) in (diff AND msk, a_m < b_m + bin)
             else
               let subtrahend = ucast b_m + ucast bin :: u128;
                   minuend = ucast a_m :: u128;
                   full = minuend + push_bit bits 1 - subtrahend
               in (ucast full AND msk, minuend < subtrahend));
          sign_mask = push_bit (bits - 1) 1;
          ov = ((a_m XOR b_m) AND (a_m XOR res) AND sign_mask \<noteq> 0);
          af = ((a_m XOR b_m XOR res) AND 0x10 \<noteq> 0);
          flags = rflags_snapshot s AND NOT STATUS_FLAGS;
          flags = set_logic_szp flags res bits;
          flags = or_if cf FLAG_CF flags;
          flags = or_if ov FLAG_OF flags;
          flags = or_if af FLAG_AF flags
      in (res, flags))"

definition neg_with_flags :: "CpuState \<Rightarrow> u64 \<Rightarrow> nat \<Rightarrow> u64 \<times> u64" where
  "neg_with_flags s v bits =
     (let msk = mask_bits bits;
          v_m = v AND msk;
          res = (NOT v_m + 1) AND msk;
          cf = (v_m \<noteq> 0);
          ov = (v_m = push_bit (bits - 1) 1);
          af = (v_m AND 0xF \<noteq> 0);
          flags = rflags_snapshot s AND NOT STATUS_FLAGS;
          flags = set_logic_szp flags res bits;
          flags = or_if cf FLAG_CF flags;
          flags = or_if ov FLAG_OF flags;
          flags = or_if af FLAG_AF flags
      in (res, flags))"

definition logic_flags :: "CpuState \<Rightarrow> u64 \<Rightarrow> nat \<Rightarrow> u64" where
  "logic_flags s res bits = set_logic_szp (rflags_snapshot s AND NOT STATUS_FLAGS) res bits"

section \<open>Shifts and rotates\<close>

text \<open>The sign extension of the low \<open>bits\<close> bits; \<^verbatim>\<open>i128\<close> values are words of that width, read as signed.\<close>

definition sign_ext_to_i128 :: "u64 \<Rightarrow> nat \<Rightarrow> u128" where
  "sign_ext_to_i128 v bits =
     (let v_m = v AND mask_bits bits
      in if bits = 64 then scast v_m
         else
           let sign_bit = push_bit (bits - 1) 1;
               extended = (if v_m AND sign_bit \<noteq> 0 then v_m OR push_bit bits (NOT 0) else v_m)
           in scast extended)"

definition count_mask :: "nat \<Rightarrow> u32" where
  "count_mask bits = (if bits = 64 then 0x3F else 0x1F)"

definition shl :: "u64 \<Rightarrow> u32 \<Rightarrow> nat \<Rightarrow> u64 \<Rightarrow> u64 \<times> u64 option" where
  "shl val count bits old_flags =
     (let msk = mask_bits bits;
          val = val AND msk;
          c = unat (count AND count_mask bits)
      in if c = 0 then (val, None)
         else
           let res = push_bit c val AND msk;
               cf = (if c \<le> bits then drop_bit (bits - c) val AND 1 \<noteq> 0 else False);
               flags = old_flags AND NOT STATUS_FLAGS;
               flags = set_logic_szp flags res bits;
               flags = or_if cf FLAG_CF flags;
               flags = (if c = 1 then or_if ((drop_bit (bits - 1) res AND 1) XOR of_bool cf \<noteq> 0) FLAG_OF flags else flags)
           in (res, Some flags))"

definition shr :: "u64 \<Rightarrow> u32 \<Rightarrow> nat \<Rightarrow> u64 \<Rightarrow> u64 \<times> u64 option" where
  "shr val count bits old_flags =
     (let msk = mask_bits bits;
          c = unat (count AND count_mask bits)
      in if c = 0 then (val AND msk, None)
         else
           let res = drop_bit c (val AND msk);
               cf = (drop_bit (c - 1) val AND 1 \<noteq> 0);
               flags = old_flags AND NOT STATUS_FLAGS;
               flags = set_logic_szp flags res bits;
               flags = or_if cf FLAG_CF flags;
               flags = (if c = 1 then or_if (drop_bit (bits - 1) val AND 1 \<noteq> 0) FLAG_OF flags else flags)
           in (res, Some flags))"

definition sar :: "u64 \<Rightarrow> u32 \<Rightarrow> nat \<Rightarrow> u64 \<Rightarrow> u64 \<times> u64 option" where
  "sar val count bits old_flags =
     (let msk = mask_bits bits;
          c = unat (count AND count_mask bits)
      in if c = 0 then (val AND msk, None)
         else
           let signed = sign_ext_to_i128 val bits;
               res = ucast (signed_drop_bit c signed) AND msk;
               cf = (drop_bit (c - 1) val AND 1 \<noteq> 0);
               flags = old_flags AND NOT STATUS_FLAGS;
               flags = set_logic_szp flags res bits;
               flags = or_if cf FLAG_CF flags
           in (res, Some flags))"

definition rol :: "u64 \<Rightarrow> u32 \<Rightarrow> nat \<Rightarrow> u64 \<Rightarrow> u64 \<times> u64 option" where
  "rol val count bits old_flags =
     (let msk = mask_bits bits;
          val = val AND msk;
          c = unat (count AND count_mask bits)
      in if c = 0 then (val, None)
         else
           let c = c mod bits
           in if c = 0 then (val, None)
              else
                let res = (push_bit c val OR drop_bit (bits - c) val) AND msk;
                    cf = (res AND 1 \<noteq> 0);
                    flags = old_flags AND NOT (FLAG_CF OR FLAG_OF);
                    flags = or_if cf FLAG_CF flags;
                    flags = (if c = 1 then or_if ((drop_bit (bits - 1) res AND 1) XOR of_bool cf \<noteq> 0) FLAG_OF flags else flags)
                in (res, Some flags))"

definition ror :: "u64 \<Rightarrow> u32 \<Rightarrow> nat \<Rightarrow> u64 \<Rightarrow> u64 \<times> u64 option" where
  "ror val count bits old_flags =
     (let msk = mask_bits bits;
          val = val AND msk;
          c = unat (count AND count_mask bits)
      in if c = 0 then (val, None)
         else
           let c = c mod bits
           in if c = 0 then (val, None)
              else
                let res = (drop_bit c val OR push_bit (bits - c) val) AND msk;
                    cf = (drop_bit (bits - 1) res AND 1 \<noteq> 0);
                    flags = old_flags AND NOT (FLAG_CF OR FLAG_OF);
                    flags = or_if cf FLAG_CF flags;
                    flags = (if c = 1 then or_if ((drop_bit (bits - 1) res AND 1) XOR (drop_bit (bits - 2) res AND 1) \<noteq> 0) FLAG_OF flags
                             else flags)
                in (res, Some flags))"

definition rcl :: "u64 \<Rightarrow> u32 \<Rightarrow> nat \<Rightarrow> u64 \<Rightarrow> u64 \<times> u64 option" where
  "rcl val count bits old_flags =
     (let cf_in = (old_flags AND FLAG_CF \<noteq> 0);
          width = bits + 1;
          c = unat (count AND count_mask bits)
      in if c = 0 then (val AND mask_bits bits, None)
         else
           let c = c mod width
           in if c = 0 then (val AND mask_bits bits, None)
              else
                let mask_ext = push_bit width 1 - 1 :: u128;
                    ext = ucast (val AND mask_bits bits) OR push_bit bits (of_bool cf_in) :: u128;
                    ext = (push_bit c ext OR drop_bit (width - c) ext) AND mask_ext;
                    res = ucast ext AND mask_bits bits;
                    cf = (drop_bit bits ext AND 1 \<noteq> 0);
                    flags = old_flags AND NOT (FLAG_CF OR FLAG_OF);
                    flags = or_if cf FLAG_CF flags;
                    flags = (if c = 1 then or_if ((drop_bit (bits - 1) res AND 1) XOR of_bool cf \<noteq> 0) FLAG_OF flags else flags)
                in (res, Some flags))"

definition rcr :: "u64 \<Rightarrow> u32 \<Rightarrow> nat \<Rightarrow> u64 \<Rightarrow> u64 \<times> u64 option" where
  "rcr val count bits old_flags =
     (let cf_in = (old_flags AND FLAG_CF \<noteq> 0);
          width = bits + 1;
          c = unat (count AND count_mask bits)
      in if c = 0 then (val AND mask_bits bits, None)
         else
           let c = c mod width
           in if c = 0 then (val AND mask_bits bits, None)
              else
                let mask_ext = push_bit width 1 - 1 :: u128;
                    ext = ucast (val AND mask_bits bits) OR push_bit bits (of_bool cf_in) :: u128;
                    ext = (drop_bit c ext OR push_bit (width - c) ext) AND mask_ext;
                    res = ucast ext AND mask_bits bits;
                    cf = (drop_bit bits ext AND 1 \<noteq> 0);
                    flags = old_flags AND NOT (FLAG_CF OR FLAG_OF);
                    flags = or_if cf FLAG_CF flags;
                    flags = (if c = 1 then or_if ((drop_bit (bits - 1) res AND 1) XOR (drop_bit (bits - 2) res AND 1) \<noteq> 0) FLAG_OF flags
                             else flags)
                in (res, Some flags))"

section \<open>Masked values as integers\<close>

text \<open>The operand widths of the instruction set.\<close>

definition op_width :: "nat \<Rightarrow> bool" where
  "op_width n \<longleftrightarrow> n = 8 \<or> n = 16 \<or> n = 32 \<or> n = 64"

lemma op_width_bounds: "op_width n \<Longrightarrow> 8 \<le> n" "op_width n \<Longrightarrow> n \<le> 64"
  by (auto simp: op_width_def)

lemma mask_bits_eq: "mask_bits n = mask n"
  by (auto simp: mask_bits_def mask_eq_decr_exp push_bit_of_1 exp_eq_zero_iff)

lemma and_mask_bits [simp]: "x AND mask_bits n = take_bit n x"
  by (simp add: mask_bits_eq take_bit_eq_mask)

lemma take_bit_64 [simp]: "take_bit 64 x = x" for x :: u64
  by (rule bit_word_eqI) (simp add: bit_take_bit_iff)

text \<open>The unsigned and the signed value of the low \<open>n\<close> bits.\<close>

definition uval :: "nat \<Rightarrow> u64 \<Rightarrow> int" where
  "uval n x = uint x mod 2 ^ n"

definition sval :: "nat \<Rightarrow> u64 \<Rightarrow> int" where
  "sval n x = (if bit x (n - 1) then uval n x - 2 ^ n else uval n x)"

lemma uint_take_bit: "uint (take_bit n x) = uval n x" for x :: u64
  by (simp add: uval_def unsigned_take_bit_eq flip: take_bit_eq_mod)

lemma uval_range: "0 \<le> uval n x" "uval n x < 2 ^ n"
  by (simp_all add: uval_def)

lemma uval_64 [simp]: "uval 64 x = uint x"
  using uint_bounded [of x] by (simp add: uval_def mod_pos_pos_trivial)

lemma bit_top_iff: "0 < n \<Longrightarrow> n \<le> 64 \<Longrightarrow> bit x (n - 1) \<longleftrightarrow> 2 ^ (n - 1) \<le> uval n x" for x :: u64
proof -
  assume n: "0 < n" "n \<le> 64"
  have "bit x (n - 1) \<longleftrightarrow> bit (take_bit n x) (n - 1)" using n by (simp add: bit_take_bit_iff)
  also have "\<dots> \<longleftrightarrow> bit (uval n x) (n - 1)" by (simp add: bit_uint_iff flip: uint_take_bit) (use n in \<open>auto simp: bit_take_bit_iff\<close>)
  also have "\<dots> \<longleftrightarrow> odd (uval n x div 2 ^ (n - 1))" by (simp add: bit_iff_odd)
  also have "\<dots> \<longleftrightarrow> 2 ^ (n - 1) \<le> uval n x"
  proof (cases "2 ^ (n - 1) \<le> uval n x")
    case True
    have "uval n x < 2 * 2 ^ (n - 1)" using uval_range(2) [of n x] n by (metis power_eq_if not_gr0 mult.commute)
    then have "uval n x div 2 ^ (n - 1) = 1" using True by (intro int_div_pos_eq [where r = "uval n x - 2 ^ (n - 1)"]) auto
    then show ?thesis using True by simp
  next
    case False
    then show ?thesis using uval_range(1) [of n x] by (simp add: div_pos_pos_trivial)
  qed
  finally show ?thesis .
qed

lemma sval_range: "0 < n \<Longrightarrow> n \<le> 64 \<Longrightarrow> - (2 ^ (n - 1)) \<le> sval n x" "0 < n \<Longrightarrow> n \<le> 64 \<Longrightarrow> sval n x < 2 ^ (n - 1)"
proof -
  assume n: "0 < n" "n \<le> 64"
  have "(2 :: int) ^ n = 2 * 2 ^ (n - 1)" using n by (simp add: power_eq_if)
  then show "- (2 ^ (n - 1)) \<le> sval n x" "sval n x < 2 ^ (n - 1)"
    using uval_range [of n x] bit_top_iff [OF n, of x] by (auto simp: sval_def)
qed

lemma uval_cong: "take_bit n x = take_bit n y \<Longrightarrow> uval n x = uval n y"
  using uint_take_bit by metis

lemma uval_take_bit [simp]: "uval n (take_bit n x) = uval n x" "0 < n \<Longrightarrow> sval n (take_bit n x) = sval n x"
proof -
  show u: "uval n (take_bit n x) = uval n x" by (rule uval_cong) simp
  show "sval n (take_bit n x) = sval n x" if "0 < n" using that u by (simp add: sval_def bit_take_bit_iff)
qed

section \<open>Reading flags\<close>

lemma bit_or_if: "bit (or_if c msk f) i \<longleftrightarrow> bit f i \<or> c \<and> bit msk i"
  by (simp add: or_if_def bit_or_iff)

lemma bit_STATUS_FLAGS: "bit STATUS_FLAGS i \<longleftrightarrow> i \<in> {0, 2, 4, 6, 7, 11}"
  unfolding STATUS_FLAGS_def rflag_defs bit_or_iff bit_flag by auto

lemma bit_RFLAGS:
  "bit RFLAGS_CF i \<longleftrightarrow> i = 0" "bit RFLAGS_PF i \<longleftrightarrow> i = 2" "bit RFLAGS_AF i \<longleftrightarrow> i = 4" "bit RFLAGS_ZF i \<longleftrightarrow> i = 6"
  "bit RFLAGS_SF i \<longleftrightarrow> i = 7" "bit RFLAGS_OF i \<longleftrightarrow> i = 11" "bit RFLAGS_RESERVED1 i \<longleftrightarrow> i = 1"
  unfolding rflag_defs bit_flag by auto

lemmas flag_bit_simps = bit_or_if bit_STATUS_FLAGS bit_RFLAGS bit_or_iff bit_and_iff bit_not_iff

text \<open>The flags that follow from the result alone, and the bits that stay.\<close>

definition szp_ok :: "u64 \<Rightarrow> u64 \<Rightarrow> nat \<Rightarrow> bool" where
  "szp_ok fl res n \<longleftrightarrow> (bit fl 6 \<longleftrightarrow> uval n res = 0) \<and> (bit fl 7 \<longleftrightarrow> sval n res < 0) \<and> (bit fl 2 \<longleftrightarrow> even (count_ones8 (ucast res)))"

definition other_flags_kept :: "u64 \<Rightarrow> u64 \<Rightarrow> bool" where
  "other_flags_kept fl old \<longleftrightarrow> (\<forall>i. i \<notin> {0, 2, 4, 6, 7, 11} \<longrightarrow> bit fl i = bit old i)"

lemma set_logic_szp_bits:
  assumes "op_width n" "take_bit n res = res"
  shows "bit (set_logic_szp (old AND NOT STATUS_FLAGS) res n) i \<longleftrightarrow>
    (if i = 6 then uval n res = 0 else if i = 7 then sval n res < 0 else if i = 2 then even (count_ones8 (ucast res))
     else i \<notin> {0, 4, 11} \<and> bit old i)"
proof -
  have n: "0 < n" "n \<le> 64" using op_width_bounds [OF assms(1)] by auto
  have z: "res = 0 \<longleftrightarrow> uval n res = 0" using uint_take_bit [of n res] assms(2) by (metis uint_0_iff)
  have s: "res AND push_bit (n - 1) 1 \<noteq> 0 \<longleftrightarrow> sval n res < 0"
    using uval_range [of n res] by (auto simp: and_exp_eq_0_iff_not_bit sval_def)
  have "bit old i \<Longrightarrow> i < 64" using bit_imp_le_length [of old i] by simp
  then show ?thesis
    unfolding set_logic_szp_def Let_def and_mask_bits assms(2) z s parity8_def
    by (auto simp: flag_bit_simps even_iff_mod_2_eq_zero)
qed

section \<open>Carry, overflow and half carry\<close>

text \<open>A result equal to a sum (or difference) up to a multiple of \<open>2 ^ n\<close> has the overflow that the signs say.\<close>

lemma two_power_pred: "0 < n \<Longrightarrow> (2 :: int) ^ n = 2 * 2 ^ (n - 1)"
  by (simp add: power_eq_if)

lemma mod_window: "0 \<le> k \<Longrightarrow> k < 2 * N \<Longrightarrow> k mod N = (if k < N then k else k - N)" for k N :: int
  by (simp add: mod_pos_pos_trivial) (metis int_mod_pos_eq add_diff_cancel_left' diff_add_cancel diff_ge_0_iff_ge less_diff_eq linorder_not_le mult.right_neutral mult_2 add.commute)

lemma mod_window_neg: "- N \<le> k \<Longrightarrow> k < N \<Longrightarrow> k mod N = (if 0 \<le> k then k else k + N)" for k N :: int
  using mod_window [of "k + N" N] by (auto simp: mod_pos_pos_trivial)

lemma div_window: "0 \<le> k \<Longrightarrow> k < 2 * N \<Longrightarrow> k div N = (if N \<le> k then 1 else 0)" for k N :: int
  by (auto simp: div_pos_pos_trivial intro!: int_div_pos_eq [where r = "k - N"])

lemma div_window_neg: "- N \<le> k \<Longrightarrow> k < N \<Longrightarrow> k div N = (if k < 0 then - 1 else 0)" for k N :: int
  by (auto simp: div_pos_pos_trivial intro!: int_div_pos_eq [where r = "k + N"])

lemma div16_add: "((a :: int) + b + c) div 16 = a div 16 + b div 16 + (a mod 16 + b mod 16 + c) div 16"
proof -
  have "a + b + c = (a mod 16 + b mod 16 + c) + 16 * (a div 16 + b div 16)"
    by (simp add: algebra_simps flip: minus_mult_div_eq_mod)
  then show ?thesis by (metis add.commute div_mult_self2 zero_neq_numeral)
qed

lemma signed_overflow_add:
  assumes n: "0 < n" "n \<le> 64" and c: "c = 0 \<or> c = 1" and r: "uval n r = (uval n a + uval n b + c) mod 2 ^ n"
  shows "bit a (n - 1) \<noteq> bit r (n - 1) \<and> bit b (n - 1) \<noteq> bit r (n - 1) \<longleftrightarrow>
    \<not> (- (2 ^ (n - 1)) \<le> sval n a + sval n b + c \<and> sval n a + sval n b + c < 2 ^ (n - 1))"
proof -
  define M where "M = (2 :: int) ^ (n - 1)"
  have N: "2 ^ n = 2 * M" using two_power_pred [OF n(1)] by (simp add: M_def)
  have "uval n a < 2 * M" "uval n b < 2 * M" "0 \<le> uval n a" "0 \<le> uval n b" using uval_range by (auto simp flip: N)
  moreover have "(uval n a + uval n b + c) mod (2 * M) = (if uval n a + uval n b + c < 2 * M then uval n a + uval n b + c
      else uval n a + uval n b + c - 2 * M)"
    using calculation c by (intro mod_window) auto
  ultimately show ?thesis
    using r c unfolding sval_def bit_top_iff [OF n] N M_def [symmetric] by (auto split: if_splits)
qed

lemma signed_overflow_sub:
  assumes n: "0 < n" "n \<le> 64" and c: "c = 0 \<or> c = 1" and r: "uval n r = (uval n a - uval n b - c) mod 2 ^ n"
  shows "bit a (n - 1) \<noteq> bit b (n - 1) \<and> bit a (n - 1) \<noteq> bit r (n - 1) \<longleftrightarrow>
    \<not> (- (2 ^ (n - 1)) \<le> sval n a - sval n b - c \<and> sval n a - sval n b - c < 2 ^ (n - 1))"
proof -
  define M where "M = (2 :: int) ^ (n - 1)"
  have N: "2 ^ n = 2 * M" using two_power_pred [OF n(1)] by (simp add: M_def)
  have "uval n a < 2 * M" "uval n b < 2 * M" "0 \<le> uval n a" "0 \<le> uval n b" using uval_range by (auto simp flip: N)
  moreover have "(uval n a - uval n b - c) mod (2 * M) = (if uval n a - uval n b - c \<ge> 0 then uval n a - uval n b - c
      else uval n a - uval n b - c + 2 * M)"
    using calculation c by (intro mod_window_neg) auto
  ultimately show ?thesis
    using r c unfolding sval_def bit_top_iff [OF n] N M_def [symmetric] by (auto split: if_splits)
qed

lemma bit4_uval: "8 \<le> n \<Longrightarrow> n \<le> 64 \<Longrightarrow> bit x 4 \<longleftrightarrow> odd (uval n x div 16)" for x :: u64
proof -
  assume n: "8 \<le> n" "n \<le> 64"
  have "bit x 4 \<longleftrightarrow> bit (uint (take_bit n x)) 4" using n by (simp add: bit_uint_iff bit_take_bit_iff)
  then show ?thesis by (simp add: uint_take_bit bit_iff_odd)
qed

lemma odd_mod_div16: "8 \<le> n \<Longrightarrow> odd ((k :: int) mod 2 ^ n div 16) \<longleftrightarrow> odd (k div 16)"
proof -
  assume "8 \<le> n"
  then have "bit (take_bit n k) 4 \<longleftrightarrow> bit k 4" by (simp add: bit_take_bit_iff)
  then show ?thesis by (simp add: take_bit_eq_mod bit_iff_odd)
qed

lemma half_carry_add:
  assumes n: "8 \<le> n" "n \<le> 64" and c: "c = 0 \<or> c = 1" and r: "uval n r = (uval n a + uval n b + c) mod 2 ^ n"
  shows "(bit a 4 \<noteq> (bit b 4 \<noteq> bit r 4)) \<longleftrightarrow> uval n a mod 16 + uval n b mod 16 + c \<ge> 16"
proof -
  let ?A = "uval n a" and ?B = "uval n b"
  have "0 \<le> ?A mod 16" "?A mod 16 < 16" "0 \<le> ?B mod 16" "?B mod 16 < 16" by auto
  then have q: "(?A mod 16 + ?B mod 16 + c) div 16 = (if ?A mod 16 + ?B mod 16 + c \<ge> 16 then 1 else 0)"
    using c by (intro div_window) auto
  show ?thesis unfolding bit4_uval [OF n] r odd_mod_div16 [OF n(1)] div16_add [of ?A ?B c] q by auto
qed

lemma half_carry_sub:
  assumes n: "8 \<le> n" "n \<le> 64" and c: "c = 0 \<or> c = 1" and r: "uval n r = (uval n a - uval n b - c) mod 2 ^ n"
  shows "(bit a 4 \<noteq> (bit b 4 \<noteq> bit r 4)) \<longleftrightarrow> uval n a mod 16 - uval n b mod 16 - c < 0"
proof -
  let ?A = "uval n a" and ?B = "uval n b"
  have "?A - ?B - c = (?A mod 16 - ?B mod 16 - c) + 16 * (?A div 16 - ?B div 16)"
    by (simp add: algebra_simps flip: minus_mult_div_eq_mod)
  then have s: "(?A - ?B - c) div 16 = ?A div 16 - ?B div 16 + (?A mod 16 - ?B mod 16 - c) div 16"
    by (metis add.commute div_mult_self2 zero_neq_numeral)
  have "0 \<le> ?A mod 16" "?A mod 16 < 16" "0 \<le> ?B mod 16" "?B mod 16 < 16" by auto
  then have q: "(?A mod 16 - ?B mod 16 - c) div 16 = (if ?A mod 16 - ?B mod 16 - c < 0 then - 1 else 0)"
    using c by (intro div_window_neg) auto
  show ?thesis unfolding bit4_uval [OF n] r odd_mod_div16 [OF n(1)] s q by auto
qed

section \<open>Additions and subtractions\<close>

lemma uval_small: "u < 2 ^ n \<Longrightarrow> 0 \<le> u \<Longrightarrow> n \<le> 64 \<Longrightarrow> uint x = u \<Longrightarrow> uval n x = u"
  by (simp add: uval_def mod_pos_pos_trivial)

lemma uval_arith:
  assumes "n \<le> 64"
  shows "uval n (a + b) = (uval n a + uval n b) mod 2 ^ n" "uval n (a - b) = (uval n a - uval n b) mod 2 ^ n"
proof -
  have d: "(2 :: int) ^ n dvd 18446744073709551616" using le_imp_power_dvd [OF assms, of "2 :: int"] by simp
  have "uint (a + b) = (uint a + uint b) mod 2 ^ 64" "uint (a - b) = (uint a - uint b) mod 2 ^ 64"
    by (simp_all add: uint_word_ariths)
  then show "uval n (a + b) = (uval n a + uval n b) mod 2 ^ n" "uval n (a - b) = (uval n a - uval n b) mod 2 ^ n"
    by (simp_all add: uval_def mod_mod_cancel [OF d] mod_add_eq mod_diff_eq)
qed

text \<open>The parts that the sum and the difference share: their flags from result, carry and operands.\<close>

lemma arith_flags_bits:
  assumes n: "op_width n" and res: "take_bit n res = res"
    and fl: "fl = or_if af FLAG_AF (or_if ov FLAG_OF (or_if cf FLAG_CF (set_logic_szp (old AND NOT STATUS_FLAGS) res n)))"
  shows "szp_ok fl res n" "other_flags_kept fl old" "bit fl 0 = cf" "bit fl 11 = ov" "bit fl 4 = af"
  unfolding fl szp_ok_def other_flags_kept_def flag_bit_simps set_logic_szp_bits [OF n res] by auto


lemma xor_flag_eqs:
  "(x XOR y) AND (z XOR w) AND push_bit k 1 \<noteq> 0 \<longleftrightarrow> k < 64 \<and> bit x k \<noteq> bit y k \<and> bit z k \<noteq> bit w k"
  "(x XOR y XOR z) AND 0x10 \<noteq> 0 \<longleftrightarrow> (bit x 4 \<noteq> (bit y 4 \<noteq> bit z 4))" for x y z w :: u64
proof -
  have "(x XOR y) AND (z XOR w) AND push_bit k 1 \<noteq> 0 \<longleftrightarrow> bit ((x XOR y) AND (z XOR w)) k"
    using flag_clear_iff [of "(x XOR y) AND (z XOR w)" k] by (simp only: and.assoc) blast
  then show "(x XOR y) AND (z XOR w) AND push_bit k 1 \<noteq> 0 \<longleftrightarrow> k < 64 \<and> bit x k \<noteq> bit y k \<and> bit z k \<noteq> bit w k"
    by (auto simp: bit_and_iff bit_xor_iff dest: bit_imp_le_length)
  have "(0x10 :: u64) = push_bit 4 1" by (simp add: push_bit_of_1)
  then show "(x XOR y XOR z) AND 0x10 \<noteq> 0 \<longleftrightarrow> (bit x 4 \<noteq> (bit y 4 \<noteq> bit z 4))"
    by (simp only: flag_clear_iff bit_xor_iff) auto
qed

lemma take_bit_eq_uval: "take_bit n x = take_bit n y \<longleftrightarrow> uval n x = uval n y" for x y :: u64
  by (metis uint_take_bit word_uint_eq_iff)

lemma uint_minus_1: "uint (- 1 :: u64) = 2 ^ 64 - 1"
  by (simp add: unsigned_minus_1_eq_mask mask_eq_exp_minus_1)

lemma uint_mask_word: "n \<le> 64 \<Longrightarrow> uint (mask n :: u64) = 2 ^ n - 1"
proof -
  assume n: "n \<le> 64"
  have "uint (mask n :: u64) = uint (take_bit n (- 1) :: u64)" by simp
  also have "\<dots> = (2 ^ 64 - 1) mod 2 ^ n" unfolding uint_take_bit uval_def uint_minus_1 ..
  also have "\<dots> = (2 ^ 64 mod 2 ^ n - 1) mod 2 ^ n" by (simp add: mod_simps)
  also have "(2 :: int) ^ 64 mod 2 ^ n = 0" using le_imp_power_dvd [OF n, of "2 :: int"] by (simp add: dvd_eq_mod_eq_0)
  finally show ?thesis using zmod_minus1 [of "2 ^ n"] by simp
qed

lemma add_with_flags_eq:
  assumes w: "op_width n" and c: "cin = 0 \<or> cin = 1"
  shows "add_with_flags s a b cin n =
    (let res = take_bit n (a + b + cin) in
     (res, or_if ((bit a 4 \<noteq> (bit b 4 \<noteq> bit res 4))) FLAG_AF
       (or_if (bit a (n - 1) \<noteq> bit res (n - 1) \<and> bit b (n - 1) \<noteq> bit res (n - 1)) FLAG_OF
       (or_if (uval n a + uval n b + uint cin \<ge> 2 ^ n) FLAG_CF
       (set_logic_szp (rflags_snapshot s AND NOT STATUS_FLAGS) res n)))))"
proof -
  have n: "8 \<le> n" "n \<le> 64" "0 < n" using op_width_bounds [OF w] by auto
  let ?a = "take_bit n a" and ?b = "take_bit n b"
  define cf where "cf = (uval n a + uval n b + uint cin \<ge> 2 ^ n)"
  have c': "uint cin = 0 \<or> uint cin = 1" using c by auto
  have sum: "(if n < 64 then let sum = ?a + ?b + cin in (take_bit n sum, sum > mask_bits n)
      else let full = ucast ?a + ucast ?b + ucast cin :: u128 in (take_bit n (ucast full), full > ucast (mask_bits n))) =
      (take_bit n (a + b + cin), cf)"
  proof (cases "n < 64")
    case True
    have "(2 :: int) * 2 ^ n \<le> 2 ^ 64" using True power_increasing [of "Suc n" 64 "2 :: int"] by simp
    then have "uint ?a + uint ?b + uint cin < 2 ^ 64" using uval_range [of n a] uval_range [of n b] c' by (auto simp: uint_take_bit)
    then have "uint (?a + ?b + cin) = uval n a + uval n b + uint cin"
      using c' uval_range(1) [of n a] uval_range(1) [of n b] by (auto simp: uint_word_ariths uint_take_bit mod_pos_pos_trivial)
    then have "?a + ?b + cin > mask_bits n \<longleftrightarrow> cf" by (auto simp: word_less_def uint_mask_word n mask_bits_eq cf_def)
    moreover have "take_bit n (?a + ?b + cin) = take_bit n (a + b + cin)"
      by (simp add: take_bit_eq_uval uval_arith n)
    ultimately show ?thesis using True by (simp add: Let_def)
  next
    case False
    then have n64: "n = 64" using n by simp
    let ?f = "ucast a + ucast b + ucast cin :: u128"
    have uf: "uint ?f = uint a + uint b + uint cin"
      using uint_bounded [of a] uint_bounded [of b] c'
      by (auto simp: uint_word_ariths unsigned_ucast_eq take_bit_eq_mod mod_pos_pos_trivial)
    have "?f > ucast (- 1 :: u64) \<longleftrightarrow> cf" by (auto simp: word_less_def uf cf_def n64 unsigned_ucast_eq take_bit_eq_mod uint_minus_1)
    moreover have "(ucast ?f :: u64) = a + b + cin" by (simp add: word_uint_eq_iff unsigned_ucast_eq take_bit_eq_mod uint_word_ariths mod_simps mod_mod_cancel)
    ultimately show ?thesis by (simp add: n64 Let_def mask_bits_def)
  qed
  have b4: "bit ?a 4 = bit a 4" "bit ?b 4 = bit b 4" "bit ?a (n - 1) = bit a (n - 1)" "bit ?b (n - 1) = bit b (n - 1)"
    using n by (simp_all add: bit_take_bit_iff)
  have k: "n - 1 < 64" using n by simp
  show ?thesis
    unfolding add_with_flags_def Let_def and_mask_bits sum [unfolded Let_def] xor_flag_eqs b4 cf_def prod.case using k by simp
qed

lemma borrow_in_mod: "(x + N - (y + z)) mod N = (x - y - z) mod N" for x y z N :: int
proof -
  have "x + N - (y + z) = (x - y - z) + N" by simp
  then show ?thesis by (metis mod_add_self2)
qed

lemma sub_with_flags_eq:
  assumes w: "op_width n" and c: "cin = 0 \<or> cin = 1"
  shows "sub_with_flags s a b cin n =
    (let res = take_bit n (a - b - cin) in
     (res, or_if ((bit a 4 \<noteq> (bit b 4 \<noteq> bit res 4))) FLAG_AF
       (or_if (bit a (n - 1) \<noteq> bit b (n - 1) \<and> bit a (n - 1) \<noteq> bit res (n - 1)) FLAG_OF
       (or_if (uval n a < uval n b + uint cin) FLAG_CF
       (set_logic_szp (rflags_snapshot s AND NOT STATUS_FLAGS) res n)))))"
proof -
  have n: "8 \<le> n" "n \<le> 64" "0 < n" using op_width_bounds [OF w] by auto
  let ?a = "take_bit n a" and ?b = "take_bit n b"
  define cf where "cf = (uval n a < uval n b + uint cin)"
  have c': "uint cin = 0 \<or> uint cin = 1" using c by auto
  have diff: "(if n < 64 then let diff = ?a - (?b + cin) in (take_bit n diff, ?a < ?b + cin)
      else let subtrahend = ucast ?b + ucast cin :: u128; minuend = ucast ?a :: u128; full = minuend + push_bit n 1 - subtrahend
           in (take_bit n (ucast full), minuend < subtrahend)) =
      (take_bit n (a - b - cin), cf)"
  proof (cases "n < 64")
    case True
    have "(2 :: int) * 2 ^ n \<le> 2 ^ 64" using True power_increasing [of "Suc n" 64 "2 :: int"] by simp
    then have "uint ?b + uint cin < 2 ^ 64" using uval_range [of n b] c' by (auto simp: uint_take_bit)
    then have "uint (?b + cin) = uval n b + uint cin"
      using c' uval_range(1) [of n b] by (auto simp: uint_word_ariths uint_take_bit mod_pos_pos_trivial)
    then have "?a < ?b + cin \<longleftrightarrow> cf" by (auto simp: word_less_def uint_take_bit cf_def)
    moreover have "take_bit n (?a - (?b + cin)) = take_bit n (a - b - cin)"
      by (simp add: take_bit_eq_uval uval_arith n mod_simps diff_diff_eq)
    ultimately show ?thesis using True by (simp add: Let_def)
  next
    case False
    then have n64: "n = 64" using n by simp
    have us: "uint (ucast b + ucast cin :: u128) = uint b + uint cin"
      using uint_bounded [of b] c' by (auto simp: uint_word_ariths unsigned_ucast_eq take_bit_eq_mod mod_pos_pos_trivial)
    have "(ucast a :: u128) < ucast b + ucast cin \<longleftrightarrow> cf"
      using uint_bounded [of a] by (auto simp: word_less_def us cf_def n64 unsigned_ucast_eq take_bit_eq_mod mod_pos_pos_trivial)
    moreover have "(ucast (ucast a + push_bit 64 1 - (ucast b + ucast cin) :: u128) :: u64) = a - b - cin"
      by (simp add: word_uint_eq_iff unsigned_ucast_eq take_bit_eq_mod uint_word_ariths mod_simps mod_mod_cancel borrow_in_mod)
    ultimately show ?thesis by (simp add: n64 Let_def)
  qed
  have b4: "bit ?a 4 = bit a 4" "bit ?b 4 = bit b 4" "bit ?a (n - 1) = bit a (n - 1)" "bit ?b (n - 1) = bit b (n - 1)"
    using n by (simp_all add: bit_take_bit_iff)
  have k: "n - 1 < 64" using n by simp
  show ?thesis
    unfolding sub_with_flags_def Let_def and_mask_bits diff [unfolded Let_def] xor_flag_eqs b4 cf_def prod.case using k by simp
qed

lemma add_with_flags_spec:
  assumes w: "op_width n" and c: "cin = 0 \<or> cin = 1" and e: "add_with_flags s a b cin n = (res, fl)"
  shows "res = take_bit n (a + b + cin)" "uval n res = (uval n a + uval n b + uint cin) mod 2 ^ n"
    "bit fl 0 \<longleftrightarrow> uval n a + uval n b + uint cin \<ge> 2 ^ n"
    "bit fl 11 \<longleftrightarrow> \<not> (- (2 ^ (n - 1)) \<le> sval n a + sval n b + uint cin \<and> sval n a + sval n b + uint cin < 2 ^ (n - 1))"
    "bit fl 4 \<longleftrightarrow> uval n a mod 16 + uval n b mod 16 + uint cin \<ge> 16"
    "szp_ok fl res n" "other_flags_kept fl (rflags_snapshot s)"
proof -
  have n: "8 \<le> n" "n \<le> 64" "0 < n" using op_width_bounds [OF w] by auto
  have c': "uint cin = 0 \<or> uint cin = 1" "uval n cin = uint cin"
    using c n(3) power_increasing [OF n(1), of "2 :: int"] by (auto simp: uval_def mod_pos_pos_trivial)
  show r: "res = take_bit n (a + b + cin)" using add_with_flags_eq [OF w c, of s a b] e by (simp add: Let_def)
  then have r': "take_bit n res = res" by simp
  have fl: "fl = or_if ((bit a 4 \<noteq> (bit b 4 \<noteq> bit res 4))) FLAG_AF
       (or_if (bit a (n - 1) \<noteq> bit res (n - 1) \<and> bit b (n - 1) \<noteq> bit res (n - 1)) FLAG_OF
       (or_if (uval n a + uval n b + uint cin \<ge> 2 ^ n) FLAG_CF
       (set_logic_szp (rflags_snapshot s AND NOT STATUS_FLAGS) res n)))"
    using add_with_flags_eq [OF w c, of s a b] e r by (simp add: Let_def)
  note bits = arith_flags_bits [OF w r' fl]
  show u: "uval n res = (uval n a + uval n b + uint cin) mod 2 ^ n" by (simp add: r uval_arith n c'(2) mod_simps)
  show "bit fl 0 \<longleftrightarrow> uval n a + uval n b + uint cin \<ge> 2 ^ n" by (rule bits(3))
  show "bit fl 11 \<longleftrightarrow> \<not> (- (2 ^ (n - 1)) \<le> sval n a + sval n b + uint cin \<and> sval n a + sval n b + uint cin < 2 ^ (n - 1))"
    using bits(4) signed_overflow_add [OF n(3,2) c'(1) u] by simp
  show "bit fl 4 \<longleftrightarrow> uval n a mod 16 + uval n b mod 16 + uint cin \<ge> 16"
    using bits(5) half_carry_add [OF n(1,2) c'(1) u] by simp
  show "szp_ok fl res n" "other_flags_kept fl (rflags_snapshot s)" by (rule bits)+
qed

lemma sub_with_flags_spec:
  assumes w: "op_width n" and c: "cin = 0 \<or> cin = 1" and e: "sub_with_flags s a b cin n = (res, fl)"
  shows "res = take_bit n (a - b - cin)" "uval n res = (uval n a - uval n b - uint cin) mod 2 ^ n"
    "bit fl 0 \<longleftrightarrow> uval n a < uval n b + uint cin"
    "bit fl 11 \<longleftrightarrow> \<not> (- (2 ^ (n - 1)) \<le> sval n a - sval n b - uint cin \<and> sval n a - sval n b - uint cin < 2 ^ (n - 1))"
    "bit fl 4 \<longleftrightarrow> uval n a mod 16 < uval n b mod 16 + uint cin"
    "szp_ok fl res n" "other_flags_kept fl (rflags_snapshot s)"
proof -
  have n: "8 \<le> n" "n \<le> 64" "0 < n" using op_width_bounds [OF w] by auto
  have c': "uint cin = 0 \<or> uint cin = 1" "uval n cin = uint cin"
    using c n(3) power_increasing [OF n(1), of "2 :: int"] by (auto simp: uval_def mod_pos_pos_trivial)
  show r: "res = take_bit n (a - b - cin)" using sub_with_flags_eq [OF w c, of s a b] e by (simp add: Let_def)
  then have r': "take_bit n res = res" by simp
  have fl: "fl = or_if ((bit a 4 \<noteq> (bit b 4 \<noteq> bit res 4))) FLAG_AF
       (or_if (bit a (n - 1) \<noteq> bit b (n - 1) \<and> bit a (n - 1) \<noteq> bit res (n - 1)) FLAG_OF
       (or_if (uval n a < uval n b + uint cin) FLAG_CF
       (set_logic_szp (rflags_snapshot s AND NOT STATUS_FLAGS) res n)))"
    using sub_with_flags_eq [OF w c, of s a b] e r by (simp add: Let_def)
  note bits = arith_flags_bits [OF w r' fl]
  show u: "uval n res = (uval n a - uval n b - uint cin) mod 2 ^ n" by (simp add: r uval_arith n c'(2) mod_simps)
  show "bit fl 0 \<longleftrightarrow> uval n a < uval n b + uint cin" by (rule bits(3))
  show "bit fl 11 \<longleftrightarrow> \<not> (- (2 ^ (n - 1)) \<le> sval n a - sval n b - uint cin \<and> sval n a - sval n b - uint cin < 2 ^ (n - 1))"
    using bits(4) signed_overflow_sub [OF n(3,2) c'(1) u] by simp
  show "bit fl 4 \<longleftrightarrow> uval n a mod 16 < uval n b mod 16 + uint cin"
    using bits(5) half_carry_sub [OF n(1,2) c'(1) u] by auto
  show "szp_ok fl res n" "other_flags_kept fl (rflags_snapshot s)" by (rule bits)+
qed

section \<open>Negation\<close>

lemma uint_exp: "k < 64 \<Longrightarrow> uint (2 ^ k :: u64) = 2 ^ k"
  by (rule uint_2p) (simp add: word_neq_0_conv [symmetric] exp_eq_zero_iff)

lemma neg_with_flags_eq:
  assumes w: "op_width n"
  shows "neg_with_flags s v n = sub_with_flags s 0 v 0 n"
proof -
  have n: "8 \<le> n" "n \<le> 64" "0 < n" using op_width_bounds [OF w] by auto
  let ?v = "take_bit n v"
  define res where "res = take_bit n (- v)"
  have r: "take_bit n (NOT ?v + 1) = res"
    by (simp add: res_def take_bit_eq_uval not_eq_complement uval_arith n flip: minus_eq_not_plus_1)
       (metis n(2) uval_arith(2) diff_0 uval_take_bit(1))
  have u: "uval n res = (uval n 0 - uval n v - 0) mod 2 ^ n" by (simp add: res_def uval_arith(2) [OF n(2), of 0 v, simplified])
  have z: "uval n 0 = 0" by (simp add: uval_def)
  have "?v \<noteq> 0 \<longleftrightarrow> uval n v \<noteq> 0" by (metis uint_take_bit uint_0_iff)
  then have cf: "?v \<noteq> 0 \<longleftrightarrow> uval n 0 < uval n v + uint (0 :: u64)" using uval_range [of n v] z by auto
  have ov: "?v = push_bit (n - 1) 1 \<longleftrightarrow> bit (0 :: u64) (n - 1) \<noteq> bit v (n - 1) \<and> bit (0 :: u64) (n - 1) \<noteq> bit res (n - 1)"
  proof -
    have "?v = push_bit (n - 1) 1 \<longleftrightarrow> uval n v = 2 ^ (n - 1)"
      using n uint_exp [of "n - 1"] by (simp add: word_uint_eq_iff uint_take_bit)
    also have "\<dots> \<longleftrightarrow> sval n v = - (2 ^ (n - 1))"
      using bit_top_iff [OF n(3,2), of v] two_power_pred [OF n(3)] uval_range [of n v] by (auto simp: sval_def)
    also have "\<dots> \<longleftrightarrow> \<not> (- (2 ^ (n - 1)) \<le> sval n 0 - sval n v - 0 \<and> sval n 0 - sval n v - 0 < 2 ^ (n - 1))"
      using sval_range [OF n(3,2), of v] z by (auto simp: sval_def)
    finally show ?thesis using signed_overflow_sub [OF n(3,2) _ u] by simp
  qed
  have af: "?v AND 0xF \<noteq> 0 \<longleftrightarrow> (bit (0 :: u64) 4 \<noteq> (bit v 4 \<noteq> bit res 4))"
  proof -
    have "(0xF :: u64) = mask 4" by (simp add: mask_numeral)
    then have "?v AND 0xF = take_bit 4 v" using n by (simp only: flip: take_bit_eq_mask) (simp add: min_def)
    moreover have "uval 4 v = uval n v mod 16" using n by (simp add: uval_def mod_mod_cancel le_imp_power_dvd [of 4 n 2, simplified])
    ultimately have "?v AND 0xF \<noteq> 0 \<longleftrightarrow> uval n v mod 16 \<noteq> 0" by (metis uint_take_bit uint_0_iff)
    also have "\<dots> \<longleftrightarrow> uval n 0 mod 16 - uval n v mod 16 - 0 < 0" using pos_mod_sign [of 16 "uval n v"] z by auto
    finally show ?thesis using half_carry_sub [OF n(1,2) _ u] by simp
  qed
  show ?thesis
    unfolding sub_with_flags_eq [OF w, of 0, simplified] neg_with_flags_def Let_def and_mask_bits r cf ov af
    by (simp add: res_def)
qed

section \<open>Conditions\<close>

text \<open>The sixteen conditions of \<^verbatim>\<open>Jcc\<close>, \<^verbatim>\<open>CMOVcc\<close> and \<^verbatim>\<open>SETcc\<close>.\<close>

datatype Cond = CondO | CondNO | CondB | CondAE | CondE | CondNE | CondBE | CondA | CondS | CondNS | CondP | CondNP | CondL | CondGE | CondLE | CondG

definition eval_cond :: "CpuState \<Rightarrow> Cond \<Rightarrow> bool" where
  "eval_cond s m =
     (let cf = get_flag s FLAG_CF;
          pf = get_flag s FLAG_PF;
          zf = get_flag s FLAG_ZF;
          sf = get_flag s FLAG_SF;
          ov = get_flag s FLAG_OF
      in case m of
           CondO \<Rightarrow> ov
         | CondNO \<Rightarrow> \<not> ov
         | CondB \<Rightarrow> cf
         | CondAE \<Rightarrow> \<not> cf
         | CondE \<Rightarrow> zf
         | CondNE \<Rightarrow> \<not> zf
         | CondBE \<Rightarrow> cf \<or> zf
         | CondA \<Rightarrow> \<not> cf \<and> \<not> zf
         | CondS \<Rightarrow> sf
         | CondNS \<Rightarrow> \<not> sf
         | CondP \<Rightarrow> pf
         | CondNP \<Rightarrow> \<not> pf
         | CondL \<Rightarrow> sf \<noteq> ov
         | CondGE \<Rightarrow> sf = ov
         | CondLE \<Rightarrow> zf \<or> sf \<noteq> ov
         | CondG \<Rightarrow> \<not> zf \<and> sf = ov)"

lemma get_flag_set_rflags:
  "get_flag (set_rflags s fl) FLAG_CF = bit fl 0" "get_flag (set_rflags s fl) FLAG_PF = bit fl 2" "get_flag (set_rflags s fl) FLAG_AF = bit fl 4"
  "get_flag (set_rflags s fl) FLAG_ZF = bit fl 6" "get_flag (set_rflags s fl) FLAG_SF = bit fl 7" "get_flag (set_rflags s fl) FLAG_OF = bit fl 11"
proof -
  have "\<not> is_active (lazy_flags (set_rflags s fl))" by (simp add: set_rflags_def is_active_def LazyFlags_default_def Let_def)
  moreover have "rflags (set_rflags s fl) = fl OR RFLAGS_RESERVED1" by (simp add: set_rflags_def Let_def)
  ultimately have g: "get_flag (set_rflags s fl) (push_bit i 1) \<longleftrightarrow> bit (fl OR RFLAGS_RESERVED1) i" for i
    by (simp only: get_flag_def flag_clear_iff) simp
  note g' = g [unfolded bit_or_iff bit_RFLAGS]
  show "get_flag (set_rflags s fl) FLAG_CF = bit fl 0" "get_flag (set_rflags s fl) FLAG_PF = bit fl 2" "get_flag (set_rflags s fl) FLAG_AF = bit fl 4"
    "get_flag (set_rflags s fl) FLAG_ZF = bit fl 6" "get_flag (set_rflags s fl) FLAG_SF = bit fl 7" "get_flag (set_rflags s fl) FLAG_OF = bit fl 11"
    unfolding RFLAGS_CF_def RFLAGS_PF_def RFLAGS_AF_def RFLAGS_ZF_def RFLAGS_SF_def RFLAGS_OF_def g' by simp_all
qed

lemma cmp_conditions:
  fixes s :: CpuState and a b :: u64
  assumes w: "op_width n"
  defines "s' \<equiv> set_rflags s (snd (sub_with_flags s a b 0 n))"
  shows "eval_cond s' CondE \<longleftrightarrow> uval n a = uval n b" "eval_cond s' CondNE \<longleftrightarrow> uval n a \<noteq> uval n b"
    "eval_cond s' CondB \<longleftrightarrow> uval n a < uval n b" "eval_cond s' CondAE \<longleftrightarrow> uval n a \<ge> uval n b"
    "eval_cond s' CondBE \<longleftrightarrow> uval n a \<le> uval n b" "eval_cond s' CondA \<longleftrightarrow> uval n a > uval n b"
    "eval_cond s' CondL \<longleftrightarrow> sval n a < sval n b" "eval_cond s' CondGE \<longleftrightarrow> sval n a \<ge> sval n b"
    "eval_cond s' CondLE \<longleftrightarrow> sval n a \<le> sval n b" "eval_cond s' CondG \<longleftrightarrow> sval n a > sval n b"
proof -
  have n: "8 \<le> n" "n \<le> 64" "0 < n" using op_width_bounds [OF w] by auto
  obtain res fl where e: "sub_with_flags s a b 0 n = (res, fl)" by fastforce
  note sp = sub_with_flags_spec [OF w _ e, simplified]
  have s': "s' = set_rflags s fl" by (simp add: s'_def e)
  define M where "M = (2 :: int) ^ (n - 1)"
  have M': "2 ^ (n - Suc 0) = M" by (simp add: M_def)
  have N: "2 ^ n = 2 * M" using two_power_pred [OF n(3)] by (simp add: M_def)
  have r: "uval n a < 2 * M" "uval n b < 2 * M" "0 \<le> uval n a" "0 \<le> uval n b" using uval_range by (auto simp flip: N)
  have u: "uval n res = (if uval n a \<ge> uval n b then uval n a - uval n b else uval n a - uval n b + 2 * M)"
    using sp(2) mod_window_neg [of "2 * M" "uval n a - uval n b"] r by (simp add: N)
  have zf: "bit fl 6 \<longleftrightarrow> uval n a = uval n b" using sp(6) u r by (auto simp: szp_ok_def)
  have sf: "bit fl 7 \<longleftrightarrow> uval n res \<ge> M" using sp(6) bit_top_iff [OF n(3,2), of res] uval_range [of n res]
    by (auto simp: szp_ok_def sval_def M_def)
  have sv: "sval n x = (if uval n x \<ge> M then uval n x - 2 * M else uval n x)" for x
    using bit_top_iff [OF n(3,2), of x] by (simp add: sval_def N M_def)
  have eq: "uval n a = uval n b \<longleftrightarrow> sval n a = sval n b" using r by (auto simp: sv)
  have sl: "bit fl 7 \<noteq> bit fl 11 \<longleftrightarrow> sval n a < sval n b" using r u unfolding sf sp(4) M' sv by (auto split: if_splits)
  note f = s' eval_cond_def Let_def get_flag_set_rflags zf sp(3)
  show "eval_cond s' CondE \<longleftrightarrow> uval n a = uval n b" "eval_cond s' CondNE \<longleftrightarrow> uval n a \<noteq> uval n b"
    "eval_cond s' CondB \<longleftrightarrow> uval n a < uval n b" "eval_cond s' CondAE \<longleftrightarrow> uval n a \<ge> uval n b"
    "eval_cond s' CondBE \<longleftrightarrow> uval n a \<le> uval n b" "eval_cond s' CondA \<longleftrightarrow> uval n a > uval n b"
    by (auto simp: f)
  show "eval_cond s' CondL \<longleftrightarrow> sval n a < sval n b" "eval_cond s' CondGE \<longleftrightarrow> sval n a \<ge> sval n b"
    "eval_cond s' CondLE \<longleftrightarrow> sval n a \<le> sval n b" "eval_cond s' CondG \<longleftrightarrow> sval n a > sval n b"
    using sl eq by (auto simp: f)
qed

section \<open>The helpers of the older interpreter\<close>

definition mask_for_size :: "nat \<Rightarrow> u64" where
  "mask_for_size sz = (let bits = sz * 8 in if bits = 64 then - 1 else push_bit bits 1 - 1)"

definition alu_sign_bit :: "nat \<Rightarrow> u64" where
  "alu_sign_bit sz = push_bit (sz * 8 - 1) 1"

definition alu_sub_with_flags :: "u64 \<Rightarrow> u64 \<Rightarrow> u64 \<Rightarrow> bool \<Rightarrow> nat \<Rightarrow> u64 \<times> u64" where
  "alu_sub_with_flags fl dest src borrow_in sz =
     (let msk = mask_for_size sz;
          dest = dest AND msk;
          src = src AND msk;
          borrow = of_bool borrow_in :: u64;
          src2 = (src + borrow) AND msk;
          subtrahend = ucast src + ucast borrow :: u128;
          result = ucast (ucast dest - subtrahend :: u128) AND msk;
          sb = alu_sign_bit sz;
          fl = set_bit_to fl FLAG_CF ((ucast dest :: u128) < subtrahend);
          fl = set_bit_to fl FLAG_ZF (result = 0);
          fl = set_bit_to fl FLAG_SF (result AND sb \<noteq> 0);
          fl = set_bit_to fl FLAG_OF ((dest XOR src2) AND (dest XOR result) AND sb \<noteq> 0);
          fl = set_bit_to fl FLAG_AF ((dest XOR src2 XOR result) AND 0x10 \<noteq> 0);
          fl = set_bit_to fl FLAG_PF (parity8 (ucast result))
      in (result, fl))"

definition alu_update_sub_flags :: "u64 \<Rightarrow> u64 \<Rightarrow> u64 \<Rightarrow> nat \<Rightarrow> u64" where
  "alu_update_sub_flags fl dest src sz = snd (alu_sub_with_flags fl dest src False sz)"

definition alu_add_with_flags :: "u64 \<Rightarrow> u64 \<Rightarrow> u64 \<Rightarrow> bool \<Rightarrow> nat \<Rightarrow> u64 \<times> u64" where
  "alu_add_with_flags fl dest src cin sz =
     (let msk = mask_for_size sz;
          dest = dest AND msk;
          src = src AND msk;
          carry = of_bool cin :: u64;
          full = ucast dest + ucast src + ucast carry :: u128;
          result = ucast full AND msk;
          sb = alu_sign_bit sz;
          fl = set_bit_to fl FLAG_CF (full > ucast msk);
          fl = set_bit_to fl FLAG_ZF (result = 0);
          fl = set_bit_to fl FLAG_SF (result AND sb \<noteq> 0);
          fl = set_bit_to fl FLAG_OF ((dest XOR result) AND (src XOR result) AND sb \<noteq> 0);
          fl = set_bit_to fl FLAG_AF ((dest XOR src XOR result) AND 0x10 \<noteq> 0);
          fl = set_bit_to fl FLAG_PF (parity8 (ucast result))
      in (result, fl))"

definition alu_logic_with_flags :: "u64 \<Rightarrow> u64 \<Rightarrow> nat \<Rightarrow> u64 \<times> u64" where
  "alu_logic_with_flags fl result sz =
     (let msk = mask_for_size sz;
          result = result AND msk;
          fl = set_bit_to fl FLAG_CF False;
          fl = set_bit_to fl FLAG_OF False;
          sb = alu_sign_bit sz;
          fl = set_bit_to fl FLAG_ZF (result = 0);
          fl = set_bit_to fl FLAG_SF (result AND sb \<noteq> 0);
          fl = set_bit_to fl FLAG_PF (parity8 (ucast result))
      in (result, fl))"

section \<open>Three ways to the same flags\<close>

text \<open>The flags word with its six status flags replaced.\<close>

definition status_word :: "u64 \<Rightarrow> bool \<Rightarrow> bool \<Rightarrow> bool \<Rightarrow> bool \<Rightarrow> bool \<Rightarrow> bool \<Rightarrow> u64" where
  "status_word old cf pf af zf sf ov =
     or_if cf FLAG_CF (or_if pf FLAG_PF (or_if af FLAG_AF (or_if zf FLAG_ZF (or_if sf FLAG_SF (or_if ov FLAG_OF (old AND NOT STATUS_FLAGS))))))"

lemma bit_status_word:
  "bit (status_word old cf pf af zf sf ov) i \<longleftrightarrow>
     (if i = 0 then cf else if i = 2 then pf else if i = 4 then af else if i = 6 then zf else if i = 7 then sf
      else if i = 11 then ov else bit old i)"
  using bit_imp_le_length [of old i] by (auto simp: status_word_def flag_bit_simps)

lemma bit_set_bit_to: "bit (set_bit_to r msk v) i \<longleftrightarrow> (if bit msk i then v else bit r i)"
  using bit_imp_le_length [of r i] by (auto simp: set_bit_to_def bit_or_iff bit_and_iff bit_not_iff)

lemma set_bits_status_word:
  "set_bit_to (set_bit_to (set_bit_to (set_bit_to (set_bit_to (set_bit_to old
     RFLAGS_CF cf) RFLAGS_PF pf) RFLAGS_AF af) RFLAGS_ZF zf) RFLAGS_SF sf) RFLAGS_OF ov = status_word old cf pf af zf sf ov"
  "set_bit_to (set_bit_to (set_bit_to (set_bit_to (set_bit_to (set_bit_to old
     RFLAGS_CF cf) RFLAGS_ZF zf) RFLAGS_SF sf) RFLAGS_OF ov) RFLAGS_AF af) RFLAGS_PF pf = status_word old cf pf af zf sf ov"
  by (rule bit_word_eqI; auto simp: bit_set_bit_to bit_status_word bit_RFLAGS)+

lemma or_ifs_status_word:
  "or_if af FLAG_AF (or_if ov FLAG_OF (or_if cf FLAG_CF (set_logic_szp (old AND NOT STATUS_FLAGS) res n))) =
   status_word old cf (parity8 (ucast (take_bit n res))) af (take_bit n res = 0) (take_bit n res AND push_bit (n - 1) 1 \<noteq> 0) ov"
  by (rule bit_word_eqI) (auto simp: set_logic_szp_def Let_def flag_bit_simps bit_status_word dest: bit_imp_le_length)

lemma size_mask_eq: "size_mask sz = mask_bits (size_bits sz)"
  by (cases sz) (simp_all add: mask_bits_def size_bits_def)

lemma op_width_size_bits [simp]: "op_width (size_bits sz)"
  by (cases sz) (simp_all add: op_width_def size_bits_def)

lemma rflags_snapshot_lazy:
  "is_active lf \<Longrightarrow> rflags_snapshot (s\<lparr>lazy_flags := lf\<rparr>) =
   status_word (rflags s OR RFLAGS_RESERVED1) (lazy_cf lf) (lazy_pf lf) (lazy_af lf) (lazy_zf lf) (lazy_sf lf) (lazy_of lf)"
  by (simp add: rflags_snapshot_def set_bits_status_word Let_def)

text \<open>Carries of the wide sums.\<close>

lemma wide_carry:
  assumes "n \<le> 64" "cin = 0 \<or> cin = 1"
  shows "(ucast (take_bit n a) + ucast (take_bit n b) + ucast (cin :: u64) :: u128) > ucast (mask_bits n) \<longleftrightarrow> uval n a + uval n b + uint cin \<ge> 2 ^ n"
    "(ucast (take_bit n a) :: u128) < ucast (take_bit n b) + ucast cin \<longleftrightarrow> uval n a < uval n b + uint cin"
proof -
  have p: "(2 :: int) ^ n \<le> 2 ^ 64" using assms(1) by (intro power_increasing) auto
  have u: "uint (ucast (take_bit n x) :: u128) = uval n x" "uint (ucast cin :: u128) = uint cin" for x
    using uval_range [of n x] p assms(2) by (auto simp: unsigned_ucast_eq take_bit_eq_mod uint_take_bit [unfolded take_bit_eq_mod] mod_pos_pos_trivial)
  have m: "uint (ucast (mask_bits n) :: u128) = 2 ^ n - 1"
    using p uint_mask_word [OF assms(1)] by (simp add: unsigned_ucast_eq take_bit_eq_mod mask_bits_eq mod_pos_pos_trivial)
  have s: "uint (ucast (take_bit n a) + ucast (take_bit n b) + ucast cin :: u128) = uval n a + uval n b + uint cin"
      "uint (ucast (take_bit n b) + ucast cin :: u128) = uval n b + uint cin"
    using uval_range [of n a] uval_range [of n b] p assms(2) by (auto simp: uint_word_ariths u mod_pos_pos_trivial)
  show "(ucast (take_bit n a) + ucast (take_bit n b) + ucast cin :: u128) > ucast (mask_bits n) \<longleftrightarrow> uval n a + uval n b + uint cin \<ge> 2 ^ n"
    "(ucast (take_bit n a) :: u128) < ucast (take_bit n b) + ucast cin \<longleftrightarrow> uval n a < uval n b + uint cin"
    by (auto simp: word_less_def s m u)
qed

lemma add_with_flags_status:
  assumes w: "op_width n" and c: "cin = 0 \<or> cin = 1" and r: "res = take_bit n (a + b + cin)"
  shows "add_with_flags s a b cin n = (res,
    status_word (rflags_snapshot s) (uval n a + uval n b + uint cin \<ge> 2 ^ n) (parity8 (ucast res)) (bit a 4 \<noteq> (bit b 4 \<noteq> bit res 4))
      (res = 0) (res AND push_bit (n - 1) 1 \<noteq> 0) (bit a (n - 1) \<noteq> bit res (n - 1) \<and> bit b (n - 1) \<noteq> bit res (n - 1)))"
  unfolding add_with_flags_eq [OF w c] or_ifs_status_word Let_def by (simp add: r)

lemma sub_with_flags_status:
  assumes w: "op_width n" and c: "cin = 0 \<or> cin = 1" and r: "res = take_bit n (a - b - cin)"
  shows "sub_with_flags s a b cin n = (res,
    status_word (rflags_snapshot s) (uval n a < uval n b + uint cin) (parity8 (ucast res)) (bit a 4 \<noteq> (bit b 4 \<noteq> bit res 4))
      (res = 0) (res AND push_bit (n - 1) 1 \<noteq> 0) (bit a (n - 1) \<noteq> bit b (n - 1) \<and> bit a (n - 1) \<noteq> bit res (n - 1)))"
  unfolding sub_with_flags_eq [OF w c] or_ifs_status_word Let_def by (simp add: r)

lemma logic_flags_status:
  assumes "take_bit n res = res"
  shows "logic_flags s res n = status_word (rflags_snapshot s) False (parity8 (ucast res)) False (res = 0) (res AND push_bit (n - 1) 1 \<noteq> 0) False"
  using or_ifs_status_word [of False False False "rflags_snapshot s" res n] assms by (simp add: logic_flags_def or_if_def)

lemma rflags_snapshot_inactive: "\<not> is_active (lazy_flags s) \<Longrightarrow> rflags_snapshot s = rflags s OR RFLAGS_RESERVED1"
  by (simp add: rflags_snapshot_def)

lemma masked_eq: "masked lf v = take_bit (size_bits (lsize lf)) v"
  by (simp add: masked_def size_mask_eq)

lemmas lazy_flag_defs = lazy_cf_def lazy_pf_def lazy_af_def lazy_zf_def lazy_sf_def lazy_of_def lazy_rhs_def is_active_def
  masked_eq carry_in_u64_def size_mask_eq size_sign_bit_def parity8_def Let_def

lemma size_bits_bounds: "8 \<le> size_bits sz" "size_bits sz \<le> 64" "size_bits sz - 1 < 64"
  using op_width_bounds [OF op_width_size_bits [of sz]] by auto

lemma bits_of_take_bit:
  "bit (take_bit (size_bits sz) x) 4 \<longleftrightarrow> bit x 4" "bit (take_bit (size_bits sz) x) (size_bits sz - 1) \<longleftrightarrow> bit x (size_bits sz - 1)" for x :: u64
  using size_bits_bounds [of sz] by (auto simp: bit_take_bit_iff)

lemma lazy_add_eq:
  assumes "\<not> is_active (lazy_flags s)" "add_with_flags s a b 0 (size_bits sz) = (res, fl)"
  shows "rflags_snapshot (s\<lparr>lazy_flags := for_add sz a b res\<rparr>) = fl"
proof -
  let ?n = "size_bits sz"
  have r: "res = take_bit ?n (a + b + 0)" using add_with_flags_status [OF op_width_size_bits _ refl, of 0] assms(2) by simp
  then have tr: "take_bit ?n res = res" by simp
  have "rflags_snapshot (s\<lparr>lazy_flags := for_add sz a b res\<rparr>) =
      status_word (rflags_snapshot s) (uval ?n a + uval ?n b + uint (0 :: u64) \<ge> 2 ^ ?n) (parity8 (ucast res)) (bit a 4 \<noteq> (bit b 4 \<noteq> bit res 4))
      (res = 0) (res AND push_bit (?n - 1) 1 \<noteq> 0) (bit a (?n - 1) \<noteq> bit res (?n - 1) \<and> bit b (?n - 1) \<noteq> bit res (?n - 1))"
    using wide_carry(1) [OF size_bits_bounds(2), of 0 sz a b] size_bits_bounds(3) [of sz]
    by (subst rflags_snapshot_lazy)
       (simp_all add: for_add_def lazy_flag_defs tr xor_flag_eqs bits_of_take_bit rflags_snapshot_inactive [OF assms(1)] del: One_nat_def push_bit_of_1)
  then show ?thesis using add_with_flags_status [OF op_width_size_bits _ r] assms(2) by simp
qed

lemma lazy_sub_eq:
  assumes "\<not> is_active (lazy_flags s)" "sub_with_flags s a b 0 (size_bits sz) = (res, fl)"
  shows "rflags_snapshot (s\<lparr>lazy_flags := for_sub sz a b res\<rparr>) = fl"
proof -
  let ?n = "size_bits sz"
  have r: "res = take_bit ?n (a - b - 0)" using sub_with_flags_status [OF op_width_size_bits _ refl, of 0] assms(2) by simp
  then have tr: "take_bit ?n res = res" by simp
  have "rflags_snapshot (s\<lparr>lazy_flags := for_sub sz a b res\<rparr>) =
      status_word (rflags_snapshot s) (uval ?n a < uval ?n b + uint (0 :: u64)) (parity8 (ucast res)) (bit a 4 \<noteq> (bit b 4 \<noteq> bit res 4))
      (res = 0) (res AND push_bit (?n - 1) 1 \<noteq> 0) (bit a (?n - 1) \<noteq> bit b (?n - 1) \<and> bit a (?n - 1) \<noteq> bit res (?n - 1))"
    using wide_carry(2) [OF size_bits_bounds(2), of 0 sz a b] size_bits_bounds(3) [of sz]
    by (subst rflags_snapshot_lazy)
       (simp_all add: for_sub_def lazy_flag_defs tr xor_flag_eqs bits_of_take_bit rflags_snapshot_inactive [OF assms(1)] del: One_nat_def push_bit_of_1)
  then show ?thesis using sub_with_flags_status [OF op_width_size_bits _ r] assms(2) by simp
qed

lemma lazy_logic_eq:
  assumes "\<not> is_active (lazy_flags s)" "take_bit (size_bits sz) res = res"
  shows "bit (rflags_snapshot (s\<lparr>lazy_flags := for_logic sz res\<rparr>)) i \<longleftrightarrow> (if i = 4 then bit res 4 else bit (logic_flags s res (size_bits sz)) i)"
  unfolding logic_flags_status [OF assms(2)] rflags_snapshot_inactive [OF assms(1)]
  by (subst rflags_snapshot_lazy)
     (auto simp: for_logic_def lazy_flag_defs assms(2) bit_status_word xor_flag_eqs(2) [of 0 0, simplified] simp del: One_nat_def push_bit_of_1)

lemma carry_in_of_bool: "ucast (of_bool c AND 1 :: u8) = (of_bool c :: u64)"
  by (cases c) simp_all

lemma lazy_adc_eq:
  assumes "\<not> is_active (lazy_flags s)" "add_with_flags s a b (of_bool c) (size_bits sz) = (res, fl)" "i \<noteq> 4" "i \<noteq> 11"
  shows "bit (rflags_snapshot (s\<lparr>lazy_flags := for_adc sz a b c res\<rparr>)) i = bit fl i"
proof -
  let ?n = "size_bits sz"
  have c: "(of_bool c :: u64) = 0 \<or> (of_bool c :: u64) = 1" by (cases c) simp_all
  have r: "res = take_bit ?n (a + b + of_bool c)" using add_with_flags_status [OF op_width_size_bits c refl] assms(2) by simp
  then have tr: "take_bit ?n res = res" by simp
  note fl = add_with_flags_status [OF op_width_size_bits c r, of s, unfolded assms(2)]
  show ?thesis
    using fl assms(3,4) wide_carry(1) [OF size_bits_bounds(2) c, of sz a b]
    by (subst rflags_snapshot_lazy)
       (simp_all add: for_adc_def lazy_flag_defs tr carry_in_of_bool bit_status_word rflags_snapshot_inactive [OF assms(1)] del: One_nat_def push_bit_of_1)
qed

lemma lazy_sbb_eq:
  assumes "\<not> is_active (lazy_flags s)" "sub_with_flags s a b (of_bool c) (size_bits sz) = (res, fl)" "i \<noteq> 4" "i \<noteq> 11"
  shows "bit (rflags_snapshot (s\<lparr>lazy_flags := for_sbb sz a b c res\<rparr>)) i = bit fl i"
proof -
  let ?n = "size_bits sz"
  have c: "(of_bool c :: u64) = 0 \<or> (of_bool c :: u64) = 1" by (cases c) simp_all
  have r: "res = take_bit ?n (a - b - of_bool c)" using sub_with_flags_status [OF op_width_size_bits c refl] assms(2) by simp
  then have tr: "take_bit ?n res = res" by simp
  note fl = sub_with_flags_status [OF op_width_size_bits c r, of s, unfolded assms(2)]
  show ?thesis
    using fl assms(3,4) wide_carry(2) [OF size_bits_bounds(2) c, of sz a b]
    by (subst rflags_snapshot_lazy)
       (simp_all add: for_sbb_def lazy_flag_defs tr carry_in_of_bool bit_status_word rflags_snapshot_inactive [OF assms(1)] del: One_nat_def push_bit_of_1)
qed

text \<open>Committing lazy flags changes no flag as it is read.\<close>

lemma commit_lazy_flags_snapshot:
  "rflags (commit_lazy_flags s) = rflags_snapshot s" "rflags_snapshot (commit_lazy_flags s) = rflags_snapshot s"
  "\<not> is_active (lazy_flags (commit_lazy_flags s))"
proof -
  have d: "\<not> is_active LazyFlags_default" by (simp add: is_active_def LazyFlags_default_def)
  have k: "rflags_snapshot s OR RFLAGS_RESERVED1 = rflags_snapshot s"
  proof (rule bit_word_eqI)
    fix i
    show "bit (rflags_snapshot s OR RFLAGS_RESERVED1) i = bit (rflags_snapshot s) i"
      by (cases "i = 1") (auto simp: rflags_snapshot_def Let_def bit_or_iff bit_RFLAGS set_bits_status_word bit_status_word)
  qed
  show r: "rflags (commit_lazy_flags s) = rflags_snapshot s" by (simp add: commit_lazy_flags_def rflags_snapshot_def)
  show a: "\<not> is_active (lazy_flags (commit_lazy_flags s))" by (simp add: commit_lazy_flags_def d)
  show "rflags_snapshot (commit_lazy_flags s) = rflags_snapshot s" using k by (simp add: rflags_snapshot_inactive [OF a] r)
qed

text \<open>
  With a carry the lazy flags mask the sum of operand and carry first, and lose the carry into bit 4 and the sign:
  0 + 0x7F + 1 overflows, and so does 0x0F + 0 + 1 out of the low digit.
\<close>

lemma lazy_adc_overflow_lost:
  "lazy_of (for_adc Byte 0 0x7F True 0x80) = False" "bit (snd (add_with_flags s 0 0x7F 1 8)) 11"
  "lazy_af (for_adc Byte 0 0x0F True 0x10) = False" "bit (snd (add_with_flags s 0 0x0F 1 8)) 4"
proof -
  show "lazy_of (for_adc Byte 0 0x7F True 0x80) = False" "lazy_af (for_adc Byte 0 0x0F True 0x10) = False" by code_simp+
  have w: "op_width 8" by (simp add: op_width_def)
  show "bit (snd (add_with_flags s 0 0x7F 1 8)) 11"
    using add_with_flags_spec(4) [OF w _ surjective_pairing, of 1 s 0 "0x7F"] by (simp add: sval_def uval_def bit_simps)
  show "bit (snd (add_with_flags s 0 0x0F 1 8)) 4"
    using add_with_flags_spec(5) [OF w _ surjective_pairing, of 1 s 0 "0x0F"] by (simp add: uval_def)
qed

lemma mask_for_size_eq: "op_width (sz * 8) \<Longrightarrow> mask_for_size sz = mask_bits (sz * 8)"
  by (auto simp: mask_for_size_def mask_bits_eq mask_eq_decr_exp Let_def op_width_def)

lemma wide_results:
  assumes "n \<le> 64"
  shows "take_bit n (ucast (ucast (take_bit n a) + ucast (take_bit n b) + ucast c :: u128)) = take_bit n (a + b + c :: u64)"
    "take_bit n (ucast (ucast (take_bit n a) - (ucast (take_bit n b) + ucast c) :: u128)) = take_bit n (a - b - c :: u64)"
proof -
  have "(ucast (ucast x + ucast y + ucast z :: u128) :: u64) = x + y + z" "(ucast (ucast x - (ucast y + ucast z) :: u128) :: u64) = x - y - z" for x y z :: u64
    by (simp_all add: word_uint_eq_iff unsigned_ucast_eq take_bit_eq_mod uint_word_ariths mod_simps mod_mod_cancel diff_diff_eq)
  then show "take_bit n (ucast (ucast (take_bit n a) + ucast (take_bit n b) + ucast c :: u128)) = take_bit n (a + b + c)"
    "take_bit n (ucast (ucast (take_bit n a) - (ucast (take_bit n b) + ucast c) :: u128)) = take_bit n (a - b - c)"
    by (simp_all add: take_bit_eq_uval uval_arith assms mod_simps)
qed

lemma alu_add_with_flags_eq:
  assumes w: "op_width (sz * 8)" and old: "rflags_snapshot s = old"
  shows "alu_add_with_flags old a b c sz = add_with_flags s a b (of_bool c) (sz * 8)"
proof -
  let ?n = "sz * 8"
  have n: "8 \<le> ?n" "?n \<le> 64" "?n - 1 < 64" using op_width_bounds [OF w] by auto
  have c: "(of_bool c :: u64) = 0 \<or> (of_bool c :: u64) = 1" by (cases c) simp_all
  have b: "bit (take_bit ?n x) 4 = bit x 4" "bit (take_bit ?n x) (?n - 1) = bit x (?n - 1)" for x :: u64
    using n by (simp_all add: bit_take_bit_iff)
  show ?thesis
    unfolding add_with_flags_status [OF w c refl] alu_add_with_flags_def Let_def mask_for_size_eq [OF w] and_mask_bits wide_results [OF n(2)]
      set_bits_status_word alu_sign_bit_def wide_carry [OF n(2) c] xor_flag_eqs b old
    using n(3) by simp
qed

lemma alu_sub_with_flags_eq:
  assumes w: "op_width (sz * 8)" and old: "rflags_snapshot s = old"
  shows "alu_sub_with_flags old a b False sz = sub_with_flags s a b 0 (sz * 8)"
    "fst (alu_sub_with_flags old a b c sz) = fst (sub_with_flags s a b (of_bool c) (sz * 8))"
    "i \<noteq> 4 \<Longrightarrow> i \<noteq> 11 \<Longrightarrow> bit (snd (alu_sub_with_flags old a b c sz)) i = bit (snd (sub_with_flags s a b (of_bool c) (sz * 8))) i"
proof -
  let ?n = "sz * 8"
  have n: "8 \<le> ?n" "?n \<le> 64" "?n - 1 < 64" using op_width_bounds [OF w] by auto
  have c: "(of_bool c :: u64) = 0 \<or> (of_bool c :: u64) = 1" for c by (cases c) simp_all
  have b: "bit (take_bit ?n x) 4 = bit x 4" "bit (take_bit ?n x) (?n - 1) = bit x (?n - 1)" for x :: u64
    using n by (simp_all add: bit_take_bit_iff)
  note eqs = sub_with_flags_status [OF w c refl] alu_sub_with_flags_def Let_def mask_for_size_eq [OF w] and_mask_bits wide_results [OF n(2)]
      set_bits_status_word alu_sign_bit_def wide_carry [OF n(2) c] xor_flag_eqs b old
  have "alu_sub_with_flags old a b False sz = sub_with_flags s a b (of_bool False) (sz * 8)"
    unfolding eqs using n(3) by (simp add: b del: One_nat_def)
  then show "alu_sub_with_flags old a b False sz = sub_with_flags s a b 0 (sz * 8)" by simp
  show "fst (alu_sub_with_flags old a b c sz) = fst (sub_with_flags s a b (of_bool c) (sz * 8))" unfolding eqs by simp
  show "bit (snd (alu_sub_with_flags old a b c sz)) i = bit (snd (sub_with_flags s a b (of_bool c) (sz * 8))) i" if "i \<noteq> 4" "i \<noteq> 11"
    using that unfolding eqs by (simp add: bit_status_word)
qed

lemma alu_logic_with_flags_eq:
  assumes w: "op_width (sz * 8)" and old: "rflags_snapshot s = old" and i: "i \<noteq> 4"
  shows "bit (snd (alu_logic_with_flags old r sz)) i = bit (logic_flags s (take_bit (sz * 8) r) (sz * 8)) i"
  using i unfolding logic_flags_status [of "sz * 8" "take_bit (sz * 8) r", simplified] alu_logic_with_flags_def Let_def mask_for_size_eq [OF w] and_mask_bits
  by (auto simp: bit_set_bit_to bit_status_word bit_RFLAGS alu_sign_bit_def old)

lemma alu_sub_borrow_lost:
  "\<not> bit (snd (alu_sub_with_flags 0 0x10 0x0F True 1)) 4" "bit (snd (sub_with_flags s 0x10 0x0F 1 8)) 4"
proof -
  show "\<not> bit (snd (alu_sub_with_flags 0 0x10 0x0F True 1)) 4"
    unfolding alu_sub_with_flags_def Let_def snd_conv set_bits_status_word bit_status_word by (simp add: mask_for_size_def)
  show "bit (snd (sub_with_flags s 0x10 0x0F 1 8)) 4"
    using sub_with_flags_spec(5) [of 8, OF _ _ surjective_pairing, of 1 s "0x10" "0x0F"] by (simp add: uval_def op_width_def)
qed

text \<open>
  (C9) Additions with carry and subtractions with borrow of 8, 16, 32 and 64 bits: the result is the sum or difference modulo
  \<open>2 ^ n\<close>; the carry flag says that it left the unsigned range, the overflow flag that it left the signed range, the auxiliary flag that
  there was a carry out of (or borrow into) the low four bits; zero, sign and parity are those of the result; no other flag changes.
\<close>

theorem alu_sums_correct:
  assumes "op_width n"
  shows "(case add_with_flags s a b (of_bool c) n of (res, fl) \<Rightarrow>
      uval n res = (uval n a + uval n b + of_bool c) mod 2 ^ n \<and>
      (bit fl 0 \<longleftrightarrow> uval n a + uval n b + of_bool c \<ge> 2 ^ n) \<and>
      (bit fl 11 \<longleftrightarrow> sval n a + sval n b + of_bool c < - (2 ^ (n - 1)) \<or> 2 ^ (n - 1) \<le> sval n a + sval n b + of_bool c) \<and>
      (bit fl 4 \<longleftrightarrow> uval n a mod 16 + uval n b mod 16 + of_bool c \<ge> 16) \<and> szp_ok fl res n \<and> other_flags_kept fl (rflags_snapshot s)) \<and>
    (case sub_with_flags s a b (of_bool c) n of (res, fl) \<Rightarrow>
      uval n res = (uval n a - uval n b - of_bool c) mod 2 ^ n \<and>
      (bit fl 0 \<longleftrightarrow> uval n a < uval n b + of_bool c) \<and>
      (bit fl 11 \<longleftrightarrow> sval n a - sval n b - of_bool c < - (2 ^ (n - 1)) \<or> 2 ^ (n - 1) \<le> sval n a - sval n b - of_bool c) \<and>
      (bit fl 4 \<longleftrightarrow> uval n a mod 16 < uval n b mod 16 + of_bool c) \<and> szp_ok fl res n \<and> other_flags_kept fl (rflags_snapshot s))"
proof -
  have c: "(of_bool c :: u64) = 0 \<or> (of_bool c :: u64) = 1" "uint (of_bool c :: u64) = of_bool c" by (cases c; simp)+
  obtain res fl where a: "add_with_flags s a b (of_bool c) n = (res, fl)" by fastforce
  obtain dif fl' where d: "sub_with_flags s a b (of_bool c) n = (dif, fl')" by fastforce
  show ?thesis
    unfolding a d prod.case using add_with_flags_spec [OF assms c(1) a, unfolded c(2)] sub_with_flags_spec [OF assms c(1) d, unfolded c(2)]
    by (simp only: de_Morgan_conj not_le not_less simp_thms)
qed

theorem alu_sums_correct_witness:
  "bit (snd (add_with_flags (CpuState_new Long) 0xFFFFFFFF 0 (of_bool True) 32)) 0 \<and>
   uval 32 (fst (add_with_flags (CpuState_new Long) 0xFFFFFFFF 0 (of_bool True) 32)) = 0"
  using alu_sums_correct [where n = 32 and s = "CpuState_new Long" and a = "0xFFFFFFFF" and b = 0 and c = True] by (simp add: op_width_def uval_def case_prod_beta)

text \<open>
  (C10) After a comparison (the flags of the difference of two operands of 8, 16, 32 or 64 bits) the conditions of jumps, moves and sets
  mean what their names say: equality, the order of the unsigned values (below, above) and the order of the signed values (less, greater).
\<close>

theorem cmp_decides_order:
  assumes "op_width n"
  shows "let s' = set_rflags s (snd (sub_with_flags s a b 0 n)) in
    (eval_cond s' CondE \<longleftrightarrow> uval n a = uval n b) \<and> (eval_cond s' CondNE \<longleftrightarrow> uval n a \<noteq> uval n b) \<and>
    (eval_cond s' CondB \<longleftrightarrow> uval n a < uval n b) \<and> (eval_cond s' CondAE \<longleftrightarrow> uval n a \<ge> uval n b) \<and>
    (eval_cond s' CondBE \<longleftrightarrow> uval n a \<le> uval n b) \<and> (eval_cond s' CondA \<longleftrightarrow> uval n a > uval n b) \<and>
    (eval_cond s' CondL \<longleftrightarrow> sval n a < sval n b) \<and> (eval_cond s' CondGE \<longleftrightarrow> sval n a \<ge> sval n b) \<and>
    (eval_cond s' CondLE \<longleftrightarrow> sval n a \<le> sval n b) \<and> (eval_cond s' CondG \<longleftrightarrow> sval n a > sval n b)"
  unfolding Let_def cmp_conditions [OF assms] by simp

theorem cmp_decides_order_witness:
  "eval_cond (set_rflags (CpuState_new Long) (snd (sub_with_flags (CpuState_new Long) 0x80 0x7F 0 8))) CondL \<and>
   eval_cond (set_rflags (CpuState_new Long) (snd (sub_with_flags (CpuState_new Long) 0x80 0x7F 0 8))) CondA"
  using cmp_decides_order [of 8 "CpuState_new Long" "0x80" "0x7F"] by (simp add: op_width_def uval_def sval_def Let_def bit_simps)

text \<open>
  (C17) The lazily evaluated flags of \<^verbatim>\<open>state.rs\<close>, recorded for an addition or a subtraction, materialise to exactly the flags word that the interpreter
  computes eagerly; for the forms with a carry they agree in every bit but the auxiliary and the overflow flag, for logic
  in every bit but the auxiliary flag. Committing them changes nothing.
\<close>

theorem lazy_flags_agree:
  assumes "\<not> is_active (lazy_flags s)"
  shows "(rflags_snapshot (s\<lparr>lazy_flags := for_add sz a b (fst (add_with_flags s a b 0 (size_bits sz)))\<rparr>) = snd (add_with_flags s a b 0 (size_bits sz))) \<and>
    (rflags_snapshot (s\<lparr>lazy_flags := for_sub sz a b (fst (sub_with_flags s a b 0 (size_bits sz)))\<rparr>) = snd (sub_with_flags s a b 0 (size_bits sz))) \<and>
    (i \<notin> {4, 11} \<longrightarrow> bit (rflags_snapshot (s\<lparr>lazy_flags := for_adc sz a b c (fst (add_with_flags s a b (of_bool c) (size_bits sz)))\<rparr>)) i =
           bit (snd (add_with_flags s a b (of_bool c) (size_bits sz))) i) \<and>
    (i \<notin> {4, 11} \<longrightarrow> bit (rflags_snapshot (s\<lparr>lazy_flags := for_sbb sz a b c (fst (sub_with_flags s a b (of_bool c) (size_bits sz)))\<rparr>)) i =
           bit (snd (sub_with_flags s a b (of_bool c) (size_bits sz))) i) \<and>
    (i \<noteq> 4 \<longrightarrow> bit (rflags_snapshot (s\<lparr>lazy_flags := for_logic sz (a AND mask_bits (size_bits sz))\<rparr>)) i =
           bit (logic_flags s (a AND mask_bits (size_bits sz)) (size_bits sz)) i) \<and>
    (rflags (commit_lazy_flags t) = rflags_snapshot t)"
  using lazy_add_eq [OF assms surjective_pairing] lazy_sub_eq [OF assms surjective_pairing] lazy_adc_eq [OF assms surjective_pairing]
    lazy_sbb_eq [OF assms surjective_pairing] lazy_logic_eq [OF assms] commit_lazy_flags_snapshot(1) by simp

theorem lazy_flags_agree_witness:
  "rflags_snapshot ((CpuState_new Long)\<lparr>lazy_flags := for_add Byte 0xFF 1 0\<rparr>) = snd (add_with_flags (CpuState_new Long) 0xFF 1 0 8)"
proof -
  have a: "\<not> is_active (lazy_flags (CpuState_new Long))" by code_simp
  have "fst (add_with_flags (CpuState_new Long) 0xFF 1 0 8) = 0" by (simp add: add_with_flags_eq op_width_def Let_def)
  then show ?thesis using lazy_flags_agree [OF a, of Byte "0xFF" 1] by (simp add: size_bits_def)
qed

end
