(* ===== verification/CpuBus.thy ===== *)
theory CpuBus
  imports CpuAlu
begin

text \<open>
  The memory as instructions see it: the trait \<^verbatim>\<open>CpuBus\<close> of \<^verbatim>\<open>aero-cpu-core/src/mem.rs\<close> with the flat bus that implements it
  there, the exceptions of \<^verbatim>\<open>exception.rs\<close>, and the accesses of \<^verbatim>\<open>linear_mem.rs\<close>, which split a range of linear addresses into runs
  where the address space wraps: at 4 GiB outside of long mode, and at every odd megabyte when the A20 line is off. The watchpoints
  for debugging are left out.

  The locale \<open>fault_safe_bus\<close> states what precise exceptions need of a bus: an access that fails changes nothing that matters.
  The locale \<open>linear_bus\<close> states that a bus is a memory of bytes; inside it, a wrapped access is shown to touch every
  byte at its own masked address, and a wrapped write to be all or nothing.
\<close>

section \<open>Exceptions and actions\<close>

datatype Exception =
    GeneralProtection u16
  | DivideError
  | PageFaultEx u64 u32
  | MemoryFault
  | SegmentNotPresent u16
  | StackSegment u16
  | InvalidTss u16
  | InvalidOpcode
  | DeviceNotAvailable
  | X87Fpu
  | SimdFloatingPointException
  | Unimplemented string

definition gp0 :: Exception where "gp0 = GeneralProtection 0"

datatype AssistReason = Io | Privileged | InterruptAssist | CpuidAssist | MsrAssist | Unsupported

text \<open>
  A fallible operation on a mutable state: it returns a value or fails, and leaves a state in either case. The
  \<^verbatim>\<open>?\<close> operator is \<open>act_bind\<close>.
\<close>

type_synonym ('s, 'a) action = "'s \<Rightarrow> (Exception failure + 'a) \<times> 's"

definition act_return :: "'a \<Rightarrow> ('s, 'a) action" where
  "act_return x s = (Inr x, s)"

definition act_fail :: "Exception \<Rightarrow> ('s, 'a) action" where
  "act_fail e s = (Inl (Fail e), s)"

definition act_panic :: "('s, 'a) action" where
  "act_panic s = (Inl Panic, s)"

definition act_bind :: "('s, 'a) action \<Rightarrow> ('a \<Rightarrow> ('s, 'b) action) \<Rightarrow> ('s, 'b) action" where
  "act_bind m f s = (case m s of (Inl e, s') \<Rightarrow> (Inl e, s') | (Inr x, s') \<Rightarrow> f x s')"

definition act_map :: "('a \<Rightarrow> 'b) \<Rightarrow> ('s, 'a) action \<Rightarrow> ('s, 'b) action" where
  "act_map f m = act_bind m (\<lambda>x. act_return (f x))"

section \<open>The bus of the processor\<close>

text \<open>
  The trait \<^verbatim>\<open>CpuBus\<close> as a dictionary of operations on a bus of type \<^typ>\<open>'b\<close>. The closure of \<^verbatim>\<open>atomic_rmw\<close> computes the
  new value and a result from the old value; the result is computed by the caller from the old value, which
  the operation returns. A read into a slice returns the bytes. A bulk operation says whether it was performed. The hooks on time and
  yielding are left out.
\<close>

record 'b CpuBus =
  cb_sync :: "CpuState \<Rightarrow> 'b \<Rightarrow> 'b"
  cb_invlpg :: "u64 \<Rightarrow> 'b \<Rightarrow> 'b"
  cb_write_cr3 :: "u64 \<Rightarrow> 'b \<Rightarrow> 'b"
  cb_read_u8 :: "u64 \<Rightarrow> ('b, u8) action"
  cb_read_u16 :: "u64 \<Rightarrow> ('b, u16) action"
  cb_read_u32 :: "u64 \<Rightarrow> ('b, u32) action"
  cb_read_u64 :: "u64 \<Rightarrow> ('b, u64) action"
  cb_read_u128 :: "u64 \<Rightarrow> ('b, u128) action"
  cb_write_u8 :: "u64 \<Rightarrow> u8 \<Rightarrow> ('b, unit) action"
  cb_write_u16 :: "u64 \<Rightarrow> u16 \<Rightarrow> ('b, unit) action"
  cb_write_u32 :: "u64 \<Rightarrow> u32 \<Rightarrow> ('b, unit) action"
  cb_write_u64 :: "u64 \<Rightarrow> u64 \<Rightarrow> ('b, unit) action"
  cb_write_u128 :: "u64 \<Rightarrow> u128 \<Rightarrow> ('b, unit) action"
  cb_atomic_rmw_u8 :: "u64 \<Rightarrow> (u8 \<Rightarrow> u8) \<Rightarrow> ('b, u8) action"
  cb_atomic_rmw_u16 :: "u64 \<Rightarrow> (u16 \<Rightarrow> u16) \<Rightarrow> ('b, u16) action"
  cb_atomic_rmw_u32 :: "u64 \<Rightarrow> (u32 \<Rightarrow> u32) \<Rightarrow> ('b, u32) action"
  cb_atomic_rmw_u64 :: "u64 \<Rightarrow> (u64 \<Rightarrow> u64) \<Rightarrow> ('b, u64) action"
  cb_atomic_rmw_u128 :: "u64 \<Rightarrow> (u128 \<Rightarrow> u128) \<Rightarrow> ('b, u128) action"
  cb_read_bytes :: "u64 \<Rightarrow> nat \<Rightarrow> ('b, u8 list) action"
  cb_write_bytes :: "u64 \<Rightarrow> u8 list \<Rightarrow> ('b, unit) action"
  cb_preflight_write_bytes :: "u64 \<Rightarrow> nat \<Rightarrow> ('b, unit) action"
  cb_supports_bulk_copy :: bool
  cb_bulk_copy :: "u64 \<Rightarrow> u64 \<Rightarrow> nat \<Rightarrow> ('b, bool) action"
  cb_supports_bulk_set :: bool
  cb_bulk_set :: "u64 \<Rightarrow> u8 list \<Rightarrow> nat \<Rightarrow> ('b, bool) action"
  cb_fetch :: "u64 \<Rightarrow> nat \<Rightarrow> ('b, u8 list) action"
  cb_io_read :: "u16 \<Rightarrow> u32 \<Rightarrow> ('b, u64) action"
  cb_io_write :: "u16 \<Rightarrow> u32 \<Rightarrow> u64 \<Rightarrow> ('b, unit) action"

text \<open>The default \<^verbatim>\<open>atomic_rmw\<close> of the trait, for the operations of one width.\<close>

definition default_atomic_rmw ::
  "(u64 \<Rightarrow> nat \<Rightarrow> ('b, unit) action) \<Rightarrow> (u64 \<Rightarrow> ('b, 'a::len word) action) \<Rightarrow> (u64 \<Rightarrow> 'a word \<Rightarrow> ('b, unit) action) \<Rightarrow>
   u64 \<Rightarrow> ('a word \<Rightarrow> 'a word) \<Rightarrow> ('b, 'a word) action" where
  "default_atomic_rmw preflight rd wr addr f =
     act_bind (preflight addr (LENGTH('a) div 8)) (\<lambda>_.
     act_bind (rd addr) (\<lambda>old.
     if f old \<noteq> old then act_bind (wr addr (f old)) (\<lambda>_. act_return old) else act_return old))"

section \<open>The flat bus\<close>

record FlatTestBus =
  flat_mem :: "u8 list"

definition FlatTestBus_new :: "nat \<Rightarrow> FlatTestBus" where
  "FlatTestBus_new n = \<lparr> flat_mem = replicate n 0 \<rparr>"

text \<open>\<^verbatim>\<open>range\<close>: the start index of a range inside the memory; an overflow of the sum is outside, too.\<close>

definition flat_range :: "FlatTestBus \<Rightarrow> u64 \<Rightarrow> nat \<Rightarrow> nat option" where
  "flat_range fb addr n = (if unat addr + n > length (flat_mem fb) then None else Some (unat addr))"

definition flat_read_u8 :: "u64 \<Rightarrow> (FlatTestBus, u8) action" where
  "flat_read_u8 vaddr fb =
     (if unat vaddr < length (flat_mem fb) then (Inr (flat_mem fb ! unat vaddr), fb) else (Inl (Fail MemoryFault), fb))"

definition flat_read_bytes :: "u64 \<Rightarrow> nat \<Rightarrow> (FlatTestBus, u8 list) action" where
  "flat_read_bytes vaddr n fb =
     (case flat_range fb vaddr n of
        None \<Rightarrow> (Inl (Fail MemoryFault), fb)
      | Some i \<Rightarrow> (Inr (take n (drop i (flat_mem fb))), fb))"

definition flat_write_u8 :: "u64 \<Rightarrow> u8 \<Rightarrow> (FlatTestBus, unit) action" where
  "flat_write_u8 vaddr v fb =
     (if unat vaddr < length (flat_mem fb) then (Inr (), fb\<lparr>flat_mem := (flat_mem fb)[unat vaddr := v]\<rparr>) else (Inl (Fail MemoryFault), fb))"

definition flat_write_bytes :: "u64 \<Rightarrow> u8 list \<Rightarrow> (FlatTestBus, unit) action" where
  "flat_write_bytes vaddr src fb =
     (case flat_range fb vaddr (length src) of
        None \<Rightarrow> (Inl (Fail MemoryFault), fb)
      | Some i \<Rightarrow> (Inr (), fb\<lparr>flat_mem := take i (flat_mem fb) @ src @ drop (i + length src) (flat_mem fb)\<rparr>))"

definition flat_preflight :: "u64 \<Rightarrow> nat \<Rightarrow> (FlatTestBus, unit) action" where
  "flat_preflight vaddr n fb =
     (case flat_range fb vaddr n of None \<Rightarrow> (Inl (Fail MemoryFault), fb) | Some _ \<Rightarrow> (Inr (), fb))"

text \<open>\<^verbatim>\<open>copy_within\<close> and the fill with a pattern; a product that overflows is outside of the memory, too.\<close>

definition flat_bulk_copy :: "u64 \<Rightarrow> u64 \<Rightarrow> nat \<Rightarrow> (FlatTestBus, bool) action" where
  "flat_bulk_copy dst src n fb =
     (if n = 0 \<or> dst = src then (Inr True, fb)
      else case flat_range fb src n of
        None \<Rightarrow> (Inl (Fail MemoryFault), fb)
      | Some i \<Rightarrow>
          (case flat_range fb dst n of
             None \<Rightarrow> (Inl (Fail MemoryFault), fb)
           | Some j \<Rightarrow>
               if i = j then (Inr True, fb)
               else (Inr True, fb\<lparr>flat_mem := take j (flat_mem fb) @ take n (drop i (flat_mem fb)) @ drop (j + n) (flat_mem fb)\<rparr>)))"

definition flat_bulk_set :: "u64 \<Rightarrow> u8 list \<Rightarrow> nat \<Rightarrow> (FlatTestBus, bool) action" where
  "flat_bulk_set dst pattern reps fb =
     (if reps = 0 \<or> pattern = [] then (Inr True, fb)
      else let total_bytes = length pattern * reps
           in case flat_range fb dst total_bytes of
                None \<Rightarrow> (Inl (Fail MemoryFault), fb)
              | Some i \<Rightarrow> (Inr True, fb\<lparr>flat_mem := take i (flat_mem fb) @ concat (replicate reps pattern) @ drop (i + total_bytes) (flat_mem fb)\<rparr>))"

definition flat_read_le :: "nat \<Rightarrow> u64 \<Rightarrow> (FlatTestBus, 'a::len word) action" where
  "flat_read_le n vaddr = act_map from_le_bytes (flat_read_bytes vaddr n)"

definition flat_write_le :: "nat \<Rightarrow> u64 \<Rightarrow> 'a::len word \<Rightarrow> (FlatTestBus, unit) action" where
  "flat_write_le n vaddr v = flat_write_bytes vaddr (to_le_bytes n v)"

text \<open>A fetch fills the first \<open>min max_len 15\<close> bytes of a window of 15 zeros.\<close>

definition pad15 :: "u8 list \<Rightarrow> u8 list" where
  "pad15 bs = bs @ replicate (15 - length bs) 0"

definition flat_fetch :: "u64 \<Rightarrow> nat \<Rightarrow> (FlatTestBus, u8 list) action" where
  "flat_fetch vaddr max_len = act_map pad15 (flat_read_bytes vaddr (min max_len 15))"

definition flat_bus :: "FlatTestBus CpuBus" where
  "flat_bus =
     \<lparr> cb_sync = (\<lambda>_ fb. fb), cb_invlpg = (\<lambda>_ fb. fb), cb_write_cr3 = (\<lambda>_ fb. fb),
       cb_read_u8 = flat_read_u8, cb_read_u16 = flat_read_le 2, cb_read_u32 = flat_read_le 4, cb_read_u64 = flat_read_le 8,
       cb_read_u128 = flat_read_le 16,
       cb_write_u8 = flat_write_u8, cb_write_u16 = flat_write_le 2, cb_write_u32 = flat_write_le 4, cb_write_u64 = flat_write_le 8,
       cb_write_u128 = flat_write_le 16,
       cb_atomic_rmw_u8 = default_atomic_rmw flat_preflight flat_read_u8 flat_write_u8,
       cb_atomic_rmw_u16 = default_atomic_rmw flat_preflight (flat_read_le 2) (flat_write_le 2),
       cb_atomic_rmw_u32 = default_atomic_rmw flat_preflight (flat_read_le 4) (flat_write_le 4),
       cb_atomic_rmw_u64 = default_atomic_rmw flat_preflight (flat_read_le 8) (flat_write_le 8),
       cb_atomic_rmw_u128 = default_atomic_rmw flat_preflight (flat_read_le 16) (flat_write_le 16),
       cb_read_bytes = flat_read_bytes, cb_write_bytes = flat_write_bytes, cb_preflight_write_bytes = flat_preflight,
       cb_supports_bulk_copy = True, cb_bulk_copy = flat_bulk_copy, cb_supports_bulk_set = True, cb_bulk_set = flat_bulk_set,
       cb_fetch = flat_fetch, cb_io_read = (\<lambda>_ _. act_return 0), cb_io_write = (\<lambda>_ _ _. act_return ()) \<rparr>"

section \<open>Accesses with wrapping linear addresses\<close>

definition wrapped_segment_len :: "CpuState \<Rightarrow> u64 \<Rightarrow> nat \<Rightarrow> nat" where
  "wrapped_segment_len s raw_addr remaining =
     (if cpu_mode s = Long then
        let rem_u64 = (if remaining < 2 ^ 64 then of_nat remaining else - 1 :: u64)
        in case checked_add raw_addr (if rem_u64 = 0 then 0 else rem_u64 - 1) of
             Some _ \<Rightarrow> remaining
           | None \<Rightarrow> min remaining (unat ((- 1 - raw_addr) + 1))
      else
        let addr32 = raw_addr AND 0xFFFFFFFF;
            mx = 0x100000000 - addr32;
            mx = (if \<not> a20_enabled s \<and> (cpu_mode s = Real \<or> cpu_mode s = Vm86)
                  then let low20 = addr32 AND 0x000FFFFF in min mx (0x100000 - low20) else mx)
        in min remaining (unat mx))"

definition contiguous_masked_start :: "CpuState \<Rightarrow> u64 \<Rightarrow> nat \<Rightarrow> u64 option" where
  "contiguous_masked_start s addr n =
     (if n = 0 then Some (apply_a20 s addr)
      else if wrapped_segment_len s addr n = n then Some (apply_a20 s addr) else None)"

text \<open>
  The loops over contiguous runs. The fuel is the number of bytes: every run has at least one.
\<close>

fun read_wrapped_loop :: "'b CpuBus \<Rightarrow> CpuState \<Rightarrow> u64 \<Rightarrow> nat \<Rightarrow> nat \<Rightarrow> u8 list \<Rightarrow> nat \<Rightarrow> ('b, u8 list) action" where
  "read_wrapped_loop B s addr n offset dst fuel =
     (if \<not> offset < n then act_return dst
      else case fuel of
        0 \<Rightarrow> (\<lambda>b. (Inl Diverge, b))
      | Suc fuel \<Rightarrow>
          (let raw = addr + of_nat offset;
               start = apply_a20 s raw;
               len = wrapped_segment_len s raw (n - offset)
           in act_bind (cb_read_bytes B start len) (\<lambda>bs. read_wrapped_loop B s addr n (offset + len) (dst @ bs) fuel)))"

definition read_bytes_wrapped :: "'b CpuBus \<Rightarrow> CpuState \<Rightarrow> u64 \<Rightarrow> nat \<Rightarrow> ('b, u8 list) action" where
  "read_bytes_wrapped B s addr n =
     (if n = 0 then act_return []
      else case contiguous_masked_start s addr n of
        Some start \<Rightarrow> cb_read_bytes B start n
      | None \<Rightarrow> read_wrapped_loop B s addr n 0 [] n)"

fun preflight_wrapped_loop :: "'b CpuBus \<Rightarrow> CpuState \<Rightarrow> u64 \<Rightarrow> nat \<Rightarrow> nat \<Rightarrow> nat \<Rightarrow> ('b, unit) action" where
  "preflight_wrapped_loop B s addr n offset fuel =
     (if \<not> offset < n then act_return ()
      else case fuel of
        0 \<Rightarrow> (\<lambda>b. (Inl Diverge, b))
      | Suc fuel \<Rightarrow>
          (let raw = addr + of_nat offset;
               start = apply_a20 s raw;
               len = wrapped_segment_len s raw (n - offset)
           in act_bind (cb_preflight_write_bytes B start len) (\<lambda>_. preflight_wrapped_loop B s addr n (offset + len) fuel)))"

fun write_wrapped_loop :: "'b CpuBus \<Rightarrow> CpuState \<Rightarrow> u64 \<Rightarrow> u8 list \<Rightarrow> nat \<Rightarrow> nat \<Rightarrow> ('b, unit) action" where
  "write_wrapped_loop B s addr src offset fuel =
     (if \<not> offset < length src then act_return ()
      else case fuel of
        0 \<Rightarrow> (\<lambda>b. (Inl Diverge, b))
      | Suc fuel \<Rightarrow>
          (let raw = addr + of_nat offset;
               start = apply_a20 s raw;
               len = wrapped_segment_len s raw (length src - offset)
           in act_bind (cb_write_bytes B start (take len (drop offset src))) (\<lambda>_. write_wrapped_loop B s addr src (offset + len) fuel)))"

definition write_bytes_wrapped :: "'b CpuBus \<Rightarrow> CpuState \<Rightarrow> u64 \<Rightarrow> u8 list \<Rightarrow> ('b, unit) action" where
  "write_bytes_wrapped B s addr src =
     (if src = [] then act_return ()
      else case contiguous_masked_start s addr (length src) of
        Some start \<Rightarrow> cb_write_bytes B start src
      | None \<Rightarrow>
          act_bind (preflight_wrapped_loop B s addr (length src) 0 (length src)) (\<lambda>_.
          write_wrapped_loop B s addr src 0 (length src)))"

definition read_u16_wrapped :: "'b CpuBus \<Rightarrow> CpuState \<Rightarrow> u64 \<Rightarrow> ('b, u16) action" where
  "read_u16_wrapped B s addr =
     (case contiguous_masked_start s addr 2 of
        Some start \<Rightarrow> cb_read_u16 B start
      | None \<Rightarrow> act_map from_le_bytes (read_bytes_wrapped B s addr 2))"

definition read_u32_wrapped :: "'b CpuBus \<Rightarrow> CpuState \<Rightarrow> u64 \<Rightarrow> ('b, u32) action" where
  "read_u32_wrapped B s addr =
     (case contiguous_masked_start s addr 4 of
        Some start \<Rightarrow> cb_read_u32 B start
      | None \<Rightarrow> act_map from_le_bytes (read_bytes_wrapped B s addr 4))"

definition read_u64_wrapped :: "'b CpuBus \<Rightarrow> CpuState \<Rightarrow> u64 \<Rightarrow> ('b, u64) action" where
  "read_u64_wrapped B s addr =
     (case contiguous_masked_start s addr 8 of
        Some start \<Rightarrow> cb_read_u64 B start
      | None \<Rightarrow> act_map from_le_bytes (read_bytes_wrapped B s addr 8))"

definition read_u128_wrapped :: "'b CpuBus \<Rightarrow> CpuState \<Rightarrow> u64 \<Rightarrow> ('b, u128) action" where
  "read_u128_wrapped B s addr =
     (case contiguous_masked_start s addr 16 of
        Some start \<Rightarrow> cb_read_u128 B start
      | None \<Rightarrow> act_map from_le_bytes (read_bytes_wrapped B s addr 16))"

definition write_u16_wrapped :: "'b CpuBus \<Rightarrow> CpuState \<Rightarrow> u64 \<Rightarrow> u16 \<Rightarrow> ('b, unit) action" where
  "write_u16_wrapped B s addr v =
     (case contiguous_masked_start s addr 2 of
        Some start \<Rightarrow> cb_write_u16 B start v
      | None \<Rightarrow> write_bytes_wrapped B s addr (to_le_bytes 2 v))"

definition write_u32_wrapped :: "'b CpuBus \<Rightarrow> CpuState \<Rightarrow> u64 \<Rightarrow> u32 \<Rightarrow> ('b, unit) action" where
  "write_u32_wrapped B s addr v =
     (case contiguous_masked_start s addr 4 of
        Some start \<Rightarrow> cb_write_u32 B start v
      | None \<Rightarrow> write_bytes_wrapped B s addr (to_le_bytes 4 v))"

definition write_u64_wrapped :: "'b CpuBus \<Rightarrow> CpuState \<Rightarrow> u64 \<Rightarrow> u64 \<Rightarrow> ('b, unit) action" where
  "write_u64_wrapped B s addr v =
     (case contiguous_masked_start s addr 8 of
        Some start \<Rightarrow> cb_write_u64 B start v
      | None \<Rightarrow> write_bytes_wrapped B s addr (to_le_bytes 8 v))"

definition write_u128_wrapped :: "'b CpuBus \<Rightarrow> CpuState \<Rightarrow> u64 \<Rightarrow> u128 \<Rightarrow> ('b, unit) action" where
  "write_u128_wrapped B s addr v =
     (case contiguous_masked_start s addr 16 of
        Some start \<Rightarrow> cb_write_u128 B start v
      | None \<Rightarrow> write_bytes_wrapped B s addr (to_le_bytes 16 v))"

fun fetch_wrapped_loop :: "'b CpuBus \<Rightarrow> CpuState \<Rightarrow> u64 \<Rightarrow> nat \<Rightarrow> nat \<Rightarrow> u8 list \<Rightarrow> nat \<Rightarrow> ('b, u8 list) action" where
  "fetch_wrapped_loop B s addr n offset buf fuel =
     (if \<not> offset < n then act_return (pad15 buf)
      else case fuel of
        0 \<Rightarrow> (\<lambda>b. (Inl Diverge, b))
      | Suc fuel \<Rightarrow>
          (let raw = addr + of_nat offset;
               start = apply_a20 s raw;
               seg_len = wrapped_segment_len s raw (n - offset)
           in act_bind (cb_fetch B start seg_len) (\<lambda>chunk. fetch_wrapped_loop B s addr n (offset + seg_len) (buf @ take seg_len chunk) fuel)))"

definition fetch_wrapped :: "'b CpuBus \<Rightarrow> CpuState \<Rightarrow> u64 \<Rightarrow> nat \<Rightarrow> ('b, u8 list) action" where
  "fetch_wrapped B s addr max_len =
     (let n = min max_len 15
      in if n = 0 then act_return (replicate 15 0)
         else case contiguous_masked_start s addr n of
           Some start \<Rightarrow> cb_fetch B start n
         | None \<Rightarrow> fetch_wrapped_loop B s addr n 0 [] n)"

fun fetch_seg_ip_loop :: "'b CpuBus \<Rightarrow> CpuState \<Rightarrow> u64 \<Rightarrow> u64 \<Rightarrow> nat \<Rightarrow> nat \<Rightarrow> u8 list \<Rightarrow> nat \<Rightarrow> ('b, u8 list) action" where
  "fetch_seg_ip_loop B s base ip n offset buf fuel =
     (if \<not> offset < n then act_return (pad15 buf)
      else case fuel of
        0 \<Rightarrow> (\<lambda>b. (Inl Diverge, b))
      | Suc fuel \<Rightarrow>
          (let ip_off = (ip + of_nat offset) AND 0xFFFF;
               raw_addr = base + ip_off;
               until_ip_wrap = unat (min (0x10000 - ip_off) (of_nat (n - offset)));
               seg_len = wrapped_segment_len s raw_addr until_ip_wrap;
               start = apply_a20 s raw_addr
           in act_bind (cb_fetch B start seg_len) (\<lambda>chunk. fetch_seg_ip_loop B s base ip n (offset + seg_len) (buf @ take seg_len chunk) fuel)))"

definition fetch_wrapped_seg_ip :: "'b CpuBus \<Rightarrow> CpuState \<Rightarrow> u64 \<Rightarrow> u64 \<Rightarrow> nat \<Rightarrow> ('b, u8 list) action" where
  "fetch_wrapped_seg_ip B s base ip max_len =
     (if bitness s \<noteq> 16 then fetch_wrapped B s (apply_a20 s (base + ip)) max_len
      else
        let n = min max_len 15
        in if n = 0 then act_return (replicate 15 0)
           else fetch_seg_ip_loop B s base (ip AND 0xFFFF) n 0 [] n)"

definition fetch_wrapped_seg_ip_first_page :: "'b CpuBus \<Rightarrow> CpuState \<Rightarrow> u64 \<Rightarrow> u64 \<Rightarrow> nat \<Rightarrow> ('b, u8 list \<times> nat) action" where
  "fetch_wrapped_seg_ip_first_page B s base ip max_len =
     (let max_len = min max_len 15
      in if max_len = 0 then act_return (replicate 15 0, 0)
         else if cpu_mode s = Long \<and> base + ip \<le> - 1 - 14 then
           let linear = base + ip;
               until_page_boundary = 0x1000 - unat (linear AND 0xFFF);
               len = min max_len until_page_boundary
           in act_bind (cb_fetch B linear len) (\<lambda>bs. act_return (bs, len))
         else
           let effective_ip = (if bitness s = 16 then ip AND 0xFFFF else ip);
               raw_addr = base + effective_ip;
               len = (if bitness s = 16 then min max_len (unat (0x10000 - effective_ip)) else max_len);
               len = wrapped_segment_len s raw_addr len;
               linear = apply_a20 s raw_addr;
               until_page_boundary = 0x1000 - unat (linear AND 0xFFF);
               len = min len until_page_boundary
           in act_bind (fetch_wrapped_seg_ip B s base ip len) (\<lambda>bs. act_return (bs, len)))"

declare read_wrapped_loop.simps [simp del] preflight_wrapped_loop.simps [simp del] write_wrapped_loop.simps [simp del]
  fetch_wrapped_loop.simps [simp del] fetch_seg_ip_loop.simps [simp del]

section \<open>Runs of addresses\<close>

lemma apply_a20_long [simp]: "cpu_mode s = Long \<Longrightarrow> apply_a20 s a = a"
  by (simp add: apply_a20_def)

lemma unat_and32: "unat (a AND 0xFFFFFFFF) = unat a mod 2 ^ 32" for a :: u64
  using unat_and_mask [of a 32] by (simp add: mask_eq_exp_minus_1)

lemma unat_and20: "unat (a AND 0xFFFFF) = unat a mod 2 ^ 20" for a :: u64
  using unat_and_mask [of a 20] by (simp add: mask_eq_exp_minus_1)

lemma bit_unat: "bit a k \<longleftrightarrow> odd (unat a div 2 ^ k)" for a :: "'a::len word"
  by (simp add: bit_unsigned_iff flip: bit_iff_odd)

lemma unat_exp: "k < 64 \<Longrightarrow> unat (2 ^ k :: u64) = 2 ^ k"
  using unat_of_nat [of "2 ^ k", where 'a = 64] power_strict_increasing [of k 64 "2 :: nat"] by simp

lemma unat_clear_bit: "unat (a AND NOT (push_bit k 1)) = unat a - (if bit a k then 2 ^ k else 0)" for a :: u64
proof (cases "bit a k")
  case True
  have p: "unat (push_bit k 1 :: u64) = 2 ^ k" using bit_imp_le_length [OF True] unat_exp [of k] by simp
  have d: "(a AND NOT (push_bit k 1)) AND push_bit k 1 = 0" "(a AND NOT (push_bit k 1)) OR push_bit k 1 = a"
    using True by (auto intro!: bit_word_eqI simp: bit_simps)
  then have "a = (a AND NOT (push_bit k 1)) + push_bit k 1" by (metis disjunctive_add_eq_or)
  moreover have "2 ^ k \<le> unat a" using True unfolding bit_unat by (metis div_less even_zero not_less)
  then have "push_bit k 1 \<le> a" using p by (simp add: word_le_nat_alt)
  ultimately have "unat (a AND NOT (push_bit k 1)) = unat a - unat (push_bit k 1 :: u64)" by (metis add_diff_cancel_right' unat_sub)
  then show ?thesis using True p by simp
next
  case False
  then have "a AND NOT (push_bit k 1) = a" by (auto intro!: bit_word_eqI simp: bit_simps)
  then show ?thesis using False by simp
qed

definition a20_masked :: "CpuState \<Rightarrow> bool" where
  "a20_masked s \<longleftrightarrow> \<not> a20_enabled s \<and> (cpu_mode s = Real \<or> cpu_mode s = Vm86)"

lemma unat_apply_a20:
  "unat (apply_a20 s a) =
     (if cpu_mode s = Long then unat a
      else if a20_masked s then unat a mod 2 ^ 32 - (if odd (unat a mod 2 ^ 32 div 2 ^ 20) then 2 ^ 20 else 0)
      else unat a mod 2 ^ 32)"
  unfolding apply_a20_def Let_def a20_masked_def [symmetric] if_distrib [of unat] unat_clear_bit bit_unat unat_and32 by (auto simp: a20_masked_def)

lemma wrapped_segment_len_eq:
  assumes "0 < n" "n < 2 ^ 64"
  shows "wrapped_segment_len s a n = min n
    (if cpu_mode s = Long then 2 ^ 64 - unat a
     else if a20_masked s then min (2 ^ 32 - unat a mod 2 ^ 32) (2 ^ 20 - unat a mod 2 ^ 20)
     else 2 ^ 32 - unat a mod 2 ^ 32)"
proof (cases "cpu_mode s = Long")
  case True
  have n: "unat (of_nat n :: u64) = n" using assms by (simp add: unat_of_nat)
  then have n': "(of_nat n :: u64) \<noteq> 0" using assms(1) by (metis unat_0 less_irrefl)
  then have n'': "unat (of_nat n - 1 :: u64) = n - 1" using n by (simp add: unat_minus_one)
  have "unat (- 1 - a + 1) = 2 ^ 64 - unat a" if "unat a \<noteq> 0"
  proof -
    have "unat (- 1 - a) = unat (- 1 :: u64) - unat a" by (intro unat_sub) simp
    then have "unat (- 1 - a) = 2 ^ 64 - 1 - unat a" by (simp add: unsigned_minus_1_eq_mask mask_eq_exp_minus_1)
    then show ?thesis using that unat_less [of a] unat_inc [of "- 1 - a"] by simp
  qed
  then show ?thesis using True assms n n' n'' unat_less [of a] by (auto simp: wrapped_segment_len_def checked_add_def Let_def)
next
  case False
  have "unat (0x100000000 - (a AND 0xFFFFFFFF)) = 2 ^ 32 - unat a mod 2 ^ 32"
    using unat_and32 [of a] by (subst unat_sub) (auto simp: word_le_nat_alt)
  moreover have "(a AND 0xFFFFFFFF) AND 0xFFFFF = a AND 0xFFFFF" by (simp add: and.assoc)
  moreover have "unat (0x100000 - (a AND 0xFFFFF)) = 2 ^ 20 - unat a mod 2 ^ 20"
    using unat_and20 [of a] by (subst unat_sub) (auto simp: word_le_nat_alt)
  ultimately show ?thesis using False by (auto simp: wrapped_segment_len_def Let_def a20_masked_def min_def word_le_nat_alt)
qed

text \<open>A run has at least one byte, stays in bounds, and is contiguous after masking.\<close>

lemma wrapped_segment_len_bounds:
  assumes "0 < n" "n < 2 ^ 64"
  shows "0 < wrapped_segment_len s a n" "wrapped_segment_len s a n \<le> n"
    "unat (apply_a20 s a) + wrapped_segment_len s a n \<le> (if cpu_mode s = Long then 2 ^ 64 else 2 ^ 32)"
proof -
  have m: "unat a mod 2 ^ 32 < 2 ^ 32" "unat a mod 2 ^ 20 < 2 ^ 20" by simp_all
  show "0 < wrapped_segment_len s a n" "wrapped_segment_len s a n \<le> n"
    using assms(1) m unat_less [of a] unfolding wrapped_segment_len_eq [OF assms] by auto
  have "unat (apply_a20 s a) \<le> (if cpu_mode s = Long then unat a else unat a mod 2 ^ 32)"
    unfolding unat_apply_a20 by auto
  then show "unat (apply_a20 s a) + wrapped_segment_len s a n \<le> (if cpu_mode s = Long then 2 ^ 64 else 2 ^ 32)"
    using m unat_less [of a] unfolding wrapped_segment_len_eq [OF assms] by (auto split: if_splits)
qed

lemma run_contiguous:
  assumes n: "0 < n" "n < 2 ^ 64" and i: "i < wrapped_segment_len s a n"
  shows "apply_a20 s (a + of_nat i) = apply_a20 s a + of_nat i"
proof (cases "cpu_mode s = Long")
  case False
  have i32: "unat a mod 2 ^ 32 + i < 2 ^ 32" and i20: "a20_masked s \<Longrightarrow> unat a mod 2 ^ 20 + i < 2 ^ 20"
    using i False mod_less_divisor [of "2 ^ 32" "unat a"] mod_less_divisor [of "2 ^ 20" "unat a"]
    unfolding wrapped_segment_len_eq [OF n] by (auto split: if_splits)
  have i64: "i < 2 ^ 32" using i32 by linarith
  have u: "unat (a + of_nat i) mod 2 ^ 32 = unat a mod 2 ^ 32 + i"
  proof -
    have "unat (a + of_nat i) = (unat a + i) mod 2 ^ 64" using i64 by (simp add: unat_word_ariths unat_of_nat)
    then have "unat (a + of_nat i) mod 2 ^ 32 = (unat a + i) mod 2 ^ 32" by (simp add: mod_mod_cancel)
    also have "\<dots> = (unat a mod 2 ^ 32 + i) mod 2 ^ 32" by (simp add: mod_simps)
    finally show ?thesis using i32 by simp
  qed
  define x where "x = unat a mod 2 ^ 32"
  have x: "x < 2 ^ 32" "x + i < 2 ^ 32" using i32 by (simp_all add: x_def)
  have od: "(x + i) div 2 ^ 20 = x div 2 ^ 20" if "a20_masked s"
  proof -
    have "x mod 2 ^ 20 = unat a mod 2 ^ 20" unfolding x_def by (simp add: mod_mod_cancel)
    then have "x mod 2 ^ 20 + i < 2 ^ 20" using i20 [OF that] by simp
    then show ?thesis by (metis div_less add_0_right div_mult_mod_eq div_mult_self3 add.assoc power_not_zero zero_neq_numeral)
  qed
  have ge: "2 ^ 20 \<le> x" if "odd (x div 2 ^ 20)" using that by (metis div_less even_zero not_less)
  have "unat (apply_a20 s a + of_nat i) = unat (apply_a20 s a) + i"
    using False i64 x unat_of_nat [of i, where 'a = 64] by (simp add: unat_word_ariths unat_apply_a20 x_def [symmetric])
  also have "\<dots> = unat (apply_a20 s (a + of_nat i))"
    using False od ge unfolding unat_apply_a20 u x_def [symmetric] by auto
  finally show ?thesis by (simp add: word_unat_eq_iff)
qed (simp add: apply_a20_def)

lemma contiguous_masked_start_Some:
  assumes "contiguous_masked_start s a n = Some start" "n < 2 ^ 64"
  shows "start = apply_a20 s a" "i < n \<Longrightarrow> apply_a20 s (a + of_nat i) = start + of_nat i"
    "0 < n \<Longrightarrow> unat start + n \<le> (if cpu_mode s = Long then 2 ^ 64 else 2 ^ 32)"
proof -
  show st: "start = apply_a20 s a" using assms(1) by (auto simp: contiguous_masked_start_def split: if_splits)
  have w: "wrapped_segment_len s a n = n" if "0 < n" using assms(1) that by (auto simp: contiguous_masked_start_def split: if_splits)
  show "apply_a20 s (a + of_nat i) = start + of_nat i" if "i < n"
    using run_contiguous [of n i s a] w that assms(2) st by simp
  show "unat start + n \<le> (if cpu_mode s = Long then 2 ^ 64 else 2 ^ 32)" if "0 < n"
    using wrapped_segment_len_bounds(3) [OF that assms(2), of s a] w [OF that] st by simp
qed

section \<open>What a failed access leaves\<close>

text \<open>
  A \<^emph>\<open>quiet\<close> action changes nothing that matters; a \<^emph>\<open>fault-safe\<close> action changes nothing that matters when it fails.
  What matters is up to a relation, so that a bus may fill caches or set accessed bits.
\<close>

definition quiet :: "('b \<Rightarrow> bool) \<Rightarrow> ('b \<Rightarrow> 'b \<Rightarrow> bool) \<Rightarrow> ('b, 'a) action \<Rightarrow> bool" where
  "quiet ok same m \<longleftrightarrow> (\<forall>b. ok b \<longrightarrow> ok (snd (m b)) \<and> same b (snd (m b)))"

definition fault_safe :: "('b \<Rightarrow> bool) \<Rightarrow> ('b \<Rightarrow> 'b \<Rightarrow> bool) \<Rightarrow> ('b, 'a) action \<Rightarrow> bool" where
  "fault_safe ok same m \<longleftrightarrow> (\<forall>b. ok b \<longrightarrow> ok (snd (m b)) \<and> (isl (fst (m b)) \<longrightarrow> same b (snd (m b))))"

lemma quietD: "quiet ok same m \<Longrightarrow> ok b \<Longrightarrow> m b = (r, b') \<Longrightarrow> ok b' \<and> same b b'"
  unfolding quiet_def by (metis snd_conv)

lemma fault_safeD: "fault_safe ok same m \<Longrightarrow> ok b \<Longrightarrow> m b = (r, b') \<Longrightarrow> ok b' \<and> (isl r \<longrightarrow> same b b')"
  unfolding fault_safe_def by (metis fst_conv snd_conv)

lemma quiet_fault_safe [intro]: "quiet ok same m \<Longrightarrow> fault_safe ok same m"
  by (auto simp: quiet_def fault_safe_def)

lemma act_bind_simps [simp]:
  "m s = (Inr x, t) \<Longrightarrow> act_bind m f s = f x t" "m s = (Inl e, t) \<Longrightarrow> act_bind m f s = (Inl e, t)"
  by (simp_all add: act_bind_def)

lemma act_bind_return [simp]: "act_bind (act_return x) f = f x"
  by (rule ext) (simp add: act_bind_def act_return_def)

lemma act_bind_cases:
  obtains (Ok) x t where "m s = (Inr x, t)" "act_bind m f s = f x t" | (Err) e t where "m s = (Inl e, t)" "act_bind m f s = (Inl e, t)"
  by (cases "m s"; cases "fst (m s)") auto

locale bus_relation =
  fixes ok :: "'b \<Rightarrow> bool" and same :: "'b \<Rightarrow> 'b \<Rightarrow> bool"
  assumes same_refl [simp]: "same b b" and same_trans [trans]: "same a b \<Longrightarrow> same b c \<Longrightarrow> same a c"
begin

lemma quiet_return [simp]: "quiet ok same (act_return x)" "quiet ok same (act_fail e)" "quiet ok same (\<lambda>b. (Inl e', b))" "quiet ok same act_panic"
  by (simp_all add: quiet_def act_return_def act_fail_def act_panic_def)

lemma quiet_bind:
  assumes "quiet ok same m" "\<And>x. quiet ok same (f x)"
  shows "quiet ok same (act_bind m f)"
  unfolding quiet_def
proof (intro allI impI)
  fix b assume b: "ok b"
  show "ok (snd (act_bind m f b)) \<and> same b (snd (act_bind m f b))"
  proof (cases rule: act_bind_cases [of m b f])
    case (Ok x t)
    then have t: "ok t" "same b t" using quietD [OF assms(1) b] by auto
    then show ?thesis using quietD [OF assms(2) t(1), of x] Ok(2) by (metis prod.collapse same_trans)
  next
    case (Err e t)
    then show ?thesis using quietD [OF assms(1) b] by auto
  qed
qed

lemma fault_safe_bind:
  assumes "quiet ok same m" "\<And>x. fault_safe ok same (f x)"
  shows "fault_safe ok same (act_bind m f)"
  unfolding fault_safe_def
proof (intro allI impI)
  fix b assume b: "ok b"
  show "ok (snd (act_bind m f b)) \<and> (isl (fst (act_bind m f b)) \<longrightarrow> same b (snd (act_bind m f b)))"
  proof (cases rule: act_bind_cases [of m b f])
    case (Ok x t)
    then have t: "ok t" "same b t" using quietD [OF assms(1) b] by auto
    then show ?thesis using fault_safeD [OF assms(2) t(1), of x] Ok(2) by (metis prod.collapse same_trans)
  next
    case (Err e t)
    then show ?thesis using quietD [OF assms(1) b] by auto
  qed
qed

lemma fault_safe_map:
  assumes "fault_safe ok same m"
  shows "fault_safe ok same (act_bind m (\<lambda>x. act_return (f x)))"
  unfolding fault_safe_def
proof (intro allI impI)
  fix b assume b: "ok b"
  show "ok (snd (act_bind m (\<lambda>x. act_return (f x)) b)) \<and>
      (isl (fst (act_bind m (\<lambda>x. act_return (f x)) b)) \<longrightarrow> same b (snd (act_bind m (\<lambda>x. act_return (f x)) b)))"
    using fault_safeD [OF assms b]
    by (cases rule: act_bind_cases [of m b "\<lambda>x. act_return (f x)"]) (auto simp: act_return_def)
qed

lemma quiet_map: "quiet ok same m \<Longrightarrow> quiet ok same (act_map f m)"
  unfolding act_map_def by (rule quiet_bind) simp_all

end

text \<open>What an interpreter needs of its bus for precise exceptions.\<close>

locale fault_safe_bus = bus_relation ok same for ok :: "'b \<Rightarrow> bool" and same +
  fixes B :: "'b CpuBus"
  assumes read_quiet: "quiet ok same (cb_read_u8 B a)" "quiet ok same (cb_read_u16 B a)" "quiet ok same (cb_read_u32 B a)"
      "quiet ok same (cb_read_u64 B a)" "quiet ok same (cb_read_u128 B a)" "quiet ok same (cb_read_bytes B a n)"
      "quiet ok same (cb_preflight_write_bytes B a n)" "quiet ok same (cb_fetch B a n)"
    and write_safe: "fault_safe ok same (cb_write_u8 B a v8)" "fault_safe ok same (cb_write_u16 B a v16)" "fault_safe ok same (cb_write_u32 B a v32)"
      "fault_safe ok same (cb_write_u64 B a v64)" "fault_safe ok same (cb_write_u128 B a v128)" "fault_safe ok same (cb_write_bytes B a bs)"
    and rmw_safe: "fault_safe ok same (cb_atomic_rmw_u8 B a f8)" "fault_safe ok same (cb_atomic_rmw_u16 B a f16)"
      "fault_safe ok same (cb_atomic_rmw_u32 B a f32)" "fault_safe ok same (cb_atomic_rmw_u64 B a f64)" "fault_safe ok same (cb_atomic_rmw_u128 B a f128)"
begin

lemma read_wrapped_loop_quiet: "quiet ok same (read_wrapped_loop B s addr n offset dst fuel)"
proof (induction fuel arbitrary: offset dst)
  case (Suc fuel)
  show ?case
    using Suc by (subst read_wrapped_loop.simps) (simp add: Let_def quiet_bind read_quiet)
qed (subst read_wrapped_loop.simps; simp)

lemma preflight_wrapped_loop_quiet: "quiet ok same (preflight_wrapped_loop B s addr n offset fuel)"
proof (induction fuel arbitrary: offset)
  case (Suc fuel)
  show ?case
    using Suc by (subst preflight_wrapped_loop.simps) (simp add: Let_def quiet_bind read_quiet)
qed (subst preflight_wrapped_loop.simps; simp)

lemma fetch_wrapped_loop_quiet: "quiet ok same (fetch_wrapped_loop B s addr n offset buf fuel)"
proof (induction fuel arbitrary: offset buf)
  case (Suc fuel)
  show ?case
    using Suc by (subst fetch_wrapped_loop.simps) (simp add: Let_def quiet_bind read_quiet)
qed (subst fetch_wrapped_loop.simps; simp)

lemma fetch_seg_ip_loop_quiet: "quiet ok same (fetch_seg_ip_loop B s base ip n offset buf fuel)"
proof (induction fuel arbitrary: offset buf)
  case (Suc fuel)
  show ?case
    using Suc by (subst fetch_seg_ip_loop.simps) (simp add: Let_def quiet_bind read_quiet)
qed (subst fetch_seg_ip_loop.simps; simp)

lemma read_bytes_wrapped_quiet: "quiet ok same (read_bytes_wrapped B s addr n)"
  unfolding read_bytes_wrapped_def
  by (simp add: read_quiet read_wrapped_loop_quiet split: option.split)

lemma reads_wrapped_quiet:
  "quiet ok same (read_u16_wrapped B s addr)" "quiet ok same (read_u32_wrapped B s addr)"
  "quiet ok same (read_u64_wrapped B s addr)" "quiet ok same (read_u128_wrapped B s addr)"
  unfolding read_u16_wrapped_def read_u32_wrapped_def read_u64_wrapped_def read_u128_wrapped_def
  by (simp_all add: read_quiet quiet_map read_bytes_wrapped_quiet split: option.split)

lemma fetch_wrapped_quiet: "quiet ok same (fetch_wrapped B s addr n)"
  unfolding fetch_wrapped_def
  by (simp add: Let_def read_quiet fetch_wrapped_loop_quiet split: option.split)

lemma fetch_seg_ip_quiet:
  "quiet ok same (fetch_wrapped_seg_ip B s base ip n)" "quiet ok same (fetch_wrapped_seg_ip_first_page B s base ip n)"
proof -
  show f: "quiet ok same (fetch_wrapped_seg_ip B s base ip n)" for n
    unfolding fetch_wrapped_seg_ip_def
    by (simp add: Let_def fetch_wrapped_quiet fetch_seg_ip_loop_quiet)
  show "quiet ok same (fetch_wrapped_seg_ip_first_page B s base ip n)"
    unfolding fetch_wrapped_seg_ip_first_page_def by (simp add: Let_def quiet_bind read_quiet f)
qed

lemma write_bytes_wrapped_safe:
  "contiguous_masked_start s addr (length src) \<noteq> None \<Longrightarrow> fault_safe ok same (write_bytes_wrapped B s addr src)"
  unfolding write_bytes_wrapped_def by (auto simp: write_safe)

lemma writes_wrapped_safe:
  "contiguous_masked_start s addr 2 \<noteq> None \<Longrightarrow> fault_safe ok same (write_u16_wrapped B s addr v2)"
  "contiguous_masked_start s addr 4 \<noteq> None \<Longrightarrow> fault_safe ok same (write_u32_wrapped B s addr v4)"
  "contiguous_masked_start s addr 8 \<noteq> None \<Longrightarrow> fault_safe ok same (write_u64_wrapped B s addr v8)"
  "contiguous_masked_start s addr 16 \<noteq> None \<Longrightarrow> fault_safe ok same (write_u128_wrapped B s addr v16)"
  unfolding write_u16_wrapped_def write_u32_wrapped_def write_u64_wrapped_def write_u128_wrapped_def by (auto simp: write_safe)

end

section \<open>A bus as a memory of bytes\<close>

text \<open>
  Below the limit \<open>lim\<close>, a bus holds a byte at every accessible address; \<open>stored\<close> is what a byte becomes when a value is written to
  it (the value in RAM, the old byte in ROM).
\<close>

text \<open>A store of \<open>bs\<close> from \<open>a\<close> on, byte by byte: \<open>wr\<close> says what a byte becomes when a value is stored to it.\<close>

definition run_stored :: "nat \<Rightarrow> ('b \<Rightarrow> u64 \<Rightarrow> bool) \<Rightarrow> ('b \<Rightarrow> u64 \<Rightarrow> u8) \<Rightarrow> ('b \<Rightarrow> u64 \<Rightarrow> u8 \<Rightarrow> u8) \<Rightarrow> 'b \<Rightarrow> u64 \<Rightarrow> u8 list \<Rightarrow> 'b \<Rightarrow> bool" where
  "run_stored lim acc byte wr b a bs b' \<longleftrightarrow> acc b' = acc b \<and> wr b' = wr b \<and>
     (\<forall>x. unat x < lim \<longrightarrow>
        byte b' x = (if unat a \<le> unat x \<and> unat x < unat a + length bs then wr b x (bs ! (unat x - unat a)) else byte b x))"

locale linear_bus = fault_safe_bus ok same B for ok :: "'b \<Rightarrow> bool" and same and B :: "'b CpuBus" +
  fixes lim :: nat and acc :: "'b \<Rightarrow> u64 \<Rightarrow> bool" and byte :: "'b \<Rightarrow> u64 \<Rightarrow> u8" and stored :: "'b \<Rightarrow> u64 \<Rightarrow> u8 \<Rightarrow> u8"
  assumes lim: "2 ^ 32 \<le> lim" "lim \<le> 2 ^ 64"
    and read_run: "ok b \<Longrightarrow> 0 < n \<Longrightarrow> unat a + n \<le> lim \<Longrightarrow> (\<And>i. i < n \<Longrightarrow> acc b (a + of_nat i)) \<Longrightarrow>
      cb_read_bytes B a n b = (Inr (map (\<lambda>i. byte b (a + of_nat i)) [0..<n]), b)"
    and fetch_run: "ok b \<Longrightarrow> 0 < n \<Longrightarrow> n \<le> 15 \<Longrightarrow> unat a + n \<le> lim \<Longrightarrow> (\<And>i. i < n \<Longrightarrow> acc b (a + of_nat i)) \<Longrightarrow>
      \<exists>b'. cb_fetch B a n b = (Inr (pad15 (map (\<lambda>i. byte b (a + of_nat i)) [0..<n])), b') \<and> acc b' = acc b \<and> byte b' = byte b"
    and preflight_run: "ok b \<Longrightarrow> 0 < n \<Longrightarrow> unat a + n \<le> lim \<Longrightarrow> (\<And>i. i < n \<Longrightarrow> acc b (a + of_nat i)) \<Longrightarrow> cb_preflight_write_bytes B a n b = (Inr (), b)"
    and write_run: "ok b \<Longrightarrow> bs \<noteq> [] \<Longrightarrow> unat a + length bs \<le> lim \<Longrightarrow> (\<And>i. i < length bs \<Longrightarrow> acc b (a + of_nat i)) \<Longrightarrow>
      \<exists>b'. cb_write_bytes B a bs b = (Inr (), b') \<and> run_stored lim acc byte stored b a bs b'"
    and read_scalar: "ok b \<Longrightarrow> unat a + 1 \<le> lim \<Longrightarrow> cb_read_u8 B a b = act_map from_le_bytes (cb_read_bytes B a 1) b"
      "ok b \<Longrightarrow> unat a + 2 \<le> lim \<Longrightarrow> cb_read_u16 B a b = act_map from_le_bytes (cb_read_bytes B a 2) b"
      "ok b \<Longrightarrow> unat a + 4 \<le> lim \<Longrightarrow> cb_read_u32 B a b = act_map from_le_bytes (cb_read_bytes B a 4) b"
      "ok b \<Longrightarrow> unat a + 8 \<le> lim \<Longrightarrow> cb_read_u64 B a b = act_map from_le_bytes (cb_read_bytes B a 8) b"
      "ok b \<Longrightarrow> unat a + 16 \<le> lim \<Longrightarrow> cb_read_u128 B a b = act_map from_le_bytes (cb_read_bytes B a 16) b"
    and write_scalar: "ok b \<Longrightarrow> unat a + 1 \<le> lim \<Longrightarrow> acc b a \<Longrightarrow>
        \<exists>b'. cb_write_u8 B a v8 b = (Inr (), b') \<and> run_stored lim acc byte stored b a (to_le_bytes 1 v8) b'"
      "ok b \<Longrightarrow> unat a + 2 \<le> lim \<Longrightarrow> (\<And>i. i < 2 \<Longrightarrow> acc b (a + of_nat i)) \<Longrightarrow>
        \<exists>b'. cb_write_u16 B a v16 b = (Inr (), b') \<and> run_stored lim acc byte stored b a (to_le_bytes 2 v16) b'"
      "ok b \<Longrightarrow> unat a + 4 \<le> lim \<Longrightarrow> (\<And>i. i < 4 \<Longrightarrow> acc b (a + of_nat i)) \<Longrightarrow>
        \<exists>b'. cb_write_u32 B a v32 b = (Inr (), b') \<and> run_stored lim acc byte stored b a (to_le_bytes 4 v32) b'"
      "ok b \<Longrightarrow> unat a + 8 \<le> lim \<Longrightarrow> (\<And>i. i < 8 \<Longrightarrow> acc b (a + of_nat i)) \<Longrightarrow>
        \<exists>b'. cb_write_u64 B a v64 b = (Inr (), b') \<and> run_stored lim acc byte stored b a (to_le_bytes 8 v64) b'"
      "ok b \<Longrightarrow> unat a + 16 \<le> lim \<Longrightarrow> (\<And>i. i < 16 \<Longrightarrow> acc b (a + of_nat i)) \<Longrightarrow>
        \<exists>b'. cb_write_u128 B a v128 b = (Inr (), b') \<and> run_stored lim acc byte stored b a (to_le_bytes 16 v128) b'"
begin

text \<open>The addresses of a wrapped range, and the memory after storing bytes at them, in order.\<close>

definition at :: "CpuState \<Rightarrow> u64 \<Rightarrow> nat \<Rightarrow> u64" where
  "at s addr i = apply_a20 s (addr + of_nat i)"

definition covered :: "'b \<Rightarrow> CpuState \<Rightarrow> u64 \<Rightarrow> nat \<Rightarrow> bool" where
  "covered b s addr n \<longleftrightarrow> ok b \<and> n < 2 ^ 64 \<and> (cpu_mode s = Long \<longrightarrow> lim = 2 ^ 64) \<and> (\<forall>i<n. acc b (at s addr i))"

lemma run_at:
  assumes "0 < n" "n < 2 ^ 64" "j < wrapped_segment_len s (addr + of_nat off) n"
  shows "at s addr off + of_nat j = at s addr (off + j)"
  using run_contiguous [OF assms] by (simp add: at_def add.assoc)

lemma run_limit:
  assumes "0 < n" "n < 2 ^ 64" "cpu_mode s = Long \<longrightarrow> lim = 2 ^ 64"
  shows "unat (at s addr off) + wrapped_segment_len s (addr + of_nat off) n \<le> lim"
  using wrapped_segment_len_bounds(3) [OF assms(1,2), of s "addr + of_nat off"] assms(3) lim(1) by (auto simp: at_def split: if_splits)

lemma read_wrapped_loop_bytes:
  assumes "covered b s addr n" "off \<le> n" "n - off \<le> fuel"
  shows "read_wrapped_loop B s addr n off dst fuel b = (Inr (dst @ map (\<lambda>i. byte b (at s addr i)) [off..<n]), b)"
  using assms(2,3)
proof (induction fuel arbitrary: off dst)
  case 0
  then show ?case by (subst read_wrapped_loop.simps) (simp add: act_return_def)
next
  case (Suc fuel)
  show ?case
  proof (cases "off < n")
    case False
    then show ?thesis using Suc.prems by (subst read_wrapped_loop.simps) (simp add: act_return_def)
  next
    case True
    let ?len = "wrapped_segment_len s (addr + of_nat off) (n - off)"
    have n: "0 < n - off" "n - off < 2 ^ 64" and c: "cpu_mode s = Long \<longrightarrow> lim = 2 ^ 64" "ok b"
      using True assms(1) by (auto simp: covered_def)
    note len = wrapped_segment_len_bounds(1,2) [OF n, of s "addr + of_nat off"]
    have "cb_read_bytes B (at s addr off) ?len b = (Inr (map (\<lambda>i. byte b (at s addr off + of_nat i)) [0..<?len]), b)"
      using run_limit [OF n c(1)] run_at [OF n] len assms(1) by (intro read_run) (auto simp: covered_def)
    moreover have "map (\<lambda>i. byte b (at s addr off + of_nat i)) [0..<?len] = map (\<lambda>i. byte b (at s addr i)) [off..<off + ?len]"
      using run_at [OF n] by (auto intro!: nth_equalityI)
    ultimately have r: "cb_read_bytes B (at s addr off) ?len b = (Inr (map (\<lambda>i. byte b (at s addr i)) [off..<off + ?len]), b)" by simp
    have "[off..<off + ?len] @ [off + ?len..<n] = [off..<n]" using upt_add_eq_append [of off "off + ?len" "n - off - ?len"] len True by simp
    then have "dst @ map (\<lambda>i. byte b (at s addr i)) [off..<off + ?len] @ map (\<lambda>i. byte b (at s addr i)) [off + ?len..<n] =
        dst @ map (\<lambda>i. byte b (at s addr i)) [off..<n]" by (metis map_append)
    then show ?thesis
      using r True Suc.prems len Suc.IH [of "off + ?len"]
      by (subst read_wrapped_loop.simps) (simp add: Let_def at_def [symmetric])
  qed
qed

lemma read_bytes_wrapped_bytes:
  assumes "covered b s addr n"
  shows "read_bytes_wrapped B s addr n b = (Inr (map (\<lambda>i. byte b (at s addr i)) [0..<n]), b)"
proof (cases "contiguous_masked_start s addr n")
  case None
  then show ?thesis using read_wrapped_loop_bytes [OF assms, of 0 n "[]"]
    by (auto simp: read_bytes_wrapped_def contiguous_masked_start_def act_return_def split: if_splits)
next
  case (Some start)
  note c = contiguous_masked_start_Some [OF Some]
  show ?thesis
  proof (cases "n = 0")
    case False
    have "unat start + n \<le> lim" using c(3) assms lim(1) False by (auto simp: covered_def split: if_splits)
    moreover have e: "start + of_nat i = at s addr i" if "i < n" for i using c(2) that assms by (simp add: at_def covered_def)
    ultimately have "cb_read_bytes B start n b = (Inr (map (\<lambda>i. byte b (start + of_nat i)) [0..<n]), b)"
      using assms False by (intro read_run) (auto simp: covered_def)
    moreover have "map (\<lambda>i. byte b (start + of_nat i)) [0..<n] = map (\<lambda>i. byte b (at s addr i)) [0..<n]" using e by simp
    ultimately show ?thesis using False Some by (simp add: read_bytes_wrapped_def)
  qed (simp add: read_bytes_wrapped_def act_return_def)
qed


lemma read_int:
  assumes "covered b s addr n" "0 < n" and rd: "\<And>a. unat a + n \<le> lim \<Longrightarrow> rd a b = act_map from_le_bytes (cb_read_bytes B a n) b"
  shows "(case contiguous_masked_start s addr n of Some start \<Rightarrow> rd start | None \<Rightarrow> act_map from_le_bytes (read_bytes_wrapped B s addr n)) b =
    (Inr (from_le_bytes (map (\<lambda>i. byte b (at s addr i)) [0..<n])), b)"
proof (cases "contiguous_masked_start s addr n")
  case None
  then show ?thesis by (simp add: act_map_def act_bind_def act_return_def read_bytes_wrapped_bytes [OF assms(1)])
next
  case (Some start)
  have "unat start + n \<le> lim"
    using contiguous_masked_start_Some(3) [OF Some] assms(1,2) lim(1) by (auto simp: covered_def split: if_splits)
  moreover have "cb_read_bytes B start n b = (Inr (map (\<lambda>i. byte b (at s addr i)) [0..<n]), b)"
    using read_bytes_wrapped_bytes [OF assms(1)] Some assms(2) by (simp add: read_bytes_wrapped_def)
  ultimately show ?thesis using Some rd by (simp add: act_map_def act_bind_def act_return_def)
qed

lemma read_wrapped_ints:
  "covered b s addr 2 \<Longrightarrow> read_u16_wrapped B s addr b = (Inr (from_le_bytes (map (\<lambda>i. byte b (at s addr i)) [0..<2])), b)"
  "covered b s addr 4 \<Longrightarrow> read_u32_wrapped B s addr b = (Inr (from_le_bytes (map (\<lambda>i. byte b (at s addr i)) [0..<4])), b)"
  "covered b s addr 8 \<Longrightarrow> read_u64_wrapped B s addr b = (Inr (from_le_bytes (map (\<lambda>i. byte b (at s addr i)) [0..<8])), b)"
  "covered b s addr 16 \<Longrightarrow> read_u128_wrapped B s addr b = (Inr (from_le_bytes (map (\<lambda>i. byte b (at s addr i)) [0..<16])), b)"
  unfolding read_u16_wrapped_def read_u32_wrapped_def read_u64_wrapped_def read_u128_wrapped_def
  by (rule read_int; simp add: read_scalar covered_def)+

definition store_at :: "(u64 \<Rightarrow> u8 \<Rightarrow> u8) \<Rightarrow> CpuState \<Rightarrow> u64 \<Rightarrow> u8 list \<Rightarrow> nat list \<Rightarrow> (u64 \<Rightarrow> u8) \<Rightarrow> u64 \<Rightarrow> u8" where
  "store_at wr s addr src = fold (\<lambda>i m. m(at s addr i := wr (at s addr i) (src ! i)))"

lemma store_at_run:
  assumes "\<And>j. j < len \<Longrightarrow> at s addr (off + j) = a + of_nat j" "unat a + len \<le> 2 ^ 64"
  shows "store_at wr s addr src [off..<off + len] m x =
    (if unat a \<le> unat x \<and> unat x < unat a + len then wr x (src ! (off + (unat x - unat a))) else m x)"
  using assms
proof (induction len)
  case 0
  then show ?case by (auto simp: store_at_def)
next
  case (Suc len)
  have u: "unat (a + of_nat len) = unat a + len" using Suc.prems(2) by (simp add: unat_word_ariths unat_of_nat)
  have e: "at s addr (off + len) = a + of_nat len" using Suc.prems(1) by simp
  have "x = a + of_nat len \<longleftrightarrow> unat x = unat a + len" using u by (simp add: word_unat_eq_iff)
  then show ?case using Suc.IH Suc.prems e by (auto simp: store_at_def)
qed

lemma store_at_cong: "\<forall>x. unat x < lim \<longrightarrow> m x = m' x \<Longrightarrow> unat x < lim \<Longrightarrow> store_at wr s addr src is m x = store_at wr s addr src is m' x"
  unfolding store_at_def by (induction "is" arbitrary: m m') auto

definition stores :: "'b \<Rightarrow> (u64 \<Rightarrow> u8) \<Rightarrow> 'b \<Rightarrow> bool" where
  "stores b m b' \<longleftrightarrow> ok b' \<and> acc b' = acc b \<and> stored b' = stored b \<and> (\<forall>x. unat x < lim \<longrightarrow> byte b' x = m x)"

lemma run_stored_stores:
  assumes "run_stored lim acc byte stored b a (take len (drop off src)) b'" "ok b'" "len \<le> length src - off"
    and a: "\<And>j. j < len \<Longrightarrow> at s addr (off + j) = a + of_nat j" "unat a + len \<le> lim"
  shows "stores b (store_at (stored b) s addr src [off..<off + len] (byte b)) b'"
proof -
  have "length (take len (drop off src)) = len" using assms(3) by simp
  then show ?thesis using assms(1,2) store_at_run [OF a(1), where wr = "stored b" and src = src and m = "byte b"] a(2) lim(2) assms(3)
    by (auto simp: stores_def run_stored_def)
qed

lemma write_run_at:
  assumes "covered b s addr (length src)" "off < length src" "len \<le> length src - off" "0 < len"
    and a: "\<And>j. j < len \<Longrightarrow> at s addr (off + j) = a + of_nat j" "unat a + len \<le> lim"
  shows "\<exists>b'. cb_write_bytes B a (take len (drop off src)) b = (Inr (), b') \<and> stores b (store_at (stored b) s addr src [off..<off + len] (byte b)) b'"
proof -
  have ok: "ok b" and acc: "acc b (a + of_nat j)" if "j < len" for j
    using assms(1,3,4) a(1) that by (auto simp: covered_def simp flip: a(1))
  have l: "length (take len (drop off src)) = len" using assms(3) by simp
  obtain b' where b': "cb_write_bytes B a (take len (drop off src)) b = (Inr (), b')" "run_stored lim acc byte stored b a (take len (drop off src)) b'"
    using write_run [of b "take len (drop off src)" a] ok acc a(2) assms(2,4) l by fastforce
  have "ok b'" using fault_safeD [OF write_safe(6) _ b'(1)] ok assms(4) by blast
  then show ?thesis using b'(1) run_stored_stores [OF b'(2) _ assms(3) a] by blast
qed

lemma stores_covered: "covered b s addr n \<Longrightarrow> stores b m b' \<Longrightarrow> covered b' s addr n"
  by (simp add: covered_def stores_def)

lemma write_wrapped_loop_bytes:
  assumes "covered b s addr (length src)" "off \<le> length src" "length src - off \<le> fuel"
  shows "\<exists>b'. write_wrapped_loop B s addr src off fuel b = (Inr (), b') \<and> stores b (store_at (stored b) s addr src [off..<length src] (byte b)) b'"
  using assms
proof (induction fuel arbitrary: off b)
  case 0
  then show ?case by (subst write_wrapped_loop.simps) (simp add: act_return_def store_at_def stores_def covered_def)
next
  case (Suc fuel)
  show ?case
  proof (cases "off < length src")
    case False
    then show ?thesis using Suc.prems by (subst write_wrapped_loop.simps) (simp add: act_return_def store_at_def stores_def covered_def)
  next
    case True
    let ?len = "wrapped_segment_len s (addr + of_nat off) (length src - off)"
    have n: "0 < length src - off" "length src - off < 2 ^ 64" and c: "cpu_mode s = Long \<longrightarrow> lim = 2 ^ 64"
      using True Suc.prems(1) by (auto simp: covered_def)
    note len = wrapped_segment_len_bounds(1,2) [OF n, of s "addr + of_nat off"]
    obtain b1 where b1: "cb_write_bytes B (at s addr off) (take ?len (drop off src)) b = (Inr (), b1)"
      "stores b (store_at (stored b) s addr src [off..<off + ?len] (byte b)) b1"
      using write_run_at [OF Suc.prems(1) True len(2,1), of "at s addr off"] run_at [OF n] run_limit [OF n c] by auto
    have l2: "off + ?len \<le> length src" "length src - (off + ?len) \<le> fuel" using len Suc.prems(3) True by linarith+
    obtain b' where b': "write_wrapped_loop B s addr src (off + ?len) fuel b1 = (Inr (), b')"
      "stores b1 (store_at (stored b1) s addr src [off + ?len..<length src] (byte b1)) b'"
      using Suc.IH [OF stores_covered [OF Suc.prems(1) b1(2)], of "off + ?len"] l2 by blast
    have u: "[off..<length src] = [off..<off + ?len] @ [off + ?len..<length src]"
      using upt_add_eq_append [of off "off + ?len" "length src - off - ?len"] len True by simp
    have "stores b (store_at (stored b) s addr src [off..<length src] (byte b)) b'"
      using b1(2) b'(2) store_at_cong [where m = "byte b1"] unfolding u stores_def store_at_def fold_append o_def by auto
    moreover have "write_wrapped_loop B s addr src off (Suc fuel) b = (Inr (), b')"
      using True b1(1) b'(1) by (subst write_wrapped_loop.simps) (simp add: Let_def at_def [symmetric])
    ultimately show ?thesis by blast
  qed
qed

lemma preflight_wrapped_loop_ok:
  assumes "covered b s addr n" "off \<le> n" "n - off \<le> fuel"
  shows "preflight_wrapped_loop B s addr n off fuel b = (Inr (), b)"
  using assms(2,3)
proof (induction fuel arbitrary: off)
  case 0
  then show ?case by (subst preflight_wrapped_loop.simps) (simp add: act_return_def)
next
  case (Suc fuel)
  show ?case
  proof (cases "off < n")
    case False
    then show ?thesis by (subst preflight_wrapped_loop.simps) (simp add: act_return_def)
  next
    case True
    let ?len = "wrapped_segment_len s (addr + of_nat off) (n - off)"
    have n: "0 < n - off" "n - off < 2 ^ 64" and c: "cpu_mode s = Long \<longrightarrow> lim = 2 ^ 64" "ok b"
      using True assms(1) by (auto simp: covered_def)
    note len = wrapped_segment_len_bounds(1,2) [OF n, of s "addr + of_nat off"]
    have "cb_preflight_write_bytes B (at s addr off) ?len b = (Inr (), b)"
      using run_limit [OF n c(1)] run_at [OF n] len assms(1) by (intro preflight_run) (auto simp: covered_def)
    then show ?thesis using True Suc.prems len Suc.IH [of "off + ?len"]
      by (subst preflight_wrapped_loop.simps) (simp add: Let_def at_def [symmetric])
  qed
qed

lemma write_bytes_wrapped_bytes:
  assumes "covered b s addr (length src)"
  shows "\<exists>b'. write_bytes_wrapped B s addr src b = (Inr (), b') \<and> stores b (store_at (stored b) s addr src [0..<length src] (byte b)) b'"
proof (cases "src = []")
  case True
  then show ?thesis using assms by (simp add: write_bytes_wrapped_def act_return_def stores_def store_at_def covered_def)
next
  case False
  show ?thesis
  proof (cases "contiguous_masked_start s addr (length src)")
    case None
    then show ?thesis using False preflight_wrapped_loop_ok [OF assms, of 0 "length src"] write_wrapped_loop_bytes [OF assms, of 0 "length src"]
      by (auto simp: write_bytes_wrapped_def)
  next
    case (Some start)
    note c = contiguous_masked_start_Some [OF Some]
    have "length src < 2 ^ 64" "unat start + length src \<le> lim" using c(3) assms lim(1) False by (auto simp: covered_def split: if_splits)
    then show ?thesis
      using write_run_at [OF assms, of 0 "length src" start] c(2) False Some by (auto simp: write_bytes_wrapped_def at_def)
  qed
qed

end

context linear_bus
begin

lemma write_int:
  assumes "covered b s addr n" "0 < n" "length bs = n"
    and wr: "\<And>a. unat a + n \<le> lim \<Longrightarrow> (\<And>i. i < n \<Longrightarrow> acc b (a + of_nat i)) \<Longrightarrow> \<exists>b'. wr a b = (Inr (), b') \<and> run_stored lim acc byte stored b a bs b'"
    and safe: "\<And>a. fault_safe ok same (wr a)"
  shows "\<exists>b'. (case contiguous_masked_start s addr n of Some start \<Rightarrow> wr start | None \<Rightarrow> write_bytes_wrapped B s addr bs) b = (Inr (), b') \<and>
    stores b (store_at (stored b) s addr bs [0..<n] (byte b)) b'"
proof (cases "contiguous_masked_start s addr n")
  case None
  then show ?thesis using write_bytes_wrapped_bytes [of b s addr bs] assms(1,3) by simp
next
  case (Some start)
  note c = contiguous_masked_start_Some [OF Some]
  have l: "unat start + n \<le> lim" "n < 2 ^ 64" and ok: "ok b" using c(3) assms(1,2) lim(1) by (auto simp: covered_def split: if_splits)
  have at: "at s addr i = start + of_nat i" if "i < n" for i using c(2) [OF l(2) that] by (simp add: at_def)
  then have "acc b (start + of_nat i)" if "i < n" for i using assms(1) that by (auto simp: covered_def simp flip: at)
  then obtain b' where b': "wr start b = (Inr (), b')" "run_stored lim acc byte stored b start bs b'" using wr [OF l(1)] by blast
  have "ok b'" using fault_safeD [OF safe ok b'(1)] by blast
  then show ?thesis using b' Some run_stored_stores [of b start n 0 bs b' s addr] at l(1) assms(3) by simp
qed

lemma write_wrapped_ints:
  "covered b s addr 2 \<Longrightarrow> \<exists>b'. write_u16_wrapped B s addr v2 b = (Inr (), b') \<and> stores b (store_at (stored b) s addr (to_le_bytes 2 v2) [0..<2] (byte b)) b'"
  "covered b s addr 4 \<Longrightarrow> \<exists>b'. write_u32_wrapped B s addr v4 b = (Inr (), b') \<and> stores b (store_at (stored b) s addr (to_le_bytes 4 v4) [0..<4] (byte b)) b'"
  "covered b s addr 8 \<Longrightarrow> \<exists>b'. write_u64_wrapped B s addr v8 b = (Inr (), b') \<and> stores b (store_at (stored b) s addr (to_le_bytes 8 v8) [0..<8] (byte b)) b'"
  "covered b s addr 16 \<Longrightarrow> \<exists>b'. write_u128_wrapped B s addr v16 b = (Inr (), b') \<and> stores b (store_at (stored b) s addr (to_le_bytes 16 v16) [0..<16] (byte b)) b'"
  unfolding write_u16_wrapped_def write_u32_wrapped_def write_u64_wrapped_def write_u128_wrapped_def
  by (rule write_int; simp add: write_scalar write_safe covered_def)+

text \<open>What was stored is read back, if the addresses of the range are distinct and hold what is stored.\<close>

lemma store_at_Cons: "store_at wr s addr src (j # js) m = store_at wr s addr src js (m(at s addr j := wr (at s addr j) (src ! j)))"
  by (simp add: store_at_def)

lemma store_at_other: "x \<notin> at s addr ` set is \<Longrightarrow> store_at wr s addr src is m x = m x"
  by (induction "is" arbitrary: m) (simp_all add: store_at_Cons, simp add: store_at_def)

lemma store_at_distinct:
  "inj_on (at s addr) (set is) \<Longrightarrow> distinct is \<Longrightarrow> i \<in> set is \<Longrightarrow> store_at wr s addr src is m (at s addr i) = wr (at s addr i) (src ! i)"
proof (induction "is" arbitrary: m)
  case (Cons j js)
  show ?case
  proof (cases "i \<in> set js")
    case False
    then have "i = j" "at s addr i \<notin> at s addr ` set js" using Cons.prems by (auto simp: inj_on_def)
    then show ?thesis by (simp add: store_at_Cons store_at_other)
  qed (use Cons in \<open>simp add: store_at_Cons\<close>)
qed simp

lemma at_limit: "(cpu_mode s = Long \<longrightarrow> lim = 2 ^ 64) \<Longrightarrow> unat (at s addr i) < lim"
  using run_limit [of 1 s addr i] wrapped_segment_len_bounds(1) [of 1 s "addr + of_nat i"] by simp

lemma write_then_read:
  assumes c: "covered b s addr (length src)" and inj: "inj_on (at s addr) {..<length src}"
    and wr: "\<And>i v. i < length src \<Longrightarrow> stored b (at s addr i) v = v"
  shows "\<exists>b'. write_bytes_wrapped B s addr src b = (Inr (), b') \<and> read_bytes_wrapped B s addr (length src) b' = (Inr src, b') \<and>
    (\<forall>x. unat x < lim \<longrightarrow> (\<forall>i < length src. x \<noteq> at s addr i) \<longrightarrow> byte b' x = byte b x)"
proof -
  obtain b' where b': "write_bytes_wrapped B s addr src b = (Inr (), b')" "stores b (store_at (stored b) s addr src [0..<length src] (byte b)) b'"
    using write_bytes_wrapped_bytes [OF c] by blast
  have lim: "unat (at s addr i) < lim" for i using c by (intro at_limit) (simp add: covered_def)
  have inj': "inj_on (at s addr) (set [0..<length src])" using inj by (simp add: atLeast0LessThan)
  note st = store_at_distinct [OF inj' distinct_upt]
  have "byte b' (at s addr i) = src ! i" if "i < length src" for i
    using b'(2) lim [of i] st [of i] wr that by (simp add: stores_def)
  then have "map (\<lambda>i. byte b' (at s addr i)) [0..<length src] = src" by (auto intro: nth_equalityI)
  then have "read_bytes_wrapped B s addr (length src) b' = (Inr src, b')" using read_bytes_wrapped_bytes [OF stores_covered [OF c b'(2)]] by simp
  moreover have "byte b' x = byte b x" if "unat x < lim" "\<forall>i < length src. x \<noteq> at s addr i" for x
  proof -
    have "x \<notin> at s addr ` set [0..<length src]" using that(2) by auto
    then show ?thesis using b'(2) that(1) by (simp add: stores_def store_at_other)
  qed
  ultimately show ?thesis using b'(1) by blast
qed

text \<open>Segmented fetches.\<close>

lemma take_pad15: "n = length bs \<Longrightarrow> take n (pad15 bs) = bs"
  by (simp add: pad15_def)

lemma fetch_wrapped_loop_bytes:
  assumes "covered b s addr n" "n \<le> 15" "off \<le> n" "n - off \<le> fuel"
  shows "\<exists>b'. fetch_wrapped_loop B s addr n off buf fuel b = (Inr (pad15 (buf @ map (\<lambda>i. byte b (at s addr i)) [off..<n])), b')"
  using assms(1,3,4)
proof (induction fuel arbitrary: off buf b)
  case 0
  then show ?case by (subst fetch_wrapped_loop.simps) (simp add: act_return_def)
next
  case (Suc fuel)
  show ?case
  proof (cases "off < n")
    case False
    then show ?thesis using Suc.prems by (subst fetch_wrapped_loop.simps) (simp add: act_return_def)
  next
    case True
    let ?len = "wrapped_segment_len s (addr + of_nat off) (n - off)"
    have n: "0 < n - off" "n - off < 2 ^ 64" and c: "cpu_mode s = Long \<longrightarrow> lim = 2 ^ 64" "ok b"
      using True Suc.prems(1) by (auto simp: covered_def)
    note len = wrapped_segment_len_bounds(1,2) [OF n, of s "addr + of_nat off"]
    have l15: "?len \<le> 15" using len assms(2) by linarith
    obtain b1 where f: "cb_fetch B (at s addr off) ?len b = (Inr (pad15 (map (\<lambda>i. byte b (at s addr off + of_nat i)) [0..<?len])), b1)"
      "acc b1 = acc b" "byte b1 = byte b"
      using fetch_run [of b ?len "at s addr off"] run_limit [OF n c(1)] run_at [OF n] len l15 Suc.prems(1) by (auto simp: covered_def)
    have "ok b1" using quietD [OF read_quiet(8) c(2) f(1)] by simp
    then have cov: "covered b1 s addr n" using Suc.prems(1) f(2) by (simp add: covered_def)
    have m: "map (\<lambda>i. byte b (at s addr off + of_nat i)) [0..<?len] = map (\<lambda>i. byte b (at s addr i)) [off..<off + ?len]"
      using run_at [OF n] by (auto intro!: nth_equalityI)
    have l2: "off + ?len \<le> n" "n - (off + ?len) \<le> fuel" using len Suc.prems(3) True by linarith+
    have u: "[off..<n] = [off..<off + ?len] @ [off + ?len..<n]"
      using upt_add_eq_append [of off "off + ?len" "n - off - ?len"] len True by simp
    show ?thesis
      using True f Suc.IH [OF cov l2, of "buf @ map (\<lambda>i. byte b (at s addr i)) [off..<off + ?len]"]
      unfolding u map_append by (subst fetch_wrapped_loop.simps) (simp add: Let_def at_def [symmetric] m take_pad15)
  qed
qed

lemma fetch_wrapped_bytes:
  assumes "covered b s addr n" "0 < n" "n \<le> 15"
  shows "\<exists>b'. fetch_wrapped B s addr n b = (Inr (pad15 (map (\<lambda>i. byte b (at s addr i)) [0..<n])), b')"
proof (cases "contiguous_masked_start s addr n")
  case None
  then show ?thesis using fetch_wrapped_loop_bytes [OF assms(1,3), of 0 n "[]"] assms(2,3) by (auto simp: fetch_wrapped_def Let_def min_def)
next
  case (Some start)
  note c = contiguous_masked_start_Some [OF Some]
  have l: "unat start + n \<le> lim" "n < 2 ^ 64" using c(3) assms lim(1) by (auto simp: covered_def split: if_splits)
  have e: "start + of_nat i = at s addr i" if "i < n" for i using c(2) [OF l(2) that] by (simp add: at_def)
  have m: "map (\<lambda>i. byte b (start + of_nat i)) [0..<n] = map (\<lambda>i. byte b (at s addr i)) [0..<n]" using e by simp
  show ?thesis using fetch_run [of b n start] l e assms Some by (auto simp: fetch_wrapped_def Let_def min_def m covered_def)
qed

text \<open>In 16-bit code the instruction pointer wraps inside its segment.\<close>

definition ip_at :: "CpuState \<Rightarrow> u64 \<Rightarrow> u64 \<Rightarrow> nat \<Rightarrow> u64" where
  "ip_at s base ip i = apply_a20 s (base + (if bitness s = 16 then (ip + of_nat i) AND 0xFFFF else ip + of_nat i))"


lemma fetch_seg_ip_loop_bytes:
  assumes "ok b" "cpu_mode s = Long \<longrightarrow> lim = 2 ^ 64" "bitness s = 16" "n \<le> 15" "\<forall>i<n. acc b (ip_at s base ip i)" "off \<le> n" "n - off \<le> fuel"
  shows "\<exists>b'. fetch_seg_ip_loop B s base ip n off buf fuel b = (Inr (pad15 (buf @ map (\<lambda>i. byte b (ip_at s base ip i)) [off..<n])), b')"
  using assms(1,5-)
proof (induction fuel arbitrary: off buf b)
  case 0
  then show ?case by (subst fetch_seg_ip_loop.simps) (simp add: act_return_def)
next
  case (Suc fuel)
  show ?case
  proof (cases "off < n")
    case False
    then show ?thesis using Suc.prems by (subst fetch_seg_ip_loop.simps) (simp add: act_return_def)
  next
    case True
    define io where "io = (ip + of_nat off) AND 0xFFFF"
    define u where "u = unat (min (0x10000 - io) (of_nat (n - off)))"
    define len where "len = wrapped_segment_len s (base + io) u"
    have io: "unat io = unat (ip + of_nat off) mod 2 ^ 16" using unat_and_mask [of "ip + of_nat off" 16] by (simp add: mask_eq_exp_minus_1 io_def)
    have "unat (0x10000 - io) = 0x10000 - unat io" using io by (subst unat_sub) (auto simp: word_le_nat_alt)
    moreover have "unat (of_nat (n - off) :: u64) = n - off" using assms(4) by (simp add: unat_of_nat)
    ultimately have ueq: "u = min (0x10000 - unat io) (n - off)" by (simp add: u_def min_def word_le_nat_alt del: of_nat_diff)
    then have u0: "u \<le> n - off" by (metis min.cobounded2)
    have u1: "0 < u" using ueq True io by auto
    have u2: "u < 2 ^ 64" using order.strict_trans1 [OF u0] assms(4) by auto
    note u' = u1 u2 u0
    note lens = wrapped_segment_len_bounds [OF u'(1,2), of s "base + io", folded len_def]
    have l: "len \<le> n - off" "len \<le> 15" using lens(2) u'(3) assms(4) by linarith+
    have at: "apply_a20 s (base + io) + of_nat j = ip_at s base ip (off + j)" if "j < len" for j
    proof -
      have "len \<le> 0x10000 - unat io" using lens(2) ueq by (metis min.bounded_iff)
      then have "unat io + j < 2 ^ 16" using that by (simp add: less_diff_conv)
      moreover have j: "j < 2 ^ 16" using calculation by linarith
      ultimately have "unat (io + of_nat j) = unat io + j" by (simp add: unat_word_ariths unat_of_nat)
      moreover have "unat ((ip + of_nat (off + j)) AND 0xFFFF) = (unat (ip + of_nat off) mod 2 ^ 16 + j) mod 2 ^ 16"
        using unat_and_mask [of "ip + of_nat off + of_nat j" 16] j
        by (simp add: mask_eq_exp_minus_1 unat_word_ariths unat_of_nat mod_mod_cancel mod_simps add.assoc)
      ultimately have "io + of_nat j = (ip + of_nat (off + j)) AND 0xFFFF" using io \<open>unat io + j < 2 ^ 16\<close> by (simp add: word_unat_eq_iff)
      then have "base + io + of_nat j = base + ((ip + of_nat (off + j)) AND 0xFFFF)" by (simp add: add.assoc)
      then have "apply_a20 s (base + io + of_nat j) = ip_at s base ip (off + j)" by (simp only: ip_at_def assms(3) refl if_True)
      then show ?thesis using run_contiguous [OF u'(1,2) that [unfolded len_def]] by simp
    qed
    have lim': "unat (apply_a20 s (base + io)) + len \<le> lim" using lens(3) assms(2) lim(1) by (auto split: if_splits)
    obtain b1 where f: "cb_fetch B (apply_a20 s (base + io)) len b = (Inr (pad15 (map (\<lambda>i. byte b (apply_a20 s (base + io) + of_nat i)) [0..<len])), b1)"
      "acc b1 = acc b" "byte b1 = byte b"
      using fetch_run [of b len "apply_a20 s (base + io)"] Suc.prems(1,2) lens(1) l lim' at by auto
    have "ok b1" using quietD [OF read_quiet(8) Suc.prems(1) f(1)] by simp
    moreover have m: "map (\<lambda>i. byte b (apply_a20 s (base + io) + of_nat i)) [0..<len] = map (\<lambda>i. byte b (ip_at s base ip i)) [off..<off + len]"
      using at by (auto intro!: nth_equalityI)
    moreover have l2: "off + len \<le> n" "n - (off + len) \<le> fuel" using lens(1) l Suc.prems(4) True by linarith+
    moreover have split: "[off..<n] = [off..<off + len] @ [off + len..<n]"
      using upt_add_eq_append [of off "off + len" "n - off - len"] l True by simp
    ultimately show ?thesis
      using True f Suc.prems(2) Suc.IH [of b1 "off + len" "buf @ map (\<lambda>i. byte b (ip_at s base ip i)) [off..<off + len]"]
      unfolding split map_append by (subst fetch_seg_ip_loop.simps) (simp add: Let_def m take_pad15 io_def [symmetric] u_def [symmetric] len_def [symmetric] del: of_nat_diff)
  qed
qed

lemma apply_a20_add: "bitness s \<noteq> 16 \<Longrightarrow> apply_a20 s (apply_a20 s a + i) = apply_a20 s (a + i)"
proof -
  assume "bitness s \<noteq> 16"
  then have m: "cpu_mode s = Long \<or> cpu_mode s = Protected" by (cases "cpu_mode s") (simp_all add: bitness_def)
  show ?thesis
  proof (cases "cpu_mode s = Long")
    case False
    have "unat (apply_a20 s (apply_a20 s a + i)) = unat (apply_a20 s (a + i))"
      using m False by (simp add: unat_apply_a20 a20_masked_def unat_word_ariths mod_mod_cancel mod_simps)
    then show ?thesis by (simp add: word_unat_eq_iff)
  qed simp
qed

lemma fetch_wrapped_seg_ip_bytes:
  assumes "ok b" "cpu_mode s = Long \<longrightarrow> lim = 2 ^ 64" "0 < n" "n \<le> 15" "\<forall>i<n. acc b (ip_at s base ip i)"
  shows "\<exists>b'. fetch_wrapped_seg_ip B s base ip n b = (Inr (pad15 (map (\<lambda>i. byte b (ip_at s base ip i)) [0..<n])), b')"
proof (cases "bitness s = 16")
  case True
  have e: "ip_at s base (ip AND 0xFFFF) i = ip_at s base ip i" for i
  proof -
    have "unat (((ip AND 0xFFFF) + of_nat i) AND 0xFFFF) = unat ((ip + of_nat i) AND 0xFFFF)"
      using unat_and_mask [of "(ip AND 0xFFFF) + of_nat i" 16] unat_and_mask [of "ip + of_nat i" 16] unat_and_mask [of ip 16]
      by (simp add: mask_eq_exp_minus_1 unat_word_ariths mod_mod_cancel mod_simps)
    then have "((ip AND 0xFFFF) + of_nat i) AND 0xFFFF = (ip + of_nat i) AND 0xFFFF" by (simp add: word_unat_eq_iff)
    then show ?thesis using True by (simp add: ip_at_def)
  qed
  show ?thesis
    using True fetch_seg_ip_loop_bytes [OF assms(1,2) True assms(4), of base "ip AND 0xFFFF" 0 n "[]"] assms(3-)
    by (simp add: fetch_wrapped_seg_ip_def Let_def min_def e)
next
  case False
  have e: "at s (apply_a20 s (base + ip)) i = ip_at s base ip i" for i
    using False apply_a20_add [OF False, of "base + ip" "of_nat i"] by (simp add: at_def ip_at_def add.assoc)
  then have "covered b s (apply_a20 s (base + ip)) n" using assms by (simp add: covered_def)
  then show ?thesis using fetch_wrapped_bytes [of b s "apply_a20 s (base + ip)" n] assms(3,4) False by (simp add: fetch_wrapped_seg_ip_def e)
qed

end

text \<open>The flat bus.\<close>

lemma flat_range_eq: "flat_range fb a n = (if unat a + n \<le> length (flat_mem fb) then Some (unat a) else None)"
  by (simp add: flat_range_def)

lemma flat_run:
  fixes a :: u64
  assumes "unat a + n \<le> 2 ^ 64" "\<And>i. i < n \<Longrightarrow> unat (a + of_nat i) < length xs"
  shows "i < n \<Longrightarrow> unat (a + of_nat i) = unat a + i" "0 < n \<Longrightarrow> unat a + n \<le> length xs"
proof -
  show u: "i < n \<Longrightarrow> unat (a + of_nat i) = unat a + i" for i using assms(1) by (simp add: unat_word_ariths unat_of_nat)
  show "0 < n \<Longrightarrow> unat a + n \<le> length xs" using assms(2) [of "n - 1"] u [of "n - 1"] by simp
qed

lemmas flat_defs = flat_read_u8_def flat_read_bytes_def flat_write_u8_def flat_write_bytes_def flat_preflight_def flat_read_le_def flat_write_le_def
  flat_fetch_def flat_range_eq act_map_def act_bind_def act_return_def

lemma flat_quiet:
  "quiet (\<lambda>_. True) (=) (flat_read_u8 a)" "quiet (\<lambda>_. True) (=) (flat_read_bytes a n)" "quiet (\<lambda>_. True) (=) (flat_read_le n a)"
  "quiet (\<lambda>_. True) (=) (flat_preflight a n)" "quiet (\<lambda>_. True) (=) (flat_fetch a n)"
  by (auto simp: quiet_def flat_defs)

lemma flat_safe:
  "fault_safe (\<lambda>_. True) (=) (flat_write_u8 a v)" "fault_safe (\<lambda>_. True) (=) (flat_write_bytes a bs)" "fault_safe (\<lambda>_. True) (=) (flat_write_le n a w)"
  by (auto simp: fault_safe_def flat_defs)

lemma default_rmw_safe:
  assumes "bus_relation same" "\<And>n. quiet ok same (pre a n)" "quiet ok same (rd a)" "\<And>v. fault_safe ok same (wr a v)"
  shows "fault_safe ok same (default_atomic_rmw pre rd wr a f)"
proof -
  have 1: "\<And>old. fault_safe ok same (if f old \<noteq> old then act_bind (wr a (f old)) (\<lambda>_. act_return old) else act_return old)"
    using bus_relation.fault_safe_map [OF assms(1) assms(4)] quiet_fault_safe [OF bus_relation.quiet_return(1) [OF assms(1)]] by auto
  show ?thesis unfolding default_atomic_rmw_def
    by (intro bus_relation.fault_safe_bind [OF assms(1)] assms(2,3) 1)
qed

lemma flat_read_run:
  assumes "0 < n" "unat a + n \<le> 2 ^ 64" "\<And>i. i < n \<Longrightarrow> unat (a + of_nat i) < length (flat_mem b)"
  shows "flat_read_bytes a n b = (Inr (map (\<lambda>i. flat_mem b ! unat (a + of_nat i)) [0..<n]), b)"
proof -
  note run = flat_run [OF assms(2,3)]
  have "take n (drop (unat a) (flat_mem b)) = map (\<lambda>i. flat_mem b ! unat (a + of_nat i)) [0..<n]"
    using run assms(1) by (auto intro!: nth_equalityI)
  then show ?thesis using run(2) assms(1) by (simp add: flat_read_bytes_def flat_range_eq)
qed

lemma flat_write_run:
  assumes "bs \<noteq> []" "unat a + length bs \<le> 2 ^ 64" "\<And>i. i < length bs \<Longrightarrow> unat (a + of_nat i) < length (flat_mem b)"
  shows "\<exists>b'. flat_write_bytes a bs b = (Inr (), b') \<and> length (flat_mem b') = length (flat_mem b) \<and>
    (\<forall>x. unat x < 2 ^ 64 \<longrightarrow> unat (x :: u64) < length (flat_mem b) \<longrightarrow>
       flat_mem b' ! unat x = (if unat a \<le> unat x \<and> unat x < unat a + length bs then bs ! (unat x - unat a) else flat_mem b ! unat x))"
proof -
  have "unat a + length bs \<le> length (flat_mem b)" using flat_run(2) [OF assms(2,3)] assms(1) by simp
  then show ?thesis by (auto simp: flat_write_bytes_def flat_range_eq nth_append)
qed

lemma flat_preflight_run:
  assumes "0 < n" "unat a + n \<le> 2 ^ 64" "\<And>i. i < n \<Longrightarrow> unat (a + of_nat i) < length (flat_mem b)"
  shows "flat_preflight a n b = (Inr (), b)"
  using flat_run(2) [OF assms(2,3)] assms(1) by (simp add: flat_preflight_def flat_range_eq)

lemma flat_u8_run:
  "flat_read_u8 a b = act_map from_le_bytes (flat_read_bytes a 1) b"
  "unat a < length (flat_mem b) \<Longrightarrow> flat_write_u8 a v b = flat_write_bytes a (to_le_bytes 1 v) b"
proof -
  show "flat_read_u8 a b = act_map from_le_bytes (flat_read_bytes a 1) b"
    by (auto simp: flat_defs take_Suc_conv_app_nth [of 0] Cons_nth_drop_Suc [symmetric] take_Suc)
  show "flat_write_u8 a v b = flat_write_bytes a (to_le_bytes 1 v) b" if "unat a < length (flat_mem b)"
    using that by (simp add: flat_defs to_le_bytes_def upd_conv_take_nth_drop)
qed

definition flat_lim :: nat where "flat_lim = 2 ^ 64"

definition flat_acc :: "FlatTestBus \<Rightarrow> u64 \<Rightarrow> bool" where
  "flat_acc fb x \<longleftrightarrow> unat x < length (flat_mem fb)"

definition flat_byte :: "FlatTestBus \<Rightarrow> u64 \<Rightarrow> u8" where
  "flat_byte fb x = (if unat x < length (flat_mem fb) then flat_mem fb ! unat x else 0)"

lemma flat_write_stored:
  assumes bs: "bs \<noteq> []" "unat a + length bs \<le> flat_lim" and acc: "\<And>i. i < length bs \<Longrightarrow> flat_acc b (a + of_nat i)"
  shows "\<exists>b'. flat_write_bytes a bs b = (Inr (), b') \<and> run_stored flat_lim flat_acc flat_byte (\<lambda>_ x v. v) b a bs b'"
proof -
  note acc = acc [unfolded flat_acc_def] and bs = bs [unfolded flat_lim_def]
  obtain b' where b': "flat_write_bytes a bs b = (Inr (), b')" "length (flat_mem b') = length (flat_mem b)"
    "\<And>x :: u64. unat x < length (flat_mem b) \<Longrightarrow>
      flat_mem b' ! unat x = (if unat a \<le> unat x \<and> unat x < unat a + length bs then bs ! (unat x - unat a) else flat_mem b ! unat x)"
    using flat_write_run [OF bs acc] unat_less [where 'a = 64] by auto
  have "unat a + length bs \<le> length (flat_mem b)" using flat_run(2) [OF bs(2) acc] bs(1) by simp
  then have "flat_byte b' x = (if unat a \<le> unat x \<and> unat x < unat a + length bs then bs ! (unat x - unat a) else flat_byte b x)" for x
    using b'(2) b'(3) [of x] by (cases "unat x < length (flat_mem b)") (auto simp: flat_byte_def)
  then show ?thesis using b'(1,2) by (intro exI [of _ b']) (simp add: run_stored_def flat_acc_def fun_eq_iff)
qed

lemma flat_le_stored:
  assumes "unat a + n \<le> flat_lim" "0 < n" "\<And>i. i < n \<Longrightarrow> flat_acc b (a + of_nat i)"
  shows "\<exists>b'. flat_write_le n a v b = (Inr (), b') \<and> run_stored flat_lim flat_acc flat_byte (\<lambda>_ x v. v) b a (to_le_bytes n v) b'"
proof -
  have "to_le_bytes n v \<noteq> []" using assms(2) by (metis length_to_le_bytes length_0_conv less_nat_zero_code)
  then show ?thesis using flat_write_stored [of "to_le_bytes n v" a b] assms by (simp add: flat_write_le_def)
qed

lemma flat_u8_stored:
  assumes "unat a + 1 \<le> flat_lim" "flat_acc b a"
  shows "\<exists>b'. flat_write_u8 a v b = (Inr (), b') \<and> run_stored flat_lim flat_acc flat_byte (\<lambda>_ x v. v) b a (to_le_bytes 1 v) b'"
  using flat_le_stored [of a 1 b v] assms flat_u8_run(2) [of a b v] by (simp add: flat_write_le_def flat_acc_def del: One_nat_def)

interpretation flat: linear_bus "\<lambda>_. True" "(=)" flat_bus flat_lim flat_acc flat_byte "\<lambda>_ x v. v"
proof -
  have rel: "bus_relation ((=) :: FlatTestBus \<Rightarrow> _)" by unfold_locales auto
  show "linear_bus (\<lambda>_. True) (=) flat_bus flat_lim flat_acc flat_byte (\<lambda>_ x v. v)"
  proof
    fix a :: u64 and n :: nat and b :: FlatTestBus
    assume n: "0 < n" "unat a + n \<le> flat_lim" and acc: "\<And>i. i < n \<Longrightarrow> flat_acc b (a + of_nat i)"
    note n = n [unfolded flat_lim_def] and r = flat_read_run [OF n [unfolded flat_lim_def] acc [unfolded flat_acc_def]]
    have m: "map (\<lambda>i. flat_byte b (a + of_nat i)) [0..<n] = map (\<lambda>i. flat_mem b ! unat (a + of_nat i)) [0..<n]"
      using acc by (simp add: flat_acc_def flat_byte_def)
    show "cb_read_bytes flat_bus a n b = (Inr (map (\<lambda>i. flat_byte b (a + of_nat i)) [0..<n]), b)"
      using r m by (simp add: flat_bus_def)
    show "cb_preflight_write_bytes flat_bus a n b = (Inr (), b)"
      using flat_preflight_run [OF n acc [unfolded flat_acc_def]] by (simp add: flat_bus_def)
    show "\<exists>b'. cb_fetch flat_bus a n b = (Inr (pad15 (map (\<lambda>i. flat_byte b (a + of_nat i)) [0..<n])), b') \<and>
        flat_acc b' = flat_acc b \<and> flat_byte b' = flat_byte b" if "n \<le> 15"
      unfolding m using r that by (simp add: flat_bus_def flat_fetch_def act_map_def act_bind_def act_return_def min_def)
  next
    show "2 ^ 32 \<le> flat_lim" "flat_lim \<le> 2 ^ 64" by (simp_all add: flat_lim_def)
  qed (simp_all add: flat_bus_def flat_quiet flat_safe default_rmw_safe [OF rel] flat_u8_run(1) flat_read_le_def [symmetric]
      flat_write_stored flat_le_stored flat_u8_stored del: One_nat_def)
qed

end
