(* ===== verification/CpuData.thy ===== *)
theory CpuData
  imports CpuBus
begin

text \<open>
  The data movement of the interpreter, \<^verbatim>\<open>aero-cpu-core/src/interp/tier0/ops_data.rs\<close>, with the sized read-modify-write of
  \<^verbatim>\<open>tier0/mod.rs\<close>. A decoded instruction is data: the record of what the accessors of \<^verbatim>\<open>iced_x86::Instruction\<close> return. An
  instruction is an action on the processor and a bus.

  On a bus where a failed access changes nothing (locale \<open>fault_safe_bus\<close>), an instruction that fails leaves the
  processor and the memory as they were, which is what lets the guest restart it after handling a page fault.
\<close>

section \<open>Decoded instructions\<close>

text \<open>The mnemonics of the modelled groups; conditions are shared by jumps, moves and sets.\<close>

datatype DataMnemonic = M_Mov | M_Lea | M_Les | M_Lds | M_Xchg | M_Movsx | M_Movzx | M_Movsxd | M_Movnti | M_Bswap | M_Xadd

datatype BranchMnemonic = M_Jmp | M_Call | M_Ret | M_Retf | M_Loop | M_Loope | M_Loopne | M_Jcxz | M_Jecxz | M_Jrcxz

datatype HintMnemonic =
  M_Nop | M_Pause | M_Prefetchnta | M_Prefetcht0 | M_Prefetcht1 | M_Prefetcht2 | M_Prefetchw | M_Prefetch | M_Clflush | M_Reservednop

datatype StackMnemonic =
    M_Push | M_Pop | M_Pusha | M_Pushad | M_Popa | M_Popad | M_Pushf | M_Pushfd | M_Pushfq | M_Popf | M_Popfd | M_Popfq
  | M_Enter | M_Leave | M_Lahf | M_Sahf

datatype ArithMnemonic =
  M_Add | M_Sub | M_Adc | M_Sbb | M_Cmp | M_Inc | M_Dec | M_Neg | M_Mul | M_Imul | M_Div | M_Idiv | M_And | M_Or | M_Xor | M_Test | M_Not

datatype ShiftMnemonic = M_Shl | M_Shr | M_Sar | M_Rol | M_Ror | M_Rcl | M_Rcr | M_Shld | M_Shrd

datatype BitMnemonic = M_Bt | M_Bts | M_Btr | M_Btc | M_Bsf | M_Bsr

datatype AtomicMnemonic = M_Cmpxchg | M_Cmpxchg8b | M_Cmpxchg16b

datatype SystemMnemonic = M_Clts | M_Wait | M_Hlt | M_Cpuid | M_Rdmsr | M_Wrmsr | M_Rdtsc | M_Rdtscp | M_Lfence | M_Sfence | M_Mfence

datatype IoMnemonic = M_In | M_Out | M_Insb | M_Insw | M_Insd | M_Outsb | M_Outsw | M_Outsd

datatype InterruptMnemonic = M_Int | M_Int1 | M_Int3 | M_Into | M_Iret | M_Iretd | M_Iretq | M_Cli | M_Sti

datatype PrivilegedMnemonic =
    M_Lgdt | M_Lidt | M_Sgdt | M_Sidt | M_Ltr | M_Str | M_Lldt | M_Sldt | M_Lmsw | M_Smsw | M_Invlpg | M_Wbinvd | M_Invd | M_Swapgs
  | M_Syscall | M_Sysret | M_Sysretq | M_Sysenter | M_Sysexit | M_Rsm | M_Lar | M_Lsl

datatype StringMnemonic =
    M_Movsb | M_Movsw | M_Movsd | M_Movsq | M_Stosb | M_Stosw | M_Stosd | M_Stosq | M_Lodsb | M_Lodsw | M_Lodsd | M_Lodsq
  | M_Cmpsb | M_Cmpsw | M_Cmpsd | M_Cmpsq | M_Scasb | M_Scasw | M_Scasd | M_Scasq

datatype FlagMnemonic = M_Clc | M_Stc | M_Cmc | M_Cld | M_Std | M_Cbw | M_Cwde | M_Cdqe | M_Cwd | M_Cdq | M_Cqo

datatype Mnemonic =
    Data DataMnemonic | Cmov Cond | Setcc Cond | Jcc Cond | Jump BranchMnemonic | Hint HintMnemonic | Stack StackMnemonic
  | Arith ArithMnemonic | Shift ShiftMnemonic | BitOp BitMnemonic | FlagOp FlagMnemonic
  | Atomic AtomicMnemonic | System SystemMnemonic | IoOp IoMnemonic | InterruptOp InterruptMnemonic | PrivilegedOp PrivilegedMnemonic
  | StringM StringMnemonic | OtherMnemonic nat

datatype OpKind =
    OpRegister | OpMemory | Immediate8 | Immediate16 | Immediate32 | Immediate64 | Immediate8to16 | Immediate8to32 | Immediate8to64
  | Immediate32to64 | NearBranch16 | NearBranch32 | NearBranch64 | FarBranch16 | FarBranch32 | OtherKind

datatype MemorySize =
    UInt8 | Int8 | UInt16 | Int16 | WordOffset | UInt32 | Int32 | DwordOffset | UInt64 | Int64 | QwordOffset
  | SegPtr16 | SegPtr32 | SegPtr64 | OtherSize

datatype Code = Retfd | Retfd_imm16 | Retfq | Retfq_imm16 | OtherCode

text \<open>The sign-extending immediates are signed in the source; here they are the words with the same bits.\<close>

record Instruction =
  mnemonic :: Mnemonic
  icode :: Code
  has_lock_prefix :: bool
  has_rep_prefix :: bool
  has_repne_prefix :: bool
  segment_prefix :: Register
  op_count :: nat
  op_kind :: "nat \<Rightarrow> OpKind"
  op_register :: "nat \<Rightarrow> Register"
  immediate8 :: u8
  immediate8_2nd :: u8
  immediate16 :: u16
  immediate32 :: u32
  immediate64 :: u64
  immediate8to16 :: u16
  immediate8to32 :: u32
  immediate8to64 :: u64
  immediate32to64 :: u64
  memory_base :: Register
  memory_index :: Register
  memory_index_scale :: u32
  memory_displacement64 :: u64
  memory_displ_size :: nat
  memory_segment :: Register
  memory_size :: MemorySize
  near_branch_target :: u64
  far_branch_selector :: u16
  far_branch16 :: u16

datatype ExecOutcome = Continue | ContinueInhibitInterrupts | Branch | Halt | Assist AssistReason

text \<open>An instruction works on the processor and a bus.\<close>

type_synonym ('b, 'a) cpu_action = "(CpuState \<times> 'b, 'a) action"

definition cpu_get :: "(CpuState \<Rightarrow> 'a) \<Rightarrow> ('b, 'a) cpu_action" where
  "cpu_get f = (\<lambda>(s, b). (Inr (f s), (s, b)))"

definition cpu_set :: "(CpuState \<Rightarrow> CpuState) \<Rightarrow> ('b, unit) cpu_action" where
  "cpu_set f = (\<lambda>(s, b). (Inr (), (f s, b)))"

definition cpu_try :: "(CpuState \<Rightarrow> Exception + 'a) \<Rightarrow> ('b, 'a) cpu_action" where
  "cpu_try f = (\<lambda>(s, b). (map_sum Fail id (f s), (s, b)))"

definition cpu_bus :: "(CpuState \<Rightarrow> ('b, 'a) action) \<Rightarrow> ('b, 'a) cpu_action" where
  "cpu_bus f = (\<lambda>(s, b). case f s b of (r, b') \<Rightarrow> (r, (s, b')))"

definition act_then :: "('s, 'a) action \<Rightarrow> ('s, 'b) action \<Rightarrow> ('s, 'b) action" where
  "act_then m k = act_bind m (\<lambda>_. k)"

section \<open>Operands\<close>

definition sign_extend :: "u64 \<Rightarrow> nat \<Rightarrow> nat \<Rightarrow> u64" where
  "sign_extend val from_bits to_bits =
     (let msk = val AND mask_bits from_bits
      in if from_bits = 64 then msk
         else let sign_bit = push_bit (from_bits - 1) 1;
                  extended = (if msk AND sign_bit \<noteq> 0 then msk OR push_bit from_bits (- 1) else msk)
              in extended AND mask_bits to_bits)"

definition reg_bits :: "Register \<Rightarrow> Exception + nat" where
  "reg_bits reg =
     (case reg of
        Reg8 _ \<Rightarrow> Inr 8 | Reg16 _ \<Rightarrow> Inr 16 | Reg32 _ \<Rightarrow> Inr 32 | Reg64 _ \<Rightarrow> Inr 64 | Seg _ \<Rightarrow> Inr 16
      | _ \<Rightarrow> Inl InvalidOpcode)"

definition is_seg_reg :: "Register \<Rightarrow> bool" where
  "is_seg_reg reg = (case reg of Seg _ \<Rightarrow> True | _ \<Rightarrow> False)"

definition is_ctrl_or_debug_reg :: "Register \<Rightarrow> bool" where
  "is_ctrl_or_debug_reg reg = (case reg of Ctrl _ \<Rightarrow> True | _ \<Rightarrow> False)"

definition mem_bits :: "Instruction \<Rightarrow> Exception + nat" where
  "mem_bits instr =
     (case memory_size instr of
        UInt8 \<Rightarrow> Inr 8 | Int8 \<Rightarrow> Inr 8
      | UInt16 \<Rightarrow> Inr 16 | Int16 \<Rightarrow> Inr 16 | WordOffset \<Rightarrow> Inr 16
      | UInt32 \<Rightarrow> Inr 32 | Int32 \<Rightarrow> Inr 32 | DwordOffset \<Rightarrow> Inr 32
      | UInt64 \<Rightarrow> Inr 64 | Int64 \<Rightarrow> Inr 64 | QwordOffset \<Rightarrow> Inr 64
      | _ \<Rightarrow> Inl InvalidOpcode)"

definition op_bits :: "Instruction \<Rightarrow> nat \<Rightarrow> Exception + nat" where
  "op_bits instr i =
     (case op_kind instr i of
        OpRegister \<Rightarrow> reg_bits (op_register instr i)
      | OpMemory \<Rightarrow> mem_bits instr
      | Immediate8 \<Rightarrow> Inr 8 | Immediate16 \<Rightarrow> Inr 16 | Immediate32 \<Rightarrow> Inr 32 | Immediate64 \<Rightarrow> Inr 64
      | Immediate8to16 \<Rightarrow> Inr 16 | Immediate8to32 \<Rightarrow> Inr 32 | Immediate8to64 \<Rightarrow> Inr 64 | Immediate32to64 \<Rightarrow> Inr 64
      | _ \<Rightarrow> Inl InvalidOpcode)"

definition ea_bits :: "CpuState \<Rightarrow> Instruction \<Rightarrow> Exception + nat" where
  "ea_bits s instr =
     (if memory_base instr = RIP then Inr 64
      else if memory_base instr \<noteq> NoReg then reg_bits (memory_base instr)
      else if memory_index instr \<noteq> NoReg then reg_bits (memory_index instr)
      else Inr (if memory_displ_size instr = 2 then 16
                else if memory_displ_size instr = 4 then 32
                else if memory_displ_size instr = 8 then 64
                else bitness s))"

definition calc_ea :: "CpuState \<Rightarrow> Instruction \<Rightarrow> u64 \<Rightarrow> bool \<Rightarrow> Exception + u64" where
  "calc_ea s instr next_ip include_seg =
     (let base = memory_base instr;
          idx = memory_index instr;
          scale = ucast (memory_index_scale instr) :: u64;
          offset = memory_displacement64 instr;
          offset = (if base = RIP then offset - next_ip else offset)
      in case ea_bits s instr of
           Inl e \<Rightarrow> Inl e
         | Inr addr_bits \<Rightarrow>
             let offset = (if base \<noteq> NoReg
                           then offset + ((if base = RIP then next_ip else read_reg s base) AND mask_bits addr_bits) else offset);
                 offset = (if idx \<noteq> NoReg then offset + (read_reg s idx AND mask_bits addr_bits) * scale else offset);
                 addr = offset AND mask_bits addr_bits
             in Inr (if include_seg then apply_a20 s (seg_base_reg s (memory_segment instr) + addr) else addr))"

definition read_mem :: "'b CpuBus \<Rightarrow> CpuState \<Rightarrow> u64 \<Rightarrow> nat \<Rightarrow> ('b, u64) action" where
  "read_mem B s addr bits =
     (if bits = 8 then act_map ucast (cb_read_u8 B (apply_a20 s addr))
      else if bits = 16 then act_map ucast (read_u16_wrapped B s addr)
      else if bits = 32 then act_map ucast (read_u32_wrapped B s addr)
      else if bits = 64 then read_u64_wrapped B s addr
      else act_fail InvalidOpcode)"

definition write_mem :: "'b CpuBus \<Rightarrow> CpuState \<Rightarrow> u64 \<Rightarrow> nat \<Rightarrow> u64 \<Rightarrow> ('b, unit) action" where
  "write_mem B s addr bits val =
     (if bits = 8 then cb_write_u8 B (apply_a20 s addr) (ucast val)
      else if bits = 16 then write_u16_wrapped B s addr (ucast val)
      else if bits = 32 then write_u32_wrapped B s addr (ucast val)
      else if bits = 64 then write_u64_wrapped B s addr val
      else act_fail InvalidOpcode)"

definition read_op_sized :: "'b CpuBus \<Rightarrow> Instruction \<Rightarrow> nat \<Rightarrow> nat \<Rightarrow> u64 \<Rightarrow> ('b, u64) cpu_action" where
  "read_op_sized B instr i bits next_ip =
     (case op_kind instr i of
        OpRegister \<Rightarrow> cpu_get (\<lambda>s. read_reg s (op_register instr i) AND mask_bits bits)
      | OpMemory \<Rightarrow> act_bind (cpu_try (\<lambda>s. calc_ea s instr next_ip True)) (\<lambda>addr. cpu_bus (\<lambda>s. read_mem B s addr bits))
      | Immediate8 \<Rightarrow> act_return (ucast (immediate8 instr) AND mask_bits bits)
      | Immediate16 \<Rightarrow> act_return (ucast (immediate16 instr) AND mask_bits bits)
      | Immediate32 \<Rightarrow> act_return (ucast (immediate32 instr) AND mask_bits bits)
      | Immediate64 \<Rightarrow> act_return (immediate64 instr AND mask_bits bits)
      | Immediate8to16 \<Rightarrow> act_return (scast (immediate8to16 instr) AND mask_bits bits)
      | Immediate8to32 \<Rightarrow> act_return (scast (immediate8to32 instr) AND mask_bits bits)
      | Immediate8to64 \<Rightarrow> act_return (immediate8to64 instr AND mask_bits bits)
      | Immediate32to64 \<Rightarrow> act_return (immediate32to64 instr AND mask_bits bits)
      | _ \<Rightarrow> act_fail InvalidOpcode)"

definition read_op :: "'b CpuBus \<Rightarrow> Instruction \<Rightarrow> nat \<Rightarrow> u64 \<Rightarrow> ('b, u64) cpu_action" where
  "read_op B instr i next_ip = act_bind (cpu_try (\<lambda>_. op_bits instr i)) (\<lambda>bits. read_op_sized B instr i bits next_ip)"

definition write_op_sized :: "'b CpuBus \<Rightarrow> Instruction \<Rightarrow> nat \<Rightarrow> u64 \<Rightarrow> nat \<Rightarrow> u64 \<Rightarrow> ('b, unit) cpu_action" where
  "write_op_sized B instr i val bits next_ip =
     (let v = val AND mask_bits bits
      in case op_kind instr i of
           OpRegister \<Rightarrow> cpu_set (\<lambda>s. write_reg s (op_register instr i) v)
         | OpMemory \<Rightarrow> act_bind (cpu_try (\<lambda>s. calc_ea s instr next_ip True)) (\<lambda>addr. cpu_bus (\<lambda>s. write_mem B s addr bits v))
         | _ \<Rightarrow> act_fail InvalidOpcode)"

definition write_op :: "'b CpuBus \<Rightarrow> Instruction \<Rightarrow> nat \<Rightarrow> u64 \<Rightarrow> u64 \<Rightarrow> ('b, unit) cpu_action" where
  "write_op B instr i val next_ip = act_bind (cpu_try (\<lambda>_. op_bits instr i)) (\<lambda>bits. write_op_sized B instr i val bits next_ip)"

text \<open>
  \<^verbatim>\<open>atomic_rmw_sized\<close>: the closure gives the new value and a result. A range that wraps is read byte by byte with write
  intent and written through the wrapped accesses.
\<close>

fun rmw_read_bytes :: "'b CpuBus \<Rightarrow> CpuState \<Rightarrow> u64 \<Rightarrow> nat list \<Rightarrow> u64 \<Rightarrow> ('b, u64) action" where
  "rmw_read_bytes B s addr [] old = act_return old"
| "rmw_read_bytes B s addr (i # rest) old =
     act_bind (cb_atomic_rmw_u8 B (apply_a20 s (addr + of_nat i)) (\<lambda>old. old)) (\<lambda>b.
     rmw_read_bytes B s addr rest (old OR push_bit (i * 8) (ucast b)))"

definition atomic_rmw_sized :: "'b CpuBus \<Rightarrow> CpuState \<Rightarrow> u64 \<Rightarrow> nat \<Rightarrow> (u64 \<Rightarrow> u64 \<times> 'r) \<Rightarrow> ('b, 'r) action" where
  "atomic_rmw_sized B s addr bits f =
     (let len = bits div 8
      in case contiguous_masked_start s addr len of
           Some start \<Rightarrow>
             if bits = 8 then act_map (\<lambda>old. snd (f (ucast old))) (cb_atomic_rmw_u8 B start (\<lambda>old. ucast (fst (f (ucast old)))))
             else if bits = 16 then act_map (\<lambda>old. snd (f (ucast old))) (cb_atomic_rmw_u16 B start (\<lambda>old. ucast (fst (f (ucast old)))))
             else if bits = 32 then act_map (\<lambda>old. snd (f (ucast old))) (cb_atomic_rmw_u32 B start (\<lambda>old. ucast (fst (f (ucast old)))))
             else if bits = 64 then act_map (\<lambda>old. snd (f old)) (cb_atomic_rmw_u64 B start (\<lambda>old. fst (f old)))
             else act_fail InvalidOpcode
         | None \<Rightarrow>
             act_bind (rmw_read_bytes B s addr [0..<len] 0) (\<lambda>old.
             let msk = mask_bits bits;
                 old = old AND msk;
                 new = fst (f old) AND msk
             in act_then
                  (if new \<noteq> old then
                     if bits = 8 then cb_write_u8 B (apply_a20 s addr) (ucast new)
                     else if bits = 16 then write_u16_wrapped B s addr (ucast new)
                     else if bits = 32 then write_u32_wrapped B s addr (ucast new)
                     else if bits = 64 then write_u64_wrapped B s addr new
                     else act_fail InvalidOpcode
                   else act_return ())
                  (act_return (snd (f old)))))"

section \<open>The instructions\<close>

definition no_lock :: "Instruction \<Rightarrow> ('b, 'a) cpu_action \<Rightarrow> ('b, 'a) cpu_action" where
  "no_lock instr m = (if has_lock_prefix instr then act_fail InvalidOpcode else m)"

definition op_is :: "Instruction \<Rightarrow> nat \<Rightarrow> (Register \<Rightarrow> bool) \<Rightarrow> bool" where
  "op_is instr i p \<longleftrightarrow> op_kind instr i = OpRegister \<and> p (op_register instr i)"

definition exec_mov :: "'b CpuBus \<Rightarrow> Instruction \<Rightarrow> u64 \<Rightarrow> ('b, ExecOutcome) cpu_action" where
  "exec_mov B instr next_ip = no_lock instr
     (if op_is instr 0 is_ctrl_or_debug_reg \<or> op_is instr 1 is_ctrl_or_debug_reg then act_return (Assist Privileged)
      else act_bind (cpu_get cpu_mode) (\<lambda>m.
        if m \<noteq> Real \<and> op_is instr 0 is_seg_reg then act_return (Assist Privileged)
        else act_bind (read_op B instr 1 next_ip) (\<lambda>v.
             act_then (write_op B instr 0 v next_ip)
                (act_return (if op_is instr 0 (\<lambda>r. r = Seg SS) then ContinueInhibitInterrupts else Continue)))))"

definition exec_movnti :: "'b CpuBus \<Rightarrow> Instruction \<Rightarrow> u64 \<Rightarrow> ('b, ExecOutcome) cpu_action" where
  "exec_movnti B instr next_ip = no_lock instr
     (act_bind (read_op B instr 1 next_ip) (\<lambda>v. act_then (write_op B instr 0 v next_ip) (act_return Continue)))"

definition exec_lea :: "'b CpuBus \<Rightarrow> Instruction \<Rightarrow> u64 \<Rightarrow> ('b, ExecOutcome) cpu_action" where
  "exec_lea B instr next_ip = no_lock instr
     (act_bind (cpu_try (\<lambda>s. calc_ea s instr next_ip False)) (\<lambda>addr. act_then (write_op B instr 0 addr next_ip) (act_return Continue)))"

definition exec_far_pointer :: "'b CpuBus \<Rightarrow> Instruction \<Rightarrow> SegReg \<Rightarrow> u64 \<Rightarrow> ('b, ExecOutcome) cpu_action" where
  "exec_far_pointer B instr sg next_ip = no_lock instr
     (act_bind (cpu_try (\<lambda>_. op_bits instr 0)) (\<lambda>bits.
      act_bind (cpu_try (\<lambda>s. calc_ea s instr next_ip True)) (\<lambda>addr.
      act_bind (cpu_bus (\<lambda>s. read_mem B s addr bits)) (\<lambda>off.
      act_bind (cpu_bus (\<lambda>s. read_mem B s (addr + of_nat (bits div 8)) 16)) (\<lambda>sel.
      act_then (write_op B instr 0 off next_ip)
        (act_bind (cpu_get cpu_mode) (\<lambda>m.
           if m = Real \<or> m = Vm86 then act_then (cpu_set (\<lambda>s. write_reg s (Seg sg) sel)) (act_return Continue)
           else act_return (Assist Privileged))))))))"

definition exec_xchg :: "'b CpuBus \<Rightarrow> Instruction \<Rightarrow> u64 \<Rightarrow> ('b, ExecOutcome) cpu_action" where
  "exec_xchg B instr next_ip =
     (if op_kind instr 0 = OpRegister \<and> op_kind instr 1 = OpRegister then
        no_lock instr
          (act_bind (read_op B instr 0 next_ip) (\<lambda>a.
           act_bind (read_op B instr 1 next_ip) (\<lambda>b.
           act_then (write_op B instr 0 b next_ip) (act_then (write_op B instr 1 a next_ip) (act_return Continue)))))
      else if (op_kind instr 0 = OpMemory \<and> op_kind instr 1 = OpRegister) \<or> (op_kind instr 0 = OpRegister \<and> op_kind instr 1 = OpMemory) then
        let reg_op = (if op_kind instr 0 = OpMemory then 1 else 0);
            reg = op_register instr reg_op
        in act_bind (cpu_try (\<lambda>_. op_bits instr reg_op)) (\<lambda>bits.
           act_bind (cpu_get (\<lambda>s. read_reg s reg AND mask_bits bits)) (\<lambda>reg_val.
           act_bind (cpu_try (\<lambda>s. calc_ea s instr next_ip True)) (\<lambda>addr.
           act_bind (cpu_bus (\<lambda>s. atomic_rmw_sized B s addr bits (\<lambda>old. (reg_val, old)))) (\<lambda>old.
           act_then (cpu_set (\<lambda>s. write_reg s reg old)) (act_return Continue)))))
      else act_fail InvalidOpcode)"

definition exec_movx :: "'b CpuBus \<Rightarrow> Instruction \<Rightarrow> bool \<Rightarrow> u64 \<Rightarrow> ('b, ExecOutcome) cpu_action" where
  "exec_movx B instr zero next_ip = no_lock instr
     (act_bind (cpu_try (\<lambda>_. op_bits instr 1)) (\<lambda>src_bits.
      act_bind (cpu_try (\<lambda>_. op_bits instr 0)) (\<lambda>dst_bits.
      act_bind (read_op_sized B instr 1 src_bits next_ip) (\<lambda>src.
      act_then (write_op_sized B instr 0 (if zero then src AND mask_bits dst_bits else sign_extend src src_bits dst_bits) dst_bits next_ip)
        (act_return Continue)))))"

definition exec_cmov :: "'b CpuBus \<Rightarrow> Instruction \<Rightarrow> Cond \<Rightarrow> u64 \<Rightarrow> ('b, ExecOutcome) cpu_action" where
  "exec_cmov B instr c next_ip = no_lock instr
     (act_bind (cpu_get (\<lambda>s. eval_cond s c)) (\<lambda>t.
      if t then act_bind (read_op B instr 1 next_ip) (\<lambda>v. act_then (write_op B instr 0 v next_ip) (act_return Continue))
      else act_return Continue))"

definition exec_setcc :: "'b CpuBus \<Rightarrow> Instruction \<Rightarrow> Cond \<Rightarrow> u64 \<Rightarrow> ('b, ExecOutcome) cpu_action" where
  "exec_setcc B instr c next_ip = no_lock instr
     (act_bind (cpu_get (\<lambda>s. if eval_cond s c then 1 else 0)) (\<lambda>v.
      act_then (write_op_sized B instr 0 v 8 next_ip) (act_return Continue)))"

definition swap_bytes :: "nat \<Rightarrow> 'a::len word \<Rightarrow> 'a word" where
  "swap_bytes n v = from_le_bytes (rev (to_le_bytes n v))"

definition exec_bswap :: "Instruction \<Rightarrow> ('b, ExecOutcome) cpu_action" where
  "exec_bswap instr = no_lock instr
     (let reg = op_register instr 0
      in act_bind (cpu_try (\<lambda>_. reg_bits reg)) (\<lambda>bits.
         act_bind (cpu_get (\<lambda>s. read_reg s reg)) (\<lambda>v.
         if bits = 32 then act_then (cpu_set (\<lambda>s. write_reg s reg (ucast (swap_bytes 4 (ucast v :: u32))))) (act_return Continue)
         else if bits = 64 then act_then (cpu_set (\<lambda>s. write_reg s reg (swap_bytes 8 v))) (act_return Continue)
         else act_fail InvalidOpcode)))"

definition exec_xadd :: "'b CpuBus \<Rightarrow> Instruction \<Rightarrow> u64 \<Rightarrow> ('b, ExecOutcome) cpu_action" where
  "exec_xadd B instr next_ip =
     (if has_lock_prefix instr \<and> op_kind instr 0 \<noteq> OpMemory then act_fail InvalidOpcode
      else act_bind (cpu_try (\<lambda>_. op_bits instr 0)) (\<lambda>bits.
           act_bind (read_op_sized B instr 1 bits next_ip) (\<lambda>src.
           act_bind
             (if has_lock_prefix instr then
                act_bind (cpu_try (\<lambda>s. calc_ea s instr next_ip True)) (\<lambda>addr.
                act_bind (cpu_bus (\<lambda>s. atomic_rmw_sized B s addr bits (\<lambda>old. ((old + src) AND mask_bits bits, old)))) (\<lambda>dst.
                cpu_get (\<lambda>s. (dst, snd (add_with_flags s dst src 0 bits)))))
              else
                act_bind (read_op_sized B instr 0 bits next_ip) (\<lambda>dst.
                act_bind (cpu_get (\<lambda>s. add_with_flags s dst src 0 bits)) (\<lambda>(res, flags).
                act_then (write_op_sized B instr 0 res bits next_ip) (act_return (dst, flags)))))
             (\<lambda>(dst, flags).
              act_then (write_op_sized B instr 1 dst bits next_ip)
                (act_then (cpu_set (\<lambda>s. set_rflags s flags)) (act_return Continue))))))"

definition exec_data :: "'b CpuBus \<Rightarrow> Instruction \<Rightarrow> u64 \<Rightarrow> ('b, ExecOutcome) cpu_action" where
  "exec_data B instr next_ip =
     (case mnemonic instr of
        Data M_Mov \<Rightarrow> exec_mov B instr next_ip
      | Data M_Movnti \<Rightarrow> exec_movnti B instr next_ip
      | Data M_Lea \<Rightarrow> exec_lea B instr next_ip
      | Data M_Les \<Rightarrow> exec_far_pointer B instr ES next_ip
      | Data M_Lds \<Rightarrow> exec_far_pointer B instr DS next_ip
      | Data M_Xchg \<Rightarrow> exec_xchg B instr next_ip
      | Data M_Movsx \<Rightarrow> exec_movx B instr False next_ip
      | Data M_Movzx \<Rightarrow> exec_movx B instr True next_ip
      | Data M_Movsxd \<Rightarrow> exec_movx B instr False next_ip
      | Cmov c \<Rightarrow> exec_cmov B instr c next_ip
      | Setcc c \<Rightarrow> exec_setcc B instr c next_ip
      | Data M_Bswap \<Rightarrow> exec_bswap instr
      | Data M_Xadd \<Rightarrow> exec_xadd B instr next_ip
      | _ \<Rightarrow> act_fail InvalidOpcode)"

section \<open>Instructions that fail leave no trace\<close>

text \<open>
  From the processor state \<open>s\<close>: \<open>unmoved\<close> if the action never changes the processor and the bus only up to \<open>same\<close>; \<open>precise\<close> if
  that holds whenever it fails. An action is \<open>sure\<close> if it neither fails nor touches the bus.
\<close>

definition unmoved :: "('b \<Rightarrow> bool) \<Rightarrow> ('b \<Rightarrow> 'b \<Rightarrow> bool) \<Rightarrow> CpuState \<Rightarrow> ('b, 'a) cpu_action \<Rightarrow> bool" where
  "unmoved ok same s m \<longleftrightarrow> (\<forall>b r s' b'. ok b \<longrightarrow> m (s, b) = (r, (s', b')) \<longrightarrow> ok b' \<and> s' = s \<and> same b b')"

definition precise :: "('b \<Rightarrow> bool) \<Rightarrow> ('b \<Rightarrow> 'b \<Rightarrow> bool) \<Rightarrow> CpuState \<Rightarrow> ('b, 'a) cpu_action \<Rightarrow> bool" where
  "precise ok same s m \<longleftrightarrow> (\<forall>b r s' b'. ok b \<longrightarrow> m (s, b) = (r, (s', b')) \<longrightarrow> ok b' \<and> (isl r \<longrightarrow> s' = s \<and> same b b'))"

definition sure :: "('b, 'a) cpu_action \<Rightarrow> bool" where
  "sure m \<longleftrightarrow> (\<forall>s b. \<exists>x s'. m (s, b) = (Inr x, (s', b)))"

lemma preciseD: "precise ok same s m \<Longrightarrow> ok b \<Longrightarrow> m (s, b) = (r, (s', b')) \<Longrightarrow> ok b' \<and> (isl r \<longrightarrow> s' = s \<and> same b b')"
  unfolding precise_def by blast

lemma unmovedD: "unmoved ok same s m \<Longrightarrow> ok b \<Longrightarrow> m (s, b) = (r, (s', b')) \<Longrightarrow> ok b' \<and> s' = s \<and> same b b'"
  unfolding unmoved_def by blast

lemma sure_basic [simp]:
  "sure (act_return x)" "sure (cpu_get f)" "sure (cpu_set g)" "(\<And>s. \<exists>x. h s = Inr x) \<Longrightarrow> sure (cpu_try h)"
  by (auto simp: sure_def act_return_def cpu_get_def cpu_set_def cpu_try_def) (metis map_sum.simps(2))

lemma sure_bind: "sure m \<Longrightarrow> (\<And>x. sure (k x)) \<Longrightarrow> sure (act_bind m k)"
  unfolding sure_def
proof (intro allI)
  fix s b
  assume m: "\<forall>s b. \<exists>x s'. m (s, b) = (Inr x, (s', b))" and k: "\<And>x. \<forall>s b. \<exists>y s'. k x (s, b) = (Inr y, (s', b))"
  obtain x s1 where "m (s, b) = (Inr x, (s1, b))" using m by blast
  moreover obtain y s2 where "k x (s1, b) = (Inr y, (s2, b))" using k by blast
  ultimately show "\<exists>y s2. act_bind m k (s, b) = (Inr y, (s2, b))" by (auto simp: act_bind_def)
qed

lemma sure_then: "sure m \<Longrightarrow> sure k \<Longrightarrow> sure (act_then m k)"
  by (simp add: act_then_def sure_bind)

lemma act_bind_Inr: "act_bind m f s = (r, s') \<longleftrightarrow> (\<exists>x s1. m s = (Inr x, s1) \<and> f x s1 = (r, s')) \<or> (\<exists>e. m s = (Inl e, s') \<and> r = Inl e)"
  by (cases "m s"; cases "fst (m s)") (auto simp: act_bind_def)

context fault_safe_bus
begin

lemma unmoved_basic:
  "unmoved ok same s (act_return x)" "unmoved ok same s (act_fail e)" "unmoved ok same s (cpu_get f)" "unmoved ok same s (cpu_try h)"
  by (auto simp: unmoved_def act_return_def act_fail_def cpu_get_def cpu_try_def)

lemma unmoved_bus: "quiet ok same (f s) \<Longrightarrow> unmoved ok same s (cpu_bus f)"
  by (auto simp: unmoved_def cpu_bus_def split: prod.splits dest: quietD)

lemma unmoved_bind:
  assumes "unmoved ok same s m" "\<And>x. unmoved ok same s (k x)"
  shows "unmoved ok same s (act_bind m k)"
  unfolding unmoved_def
proof (intro allI impI)
  fix b r s' b' assume b: "ok b" "act_bind m k (s, b) = (r, (s', b'))"
  consider x s1 b1 where "m (s, b) = (Inr x, (s1, b1))" "k x (s1, b1) = (r, (s', b'))" | e where "m (s, b) = (Inl e, (s', b'))"
    using b(2) unfolding act_bind_Inr by (metis prod.collapse)
  then show "ok b' \<and> s' = s \<and> same b b'"
  proof cases
    case 1
    then have "ok b1" "s1 = s" "same b b1" using assms(1) b(1) unfolding unmoved_def by metis+
    moreover from this have "ok b' \<and> s' = s \<and> same b1 b'" using assms(2) 1(2) unfolding unmoved_def by metis
    ultimately show ?thesis using same_trans by blast
  next
    case 2
    then show ?thesis using assms(1) b(1) unfolding unmoved_def by metis
  qed
qed

lemma unmoved_precise: "unmoved ok same s m \<Longrightarrow> precise ok same s m"
  unfolding unmoved_def precise_def by metis

lemma precise_bus: "fault_safe ok same (f s) \<Longrightarrow> precise ok same s (cpu_bus f)"
  by (auto simp: precise_def cpu_bus_def split: prod.splits dest: fault_safeD)

lemma sure_precise: "sure m \<Longrightarrow> precise ok same s m"
  unfolding sure_def precise_def by (metis Inr_Inl_False prod.inject sum.collapse(1))

lemma precise_bind:
  assumes "unmoved ok same s m" "\<And>x b b'. ok b \<Longrightarrow> m (s, b) = (Inr x, (s, b')) \<Longrightarrow> precise ok same s (k x)"
  shows "precise ok same s (act_bind m k)"
  unfolding precise_def
proof (intro allI impI)
  fix b r s' b' assume b: "ok b" "act_bind m k (s, b) = (r, (s', b'))"
  consider x s1 b1 where "m (s, b) = (Inr x, (s1, b1))" "k x (s1, b1) = (r, (s', b'))" | e where "m (s, b) = (Inl e, (s', b'))"
    using b(2) unfolding act_bind_Inr by (metis prod.collapse)
  then show "ok b' \<and> (isl r \<longrightarrow> s' = s \<and> same b b')"
  proof cases
    case 1
    then have 2: "ok b1" "s1 = s" "same b b1" using assms(1) b(1) unfolding unmoved_def by metis+
    then have "ok b' \<and> (isl r \<longrightarrow> s' = s \<and> same b1 b')" using assms(2) [OF b(1)] 1 unfolding precise_def by metis
    then show ?thesis using 2(3) same_trans by blast
  next
    case 2
    then show ?thesis using assms(1) b(1) unfolding unmoved_def by metis
  qed
qed

lemma precise_sure:
  assumes "precise ok same s m" "\<And>x. sure (k x)"
  shows "precise ok same s (act_bind m k)"
  unfolding precise_def
proof (intro allI impI)
  fix b r s' b' assume b: "ok b" "act_bind m k (s, b) = (r, (s', b'))"
  consider x s1 b1 where "m (s, b) = (Inr x, (s1, b1))" "k x (s1, b1) = (r, (s', b'))" | e where "m (s, b) = (Inl e, (s', b'))" "r = Inl e"
    using b(2) unfolding act_bind_Inr by (metis prod.collapse)
  then show "ok b' \<and> (isl r \<longrightarrow> s' = s \<and> same b b')"
  proof cases
    case 1
    have "ok b1" using preciseD [OF assms(1) b(1) 1(1)] by simp
    moreover obtain y s2 where "k x (s1, b1) = (Inr y, (s2, b1))" using assms(2) unfolding sure_def by metis
    ultimately show ?thesis using 1(2) by auto
  next
    case 2
    then show ?thesis using preciseD [OF assms(1) b(1) 2(1)] by simp
  qed
qed

lemma precise_then: "precise ok same s m \<Longrightarrow> sure k \<Longrightarrow> precise ok same s (act_then m k)"
  by (simp add: act_then_def precise_sure)

lemma precise_try: "(\<And>x. h s = Inr x \<Longrightarrow> precise ok same s (k x)) \<Longrightarrow> precise ok same s (act_bind (cpu_try h) k)"
  by (rule precise_bind [OF unmoved_basic(4)]) (auto simp: cpu_try_def map_sum_def split: sum.splits)

lemma precise_get: "precise ok same s (k (f s)) \<Longrightarrow> precise ok same s (act_bind (cpu_get f) k)"
  by (rule precise_bind [OF unmoved_basic(3)]) (auto simp: cpu_get_def)

text \<open>Operands.\<close>

lemma read_mem_quiet: "quiet ok same (read_mem B s addr bits)"
  by (simp add: read_mem_def quiet_map read_quiet reads_wrapped_quiet)

lemma read_op_sized_unmoved: "unmoved ok same s (read_op_sized B instr i bits ip)"
  unfolding read_op_sized_def
  by (auto split: OpKind.split intro!: unmoved_basic unmoved_bind unmoved_bus read_mem_quiet)

lemma precise_read_sized: "(\<And>x. precise ok same s (k x)) \<Longrightarrow> precise ok same s (act_bind (read_op_sized B instr i bits ip) k)"
  by (rule precise_bind [OF read_op_sized_unmoved])

lemma precise_read:
  assumes "\<And>x bits. op_bits instr i = Inr bits \<Longrightarrow> precise ok same s (k x)"
  shows "precise ok same s (act_bind (read_op B instr i ip) k)"
proof (rule precise_bind)
  show "unmoved ok same s (read_op B instr i ip)" unfolding read_op_def by (intro unmoved_bind unmoved_basic read_op_sized_unmoved)
  fix x b b' assume "read_op B instr i ip (s, b) = (Inr x, (s, b'))"
  then have "\<exists>bits. op_bits instr i = Inr bits"
    by (cases "op_bits instr i") (auto simp: read_op_def act_bind_Inr cpu_try_def)
  then show "precise ok same s (k x)" using assms by blast
qed

lemma write_mem_safe: "bits = 8 \<or> contiguous_masked_start s addr (bits div 8) \<noteq> None \<Longrightarrow> fault_safe ok same (write_mem B s addr bits v)"
  using writes_wrapped_safe [of s addr]
  by (auto simp: write_mem_def write_safe quiet_fault_safe)

end

text \<open>The memory operand does not wrap around the address space, at the size of either operand.\<close>

definition ea_fits :: "CpuState \<Rightarrow> Instruction \<Rightarrow> u64 \<Rightarrow> bool" where
  "ea_fits s instr ip =
     (case calc_ea s instr ip True of
        Inl _ \<Rightarrow> True
      | Inr a \<Rightarrow> (\<forall>i\<in>{0, 1}. case op_bits instr i of Inl _ \<Rightarrow> True | Inr bits \<Rightarrow> contiguous_masked_start s a (bits div 8) \<noteq> None))"

lemma ea_fitsD: "ea_fits s instr ip \<Longrightarrow> calc_ea s instr ip True = Inr a \<Longrightarrow> op_bits instr i = Inr bits \<Longrightarrow> i = 0 \<or> i = 1 \<Longrightarrow>
    contiguous_masked_start s a (bits div 8) \<noteq> None"
  by (auto simp: ea_fits_def split: sum.splits)

lemma sure_write_register: "op_kind instr i = OpRegister \<Longrightarrow> sure (write_op_sized B instr i v bits ip)"
  by (simp add: write_op_sized_def)

context fault_safe_bus
begin

lemma write_op_sized_precise:
  assumes "ea_fits s instr ip" "bits = 8 \<or> op_bits instr i = Inr bits" "i = 0 \<or> i = 1"
  shows "precise ok same s (write_op_sized B instr i v bits ip)"
proof (cases "op_kind instr i")
  case OpMemory
  have "precise ok same s (cpu_bus (\<lambda>s. write_mem B s a bits w))" if "calc_ea s instr ip True = Inr a" for a w
    using ea_fitsD [OF assms(1) that] assms(2,3) by (intro precise_bus write_mem_safe) auto
  then show ?thesis using OpMemory by (auto simp: write_op_sized_def intro: precise_try)
qed (simp_all add: write_op_sized_def sure_precise unmoved_precise unmoved_basic)

lemma write_op_precise: "ea_fits s instr ip \<Longrightarrow> i = 0 \<or> i = 1 \<Longrightarrow> precise ok same s (write_op B instr i v ip)"
  unfolding write_op_def by (rule precise_try) (auto intro: write_op_sized_precise)

lemma rmw_precise:
  assumes "ea_fits s instr ip" "calc_ea s instr ip True = Inr a" "op_bits instr i = Inr bits" "i = 0 \<or> i = 1"
  shows "precise ok same s (cpu_bus (\<lambda>s. atomic_rmw_sized B s a bits f))"
proof -
  have "fault_safe ok same (atomic_rmw_sized B s a bits f)"
    using ea_fitsD [OF assms] by (auto simp: atomic_rmw_sized_def Let_def act_map_def intro!: fault_safe_map rmw_safe quiet_return(2) [THEN quiet_fault_safe])
  then show ?thesis by (rule precise_bus)
qed

end


section \<open>Data movement is precise\<close>

text \<open>The forms the decoder produces: \<^verbatim>\<open>XADD\<close> has a register as its second operand.\<close>

definition data_form :: "Instruction \<Rightarrow> bool" where
  "data_form instr \<longleftrightarrow> (mnemonic instr = Data M_Xadd \<longrightarrow> op_kind instr 1 = OpRegister)"

lemma sure_write_op: "op_kind instr i = OpRegister \<Longrightarrow> op_bits instr i = Inr bits \<Longrightarrow> sure (write_op B instr i v ip)"
  by (auto simp: write_op_def intro!: sure_bind sure_write_register)

lemma sure_if: "sure m \<Longrightarrow> sure k \<Longrightarrow> sure (if c then m else k)"
  by simp

lemmas sure_intros = sure_basic sure_bind sure_then sure_if sure_write_register

context fault_safe_bus
begin

lemma no_lock_precise: "(\<not> has_lock_prefix instr \<Longrightarrow> precise ok same s m) \<Longrightarrow> precise ok same s (no_lock instr m)"
  by (simp add: no_lock_def unmoved_precise unmoved_basic)

lemma precise_bus_bind:
  "(\<And>s. quiet ok same (f s)) \<Longrightarrow> (\<And>x. precise ok same s (k x)) \<Longrightarrow> precise ok same s (act_bind (cpu_bus f) k)"
  by (rule precise_bind [OF unmoved_bus]) auto

lemma precise_if: "(c \<Longrightarrow> precise ok same s m) \<Longrightarrow> (\<not> c \<Longrightarrow> precise ok same s k) \<Longrightarrow> precise ok same s (if c then m else k)"
  by simp

lemma precise_return: "precise ok same s (act_return x)" "precise ok same s (act_fail e)" "precise ok same s (cpu_set f)"
  by (simp_all add: unmoved_precise unmoved_basic sure_precise)

lemmas precise_intros = no_lock_precise precise_try precise_get precise_read precise_read_sized precise_bus_bind precise_return precise_then

lemma exec_mov_precise: "ea_fits s instr ip \<Longrightarrow> precise ok same s (exec_mov B instr ip)"
  unfolding exec_mov_def by (auto intro!: precise_intros write_op_precise)

lemma exec_movnti_precise: "ea_fits s instr ip \<Longrightarrow> precise ok same s (exec_movnti B instr ip)"
  unfolding exec_movnti_def by (auto intro!: precise_intros write_op_precise)

lemma exec_lea_precise: "ea_fits s instr ip \<Longrightarrow> precise ok same s (exec_lea B instr ip)"
  unfolding exec_lea_def by (auto intro!: precise_intros write_op_precise)

lemma exec_far_pointer_precise: "ea_fits s instr ip \<Longrightarrow> precise ok same s (exec_far_pointer B instr sg ip)"
  unfolding exec_far_pointer_def by (auto intro!: precise_intros write_op_precise read_mem_quiet sure_intros)

lemma exec_xchg_precise: "ea_fits s instr ip \<Longrightarrow> precise ok same s (exec_xchg B instr ip)"
proof -
  assume f: "ea_fits s instr ip"
  have rmw: "precise ok same s (act_bind (cpu_try (\<lambda>_. op_bits instr i)) (\<lambda>bits.
       act_bind (cpu_get (\<lambda>s. read_reg s reg AND mask_bits bits)) (\<lambda>v. act_bind (cpu_try (\<lambda>s. calc_ea s instr ip True)) (\<lambda>addr.
       act_bind (cpu_bus (\<lambda>s. atomic_rmw_sized B s addr bits (\<lambda>old. (v, old)))) (\<lambda>old.
       act_then (cpu_set (\<lambda>s. write_reg s reg old)) (act_return Continue))))))" if "i = 0 \<or> i = 1" for i reg
    using that by (intro precise_try precise_get precise_sure [OF rmw_precise [OF f]] sure_intros) auto
  have regs: "precise ok same s (act_bind (read_op B instr 0 ip) (\<lambda>a. act_bind (read_op B instr 1 ip) (\<lambda>b.
       act_then (write_op B instr 0 b ip) (act_then (write_op B instr 1 a ip) (act_return Continue)))))" if "op_kind instr 1 = OpRegister"
    using that by (auto intro!: precise_read precise_then write_op_precise [OF f] sure_then intro: sure_write_op)
  show ?thesis
    unfolding exec_xchg_def Let_def by (intro precise_if no_lock_precise precise_return rmw regs) auto
qed

lemma exec_movx_precise: "ea_fits s instr ip \<Longrightarrow> precise ok same s (exec_movx B instr zero ip)"
  unfolding exec_movx_def by (auto intro!: precise_intros write_op_sized_precise)

lemma exec_cmov_precise: "ea_fits s instr ip \<Longrightarrow> precise ok same s (exec_cmov B instr c ip)"
  unfolding exec_cmov_def by (auto intro!: precise_intros write_op_precise)

lemma exec_setcc_precise: "ea_fits s instr ip \<Longrightarrow> precise ok same s (exec_setcc B instr c ip)"
  unfolding exec_setcc_def by (auto intro!: precise_intros write_op_sized_precise)

lemma exec_bswap_precise: "precise ok same s (exec_bswap instr)"
  unfolding exec_bswap_def Let_def by (auto intro!: precise_intros)

lemma exec_xadd_precise:
  assumes f: "ea_fits s instr ip" and r: "op_kind instr 1 = OpRegister"
  shows "precise ok same s (exec_xadd B instr ip)"
proof -
  have locked: "precise ok same s (act_bind (cpu_try (\<lambda>s. calc_ea s instr ip True)) (\<lambda>addr.
      act_bind (cpu_bus (\<lambda>s. atomic_rmw_sized B s addr bits (\<lambda>old. ((old + src) AND mask_bits bits, old)))) (\<lambda>dst.
      cpu_get (\<lambda>s. (dst, snd (add_with_flags s dst src 0 bits))))))" if "op_bits instr 0 = Inr bits" for bits src
    using that by (intro precise_try precise_sure [OF rmw_precise [OF f]] sure_intros) auto
  have plain: "precise ok same s (act_bind (read_op_sized B instr 0 bits ip) (\<lambda>dst.
      act_bind (cpu_get (\<lambda>s. add_with_flags s dst src 0 bits)) (\<lambda>(res, flags).
      act_then (write_op_sized B instr 0 res bits ip) (act_return (dst, flags)))))" if "op_bits instr 0 = Inr bits" for bits src
    using that by (auto intro!: precise_read_sized precise_get precise_then write_op_sized_precise [OF f] split: prod.split)
  show ?thesis
    unfolding exec_xadd_def
    using locked plain r by (auto intro!: precise_return precise_try precise_read_sized precise_sure sure_intros split: prod.split)
qed

text \<open>A data instruction that fails can be restarted: nothing has changed.\<close>

lemma exec_data_precise:
  assumes "ea_fits s instr ip" "data_form instr"
  shows "precise ok same s (exec_data B instr ip)"
proof (cases "mnemonic instr")
  case (Data m)
  then show ?thesis
    using assms(2)
    by (cases m) (simp_all add: exec_data_def data_form_def exec_mov_precise exec_movnti_precise exec_lea_precise exec_far_pointer_precise
        exec_xchg_precise exec_movx_precise exec_bswap_precise exec_xadd_precise assms(1))
qed (simp_all add: exec_data_def exec_cmov_precise exec_setcc_precise precise_return assms(1))

end

section \<open>Registers hold what is written\<close>

lemma gpr_info_bounds: "gpr_info r = Some (i, b, h) \<Longrightarrow> i < 16 \<and> b \<in> {8, 16, 32, 64} \<and> (h \<longrightarrow> b = 8)"
proof (cases r)
  case (Reg8 x)
  then show "gpr_info r = Some (i, b, h) \<Longrightarrow> ?thesis" by (cases x) auto
next
  case (Reg16 x)
  then show "gpr_info r = Some (i, b, h) \<Longrightarrow> ?thesis" by (cases x) auto
next
  case (Reg32 x)
  then show "gpr_info r = Some (i, b, h) \<Longrightarrow> ?thesis" by (cases x) auto
next
  case (Reg64 x)
  then show "gpr_info r = Some (i, b, h) \<Longrightarrow> ?thesis" by (cases x) auto
qed auto

lemma low_masks: "(0xFF :: u64) = mask 8" "(0xFFFF :: u64) = mask 16" "(0xFFFFFFFF :: u64) = mask 32"
  by (simp_all add: mask_eq_exp_minus_1)

lemma high_byte_mask: "(0xFF00 :: u64) = push_bit 8 (mask 8)"
  by (simp add: mask_eq_exp_minus_1 push_bit_eq_mult)

lemmas part_bits = bit_and_iff bit_or_iff bit_not_iff bit_mask_iff bit_take_bit_iff bit_push_bit_iff bit_drop_bit_eq

lemma read_write_reg:
  assumes "length (gpr s) = 16" "gpr_info r = Some (i, b, h)"
  shows "read_reg (write_reg s r v) r = take_bit b v"
  using assms gpr_info_bounds [OF assms(2)]
  by (intro bit_eqI) (auto simp: read_reg_def write_reg_def Let_def low_masks high_byte_mask part_bits)

lemma read_write_other:
  assumes "gpr_info r = Some (i, b, h)" "gpr_info r' = Some (i', b', h')" "i \<noteq> i'"
  shows "read_reg (write_reg s r v) r' = read_reg s r'"
  using assms by (simp add: read_reg_def write_reg_def Let_def)

lemma read_write_AL_AH: "length (gpr s) = 16 \<Longrightarrow> read_reg (write_reg (write_reg s (Reg8 AL) q) (Reg8 AH) r) (Reg8 AL) = take_bit 8 q"
  by (intro bit_eqI) (auto simp: read_reg_def write_reg_def Let_def low_masks high_byte_mask part_bits)

lemma read_AX_parts: "read_reg s (Reg8 AL) = take_bit 8 (read_reg s (Reg16 AX))" "read_reg s (Reg8 AH) = take_bit 8 (drop_bit 8 (read_reg s (Reg16 AX)))"
  by (rule bit_eqI; auto simp: read_reg_def Let_def low_masks part_bits)+

lemma length_gpr_write_reg [simp]: "length (gpr (write_reg s r v)) = length (gpr s)"
  by (auto simp: write_reg_def Let_def set_ip_def split: option.splits Register.splits)

lemma read_reg_width: "gpr_info r = Some (i, b, h) \<Longrightarrow> take_bit b (read_reg s r) = read_reg s r"
  using gpr_info_bounds [of r i b h] by (intro bit_eqI) (auto simp: read_reg_def Let_def low_masks part_bits)

end
