(* ===== verification/CpuFlow.thy ===== *)
theory CpuFlow
  imports CpuData
begin

text \<open>
  Control flow and the stack, \<^verbatim>\<open>aero-cpu-core/src/interp/tier0/ops_cf.rs\<close>: jumps, calls and returns, loops, pushes and pops of
  operands, flags and all registers, stack frames. The debug output of far returns is left out.

  A push moves the stack pointer only when its store has succeeded, so the instructions that touch the stack once can be
  restarted after a fault; \<^verbatim>\<open>POP\<close> to memory cannot, and neither can those that push or pop several times.
\<close>

section \<open>Stack and branch targets\<close>

definition is_far_branch :: "Instruction \<Rightarrow> bool" where
  "is_far_branch instr \<longleftrightarrow> op_kind instr 0 = FarBranch16 \<or> op_kind instr 0 = FarBranch32"

definition is_far_ptr_mem :: "Instruction \<Rightarrow> bool" where
  "is_far_ptr_mem instr \<longleftrightarrow> memory_size instr = SegPtr16 \<or> memory_size instr = SegPtr32 \<or> memory_size instr = SegPtr64"

definition read_far_ptr_mem :: "'b CpuBus \<Rightarrow> Instruction \<Rightarrow> u64 \<Rightarrow> ('b, u64 \<times> u64) cpu_action" where
  "read_far_ptr_mem B instr next_ip =
     act_bind (cpu_try (\<lambda>_. case memory_size instr of SegPtr16 \<Rightarrow> Inr 16 | SegPtr32 \<Rightarrow> Inr 32 | SegPtr64 \<Rightarrow> Inr 64 | _ \<Rightarrow> Inl InvalidOpcode)) (\<lambda>off_bits.
     act_bind (cpu_try (\<lambda>s. calc_ea s instr next_ip True)) (\<lambda>addr.
     act_bind (cpu_bus (\<lambda>s. read_mem B s addr off_bits)) (\<lambda>off.
     act_bind (cpu_bus (\<lambda>s. read_mem B s (addr + of_nat (off_bits div 8)) 16)) (\<lambda>sel.
     act_return (off AND mask_bits off_bits, sel)))))"

definition branch_target :: "'b CpuBus \<Rightarrow> Instruction \<Rightarrow> u64 \<Rightarrow> ('b, u64) cpu_action" where
  "branch_target B instr next_ip =
     (case op_kind instr 0 of
        NearBranch16 \<Rightarrow> act_return (near_branch_target instr)
      | NearBranch32 \<Rightarrow> act_return (near_branch_target instr)
      | NearBranch64 \<Rightarrow> act_return (near_branch_target instr)
      | OpRegister \<Rightarrow> cpu_get (\<lambda>s. read_reg s (op_register instr 0) AND mask_bits (bitness s))
      | OpMemory \<Rightarrow>
          act_bind (cpu_try (\<lambda>_. op_bits instr 0)) (\<lambda>bits.
          act_bind (cpu_try (\<lambda>s. calc_ea s instr next_ip True)) (\<lambda>addr.
          act_bind (cpu_bus (\<lambda>s. read_mem B s addr bits)) (\<lambda>v.
          cpu_get (\<lambda>s. v AND mask_bits (bitness s)))))
      | _ \<Rightarrow> act_fail InvalidOpcode)"

definition stack_read :: "'b CpuBus \<Rightarrow> CpuState \<Rightarrow> u64 \<Rightarrow> nat \<Rightarrow> ('b, u64) action" where
  "stack_read B s addr sz =
     (if sz = 2 then act_map ucast (read_u16_wrapped B s addr)
      else if sz = 4 then act_map ucast (read_u32_wrapped B s addr)
      else if sz = 8 then read_u64_wrapped B s addr
      else act_fail InvalidOpcode)"

definition stack_write :: "'b CpuBus \<Rightarrow> CpuState \<Rightarrow> u64 \<Rightarrow> nat \<Rightarrow> u64 \<Rightarrow> ('b, unit) action" where
  "stack_write B s addr sz val =
     (if sz = 2 then write_u16_wrapped B s addr (ucast val)
      else if sz = 4 then write_u32_wrapped B s addr (ucast val)
      else if sz = 8 then write_u64_wrapped B s addr val
      else act_fail InvalidOpcode)"

definition stack_address :: "CpuState \<Rightarrow> u64 \<Rightarrow> u64" where
  "stack_address s sp = apply_a20 s (seg_base_reg s (Seg SS) + sp)"

definition pushed_sp :: "CpuState \<Rightarrow> nat \<Rightarrow> u64" where
  "pushed_sp s sz = (stack_ptr s - of_nat sz) AND mask_bits (stack_addr_bits s)"

definition popped_sp :: "CpuState \<Rightarrow> nat \<Rightarrow> u64" where
  "popped_sp s sz = (stack_ptr s + of_nat sz) AND mask_bits (stack_addr_bits s)"

definition push :: "'b CpuBus \<Rightarrow> u64 \<Rightarrow> nat \<Rightarrow> ('b, unit) cpu_action" where
  "push B val sz =
     act_then (cpu_bus (\<lambda>s. stack_write B s (stack_address s (pushed_sp s sz)) sz val))
       (cpu_set (\<lambda>s. set_stack_ptr s (pushed_sp s sz)))"

definition pop :: "'b CpuBus \<Rightarrow> nat \<Rightarrow> ('b, u64) cpu_action" where
  "pop B sz =
     act_bind (cpu_bus (\<lambda>s. stack_read B s (stack_address s (stack_ptr s)) sz)) (\<lambda>v.
     act_then (cpu_set (\<lambda>s. set_stack_ptr s (popped_sp s sz))) (act_return v))"

section \<open>Branches\<close>

definition real_or_vm86 :: "CpuState \<Rightarrow> bool" where
  "real_or_vm86 s \<longleftrightarrow> cpu_mode s = Real \<or> cpu_mode s = Vm86"

definition far_branch :: "u64 \<Rightarrow> u64 \<Rightarrow> ('b, ExecOutcome) cpu_action" where
  "far_branch sel off = act_then (cpu_set (\<lambda>s. write_reg s (Seg CS) sel)) (act_then (cpu_set (\<lambda>s. set_ip s off)) (act_return Branch))"

definition exec_jmp :: "'b CpuBus \<Rightarrow> Instruction \<Rightarrow> u64 \<Rightarrow> ('b, ExecOutcome) cpu_action" where
  "exec_jmp B instr next_ip =
     act_bind (cpu_get real_or_vm86) (\<lambda>real.
     if is_far_branch instr then
       if real then far_branch (ucast (far_branch_selector instr)) (ucast (far_branch16 instr)) else act_return (Assist Privileged)
     else if op_kind instr 0 = OpMemory \<and> is_far_ptr_mem instr then
       if real then act_bind (read_far_ptr_mem B instr next_ip) (\<lambda>(off, sel). far_branch sel off) else act_return (Assist Privileged)
     else
       act_bind (branch_target B instr next_ip) (\<lambda>target.
       act_then (cpu_set (\<lambda>s. set_ip s target)) (act_return Branch)))"

definition far_call :: "'b CpuBus \<Rightarrow> u64 \<Rightarrow> u64 \<Rightarrow> u64 \<Rightarrow> ('b, ExecOutcome) cpu_action" where
  "far_call B sel off next_ip =
     act_bind (cpu_get (\<lambda>s. read_reg s (Seg CS))) (\<lambda>old.
     act_then (push B old 2) (act_then (push B next_ip 2) (far_branch sel off)))"

definition exec_call :: "'b CpuBus \<Rightarrow> Instruction \<Rightarrow> u64 \<Rightarrow> ('b, ExecOutcome) cpu_action" where
  "exec_call B instr next_ip =
     act_bind (cpu_get real_or_vm86) (\<lambda>real.
     if is_far_branch instr then
       if real then far_call B (ucast (far_branch_selector instr)) (ucast (far_branch16 instr)) next_ip else act_return (Assist Privileged)
     else if op_kind instr 0 = OpMemory \<and> is_far_ptr_mem instr then
       if real then act_bind (read_far_ptr_mem B instr next_ip) (\<lambda>(off, sel). far_call B sel off next_ip) else act_return (Assist Privileged)
     else
       act_bind (branch_target B instr next_ip) (\<lambda>target.
       act_bind (cpu_get (\<lambda>s. bitness s div 8)) (\<lambda>ret_size.
       act_then (push B next_ip ret_size)
         (act_then (cpu_set (\<lambda>s. set_ip s target)) (act_return Branch)))))"

definition ret_pop :: "Instruction \<Rightarrow> u64" where
  "ret_pop instr = (if op_count instr = 1 \<and> op_kind instr 0 = Immediate16 then ucast (immediate16 instr) else 0)"

definition exec_ret :: "'b CpuBus \<Rightarrow> Instruction \<Rightarrow> ('b, ExecOutcome) cpu_action" where
  "exec_ret B instr =
     act_bind (cpu_get (\<lambda>s. bitness s div 8)) (\<lambda>ret_size.
     act_bind (pop B ret_size) (\<lambda>v.
     act_bind (cpu_get (\<lambda>s. v AND mask_bits (bitness s))) (\<lambda>target.
     act_then (cpu_set (\<lambda>s. set_stack_ptr s (stack_ptr s + ret_pop instr)))
       (act_then (cpu_set (\<lambda>s. set_ip s target)) (act_return Branch)))))"

definition exec_retf :: "'b CpuBus \<Rightarrow> Instruction \<Rightarrow> ('b, ExecOutcome) cpu_action" where
  "exec_retf B instr =
     act_bind (cpu_get real_or_vm86) (\<lambda>real.
     if \<not> real then act_return (Assist Privileged)
     else
       let off_size = (case icode instr of Retfd \<Rightarrow> 4 | Retfd_imm16 \<Rightarrow> 4 | Retfq \<Rightarrow> 8 | Retfq_imm16 \<Rightarrow> 8 | _ \<Rightarrow> 2)
       in act_bind (pop B off_size) (\<lambda>v.
          act_bind (cpu_get (\<lambda>s. v AND mask_bits (bitness s))) (\<lambda>off.
          act_bind (pop B 2) (\<lambda>sel.
          act_then (cpu_set (\<lambda>s. set_stack_ptr s (stack_ptr s + ret_pop instr))) (far_branch sel off)))))"

definition branch_if :: "bool \<Rightarrow> u64 \<Rightarrow> u64 \<Rightarrow> ('b, ExecOutcome) cpu_action" where
  "branch_if c target next_ip = act_then (cpu_set (\<lambda>s. set_ip s (if c then target else next_ip))) (act_return Branch)"

definition exec_loop :: "Instruction \<Rightarrow> (u64 \<Rightarrow> bool \<Rightarrow> bool) \<Rightarrow> u64 \<Rightarrow> ('b, ExecOutcome) cpu_action" where
  "exec_loop instr test next_ip =
     act_bind (cpu_get bitness) (\<lambda>addr_bits.
     let reg = (if addr_bits = 16 then Reg16 CX else if addr_bits = 32 then Reg32 ECX else if addr_bits = 64 then Reg64 RCX else Reg32 ECX)
     in act_bind (cpu_get (\<lambda>s. ((read_reg s reg AND mask_bits addr_bits) - 1) AND mask_bits addr_bits)) (\<lambda>count.
        act_then (cpu_set (\<lambda>s. write_reg s reg count))
          (act_bind (cpu_get (\<lambda>s. get_flag s FLAG_ZF)) (\<lambda>zf. branch_if (test count zf) (near_branch_target instr) next_ip))))"

definition exec_jcxz :: "Instruction \<Rightarrow> Register \<Rightarrow> nat \<Rightarrow> u64 \<Rightarrow> ('b, ExecOutcome) cpu_action" where
  "exec_jcxz instr reg bits next_ip =
     act_bind (cpu_get (\<lambda>s. read_reg s reg AND mask_bits bits)) (\<lambda>v. branch_if (v = 0) (near_branch_target instr) next_ip)"

definition exec_jcc :: "Instruction \<Rightarrow> Cond \<Rightarrow> u64 \<Rightarrow> ('b, ExecOutcome) cpu_action" where
  "exec_jcc instr c next_ip = act_bind (cpu_get (\<lambda>s. eval_cond s c)) (\<lambda>t. branch_if t (near_branch_target instr) next_ip)"

section \<open>Stack instructions\<close>

definition exec_lahf :: "('b, ExecOutcome) cpu_action" where
  "exec_lahf =
     act_then (cpu_set (\<lambda>s.
       let flags = rflags_snapshot s;
           ah = (ucast (flags AND FLAG_CF) :: u8) OR 0x02 OR (if flags AND FLAG_PF \<noteq> 0 then 0x04 else 0) OR
                (if flags AND FLAG_AF \<noteq> 0 then 0x10 else 0) OR (if flags AND FLAG_ZF \<noteq> 0 then 0x40 else 0) OR
                (if flags AND FLAG_SF \<noteq> 0 then 0x80 else 0)
       in write_reg s (Reg8 AH) (ucast ah))) (act_return Continue)"

definition exec_sahf :: "('b, ExecOutcome) cpu_action" where
  "exec_sahf =
     act_then (cpu_set (\<lambda>s.
       let ah = ucast (read_reg s (Reg8 AH)) :: u8;
           s = set_flag s FLAG_CF (ah AND 0x01 \<noteq> 0);
           s = set_flag s FLAG_PF (ah AND 0x04 \<noteq> 0);
           s = set_flag s FLAG_AF (ah AND 0x10 \<noteq> 0);
           s = set_flag s FLAG_ZF (ah AND 0x40 \<noteq> 0)
       in set_flag s FLAG_SF (ah AND 0x80 \<noteq> 0))) (act_return Continue)"

definition exec_push :: "'b CpuBus \<Rightarrow> Instruction \<Rightarrow> u64 \<Rightarrow> ('b, ExecOutcome) cpu_action" where
  "exec_push B instr next_ip =
     act_bind (cpu_try (\<lambda>_. op_bits instr 0)) (\<lambda>bits.
     act_bind (read_op_sized B instr 0 bits next_ip) (\<lambda>v.
     act_then (push B v (bits div 8)) (act_return Continue)))"

definition exec_pop :: "'b CpuBus \<Rightarrow> Instruction \<Rightarrow> u64 \<Rightarrow> ('b, ExecOutcome) cpu_action" where
  "exec_pop B instr next_ip =
     act_bind (cpu_get cpu_mode) (\<lambda>m.
     if m \<noteq> Real \<and> op_is instr 0 is_seg_reg then act_return (Assist Privileged)
     else
       act_bind (cpu_try (\<lambda>_. op_bits instr 0)) (\<lambda>bits.
       act_bind (pop B (bits div 8)) (\<lambda>v.
       act_then (write_op_sized B instr 0 v bits next_ip)
         (act_return (if op_is instr 0 (\<lambda>r. r = Seg SS) then ContinueInhibitInterrupts else Continue)))))"

definition frame_pointer :: "CpuState \<Rightarrow> Register" where
  "frame_pointer s = (if bitness s = 16 then Reg16 BP else if bitness s = 32 then Reg32 EBP else Reg64 RBP)"

fun enter_frames :: "'b CpuBus \<Rightarrow> nat \<Rightarrow> nat \<Rightarrow> nat \<Rightarrow> u64 \<Rightarrow> ('b, unit) cpu_action" where
  "enter_frames B sz sp_bits 0 tmp_bp = act_return ()"
| "enter_frames B sz sp_bits (Suc n) tmp_bp =
     (let tmp_bp = (tmp_bp - of_nat sz) AND mask_bits sp_bits
      in act_bind (cpu_bus (\<lambda>s. stack_read B s (stack_address s tmp_bp) sz)) (\<lambda>v.
         act_then (push B v sz) (enter_frames B sz sp_bits n tmp_bp)))"

definition exec_enter :: "'b CpuBus \<Rightarrow> Instruction \<Rightarrow> ('b, ExecOutcome) cpu_action" where
  "exec_enter B instr =
     act_bind (cpu_get (\<lambda>s. (frame_pointer s, bitness s, stack_addr_bits s))) (\<lambda>(bp_reg, bits, sp_bits).
     let frame_size = ucast (immediate16 instr) :: u64;
         level = unat (immediate8_2nd instr AND 0x1f);
         sz = bits div 8
     in act_bind (cpu_get (\<lambda>s. read_reg s bp_reg AND mask_bits bits)) (\<lambda>saved_bp.
        act_then (push B saved_bp sz)
          (act_bind (cpu_get (\<lambda>s. stack_ptr s AND mask_bits sp_bits)) (\<lambda>frame_temp.
           act_then (if level > 0 then act_then (enter_frames B sz sp_bits (level - 1) (saved_bp AND mask_bits sp_bits)) (push B frame_temp sz) else act_return ())
             (act_then (cpu_set (\<lambda>s. write_reg s bp_reg frame_temp))
                (act_then (cpu_set (\<lambda>s. set_stack_ptr s ((stack_ptr s - frame_size) AND mask_bits sp_bits))) (act_return Continue)))))))"

definition exec_leave :: "'b CpuBus \<Rightarrow> ('b, ExecOutcome) cpu_action" where
  "exec_leave B =
     act_bind (cpu_get (\<lambda>s. (frame_pointer s, bitness s))) (\<lambda>(bp_reg, bits).
     act_then (cpu_set (\<lambda>s. set_stack_ptr s (read_reg s bp_reg AND mask_bits (stack_addr_bits s))))
       (act_bind (pop B (bits div 8)) (\<lambda>v.
        act_then (cpu_set (\<lambda>s. write_reg s bp_reg (v AND mask_bits bits))) (act_return Continue))))"

definition pusha_regs :: "nat \<Rightarrow> Register list" where
  "pusha_regs bits = (if bits = 16 then map Reg16 [AX, CX, DX, BX, SP, BP, SI, DI] else map Reg32 [EAX, ECX, EDX, EBX, ESP, EBP, ESI, EDI])"

fun push_regs :: "'b CpuBus \<Rightarrow> nat \<Rightarrow> u64 \<Rightarrow> Register list \<Rightarrow> ('b, unit) cpu_action" where
  "push_regs B sz sp_before [] = act_return ()"
| "push_regs B sz sp_before (r # rs) =
     act_bind (cpu_get (\<lambda>s. if r = Reg16 SP \<or> r = Reg32 ESP then sp_before else read_reg s r)) (\<lambda>v.
     act_then (push B v sz) (push_regs B sz sp_before rs))"

definition exec_pusha :: "'b CpuBus \<Rightarrow> nat \<Rightarrow> ('b, ExecOutcome) cpu_action" where
  "exec_pusha B bits =
     act_bind (cpu_get (\<lambda>s. (bitness s, stack_ptr s))) (\<lambda>(n, sp_before).
     if n = 64 then act_fail InvalidOpcode
     else act_then (push_regs B (bits div 8) sp_before (pusha_regs bits)) (act_return Continue))"

fun pop_regs :: "'b CpuBus \<Rightarrow> nat \<Rightarrow> Register list \<Rightarrow> ('b, unit) cpu_action" where
  "pop_regs B sz [] = act_return ()"
| "pop_regs B sz (r # rs) =
     act_bind (pop B sz) (\<lambda>v.
     act_then (if r = Reg16 SP \<or> r = Reg32 ESP then act_return () else cpu_set (\<lambda>s. write_reg s r v)) (pop_regs B sz rs))"

definition exec_popa :: "'b CpuBus \<Rightarrow> nat \<Rightarrow> ('b, ExecOutcome) cpu_action" where
  "exec_popa B bits =
     act_bind (cpu_get bitness) (\<lambda>n.
     if n = 64 then act_fail InvalidOpcode
     else act_then (pop_regs B (bits div 8) (rev (pusha_regs bits))) (act_return Continue))"

definition exec_pushf :: "'b CpuBus \<Rightarrow> nat \<Rightarrow> ('b, ExecOutcome) cpu_action" where
  "exec_pushf B bits =
     act_bind (cpu_get (\<lambda>s. rflags_snapshot s AND mask_bits bits)) (\<lambda>v. act_then (push B v (bits div 8)) (act_return Continue))"

definition popf_mask :: "CpuState \<Rightarrow> nat \<Rightarrow> u64" where
  "popf_mask s bits =
     (let old = rflags_snapshot s;
          m = FLAG_CF OR FLAG_PF OR FLAG_AF OR FLAG_ZF OR FLAG_SF OR RFLAGS_TF OR FLAG_DF OR FLAG_OF OR RFLAGS_IF OR RFLAGS_IOPL_MASK OR
              RFLAGS_AC OR RFLAGS_ID;
          m = m AND mask_bits bits;
          m = m AND NOT (RFLAGS_VM OR RFLAGS_VIF OR RFLAGS_VIP)
      in if real_or_vm86 s then m
         else let m = (if cpl s \<noteq> 0 then m AND NOT RFLAGS_IOPL_MASK else m);
                  iopl = ucast (drop_bit 12 (old AND RFLAGS_IOPL_MASK)) :: u8
              in if cpl s > iopl then m AND NOT RFLAGS_IF else m)"

definition exec_popf :: "'b CpuBus \<Rightarrow> nat \<Rightarrow> ('b, ExecOutcome) cpu_action" where
  "exec_popf B bits =
     act_bind (pop B (bits div 8)) (\<lambda>v.
     act_then (cpu_set (\<lambda>s.
       let v = v AND mask_bits bits; m = popf_mask s bits
       in set_rflags s ((rflags_snapshot s AND NOT m) OR (v AND m)))) (act_return Continue))"

definition exec_flow :: "'b CpuBus \<Rightarrow> Instruction \<Rightarrow> u64 \<Rightarrow> ('b, ExecOutcome) cpu_action" where
  "exec_flow B instr next_ip =
     (case mnemonic instr of
        Hint _ \<Rightarrow> act_return Continue
      | Jump M_Jmp \<Rightarrow> exec_jmp B instr next_ip
      | Jump M_Call \<Rightarrow> exec_call B instr next_ip
      | Jump M_Ret \<Rightarrow> exec_ret B instr
      | Jump M_Retf \<Rightarrow> exec_retf B instr
      | Stack M_Lahf \<Rightarrow> exec_lahf
      | Stack M_Sahf \<Rightarrow> exec_sahf
      | Stack M_Push \<Rightarrow> exec_push B instr next_ip
      | Stack M_Enter \<Rightarrow> exec_enter B instr
      | Stack M_Leave \<Rightarrow> exec_leave B
      | Stack M_Pop \<Rightarrow> exec_pop B instr next_ip
      | Stack M_Pusha \<Rightarrow> exec_pusha B 16
      | Stack M_Pushad \<Rightarrow> exec_pusha B 32
      | Stack M_Popa \<Rightarrow> exec_popa B 16
      | Stack M_Popad \<Rightarrow> exec_popa B 32
      | Stack M_Pushf \<Rightarrow> exec_pushf B 16
      | Stack M_Pushfd \<Rightarrow> exec_pushf B 32
      | Stack M_Pushfq \<Rightarrow> exec_pushf B 64
      | Stack M_Popf \<Rightarrow> exec_popf B 16
      | Stack M_Popfd \<Rightarrow> exec_popf B 32
      | Stack M_Popfq \<Rightarrow> exec_popf B 64
      | Jump M_Loop \<Rightarrow> exec_loop instr (\<lambda>count zf. count \<noteq> 0) next_ip
      | Jump M_Loope \<Rightarrow> exec_loop instr (\<lambda>count zf. count \<noteq> 0 \<and> zf) next_ip
      | Jump M_Loopne \<Rightarrow> exec_loop instr (\<lambda>count zf. count \<noteq> 0 \<and> \<not> zf) next_ip
      | Jump M_Jcxz \<Rightarrow> exec_jcxz instr (Reg16 CX) 16 next_ip
      | Jump M_Jecxz \<Rightarrow> exec_jcxz instr (Reg32 ECX) 32 next_ip
      | Jump M_Jrcxz \<Rightarrow> exec_jcxz instr (Reg64 RCX) 64 next_ip
      | Jcc c \<Rightarrow> exec_jcc instr c next_ip
      | _ \<Rightarrow> act_fail InvalidOpcode)"

section \<open>Which instructions can be restarted\<close>

text \<open>A push of 2, 4 or 8 bytes does not wrap around the address space.\<close>

definition stack_fits :: "CpuState \<Rightarrow> bool" where
  "stack_fits s \<longleftrightarrow> (\<forall>sz\<in>{2, 4, 8}. contiguous_masked_start s (stack_address s (pushed_sp s sz)) sz \<noteq> None)"

text \<open>Near calls, pops to registers, and everything that touches the stack at most once.\<close>

definition flow_form :: "Instruction \<Rightarrow> bool" where
  "flow_form instr =
     (case mnemonic instr of
        Jump M_Call \<Rightarrow> \<not> is_far_branch instr \<and> \<not> (op_kind instr 0 = OpMemory \<and> is_far_ptr_mem instr)
      | Jump M_Retf \<Rightarrow> False
      | Stack M_Pop \<Rightarrow> op_kind instr 0 = OpRegister
      | Stack M_Enter \<Rightarrow> False | Stack M_Leave \<Rightarrow> False
      | Stack M_Pusha \<Rightarrow> False | Stack M_Pushad \<Rightarrow> False | Stack M_Popa \<Rightarrow> False | Stack M_Popad \<Rightarrow> False
      | _ \<Rightarrow> True)"

lemma sure_far_branch: "sure (far_branch sel off)" "sure (branch_if c t ip)"
  by (simp_all add: far_branch_def branch_if_def sure_then)

lemma sure_loops: "sure (exec_loop instr t ip)" "sure (exec_jcxz instr r n ip)" "sure (exec_jcc instr c ip)" "sure exec_lahf" "sure exec_sahf"
  by (auto simp: exec_loop_def exec_jcxz_def exec_jcc_def exec_lahf_def exec_sahf_def Let_def intro!: sure_bind sure_then sure_far_branch)

context fault_safe_bus
begin

lemma stack_read_quiet: "quiet ok same (stack_read B s addr sz)"
  by (simp add: stack_read_def quiet_map reads_wrapped_quiet)

lemma stack_write_safe: "contiguous_masked_start s addr sz \<noteq> None \<Longrightarrow> fault_safe ok same (stack_write B s addr sz v)"
  using writes_wrapped_safe [of s addr] by (auto simp: stack_write_def quiet_return(2) [THEN quiet_fault_safe])

lemma push_precise: "stack_fits s \<Longrightarrow> precise ok same s (push B v sz)"
proof -
  assume f: "stack_fits s"
  have "fault_safe ok same (stack_write B s (stack_address s (pushed_sp s sz)) sz v)"
  proof (cases "sz = 2 \<or> sz = 4 \<or> sz = 8")
    case True
    then show ?thesis using f by (intro stack_write_safe) (auto simp: stack_fits_def)
  qed (simp add: stack_write_def quiet_return(2) [THEN quiet_fault_safe])
  then show ?thesis by (auto simp: push_def intro!: precise_then precise_bus)
qed

lemma pop_precise: "(\<And>v. sure (k v)) \<Longrightarrow> precise ok same s (act_bind (pop B sz) k)"
  unfolding pop_def by (intro precise_sure precise_bus_bind stack_read_quiet sure_precise sure_then sure_basic)

lemma branch_target_unmoved: "unmoved ok same s (branch_target B instr ip)"
  unfolding branch_target_def by (auto split: OpKind.split intro!: unmoved_basic unmoved_bind unmoved_bus read_mem_quiet)

lemma read_far_ptr_unmoved: "unmoved ok same s (read_far_ptr_mem B instr ip)"
  unfolding read_far_ptr_mem_def by (intro unmoved_basic unmoved_bind unmoved_bus read_mem_quiet)

lemma exec_jmp_precise: "precise ok same s (exec_jmp B instr ip)"
  unfolding exec_jmp_def
  by (intro precise_get precise_if precise_return sure_precise sure_far_branch precise_bind [OF read_far_ptr_unmoved]
      precise_bind [OF branch_target_unmoved] sure_then sure_basic) (auto intro: sure_precise sure_far_branch split: prod.split)

lemma exec_call_precise:
  assumes "stack_fits s" "\<not> is_far_branch instr" "\<not> (op_kind instr 0 = OpMemory \<and> is_far_ptr_mem instr)"
  shows "precise ok same s (exec_call B instr ip)"
  unfolding exec_call_def
  using assms by (auto intro!: precise_get precise_bind [OF branch_target_unmoved] precise_then push_precise sure_then)

lemma exec_ret_precise: "precise ok same s (exec_ret B instr)"
  unfolding exec_ret_def by (intro precise_get pop_precise sure_bind sure_then sure_basic)

lemma exec_push_precise: "stack_fits s \<Longrightarrow> precise ok same s (exec_push B instr ip)"
  unfolding exec_push_def by (intro precise_try precise_read_sized precise_then push_precise sure_basic)

lemma exec_pop_precise: "op_kind instr 0 = OpRegister \<Longrightarrow> precise ok same s (exec_pop B instr ip)"
  unfolding exec_pop_def
  by (intro precise_get precise_if precise_return precise_try pop_precise sure_then sure_write_register sure_basic)

lemma exec_pushf_precise: "stack_fits s \<Longrightarrow> precise ok same s (exec_pushf B n)"
  unfolding exec_pushf_def by (intro precise_get precise_then push_precise sure_basic)

lemma exec_popf_precise: "precise ok same s (exec_popf B n)"
  unfolding exec_popf_def by (intro pop_precise sure_then sure_basic)

lemma exec_flow_precise:
  assumes "stack_fits s" "flow_form instr"
  shows "precise ok same s (exec_flow B instr ip)"
proof (cases "mnemonic instr")
  case (Jump m)
  then show ?thesis
    using assms
    by (cases m) (auto simp: exec_flow_def flow_form_def exec_jmp_precise exec_call_precise exec_ret_precise sure_precise sure_loops)
next
  case (Stack m)
  then show ?thesis
    using assms
    by (cases m) (auto simp: exec_flow_def flow_form_def exec_push_precise exec_pop_precise exec_pushf_precise exec_popf_precise sure_precise sure_loops)
qed (simp_all add: exec_flow_def precise_return sure_precise sure_loops)

end

end
