(* ===== verification/CpuArith.thy ===== *)
theory CpuArith
  imports CpuData "HOL-Library.Signed_Division"
begin

text \<open>
  Arithmetic instructions, \<^verbatim>\<open>aero-cpu-core/src/interp/tier0/ops_alu.rs\<close>, over the results and flags of \<open>CpuAlu\<close>: sums, logic,
  multiplication and division, shifts, bit tests and scans, the flag instructions and the sign extensions of the
  accumulator; and the compare-and-exchange instructions of \<^verbatim>\<open>ops_atomics.rs\<close>. The file \<^verbatim>\<open>ops_atomic.rs\<close> is never reached by the
  dispatch, which asks \<^verbatim>\<open>ops_atomics.rs\<close> first for the same mnemonics.

  A signed value of \<open>n\<close> bits is a word of that width; signed division is that of Rust, which truncates and panics
  on overflow.
\<close>

section \<open>Sums and logic\<close>

text \<open>A computation on the registers alone that may fail before it writes any.\<close>

definition cpu_run :: "(CpuState \<Rightarrow> Exception failure + 'a \<times> CpuState) \<Rightarrow> ('b, 'a) cpu_action" where
  "cpu_run f = (\<lambda>(s, b). case f s of Inl e \<Rightarrow> (Inl e, (s, b)) | Inr (x, s') \<Rightarrow> (Inr x, (s', b)))"

definition set_flags_then :: "(CpuState \<Rightarrow> u64) \<Rightarrow> ('b, 'a) cpu_action \<Rightarrow> ('b, 'a) cpu_action" where
  "set_flags_then f k = act_then (cpu_set (\<lambda>s. set_rflags s (f s))) k"

definition locked_or_mem :: "Instruction \<Rightarrow> bool" where
  "locked_or_mem instr \<longleftrightarrow> has_lock_prefix instr \<or> op_kind instr 0 = OpMemory"

text \<open>The locked form of an instruction: an error unless the destination is memory, else the read-modify-write and what follows.\<close>

definition exec_rmw ::
  "'b CpuBus \<Rightarrow> Instruction \<Rightarrow> nat \<Rightarrow> u64 \<Rightarrow> (u64 \<Rightarrow> u64) \<Rightarrow> (u64 \<Rightarrow> ('b, ExecOutcome) cpu_action) \<Rightarrow> ('b, ExecOutcome) cpu_action" where
  "exec_rmw B instr bits next_ip f k =
     (if op_kind instr 0 \<noteq> OpMemory then act_fail InvalidOpcode
      else act_bind (cpu_try (\<lambda>s. calc_ea s instr next_ip True)) (\<lambda>addr.
           act_bind (cpu_bus (\<lambda>s. atomic_rmw_sized B s addr bits (\<lambda>old. (f old, old)))) k))"

definition alu_sum :: "ArithMnemonic \<Rightarrow> CpuState \<Rightarrow> u64 \<Rightarrow> u64 \<Rightarrow> u64 \<Rightarrow> nat \<Rightarrow> u64 \<times> u64" where
  "alu_sum m s a b c bits = (if m = M_Add \<or> m = M_Adc then add_with_flags s a b c bits else sub_with_flags s a b c bits)"

definition rmw_sum :: "ArithMnemonic \<Rightarrow> u64 \<Rightarrow> u64 \<Rightarrow> nat \<Rightarrow> u64 \<Rightarrow> u64" where
  "rmw_sum m src c bits old =
     (let rhs = src + c in if m = M_Add \<or> m = M_Adc then old + rhs else if m = M_Sub \<or> m = M_Sbb then old - rhs else old) AND mask_bits bits"

definition exec_sum :: "'b CpuBus \<Rightarrow> ArithMnemonic \<Rightarrow> Instruction \<Rightarrow> u64 \<Rightarrow> ('b, ExecOutcome) cpu_action" where
  "exec_sum B m instr next_ip =
     act_bind (cpu_try (\<lambda>_. op_bits instr 0)) (\<lambda>bits.
     act_bind (read_op_sized B instr 1 bits next_ip) (\<lambda>src.
     act_bind (cpu_get (\<lambda>s. if m = M_Adc \<or> m = M_Sbb then of_bool (get_flag s FLAG_CF) else 0)) (\<lambda>carry_in.
     if has_lock_prefix instr \<or> (m \<noteq> M_Cmp \<and> op_kind instr 0 = OpMemory) then
       if m = M_Cmp then act_fail InvalidOpcode
       else exec_rmw B instr bits next_ip (rmw_sum m src carry_in bits) (\<lambda>old.
            set_flags_then (\<lambda>s. snd (alu_sum m s old src carry_in bits)) (act_return Continue))
     else
       act_bind (read_op_sized B instr 0 bits next_ip) (\<lambda>dst.
       act_bind (cpu_get (\<lambda>s. alu_sum m s dst src carry_in bits)) (\<lambda>(res, flags).
       set_flags_then (\<lambda>_. flags)
         (act_then (if m \<noteq> M_Cmp then write_op_sized B instr 0 res bits next_ip else act_return ()) (act_return Continue)))))))"

text \<open>\<^verbatim>\<open>INC\<close> and \<^verbatim>\<open>DEC\<close> keep the carry.\<close>

definition keep_carry :: "bool \<Rightarrow> u64 \<Rightarrow> u64" where
  "keep_carry cf flags = (flags AND NOT FLAG_CF) OR of_bool cf * FLAG_CF"

definition inc_dec :: "ArithMnemonic \<Rightarrow> CpuState \<Rightarrow> u64 \<Rightarrow> nat \<Rightarrow> u64 \<times> u64" where
  "inc_dec m s v bits = (if m = M_Inc then add_with_flags s v 1 0 bits else sub_with_flags s v 1 0 bits)"

definition exec_inc_dec :: "'b CpuBus \<Rightarrow> ArithMnemonic \<Rightarrow> Instruction \<Rightarrow> u64 \<Rightarrow> ('b, ExecOutcome) cpu_action" where
  "exec_inc_dec B m instr next_ip =
     act_bind (cpu_try (\<lambda>_. op_bits instr 0)) (\<lambda>bits.
     act_bind (cpu_get (\<lambda>s. get_flag s FLAG_CF)) (\<lambda>cf.
     if locked_or_mem instr then
       exec_rmw B instr bits next_ip
         (\<lambda>old. if m = M_Inc then (old + 1) AND mask_bits bits else if m = M_Dec then (old - 1) AND mask_bits bits else old)
         (\<lambda>old. set_flags_then (\<lambda>s. keep_carry cf (snd (inc_dec m s old bits))) (act_return Continue))
     else
       act_bind (read_op_sized B instr 0 bits next_ip) (\<lambda>dst.
       act_bind (cpu_get (\<lambda>s. inc_dec m s dst bits)) (\<lambda>(res, flags).
       set_flags_then (\<lambda>_. keep_carry cf flags)
         (act_then (write_op_sized B instr 0 res bits next_ip) (act_return Continue))))))"

definition exec_neg :: "'b CpuBus \<Rightarrow> Instruction \<Rightarrow> u64 \<Rightarrow> ('b, ExecOutcome) cpu_action" where
  "exec_neg B instr next_ip =
     act_bind (cpu_try (\<lambda>_. op_bits instr 0)) (\<lambda>bits.
     if locked_or_mem instr then
       exec_rmw B instr bits next_ip (\<lambda>old. (NOT old + 1) AND mask_bits bits)
         (\<lambda>old. set_flags_then (\<lambda>s. snd (neg_with_flags s old bits)) (act_return Continue))
     else
       act_bind (read_op_sized B instr 0 bits next_ip) (\<lambda>dst.
       act_bind (cpu_get (\<lambda>s. neg_with_flags s dst bits)) (\<lambda>(res, flags).
       set_flags_then (\<lambda>_. flags)
         (act_then (write_op_sized B instr 0 res bits next_ip) (act_return Continue)))))"

definition logic_result :: "ArithMnemonic \<Rightarrow> u64 \<Rightarrow> u64 \<Rightarrow> nat \<Rightarrow> u64" where
  "logic_result m a b bits =
     (if m = M_And \<or> m = M_Test then a AND b else if m = M_Or then a OR b else if m = M_Xor then a XOR b else a) AND mask_bits bits"

definition exec_logic :: "'b CpuBus \<Rightarrow> ArithMnemonic \<Rightarrow> Instruction \<Rightarrow> u64 \<Rightarrow> ('b, ExecOutcome) cpu_action" where
  "exec_logic B m instr next_ip =
     act_bind (cpu_try (\<lambda>_. op_bits instr 0)) (\<lambda>bits.
     act_bind (read_op_sized B instr 1 bits next_ip) (\<lambda>src.
     if has_lock_prefix instr \<or> (m \<noteq> M_Test \<and> op_kind instr 0 = OpMemory) then
       if m = M_Test then act_fail InvalidOpcode
       else exec_rmw B instr bits next_ip (\<lambda>old. logic_result m old src bits) (\<lambda>old.
            set_flags_then (\<lambda>s. logic_flags s (logic_result m old src bits) bits) (act_return Continue))
     else
       act_bind (read_op_sized B instr 0 bits next_ip) (\<lambda>dst.
       let res = logic_result m dst src bits
       in set_flags_then (\<lambda>s. logic_flags s res bits)
            (act_then (if m \<noteq> M_Test then write_op_sized B instr 0 res bits next_ip else act_return ()) (act_return Continue)))))"

definition exec_not :: "'b CpuBus \<Rightarrow> Instruction \<Rightarrow> u64 \<Rightarrow> ('b, ExecOutcome) cpu_action" where
  "exec_not B instr next_ip =
     act_bind (cpu_try (\<lambda>_. op_bits instr 0)) (\<lambda>bits.
     if has_lock_prefix instr then
       exec_rmw B instr bits next_ip (\<lambda>old. NOT old AND mask_bits bits) (\<lambda>_. act_return Continue)
     else
       act_bind (read_op_sized B instr 0 bits next_ip) (\<lambda>dst.
       act_then (write_op_sized B instr 0 (NOT dst AND mask_bits bits) bits next_ip) (act_return Continue)))"

section \<open>Multiplication and division\<close>

definition set_overflow :: "bool \<Rightarrow> ('b, ExecOutcome) cpu_action" where
  "set_overflow ov =
     act_then (cpu_set (\<lambda>s. set_flag s FLAG_CF ov)) (act_then (cpu_set (\<lambda>s. set_flag s FLAG_OF ov)) (act_return Continue))"

text \<open>The accumulator times the operand into the accumulator pair, and whether the upper half is needed.\<close>

definition mul_wide :: "nat \<Rightarrow> u64 \<Rightarrow> CpuState \<Rightarrow> Exception failure + bool \<times> CpuState" where
  "mul_wide bits src s =
     (if bits = 8 then
        let al = ucast (read_reg s (Reg8 AL)) :: u8;
            m = ucast src :: u8;
            full = ucast al * ucast m :: u16
        in Inr (drop_bit 8 full \<noteq> 0, write_reg s (Reg16 AX) (ucast full))
      else if bits = 16 then
        let ax = ucast (read_reg s (Reg16 AX)) :: u16;
            m = ucast src :: u16;
            full = ucast ax * ucast m :: u32;
            s = write_reg s (Reg16 AX) (ucast (full AND 0xFFFF));
            s = write_reg s (Reg16 DX) (ucast (drop_bit 16 full))
        in Inr (drop_bit 16 full \<noteq> 0, s)
      else if bits = 32 then
        let eax = ucast (read_reg s (Reg32 EAX)) :: u32;
            m = ucast src :: u32;
            full = ucast eax * ucast m :: u64;
            s = write_reg s (Reg32 EAX) (ucast (ucast full :: u32));
            s = write_reg s (Reg32 EDX) (ucast (ucast (drop_bit 32 full) :: u32))
        in Inr (drop_bit 32 full \<noteq> 0, s)
      else if bits = 64 then
        let full = ucast (read_reg s (Reg64 RAX)) * ucast src :: u128;
            s = write_reg s (Reg64 RAX) (ucast full);
            s = write_reg s (Reg64 RDX) (ucast (drop_bit 64 full))
        in Inr (drop_bit 64 full \<noteq> 0, s)
      else Inl (Fail InvalidOpcode))"

definition imul_wide :: "nat \<Rightarrow> u64 \<Rightarrow> CpuState \<Rightarrow> Exception failure + bool \<times> CpuState" where
  "imul_wide bits src s =
     (if bits = 8 then
        let al = ucast (read_reg s (Reg8 AL)) :: u8;
            m = ucast src :: u8;
            full = scast al * scast m :: u16
        in Inr (full \<noteq> scast (ucast full :: u8), write_reg s (Reg16 AX) (ucast full))
      else if bits = 16 then
        let ax = ucast (read_reg s (Reg16 AX)) :: u16;
            m = ucast src :: u16;
            full = scast ax * scast m :: u32;
            s = write_reg s (Reg16 AX) (ucast (ucast full :: u16));
            s = write_reg s (Reg16 DX) (ucast (ucast (signed_drop_bit 16 full) :: u16))
        in Inr (full \<noteq> scast (ucast full :: u16), s)
      else if bits = 32 then
        let eax = ucast (read_reg s (Reg32 EAX)) :: u32;
            m = ucast src :: u32;
            full = scast eax * scast m :: u64;
            s = write_reg s (Reg32 EAX) (ucast (ucast full :: u32));
            s = write_reg s (Reg32 EDX) (ucast (ucast (signed_drop_bit 32 full) :: u32))
        in Inr (full \<noteq> scast (ucast full :: u32), s)
      else if bits = 64 then
        let full = scast (read_reg s (Reg64 RAX)) * scast src :: u128;
            s = write_reg s (Reg64 RAX) (ucast full);
            s = write_reg s (Reg64 RDX) (ucast (signed_drop_bit 64 full))
        in Inr (full \<noteq> scast (ucast full :: u64), s)
      else Inl (Fail InvalidOpcode))"

definition imul_trunc :: "u64 \<Rightarrow> u64 \<Rightarrow> nat \<Rightarrow> u64 \<times> bool" where
  "imul_trunc a b bits =
     (let full = sign_ext_to_i128 a bits * sign_ext_to_i128 b bits;
          res = ucast (full AND ucast (mask_bits bits)) :: u64
      in (res, full \<noteq> sign_ext_to_i128 res bits))"

definition exec_mul :: "'b CpuBus \<Rightarrow> ArithMnemonic \<Rightarrow> Instruction \<Rightarrow> u64 \<Rightarrow> ('b, ExecOutcome) cpu_action" where
  "exec_mul B m instr next_ip =
     act_bind (cpu_try (\<lambda>_. op_bits instr 0)) (\<lambda>bits.
     act_bind (read_op_sized B instr 0 bits next_ip) (\<lambda>src.
     if m = M_Mul then act_bind (cpu_run (mul_wide bits src)) set_overflow
     else if m = M_Imul then
       if op_count instr = 1 then act_bind (cpu_run (imul_wide bits src)) set_overflow
       else
         act_bind (cpu_try (\<lambda>_. op_bits instr 0)) (\<lambda>dst_bits.
         act_bind (read_op_sized B instr (if op_count instr = 3 then 1 else 0) dst_bits next_ip) (\<lambda>a.
         act_bind (read_op_sized B instr (if op_count instr = 3 then 2 else 1) dst_bits next_ip) (\<lambda>b.
         act_then (write_op_sized B instr 0 (fst (imul_trunc a b dst_bits)) dst_bits next_ip)
           (set_overflow (snd (imul_trunc a b dst_bits))))))
     else act_fail InvalidOpcode))"

definition div_wide :: "nat \<Rightarrow> u64 \<Rightarrow> CpuState \<Rightarrow> Exception failure + unit \<times> CpuState" where
  "div_wide bits divisor s =
     (if bits = 8 then
        let dividend = ucast (read_reg s (Reg16 AX)) :: u16;
            d = ucast (ucast divisor :: u8) :: u16;
            q = dividend div d;
            r = dividend mod d
        in if q > 0xFF then Inl (Fail DivideError)
           else Inr ((), write_reg (write_reg s (Reg8 AL) (ucast q)) (Reg8 AH) (ucast r))
      else if bits = 16 then
        let ax = ucast (read_reg s (Reg16 AX)) :: u16;
            dx = ucast (read_reg s (Reg16 DX)) :: u16;
            dividend = push_bit 16 (ucast dx) OR ucast ax :: u32;
            d = ucast (ucast divisor :: u16) :: u32;
            q = dividend div d;
            r = dividend mod d
        in if q > 0xFFFF then Inl (Fail DivideError)
           else Inr ((), write_reg (write_reg s (Reg16 AX) (ucast q)) (Reg16 DX) (ucast r))
      else if bits = 32 then
        let eax = ucast (read_reg s (Reg32 EAX)) :: u32;
            edx = ucast (read_reg s (Reg32 EDX)) :: u32;
            dividend = push_bit 32 (ucast edx) OR ucast eax :: u64;
            d = ucast (ucast divisor :: u32) :: u64;
            q = dividend div d;
            r = dividend mod d
        in if q > 0xFFFFFFFF then Inl (Fail DivideError)
           else Inr ((), write_reg (write_reg s (Reg32 EAX) q) (Reg32 EDX) r)
      else if bits = 64 then
        let dividend = push_bit 64 (ucast (read_reg s (Reg64 RDX))) OR ucast (read_reg s (Reg64 RAX)) :: u128;
            d = ucast divisor :: u128;
            q = dividend div d;
            r = dividend mod d
        in if q > ucast (- 1 :: u64) then Inl (Fail DivideError)
           else Inr ((), write_reg (write_reg s (Reg64 RAX) (ucast q)) (Reg64 RDX) (ucast r))
      else Inl (Fail InvalidOpcode))"

text \<open>The operators \<^verbatim>\<open>/\<close> and \<^verbatim>\<open>%\<close> on signed integers: they panic on a zero divisor and on the one quotient that does not fit.\<close>

definition signed_div_rem :: "'a::len word \<Rightarrow> 'a word \<Rightarrow> (Exception failure) + 'a word \<times> 'a word" where
  "signed_div_rem a b =
     (if b = 0 \<or> (sint a = - (2 ^ (LENGTH('a) - 1)) \<and> sint b = - 1) then Inl Panic
      else Inr (word_of_int (sint a sdiv sint b), word_of_int (sint a smod sint b)))"

text \<open>The quotient and remainder if the quotient fits into \<open>n\<close> signed bits.\<close>

definition signed_quotient :: "nat \<Rightarrow> 'a::len word \<Rightarrow> 'a word \<Rightarrow> Exception failure + 'a word \<times> 'a word" where
  "signed_quotient n dividend d =
     (case signed_div_rem dividend d of
        Inl e \<Rightarrow> Inl e
      | Inr (q, r) \<Rightarrow> if sint q < - (2 ^ (n - 1)) \<or> sint q > 2 ^ (n - 1) - 1 then Inl (Fail DivideError) else Inr (q, r))"

definition idiv_wide :: "nat \<Rightarrow> u64 \<Rightarrow> CpuState \<Rightarrow> Exception failure + unit \<times> CpuState" where
  "idiv_wide bits divisor s =
     (if bits = 8 then
        let dividend = ucast (read_reg s (Reg16 AX)) :: u16;
            d = scast (ucast divisor :: u8) :: u16
        in case signed_quotient 8 dividend d of
             Inl e \<Rightarrow> Inl e
           | Inr (q, r) \<Rightarrow> Inr ((), write_reg (write_reg s (Reg8 AL) (ucast (ucast q :: u8))) (Reg8 AH) (ucast (ucast r :: u8)))
      else if bits = 16 then
        let ax = scast (ucast (read_reg s (Reg16 AX)) :: u16) :: u32;
            dx = scast (ucast (read_reg s (Reg16 DX)) :: u16) :: u32;
            dividend = push_bit 16 dx OR (ax AND 0xFFFF);
            d = scast (ucast divisor :: u16) :: u32
        in case signed_quotient 16 dividend d of
             Inl e \<Rightarrow> Inl e
           | Inr (q, r) \<Rightarrow> Inr ((), write_reg (write_reg s (Reg16 AX) (ucast (ucast q :: u16))) (Reg16 DX) (ucast (ucast r :: u16)))
      else if bits = 32 then
        let eax = scast (ucast (read_reg s (Reg32 EAX)) :: u32) :: u64;
            edx = scast (ucast (read_reg s (Reg32 EDX)) :: u32) :: u64;
            dividend = push_bit 32 edx OR (eax AND 0xFFFFFFFF);
            d = scast (ucast divisor :: u32) :: u64
        in case signed_quotient 32 dividend d of
             Inl e \<Rightarrow> Inl e
           | Inr (q, r) \<Rightarrow> Inr ((), write_reg (write_reg s (Reg32 EAX) (ucast (ucast q :: u32))) (Reg32 EDX) (ucast (ucast r :: u32)))
      else if bits = 64 then
        let rax = scast (read_reg s (Reg64 RAX)) :: u128;
            rdx = scast (read_reg s (Reg64 RDX)) :: u128;
            dividend = push_bit 64 rdx OR (rax AND 0xFFFFFFFFFFFFFFFF);
            d = scast divisor :: u128
        in case signed_quotient 64 dividend d of
             Inl e \<Rightarrow> Inl e
           | Inr (q, r) \<Rightarrow> Inr ((), write_reg (write_reg s (Reg64 RAX) (ucast q)) (Reg64 RDX) (ucast r))
      else Inl (Fail InvalidOpcode))"

definition exec_div :: "'b CpuBus \<Rightarrow> ArithMnemonic \<Rightarrow> Instruction \<Rightarrow> u64 \<Rightarrow> ('b, ExecOutcome) cpu_action" where
  "exec_div B m instr next_ip =
     act_bind (cpu_try (\<lambda>_. op_bits instr 0)) (\<lambda>bits.
     act_bind (read_op_sized B instr 0 bits next_ip) (\<lambda>divisor.
     if divisor = 0 then act_fail DivideError
     else if m = M_Div then act_then (cpu_run (div_wide bits divisor)) (act_return Continue)
     else if m = M_Idiv then act_then (cpu_run (idiv_wide bits divisor)) (act_return Continue)
     else act_fail InvalidOpcode))"

section \<open>Shifts\<close>

definition read_shift_count :: "Instruction \<Rightarrow> ('b, u64) cpu_action" where
  "read_shift_count instr =
     (let count_op = (if mnemonic instr = Shift M_Shld \<or> mnemonic instr = Shift M_Shrd then 2 else 1)
      in case op_kind instr count_op of
           Immediate8 \<Rightarrow> act_return (ucast (immediate8 instr))
         | OpRegister \<Rightarrow> cpu_get (\<lambda>s. read_reg s (op_register instr count_op) AND 0xFF)
         | _ \<Rightarrow> act_fail InvalidOpcode)"

text \<open>The count after masking and, for rotates, reduction to the number of bits that rotate.\<close>

definition effective_count :: "ShiftMnemonic \<Rightarrow> u32 \<Rightarrow> nat \<Rightarrow> nat" where
  "effective_count m count bits =
     (let c = unat (count AND count_mask bits)
      in if m = M_Rol \<or> m = M_Ror then (if c \<noteq> 0 then c mod bits else c)
         else if m = M_Rcl \<or> m = M_Rcr then (if c \<noteq> 0 then c mod (bits + 1) else c)
         else c)"

definition shift_result :: "ShiftMnemonic \<Rightarrow> u64 \<Rightarrow> u32 \<Rightarrow> nat \<Rightarrow> u64 \<Rightarrow> Exception + u64 \<times> u64 option" where
  "shift_result m dst count bits flags =
     (case m of
        M_Shl \<Rightarrow> Inr (shl dst count bits flags)
      | M_Shr \<Rightarrow> Inr (shr dst count bits flags)
      | M_Sar \<Rightarrow> Inr (sar dst count bits flags)
      | M_Rol \<Rightarrow> Inr (rol dst count bits flags)
      | M_Ror \<Rightarrow> Inr (ror dst count bits flags)
      | M_Rcl \<Rightarrow> Inr (rcl dst count bits flags)
      | M_Rcr \<Rightarrow> Inr (rcr dst count bits flags)
      | _ \<Rightarrow> Inl InvalidOpcode)"

definition exec_shift_rotate :: "'b CpuBus \<Rightarrow> ShiftMnemonic \<Rightarrow> Instruction \<Rightarrow> u64 \<Rightarrow> ('b, ExecOutcome) cpu_action" where
  "exec_shift_rotate B m instr next_ip =
     act_bind (cpu_try (\<lambda>_. op_bits instr 0)) (\<lambda>bits.
     act_bind (read_op_sized B instr 0 bits next_ip) (\<lambda>dst.
     act_bind (read_shift_count instr) (\<lambda>n.
     let count = ucast n :: u32
     in act_bind (cpu_try (\<lambda>s. shift_result m dst count bits (rflags_snapshot s))) (\<lambda>(res, flags_opt).
        act_then (case flags_opt of Some f \<Rightarrow> cpu_set (\<lambda>s. set_rflags s f) | None \<Rightarrow> act_return ())
          (case op_kind instr 0 of
             OpRegister \<Rightarrow> act_then (write_op_sized B instr 0 res bits next_ip) (act_return Continue)
           | OpMemory \<Rightarrow>
               if effective_count m count bits \<noteq> 0 then act_then (write_op_sized B instr 0 res bits next_ip) (act_return Continue)
               else act_return Continue
           | _ \<Rightarrow> act_fail InvalidOpcode)))))"

definition shift_double :: "ShiftMnemonic \<Rightarrow> u64 \<Rightarrow> u64 \<Rightarrow> nat \<Rightarrow> nat \<Rightarrow> Exception + u64 \<times> bool" where
  "shift_double m dst src c bits =
     (case m of
        M_Shld \<Rightarrow> Inr ((push_bit c dst OR drop_bit (bits - c) src) AND mask_bits bits, drop_bit (bits - c) dst AND 1 \<noteq> 0)
      | M_Shrd \<Rightarrow> Inr ((drop_bit c dst OR push_bit (bits - c) src) AND mask_bits bits, drop_bit (c - 1) dst AND 1 \<noteq> 0)
      | _ \<Rightarrow> Inl InvalidOpcode)"

definition shift_double_flags :: "u64 \<Rightarrow> u64 \<Rightarrow> u64 \<Rightarrow> bool \<Rightarrow> nat \<Rightarrow> nat \<Rightarrow> u64" where
  "shift_double_flags old_flags dst res cf c bits =
     (let flags = old_flags AND NOT STATUS_FLAGS;
          flags = set_logic_szp flags res bits;
          flags = or_if cf FLAG_CF flags
      in if c = 1 then or_if ((drop_bit (bits - 1) res AND 1) XOR (drop_bit (bits - 1) dst AND 1) \<noteq> 0) FLAG_OF flags else flags)"

definition exec_shift_double :: "'b CpuBus \<Rightarrow> ShiftMnemonic \<Rightarrow> Instruction \<Rightarrow> u64 \<Rightarrow> ('b, ExecOutcome) cpu_action" where
  "exec_shift_double B m instr next_ip =
     act_bind (cpu_try (\<lambda>_. op_bits instr 0)) (\<lambda>bits.
     act_bind (read_op_sized B instr 0 bits next_ip) (\<lambda>dst.
     act_bind (read_op_sized B instr 1 bits next_ip) (\<lambda>src.
     act_bind (read_shift_count instr) (\<lambda>n.
     let c = unat ((ucast n :: u32) AND count_mask bits)
     in if c = 0 then
          act_then (if op_kind instr 0 = OpRegister then write_op_sized B instr 0 dst bits next_ip else act_return ()) (act_return Continue)
        else if c > bits then act_return Continue
        else
          act_bind (cpu_try (\<lambda>_. shift_double m dst src c bits)) (\<lambda>(res, cf).
          set_flags_then (\<lambda>s. shift_double_flags (rflags_snapshot s) dst res cf c bits)
            (act_then (write_op_sized B instr 0 res bits next_ip) (act_return Continue)))))))"

section \<open>Bits and flags\<close>

definition sign_extend_to_i64 :: "u64 \<Rightarrow> nat \<Rightarrow> u64" where
  "sign_extend_to_i64 v bits =
     (let msk = v AND mask_bits bits
      in if bits = 64 then msk
         else if msk AND push_bit (bits - 1) 1 \<noteq> 0 then msk OR push_bit bits (NOT 0) else msk)"

definition bit_mem_addr :: "u64 \<Rightarrow> u64 \<Rightarrow> nat \<Rightarrow> u64 \<times> nat" where
  "bit_mem_addr base bit_index bits =
     (let word_off = sint bit_index div int bits
      in (base + word_of_int (word_off * int (bits div 8)), nat (sint bit_index mod int bits)))"

definition bit_update :: "BitMnemonic \<Rightarrow> u64 \<Rightarrow> nat \<Rightarrow> u64" where
  "bit_update m val i =
     (case m of
        M_Bts \<Rightarrow> val OR push_bit i 1
      | M_Btr \<Rightarrow> val AND NOT (push_bit i 1)
      | M_Btc \<Rightarrow> val XOR push_bit i 1
      | _ \<Rightarrow> val)"

definition exec_bit_test :: "'b CpuBus \<Rightarrow> BitMnemonic \<Rightarrow> Instruction \<Rightarrow> u64 \<Rightarrow> ('b, ExecOutcome) cpu_action" where
  "exec_bit_test B m instr next_ip =
     act_bind (cpu_try (\<lambda>_. op_bits instr 0)) (\<lambda>bits.
     act_bind (cpu_try (\<lambda>_. op_bits instr 1)) (\<lambda>index_bits.
     act_bind (read_op_sized B instr 1 index_bits next_ip) (\<lambda>raw.
     let bit_index = sign_extend_to_i64 raw index_bits
     in case op_kind instr 0 of
          OpRegister \<Rightarrow>
            if has_lock_prefix instr then act_fail InvalidOpcode
            else
              let reg = op_register instr 0; i = unat (bit_index AND (of_nat bits - 1))
              in act_bind (cpu_get (\<lambda>s. read_reg s reg AND mask_bits bits)) (\<lambda>val.
                 act_then (cpu_set (\<lambda>s. set_flag s FLAG_CF (drop_bit i val AND 1 \<noteq> 0)))
                   (act_then (if m \<noteq> M_Bt then cpu_set (\<lambda>s. write_reg s reg (bit_update m val i)) else act_return ())
                      (act_return Continue)))
        | OpMemory \<Rightarrow>
            act_bind (cpu_try (\<lambda>s. calc_ea s instr next_ip True)) (\<lambda>base_addr.
            let (addr, i) = bit_mem_addr base_addr bit_index bits
            in if has_lock_prefix instr then
                 if \<not> (m = M_Bts \<or> m = M_Btr \<or> m = M_Btc) then act_fail InvalidOpcode
                 else
                   act_bind (cpu_bus (\<lambda>s. atomic_rmw_sized B s addr bits (\<lambda>val. (bit_update m val i, drop_bit i val AND 1 \<noteq> 0)))) (\<lambda>old_bit.
                   act_then (cpu_set (\<lambda>s. set_flag s FLAG_CF old_bit)) (act_return Continue))
               else
                 act_bind (cpu_bus (\<lambda>s. read_mem B s addr bits)) (\<lambda>val.
                 act_then (cpu_set (\<lambda>s. set_flag s FLAG_CF (drop_bit i val AND 1 \<noteq> 0)))
                   (act_then (if m \<noteq> M_Bt then cpu_bus (\<lambda>s. write_mem B s addr bits (bit_update m val i)) else act_return ())
                      (act_return Continue))))
        | _ \<Rightarrow> act_fail InvalidOpcode)))"

definition u64_trailing_zeros :: "u64 \<Rightarrow> nat" where
  "u64_trailing_zeros v = length (takeWhile (\<lambda>i. \<not> bit v i) [0..<64])"

definition u64_leading_zeros :: "u64 \<Rightarrow> nat" where
  "u64_leading_zeros v = length (takeWhile (\<lambda>i. \<not> bit v i) (rev [0..<64]))"

definition exec_bsf_bsr :: "'b CpuBus \<Rightarrow> BitMnemonic \<Rightarrow> Instruction \<Rightarrow> u64 \<Rightarrow> ('b, ExecOutcome) cpu_action" where
  "exec_bsf_bsr B m instr next_ip =
     act_bind (cpu_try (\<lambda>_. op_bits instr 1)) (\<lambda>bits.
     act_bind (read_op_sized B instr 1 bits next_ip) (\<lambda>src.
     if src = 0 then act_then (cpu_set (\<lambda>s. set_flag s FLAG_ZF True)) (act_return Continue)
     else
       let idx = (if m = M_Bsf then u64_trailing_zeros src else 63 - u64_leading_zeros src)
       in act_then (cpu_set (\<lambda>s. set_flag s FLAG_ZF False))
            (act_bind (cpu_try (\<lambda>_. op_bits instr 0)) (\<lambda>dst_bits.
             act_then (write_op_sized B instr 0 (of_nat idx) dst_bits next_ip) (act_return Continue)))))"

definition exec_cbx :: "FlagMnemonic \<Rightarrow> CpuState \<Rightarrow> CpuState" where
  "exec_cbx m s =
     (case m of
        M_Cbw \<Rightarrow> write_reg s (Reg16 AX) (ucast (scast (ucast (read_reg s (Reg8 AL)) :: u8) :: u16))
      | M_Cwde \<Rightarrow> write_reg s (Reg32 EAX) (ucast (scast (ucast (read_reg s (Reg16 AX)) :: u16) :: u32))
      | M_Cdqe \<Rightarrow> write_reg s (Reg64 RAX) (scast (ucast (read_reg s (Reg32 EAX)) :: u32))
      | _ \<Rightarrow> s)"

definition exec_cdx :: "FlagMnemonic \<Rightarrow> CpuState \<Rightarrow> CpuState" where
  "exec_cdx m s =
     (case m of
        M_Cwd \<Rightarrow> write_reg s (Reg16 DX) (if sint (ucast (read_reg s (Reg16 AX)) :: u16) < 0 then 0xFFFF else 0)
      | M_Cdq \<Rightarrow> write_reg s (Reg32 EDX) (if sint (ucast (read_reg s (Reg32 EAX)) :: u32) < 0 then 0xFFFFFFFF else 0)
      | M_Cqo \<Rightarrow> write_reg s (Reg64 RDX) (if sint (read_reg s (Reg64 RAX)) < 0 then - 1 else 0)
      | _ \<Rightarrow> s)"

definition exec_flag_op :: "FlagMnemonic \<Rightarrow> CpuState \<Rightarrow> CpuState" where
  "exec_flag_op m s =
     (case m of
        M_Clc \<Rightarrow> set_flag s FLAG_CF False
      | M_Stc \<Rightarrow> set_flag s FLAG_CF True
      | M_Cmc \<Rightarrow> set_flag s FLAG_CF (\<not> get_flag s FLAG_CF)
      | M_Cld \<Rightarrow> set_flag s FLAG_DF False
      | M_Std \<Rightarrow> set_flag s FLAG_DF True
      | M_Cbw \<Rightarrow> exec_cbx m s | M_Cwde \<Rightarrow> exec_cbx m s | M_Cdqe \<Rightarrow> exec_cbx m s
      | M_Cwd \<Rightarrow> exec_cdx m s | M_Cdq \<Rightarrow> exec_cdx m s | M_Cqo \<Rightarrow> exec_cdx m s)"

section \<open>The dispatch\<close>

definition alu_lockable :: "Mnemonic \<Rightarrow> bool" where
  "alu_lockable m \<longleftrightarrow>
     m \<in> set (map Arith [M_Add, M_Adc, M_Sub, M_Sbb, M_Inc, M_Dec, M_Neg, M_Not, M_And, M_Or, M_Xor] @ map BitOp [M_Bts, M_Btr, M_Btc])"

definition exec_alu :: "'b CpuBus \<Rightarrow> Instruction \<Rightarrow> u64 \<Rightarrow> ('b, ExecOutcome) cpu_action" where
  "exec_alu B instr next_ip =
     (if has_lock_prefix instr \<and> \<not> alu_lockable (mnemonic instr) then act_fail InvalidOpcode
      else case mnemonic instr of
        Arith m \<Rightarrow>
          (case m of
             M_Add \<Rightarrow> exec_sum B m instr next_ip | M_Adc \<Rightarrow> exec_sum B m instr next_ip
           | M_Sub \<Rightarrow> exec_sum B m instr next_ip | M_Sbb \<Rightarrow> exec_sum B m instr next_ip
           | M_Cmp \<Rightarrow> exec_sum B m instr next_ip
           | M_Inc \<Rightarrow> exec_inc_dec B m instr next_ip | M_Dec \<Rightarrow> exec_inc_dec B m instr next_ip
           | M_Neg \<Rightarrow> exec_neg B instr next_ip
           | M_And \<Rightarrow> exec_logic B m instr next_ip | M_Or \<Rightarrow> exec_logic B m instr next_ip
           | M_Xor \<Rightarrow> exec_logic B m instr next_ip | M_Test \<Rightarrow> exec_logic B m instr next_ip
           | M_Not \<Rightarrow> exec_not B instr next_ip
           | M_Mul \<Rightarrow> exec_mul B m instr next_ip | M_Imul \<Rightarrow> exec_mul B m instr next_ip
           | M_Div \<Rightarrow> exec_div B m instr next_ip | M_Idiv \<Rightarrow> exec_div B m instr next_ip)
      | Shift m \<Rightarrow> if m = M_Shld \<or> m = M_Shrd then exec_shift_double B m instr next_ip else exec_shift_rotate B m instr next_ip
      | BitOp m \<Rightarrow> if m = M_Bsf \<or> m = M_Bsr then exec_bsf_bsr B m instr next_ip else exec_bit_test B m instr next_ip
      | FlagOp m \<Rightarrow> act_then (cpu_set (exec_flag_op m)) (act_return Continue)
      | _ \<Rightarrow> act_fail InvalidOpcode)"

section \<open>Compare and exchange\<close>

definition cmpxchg_acc_reg :: "nat \<Rightarrow> Exception + Register" where
  "cmpxchg_acc_reg bits =
     (if bits = 8 then Inr (Reg8 AL) else if bits = 16 then Inr (Reg16 AX) else if bits = 32 then Inr (Reg32 EAX)
      else if bits = 64 then Inr (Reg64 RAX) else Inl InvalidOpcode)"

definition compare_swap :: "'a::len word \<Rightarrow> 'a word \<Rightarrow> 'a word \<Rightarrow> 'a word \<times> ('a word \<times> bool)" where
  "compare_swap expected new old = (if old = expected then (new, (old, True)) else (old, (old, False)))"

definition exec_cmpxchg :: "'b CpuBus \<Rightarrow> Instruction \<Rightarrow> u64 \<Rightarrow> ('b, unit) cpu_action" where
  "exec_cmpxchg B instr next_ip =
     act_bind (cpu_try (\<lambda>_. op_bits instr 0)) (\<lambda>bits.
     act_bind (cpu_try (\<lambda>_. cmpxchg_acc_reg bits)) (\<lambda>acc.
     act_bind (cpu_get (\<lambda>s. read_reg s acc AND mask_bits bits)) (\<lambda>expected.
     act_bind (read_op_sized B instr 1 bits next_ip) (\<lambda>src.
     case op_kind instr 0 of
       OpRegister \<Rightarrow>
         if has_lock_prefix instr then act_fail InvalidOpcode
         else
           let dst_reg = op_register instr 0
           in act_bind (cpu_get (\<lambda>s. read_reg s dst_reg AND mask_bits bits)) (\<lambda>dst.
              set_flags_then (\<lambda>s. snd (sub_with_flags s expected dst 0 bits))
                (cpu_set (\<lambda>s. if dst = expected then write_reg s dst_reg src else write_reg s acc dst)))
     | OpMemory \<Rightarrow>
         act_bind (cpu_try (\<lambda>s. calc_ea s instr next_ip True)) (\<lambda>addr.
         act_bind
           (if has_lock_prefix instr then cpu_bus (\<lambda>s. atomic_rmw_sized B s addr bits (compare_swap expected src))
            else
              act_bind (cpu_bus (\<lambda>s. read_mem B s addr bits)) (\<lambda>old.
              if old = expected then act_then (cpu_bus (\<lambda>s. write_mem B s addr bits src)) (act_return (old, True))
              else act_return (old, False)))
           (\<lambda>(old, swapped).
            set_flags_then (\<lambda>s. snd (sub_with_flags s expected old 0 bits))
              (if \<not> swapped then cpu_set (\<lambda>s. write_reg s acc old) else act_return ())))
     | _ \<Rightarrow> act_fail InvalidOpcode))))"

definition exec_cmpxchg8b :: "'b CpuBus \<Rightarrow> Instruction \<Rightarrow> u64 \<Rightarrow> ('b, unit) cpu_action" where
  "exec_cmpxchg8b B instr next_ip =
     (if op_kind instr 0 \<noteq> OpMemory then act_fail InvalidOpcode
      else
        act_bind (cpu_try (\<lambda>s. calc_ea s instr next_ip True)) (\<lambda>addr.
        act_bind (cpu_get (\<lambda>s. push_bit 32 (read_reg s (Reg32 EDX)) OR read_reg s (Reg32 EAX))) (\<lambda>expected.
        act_bind (cpu_get (\<lambda>s. push_bit 32 (read_reg s (Reg32 ECX)) OR read_reg s (Reg32 EBX))) (\<lambda>replacement.
        act_bind
          (if has_lock_prefix instr then cpu_bus (\<lambda>s. atomic_rmw_sized B s addr 64 (compare_swap expected replacement))
           else
             act_bind (cpu_bus (\<lambda>s. read_u64_wrapped B s addr)) (\<lambda>old.
             if old = expected then act_then (cpu_bus (\<lambda>s. write_u64_wrapped B s addr replacement)) (act_return (old, True))
             else act_return (old, False)))
          (\<lambda>(old, swapped).
           act_then (cpu_set (\<lambda>s. set_flag s FLAG_ZF swapped))
             (if \<not> swapped then
                act_then (cpu_set (\<lambda>s. write_reg s (Reg32 EAX) (ucast (ucast old :: u32))))
                  (cpu_set (\<lambda>s. write_reg s (Reg32 EDX) (ucast (ucast (drop_bit 32 old) :: u32))))
              else act_return ()))))))"

fun rmw_touch_bytes :: "'b CpuBus \<Rightarrow> CpuState \<Rightarrow> u64 \<Rightarrow> nat list \<Rightarrow> ('b, u8 list) action" where
  "rmw_touch_bytes B s addr [] = act_return []"
| "rmw_touch_bytes B s addr (i # rest) =
     act_bind (cb_atomic_rmw_u8 B (apply_a20 s (addr + of_nat i)) (\<lambda>old. old)) (\<lambda>b.
     act_map (\<lambda>bs. b # bs) (rmw_touch_bytes B s addr rest))"

definition exec_cmpxchg16b :: "'b CpuBus \<Rightarrow> Instruction \<Rightarrow> u64 \<Rightarrow> ('b, unit) cpu_action" where
  "exec_cmpxchg16b B instr next_ip =
     (if op_kind instr 0 \<noteq> OpMemory then act_fail InvalidOpcode
      else
        act_bind (cpu_try (\<lambda>s. calc_ea s instr next_ip True)) (\<lambda>addr.
        if addr AND 0xF \<noteq> 0 then act_fail gp0
        else
          act_bind (cpu_get (\<lambda>s. push_bit 64 (ucast (read_reg s (Reg64 RDX))) OR ucast (read_reg s (Reg64 RAX)) :: u128)) (\<lambda>expected.
          act_bind (cpu_get (\<lambda>s. push_bit 64 (ucast (read_reg s (Reg64 RCX))) OR ucast (read_reg s (Reg64 RBX)) :: u128)) (\<lambda>replacement.
          let plain = (\<lambda>old. if old = expected then act_then (cpu_bus (\<lambda>s. write_u128_wrapped B s addr replacement)) (act_return (old, True))
                             else act_return (old, False))
          in act_bind
               (if has_lock_prefix instr then
                  act_bind (cpu_get (\<lambda>s. contiguous_masked_start s addr 16)) (\<lambda>start.
                  case start of
                    Some a \<Rightarrow>
                      cpu_bus (\<lambda>_. act_map (\<lambda>old. snd (compare_swap expected replacement old))
                        (cb_atomic_rmw_u128 B a (\<lambda>old. fst (compare_swap expected replacement old))))
                  | None \<Rightarrow> act_bind (cpu_bus (\<lambda>s. rmw_touch_bytes B s addr [0..<16])) (\<lambda>buf. plain (from_le_bytes buf)))
                else act_bind (cpu_bus (\<lambda>s. read_u128_wrapped B s addr)) plain)
               (\<lambda>(old, swapped).
                act_then (cpu_set (\<lambda>s. set_flag s FLAG_ZF swapped))
                  (if \<not> swapped then
                     act_then (cpu_set (\<lambda>s. write_reg s (Reg64 RAX) (ucast old)))
                       (cpu_set (\<lambda>s. write_reg s (Reg64 RDX) (ucast (drop_bit 64 old))))
                   else act_return ()))))))"

definition exec_atomics :: "'b CpuBus \<Rightarrow> Instruction \<Rightarrow> u64 \<Rightarrow> ('b, ExecOutcome) cpu_action" where
  "exec_atomics B instr next_ip =
     (case mnemonic instr of
        Atomic M_Cmpxchg \<Rightarrow> act_then (exec_cmpxchg B instr next_ip) (act_return Continue)
      | Atomic M_Cmpxchg8b \<Rightarrow> act_then (exec_cmpxchg8b B instr next_ip) (act_return Continue)
      | Atomic M_Cmpxchg16b \<Rightarrow> act_then (exec_cmpxchg16b B instr next_ip) (act_return Continue)
      | _ \<Rightarrow> act_fail InvalidOpcode)"

section \<open>Which arithmetic instructions can be restarted\<close>

text \<open>
  The destination is a register or memory. Shifts and the bit tests that write set flags before the store, so only their
  register forms are included.
\<close>

definition alu_form :: "Instruction \<Rightarrow> bool" where
  "alu_form instr =
     (case mnemonic instr of
        Arith _ \<Rightarrow> op_kind instr 0 = OpRegister \<or> op_kind instr 0 = OpMemory
      | Shift _ \<Rightarrow> op_kind instr 0 = OpRegister
      | BitOp m \<Rightarrow>
          if m = M_Bsf \<or> m = M_Bsr then op_kind instr 0 = OpRegister \<and> \<not> isl (op_bits instr 0)
          else op_kind instr 0 = OpRegister \<or> m = M_Bt
      | _ \<Rightarrow> True)"

text \<open>The memory operand of the wide compare-and-exchange does not wrap.\<close>

definition wide_fits :: "CpuState \<Rightarrow> Instruction \<Rightarrow> u64 \<Rightarrow> bool" where
  "wide_fits s instr ip =
     (case calc_ea s instr ip True of
        Inl _ \<Rightarrow> True
      | Inr a \<Rightarrow> contiguous_masked_start s a 8 \<noteq> None \<and> contiguous_masked_start s a 16 \<noteq> None)"

lemma sure_set_flags: "sure k \<Longrightarrow> sure (set_flags_then f k)"
  by (simp add: set_flags_then_def sure_then)

lemma sure_set_overflow: "sure (set_overflow ov)"
  by (simp add: set_overflow_def sure_then)

lemmas alu_sure = sure_intros sure_set_flags sure_set_overflow

context fault_safe_bus
begin

lemma precise_run: "(\<And>x. sure (k x)) \<Longrightarrow> precise ok same s (act_bind (cpu_run f) k)"
  by (rule precise_sure) (auto simp: precise_def cpu_run_def split: sum.splits prod.splits)

lemma precise_set_flags: "sure k \<Longrightarrow> precise ok same s (set_flags_then f k)"
  by (simp add: sure_precise sure_set_flags)

lemma precise_sure_then: "sure m \<Longrightarrow> sure k \<Longrightarrow> precise ok same s (act_then m k)"
  by (simp add: sure_precise sure_then)

lemma exec_rmw_precise:
  assumes "ea_fits s instr ip" "op_bits instr 0 = Inr bits" "\<And>old. sure (k old)"
  shows "precise ok same s (exec_rmw B instr bits ip f k)"
  unfolding exec_rmw_def
  using assms by (auto intro!: precise_try precise_return(2) precise_sure [OF rmw_precise [OF assms(1)]])

lemma exec_sum_precise:
  assumes "ea_fits s instr ip" "op_kind instr 0 = OpRegister \<or> op_kind instr 0 = OpMemory"
  shows "precise ok same s (exec_sum B m instr ip)"
  unfolding exec_sum_def
  using assms by (auto intro!: precise_intros exec_rmw_precise precise_set_flags alu_sure split: prod.splits)

lemma exec_inc_dec_precise:
  assumes "ea_fits s instr ip" "op_kind instr 0 = OpRegister \<or> op_kind instr 0 = OpMemory"
  shows "precise ok same s (exec_inc_dec B m instr ip)"
  unfolding exec_inc_dec_def locked_or_mem_def
  using assms by (auto intro!: precise_intros exec_rmw_precise precise_set_flags alu_sure split: prod.splits)

lemma exec_neg_precise:
  assumes "ea_fits s instr ip" "op_kind instr 0 = OpRegister \<or> op_kind instr 0 = OpMemory"
  shows "precise ok same s (exec_neg B instr ip)"
  unfolding exec_neg_def locked_or_mem_def
  using assms by (auto intro!: precise_intros exec_rmw_precise precise_set_flags alu_sure split: prod.splits)

lemma exec_logic_precise:
  assumes "ea_fits s instr ip" "op_kind instr 0 = OpRegister \<or> op_kind instr 0 = OpMemory"
  shows "precise ok same s (exec_logic B m instr ip)"
  unfolding exec_logic_def Let_def
  using assms by (auto intro!: precise_intros exec_rmw_precise precise_set_flags alu_sure)

lemma exec_not_precise: "ea_fits s instr ip \<Longrightarrow> precise ok same s (exec_not B instr ip)"
  unfolding exec_not_def by (auto intro!: precise_intros exec_rmw_precise write_op_sized_precise)

lemma exec_mul_precise: "ea_fits s instr ip \<Longrightarrow> precise ok same s (exec_mul B m instr ip)"
  unfolding exec_mul_def by (auto intro!: precise_intros precise_run alu_sure write_op_sized_precise)

lemma exec_div_precise: "precise ok same s (exec_div B m instr ip)"
  unfolding exec_div_def act_then_def by (auto intro!: precise_intros precise_run)

lemma read_shift_count_unmoved: "unmoved ok same s (read_shift_count instr)"
  unfolding read_shift_count_def Let_def
  by (cases "op_kind instr (if mnemonic instr = Shift M_Shld \<or> mnemonic instr = Shift M_Shrd then 2 else 1)") (simp_all only: OpKind.case unmoved_basic)

lemma exec_shift_rotate_precise: "op_kind instr 0 = OpRegister \<Longrightarrow> precise ok same s (exec_shift_rotate B m instr ip)"
  unfolding exec_shift_rotate_def Let_def
  by (intro precise_try precise_read_sized precise_bind [OF read_shift_count_unmoved])
    (simp add: precise_sure_then alu_sure split: prod.split option.split)

lemma exec_shift_double_precise: "op_kind instr 0 = OpRegister \<Longrightarrow> precise ok same s (exec_shift_double B m instr ip)"
  unfolding exec_shift_double_def Let_def
  by (intro precise_try precise_read_sized precise_bind [OF read_shift_count_unmoved] precise_if precise_return precise_sure_then alu_sure)
    (simp_all add: precise_set_flags alu_sure split: prod.split)

lemma exec_bit_test_precise: "op_kind instr 0 = OpRegister \<or> m = M_Bt \<Longrightarrow> precise ok same s (exec_bit_test B m instr ip)"
  unfolding exec_bit_test_def Let_def
  by (cases "op_kind instr 0"; intro precise_try precise_read_sized)
    (auto intro!: precise_try precise_get precise_return precise_bus_bind [OF read_mem_quiet] precise_sure_then alu_sure split: prod.split)

lemma exec_bsf_bsr_precise: "op_kind instr 0 = OpRegister \<Longrightarrow> \<not> isl (op_bits instr 0) \<Longrightarrow> precise ok same s (exec_bsf_bsr B m instr ip)"
  unfolding exec_bsf_bsr_def Let_def
  by (cases "op_bits instr 0") (auto intro!: precise_try precise_read_sized precise_sure_then alu_sure)

lemma exec_alu_precise:
  assumes f: "ea_fits s instr ip" and a: "alu_form instr"
  shows "precise ok same s (exec_alu B instr ip)"
proof (cases "mnemonic instr")
  case (Arith m)
  then show ?thesis
    using f a
    by (cases m) (simp_all add: exec_alu_def alu_form_def precise_return exec_sum_precise exec_inc_dec_precise exec_neg_precise exec_logic_precise
        exec_not_precise exec_mul_precise exec_div_precise)
qed (use a in \<open>auto simp: exec_alu_def alu_form_def precise_return exec_shift_double_precise exec_shift_rotate_precise
        exec_bsf_bsr_precise exec_bit_test_precise sure_precise sure_then\<close>)

lemma exec_cmpxchg_precise:
  assumes f: "ea_fits s instr ip"
  shows "precise ok same s (exec_cmpxchg B instr ip)"
proof -
  have w: "precise ok same s (cpu_bus (\<lambda>s. write_mem B s a bits v))" if "calc_ea s instr ip True = Inr a" "op_bits instr 0 = Inr bits" for a bits v
    using ea_fitsD [OF f that] by (intro precise_bus write_mem_safe) auto
  show ?thesis
    unfolding exec_cmpxchg_def Let_def
    by (auto intro!: precise_intros precise_sure precise_bus_bind [OF read_mem_quiet] precise_set_flags rmw_precise [OF f] w alu_sure split: OpKind.split)
qed

lemma wide_precise:
  assumes "wide_fits s instr ip" "calc_ea s instr ip True = Inr a"
  shows "precise ok same s (cpu_bus (\<lambda>s. atomic_rmw_sized B s a 64 f))" "precise ok same s (cpu_bus (\<lambda>s. write_u64_wrapped B s a v))"
    "precise ok same s (cpu_bus (\<lambda>s. write_u128_wrapped B s a w))"
  using assms writes_wrapped_safe [of s a]
  by (auto simp: wide_fits_def atomic_rmw_sized_def Let_def act_map_def intro!: precise_bus fault_safe_map rmw_safe)

lemma exec_cmpxchg8b_precise: "wide_fits s instr ip \<Longrightarrow> precise ok same s (exec_cmpxchg8b B instr ip)"
  unfolding exec_cmpxchg8b_def
  by (auto intro!: precise_intros precise_sure precise_bus_bind [OF reads_wrapped_quiet(3)] wide_precise alu_sure)

lemma exec_cmpxchg16b_precise:
  assumes "wide_fits s instr ip"
  shows "precise ok same s (exec_cmpxchg16b B instr ip)"
proof -
  have r: "precise ok same s (cpu_bus (\<lambda>_. act_map g (cb_atomic_rmw_u128 B a h)))" for a g h
    by (auto simp: act_map_def intro!: precise_bus fault_safe_map rmw_safe)
  have c: "contiguous_masked_start s a 16 \<noteq> None" if "calc_ea s instr ip True = Inr a" for a
    using assms that by (auto simp: wide_fits_def)
  show ?thesis
    unfolding exec_cmpxchg16b_def Let_def
    using assms c by (auto intro!: precise_intros precise_sure precise_bus_bind [OF reads_wrapped_quiet(4)] wide_precise r alu_sure split: option.split)
qed

lemma exec_atomics_precise:
  assumes "ea_fits s instr ip" "wide_fits s instr ip"
  shows "precise ok same s (exec_atomics B instr ip)"
proof (cases "mnemonic instr")
  case (Atomic m)
  then show ?thesis
    using assms by (cases m) (auto simp: exec_atomics_def exec_cmpxchg_precise exec_cmpxchg8b_precise exec_cmpxchg16b_precise intro!: precise_then)
qed (simp_all add: exec_atomics_def precise_return)

end

end
