(* ===== verification/CpuProducts.thy ===== *)
theory CpuProducts
  imports CpuArith
begin

text \<open>
  What multiplication and division of \<open>CpuArith\<close> compute, as statements about integers: the accumulator pair read as one
  number of twice the width, unsigned and signed.
\<close>

section \<open>Products and quotients\<close>

text \<open>The accumulator pair as a number: the high register above the low one.\<close>

definition acc_lo :: "nat \<Rightarrow> Register" where
  "acc_lo n = (if n = 8 then Reg8 AL else if n = 16 then Reg16 AX else if n = 32 then Reg32 EAX else Reg64 RAX)"

definition acc_hi :: "nat \<Rightarrow> Register" where
  "acc_hi n = (if n = 8 then Reg8 AH else if n = 16 then Reg16 DX else if n = 32 then Reg32 EDX else Reg64 RDX)"

definition acc_pair :: "nat \<Rightarrow> CpuState \<Rightarrow> int" where
  "acc_pair n s = uint (read_reg s (acc_hi n)) * 2 ^ n + uint (read_reg s (acc_lo n))"

lemma op_width_cases [consumes 1, case_names byte word dword qword]: "op_width n \<Longrightarrow> (n = 8 \<Longrightarrow> P) \<Longrightarrow> (n = 16 \<Longrightarrow> P) \<Longrightarrow> (n = 32 \<Longrightarrow> P) \<Longrightarrow> (n = 64 \<Longrightarrow> P) \<Longrightarrow> P"
  by (auto simp: op_width_def)

lemma uint_wide_mult: "2 * LENGTH('a) \<le> LENGTH('b) \<Longrightarrow> uint (ucast a * ucast b :: 'b::len word) = uint a * uint b" for a b :: "'a::len word"
proof -
  assume le: "2 * LENGTH('a) \<le> LENGTH('b)"
  have "uint a * uint b < 2 ^ LENGTH('a) * 2 ^ LENGTH('a)"
    by (intro mult_strict_mono) (auto simp: uint_lt2p)
  also have "\<dots> \<le> 2 ^ LENGTH('b)" using le by (simp flip: power_add mult_2)
  finally have "uint a * uint b < 2 ^ LENGTH('b)" .
  moreover have "uint (ucast x :: 'b word) = uint x" for x :: "'a word" using le by (simp add: unsigned_ucast_eq take_bit_int_eq_self order.strict_trans2 [OF uint_lt2p])
  ultimately show ?thesis by (simp add: uint_word_ariths)
qed


lemma pair_split: "(k :: int) div 2 ^ n * 2 ^ n + k mod 2 ^ n = k"
  by (rule div_mult_mod_eq)

lemma uint_ucast_parts: "uint (ucast x :: 'b::len word) = uint x mod 2 ^ LENGTH('b)" for x :: "'a::len word"
  by (simp add: unsigned_ucast_eq take_bit_eq_mod)

lemma uint_drop: "uint (drop_bit n x) = uint x div 2 ^ n" for x :: "'a::len word"
  by (subst unsigned_drop_bit_eq) (simp add: drop_bit_eq_div take_bit_int_eq_self uint_lt2p)

lemma drop_bit_nonzero: "drop_bit n x \<noteq> 0 \<longleftrightarrow> 2 ^ n \<le> uint x" for x :: "'a::len word"
proof -
  have "drop_bit n x = 0 \<longleftrightarrow> uint x div 2 ^ n = 0" by (metis uint_drop uint_0_iff)
  then show ?thesis using uint_ge_0 [of x] by (auto simp: zdiv_eq_0_iff)
qed

lemma acc_parts:
  assumes "length (gpr s) = 16"
  shows "read_reg (write_reg (write_reg s (Reg16 AX) a) (Reg16 DX) d) (Reg16 AX) = take_bit 16 a"
    "read_reg (write_reg (write_reg s (Reg16 AX) a) (Reg16 DX) d) (Reg16 DX) = take_bit 16 d"
    "read_reg (write_reg (write_reg s (Reg32 EAX) a) (Reg32 EDX) d) (Reg32 EAX) = take_bit 32 a"
    "read_reg (write_reg (write_reg s (Reg32 EAX) a) (Reg32 EDX) d) (Reg32 EDX) = take_bit 32 d"
    "read_reg (write_reg (write_reg s (Reg64 RAX) a) (Reg64 RDX) d) (Reg64 RAX) = a"
    "read_reg (write_reg (write_reg s (Reg64 RAX) a) (Reg64 RDX) d) (Reg64 RDX) = d"
    "read_reg (write_reg s (Reg16 AX) a) (Reg16 AX) = take_bit 16 a"
    "read_reg (write_reg (write_reg s (Reg8 AL) a) (Reg8 AH) d) (Reg8 AL) = take_bit 8 a"
    "read_reg (write_reg (write_reg s (Reg8 AL) a) (Reg8 AH) d) (Reg8 AH) = take_bit 8 d"
  using assms
  by (simp_all add: read_write_AL_AH read_write_other [OF gpr_info.simps(2) gpr_info.simps(2)] read_write_other [OF gpr_info.simps(3) gpr_info.simps(3)]
      read_write_other [OF gpr_info.simps(4) gpr_info.simps(4)] read_write_reg [OF _ gpr_info.simps(1)] read_write_reg [OF _ gpr_info.simps(2)]
      read_write_reg [OF _ gpr_info.simps(3)] read_write_reg [OF _ gpr_info.simps(4)])

lemma acc_width: "op_width n \<Longrightarrow> uint (read_reg s (acc_lo n)) < 2 ^ n" "op_width n \<Longrightarrow> uint (read_reg s (acc_hi n)) < 2 ^ n"
  using read_reg_width [of _ _ n _ s] uval_range(2) [of n]
  by (auto elim!: op_width_cases simp: acc_lo_def acc_hi_def) (metis gpr_info.simps gpr8_info.simps gpr16_index.simps gpr32_index.simps gpr64_index.simps uint_take_bit case_prod_conv)+


lemma acc_AX: "acc_pair 8 s = uint (read_reg s (Reg16 AX))"
proof -
  have "read_reg s (Reg16 AX) = take_bit 16 (read_reg s (Reg16 AX))" by (rule read_reg_width [symmetric, of "Reg16 AX" 0 16 False]) simp
  then have "uint (read_reg s (Reg16 AX)) < 2 ^ 16" by (metis uint_take_bit uval_range(2))
  then have "uint (read_reg s (Reg16 AX)) div 2 ^ 8 mod 2 ^ 8 = uint (read_reg s (Reg16 AX)) div 2 ^ 8"
    by (intro mod_pos_pos_trivial) (simp_all add: pos_imp_zdiv_nonneg_iff)
  then show ?thesis
    using pair_split [of "uint (read_reg s (Reg16 AX))" 8]
    by (simp only: acc_pair_def acc_lo_def acc_hi_def read_AX_parts uint_take_bit uval_def uint_drop if_True refl)
qed

lemma acc_pair_write:
  assumes "op_width n" "length (gpr s) = 16"
  shows "acc_pair n (write_reg (write_reg s (acc_lo n) a) (acc_hi n) d) = uval n d * 2 ^ n + uval n a"
  using assms(1)
  by (cases rule: op_width_cases) (simp_all add: acc_pair_def acc_lo_def acc_hi_def acc_parts [OF assms(2)] uint_take_bit)

text \<open>A double-width value is its two halves.\<close>

lemma halves: "0 \<le> k \<Longrightarrow> k < 2 ^ n * 2 ^ n \<Longrightarrow> k div 2 ^ n mod 2 ^ n * 2 ^ n + k mod 2 ^ n = k" for k :: int
proof -
  assume k: "0 \<le> k" "k < 2 ^ n * 2 ^ n"
  have "k div 2 ^ n * 2 ^ n \<le> k" using pair_split [of k n] pos_mod_sign [of "2 ^ n" k] zero_less_power [of "2 :: int" n] by linarith
  then have "k div 2 ^ n * 2 ^ n < 2 ^ n * 2 ^ n" using k(2) by linarith
  then have "k div 2 ^ n < 2 ^ n" by (rule mult_right_less_imp_less) simp
  then have "k div 2 ^ n mod 2 ^ n = k div 2 ^ n" using k(1) by (intro mod_pos_pos_trivial) (auto simp: pos_imp_zdiv_nonneg_iff)
  then show ?thesis by (simp add: pair_split)
qed

lemma uval_ucast: "uval n (ucast x) = uint x mod 2 ^ n" if "n \<le> 64" for x :: "'a::len word"
proof -
  have "(2 :: int) ^ n dvd 2 ^ 64" using that by (rule le_imp_power_dvd)
  then show ?thesis by (simp add: uval_def uint_ucast_parts mod_mod_cancel)
qed

lemma mask16: "(mask 16 :: u32) = 0xFFFF"
  by (simp add: mask_eq_exp_minus_1)

text \<open>The product, and whether it needs the upper half.\<close>

lemma mul_wide_eq:
  assumes "op_width n" "length (gpr s) = 16"
  shows "\<exists>s'. mul_wide n src s = Inr (2 ^ n \<le> uval n (read_reg s (acc_lo n)) * uval n src, s') \<and>
    acc_pair n s' = uval n (read_reg s (acc_lo n)) * uval n src"
  using assms(1)
proof (cases rule: op_width_cases)
  case byte
  define f where "f = (ucast (ucast (read_reg s (Reg8 AL)) :: u8) * ucast (ucast src :: u8) :: u16)"
  have "uint f = uval n (read_reg s (acc_lo n)) * uval n src"
    using byte by (simp add: f_def uint_wide_mult uint_ucast_parts acc_lo_def uval_def)
  moreover have "mul_wide n src s = Inr (drop_bit 8 f \<noteq> 0, write_reg s (Reg16 AX) (ucast f))"
    using byte by (simp add: mul_wide_def Let_def f_def)
  moreover have "acc_pair 8 (write_reg s (Reg16 AX) (ucast f)) = uint f"
    using uint_lt2p [of f] by (simp add: acc_AX acc_parts [OF assms(2)] uint_take_bit uval_ucast)
  ultimately show ?thesis using byte by (auto simp: drop_bit_nonzero)
next
  case word
  define f where "f = (ucast (ucast (read_reg s (Reg16 AX)) :: u16) * ucast (ucast src :: u16) :: u32)"
  have "uint f = uval n (read_reg s (acc_lo n)) * uval n src"
    using word by (simp add: f_def uint_wide_mult uint_ucast_parts acc_lo_def uval_def)
  moreover have "mul_wide n src s = Inr (drop_bit 16 f \<noteq> 0, write_reg (write_reg s (acc_lo n) (ucast (f AND 0xFFFF))) (acc_hi n) (ucast (drop_bit 16 f)))"
    using word by (simp add: mul_wide_def Let_def f_def acc_lo_def acc_hi_def)
  moreover have "uval 16 (ucast (f AND 0xFFFF)) = uint f mod 2 ^ 16" 
    by (simp add: uval_ucast unsigned_take_bit_eq flip: mask16 take_bit_eq_mask take_bit_eq_mod)
  moreover have "uint f div 2 ^ 16 mod 2 ^ 16 * 2 ^ 16 + uint f mod 2 ^ 16 = uint f" by (rule halves) (use uint_lt2p [of f] in simp_all)
  ultimately show ?thesis
    using word acc_pair_write [OF assms] by (auto simp: drop_bit_nonzero uval_ucast uint_drop)
next
  case dword
  define f where "f = (ucast (ucast (read_reg s (Reg32 EAX)) :: u32) * ucast (ucast src :: u32) :: u64)"
  have "uint f = uval n (read_reg s (acc_lo n)) * uval n src"
    using dword by (simp add: f_def uint_wide_mult uint_ucast_parts acc_lo_def uval_def)
  moreover have "mul_wide n src s = Inr (drop_bit 32 f \<noteq> 0,
      write_reg (write_reg s (acc_lo n) (ucast (ucast f :: u32))) (acc_hi n) (ucast (ucast (drop_bit 32 f) :: u32)))"
    using dword by (simp add: mul_wide_def Let_def f_def acc_lo_def acc_hi_def)
  moreover have "uint f div 2 ^ 32 mod 2 ^ 32 * 2 ^ 32 + uint f mod 2 ^ 32 = uint f" by (rule halves) (use uint_lt2p [of f] in simp_all)
  ultimately show ?thesis
    using dword acc_pair_write [OF assms] by (auto simp: drop_bit_nonzero uval_ucast uint_drop uint_ucast_parts)
next
  case qword
  define f where "f = (ucast (read_reg s (Reg64 RAX)) * ucast src :: u128)"
  have "uint f = uval n (read_reg s (acc_lo n)) * uval n src"
    using qword by (simp add: f_def uint_wide_mult acc_lo_def)
  moreover have "mul_wide n src s = Inr (drop_bit 64 f \<noteq> 0, write_reg (write_reg s (acc_lo n) (ucast f)) (acc_hi n) (ucast (drop_bit 64 f)))"
    using qword by (simp add: mul_wide_def Let_def f_def acc_lo_def acc_hi_def)
  moreover have "uint f div 2 ^ 64 mod 2 ^ 64 * 2 ^ 64 + uint f mod 2 ^ 64 = uint f" by (rule halves) (use uint_lt2p [of f] in simp_all)
  ultimately show ?thesis
    using qword acc_pair_write [OF assms] by (auto simp: drop_bit_nonzero uval_ucast uint_drop uint_ucast_parts)
qed

lemma uint_pair:
  fixes x y :: "'a::len word"
  assumes "2 * LENGTH('a) \<le> LENGTH('b)"
  shows "uint (push_bit LENGTH('a) (ucast x) OR ucast y :: 'b::len word) = uint x * 2 ^ LENGTH('a) + uint y"
proof -
  let ?n = "LENGTH('a)"
  have u: "uint (ucast z :: 'b word) = uint z" for z :: "'a word"
    using assms by (simp add: unsigned_ucast_eq take_bit_int_eq_self order.strict_trans2 [OF uint_lt2p])
  have x: "uint x < 2 ^ ?n" "uint y < 2 ^ ?n" by (rule uint_lt2p)+
  have "uint x * 2 ^ ?n \<le> (2 ^ ?n - 1) * 2 ^ ?n" using x(1) by (intro mult_right_mono) auto
  then have b: "uint x * 2 ^ ?n + uint y < 2 ^ ?n * 2 ^ ?n" using x(2) unfolding left_diff_distrib by linarith
  have "(2 :: int) ^ ?n * 2 ^ ?n \<le> 2 ^ LENGTH('b)" using assms by (simp flip: power_add mult_2)
  then have f: "uint x * 2 ^ ?n + uint y < 2 ^ LENGTH('b)" "uint x * 2 ^ ?n < 2 ^ LENGTH('b)" using b uint_ge_0 [of y] by linarith+
  have "(push_bit ?n (ucast x) OR ucast y :: 'b word) = push_bit ?n (ucast x) + ucast y"
    by (rule disjunctive_add [symmetric]) (auto simp: bit_push_bit_iff bit_ucast_iff dest: bit_imp_le_length)
  moreover have "uint (push_bit ?n (ucast x :: 'b word)) = uint x * 2 ^ ?n"
    by (subst unsigned_push_bit_eq) (use f in \<open>simp add: push_bit_eq_mult u take_bit_int_eq_self\<close>)
  ultimately show ?thesis using f by (simp only: uint_word_ariths u mod_pos_pos_trivial uint_ge_0 zero_le_mult_iff zero_le_power add_nonneg_nonneg) simp
qed


lemma uint_div_word: "uint (a div b) = uint a div uint b" "uint (a mod b) = uint a mod uint b" for a b :: "'a::len word"
  by (simp_all add: uint_div_distrib uint_mod_distrib)

lemma word_less_num: "a < b \<longleftrightarrow> uint a < uint b" for a b :: "'a::len word"
  by (rule word_less_def)

lemma ucast_of_int: "(ucast x :: 'b::len word) = word_of_int (uint x)" for x :: "'a::len word"
  by simp

lemma div_wide_eq:
  assumes "op_width n" "length (gpr s) = 16"
  shows "div_wide n d s =
    (let p = acc_pair n s; q = p div uval n d; r = p mod uval n d
     in if 2 ^ n \<le> q then Inl (Fail DivideError)
        else Inr ((), write_reg (write_reg s (acc_lo n) (word_of_int q)) (acc_hi n) (word_of_int r)))"
  using assms(1)
proof (cases rule: op_width_cases)
  case byte
  define a :: u16 where "a = ucast (read_reg s (Reg16 AX))"
  define b :: u16 where "b = ucast (ucast d :: u8)"
  have "div_wide n d s = (if a div b > 0xFF then Inl (Fail DivideError)
       else Inr ((), write_reg (write_reg s (acc_lo n) (ucast (a div b))) (acc_hi n) (ucast (a mod b))))"
    using byte by (simp add: div_wide_def a_def b_def acc_lo_def acc_hi_def Let_def)
  moreover have ab: "uint a = acc_pair n s" "uint b = uval n d"
    using byte acc_width(1) [of 16 s] by (simp_all add: a_def b_def acc_AX uint_ucast_parts uval_def op_width_def acc_lo_def)
  moreover have "(ucast (a div b) :: u64) = word_of_int (acc_pair n s div uval n d)" "(ucast (a mod b) :: u64) = word_of_int (acc_pair n s mod uval n d)"
    by (simp_all flip: ab uint_div_word)
  ultimately show ?thesis
    using byte by (auto simp: Let_def word_less_num uint_div_word)
next
  case word
  define a :: u32 where "a = push_bit 16 (ucast (ucast (read_reg s (Reg16 DX)) :: u16)) OR ucast (ucast (read_reg s (Reg16 AX)) :: u16)"
  define b :: u32 where "b = ucast (ucast d :: u16)"
  have "div_wide n d s = (if a div b > 0xFFFF then Inl (Fail DivideError)
       else Inr ((), write_reg (write_reg s (acc_lo n) (ucast (a div b))) (acc_hi n) (ucast (a mod b))))"
    using word by (simp add: div_wide_def a_def b_def acc_lo_def acc_hi_def Let_def)
  moreover have ab: "uint a = acc_pair n s" "uint b = uval n d"
    using word acc_width [OF assms(1), of s]
    by (simp_all add: a_def b_def uint_pair [where 'a = 16, simplified] acc_pair_def acc_lo_def acc_hi_def uint_ucast_parts uval_def)
  moreover have "(ucast (a div b) :: u64) = word_of_int (acc_pair n s div uval n d)" "(ucast (a mod b) :: u64) = word_of_int (acc_pair n s mod uval n d)"
    by (simp_all flip: ab uint_div_word)
  ultimately show ?thesis
    using word by (auto simp: Let_def word_less_num uint_div_word)
next
  case dword
  define a :: u64 where "a = push_bit 32 (ucast (ucast (read_reg s (Reg32 EDX)) :: u32)) OR ucast (ucast (read_reg s (Reg32 EAX)) :: u32)"
  define b :: u64 where "b = ucast (ucast d :: u32)"
  have "div_wide n d s = (if a div b > 0xFFFFFFFF then Inl (Fail DivideError)
       else Inr ((), write_reg (write_reg s (acc_lo n) (ucast (a div b))) (acc_hi n) (ucast (a mod b))))"
    using dword by (simp add: div_wide_def a_def b_def acc_lo_def acc_hi_def Let_def)
  moreover have ab: "uint a = acc_pair n s" "uint b = uval n d"
    using dword acc_width [OF assms(1), of s]
    by (simp_all add: a_def b_def uint_pair [where 'a = 32, simplified] acc_pair_def acc_lo_def acc_hi_def uint_ucast_parts uval_def)
  moreover have "(ucast (a div b) :: u64) = word_of_int (acc_pair n s div uval n d)" "(ucast (a mod b) :: u64) = word_of_int (acc_pair n s mod uval n d)"
    by (simp_all flip: ab uint_div_word)
  ultimately show ?thesis
    using dword by (auto simp: Let_def word_less_num uint_div_word)
next
  case qword
  define a :: u128 where "a = push_bit 64 (ucast (read_reg s (Reg64 RDX))) OR ucast (read_reg s (Reg64 RAX))"
  define b :: u128 where "b = ucast d"
  have "div_wide n d s = (if a div b > ucast (- 1 :: u64) then Inl (Fail DivideError)
       else Inr ((), write_reg (write_reg s (acc_lo n) (ucast (a div b))) (acc_hi n) (ucast (a mod b))))"
    using qword by (simp add: div_wide_def a_def b_def acc_lo_def acc_hi_def Let_def)
  moreover have ab: "uint a = acc_pair n s" "uint b = uval n d"
    using qword acc_width [OF assms(1), of s] uint_lt2p [of d]
    by (simp_all add: a_def b_def uint_pair [where 'a = 64, simplified] acc_pair_def acc_lo_def acc_hi_def uint_ucast_parts uval_def)
  moreover have "(ucast (a div b) :: u64) = word_of_int (acc_pair n s div uval n d)" "(ucast (a mod b) :: u64) = word_of_int (acc_pair n s mod uval n d)"
    by (simp_all flip: ab uint_div_word)
  ultimately show ?thesis
    using qword by (auto simp: Let_def word_less_num uint_div_word uint_ucast_parts uint_minus_1)
qed

text \<open>Signed values of words.\<close>

lemma sint_eq: "sint w = (if 2 ^ (LENGTH('a) - 1) \<le> uint w then uint w - 2 ^ LENGTH('a) else uint w)" for w :: "'a::len word"
proof -
  have p: "(2 :: int) ^ LENGTH('a) = 2 * 2 ^ (LENGTH('a) - 1)" by (simp add: power_eq_if)
  have "sint w = signed_take_bit (LENGTH('a) - 1) (uint w)" by (simp add: sint_uint)
  also have "\<dots> = (uint w + 2 ^ (LENGTH('a) - 1)) mod 2 ^ LENGTH('a) - 2 ^ (LENGTH('a) - 1)"
    by (simp add: signed_take_bit_eq_take_bit_shift take_bit_eq_mod)
  finally show ?thesis using uint_lt2p [of w] uint_ge_0 [of w] p by (auto simp: mod_pos_pos_trivial mod_window)
qed

lemma sint_ucast_sval: "LENGTH('a) \<le> 64 \<Longrightarrow> sint (ucast d :: 'a::len word) = sval LENGTH('a) d" for d :: u64
  using bit_top_iff [of "LENGTH('a)" d] by (auto simp: sint_eq sval_def uint_ucast_parts uval_def)

lemma sval_fits: "0 < n \<Longrightarrow> n \<le> 64 \<Longrightarrow> n \<le> m + 1 \<Longrightarrow> signed_take_bit m (sval n d) = sval n d"
proof -
  assume n: "0 < n" "n \<le> 64" "n \<le> m + 1"
  then have "(2 :: int) ^ (n - 1) \<le> 2 ^ m" by (intro power_increasing) auto
  then show ?thesis using sval_range [OF n(1,2), of d] by (intro signed_take_bit_int_eq_self) linarith+
qed

definition acc_signed :: "nat \<Rightarrow> CpuState \<Rightarrow> int" where
  "acc_signed n s = (if 2 ^ (2 * n - 1) \<le> acc_pair n s then acc_pair n s - 2 ^ (2 * n) else acc_pair n s)"

lemma abs_sdiv: "b \<noteq> 0 \<Longrightarrow> \<bar>a sdiv b\<bar> = \<bar>a\<bar> div \<bar>b\<bar>" for a b :: int
  by (cases "a = 0") (simp_all add: signed_divide_int_def abs_mult abs_sgn_eq pos_imp_zdiv_nonneg_iff)

lemma sdiv_range:
  fixes a b M :: int
  assumes "- M \<le> a" "a < M" "b \<noteq> 0" "\<not> (a = - M \<and> b = - 1)"
  shows "- M \<le> a sdiv b" "a sdiv b < M"
proof -
  have le: "\<bar>a sdiv b\<bar> \<le> \<bar>a\<bar>" using assms(3) zdiv_mono2 [of "\<bar>a\<bar>" 1 "\<bar>b\<bar>"] by (simp add: abs_sdiv)
  then show "- M \<le> a sdiv b" using assms(1,2) by linarith
  show "a sdiv b < M"
  proof (rule ccontr)
    assume "\<not> a sdiv b < M"
    then have "a = - M" "a sdiv b = M" using le assms(1,2) by linarith+
    then have "M = M div \<bar>b\<bar>" "0 < M" using assms(1,2) abs_sdiv [OF assms(3), of a] by auto
    then have "\<not> 1 < \<bar>b\<bar>" using int_div_less_self [of M "\<bar>b\<bar>"] by auto
    then have "\<bar>b\<bar> = 1" using assms(3) by linarith
    then show False using assms \<open>a sdiv b = M\<close> \<open>a = - M\<close> by (cases "b = 1") auto
  qed
qed

lemma signed_div_rem_eq:
  fixes a b :: "'a::len word"
  shows "signed_div_rem a b =
    (if b = 0 \<or> (sint a = - (2 ^ (LENGTH('a) - 1)) \<and> sint b = - 1) then Inl Panic
     else Inr (word_of_int (sint a sdiv sint b), word_of_int (sint a smod sint b))) \<and>
    (b \<noteq> 0 \<and> \<not> (sint a = - (2 ^ (LENGTH('a) - 1)) \<and> sint b = - 1) \<longrightarrow>
     sint (word_of_int (sint a sdiv sint b) :: 'a word) = sint a sdiv sint b)"
proof -
  have b0: "b \<noteq> 0 \<Longrightarrow> sint b \<noteq> 0" using sint_eq [of b] less_irrefl [of "uint b"] uint_lt2p [of b] by (metis eq_iff_diff_eq_0 uint_0_iff)
  have "sint (word_of_int (sint a sdiv sint b) :: 'a word) = sint a sdiv sint b"
    if "b \<noteq> 0" "\<not> (sint a = - (2 ^ (LENGTH('a) - 1)) \<and> sint b = - 1)"
    using sdiv_range [of "2 ^ (LENGTH('a) - 1)" "sint a" "sint b"] that sint_ge [of a] sint_lt [of a] b0
    by (auto simp: sint_sbintrunc' signed_take_bit_int_eq_self)
  then show ?thesis by (simp add: signed_div_rem_def)
qed


lemma signed_quotient_eq:
  fixes a b :: "'a::len word"
  assumes "b \<noteq> 0"
  shows "signed_quotient n a b =
    (if sint a = - (2 ^ (LENGTH('a) - 1)) \<and> sint b = - 1 then Inl Panic
     else if sint a sdiv sint b < - (2 ^ (n - 1)) \<or> sint a sdiv sint b > 2 ^ (n - 1) - 1 then Inl (Fail DivideError)
     else Inr (word_of_int (sint a sdiv sint b), word_of_int (sint a smod sint b)))"
  using signed_div_rem_eq [of a b] assms by (auto simp: signed_quotient_def)

lemma write_reg_take: "gpr_info r = Some (i, b, h) \<Longrightarrow> write_reg s r (take_bit b v) = write_reg s r v"
  using gpr_info_bounds [of r i b h]
  by (auto simp: write_reg_def Let_def low_masks intro!: arg_cong [where f = "\<lambda>x. s\<lparr>gpr := (gpr s)[i := x]\<rparr>"] bit_eqI simp: part_bits)

lemma acc_write_take: "op_width n \<Longrightarrow> write_reg s (acc_lo n) (take_bit n v) = write_reg s (acc_lo n) v"
  "op_width n \<Longrightarrow> write_reg s (acc_hi n) (take_bit n v) = write_reg s (acc_hi n) v"
  by (auto elim!: op_width_cases simp: acc_lo_def acc_hi_def write_reg_take [OF gpr_info.simps(1)] write_reg_take [OF gpr_info.simps(2)]
      write_reg_take [OF gpr_info.simps(3)])

lemma acc_write_cong: "op_width n \<Longrightarrow> take_bit n v = take_bit n v' \<Longrightarrow> write_reg s (acc_lo n) v = write_reg s (acc_lo n) v'"
  "op_width n \<Longrightarrow> take_bit n v = take_bit n v' \<Longrightarrow> write_reg s (acc_hi n) v = write_reg s (acc_hi n) v'"
  using acc_write_take by metis+

lemma bit_scast: "m < LENGTH('a) \<Longrightarrow> LENGTH('a) \<le> LENGTH('b) \<Longrightarrow> bit (scast x :: 'b::len word) m \<longleftrightarrow> bit x m" for x :: "'a::len word"
proof -
  assume m: "m < LENGTH('a)" "LENGTH('a) \<le> LENGTH('b)"
  then have "min m (LENGTH('a) - 1) = m" by auto
  then show ?thesis using m by (auto simp: bit_signed_iff bit_imp_le_length)
qed

lemma pair_scast:
  fixes x y :: "'a::len word"
  assumes "2 * LENGTH('a) = LENGTH('b)"
  shows "push_bit LENGTH('a) (scast x) OR (scast y AND mask LENGTH('a)) = (push_bit LENGTH('a) (ucast x) OR ucast y :: 'b::len word)"
proof (rule bit_word_eqI)
  fix n assume n: "n < LENGTH('b)"
  show "bit (push_bit LENGTH('a) (scast x) OR (scast y AND mask LENGTH('a)) :: 'b word) n \<longleftrightarrow> bit (push_bit LENGTH('a) (ucast x) OR ucast y :: 'b word) n"
    using assms n bit_scast [of n y, where 'b = 'b] bit_scast [of "n - LENGTH('a)" x, where 'b = 'b]
    by (cases "n < LENGTH('a)") (auto simp: bit_or_iff bit_push_bit_iff bit_and_iff bit_mask_iff bit_unsigned_iff bit_imp_le_length)
qed


lemma take_ucast:
  "LENGTH('m) \<le> LENGTH('w) \<Longrightarrow> take_bit LENGTH('m) (ucast (ucast (word_of_int q :: 'w::len word) :: 'm::len word) :: u64) = take_bit LENGTH('m) (word_of_int q)"
  by (rule bit_word_eqI) (auto simp: bit_take_bit_iff bit_unsigned_iff bit_word_of_int_iff)

lemma ucast_word_of_int: "(ucast (word_of_int k :: u128) :: u64) = word_of_int k"
  by (rule bit_word_eqI) (simp add: bit_unsigned_iff bit_word_of_int_iff)

lemma idiv_wide_eq:
  assumes "op_width n" "length (gpr s) = 16" "sval n d \<noteq> 0"
  shows "idiv_wide n d s =
    (let p = acc_signed n s; q = p sdiv sval n d; r = p smod sval n d
     in if p = - (2 ^ (2 * n - 1)) \<and> sval n d = - 1 then Inl Panic
        else if q < - (2 ^ (n - 1)) \<or> q > 2 ^ (n - 1) - 1 then Inl (Fail DivideError)
        else Inr ((), write_reg (write_reg s (acc_lo n) (word_of_int q)) (acc_hi n) (word_of_int r)))"
  using assms(1)
proof (cases rule: op_width_cases)
  case byte
  define a :: u16 where "a = ucast (read_reg s (Reg16 AX))"
  define b :: u16 where "b = scast (ucast d :: u8)"
  have "uint a = acc_pair n s"
    using byte acc_width(1) [of 16 s] by (simp add: a_def acc_AX uint_ucast_parts op_width_def acc_lo_def)
  then have ab: "sint a = acc_signed n s" "sint b = sval n d"
    using byte by (simp_all add: acc_signed_def sint_eq [of a] b_def sint_ucast_sval signed_scast_eq sval_fits)
  have b0: "b \<noteq> 0" using ab(2) assms(3) by auto
  have "idiv_wide n d s = (case signed_quotient 8 a b of Inl e \<Rightarrow> Inl e
       | Inr (q, r) \<Rightarrow> Inr ((), write_reg (write_reg s (acc_lo n) (ucast (ucast q :: u8))) (acc_hi n) (ucast (ucast r :: u8))))"
    using byte by (simp add: idiv_wide_def a_def b_def acc_lo_def acc_hi_def Let_def split: sum.split)
  then show ?thesis
    using byte by (subst (asm) signed_quotient_eq [OF b0]) (auto simp: ab Let_def op_width_def acc_write_cong [OF _ take_ucast [where 'm = 8 and 'w = 16, simplified], simplified])
next
  case word
  define x :: u16 where "x = ucast (read_reg s (Reg16 DX))"
  define y :: u16 where "y = ucast (read_reg s (Reg16 AX))"
  define a :: u32 where "a = push_bit 16 (scast x) OR (scast y AND 0xFFFF)"
  define b :: u32 where "b = scast (ucast d :: u16)"
  have m: "(mask 16 :: u32) = 0xFFFF" by (simp add: mask_eq_exp_minus_1)
  have "uint a = acc_pair n s"
    using word acc_width [OF assms(1), of s] pair_scast [of x y, where 'b = 32] uint_pair [of x y, where 'b = 32]
    by (simp add: a_def x_def y_def acc_pair_def acc_lo_def acc_hi_def uint_ucast_parts m)
  then have ab: "sint a = acc_signed n s" "sint b = sval n d"
    using word by (simp_all add: acc_signed_def sint_eq [of a] b_def sint_ucast_sval signed_scast_eq sval_fits)
  have b0: "b \<noteq> 0" using ab(2) assms(3) by auto
  have "idiv_wide n d s = (case signed_quotient 16 a b of Inl e \<Rightarrow> Inl e
       | Inr (q, r) \<Rightarrow> Inr ((), write_reg (write_reg s (acc_lo n) (ucast (ucast q :: u16))) (acc_hi n) (ucast (ucast r :: u16))))"
    using word by (simp add: idiv_wide_def a_def b_def x_def y_def acc_lo_def acc_hi_def Let_def split: sum.split)
  then show ?thesis
    using word by (subst (asm) signed_quotient_eq [OF b0]) (auto simp: ab Let_def op_width_def acc_write_cong [OF _ take_ucast [where 'm = 16 and 'w = 32, simplified], simplified])
next
  case dword
  define x :: u32 where "x = ucast (read_reg s (Reg32 EDX))"
  define y :: u32 where "y = ucast (read_reg s (Reg32 EAX))"
  define a :: u64 where "a = push_bit 32 (scast x) OR (scast y AND 0xFFFFFFFF)"
  define b :: u64 where "b = scast (ucast d :: u32)"
  have m: "(mask 32 :: u64) = 0xFFFFFFFF" by (simp add: mask_eq_exp_minus_1)
  have "uint a = acc_pair n s"
    using dword acc_width [OF assms(1), of s] pair_scast [of x y, where 'b = 64] uint_pair [of x y, where 'b = 64]
    by (simp add: a_def x_def y_def acc_pair_def acc_lo_def acc_hi_def uint_ucast_parts m)
  then have ab: "sint a = acc_signed n s" "sint b = sval n d"
    using dword by (simp_all add: acc_signed_def sint_eq [of a] b_def sint_ucast_sval signed_scast_eq sval_fits)
  have b0: "b \<noteq> 0" using ab(2) assms(3) by auto
  have "idiv_wide n d s = (case signed_quotient 32 a b of Inl e \<Rightarrow> Inl e
       | Inr (q, r) \<Rightarrow> Inr ((), write_reg (write_reg s (acc_lo n) (ucast (ucast q :: u32))) (acc_hi n) (ucast (ucast r :: u32))))"
    using dword by (simp add: idiv_wide_def a_def b_def x_def y_def acc_lo_def acc_hi_def Let_def split: sum.split)
  then show ?thesis
    using dword by (subst (asm) signed_quotient_eq [OF b0]) (auto simp: ab Let_def op_width_def acc_write_cong [OF _ take_ucast [where 'm = 32 and 'w = 64, simplified], simplified])
next
  case qword
  define x :: u64 where "x = read_reg s (Reg64 RDX)"
  define y :: u64 where "y = read_reg s (Reg64 RAX)"
  define a :: u128 where "a = push_bit 64 (scast x) OR (scast y AND 0xFFFFFFFFFFFFFFFF)"
  define b :: u128 where "b = scast (d)"
  have m: "(mask 64 :: u128) = 0xFFFFFFFFFFFFFFFF" by (simp add: mask_eq_exp_minus_1)
  have "uint a = acc_pair n s"
    using qword acc_width [OF assms(1), of s] pair_scast [of x y, where 'b = 128] uint_pair [of x y, where 'b = 128]
    by (simp add: a_def x_def y_def acc_pair_def acc_lo_def acc_hi_def uint_ucast_parts m)
  then have ab: "sint a = acc_signed n s" "sint b = sval n d"
    using qword sint_ucast_sval [of d, where 'a = 64] by (simp_all add: acc_signed_def sint_eq [of a] b_def sint_ucast_sval signed_scast_eq sval_fits)
  have b0: "b \<noteq> 0" using ab(2) assms(3) by auto
  have "idiv_wide n d s = (case signed_quotient 64 a b of Inl e \<Rightarrow> Inl e
       | Inr (q, r) \<Rightarrow> Inr ((), write_reg (write_reg s (acc_lo n) (ucast q)) (acc_hi n) (ucast r)))"
    using qword by (simp add: idiv_wide_def a_def b_def x_def y_def acc_lo_def acc_hi_def Let_def split: sum.split)
  then show ?thesis
    using qword by (subst (asm) signed_quotient_eq [OF b0]) (auto simp: ab Let_def ucast_word_of_int)
qed

lemma acc_reads:
  assumes "op_width n" "length (gpr s) = 16"
  shows "read_reg (write_reg (write_reg s (acc_lo n) a) (acc_hi n) d) (acc_lo n) = take_bit n a"
    "read_reg (write_reg (write_reg s (acc_lo n) a) (acc_hi n) d) (acc_hi n) = take_bit n d"
  using assms(1)
  by (cases rule: op_width_cases; simp add: acc_lo_def acc_hi_def acc_parts [OF assms(2)])+

lemma uval_of_int: "n \<le> 64 \<Longrightarrow> uval n (word_of_int k) = k mod 2 ^ n"
proof -
  assume "n \<le> 64"
  then have "(2 :: int) ^ n dvd 2 ^ 64" by (rule le_imp_power_dvd)
  then show ?thesis by (simp add: uval_def uint_word_of_int mod_mod_cancel)
qed

lemma sval_of_int: "op_width n \<Longrightarrow> - (2 ^ (n - 1)) \<le> k \<Longrightarrow> k < 2 ^ (n - 1) \<Longrightarrow> sval n (word_of_int k) = k"
proof -
  assume n: "op_width n" and k: "- (2 ^ (n - 1)) \<le> k" "k < 2 ^ (n - 1)"
  note b = op_width_bounds [OF n]
  have p: "(2 :: int) ^ n = 2 * 2 ^ (n - 1)" using b by (intro two_power_pred) simp
  have "k mod 2 ^ n = (if 0 \<le> k then k else k + 2 ^ n)" using k p by (intro mod_window_neg) auto
  then show ?thesis using bit_top_iff [of n "word_of_int k"] b k p by (auto simp: sval_def uval_of_int)
qed

lemma smod_bound: "b \<noteq> 0 \<Longrightarrow> \<bar>a smod b\<bar> < \<bar>b\<bar>" for a b :: int
  by (simp add: smod_int_alt_def abs_mult abs_sgn_eq)

lemma uval_sval_0: "op_width n \<Longrightarrow> uval n d = 0 \<longleftrightarrow> sval n d = 0"
  using uval_range [of n d] op_width_bounds [of n] bit_top_iff [of n d] by (auto simp: sval_def)

lemma div_wide_result:
  assumes "op_width n" "length (gpr s) = 16" "uval n d \<noteq> 0" "acc_pair n s div uval n d < 2 ^ n"
  shows "\<exists>s'. div_wide n d s = Inr ((), s') \<and> uint (read_reg s' (acc_lo n)) * uval n d + uint (read_reg s' (acc_hi n)) = acc_pair n s \<and>
    uint (read_reg s' (acc_hi n)) < uval n d"
proof -
  let ?p = "acc_pair n s" and ?d = "uval n d"
  have d: "0 < ?d" "?d < 2 ^ n" using uval_range [of n d] assms(3) by auto
  have "0 \<le> ?p" by (simp add: acc_pair_def)
  then have q: "?p div ?d mod 2 ^ n = ?p div ?d" using d assms(4) by (intro mod_pos_pos_trivial) (auto simp: pos_imp_zdiv_nonneg_iff)
  have "?p mod ?d < ?d" "0 \<le> ?p mod ?d" using d(1) by auto
  then have r: "?p mod ?d mod 2 ^ n = ?p mod ?d" using d(2) by (intro mod_pos_pos_trivial) auto
  show ?thesis
    using assms(4) q r \<open>?p mod ?d < ?d\<close> op_width_bounds [OF assms(1)] div_mult_mod_eq [of ?p ?d]
    by (simp add: div_wide_eq [OF assms(1,2)] Let_def acc_reads [OF assms(1,2)] uint_take_bit uval_of_int)
qed

lemma idiv_wide_result:
  assumes "op_width n" "length (gpr s) = 16" "sval n d \<noteq> 0" "\<not> (acc_signed n s = - (2 ^ (2 * n - 1)) \<and> sval n d = - 1)"
    "- (2 ^ (n - 1)) \<le> acc_signed n s sdiv sval n d" "acc_signed n s sdiv sval n d < 2 ^ (n - 1)"
  shows "\<exists>s'. idiv_wide n d s = Inr ((), s') \<and> sval n (read_reg s' (acc_lo n)) * sval n d + sval n (read_reg s' (acc_hi n)) = acc_signed n s \<and>
    \<bar>sval n (read_reg s' (acc_hi n))\<bar> < \<bar>sval n d\<bar> \<and> sval n (read_reg s' (acc_hi n)) * acc_signed n s \<ge> 0"
proof -
  let ?p = "acc_signed n s" and ?d = "sval n d"
  note b = op_width_bounds [OF assms(1)]
  have r: "\<bar>?p smod ?d\<bar> < \<bar>?d\<bar>" using assms(3) by (rule smod_bound)
  have "\<bar>?d\<bar> \<le> 2 ^ (n - 1)" using sval_range [of n d] b by auto
  then have s: "sval n (word_of_int (?p smod ?d)) = ?p smod ?d" using r by (intro sval_of_int assms(1)) linarith+
  have "0 \<le> \<bar>?p\<bar> mod \<bar>?d\<bar>" using assms(3) by simp
  then have "0 \<le> (?p smod ?d) * ?p" by (auto simp: smod_int_alt_def sgn_if zero_le_mult_iff)
  then show ?thesis
    using assms(4-6) r s b sval_of_int [OF assms(1,5,6)] sdiv_mult_smod_eq [of ?p ?d]
    by (auto simp: idiv_wide_eq [OF assms(1-3)] Let_def acc_reads [OF assms(1,2)])
qed

lemma sint_sign_ext:
  assumes "op_width n"
  shows "sint (sign_ext_to_i128 v n) = sval n v"
proof (cases "n = 64")
  case True
  then show ?thesis using sint_ucast_sval [of v, where 'a = 64] sval_fits [of 64 127 v] by (simp add: sign_ext_to_i128_def signed_scast_eq)
next
  case False
  then have n: "0 < n" "n < 64" using assms by (auto simp: op_width_def)
  define e where "e = (if bit v (n - 1) then take_bit n v OR push_bit n (- 1) else take_bit n v)"
  have "take_bit n v AND push_bit (n - 1) 1 \<noteq> 0 \<longleftrightarrow> bit v (n - 1)"
    using n by (simp add: push_bit_of_1 and_exp_eq_0_iff_not_bit bit_take_bit_iff)
  then have ext: "sign_ext_to_i128 v n = scast e" using False n by (simp add: sign_ext_to_i128_def Let_def e_def)
  have "word_of_int (uval n v) = take_bit n v" by (metis uint_take_bit word_of_int_uint)
  moreover have "take_bit n v OR push_bit n (- 1) = take_bit n v + push_bit n (- 1 :: u64)"
    by (rule disjunctive_add [symmetric]) (auto simp: bit_take_bit_iff bit_push_bit_iff bit_not_iff bit_mask_iff)
  ultimately have "e = word_of_int (sval n v)" by (simp add: e_def sval_def push_bit_eq_mult)
  then have "sint e = sval n v" using sval_fits [of n 63 v] n by (simp add: sint_sbintrunc')
  then show ?thesis using sval_fits [of n 127 v] n by (simp add: ext signed_scast_eq)
qed


text \<open>Signed products.\<close>

lemma sval_product_range:
  assumes "op_width n"
  shows "- (2 ^ (2 * n - 1)) \<le> sval n a * sval n b" "sval n a * sval n b < 2 ^ (2 * n - 1)"
proof -
  note b = op_width_bounds [OF assms]
  have r: "\<bar>sval n x\<bar> \<le> 2 ^ (n - 1)" for x using sval_range [of n x] b by auto
  have "\<bar>sval n a * sval n b\<bar> \<le> 2 ^ (n - 1) * 2 ^ (n - 1)" unfolding abs_mult by (intro mult_mono r) auto
  also have "\<dots> = 2 ^ (2 * n - 2)" using b by (simp flip: power_add mult_2)
  finally have "\<bar>sval n a * sval n b\<bar> \<le> 2 ^ (2 * n - 2)" .
  moreover have "(2 :: int) ^ (2 * n - 2) < 2 ^ (2 * n - 1)" using b by (intro power_strict_increasing) auto
  ultimately show "- (2 ^ (2 * n - 1)) \<le> sval n a * sval n b" "sval n a * sval n b < 2 ^ (2 * n - 1)" by linarith+
qed

lemma sval_fits_iff: "op_width n \<Longrightarrow> sval n (word_of_int k) = k \<longleftrightarrow> - (2 ^ (n - 1)) \<le> k \<and> k < 2 ^ (n - 1)"
  using sval_range [of n "word_of_int k"] sval_of_int [of n k] op_width_bounds [of n] by auto

lemma imul_trunc_eq:
  assumes "op_width n"
  shows "fst (imul_trunc a b n) = take_bit n (word_of_int (sval n a * sval n b)) \<and>
    (snd (imul_trunc a b n) \<longleftrightarrow> \<not> (- (2 ^ (n - 1)) \<le> sval n a * sval n b \<and> sval n a * sval n b < 2 ^ (n - 1)))"
proof -
  let ?k = "sval n a * sval n b"
  let ?f = "sign_ext_to_i128 a n * sign_ext_to_i128 b n"
  note b = op_width_bounds [OF assms]
  have "sign_ext_to_i128 x n = word_of_int (sval n x)" for x by (simp flip: sint_sign_ext [OF assms])
  then have f: "?f = word_of_int ?k" by simp
  have "ucast (?f AND ucast (mask_bits n)) = take_bit n (word_of_int ?k :: u64)"
    unfolding f by (rule bit_word_eqI) (use b in \<open>auto simp: bit_unsigned_iff bit_and_iff bit_mask_iff bit_word_of_int_iff bit_take_bit_iff mask_bits_eq simp del: of_int_mult\<close>)
  then have r: "fst (imul_trunc a b n) = take_bit n (word_of_int ?k)" by (simp add: imul_trunc_def Let_def)
  have "(2 :: int) ^ (2 * n - 1) \<le> 2 ^ 127" using b by (intro power_increasing) auto
  then have "sint ?f = ?k"
    unfolding f using sval_product_range [OF assms, of a b] 
    by (subst sint_sbintrunc', intro signed_take_bit_int_eq_self) simp_all
  moreover have "snd (imul_trunc a b n) \<longleftrightarrow> sint ?f \<noteq> sint (sign_ext_to_i128 (fst (imul_trunc a b n)) n)"
    by (simp add: imul_trunc_def Let_def) (metis signed_word_eqI)
  ultimately have "snd (imul_trunc a b n) \<longleftrightarrow> sval n (word_of_int ?k) \<noteq> ?k"
    using b by (auto simp: sint_sign_ext [OF assms] r simp del: of_int_mult)
  then show ?thesis using r sval_fits_iff [OF assms, of ?k] by blast
qed


lemma halves_signed:
  assumes "op_width n" "length (gpr s) = 16" "acc_pair n s = k mod 2 ^ (2 * n)" "- (2 ^ (2 * n - 1)) \<le> k" "k < 2 ^ (2 * n - 1)"
  shows "acc_signed n s = k"
proof -
  have "(2 :: int) ^ (2 * n) = 2 * 2 ^ (2 * n - 1)" using op_width_bounds [OF assms(1)] by (intro two_power_pred) simp
  then show ?thesis using assms(3-5) mod_window_neg [of "2 ^ (2 * n)" k] by (auto simp: acc_signed_def)
qed

lemma sint_scast_widen: "LENGTH('m) \<le> LENGTH('w) \<Longrightarrow> sint (scast x :: 'w::len word) = sint x" for x :: "'m::len word"
proof -
  assume le: "LENGTH('m) \<le> LENGTH('w)"
  then have "(2 :: int) ^ (LENGTH('m) - 1) \<le> 2 ^ (LENGTH('w) - 1)" by (intro power_increasing) auto
  then have "- (2 ^ (LENGTH('w) - 1)) \<le> sint x" "sint x < 2 ^ (LENGTH('w) - 1)" using sint_ge [of x] sint_lt [of x] by linarith+
  then show ?thesis by (simp add: signed_scast_eq signed_take_bit_int_eq_self)
qed

lemma narrow_eq_iff:
  assumes "LENGTH('m) \<le> LENGTH('w)" "- (2 ^ (LENGTH('w) - 1)) \<le> k" "k < 2 ^ (LENGTH('w) - 1)"
  shows "(word_of_int k :: 'w::len word) = scast (word_of_int k :: 'm::len word) \<longleftrightarrow> - (2 ^ (LENGTH('m) - 1)) \<le> k \<and> k < 2 ^ (LENGTH('m) - 1)"
proof -
  have "sint (word_of_int k :: 'w word) = k" using assms(2,3) by (simp add: sint_sbintrunc' signed_take_bit_int_eq_self)
  moreover have "sint (scast (word_of_int k :: 'm word) :: 'w word) = signed_take_bit (LENGTH('m) - 1) k"
    using sint_scast_widen [of "word_of_int k :: 'm word", where 'w = 'w] assms(1) by (simp add: sint_sbintrunc')
  ultimately show ?thesis by (metis signed_word_eqI signed_take_bit_int_eq_self_iff)
qed

lemma ucast_of_int_narrow: "LENGTH('m) \<le> LENGTH('w) \<Longrightarrow> (ucast (word_of_int k :: 'w::len word) :: 'm::len word) = word_of_int k"
  by (rule bit_word_eqI) (simp add: bit_unsigned_iff bit_word_of_int_iff)

lemma uint_high_half:
  fixes f :: "'w::len word"
  assumes "LENGTH('w) = LENGTH('m) + LENGTH('m)"
  shows "uint (ucast (signed_drop_bit LENGTH('m) f) :: 'm::len word) = uint f div 2 ^ LENGTH('m)"
proof -
  have "(ucast (signed_drop_bit LENGTH('m) f) :: 'm word) = ucast (drop_bit LENGTH('m) f)"
    by (rule bit_word_eqI) (use assms in \<open>auto simp: bit_unsigned_iff bit_signed_drop_bit_iff bit_drop_bit_eq\<close>)
  moreover have "uint f < 2 ^ LENGTH('m) * 2 ^ LENGTH('m)" using uint_lt2p [of f] assms by (simp add: power_add)
  ultimately show ?thesis using halves [of "uint f" "LENGTH('m)"] pair_split [of "uint f" "LENGTH('m)"] by (simp add: uint_ucast_parts uint_drop)
      (metis add_right_cancel mult_right_cancel power_not_zero zero_neq_numeral)
qed


lemma imul_wide_eq:
  assumes "op_width n" "length (gpr s) = 16"
  shows "\<exists>s'. imul_wide n src s =
      Inr (\<not> (- (2 ^ (n - 1)) \<le> sval n (read_reg s (acc_lo n)) * sval n src \<and> sval n (read_reg s (acc_lo n)) * sval n src < 2 ^ (n - 1)), s') \<and>
    acc_signed n s' = sval n (read_reg s (acc_lo n)) * sval n src" (is "\<exists>s'. _ = Inr (\<not> ?fits, s') \<and> _ = ?k")
  using assms(1)
proof (cases rule: op_width_cases)
  note r = sval_product_range [OF assms(1), of "read_reg s (acc_lo n)" src]
  case byte
  define f :: u16 where "f = word_of_int ?k"
  have f: "scast (ucast (read_reg s (Reg8 AL)) :: u8) * scast (ucast src :: u8) = f"
    using byte by (simp add: f_def scast_eq sint_ucast_sval acc_lo_def)
  have "uint f = ?k mod 2 ^ (2 * n)" using byte by (simp add: f_def uint_word_of_int del: of_int_mult)
  moreover have "imul_wide n src s = Inr (f \<noteq> scast (ucast f :: u8), write_reg s (Reg16 AX) (ucast f))"
    using byte by (simp add: imul_wide_def Let_def f)
  moreover have "f = scast (ucast f :: u8) \<longleftrightarrow> ?fits"
    using byte r narrow_eq_iff [of ?k, where 'm = 8 and 'w = 16] by (simp add: f_def ucast_of_int_narrow del: of_int_mult)
  moreover have "acc_pair n (write_reg s (Reg16 AX) (ucast f)) = uint f"
    using byte uint_lt2p [of f] by (simp add: acc_AX acc_parts [OF assms(2)] uint_take_bit uval_ucast)
  ultimately show ?thesis using halves_signed [OF assms(1) _ _ r] assms(2) by auto
next
  note r = sval_product_range [OF assms(1), of "read_reg s (acc_lo n)" src]
  case word
  define f :: u32 where "f = word_of_int ?k"
  have f: "scast (ucast (read_reg s (Reg16 AX)) :: u16) * scast (ucast src :: u16) = f"
    using word by (simp add: f_def scast_eq sint_ucast_sval acc_lo_def)
  have "uint f = ?k mod 2 ^ (2 * n)" using word by (simp add: f_def uint_word_of_int del: of_int_mult)
  moreover have "imul_wide n src s = Inr (f \<noteq> scast (ucast f :: u16), write_reg (write_reg s (acc_lo n) (ucast (ucast f :: u16))) (acc_hi n) (ucast (ucast (signed_drop_bit 16 f) :: u16)))"
    using word by (simp add: imul_wide_def Let_def f acc_lo_def acc_hi_def)
  moreover have "f = scast (ucast f :: u16) \<longleftrightarrow> ?fits"
    using word r narrow_eq_iff [of ?k, where 'm = 16 and 'w = 32] by (simp add: f_def ucast_of_int_narrow del: of_int_mult)
  moreover have "acc_pair n (write_reg (write_reg s (acc_lo n) (ucast (ucast f :: u16))) (acc_hi n) (ucast (ucast (signed_drop_bit 16 f) :: u16))) = uint f"
    using word acc_pair_write [OF assms] uint_high_half [of f, where 'm = 16] pair_split [of "uint f" 16]
    by (simp add: uval_ucast uint_ucast_parts)
  ultimately show ?thesis using halves_signed [OF assms(1) _ _ r] assms(2) by auto
next
  note r = sval_product_range [OF assms(1), of "read_reg s (acc_lo n)" src]
  case dword
  define f :: u64 where "f = word_of_int ?k"
  have f: "scast (ucast (read_reg s (Reg32 EAX)) :: u32) * scast (ucast src :: u32) = f"
    using dword by (simp add: f_def scast_eq sint_ucast_sval acc_lo_def)
  have "uint f = ?k mod 2 ^ (2 * n)" using dword by (simp add: f_def uint_word_of_int del: of_int_mult)
  moreover have "imul_wide n src s = Inr (f \<noteq> scast (ucast f :: u32), write_reg (write_reg s (acc_lo n) (ucast (ucast f :: u32))) (acc_hi n) (ucast (ucast (signed_drop_bit 32 f) :: u32)))"
    using dword by (simp add: imul_wide_def Let_def f acc_lo_def acc_hi_def)
  moreover have "f = scast (ucast f :: u32) \<longleftrightarrow> ?fits"
    using dword r narrow_eq_iff [of ?k, where 'm = 32 and 'w = 64] by (simp add: f_def ucast_of_int_narrow del: of_int_mult)
  moreover have "acc_pair n (write_reg (write_reg s (acc_lo n) (ucast (ucast f :: u32))) (acc_hi n) (ucast (ucast (signed_drop_bit 32 f) :: u32))) = uint f"
    using dword acc_pair_write [OF assms] uint_high_half [of f, where 'm = 32] pair_split [of "uint f" 32]
    by (simp add: uval_ucast uint_ucast_parts)
  ultimately show ?thesis using halves_signed [OF assms(1) _ _ r] assms(2) by auto
next
  note r = sval_product_range [OF assms(1), of "read_reg s (acc_lo n)" src]
  case qword
  define f :: u128 where "f = word_of_int ?k"
  have f: "scast (read_reg s (Reg64 RAX)) * scast (src) = f"
    using qword sint_ucast_sval [of src, where 'a = 64] sint_ucast_sval [of "read_reg s (Reg64 RAX)", where 'a = 64] by (simp add: f_def scast_eq sint_ucast_sval acc_lo_def)
  have "uint f = ?k mod 2 ^ (2 * n)" using qword by (simp add: f_def uint_word_of_int del: of_int_mult)
  moreover have "imul_wide n src s = Inr (f \<noteq> scast (ucast f :: u64), write_reg (write_reg s (acc_lo n) (ucast f)) (acc_hi n) (ucast (signed_drop_bit 64 f)))"
    using qword by (simp add: imul_wide_def Let_def f acc_lo_def acc_hi_def)
  moreover have "f = scast (ucast f :: u64) \<longleftrightarrow> ?fits"
    using qword r narrow_eq_iff [of ?k, where 'm = 64 and 'w = 128] by (simp add: f_def ucast_of_int_narrow del: of_int_mult)
  moreover have "acc_pair n (write_reg (write_reg s (acc_lo n) (ucast f)) (acc_hi n) (ucast (signed_drop_bit 64 f))) = uint f"
    using qword acc_pair_write [OF assms] uint_high_half [of f, where 'm = 64] pair_split [of "uint f" 64]
    by (simp add: uval_ucast uint_ucast_parts uval_64)
  ultimately show ?thesis using halves_signed [OF assms(1) _ _ r] assms(2) by auto
qed

section \<open>The flags of a product\<close>

lemma set_flag_frame [simp]: "gpr (set_flag s m v) = gpr s" "segments (set_flag s m v) = segments s" "length (gpr (set_flag s m v)) = length (gpr s)"
  by (simp_all add: set_flag_def commit_lazy_flags_def Let_def)

lemma read_set_flag: "gpr_info r = Some i \<Longrightarrow> read_reg (set_flag s m v) r = read_reg s r"
  by (cases i) (simp add: read_reg_def Let_def)

lemma acc_set_flag: "acc_pair n (set_flag s m v) = acc_pair n s" "acc_signed n (set_flag s m v) = acc_signed n s"
proof -
  have "\<exists>i. gpr_info (acc_lo n) = Some i" "\<exists>i. gpr_info (acc_hi n) = Some i" by (auto simp: acc_lo_def acc_hi_def)
  then show "acc_pair n (set_flag s m v) = acc_pair n s" by (auto simp: acc_pair_def read_set_flag)
  then show "acc_signed n (set_flag s m v) = acc_signed n s" by (simp add: acc_signed_def)
qed

lemma set_flag_inactive: "\<not> is_active (lazy_flags (set_flag s m v))"
  by (simp add: set_flag_def commit_lazy_flags_def Let_def is_active_def LazyFlags_default_def)

lemma bit_set_flag: "bit (rflags (set_flag s m v)) i \<longleftrightarrow> (if bit m i then v else bit (rflags (commit_lazy_flags s)) i) \<or> bit RFLAGS_RESERVED1 i" if "i < 64"
  using that by (auto simp: set_flag_def Let_def bit_or_iff bit_and_iff bit_not_iff)

lemma overflow_flags:
  "get_flag (set_flag (set_flag s FLAG_CF v) FLAG_OF v) FLAG_CF \<longleftrightarrow> v" "get_flag (set_flag (set_flag s FLAG_CF v) FLAG_OF v) FLAG_OF \<longleftrightarrow> v"
proof -
  let ?t = "set_flag (set_flag s FLAG_CF v) FLAG_OF v"
  have g: "get_flag ?t (push_bit i 1) \<longleftrightarrow> bit (rflags ?t) i" for i
    using set_flag_inactive [of "set_flag s FLAG_CF v" FLAG_OF v] by (simp only: get_flag_def flag_clear_iff) simp
  have "bit (rflags ?t) 0 = v" "bit (rflags ?t) 11 = v"
    using set_flag_inactive [of s FLAG_CF v] by (simp_all add: bit_set_flag commit_lazy_flags_def bit_RFLAGS bit_or_iff)
  then show "get_flag ?t FLAG_CF \<longleftrightarrow> v" "get_flag ?t FLAG_OF \<longleftrightarrow> v"
    using g [of 0] g [of 11] by (simp_all only: RFLAGS_CF_def RFLAGS_OF_def)
qed

lemma set_overflow_eq:
  "set_overflow v (s, b) = (Inr Continue, (set_flag (set_flag s FLAG_CF v) FLAG_OF v, b))"
  by (simp add: set_overflow_def act_then_def act_bind_def cpu_set_def act_return_def)

section \<open>The properties\<close>

text \<open>
  \<^bold>\<open>Products (C11).\<close> For every operand width and whatever the operand is, \<^verbatim>\<open>MUL\<close> leaves the full unsigned product of the accumulator and its operand in the
  register pair and sets the carry and the overflow flag exactly when the upper half is needed; \<^verbatim>\<open>IMUL\<close> with one operand does the same for the signed
  product, when it does not fit the lower half; with two or three operands it writes the product modulo the width to the destination register and sets both flags exactly for
  the products that do not fit.
\<close>

theorem multiplication_correct:
  assumes "op_width n" "length (gpr s) = 16" "op_bits i 0 = Inr n" "read_op_sized B i 0 n ip (s, b) = (Inr src, (s, b1))"
  shows "(\<exists>s'. exec_mul B M_Mul i ip (s, b) = (Inr Continue, (s', b1)) \<and> acc_pair n s' = uval n (read_reg s (acc_lo n)) * uval n src \<and>
      (get_flag s' FLAG_CF \<longleftrightarrow> 2 ^ n \<le> uval n (read_reg s (acc_lo n)) * uval n src) \<and> (get_flag s' FLAG_OF \<longleftrightarrow> get_flag s' FLAG_CF)) \<and>
    (op_count i = 1 \<longrightarrow> (\<exists>s'. exec_mul B M_Imul i ip (s, b) = (Inr Continue, (s', b1)) \<and> acc_signed n s' = sval n (read_reg s (acc_lo n)) * sval n src \<and>
      (get_flag s' FLAG_CF \<longleftrightarrow> \<not> (- (2 ^ (n - 1)) \<le> sval n (read_reg s (acc_lo n)) * sval n src \<and> sval n (read_reg s (acc_lo n)) * sval n src < 2 ^ (n - 1))) \<and>
      (get_flag s' FLAG_OF \<longleftrightarrow> get_flag s' FLAG_CF))) \<and>
    (\<forall>x y b2 b3 g h. op_count i \<noteq> 1 \<longrightarrow> op_kind i 0 = OpRegister \<longrightarrow> gpr_info (op_register i 0) = Some (g, n, h) \<longrightarrow>
      read_op_sized B i (if op_count i = 3 then 1 else 0) n ip (s, b1) = (Inr x, (s, b2)) \<longrightarrow>
      read_op_sized B i (if op_count i = 3 then 2 else 1) n ip (s, b2) = (Inr y, (s, b3)) \<longrightarrow>
      (\<exists>s'. exec_mul B M_Imul i ip (s, b) = (Inr Continue, (s', b3)) \<and> read_reg s' (op_register i 0) = take_bit n (word_of_int (sval n x * sval n y)) \<and>
        (get_flag s' FLAG_CF \<longleftrightarrow> \<not> (- (2 ^ (n - 1)) \<le> sval n x * sval n y \<and> sval n x * sval n y < 2 ^ (n - 1))) \<and> (get_flag s' FLAG_OF \<longleftrightarrow> get_flag s' FLAG_CF)))"
proof (intro conjI allI impI)
  note eq = exec_mul_def act_bind_def act_then_def cpu_try_def cpu_run_def set_overflow_eq
  show "\<exists>s'. exec_mul B M_Mul i ip (s, b) = (Inr Continue, (s', b1)) \<and> acc_pair n s' = uval n (read_reg s (acc_lo n)) * uval n src \<and>
      (get_flag s' FLAG_CF \<longleftrightarrow> 2 ^ n \<le> uval n (read_reg s (acc_lo n)) * uval n src) \<and> (get_flag s' FLAG_OF \<longleftrightarrow> get_flag s' FLAG_CF)"
    using mul_wide_eq [OF assms(1,2), of src] assms(3,4) by (auto simp: eq overflow_flags acc_set_flag)
  show "\<exists>s'. exec_mul B M_Imul i ip (s, b) = (Inr Continue, (s', b1)) \<and> acc_signed n s' = sval n (read_reg s (acc_lo n)) * sval n src \<and>
      (get_flag s' FLAG_CF \<longleftrightarrow> \<not> (- (2 ^ (n - 1)) \<le> sval n (read_reg s (acc_lo n)) * sval n src \<and> sval n (read_reg s (acc_lo n)) * sval n src < 2 ^ (n - 1))) \<and>
      (get_flag s' FLAG_OF \<longleftrightarrow> get_flag s' FLAG_CF)" if "op_count i = 1"
    using imul_wide_eq [OF assms(1,2), of src] assms(3,4) that by (auto simp: eq overflow_flags acc_set_flag)
  show "\<exists>s'. exec_mul B M_Imul i ip (s, b) = (Inr Continue, (s', b3)) \<and> read_reg s' (op_register i 0) = take_bit n (word_of_int (sval n x * sval n y)) \<and>
        (get_flag s' FLAG_CF \<longleftrightarrow> \<not> (- (2 ^ (n - 1)) \<le> sval n x * sval n y \<and> sval n x * sval n y < 2 ^ (n - 1))) \<and> (get_flag s' FLAG_OF \<longleftrightarrow> get_flag s' FLAG_CF)"
    if "op_count i \<noteq> 1" "op_kind i 0 = OpRegister" "gpr_info (op_register i 0) = Some (g, n, h)"
      "read_op_sized B i (if op_count i = 3 then 1 else 0) n ip (s, b1) = (Inr x, (s, b2))"
      "read_op_sized B i (if op_count i = 3 then 2 else 1) n ip (s, b2) = (Inr y, (s, b3))" for x y b2 b3 g h
    using imul_trunc_eq [OF assms(1), of x y] assms(2-4) that
    by (auto simp: eq write_op_sized_def cpu_set_def overflow_flags read_set_flag read_write_reg)
qed

text \<open>Products of \<^verbatim>\<open>CX\<close>, with \<^verbatim>\<open>DX\<close> as further operand.\<close>

definition sample_product :: "nat \<Rightarrow> Instruction" where
  "sample_product n =
     \<lparr> mnemonic = Arith M_Imul, icode = OtherCode, has_lock_prefix = False, has_rep_prefix = False, has_repne_prefix = False,
       segment_prefix = NoReg, op_count = n,
       op_kind = (\<lambda>i. OpRegister), op_register = (\<lambda>i. if i = 0 then Reg16 CX else Reg16 DX),
       immediate8 = 0, immediate8_2nd = 0, immediate16 = 0, immediate32 = 0, immediate64 = 0, immediate8to16 = 0, immediate8to32 = 0,
       immediate8to64 = 0, immediate32to64 = 0, memory_base = NoReg, memory_index = NoReg, memory_index_scale = 1,
       memory_displacement64 = 0, memory_displ_size = 0, memory_segment = Seg DS, memory_size = UInt16, near_branch_target = 0,
       far_branch_selector = 0, far_branch16 = 0 \<rparr>"

definition sample_factors :: CpuState where
  "sample_factors = CpuState_default\<lparr>gpr := (replicate 16 0)[0 := 0x8001, 1 := 0x1000, 2 := 0xFFFF]\<rparr>"

theorem multiplication_correct_witness:
  "(\<exists>s'. exec_mul flat_bus M_Mul (sample_product 1) 0 (sample_factors, FlatTestBus_new 0) = (Inr Continue, (s', FlatTestBus_new 0)) \<and> acc_pair 16 s' = 0x8001000 \<and> get_flag s' FLAG_CF) \<and>
   (\<exists>s'. exec_mul flat_bus M_Imul (sample_product 1) 0 (sample_factors, FlatTestBus_new 0) = (Inr Continue, (s', FlatTestBus_new 0)) \<and> acc_signed 16 s' = - 32767 * 0x1000 \<and> get_flag s' FLAG_OF) \<and>
   (\<exists>s'. exec_mul flat_bus M_Imul (sample_product 2) 0 (sample_factors, FlatTestBus_new 0) = (Inr Continue, (s', FlatTestBus_new 0)) \<and> read_reg s' (Reg16 CX) = 0xF000 \<and> \<not> get_flag s' FLAG_OF)"
proof -
  let ?b = "FlatTestBus_new 0"
  have w: "op_width 16" "length (gpr sample_factors) = 16" "op_bits (sample_product k) 0 = Inr 16" for k
    by (simp_all add: op_width_def sample_factors_def op_bits_def sample_product_def reg_bits_def)
  have r: "read_op_sized flat_bus (sample_product k) j 16 0 (sample_factors, ?b) = (Inr (if j = 0 then 0x1000 else 0xFFFF), (sample_factors, ?b))" for k j
    by (simp add: read_op_sized_def sample_product_def sample_factors_def cpu_get_def read_reg_def mask_bits_def)
  have r0: "read_op_sized flat_bus (sample_product k) 0 16 0 (sample_factors, ?b) = (Inr 0x1000, (sample_factors, ?b))" for k using r [of k 0] by simp
  have v: "read_reg sample_factors (acc_lo 16) = 0x8001" by (simp add: sample_factors_def acc_lo_def read_reg_def)
  have "uval 16 0x8001 = 0x8001" "sval 16 0x8001 = - 32767" "uval 16 0x1000 = 0x1000" "sval 16 0x1000 = 0x1000" "sval 16 0xFFFF = - 1"
    "take_bit 16 (word_of_int (- 0x1000) :: u64) = 0xF000" by code_simp+
  moreover have "op_count (sample_product k) = k" "op_kind (sample_product k) 0 = OpRegister" "op_register (sample_product k) 0 = Reg16 CX" for k by (simp_all add: sample_product_def)
  ultimately show ?thesis
    using multiplication_correct [OF w(1,2) w(3) [of 1] r0 [of 1]] multiplication_correct [OF w(1,2) w(3) [of 2] r0 [of 2]] r v
    by auto
qed

definition sample_pair :: "u64 \<Rightarrow> u64 \<Rightarrow> CpuState" where
  "sample_pair a d = CpuState_default\<lparr>gpr := (replicate 16 0)[0 := a, 2 := d]\<rparr>"

text \<open>
  \<^bold>\<open>Quotients (C12).\<close> For a divisor that is not zero, \<^verbatim>\<open>DIV\<close> raises the divide error exactly when the quotient does not fit
  the operand; otherwise the registers hold the quotient and the remainder of the Euclidean equation. \<^verbatim>\<open>IDIV\<close> truncates towards
  zero and gives the remainder the sign of the dividend; the smallest dividend divided by minus one stops the program.
\<close>

theorem division_correct:
  assumes "op_width n" "length (gpr s) = 16" "uval n d \<noteq> 0"
  shows "(if 2 ^ n \<le> acc_pair n s div uval n d then div_wide n d s = Inl (Fail DivideError)
      else \<exists>s'. div_wide n d s = Inr ((), s') \<and> uint (read_reg s' (acc_lo n)) * uval n d + uint (read_reg s' (acc_hi n)) = acc_pair n s \<and>
             uint (read_reg s' (acc_hi n)) < uval n d) \<and>
    (if acc_signed n s = - (2 ^ (2 * n - 1)) \<and> sval n d = - 1 then idiv_wide n d s = Inl Panic
     else if acc_signed n s sdiv sval n d < - (2 ^ (n - 1)) \<or> 2 ^ (n - 1) \<le> acc_signed n s sdiv sval n d then idiv_wide n d s = Inl (Fail DivideError)
     else \<exists>s'. idiv_wide n d s = Inr ((), s') \<and> sval n (read_reg s' (acc_lo n)) * sval n d + sval n (read_reg s' (acc_hi n)) = acc_signed n s \<and>
            \<bar>sval n (read_reg s' (acc_hi n))\<bar> < \<bar>sval n d\<bar> \<and> 0 \<le> sval n (read_reg s' (acc_hi n)) * acc_signed n s)"
proof -
  have d: "sval n d \<noteq> 0" using uval_sval_0 [OF assms(1)] assms(3) by simp
  show ?thesis
    using div_wide_result [OF assms] idiv_wide_result [OF assms(1,2) d] by (auto simp: div_wide_eq [OF assms(1,2)] idiv_wide_eq [OF assms(1,2) d] Let_def)
qed

theorem division_correct_witness:
  "div_wide 16 1 (sample_pair 0 1) = Inl (Fail DivideError) \<and>
   (\<exists>s'. idiv_wide 16 2 (sample_pair 0xFFF9 0xFFFF) = Inr ((), s') \<and> sval 16 (read_reg s' (acc_lo 16)) * 2 + sval 16 (read_reg s' (acc_hi 16)) = - 7) \<and>
   idiv_wide 16 0xFFFF (sample_pair 0 0x8000) = Inl Panic"
proof -
  have w: "op_width 16" "length (gpr (sample_pair a b)) = 16" for a b by (simp_all add: op_width_def sample_pair_def)
  have v: "uval 16 1 \<noteq> 0" "uval 16 2 \<noteq> 0" "uval 16 0xFFFF \<noteq> 0" by code_simp+
  note division_correct [OF w v(1), of 0 1] division_correct [OF w v(2), of "0xFFF9" "0xFFFF"] division_correct [OF w v(3), of 0 "0x8000"]
  moreover have "acc_pair 16 (sample_pair 0 1) = 0x10000" "uval 16 1 = 1" "acc_signed 16 (sample_pair 0xFFF9 0xFFFF) = - 7" "sval 16 2 = 2"
    "acc_signed 16 (sample_pair 0 0x8000) = - 0x80000000" "sval 16 0xFFFF = - 1" "(- 7 :: int) sdiv 2 = - 3" by code_simp+
  ultimately show ?thesis by (auto split: if_splits)
qed

end
