(* ===== verification/CpuShift.thy ===== *)
theory CpuShift
  imports CpuProducts
begin

text \<open>
  What the shifts and rotates of \<open>CpuAlu\<close> compute: shifts are multiplications and divisions by powers of two, rotates move bits
  around the operand, with or without the carry.
\<close>

section \<open>Shifts as arithmetic\<close>

text \<open>The count an instruction uses.\<close>

definition shift_count :: "u32 \<Rightarrow> nat \<Rightarrow> nat" where
  "shift_count k n = unat (k AND count_mask n)"

lemma shift_count_less: "shift_count k n < 64" "op_width n \<Longrightarrow> n \<noteq> 64 \<Longrightarrow> shift_count k n < 32"
proof -
  have "k AND 0x3F = take_bit 6 k" "k AND 0x1F = take_bit 5 k" by (simp_all add: take_bit_eq_mask mask_eq_exp_minus_1)
  then have "unat (k AND 0x3F) < 64" "unat (k AND 0x1F) < 32"
    using take_bit_nat_less_exp [of 6 "unat k"] take_bit_nat_less_exp [of 5 "unat k"] by (simp_all add: unsigned_take_bit_eq)
  then show "shift_count k n < 64" "op_width n \<Longrightarrow> n \<noteq> 64 \<Longrightarrow> shift_count k n < 32" by (auto simp: shift_count_def count_mask_def)
qed

lemma bit0_szp: "bit (set_logic_szp f r n) 0 \<longleftrightarrow> bit f 0"
  by (simp add: set_logic_szp_def Let_def flag_bit_simps)

lemma and_one_ne: "x AND 1 \<noteq> 0 \<longleftrightarrow> bit x 0" for x :: u64
  using and_exp_eq_0_iff_not_bit [of x 0] by simp

lemma uval_push: "n \<le> 64 \<Longrightarrow> uval n (push_bit c x) = (uval n x * 2 ^ c) mod 2 ^ n"
proof -
  assume n: "n \<le> 64"
  have "uval n (push_bit c x) = take_bit n (uint (push_bit c x))" by (simp add: uval_def take_bit_eq_mod)
  also have "\<dots> = take_bit n (push_bit c (uint x))" using n by (simp add: unsigned_push_bit_eq min_def)
  also have "\<dots> = (uint x * 2 ^ c) mod 2 ^ n" by (simp add: push_bit_eq_mult take_bit_eq_mod)
  finally show ?thesis by (simp add: uval_def mod_mult_left_eq)
qed

lemma bit_uval: "bit x i \<longleftrightarrow> odd (uval n x div 2 ^ i)" if "i < n" "n \<le> 64" for x :: u64
proof -
  have "bit x i \<longleftrightarrow> bit (take_bit n x) i" using that by (simp add: bit_take_bit_iff)
  also have "\<dots> \<longleftrightarrow> bit (uval n x) i" using that by (simp add: bit_uint_iff flip: uint_take_bit)
  finally show ?thesis by (simp add: bit_iff_odd)
qed

lemma shl_result:
  assumes n: "op_width n"
  shows "uint (fst (shl v k n f)) = (uval n v * 2 ^ shift_count k n) mod 2 ^ n"
  using op_width_bounds [OF n] uval_push [of n "shift_count k n" v] uval_push [of n 0 v] uval_range [of n v]
  by (auto simp: shl_def Let_def uint_take_bit uval_push simp flip: shift_count_def)

lemma shl_carry:
  assumes n: "op_width n" and c: "shift_count k n \<noteq> 0"
  shows "\<exists>g. snd (shl v k n f) = Some g \<and> (bit g 0 \<longleftrightarrow> odd ((uval n v * 2 ^ shift_count k n) div 2 ^ n))"
proof -
  let ?c = "shift_count k n"
  note b = op_width_bounds [OF n]
  have "(?c \<le> n \<and> bit (take_bit n v) (n - ?c)) \<longleftrightarrow> odd ((uval n v * 2 ^ ?c) div 2 ^ n)"
  proof (cases "?c \<le> n")
    case True
    then have "(2 :: int) ^ n = 2 ^ (n - ?c) * 2 ^ ?c" by (simp flip: power_add)
    then have "(uval n v * 2 ^ ?c) div 2 ^ n = uval n v div 2 ^ (n - ?c)" by simp
    then show ?thesis using True c b bit_uval [of "n - ?c" n v] by (simp add: bit_take_bit_iff)
  next
    case False
    then have "(2 :: int) ^ ?c = 2 ^ (?c - n) * 2 ^ n" by (simp flip: power_add)
    then have "(uval n v * 2 ^ ?c) div 2 ^ n = uval n v * 2 ^ (?c - n)" by (simp flip: mult.assoc)
    then show ?thesis using False by simp
  qed
  then show ?thesis using c by (auto simp: shl_def Let_def bit0_szp flag_bit_simps and_one_ne bit_drop_bit_eq simp flip: shift_count_def)
qed

lemma shr_result:
  assumes n: "op_width n"
  shows "uint (fst (shr v k n f)) = uval n v div 2 ^ shift_count k n"
  by (auto simp: shr_def Let_def uint_take_bit uint_drop simp flip: shift_count_def)

lemma shr_carry:
  assumes n: "op_width n" and c: "shift_count k n \<noteq> 0" and v: "take_bit n v = v"
  shows "\<exists>g. snd (shr v k n f) = Some g \<and> (bit g 0 \<longleftrightarrow> odd (uval n v div 2 ^ (shift_count k n - 1)))"
proof -
  have "bit v (shift_count k n - 1) \<longleftrightarrow> odd (uval n v div 2 ^ (shift_count k n - 1))"
    using uint_take_bit [of n v] v shift_count_less(1) [of k n] bit_uval [of "shift_count k n - 1" 64 v] by simp
  then show ?thesis using c by (auto simp: shr_def Let_def bit0_szp flag_bit_simps and_one_ne bit_drop_bit_eq simp flip: shift_count_def)
qed

lemma div_between: "1 \<le> (p :: int) \<Longrightarrow> if 0 \<le> x then 0 \<le> x div p \<and> x div p \<le> x else x \<le> x div p \<and> x div p < 0"
  using zdiv_mono2 [of x 1 p] zdiv_mono2_neg [of x 1 p] by (auto simp: pos_imp_zdiv_nonneg_iff pos_imp_zdiv_neg_iff)

lemma sar_result:
  assumes n: "op_width n"
  shows "sval n (fst (sar v k n f)) = sval n v div 2 ^ shift_count k n"
proof (cases "shift_count k n = 0")
  case True
  then show ?thesis using op_width_bounds [OF n] by (simp add: sar_def Let_def flip: shift_count_def)
next
  case False
  let ?q = "sval n v div 2 ^ shift_count k n"
  note b = op_width_bounds [OF n]
  have s: "sint (signed_drop_bit (shift_count k n) (sign_ext_to_i128 v n)) = ?q"
    by (simp add: sint_signed_drop_bit_eq sint_sign_ext [OF n] drop_bit_eq_div)
  then have "signed_drop_bit (shift_count k n) (sign_ext_to_i128 v n) = word_of_int ?q" by (simp flip: s)
  moreover have "- (2 ^ (n - 1)) \<le> ?q" "?q < 2 ^ (n - 1)"
    using sval_range [of n v] b div_between [of "2 ^ shift_count k n" "sval n v"] by (auto split: if_splits)
  ultimately show ?thesis using False b sval_of_int [OF n, of ?q] by (simp add: sar_def Let_def ucast_word_of_int flip: shift_count_def)
qed


lemma odd_signed_div: "odd (sval n v div 2 ^ c) \<longleftrightarrow> odd (uval n v div 2 ^ c)" if "c < n"
proof -
  have "(2 :: int) ^ n = 2 * 2 ^ (n - c - 1) * 2 ^ c" using that by (simp flip: power_add power_Suc)
  then have "(uval n v - 2 ^ n) div 2 ^ c = uval n v div 2 ^ c - 2 * 2 ^ (n - c - 1)"
    using div_mult_self1 [of "2 ^ c" "uval n v" "- (2 * 2 ^ (n - c - 1))"] by (simp add: algebra_simps)
  then show ?thesis by (auto simp: sval_def Let_def)
qed

text \<open>A right shift of the sign by more than the width of a byte or a word loses the carry: the last bit shifted out is the sign.\<close>

lemma sar_carry:
  assumes n: "op_width n" and c: "shift_count k n \<noteq> 0" and v: "take_bit n v = v"
  shows "\<exists>g. snd (sar v k n f) = Some g \<and> (bit g 0 \<longleftrightarrow> shift_count k n \<le> n \<and> odd (sval n v div 2 ^ (shift_count k n - 1)))"
proof -
  let ?c = "shift_count k n"
  have "bit v (?c - 1) \<longleftrightarrow> ?c \<le> n \<and> odd (sval n v div 2 ^ (?c - 1))"
  proof (cases "?c \<le> n")
    case True
    then show ?thesis using c op_width_bounds [OF n] bit_uval [of "?c - 1" n v] odd_signed_div [of "?c - 1" n v] by simp
  next
    case False
    then show ?thesis using arg_cong [OF v, of "\<lambda>x. bit x (?c - 1)"] by (auto simp: bit_take_bit_iff)
  qed
  then show ?thesis using c v by (auto simp: sar_def Let_def bit0_szp flag_bit_simps and_one_ne bit_drop_bit_eq simp flip: shift_count_def)
qed

lemma sar_carry_lost: "sar 0x80 9 8 0 = (0xFF, Some 0x84)"
  by code_simp

section \<open>Rotates\<close>

lemma rotate_values:
  "fst (rol v k n f) = (if shift_count k n mod n = 0 then take_bit n v
     else take_bit n (push_bit (shift_count k n mod n) (take_bit n v) OR drop_bit (n - shift_count k n mod n) (take_bit n v)))"
  "fst (ror v k n f) = (if shift_count k n mod n = 0 then take_bit n v
     else take_bit n (drop_bit (shift_count k n mod n) (take_bit n v) OR push_bit (n - shift_count k n mod n) (take_bit n v)))"
  by (simp_all add: rol_def ror_def Let_def flip: shift_count_def)

lemma rotated_index: "c < n \<Longrightarrow> i < n \<Longrightarrow> (i + (n - c)) mod n = (if c \<le> i then i - c else n - c + i)"
  "c < n \<Longrightarrow> i < n \<Longrightarrow> (i + c) mod n = (if i + c < n then i + c else i + c - n)" for i c n :: nat
  by (auto simp: mod_if)

lemma rotated_back: "c < n \<Longrightarrow> i < n \<Longrightarrow> ((i + c) mod n + (n - c)) mod n = i"
  "c < n \<Longrightarrow> i < n \<Longrightarrow> ((i + (n - c)) mod n + c) mod n = i" for i c n :: nat
  by (auto simp: rotated_index mod_if)

lemma rotate_bits:
  assumes n: "op_width n" and i: "i < n"
  shows "bit (fst (rol v k n f)) i \<longleftrightarrow> bit v ((i + (n - shift_count k n mod n)) mod n)"
    "bit (fst (ror v k n f)) i \<longleftrightarrow> bit v ((i + shift_count k n mod n) mod n)"
proof -
  have n64: "0 < n" "n \<le> 64" using op_width_bounds [OF n] by auto
  define c where "c = shift_count k n mod n"
  have c: "c < n" using n64 by (simp add: c_def)
  show "bit (fst (rol v k n f)) i \<longleftrightarrow> bit v ((i + (n - shift_count k n mod n)) mod n)"
    "bit (fst (ror v k n f)) i \<longleftrightarrow> bit v ((i + shift_count k n mod n) mod n)"
    unfolding rotate_values c_def [symmetric] rotated_index [OF c i] using c i n64
    by (auto simp: bit_take_bit_iff bit_or_iff bit_push_bit_iff bit_drop_bit_eq less_diff_conv add.commute)
qed

lemma rotate_high_bits: "op_width n \<Longrightarrow> n \<le> i \<Longrightarrow> \<not> bit (fst (rol v k n f)) i \<and> \<not> bit (fst (ror v k n f)) i"
  by (auto simp: rotate_values bit_take_bit_iff bit_or_iff)

lemma ror_rol:
  assumes n: "op_width n"
  shows "fst (ror (fst (rol v k n f)) k n g) = take_bit n v \<and> fst (rol (fst (ror v k n f)) k n g) = take_bit n v"
proof -
  let ?c = "shift_count k n mod n"
  have c: "?c < n" using op_width_bounds [OF n] by simp
  have "bit (fst (ror (fst (rol v k n f)) k n g)) i \<longleftrightarrow> bit (take_bit n v) i"
    "bit (fst (rol (fst (ror v k n f)) k n g)) i \<longleftrightarrow> bit (take_bit n v) i" for i
    using c rotated_back [OF c] rotate_high_bits [OF n, of i] by (cases "i < n"; simp add: rotate_bits [OF n] bit_take_bit_iff)+
  then show ?thesis by (intro conjI bit_word_eqI) auto
qed

text \<open>The operand and the carry as \<open>n + 1\<close> bits, and the flags an instruction leaves.\<close>

definition carried :: "u64 \<Rightarrow> u64 \<Rightarrow> nat \<Rightarrow> nat \<Rightarrow> bool" where
  "carried v f n i = (if i < n then bit v i else bit f 0)"

definition flags_after :: "u64 \<Rightarrow> u64 option \<Rightarrow> u64" where
  "flags_after f g = (case g of Some g \<Rightarrow> g | None \<Rightarrow> f)"

definition rc_ext :: "u64 \<Rightarrow> u64 \<Rightarrow> nat \<Rightarrow> u128" where
  "rc_ext v f n = ucast (take_bit n v) OR push_bit n (of_bool (f AND FLAG_CF \<noteq> 0))"

lemma bit_rc_ext: "op_width n \<Longrightarrow> bit (rc_ext v f n) i \<longleftrightarrow> i \<le> n \<and> carried v f n i"
  using op_width_bounds [of n] and_one_ne [of f]
  by (auto simp: rc_ext_def carried_def bit_or_iff bit_push_bit_iff bit_unsigned_iff bit_take_bit_iff bit_1_iff RFLAGS_CF_def le_less bit_imp_le_length)

lemma mask_ext_eq: "(push_bit w 1 - 1 :: u128) = mask w"
  by (simp add: push_bit_of_1 mask_eq_exp_minus_1)

lemma rotate_carry_values:
  fixes v f :: u64 and k :: u32
  assumes "op_width n"
  defines "c \<equiv> shift_count k n mod (n + 1)"
  defines "l \<equiv> take_bit (n + 1) (push_bit c (rc_ext v f n) OR drop_bit (n + 1 - c) (rc_ext v f n))"
  defines "r \<equiv> take_bit (n + 1) (drop_bit c (rc_ext v f n) OR push_bit (n + 1 - c) (rc_ext v f n))"
  shows "c = 0 \<Longrightarrow> rcl v k n f = (take_bit n v, None)" "c = 0 \<Longrightarrow> rcr v k n f = (take_bit n v, None)"
    "c \<noteq> 0 \<Longrightarrow> fst (rcl v k n f) = take_bit n (ucast l) \<and> (bit (flags_after f (snd (rcl v k n f))) 0 \<longleftrightarrow> bit l n)"
    "c \<noteq> 0 \<Longrightarrow> fst (rcr v k n f) = take_bit n (ucast r) \<and> (bit (flags_after f (snd (rcr v k n f))) 0 \<longleftrightarrow> bit r n)"
proof -
  show "c = 0 \<Longrightarrow> rcl v k n f = (take_bit n v, None)" "c = 0 \<Longrightarrow> rcr v k n f = (take_bit n v, None)"
    by (simp_all add: c_def rcl_def rcr_def Let_def flip: shift_count_def)
  have one: "drop_bit n x AND 1 \<noteq> 0 \<longleftrightarrow> bit x n" for x :: u128
    using and_exp_eq_0_iff_not_bit [of "drop_bit n x" 0] by (simp add: bit_drop_bit_eq)
  have nz: "(shift_count k n = 0) = False" "(c = 0) = False" if "c \<noteq> 0" using that by (auto simp: c_def intro: gr0I)
  note unfold = Let_def shift_count_def [symmetric] and_mask_bits rc_ext_def [symmetric] mask_ext_eq take_bit_eq_mask [symmetric] one if_False c_def [symmetric]
  have fl: "rcl v k n f = (take_bit n (ucast l), Some (let g = or_if (bit l n) FLAG_CF (f AND NOT (FLAG_CF OR FLAG_OF))
      in if c = 1 then or_if ((drop_bit (n - 1) (take_bit n (ucast l :: u64)) AND 1) XOR of_bool (bit l n) \<noteq> 0) FLAG_OF g else g))" if "c \<noteq> 0"
    unfolding rcl_def unfold nz [OF that] l_def by (rule refl)
  have fr: "rcr v k n f = (take_bit n (ucast r), Some (let g = or_if (bit r n) FLAG_CF (f AND NOT (FLAG_CF OR FLAG_OF))
      in if c = 1 then or_if ((drop_bit (n - 1) (take_bit n (ucast r :: u64)) AND 1) XOR (drop_bit (n - 2) (take_bit n (ucast r :: u64)) AND 1) \<noteq> 0) FLAG_OF g else g))"
    if "c \<noteq> 0"
    unfolding rcr_def unfold nz [OF that] r_def by (rule refl)
  show "c \<noteq> 0 \<Longrightarrow> fst (rcl v k n f) = take_bit n (ucast l) \<and> (bit (flags_after f (snd (rcl v k n f))) 0 \<longleftrightarrow> bit l n)"
    by (simp add: fl flags_after_def Let_def flag_bit_simps)
  show "c \<noteq> 0 \<Longrightarrow> fst (rcr v k n f) = take_bit n (ucast r) \<and> (bit (flags_after f (snd (rcr v k n f))) 0 \<longleftrightarrow> bit r n)"
    by (simp add: fr flags_after_def Let_def flag_bit_simps)
qed


lemma carried_rotated:
  fixes v f :: u64 and k :: u32
  assumes n: "op_width n" and i: "i \<le> n"
  defines "c \<equiv> shift_count k n mod (n + 1)"
  shows "carried (fst (rcl v k n f)) (flags_after f (snd (rcl v k n f))) n i \<longleftrightarrow> carried v f n ((i + (n + 1 - c)) mod (n + 1))"
    "carried (fst (rcr v k n f)) (flags_after f (snd (rcr v k n f))) n i \<longleftrightarrow> carried v f n ((i + c) mod (n + 1))"
proof -
  note b = op_width_bounds [OF n]
  have c: "c < n + 1" by (simp add: c_def)
  have i': "i < n + 1" using i by simp
  define E where "E = rc_ext v f n"
  have E: "bit E j \<longleftrightarrow> j \<le> n \<and> carried v f n j" for j by (simp add: E_def bit_rc_ext [OF n])
  note vals = rotate_carry_values [OF n, of k v f, folded c_def E_def]
  have mid: "carried (take_bit n (ucast x)) g n i \<longleftrightarrow> bit x i" if "bit g 0 \<longleftrightarrow> bit x n" for x :: u128 and g
    using that i b by (auto simp: carried_def bit_take_bit_iff bit_unsigned_iff le_less)
  show "carried (fst (rcl v k n f)) (flags_after f (snd (rcl v k n f))) n i \<longleftrightarrow> carried v f n ((i + (n + 1 - c)) mod (n + 1))"
  proof (cases "c = 0")
    case True
    then show ?thesis using i b vals(1) unfolding rotated_index(1) [OF c i'] by (auto simp: flags_after_def carried_def bit_take_bit_iff)
  next
    case False
    then show ?thesis
      using vals(3) [OF False] c i b unfolding rotated_index(1) [OF c i']
      by (auto simp: mid E bit_take_bit_iff bit_or_iff bit_push_bit_iff bit_drop_bit_eq)
  qed
  show "carried (fst (rcr v k n f)) (flags_after f (snd (rcr v k n f))) n i \<longleftrightarrow> carried v f n ((i + c) mod (n + 1))"
  proof (cases "c = 0")
    case True
    then show ?thesis using i b vals(2) unfolding rotated_index(2) [OF c i'] by (auto simp: flags_after_def carried_def bit_take_bit_iff)
  next
    case False
    then show ?thesis
      using vals(4) [OF False] c i b unfolding rotated_index(2) [OF c i']
      by (auto simp: mid E bit_take_bit_iff bit_or_iff bit_push_bit_iff bit_drop_bit_eq add.commute)
  qed
qed

lemma rotate_carry_masked: "op_width n \<Longrightarrow> take_bit n (fst (rcl v k n f)) = fst (rcl v k n f) \<and> take_bit n (fst (rcr v k n f)) = fst (rcr v k n f)"
  using rotate_carry_values [of n k v f] by (cases "shift_count k n mod (n + 1) = 0") auto

lemma carried_inj:
  assumes "\<And>i. i \<le> n \<Longrightarrow> carried v f n i = carried w g n i" "take_bit n v = v"
  shows "v = take_bit n w \<and> (bit f 0 \<longleftrightarrow> bit g 0)"
proof
  show "bit f 0 \<longleftrightarrow> bit g 0" using assms(1) [of n] by (simp add: carried_def)
  have "bit v i \<longleftrightarrow> bit (take_bit n w) i" for i
    using assms(1) [of i] assms(2) [symmetric] by (cases "i < n") (auto simp: carried_def bit_take_bit_iff dest: arg_cong [where f = "\<lambda>x. bit x i"])
  then show "v = take_bit n w" by (intro bit_word_eqI) auto
qed

lemma rcr_rcl:
  assumes n: "op_width n"
  shows "let (r, g) = rcl v k n f; f' = flags_after f g; (r', g') = rcr r k n f' in r' = take_bit n v \<and> (bit (flags_after f' g') 0 \<longleftrightarrow> bit f 0)"
proof -
  let ?c = "shift_count k n mod (n + 1)"
  obtain r g where rg: "rcl v k n f = (r, g)" by (cases "rcl v k n f")
  let ?f = "flags_after f g"
  obtain r' g' where rg': "rcr r k n ?f = (r', g')" by (cases "rcr r k n ?f")
  have "carried r' (flags_after ?f g') n i = carried v f n i" if i: "i \<le> n" for i
  proof -
    have m: "(i + ?c) mod (n + 1) \<le> n" by (metis Suc_eq_plus1 less_Suc_eq_le mod_less_divisor zero_less_Suc)
    show ?thesis
      using carried_rotated(2) [OF n i, of r k ?f] carried_rotated(1) [OF n m, of v k f] rotated_back(1) [of ?c "n + 1" i] i by (simp add: rg rg')
  qed
  then show ?thesis
    using carried_inj [of n r' "flags_after ?f g'" v f] rotate_carry_masked [OF n, of r k ?f] by (simp add: rg rg')
qed

section \<open>The properties\<close>

text \<open>
  \<^bold>\<open>Shifts are arithmetic (C13).\<close> At every operand width and for every count, \<^verbatim>\<open>SHL\<close> multiplies by the power of two modulo the width,
  \<^verbatim>\<open>SHR\<close> divides the unsigned operand, and \<^verbatim>\<open>SAR\<close> divides the signed operand, rounding down. When the masked count is zero, no flags are produced.
  Otherwise the carry of \<^verbatim>\<open>SHL\<close> and \<^verbatim>\<open>SHR\<close> is the last bit shifted out; that of \<^verbatim>\<open>SAR\<close> is it as long as the count does not exceed the
  width, and is clear beyond (which only the widths 8 and 16 allow).
\<close>

theorem shifts_are_arithmetic:
  assumes n: "op_width n" and v: "take_bit n v = v"
  shows "uint (fst (shl v k n f)) = (uval n v * 2 ^ shift_count k n) mod 2 ^ n \<and>
    uint (fst (shr v k n f)) = uval n v div 2 ^ shift_count k n \<and>
    sval n (fst (sar v k n f)) = sval n v div 2 ^ shift_count k n \<and>
    (if shift_count k n = 0 then snd (shl v k n f) = None \<and> snd (shr v k n f) = None \<and> snd (sar v k n f) = None
     else (\<exists>g. snd (shl v k n f) = Some g \<and> (bit g 0 \<longleftrightarrow> odd ((uval n v * 2 ^ shift_count k n) div 2 ^ n))) \<and>
          (\<exists>g. snd (shr v k n f) = Some g \<and> (bit g 0 \<longleftrightarrow> odd (uval n v div 2 ^ (shift_count k n - 1)))) \<and>
          (\<exists>g. snd (sar v k n f) = Some g \<and> (bit g 0 \<longleftrightarrow> shift_count k n \<le> n \<and> odd (sval n v div 2 ^ (shift_count k n - 1)))))"
proof -
  have "snd (shl v k n f) = None \<and> snd (shr v k n f) = None \<and> snd (sar v k n f) = None" if "shift_count k n = 0"
    using that by (simp add: shl_def shr_def sar_def Let_def flip: shift_count_def)
  then show ?thesis
    using shl_result [OF n] shr_result [OF n] sar_result [OF n] shl_carry [OF n] shr_carry [OF n _ v] sar_carry [OF n _ v] by simp
qed

theorem shifts_are_arithmetic_witness:
  "uint (fst (shl 0x96 2 8 0)) = 0x58 \<and> uint (fst (shr 0x96 2 8 0)) = 0x25 \<and> sval 8 (fst (sar 0x96 2 8 0)) = - 27 \<and>
   (\<exists>g. snd (shr 0x96 2 8 0) = Some g \<and> bit g 0) \<and> (\<exists>g. snd (sar 0x96 2 8 0) = Some g \<and> bit g 0)"
proof -
  have "op_width 8" "take_bit 8 (0x96 :: u64) = 0x96" by (simp_all add: op_width_def take_bit_eq_mod)
  note shifts_are_arithmetic [OF this, of 2 0]
  moreover have "uval 8 0x96 = 0x96" "sval 8 0x96 = - 106" "shift_count 2 8 = 2" by code_simp+
  ultimately show ?thesis by simp
qed

text \<open>
  \<^bold>\<open>Rotates invert each other (C14).\<close> At every width and count, rotating right undoes rotating left and the other way round,
  and \<^verbatim>\<open>RCR\<close> undoes \<^verbatim>\<open>RCL\<close>: it restores both the operand and the carry flag.
\<close>

theorem rotates_invert:
  assumes n: "op_width n"
  shows "fst (ror (fst (rol v k n f)) k n g) = take_bit n v \<and> fst (rol (fst (ror v k n f)) k n g) = take_bit n v \<and>
    (let (r, g) = rcl v k n f; f' = flags_after f g; (r', g') = rcr r k n f' in r' = take_bit n v \<and> (bit (flags_after f' g') 0 \<longleftrightarrow> bit f 0))"
  using ror_rol [OF n] rcr_rcl [OF n] by blast

theorem rotates_invert_witness:
  "op_width 8 \<and> fst (ror (fst (rol 0x81 3 8 0)) 3 8 0) = 0x81 \<and> fst (rol 0x81 3 8 0) = 0x0C"
proof -
  have n: "op_width 8" by (simp add: op_width_def)
  have "take_bit 8 (0x81 :: u64) = 0x81" "fst (rol 0x81 3 8 0) = 0x0C" by code_simp+
  then show ?thesis using rotates_invert [OF n, of "0x81" 3 0 0] n by auto
qed

end
