(* ===== verification/CpuString.thy ===== *)
theory CpuString
  imports CpuData
begin

text \<open>
  The string instructions, \<^verbatim>\<open>aero-cpu-core/src/interp/tier0/ops_string.rs\<close>: moves, stores, loads, comparisons and scans of one element
  or, with a repeat prefix, of as many as the count register says. A repeated move or store takes a fast path through the bulk operations
  of the bus when the range is contiguous in linear memory and overlaps only in the harmless direction.

  Every element commits its progress to the index and count registers, so a fault in the middle can be resumed.
\<close>

section \<open>Elements and indices\<close>

datatype RepMode = RepNone | Rep | Repe | Repne

datatype AddrSize = A16 | A32 | A64

datatype StringOp = Movs | Stos | Lods | Cmps | Scas

definition BULK_THRESHOLD_BYTES :: u64 where "BULK_THRESHOLD_BYTES = 64"

definition string_op :: "StringMnemonic \<Rightarrow> StringOp \<times> nat" where
  "string_op m =
     (case m of
        M_Movsb \<Rightarrow> (Movs, 1) | M_Movsw \<Rightarrow> (Movs, 2) | M_Movsd \<Rightarrow> (Movs, 4) | M_Movsq \<Rightarrow> (Movs, 8)
      | M_Stosb \<Rightarrow> (Stos, 1) | M_Stosw \<Rightarrow> (Stos, 2) | M_Stosd \<Rightarrow> (Stos, 4) | M_Stosq \<Rightarrow> (Stos, 8)
      | M_Lodsb \<Rightarrow> (Lods, 1) | M_Lodsw \<Rightarrow> (Lods, 2) | M_Lodsd \<Rightarrow> (Lods, 4) | M_Lodsq \<Rightarrow> (Lods, 8)
      | M_Cmpsb \<Rightarrow> (Cmps, 1) | M_Cmpsw \<Rightarrow> (Cmps, 2) | M_Cmpsd \<Rightarrow> (Cmps, 4) | M_Cmpsq \<Rightarrow> (Cmps, 8)
      | M_Scasb \<Rightarrow> (Scas, 1) | M_Scasw \<Rightarrow> (Scas, 2) | M_Scasd \<Rightarrow> (Scas, 4) | M_Scasq \<Rightarrow> (Scas, 8))"

text \<open>\<^verbatim>\<open>handles\<close>, for an instruction with a string mnemonic: the other instructions with that name have vector registers.\<close>

definition handles_string :: "Instruction \<Rightarrow> bool" where
  "handles_string instr \<longleftrightarrow>
     (\<forall>i\<in>{..<op_count instr}. op_kind instr i = OpRegister \<longrightarrow> op_register instr i = NoReg \<or> \<not> isl (reg_bits (op_register instr i)))"

definition effective_rep_mode :: "StringOp \<Rightarrow> Instruction \<Rightarrow> RepMode" where
  "effective_rep_mode sop instr =
     (if \<not> has_rep_prefix instr \<and> \<not> has_repne_prefix instr then RepNone
      else if sop = Cmps \<or> sop = Scas then (if has_repne_prefix instr then Repne else Repe)
      else Rep)"

definition effective_addr_size :: "CpuState \<Rightarrow> bool \<Rightarrow> Exception + AddrSize" where
  "effective_addr_size s addr_size_override =
     (if bitness s = 16 then Inr (if addr_size_override then A32 else A16)
      else if bitness s = 32 then Inr (if addr_size_override then A16 else A32)
      else if bitness s = 64 then Inr (if addr_size_override then A32 else A64)
      else Inl InvalidOpcode)"

definition count_reg :: "AddrSize \<Rightarrow> Register" where
  "count_reg a = (case a of A16 \<Rightarrow> Reg16 CX | A32 \<Rightarrow> Reg32 ECX | A64 \<Rightarrow> Reg64 RCX)"

definition src_index_reg :: "AddrSize \<Rightarrow> Register" where
  "src_index_reg a = (case a of A16 \<Rightarrow> Reg16 SI | A32 \<Rightarrow> Reg32 ESI | A64 \<Rightarrow> Reg64 RSI)"

definition dst_index_reg :: "AddrSize \<Rightarrow> Register" where
  "dst_index_reg a = (case a of A16 \<Rightarrow> Reg16 DI | A32 \<Rightarrow> Reg32 EDI | A64 \<Rightarrow> Reg64 RDI)"

definition read_count :: "CpuState \<Rightarrow> AddrSize \<Rightarrow> u64" where "read_count s a = read_reg s (count_reg a)"
definition write_count :: "CpuState \<Rightarrow> AddrSize \<Rightarrow> u64 \<Rightarrow> CpuState" where "write_count s a v = write_reg s (count_reg a) v"
definition read_si :: "CpuState \<Rightarrow> AddrSize \<Rightarrow> u64" where "read_si s a = read_reg s (src_index_reg a)"
definition write_si :: "CpuState \<Rightarrow> AddrSize \<Rightarrow> u64 \<Rightarrow> CpuState" where "write_si s a v = write_reg s (src_index_reg a) v"
definition read_di :: "CpuState \<Rightarrow> AddrSize \<Rightarrow> u64" where "read_di s a = read_reg s (dst_index_reg a)"
definition write_di :: "CpuState \<Rightarrow> AddrSize \<Rightarrow> u64 \<Rightarrow> CpuState" where "write_di s a v = write_reg s (dst_index_reg a) v"

text \<open>The step between elements, negative if the direction flag is set.\<close>

definition step_delta :: "CpuState \<Rightarrow> nat \<Rightarrow> u64" where
  "step_delta s elem_size = (if get_flag s FLAG_DF then - of_nat elem_size else of_nat elem_size)"

definition add_wrapping :: "u64 \<Rightarrow> u64 \<Rightarrow> AddrSize \<Rightarrow> u64" where
  "add_wrapping v delta a =
     (case a of
        A16 \<Rightarrow> ucast ((ucast v :: u16) + ucast delta)
      | A32 \<Rightarrow> ucast ((ucast v :: u32) + ucast delta)
      | A64 \<Rightarrow> v + delta)"

definition advance_n :: "u64 \<Rightarrow> nat \<Rightarrow> u64 \<Rightarrow> bool \<Rightarrow> AddrSize \<Rightarrow> u64" where
  "advance_n v elem_size n df a =
     (let total_bytes = of_nat elem_size * n
      in case a of
           A16 \<Rightarrow> ucast (if df then (ucast v :: u16) - ucast total_bytes else ucast v + ucast total_bytes)
         | A32 \<Rightarrow> ucast (if df then (ucast v :: u32) - ucast total_bytes else ucast v + ucast total_bytes)
         | A64 \<Rightarrow> if df then v - total_bytes else v + total_bytes)"

definition addr_mask :: "AddrSize \<Rightarrow> u64" where
  "addr_mask a = (case a of A16 \<Rightarrow> 0xFFFF | A32 \<Rightarrow> 0xFFFFFFFF | A64 \<Rightarrow> - 1)"

definition checked_mul :: "u64 \<Rightarrow> u64 \<Rightarrow> u64 option" where
  "checked_mul x y = (if unat x * unat y < 2 ^ 64 then Some (x * y) else None)"

definition offsets_contiguous_without_wrap :: "u64 \<Rightarrow> u64 \<Rightarrow> nat \<Rightarrow> bool \<Rightarrow> AddrSize \<Rightarrow> bool" where
  "offsets_contiguous_without_wrap offset n elem_size df a \<longleftrightarrow>
     a = A64 \<or> n = 0 \<or>
     (case checked_mul (n - 1) (of_nat elem_size) of
        None \<Rightarrow> False
      | Some span \<Rightarrow>
          if df then span \<le> offset
          else (case checked_add offset span of None \<Rightarrow> False | Some e \<Rightarrow> e \<le> addr_mask a))"

definition linear_range_contiguous :: "CpuState \<Rightarrow> u64 \<Rightarrow> u64 \<Rightarrow> bool" where
  "linear_range_contiguous s start total_bytes \<longleftrightarrow>
     total_bytes = 0 \<or>
     (let span = total_bytes - 1
      in (cpu_mode s \<noteq> Long \<longrightarrow> (case checked_add start span of Some e \<Rightarrow> e \<le> 0xFFFFFFFF | None \<Rightarrow> False)) \<and>
         (\<not> a20_enabled s \<and> (cpu_mode s = Real \<or> cpu_mode s = Vm86) \<longrightarrow>
            (case checked_add (start AND 0xFFFFF) span of Some e \<Rightarrow> e \<le> 0xFFFFF | None \<Rightarrow> False)))"

definition src_segment :: "Instruction \<Rightarrow> Register" where
  "src_segment instr = (if segment_prefix instr = NoReg then Seg DS else segment_prefix instr)"

definition linear :: "CpuState \<Rightarrow> Register \<Rightarrow> u64 \<Rightarrow> u64" where
  "linear s sg offset = apply_a20 s (seg_base_reg s sg + offset)"

definition string_read :: "'b CpuBus \<Rightarrow> CpuState \<Rightarrow> u64 \<Rightarrow> nat \<Rightarrow> ('b, u64) action" where
  "string_read B s addr sz =
     (if sz = 1 then act_map ucast (cb_read_u8 B (apply_a20 s addr))
      else if sz = 2 then act_map ucast (read_u16_wrapped B s addr)
      else if sz = 4 then act_map ucast (read_u32_wrapped B s addr)
      else if sz = 8 then read_u64_wrapped B s addr
      else act_fail InvalidOpcode)"

definition string_write :: "'b CpuBus \<Rightarrow> CpuState \<Rightarrow> u64 \<Rightarrow> nat \<Rightarrow> u64 \<Rightarrow> ('b, unit) action" where
  "string_write B s addr sz v =
     (if sz = 1 then cb_write_u8 B (apply_a20 s addr) (ucast v)
      else if sz = 2 then write_u16_wrapped B s addr (ucast v)
      else if sz = 4 then write_u32_wrapped B s addr (ucast v)
      else if sz = 8 then write_u64_wrapped B s addr v
      else act_fail InvalidOpcode)"

text \<open>The accumulator of the size of an element.\<close>

definition string_acc :: "nat \<Rightarrow> Exception + Register" where
  "string_acc sz =
     (if sz = 1 then Inr (Reg8 AL) else if sz = 2 then Inr (Reg16 AX) else if sz = 4 then Inr (Reg32 EAX)
      else if sz = 8 then Inr (Reg64 RAX) else Inl InvalidOpcode)"

definition stos_pattern :: "CpuState \<Rightarrow> nat \<Rightarrow> Exception + u8 list" where
  "stos_pattern s sz = map_sum id (\<lambda>r. to_le_bytes 8 (read_reg s r)) (string_acc sz)"

section \<open>The instructions\<close>

text \<open>
  The loop of a repeated instruction: \<open>n\<close> elements are left. After an element the count is written; then \<open>stop\<close> decides
  whether the loop is left early. Without a prefix, one element is processed and the count not touched.
\<close>

fun rep_loop :: "('b, unit) cpu_action \<Rightarrow> (CpuState \<Rightarrow> bool) \<Rightarrow> AddrSize \<Rightarrow> nat \<Rightarrow> ('b, unit) cpu_action" where
  "rep_loop body stop a 0 = act_return ()"
| "rep_loop body stop a (Suc n) =
     act_then body
       (act_then (cpu_set (\<lambda>s. write_count s a (of_nat n)))
          (act_bind (cpu_get stop) (\<lambda>left. if left then act_return () else rep_loop body stop a n)))"

definition repeat_element :: "RepMode \<Rightarrow> ('b, unit) cpu_action \<Rightarrow> (CpuState \<Rightarrow> bool) \<Rightarrow> AddrSize \<Rightarrow> u64 \<Rightarrow> ('b, unit) cpu_action" where
  "repeat_element rep body stop a n = (if rep = RepNone then body else rep_loop body stop a (unat n))"

definition rep_stop :: "RepMode \<Rightarrow> CpuState \<Rightarrow> bool" where
  "rep_stop rep s = (case rep of Repe \<Rightarrow> \<not> get_flag s FLAG_ZF | Repne \<Rightarrow> get_flag s FLAG_ZF | _ \<Rightarrow> False)"

definition movs_element :: "'b CpuBus \<Rightarrow> Register \<Rightarrow> nat \<Rightarrow> AddrSize \<Rightarrow> u64 \<Rightarrow> ('b, unit) cpu_action" where
  "movs_element B src_seg sz a delta =
     act_bind (cpu_get (\<lambda>s. (read_si s a, read_di s a))) (\<lambda>(si, di).
     act_bind (cpu_bus (\<lambda>s. string_read B s (linear s src_seg si) sz)) (\<lambda>v.
     act_then (cpu_bus (\<lambda>s. string_write B s (linear s (Seg ES) di) sz v))
       (act_then (cpu_set (\<lambda>s. write_si s a (add_wrapping si delta a)))
          (cpu_set (\<lambda>s. write_di s a (add_wrapping di delta a))))))"

text \<open>The fast path of \<^verbatim>\<open>REP MOVS\<close>; the result says whether the copy was done. On the host, \<^verbatim>\<open>usize\<close> has 64 bits.\<close>

definition overlap_hazard :: "bool \<Rightarrow> u64 \<Rightarrow> u64 \<Rightarrow> u64 \<Rightarrow> u64 \<Rightarrow> bool" where
  "overlap_hazard df src_start dst_start src_end dst_end \<longleftrightarrow>
     (src_start < dst_end \<and> dst_start < src_end) \<and>
     (if \<not> df then src_start < dst_start \<and> dst_start < src_end else dst_start < src_start \<and> src_start < dst_end)"

definition range_start :: "u64 \<Rightarrow> nat \<Rightarrow> u64 \<Rightarrow> bool \<Rightarrow> AddrSize \<Rightarrow> u64" where
  "range_start offset elem_size n df a = (if df then advance_n offset elem_size (n - 1) True a else offset)"

definition movs_fast :: "'b CpuBus \<Rightarrow> Register \<Rightarrow> nat \<Rightarrow> AddrSize \<Rightarrow> bool \<Rightarrow> u64 \<Rightarrow> ('b, bool) cpu_action" where
  "movs_fast B src_seg sz a df n =
     act_bind (cpu_get (\<lambda>s. s)) (\<lambda>s.
     let si = read_si s a; di = read_di s a
     in if \<not> (offsets_contiguous_without_wrap si n sz df a \<and> offsets_contiguous_without_wrap di n sz df a) then act_return False
        else case checked_mul (of_nat sz) n of
          None \<Rightarrow> act_return False
        | Some total_bytes \<Rightarrow>
            if \<not> BULK_THRESHOLD_BYTES \<le> total_bytes then act_return False
            else
              let src_start = linear s src_seg (range_start si sz n df a);
                  dst_start = linear s (Seg ES) (range_start di sz n df a)
              in if \<not> (linear_range_contiguous s src_start total_bytes \<and> linear_range_contiguous s dst_start total_bytes) then act_return False
                 else case (checked_add src_start total_bytes, checked_add dst_start total_bytes) of
                   (Some src_end, Some dst_end) \<Rightarrow>
                     if overlap_hazard df src_start dst_start src_end dst_end then act_return False
                     else
                       act_bind (cpu_bus (\<lambda>_. cb_bulk_copy B dst_start src_start (unat total_bytes))) (\<lambda>copied.
                       if \<not> copied then act_return False
                       else
                         act_then (cpu_set (\<lambda>s. write_si s a (advance_n si sz n df a)))
                           (act_then (cpu_set (\<lambda>s. write_di s a (advance_n di sz n df a)))
                              (act_then (cpu_set (\<lambda>s. write_count s a 0)) (act_return True))))
                 | _ \<Rightarrow> act_return False)"

definition exec_movs :: "'b CpuBus \<Rightarrow> Instruction \<Rightarrow> nat \<Rightarrow> AddrSize \<Rightarrow> RepMode \<Rightarrow> ('b, unit) cpu_action" where
  "exec_movs B instr sz a rep =
     act_bind (cpu_get (\<lambda>s. (step_delta s sz, get_flag s FLAG_DF, read_count s a))) (\<lambda>(delta, df, n).
     if rep \<noteq> RepNone \<and> n = 0 then act_return ()
     else
       act_bind (if rep \<noteq> RepNone \<and> cb_supports_bulk_copy B then movs_fast B (src_segment instr) sz a df n else act_return False) (\<lambda>copied.
       if copied then act_return ()
       else repeat_element rep (movs_element B (src_segment instr) sz a delta) (rep_stop RepNone) a n))"

definition stos_element :: "'b CpuBus \<Rightarrow> nat \<Rightarrow> AddrSize \<Rightarrow> u64 \<Rightarrow> ('b, unit) cpu_action" where
  "stos_element B sz a delta =
     act_bind (cpu_get (\<lambda>s. read_di s a)) (\<lambda>di.
     act_bind (cpu_try (\<lambda>_. string_acc sz)) (\<lambda>acc.
     act_then (cpu_bus (\<lambda>s. string_write B s (linear s (Seg ES) di) sz (read_reg s acc)))
       (cpu_set (\<lambda>s. write_di s a (add_wrapping di delta a)))))"

definition stos_fast :: "'b CpuBus \<Rightarrow> nat \<Rightarrow> AddrSize \<Rightarrow> bool \<Rightarrow> u64 \<Rightarrow> ('b, bool) cpu_action" where
  "stos_fast B sz a df n =
     act_bind (cpu_get (\<lambda>s. s)) (\<lambda>s.
     let di = read_di s a
     in if \<not> offsets_contiguous_without_wrap di n sz df a then act_return False
        else case checked_mul (of_nat sz) n of
          None \<Rightarrow> act_return False
        | Some total_bytes \<Rightarrow>
            if \<not> BULK_THRESHOLD_BYTES \<le> total_bytes then act_return False
            else
              let dst_start = linear s (Seg ES) (range_start di sz n df a)
              in act_bind (cpu_try (\<lambda>s. stos_pattern s sz)) (\<lambda>pattern.
                 if \<not> linear_range_contiguous s dst_start total_bytes then act_return False
                 else
                   act_bind (cpu_bus (\<lambda>_. cb_bulk_set B dst_start (take sz pattern) (unat n))) (\<lambda>filled.
                   if \<not> filled then act_return False
                   else
                     act_then (cpu_set (\<lambda>s. write_di s a (advance_n di sz n df a)))
                       (act_then (cpu_set (\<lambda>s. write_count s a 0)) (act_return True)))))"

definition exec_stos :: "'b CpuBus \<Rightarrow> nat \<Rightarrow> AddrSize \<Rightarrow> RepMode \<Rightarrow> ('b, unit) cpu_action" where
  "exec_stos B sz a rep =
     act_bind (cpu_get (\<lambda>s. (step_delta s sz, get_flag s FLAG_DF, read_count s a))) (\<lambda>(delta, df, n).
     if rep \<noteq> RepNone \<and> n = 0 then act_return ()
     else
       act_bind (if rep \<noteq> RepNone \<and> cb_supports_bulk_set B then stos_fast B sz a df n else act_return False) (\<lambda>filled.
       if filled then act_return () else repeat_element rep (stos_element B sz a delta) (rep_stop RepNone) a n))"

definition lods_element :: "'b CpuBus \<Rightarrow> Register \<Rightarrow> nat \<Rightarrow> AddrSize \<Rightarrow> u64 \<Rightarrow> ('b, unit) cpu_action" where
  "lods_element B src_seg sz a delta =
     act_bind (cpu_get (\<lambda>s. read_si s a)) (\<lambda>si.
     act_bind (cpu_bus (\<lambda>s. string_read B s (linear s src_seg si) sz)) (\<lambda>v.
     act_bind (cpu_try (\<lambda>_. string_acc sz)) (\<lambda>acc.
     act_then (cpu_set (\<lambda>s. write_reg s acc v)) (cpu_set (\<lambda>s. write_si s a (add_wrapping si delta a))))))"

definition exec_lods :: "'b CpuBus \<Rightarrow> Instruction \<Rightarrow> nat \<Rightarrow> AddrSize \<Rightarrow> RepMode \<Rightarrow> ('b, unit) cpu_action" where
  "exec_lods B instr sz a rep =
     act_bind (cpu_get (\<lambda>s. (step_delta s sz, read_count s a))) (\<lambda>(delta, n).
     if rep \<noteq> RepNone \<and> n = 0 then act_return ()
     else repeat_element rep (lods_element B (src_segment instr) sz a delta) (rep_stop RepNone) a n)"

definition cmps_element :: "'b CpuBus \<Rightarrow> Register \<Rightarrow> nat \<Rightarrow> AddrSize \<Rightarrow> u64 \<Rightarrow> ('b, unit) cpu_action" where
  "cmps_element B src_seg sz a delta =
     act_bind (cpu_get (\<lambda>s. (read_si s a, read_di s a))) (\<lambda>(si, di).
     act_bind (cpu_bus (\<lambda>s. string_read B s (linear s src_seg si) sz)) (\<lambda>src_val.
     act_bind (cpu_bus (\<lambda>s. string_read B s (linear s (Seg ES) di) sz)) (\<lambda>dst_val.
     act_then (cpu_set (\<lambda>s. set_rflags s (snd (sub_with_flags s src_val dst_val 0 (sz * 8)))))
       (act_then (cpu_set (\<lambda>s. write_si s a (add_wrapping si delta a)))
          (cpu_set (\<lambda>s. write_di s a (add_wrapping di delta a)))))))"

definition exec_cmps :: "'b CpuBus \<Rightarrow> Instruction \<Rightarrow> nat \<Rightarrow> AddrSize \<Rightarrow> RepMode \<Rightarrow> ('b, unit) cpu_action" where
  "exec_cmps B instr sz a rep =
     act_bind (cpu_get (\<lambda>s. (step_delta s sz, read_count s a))) (\<lambda>(delta, n).
     if rep \<noteq> RepNone \<and> n = 0 then act_return ()
     else repeat_element rep (cmps_element B (src_segment instr) sz a delta) (rep_stop rep) a n)"

definition scas_element :: "'b CpuBus \<Rightarrow> nat \<Rightarrow> AddrSize \<Rightarrow> u64 \<Rightarrow> ('b, unit) cpu_action" where
  "scas_element B sz a delta =
     act_bind (cpu_get (\<lambda>s. read_di s a)) (\<lambda>di.
     act_bind (cpu_bus (\<lambda>s. string_read B s (linear s (Seg ES) di) sz)) (\<lambda>mem_val.
     act_bind (cpu_try (\<lambda>_. string_acc sz)) (\<lambda>acc.
     act_then (cpu_set (\<lambda>s. set_rflags s (snd (sub_with_flags s (read_reg s acc) mem_val 0 (sz * 8)))))
       (cpu_set (\<lambda>s. write_di s a (add_wrapping di delta a))))))"

definition exec_scas :: "'b CpuBus \<Rightarrow> nat \<Rightarrow> AddrSize \<Rightarrow> RepMode \<Rightarrow> ('b, unit) cpu_action" where
  "exec_scas B sz a rep =
     act_bind (cpu_get (\<lambda>s. (step_delta s sz, read_count s a))) (\<lambda>(delta, n).
     if rep \<noteq> RepNone \<and> n = 0 then act_return ()
     else repeat_element rep (scas_element B sz a delta) (rep_stop rep) a n)"

definition exec_string :: "'b CpuBus \<Rightarrow> StringMnemonic \<Rightarrow> Instruction \<Rightarrow> bool \<Rightarrow> ('b, ExecOutcome) cpu_action" where
  "exec_string B m instr addr_size_override =
     act_bind (cpu_try (\<lambda>s. effective_addr_size s addr_size_override)) (\<lambda>a.
     let (sop, sz) = string_op m; rep = effective_rep_mode sop instr
     in act_then
          (case sop of
             Movs \<Rightarrow> exec_movs B instr sz a rep
           | Stos \<Rightarrow> exec_stos B sz a rep
           | Lods \<Rightarrow> exec_lods B instr sz a rep
           | Cmps \<Rightarrow> exec_cmps B instr sz a rep
           | Scas \<Rightarrow> exec_scas B sz a rep)
          (act_return Continue))"

end
