(* ===== verification/PagingBus.thy ===== *)
theory PagingBus
  imports CpuBus PhysBus
begin

text \<open>
  The bus of the processor over paged memory, \<^verbatim>\<open>aero-cpu-core/src/paging_bus.rs\<close>: linear addresses go through the MMU of theory
  \<open>Mmu\<close> to the physical bus of theory \<open>PhysBus\<close>; accesses that cross a page are split, writes are translated in full before the
  first byte is written, and instruction fetches remember the page of the last one.

  With any paging mode, an access that fails changes nothing but accessed and dirty bits (the locale \<open>fault_safe_bus\<close>); without
  paging, the bus is a memory of bytes (the locale \<open>linear_bus\<close>). The bulk operations probe the translations of all pages first and decline if
  one fails.
\<close>

section \<open>The paging bus\<close>

text \<open>
  The trait \<^verbatim>\<open>MemoryBus\<close> of \<^verbatim>\<open>aero-mmu\<close> with the operations beside those of the walkers, and the trait \<^verbatim>\<open>IoBus\<close>.
\<close>

record 'm mem_ops =
  mo_walk :: "'m page_bus"
  mo_read_u8 :: "'m \<Rightarrow> u64 \<Rightarrow> u8 \<times> 'm"
  mo_read_u16 :: "'m \<Rightarrow> u64 \<Rightarrow> u16 \<times> 'm"
  mo_read_bytes :: "'m \<Rightarrow> u64 \<Rightarrow> u8 list \<Rightarrow> u8 list \<times> 'm"
  mo_write_u8 :: "'m \<Rightarrow> u64 \<Rightarrow> u8 \<Rightarrow> 'm"
  mo_write_u16 :: "'m \<Rightarrow> u64 \<Rightarrow> u16 \<Rightarrow> 'm"
  mo_write_bytes :: "'m \<Rightarrow> u64 \<Rightarrow> u8 list \<Rightarrow> 'm"

record 'i IoBus =
  iob_read :: "u16 \<Rightarrow> u32 \<Rightarrow> ('i, u64) action"
  iob_write :: "u16 \<Rightarrow> u32 \<Rightarrow> u64 \<Rightarrow> ('i, unit) action"

definition NoIo :: "unit IoBus" where
  "NoIo = \<lparr> iob_read = (\<lambda>_ _. act_return 0), iob_write = (\<lambda>_ _ _. act_return ()) \<rparr>"

text \<open>The buffers \<^verbatim>\<open>write_chunks\<close> and \<^verbatim>\<open>scratch\<close> are cleared before every use and left out.\<close>

record ('m, 'i) PagingBus =
  pb_mmu :: Mmu
  pb_phys :: 'm
  pb_io :: 'i
  pb_cpl :: u8
  fetch_page :: "(u64 \<times> u64) option"

definition PAGE_SIZE :: u64 where "PAGE_SIZE = 4096"

definition with_mmu_and_io :: "Mmu \<Rightarrow> 'm \<Rightarrow> 'i \<Rightarrow> ('m, 'i) PagingBus" where
  "with_mmu_and_io mmu m i = \<lparr> pb_mmu = mmu, pb_phys = m, pb_io = i, pb_cpl = 0, fetch_page = None \<rparr>"

definition new_with_io :: "'m \<Rightarrow> 'i \<Rightarrow> ('m, 'i) PagingBus" where
  "new_with_io m i = with_mmu_and_io Mmu_new m i"

definition PagingBus_new :: "'m \<Rightarrow> ('m, unit) PagingBus" where
  "PagingBus_new m = new_with_io m ()"

text \<open>An operation of the physical bus: it always returns.\<close>

definition on_phys :: "('m \<Rightarrow> 'a \<times> 'm) \<Rightarrow> (('m, 'i) PagingBus, 'a) action" where
  "on_phys f pb = (case f (pb_phys pb) of (x, m) \<Rightarrow> (Inr x, pb\<lparr>pb_phys := m\<rparr>))"

definition pb_translate :: "'m mem_ops \<Rightarrow> bool \<Rightarrow> u64 \<Rightarrow> AccessType \<Rightarrow> (('m, 'i) PagingBus, u64) action" where
  "pb_translate P cow vaddr access pb =
     (case translate (mo_walk P) cow (pb_mmu pb) (pb_phys pb) vaddr access (pb_cpl pb) of
        (r, mmu', m') \<Rightarrow>
          (case r of
             Inr paddr \<Rightarrow> Inr paddr
           | Inl (PageFaultAt pf) \<Rightarrow> Inl (Fail (PageFaultEx (pf_addr pf) (error_code pf)))
           | Inl (NonCanonical _) \<Rightarrow> Inl (Fail gp0),
           pb\<lparr>pb_mmu := mmu', pb_phys := m'\<rparr>))"

text \<open>The bytes of a page from an address on, as many as are wanted.\<close>

definition page_chunk :: "u64 \<Rightarrow> nat \<Rightarrow> nat" where
  "page_chunk addr n = min (unat PAGE_SIZE - unat (addr AND (PAGE_SIZE - 1))) n"

text \<open>The loops over pages; the fuel is the number of bytes, and every turn takes at least one.\<close>

fun read_access_loop :: "'m mem_ops \<Rightarrow> bool \<Rightarrow> u64 \<Rightarrow> nat \<Rightarrow> AccessType \<Rightarrow> nat \<Rightarrow> u8 list \<Rightarrow> nat \<Rightarrow> (('m, 'i) PagingBus, u8 list) action" where
  "read_access_loop P cow vaddr n access offset dst fuel =
     (if \<not> offset < n then act_return dst
      else case fuel of
        0 \<Rightarrow> (\<lambda>pb. (Inl Diverge, pb))
      | Suc fuel \<Rightarrow>
          (let addr = vaddr + of_nat offset
           in act_bind (pb_translate P cow addr access) (\<lambda>paddr.
              let chunk_len = page_chunk addr (n - offset)
              in act_bind (on_phys (\<lambda>m. mo_read_bytes P m paddr (replicate chunk_len 0))) (\<lambda>bs.
                 read_access_loop P cow vaddr n access (offset + chunk_len) (dst @ bs) fuel))))"

definition read_bytes_access :: "'m mem_ops \<Rightarrow> bool \<Rightarrow> u64 \<Rightarrow> nat \<Rightarrow> AccessType \<Rightarrow> (('m, 'i) PagingBus, u8 list) action" where
  "read_bytes_access P cow vaddr n access =
     (if n = 0 then act_return [] else read_access_loop P cow vaddr n access 0 [] n)"

fun translate_chunks :: "'m mem_ops \<Rightarrow> bool \<Rightarrow> u64 \<Rightarrow> nat \<Rightarrow> AccessType \<Rightarrow> nat \<Rightarrow> (u64 \<times> nat \<times> nat) list \<Rightarrow> nat \<Rightarrow>
    (('m, 'i) PagingBus, (u64 \<times> nat \<times> nat) list) action" where
  "translate_chunks P cow vaddr n access offset chs fuel =
     (if \<not> offset < n then act_return chs
      else case fuel of
        0 \<Rightarrow> (\<lambda>pb. (Inl Diverge, pb))
      | Suc fuel \<Rightarrow>
          (let addr = vaddr + of_nat offset
           in act_bind (pb_translate P cow addr access) (\<lambda>paddr.
              let chunk_len = page_chunk addr (n - offset)
              in translate_chunks P cow vaddr n access (offset + chunk_len) (chs @ [(paddr, chunk_len, offset)]) fuel)))"

definition write_chunks :: "'m mem_ops \<Rightarrow> u8 list \<Rightarrow> (u64 \<times> nat \<times> nat) list \<Rightarrow> 'm \<Rightarrow> 'm" where
  "write_chunks P src = fold (\<lambda>(paddr, n, src_off) m. mo_write_bytes P m paddr (take n (drop src_off src)))"

definition write_bytes_access :: "'m mem_ops \<Rightarrow> bool \<Rightarrow> u64 \<Rightarrow> u8 list \<Rightarrow> AccessType \<Rightarrow> (('m, 'i) PagingBus, unit) action" where
  "write_bytes_access P cow vaddr src access =
     (if src = [] then act_return ()
      else act_bind (translate_chunks P cow vaddr (length src) access 0 [] (length src)) (\<lambda>chs.
           on_phys (\<lambda>m. ((), write_chunks P src chs m))))"

definition read_u8_access :: "'m mem_ops \<Rightarrow> bool \<Rightarrow> u64 \<Rightarrow> AccessType \<Rightarrow> (('m, 'i) PagingBus, u8) action" where
  "read_u8_access P cow vaddr access = act_bind (pb_translate P cow vaddr access) (\<lambda>paddr. on_phys (\<lambda>m. mo_read_u8 P m paddr))"

text \<open>An integer of \<open>n\<close> bytes: one access when it stays inside a page, otherwise through its bytes.\<close>

definition read_int_access :: "nat \<Rightarrow> ('m \<Rightarrow> u64 \<Rightarrow> 'a::len word \<times> 'm) \<Rightarrow> 'm mem_ops \<Rightarrow> bool \<Rightarrow> u64 \<Rightarrow> AccessType \<Rightarrow> (('m, 'i) PagingBus, 'a word) action" where
  "read_int_access n rd P cow vaddr access =
     (if vaddr AND (PAGE_SIZE - 1) \<le> PAGE_SIZE - of_nat n
      then act_bind (pb_translate P cow vaddr access) (\<lambda>paddr. on_phys (\<lambda>m. rd m paddr))
      else act_map from_le_bytes (read_bytes_access P cow vaddr n access))"

definition read_u16_access :: "'m mem_ops \<Rightarrow> bool \<Rightarrow> u64 \<Rightarrow> AccessType \<Rightarrow> (('m, 'i) PagingBus, u16) action" where
  "read_u16_access P = read_int_access 2 (mo_read_u16 P) P"
definition read_u32_access :: "'m mem_ops \<Rightarrow> bool \<Rightarrow> u64 \<Rightarrow> AccessType \<Rightarrow> (('m, 'i) PagingBus, u32) action" where
  "read_u32_access P = read_int_access 4 (bus_read_u32 (mo_walk P)) P"
definition read_u64_access :: "'m mem_ops \<Rightarrow> bool \<Rightarrow> u64 \<Rightarrow> AccessType \<Rightarrow> (('m, 'i) PagingBus, u64) action" where
  "read_u64_access P = read_int_access 8 (bus_read_u64 (mo_walk P)) P"
definition read_u128_access :: "'m mem_ops \<Rightarrow> bool \<Rightarrow> u64 \<Rightarrow> AccessType \<Rightarrow> (('m, 'i) PagingBus, u128) action" where
  "read_u128_access P cow vaddr access = act_map from_le_bytes (read_bytes_access P cow vaddr 16 access)"

definition write_u8_access :: "'m mem_ops \<Rightarrow> bool \<Rightarrow> u64 \<Rightarrow> AccessType \<Rightarrow> u8 \<Rightarrow> (('m, 'i) PagingBus, unit) action" where
  "write_u8_access P cow vaddr access v =
     act_bind (pb_translate P cow vaddr access) (\<lambda>paddr. on_phys (\<lambda>m. ((), mo_write_u8 P m paddr v)))"

definition write_int_access :: "nat \<Rightarrow> ('m \<Rightarrow> u64 \<Rightarrow> 'a::len word \<Rightarrow> 'm) \<Rightarrow> 'm mem_ops \<Rightarrow> bool \<Rightarrow> u64 \<Rightarrow> AccessType \<Rightarrow> 'a word \<Rightarrow> (('m, 'i) PagingBus, unit) action" where
  "write_int_access n wr P cow vaddr access v =
     (if vaddr AND (PAGE_SIZE - 1) \<le> PAGE_SIZE - of_nat n
      then act_bind (pb_translate P cow vaddr access) (\<lambda>paddr. on_phys (\<lambda>m. ((), wr m paddr v)))
      else write_bytes_access P cow vaddr (to_le_bytes n v) access)"

definition write_u16_access :: "'m mem_ops \<Rightarrow> bool \<Rightarrow> u64 \<Rightarrow> AccessType \<Rightarrow> u16 \<Rightarrow> (('m, 'i) PagingBus, unit) action" where
  "write_u16_access P = write_int_access 2 (mo_write_u16 P) P"
definition write_u32_access :: "'m mem_ops \<Rightarrow> bool \<Rightarrow> u64 \<Rightarrow> AccessType \<Rightarrow> u32 \<Rightarrow> (('m, 'i) PagingBus, unit) action" where
  "write_u32_access P = write_int_access 4 (bus_write_u32 (mo_walk P)) P"
definition write_u64_access :: "'m mem_ops \<Rightarrow> bool \<Rightarrow> u64 \<Rightarrow> AccessType \<Rightarrow> u64 \<Rightarrow> (('m, 'i) PagingBus, unit) action" where
  "write_u64_access P = write_int_access 8 (bus_write_u64 (mo_walk P)) P"
definition write_u128_access :: "'m mem_ops \<Rightarrow> bool \<Rightarrow> u64 \<Rightarrow> AccessType \<Rightarrow> u128 \<Rightarrow> (('m, 'i) PagingBus, unit) action" where
  "write_u128_access P cow vaddr access v = write_bytes_access P cow vaddr (to_le_bytes 16 v) access"

text \<open>\<^verbatim>\<open>atomic_rmw\<close>: the read has write intent, and a value that does not change is not written.\<close>

definition pb_atomic_rmw :: "(u64 \<Rightarrow> AccessType \<Rightarrow> (('m, 'i) PagingBus, 'a::len word) action) \<Rightarrow> (u64 \<Rightarrow> AccessType \<Rightarrow> 'a word \<Rightarrow> (('m, 'i) PagingBus, unit) action) \<Rightarrow>
    u64 \<Rightarrow> ('a word \<Rightarrow> 'a word) \<Rightarrow> (('m, 'i) PagingBus, 'a word) action" where
  "pb_atomic_rmw rd wr vaddr f =
     act_bind (rd vaddr Write) (\<lambda>old.
     if f old \<noteq> old then act_bind (wr vaddr Write (f old)) (\<lambda>_. act_return old) else act_return old)"

fun preflight_loop :: "'m mem_ops \<Rightarrow> bool \<Rightarrow> u64 \<Rightarrow> nat \<Rightarrow> nat \<Rightarrow> nat \<Rightarrow> (('m, 'i) PagingBus, unit) action" where
  "preflight_loop P cow vaddr n offset fuel =
     (if \<not> offset < n then act_return ()
      else case fuel of
        0 \<Rightarrow> (\<lambda>pb. (Inl Diverge, pb))
      | Suc fuel \<Rightarrow>
          (let addr = vaddr + of_nat offset
           in act_bind (pb_translate P cow addr Write) (\<lambda>_.
              let chunk_len = page_chunk addr (n - offset)
              in preflight_loop P cow vaddr n (offset + chunk_len) fuel)))"

definition pb_preflight :: "'m mem_ops \<Rightarrow> bool \<Rightarrow> u64 \<Rightarrow> nat \<Rightarrow> (('m, 'i) PagingBus, unit) action" where
  "pb_preflight P cow vaddr n = (if n = 0 then act_return () else preflight_loop P cow vaddr n 0 n)"

text \<open>The bulk operations: a probe of the translations of a range, the copy in either direction, the fill with a pattern.\<close>

fun probe_loop :: "'m mem_ops \<Rightarrow> u64 \<Rightarrow> nat \<Rightarrow> AccessType \<Rightarrow> nat \<Rightarrow> nat \<Rightarrow> (('m, 'i) PagingBus, bool) action" where
  "probe_loop P vaddr n access offset fuel pb =
     (if \<not> offset < n then (Inr True, pb)
      else case fuel of
        0 \<Rightarrow> (Inl Diverge, pb)
      | Suc fuel \<Rightarrow>
          (case checked_add vaddr (of_nat offset) of
             None \<Rightarrow> (Inr False, pb)
           | Some addr \<Rightarrow>
               (case translate_probe (mo_walk P) (pb_mmu pb) (pb_phys pb) addr access (pb_cpl pb) of
                  (Inl _, m) \<Rightarrow> (Inr False, pb\<lparr>pb_phys := m\<rparr>)
                | (Inr _, m) \<Rightarrow> probe_loop P vaddr n access (offset + page_chunk addr (n - offset)) fuel (pb\<lparr>pb_phys := m\<rparr>))))"

definition preflight_range_probe :: "'m mem_ops \<Rightarrow> u64 \<Rightarrow> nat \<Rightarrow> AccessType \<Rightarrow> (('m, 'i) PagingBus, bool) action" where
  "preflight_range_probe P vaddr n access = (if n = 0 then act_return True else probe_loop P vaddr n access 0 n)"

definition copy_chunk :: "'m mem_ops \<Rightarrow> bool \<Rightarrow> u64 \<Rightarrow> u64 \<Rightarrow> nat \<Rightarrow> (('m, 'i) PagingBus, unit) action" where
  "copy_chunk P cow dst_addr src_addr n =
     act_bind (pb_translate P cow src_addr Read) (\<lambda>src_paddr.
     act_bind (pb_translate P cow dst_addr Write) (\<lambda>dst_paddr.
     act_bind (on_phys (\<lambda>m. mo_read_bytes P m src_paddr (replicate n 0))) (\<lambda>bs.
     on_phys (\<lambda>m. ((), mo_write_bytes P m dst_paddr bs)))))"

fun copy_backward :: "'m mem_ops \<Rightarrow> bool \<Rightarrow> u64 \<Rightarrow> u64 \<Rightarrow> nat \<Rightarrow> nat \<Rightarrow> (('m, 'i) PagingBus, unit) action" where
  "copy_backward P cow dst src remaining fuel =
     (if \<not> remaining > 0 then act_return ()
      else case fuel of
        0 \<Rightarrow> (\<lambda>pb. (Inl Diverge, pb))
      | Suc fuel \<Rightarrow>
          (let idx = remaining - 1;
               src_page_off = unat ((src + of_nat idx) AND (PAGE_SIZE - 1));
               dst_page_off = unat ((dst + of_nat idx) AND (PAGE_SIZE - 1));
               chunk_len = min (min (src_page_off + 1) (dst_page_off + 1)) remaining;
               chunk_start = remaining - chunk_len
           in act_bind (copy_chunk P cow (dst + of_nat chunk_start) (src + of_nat chunk_start) chunk_len) (\<lambda>_.
              copy_backward P cow dst src chunk_start fuel)))"

fun copy_forward :: "'m mem_ops \<Rightarrow> bool \<Rightarrow> u64 \<Rightarrow> u64 \<Rightarrow> nat \<Rightarrow> nat \<Rightarrow> nat \<Rightarrow> (('m, 'i) PagingBus, unit) action" where
  "copy_forward P cow dst src n offset fuel =
     (if \<not> offset < n then act_return ()
      else case fuel of
        0 \<Rightarrow> (\<lambda>pb. (Inl Diverge, pb))
      | Suc fuel \<Rightarrow>
          (let src_addr = src + of_nat offset;
               dst_addr = dst + of_nat offset;
               chunk_len = min (page_chunk src_addr (n - offset)) (page_chunk dst_addr (n - offset))
           in act_bind (copy_chunk P cow dst_addr src_addr chunk_len) (\<lambda>_.
              copy_forward P cow dst src n (offset + chunk_len) fuel)))"

definition pb_bulk_copy :: "'m mem_ops \<Rightarrow> bool \<Rightarrow> u64 \<Rightarrow> u64 \<Rightarrow> nat \<Rightarrow> (('m, 'i) PagingBus, bool) action" where
  "pb_bulk_copy P cow dst src n =
     (if n = 0 \<or> dst = src then act_return True
      else if unat src + n \<ge> 2 ^ 64 \<or> unat dst + n \<ge> 2 ^ 64 then act_return False
      else
        act_bind (preflight_range_probe P src n Read) (\<lambda>src_ok.
        if \<not> src_ok then act_return False
        else
          act_bind (preflight_range_probe P dst n Write) (\<lambda>dst_ok.
          if \<not> dst_ok then act_return False
          else
            let src_end = src + of_nat n;
                dst_end = dst + of_nat n;
                overlap = (src < dst_end \<and> dst < src_end)
            in act_bind (if overlap \<and> dst > src then copy_backward P cow dst src n n else copy_forward P cow dst src n 0 n) (\<lambda>_.
               act_return True))))"

function fill_pattern :: "u8 list \<Rightarrow> nat \<Rightarrow> nat \<Rightarrow> u8 list" where
  "fill_pattern pattern pat_off n =
     (if n = 0 \<or> \<not> pat_off < length pattern then []
      else let run = min (length pattern - pat_off) n
           in take run (drop pat_off pattern) @ fill_pattern pattern 0 (n - run))"
  by pat_completeness auto

termination fill_pattern
  by (relation "measure (\<lambda>(_, _, n). n)") auto

fun set_loop :: "'m mem_ops \<Rightarrow> bool \<Rightarrow> u64 \<Rightarrow> u8 list \<Rightarrow> nat \<Rightarrow> nat \<Rightarrow> nat \<Rightarrow> (('m, 'i) PagingBus, unit) action" where
  "set_loop P cow dst pattern total_bytes offset fuel =
     (if \<not> offset < total_bytes then act_return ()
      else case fuel of
        0 \<Rightarrow> (\<lambda>pb. (Inl Diverge, pb))
      | Suc fuel \<Rightarrow>
          (let addr = dst + of_nat offset
           in act_bind (pb_translate P cow addr Write) (\<lambda>paddr.
              let chunk_len = page_chunk addr (total_bytes - offset);
                  scratch = (if length pattern = 1 then replicate chunk_len (pattern ! 0) else fill_pattern pattern (offset mod length pattern) chunk_len)
              in act_bind (on_phys (\<lambda>m. ((), mo_write_bytes P m paddr scratch))) (\<lambda>_.
                 set_loop P cow dst pattern total_bytes (offset + chunk_len) fuel))))"

definition pb_bulk_set :: "'m mem_ops \<Rightarrow> bool \<Rightarrow> u64 \<Rightarrow> u8 list \<Rightarrow> nat \<Rightarrow> (('m, 'i) PagingBus, bool) action" where
  "pb_bulk_set P cow dst pattern reps =
     (if reps = 0 \<or> pattern = [] then act_return True
      else let total_bytes = length pattern * reps
           in if unat dst + total_bytes \<ge> 2 ^ 64 then act_return False
              else act_bind (preflight_range_probe P dst total_bytes Write) (\<lambda>dst_ok.
                   if \<not> dst_ok then act_return False
                   else act_bind (set_loop P cow dst pattern total_bytes 0 total_bytes) (\<lambda>_. act_return True)))"

definition pb_fetch :: "'m mem_ops \<Rightarrow> bool \<Rightarrow> u64 \<Rightarrow> nat \<Rightarrow> (('m, 'i) PagingBus, u8 list) action" where
  "pb_fetch P cow vaddr max_len pb =
     (let n = min max_len 15;
          page_off = vaddr AND (PAGE_SIZE - 1);
          vpage = vaddr - page_off;
          rd = (\<lambda>paddr. act_map pad15 (on_phys (\<lambda>m. mo_read_bytes P m paddr (replicate n 0))));
          miss = act_bind (pb_translate P cow vaddr Execute) (\<lambda>paddr pb.
                   rd paddr (pb\<lparr>fetch_page := Some (vpage, paddr - page_off)\<rparr>))
      in if n \<noteq> 0 \<and> unat page_off + n \<le> unat PAGE_SIZE then
           (case fetch_page pb of
              Some (memo_vpage, memo_ppage) \<Rightarrow> if memo_vpage = vpage then rd (memo_ppage + page_off) pb else miss pb
            | None \<Rightarrow> miss pb)
         else act_map pad15 (read_bytes_access P cow vaddr n Execute) pb)"

text \<open>\<^verbatim>\<open>CpuState::sync_mmu\<close>, \<^verbatim>\<open>sync\<close>, \<^verbatim>\<open>invlpg\<close> and \<^verbatim>\<open>write_cr3\<close>.\<close>

definition sync_mmu :: "CpuState \<Rightarrow> Mmu \<Rightarrow> bool \<times> Mmu" where
  "sync_mmu s mmu =
     (let (ch, mmu) = (if cr0 mmu \<noteq> ctl_cr0 (control s) then (True, set_cr0 mmu (ctl_cr0 (control s))) else (False, mmu));
          (ch, mmu) = (if cr3 mmu \<noteq> ctl_cr3 (control s) then (True, set_cr3 mmu (ctl_cr3 (control s))) else (ch, mmu));
          (ch, mmu) = (if cr4 mmu \<noteq> ctl_cr4 (control s) then (True, set_cr4 mmu (ctl_cr4 (control s))) else (ch, mmu))
      in if efer mmu \<noteq> msr_efer (msr s) then (True, set_efer mmu (msr_efer (msr s))) else (ch, mmu))"

definition pb_sync :: "CpuState \<Rightarrow> ('m, 'i) PagingBus \<Rightarrow> ('m, 'i) PagingBus" where
  "pb_sync s pb =
     (let (mmu_changed, mmu') = sync_mmu s (pb_mmu pb);
          c = cpl s;
          pb = (if mmu_changed \<or> c \<noteq> pb_cpl pb then pb\<lparr>fetch_page := None\<rparr> else pb)
      in pb\<lparr>pb_mmu := mmu', pb_cpl := c\<rparr>)"

definition pb_invlpg :: "u64 \<Rightarrow> ('m, 'i) PagingBus \<Rightarrow> ('m, 'i) PagingBus" where
  "pb_invlpg vaddr pb = pb\<lparr>fetch_page := None, pb_mmu := invlpg (pb_mmu pb) vaddr\<rparr>"

definition pb_write_cr3 :: "u64 \<Rightarrow> ('m, 'i) PagingBus \<Rightarrow> ('m, 'i) PagingBus" where
  "pb_write_cr3 v pb = pb\<lparr>fetch_page := None, pb_mmu := set_cr3 (pb_mmu pb) v\<rparr>"

definition on_io :: "('i, 'a) action \<Rightarrow> (('m, 'i) PagingBus, 'a) action" where
  "on_io f pb = (case f (pb_io pb) of (r, i) \<Rightarrow> (r, pb\<lparr>pb_io := i\<rparr>))"

definition paging_bus :: "'m mem_ops \<Rightarrow> bool \<Rightarrow> 'i IoBus \<Rightarrow> ('m, 'i) PagingBus CpuBus" where
  "paging_bus P cow I =
     \<lparr> cb_sync = pb_sync, cb_invlpg = pb_invlpg, cb_write_cr3 = pb_write_cr3,
       cb_read_u8 = (\<lambda>a. read_u8_access P cow a Read), cb_read_u16 = (\<lambda>a. read_u16_access P cow a Read),
       cb_read_u32 = (\<lambda>a. read_u32_access P cow a Read), cb_read_u64 = (\<lambda>a. read_u64_access P cow a Read),
       cb_read_u128 = (\<lambda>a. read_u128_access P cow a Read),
       cb_write_u8 = (\<lambda>a. write_u8_access P cow a Write), cb_write_u16 = (\<lambda>a. write_u16_access P cow a Write),
       cb_write_u32 = (\<lambda>a. write_u32_access P cow a Write), cb_write_u64 = (\<lambda>a. write_u64_access P cow a Write),
       cb_write_u128 = (\<lambda>a. write_u128_access P cow a Write),
       cb_atomic_rmw_u8 = pb_atomic_rmw (read_u8_access P cow) (write_u8_access P cow),
       cb_atomic_rmw_u16 = pb_atomic_rmw (read_u16_access P cow) (write_u16_access P cow),
       cb_atomic_rmw_u32 = pb_atomic_rmw (read_u32_access P cow) (write_u32_access P cow),
       cb_atomic_rmw_u64 = pb_atomic_rmw (read_u64_access P cow) (write_u64_access P cow),
       cb_atomic_rmw_u128 = pb_atomic_rmw (read_u128_access P cow) (write_u128_access P cow),
       cb_read_bytes = (\<lambda>a n. read_bytes_access P cow a n Read), cb_write_bytes = (\<lambda>a bs. write_bytes_access P cow a bs Write),
       cb_preflight_write_bytes = pb_preflight P cow,
       cb_supports_bulk_copy = True, cb_bulk_copy = pb_bulk_copy P cow, cb_supports_bulk_set = True, cb_bulk_set = pb_bulk_set P cow,
       cb_fetch = pb_fetch P cow,
       cb_io_read = (\<lambda>port sz. on_io (iob_read I port sz)), cb_io_write = (\<lambda>port sz v. on_io (iob_write I port sz v)) \<rparr>"

declare read_access_loop.simps [simp del] translate_chunks.simps [simp del] preflight_loop.simps [simp del] probe_loop.simps [simp del]
  copy_backward.simps [simp del] copy_forward.simps [simp del] fill_pattern.simps [simp del] set_loop.simps [simp del]

text \<open>The physical bus of the machine behind it.\<close>

definition physical_ops :: "'d machine_memory mem_ops" where
  "physical_ops = \<lparr> mo_walk = physical_bus, mo_read_u8 = phys_read_u8, mo_read_u16 = phys_read_u16, mo_read_bytes = phys_read_bytes,
     mo_write_u8 = phys_write_u8, mo_write_u16 = phys_write_u16, mo_write_bytes = phys_write_bytes \<rparr>"

section \<open>Writes to the physical bus, byte by byte\<close>

definition plain_at :: "'d MemoryBus \<Rightarrow> nat \<Rightarrow> bool" where
  "plain_at bus x \<longleftrightarrow> overlay_at bus x = None \<and> x < unat (pm_len (ram bus))"

text \<open>The memory \<open>m'\<close> is \<open>m\<close> with the bytes \<open>bs\<close> stored from \<open>a\<close> on, where that is plain RAM.\<close>

definition phys_stored :: "'d machine_memory \<Rightarrow> nat \<Rightarrow> u8 list \<Rightarrow> 'd machine_memory \<Rightarrow> bool" where
  "phys_stored m a bs m' \<longleftrightarrow> table_memory m' \<and> overlays (fst m') = overlays (fst m) \<and> pm_len (ram (fst m')) = pm_len (ram (fst m)) \<and>
     (\<forall>x. open_byte m' x = (if x \<in> {a..<a + length bs} \<and> plain_at (fst m) x then bs ! (x - a) else open_byte m x))"

lemma phys_stored_Nil: "table_memory m \<Longrightarrow> phys_stored m a [] m"
  by (simp add: phys_stored_def)

definition devices_unseen :: "'d MemoryBus \<Rightarrow> 'd \<Rightarrow> 'd \<Rightarrow> bool" where
  "devices_unseen bus d d' \<longleftrightarrow> (\<forall>r \<in> set (overlays bus). \<forall>h k. kind r = Mmio h \<longrightarrow> mmio_byte h d' k = mmio_byte h d k)"

lemma bus_updated_stored:
  assumes m: "table_memory (bus, d)" and up: "bus_updated bus a bs bus'" and un: "devices_unseen bus d d'"
  shows "phys_stored (bus, d) a bs (bus', d')"
proof -
  have same: "overlays bus' = overlays bus" "pm_len (ram bus') = pm_len (ram bus)" "bus_wf bus'" using up by (auto simp: bus_updated_def)
  have t: "table_memory (bus', d')"
    using m same by (simp add: table_memory_simps all_bytewise_def borders_aligned_def device_writes_unseen_def)
  have "open_byte (bus', d') x = (if x \<in> {a..<a + length bs} \<and> plain_at bus x then bs ! (x - a) else open_byte (bus, d) x)" for x
  proof (cases "overlay_at bus x")
    case None
    then have "overlay_at bus' x = None" using same(1) by (simp add: overlay_at_def)
    then show ?thesis using None up same(2)
      by (auto simp: open_byte_def route_def bus_updated_def mapped_def plain_at_def split: if_splits)
  next
    case (Some y)
    then have y: "y \<in> set (overlays bus)" by (auto simp: overlay_at_def find_Some_iff)
    have "overlay_byte y d' x = overlay_byte y d x"
      using un y by (auto simp: devices_unseen_def overlay_byte_def split: OverlayKind.split)
    moreover have "overlay_at bus' x = Some y" using Some same(1) by (simp add: overlay_at_def)
    ultimately show ?thesis using Some by (auto simp: open_byte_def route_def plain_at_def)
  qed
  then show ?thesis using t same by (simp add: phys_stored_def)
qed

lemma write_loop_unseen:
  assumes m: "table_memory (bus, d)" and n: "length src < 2 ^ 64"
  shows "devices_unseen bus d (snd (snd (bus_write_loop fuel bus a off src d)))"
proof -
  define P where "P e \<longleftrightarrow> devices_unseen bus d e" for e
  have wf: "table_ok (overlays bus)" "all_bytewise bus" "device_writes_unseen bus"
    using m by (simp_all add: table_memory_simps bus_wf_def)
  have "in_range_invariant bus P"
    unfolding in_range_invariant_def
  proof (intro ballI allI impI)
    fix r h e and off :: u64 and data :: "u8 list"
    assume r: "r \<in> set (overlays bus)" "kind r = Mmio h" "P e" "data \<noteq> []"
      "unat off + length data \<le> unat (r_end r) - unat (r_start r)"
    have "unat off + length data < 2 ^ 64" using r(5) unat_less [of "r_end r"] by simp
    then have "h_read h off data e = (map (\<lambda>i. mmio_byte h e (unat off + i)) [0..<length data], e)"
      using wf(2) r(1,2) by (auto simp: all_bytewise_def bytewise_def)
    moreover have "P (h_write h off data e)"
      using r(1-3) wf(3) unfolding P_def devices_unseen_def device_writes_unseen_def by metis
    ultimately show "P (snd (h_read h off data e)) \<and> length (fst (h_read h off data e)) = length data \<and>
        P (h_write h off data e)" using r(3) by simp
  qed
  moreover have "P d" by (simp add: P_def devices_unseen_def)
  ultimately show ?thesis using bus_write_loop_in_range [OF n wf(1), of P d fuel a off] by (simp add: P_def)
qed

lemma devices_unseen_refl [simp]: "devices_unseen bus d d"
  by (simp add: devices_unseen_def)

lemma try_write_bytes_unseen:
  assumes "table_memory (bus, d)" "length src < 2 ^ 64"
  shows "devices_unseen bus d (snd (snd (MemoryBus_try_write_bytes bus a src d)))"
  using write_loop_unseen [OF assms] by (auto simp: MemoryBus_try_write_bytes_def split: sum.splits)

text \<open>How many bytes of a write reach the bus: up to the first address where nothing is mapped, and none if the range wraps.\<close>

definition reached :: "'d MemoryBus \<Rightarrow> u64 \<Rightarrow> nat \<Rightarrow> nat" where
  "reached bus a n = (if 2 ^ 64 \<le> unat a + n then 0 else mapped_prefix bus (unat a) n)"

lemma try_write_bytes_stored:
  assumes m: "table_memory (bus, d)" and n: "length src < 2 ^ 64"
  shows "phys_stored (bus, d) (unat a) (take (reached bus a (length src)) src) (snd (MemoryBus_try_write_bytes bus a src d))"
proof -
  have wf: "bus_wf bus" using m by (simp add: table_memory_simps)
  show ?thesis
  proof (cases "src \<noteq> [] \<and> 2 ^ 64 \<le> unat a + length src")
    case True
    then show ?thesis using MemoryBus_try_write_bytes_updates [OF wf n, of a d] phys_stored_Nil [OF m] by (simp add: reached_def)
  next
    case False
    then obtain bus' d' where w: "snd (MemoryBus_try_write_bytes bus a src d) = (bus', d')"
      "bus_updated bus (unat a) (take (mapped_prefix bus (unat a) (length src)) src) bus'"
      using MemoryBus_try_write_bytes_updates [OF wf n, of a d] by auto
    moreover have "take (reached bus a (length src)) src = take (mapped_prefix bus (unat a) (length src)) src" using False by (auto simp: reached_def)
    ultimately show ?thesis using bus_updated_stored [OF m] try_write_bytes_unseen [OF m n, of a] by (metis snd_conv)
  qed
qed

lemma write_le_stored:
  assumes m: "table_memory (bus, d)" and n: "0 < n" "n < 2 ^ 64"
  shows "phys_stored (bus, d) (unat a) (take (reached bus a n) (to_le_bytes n v)) (snd (bus_write_le n (try_write_le n) bus a v d))"
proof -
  have wf: "bus_wf bus" using m by (simp add: table_memory_simps)
  have un: "devices_unseen bus d (snd (snd (bus_write_le n (try_write_le n) bus a v d)))"
    using try_write_bytes_unseen [OF m, of "to_le_bytes n v"] n by (auto simp: bus_write_le_def split: sum.splits)
  show ?thesis
  proof (cases "2 ^ 64 \<le> unat a + n")
    case True
    then show ?thesis using phys_stored_Nil [OF m] n by (auto simp: reached_def bus_write_le_def checked_end_eq)
  next
    case False
    then obtain bus' d' where "snd (bus_write_le n (try_write_le n) bus a v d) = (bus', d')"
      "bus_updated bus (unat a) (take (mapped_prefix bus (unat a) n) (to_le_bytes n v)) bus'"
      using bus_write_le_updates [OF wf n(1), of a v d] by auto
    then show ?thesis using bus_updated_stored [OF m] un False by (metis reached_def snd_conv)
  qed
qed

lemma find_overlapping:
  fixes bus :: "'d MemoryBus"
  assumes "table_ok (overlays bus)" "unat a + 1 < 2 ^ 64"
  shows "find_overlay_idx bus a = None \<longleftrightarrow> overlapping_overlay bus a (a + 1) = None"
proof -
  have "unat (a + 1) = unat a + 1" using unat_add_small [of a 1] assms(2) by simp
  then have "contains r a \<longleftrightarrow> meets a (a + 1) r" for r :: "'d OverlayRegion"
    by (simp add: contains_unat meets_def word_less_nat_alt less_Suc_eq_le)
  then show ?thesis unfolding find_overlay_idx_None [OF assms(1)] overlapping_overlay_None [OF assms(1)] by simp
qed

lemma write_u8_le:
  assumes "bus_wf bus"
  shows "MemoryBus_try_write_u8 bus a v d = bus_write_le 1 (try_write_le 1) bus a v d"
proof -
  have wf: "table_ok (overlays bus)" "pm_wf (ram bus)" using assms by (simp_all add: bus_wf_def)
  have l: "to_le_bytes 1 v = [v]" by (simp add: to_le_bytes_def)
  show ?thesis
    using find_overlapping [OF wf(1), of a]
    by (auto simp: MemoryBus_try_write_u8_def bus_write_le_def checked_end_eq l try_write_u8_le [OF wf(2)] simp del: One_nat_def split: sum.splits)
qed

lemma phys_writes_stored:
  assumes m: "table_memory m"
  shows "length src < 2 ^ 64 \<Longrightarrow> phys_stored m (unat a) (take (reached (fst m) a (length src)) src) (phys_write_bytes m a src)"
    "phys_stored m (unat a) (take (reached (fst m) a 1) (to_le_bytes 1 v8)) (phys_write_u8 m a v8)"
    "phys_stored m (unat a) (take (reached (fst m) a 2) (to_le_bytes 2 v16)) (phys_write_u16 m a v16)"
    "phys_stored m (unat a) (take (reached (fst m) a 4) (to_le_bytes 4 v32)) (phys_write_u32 m a v32)"
    "phys_stored m (unat a) (take (reached (fst m) a 8) (to_le_bytes 8 v64)) (phys_write_u64 m a v64)"
proof -
  obtain bus d where md: "m = (bus, d)" by (cases m)
  have wf: "bus_wf bus" using m by (simp add: md table_memory_simps)
  show "length src < 2 ^ 64 \<Longrightarrow> phys_stored m (unat a) (take (reached (fst m) a (length src)) src) (phys_write_bytes m a src)"
    using try_write_bytes_stored m by (simp add: md)
  show "phys_stored m (unat a) (take (reached (fst m) a 1) (to_le_bytes 1 v8)) (phys_write_u8 m a v8)"
    "phys_stored m (unat a) (take (reached (fst m) a 2) (to_le_bytes 2 v16)) (phys_write_u16 m a v16)"
    "phys_stored m (unat a) (take (reached (fst m) a 4) (to_le_bytes 4 v32)) (phys_write_u32 m a v32)"
    "phys_stored m (unat a) (take (reached (fst m) a 8) (to_le_bytes 8 v64)) (phys_write_u64 m a v64)"
    using write_le_stored [OF m [unfolded md], of 1 a v8] write_le_stored [OF m [unfolded md], of 2 a v16]
      write_le_stored [OF m [unfolded md], of 4 a v32] write_le_stored [OF m [unfolded md], of 8 a v64]
    by (simp_all add: md write_u8_le [OF wf] MemoryBus_try_write_u16_def MemoryBus_try_write_u32_def MemoryBus_try_write_u64_def
        try_write_u16_def try_write_u32_def try_write_u64_def del: One_nat_def)
qed

section \<open>Reads of the physical bus, byte by byte\<close>

text \<open>What a read returns: the bytes up to the first hole, and 0xFF from there on.\<close>

lemma in_mapped_prefix: "i < mapped_prefix bus a n \<Longrightarrow> mapped bus (a + i)"
proof (induction n arbitrary: a i)
  case (Suc n)
  then show ?case using Suc.IH [of "i - 1" "Suc a"] by (cases i) (auto split: if_splits)
qed simp

lemma phys_read_bytes_eq:
  assumes m: "table_memory m" and n: "length dst < 2 ^ 64"
  shows "phys_read_bytes m a dst =
    (map (\<lambda>i. open_byte m (unat a + i)) [0..<reached (fst m) a (length dst)] @ replicate (length dst - reached (fst m) a (length dst)) 0xFF, m)"
proof -
  obtain bus d where md: "m = (bus, d)" by (cases m)
  have wf: "bus_wf bus" "all_bytewise bus" using m by (simp_all add: md table_memory_simps)
  have route: "routed bus d (unat a) (mapped_prefix bus (unat a) k) = map (\<lambda>i. open_byte m (unat a + i)) [0..<mapped_prefix bus (unat a) k]" for k
    by (auto simp: routed_def md open_byte_route dest: in_mapped_prefix)
  show ?thesis
    using MemoryBus_try_read_bytes_routes [OF wf, of "replicate (length dst) 0xFF" a d] n
    by (auto simp: md reached_def route [unfolded md] Let_def)
qed

lemma phys_read_u8_eq:
  assumes m: "table_memory m"
  shows "phys_read_u8 m a = (if reached (fst m) a 1 = 1 then open_byte m (unat a) else 0xFF, m)"
proof -
  obtain bus d where md: "m = (bus, d)" by (cases m)
  have wf: "bus_wf bus" "all_bytewise bus" "table_ok (overlays bus)" "pm_wf (ram bus)" using m by (simp_all add: md table_memory_simps bus_wf_def)
  have r: "MemoryBus_try_read_bytes bus a [0] d =
      (if 2 ^ 64 \<le> unat a + 1 then (Inl (Fail (AddressOverflow a 1)), [0], d)
       else if mapped bus (unat a) then (Inr (), [open_byte m (unat a)], d) else (Inl (Fail (Unmapped a 1)), [0], d))"
    using MemoryBus_try_read_bytes_routes [OF wf(1,2), of "[0]" a d] by (simp add: Let_def routed_def md open_byte_route)
  have f: "try_read_u8 (ram bus) a = Inr (open_byte m (unat a)) \<and> mapped bus (unat a)"
    if "unat a + 1 < 2 ^ 64" "a + 1 \<le> pm_len (ram bus)" "find_overlay_idx bus a = None"
  proof -
    have "unat a < unat (pm_len (ram bus))" using that(1,2) unat_add_small [of a 1] by (simp add: word_le_nat_alt)
    moreover have "overlay_at bus (unat a) = None" using find_overlay_at(1) [OF wf(3) that(3)] .
    ultimately show ?thesis
      using try_read_u8_le [OF wf(4), of a] try_read_le_eq [OF wf(4), of 1 a, where 'a = 8]
      by (simp add: md open_byte_route mapped_def route_def pm_bytes_def)
  qed
  show ?thesis using r f
    by (auto simp: md MemoryBus_try_read_u8_def checked_end_eq reached_def split: if_splits)
qed

section \<open>Accessed and dirty bits\<close>

text \<open>The memory \<open>m'\<close> is \<open>m\<close> with accessed and dirty bits set in some of its bytes.\<close>

definition ad_grown :: "'d machine_memory \<Rightarrow> 'd machine_memory \<Rightarrow> bool" where
  "ad_grown m m' \<longleftrightarrow> (\<forall>x. ad_grow (open_byte m x) (open_byte m' x))"

lemma ad_grown_refl [simp]: "ad_grown m m"
  by (simp add: ad_grown_def)

lemma ad_grown_trans: "ad_grown m m1 \<Longrightarrow> ad_grown m1 m2 \<Longrightarrow> ad_grown m m2"
  by (meson ad_grown_def ad_grow_trans)

lemma open_byte_high: "2 ^ 64 \<le> x \<Longrightarrow> open_byte m x = 0xFF"
proof -
  assume x: "2 ^ 64 \<le> x"
  have "unat w \<le> x" for w :: u64 using x unat_less [of w] by simp
  then have "\<not> mapped (fst m) x" by (simp add: mapped_def overlay_at_None not_less)
  then show ?thesis by (cases m) (simp add: open_byte_route)
qed

lemma cells_bytes_grow:
  fixes c c' :: "'a::len word"
  assumes n: "LENGTH('a) = 8 * n" and b: "c = from_le_bytes (cell_bytes m b n)" "c' = from_le_bytes (cell_bytes m' b n)"
    and g: "ad_grow c c'" and i: "i < n"
  shows "ad_grow (open_byte m (unat b + i)) (open_byte m' (unat b + i))"
proof -
  have bit: "bit (open_byte m (unat b + i)) k \<longleftrightarrow> k < 8 \<and> bit (from_le_bytes (cell_bytes m b n) :: 'a word) (8 * i + k)" for m k
  proof (cases "k < 8")
    case True
    then show ?thesis using i n by (simp add: bit_from_le_bytes cell_bytes_def)
  next
    case False
    then show ?thesis using bit_imp_le_length [of "open_byte m (unat b + i)" k] by auto
  qed
  have low: "k < 8 \<Longrightarrow> 8 * i + k = 5 \<or> 8 * i + k = 6 \<Longrightarrow> k = 5 \<or> k = 6" for k by presburger
  show ?thesis using g low unfolding ad_grow_def bit b by blast
qed

lemma cell_of:
  assumes "x < 2 ^ 64" "k = 2 \<or> k = 3"
  obtains b :: u64 and i where "aligned_to k b" "x = unat b + i" "i < 2 ^ k"
proof -
  define b :: u64 where "b = of_nat x AND NOT (mask k)"
  have "unat b = x - x mod 2 ^ k" using assms(1) by (simp add: b_def unat_and_not_mask unat_of_nat)
  moreover have "aligned_to k b" by (simp add: b_def aligned_to_def and.assoc)
  moreover have "x = (x - x mod 2 ^ k) + x mod 2 ^ k" by simp
  moreover have "x mod 2 ^ k < 2 ^ k" by simp
  ultimately show ?thesis using that by metis
qed

lemma grown_bytes:
  assumes m: "table_memory m"
  shows "phys.grown32 m m' \<Longrightarrow> table_memory m' \<and> ad_grown m m'" "phys.grown64 m m' \<Longrightarrow> table_memory m' \<and> ad_grown m m'"
proof -
  assume g: "phys.grown32 m m'"
  then have m': "table_memory m'" by (simp add: phys.grown32_def)
  have "ad_grow (open_byte m x) (open_byte m' x)" for x
  proof (cases "x < 2 ^ 64")
    case True
    obtain b :: u64 and i where b: "aligned_to 2 b" "x = unat b + i" "i < 2 ^ 2" using cell_of [OF True, of 2] by blast
    have "ad_grow (from_le_bytes (cell_bytes m b 4) :: u32) (from_le_bytes (cell_bytes m' b 4))"
      using g b(1) phys_reads(1) [OF m b(1)] phys_reads(1) [OF m' b(1)] by (auto simp: phys.grown32_def physical_bus_simps)
    from cells_bytes_grow [OF _ refl refl this, of i] show ?thesis using b by simp
  qed (simp add: open_byte_high)
  then show "table_memory m' \<and> ad_grown m m'" using m' by (simp add: ad_grown_def)
next
  assume g: "phys.grown64 m m'"
  then have m': "table_memory m'" by (simp add: phys.grown64_def)
  have "ad_grow (open_byte m x) (open_byte m' x)" for x
  proof (cases "x < 2 ^ 64")
    case True
    obtain b :: u64 and i where b: "aligned_to 3 b" "x = unat b + i" "i < 2 ^ 3" using cell_of [OF True, of 3] by blast
    have "ad_grow (from_le_bytes (cell_bytes m b 8) :: u64) (from_le_bytes (cell_bytes m' b 8))"
      using g b(1) phys_reads(2) [OF m b(1)] phys_reads(2) [OF m' b(1)] by (auto simp: phys.grown64_def physical_bus_simps)
    from cells_bytes_grow [OF _ refl refl this, of i] show ?thesis using b by simp
  qed (simp add: open_byte_high)
  then show "table_memory m' \<and> ad_grown m m'" using m' by (simp add: ad_grown_def)
qed

lemma phys_stored_nth: "phys_stored m a bs m' \<Longrightarrow> i < length bs \<Longrightarrow> plain_at (fst m) (a + i) \<Longrightarrow> open_byte m' (a + i) = bs ! i"
  by (simp add: phys_stored_def)

lemma phys_stored_other: "phys_stored m a bs m' \<Longrightarrow> \<not> (a \<le> x \<and> x < a + length bs \<and> plain_at (fst m) x) \<Longrightarrow> open_byte m' x = open_byte m x"
  unfolding phys_stored_def by (metis atLeastLessThan_iff)

lemma reached_le: "reached bus a n \<le> n"
  by (simp add: reached_def mapped_prefix_le)

text \<open>Setting one bit of an integer at any address sets at most that bit of its first byte.\<close>

lemma stored_or_dirty:
  fixes d :: "'a::len word"
  assumes m: "table_memory m" and n: "LENGTH('a) = 8 * n" "n < 2 ^ 64" and d: "d = push_bit 6 1"
    and r: "phys_read_bytes m a (replicate n 0) = (buf, m)"
    and s: "phys_stored m (unat a) (take (reached (fst m) a n) (to_le_bytes n (from_le_bytes buf OR d))) m'"
  shows "table_memory m' \<and> ad_grown m m'"
proof -
  let ?k = "reached (fst m) a n"
  have buf: "length buf = n" "\<And>i. i < ?k \<Longrightarrow> buf ! i = open_byte m (unat a + i)"
    using r n(2) phys_read_bytes_eq [OF m, of "replicate n 0" a] reached_le [of "fst m" a n] by (auto simp: nth_append)
  have "ad_grow (open_byte m x) (open_byte m' x)" for x
  proof (cases "x \<in> {unat a..<unat a + ?k} \<and> plain_at (fst m) x")
    case True
    define i where "i = x - unat a"
    have i: "x = unat a + i" "i < ?k" "i < n" using True reached_le [of "fst m" a n] by (auto simp: i_def)
    have "open_byte m' x = to_le_bytes n (from_le_bytes buf OR d) ! i"
      using phys_stored_nth [OF s, of i] True i reached_le [of "fst m" a n] by simp
    then have "open_byte m' x = ucast (drop_bit (8 * i) (from_le_bytes buf OR d))" using i(3) by (simp add: to_le_bytes_def)
    then have w: "bit (open_byte m' x) k \<longleftrightarrow> k < 8 \<and> bit (from_le_bytes buf OR d) (8 * i + k)" for k by (simp add: bit_simps)
    have "bit (from_le_bytes buf :: 'a word) (8 * i + k) \<longleftrightarrow> bit (open_byte m x) k" if "k < 8" for k
      using that i buf n(1) by (simp add: bit_from_le_bytes)
    moreover have "bit d (8 * i + k) \<longleftrightarrow> i = 0 \<and> k = 6" if "k < 8" for k
      using that n(1) i(3) unfolding d bit_flag by presburger
    ultimately have "bit (open_byte m' x) k \<longleftrightarrow> k < 8 \<and> (bit (open_byte m x) k \<or> i = 0 \<and> k = 6)" for k
      unfolding w bit_or_iff by blast
    then show ?thesis using bit_imp_le_length [of "open_byte m x"] by (auto simp: ad_grow_def)
  next
    case False
    then have "open_byte m' x = open_byte m x" using reached_le [of "fst m" a n] by (intro phys_stored_other [OF s]) simp
    then show ?thesis by simp
  qed
  then show ?thesis using s by (simp add: ad_grown_def phys_stored_def)
qed

lemma write_dirty_grows:
  assumes m: "table_memory m"
  shows "table_memory (write_dirty physical_bus m e) \<and> ad_grown m (write_dirty physical_bus m e)"
proof -
  obtain b4 b8 where r: "phys_read_bytes m (leaf_addr e) (replicate 4 0) = (b4, m)" "phys_read_bytes m (leaf_addr e) (replicate 8 0) = (b8, m)"
    using phys_read_bytes_eq [OF m] by simp
  have d: "ucast PTE_D = (push_bit 6 1 :: u32)" by (simp add: PTE_D_def)
  have "table_memory (phys_write_u32 m (leaf_addr e) (from_le_bytes b4 OR ucast PTE_D)) \<and> ad_grown m (phys_write_u32 m (leaf_addr e) (from_le_bytes b4 OR ucast PTE_D))"
    using stored_or_dirty [OF m _ _ d r(1)] phys_writes_stored(4) [OF m] by simp
  moreover have "table_memory (phys_write_u64 m (leaf_addr e) (from_le_bytes b8 OR PTE_D)) \<and> ad_grown m (phys_write_u64 m (leaf_addr e) (from_le_bytes b8 OR PTE_D))"
    using stored_or_dirty [OF m _ _ PTE_D_def r(2)] phys_writes_stored(5) [OF m] by simp
  ultimately show ?thesis using r by (simp add: write_dirty_def physical_bus_simps phys_read_u32_def phys_read_u64_def)
qed

lemma translate_grows:
  assumes m: "table_memory m" and t: "translate physical_bus False mmu m va access c = (r, mmu', m')"
  shows "table_memory m' \<and> ad_grown m m'"
proof -
  have walk: "table_memory (snd (page_walk physical_bus False mmu m ctx)) \<and> ad_grown m (snd (page_walk physical_bus False mmu m ctx))" for mmu ctx
    using phys.page_walk_sim [OF m, of mmu ctx] grown_bytes [OF m]
    by (cases "mode mmu = Legacy32") (simp_all add: phys.sim_def)
  have tw: "table_memory m1 \<and> ad_grown m m1" if "translate_walk physical_bus False mmu m ctx = (r1, mmu1, m1)" for mmu ctx r1 mmu1 m1
    using walk [of mmu ctx] that by (auto simp: translate_walk_def split: prod.splits sum.splits)
  show ?thesis
    using t m write_dirty_grows [OF m] tw
    by (auto simp: translate_def Let_def split: sum.splits option.splits AccessType.splits if_splits)
qed

section \<open>A failed access changes nothing but accessed and dirty bits\<close>

type_synonym ('d, 'i) machine_bus = "('d machine_memory, 'i) PagingBus"

text \<open>The registers of the MMU, which no access changes, and the states of a bus with given ones.\<close>

type_synonym mmu_registers = "u64 \<times> u64 \<times> u64 \<times> u64 \<times> PagingMode"

definition mmu_regs :: "Mmu \<Rightarrow> mmu_registers" where
  "mmu_regs mmu = (cr0 mmu, cr3 mmu, cr4 mmu, efer mmu, mode mmu)"

text \<open>Without paging, the remembered page of the instruction fetches is the page itself.\<close>

definition memo_ok :: "('m, 'i) PagingBus \<Rightarrow> bool" where
  "memo_ok pb \<longleftrightarrow> mode (pb_mmu pb) = Disabled \<longrightarrow> (\<forall>v p. fetch_page pb = Some (v, p) \<longrightarrow> p = v AND 0xFFFFFFFF)"

definition paging_ok :: "mmu_registers \<Rightarrow> ('d, 'i) machine_bus \<Rightarrow> bool" where
  "paging_ok R pb \<longleftrightarrow> table_memory (pb_phys pb) \<and> mmu_regs (pb_mmu pb) = R \<and> memo_ok pb"

definition paging_same :: "('d, 'i) machine_bus \<Rightarrow> ('d, 'i) machine_bus \<Rightarrow> bool" where
  "paging_same pb pb' \<longleftrightarrow> ad_grown (pb_phys pb) (pb_phys pb') \<and> pb_cpl pb' = pb_cpl pb \<and> pb_io pb' = pb_io pb \<and>
     mmu_regs (pb_mmu pb') = mmu_regs (pb_mmu pb)"

interpretation paging_rel: bus_relation "paging_ok R" "paging_same :: ('d, 'i) machine_bus \<Rightarrow> _" for R
  by unfold_locales (auto simp: paging_same_def elim: ad_grown_trans)

lemma translate_regs: "translate B cow mmu m va access c = (r, mmu', m') \<Longrightarrow> mmu_regs mmu' = mmu_regs mmu"
  by (auto simp: translate_def translate_walk_def mmu_regs_def Let_def split: sum.splits option.splits AccessType.splits if_splits prod.splits)

lemma pb_translate_quiet: "quiet (paging_ok R) paging_same (pb_translate physical_ops False vaddr access)"
  unfolding quiet_def
proof (intro allI impI)
  fix pb :: "('d, 'i) machine_bus" assume ok: "paging_ok R pb"
  obtain r mmu' m' where t: "translate physical_bus False (pb_mmu pb) (pb_phys pb) vaddr access (pb_cpl pb) = (r, mmu', m')" by (metis prod.collapse)
  then show "paging_ok R (snd (pb_translate physical_ops False vaddr access pb)) \<and> paging_same pb (snd (pb_translate physical_ops False vaddr access pb))"
    using translate_grows [OF _ t] translate_regs [OF t] ok
    by (auto simp: pb_translate_def physical_ops_def paging_ok_def memo_ok_def paging_same_def mmu_regs_def)
qed

lemma phys_read_quiet:
  fixes f :: "'d machine_memory \<Rightarrow> 'a \<times> 'd machine_memory"
  assumes "\<And>m. table_memory m \<Longrightarrow> snd (f m) = m"
  shows "quiet (paging_ok R :: ('d, 'i) machine_bus \<Rightarrow> bool) paging_same (on_phys f)"
proof -
  have "snd (on_phys f pb) = pb" if "paging_ok R pb" for pb :: "('d, 'i) machine_bus"
    using assms [of "pb_phys pb"] that by (simp add: on_phys_def paging_ok_def memo_ok_def case_prod_beta)
  then show ?thesis by (simp add: quiet_def)
qed

lemma phys_write_safe:
  assumes "\<And>m. table_memory m \<Longrightarrow> table_memory (snd (f m))"
  shows "fault_safe (paging_ok R) paging_same (on_phys f)"
  using assms by (simp add: fault_safe_def on_phys_def paging_ok_def memo_ok_def case_prod_beta)

lemma physical_read_pure:
  assumes "table_memory m"
  shows "snd (mo_read_u8 physical_ops m a) = m" "snd (mo_read_u16 physical_ops m a) = m" "snd (bus_read_u32 (mo_walk physical_ops) m a) = m"
    "snd (bus_read_u64 (mo_walk physical_ops) m a) = m" "n < 2 ^ 64 \<Longrightarrow> snd (mo_read_bytes physical_ops m a (replicate n 0)) = m"
  using phys_read_bytes_eq [OF assms, of _ a] phys_read_u8_eq [OF assms]
  by (simp_all add: physical_ops_def physical_bus_simps phys_read_u16_def phys_read_u32_def phys_read_u64_def)

lemma page_chunk_bounds: "page_chunk a n \<le> n" "page_chunk a n \<le> 4096" "0 < n \<Longrightarrow> 0 < page_chunk a n"
proof -
  have "unat (a AND (PAGE_SIZE - 1)) = unat a mod 2 ^ 12" using unat_and_mask [of a 12] by (simp add: PAGE_SIZE_def mask_eq_exp_minus_1)
  then have o: "unat (a AND (PAGE_SIZE - 1)) < 4096" by simp
  show "page_chunk a n \<le> n" "page_chunk a n \<le> 4096" by (simp_all add: page_chunk_def PAGE_SIZE_def)
  show "0 < n \<Longrightarrow> 0 < page_chunk a n" using o by (simp add: page_chunk_def PAGE_SIZE_def)
qed

lemma read_access_loop_quiet: "quiet (paging_ok R) paging_same (read_access_loop physical_ops False vaddr n access offset dst fuel)"
proof (induction fuel arbitrary: offset dst)
  case (Suc fuel)
  have "quiet (paging_ok R) paging_same (on_phys (\<lambda>m. mo_read_bytes physical_ops m paddr (replicate (page_chunk a k) 0)))" for paddr a k
    using page_chunk_bounds(2) [of a k] by (intro phys_read_quiet physical_read_pure(5)) auto
  then show ?case
    using Suc by (subst read_access_loop.simps) (auto simp: Let_def intro!: paging_rel.quiet_bind pb_translate_quiet)
qed (subst read_access_loop.simps; simp)

lemma read_bytes_access_quiet: "quiet (paging_ok R) paging_same (read_bytes_access physical_ops False vaddr n access)"
  by (simp add: read_bytes_access_def read_access_loop_quiet)

lemma read_accesses_quiet:
  "quiet (paging_ok R) paging_same (read_u8_access physical_ops False vaddr access)"
  "quiet (paging_ok R) paging_same (read_u16_access physical_ops False vaddr access)"
  "quiet (paging_ok R) paging_same (read_u32_access physical_ops False vaddr access)"
  "quiet (paging_ok R) paging_same (read_u64_access physical_ops False vaddr access)"
  "quiet (paging_ok R) paging_same (read_u128_access physical_ops False vaddr access)"
  unfolding read_u8_access_def read_u16_access_def read_u32_access_def read_u64_access_def read_u128_access_def read_int_access_def
  by (auto intro!: paging_rel.quiet_bind paging_rel.quiet_map pb_translate_quiet phys_read_quiet physical_read_pure read_bytes_access_quiet)

lemma pb_preflight_quiet: "quiet (paging_ok R :: ('d, 'i) machine_bus \<Rightarrow> bool) paging_same (pb_preflight physical_ops False vaddr n)"
proof -
  have "quiet (paging_ok R :: ('d, 'i) machine_bus \<Rightarrow> bool) paging_same (preflight_loop physical_ops False vaddr n offset fuel)" for offset fuel
  proof (induction fuel arbitrary: offset)
    case (Suc fuel)
    then show ?case by (subst preflight_loop.simps) (auto simp: Let_def intro!: paging_rel.quiet_bind pb_translate_quiet)
  qed (subst preflight_loop.simps; simp)
  then show ?thesis by (simp add: pb_preflight_def)
qed

lemma translate_disabled: "mode mmu = Disabled \<Longrightarrow> translate B cow mmu m va access c = (Inr (va AND 0xFFFFFFFF), mmu, m)"
  by (simp add: translate_def linear_address_def)

lemma pb_translate_disabled:
  assumes "mode (pb_mmu pb) = Disabled"
  shows "pb_translate P cow va access pb = (Inr (va AND 0xFFFFFFFF), pb)"
  by (simp add: pb_translate_def translate_disabled [OF assms])

lemma page_base: "(va AND 0xFFFFFFFF) - (va AND (PAGE_SIZE - 1)) = (va - (va AND (PAGE_SIZE - 1))) AND 0xFFFFFFFF"
proof -
  have p: "va AND (PAGE_SIZE - 1) = va AND mask 12" by (simp add: PAGE_SIZE_def mask_eq_exp_minus_1)
  have m: "(0xFFFFFFFF :: u64) = mask 32" by (simp add: mask_eq_exp_minus_1)
  have s: "x - (va AND mask 12) = x AND NOT (mask 12)" if "x AND mask 12 = va AND mask 12" for x
  proof -
    have "(x AND NOT (mask 12)) + (x AND mask 12) = x"
      by (subst disjunctive_add_eq_or) (auto simp: bit_eq_iff bit_simps)
    then show ?thesis unfolding that by (metis add_diff_cancel_right')
  qed
  have "(va AND mask 32) AND mask 12 = va AND mask 12" by (auto simp: bit_eq_iff bit_simps)
  then show ?thesis unfolding p m s [OF \<open>(va AND mask 32) AND mask 12 = va AND mask 12\<close>] s [OF refl] by (auto simp: bit_eq_iff bit_simps)
qed

lemma fetch_miss_quiet:
  assumes "\<And>paddr. quiet (paging_ok R :: ('d, 'i) machine_bus \<Rightarrow> bool) paging_same (rd paddr)"
  shows "quiet (paging_ok R :: ('d, 'i) machine_bus \<Rightarrow> bool) paging_same (act_bind (pb_translate physical_ops False va Execute) (\<lambda>paddr pb.
    rd paddr (pb\<lparr>fetch_page := Some (va - (va AND (PAGE_SIZE - 1)), paddr - (va AND (PAGE_SIZE - 1)))\<rparr>)))" (is "quiet _ _ (act_bind ?t ?f)")
  unfolding quiet_def
proof (intro allI impI)
  fix pb :: "('d, 'i) machine_bus" assume ok: "paging_ok R pb"
  show "paging_ok R (snd (act_bind ?t ?f pb)) \<and> paging_same pb (snd (act_bind ?t ?f pb))"
  proof (cases rule: act_bind_cases [of ?t pb ?f])
    case (Ok paddr pb1)
    let ?pb2 = "pb1\<lparr>fetch_page := Some (va - (va AND (PAGE_SIZE - 1)), paddr - (va AND (PAGE_SIZE - 1)))\<rparr>"
    have 1: "paging_ok R pb1" "paging_same pb pb1" using quietD [OF pb_translate_quiet ok Ok(1)] by auto
    have "paddr = va AND 0xFFFFFFFF" if "mode (pb_mmu pb1) = Disabled"
      using Ok(1) pb_translate_disabled [of pb] that 1(2) by (simp add: paging_same_def mmu_regs_def)
    then have "paging_ok R ?pb2" using 1(1) page_base [of va] by (auto simp: paging_ok_def memo_ok_def)
    moreover obtain r pb3 where 3: "rd paddr ?pb2 = (r, pb3)" by (metis prod.collapse)
    ultimately have "paging_ok R pb3 \<and> paging_same ?pb2 pb3" using quietD [OF assms] by blast
    then show ?thesis using 1(2) 3 Ok(2) ad_grown_trans [of "pb_phys pb" "pb_phys pb1" "pb_phys pb3"] by (simp add: paging_same_def)
  next
    case (Err e pb1)
    then show ?thesis using quietD [OF pb_translate_quiet ok Err(1)] by simp
  qed
qed

lemma pb_fetch_quiet: "quiet (paging_ok R :: ('d, 'i) machine_bus \<Rightarrow> bool) paging_same (pb_fetch physical_ops False vaddr n)"
proof -
  let ?n = "min n 15"
  have rd: "quiet (paging_ok R :: ('d, 'i) machine_bus \<Rightarrow> bool) paging_same (act_map pad15 (on_phys (\<lambda>m. mo_read_bytes physical_ops m paddr (replicate ?n 0))))" for paddr
    by (intro paging_rel.quiet_map phys_read_quiet physical_read_pure(5)) auto
  have long: "quiet (paging_ok R :: ('d, 'i) machine_bus \<Rightarrow> bool) paging_same (act_map pad15 (read_bytes_access physical_ops False vaddr ?n Execute))"
    by (intro paging_rel.quiet_map read_bytes_access_quiet)
  show ?thesis
    using rd fetch_miss_quiet [OF rd, of vaddr] long unfolding quiet_def pb_fetch_def Let_def by (auto split: option.split)
qed

lemma physical_write_ok:
  assumes "table_memory m"
  shows "table_memory (mo_write_u8 physical_ops m a v8)" "table_memory (mo_write_u16 physical_ops m a v16)"
    "table_memory (bus_write_u32 (mo_walk physical_ops) m a v32)" "table_memory (bus_write_u64 (mo_walk physical_ops) m a v64)"
    "length bs < 2 ^ 64 \<Longrightarrow> table_memory (mo_write_bytes physical_ops m a bs)"
  using phys_writes_stored [OF assms] by (simp_all add: physical_ops_def physical_bus_simps phys_stored_def)

lemma write_chunks_ok:
  assumes "\<forall>(p, n, off) \<in> set chs. n \<le> 4096" "table_memory m"
  shows "table_memory (write_chunks physical_ops src chs m)"
  using assms
proof (induction chs arbitrary: m)
  case (Cons c chs)
  obtain p n off where c: "c = (p, n, off)" by (cases c)
  have "length (take n (drop off src)) < 2 ^ 64" using Cons.prems(1) by (auto simp: c min_def)
  then have "table_memory (mo_write_bytes physical_ops m p (take n (drop off src)))" using physical_write_ok(5) Cons.prems(2) by blast
  then show ?case using Cons by (simp add: write_chunks_def c)
qed (simp add: write_chunks_def)

lemma translate_chunks_small:
  "\<forall>(p, n, off) \<in> set chs. n \<le> 4096 \<Longrightarrow> translate_chunks P cow vaddr n access offset chs fuel pb = (Inr chs', pb') \<Longrightarrow>
   \<forall>(p, n, off) \<in> set chs'. n \<le> 4096"
proof (induction fuel arbitrary: offset chs pb)
  case (Suc fuel)
  show ?case
  proof (cases "offset < n")
    case True
    let ?a = "vaddr + of_nat offset"
    show ?thesis
    proof (cases rule: act_bind_cases [of "pb_translate P cow ?a access" pb
        "\<lambda>paddr. translate_chunks P cow vaddr n access (offset + page_chunk ?a (n - offset)) (chs @ [(paddr, page_chunk ?a (n - offset), offset)]) fuel"])
      case (Ok x t)
      then have loop: "translate_chunks P cow vaddr n access (offset + page_chunk ?a (n - offset)) (chs @ [(x, page_chunk ?a (n - offset), offset)]) fuel t = (Inr chs', pb')"
        using Suc.prems(2) True by (simp add: translate_chunks.simps [of _ _ _ _ _ _ _ "Suc fuel"] Let_def)
      show ?thesis using Suc.IH [OF _ loop] Suc.prems(1) page_chunk_bounds(2) [of ?a "n - offset"] by auto
    next
      case (Err e t)
      then show ?thesis using Suc.prems(2) True by (simp add: translate_chunks.simps [of _ _ _ _ _ _ _ "Suc fuel"] Let_def)
    qed
  qed (use Suc.prems in \<open>simp add: translate_chunks.simps [of _ _ _ _ _ _ _ "Suc fuel"] act_return_def\<close>)
qed (auto simp: translate_chunks.simps [of _ _ _ _ _ _ _ 0] act_return_def split: if_splits)

lemma translate_chunks_quiet: "quiet (paging_ok R) paging_same (translate_chunks physical_ops False vaddr n access offset chs fuel)"
proof (induction fuel arbitrary: offset chs)
  case (Suc fuel)
  then show ?case by (subst translate_chunks.simps) (auto simp: Let_def intro!: paging_rel.quiet_bind pb_translate_quiet)
qed (subst translate_chunks.simps; simp)

lemma write_bytes_access_safe: "fault_safe (paging_ok R) paging_same (write_bytes_access physical_ops False vaddr src access)"
  unfolding fault_safe_def
proof (intro allI impI)
  fix pb :: "('d, 'i) machine_bus" assume ok: "paging_ok R pb"
  let ?t = "translate_chunks physical_ops False vaddr (length src) access 0 [] (length src)"
  let ?w = "\<lambda>chs. on_phys (\<lambda>m. ((), write_chunks physical_ops src chs m)) :: ('d, 'i) machine_bus \<Rightarrow> _"
  show "paging_ok R (snd (write_bytes_access physical_ops False vaddr src access pb)) \<and>
    (isl (fst (write_bytes_access physical_ops False vaddr src access pb)) \<longrightarrow> paging_same pb (snd (write_bytes_access physical_ops False vaddr src access pb)))"
  proof (cases "src = []")
    case False
    show ?thesis
    proof (cases rule: act_bind_cases [of ?t pb ?w])
      case (Ok chs pb1)
      have ok1: "paging_ok R pb1" using quietD [OF translate_chunks_quiet ok Ok(1)] by simp
      then have "table_memory (write_chunks physical_ops src chs (pb_phys pb1))"
        using write_chunks_ok [of chs "pb_phys pb1" src] translate_chunks_small [OF _ Ok(1)] by (simp add: paging_ok_def memo_ok_def)
      then show ?thesis using Ok(2) False ok1 by (simp add: write_bytes_access_def on_phys_def paging_ok_def memo_ok_def)
    next
      case (Err e pb1)
      then show ?thesis using quietD [OF translate_chunks_quiet ok Err(1)] False by (simp add: write_bytes_access_def)
    qed
  qed (use ok in \<open>simp add: write_bytes_access_def act_return_def\<close>)
qed

lemma write_accesses_safe:
  "fault_safe (paging_ok R) paging_same (write_u8_access physical_ops False vaddr access v8)"
  "fault_safe (paging_ok R) paging_same (write_u16_access physical_ops False vaddr access v16)"
  "fault_safe (paging_ok R) paging_same (write_u32_access physical_ops False vaddr access v32)"
  "fault_safe (paging_ok R) paging_same (write_u64_access physical_ops False vaddr access v64)"
  "fault_safe (paging_ok R) paging_same (write_u128_access physical_ops False vaddr access v128)"
  unfolding write_u8_access_def write_u16_access_def write_u32_access_def write_u64_access_def write_u128_access_def write_int_access_def
  by (auto intro!: paging_rel.fault_safe_bind pb_translate_quiet phys_write_safe write_bytes_access_safe simp: physical_write_ok)

lemma pb_atomic_rmw_safe:
  assumes "quiet (paging_ok R) paging_same (rd a Write)" "\<And>v. fault_safe (paging_ok R) paging_same (wr a Write v)"
  shows "fault_safe (paging_ok R) paging_same (pb_atomic_rmw rd wr a f)"
  unfolding pb_atomic_rmw_def using assms
  by (intro paging_rel.fault_safe_bind) (auto intro: paging_rel.fault_safe_map)

interpretation paging: fault_safe_bus "paging_ok R" paging_same "paging_bus physical_ops False I" for R and I :: "'i IoBus"
  by unfold_locales
    (simp_all add: paging_bus_def read_accesses_quiet read_bytes_access_quiet pb_preflight_quiet pb_fetch_quiet write_accesses_safe
      write_bytes_access_safe pb_atomic_rmw_safe)

section \<open>Without paging: a memory of bytes\<close>

text \<open>An integer access reads the bytes of the integer, in one access or page by page.\<close>

lemma read_bytes_access_page:
  assumes "0 < n" "page_chunk a n = n"
  shows "read_bytes_access P cow a n access = act_bind (pb_translate P cow a access) (\<lambda>paddr. on_phys (\<lambda>m. mo_read_bytes P m paddr (replicate n 0)))"
proof -
  have e: "act_bind m (\<lambda>x. act_return x) = m" for m :: "(('m, 'i) PagingBus, 'x) action"
    by (rule ext) (auto simp: act_bind_def act_return_def split: prod.split sum.split)
  obtain k where "n = Suc k" using assms(1) by (cases n) auto
  then show ?thesis using assms
    by (simp add: read_bytes_access_def read_access_loop.simps [of _ _ _ _ _ 0 _ "Suc k"] read_access_loop.simps [of _ _ _ _ _ "Suc k"] Let_def e)
qed

lemma page_chunk_whole:
  assumes "n \<le> 4096" "a AND (PAGE_SIZE - 1) \<le> PAGE_SIZE - of_nat n"
  shows "page_chunk a n = n"
proof -
  have "unat (PAGE_SIZE - of_nat n) = 4096 - n"
    using assms(1) by (subst unat_sub) (simp_all add: PAGE_SIZE_def word_le_nat_alt unat_of_nat)
  then show ?thesis using assms by (simp add: page_chunk_def PAGE_SIZE_def word_le_nat_alt)
qed

lemma act_map_bind: "act_map f (act_bind m g) = act_bind m (\<lambda>x. act_map f (g x))"
  by (rule ext) (auto simp: act_map_def act_bind_def split: prod.split sum.split)

lemma read_int_access_bytes:
  assumes "0 < n" "n \<le> 4096" "\<And>m p. rd m p = (case mo_read_bytes P m p (replicate n 0) of (bs, m') \<Rightarrow> (from_le_bytes bs, m'))"
  shows "(read_int_access n rd P cow a access :: (('m, 'i) PagingBus, _) action) = act_map from_le_bytes (read_bytes_access P cow a n access)"
proof (cases "a AND (PAGE_SIZE - 1) \<le> PAGE_SIZE - of_nat n")
  case True
  have "(on_phys (\<lambda>m. rd m p) :: (('m, 'i) PagingBus, _) action) = act_map from_le_bytes (on_phys (\<lambda>m. mo_read_bytes P m p (replicate n 0)))" for p
    by (rule ext) (simp add: on_phys_def act_map_def act_bind_def act_return_def assms(3) split: prod.split)
  then show ?thesis using True page_chunk_whole [OF assms(2) True] assms(1)
    by (simp add: read_int_access_def read_bytes_access_page act_map_bind)
qed (simp add: read_int_access_def)

lemma read_ints_bytes:
  "read_u16_access physical_ops cow a access = act_map from_le_bytes (read_bytes_access physical_ops cow a 2 access)"
  "read_u32_access physical_ops cow a access = act_map from_le_bytes (read_bytes_access physical_ops cow a 4 access)"
  "read_u64_access physical_ops cow a access = act_map from_le_bytes (read_bytes_access physical_ops cow a 8 access)"
  unfolding read_u16_access_def read_u32_access_def read_u64_access_def
  by (rule read_int_access_bytes;
      simp add: physical_ops_def physical_bus_simps phys_read_u16_def phys_read_u32_def phys_read_u64_def)+

lemma read_u8_bytes:
  fixes pb :: "('d, 'i) machine_bus"
  assumes "paging_ok R pb"
  shows "read_u8_access physical_ops False a access pb = act_map from_le_bytes (read_bytes_access physical_ops False a 1 access) pb"
proof -
  have c: "page_chunk a 1 = 1" using page_chunk_bounds(1) [of a 1] page_chunk_bounds(3) [of 1 a] by simp
  have r: "on_phys (\<lambda>m. mo_read_u8 physical_ops m p) pb1 = act_map from_le_bytes (on_phys (\<lambda>m. mo_read_bytes physical_ops m p [0])) pb1"
    if "table_memory (pb_phys pb1)" for p and pb1 :: "('d, 'i) machine_bus"
  proof -
    have "reached (fst (pb_phys pb1)) p 1 = 0 \<or> reached (fst (pb_phys pb1)) p 1 = 1"
      by (auto simp: reached_def)
    then show ?thesis
      using phys_read_u8_eq [OF that, of p] phys_read_bytes_eq [OF that, of "[0]" p]
      by (auto simp: on_phys_def act_map_def act_bind_def act_return_def physical_ops_def)
  qed
  show ?thesis
    unfolding read_u8_access_def read_bytes_access_page [OF zero_less_one c] act_map_bind
  proof (cases rule: act_bind_cases [of "pb_translate physical_ops False a access" pb "\<lambda>p. on_phys (\<lambda>m. mo_read_u8 physical_ops m p)"])
    case (Ok p pb1)
    have "table_memory (pb_phys pb1)" using quietD [OF pb_translate_quiet assms Ok(1)] by (simp add: paging_ok_def)
    then show "act_bind (pb_translate physical_ops False a access) (\<lambda>p. on_phys (\<lambda>m. mo_read_u8 physical_ops m p)) pb =
      act_bind (pb_translate physical_ops False a access) (\<lambda>p. act_map from_le_bytes (on_phys (\<lambda>m. mo_read_bytes physical_ops m p (replicate 1 0)))) pb"
      using Ok r by (simp add: act_bind_def)
  qed (simp add: act_bind_def)
qed


text \<open>The processor's linear addresses below 4 GB are the physical ones.\<close>

definition phys_acc :: "('d, 'i) machine_bus \<Rightarrow> u64 \<Rightarrow> bool" where
  "phys_acc pb x \<longleftrightarrow> mapped (fst (pb_phys pb)) (unat x)"

definition phys_at :: "('d, 'i) machine_bus \<Rightarrow> u64 \<Rightarrow> u8" where
  "phys_at pb x = open_byte (pb_phys pb) (unat x)"

definition phys_wr :: "('d, 'i) machine_bus \<Rightarrow> u64 \<Rightarrow> u8 \<Rightarrow> u8" where
  "phys_wr pb x v = (if plain_at (fst (pb_phys pb)) (unat x) then v else open_byte (pb_phys pb) (unat x))"

definition phys_lim :: nat where "phys_lim = 2 ^ 32"

lemma mapped_overlays: "overlays bus' = overlays bus \<Longrightarrow> pm_len (ram bus') = pm_len (ram bus) \<Longrightarrow> mapped bus' x = mapped bus x"
  by (simp add: mapped_def overlay_at_def)

lemma phys_stored_run:
  assumes "phys_stored (pb_phys pb) (unat a) bs m'"
  shows "run_stored phys_lim phys_acc phys_at phys_wr pb a bs (pb\<lparr>pb_phys := m'\<rparr>)"
  using assms by (auto simp: phys_stored_def run_stored_def phys_acc_def phys_at_def phys_wr_def fun_eq_iff mapped_def plain_at_def overlay_at_def)

lemma phys_stored_append:
  assumes "phys_stored m a xs m1" "phys_stored m1 (a + length xs) ys m2"
  shows "phys_stored m a (xs @ ys) m2"
  using assms by (auto simp: phys_stored_def plain_at_def overlay_at_def nth_append)

lemma mapped_prefix_all: "(\<And>i. i < n \<Longrightarrow> mapped bus (a + i)) \<Longrightarrow> mapped_prefix bus a n = n"
proof (induction n arbitrary: a)
  case (Suc n)
  have "mapped bus a" using Suc.prems [of 0] by simp
  moreover have "mapped_prefix bus (Suc a) n = n" using Suc.prems [of "Suc _"] by (intro Suc.IH) simp
  ultimately show ?case by simp
qed simp

lemma reached_all:
  assumes "unat a + n \<le> phys_lim" "\<And>i. i < n \<Longrightarrow> phys_acc pb (a + of_nat i)"
  shows "reached (fst (pb_phys pb)) a n = n"
proof -
  have "unat (a + of_nat i) = unat a + i" if "i < n" for i using assms(1) that by (simp add: unat_word_ariths unat_of_nat phys_lim_def)
  then show ?thesis using assms by (auto simp: reached_def phys_lim_def phys_acc_def intro: mapped_prefix_all)
qed

lemma low_address: "unat a < phys_lim \<Longrightarrow> a AND 0xFFFFFFFF = a" for a :: u64
  using unat_and32 [of a] by (simp add: phys_lim_def word_unat_eq_iff)

lemma unpaged_translate:
  assumes "mode (pb_mmu pb) = Disabled" "unat a < phys_lim"
  shows "pb_translate P cow a access pb = (Inr a, pb)"
  using pb_translate_disabled [OF assms(1), of P cow a access] low_address [OF assms(2)] by simp

lemma unpaged_read:
  fixes pb :: "('d, 'i) machine_bus"
  assumes "table_memory (pb_phys pb)" "unat a + n \<le> phys_lim" "\<And>i. i < n \<Longrightarrow> phys_acc pb (a + of_nat i)"
  shows "on_phys (\<lambda>m. mo_read_bytes physical_ops m a (replicate n 0)) pb = (Inr (map (\<lambda>i. phys_at pb (a + of_nat i)) [0..<n]), pb)"
proof -
  have "unat (a + of_nat i) = unat a + i" if "i < n" for i using assms(2) that by (simp add: unat_word_ariths unat_of_nat phys_lim_def)
  then show ?thesis
    using phys_read_bytes_eq [OF assms(1), of "replicate n 0" a] reached_all [OF assms(2,3)] assms(2)
    by (simp add: on_phys_def physical_ops_def phys_at_def phys_lim_def)
qed

lemma unpaged_read_loop:
  fixes pb :: "('d, 'i) machine_bus"
  assumes pb: "table_memory (pb_phys pb)" "mode (pb_mmu pb) = Disabled" and n: "unat a + n \<le> phys_lim" "\<And>i. i < n \<Longrightarrow> phys_acc pb (a + of_nat i)"
    and "off \<le> n" "n - off \<le> fuel"
  shows "read_access_loop physical_ops cow a n access off dst fuel pb = (Inr (dst @ map (\<lambda>i. phys_at pb (a + of_nat i)) [off..<n]), pb)"
  using assms(5,6)
proof (induction fuel arbitrary: off dst)
  case 0
  then show ?case by (subst read_access_loop.simps) (simp add: act_return_def)
next
  case (Suc fuel)
  show ?case
  proof (cases "off < n")
    case True
    let ?a = "a + of_nat off"
    let ?k = "page_chunk ?a (n - off)"
    have k: "?k \<le> n - off" "0 < ?k" using page_chunk_bounds(1) [of ?a] page_chunk_bounds(3) [of "n - off" ?a] True by simp_all
    have u: "unat ?a = unat a + off" using n(1) True by (simp add: unat_word_ariths unat_of_nat phys_lim_def)
    have acc: "phys_acc pb (?a + of_nat i)" if "i < ?k" for i using n(2) [of "off + i"] that k by (simp add: add.assoc)
    have r: "on_phys (\<lambda>m. mo_read_bytes physical_ops m ?a (replicate ?k 0)) pb = (Inr (map (\<lambda>i. phys_at pb (?a + of_nat i)) [0..<?k]), pb)"
      using n(1) u k by (intro unpaged_read [OF pb(1) _ acc]) simp_all
    have t: "pb_translate physical_ops cow ?a access pb = (Inr ?a, pb)" using u n(1) True by (intro unpaged_translate [OF pb(2)]) simp
    have m: "map (\<lambda>i. phys_at pb (?a + of_nat i)) [0..<?k] @ map (\<lambda>i. phys_at pb (a + of_nat i)) [off + ?k..<n] = map (\<lambda>i. phys_at pb (a + of_nat i)) [off..<n]"
    proof -
      have "[off..<n] = [off..<off + ?k] @ [off + ?k..<n]" using upt_add_eq_append [of off "off + ?k" "n - off - ?k"] k True by simp
      moreover have "map (\<lambda>i. phys_at pb (?a + of_nat i)) [0..<?k] = map (\<lambda>i. phys_at pb (a + of_nat i)) [off..<off + ?k]"
        by (rule nth_equalityI) (simp_all add: add.assoc)
      ultimately show ?thesis by simp
    qed
    show ?thesis using True t r m Suc.IH [of "off + ?k" "dst @ map (\<lambda>i. phys_at pb (?a + of_nat i)) [0..<?k]"] k Suc.prems
      by (subst read_access_loop.simps) (simp add: Let_def)
  qed (use Suc.prems in \<open>subst read_access_loop.simps, simp add: act_return_def\<close>)
qed

text \<open>Writing the chunks to any memory with the same map stores the bytes from \<open>off\<close> on.\<close>

definition chunks_store :: "'d MemoryBus \<Rightarrow> nat \<Rightarrow> u8 list \<Rightarrow> nat \<Rightarrow> (u64 \<times> nat \<times> nat) list \<Rightarrow> bool" where
  "chunks_store bus a src off chs \<longleftrightarrow> (\<forall>m :: 'd machine_memory. table_memory m \<longrightarrow> overlays (fst m) = overlays bus \<longrightarrow> pm_len (ram (fst m)) = pm_len (ram bus) \<longrightarrow>
     phys_stored m (a + off) (drop off src) (write_chunks physical_ops src chs m))"

lemma chunks_storeD:
  "chunks_store bus a src off chs \<Longrightarrow> table_memory m \<Longrightarrow> overlays (fst m) = overlays bus \<Longrightarrow> pm_len (ram (fst m)) = pm_len (ram bus) \<Longrightarrow>
   phys_stored m (a + off) (drop off src) (write_chunks physical_ops src chs m)"
  unfolding chunks_store_def by blast

lemma unpaged_chunks:
  fixes pb :: "('d, 'i) machine_bus"
  assumes pb: "table_memory (pb_phys pb)" "mode (pb_mmu pb) = Disabled" and n: "unat a + length src \<le> phys_lim" "\<And>i. i < length src \<Longrightarrow> phys_acc pb (a + of_nat i)"
    and "off \<le> length src" "length src - off \<le> fuel"
  shows "\<exists>chs'. translate_chunks physical_ops cow a (length src) access off chs fuel pb = (Inr (chs @ chs'), pb) \<and>
    chunks_store (fst (pb_phys pb)) (unat a) src off chs'"
  using assms(5,6)
proof (induction fuel arbitrary: off chs)
  case 0
  then show ?case by (subst translate_chunks.simps) (simp add: act_return_def write_chunks_def chunks_store_def phys_stored_Nil)
next
  case (Suc fuel)
  show ?case
  proof (cases "off < length src")
    case True
    let ?a = "a + of_nat off"
    let ?k = "page_chunk ?a (length src - off)"
    have k: "?k \<le> length src - off" "0 < ?k" using page_chunk_bounds(1) [of ?a] page_chunk_bounds(3) [of "length src - off" ?a] True by simp_all
    have u: "unat ?a = unat a + off" using n(1) True by (simp add: unat_word_ariths unat_of_nat phys_lim_def)
    have t: "pb_translate physical_ops cow ?a access pb = (Inr ?a, pb)" using u n(1) True by (intro unpaged_translate [OF pb(2)]) simp
    obtain chs' where c: "translate_chunks physical_ops cow a (length src) access (off + ?k) (chs @ [(?a, ?k, off)]) fuel pb = (Inr (chs @ [(?a, ?k, off)] @ chs'), pb)"
      "chunks_store (fst (pb_phys pb)) (unat a) src (off + ?k) chs'"
    proof -
      have "off + ?k \<le> length src" "length src - (off + ?k) \<le> fuel" using k True Suc.prems by linarith+
      from Suc.IH [OF this, of "chs @ [(?a, ?k, off)]"] show ?thesis using that by auto
    qed
    have st: "phys_stored m (unat a + off) (drop off src) (write_chunks physical_ops src ((?a, ?k, off) # chs') m)"
      if m: "table_memory m" "overlays (fst m) = overlays (fst (pb_phys pb))" "pm_len (ram (fst m)) = pm_len (ram (fst (pb_phys pb)))" for m
    proof -
      let ?bs = "take ?k (drop off src)"
      let ?m1 = "mo_write_bytes physical_ops m ?a ?bs"
      have l: "length ?bs = ?k" using k by simp
      have "phys_acc (pb\<lparr>pb_phys := m\<rparr>) (?a + of_nat i)" if "i < ?k" for i
        using n(2) [of "off + i"] that k mapped_overlays [OF m(2,3)] by (simp add: add.assoc phys_acc_def)
      then have "reached (fst m) ?a ?k = ?k" using reached_all [of ?a ?k "pb\<lparr>pb_phys := m\<rparr>"] u n(1) k by simp
      then have 1: "phys_stored m (unat a + off) ?bs ?m1"
        using phys_writes_stored(1) [OF m(1), of ?bs ?a] l u k n(1) by (simp add: physical_ops_def phys_lim_def)
      then have 2: "phys_stored ?m1 (unat a + off + length ?bs) (drop (off + ?k) src) (write_chunks physical_ops src chs' ?m1)"
        using chunks_storeD [OF c(2), of ?m1] m l by (simp add: phys_stored_def add.assoc)
      have "?bs @ drop (off + ?k) src = drop off src" by (metis append_take_drop_id drop_drop add.commute)
      with phys_stored_append [OF 1 2] show ?thesis by (simp add: write_chunks_def)
    qed
    have "chunks_store (fst (pb_phys pb)) (unat a) src off ((?a, ?k, off) # chs')" unfolding chunks_store_def using st by blast
    then show ?thesis using True t c(1) by (subst translate_chunks.simps) (auto simp: Let_def)
  qed (use Suc.prems in \<open>subst translate_chunks.simps, simp add: act_return_def write_chunks_def chunks_store_def phys_stored_Nil\<close>)
qed

lemma unpaged_write_bytes:
  fixes pb :: "('d, 'i) machine_bus"
  assumes "table_memory (pb_phys pb)" "mode (pb_mmu pb) = Disabled" "unat a + length bs \<le> phys_lim" "\<And>i. i < length bs \<Longrightarrow> phys_acc pb (a + of_nat i)" "bs \<noteq> []"
  shows "\<exists>pb'. write_bytes_access physical_ops cow a bs access pb = (Inr (), pb') \<and> run_stored phys_lim phys_acc phys_at phys_wr pb a bs pb'"
proof -
  obtain chs where c: "translate_chunks physical_ops cow a (length bs) access 0 [] (length bs) pb = (Inr chs, pb)"
    "phys_stored (pb_phys pb) (unat a) bs (write_chunks physical_ops bs chs (pb_phys pb))"
    using unpaged_chunks [OF assms(1-4), of 0 "length bs" cow access "[]"] chunks_storeD [OF _ assms(1), of "fst (pb_phys pb)" "unat a" bs 0] by auto
  then show ?thesis using phys_stored_run [OF c(2)] assms(5) by (simp add: write_bytes_access_def on_phys_def)
qed

lemma unpaged_write_int:
  fixes pb :: "('d, 'i) machine_bus"
  assumes pb: "table_memory (pb_phys pb)" "mode (pb_mmu pb) = Disabled" "unat a + n \<le> phys_lim" "\<And>i. i < n \<Longrightarrow> phys_acc pb (a + of_nat i)" "0 < n"
    and wr: "phys_stored (pb_phys pb) (unat a) (take (reached (fst (pb_phys pb)) a n) (to_le_bytes n v)) (wr (pb_phys pb) a v)"
  shows "\<exists>pb'. write_int_access n wr physical_ops cow a access v pb = (Inr (), pb') \<and> run_stored phys_lim phys_acc phys_at phys_wr pb a (to_le_bytes n v) pb'"
proof -
  have "to_le_bytes n v \<noteq> []" using pb(5) by (metis length_to_le_bytes length_0_conv less_nat_zero_code)
  moreover have "phys_stored (pb_phys pb) (unat a) (to_le_bytes n v) (wr (pb_phys pb) a v)" using wr reached_all [OF pb(3,4)] by simp
  moreover have "unat a < phys_lim" using pb(3,5) by simp
  ultimately show ?thesis
    using unpaged_write_bytes [OF pb(1,2), of a "to_le_bytes n v" cow access] unpaged_translate [OF pb(2), of a physical_ops cow access] pb
      phys_stored_run [of pb a "to_le_bytes n v" "wr (pb_phys pb) a v"]
    by (auto simp: write_int_access_def on_phys_def)
qed


lemma unpaged_preflight:
  fixes pb :: "('d, 'i) machine_bus"
  assumes pb: "mode (pb_mmu pb) = Disabled"
  shows "pb_preflight P cow a n pb = (Inr (), pb)"
proof -
  have "preflight_loop P cow a n off fuel pb = (Inr (), pb)" if "n - off \<le> fuel" for off fuel
    using that
  proof (induction fuel arbitrary: off)
    case (Suc fuel)
    let ?k = "page_chunk (a + of_nat off) (n - off)"
    show ?case
    proof (cases "off < n")
      case True
      then have "0 < ?k" using page_chunk_bounds(3) [of "n - off" "a + of_nat off"] by simp
      then show ?thesis using Suc.IH [of "off + ?k"] Suc.prems pb_translate_disabled [OF pb, of P cow "a + of_nat off" Write]
        by (subst preflight_loop.simps) (simp add: Let_def act_return_def)
    qed (subst preflight_loop.simps; simp add: act_return_def)
  qed (subst preflight_loop.simps; simp add: act_return_def)
  then show ?thesis by (simp add: pb_preflight_def act_return_def)
qed

lemma unpaged_read_bytes:
  fixes pb :: "('d, 'i) machine_bus"
  assumes "table_memory (pb_phys pb)" "mode (pb_mmu pb) = Disabled" "unat a + n \<le> phys_lim" "\<And>i. i < n \<Longrightarrow> phys_acc pb (a + of_nat i)"
  shows "read_bytes_access physical_ops cow a n access pb = (Inr (map (\<lambda>i. phys_at pb (a + of_nat i)) [0..<n]), pb)"
  using unpaged_read_loop [OF assms, of 0 n cow access "[]"] by (simp add: read_bytes_access_def act_return_def)

lemma page_parts: "(a - (a AND (PAGE_SIZE - 1)) AND 0xFFFFFFFF) + (a AND (PAGE_SIZE - 1)) = a AND 0xFFFFFFFF"
  using page_base [of a] by (metis diff_add_cancel)

lemma unpaged_fetch:
  fixes pb :: "('d, 'i) machine_bus"
  assumes ok: "paging_ok R pb" "mode (pb_mmu pb) = Disabled" and n: "0 < n" "n \<le> 15" "unat a + n \<le> phys_lim" "\<And>i. i < n \<Longrightarrow> phys_acc pb (a + of_nat i)"
  shows "\<exists>pb'. pb_fetch physical_ops False a n pb = (Inr (pad15 (map (\<lambda>i. phys_at pb (a + of_nat i)) [0..<n])), pb') \<and> pb_phys pb' = pb_phys pb"
proof -
  have tm: "table_memory (pb_phys pb)" and memo: "\<And>v p. fetch_page pb = Some (v, p) \<Longrightarrow> p = v AND 0xFFFFFFFF"
    using ok by (auto simp: paging_ok_def memo_ok_def)
  have a: "unat a < phys_lim" using n by simp
  have t: "pb_translate physical_ops False a Execute pb = (Inr a, pb)" using unpaged_translate [OF ok(2) a] .
  have pp: "(a - (a AND (PAGE_SIZE - 1)) AND 0xFFFFFFFF) + (a AND (PAGE_SIZE - 1)) = a" using page_parts [of a] low_address [OF a] by simp
  have rd: "act_map pad15 (on_phys (\<lambda>m. mo_read_bytes physical_ops m a (replicate n 0))) (pb\<lparr>fetch_page := f\<rparr>) =
      (Inr (pad15 (map (\<lambda>i. phys_at pb (a + of_nat i)) [0..<n])), pb\<lparr>fetch_page := f\<rparr>)" for f
    using unpaged_read [of "pb\<lparr>fetch_page := f\<rparr>" a n] tm n(3,4) by (simp add: act_map_def act_return_def phys_acc_def phys_at_def)
  have rd0: "act_map pad15 (on_phys (\<lambda>m. mo_read_bytes physical_ops m a (replicate n 0))) pb = (Inr (pad15 (map (\<lambda>i. phys_at pb (a + of_nat i)) [0..<n])), pb)"
    using rd [of "fetch_page pb"] by simp
  have long: "act_map pad15 (read_bytes_access physical_ops False a n Execute) pb = (Inr (pad15 (map (\<lambda>i. phys_at pb (a + of_nat i)) [0..<n])), pb)"
    using unpaged_read_bytes [OF tm ok(2) n(3,4)] by (simp add: act_map_def act_return_def)
  show ?thesis
    using n(1,2) rd rd0 long t pp memo by (auto simp: pb_fetch_def Let_def min_absorb1 split: option.split)
qed

lemma unpaged_ok: "paging_ok (c0, c3, c4, ef, Disabled) pb \<Longrightarrow> table_memory (pb_phys pb) \<and> mode (pb_mmu pb) = Disabled"
  by (simp add: paging_ok_def mmu_regs_def)

lemma unpaged_writes:
  fixes pb :: "('d, 'i) machine_bus"
  assumes ok: "paging_ok (c0, c3, c4, ef, Disabled) pb"
  shows "unat a + 1 \<le> phys_lim \<Longrightarrow> phys_acc pb a \<Longrightarrow>
      \<exists>pb'. write_u8_access physical_ops False a Write v8 pb = (Inr (), pb') \<and> run_stored phys_lim phys_acc phys_at phys_wr pb a (to_le_bytes 1 v8) pb'"
    "unat a + 2 \<le> phys_lim \<Longrightarrow> (\<And>i. i < 2 \<Longrightarrow> phys_acc pb (a + of_nat i)) \<Longrightarrow>
      \<exists>pb'. write_u16_access physical_ops False a Write v16 pb = (Inr (), pb') \<and> run_stored phys_lim phys_acc phys_at phys_wr pb a (to_le_bytes 2 v16) pb'"
    "unat a + 4 \<le> phys_lim \<Longrightarrow> (\<And>i. i < 4 \<Longrightarrow> phys_acc pb (a + of_nat i)) \<Longrightarrow>
      \<exists>pb'. write_u32_access physical_ops False a Write v32 pb = (Inr (), pb') \<and> run_stored phys_lim phys_acc phys_at phys_wr pb a (to_le_bytes 4 v32) pb'"
    "unat a + 8 \<le> phys_lim \<Longrightarrow> (\<And>i. i < 8 \<Longrightarrow> phys_acc pb (a + of_nat i)) \<Longrightarrow>
      \<exists>pb'. write_u64_access physical_ops False a Write v64 pb = (Inr (), pb') \<and> run_stored phys_lim phys_acc phys_at phys_wr pb a (to_le_bytes 8 v64) pb'"
    "unat a + 16 \<le> phys_lim \<Longrightarrow> (\<And>i. i < 16 \<Longrightarrow> phys_acc pb (a + of_nat i)) \<Longrightarrow>
      \<exists>pb'. write_u128_access physical_ops False a Write v128 pb = (Inr (), pb') \<and> run_stored phys_lim phys_acc phys_at phys_wr pb a (to_le_bytes 16 v128) pb'"
proof -
  note pb = unpaged_ok [OF ok, THEN conjunct1] unpaged_ok [OF ok, THEN conjunct2]
  note st = phys_writes_stored(2-) [OF pb(1), of a]
  show "unat a + 1 \<le> phys_lim \<Longrightarrow> phys_acc pb a \<Longrightarrow>
      \<exists>pb'. write_u8_access physical_ops False a Write v8 pb = (Inr (), pb') \<and> run_stored phys_lim phys_acc phys_at phys_wr pb a (to_le_bytes 1 v8) pb'"
    using st(1) [of v8] reached_all [of a 1 pb] unpaged_translate [OF pb(2), of a physical_ops False Write] phys_stored_run [of pb a "to_le_bytes 1 v8" "phys_write_u8 (pb_phys pb) a v8"]
    by (simp add: write_u8_access_def on_phys_def physical_ops_def del: One_nat_def)
  show "unat a + 2 \<le> phys_lim \<Longrightarrow> (\<And>i. i < 2 \<Longrightarrow> phys_acc pb (a + of_nat i)) \<Longrightarrow>
      \<exists>pb'. write_u16_access physical_ops False a Write v16 pb = (Inr (), pb') \<and> run_stored phys_lim phys_acc phys_at phys_wr pb a (to_le_bytes 2 v16) pb'"
    unfolding write_u16_access_def using st(2) [of v16] by (intro unpaged_write_int [OF pb]) (simp_all add: physical_ops_def)
  show "unat a + 4 \<le> phys_lim \<Longrightarrow> (\<And>i. i < 4 \<Longrightarrow> phys_acc pb (a + of_nat i)) \<Longrightarrow>
      \<exists>pb'. write_u32_access physical_ops False a Write v32 pb = (Inr (), pb') \<and> run_stored phys_lim phys_acc phys_at phys_wr pb a (to_le_bytes 4 v32) pb'"
    unfolding write_u32_access_def using st(3) [of v32] by (intro unpaged_write_int [OF pb]) (simp_all add: physical_ops_def physical_bus_simps)
  show "unat a + 8 \<le> phys_lim \<Longrightarrow> (\<And>i. i < 8 \<Longrightarrow> phys_acc pb (a + of_nat i)) \<Longrightarrow>
      \<exists>pb'. write_u64_access physical_ops False a Write v64 pb = (Inr (), pb') \<and> run_stored phys_lim phys_acc phys_at phys_wr pb a (to_le_bytes 8 v64) pb'"
    unfolding write_u64_access_def using st(4) [of v64] by (intro unpaged_write_int [OF pb]) (simp_all add: physical_ops_def physical_bus_simps)
  show "unat a + 16 \<le> phys_lim \<Longrightarrow> (\<And>i. i < 16 \<Longrightarrow> phys_acc pb (a + of_nat i)) \<Longrightarrow>
      \<exists>pb'. write_u128_access physical_ops False a Write v128 pb = (Inr (), pb') \<and> run_stored phys_lim phys_acc phys_at phys_wr pb a (to_le_bytes 16 v128) pb'"
    unfolding write_u128_access_def by (rule unpaged_write_bytes [OF pb]) (simp_all add: to_le_bytes_def)
qed

interpretation unpaged: linear_bus "paging_ok (c0, c3, c4, ef, Disabled)" "paging_same :: ('d, 'i) machine_bus \<Rightarrow> _" "paging_bus physical_ops False I"
  phys_lim phys_acc phys_at phys_wr for c0 c3 c4 ef and I :: "'i IoBus"
proof
  fix b :: "('d, 'i) machine_bus" and a :: u64 and n :: nat
  assume ok: "paging_ok (c0, c3, c4, ef, Disabled) b" and n: "0 < n" "unat a + n \<le> phys_lim" and acc: "\<And>i. i < n \<Longrightarrow> phys_acc b (a + of_nat i)"
  note pb = unpaged_ok [OF ok, THEN conjunct1] unpaged_ok [OF ok, THEN conjunct2]
  show "cb_read_bytes (paging_bus physical_ops False I) a n b = (Inr (map (\<lambda>i. phys_at b (a + of_nat i)) [0..<n]), b)"
    using unpaged_read_bytes [OF pb n(2) acc] by (simp add: paging_bus_def)
  show "cb_preflight_write_bytes (paging_bus physical_ops False I) a n b = (Inr (), b)" using unpaged_preflight [OF pb(2)] by (simp add: paging_bus_def)
  show "\<exists>b'. cb_fetch (paging_bus physical_ops False I) a n b = (Inr (pad15 (map (\<lambda>i. phys_at b (a + of_nat i)) [0..<n])), b') \<and>
      phys_acc b' = phys_acc b \<and> phys_at b' = phys_at b" if "n \<le> 15"
    using unpaged_fetch [OF ok pb(2) n(1) that n(2) acc] by (auto simp: paging_bus_def phys_acc_def phys_at_def fun_eq_iff)
next
  fix b :: "('d, 'i) machine_bus" and a :: u64 and bs :: "u8 list"
  assume ok: "paging_ok (c0, c3, c4, ef, Disabled) b" and bs: "bs \<noteq> []" "unat a + length bs \<le> phys_lim" and acc: "\<And>i. i < length bs \<Longrightarrow> phys_acc b (a + of_nat i)"
  show "\<exists>b'. cb_write_bytes (paging_bus physical_ops False I) a bs b = (Inr (), b') \<and> run_stored phys_lim phys_acc phys_at phys_wr b a bs b'"
    using unpaged_write_bytes [OF _ _ bs(2) acc bs(1)] unpaged_ok [OF ok] by (simp add: paging_bus_def)
next
  show "2 ^ 32 \<le> phys_lim" "phys_lim \<le> 2 ^ 64" by (simp_all add: phys_lim_def)
qed (simp_all add: paging_bus_def read_u8_bytes read_ints_bytes read_u128_access_def unpaged_writes del: One_nat_def)

section \<open>Properties\<close>

text \<open>A machine with 10 KiB of RAM and a given MMU.\<close>

definition sample_paging :: "Mmu \<Rightarrow> (nat, unit) machine_bus" where
  "sample_paging mmu = with_mmu_and_io mmu sample_machine ()"

lemma sample_paging_ok: "paging_ok (mmu_regs mmu) (sample_paging mmu)"
  by (simp add: paging_ok_def memo_ok_def sample_paging_def with_mmu_and_io_def sample_machine_tables)

lemma sample_paging_plain: "x < 10240 \<Longrightarrow> plain_at (fst (pb_phys (sample_paging mmu))) x"
  by (simp add: plain_at_def overlay_at_def sample_paging_def with_mmu_and_io_def sample_machine_def sample_memory_def)

lemma plain_mapped: "plain_at bus x \<Longrightarrow> mapped bus x"
  by (simp add: plain_at_def mapped_def)

text \<open>
  (C18) What the processor stores is what it loads. Outside long mode and without paging, a store through \<^verbatim>\<open>write_bytes_wrapped\<close> whose
  addresses, each wrapped at 4 GB and masked by the A20 gate, are distinct and lie in RAM succeeds; loading the range gives the bytes
  back, and no other byte below 4 GB changes.
\<close>

theorem linear_store_reads_back:
  assumes "table_memory (pb_phys pb)" "mode (pb_mmu pb) = Disabled" "memo_ok pb" "cpu_mode s \<noteq> Long" "length src < 2 ^ 64"
    and "\<And>i. i < length src \<Longrightarrow> plain_at (fst (pb_phys pb)) (unat (apply_a20 s (addr + of_nat i)))"
    and "inj_on (\<lambda>i. apply_a20 s (addr + of_nat i)) {..<length src}"
  shows "\<exists>pb'. write_bytes_wrapped (paging_bus physical_ops False I) s addr src pb = (Inr (), pb') \<and>
    read_bytes_wrapped (paging_bus physical_ops False I) s addr (length src) pb' = (Inr src, pb') \<and>
    (\<forall>x. unat x < 2 ^ 32 \<longrightarrow> (\<forall>i < length src. x \<noteq> apply_a20 s (addr + of_nat i)) \<longrightarrow>
       open_byte (pb_phys pb') (unat x) = open_byte (pb_phys pb) (unat x))"
proof -
  have at: "(\<lambda>i. apply_a20 s (addr + of_nat i)) = linear_bus.at s addr" by (simp add: unpaged.at_def fun_eq_iff)
  have ok: "paging_ok (cr0 (pb_mmu pb), cr3 (pb_mmu pb), cr4 (pb_mmu pb), efer (pb_mmu pb), Disabled) pb"
    using assms(1-3) by (simp add: paging_ok_def mmu_regs_def)
  have cov: "unpaged.covered (cr0 (pb_mmu pb)) (cr3 (pb_mmu pb)) (cr4 (pb_mmu pb)) (efer (pb_mmu pb)) pb s addr (length src)"
    using assms(4-6) ok by (auto simp: unpaged.covered_def phys_acc_def unpaged.at_def intro: plain_mapped)
  show ?thesis
    using unpaged.write_then_read [OF cov assms(7) [unfolded at]] assms(6) by (simp add: phys_lim_def phys_wr_def phys_at_def unpaged.at_def)
qed

theorem linear_store_reads_back_witness:
  "\<exists>pb'. write_bytes_wrapped (paging_bus physical_ops False NoIo) (CpuState_default\<lparr>a20_enabled := False\<rparr>) 0x100FFF [1, 2, 3] (sample_paging Mmu_new) = (Inr (), pb') \<and>
     read_bytes_wrapped (paging_bus physical_ops False NoIo) (CpuState_default\<lparr>a20_enabled := False\<rparr>) 0x100FFF 3 pb' = (Inr [1, 2, 3], pb')"
proof -
  let ?s = "CpuState_default\<lparr>a20_enabled := False\<rparr>"
  have u: "apply_a20 ?s (0x100FFF + of_nat i) = 0xFFF + of_nat i" if "i < 3" for i
  proof -
    consider "i = 0" | "i = 1" | "i = 2" using \<open>i < 3\<close> by linarith
    then show ?thesis by cases (simp_all add: apply_a20_def CpuState_default_def)
  qed
  have n: "unat (0xFFF + of_nat i :: u64) = 0xFFF + i" if "i < 3" for i using that by (simp add: unat_word_ariths unat_of_nat)
  let ?pb = "sample_paging Mmu_new" and ?src = "[1, 2, 3] :: u8 list"
  have pb: "table_memory (pb_phys ?pb)" "mode (pb_mmu ?pb) = Disabled" "memo_ok ?pb"
    using sample_paging_ok [of Mmu_new]
    by (simp_all add: paging_ok_def sample_paging_def with_mmu_and_io_def Mmu_new_def update_cached_state_def Let_def cr_defs)
  have s: "cpu_mode ?s \<noteq> Long" by (simp add: CpuState_default_def)
  have inj: "inj_on (\<lambda>i. apply_a20 ?s (0x100FFF + of_nat i)) {..<length ?src}"
  proof (rule inj_onI)
    fix i j assume ij: "i \<in> {..<length ?src}" "j \<in> {..<length ?src}" "apply_a20 ?s (0x100FFF + of_nat i) = apply_a20 ?s (0x100FFF + of_nat j)"
    have l: "i < 3" "j < 3" using ij(1,2) by simp_all
    have "unat (0xFFF + of_nat i :: u64) = unat (0xFFF + of_nat j :: u64)" using ij(3) unfolding u [OF l(1)] u [OF l(2)] by (rule arg_cong)
    then show "i = j" unfolding n [OF l(1)] n [OF l(2)] by (rule add_left_imp_eq)
  qed
  have plain: "plain_at (fst (pb_phys ?pb)) (unat (apply_a20 ?s (0x100FFF + of_nat i)))" if "i < length ?src" for i
    using that u [of i] n [of i] by (simp add: sample_paging_plain)
  show ?thesis using linear_store_reads_back [OF pb s _ plain inj, of NoIo] by (auto simp: numeral_3_eq_3)
qed

text \<open>
  A failed store leaves memory alone. In every paging mode and at every privilege level, when a store of any length to a range that
  does not wrap fails, whatever page it fails on, every byte of memory is what it was, up to accessed and dirty bits of page tables,
  which are only set; the device side, the privilege level and the registers of the MMU are unchanged.
\<close>

theorem failed_store_only_marks:
  assumes "paging_ok (mmu_regs (pb_mmu pb)) pb" "contiguous_masked_start s addr (length src) \<noteq> None"
    and "write_bytes_wrapped (paging_bus physical_ops False I) s addr src pb = (Inl e, pb')"
  shows "(\<forall>x. ad_grow (open_byte (pb_phys pb) x) (open_byte (pb_phys pb') x)) \<and>
    pb_io pb' = pb_io pb \<and> pb_cpl pb' = pb_cpl pb \<and> mmu_regs (pb_mmu pb') = mmu_regs (pb_mmu pb)"
  using fault_safeD [OF paging.write_bytes_wrapped_safe [OF assms(2)] assms(1,3)] by (simp add: paging_same_def ad_grown_def)


theorem failed_store_only_marks_witness:
  "\<exists>pb'. write_bytes_wrapped (paging_bus physical_ops False NoIo) (CpuState_new Long) 0x800000000000 [1, 2] (sample_paging (Mmu_new\<lparr>mode := Long4\<rparr>)) =
       (Inl (Fail gp0), pb') \<and>
     (\<forall>x. ad_grow (open_byte sample_machine x) (open_byte (pb_phys pb') x))"
proof -
  let ?pb = "sample_paging (Mmu_new\<lparr>mode := Long4\<rparr>)"
  have l: "cpu_mode (CpuState_new Long) = Long" by (simp add: CpuState_new_def map_cs_def CpuState_default_def)
  have c: "contiguous_masked_start (CpuState_new Long) 0x800000000000 2 = Some 0x800000000000"
    using l by (simp add: contiguous_masked_start_def wrapped_segment_len_def checked_add_def Let_def)
  have m: "mode (pb_mmu ?pb) = Long4" "pb_phys ?pb = sample_machine" "pb_mmu ?pb = Mmu_new\<lparr>mode := Long4\<rparr>"
    by (simp_all add: sample_paging_def with_mmu_and_io_def)
  have t: "pb_translate physical_ops False 0x800000000000 Write ?pb = (Inl (Fail gp0), ?pb)"
    using m by (simp add: pb_translate_def translate_def linear_address_def is_canonical_48_def)
  have w: "write_bytes_wrapped (paging_bus physical_ops False NoIo) (CpuState_new Long) 0x800000000000 [1, 2] ?pb = (Inl (Fail gp0), ?pb)"
    using c t by (simp add: write_bytes_wrapped_def paging_bus_def write_bytes_access_def translate_chunks.simps [of _ _ _ _ _ _ _ "Suc _"] Let_def numeral_2_eq_2)
  have "paging_ok (mmu_regs (pb_mmu ?pb)) ?pb" using sample_paging_ok m(3) by simp
  then show ?thesis using failed_store_only_marks [OF _ _ w] c w m(2) by (simp add: numeral_2_eq_2)
qed

end
