(* ===== verification/CpuExec.thy ===== *)
theory CpuExec
  imports CpuFlow CpuShift CpuString PagingBus
begin

text \<open>
  The interpreter loop, \<^verbatim>\<open>aero-cpu-core/src/interp/tier0\<close>: the dispatch of \<^verbatim>\<open>mod.rs\<close>, one step and a batch of steps of
  \<^verbatim>\<open>exec.rs\<close>. Two things are arguments. The decoder, a wrapper of the package \<^verbatim>\<open>iced-x86\<close>, is a function from bytes, instruction
  pointer and code size to an instruction and its length. The instruction groups that are not modelled (x87, SSE and
  state saving instructions, all of them \<open>OtherMnemonic\<close>, and the SSE forms of \<^verbatim>\<open>MOVSD\<close> and \<^verbatim>\<open>CMPSD\<close>) are an action of the instruction, the next instruction pointer and
  whether an address-size prefix is present; the theorems leave them out. The memo table of the dispatch caches a pure function and is
  left out, as are tracing and watchpoints.
\<close>

section \<open>The dispatch\<close>

definition CR0_MP :: u64 where "CR0_MP = push_bit 1 1"
definition CR0_EM :: u64 where "CR0_EM = push_bit 2 1"
definition CR0_TS :: u64 where "CR0_TS = push_bit 3 1"
definition CR0_NE :: u64 where "CR0_NE = push_bit 5 1"
definition CR4_OSFXSR :: u64 where "CR4_OSFXSR = push_bit 9 1"

datatype FpKind = X87 | Sse

definition check_fp_available :: "CpuState \<Rightarrow> FpKind \<Rightarrow> Exception + unit" where
  "check_fp_available s knd =
     (if ctl_cr0 (control s) AND CR0_EM \<noteq> 0 then Inl InvalidOpcode
      else if knd = Sse \<and> ctl_cr4 (control s) AND CR4_OSFXSR = 0 then Inl InvalidOpcode
      else if ctl_cr0 (control s) AND CR0_TS \<noteq> 0 then Inl DeviceNotAvailable
      else Inr ())"

definition has_unmasked_exception :: "FpuState \<Rightarrow> bool" where
  "has_unmasked_exception f \<longleftrightarrow> (fsw f AND 0x3F) AND NOT (fcw f AND 0x3F) \<noteq> 0"

definition set_irq13_pending :: "CpuState \<Rightarrow> bool \<Rightarrow> CpuState" where
  "set_irq13_pending s p = s\<lparr>irq13_pending := p\<rparr>"

definition exec_wait :: "CpuState \<Rightarrow> Exception failure + unit \<times> CpuState" where
  "exec_wait s =
     (let cr0 = ctl_cr0 (control s)
      in if cr0 AND CR0_EM \<noteq> 0 then Inl (Fail InvalidOpcode)
         else if cr0 AND CR0_MP \<noteq> 0 \<and> cr0 AND CR0_TS \<noteq> 0 then Inl (Fail DeviceNotAvailable)
         else if has_unmasked_exception (fpu s) then
           if cr0 AND CR0_NE \<noteq> 0 then Inl (Fail X87Fpu) else Inr ((), set_irq13_pending s True)
         else Inr ((), s))"

definition mnemonic_allows_lock_prefix :: "Mnemonic \<Rightarrow> bool" where
  "mnemonic_allows_lock_prefix m \<longleftrightarrow>
     m \<in> set (map Arith [M_Add, M_Adc, M_And, M_Dec, M_Inc, M_Neg, M_Not, M_Or, M_Sbb, M_Sub, M_Xor] @
              map BitOp [M_Btc, M_Btr, M_Bts] @ map Atomic [M_Cmpxchg, M_Cmpxchg8b, M_Cmpxchg16b] @ map Data [M_Xadd, M_Xchg])"

definition clear_ts :: "CpuState \<Rightarrow> CpuState" where
  "clear_ts s = s\<lparr>control := (control s)\<lparr>ctl_cr0 := ctl_cr0 (control s) AND NOT CR0_TS\<rparr>\<rparr>"

definition exec_system :: "SystemMnemonic \<Rightarrow> ('b, ExecOutcome) cpu_action" where
  "exec_system m =
     (case m of
        M_Clts \<Rightarrow> act_bind (cpu_get cpl) (\<lambda>l. if l \<noteq> 0 then act_fail gp0 else act_then (cpu_set clear_ts) (act_return Continue))
      | M_Wait \<Rightarrow> act_then (cpu_run exec_wait) (act_return Continue)
      | M_Hlt \<Rightarrow> act_bind (cpu_get cpl) (\<lambda>l. if l \<noteq> 0 then act_fail gp0 else act_return Halt)
      | M_Cpuid \<Rightarrow> act_return (Assist CpuidAssist)
      | M_Rdmsr \<Rightarrow> act_return (Assist MsrAssist) | M_Wrmsr \<Rightarrow> act_return (Assist MsrAssist)
      | M_Rdtsc \<Rightarrow> act_return (Assist Unsupported) | M_Rdtscp \<Rightarrow> act_return (Assist Unsupported)
      | M_Lfence \<Rightarrow> act_return (Assist Unsupported) | M_Sfence \<Rightarrow> act_return (Assist Unsupported) | M_Mfence \<Rightarrow> act_return (Assist Unsupported))"

type_synonym 'b other_exec = "Instruction \<Rightarrow> u64 \<Rightarrow> bool \<Rightarrow> ('b, ExecOutcome) cpu_action"

definition exec_decoded :: "'b CpuBus \<Rightarrow> 'b other_exec \<Rightarrow> Instruction \<Rightarrow> u64 \<Rightarrow> bool \<Rightarrow> ('b, ExecOutcome) cpu_action" where
  "exec_decoded B other instr next_ip addr_size_override =
     (if has_lock_prefix instr \<and> \<not> mnemonic_allows_lock_prefix (mnemonic instr) then act_fail InvalidOpcode
      else case mnemonic instr of
        Atomic _ \<Rightarrow> exec_atomics B instr next_ip
      | Jump _ \<Rightarrow> exec_flow B instr next_ip | Jcc _ \<Rightarrow> exec_flow B instr next_ip
      | Hint _ \<Rightarrow> exec_flow B instr next_ip | Stack _ \<Rightarrow> exec_flow B instr next_ip
      | Data _ \<Rightarrow> exec_data B instr next_ip | Cmov _ \<Rightarrow> exec_data B instr next_ip | Setcc _ \<Rightarrow> exec_data B instr next_ip
      | Arith _ \<Rightarrow> exec_alu B instr next_ip | Shift _ \<Rightarrow> exec_alu B instr next_ip
      | BitOp _ \<Rightarrow> exec_alu B instr next_ip | FlagOp _ \<Rightarrow> exec_alu B instr next_ip
      | System m \<Rightarrow> exec_system m
      | IoOp _ \<Rightarrow> act_return (Assist Io)
      | InterruptOp _ \<Rightarrow> act_return (Assist InterruptAssist)
      | PrivilegedOp _ \<Rightarrow> act_return (Assist Privileged)
      | StringM m \<Rightarrow> if handles_string instr then exec_string B m instr addr_size_override else other instr next_ip addr_size_override
      | OtherMnemonic _ \<Rightarrow> other instr next_ip addr_size_override)"

text \<open>The instructions of the modelled groups.\<close>

definition modelled :: "Instruction \<Rightarrow> bool" where
  "modelled i \<longleftrightarrow> (case mnemonic i of OtherMnemonic _ \<Rightarrow> False | StringM _ \<Rightarrow> handles_string i | _ \<Rightarrow> True)"

section \<open>One step\<close>

datatype DecodeError = UnexpectedEof | InvalidInstruction

record DecodedInst =
  d_instr :: Instruction
  d_len :: u8

type_synonym decoder = "u8 list \<Rightarrow> u64 \<Rightarrow> nat \<Rightarrow> DecodeError + DecodedInst"

datatype StepExit =
    StepContinue | StepContinueInhibitInterrupts | StepBranch | StepHalted | StepBiosInterrupt u8 | StepAssist AssistReason DecodedInst bool

definition apply_exception_side_effects :: "Exception \<Rightarrow> CpuState \<Rightarrow> CpuState" where
  "apply_exception_side_effects e s = (case e of PageFaultEx addr _ \<Rightarrow> s\<lparr>control := (control s)\<lparr>ctl_cr2 := addr\<rparr>\<rparr> | _ \<Rightarrow> s)"

definition act_catch :: "('s, 'a) action \<Rightarrow> (Exception \<Rightarrow> ('s, 'a) action) \<Rightarrow> ('s, 'a) action" where
  "act_catch m h s = (case m s of (Inl (Fail e), s') \<Rightarrow> h e s' | r \<Rightarrow> r)"

definition raise_in_step :: "Exception \<Rightarrow> ('b, 'a) cpu_action" where
  "raise_in_step e = act_then (cpu_set (apply_exception_side_effects e)) (act_fail e)"

definition fetch_and_decode :: "'b CpuBus \<Rightarrow> decoder \<Rightarrow> u64 \<Rightarrow> u64 \<Rightarrow> ('b, u8 list \<times> DecodedInst) cpu_action" where
  "fetch_and_decode B decode cs_base ip =
     act_bind (cpu_bus (\<lambda>s. fetch_wrapped_seg_ip_first_page B s cs_base ip 15)) (\<lambda>(bs, available).
     act_bind (cpu_get bitness) (\<lambda>bits.
     case decode (take available bs) ip bits of
       Inr d \<Rightarrow> act_return (bs, d)
     | Inl UnexpectedEof \<Rightarrow>
         if available < 15 then
           act_bind (cpu_bus (\<lambda>s. fetch_wrapped_seg_ip B s cs_base ip 15)) (\<lambda>bs.
           case decode bs ip bits of Inr d \<Rightarrow> act_return (bs, d) | Inl _ \<Rightarrow> act_fail InvalidOpcode)
         else act_fail InvalidOpcode
     | Inl InvalidInstruction \<Rightarrow> act_fail InvalidOpcode))"

definition is_prefix :: "nat \<Rightarrow> u8 \<Rightarrow> bool" where
  "is_prefix bits b \<longleftrightarrow> b \<in> {0xF0, 0xF2, 0xF3, 0x2E, 0x36, 0x3E, 0x26, 0x64, 0x65, 0x66, 0x67} \<or> (bits = 64 \<and> 0x40 \<le> b \<and> b \<le> 0x4F)"

definition has_addr_size_override :: "u8 list \<Rightarrow> nat \<Rightarrow> bool" where
  "has_addr_size_override bs bits = (0x67 \<in> set (takeWhile (is_prefix bits) bs))"

definition is_x87_opcode :: "u8 list \<Rightarrow> nat \<Rightarrow> bool" where
  "is_x87_opcode bs bits =
     (case dropWhile (is_prefix bits) bs of
        [] \<Rightarrow> False
      | b # rest \<Rightarrow>
          if 0xD8 \<le> b \<and> b \<le> 0xDF then True
          else if b = 0x9B then (case rest of [] \<Rightarrow> False | c # _ \<Rightarrow> 0xD8 \<le> c \<and> c \<le> 0xDF)
          else False)"

definition step_failed :: "u8 list \<Rightarrow> nat \<Rightarrow> Exception \<Rightarrow> ('b, 'a) cpu_action" where
  "step_failed bs bits e =
     act_bind (cpu_get (\<lambda>s. if e = InvalidOpcode \<and> is_x87_opcode bs bits then check_fp_available s X87 else Inr ())) (\<lambda>fp.
     case fp of Inl fp_e \<Rightarrow> raise_in_step fp_e | Inr _ \<Rightarrow> raise_in_step e)"

definition finish_step :: "DecodedInst \<Rightarrow> bool \<Rightarrow> u64 \<Rightarrow> ExecOutcome \<Rightarrow> ('b, StepExit) cpu_action" where
  "finish_step d addr_size_override next_ip res =
     (case res of
        Continue \<Rightarrow> act_then (cpu_set (\<lambda>s. set_ip s next_ip)) (act_return StepContinue)
      | ContinueInhibitInterrupts \<Rightarrow> act_then (cpu_set (\<lambda>s. set_ip s next_ip)) (act_return StepContinueInhibitInterrupts)
      | Halt \<Rightarrow>
          act_then (cpu_set (\<lambda>s. set_ip s next_ip))
            (act_bind (cpu_get (\<lambda>s. fst (take_pending_bios_int s))) (\<lambda>v.
             act_then (cpu_set (\<lambda>s. snd (take_pending_bios_int s)))
               (case v of
                  Some vector \<Rightarrow> act_return (StepBiosInterrupt vector)
                | None \<Rightarrow> act_then (cpu_set (\<lambda>s. s\<lparr>halted := True\<rparr>)) (act_return StepHalted))))
      | Branch \<Rightarrow> act_return StepBranch
      | Assist reason \<Rightarrow> act_return (StepAssist reason d addr_size_override))"

definition cpu_sync :: "'b CpuBus \<Rightarrow> ('b, unit) cpu_action" where
  "cpu_sync B = (\<lambda>(s, b). (Inr (), (s, cb_sync B s b)))"

definition step_with_decoder :: "'b CpuBus \<Rightarrow> 'b other_exec \<Rightarrow> decoder \<Rightarrow> ('b, StepExit) cpu_action" where
  "step_with_decoder B other decode =
     act_then (cpu_sync B)
       (act_bind (cpu_get get_ip) (\<lambda>ip.
        act_bind (cpu_get (\<lambda>s. seg_base_reg s (Seg CS))) (\<lambda>cs_base.
        act_bind (act_catch (fetch_and_decode B decode cs_base ip) raise_in_step) (\<lambda>(bs, d).
        act_bind (cpu_get bitness) (\<lambda>bits.
        let over = has_addr_size_override bs bits;
            next_ip = (ip + ucast (d_len d)) AND mask_bits bits
        in act_bind (act_catch (exec_decoded B other (d_instr d) next_ip over) (step_failed bs bits))
             (finish_step d over next_ip))))))"

section \<open>Batches\<close>

text \<open>The variant \<^verbatim>\<open>CpuExit\<close> only arises in \<^verbatim>\<open>run_batch_with_assists\<close>, which is not modelled.\<close>

datatype BatchExit = BatchCompleted | BatchBranch | BatchHalted | BatchBiosInterrupt u8 | BatchAssist AssistReason | BatchException Exception

record BatchResult =
  executed :: nat
  batch_exit :: BatchExit

text \<open>
  The loop counts up to \<^verbatim>\<open>max_insts\<close>; \<open>n\<close> is what is left, \<open>k\<close> what has been executed. A panic or a loop without progress inside a step
  ends the program and is passed on.
\<close>

fun batch_loop :: "('b, StepExit) cpu_action \<Rightarrow> nat \<Rightarrow> nat \<Rightarrow> ('b, BatchResult) cpu_action" where
  "batch_loop step k 0 = act_return \<lparr> executed = k, batch_exit = BatchCompleted \<rparr>"
| "batch_loop step k (Suc n) =
     act_bind (act_catch (act_map Inl step) (\<lambda>e. act_return (Inr e))) (\<lambda>r.
     case r of
       Inl StepContinue \<Rightarrow> batch_loop step (k + 1) n
     | Inl StepContinueInhibitInterrupts \<Rightarrow> batch_loop step (k + 1) n
     | Inl StepBranch \<Rightarrow> act_return \<lparr> executed = k + 1, batch_exit = BatchBranch \<rparr>
     | Inl StepHalted \<Rightarrow> act_return \<lparr> executed = k + 1, batch_exit = BatchHalted \<rparr>
     | Inl (StepBiosInterrupt v) \<Rightarrow> act_return \<lparr> executed = k + 1, batch_exit = BatchBiosInterrupt v \<rparr>
     | Inl (StepAssist reason _ _) \<Rightarrow> act_return \<lparr> executed = k, batch_exit = BatchAssist reason \<rparr>
     | Inr e \<Rightarrow> act_return \<lparr> executed = k, batch_exit = BatchException e \<rparr>)"

definition run_batch :: "('b, StepExit) cpu_action \<Rightarrow> u64 \<Rightarrow> ('b, BatchResult) cpu_action" where
  "run_batch step max_insts =
     act_bind (cpu_get halted) (\<lambda>h.
     if h then act_return \<lparr> executed = 0, batch_exit = BatchHalted \<rparr> else batch_loop step 0 (unat max_insts))"

text \<open>The state after \<open>j\<close> steps that all go on to the next instruction.\<close>

fun continues :: "('b, StepExit) cpu_action \<Rightarrow> nat \<Rightarrow> CpuState \<times> 'b \<Rightarrow> (CpuState \<times> 'b) option" where
  "continues step 0 st = Some st"
| "continues step (Suc j) st =
     (case step st of
        (Inr StepContinue, st1) \<Rightarrow> continues step j st1
      | (Inr StepContinueInhibitInterrupts, st1) \<Rightarrow> continues step j st1
      | _ \<Rightarrow> None)"

section \<open>Failed steps\<close>

text \<open>The instructions that can be restarted after a fault, in the state where they are executed.\<close>

definition restartable :: "CpuState \<Rightarrow> Instruction \<Rightarrow> u64 \<Rightarrow> bool" where
  "restartable s i ip \<longleftrightarrow>
     ea_fits s i ip \<and> wide_fits s i ip \<and> stack_fits s \<and> data_form i \<and> flow_form i \<and> alu_form i \<and>
     (case mnemonic i of OtherMnemonic _ \<Rightarrow> False | StringM _ \<Rightarrow> False | _ \<Rightarrow> True)"

text \<open>The instruction that a step from this state fetches and decodes, if it gets that far.\<close>

definition decoded_at :: "'b CpuBus \<Rightarrow> decoder \<Rightarrow> CpuState \<Rightarrow> 'b \<Rightarrow> DecodedInst option" where
  "decoded_at B decode s b =
     (case fst (fetch_and_decode B decode (seg_base_reg s (Seg CS)) (get_ip s) (s, cb_sync B s b)) of Inr (_, d) \<Rightarrow> Some d | Inl _ \<Rightarrow> None)"

context fault_safe_bus
begin

lemma exec_system_precise: "precise ok same s (exec_system m)"
  unfolding exec_system_def
  by (cases m) (auto simp: act_then_def [of "cpu_run _"] intro!: precise_get precise_if precise_return precise_run precise_sure_then)

lemma exec_decoded_precise: "restartable s i ip \<Longrightarrow> precise ok same s (exec_decoded B other i ip ov)"
  unfolding exec_decoded_def restartable_def
  by (auto simp: precise_return exec_system_precise exec_atomics_precise exec_flow_precise exec_data_precise exec_alu_precise split: Mnemonic.splits)

lemma fetch_and_decode_unmoved: "unmoved ok same s (fetch_and_decode B decode base ip)"
  unfolding fetch_and_decode_def
  by (auto intro!: unmoved_bind unmoved_bus unmoved_basic fetch_seg_ip_quiet split: sum.split DecodeError.split prod.split)

end

lemma act_catch_cases:
  "act_catch m h st = (r, st') \<Longrightarrow>
    (\<exists>e st1. m st = (Inl (Fail e), st1) \<and> h e st1 = (r, st')) \<or> (m st = (r, st') \<and> (\<forall>e. r \<noteq> Inl (Fail e)))"
  by (auto simp: act_catch_def split: prod.splits sum.splits failure.splits)

lemma raise_in_step_eq: "raise_in_step e (s, b) = (Inl (Fail e), (apply_exception_side_effects e s, b))"
  by (simp add: raise_in_step_def act_then_def act_bind_def cpu_set_def act_fail_def)

lemma step_failed_eq: "\<exists>e'. step_failed bs bits e (s, b) = (Inl (Fail e'), (apply_exception_side_effects e' s, b))"
  by (auto simp: step_failed_def act_bind_def cpu_get_def raise_in_step_eq split: sum.split)

lemma sure_finish_step: "sure (finish_step d ov ip r)"
  by (auto simp: finish_step_def intro!: sure_then sure_bind split: ExecOutcome.split option.split)

text \<open>From the state \<open>s\<close>, an action either keeps its promise to the bus or fails with no more than the side effects of its exception.\<close>

definition clean :: "('b \<Rightarrow> bool) \<Rightarrow> ('b \<Rightarrow> 'b \<Rightarrow> bool) \<Rightarrow> CpuState \<Rightarrow> ('b, 'a) cpu_action \<Rightarrow> bool" where
  "clean ok same s m \<longleftrightarrow> (\<forall>b r s' b'. ok b \<longrightarrow> m (s, b) = (r, (s', b')) \<longrightarrow>
     ok b' \<and> (\<forall>e. r = Inl (Fail e) \<longrightarrow> s' = apply_exception_side_effects e s \<and> same b b'))"

definition raises :: "(Exception \<Rightarrow> ('b, 'a) cpu_action) \<Rightarrow> bool" where
  "raises h \<longleftrightarrow> (\<forall>e s b. \<exists>e'. h e (s, b) = (Inl (Fail e'), (apply_exception_side_effects e' s, b)))"

lemma raises_step: "raises raise_in_step" "raises (step_failed bs bits)"
  by (auto simp: raises_def raise_in_step_eq intro: step_failed_eq)

lemma catch_raises:
  assumes "raises h" "act_catch m h (s, b) = (r, st)"
  shows "(\<exists>e s1 b1 e'. m (s, b) = (Inl (Fail e), (s1, b1)) \<and> r = Inl (Fail e') \<and> st = (apply_exception_side_effects e' s1, b1)) \<or>
    (m (s, b) = (r, st) \<and> (\<forall>e. r \<noteq> Inl (Fail e)))"
  using act_catch_cases [OF assms(2)] assms(1) unfolding raises_def by (metis Pair_inject surj_pair)

context fault_safe_bus
begin

lemma clean_get: "clean ok same s (k (f s)) \<Longrightarrow> clean ok same s (act_bind (cpu_get f) k)"
  by (simp add: clean_def act_bind_def cpu_get_def)

lemma clean_catch_bind:
  assumes m: "unmoved ok same s m" and h: "raises h" and k: "\<And>x b1. m (s, b) = (Inr x, (s, b1)) \<Longrightarrow> clean ok same s (k x)"
    and b: "ok b" "act_bind (act_catch m h) k (s, b) = (r, (s', b'))"
  shows "ok b' \<and> (\<forall>e. r = Inl (Fail e) \<longrightarrow> s' = apply_exception_side_effects e s \<and> same b b')"
proof -
  consider x st where "act_catch m h (s, b) = (Inr x, st)" "k x st = (r, (s', b'))" | e where "act_catch m h (s, b) = (Inl e, (s', b'))" "r = Inl e"
    using b(2) unfolding act_bind_Inr by blast
  then show ?thesis
  proof cases
    case 1
    then obtain s1 b1 where f: "m (s, b) = (Inr x, (s1, b1))" "st = (s1, b1)" using catch_raises [OF h 1(1)] by (cases st) auto
    then have s1: "ok b1" "s1 = s" "same b b1" using unmovedD [OF m b(1)] by blast+
    then have "clean ok same s (k x)" using k f by blast
    then show ?thesis using s1 f(2) 1(2) same_trans unfolding clean_def by blast
  next
    case 2
    then show ?thesis using catch_raises [OF h 2(1)] unmovedD [OF m b(1)] by fastforce
  qed
qed

lemma clean_catch_sure:
  assumes m: "precise ok same s m" and h: "raises h" and k: "\<And>x. sure (k x)"
  shows "clean ok same s (act_bind (act_catch m h) k)"
  unfolding clean_def
proof (intro allI impI)
  fix b r s' b' assume b: "ok b" "act_bind (act_catch m h) k (s, b) = (r, (s', b'))"
  consider x s1 b1 where "act_catch m h (s, b) = (Inr x, (s1, b1))" "k x (s1, b1) = (r, (s', b'))" | e where "act_catch m h (s, b) = (Inl e, (s', b'))" "r = Inl e"
    using b(2) unfolding act_bind_Inr by (metis surj_pair)
  then show "ok b' \<and> (\<forall>e. r = Inl (Fail e) \<longrightarrow> s' = apply_exception_side_effects e s \<and> same b b')"
  proof cases
    case 1
    then have "m (s, b) = (Inr x, (s1, b1))" using catch_raises [OF h 1(1)] by auto
    then have "ok b1" using preciseD [OF m b(1)] by blast
    moreover obtain y s2 where "k x (s1, b1) = (Inr y, (s2, b1))" using k unfolding sure_def by metis
    ultimately show ?thesis using 1(2) by auto
  next
    case 2
    then show ?thesis using catch_raises [OF h 2(1)] preciseD [OF m b(1)] by fastforce
  qed
qed

lemma step_fails_cleanly:
  assumes ok: "ok (cb_sync B s b)"
    and form: "\<And>d. decoded_at B decode s b = Some d \<Longrightarrow> restartable s (d_instr d) ((get_ip s + ucast (d_len d)) AND mask_bits (bitness s))"
    and step: "step_with_decoder B other decode (s, b) = (r, (s', b'))"
  shows "ok b' \<and> (\<forall>e. r = Inl (Fail e) \<longrightarrow> s' = apply_exception_side_effects e s \<and> same (cb_sync B s b) b')"
proof (rule clean_catch_bind [OF fetch_and_decode_unmoved raises_step(1) _ ok])
  let ?k = "\<lambda>(bs, d). act_bind (cpu_get bitness) (\<lambda>bits.
        let over = has_addr_size_override bs bits; next_ip = (get_ip s + ucast (d_len d)) AND mask_bits bits
        in act_bind (act_catch (exec_decoded B other (d_instr d) next_ip over) (step_failed bs bits)) (finish_step d over next_ip))"
  show "act_bind (act_catch (fetch_and_decode B decode (seg_base_reg s (Seg CS)) (get_ip s)) raise_in_step) ?k (s, cb_sync B s b) = (r, (s', b'))"
    using step by (simp add: step_with_decoder_def act_then_def act_bind_def cpu_sync_def cpu_get_def)
  fix x b1 assume f: "fetch_and_decode B decode (seg_base_reg s (Seg CS)) (get_ip s) (s, cb_sync B s b) = (Inr x, (s, b1))"
  obtain bs d where x: "x = (bs, d)" by (cases x)
  have "restartable s (d_instr d) ((get_ip s + ucast (d_len d)) AND mask_bits (bitness s))" using f by (intro form) (simp add: decoded_at_def x)
  then show "clean ok same s (?k x)"
    by (auto simp: x Let_def intro!: clean_get clean_catch_sure exec_decoded_precise raises_step sure_finish_step)
qed

end

lemma sync_mmu_unchanged: "sync_mmu s mmu = (False, mmu') \<Longrightarrow> mmu' = mmu"
  by (auto simp: sync_mmu_def Let_def split: if_splits prod.splits)

lemma pb_sync_ok: "table_memory (pb_phys pb) \<Longrightarrow> memo_ok pb \<Longrightarrow> paging_ok (mmu_regs (pb_mmu (pb_sync s pb))) (pb_sync s pb)"
  by (cases "sync_mmu s (pb_mmu pb)") (auto simp: paging_ok_def pb_sync_def memo_ok_def Let_def dest: sync_mmu_unchanged)

lemma pb_sync_frame: "pb_phys (pb_sync s pb) = pb_phys pb" "pb_io (pb_sync s pb) = pb_io pb"
  by (simp_all add: pb_sync_def Let_def split: prod.split)

text \<open>
  (C1) Faults are precise. When a step of the interpreter on the paging bus fails with an exception, in whatever mode and wherever the
  fault arises (fetching, decoding, reading or writing operands, the stack), the processor is in the state before the instruction except that
  a page fault has set \<^verbatim>\<open>CR2\<close>, no byte of memory has changed except for accessed and dirty bits that were set, and the ports have seen nothing:
  the guest can handle the fault and restart.

  This is about the instruction at the current address: if it is fetched and decoded, it has a restartable form. That excludes the string
  instructions and those of the unmodelled groups; \<^verbatim>\<open>ENTER\<close>, \<^verbatim>\<open>LEAVE\<close>, \<^verbatim>\<open>PUSHA\<close>, \<^verbatim>\<open>POPA\<close>, far calls and far returns, which touch the stack
  more than once; \<^verbatim>\<open>POP\<close> to memory; shifts and bit updates of memory; and accesses that wrap around the address space. The copy-on-write
  shortcut is off, and the devices do not react to reads.
\<close>

theorem faults_are_precise:
  assumes "table_memory (pb_phys pb)" "memo_ok pb"
    and "\<And>d. decoded_at (paging_bus physical_ops False I) decode s pb = Some d \<Longrightarrow>
      restartable s (d_instr d) ((get_ip s + ucast (d_len d)) AND mask_bits (bitness s))"
    and "step_with_decoder (paging_bus physical_ops False I) other decode (s, pb) = (Inl (Fail e), (s', pb'))"
  shows "s' = apply_exception_side_effects e s \<and> (\<forall>x. ad_grow (open_byte (pb_phys pb) x) (open_byte (pb_phys pb') x)) \<and> pb_io pb' = pb_io pb"
proof -
  let ?B = "paging_bus physical_ops False I"
  have sync: "cb_sync ?B s pb = pb_sync s pb" by (simp add: paging_bus_def)
  have ok: "paging_ok (mmu_regs (pb_mmu (pb_sync s pb))) (cb_sync ?B s pb)" using pb_sync_ok [OF assms(1,2)] by (simp add: sync)
  have "paging_ok (mmu_regs (pb_mmu (pb_sync s pb))) pb' \<and> (\<forall>ea. Inl (Fail e) = (Inl (Fail ea) :: _ + StepExit) \<longrightarrow>
      s' = apply_exception_side_effects ea s \<and> paging_same (cb_sync ?B s pb) pb')"
    by (rule paging.step_fails_cleanly [OF ok _ assms(4)]) (rule assms(3))
  then show ?thesis by (simp add: sync paging_same_def ad_grown_def pb_sync_frame)
qed

text \<open>A store of \<^verbatim>\<open>ECX\<close> to the address in \<^verbatim>\<open>RAX\<close>.\<close>

definition sample_store :: Instruction where
  "sample_store =
     \<lparr> mnemonic = Data M_Mov, icode = OtherCode, has_lock_prefix = False, has_rep_prefix = False, has_repne_prefix = False,
       segment_prefix = NoReg, op_count = 2,
       op_kind = (\<lambda>i. if i = 0 then OpMemory else OpRegister), op_register = (\<lambda>i. if i = 1 then Reg32 ECX else NoReg),
       immediate8 = 0, immediate8_2nd = 0, immediate16 = 0, immediate32 = 0, immediate64 = 0, immediate8to16 = 0, immediate8to32 = 0,
       immediate8to64 = 0, immediate32to64 = 0, memory_base = Reg64 RAX, memory_index = NoReg, memory_index_scale = 1,
       memory_displacement64 = 0, memory_displ_size = 0, memory_segment = Seg DS, memory_size = UInt32, near_branch_target = 0,
       far_branch_selector = 0, far_branch16 = 0 \<rparr>"

definition sample_decoder :: decoder where
  "sample_decoder bs ip bits = Inr \<lparr> d_instr = sample_store, d_len = 2 \<rparr>"

definition sample_cpu :: CpuState where
  "sample_cpu = (CpuState_new Long)\<lparr>gpr := (replicate 16 0)[0 := 0x800000000000, 4 := 0x8000],
     control := \<lparr> ctl_cr0 = 0x80000001, ctl_cr2 = 0, ctl_cr3 = 0, ctl_cr4 = 0x20, ctl_cr8 = 0 \<rparr>, msr := MsrState_default\<lparr>msr_efer := 0x500\<rparr>\<rparr>"

definition sample_fetched :: "(nat, unit) machine_bus" where
  "sample_fetched = (sample_paging (Mmu_new\<lparr>cr0 := 0x80000001, cr3 := 0, cr4 := 0x20, efer := 0x500, mode := Long4\<rparr>))\<lparr>fetch_page := Some (0, 0)\<rparr>"

lemma sample_cpu_long: "cpu_mode sample_cpu = Long" "bitness sample_cpu = 64" "get_ip sample_cpu = 0" "cpl sample_cpu = 0"
  "seg_base_reg sample_cpu r = 0"
  by (simp_all add: sample_cpu_def CpuState_new_def CpuState_default_def map_cs_def bitness_def get_ip_def cpl_def seg_base_reg_def seg_rpl_def
      MsrState_default_def Segment_default_def split: Register.split SegReg.split)

lemma sample_contiguous: "contiguous_masked_start sample_cpu a n = Some a" if "unat a + n \<le> 2 ^ 64" "0 < n" "n < 100"
proof -
  have "unat (of_nat n - 1 :: u64) = n - 1" using that by (simp add: unat_sub_if' unat_of_nat)
  then have "wrapped_segment_len sample_cpu a n = n"
    using that by (auto simp: wrapped_segment_len_def sample_cpu_long checked_add_def Let_def)
  then show ?thesis using that by (simp add: contiguous_masked_start_def sample_cpu_long)
qed

lemma sample_ea: "calc_ea sample_cpu sample_store ip True = Inr 0x800000000000"
  by (simp add: calc_ea_def ea_bits_def sample_store_def reg_bits_def Let_def sample_cpu_long) (simp add: sample_cpu_def read_reg_def)

lemma sample_restartable: "restartable sample_cpu sample_store ip"
proof -
  have "stack_ptr sample_cpu = 0x8000" "stack_addr_bits sample_cpu = 64"
    by (simp_all add: stack_ptr_def stack_ptr_reg_def stack_addr_bits_def sample_cpu_long) (simp add: sample_cpu_def read_reg_def)
  then have "stack_fits sample_cpu"
    by (auto simp: stack_fits_def pushed_sp_def stack_address_def sample_cpu_long sample_contiguous)
  moreover have "ea_fits sample_cpu sample_store ip" "wide_fits sample_cpu sample_store ip"
    by (simp_all add: ea_fits_def wide_fits_def sample_ea sample_contiguous) (simp add: op_bits_def sample_store_def mem_bits_def reg_bits_def sample_contiguous)
  ultimately show ?thesis by (simp add: restartable_def data_form_def flow_form_def alu_form_def) (simp add: sample_store_def)
qed


definition no_other :: "'b other_exec" where
  "no_other i ip ov = act_fail InvalidOpcode"

lemma pb_sync_same:
  assumes "cr0 (pb_mmu pb) = ctl_cr0 (control s)" "cr3 (pb_mmu pb) = ctl_cr3 (control s)" "cr4 (pb_mmu pb) = ctl_cr4 (control s)"
    "efer (pb_mmu pb) = msr_efer (msr s)" "pb_cpl pb = cpl s"
  shows "pb_sync s pb = pb"
proof -
  have "sync_mmu s (pb_mmu pb) = (False, pb_mmu pb)" using assms(1-4) by (simp add: sync_mmu_def)
  then show ?thesis using assms(5) by (cases pb) (simp add: pb_sync_def)
qed

lemma sample_sync: "pb_sync sample_cpu sample_fetched = sample_fetched"
  by (rule pb_sync_same) (simp_all add: sample_cpu_long sample_fetched_def sample_paging_def with_mmu_and_io_def, simp_all add: sample_cpu_def)

lemma fetch_memo_hit: "fetch_page pb = Some (0, 0) \<Longrightarrow> \<exists>bs m. pb_fetch P cow 0 15 pb = (Inr bs, pb\<lparr>pb_phys := m\<rparr>)"
proof -
  assume f: "fetch_page pb = Some (0, 0)"
  obtain bs m where "mo_read_bytes P (pb_phys pb) 0 (replicate 15 0) = (bs, m)" by (metis surj_pair)
  then have "pb_fetch P cow 0 15 pb = (Inr (pad15 bs), pb\<lparr>pb_phys := m\<rparr>)"
    using f by (simp add: pb_fetch_def PAGE_SIZE_def Let_def act_map_def act_bind_def act_return_def on_phys_def)
  then show ?thesis by blast
qed

lemma sample_fetch: "\<exists>bs pb'. fetch_wrapped_seg_ip_first_page (paging_bus physical_ops False NoIo) sample_cpu 0 0 15 sample_fetched = (Inr (bs, 15), pb') \<and>
    mode (pb_mmu pb') = Long4"
proof -
  obtain bs m where "pb_fetch physical_ops False 0 15 sample_fetched = (Inr bs, sample_fetched\<lparr>pb_phys := m\<rparr>)"
    using fetch_memo_hit [of sample_fetched physical_ops False] by (auto simp: sample_fetched_def)
  moreover have "mode (pb_mmu sample_fetched) = Long4" by (simp add: sample_fetched_def sample_paging_def with_mmu_and_io_def)
  ultimately show ?thesis
    by (simp add: fetch_wrapped_seg_ip_first_page_def sample_cpu_long Let_def paging_bus_def act_bind_def act_return_def)
qed

lemma sample_store_faults:
  assumes "mode (pb_mmu pb) = Long4"
  shows "exec_decoded (paging_bus physical_ops False NoIo) other sample_store ip ov (sample_cpu, pb) = (Inl (Fail gp0), (sample_cpu, pb))"
proof -
  have t: "pb_translate physical_ops False 0x800000000000 Write pb = (Inl (Fail gp0), pb)"
    using assms by (simp add: pb_translate_def translate_def linear_address_def is_canonical_48_def)
  have w: "write_mem (paging_bus physical_ops False NoIo) sample_cpu 0x800000000000 32 v pb = (Inl (Fail gp0), pb)" for v
    by (simp add: write_mem_def write_u32_wrapped_def sample_contiguous paging_bus_def write_u32_access_def write_int_access_def PAGE_SIZE_def act_bind_def t)
  have m: "mnemonic sample_store = Data M_Mov" by (simp add: sample_store_def)
  have o: "op_bits sample_store 0 = Inr 32" "op_bits sample_store 1 = Inr 32" "op_is sample_store 0 p = False" "op_is sample_store 1 is_ctrl_or_debug_reg = False"
      "has_lock_prefix sample_store = False" "op_kind sample_store 0 = OpMemory" "op_kind sample_store 1 = OpRegister" for p
    by (simp_all add: sample_store_def op_bits_def mem_bits_def reg_bits_def op_is_def is_ctrl_or_debug_reg_def)
  have e: "exec_decoded (paging_bus physical_ops False NoIo) other sample_store ip ov = exec_mov (paging_bus physical_ops False NoIo) sample_store ip"
    using o(5) m by (simp add: exec_decoded_def exec_data_def)
  show ?thesis
    unfolding e exec_mov_def no_lock_def read_op_def write_op_def read_op_sized_def write_op_sized_def
    by (simp add: o [simplified] sample_ea w act_bind_def act_then_def cpu_get_def cpu_try_def cpu_bus_def act_return_def Let_def)
qed

theorem faults_are_precise_witness:
  "\<exists>pb'. step_with_decoder (paging_bus physical_ops False NoIo) no_other sample_decoder (sample_cpu, sample_fetched) = (Inl (Fail gp0), (sample_cpu, pb')) \<and>
     (\<forall>x. ad_grow (open_byte (pb_phys sample_fetched) x) (open_byte (pb_phys pb') x))"
proof -
  let ?B = "paging_bus physical_ops False NoIo"
  obtain bs pb' where f: "fetch_wrapped_seg_ip_first_page ?B sample_cpu 0 0 15 sample_fetched = (Inr (bs, 15), pb')" "mode (pb_mmu pb') = Long4"
    using sample_fetch by blast
  have sync: "cb_sync ?B sample_cpu sample_fetched = sample_fetched" using sample_sync by (simp add: paging_bus_def)
  have x: "apply_exception_side_effects gp0 sample_cpu = sample_cpu" by (simp add: apply_exception_side_effects_def gp0_def)
  have step: "step_with_decoder ?B no_other sample_decoder (sample_cpu, sample_fetched) = (Inl (Fail gp0), (sample_cpu, pb'))"
    using f sample_store_faults [OF f(2), of no_other]
    by (simp add: step_with_decoder_def act_then_def act_bind_def cpu_sync_def cpu_get_def sync sample_cpu_long act_catch_def fetch_and_decode_def cpu_bus_def
        sample_decoder_def act_return_def Let_def step_failed_def raise_in_step_eq x) (simp add: gp0_def raise_in_step_eq apply_exception_side_effects_def)
  have "table_memory (pb_phys sample_fetched)" "memo_ok sample_fetched"
    using sample_paging_ok [of Mmu_new] by (simp_all add: paging_ok_def memo_ok_def sample_fetched_def sample_paging_def with_mmu_and_io_def)
  moreover have "d_instr d = sample_store" if "decoded_at ?B sample_decoder sample_cpu sample_fetched = Some d" for d
    using that f sync by (auto simp: decoded_at_def sample_cpu_long fetch_and_decode_def act_bind_def cpu_bus_def cpu_get_def sample_decoder_def act_return_def)
  ultimately show ?thesis using faults_are_precise [OF _ _ _ step] step sample_restartable by auto
qed

end
