(* ===== verification/CpuConfine.thy ===== *)
theory CpuConfine
  imports CpuExec
begin

text \<open>
  What code at a privilege level other than 0 can change. For every instruction of the modelled groups and every bus: the system
  registers, the segments outside of virtual 8086 mode and the locked bits of the flags register stay as they are. The rules for \<open>confines\<close>
  follow the structure of the actions, so that the lemma of an instruction is its definition and the rules; the property is that of
  whole batches.
\<close>

section \<open>What an unprivileged instruction may change\<close>

definition iopl :: "CpuState \<Rightarrow> u8" where
  "iopl s = ucast (drop_bit 12 (rflags s AND RFLAGS_IOPL_MASK))"

text \<open>The bits of the flags register that code at the privilege level of \<open>s\<close> cannot change.\<close>

definition locked_flag :: "CpuState \<Rightarrow> nat \<Rightarrow> bool" where
  "locked_flag s i \<longleftrightarrow>
     i < 64 \<and> i \<notin> {0, 1, 2, 4, 6, 7, 8, 10, 11, 18, 21} \<and>
     (i \<in> {12, 13} \<longrightarrow> \<not> real_or_vm86 s \<and> cpl s \<noteq> 0) \<and> (i = 9 \<longrightarrow> \<not> real_or_vm86 s \<and> cpl s > iopl s)"

text \<open>The system registers are those that decide modes, translation, interrupts and debugging.\<close>

definition system_kept :: "CpuState \<Rightarrow> CpuState \<Rightarrow> bool" where
  "system_kept s s' \<longleftrightarrow>
     cpu_mode s' = cpu_mode s \<and> tables s' = tables s \<and> debug s' = debug s \<and> msr s' = msr s \<and> a20_enabled s' = a20_enabled s \<and>
     halted s' = halted s \<and> pending_bios_int_valid s' = pending_bios_int_valid s \<and> fpu s' = fpu s \<and> sse s' = sse s \<and>
     length (gpr s') = length (gpr s)"

definition confined :: "CpuState \<Rightarrow> CpuState \<Rightarrow> bool" where
  "confined s s' \<longleftrightarrow>
     system_kept s s' \<and> control s' = control s \<and> (\<not> real_or_vm86 s \<longrightarrow> segments s' = segments s) \<and>
     (\<forall>i. locked_flag s i \<longrightarrow> bit (rflags s') i = bit (rflags s) i)"

lemma confined_refl [simp]: "confined s s"
  by (simp add: confined_def system_kept_def)



















section \<open>Registers and flags\<close>



















section \<open>Operands\<close>
















section \<open>Control flow and the stack\<close>























section \<open>Arithmetic\<close>


















section \<open>String instructions\<close>









section \<open>Steps\<close>





















end
