(* ===== verification/CpuStack.thy ===== *)
theory CpuStack
  imports CpuExec
begin

text \<open>
  Sequences of instructions: a near call followed by a near return, over a bus that is a memory of bytes; and the counts and the
  composition of batches.
\<close>

section \<open>Stack slots\<close>

lemma mask_bits_take: "n \<in> {16, 32, 64} \<Longrightarrow> v AND mask_bits n = take_bit n v"
  by (intro bit_word_eqI) (auto simp: mask_bits_def low_masks bit_simps)

lemma stack_addr_bits_cases: "stack_addr_bits s \<in> {16, 32, 64}" "bitness s \<in> {16, 32, 64}"
  by (auto simp: stack_addr_bits_def bitness_def split: CpuMode.split)

lemma stack_ptr_info: "gpr_info (stack_ptr_reg s) = Some (4, stack_addr_bits s, False)"
  using stack_addr_bits_cases(1) [of s] by (auto simp: stack_ptr_reg_def)

lemma set_stack_ptr_frame [simp]:
  "cpu_mode (set_stack_ptr s v) = cpu_mode s" "segments (set_stack_ptr s v) = segments s" "a20_enabled (set_stack_ptr s v) = a20_enabled s"
  "length (gpr (set_stack_ptr s v)) = length (gpr s)" "msr (set_stack_ptr s v) = msr s"
  using stack_ptr_info [of s] by (simp_all add: set_stack_ptr_def write_reg_def Let_def)

lemma set_ip_frame [simp]:
  "cpu_mode (set_ip s v) = cpu_mode s" "segments (set_ip s v) = segments s" "a20_enabled (set_ip s v) = a20_enabled s" "gpr (set_ip s v) = gpr s"
  "msr (set_ip s v) = msr s"
  by (simp_all add: set_ip_def)

lemma stack_frame_cong:
  assumes "cpu_mode t = cpu_mode s" "segments t = segments s" "a20_enabled t = a20_enabled s" "msr t = msr s"
  shows "stack_addr_bits t = stack_addr_bits s" "stack_ptr_reg t = stack_ptr_reg s" "bitness t = bitness s" "ip_mask t = ip_mask s"
    "stack_address t a = stack_address s a" "apply_a20 t x = apply_a20 s x" "stack_addr_bits t = stack_addr_bits s"
  using assms by (simp_all add: stack_addr_bits_def stack_ptr_reg_def bitness_def ip_mask_def stack_address_def apply_a20_def seg_base_reg_def cong: CpuMode.case_cong)

lemma set_stack_ptr_same:
  "stack_ptr_reg (set_stack_ptr s v) = stack_ptr_reg s" "stack_addr_bits (set_stack_ptr s v) = stack_addr_bits s"
  "bitness (set_stack_ptr s v) = bitness s"
  by (rule stack_frame_cong; simp)+

lemma stack_ptr_set: "length (gpr s) = 16 \<Longrightarrow> stack_ptr (set_stack_ptr s v) = v AND mask_bits (stack_addr_bits s)"
  unfolding stack_ptr_def set_stack_ptr_same
  using read_write_reg [OF _ stack_ptr_info [of s]] by (simp add: set_stack_ptr_def mask_bits_take [OF stack_addr_bits_cases(1)])

lemma take_bit_left_add: "take_bit m (take_bit m a + c) = take_bit m (a + c)" for a c :: "'a::len word"
proof (cases "m \<le> LENGTH('a)")
  case True
  then have "uint (take_bit m (take_bit m a + c)) = uint (take_bit m (a + c))"
    by (simp add: unsigned_take_bit_eq uint_word_ariths flip: take_bit_eq_mod) (simp add: take_bit_eq_mod min_def mod_simps mod_mod_cancel le_imp_power_dvd)
  then show ?thesis by (simp only: word_uint_eq_iff)
qed (simp add: take_bit_word_eq_self)

lemma popped_pushed:
  assumes "length (gpr s) = 16" "stack_ptr t = stack_ptr (set_stack_ptr s (pushed_sp s n))" "stack_addr_bits t = stack_addr_bits s"
  shows "popped_sp t n = stack_ptr s"
proof -
  let ?m = "stack_addr_bits s"
  have m: "v AND mask_bits ?m = take_bit ?m v" for v by (rule mask_bits_take [OF stack_addr_bits_cases(1)])
  from take_bit_left_add [of ?m "stack_ptr s - of_nat n" "of_nat n"] show ?thesis using assms stack_ptr_set [OF assms(1)] by (simp add: popped_sp_def pushed_sp_def m) (simp add: stack_ptr_def m)
qed

lemma set_stack_ptr_twice: "length (gpr s) = 16 \<Longrightarrow> set_stack_ptr (set_stack_ptr s v) w = set_stack_ptr s w"
proof -
  assume l: "length (gpr s) = 16"
  let ?s = "set_stack_ptr s v"
  show ?thesis
    unfolding set_stack_ptr_def [of ?s] set_stack_ptr_same
    using l stack_ptr_info [of s] stack_addr_bits_cases(1) [of s]
    by (auto simp: set_stack_ptr_def write_reg_def Let_def intro!: CpuState.equality arg_cong [of _ _ "\<lambda>x. (gpr s)[4 := x]"])
      (auto intro!: bit_word_eqI simp: bit_simps low_masks)
qed

lemma ip_mask_bits: "ip_mask s = mask_bits (bitness s)"
  by (simp add: ip_mask_def bitness_def mask_bits_def split: CpuMode.split)

lemma stack_ptr_set_ip: "stack_ptr (set_ip s t) = stack_ptr s"
proof -
  have f: "stack_ptr_reg (set_ip s t) = stack_ptr_reg s" "stack_addr_bits (set_ip s t) = stack_addr_bits s" by (rule stack_frame_cong; simp)+
  show ?thesis unfolding stack_ptr_def f by (simp add: read_reg_def stack_ptr_info)
qed

lemma set_stack_ptr_set_ip: "set_stack_ptr (set_ip s t) v = set_ip (set_stack_ptr s v) t"
proof -
  have f: "stack_ptr_reg (set_ip s t) = stack_ptr_reg s" "stack_addr_bits (set_ip s t) = stack_addr_bits s" "ip_mask (set_stack_ptr s v) = ip_mask s"
    by (rule stack_frame_cong; simp)+
  show ?thesis unfolding set_stack_ptr_def [of "set_ip s t"] set_ip_def [of "set_stack_ptr s v"] f
    by (simp add: set_stack_ptr_def write_reg_def stack_ptr_info set_ip_def Let_def)
qed

lemma set_ip_twice: "set_ip (set_ip s t) ip = set_ip s ip"
proof -
  have "ip_mask (set_ip s t) = ip_mask s" by (rule stack_frame_cong) simp_all
  then show ?thesis by (simp add: set_ip_def [of "set_ip s t"]) (simp add: set_ip_def)
qed

lemma set_ip_masked: "set_ip s (take_bit (bitness s) ip) = set_ip s ip"
  using mask_bits_take [OF stack_addr_bits_cases(2) [of s]] by (simp add: set_ip_def ip_mask_bits)

lemma stack_ptr_masked: "stack_ptr s AND mask_bits (stack_addr_bits s) = stack_ptr s" "pushed_sp s n AND mask_bits (stack_addr_bits s) = pushed_sp s n"
  "take_bit (stack_addr_bits s) (stack_ptr s) = stack_ptr s" "take_bit (stack_addr_bits s) (pushed_sp s n) = pushed_sp s n"
  by (simp_all add: stack_ptr_def pushed_sp_def mask_bits_take [OF stack_addr_bits_cases(1)])

context linear_bus
begin

text \<open>A slot of the stack of which every byte is accessible and holds what is stored.\<close>

definition slot_ok :: "'b \<Rightarrow> CpuState \<Rightarrow> u64 \<Rightarrow> nat \<Rightarrow> bool" where
  "slot_ok b s addr n \<longleftrightarrow> covered b s addr n \<and> inj_on (at s addr) {..<n} \<and> (\<forall>i<n. \<forall>v. stored b (at s addr i) v = v)"

lemma stored_bytes:
  assumes "slot_ok b s addr n" "stores b (store_at (stored b) s addr bs [0..<n] (byte b)) b'" "length bs = n"
  shows "map (\<lambda>i. byte b' (at s addr i)) [0..<n] = bs"
proof (rule nth_equalityI)
  fix i assume "i < length (map (\<lambda>i. byte b' (at s addr i)) [0..<n])"
  then have i: "i < n" by simp
  have "inj_on (at s addr) (set [0..<n])" using assms(1) by (simp add: slot_ok_def atLeast0LessThan)
  from store_at_distinct [OF this distinct_upt, of i] have "store_at (stored b) s addr bs [0..<n] (byte b) (at s addr i) = bs ! i"
    using assms(1) i by (simp add: slot_ok_def)
  moreover have "unat (at s addr i) < lim" using assms(1) by (intro at_limit) (simp add: slot_ok_def covered_def)
  ultimately show "map (\<lambda>i. byte b' (at s addr i)) [0..<n] ! i = bs ! i" using assms(2) i by (simp add: stores_def)
qed (simp add: assms(3))

lemma stack_write_then_read:
  assumes "slot_ok b s addr n" "n \<in> {2, 4, 8}" and t: "cpu_mode t = cpu_mode s" "apply_a20 t = apply_a20 s"
  shows "\<exists>b'. stack_write B s addr n v b = (Inr (), b') \<and> stack_read B t addr n b' = (Inr (take_bit (8 * n) v), b')"
proof -
  have at: "at t addr = at s addr" "covered b1 t addr k = covered b1 s addr k" for b1 k using t by (simp_all add: at_def fun_eq_iff covered_def)
  have c: "covered b s addr n" using assms(1) by (simp add: slot_ok_def)
  consider "n = 2" | "n = 4" | "n = 8" using assms(2) by auto
  then show ?thesis
  proof cases
    case 1
    then obtain b' where b': "write_u16_wrapped B s addr (ucast v) b = (Inr (), b')" "stores b (store_at (stored b) s addr (to_le_bytes 2 (ucast v :: u16)) [0..<2] (byte b)) b'"
      using write_wrapped_ints(1) c by blast
    have r: "map (\<lambda>i. byte b' (at s addr i)) [0..<2] = to_le_bytes 2 (ucast v :: u16)" using stored_bytes [OF assms(1) [unfolded 1] b'(2)] by simp
    have "read_u16_wrapped B t addr b' = (Inr (ucast v), b')"
      using read_wrapped_ints(1) [of b' t addr] stores_covered [OF c [unfolded 1] b'(2)] unfolding at r by (simp add: from_to_le_bytes)
    then show ?thesis
      using b' 1 by (auto simp: stack_write_def stack_read_def act_map_def act_bind_def act_return_def intro!: bit_word_eqI) (auto simp: bit_simps)
  next
    case 2
    then obtain b' where b': "write_u32_wrapped B s addr (ucast v) b = (Inr (), b')" "stores b (store_at (stored b) s addr (to_le_bytes 4 (ucast v :: u32)) [0..<4] (byte b)) b'"
      using write_wrapped_ints(2) c by blast
    have r: "map (\<lambda>i. byte b' (at s addr i)) [0..<4] = to_le_bytes 4 (ucast v :: u32)" using stored_bytes [OF assms(1) [unfolded 2] b'(2)] by simp
    have "read_u32_wrapped B t addr b' = (Inr (ucast v), b')"
      using read_wrapped_ints(2) [of b' t addr] stores_covered [OF c [unfolded 2] b'(2)] unfolding at r by (simp add: from_to_le_bytes)
    then show ?thesis
      using b' 2 by (auto simp: stack_write_def stack_read_def act_map_def act_bind_def act_return_def intro!: bit_word_eqI) (auto simp: bit_simps)
  next
    case 3
    then obtain b' where b': "write_u64_wrapped B s addr v b = (Inr (), b')" "stores b (store_at (stored b) s addr (to_le_bytes 8 v) [0..<8] (byte b)) b'"
      using write_wrapped_ints(3) c by blast
    have r: "map (\<lambda>i. byte b' (at s addr i)) [0..<8] = to_le_bytes 8 v" using stored_bytes [OF assms(1) [unfolded 3] b'(2)] by simp
    have "read_u64_wrapped B t addr b' = (Inr v, b')"
      using read_wrapped_ints(3) [of b' t addr] stores_covered [OF c [unfolded 3] b'(2)] unfolding at r by (simp add: from_to_le_bytes)
    then show ?thesis using b' 3 by (auto simp: stack_write_def stack_read_def)
  qed
qed

end

section \<open>Calls and returns\<close>

text \<open>The stack slot of the next push.\<close>

definition next_slot :: "CpuState \<Rightarrow> u64" where
  "next_slot s = stack_address s (pushed_sp s (bitness s div 8))"

context linear_bus
begin

lemma call_then_ret:
  assumes l: "length (gpr s) = 16" and slot: "slot_ok b s (next_slot s) (bitness s div 8)"
    and call: "\<not> is_far_branch c" "\<not> (op_kind c 0 = OpMemory \<and> is_far_ptr_mem c)" "branch_target B c ip (s, b) = (Inr t, (s, b))"
    and ret: "op_count r = 0"
  shows "\<exists>b'. exec_call B c ip (s, b) = (Inr Branch, (set_ip (set_stack_ptr s (pushed_sp s (bitness s div 8))) t, b')) \<and>
    exec_ret B r (set_ip (set_stack_ptr s (pushed_sp s (bitness s div 8))) t, b') = (Inr Branch, (set_ip (set_stack_ptr s (stack_ptr s)) ip, b'))"
proof -
  let ?n = "bitness s div 8" and ?sp = "pushed_sp s (bitness s div 8)"
  let ?s1 = "set_ip (set_stack_ptr s ?sp) t"
  have n: "?n \<in> {2, 4, 8}" using stack_addr_bits_cases(2) [of s] by auto
  have bits: "8 * ?n = bitness s" using stack_addr_bits_cases(2) [of s] by auto
  have f: "stack_addr_bits ?s1 = stack_addr_bits s" "stack_ptr_reg ?s1 = stack_ptr_reg s" "bitness ?s1 = bitness s" "ip_mask ?s1 = ip_mask s"
    "stack_address ?s1 a = stack_address s a" "apply_a20 ?s1 x = apply_a20 s x" for a x
    by (rule stack_frame_cong; simp)+
  have f': "cpu_mode ?s1 = cpu_mode s" "apply_a20 ?s1 = apply_a20 s" using f(6) by auto
  obtain b' where b': "stack_write B s (next_slot s) ?n ip b = (Inr (), b')" "stack_read B ?s1 (next_slot s) ?n b' = (Inr (take_bit (bitness s) ip), b')"
    using stack_write_then_read [OF slot n f', of ip] unfolding bits by blast
  have c: "exec_call B c ip (s, b) = (Inr Branch, (?s1, b'))"
    using call b'(1) by (auto simp: exec_call_def push_def act_bind_def act_then_def cpu_get_def cpu_bus_def cpu_set_def act_return_def next_slot_def)
  have sp: "stack_ptr ?s1 = ?sp" "popped_sp ?s1 ?n = stack_ptr s"
    using popped_pushed [OF l, of ?s1 ?n] f(1) by (simp_all add: stack_ptr_set_ip stack_ptr_set [OF l] stack_ptr_masked)
  have "stack_ptr (set_stack_ptr ?s1 (popped_sp ?s1 ?n)) = stack_ptr s"
    by (simp add: sp(2) set_stack_ptr_set_ip set_stack_ptr_twice [OF l] stack_ptr_set_ip stack_ptr_set [OF l] stack_ptr_masked)
  then have "set_ip (set_stack_ptr (set_stack_ptr ?s1 (popped_sp ?s1 ?n)) (stack_ptr (set_stack_ptr ?s1 (popped_sp ?s1 ?n)) + 0)) (take_bit (bitness s) ip)
      = set_ip (set_stack_ptr s (stack_ptr s)) ip"
    using set_ip_masked [of "set_stack_ptr s (stack_ptr s)" ip]
    by (simp add: sp(2) set_stack_ptr_set_ip set_stack_ptr_twice [OF l] set_ip_twice set_stack_ptr_same)
  then have "exec_ret B r (?s1, b') = (Inr Branch, (set_ip (set_stack_ptr s (stack_ptr s)) ip, b'))"
    using b'(2) ret f(3,5) sp(1) mask_bits_take [OF stack_addr_bits_cases(2) [of s], of "take_bit (bitness s) ip"]
    by (simp add: exec_ret_def pop_def act_bind_def act_then_def cpu_get_def cpu_bus_def cpu_set_def act_return_def next_slot_def ret_pop_def set_stack_ptr_same)
  then show ?thesis using c by blast
qed

end

text \<open>
  \<^bold>\<open>A return undoes a call (C15).\<close> Without paging and outside long mode, a near call whose return address goes to RAM (of which the addresses,
  wrapped at 4 GB and masked by the A20 gate, are distinct) succeeds and goes to its target; a return executed there, with the memory the call
  left, continues behind the call with the stack pointer as before the call, at its width, and all other registers as they were.
\<close>

theorem ret_undoes_call:
  assumes "table_memory (pb_phys pb)" "mode (pb_mmu pb) = Disabled" "memo_ok pb" "cpu_mode s \<noteq> Long" "length (gpr s) = 16"
    and "\<And>i. i < bitness s div 8 \<Longrightarrow> plain_at (fst (pb_phys pb)) (unat (apply_a20 s (next_slot s + of_nat i)))"
    and "inj_on (\<lambda>i. apply_a20 s (next_slot s + of_nat i)) {..<bitness s div 8}"
    and "\<not> is_far_branch c" "\<not> (op_kind c 0 = OpMemory \<and> is_far_ptr_mem c)"
    and "branch_target (paging_bus physical_ops False I) c ip (s, pb) = (Inr t, (s, pb))" "op_count r = 0"
  shows "\<exists>s1 pb1. exec_call (paging_bus physical_ops False I) c ip (s, pb) = (Inr Branch, (s1, pb1)) \<and> get_ip s1 = t AND ip_mask s \<and>
    exec_ret (paging_bus physical_ops False I) r (s1, pb1) = (Inr Branch, (set_ip (set_stack_ptr s (stack_ptr s)) ip, pb1))"
proof -
  let ?n = "bitness s div 8"
  have n: "?n < 2 ^ 64" using stack_addr_bits_cases(2) [of s] by auto
  have at: "(\<lambda>i. apply_a20 s (next_slot s + of_nat i)) = linear_bus.at s (next_slot s)" by (simp add: unpaged.at_def fun_eq_iff)
  have ok: "paging_ok (cr0 (pb_mmu pb), cr3 (pb_mmu pb), cr4 (pb_mmu pb), efer (pb_mmu pb), Disabled) pb"
    using assms(1-3) by (simp add: paging_ok_def mmu_regs_def)
  have "unpaged.covered (cr0 (pb_mmu pb)) (cr3 (pb_mmu pb)) (cr4 (pb_mmu pb)) (efer (pb_mmu pb)) pb s (next_slot s) ?n"
    using assms(4,6) n ok by (auto simp: unpaged.covered_def phys_acc_def unpaged.at_def intro: plain_mapped)
  then have "unpaged.slot_ok (cr0 (pb_mmu pb)) (cr3 (pb_mmu pb)) (cr4 (pb_mmu pb)) (efer (pb_mmu pb)) pb s (next_slot s) ?n"
    using assms(6,7) unfolding at by (simp add: unpaged.slot_ok_def phys_wr_def unpaged.at_def)
  moreover have "get_ip (set_ip x t) = t AND ip_mask x" "ip_mask (set_stack_ptr s v) = ip_mask s" for x v
    by (rule stack_frame_cong; simp | simp add: get_ip_def set_ip_def ip_mask_def and.assoc cong: CpuMode.case_cong)+
  ultimately show ?thesis using unpaged.call_then_ret [OF assms(5) _ assms(8-11)] by fastforce
qed

definition sample_call :: Instruction where
  "sample_call = sample_store\<lparr>mnemonic := Jump M_Call, op_count := 1, op_kind := (\<lambda>i. NearBranch16), near_branch_target := 0x200\<rparr>"

definition sample_ret :: Instruction where
  "sample_ret = sample_store\<lparr>mnemonic := Jump M_Ret, op_count := 0\<rparr>"

definition sample_real :: CpuState where
  "sample_real = (CpuState_new Real)\<lparr>gpr := (replicate 16 0)[4 := 0x1000]\<rparr>"

lemma sample_real_stack:
  "cpu_mode sample_real = Real" "bitness sample_real = 16" "length (gpr sample_real) = 16" "stack_ptr sample_real = 0x1000"
  "ip_mask sample_real = 0xFFFF" "apply_a20 sample_real x = x AND 0xFFFFFFFF" "next_slot sample_real = 0xFFE"
proof -
  show m: "cpu_mode sample_real = Real" "bitness sample_real = 16" "length (gpr sample_real) = 16" "ip_mask sample_real = 0xFFFF"
    by (simp_all add: sample_real_def CpuState_new_def CpuState_default_def map_cs_def bitness_def ip_mask_def)
  have b: "stack_addr_bits sample_real = 16" by (simp add: stack_addr_bits_def m)
  show p: "stack_ptr sample_real = 0x1000"
    by (simp add: stack_ptr_def stack_ptr_reg_def b) (simp add: sample_real_def read_reg_def)
  show a: "apply_a20 sample_real x = x AND 0xFFFFFFFF" for x
    by (simp add: apply_a20_def m) (simp add: sample_real_def CpuState_new_def CpuState_default_def map_cs_def)
  have s: "seg_base_reg sample_real (Seg SS) = 0"
    by (simp add: seg_base_reg_def m) (simp add: sample_real_def CpuState_new_def CpuState_default_def map_cs_def Segment_default_def)
  show "next_slot sample_real = 0xFFE" by (simp add: next_slot_def stack_address_def pushed_sp_def p m b a s)
qed

theorem ret_undoes_call_witness:
  "\<exists>s1 pb1. exec_call (paging_bus physical_ops False NoIo) sample_call 0x103 (sample_real, sample_paging Mmu_new) = (Inr Branch, (s1, pb1)) \<and> get_ip s1 = 0x200 \<and>
    exec_ret (paging_bus physical_ops False NoIo) sample_ret (s1, pb1) = (Inr Branch, (set_ip (set_stack_ptr sample_real 0x1000) 0x103, pb1))"
proof -
  let ?pb = "sample_paging Mmu_new" and ?s = sample_real
  have pb: "table_memory (pb_phys ?pb)" "mode (pb_mmu ?pb) = Disabled" "memo_ok ?pb"
    using sample_paging_ok [of Mmu_new]
    by (simp_all add: paging_ok_def sample_paging_def with_mmu_and_io_def Mmu_new_def update_cached_state_def Let_def cr_defs)
  have u: "apply_a20 ?s (next_slot ?s + of_nat i) = 0xFFE + of_nat i" if "i < 2" for i
    using that by (auto simp: sample_real_stack less_2_cases_iff)
  have plain: "plain_at (fst (pb_phys ?pb)) (unat (apply_a20 ?s (next_slot ?s + of_nat i)))" if "i < bitness ?s div 8" for i
    using that u by (auto simp: sample_real_stack(2) sample_paging_plain less_2_cases_iff)
  have inj: "inj_on (\<lambda>i. apply_a20 ?s (next_slot ?s + of_nat i)) {..<bitness ?s div 8}"
    by (auto simp: inj_on_def sample_real_stack(2) u less_2_cases_iff)
  have c: "\<not> is_far_branch sample_call" "\<not> (op_kind sample_call 0 = OpMemory \<and> is_far_ptr_mem sample_call)" "op_count sample_ret = 0"
    "branch_target (paging_bus physical_ops False NoIo) sample_call 0x103 (?s, ?pb) = (Inr 0x200, (?s, ?pb))"
    by (simp_all add: is_far_branch_def sample_call_def sample_ret_def branch_target_def act_return_def)
  show ?thesis
    using ret_undoes_call [OF pb _ sample_real_stack(3) plain inj c(1,2,4,3)] by (auto simp: sample_real_stack)
qed

section \<open>Batches\<close>

text \<open>An instruction that faults or needs an assist is not counted.\<close>

text \<open>How a step ends a batch: whether it is counted, and the exit.\<close>

definition ends_batch :: "Exception failure + StepExit \<Rightarrow> (nat \<times> BatchExit) option" where
  "ends_batch r =
     (case r of
        Inr StepBranch \<Rightarrow> Some (1, BatchBranch)
      | Inr StepHalted \<Rightarrow> Some (1, BatchHalted)
      | Inr (StepBiosInterrupt v) \<Rightarrow> Some (1, BatchBiosInterrupt v)
      | Inr (StepAssist reason _ _) \<Rightarrow> Some (0, BatchAssist reason)
      | Inl (Fail e) \<Rightarrow> Some (0, BatchException e)
      | _ \<Rightarrow> None)"

definition batch_outcome :: "('b, StepExit) cpu_action \<Rightarrow> nat \<Rightarrow> nat \<Rightarrow> CpuState \<times> 'b \<Rightarrow> BatchResult \<Rightarrow> CpuState \<times> 'b \<Rightarrow> bool" where
  "batch_outcome step k n st res st' \<longleftrightarrow>
     (\<exists>j st1. continues step j st = Some st1 \<and>
        (j = n \<and> st' = st1 \<and> res = \<lparr> executed = k + j, batch_exit = BatchCompleted \<rparr> \<or>
         j < n \<and> (\<exists>r c x. step st1 = (r, st') \<and> ends_batch r = Some (c, x) \<and> res = \<lparr> executed = k + j + c, batch_exit = x \<rparr>)))"

lemma exists_nat_cases: "(\<exists>j. P j) \<longleftrightarrow> P 0 \<or> (\<exists>j. P (Suc j))"
  by (metis not0_implies_Suc)

lemma batch_outcome_0: "batch_outcome step k 0 st res st' \<longleftrightarrow> st' = st \<and> res = \<lparr> executed = k, batch_exit = BatchCompleted \<rparr>"
  by (auto simp: batch_outcome_def)

lemma batch_outcome_Suc:
  "batch_outcome step k (Suc n) st res st' \<longleftrightarrow>
     (case step st of
        (Inr StepContinue, st1) \<Rightarrow> batch_outcome step (k + 1) n st1 res st'
      | (Inr StepContinueInhibitInterrupts, st1) \<Rightarrow> batch_outcome step (k + 1) n st1 res st'
      | (r, st1) \<Rightarrow> st1 = st' \<and> (\<exists>c x. ends_batch r = Some (c, x) \<and> res = \<lparr> executed = k + c, batch_exit = x \<rparr>))"
proof -
  have "batch_outcome step k (Suc n) st res st' \<longleftrightarrow>
      (\<exists>r c x. step st = (r, st') \<and> ends_batch r = Some (c, x) \<and> res = \<lparr> executed = k + c, batch_exit = x \<rparr>) \<or>
      (\<exists>j st1. continues step (Suc j) st = Some st1 \<and>
        (j = n \<and> st' = st1 \<and> res = \<lparr> executed = k + 1 + j, batch_exit = BatchCompleted \<rparr> \<or>
         j < n \<and> (\<exists>r c x. step st1 = (r, st') \<and> ends_batch r = Some (c, x) \<and> res = \<lparr> executed = k + 1 + j + c, batch_exit = x \<rparr>)))"
    unfolding batch_outcome_def by (subst exists_nat_cases) simp
  then show ?thesis
    by (cases "step st") (auto simp: batch_outcome_def ends_batch_def split: sum.splits StepExit.splits failure.splits)
qed

lemma batch_loop_outcome: "batch_loop step k n st = (Inr res, st') \<longleftrightarrow> batch_outcome step k n st res st'"
proof (induction n arbitrary: k st)
  case 0
  show ?case by (auto simp: batch_outcome_0 act_return_def)
next
  case (Suc n)
  show ?case unfolding batch_outcome_Suc Suc.IH [symmetric]
    by (cases "step st") (auto simp: act_bind_def act_catch_def act_map_def act_return_def ends_batch_def split: sum.splits failure.splits StepExit.splits)
qed

lemma act_bind_assoc: "act_bind (act_bind m f) g = act_bind m (\<lambda>x. act_bind (f x) g)"
  by (auto simp: act_bind_def fun_eq_iff split: prod.split sum.split)

text \<open>A batch may be interrupted anywhere: two batches in a row do what one does.\<close>

lemma batch_loop_split:
  "batch_loop step k (n + m) =
     act_bind (batch_loop step k n) (\<lambda>res. if batch_exit res = BatchCompleted then batch_loop step (executed res) m else act_return res)"
proof (induction n arbitrary: k)
  case 0
  then show ?case by (simp add: act_bind_def act_return_def fun_eq_iff)
next
  case (Suc n)
  show ?case
    unfolding add_Suc batch_loop.simps(2) Suc.IH act_bind_assoc
    by (intro arg_cong [of _ _ "act_bind _"] ext) (simp split: sum.split StepExit.split)
qed

text \<open>
  \<^bold>\<open>What a batch does and counts (C16).\<close> Unless the processor is halted, a batch of at most \<open>n\<close> instructions returns exactly in these two ways. It completes after \<open>n\<close> steps
  that went on, and reports \<open>n\<close>; or after \<open>j < n\<close> such steps the next one ends it, and the state is the one that step left. A branch, a halt and a
  BIOS interrupt are counted, the report is \<open>j + 1\<close>; an assist and an exception are not, the report is \<open>j\<close>. The exit names the cause. A halted
  processor executes nothing.
\<close>

theorem batch_counts:
  "run_batch step n (s, b) = (Inr res, st') \<longleftrightarrow>
    (if halted s then res = \<lparr> executed = 0, batch_exit = BatchHalted \<rparr> \<and> st' = (s, b)
     else \<exists>j st1. continues step j (s, b) = Some st1 \<and>
       (j = unat n \<and> st' = st1 \<and> res = \<lparr> executed = j, batch_exit = BatchCompleted \<rparr> \<or>
        j < unat n \<and> (\<exists>r c x. step st1 = (r, st') \<and> ends_batch r = Some (c, x) \<and> res = \<lparr> executed = j + c, batch_exit = x \<rparr>)))"
proof (cases "halted s")
  case True
  then show ?thesis by (auto simp: run_batch_def act_bind_def cpu_get_def act_return_def)
next
  case False
  then have "run_batch step n (s, b) = batch_loop step 0 (unat n) (s, b)" by (simp add: run_batch_def act_bind_def cpu_get_def)
  then show ?thesis using False by (simp add: batch_loop_outcome batch_outcome_def)
qed

theorem batch_counts_witness:
  "run_batch (act_return StepContinue) 3 (sample_real, ()) = (Inr \<lparr> executed = 3, batch_exit = BatchCompleted \<rparr>, (sample_real, ())) \<and>
   run_batch (act_return StepBranch) 3 (sample_real, ()) = (Inr \<lparr> executed = 1, batch_exit = BatchBranch \<rparr>, (sample_real, ())) \<and>
   run_batch (act_fail gp0) 3 (sample_real, ()) = (Inr \<lparr> executed = 0, batch_exit = BatchException gp0 \<rparr>, (sample_real, ()))"
proof -
  have h: "halted sample_real = False" by (simp add: sample_real_def CpuState_new_def CpuState_default_def map_cs_def)
  have "continues (act_return StepContinue) 3 (sample_real, ()) = Some (sample_real, ())" by (simp add: numeral_3_eq_3 act_return_def)
  moreover have "ends_batch (Inr StepBranch) = Some (1, BatchBranch)" "ends_batch (Inl (Fail gp0)) = Some (0, BatchException gp0)"
    by (simp_all add: ends_batch_def)
  ultimately show ?thesis
    unfolding batch_counts h using continues.simps(1) by (fastforce simp: act_return_def act_fail_def)
qed

end
