(* ===== verification/CpuBulk.thy ===== *)
theory CpuBulk
  imports CpuStack
begin

text \<open>
  The fast paths of the repeated moves and stores: where \<^verbatim>\<open>REP MOVS\<close> and \<^verbatim>\<open>REP STOS\<close> go through the bulk operations of the bus, they leave the
  registers and the memory that the loop over the elements leaves. The proof is over the locale \<open>bulk_bus\<close>, a linear memory whose bulk operations move and
  fill ranges; its interpretations show that the flat bus and the paging bus without paging are such.
\<close>

section \<open>Index registers\<close>

definition addr_bits :: "AddrSize \<Rightarrow> nat" where
  "addr_bits a = (case a of A16 \<Rightarrow> 16 | A32 \<Rightarrow> 32 | A64 \<Rightarrow> 64)"

lemma index_info: "gpr_info (count_reg a) = Some (1, addr_bits a, False)" "gpr_info (src_index_reg a) = Some (6, addr_bits a, False)"
  "gpr_info (dst_index_reg a) = Some (7, addr_bits a, False)"
  by (simp_all add: count_reg_def src_index_reg_def dst_index_reg_def addr_bits_def split: AddrSize.split)

lemma write_reg_again:
  assumes "gpr_info r = Some (i, b, False)" "b \<in> {16, 32, 64}" "length (gpr s) = 16"
  shows "write_reg (write_reg s r v) r w = write_reg s r w"
  using assms gpr_info_bounds [OF assms(1)]
  by (auto simp: write_reg_def Let_def intro!: CpuState.equality arg_cong [of _ _ "\<lambda>x. (gpr s)[i := x]"] bit_word_eqI)
    (auto simp: bit_simps low_masks)

lemma write_reg_swap:
  assumes "gpr_info r = Some (i, b, h)" "gpr_info r' = Some (i', b', h')" "i \<noteq> i'"
  shows "write_reg (write_reg s r v) r' w = write_reg (write_reg s r' w) r v"
  using assms by (simp add: write_reg_def Let_def list_update_swap)

lemma addr_bits_cases: "addr_bits a \<in> {16, 32, 64}"
  by (cases a) (simp_all add: addr_bits_def)

lemma index_again:
  assumes "length (gpr s) = 16"
  shows "write_count (write_count s a v) a w = write_count s a w" "write_si (write_si s a v) a w = write_si s a w" "write_di (write_di s a v) a w = write_di s a w"
  unfolding write_count_def write_si_def write_di_def
  using assms write_reg_again [OF index_info(1)] write_reg_again [OF index_info(2)] write_reg_again [OF index_info(3)] addr_bits_cases [of a] by blast+

lemma index_swap:
  "write_si (write_count s a v) a w = write_count (write_si s a w) a v" "write_di (write_count s a v) a w = write_count (write_di s a w) a v"
  "write_si (write_di s a v) a w = write_di (write_si s a w) a v"
  unfolding write_count_def write_si_def write_di_def
  by (rule write_reg_swap [OF index_info(1) index_info(2)], simp) (rule write_reg_swap [OF index_info(1) index_info(3)], simp,
      rule write_reg_swap [OF index_info(3) index_info(2)], simp)

lemma length_index [simp]: "length (gpr (write_count s a v)) = length (gpr s)" "length (gpr (write_si s a v)) = length (gpr s)"
  "length (gpr (write_di s a v)) = length (gpr s)"
  by (simp_all add: write_count_def write_si_def write_di_def)

lemma read_index:
  assumes "length (gpr s) = 16"
  shows "read_si (write_si s a v) a = take_bit (addr_bits a) v" "read_di (write_di s a v) a = take_bit (addr_bits a) v"
    "read_si (write_di s a v) a = read_si s a" "read_si (write_count s a v) a = read_si s a" "read_di (write_count s a v) a = read_di s a"
    "read_di (write_si s a v) a = read_di s a"
  unfolding read_si_def read_di_def write_si_def write_di_def write_count_def
  using assms by (simp_all add: read_write_reg [OF _ index_info(2)] read_write_reg [OF _ index_info(3)] read_write_other [OF index_info(3) index_info(2)]
      read_write_other [OF index_info(1) index_info(2)] read_write_other [OF index_info(1) index_info(3)] read_write_other [OF index_info(2) index_info(3)])

lemma index_frame:
  "cpu_mode (write_count s a v) = cpu_mode s" "segments (write_count s a v) = segments s" "a20_enabled (write_count s a v) = a20_enabled s" "msr (write_count s a v) = msr s"
  "cpu_mode (write_si s a v) = cpu_mode s" "segments (write_si s a v) = segments s" "a20_enabled (write_si s a v) = a20_enabled s" "msr (write_si s a v) = msr s"
  "cpu_mode (write_di s a v) = cpu_mode s" "segments (write_di s a v) = segments s" "a20_enabled (write_di s a v) = a20_enabled s" "msr (write_di s a v) = msr s"
  by (simp_all add: write_count_def write_si_def write_di_def write_reg_def index_info Let_def)

lemma linear_index: "linear (write_count s a v) = linear s" "linear (write_si s a v) = linear s" "linear (write_di s a v) = linear s"
  by (simp_all add: linear_def fun_eq_iff apply_a20_def seg_base_reg_def index_frame split: CpuMode.split Register.split SegReg.split)

lemma acc_info: "string_acc n = Inr r \<Longrightarrow> \<exists>b. gpr_info r = Some (0, b, False)"
  by (auto simp: string_acc_def split: if_splits)

lemma acc_index:
  "string_acc n = Inr r \<Longrightarrow> read_reg (write_count s a v) r = read_reg s r" "string_acc n = Inr r \<Longrightarrow> read_reg (write_di s a v) r = read_reg s r"
  unfolding write_count_def write_di_def
  by (drule acc_info, elim exE, rule read_write_other [OF index_info(1)], assumption, simp)
    (drule acc_info, elim exE, rule read_write_other [OF index_info(3)], assumption, simp)

section \<open>Offsets of the elements\<close>

text \<open>At its width, the index after \<open>k\<close> elements is \<open>k\<close> steps further.\<close>

lemma add_wrapping_take: "add_wrapping v d a = take_bit (addr_bits a) (v + d)"
proof (cases a)
  case A16
  have "ucast ((ucast v :: u16) + ucast d) = take_bit 16 (v + d)" by (simp add: unat_eq_nat_uint word_uint_eq_iff unsigned_ucast_eq uint_word_ariths take_bit_eq_mod mod_simps unsigned_take_bit_eq mod_mod_cancel uint_mod_distrib)
  then show ?thesis by (simp add: A16 add_wrapping_def addr_bits_def)
next
  case A32
  have "ucast ((ucast v :: u32) + ucast d) = take_bit 32 (v + d)" by (simp add: unat_eq_nat_uint word_uint_eq_iff unsigned_ucast_eq uint_word_ariths take_bit_eq_mod mod_simps unsigned_take_bit_eq mod_mod_cancel uint_mod_distrib)
  then show ?thesis by (simp add: A32 add_wrapping_def addr_bits_def)
next
  case A64
  then show ?thesis by (simp add: add_wrapping_def addr_bits_def take_bit_word_eq_self)
qed

lemma add_wrapping_bits: "take_bit (addr_bits a) (add_wrapping v d a) = add_wrapping v d a"
  by (simp add: add_wrapping_take)

lemma ucast_sub: "ucast ((ucast v :: u16) - ucast d) = take_bit 16 (v - d)" "ucast ((ucast v :: u32) - ucast d) = take_bit 32 (v - d)" for v d :: u64
  by (simp_all add: word_uint_eq_iff unsigned_ucast_eq uint_word_ariths take_bit_eq_mod mod_simps unsigned_take_bit_eq mod_mod_cancel uint_mod_distrib)

lemma advance_n_take: "advance_n v e n df a = take_bit (addr_bits a) (if df then v - of_nat e * n else v + of_nat e * n)"
  using add_wrapping_take [of v "of_nat e * n" a]
  by (cases a) (simp_all add: advance_n_def add_wrapping_def addr_bits_def ucast_sub Let_def take_bit_word_eq_self)

lemma take_bit_left: "take_bit m (take_bit m x + y) = take_bit m (x + y)" "take_bit m (take_bit m x - y) = take_bit m (x - y)" for x y :: "'a::len word"
  using take_bit_left_add [of m x y] take_bit_left_add [of m x "- y"] by simp_all

text \<open>The offset of element \<open>k\<close>, and where the last but \<open>k\<close> ends up.\<close>

definition next_offset :: "u64 \<Rightarrow> AddrSize \<Rightarrow> u64 \<Rightarrow> u64" where
  "next_offset d a x = add_wrapping x d a"

lemma iterate_next:
  assumes "take_bit (addr_bits a) off = off"
  shows "(next_offset (if df then - of_nat e else of_nat e) a ^^ k) off = advance_n off e (of_nat k) df a"
proof (induction k)
  case 0
  then show ?case using assms by (simp add: advance_n_take)
next
  case (Suc k)
  then show ?case by (simp add: next_offset_def add_wrapping_take advance_n_take take_bit_left) (simp add: algebra_simps)
qed

definition elem_index :: "bool \<Rightarrow> nat \<Rightarrow> nat \<Rightarrow> nat" where
  "elem_index df n k = (if df then n - 1 - k else k)"

lemma take_bit_small: "unat x < 2 ^ m \<Longrightarrow> take_bit m x = x" for x :: "'a::len word"
  by (simp add: word_unat_eq_iff unsigned_take_bit_eq take_bit_nat_eq_self)

lemma small_offset: "take_bit (addr_bits a) off = off \<Longrightarrow> unat off < 2 ^ addr_bits a" for off :: u64
  by (metis unsigned_take_bit_eq take_bit_nat_less_exp)

lemma no_wrap:
  assumes "offsets_contiguous_without_wrap off n e df a" "take_bit (addr_bits a) off = off" "k < unat n" "e < 16"
  shows "take_bit (addr_bits a) (if df then off - of_nat e * of_nat k else off + of_nat e * of_nat k) = (if df then off - of_nat e * of_nat k else off + of_nat e * of_nat k)"
proof (cases "a = A64")
  case True
  then show ?thesis by (simp add: addr_bits_def take_bit_word_eq_self)
next
  case False
  have n: "n \<noteq> 0" using assms(3) by auto
  have n1: "unat (n - 1) = unat n - 1" using n by (simp add: unat_minus_one)
  have e: "unat (of_nat e :: u64) = e" using assms(4) by (simp add: unat_of_nat)
  obtain span where span: "checked_mul (n - 1) (of_nat e) = Some span" using assms(1) False n by (auto simp: offsets_contiguous_without_wrap_def split: option.splits)
  then have u: "unat span = (unat n - 1) * e" using n1 e by (auto simp: checked_mul_def unat_word_ariths split: if_splits)
  have "k \<le> unat n - 1" using assms(3) by arith
  then have "k * e \<le> unat span" unfolding u by (rule mult_le_mono1)
  moreover have "unat span < 2 ^ 64" using unat_less [of span] by simp
  ultimately have ke: "unat (of_nat e * of_nat k :: u64) = k * e" by (simp add: unat_of_nat unat_word_ariths mult.commute flip: of_nat_mult)
  have m: "unat (addr_mask a) < 2 ^ addr_bits a" "2 ^ addr_bits a \<le> (2 ^ 64 :: nat)" using False by (cases a; simp add: addr_mask_def addr_bits_def)+
  show ?thesis
  proof (cases df)
    case True
    then have "k * e \<le> unat off" using assms(1) False n span \<open>k * e \<le> unat span\<close> by (auto simp: offsets_contiguous_without_wrap_def word_le_nat_alt)
    then have "unat (off - of_nat e * of_nat k) \<le> unat off" using ke by (simp add: unat_sub word_le_nat_alt)
    then show ?thesis using True small_offset [OF assms(2)] by (simp add: take_bit_small)
  next
    case df: False
    then have "unat off + unat span \<le> unat (addr_mask a)"
      using assms(1) False n span by (auto simp: offsets_contiguous_without_wrap_def checked_add_def word_le_nat_alt unat_word_ariths split: if_splits)
    then have "unat (off + of_nat e * of_nat k) < 2 ^ addr_bits a" using ke m \<open>k * e \<le> unat span\<close> by (simp add: unat_word_ariths)
    then show ?thesis using df by (simp add: take_bit_small)
  qed
qed

lemma offset_in_range:
  assumes "offsets_contiguous_without_wrap off n e df a" "take_bit (addr_bits a) off = off" "k < unat n" "e < 16"
  shows "advance_n off e (of_nat k) df a = range_start off e n df a + of_nat (elem_index df (unat n) k * e)"
proof (cases df)
  case True
  have p: "unat n - 1 < unat n" using assms(3) by simp
  have n1: "of_nat (unat n - 1) = n - 1" using assms(3) by (simp add: of_nat_diff)
  have "range_start off e n df a = off - of_nat e * (n - 1)"
    using no_wrap [OF assms(1,2) p assms(4)] True unfolding n1 by (simp add: range_start_def advance_n_take)
  moreover have "(of_nat (unat n - 1 - k) :: u64) = n - 1 - of_nat k" using assms(3) n1 by (subst of_nat_diff) auto
  ultimately show ?thesis using no_wrap [OF assms] True by (simp add: advance_n_take elem_index_def) (simp add: algebra_simps)
next
  case False
  then show ?thesis using no_wrap [OF assms] by (simp add: advance_n_take range_start_def elem_index_def mult.commute)
qed

section \<open>Ranges in linear memory\<close>

lemma a20_low: "cpu_mode s \<noteq> Long \<Longrightarrow> unat (apply_a20 s x) mod 2 ^ 20 = unat x mod 2 ^ 20"
proof -
  assume l: "cpu_mode s \<noteq> Long"
  define y where "y = unat x mod 2 ^ 32"
  have ge: "2 ^ 20 \<le> y" if "odd (y div 2 ^ 20)" using that by (metis div_less even_zero not_less)
  have "y mod 2 ^ 20 = unat x mod 2 ^ 20" unfolding y_def by (simp add: mod_mod_cancel)
  moreover have "(y - 2 ^ 20) mod 2 ^ 20 = y mod 2 ^ 20" if "odd (y div 2 ^ 20)" using ge [OF that] by (simp add: le_mod_geq)
  ultimately show ?thesis using l unfolding unat_apply_a20 y_def [symmetric] by auto
qed

lemma range_contiguous:
  assumes "linear_range_contiguous s (apply_a20 s x) t" "t \<noteq> 0" "cpu_mode s = Long \<longrightarrow> unat (apply_a20 s x) + unat t \<le> 2 ^ 64"
  shows "contiguous_masked_start s x (unat t) = Some (apply_a20 s x)"
proof -
  have t: "0 < unat t" "unat t < 2 ^ 64" "unat (t - 1) = unat t - 1" using assms(2) unat_less [of t] by (simp_all add: unat_gt_0 unat_minus_one)
  have "wrapped_segment_len s x (unat t) = unat t"
  proof (cases "cpu_mode s = Long")
    case True
    then show ?thesis using assms(3) unfolding wrapped_segment_len_eq [OF t(1,2)] unat_apply_a20 by simp
  next
    case False
    show ?thesis
    proof (cases "a20_masked s")
      case True
      then have "unat x mod 2 ^ 20 + unat t \<le> 2 ^ 20"
        using assms(1,2) False t a20_low [OF False, of x] unat_and20 [of "apply_a20 s x"]
        by (auto simp: linear_range_contiguous_def a20_masked_def Let_def checked_add_def word_le_nat_alt unat_word_ariths split: if_splits)
      moreover have "unat x mod 2 ^ 32 + (2 ^ 20 - unat x mod 2 ^ 20) \<le> 2 ^ 32"
      proof -
        have "unat x mod 2 ^ 32 mod 2 ^ 20 = unat x mod 2 ^ 20" by (simp add: mod_mod_cancel)
        then have "unat x mod 2 ^ 32 = 2 ^ 20 * (unat x mod 2 ^ 32 div 2 ^ 20) + unat x mod 2 ^ 20" using mult_div_mod_eq [of "2 ^ 20" "unat x mod 2 ^ 32"] by simp
        moreover have "unat x mod 2 ^ 32 div 2 ^ 20 \<le> 2 ^ 12 - 1" by (simp add: div_le_mono less_mult_imp_div_less)
        ultimately show ?thesis by simp
      qed
      ultimately show ?thesis using True False unfolding wrapped_segment_len_eq [OF t(1,2)] by simp
    next
      case nm: False
      then have "unat x mod 2 ^ 32 + unat t \<le> 2 ^ 32"
        using assms(1,2) False t unat_apply_a20 [of s x]
        by (auto simp: linear_range_contiguous_def Let_def checked_add_def word_le_nat_alt unat_word_ariths split: if_splits)
      then show ?thesis using nm False unfolding wrapped_segment_len_eq [OF t(1,2)] by simp
    qed
  qed
  then show ?thesis using t by (simp add: contiguous_masked_start_def)
qed

lemma unat_plus: "unat a + n < 2 ^ 64 \<Longrightarrow> unat (a + of_nat n) = unat a + n" for a :: u64
  by (simp add: unat_word_ariths unat_of_nat)

lemma run_stored_append:
  assumes "run_stored lim acc byte wr b a xs b1" "run_stored lim acc byte wr b1 (a + of_nat (length xs)) ys b2" "unat a + length xs + length ys \<le> lim" "lim \<le> 2 ^ 64"
  shows "run_stored lim acc byte wr b a (xs @ ys) b2"
proof (cases "ys = []")
  case False
  then have "unat a + length xs < 2 ^ 64" using assms(3,4) by (cases ys) auto
  then have "unat (a + of_nat (length xs)) = unat a + length xs" by (rule unat_plus)
  then show ?thesis using assms(1,2) by (auto simp: run_stored_def nth_append)
qed (use assms in \<open>auto simp: run_stored_def\<close>)

lemma run_stored_prepend:
  assumes "run_stored lim acc byte wr b (a + of_nat (length ys)) xs b1" "run_stored lim acc byte wr b1 a ys b2" "unat a + length ys + length xs \<le> lim" "lim \<le> 2 ^ 64"
  shows "run_stored lim acc byte wr b a (ys @ xs) b2"
proof (cases "xs = []")
  case False
  then have "unat a + length ys < 2 ^ 64" using assms(3,4) by (cases xs) auto
  then have "unat (a + of_nat (length ys)) = unat a + length ys" by (rule unat_plus)
  then show ?thesis using assms(1,2) by (auto simp: run_stored_def nth_append)
qed (use assms in \<open>auto simp: run_stored_def\<close>)

lemma take_le_bytes: "n \<le> 8 \<Longrightarrow> 8 * n \<le> LENGTH('a) \<Longrightarrow> take n (to_le_bytes 8 v) = to_le_bytes n (ucast v :: 'a::len word)" for v :: u64
  by (rule nth_equalityI) (auto simp: to_le_bytes_def bit_simps intro!: bit_word_eqI)

lemma le_bytes_value:
  assumes "length bs = n" "n \<le> 8"
  shows "take n (to_le_bytes 8 (from_le_bytes bs :: u64)) = bs"
proof (rule nth_equalityI)
  show "length (take n (to_le_bytes 8 (from_le_bytes bs :: u64))) = length bs" using assms by simp
  fix i assume "i < length (take n (to_le_bytes 8 (from_le_bytes bs :: u64)))"
  then have i: "i < n" "i < 8" using assms by auto
  then show "take n (to_le_bytes 8 (from_le_bytes bs :: u64)) ! i = bs ! i"
    using assms by (auto simp: to_le_bytes_def bit_simps bit_from_le_bytes intro!: bit_word_eqI)
qed

lemma ucast_from_le: "length bs * 8 \<le> LENGTH('a) \<Longrightarrow> ucast (from_le_bytes bs :: 'a::len word) = (from_le_bytes bs :: u64)" if "length bs \<le> 8"
  using that by (intro bit_word_eqI) (auto simp: bit_simps bit_from_le_bytes)

context linear_bus
begin

definition line :: "CpuState \<Rightarrow> u64 \<Rightarrow> nat \<Rightarrow> bool" where
  "line s x n \<longleftrightarrow> (\<forall>i<n. at s x i = x + of_nat i) \<and> unat x + n \<le> lim \<and> (cpu_mode s = Long \<longrightarrow> lim = 2 ^ 64)"

definition mem_ok :: "'b \<Rightarrow> u64 \<Rightarrow> nat \<Rightarrow> bool" where
  "mem_ok b x n \<longleftrightarrow> ok b \<and> (\<forall>i<n. acc b (x + of_nat i))"

lemma line_part: "line s x n \<Longrightarrow> j + m \<le> n \<Longrightarrow> line s (x + of_nat j) m"
proof -
  assume l: "line s x n" and j: "j + m \<le> n"
  have "at s (x + of_nat j) i = x + of_nat j + of_nat i" if "i < m" for i
    using l j that by (auto simp: line_def at_def add.assoc dest!: spec [of _ "j + i"])
  moreover have "unat (x + of_nat j) + m \<le> lim"
  proof (cases "unat x + j < 2 ^ 64")
    case True
    then show ?thesis using l j unat_plus by (auto simp: line_def)
  next
    case False
    then have e: "unat x + j = 2 ^ 64" "m = 0" using l j lim by (auto simp: line_def)
    have "unat (x + of_nat j) = (unat x + j) mod 2 ^ 64" by (simp add: unat_word_ariths unat_of_nat mod_simps)
    then have "unat (x + of_nat j) = 0" using e(1) by simp
    then show ?thesis using e(2) by simp
  qed
  ultimately show ?thesis using l by (simp add: line_def)
qed

lemma mem_ok_part: "mem_ok b x n \<Longrightarrow> j + m \<le> n \<Longrightarrow> mem_ok b (x + of_nat j) m"
  by (auto simp: mem_ok_def add.assoc dest!: spec [of _ "j + _"] simp flip: of_nat_add)

lemma line_a20: "line s x n \<Longrightarrow> 0 < n \<Longrightarrow> apply_a20 s x = x"
  by (auto simp: line_def at_def dest!: spec [of _ 0])

lemma line_covered: "line s x n \<Longrightarrow> mem_ok b x n \<Longrightarrow> n < 2 ^ 64 \<Longrightarrow> covered b s x n"
  by (auto simp: line_def mem_ok_def covered_def)

lemma stores_line:
  assumes "line s x n" "length bs = n" "stores b (store_at (stored b) s x bs [0..<n] (byte b)) b'"
  shows "ok b' \<and> run_stored lim acc byte stored b x bs b'"
proof -
  have "store_at (stored b) s x bs [0..<0 + n] (byte b) y =
      (if unat x \<le> unat y \<and> unat y < unat x + n then stored b y (bs ! (0 + (unat y - unat x))) else byte b y)" for y
    using assms(1) lim by (intro store_at_run) (auto simp: line_def)
  then show ?thesis using assms(2,3) by (auto simp: stores_def run_stored_def)
qed

lemma element_write:
  assumes "line s x n" "mem_ok b x n" "n \<in> {1, 2, 4, 8}"
  shows "\<exists>b'. string_write B s x n v b = (Inr (), b') \<and> ok b' \<and> run_stored lim acc byte stored b x (take n (to_le_bytes 8 v)) b'"
proof -
  have c: "covered b s x n" using line_covered [OF assms(1,2)] assms(3) by auto
  consider "n = 1" | "n = 2" | "n = 4" | "n = 8" using assms(3) by auto
  then show ?thesis
  proof cases
    case 1
    have a: "apply_a20 s x = x" "unat x + 1 \<le> lim" "acc b x" "ok b" using assms(1,2) line_a20 [OF assms(1)] 1 by (auto simp: line_def mem_ok_def)
    obtain b' where b': "cb_write_u8 B x (ucast v) b = (Inr (), b')" "run_stored lim acc byte stored b x (to_le_bytes 1 (ucast v :: u8)) b'"
      using write_scalar(1) [OF a(4,2,3)] by blast
    then show ?thesis using 1 a fault_safeD [OF write_safe(1) a(4) b'(1)] take_le_bytes [of 1 v, where 'a = 8] by (auto simp: string_write_def)
  next
    case 2
    then show ?thesis using write_wrapped_ints(1) [of b s x "ucast v"] c stores_line [OF assms(1)] take_le_bytes [of 2 v, where 'a = 16] by (fastforce simp: string_write_def)
  next
    case 3
    then show ?thesis using write_wrapped_ints(2) [of b s x "ucast v"] c stores_line [OF assms(1)] take_le_bytes [of 4 v, where 'a = 32] by (fastforce simp: string_write_def)
  next
    case 4
    then show ?thesis using write_wrapped_ints(3) [of b s x v] c stores_line [OF assms(1)] by (fastforce simp: string_write_def)
  qed
qed

lemma element_read:
  assumes "line s x n" "mem_ok b x n" "n \<in> {1, 2, 4, 8}"
  shows "string_read B s x n b = (Inr (from_le_bytes (map (\<lambda>i. byte b (x + of_nat i)) [0..<n])), b)"
proof -
  have c: "covered b s x n" using line_covered [OF assms(1,2)] assms(3) by auto
  have m: "map (\<lambda>i. byte b (at s x i)) [0..<n] = map (\<lambda>i. byte b (x + of_nat i)) [0..<n]" using assms(1) by (auto simp: line_def)
  consider "n = 1" | "n = 2" | "n = 4" | "n = 8" using assms(3) by auto
  then show ?thesis
  proof cases
    case 1
    have a: "apply_a20 s x = x" "unat x + 1 \<le> lim" "ok b" using assms(1,2) line_a20 [OF assms(1)] 1 by (auto simp: line_def mem_ok_def)
    have "cb_read_bytes B x 1 b = (Inr (map (\<lambda>i. byte b (x + of_nat i)) [0..<1]), b)" using a assms(2) 1 by (intro read_run) (auto simp: mem_ok_def)
    then show ?thesis using 1 a read_scalar(1) [OF a(3,2)] by (simp add: string_read_def act_map_def act_bind_def act_return_def ucast_from_le)
  next
    case 2
    then show ?thesis using read_wrapped_ints(1) [OF c [unfolded 2]] unfolding m [unfolded 2] by (simp add: string_read_def act_map_def act_bind_def act_return_def ucast_from_le)
  next
    case 3
    then show ?thesis using read_wrapped_ints(2) [OF c [unfolded 3]] unfolding m [unfolded 3] by (simp add: string_read_def act_map_def act_bind_def act_return_def ucast_from_le)
  next
    case 4
    then show ?thesis using read_wrapped_ints(3) [OF c [unfolded 4]] unfolding m [unfolded 4] by (simp add: string_read_def)
  qed
qed

end

section \<open>The loops over the elements\<close>

definition stos_done :: "u64 \<Rightarrow> AddrSize \<Rightarrow> nat \<Rightarrow> u64 \<Rightarrow> CpuState \<Rightarrow> CpuState" where
  "stos_done d a n c t = write_count (write_di t a ((next_offset d a ^^ n) (read_di t a))) a c"

definition movs_done :: "u64 \<Rightarrow> AddrSize \<Rightarrow> nat \<Rightarrow> u64 \<Rightarrow> CpuState \<Rightarrow> CpuState" where
  "movs_done d a n c t =
     write_count (write_di (write_si t a ((next_offset d a ^^ n) (read_si t a))) a ((next_offset d a ^^ n) (read_di t a))) a c"

lemma next_offset_bits: "take_bit (addr_bits a) (next_offset d a x) = next_offset d a x"
  by (simp add: next_offset_def add_wrapping_bits)

lemma iterate_next_bits: "take_bit (addr_bits a) ((next_offset d a ^^ Suc n) x) = (next_offset d a ^^ Suc n) x"
  by (simp add: next_offset_bits)

lemma done_read:
  assumes "length (gpr t) = 16"
  shows "read_di (stos_done d a (Suc 0) c t) a = next_offset d a (read_di t a)"
    "read_di (movs_done d a (Suc 0) c t) a = next_offset d a (read_di t a)" "read_si (movs_done d a (Suc 0) c t) a = next_offset d a (read_si t a)"
  using assms by (simp_all add: stos_done_def movs_done_def read_index next_offset_bits)

lemma done_again:
  assumes "length (gpr t) = 16"
  shows "stos_done d a n c' (stos_done d a (Suc 0) c t) = stos_done d a (Suc n) c' t" "movs_done d a n c' (movs_done d a (Suc 0) c t) = movs_done d a (Suc n) c' t"
proof -
  have s: "(next_offset d a ^^ n) (next_offset d a x) = (next_offset d a ^^ Suc n) x" for x by (simp add: funpow_swap1)
  show "stos_done d a n c' (stos_done d a (Suc 0) c t) = stos_done d a (Suc n) c' t"
    unfolding stos_done_def [of d a n] done_read(1) [OF assms] s using assms by (simp add: stos_done_def index_swap index_again)
  show "movs_done d a n c' (movs_done d a (Suc 0) c t) = movs_done d a (Suc n) c' t"
    unfolding movs_done_def [of d a n] done_read(2,3) [OF assms] s using assms by (simp add: movs_done_def index_swap index_again)
qed

lemma done_frame:
  "linear (stos_done d a n c t) = linear t" "linear (movs_done d a n c t) = linear t" "length (gpr (stos_done d a n c t)) = length (gpr t)"
  "length (gpr (movs_done d a n c t)) = length (gpr t)" "apply_a20 (stos_done d a n c t) = apply_a20 t" "apply_a20 (movs_done d a n c t) = apply_a20 t"
  "cpu_mode (stos_done d a n c t) = cpu_mode t" "cpu_mode (movs_done d a n c t) = cpu_mode t"
  "string_acc e = Inr r \<Longrightarrow> read_reg (stos_done d a n c t) r = read_reg t r"
  by (simp_all add: stos_done_def movs_done_def linear_index index_frame acc_index apply_a20_def fun_eq_iff)

lemma elem_index_step: "df \<Longrightarrow> elem_index df (Suc n) (Suc k) = elem_index df n k" "\<not> df \<Longrightarrow> elem_index df (Suc n) (Suc k) = Suc (elem_index df n k)"
  "elem_index df (Suc n) 0 = (if df then n else 0)"
  by (simp_all add: elem_index_def)

context linear_bus
begin

lemma line_done: "line (stos_done d a n c t) = line t" "line (movs_done d a n c t) = line t"
  by (simp_all add: line_def fun_eq_iff at_def done_frame)

lemma run_stored_mem_ok: "run_stored lim acc byte stored b x bs b' \<Longrightarrow> ok b' \<Longrightarrow> mem_ok b y n \<Longrightarrow> mem_ok b' y n"
  by (simp add: run_stored_def mem_ok_def)

lemma stos_element_run:
  assumes "string_acc e = Inr r" "e \<in> {1, 2, 4, 8}" "line t x e" "mem_ok b x e" "linear t (Seg ES) (read_di t a) = x"
  shows "\<exists>b'. stos_element B e a d (t, b) = (Inr (), (write_di t a (next_offset d a (read_di t a)), b')) \<and> ok b' \<and>
    run_stored lim acc byte stored b x (take e (to_le_bytes 8 (read_reg t r))) b'"
  using element_write [OF assms(3,4,2), of "read_reg t r"] assms(1,5)
  by (auto simp: stos_element_def act_bind_def act_then_def cpu_get_def cpu_try_def cpu_bus_def cpu_set_def next_offset_def)

lemma stos_loop_fills:
  assumes "string_acc e = Inr r" "e \<in> {1, 2, 4, 8}" "length (gpr t) = 16" "line t x (n * e)" "mem_ok b x (n * e)" "ok b"
    and "\<And>k. k < n \<Longrightarrow> linear t (Seg ES) ((next_offset d a ^^ k) (read_di t a)) = x + of_nat (elem_index df n k * e)"
  shows "\<exists>b'. rep_loop (stos_element B e a d) (rep_stop RepNone) a n (t, b) = (Inr (), (if n = 0 then t else stos_done d a n 0 t, b')) \<and> ok b' \<and>
    run_stored lim acc byte stored b x (concat (replicate n (take e (to_le_bytes 8 (read_reg t r))))) b'"
  using assms(3-)
proof (induction n arbitrary: t b x)
  case 0
  then show ?case by (auto simp: act_return_def run_stored_def)
next
  case (Suc n)
  let ?pat = "take e (to_le_bytes 8 (read_reg t r))"
  let ?j = "(if df then n else 0) * e" and ?i = "(if df then 0 else 1) * e"
  let ?t1 = "stos_done d a (Suc 0) (of_nat n) t"
  have e8: "length ?pat = e" using assms(2) by auto
  have parts: "line t (x + of_nat ?j) e" "mem_ok b (x + of_nat ?j) e" "line t (x + of_nat ?i) (n * e)" "mem_ok b (x + of_nat ?i) (n * e)"
    using line_part [OF Suc.prems(2), of ?j e] mem_ok_part [OF Suc.prems(3), of ?j e]
      line_part [OF Suc.prems(2), of ?i "n * e"] mem_ok_part [OF Suc.prems(3), of ?i "n * e"] by (cases df; simp del: of_nat_mult)+
  have first: "linear t (Seg ES) (read_di t a) = x + of_nat ?j" using Suc.prems(5) [of 0] by (simp add: elem_index_step)
  obtain b1 where b1: "stos_element B e a d (t, b) = (Inr (), (write_di t a (next_offset d a (read_di t a)), b1))" "ok b1"
      "run_stored lim acc byte stored b (x + of_nat ?j) ?pat b1"
    using stos_element_run [OF assms(1,2) parts(1,2) first, of d] by blast
  have r1: "read_reg ?t1 r = read_reg t r" using done_frame(9) [OF assms(1)] by simp
  have idx: "linear ?t1 (Seg ES) ((next_offset d a ^^ k) (read_di ?t1 a)) = x + of_nat ?i + of_nat (elem_index df n k * e)" if "k < n" for k
    using Suc.prems(5) [of "Suc k"] that done_read(1) [OF Suc.prems(1), of d a "of_nat n"]
    by (cases df) (simp_all add: done_frame elem_index_step funpow_swap1 algebra_simps)
  obtain b2 where b2: "rep_loop (stos_element B e a d) (rep_stop RepNone) a n (?t1, b1) = (Inr (), (if n = 0 then ?t1 else stos_done d a n 0 ?t1, b2))" "ok b2"
      "run_stored lim acc byte stored b1 (x + of_nat ?i) (concat (replicate n ?pat)) b2"
    using Suc.IH [of ?t1 "x + of_nat ?i" b1, OF _ _ _ b1(2) idx] Suc.prems(1) parts(3) run_stored_mem_ok [OF b1(3,2) parts(4)]
    unfolding r1 line_done done_frame by blast
  have len: "length (concat (replicate n ?pat)) = n * e" using e8 by (simp add: length_concat sum_list_replicate)
  have lim': "unat x + Suc n * e \<le> lim" using Suc.prems(2) by (simp add: line_def)
  have "run_stored lim acc byte stored b x (concat (replicate (Suc n) ?pat)) b2"
  proof (cases df)
    case True
    then have "run_stored lim acc byte stored b x (concat (replicate n ?pat) @ ?pat) b2"
      using run_stored_prepend [of lim acc byte stored b x "concat (replicate n ?pat)" ?pat b1 b2] b1(3) b2(3) len e8 lim' lim by simp
    moreover have "concat (replicate n ?pat) @ ?pat = concat (replicate (Suc n) ?pat)" using replicate_append_same [of n ?pat] by (metis concat_append concat.simps append_Nil2 replicate_Suc)
    ultimately show ?thesis by simp
  next
    case False
    then show ?thesis using run_stored_append [of lim acc byte stored b x ?pat b1 "concat (replicate n ?pat)" b2] b1(3) b2(3) len e8 lim' lim by simp
  qed
  moreover have "rep_loop (stos_element B e a d) (rep_stop RepNone) a (Suc n) (t, b) = (Inr (), (stos_done d a (Suc n) 0 t, b2))"
  proof -
    have "write_count (write_di t a (next_offset d a (read_di t a))) a (of_nat n) = ?t1" by (simp add: stos_done_def)
    moreover have "(if n = 0 then ?t1 else stos_done d a n 0 ?t1) = stos_done d a (Suc n) 0 t" using done_again(1) [OF Suc.prems(1)] by simp
    ultimately show ?thesis using b1(1) b2(1) by (simp add: act_then_def act_bind_def cpu_set_def cpu_get_def rep_stop_def)
  qed
  ultimately show ?case using b2(2) by auto
qed

end

text \<open>Moves of a range in the order of the elements are moves of the range at once, unless the source is overwritten before it is read.\<close>

definition linear_bytes :: "('b \<Rightarrow> u64 \<Rightarrow> u8) \<Rightarrow> 'b \<Rightarrow> u64 \<Rightarrow> nat \<Rightarrow> u8 list" where
  "linear_bytes byte b x n = map (\<lambda>i. byte b (x + of_nat i)) [0..<n]"

lemma length_linear_bytes [simp]: "length (linear_bytes byte b x n) = n"
  by (simp add: linear_bytes_def)

lemma linear_bytes_add: "linear_bytes byte b x (m + n) = linear_bytes byte b x m @ linear_bytes byte b (x + of_nat m) n"
  by (rule nth_equalityI) (auto simp: linear_bytes_def nth_append add.assoc simp flip: of_nat_add)

lemma linear_bytes_unread:
  assumes "run_stored lim acc byte stored b x bs b'" "unat y + n \<le> lim" "lim \<le> 2 ^ 64" "unat x + length bs \<le> unat y \<or> unat y + n \<le> unat x"
  shows "linear_bytes byte b' y n = linear_bytes byte b y n"
proof -
  have "unat (y + of_nat i) = unat y + i" if "i < n" for i using assms(2,3) that by (intro unat_plus) auto
  then show ?thesis using assms by (auto simp: linear_bytes_def run_stored_def)
qed

definition harmless :: "bool \<Rightarrow> u64 \<Rightarrow> u64 \<Rightarrow> nat \<Rightarrow> bool" where
  "harmless df src dst n \<longleftrightarrow> unat src + n \<le> unat dst \<or> unat dst + n \<le> unat src \<or> (if df then unat src \<le> unat dst else unat dst \<le> unat src)"

context linear_bus
begin

lemma movs_element_run:
  assumes "e \<in> {1, 2, 4, 8}" "length (gpr t) = 16" "line t x e" "mem_ok b x e" "line t y e" "mem_ok b y e"
    and "linear t sg (read_si t a) = x" "linear t (Seg ES) (read_di t a) = y"
  shows "\<exists>b'. movs_element B sg e a d (t, b) = (Inr (), (write_di (write_si t a (next_offset d a (read_si t a))) a (next_offset d a (read_di t a)), b')) \<and>
    ok b' \<and> run_stored lim acc byte stored b y (linear_bytes byte b x e) b'"
proof -
  let ?v = "from_le_bytes (linear_bytes byte b x e) :: u64"
  have r: "string_read B t x e b = (Inr ?v, b)" using element_read [OF assms(3,4,1)] by (simp add: linear_bytes_def)
  have v: "take e (to_le_bytes 8 ?v) = linear_bytes byte b x e" using assms(1) by (intro le_bytes_value) auto
  show ?thesis
    using element_write [OF assms(5,6,1), of ?v] r assms(7,8) unfolding v
    by (auto simp: movs_element_def act_bind_def act_then_def cpu_get_def cpu_bus_def cpu_set_def next_offset_def)
qed

end

lemma elem_split: "elem_index df (Suc n) 0 * e + e \<le> Suc n * e" "(if df then 0 else e) + n * e \<le> Suc n * e"
  by (simp_all add: elem_index_def)

lemma elem_rest: "k < n \<Longrightarrow> elem_index df (Suc n) (Suc k) * e = (if df then 0 else e) + elem_index df n k * e"
  by (simp add: elem_index_def)

lemma harmless_step:
  assumes "harmless df x y (Suc n * e)" "unat x + Suc n * e \<le> 2 ^ 64" "unat y + Suc n * e \<le> 2 ^ 64" "0 < e" "0 < n"
  shows "harmless df (x + of_nat (if df then 0 else e)) (y + of_nat (if df then 0 else e)) (n * e)"
    "unat (y + of_nat (elem_index df (Suc n) 0 * e)) + e \<le> unat (x + of_nat (if df then 0 else e)) \<or>
     unat (x + of_nat (if df then 0 else e)) + n * e \<le> unat (y + of_nat (elem_index df (Suc n) 0 * e))"
proof -
  have "0 < n * e" using assms(4,5) by simp
  then have "unat x + e < 2 ^ 64" "unat y + e < 2 ^ 64" "unat y + n * e < 2 ^ 64" using assms(2-4) unfolding mult_Suc by linarith+
  note p = this [THEN unat_plus] assms(4)
  have u: "unat (x + of_nat (if df then 0 else e)) = unat x + (if df then 0 else e)" "unat (y + of_nat (if df then 0 else e)) = unat y + (if df then 0 else e)"
    "unat (y + of_nat (elem_index df (Suc n) 0 * e)) = unat y + (if df then n * e else 0)"
    using p by (auto simp: elem_index_def simp del: of_nat_mult)
  show "harmless df (x + of_nat (if df then 0 else e)) (y + of_nat (if df then 0 else e)) (n * e)"
    "unat (y + of_nat (elem_index df (Suc n) 0 * e)) + e \<le> unat (x + of_nat (if df then 0 else e)) \<or>
     unat (x + of_nat (if df then 0 else e)) + n * e \<le> unat (y + of_nat (elem_index df (Suc n) 0 * e))"
    using assms(1) unfolding harmless_def u by (auto split: if_splits)
qed

context linear_bus
begin

lemma run_stored_parts:
  assumes "run_stored lim acc byte stored b (x + of_nat (elem_index df (Suc n) 0 * e)) (if df then zs else ys) b1"
    and "run_stored lim acc byte stored b1 (x + of_nat (if df then 0 else e)) (if df then ys else zs) b2"
    and "unat x + Suc n * e \<le> lim" "length ys = (if df then n * e else e)" "length zs = (if df then e else n * e)"
  shows "run_stored lim acc byte stored b x (ys @ zs) b2"
  using assms run_stored_prepend [of lim acc byte stored b x ys zs b1 b2] run_stored_append [of lim acc byte stored b x ys b1 zs b2] lim
  by (auto simp: elem_index_def split: if_splits)

lemma movs_loop_copies:
  assumes "e \<in> {1, 2, 4, 8}" "length (gpr t) = 16" "line t x (n * e)" "mem_ok b x (n * e)" "line t y (n * e)" "mem_ok b y (n * e)" "ok b"
    and "harmless df x y (n * e)"
    and "\<And>k. k < n \<Longrightarrow> linear t sg ((next_offset d a ^^ k) (read_si t a)) = x + of_nat (elem_index df n k * e)"
    and "\<And>k. k < n \<Longrightarrow> linear t (Seg ES) ((next_offset d a ^^ k) (read_di t a)) = y + of_nat (elem_index df n k * e)"
  shows "\<exists>b'. rep_loop (movs_element B sg e a d) (rep_stop RepNone) a n (t, b) = (Inr (), (if n = 0 then t else movs_done d a n 0 t, b')) \<and> ok b' \<and>
    run_stored lim acc byte stored b y (linear_bytes byte b x (n * e)) b'"
  using assms(2-)
proof (induction n arbitrary: t b x y)
  case 0
  then show ?case by (auto simp: act_return_def run_stored_def)
next
  case (Suc n)
  define j i where "j = elem_index df (Suc n) 0 * e" and "i = (if df then 0 else e)"
  let ?t1 = "movs_done d a (Suc 0) (of_nat n) t"
  have ji: "j + e \<le> Suc n * e" "i + n * e \<le> Suc n * e" using elem_split [of df n e] by (simp_all add: j_def i_def)
  have ends: "unat x + Suc n * e \<le> lim" "unat y + Suc n * e \<le> lim" using Suc.prems(2,4) by (simp_all add: line_def)
  have first: "linear t sg (read_si t a) = x + of_nat j" "linear t (Seg ES) (read_di t a) = y + of_nat j"
    using Suc.prems(8,9) [of 0] by (simp_all add: j_def)
  obtain b1 where b1: "movs_element B sg e a d (t, b) = (Inr (), (write_di (write_si t a (next_offset d a (read_si t a))) a (next_offset d a (read_di t a)), b1))"
      "ok b1" "run_stored lim acc byte stored b (y + of_nat j) (linear_bytes byte b (x + of_nat j) e) b1"
    using movs_element_run [OF assms(1) Suc.prems(1) line_part [OF Suc.prems(2) ji(1)] mem_ok_part [OF Suc.prems(3) ji(1)]
        line_part [OF Suc.prems(4) ji(1)] mem_ok_part [OF Suc.prems(5) ji(1)] first, of d] by blast
  have idx: "linear ?t1 sg ((next_offset d a ^^ k) (read_si ?t1 a)) = x + of_nat i + of_nat (elem_index df n k * e)"
      "linear ?t1 (Seg ES) ((next_offset d a ^^ k) (read_di ?t1 a)) = y + of_nat i + of_nat (elem_index df n k * e)" if "k < n" for k
    using Suc.prems(8,9) [of "Suc k"] that elem_rest [OF that, of df e] done_read(2,3) [OF Suc.prems(1), of d a "of_nat n"]
    by (simp_all add: done_frame funpow_swap1 add.assoc i_def del: of_nat_mult)
  have "unat (x + of_nat i) + n * e \<le> lim" using line_part [OF Suc.prems(2) ji(2)] by (simp add: line_def)
  note unread = linear_bytes_unread [OF b1(3) this lim(2)]
  have rest: "linear_bytes byte b1 (x + of_nat i) (n * e) = linear_bytes byte b (x + of_nat i) (n * e)" and h: "harmless df (x + of_nat i) (y + of_nat i) (n * e)"
  proof -
    have "n = 0 \<or> 0 < n" by auto
    then show "linear_bytes byte b1 (x + of_nat i) (n * e) = linear_bytes byte b (x + of_nat i) (n * e)" "harmless df (x + of_nat i) (y + of_nat i) (n * e)"
      using harmless_step [OF Suc.prems(7)] ends lim(2) assms(1) unread
      by (auto simp: i_def j_def linear_bytes_def harmless_def)
  qed
  obtain b2 where b2: "rep_loop (movs_element B sg e a d) (rep_stop RepNone) a n (?t1, b1) = (Inr (), (if n = 0 then ?t1 else movs_done d a n 0 ?t1, b2))" "ok b2"
      "run_stored lim acc byte stored b1 (y + of_nat i) (linear_bytes byte b1 (x + of_nat i) (n * e)) b2"
    using Suc.IH [of ?t1 "x + of_nat i" b1 "y + of_nat i", OF _ _ _ _ _ b1(2) h idx] Suc.prems(1) line_part [OF Suc.prems(2) ji(2)] line_part [OF Suc.prems(4) ji(2)]
      run_stored_mem_ok [OF b1(3,2) mem_ok_part [OF Suc.prems(3) ji(2)]] run_stored_mem_ok [OF b1(3,2) mem_ok_part [OF Suc.prems(5) ji(2)]]
    unfolding line_done done_frame by blast
  have "run_stored lim acc byte stored b y (linear_bytes byte b x (if df then n * e else e) @ linear_bytes byte b (x + of_nat (if df then n * e else e)) (if df then e else n * e)) b2"
    using b1(3) b2(3) ends(2) unfolding rest
    by (intro run_stored_parts [of b y df n e]) (auto simp: i_def j_def elem_index_def)
  then have "run_stored lim acc byte stored b y (linear_bytes byte b x (Suc n * e)) b2"
    unfolding linear_bytes_add [symmetric] by (cases df) (simp_all add: add.commute)
  moreover have "rep_loop (movs_element B sg e a d) (rep_stop RepNone) a (Suc n) (t, b) = (Inr (), (movs_done d a (Suc n) 0 t, b2))"
  proof -
    have "write_count (write_di (write_si t a (next_offset d a (read_si t a))) a (next_offset d a (read_di t a))) a (of_nat n) = ?t1" by (simp add: movs_done_def)
    moreover have "(if n = 0 then ?t1 else movs_done d a n 0 ?t1) = movs_done d a (Suc n) 0 t" using done_again(2) [OF Suc.prems(1)] by simp
    ultimately show ?thesis using b1(1) b2(1) by (simp add: act_then_def act_bind_def cpu_set_def cpu_get_def rep_stop_def)
  qed
  ultimately show ?case using b2(2) by auto
qed

end

lemma a20_idem: "apply_a20 s (apply_a20 s x) = apply_a20 s x"
  by (auto simp: apply_a20_def Let_def intro!: bit_word_eqI simp: bit_simps)

lemma read_reg_bits:
  assumes "gpr_info r = Some (i, b, False)" "b \<in> {16, 32, 64}"
  shows "take_bit b (read_reg s r) = read_reg s r"
  using assms by (intro bit_word_eqI) (auto simp: read_reg_def Let_def low_masks part_bits)

lemma index_bits: "take_bit (addr_bits a) (read_si s a) = read_si s a" "take_bit (addr_bits a) (read_di s a) = read_di s a"
  unfolding read_si_def read_di_def by (rule read_reg_bits [OF index_info(2) addr_bits_cases] read_reg_bits [OF index_info(3) addr_bits_cases])+

lemma contiguous_linear:
  assumes "linear_range_contiguous s (linear s sg off) t" "t \<noteq> 0" "cpu_mode s = Long \<longrightarrow> unat (linear s sg off) + unat t \<le> 2 ^ 64" "i < unat t"
  shows "linear s sg (off + of_nat i) = linear s sg off + of_nat i"
proof -
  let ?x = "seg_base_reg s sg + off"
  have t: "0 < unat t" "unat t < 2 ^ 64" using assms(2) unat_less [of t] by (simp_all add: unat_gt_0)
  have "wrapped_segment_len s ?x (unat t) = unat t"
    using range_contiguous [of s ?x t] assms(1-3) t(1) by (auto simp: linear_def contiguous_masked_start_def split: if_splits)
  then show ?thesis using run_contiguous [OF t, of i s ?x] assms(4) by (simp add: linear_def add.assoc)
qed

context linear_bus
begin

lemma line_linear:
  assumes "linear_range_contiguous s (linear s sg off) t" "t \<noteq> 0" "cpu_mode s = Long \<longrightarrow> lim = 2 ^ 64" "unat (linear s sg off) + unat t \<le> lim"
  shows "line s (linear s sg off) (unat t)"
proof -
  have "at s (linear s sg off) i = linear s sg off + of_nat i" if "i < unat t" for i
  proof -
    have "linear s sg off + of_nat i = linear s sg (off + of_nat i)" using contiguous_linear [OF assms(1,2) _ that] assms(3,4) by auto
    then show ?thesis by (simp add: at_def linear_def a20_idem)
  qed
  then show ?thesis using assms(3,4) by (simp add: line_def)
qed

end

lemma element_addresses:
  assumes "offsets_contiguous_without_wrap off n e df a" "take_bit (addr_bits a) off = off" "e \<in> {1, 2, 4, 8}" "checked_mul (of_nat e) n = Some t"
    and "linear_range_contiguous s (linear s sg (range_start off e n df a)) t" "cpu_mode s = Long \<longrightarrow> unat (linear s sg (range_start off e n df a)) + unat t \<le> 2 ^ 64"
    and "k < unat n"
  shows "linear s sg ((next_offset (if df then - of_nat e else of_nat e) a ^^ k) off) = linear s sg (range_start off e n df a) + of_nat (elem_index df (unat n) k * e)"
proof -
  have t: "unat t = e * unat n" using assms(3,4) by (auto simp: checked_mul_def unat_word_ariths unat_of_nat split: if_splits)
  have "elem_index df (unat n) k < unat n" using assms(7) by (auto simp: elem_index_def)
  then have "elem_index df (unat n) k * e < unat t" using assms(3) unfolding t by (subst mult.commute) auto
  moreover from this have "t \<noteq> 0" by auto
  moreover have "(next_offset (if df then - of_nat e else of_nat e) a ^^ k) off = range_start off e n df a + of_nat (elem_index df (unat n) k * e)"
    using iterate_next [OF assms(2), of k df e] offset_in_range [OF assms(1,2,7)] assms(3) by auto
  ultimately show ?thesis using contiguous_linear [OF assms(5) _ assms(6), of "elem_index df (unat n) k * e"] by simp
qed

section \<open>The fast paths\<close>

text \<open>The reference: the elements one by one, whatever the bus can do.\<close>

definition stos_by_element :: "'b CpuBus \<Rightarrow> nat \<Rightarrow> AddrSize \<Rightarrow> RepMode \<Rightarrow> ('b, unit) cpu_action" where
  "stos_by_element B sz a rep =
     act_bind (cpu_get (\<lambda>s. (step_delta s sz, read_count s a))) (\<lambda>(delta, n). repeat_element rep (stos_element B sz a delta) (rep_stop RepNone) a n)"

definition movs_by_element :: "'b CpuBus \<Rightarrow> Register \<Rightarrow> nat \<Rightarrow> AddrSize \<Rightarrow> RepMode \<Rightarrow> ('b, unit) cpu_action" where
  "movs_by_element B src_seg sz a rep =
     act_bind (cpu_get (\<lambda>s. (step_delta s sz, read_count s a))) (\<lambda>(delta, n). repeat_element rep (movs_element B src_seg sz a delta) (rep_stop RepNone) a n)"

text \<open>The first byte of the range of a repeated instruction, and the number of its bytes.\<close>

definition string_start :: "CpuState \<Rightarrow> Register \<Rightarrow> u64 \<Rightarrow> nat \<Rightarrow> AddrSize \<Rightarrow> u64" where
  "string_start s sg off e a = linear s sg (range_start off e (read_count s a) (get_flag s FLAG_DF) a)"

definition string_bytes :: "CpuState \<Rightarrow> nat \<Rightarrow> AddrSize \<Rightarrow> nat" where
  "string_bytes s e a = unat (read_count s a) * e"

locale bulk_bus = linear_bus ok same B lim acc byte stored for ok :: "'b \<Rightarrow> bool" and same and B :: "'b CpuBus" and lim acc byte stored +
  assumes bulk_copy_run: "ok b \<Longrightarrow> 0 < n \<Longrightarrow> unat src + n \<le> lim \<Longrightarrow> unat dst + n \<le> lim \<Longrightarrow> (\<And>i. i < n \<Longrightarrow> acc b (src + of_nat i)) \<Longrightarrow>
      (\<And>i. i < n \<Longrightarrow> acc b (dst + of_nat i)) \<Longrightarrow>
      \<exists>b'. cb_bulk_copy B dst src n b = (Inr True, b') \<and> ok b' \<and> run_stored lim acc byte stored b dst (map (\<lambda>i. byte b (src + of_nat i)) [0..<n]) b'"
    and bulk_set_run: "ok b \<Longrightarrow> 0 < reps \<Longrightarrow> pattern \<noteq> [] \<Longrightarrow> unat dst + reps * length pattern \<le> lim \<Longrightarrow> (\<And>i. i < reps * length pattern \<Longrightarrow> acc b (dst + of_nat i)) \<Longrightarrow>
      \<exists>b'. cb_bulk_set B dst pattern reps b = (Inr True, b') \<and> ok b' \<and> run_stored lim acc byte stored b dst (concat (replicate reps pattern)) b'"
begin

text \<open>Memories with the same bytes.\<close>

definition alike :: "'b \<Rightarrow> 'b \<Rightarrow> bool" where
  "alike b b' \<longleftrightarrow> acc b = acc b' \<and> (\<forall>x. unat x < lim \<longrightarrow> byte b x = byte b' x)"

lemma run_stored_alike: "run_stored lim acc byte stored b x bs b1 \<Longrightarrow> run_stored lim acc byte stored b x bs b2 \<Longrightarrow> alike b1 b2"
  by (simp add: run_stored_def alike_def)

lemma alike_refl [simp]: "alike b b"
  by (simp add: alike_def)

text \<open>The range of a repeated instruction lies in memory.\<close>

definition in_memory :: "CpuState \<Rightarrow> 'b \<Rightarrow> Register \<Rightarrow> u64 \<Rightarrow> nat \<Rightarrow> AddrSize \<Rightarrow> bool" where
  "in_memory s b sg off e a \<longleftrightarrow> (cpu_mode s = Long \<longrightarrow> lim = 2 ^ 64) \<and> unat (string_start s sg off e a) + string_bytes s e a \<le> lim \<and>
     mem_ok b (string_start s sg off e a) (string_bytes s e a)"

lemma range_line:
  assumes "in_memory s b sg off e a" "e \<in> {1, 2, 4, 8}" "read_count s a \<noteq> 0" "checked_mul (of_nat e) (read_count s a) = Some t"
    and "linear_range_contiguous s (string_start s sg off e a) t"
  shows "line s (string_start s sg off e a) (string_bytes s e a)" "unat t = string_bytes s e a"
proof -
  show t: "unat t = string_bytes s e a"
    using assms(2,4) by (auto simp: string_bytes_def checked_mul_def unat_word_ariths unat_of_nat split: if_splits)
  have "0 < string_bytes s e a" using assms(2,3) by (auto simp: string_bytes_def unat_gt_0)
  then have "t \<noteq> 0" using t by auto
  then show "line s (string_start s sg off e a) (string_bytes s e a)"
    using line_linear [of s sg "range_start off e (read_count s a) (get_flag s FLAG_DF) a" t] assms(1,5) t by (simp add: string_start_def in_memory_def)
qed

lemma stos_fast_fills:
  assumes "length (gpr s) = 16" "ok b" "e \<in> {1, 2, 4, 8}" "read_count s a \<noteq> 0" "in_memory s b (Seg ES) (read_di s a) e a"
  shows "stos_fast B e a (get_flag s FLAG_DF) (read_count s a) (s, b) = (Inr False, (s, b)) \<or>
    (\<exists>b1 b2. stos_fast B e a (get_flag s FLAG_DF) (read_count s a) (s, b) = (Inr True, (stos_done (step_delta s e) a (unat (read_count s a)) 0 s, b1)) \<and>
       rep_loop (stos_element B e a (step_delta s e)) (rep_stop RepNone) a (unat (read_count s a)) (s, b) =
         (Inr (), (stos_done (step_delta s e) a (unat (read_count s a)) 0 s, b2)) \<and> alike b1 b2)"
proof (cases "\<exists>t. offsets_contiguous_without_wrap (read_di s a) (read_count s a) e (get_flag s FLAG_DF) a \<and> checked_mul (of_nat e) (read_count s a) = Some t \<and>
    BULK_THRESHOLD_BYTES \<le> t \<and> linear_range_contiguous s (string_start s (Seg ES) (read_di s a) e a) t")
  case True
  then obtain t where t: "offsets_contiguous_without_wrap (read_di s a) (read_count s a) e (get_flag s FLAG_DF) a" "checked_mul (of_nat e) (read_count s a) = Some t"
      "BULK_THRESHOLD_BYTES \<le> t" "linear_range_contiguous s (string_start s (Seg ES) (read_di s a) e a) t" by blast
  let ?n = "unat (read_count s a)" and ?x = "string_start s (Seg ES) (read_di s a) e a" and ?d = "step_delta s e"
  obtain r where r: "string_acc e = Inr r" using assms(3) by (auto simp: string_acc_def)
  let ?pat = "take e (to_le_bytes 8 (read_reg s r))"
  note line = range_line [OF assms(5,3,4) t(2,4)]
  have mem: "mem_ok b ?x (?n * e)" "unat ?x + ?n * e \<le> lim" using assms(5) by (simp_all add: in_memory_def string_bytes_def)
  have n: "0 < ?n" using assms(4) by (simp add: unat_gt_0)
  have pat: "length ?pat = e" "?pat \<noteq> []" using assms(3) by (auto simp: to_le_bytes_def)
  have d: "?d = (if get_flag s FLAG_DF then - of_nat e else of_nat e)" by (simp add: step_delta_def)
  have idx: "linear s (Seg ES) ((next_offset ?d a ^^ k) (read_di s a)) = ?x + of_nat (elem_index (get_flag s FLAG_DF) ?n k * e)" if "k < ?n" for k
    using element_addresses [OF t(1) index_bits(2) assms(3) t(2) _ _ that, of s "Seg ES"] t(4) mem(2) line(2) lim(2) unfolding d
    by (simp add: string_start_def string_bytes_def)
  obtain b2 where b2: "rep_loop (stos_element B e a ?d) (rep_stop RepNone) a ?n (s, b) = (Inr (), (stos_done ?d a ?n 0 s, b2))"
      "run_stored lim acc byte stored b ?x (concat (replicate ?n ?pat)) b2"
    using stos_loop_fills [OF r assms(3,1) _ mem(1) assms(2), of ?d a "get_flag s FLAG_DF"] line(1) idx n unfolding string_bytes_def by auto
  obtain b1 where b1: "cb_bulk_set B ?x ?pat ?n b = (Inr True, b1)" "run_stored lim acc byte stored b ?x (concat (replicate ?n ?pat)) b1"
    using bulk_set_run [OF assms(2) n pat(2), of ?x] mem unfolding pat(1) mem_ok_def by blast
  have w: "(next_offset ?d a ^^ ?n) (read_di s a) = advance_n (read_di s a) e (read_count s a) (get_flag s FLAG_DF) a"
    unfolding d using iterate_next [OF index_bits(2), of ?n "get_flag s FLAG_DF" e] by simp
  have "stos_fast B e a (get_flag s FLAG_DF) (read_count s a) (s, b) = (Inr True, (stos_done ?d a ?n 0 s, b1))"
    using t b1(1) r unfolding stos_fast_def stos_done_def w string_start_def
    by (simp add: act_bind_def act_then_def cpu_get_def cpu_try_def cpu_bus_def cpu_set_def act_return_def stos_pattern_def Let_def)
  then show ?thesis using b2(1) run_stored_alike [OF b1(2) b2(2)] by blast
next
  case False
  obtain r where r: "string_acc e = Inr r" using assms(3) by (auto simp: string_acc_def)
  then show ?thesis using False unfolding stos_fast_def string_start_def
    by (auto simp: act_bind_def act_then_def cpu_get_def cpu_try_def cpu_bus_def cpu_set_def act_return_def stos_pattern_def Let_def split: option.split)
qed

lemma exec_stos_by_element:
  assumes "length (gpr s) = 16" "ok b" "e \<in> {1, 2, 4, 8}" "in_memory s b (Seg ES) (read_di s a) e a"
  shows "\<exists>r s' b1 b2. exec_stos B e a rep (s, b) = (r, (s', b1)) \<and> stos_by_element B e a rep (s, b) = (r, (s', b2)) \<and> alike b1 b2"
proof (cases "rep = RepNone \<or> read_count s a = 0 \<or> \<not> cb_supports_bulk_set B")
  case True
  then have "exec_stos B e a rep (s, b) = stos_by_element B e a rep (s, b)"
    by (auto simp: exec_stos_def stos_by_element_def act_bind_def cpu_get_def act_return_def repeat_element_def)
  then show ?thesis by (metis alike_refl prod.collapse)
next
  case False
  then have x: "exec_stos B e a rep (s, b) = (case stos_fast B e a (get_flag s FLAG_DF) (read_count s a) (s, b) of
      (Inl f, st) \<Rightarrow> (Inl f, st) | (Inr True, st) \<Rightarrow> (Inr (), st) | (Inr False, st) \<Rightarrow> rep_loop (stos_element B e a (step_delta s e)) (rep_stop RepNone) a (unat (read_count s a)) st)"
    "stos_by_element B e a rep (s, b) = rep_loop (stos_element B e a (step_delta s e)) (rep_stop RepNone) a (unat (read_count s a)) (s, b)"
    by (auto simp: exec_stos_def stos_by_element_def act_bind_def cpu_get_def act_return_def repeat_element_def split: prod.split sum.split bool.split)
  show ?thesis using stos_fast_fills [OF assms(1-3) _ assms(4)] False unfolding x by (auto intro: alike_refl) (metis alike_refl prod.collapse)
qed

end

lemma no_hazard_harmless:
  assumes "\<not> overlap_hazard df x y xe ye" "checked_add x t = Some xe" "checked_add y t = Some ye"
  shows "harmless df x y (unat t)"
  using assms by (auto simp: overlap_hazard_def harmless_def checked_add_def word_less_nat_alt unat_word_ariths split: if_splits)

context bulk_bus
begin

lemma movs_fast_copies:
  fixes s :: CpuState and a :: AddrSize and e :: nat
  defines "df \<equiv> get_flag s FLAG_DF" and "n \<equiv> read_count s a" and "d \<equiv> step_delta s e"
  assumes "length (gpr s) = 16" "ok b" "e \<in> {1, 2, 4, 8}" "n \<noteq> 0" "in_memory s b sg (read_si s a) e a" "in_memory s b (Seg ES) (read_di s a) e a"
  shows "movs_fast B sg e a df n (s, b) = (Inr False, (s, b)) \<or>
    (\<exists>b1 b2. movs_fast B sg e a df n (s, b) = (Inr True, (movs_done d a (unat n) 0 s, b1)) \<and>
       rep_loop (movs_element B sg e a d) (rep_stop RepNone) a (unat n) (s, b) = (Inr (), (movs_done d a (unat n) 0 s, b2)) \<and> alike b1 b2)"
proof (cases "\<exists>t xe ye. offsets_contiguous_without_wrap (read_si s a) n e df a \<and> offsets_contiguous_without_wrap (read_di s a) n e df a \<and>
    checked_mul (of_nat e) n = Some t \<and> BULK_THRESHOLD_BYTES \<le> t \<and> linear_range_contiguous s (string_start s sg (read_si s a) e a) t \<and>
    linear_range_contiguous s (string_start s (Seg ES) (read_di s a) e a) t \<and>
    checked_add (string_start s sg (read_si s a) e a) t = Some xe \<and> checked_add (string_start s (Seg ES) (read_di s a) e a) t = Some ye \<and>
    \<not> overlap_hazard df (string_start s sg (read_si s a) e a) (string_start s (Seg ES) (read_di s a) e a) xe ye")
  case True
  let ?x = "string_start s sg (read_si s a) e a" and ?y = "string_start s (Seg ES) (read_di s a) e a"
  obtain t xe ye where t: "offsets_contiguous_without_wrap (read_si s a) n e df a" "offsets_contiguous_without_wrap (read_di s a) n e df a"
      "checked_mul (of_nat e) n = Some t" "BULK_THRESHOLD_BYTES \<le> t" "linear_range_contiguous s ?x t" "linear_range_contiguous s ?y t"
      "checked_add ?x t = Some xe" "checked_add ?y t = Some ye" "\<not> overlap_hazard df ?x ?y xe ye"
    using True by blast
  note q = assms(7) [unfolded n_def] t(3) [unfolded n_def]
  note line = range_line(1) [OF assms(8,6) q t(5)] range_line(1) [OF assms(9,6) q t(6)]
  have size: "unat t = unat n * e" using range_line(2) [OF assms(8,6) q t(5)] by (simp add: string_bytes_def n_def)
  have n: "0 < unat n" using assms(7) by (simp add: unat_gt_0)
  then have tot: "0 < unat n * e" using assms(6) by auto
  have mem: "mem_ok b ?x (unat n * e)" "unat ?x + unat n * e \<le> lim" "mem_ok b ?y (unat n * e)" "unat ?y + unat n * e \<le> lim"
    using assms(8,9) by (simp_all add: in_memory_def string_bytes_def n_def)
  have d: "d = (if df then - of_nat e else of_nat e)" by (simp add: step_delta_def d_def df_def)
  have idx: "linear s sg ((next_offset d a ^^ k) (read_si s a)) = ?x + of_nat (elem_index df (unat n) k * e)"
      "linear s (Seg ES) ((next_offset d a ^^ k) (read_di s a)) = ?y + of_nat (elem_index df (unat n) k * e)" if "k < unat n" for k
    using element_addresses [OF t(1) index_bits(1) assms(6) t(3) _ _ that, of s sg] element_addresses [OF t(2) index_bits(2) assms(6) t(3) _ _ that, of s "Seg ES"]
      t(5,6) mem(2,4) size lim(2) unfolding d by (simp_all add: string_start_def df_def n_def)
  have h: "harmless df ?x ?y (unat n * e)" using no_hazard_harmless [OF t(9,7,8)] size by simp
  obtain b2 where b2: "rep_loop (movs_element B sg e a d) (rep_stop RepNone) a (unat n) (s, b) = (Inr (), (movs_done d a (unat n) 0 s, b2))"
      "run_stored lim acc byte stored b ?y (linear_bytes byte b ?x (unat n * e)) b2"
    using movs_loop_copies [OF assms(6,4) _ mem(1) _ mem(3) assms(5) h idx] line n unfolding string_bytes_def n_def [symmetric] by auto
  obtain b1 where b1: "cb_bulk_copy B ?y ?x (unat n * e) b = (Inr True, b1)" "run_stored lim acc byte stored b ?y (linear_bytes byte b ?x (unat n * e)) b1"
    using bulk_copy_run [OF assms(5) tot mem(2,4)] mem(1,3) unfolding mem_ok_def linear_bytes_def by blast
  have w: "(next_offset d a ^^ unat n) (read_si s a) = advance_n (read_si s a) e n df a" "(next_offset d a ^^ unat n) (read_di s a) = advance_n (read_di s a) e n df a"
    unfolding d using iterate_next [OF index_bits(1), of "unat n" df e] iterate_next [OF index_bits(2), of "unat n" df e] by simp_all
  have "movs_fast B sg e a df n (s, b) = (Inr True, (movs_done d a (unat n) 0 s, b1))"
    using t b1(1) size unfolding movs_fast_def movs_done_def w string_start_def
    by (simp add: act_bind_def act_then_def cpu_get_def cpu_bus_def cpu_set_def act_return_def Let_def df_def n_def)
  then show ?thesis using b2(1) run_stored_alike [OF b1(2) b2(2)] by blast
next
  case False
  then show ?thesis unfolding movs_fast_def string_start_def df_def n_def
    by (auto simp: act_bind_def act_then_def cpu_get_def cpu_bus_def cpu_set_def act_return_def Let_def split: option.split)
qed

lemma exec_movs_by_element:
  assumes "length (gpr s) = 16" "ok b" "e \<in> {1, 2, 4, 8}" "in_memory s b (src_segment instr) (read_si s a) e a" "in_memory s b (Seg ES) (read_di s a) e a"
  shows "\<exists>r s' b1 b2. exec_movs B instr e a rep (s, b) = (r, (s', b1)) \<and> movs_by_element B (src_segment instr) e a rep (s, b) = (r, (s', b2)) \<and> alike b1 b2"
proof (cases "rep = RepNone \<or> read_count s a = 0 \<or> \<not> cb_supports_bulk_copy B")
  case True
  then have "exec_movs B instr e a rep (s, b) = movs_by_element B (src_segment instr) e a rep (s, b)"
    by (auto simp: exec_movs_def movs_by_element_def act_bind_def cpu_get_def act_return_def repeat_element_def)
  then show ?thesis by (metis alike_refl prod.collapse)
next
  case False
  let ?loop = "rep_loop (movs_element B (src_segment instr) e a (step_delta s e)) (rep_stop RepNone) a (unat (read_count s a))"
  have x: "exec_movs B instr e a rep (s, b) = (case movs_fast B (src_segment instr) e a (get_flag s FLAG_DF) (read_count s a) (s, b) of
      (Inl f, st) \<Rightarrow> (Inl f, st) | (Inr True, st) \<Rightarrow> (Inr (), st) | (Inr False, st) \<Rightarrow> ?loop st)"
    "movs_by_element B (src_segment instr) e a rep (s, b) = ?loop (s, b)"
    using False by (auto simp: exec_movs_def movs_by_element_def act_bind_def cpu_get_def act_return_def repeat_element_def split: prod.split sum.split bool.split)
  show ?thesis using movs_fast_copies [OF assms(1-3) _ assms(4,5)] False unfolding x by (auto intro: alike_refl) (metis alike_refl prod.collapse)
qed

end

section \<open>The flat bus\<close>

lemma flat_bulk_copy_run:
  assumes "0 < n" "unat src + n \<le> flat_lim" "unat dst + n \<le> flat_lim" "\<And>i. i < n \<Longrightarrow> flat_acc b (src + of_nat i)" "\<And>i. i < n \<Longrightarrow> flat_acc b (dst + of_nat i)"
  shows "\<exists>b'. flat_bulk_copy dst src n b = (Inr True, b') \<and> run_stored flat_lim flat_acc flat_byte (\<lambda>_ x v. v) b dst (map (\<lambda>i. flat_byte b (src + of_nat i)) [0..<n]) b'"
proof -
  let ?bs = "map (\<lambda>i. flat_byte b (src + of_nat i)) [0..<n]"
  have rd: "take n (drop (unat src) (flat_mem b)) = ?bs" "unat src + n \<le> length (flat_mem b)" "unat dst + n \<le> length (flat_mem b)"
    using flat_read_run [of n src b] flat_run(2) [of src n "flat_mem b"] flat_run(2) [of dst n "flat_mem b"] assms
    by (auto simp: flat_lim_def flat_acc_def flat_byte_def flat_read_bytes_def flat_range_eq split: if_splits)
  obtain b' where b': "flat_write_bytes dst ?bs b = (Inr (), b')" "run_stored flat_lim flat_acc flat_byte (\<lambda>_ x v. v) b dst ?bs b'"
    using flat_write_stored [of ?bs dst b] assms by auto
  show ?thesis
  proof (cases "dst = src")
    case True
    have "run_stored flat_lim flat_acc flat_byte (\<lambda>_ x v. v) b src ?bs b" by (auto simp: run_stored_def)
    then show ?thesis using True by (auto simp: flat_bulk_copy_def)
  next
    case False
    then have "unat src \<noteq> unat dst" by (simp add: word_unat_eq_iff)
    then have "flat_bulk_copy dst src n b = (Inr True, b')" using b'(1) rd assms(1) by (auto simp: flat_bulk_copy_def flat_write_bytes_def flat_range_eq)
    then show ?thesis using b'(2) by blast
  qed
qed

lemma flat_bulk_set_run:
  assumes "0 < reps" "pattern \<noteq> []" "unat dst + reps * length pattern \<le> flat_lim" "\<And>i. i < reps * length pattern \<Longrightarrow> flat_acc b (dst + of_nat i)"
  shows "\<exists>b'. flat_bulk_set dst pattern reps b = (Inr True, b') \<and> run_stored flat_lim flat_acc flat_byte (\<lambda>_ x v. v) b dst (concat (replicate reps pattern)) b'"
proof -
  have l: "length (concat (replicate reps pattern)) = reps * length pattern" by (simp add: length_concat sum_list_replicate)
  then have "concat (replicate reps pattern) \<noteq> []" using assms(1,2) by (metis length_0_conv mult_is_0 not_less_zero)
  from flat_write_stored [OF this, of dst b] obtain b' where b': "flat_write_bytes dst (concat (replicate reps pattern)) b = (Inr (), b')"
      "run_stored flat_lim flat_acc flat_byte (\<lambda>_ x v. v) b dst (concat (replicate reps pattern)) b'"
    using assms(3,4) unfolding l by blast
  then have "flat_bulk_set dst pattern reps b = (Inr True, b')"
    using assms(1,2) l by (auto simp: flat_bulk_set_def flat_write_bytes_def Let_def mult.commute split: option.splits)
  then show ?thesis using b'(2) by blast
qed

interpretation flat_bulk: bulk_bus "\<lambda>_. True" "(=)" flat_bus flat_lim flat_acc flat_byte "\<lambda>_ x v. v"
  using flat_bulk_copy_run flat_bulk_set_run by unfold_locales (auto simp: flat_bus_def)

section \<open>The paging bus, without paging\<close>

text \<open>A state of the bus without paging, and the memory after storing bytes there.\<close>

definition unpaged_stored :: "mmu_registers \<Rightarrow> ('d, 'i) machine_bus \<Rightarrow> u64 \<Rightarrow> u8 list \<Rightarrow> ('d, 'i) machine_bus \<Rightarrow> bool" where
  "unpaged_stored R pb x bs pb' \<longleftrightarrow> paging_ok R pb' \<and> run_stored phys_lim phys_acc phys_at phys_wr pb x bs pb'"

lemma unpaged_storedD: "unpaged_stored R pb x bs pb' \<Longrightarrow> phys_acc pb' = phys_acc pb"
  by (simp add: unpaged_stored_def run_stored_def)

lemma unpaged_stored_Nil: "paging_ok R pb \<Longrightarrow> unpaged_stored R pb x [] pb"
  by (auto simp: unpaged_stored_def run_stored_def)

lemma unpaged_bulk_write:
  fixes pb :: "('d, 'i) machine_bus"
  assumes "paging_ok R pb" "unat x + length bs \<le> phys_lim" "\<And>i. i < length bs \<Longrightarrow> phys_acc pb (x + of_nat i)"
  shows "\<exists>pb'. on_phys (\<lambda>m. ((), mo_write_bytes physical_ops m x bs)) pb = (Inr (), pb') \<and> unpaged_stored R pb x bs pb'"
proof -
  let ?m = "phys_write_bytes (pb_phys pb) x bs"
  have st: "phys_stored (pb_phys pb) (unat x) bs ?m"
    using phys_writes_stored(1) [of "pb_phys pb" bs x] reached_all [OF assms(2,3)] assms(1,2) by (simp add: paging_ok_def phys_lim_def)
  then have "unpaged_stored R pb x bs (pb\<lparr>pb_phys := ?m\<rparr>)"
    using phys_stored_run [OF st] assms(1) by (simp add: unpaged_stored_def paging_ok_def memo_ok_def phys_stored_def)
  then show ?thesis by (simp add: on_phys_def physical_ops_def)
qed

lemma unpaged_probe:
  assumes "mode (pb_mmu pb) = Disabled" "unat a + n < 2 ^ 64"
  shows "preflight_range_probe P a n access pb = (Inr True, pb)"
proof -
  have "probe_loop P a n access off fuel pb = (Inr True, pb)" if "n - off \<le> fuel" for off fuel
    using that
  proof (induction fuel arbitrary: off)
    case (Suc fuel)
    let ?k = "page_chunk (a + of_nat off) (n - off)"
    show ?case
    proof (cases "off < n")
      case True
      then have "0 < ?k" using page_chunk_bounds(3) [of "n - off" "a + of_nat off"] by simp
      moreover have "checked_add a (of_nat off) = Some (a + of_nat off)" using assms(2) True by (simp add: checked_add_def unat_of_nat)
      moreover have "translate_probe (mo_walk P) (pb_mmu pb) (pb_phys pb) (a + of_nat off) access (pb_cpl pb) = (Inr ((a + of_nat off) AND 0xFFFFFFFF), pb_phys pb)"
        using assms(1) by (simp add: translate_probe_def linear_address_def)
      ultimately show ?thesis using Suc.IH [of "off + ?k"] Suc.prems True by (subst probe_loop.simps) (simp add: Let_def)
    qed (subst probe_loop.simps; simp)
  qed (subst probe_loop.simps; simp)
  then show ?thesis by (simp add: preflight_range_probe_def act_return_def)
qed

lemma unpaged_copy_chunk:
  fixes pb :: "('d, 'i) machine_bus"
  assumes ok: "paging_ok (c0, c3, c4, ef, Disabled) pb" and n: "0 < n" "unat x + n \<le> phys_lim" "unat y + n \<le> phys_lim"
    and acc: "\<And>i. i < n \<Longrightarrow> phys_acc pb (x + of_nat i)" "\<And>i. i < n \<Longrightarrow> phys_acc pb (y + of_nat i)"
  shows "\<exists>pb'. copy_chunk physical_ops cow y x n pb = (Inr (), pb') \<and> unpaged_stored (c0, c3, c4, ef, Disabled) pb y (linear_bytes phys_at pb x n) pb'"
proof -
  have pb: "table_memory (pb_phys pb)" "mode (pb_mmu pb) = Disabled" using unpaged_ok [OF ok] by simp_all
  have t: "pb_translate physical_ops cow x Read pb = (Inr x, pb)" "pb_translate physical_ops cow y Write pb = (Inr y, pb)"
    using n by (auto intro!: unpaged_translate [OF pb(2)])
  show ?thesis using unpaged_bulk_write [OF ok, of y "linear_bytes phys_at pb x n"] n acc t unpaged_read [OF pb(1) n(2) acc(1)]
    by (simp add: copy_chunk_def act_bind_def linear_bytes_def)
qed

lemma unpaged_copy_forward:
  fixes pb :: "('d, 'i) machine_bus"
  assumes "paging_ok (c0, c3, c4, ef, Disabled) pb" and n: "unat x + n \<le> phys_lim" "unat y + n \<le> phys_lim"
    and "\<And>i. i < n \<Longrightarrow> phys_acc pb (x + of_nat i)" "\<And>i. i < n \<Longrightarrow> phys_acc pb (y + of_nat i)" and h: "harmless False x y n"
    and "off \<le> n" "n - off \<le> fuel"
  shows "\<exists>pb'. copy_forward physical_ops cow y x n off fuel pb = (Inr (), pb') \<and>
    unpaged_stored (c0, c3, c4, ef, Disabled) pb (y + of_nat off) (linear_bytes phys_at pb (x + of_nat off) (n - off)) pb'"
  using assms(1,4,5,7,8)
proof (induction fuel arbitrary: off pb)
  case 0
  then show ?case by (subst copy_forward.simps) (simp add: act_return_def unpaged_stored_Nil linear_bytes_def)
next
  case (Suc fuel)
  show ?case
  proof (cases "off < n")
    case True
    let ?x = "x + of_nat off" and ?y = "y + of_nat off"
    define k where "k = min (page_chunk ?x (n - off)) (page_chunk ?y (n - off))"
    have k: "0 < k" "off + k \<le> n"
      using page_chunk_bounds(1) [of ?x "n - off"] page_chunk_bounds(3) [of "n - off" ?x] page_chunk_bounds(3) [of "n - off" ?y] True by (auto simp: k_def)
    have u: "unat ?x = unat x + off" "unat ?y = unat y + off" using n True by (auto intro!: unat_plus simp: phys_lim_def)
    obtain pb1 where p1: "copy_chunk physical_ops cow ?y ?x k pb = (Inr (), pb1)" "unpaged_stored (c0, c3, c4, ef, Disabled) pb ?y (linear_bytes phys_at pb ?x k) pb1"
      using unpaged_copy_chunk [OF Suc.prems(1) k(1), of ?x ?y cow] n u k Suc.prems(2,3) [of "off + _"] by (auto simp: add.assoc)
    have acc: "phys_acc pb1 = phys_acc pb" using unpaged_storedD [OF p1(2)] .
    have f: "n - (off + k) \<le> fuel" using Suc.prems(5) k(1) by linarith
    obtain pb2 where p2: "copy_forward physical_ops cow y x n (off + k) fuel pb1 = (Inr (), pb2)"
        "unpaged_stored (c0, c3, c4, ef, Disabled) pb1 (y + of_nat (off + k)) (linear_bytes phys_at pb1 (x + of_nat (off + k)) (n - (off + k))) pb2"
      using Suc.IH [of pb1 "off + k"] p1(2) Suc.prems(2,3) k f unfolding unpaged_stored_def acc by auto
    have u': "off + k < n \<Longrightarrow> unat (x + of_nat (off + k)) = unat x + (off + k)" using n by (intro unat_plus) (simp add: phys_lim_def)
    have same: "linear_bytes phys_at pb1 (x + of_nat (off + k)) (n - (off + k)) = linear_bytes phys_at pb (x + of_nat (off + k)) (n - (off + k))"
    proof (cases "off + k < n")
      case True
      then show ?thesis using p1(2) u u' n h unfolding unpaged_stored_def
        by (intro linear_bytes_unread [of phys_lim phys_acc phys_at phys_wr pb ?y]) (auto simp: harmless_def phys_lim_def)
    qed (simp add: linear_bytes_def)
    have "unpaged_stored (c0, c3, c4, ef, Disabled) pb ?y (linear_bytes phys_at pb ?x k @ linear_bytes phys_at pb (x + of_nat (off + k)) (n - (off + k))) pb2"
      using run_stored_append [of phys_lim phys_acc phys_at phys_wr pb ?y "linear_bytes phys_at pb ?x k" pb1] p1(2) p2(2) u n k
      unfolding unpaged_stored_def same by (auto simp: phys_lim_def add.assoc)
    moreover have "linear_bytes phys_at pb ?x k @ linear_bytes phys_at pb (x + of_nat (off + k)) (n - (off + k)) = linear_bytes phys_at pb ?x (n - off)"
      using linear_bytes_add [of phys_at pb ?x k "n - (off + k)"] k by (simp add: add.assoc)
    moreover have "copy_forward physical_ops cow y x n off (Suc fuel) pb = (Inr (), pb2)"
      using True p1(1) p2(1) by (subst copy_forward.simps) (simp add: Let_def k_def act_bind_def)
    ultimately show ?thesis by auto
  next
    case False
    then have "copy_forward physical_ops cow y x n off (Suc fuel) pb = (Inr (), pb)" by (subst copy_forward.simps) (simp add: act_return_def)
    then show ?thesis using False Suc.prems(1) by (auto simp: unpaged_stored_Nil linear_bytes_def)
  qed
qed

lemma unpaged_copy_backward:
  fixes pb :: "('d, 'i) machine_bus"
  assumes "paging_ok (c0, c3, c4, ef, Disabled) pb" and n: "unat x + n \<le> phys_lim" "unat y + n \<le> phys_lim"
    and "\<And>i. i < n \<Longrightarrow> phys_acc pb (x + of_nat i)" "\<And>i. i < n \<Longrightarrow> phys_acc pb (y + of_nat i)" and h: "unat x \<le> unat y"
    and "rem \<le> n" "rem \<le> fuel"
  shows "\<exists>pb'. copy_backward physical_ops cow y x rem fuel pb = (Inr (), pb') \<and> unpaged_stored (c0, c3, c4, ef, Disabled) pb y (linear_bytes phys_at pb x rem) pb'"
  using assms(1,4,5,7,8)
proof (induction fuel arbitrary: rem pb)
  case 0
  then show ?case by (subst copy_backward.simps) (simp add: act_return_def unpaged_stored_Nil linear_bytes_def)
next
  case (Suc fuel)
  show ?case
  proof (cases "0 < rem")
    case True
    define k where "k = min (min (unat ((x + of_nat (rem - 1)) AND (PAGE_SIZE - 1)) + 1) (unat ((y + of_nat (rem - 1)) AND (PAGE_SIZE - 1)) + 1)) rem"
    define j where "j = rem - k"
    let ?x = "x + of_nat j" and ?y = "y + of_nat j"
    have k: "0 < k" "k \<le> rem" "j < n" "j + k = rem" using True Suc.prems(4) by (auto simp: k_def j_def)
    have u: "unat ?x = unat x + j" "unat ?y = unat y + j" by (rule unat_plus; use n k in \<open>simp add: phys_lim_def\<close>)+
    obtain pb1 where p1: "copy_chunk physical_ops cow ?y ?x k pb = (Inr (), pb1)" "unpaged_stored (c0, c3, c4, ef, Disabled) pb ?y (linear_bytes phys_at pb ?x k) pb1"
      using unpaged_copy_chunk [OF Suc.prems(1) k(1), of ?x ?y cow] n u k Suc.prems(2,3) [of "j + _"] Suc.prems(4) by (auto simp: add.assoc)
    have acc: "phys_acc pb1 = phys_acc pb" using unpaged_storedD [OF p1(2)] .
    obtain pb2 where p2: "copy_backward physical_ops cow y x j fuel pb1 = (Inr (), pb2)" "unpaged_stored (c0, c3, c4, ef, Disabled) pb1 y (linear_bytes phys_at pb1 x j) pb2"
      using Suc.IH [of pb1 j] p1(2) Suc.prems k unfolding unpaged_stored_def acc by auto
    have same: "linear_bytes phys_at pb1 x j = linear_bytes phys_at pb x j"
      using p1(2) u n h k Suc.prems(4) unfolding unpaged_stored_def
      by (intro linear_bytes_unread [of phys_lim phys_acc phys_at phys_wr pb ?y]) (auto simp: phys_lim_def)
    have "unpaged_stored (c0, c3, c4, ef, Disabled) pb y (linear_bytes phys_at pb x j @ linear_bytes phys_at pb ?x k) pb2"
      using run_stored_prepend [of phys_lim phys_acc phys_at phys_wr pb y "linear_bytes phys_at pb x j" "linear_bytes phys_at pb ?x k" pb1 pb2] p1(2) p2(2) u n k Suc.prems(4)
      unfolding unpaged_stored_def same by (auto simp: phys_lim_def)
    moreover have "linear_bytes phys_at pb x j @ linear_bytes phys_at pb ?x k = linear_bytes phys_at pb x rem"
      using linear_bytes_add [of phys_at pb x j k] k by simp
    moreover have "copy_backward physical_ops cow y x rem (Suc fuel) pb = (Inr (), pb2)"
      using True p1(1) p2(1) unfolding j_def k_def by (subst copy_backward.simps) (simp add: Let_def act_bind_def)
    ultimately show ?thesis by auto
  next
    case False
    then have "copy_backward physical_ops cow y x rem (Suc fuel) pb = (Inr (), pb)" by (subst copy_backward.simps) (simp add: act_return_def)
    then show ?thesis using False Suc.prems(1) by (auto simp: unpaged_stored_Nil linear_bytes_def)
  qed
qed

lemma unpaged_bulk_copy:
  fixes pb :: "('d, 'i) machine_bus"
  assumes ok: "paging_ok (c0, c3, c4, ef, Disabled) pb" and n: "0 < n" "unat x + n \<le> phys_lim" "unat y + n \<le> phys_lim"
    and acc: "\<And>i. i < n \<Longrightarrow> phys_acc pb (x + of_nat i)" "\<And>i. i < n \<Longrightarrow> phys_acc pb (y + of_nat i)"
  shows "\<exists>pb'. pb_bulk_copy physical_ops cow y x n pb = (Inr True, pb') \<and> unpaged_stored (c0, c3, c4, ef, Disabled) pb y (linear_bytes phys_at pb x n) pb'"
proof (cases "y = x")
  case True
  have "unpaged_stored (c0, c3, c4, ef, Disabled) pb x (linear_bytes phys_at pb x n) pb"
    using ok by (auto simp: unpaged_stored_def run_stored_def linear_bytes_def phys_wr_def phys_at_def)
  then show ?thesis using True by (auto simp: pb_bulk_copy_def act_return_def)
next
  case False
  have m: "mode (pb_mmu pb) = Disabled" using unpaged_ok [OF ok] by simp
  have e: "unat x + n < 2 ^ 64" "unat y + n < 2 ^ 64" using n by (simp_all add: phys_lim_def)
  have u: "unat (x + of_nat n) = unat x + n" "unat (y + of_nat n) = unat y + n" using e by (auto intro!: unat_plus)
  let ?overlap = "x < y + of_nat n \<and> y < x + of_nat n"
  have p: "pb_bulk_copy physical_ops cow y x n pb =
      act_bind (if ?overlap \<and> y > x then copy_backward physical_ops cow y x n n else copy_forward physical_ops cow y x n 0 n) (\<lambda>_. act_return True) pb"
    using n(1) e False unpaged_probe [OF m e(1)] unpaged_probe [OF m e(2)] by (simp add: pb_bulk_copy_def act_bind_def Let_def)
  show ?thesis
  proof (cases "?overlap \<and> y > x")
    case True
    then show ?thesis using unpaged_copy_backward [OF ok n(2,3) acc, of n n cow] unfolding p
      by (auto simp: act_bind_def act_return_def word_less_nat_alt)
  next
    case no: False
    then have "harmless False x y n" using u by (auto simp: harmless_def word_less_nat_alt)
    then show ?thesis using unpaged_copy_forward [OF ok n(2,3) acc, of 0 n cow] no unfolding p by (auto simp: act_bind_def act_return_def)
  qed
qed

text \<open>The pattern, from any byte of it on.\<close>

lemma fill_pattern_nth:
  "pat_off < length pattern \<Longrightarrow> length (fill_pattern pattern pat_off n) = n \<and> (\<forall>i<n. fill_pattern pattern pat_off n ! i = pattern ! ((pat_off + i) mod length pattern))"
proof (induction pattern pat_off n rule: fill_pattern.induct)
  case (1 pattern pat_off n)
  show ?case
  proof (cases "n = 0")
    case False
    define run where "run = min (length pattern - pat_off) n"
    have r: "0 < run" "run \<le> n" "pat_off + run \<le> length pattern" using False "1.prems" by (auto simp: run_def)
    have ih: "length (fill_pattern pattern 0 (n - run)) = n - run" "\<And>i. i < n - run \<Longrightarrow> fill_pattern pattern 0 (n - run) ! i = pattern ! (i mod length pattern)"
      using "1.IH" [OF _ run_def] False "1.prems" by fastforce+
    have f: "fill_pattern pattern pat_off n = take run (drop pat_off pattern) @ fill_pattern pattern 0 (n - run)"
      using False "1.prems" by (subst fill_pattern.simps) (simp add: Let_def run_def)
    have l: "length (take run (drop pat_off pattern)) = run" using r by simp
    have "fill_pattern pattern pat_off n ! i = pattern ! ((pat_off + i) mod length pattern)" if "i < n" for i
    proof (cases "i < run")
      case True
      then show ?thesis using r unfolding f by (simp add: nth_append)
    next
      case out: False
      then have "pat_off + run = length pattern" using that r by (auto simp: run_def)
      then have "(pat_off + i) mod length pattern = (i - run) mod length pattern" using out by (metis add_diff_inverse_nat add.assoc mod_add_self1)
      then show ?thesis using out that ih(2) [of "i - run"] l unfolding f by (simp add: nth_append)
    qed
    then show ?thesis using ih(1) l r unfolding f by auto
  qed (simp add: fill_pattern.simps)
qed

lemma concat_replicate_nth: "i < reps * length pattern \<Longrightarrow> concat (replicate reps pattern) ! i = pattern ! (i mod length pattern)"
proof (induction reps arbitrary: i)
  case (Suc reps)
  then show ?case by (cases "i < length pattern") (auto simp: nth_append le_mod_geq)
qed simp

lemma length_concat_replicate: "length (concat (replicate reps pattern)) = reps * length pattern"
  by (simp add: length_concat sum_list_replicate)

lemma fill_pattern_part:
  assumes "pattern \<noteq> []" "off + k \<le> reps * length pattern"
  shows "(if length pattern = 1 then replicate k (pattern ! 0) else fill_pattern pattern (off mod length pattern) k) = take k (drop off (concat (replicate reps pattern)))"
proof (rule nth_equalityI)
  have m: "off mod length pattern < length pattern" using assms(1) by simp
  note f = fill_pattern_nth [OF m, of k]
  show "length (if length pattern = 1 then replicate k (pattern ! 0) else fill_pattern pattern (off mod length pattern) k) =
      length (take k (drop off (concat (replicate reps pattern))))"
    using f assms(2) by (simp add: length_concat_replicate)
  fix i assume "i < length (if length pattern = 1 then replicate k (pattern ! 0) else fill_pattern pattern (off mod length pattern) k)"
  then have i: "i < k" using f by (simp split: if_splits)
  then have "take k (drop off (concat (replicate reps pattern))) ! i = pattern ! ((off + i) mod length pattern)"
    using assms(2) concat_replicate_nth [of "off + i" reps pattern] by (simp add: length_concat_replicate)
  then show "(if length pattern = 1 then replicate k (pattern ! 0) else fill_pattern pattern (off mod length pattern) k) ! i = take k (drop off (concat (replicate reps pattern))) ! i"
    using f i by (auto simp: mod_simps)
qed

lemma unpaged_set_loop:
  fixes pb :: "('d, 'i) machine_bus"
  assumes "paging_ok (c0, c3, c4, ef, Disabled) pb" and n: "n = reps * length pattern" "unat y + n \<le> phys_lim" "pattern \<noteq> []"
    and "\<And>i. i < n \<Longrightarrow> phys_acc pb (y + of_nat i)" "off \<le> n" "n - off \<le> fuel"
  shows "\<exists>pb'. set_loop physical_ops cow y pattern n off fuel pb = (Inr (), pb') \<and>
    unpaged_stored (c0, c3, c4, ef, Disabled) pb (y + of_nat off) (drop off (concat (replicate reps pattern))) pb'"
  using assms(1,5-7)
proof (induction fuel arbitrary: off pb)
  case 0
  then show ?case using n(1) by (subst set_loop.simps) (simp add: act_return_def unpaged_stored_Nil length_concat_replicate)
next
  case (Suc fuel)
  let ?bs = "concat (replicate reps pattern)"
  have len: "length ?bs = n" using n(1) by (simp add: length_concat_replicate)
  show ?case
  proof (cases "off < n")
    case True
    let ?y = "y + of_nat off"
    define k where "k = page_chunk ?y (n - off)"
    have k: "0 < k" "off + k \<le> n" using page_chunk_bounds(1) [of ?y "n - off"] page_chunk_bounds(3) [of "n - off" ?y] True by (auto simp: k_def)
    have u: "unat ?y = unat y + off" using n(2) True by (auto intro!: unat_plus simp: phys_lim_def)
    have t: "pb_translate physical_ops cow ?y Write pb = (Inr ?y, pb)" using u n(2) True unpaged_ok [OF Suc.prems(1)] by (intro unpaged_translate) auto
    have fill: "(if length pattern = 1 then replicate k (pattern ! 0) else fill_pattern pattern (off mod length pattern) k) = take k (drop off ?bs)"
      using fill_pattern_part [OF n(3)] k(2) n(1) by simp
    obtain pb1 where p1: "on_phys (\<lambda>m. ((), mo_write_bytes physical_ops m ?y (take k (drop off ?bs)))) pb = (Inr (), pb1)"
        "unpaged_stored (c0, c3, c4, ef, Disabled) pb ?y (take k (drop off ?bs)) pb1"
      using unpaged_bulk_write [OF Suc.prems(1), of ?y "take k (drop off ?bs)"] n(2) u k len Suc.prems(2) [of "off + _"] by (auto simp: add.assoc)
    have acc: "phys_acc pb1 = phys_acc pb" using unpaged_storedD [OF p1(2)] .
    have f: "n - (off + k) \<le> fuel" using Suc.prems(4) k(1) by linarith
    obtain pb2 where p2: "set_loop physical_ops cow y pattern n (off + k) fuel pb1 = (Inr (), pb2)"
        "unpaged_stored (c0, c3, c4, ef, Disabled) pb1 (y + of_nat (off + k)) (drop (off + k) ?bs) pb2"
      using Suc.IH [of pb1 "off + k"] p1(2) Suc.prems(2) k f unfolding unpaged_stored_def acc by auto
    have l: "length (take k (drop off ?bs)) = k" using len k by simp
    have "unpaged_stored (c0, c3, c4, ef, Disabled) pb ?y (take k (drop off ?bs) @ drop (off + k) ?bs) pb2"
      using run_stored_append [of phys_lim phys_acc phys_at phys_wr pb ?y "take k (drop off ?bs)" pb1 "drop (off + k) ?bs" pb2] p1(2) p2(2) u n(2) k len
      unfolding unpaged_stored_def l by (auto simp: phys_lim_def add.assoc)
    moreover have "take k (drop off ?bs) @ drop (off + k) ?bs = drop off ?bs" by (metis append_take_drop_id drop_drop add.commute)
    moreover have "set_loop physical_ops cow y pattern n off (Suc fuel) pb = (Inr (), pb2)"
      using True t p1(1) p2(1) fill unfolding k_def by (subst set_loop.simps) (simp add: Let_def act_bind_def)
    ultimately show ?thesis by auto
  next
    case False
    then have "set_loop physical_ops cow y pattern n off (Suc fuel) pb = (Inr (), pb)" by (subst set_loop.simps) (simp add: act_return_def)
    then show ?thesis using False Suc.prems(1) len by (auto simp: unpaged_stored_Nil)
  qed
qed

lemma unpaged_bulk_set:
  fixes pb :: "('d, 'i) machine_bus"
  assumes ok: "paging_ok (c0, c3, c4, ef, Disabled) pb" and n: "0 < reps" "pattern \<noteq> []" "unat y + reps * length pattern \<le> phys_lim"
    and acc: "\<And>i. i < reps * length pattern \<Longrightarrow> phys_acc pb (y + of_nat i)"
  shows "\<exists>pb'. pb_bulk_set physical_ops cow y pattern reps pb = (Inr True, pb') \<and>
    unpaged_stored (c0, c3, c4, ef, Disabled) pb y (concat (replicate reps pattern)) pb'"
proof -
  have "mode (pb_mmu pb) = Disabled" "unat y + reps * length pattern < 2 ^ 64" using unpaged_ok [OF ok] n(3) by (simp_all add: phys_lim_def)
  note unpaged_probe [OF this]
  then show ?thesis using unpaged_set_loop [OF ok refl n(3,2) acc, of 0 "reps * length pattern" cow] n
    by (auto simp: pb_bulk_set_def act_bind_def act_return_def Let_def mult.commute phys_lim_def)
qed

interpretation unpaged_bulk: bulk_bus "paging_ok (c0, c3, c4, ef, Disabled)" "paging_same :: ('d, 'i) machine_bus \<Rightarrow> _" "paging_bus physical_ops False I"
  phys_lim phys_acc phys_at phys_wr for c0 c3 c4 ef and I :: "'i IoBus"
proof
  fix b :: "('d, 'i) machine_bus" and src dst :: u64 and n :: nat
  assume "paging_ok (c0, c3, c4, ef, Disabled) b" "0 < n" "unat src + n \<le> phys_lim" "unat dst + n \<le> phys_lim"
    "\<And>i. i < n \<Longrightarrow> phys_acc b (src + of_nat i)" "\<And>i. i < n \<Longrightarrow> phys_acc b (dst + of_nat i)"
  from unpaged_bulk_copy [OF this, of False]
  show "\<exists>b'. cb_bulk_copy (paging_bus physical_ops False I) dst src n b = (Inr True, b') \<and> paging_ok (c0, c3, c4, ef, Disabled) b' \<and>
      run_stored phys_lim phys_acc phys_at phys_wr b dst (map (\<lambda>i. phys_at b (src + of_nat i)) [0..<n]) b'"
    by (simp add: paging_bus_def unpaged_stored_def linear_bytes_def)
next
  fix b :: "('d, 'i) machine_bus" and dst :: u64 and reps :: nat and pattern :: "u8 list"
  assume "paging_ok (c0, c3, c4, ef, Disabled) b" "0 < reps" "pattern \<noteq> []" "unat dst + reps * length pattern \<le> phys_lim"
    "\<And>i. i < reps * length pattern \<Longrightarrow> phys_acc b (dst + of_nat i)"
  from unpaged_bulk_set [OF this, of False]
  show "\<exists>b'. cb_bulk_set (paging_bus physical_ops False I) dst pattern reps b = (Inr True, b') \<and> paging_ok (c0, c3, c4, ef, Disabled) b' \<and>
      run_stored phys_lim phys_acc phys_at phys_wr b dst (concat (replicate reps pattern)) b'"
    by (simp add: paging_bus_def unpaged_stored_def)
qed

section \<open>The property\<close>

text \<open>
  \<^bold>\<open>The fast paths of the string instructions (C35).\<close> On the paging bus without paging and outside long mode, with the range of the destination (and of the source, for
  a move) in mapped memory below 4 GB: a move or store of any element size, address size, direction and repeat prefix gives the same result, the same
  processor state and the same bytes below 4 GB as the elements processed one by one, whether or not it goes through a bulk operation.
\<close>

theorem string_fast_paths_agree:
  assumes "table_memory (pb_phys pb)" "mode (pb_mmu pb) = Disabled" "memo_ok pb" "cpu_mode s \<noteq> Long" "length (gpr s) = 16" "e \<in> {1, 2, 4, 8}"
    and "unat (string_start s (Seg ES) (read_di s a) e a) + string_bytes s e a \<le> 2 ^ 32"
    and "\<And>k. k < string_bytes s e a \<Longrightarrow> mapped (fst (pb_phys pb)) (unat (string_start s (Seg ES) (read_di s a) e a) + k)"
    and "unat (string_start s (src_segment instr) (read_si s a) e a) + string_bytes s e a \<le> 2 ^ 32"
    and "\<And>k. k < string_bytes s e a \<Longrightarrow> mapped (fst (pb_phys pb)) (unat (string_start s (src_segment instr) (read_si s a) e a) + k)"
  shows "(\<exists>r s' p1 p2. exec_stos (paging_bus physical_ops False I) e a rep (s, pb) = (r, (s', p1)) \<and>
      stos_by_element (paging_bus physical_ops False I) e a rep (s, pb) = (r, (s', p2)) \<and>
      (\<forall>x. unat (x :: u64) < 2 ^ 32 \<longrightarrow> open_byte (pb_phys p1) (unat x) = open_byte (pb_phys p2) (unat x))) \<and>
    (\<exists>r s' p1 p2. exec_movs (paging_bus physical_ops False I) instr e a rep (s, pb) = (r, (s', p1)) \<and>
      movs_by_element (paging_bus physical_ops False I) (src_segment instr) e a rep (s, pb) = (r, (s', p2)) \<and>
      (\<forall>x. unat (x :: u64) < 2 ^ 32 \<longrightarrow> open_byte (pb_phys p1) (unat x) = open_byte (pb_phys p2) (unat x)))"
proof -
  let ?m = "pb_mmu pb"
  have ok: "paging_ok (cr0 ?m, cr3 ?m, cr4 ?m, efer ?m, Disabled) pb" using assms(1-3) by (simp add: paging_ok_def mmu_regs_def)
  have mem: "unpaged_bulk.in_memory (cr0 ?m) (cr3 ?m) (cr4 ?m) (efer ?m) s pb sg off e a"
    if "unat (string_start s sg off e a) + string_bytes s e a \<le> 2 ^ 32"
      "\<And>k. k < string_bytes s e a \<Longrightarrow> mapped (fst (pb_phys pb)) (unat (string_start s sg off e a) + k)" for sg off
    using assms(4) ok that unfolding unpaged_bulk.in_memory_def unpaged.mem_ok_def phys_acc_def
    by (auto simp: phys_lim_def unat_plus)
  have d: "unpaged_bulk.in_memory (cr0 ?m) (cr3 ?m) (cr4 ?m) (efer ?m) s pb (Seg ES) (read_di s a) e a" by (rule mem) (use assms(7,8) in auto)
  have c: "unpaged_bulk.in_memory (cr0 ?m) (cr3 ?m) (cr4 ?m) (efer ?m) s pb (src_segment instr) (read_si s a) e a" by (rule mem) (use assms(9,10) in auto)
  have alike: "\<forall>x. unat (x :: u64) < 2 ^ 32 \<longrightarrow> open_byte (pb_phys p1) (unat x) = open_byte (pb_phys p2) (unat x)" if "unpaged_bulk.alike p1 p2" for p1 p2 :: "('a, 'b) machine_bus"
    using that unfolding unpaged_bulk.alike_def by (simp add: phys_lim_def phys_at_def)
  show ?thesis
    using unpaged_bulk.exec_stos_by_element [OF assms(5) ok assms(6) d, of I rep] unpaged_bulk.exec_movs_by_element [OF assms(5) ok assms(6) c d, of I rep] alike
    by blast
qed

text \<open>A copy of 100 bytes between overlapping ranges.\<close>

definition sample_copy :: CpuState where
  "sample_copy = sample_real\<lparr>gpr := (replicate 16 0)[1 := 100, 6 := 0x120, 7 := 0x100]\<rparr>"

lemma sample_copy_ranges:
  "string_bytes sample_copy 1 A16 = 100" "string_start sample_copy (Seg ES) (read_di sample_copy A16) 1 A16 = 0x100"
  "string_start sample_copy (Seg DS) (read_si sample_copy A16) 1 A16 = 0x120"
proof -
  have r: "read_count sample_copy A16 = 100" "read_si sample_copy A16 = 0x120" "read_di sample_copy A16 = 0x100"
    by (simp_all add: read_count_def read_si_def read_di_def count_reg_def src_index_reg_def dst_index_reg_def read_reg_def sample_copy_def)
  have c: "cpu_mode sample_copy = Real" using sample_real_stack(1) by (simp add: sample_copy_def)
  have a: "apply_a20 sample_copy x = x AND 0xFFFFFFFF" for x
    using sample_real_stack(6) [of x] by (simp add: sample_copy_def apply_a20_def Let_def)
  have b: "seg_base_reg sample_copy (Seg ES) = 0" "seg_base_reg sample_copy (Seg DS) = 0"
    by (simp_all add: seg_base_reg_def c) (simp_all add: sample_copy_def sample_real_def CpuState_new_def CpuState_default_def map_cs_def Segment_default_def)
  have f: "get_flag sample_copy FLAG_DF = False"
    by (simp add: get_flag_def sample_copy_def sample_real_def CpuState_new_def CpuState_default_def map_cs_def is_active_def LazyFlags_default_def rflag_defs)
  show "string_bytes sample_copy 1 A16 = 100" "string_start sample_copy (Seg ES) (read_di sample_copy A16) 1 A16 = 0x100"
    "string_start sample_copy (Seg DS) (read_si sample_copy A16) 1 A16 = 0x120"
    by (simp_all add: string_bytes_def string_start_def linear_def range_start_def r a b f)
qed

theorem string_fast_paths_agree_witness:
  "\<exists>r s' p1 p2. exec_movs (paging_bus physical_ops False NoIo) sample_call 1 A16 Rep (sample_copy, sample_paging Mmu_new) = (r, (s', p1)) \<and>
     movs_by_element (paging_bus physical_ops False NoIo) (Seg DS) 1 A16 Rep (sample_copy, sample_paging Mmu_new) = (r, (s', p2)) \<and>
     (\<forall>x. unat (x :: u64) < 2 ^ 32 \<longrightarrow> open_byte (pb_phys p1) (unat x) = open_byte (pb_phys p2) (unat x))"
proof -
  let ?pb = "sample_paging Mmu_new"
  have pb: "table_memory (pb_phys ?pb)" "mode (pb_mmu ?pb) = Disabled" "memo_ok ?pb"
    using sample_paging_ok [of Mmu_new]
    by (simp_all add: paging_ok_def sample_paging_def with_mmu_and_io_def Mmu_new_def update_cached_state_def Let_def cr_defs)
  have s: "cpu_mode sample_copy \<noteq> Long" "length (gpr sample_copy) = 16" "1 \<in> {1, 2, 4, 8 :: nat}" "src_segment sample_call = Seg DS"
    using sample_real_stack(1) by (simp_all add: sample_copy_def src_segment_def sample_call_def sample_store_def)
  have m: "mapped (fst (pb_phys ?pb)) k" if "k < 10240" for k using sample_paging_plain [OF that] plain_mapped by blast
  show ?thesis
    using string_fast_paths_agree [OF pb s(1-3), of A16 sample_call NoIo Rep] m unfolding s(4) sample_copy_ranges by simp
qed

end
