(* ===== verification/Spec2Isabelle.thy ===== *)
theory Spec2Isabelle
  imports PhysBus InterruptRouter IpcRing CpuConfine CpuBulk
begin

text \<open>
  Verification library for the core of Aero, a PC emulator written in Rust. Aero runs x86 guests in a
  browser or natively; the crates under \<^verbatim>\<open>src/crates/\<close> implement the processor, the chipset, devices and
  the host glue. This library models the subsystems that every guest instruction depends on: the path
  of a memory access from a linear address to a byte of RAM or a device register, the interpreter that executes the
  instructions over it, and the path of an interrupt from a device line to a processor; and the queue through which the
  threads of the emulator talk.

  \<^bold>\<open>The memory path.\<close> A linear address goes through the MMU (\<^verbatim>\<open>aero-mmu\<close>), which asks its TLB and otherwise
  walks the page tables in guest memory; the physical address goes through the bus (\<^verbatim>\<open>aero-mem\<close>), which
  routes it to RAM, to a ROM or to the handler of a device.

  \<^item> \<open>Tlb\<close>: \<^verbatim>\<open>aero-mmu/src/tlb.rs\<close>. Entries, the set-associative bank with its large-page counters, and the
    instruction and data TLBs. Lookup with its fast path equals a plain search; the invariant of the
    bank holds in all reachable states; insertion makes the entry hit; invalidation and CR3 writes remove
    exactly what they should.
  \<^item> \<open>PhysicalMemory\<close>: \<^verbatim>\<open>aero-mem/src/physical_memory.rs\<close>. Sparse RAM as a table of chunks. Reads and writes are those
    of a flat byte array, errors occur exactly outside the RAM, nothing panics, integers round-trip across
    chunk boundaries. The locale \<open>byte_store\<close> is its interface.
  \<^item> \<open>MemoryBus\<close>: \<^verbatim>\<open>aero-mem/src/memory_bus.rs\<close>. The overlay table, routed and RAM-only accesses, scatter and
    gather. Each byte goes where the flat routing function says; handlers see only their own range; a
    scatter write is validated as a whole before the first byte, and then fails only at an empty segment that
    points past the RAM.
  \<^item> \<open>Mmu\<close>, \<open>PageWalk\<close>: \<^verbatim>\<open>aero-mmu/src/lib.rs\<close>. Control registers, the walkers of the three paging modes and their
    probes, permission checks, faults, the TLB policy. A translation is authorised by an entry that permits
    the access; a translation by a walk is served by the TLB when repeated, given \<^verbatim>\<open>CR4.PSE\<close>; walks only set accessed and
    dirty bits and the probe agrees with the translation, both with the copy-on-write switch \<^verbatim>\<open>AERO_COW_FORCE_RW\<close> off (it is an
    argument of the model) and with devices that are inert. The locale \<open>page_table_bus\<close> is what the walkers need of the memory.
  \<^item> \<open>PhysBus\<close>: \<^verbatim>\<open>aero-mem/src/memory_compat.rs\<close> and the bus adapter of \<^verbatim>\<open>aero-mmu/src/lib.rs\<close>. Interprets
    \<open>page_table_bus\<close> on the bus of theory \<open>MemoryBus\<close>, so the results on walks hold for it.

  \<^bold>\<open>The processor.\<close> The interpreter of \<^verbatim>\<open>aero-cpu-core\<close> fetches and decodes at the instruction pointer, dispatches on the mnemonic and executes
  an action on the processor state and a bus; linear addresses reach memory through the paging bus, which uses the MMU above.

  \<^item> \<open>CpuState\<close>: \<^verbatim>\<open>state.rs\<close>. Registers and their parts, lazy flags, segments, modes, instruction and stack pointer, A20.
  \<^item> \<open>CpuAlu\<close>: the arithmetic of \<^verbatim>\<open>interp/tier0/ops_alu.rs\<close> and \<^verbatim>\<open>interp/alu.rs\<close>. Results and all status flags are those of integer
    arithmetic; the conditions after a comparison are the order of its operands; lazy and eager flags agree, up to the auxiliary and
    overflow flags of the forms with carry and the auxiliary flag of logic.
  \<^item> \<open>CpuBus\<close>: \<^verbatim>\<open>mem.rs\<close>, \<^verbatim>\<open>linear_mem.rs\<close>, \<^verbatim>\<open>exception.rs\<close>. The bus trait, the flat bus, accesses that wrap. The locales \<open>fault_safe_bus\<close> (a failed
    access changes nothing that matters) and \<open>linear_bus\<close> (a memory of bytes) are what instructions rely on.
  \<^item> \<open>PagingBus\<close>: \<^verbatim>\<open>paging_bus.rs\<close>, bulk operations included. Interprets \<open>fault_safe_bus\<close> in every paging mode and
    \<open>linear_bus\<close> without paging; a store reads back and changes nothing else.
  \<^item> \<open>CpuData\<close>, \<open>CpuFlow\<close>, \<open>CpuArith\<close>, \<open>CpuString\<close>: \<^verbatim>\<open>interp/tier0/ops_data.rs\<close>, \<^verbatim>\<open>ops_cf.rs\<close>, \<^verbatim>\<open>ops_alu.rs\<close> with \<^verbatim>\<open>ops_atomics.rs\<close>, \<^verbatim>\<open>ops_string.rs\<close>. One
    definition per instruction group, over decoded instructions as data.
  \<^item> \<open>CpuProducts\<close>, \<open>CpuShift\<close>: multiplication with its flags, division with its errors, shifts and rotates, as statements about integers.
  \<^item> \<open>CpuExec\<close>: \<^verbatim>\<open>interp/tier0/mod.rs\<close> and \<^verbatim>\<open>exec.rs\<close>. Dispatch, one step, a batch of steps. A step that faults at an instruction of a restartable
    form leaves the processor and the memory as before it, up to \<^verbatim>\<open>CR2\<close> and accessed and dirty bits.
  \<^item> \<open>CpuConfine\<close>: user code of the modelled groups changes no system register; outside of virtual 8086 mode no segment and no
    flag above its privilege either.
  \<^item> \<open>CpuStack\<close>: a return undoes a call; what a batch does and counts, exactly; batches compose.
  \<^item> \<open>CpuBulk\<close>: the bulk fast paths of the repeated string moves and stores agree with the loop over the elements. The locale
    \<open>bulk_bus\<close> extends \<open>linear_bus\<close> by the laws of the bulk operations; it is interpreted on the flat and on the paging bus.

  \<^bold>\<open>The interrupt path.\<close> Devices assert lines at the fabric (\<^verbatim>\<open>platform/src/interrupts\<close>), which counts the sources
  of each line and drives, by mode, the 8259 pair or the I/O APIC (\<^verbatim>\<open>aero-interrupts\<close>); the I/O APIC injects
  vectors into the local APICs, which offer the highest one to their processor. Ends of interrupt
  travel back to the I/O APIC, interrupt commands to other local APICs.

  \<^item> \<open>Pic8259\<close>: \<^verbatim>\<open>aero-interrupts/src/pic8259.rs\<close>. Command words, priorities, the cascade, the ports. What is
    offered is the request of highest priority; acknowledging consumes exactly that request when the two vector bases differ;
    interrupts nest, and level-triggered requests come back.
  \<^item> \<open>LocalApic\<close>: \<^verbatim>\<open>aero-interrupts/src/apic/local_apic.rs\<close>. Request and in-service bitmaps as sets of vectors,
    priorities, the timer with saturating 64-bit time, and the register page with its byte loops.
  \<^item> \<open>IoApic\<close>: \<^verbatim>\<open>aero-interrupts/src/apic/io_apic.rs\<close>. The redirection table behind its register window, the pins
    and their polarity, delivery to all or to the lowest-priority target, and Remote-IRR. The
    locale \<open>interrupt_sink\<close> is the trait \<^verbatim>\<open>LapicInterruptSink\<close> with its laws; inside it delivery is shown to lose no
    request and to reach the addressed sinks.
  \<^item> \<open>InterruptRouter\<close>: \<^verbatim>\<open>platform/src/interrupts/router.rs\<close>, \<^verbatim>\<open>pic.rs\<close>, \<^verbatim>\<open>msi.rs\<close> and \<^verbatim>\<open>aero-pci-routing\<close>. The composition of
    the three controllers. Interprets \<open>interrupt_sink\<close> on the local APIC. Its state is consistent in every
    reachable state; lines refine counters; level-triggered interrupts survive ends of interrupt and the
    switch of modes; inter-processor interrupts reach exactly the addressed processors, the sender included only if it is
    addressed, as long as the APIC IDs are distinct and below the number of processors.

  \<^bold>\<open>The queue between threads.\<close> Workers and coordinator exchange records through rings in shared memory.

  \<^item> \<open>IpcRing\<close>: \<^verbatim>\<open>aero-ipc/src/ring.rs\<close>. The ring buffer with a compare-and-exchange for reservations and commits in order.
    The step relation \<open>ring_step\<close> interleaves any number of producers with the consumer; for capacities that divide
    \<open>2 ^ 32\<close> its runs are those of a first-in first-out queue, pops return within two turns, and no push in flight is
    stuck. The positions are compared with unbounded ones (\<open>ring_at\<close>); outside of these bounds the ring fails, as
    shown by examples.

  \<open>Prelude\<close> holds the integer operations of the Rust library, outcomes, slices, bytes and the word lemmas that the
  components share.

  \<^bold>\<open>How code becomes definitions.\<close> A struct is a record with the fields of the source, an enum a datatype, a
  machine integer a word of its width, \<^verbatim>\<open>usize\<close> indices are natural numbers. A method that takes
  \<^verbatim>\<open>&mut self\<close> returns the new state. \<^verbatim>\<open>Result\<close> is a sum with the error on the left; a panic and running
  out of fuel are separate failures, so a theorem that states the value of a call also states that the
  call returns. The byte loops over RAM and bus take as fuel the number of bytes still to copy,
  which is enough because each turn copies at least one byte; so do the loops of the paging bus and the wrapped accesses. A repeated string
  instruction recurses on its count, a batch on the number of instructions allowed. The word loop of the local APIC and
  the pattern of a bulk store are recursive functions with a termination proof. Traits are dictionaries of operations: the bus of
  the walkers, the handlers of devices, the sinks of the I/O APIC. Locks are held for a whole operation and
  are never contended: the model is sequential, but for the ring, whose atomic operations are steps. Callbacks are calls at the place where the source
  invokes them. Clocks are arguments or fields of the state. \<^verbatim>\<open>debug_assert!\<close> is not modelled (it is off in a release
  build).

  \<^bold>\<open>Not modelled.\<close> The snapshot encodings of the devices (\<^verbatim>\<open>save_state\<close>, \<^verbatim>\<open>load_state\<close>, the crate \<^verbatim>\<open>aero-io-snapshot\<close>),
  the byte-wise MMIO adapters of \<^verbatim>\<open>platform/src/interrupts/mmio.rs\<close>, and the statistics counters. Of the processor: the decoder,
  which is the package \<^verbatim>\<open>iced-x86\<close> and an argument of the step; x87, SSE and the instructions that save their state, likewise an argument; the assists (descriptor
  loads, system instructions, port access) and the delivery of interrupts, where a modelled step ends; the decode cache, accelerated loops,
  tracing and watchpoints of the interpreter. The other crates: the JIT compiler; the GPU and Direct3D translation, which drive host
  libraries; timers, storage, network and USB devices; the WebAssembly bindings and tools. Next in line are the assists with the
  delivery of interrupts, the messages that go through the ring, the snapshot codec with the
  state of the interrupt controllers, and the timer devices that drive the lines modelled here.
\<close>

end
